(* ===== verification/Prelude.thy ===== *)
theory Prelude
  imports Main "HOL-Library.Word" "HOL-Library.Monad_Syntax" "HOL-Library.Sublist"
begin

text \<open>
  Shared ground of the development: the machine integers of the C sources with their checked
  operations, the run-time model of a C statement that may end the process, the counted loops
  that every benchmark is written with, and the fact collections of the components.

  A statement is a function from the state before it to the state after it. The result is an
  \<open>option\<close>: \<open>None\<close> is a run that does not come back (a call of \<open>abort\<close>
  or \<open>exit\<close>, or arithmetic the C standard leaves undefined), so every such path of the
  sources is a branch of the model. The \<open>do\<close> notation is the one of
  \<open>HOL-Library.Monad_Syntax\<close> for \<open>Option.bind\<close>.
\<close>

section \<open>Fact collections\<close>

named_theorems timer_simps \<open>reading and writing the timer of a benchmark\<close>
named_theorems loop_rules \<open>rules for the counted loops\<close>
named_theorems input_simps \<open>sizes and contents of the generated inputs\<close>

section \<open>Machine integers\<close>

type_synonym u8 = "8 word"
type_synonym u32 = "32 word"
type_synonym u64 = "64 word"

text \<open>
  \<open>int64_t\<close> and burrow's \<open>Int\<close> are mathematical integers in the range below. An
  operation that can leave the range is written with the checked operations: C leaves the
  overflow undefined, and the model returns \<open>None\<close>.
\<close>

definition int64_max :: int where
  "int64_max = 9223372036854775807"

definition in_int64 :: "int \<Rightarrow> bool" where
  "in_int64 x \<longleftrightarrow> - int64_max - 1 \<le> x \<and> x \<le> int64_max"

definition check64 :: "int \<Rightarrow> int option" where
  "check64 x = (if in_int64 x then Some x else None)"

definition mul64 :: "int \<Rightarrow> int \<Rightarrow> int option" where
  "mul64 a b = check64 (a * b)"

definition add64 :: "int \<Rightarrow> int \<Rightarrow> int option" where
  "add64 a b = check64 (a + b)"

text \<open>The division of C truncates towards zero. A zero divisor is undefined.\<close>

definition div64 :: "int \<Rightarrow> int \<Rightarrow> int option" where
  "div64 a b = (if b = 0 then None else check64 (sgn a * sgn b * (\<bar>a\<bar> div \<bar>b\<bar>)))"

text \<open>
  The remainder, and the shift to the left: C11 leaves it undefined for a count outside the width, a
  negative operand and a product that is not representable.
\<close>

definition mod64 :: "int \<Rightarrow> int \<Rightarrow> int option" where
  "mod64 a b = (if b = 0 then None else check64 (sgn a * (\<bar>a\<bar> mod \<bar>b\<bar>)))"

definition shl64 :: "int \<Rightarrow> int \<Rightarrow> int option" where
  "shl64 x s = (if 0 \<le> s \<and> s < 64 \<and> 0 \<le> x then check64 (x * 2 ^ nat s) else None)"

text \<open>Two's complement: the representative of \<open>x\<close> modulo \<open>2 ^ 64\<close> in range.\<close>

definition wrap64 :: "int \<Rightarrow> int" where
  "wrap64 x = (x + 9223372036854775808) mod 18446744073709551616 - 9223372036854775808"

lemma wrap64_id [simp]: "in_int64 x \<Longrightarrow> wrap64 x = x"
  by (simp add: wrap64_def in_int64_def int64_max_def)

lemma wrap64_in_range [simp]: "in_int64 (wrap64 x)"
proof -
  have "0 \<le> (x + 9223372036854775808) mod 18446744073709551616"
    "(x + 9223372036854775808) mod 18446744073709551616 < 18446744073709551616" by simp_all
  then show ?thesis unfolding wrap64_def in_int64_def int64_max_def by linarith
qed

lemma word_wrap64 [simp]: "(of_int (wrap64 x) :: u64) = of_int x"
proof -
  have "(of_int ((x + 9223372036854775808) mod 18446744073709551616) :: u64)
    = of_int (x + 9223372036854775808)"
    unfolding word_of_int_eq_iff by (simp add: take_bit_eq_mod)
  then show ?thesis by (simp add: wrap64_def)
qed

lemma check64_Some_iff [simp]: "check64 x = Some y \<longleftrightarrow> y = x \<and> in_int64 x"
  by (auto simp: check64_def)

lemma check64_None_iff [simp]: "check64 x = None \<longleftrightarrow> \<not> in_int64 x"
  by (simp add: check64_def)

lemma mul64_Some_iff [simp]: "mul64 a b = Some y \<longleftrightarrow> y = a * b \<and> in_int64 (a * b)"
  by (simp add: mul64_def)

lemma add64_Some_iff [simp]: "add64 a b = Some y \<longleftrightarrow> y = a + b \<and> in_int64 (a + b)"
  by (simp add: add64_def)

lemma in_int64_nonneg: "0 \<le> x \<Longrightarrow> in_int64 x \<longleftrightarrow> x \<le> int64_max"
  by (simp add: in_int64_def int64_max_def)

lemma div64_nonneg:
  assumes "0 \<le> a" and "0 < b" and "in_int64 a"
  shows "div64 a b = Some (a div b)"
proof -
  have eq: "sgn a * sgn b * (\<bar>a\<bar> div \<bar>b\<bar>) = a div b"
    using assms(1,2) by (cases "a = 0") (auto simp: sgn_if)
  have "a div b \<le> a"
    using assms(1,2) zdiv_mono2 [of a 1 b] by simp
  moreover have "0 \<le> a div b"
    using assms(1,2) by (simp add: pos_imp_zdiv_nonneg_iff)
  ultimately have "in_int64 (a div b)"
    using assms(1,3) by (simp add: in_int64_nonneg)
  with eq assms(2) show ?thesis
    by (simp add: div64_def check64_def)
qed

section \<open>Counted loops\<close>

text \<open>
  \<open>for_loop k i body\<close> is \<open>for (j = i; j < i + k; j++) body\<close>; it ends early when the
  body ends the process. \<open>for_break\<close> is the same loop whose body may \<open>break\<close>: it
  returns \<open>False\<close> with the state to leave the loop.
\<close>

fun for_loop :: "nat \<Rightarrow> int \<Rightarrow> (int \<Rightarrow> 'w \<Rightarrow> 'w option) \<Rightarrow> 'w \<Rightarrow> 'w option" where
  "for_loop 0 i body w = Some w"
| "for_loop (Suc k) i body w = do { w \<leftarrow> body i w; for_loop k (i + 1) body w }"

fun for_break ::
  "nat \<Rightarrow> int \<Rightarrow> (int \<Rightarrow> 'w \<Rightarrow> (bool \<times> 'w) option) \<Rightarrow> 'w \<Rightarrow> 'w option" where
  "for_break 0 i body w = Some w"
| "for_break (Suc k) i body w =
     do { (go_on, w) \<leftarrow> body i w; if go_on then for_break k (i + 1) body w else Some w }"

text \<open>Partial correctness: what the body keeps, the loop keeps.\<close>

lemma for_loop_keeps [loop_rules]:
  assumes "for_loop k i body w = Some w'" and "P w"
    and "\<And>j v v'. body j v = Some v' \<Longrightarrow> P v \<Longrightarrow> P v'"
  shows "P w'"
  using assms(1,2)
  by (induction k arbitrary: i w) (auto simp: bind_eq_Some_conv intro: assms(3))

text \<open>Total correctness, with an invariant indexed by the number of rounds done.\<close>

lemma for_loop_total [loop_rules]:
  assumes "I 0 w"
    and "\<And>j v. j < k \<Longrightarrow> I j v \<Longrightarrow> \<exists>v'. body (i + int j) v = Some v' \<and> I (Suc j) v'"
  shows "\<exists>w'. for_loop k i body w = Some w' \<and> I k w'"
  using assms
proof (induction k arbitrary: i w I)
  case 0
  then show ?case by simp
next
  case (Suc k)
  obtain v where v: "body i w = Some v" "I 1 v"
    using Suc.prems(2) [of 0 w] Suc.prems(1) by auto
  have "\<exists>w'. for_loop k (i + 1) body v = Some w' \<and> I (Suc k) w'"
  proof (rule Suc.IH [of "\<lambda>j. I (Suc j)"])
    show "I (Suc 0) v" using v(2) by simp
    fix j u assume "j < k" and "I (Suc j) u"
    with Suc.prems(2) [of "Suc j" u]
    show "\<exists>v'. body (i + 1 + int j) u = Some v' \<and> I (Suc (Suc j)) v'"
      by (simp add: algebra_simps)
  qed
  with v(1) show ?case by simp
qed

lemma for_loop_add:
  "for_loop (k + m) i body w = do { w \<leftarrow> for_loop k i body w; for_loop m (i + int k) body w }"
  by (induction k arbitrary: i w) (auto simp: algebra_simps intro!: Option.bind_cong)

text \<open>A body that always returns makes a loop that is a fold.\<close>

lemma for_loop_fold:
  "for_loop k i (\<lambda>j w. Some (f j w)) w = Some (fold f (map (\<lambda>j. i + int j) [0..<k]) w)"
proof (induction k arbitrary: i w)
  case 0
  then show ?case by simp
next
  case (Suc k)
  have "map (\<lambda>j. i + int j) [0..<Suc k] = i # map (\<lambda>j. (i + 1) + int j) [0..<k]"
    by (simp add: upt_conv_Cons map_Suc_upt [symmetric] algebra_simps comp_def del: upt_Suc)
  then show ?case by (simp add: Suc.IH)
qed

lemma for_break_keeps [loop_rules]:
  assumes "for_break k i body w = Some w'" and "P w"
    and "\<And>j v g v'. body j v = Some (g, v') \<Longrightarrow> P v \<Longrightarrow> P v'"
  shows "P w'"
  using assms(1,2)
  by (induction k arbitrary: i w) (auto simp: bind_eq_Some_conv split: if_splits intro: assms(3))

lemma for_break_total [loop_rules]:
  assumes "P w" and "\<And>j v. P v \<Longrightarrow> \<exists>g v'. body j v = Some (g, v') \<and> P v'"
  shows "\<exists>w'. for_break k i body w = Some w' \<and> P w'"
  using assms(1)
proof (induction k arbitrary: i w)
  case (Suc k)
  obtain g v where v: "body i w = Some (g, v)" "P v"
    using assms(2) [OF Suc.prems] by blast
  with Suc.IH [OF v(2), of "i + 1"] show ?case by auto
qed simp

lemma for_loop_cong_on:
  assumes "\<And>j v. i \<le> j \<Longrightarrow> j < i + int k \<Longrightarrow> f j v = g j v"
  shows "for_loop k i f w = for_loop k i g w"
  using assms
proof (induction k arbitrary: i w)
  case 0
  then show ?case by simp
next
  case (Suc k)
  have "f i w = g i w" using Suc.prems by simp
  moreover have "for_loop k (i + 1) f v = for_loop k (i + 1) g v" for v
    by (rule Suc.IH) (use Suc.prems in auto)
  ultimately show ?case by (cases "g i w") auto
qed

end
