(* ===== verification/Timer.thy ===== *)
theory Timer
  imports Prelude
begin

text \<open>
  The benchmark handle and its timer: \<open>struct Bench\<close> of \<open>include/bench.h\<close> and the
  clock, sink and timer sections of \<open>src/bench.c\<close>.

  The state of a run is a \<open>world\<close>: the handle \<open>*b\<close>, the writes to the two volatile
  sinks in the order they happen, and the rest of the process and the machine (heap, burrow,
  goroutines, clock), a type parameter that only the calls given as parameters can change.
\<close>

section \<open>The handle\<close>

record bench =
  b_name :: string
  b_n :: int
  b_ns :: int
  b_bytes :: u64
  b_allocs :: u64
  accum_ns :: int
  started_ns :: int
  running :: bool

text \<open>\<open>memset(&b, 0, sizeof b)\<close>.\<close>

definition zero_bench :: bench where
  "zero_bench = \<lparr>b_name = [], b_n = 0, b_ns = 0, b_bytes = 0, b_allocs = 0,
     accum_ns = 0, started_ns = 0, running = False\<rparr>"

datatype sunk = KeptPtr nat | KeptU64 u64

record 'l world =
  bch :: bench
  kept :: "sunk list"
  rest :: 'l

type_synonym 'l stmt = "'l world \<Rightarrow> 'l world option"

text \<open>A call of code outside this repository: it sees and changes only the rest.\<close>

definition call :: "('l \<Rightarrow> 'a \<times> 'l) \<Rightarrow> 'l world \<Rightarrow> 'a \<times> 'l world" where
  "call f w = (let (x, l) = f (rest w) in (x, w\<lparr>rest := l\<rparr>))"

definition perform :: "('l \<Rightarrow> 'l) \<Rightarrow> 'l world \<Rightarrow> 'l world" where
  "perform f w = w\<lparr>rest := f (rest w)\<rparr>"

section \<open>The sink\<close>

definition bench_keep :: "nat \<Rightarrow> 'l world \<Rightarrow> 'l world" where
  "bench_keep p w = w\<lparr>kept := kept w @ [KeptPtr p]\<rparr>"

definition bench_keep_u64 :: "u64 \<Rightarrow> 'l world \<Rightarrow> 'l world" where
  "bench_keep_u64 v w = w\<lparr>kept := kept w @ [KeptU64 v]\<rparr>"

definition bench_hide :: "'a \<Rightarrow> 'a" where
  "bench_hide p = p"

section \<open>The clock\<close>

text \<open>
  Both branches of \<open>bench_now_ns\<close>. The POSIX branch reads a \<open>timespec\<close>; the Windows
  branch divides a tick count by the tick frequency, in two parts so that the product stays in
  range. The sum of the POSIX branch and the time that pause adds up are plain integers here: they leave \<open>int64_t\<close>
  only after 292 years of the clock.
\<close>

definition now_posix :: "int \<times> int \<Rightarrow> int" where
  "now_posix ts = fst ts * 1000000000 + snd ts"

definition now_windows :: "int \<Rightarrow> int \<Rightarrow> int option" where
  "now_windows freq t = do {
     whole \<leftarrow> div64 t freq;
     part \<leftarrow> check64 (t - whole * freq);
     a \<leftarrow> mul64 whole 1000000000;
     c \<leftarrow> mul64 part 1000000000;
     d \<leftarrow> div64 c freq;
     add64 a d
   }"

definition bench_now_ns :: "('l \<Rightarrow> (int \<times> int) \<times> 'l) \<Rightarrow> 'l world \<Rightarrow> int \<times> 'l world" where
  "bench_now_ns gettime w = (let (ts, w) = call gettime w in (now_posix ts, w))"

section \<open>The timer\<close>

definition bench_pause :: "('l \<Rightarrow> (int \<times> int) \<times> 'l) \<Rightarrow> 'l world \<Rightarrow> 'l world" where
  "bench_pause gettime w =
     (if \<not> running (bch w) then w
      else let (t, w) = bench_now_ns gettime w; b = bch w in
        w\<lparr>bch := b\<lparr>accum_ns := accum_ns b + (t - started_ns b), running := False\<rparr>\<rparr>)"

definition bench_resume :: "('l \<Rightarrow> (int \<times> int) \<times> 'l) \<Rightarrow> 'l world \<Rightarrow> 'l world" where
  "bench_resume gettime w =
     (if running (bch w) then w
      else let (t, w) = bench_now_ns gettime w; b = bch w in
        w\<lparr>bch := b\<lparr>started_ns := t, running := True\<rparr>\<rparr>)"

definition bench_report_allocs :: "u64 \<Rightarrow> u64 \<Rightarrow> 'l world \<Rightarrow> 'l world" where
  "bench_report_allocs bytes allocs w =
     w\<lparr>bch := (bch w)\<lparr>b_bytes := bytes, b_allocs := allocs\<rparr>\<rparr>"

text \<open>
  \<open>BENCH_LOOP(b)\<close>. The macro reads \<open>b->n\<close> before every round; the model takes it
  once, and \<open>bench_loop_rereads\<close> below shows that this is the same loop for every body
  that does not write the field, as no benchmark does.
\<close>

definition bench_loop :: "(int \<Rightarrow> 'l stmt) \<Rightarrow> 'l stmt" where
  "bench_loop body w = for_loop (nat (b_n (bch w))) 0 body w"

fun bench_loop_macro :: "nat \<Rightarrow> int \<Rightarrow> (int \<Rightarrow> 'l stmt) \<Rightarrow> 'l stmt" where
  "bench_loop_macro 0 i body w = None"
| "bench_loop_macro (Suc fuel) i body w =
     (if i < b_n (bch w)
      then do { w \<leftarrow> body i w; bench_loop_macro fuel (i + 1) body w }
      else Some w)"

text \<open>The loop with a \<open>break\<close> in its body.\<close>

definition bench_loop_break :: "(int \<Rightarrow> 'l world \<Rightarrow> (bool \<times> 'l world) option) \<Rightarrow> 'l stmt" where
  "bench_loop_break body w = for_break (nat (b_n (bch w))) 0 body w"

section \<open>What the operations read and write\<close>

lemma bch_call [timer_simps, simp]: "bch (snd (call f w)) = bch w"
  by (simp add: call_def split_beta)

lemma kept_call [timer_simps, simp]: "kept (snd (call f w)) = kept w"
  by (simp add: call_def split_beta)

lemma rest_call [timer_simps, simp]: "rest (snd (call f w)) = snd (f (rest w))"
  by (simp add: call_def split_beta)

lemma fst_call [timer_simps, simp]: "fst (call f w) = fst (f (rest w))"
  by (simp add: call_def split_beta)

lemma perform_sel [timer_simps, simp]:
  "bch (perform f w) = bch w" "kept (perform f w) = kept w" "rest (perform f w) = f (rest w)"
  by (simp_all add: perform_def)

lemma bench_keep_sel [timer_simps, simp]:
  "bch (bench_keep p w) = bch w" "rest (bench_keep p w) = rest w"
  "kept (bench_keep p w) = kept w @ [KeptPtr p]"
  by (simp_all add: bench_keep_def)

lemma bench_keep_u64_sel [timer_simps, simp]:
  "bch (bench_keep_u64 v w) = bch w" "rest (bench_keep_u64 v w) = rest w"
  "kept (bench_keep_u64 v w) = kept w @ [KeptU64 v]"
  by (simp_all add: bench_keep_u64_def)

lemma bench_now_ns_sel [timer_simps, simp]:
  "fst (bench_now_ns gt w) = now_posix (fst (gt (rest w)))"
  "bch (snd (bench_now_ns gt w)) = bch w" "kept (snd (bench_now_ns gt w)) = kept w"
  "rest (snd (bench_now_ns gt w)) = snd (gt (rest w))"
  by (simp_all add: bench_now_ns_def call_def split_beta)

lemma bench_pause_sel [timer_simps]:
  "b_n (bch (bench_pause gt w)) = b_n (bch w)" "b_name (bch (bench_pause gt w)) = b_name (bch w)"
  "b_bytes (bch (bench_pause gt w)) = b_bytes (bch w)"
  "b_allocs (bch (bench_pause gt w)) = b_allocs (bch w)"
  "kept (bench_pause gt w) = kept w" "running (bch (bench_pause gt w)) = False"
  "started_ns (bch (bench_pause gt w)) = started_ns (bch w)"
  "rest (bench_pause gt w) = (if running (bch w) then snd (gt (rest w)) else rest w)"
  "accum_ns (bch (bench_pause gt w)) = accum_ns (bch w)
     + (if running (bch w) then now_posix (fst (gt (rest w))) - started_ns (bch w) else 0)"
  by (simp_all add: bench_pause_def split_beta Let_def)

lemma bench_resume_sel [timer_simps]:
  "b_n (bch (bench_resume gt w)) = b_n (bch w)" "b_name (bch (bench_resume gt w)) = b_name (bch w)"
  "b_bytes (bch (bench_resume gt w)) = b_bytes (bch w)"
  "b_allocs (bch (bench_resume gt w)) = b_allocs (bch w)"
  "kept (bench_resume gt w) = kept w" "running (bch (bench_resume gt w)) = True"
  "accum_ns (bch (bench_resume gt w)) = accum_ns (bch w)"
  "rest (bench_resume gt w) = (if running (bch w) then rest w else snd (gt (rest w)))"
  "started_ns (bch (bench_resume gt w)) =
     (if running (bch w) then started_ns (bch w) else now_posix (fst (gt (rest w))))"
  by (simp_all add: bench_resume_def split_beta Let_def)

text \<open>A second call in the same state does nothing.\<close>

lemma bench_pause_idem [simp]: "bench_pause gt (bench_pause gt w) = bench_pause gt w"
  by (subst bench_pause_def) (simp add: timer_simps)

lemma bench_resume_idem [simp]: "bench_resume gt (bench_resume gt w) = bench_resume gt w"
  by (subst bench_resume_def) (simp add: timer_simps)

section \<open>The loop macro\<close>

lemma macro_from:
  assumes keeps: "\<And>j v v'. body j v = Some v' \<Longrightarrow> b_n (bch v') = b_n (bch v)"
    and "nat (b_n (bch w) - i) < fuel" and "0 \<le> i"
  shows "bench_loop_macro fuel i body w = for_loop (nat (b_n (bch w) - i)) i body w"
  using assms(2,3)
proof (induction fuel arbitrary: i w)
  case 0
  then show ?case by simp
next
  case (Suc fuel)
  show ?case
  proof (cases "i < b_n (bch w)")
    case False
    then show ?thesis by simp
  next
    case True
    then have k: "nat (b_n (bch w) - i) = Suc (nat (b_n (bch w) - (i + 1)))"
      by simp
    show ?thesis
    proof (cases "body i w")
      case None
      with True k show ?thesis by simp
    next
      case (Some v)
      then have n: "b_n (bch v) = b_n (bch w)" by (rule keeps)
      have "bench_loop_macro fuel (i + 1) body v
          = for_loop (nat (b_n (bch v) - (i + 1))) (i + 1) body v"
        by (rule Suc.IH) (use Suc.prems k n in auto)
      with True Some n show ?thesis by (simp add: k)
    qed
  qed
qed

text \<open>
  Equivalence: the macro \<open>BENCH_LOOP\<close>, which re-reads \<open>b->n\<close> before every round,
  is the counted loop of \<open>b->n\<close> rounds for every body that leaves the field alone; one
  unit of fuel more than \<open>b->n\<close> is enough for it to stop.
\<close>
theorem bench_loop_rereads:
  assumes "\<And>j v v'. body j v = Some v' \<Longrightarrow> b_n (bch v') = b_n (bch v)"
    and "nat (b_n (bch w)) < fuel"
  shows "bench_loop_macro fuel 0 body w = bench_loop body w"
  using macro_from [where body = body and w = w and i = 0 and fuel = fuel] assms
  by (simp add: bench_loop_def)

theorem bench_loop_rereads_witness:
  "bench_loop_macro 3 0 (\<lambda>j w. Some (bench_keep_u64 (of_int j) w))
     \<lparr>bch = zero_bench\<lparr>b_n := 2\<rparr>, kept = [], rest = ()\<rparr>
   = bench_loop (\<lambda>j w. Some (bench_keep_u64 (of_int j) w))
     \<lparr>bch = zero_bench\<lparr>b_n := 2\<rparr>, kept = [], rest = ()\<rparr>"
  by (rule bench_loop_rereads) auto

section \<open>The clock of Windows\<close>

text \<open>
  C37. Bounds: splitting the division keeps every product in range. For a positive frequency
  of at most 9.2 GHz and a tick count whose nanosecond value is representable, the Windows
  branch returns exactly the floor of \<open>ticks * 10^9 / freq\<close>, with no overflow on the way,
  even where \<open>ticks * 10^9\<close> itself would overflow.
\<close>
theorem now_windows_exact:
  assumes "0 < freq" and "freq \<le> 9223372036" and "0 \<le> t" and "in_int64 t"
    and "in_int64 (t * 1000000000 div freq)"
  shows "now_windows freq t = Some (t * 1000000000 div freq)"
proof -
  define whole part where "whole = t div freq" and "part = t mod freq"
  have t: "t = whole * freq + part" and part: "0 \<le> part" "part < freq" and whole: "0 \<le> whole"
    using assms(1,3) by (simp_all add: whole_def part_def pos_imp_zdiv_nonneg_iff)
  have split: "t * 1000000000 div freq = whole * 1000000000 + part * 1000000000 div freq"
  proof -
    have "t * 1000000000 = part * 1000000000 + whole * 1000000000 * freq"
      by (simp add: t algebra_simps)
    then show ?thesis using assms(1) by simp
  qed
  have c: "0 \<le> part * 1000000000" "part * 1000000000 \<le> int64_max"
    using part assms(2) by (simp_all add: int64_max_def)
  have d: "0 \<le> part * 1000000000 div freq"
    using c(1) assms(1) by (simp add: pos_imp_zdiv_nonneg_iff)
  have sum: "whole * 1000000000 + part * 1000000000 div freq \<le> int64_max"
    using assms(5) by (simp add: split in_int64_def)
  have "div64 t freq = Some whole"
    using assms(1,3,4) by (simp add: div64_nonneg whole_def)
  moreover have "check64 (t - whole * freq) = Some part"
    using part assms(2) by (simp add: t in_int64_nonneg int64_max_def)
  moreover have "mul64 whole 1000000000 = Some (whole * 1000000000)"
    using whole sum d by (simp add: in_int64_nonneg)
  moreover have "mul64 part 1000000000 = Some (part * 1000000000)"
    using c by (simp add: in_int64_nonneg)
  moreover have "div64 (part * 1000000000) freq = Some (part * 1000000000 div freq)"
    using c assms(1) by (simp add: div64_nonneg in_int64_nonneg)
  moreover have "add64 (whole * 1000000000) (part * 1000000000 div freq)
      = Some (whole * 1000000000 + part * 1000000000 div freq)"
    using sum whole d by (simp add: in_int64_nonneg)
  ultimately show ?thesis
    by (simp only: now_windows_def split Option.bind.simps)
qed

theorem now_windows_exact_witness:
  "now_windows 10000000 12345678901234567 = Some (12345678901234567 * 1000000000 div 10000000)
   \<and> \<not> in_int64 (12345678901234567 * 1000000000)"
  using now_windows_exact [of 10000000 12345678901234567] by (simp add: in_int64_def int64_max_def)

end
