(* ===== verification/Runner.thy ===== *)
theory Runner
  imports Timer
begin

text \<open>
  Running one benchmark and choosing its iteration count: \<open>run_measured\<close> and
  \<open>pick_n\<close> of \<open>src/bench.c\<close>, and the contract that a benchmark owes them, as a
  locale that every modelled benchmark body is an instance of.
\<close>

section \<open>Definitions\<close>

record 'l entry =
  e_name :: string
  e_fn :: "'l stmt"

definition N_MAX :: int where
  "N_MAX = 1000000000"

text \<open>
  \<open>run_measured(e, n, wall_ns)\<close>. The local handle \<open>b\<close> is the handle of the world
  while the benchmark runs and is returned by value; \<open>want_wall\<close> is \<open>wall_ns != NULL\<close>.
\<close>

definition run_measured ::
  "('l \<Rightarrow> (int \<times> int) \<times> 'l) \<Rightarrow> 'l entry \<Rightarrow> int \<Rightarrow> bool \<Rightarrow> 'l world
     \<Rightarrow> (bench \<times> int \<times> 'l world) option" where
  "run_measured gettime e n want_wall w = do {
     let w = w\<lparr>bch := zero_bench\<lparr>b_name := e_name e, b_n := n\<rparr>\<rparr>;
     let (start, w) = bench_now_ns gettime w;
     let w = bench_resume gettime w;
     w \<leftarrow> e_fn e w;
     let w = bench_pause gettime w;
     let (wall, w) =
       (if want_wall then let (stop, w) = bench_now_ns gettime w in (stop - start, w) else (0, w));
     let b = (bch w)\<lparr>b_ns := accum_ns (bch w)\<rparr>;
     Some (b, wall, w)
   }"

text \<open>
  One round's choice of the next count, with the checks of C's \<open>int64_t\<close> arithmetic.
\<close>

definition next_timed :: "int \<Rightarrow> int \<Rightarrow> int \<Rightarrow> int option" where
  "next_timed n ns target_ns =
     (if ns \<le> 0 then mul64 n 100
      else do {
        prod \<leftarrow> mul64 n target_ns;
        next \<leftarrow> div64 prod ns;
        over \<leftarrow> div64 next 5;
        next \<leftarrow> add64 next over;
        cap \<leftarrow> mul64 n 100;
        let next = (if cap < next then cap else next);
        if next \<le> n then add64 n 1 else Some next
      })"

definition next_n :: "int \<Rightarrow> int \<Rightarrow> int \<Rightarrow> int \<Rightarrow> int option" where
  "next_n n ns wall target_ns = do {
     next \<leftarrow> next_timed n ns target_ns;
     if 0 < wall \<and> ns < wall then do {
       prod \<leftarrow> mul64 n target_ns;
       by_wall \<leftarrow> div64 prod wall;
       over \<leftarrow> div64 by_wall 5;
       by_wall \<leftarrow> add64 by_wall over;
       let next = (if by_wall < next then by_wall else next);
       if next \<le> n then add64 n 1 else Some next
     } else Some next
   }"

text \<open>\<open>rounds\<close> is the number of rounds left: \<open>pick_n\<close> starts with 30 and \<open>n = 1\<close>.\<close>

fun pick_n_rounds ::
  "('l \<Rightarrow> (int \<times> int) \<times> 'l) \<Rightarrow> 'l entry \<Rightarrow> int \<Rightarrow> nat \<Rightarrow> int \<Rightarrow> 'l world
     \<Rightarrow> (int \<times> 'l world) option" where
  "pick_n_rounds gettime e target_ns 0 n w = Some (n, w)"
| "pick_n_rounds gettime e target_ns (Suc rounds) n w = do {
     (b, wall, w) \<leftarrow> run_measured gettime e n True w;
     if target_ns \<le> b_ns b \<or> target_ns \<le> wall \<or> N_MAX \<le> n then Some (n, w)
     else do {
       next \<leftarrow> next_n n (b_ns b) wall target_ns;
       if N_MAX < next then Some (N_MAX, w)
       else pick_n_rounds gettime e target_ns rounds next w
     }
   }"

definition pick_n ::
  "('l \<Rightarrow> (int \<times> int) \<times> 'l) \<Rightarrow> 'l entry \<Rightarrow> int \<Rightarrow> 'l world \<Rightarrow> (int \<times> 'l world) option" where
  "pick_n gettime e target_ns w = pick_n_rounds gettime e target_ns 30 1 w"

section \<open>The clock and the contract of a benchmark\<close>

text \<open>
  \<open>clock_gettime(CLOCK_MONOTONIC)\<close> as POSIX documents it: there is a time that never goes
  back, and a reading is a time between the call and its return.
\<close>

definition clock_law :: "('l \<Rightarrow> (int \<times> int) \<times> 'l) \<Rightarrow> ('l \<Rightarrow> int) \<Rightarrow> bool" where
  "clock_law gettime time \<longleftrightarrow>
     (\<forall>l. time l \<le> now_posix (fst (gettime l))
        \<and> now_posix (fst (gettime l)) \<le> time (snd (gettime l)))"

lemma clock_lawD:
  "clock_law gt time \<Longrightarrow> time l \<le> now_posix (fst (gt l))"
  "clock_law gt time \<Longrightarrow> now_posix (fst (gt l)) \<le> time (snd (gt l))"
  by (auto simp: clock_law_def)

text \<open>What the timer would report if it were stopped now.\<close>

definition elapsed :: "('l \<Rightarrow> int) \<Rightarrow> 'l world \<Rightarrow> int" where
  "elapsed time w = accum_ns (bch w)
     + (if running (bch w) then time (rest w) - started_ns (bch w) else 0)"

text \<open>
  From \<open>w\<close> to \<open>w'\<close> the handle stays the handle of the same run, and the timer gained
  no more than the time that passed.
\<close>

definition advances :: "('l \<Rightarrow> int) \<Rightarrow> 'l world \<Rightarrow> 'l world \<Rightarrow> bool" where
  "advances time w w' \<longleftrightarrow>
     b_n (bch w') = b_n (bch w) \<and> b_name (bch w') = b_name (bch w)
     \<and> elapsed time w \<le> elapsed time w'
     \<and> elapsed time w' - elapsed time w \<le> time (rest w') - time (rest w)"

lemma advances_refl [simp, intro]: "advances time w w"
  by (simp add: advances_def)

lemma advances_trans [trans]:
  "advances time u v \<Longrightarrow> advances time v w \<Longrightarrow> advances time u w"
  by (auto simp: advances_def)

lemma advances_time: "advances time w w' \<Longrightarrow> time (rest w) \<le> time (rest w')"
  by (simp add: advances_def)

lemma advances_pause:
  "clock_law gt time \<Longrightarrow> advances time w (bench_pause gt w)"
  using clock_lawD [of gt time "rest w"]
  by (auto simp: advances_def elapsed_def timer_simps)

lemma advances_resume:
  "clock_law gt time \<Longrightarrow> advances time w (bench_resume gt w)"
  using clock_lawD [of gt time "rest w"]
  by (auto simp: advances_def elapsed_def timer_simps)

lemma advances_now:
  "clock_law gt time \<Longrightarrow> advances time w (snd (bench_now_ns gt w))"
  using clock_lawD [of gt time "rest w"]
  by (auto simp: advances_def elapsed_def)

lemma advances_keep [simp]:
  "advances time w (bench_keep p w)" "advances time w (bench_keep_u64 v w)"
  by (auto simp: advances_def elapsed_def)

lemma advances_report [simp]: "advances time w (bench_report_allocs x y w)"
  by (auto simp: advances_def elapsed_def bench_report_allocs_def)

lemma advances_rest:
  "bch w' = bch w \<Longrightarrow> time (rest w) \<le> time (rest w') \<Longrightarrow> advances time w w'"
  by (auto simp: advances_def elapsed_def)

lemma advances_loop:
  assumes "bench_loop body w = Some w'"
    and "\<And>j v v'. body j v = Some v' \<Longrightarrow> advances time v v'"
  shows "advances time w w'"
  using assms(1) unfolding bench_loop_def
  by (rule for_loop_keeps [where P = "advances time w"])
    (auto intro: advances_trans assms(2))

lemmas advances_intros = advances_pause advances_resume advances_now advances_keep
  advances_report

text \<open>
  The interface between the harness and a benchmark: whatever the function does, it advances
  the handle it was given. The harness relies on nothing else.
\<close>

locale benchmark =
  fixes gettime :: "'l \<Rightarrow> (int \<times> int) \<times> 'l"
    and time :: "'l \<Rightarrow> int"
    and fn :: "'l stmt"
  assumes clock: "clock_law gettime time"
    and fn_advances: "fn w = Some w' \<Longrightarrow> advances time w w'"
begin

lemma measured:
  assumes "run_measured gettime \<lparr>e_name = nm, e_fn = fn\<rparr> n True w = Some (b, wall, w')"
  shows "b_n b = n" and "b_name b = nm" and "0 \<le> b_ns b" and "b_ns b \<le> wall"
    and "time (rest w) + wall \<le> time (rest w')"
proof -
  define w0 where "w0 = w\<lparr>bch := zero_bench\<lparr>b_name := nm, b_n := n\<rparr>\<rparr>"
  define w1 where "w1 = snd (bench_now_ns gettime w0)"
  define start where "start = fst (bench_now_ns gettime w0)"
  define w2 where "w2 = bench_resume gettime w1"
  obtain w3 where w3: "fn w2 = Some w3"
    and w': "w' = snd (bench_now_ns gettime (bench_pause gettime w3))"
    and wall: "wall = fst (bench_now_ns gettime (bench_pause gettime w3)) - start"
    and b: "b = (bch (bench_pause gettime w3))\<lparr>b_ns := accum_ns (bch (bench_pause gettime w3))\<rparr>"
    using assms
    by (auto simp: run_measured_def w0_def w1_def w2_def start_def bind_eq_Some_conv split_beta
        Let_def)
  have a12: "advances time w1 w2" and a34: "advances time w3 (bench_pause gettime w3)"
    using clock by (auto simp: w2_def intro: advances_intros)
  have "advances time w2 w3" using w3 by (rule fn_advances)
  with a12 a34 have a: "advances time w1 (bench_pause gettime w3)"
    by (blast intro: advances_trans)
  have e0: "elapsed time w1 = 0" and r1: "rest w1 = snd (gettime (rest w))"
    and start: "start = now_posix (fst (gettime (rest w)))"
    by (simp_all add: elapsed_def w1_def w0_def zero_bench_def start_def)
  have e1: "elapsed time (bench_pause gettime w3) = b_ns b"
    by (simp add: elapsed_def b timer_simps)
  let ?p = "rest (bench_pause gettime w3)"
  have stop: "wall = now_posix (fst (gettime ?p)) - start" "rest w' = snd (gettime ?p)"
    by (simp_all add: wall w')
  note c = clock_lawD [OF clock]
  show "b_n b = n" "b_name b = nm"
    using a by (simp_all add: advances_def b w1_def w0_def)
  show "0 \<le> b_ns b"
    using a e0 e1 by (simp add: advances_def)
  show "b_ns b \<le> wall"
    using a e0 e1 c(2) [of "rest w"] c(1) [of ?p] unfolding stop start r1 [symmetric] advances_def
    by (simp add: r1)
  show "time (rest w) + wall \<le> time (rest w')"
    using c(1) [of "rest w"] c(2) [of ?p] unfolding stop start by simp
qed

end


section \<open>The next iteration count\<close>

lemma next_timed_range:
  assumes "next_timed n ns target = Some m" and "1 \<le> n"
  shows "n < m" and "m \<le> 100 * n"
  using assms
  by (auto simp: next_timed_def bind_eq_Some_conv Let_def split: if_splits)

lemma next_n_range:
  assumes "next_n n ns wall target = Some m" and "1 \<le> n"
  shows "n < m" and "m \<le> 100 * n"
  using assms next_timed_range [of n ns target]
  by (auto simp: next_n_def bind_eq_Some_conv Let_def split: if_splits)

text \<open>The largest target for which no product of the search can overflow: 7.68 seconds.\<close>

definition safe_target :: int where
  "safe_target = 7686143364"

lemma scaled_in_range:
  assumes "1 \<le> n" and "n < N_MAX" and "0 < target" and "target \<le> safe_target" and "0 < t"
  shows "in_int64 (n * target)" and "0 \<le> n * target div t"
    and "in_int64 (n * target div t + n * target div t div 5)"
proof -
  have "n * target \<le> 999999999 * safe_target"
    using assms by (intro mult_mono) (auto simp: N_MAX_def)
  then have p: "0 \<le> n * target" "n * target \<le> 7686143356313856636"
    using assms by (simp_all add: safe_target_def)
  then show "in_int64 (n * target)" by (simp add: in_int64_def int64_max_def)
  have "n * target div t \<le> n * target"
    using p(1) assms(5) zdiv_mono2 [of "n * target" 1 t] by simp
  with p have q: "n * target div t \<le> 7686143356313856636" by simp
  show r: "0 \<le> n * target div t"
    using p assms(5) by (simp add: pos_imp_zdiv_nonneg_iff)
  from q r show "in_int64 (n * target div t + n * target div t div 5)"
    unfolding in_int64_def int64_max_def by linarith
qed

lemma scaled_Some:
  assumes "1 \<le> n" and "n < N_MAX" and "0 < target" and "target \<le> safe_target" and "0 < t"
  defines "q \<equiv> n * target div t"
  shows "mul64 n target = Some (n * target)" and "div64 (n * target) t = Some q"
    and "div64 q 5 = Some (q div 5)" and "add64 q (q div 5) = Some (q + q div 5)"
    and "mul64 n 100 = Some (n * 100)" and "add64 n 1 = Some (n + 1)"
proof -
  note r = scaled_in_range [OF assms(1-5)]
  show "mul64 n target = Some (n * target)" using r(1) by simp
  show "add64 q (q div 5) = Some (q + q div 5)" using r(3) by (simp add: q_def)
  have nt: "0 \<le> n * target" using assms(1,3) by simp
  show "div64 (n * target) t = Some q"
    using r(1) nt assms(5) by (simp add: div64_nonneg q_def)
  have "in_int64 q"
    using r(2,3) unfolding q_def in_int64_def int64_max_def by linarith
  then show "div64 q 5 = Some (q div 5)" using r(2) by (simp add: div64_nonneg q_def)
  show "mul64 n 100 = Some (n * 100)" "add64 n 1 = Some (n + 1)"
    using assms(1,2) by (simp_all add: in_int64_def int64_max_def N_MAX_def)
qed

lemma next_timed_eq:
  assumes "1 \<le> n" and "n < N_MAX" and "0 < target" and "target \<le> safe_target"
  shows "next_timed n ns target =
    Some (if ns \<le> 0 then n * 100
          else max (n + 1) (min (n * 100) (n * target div ns + n * target div ns div 5)))"
proof (cases "ns \<le> 0")
  case True
  with scaled_Some(5) [OF assms, of 1] show ?thesis by (simp add: next_timed_def)
next
  case False
  then have "0 < ns" by simp
  note eqs = scaled_Some [OF assms this]
  show ?thesis
    using False assms(1)
    by (simp only: next_timed_def eqs Option.bind.simps Let_def if_False) (auto simp: min_def max_def)
qed

lemma at_least_one_more:
  fixes n a b :: int
  shows "(let next = (if a < b then a else b) in if next \<le> n then Some (n + 1) else Some next)
    = Some (max (n + 1) (min a b))"
  by (simp add: Let_def min_def max_def)

lemma next_n_eq:
  fixes n ns wall target :: int
  assumes "1 \<le> n" and "n < N_MAX" and "0 < target" and "target \<le> safe_target"
  defines "byw \<equiv> n * target div wall + n * target div wall div 5"
  shows "next_n n ns wall target =
    Some (if 0 < wall \<and> ns < wall
          then max (n + 1) (min byw (the (next_timed n ns target)))
          else the (next_timed n ns target))"
proof -
  obtain m where m: "next_timed n ns target = Some m"
    using next_timed_eq [OF assms(1-4)] by blast
  show ?thesis
  proof (cases "0 < wall \<and> ns < wall")
    case True
    then have "0 < wall" by simp
    note eqs = scaled_Some [OF assms(1-4) this]
    show ?thesis
      using True unfolding next_n_def m
      by (simp only: eqs Option.bind.simps at_least_one_more if_True simp_thms option.sel byw_def)
  next
    case False
    then show ?thesis unfolding next_n_def m by auto
  qed
qed

section \<open>The search\<close>

text \<open>Inversion of one round.\<close>

lemma pick_n_round_cases:
  assumes "pick_n_rounds gt e target (Suc rounds) n w = Some (r, w')"
  obtains (stop) b wall where "run_measured gt e n True w = Some (b, wall, w')" and "r = n"
      and "target \<le> b_ns b \<or> target \<le> wall \<or> N_MAX \<le> n"
    | (cap) "r = N_MAX"
    | (go) m v where "n < m \<or> n < 1" and "m \<le> N_MAX"
      and "pick_n_rounds gt e target rounds m v = Some (r, w')"
proof -
  obtain b wall v where m: "run_measured gt e n True w = Some (b, wall, v)"
    using assms by (auto simp: bind_eq_Some_conv)
  show thesis
  proof (cases "target \<le> b_ns b \<or> target \<le> wall \<or> N_MAX \<le> n")
    case True
    with assms m show ?thesis by (intro stop) auto
  next
    case False
    with assms m obtain m where nx: "next_n n (b_ns b) wall target = Some m"
      and re: "if N_MAX < m then r = N_MAX
               else pick_n_rounds gt e target rounds m v = Some (r, w')"
      by (auto simp: bind_eq_Some_conv split: if_splits)
    have "n < m \<or> n < 1" using next_n_range(1) [OF nx] by linarith
    with re cap go show ?thesis by (cases "N_MAX < m") auto
  qed
qed

lemma pick_n_rounds_range:
  assumes "pick_n_rounds gt e target rounds n w = Some (r, w')" and "1 \<le> n" and "n \<le> N_MAX"
  shows "1 \<le> r \<and> r \<le> N_MAX"
  using assms
proof (induction rounds arbitrary: n w)
  case (Suc rounds)
  from Suc.prems(1) show ?case
  proof (cases rule: pick_n_round_cases)
    case (go m v)
    with Suc.prems(2) have "1 \<le> m" by linarith
    with go(2,3) show ?thesis by (intro Suc.IH)
  qed (use Suc.prems in \<open>auto simp: N_MAX_def\<close>)
qed auto

lemma pick_n_rounds_reason:
  assumes "pick_n_rounds gt e target rounds n w = Some (r, w')" and "1 \<le> n"
  shows "r = N_MAX \<or> n + int rounds \<le> r \<or>
    (\<exists>v b wall. run_measured gt e r True v = Some (b, wall, w')
        \<and> (target \<le> b_ns b \<or> target \<le> wall \<or> N_MAX \<le> r))"
  using assms
proof (induction rounds arbitrary: n w)
  case (Suc rounds)
  from Suc.prems(1) show ?case
  proof (cases rule: pick_n_round_cases)
    case (go m v)
    with Suc.prems(2) have "n < m" by linarith
    moreover have "r = N_MAX \<or> m + int rounds \<le> r \<or>
        (\<exists>v b wall. run_measured gt e r True v = Some (b, wall, w')
          \<and> (target \<le> b_ns b \<or> target \<le> wall \<or> N_MAX \<le> r))"
      using go(3) Suc.prems(2) \<open>n < m\<close> by (intro Suc.IH) auto
    ultimately show ?thesis by auto
  qed auto
qed auto

lemma pick_n_in_range:
  assumes "pick_n gettime e target_ns w = Some (n, w')"
  shows "1 \<le> n \<and> n \<le> N_MAX"
  using assms pick_n_rounds_range [of gettime e target_ns 30 1 w n w']
  by (simp add: pick_n_def N_MAX_def)

text \<open>
  Bounds: the iteration count the search settles on is at least 1 and at most
  \<open>N_MAX\<close>, whatever the benchmark and the clocks do.
\<close>
theorem pick_n_range:
  assumes "pick_n gettime e target_ns w = Some (n, w')"
  shows "1 \<le> n \<and> n \<le> N_MAX"
  using assms by (rule pick_n_in_range)

text \<open>
  Functional: why the search stopped. Either the count is the cap \<open>N_MAX\<close>, or the last
  measurement was made with exactly the returned count and one of the two clocks had reached the
  target in it, or thirty rounds were not enough, and then the count is at least 31 because every
  round raises it.
\<close>
theorem pick_n_reason:
  assumes "pick_n gettime e target_ns w = Some (n, w')"
  shows "n = N_MAX \<or> 31 \<le> n \<or>
    (\<exists>v b wall. run_measured gettime e n True v = Some (b, wall, w')
        \<and> (target_ns \<le> b_ns b \<or> target_ns \<le> wall))"
  using assms pick_n_rounds_reason [of gettime e target_ns 30 1 w n w']
    pick_n_in_range [of gettime e target_ns w n w']
  by (auto simp: pick_n_def)

text \<open>
  Bounds: one round scales the count up by a factor of at most one hundred, and always by at
  least one, so no round repeats a count and no jump is larger than the comment on
  \<open>pick_n\<close> allows.
\<close>
theorem next_n_grows:
  assumes "next_n n ns wall target_ns = Some m" and "1 \<le> n"
  shows "n < m \<and> m \<le> 100 * n"
  using next_n_range [OF assms] by simp

text \<open>
  C8. Safety: for a target of up to 7.68 seconds no arithmetic of the search can overflow, so
  with a benchmark that always returns the search returns, whatever the clocks report.
\<close>
theorem pick_n_returns:
  assumes "0 < target_ns" and "target_ns \<le> safe_target"
    and "\<And>w. \<exists>w'. e_fn e w = Some w'"
  shows "\<exists>n w'. pick_n gettime e target_ns w = Some (n, w')"
proof -
  have m: "\<exists>b wall v. run_measured gettime e n True w = Some (b, wall, v)" for n w
    using assms(3) by (auto simp: run_measured_def bind_eq_Some_conv split_beta Let_def)
  have "1 \<le> n \<Longrightarrow> \<exists>r w'. pick_n_rounds gettime e target_ns rounds n w = Some (r, w')" for rounds n w
  proof (induction rounds arbitrary: n w)
    case (Suc rounds)
    obtain b wall v where r: "run_measured gettime e n True w = Some (b, wall, v)"
      using m by blast
    show ?case
    proof (cases "target_ns \<le> b_ns b \<or> target_ns \<le> wall \<or> N_MAX \<le> n")
      case False
      then have "n < N_MAX" by simp
      from next_n_eq [OF Suc.prems this assms(1,2)]
      obtain m where nx: "next_n n (b_ns b) wall target_ns = Some m" by blast
      then have "n < m" using next_n_range(1) Suc.prems by blast
      then have "\<exists>r w'. pick_n_rounds gettime e target_ns rounds m v = Some (r, w')"
        using Suc.prems by (intro Suc.IH) simp
      with r nx False show ?thesis by simp
    qed (use r in auto)
  qed auto
  then show ?thesis by (simp add: pick_n_def)
qed


section \<open>Convergence of the search\<close>

text \<open>
  A benchmark whose measured time is \<open>c\<close> and whose wall time is \<open>d\<close> nanoseconds
  per iteration: \<open>d - c\<close> of each iteration is setup with the timer paused.
\<close>

definition linear_cost ::
  "('l \<Rightarrow> (int \<times> int) \<times> 'l) \<Rightarrow> 'l entry \<Rightarrow> int \<Rightarrow> int \<Rightarrow> bool" where
  "linear_cost gettime e c d \<longleftrightarrow> 0 \<le> c \<and> c \<le> d \<and> 1 \<le> d \<and>
     (\<forall>n w. 1 \<le> n \<longrightarrow>
       (\<exists>b w'. run_measured gettime e n True w = Some (b, d * n, w') \<and> b_ns b = c * n))"

lemma next_n_linear:
  fixes n c d T :: int
  assumes n: "1 \<le> n" "n < N_MAX" and T: "0 < T" "T \<le> safe_target"
    and cd: "0 \<le> c" "c \<le> d" "1 \<le> d"
  shows "next_n n (c * n) (d * n) T =
    Some (max (n + 1) (min (100 * n) (T div d + T div d div 5)))"
proof -
  have scaled: "n * T div (x * n) = T div x" if "0 < x" for x
    using n(1) that by (simp add: mult.commute [of x n])
  have dn: "0 < d * n" using n(1) cd(3) by (simp add: mult_pos_pos)
  consider "c = 0" | "0 < c" "c < d" | "0 < c" "c = d"
    using cd by linarith
  then show ?thesis
  proof cases
    case 1
    then show ?thesis
      using dn scaled [of d] cd(3)
      by (simp add: next_n_eq [OF n T] next_timed_eq [OF n T] min.commute mult.commute)
  next
    case 2
    have cn: "0 < c * n" "c * n < d * n" using 2 n(1) by (simp_all add: mult_pos_pos)
    have "T div d \<le> T div c" using 2 T(1) by (intro zdiv_mono2) auto
    then have "T div d + T div d div 5 \<le> T div c + T div c div 5"
      using zdiv_mono1 [of "T div d" "T div c" 5] by linarith
    then show ?thesis
      using dn cn 2 cd(3) n(1) scaled [of d] scaled [of c]
      by (simp add: next_n_eq [OF n T] next_timed_eq [OF n T] min_def max_def)
  next
    case 3
    have "0 < c * n" using 3 n(1) by (simp add: mult_pos_pos)
    then show ?thesis
      using 3 scaled [of d]
      by (simp add: next_n_eq [OF n T] next_timed_eq [OF n T] mult.commute)
  qed
qed

lemma pick_n_rounds_converge:
  assumes lin: "linear_cost gt e c d" and T: "0 < T" "T \<le> safe_target"
    and n: "1 \<le> n" "n \<le> N_MAX"
  defines "good \<equiv> \<lambda>r. T \<le> d * r \<or> r = N_MAX"
  shows "good n \<Longrightarrow> \<exists>r w'. pick_n_rounds gt e T (Suc k) n w = Some (r, w') \<and> good r"
    and "T div d \<le> n \<Longrightarrow> \<exists>r w'. pick_n_rounds gt e T (Suc (Suc k)) n w = Some (r, w') \<and> good r"
    and "N_MAX \<le> 100 ^ j * n \<Longrightarrow>
      \<exists>r w'. pick_n_rounds gt e T (Suc (Suc (Suc (j + k)))) n w = Some (r, w') \<and> good r"
proof -
  have cd: "0 \<le> c" "c \<le> d" "1 \<le> d" using lin by (simp_all add: linear_cost_def)
  have run: "\<exists>b w'. run_measured gt e n True w = Some (b, d * n, w') \<and> b_ns b = c * n"
    if "1 \<le> n" for n w using lin that by (simp add: linear_cost_def)
  have c_le: "T \<le> c * n \<Longrightarrow> T \<le> d * n" if "1 \<le> n" for n
    using cd that mult_right_mono [of c d n] by linarith
  have above: "T \<le> d * n" if "T div d < n" for n
  proof -
    have "d * (T div d + 1) \<le> d * n" using that cd(3) by (intro mult_left_mono) auto
    moreover have "d * (T div d + 1) = d * (T div d) + d" by (simp add: algebra_simps)
    moreover have "d * (T div d) + T mod d = T" "T mod d < d" using cd(3) by simp_all
    ultimately show ?thesis by linarith
  qed
  have one: "\<exists>r w'. pick_n_rounds gt e T (Suc k) n w = Some (r, w') \<and> good r"
    if n: "1 \<le> n" "good n" for n k w
  proof -
    obtain b v where b: "run_measured gt e n True w = Some (b, d * n, v)"
      using run [OF n(1)] by blast
    have "T \<le> d * n \<or> N_MAX \<le> n" using n(2) by (auto simp: good_def)
    then have "pick_n_rounds gt e T (Suc k) n w = Some (n, v)" by (auto simp: b)
    with n(2) show ?thesis by blast
  qed
  have round: "\<exists>r w'. pick_n_rounds gt e T (Suc k) n w = Some (r, w') \<and> good r"
    if n: "1 \<le> n" "n \<le> N_MAX"
      and more: "\<And>w m. m = max (n + 1) (min (100 * n) (T div d + T div d div 5)) \<Longrightarrow> m \<le> N_MAX
        \<Longrightarrow> \<exists>r w'. pick_n_rounds gt e T k m w = Some (r, w') \<and> good r" for n k w
  proof (cases "good n")
    case True
    with n one show ?thesis by blast
  next
    case False
    then have nb: "n < N_MAX" "d * n < T" using n by (auto simp: good_def)
    let ?m = "max (n + 1) (min (100 * n) (T div d + T div d div 5))"
    obtain b v where b: "run_measured gt e n True w = Some (b, d * n, v)" "b_ns b = c * n"
      using run [OF n(1)] by blast
    have stop: "\<not> (T \<le> b_ns b \<or> T \<le> d * n \<or> N_MAX \<le> n)"
      using nb c_le [OF n(1)] b(2) by auto
    have nx: "next_n n (b_ns b) (d * n) T = Some ?m"
      using next_n_linear [OF n(1) nb(1) T cd] b(2) by simp
    show ?thesis
    proof (cases "N_MAX < ?m")
      case True
      have "pick_n_rounds gt e T (Suc k) n w = Some (N_MAX, v)"
        using stop nx True by (simp add: b(1))
      then show ?thesis by (auto simp: good_def)
    next
      case False
      have "pick_n_rounds gt e T (Suc k) n w = pick_n_rounds gt e T k ?m v"
        using stop nx False by (simp add: b(1))
      then show ?thesis using more [of ?m v] False by (metis leI)
    qed
  qed
  have two: "\<exists>r w'. pick_n_rounds gt e T (Suc (Suc k)) n w = Some (r, w') \<and> good r"
    if n: "1 \<le> n" "n \<le> N_MAX" "T div d \<le> n" for n k w
  proof (rule round)
    fix v m assume m: "m = max (n + 1) (min (100 * n) (T div d + T div d div 5))"
    then have "good m" using above [of m] n(3) by (auto simp: good_def)
    moreover have "1 \<le> m" using m n(1) by linarith
    ultimately show "\<exists>r w'. pick_n_rounds gt e T (Suc k) m v = Some (r, w') \<and> good r"
      by (intro one)
  qed (use n in auto)
  have any: "\<exists>r w'. pick_n_rounds gt e T (Suc (Suc (Suc (j + k)))) n w = Some (r, w') \<and> good r"
    if "1 \<le> n" "n \<le> N_MAX" "N_MAX \<le> 100 ^ j * n" for n j k w
    using that
  proof (induction j arbitrary: n w)
    case 0
    then have "good n" by (simp add: good_def)
    with 0(1) show ?case by (intro one)
  next
    case (Suc j)
    have q0: "0 \<le> T div d" using T(1) cd(3) by (simp add: pos_imp_zdiv_nonneg_iff)
    show ?case unfolding add_Suc
    proof (rule round)
      fix v m assume m: "m = max (n + 1) (min (100 * n) (T div d + T div d div 5))"
        and mN: "m \<le> N_MAX"
      show "\<exists>r w'. pick_n_rounds gt e T (Suc (Suc (Suc (j + k)))) m v = Some (r, w') \<and> good r"
      proof (cases "100 * n \<le> T div d + T div d div 5")
        case True
        with m Suc.prems(1) have "m = 100 * n" by linarith
        with Suc.prems mN show ?thesis by (intro Suc.IH) (auto simp: mult.assoc)
      next
        case False
        then have "T div d \<le> m" "1 \<le> m" using m q0 Suc.prems(1) by linarith+
        then show ?thesis using mN by (intro two)
      qed
    qed (use Suc.prems in auto)
  qed
  show "good n \<Longrightarrow> \<exists>r w'. pick_n_rounds gt e T (Suc k) n w = Some (r, w') \<and> good r"
    using one n by blast
  show "T div d \<le> n \<Longrightarrow> \<exists>r w'. pick_n_rounds gt e T (Suc (Suc k)) n w = Some (r, w') \<and> good r"
    using two n by blast
  show "N_MAX \<le> 100 ^ j * n \<Longrightarrow>
      \<exists>r w'. pick_n_rounds gt e T (Suc (Suc (Suc (j + k)))) n w = Some (r, w') \<and> good r"
    using any n by blast
qed

text \<open>
  C1. Liveness: the thirty rounds are enough. For a benchmark of constant cost per iteration,
  measured and untimed part alike, and a target of up to 7.68 seconds, the search returns a count
  whose wall time reaches the target, or the cap \<open>N_MAX\<close>. (It needs at most nine rounds:
  five of a hundredfold, the estimate, and two to land.)
\<close>
theorem pick_n_converges:
  assumes "linear_cost gettime e c d" and "0 < target_ns" and "target_ns \<le> safe_target"
  shows "\<exists>n w'. pick_n gettime e target_ns w = Some (n, w')
      \<and> (target_ns \<le> d * n \<or> n = N_MAX)"
proof -
  have "N_MAX \<le> 100 ^ 5 * 1" by (simp add: N_MAX_def)
  from pick_n_rounds_converge(3) [OF assms _ _ this, of 22 w]
  show ?thesis by (simp add: pick_n_def N_MAX_def)
qed

section \<open>Two ideal clocks for the witnesses\<close>

text \<open>The rest of the world is the time itself, in nanoseconds; reading it is free.\<close>

definition ideal_clock :: "int \<Rightarrow> (int \<times> int) \<times> int" where
  "ideal_clock t = ((t div 1000000000, t mod 1000000000), t)"

lemma now_ideal [simp]:
  "now_posix (fst (ideal_clock t)) = t" "snd (ideal_clock t) = t"
  by (simp_all add: now_posix_def ideal_clock_def)

lemma clock_law_ideal: "clock_law ideal_clock (\<lambda>t. t)"
  by (simp add: clock_law_def)

text \<open>A benchmark of \<open>c\<close> nanoseconds an iteration.\<close>

definition steady :: "int \<Rightarrow> int stmt" where
  "steady c w = bench_loop (\<lambda>i w. Some (perform (\<lambda>t. t + c) w)) w"

lemma steady_eq: "0 \<le> b_n (bch w) \<Longrightarrow> steady c w = Some (perform (\<lambda>t. t + c * b_n (bch w)) w)"
proof -
  have "for_loop k i (\<lambda>i w. Some (perform (\<lambda>t. t + c) w)) w = Some (perform (\<lambda>t. t + c * int k) w)"
    for k i and w :: "int world"
    by (induction k arbitrary: i w) (simp_all add: perform_def algebra_simps)
  then show "0 \<le> b_n (bch w) \<Longrightarrow> ?thesis" by (simp add: steady_def bench_loop_def)
qed

lemma steady_measured:
  assumes "0 \<le> n"
  shows "run_measured ideal_clock \<lparr>e_name = nm, e_fn = steady c\<rparr> n True w =
    Some (\<lparr>b_name = nm, b_n = n, b_ns = c * n, b_bytes = 0, b_allocs = 0, accum_ns = c * n,
           started_ns = rest w, running = False\<rparr>, c * n,
      \<lparr>bch = \<lparr>b_name = nm, b_n = n, b_ns = 0, b_bytes = 0, b_allocs = 0, accum_ns = c * n,
           started_ns = rest w, running = False\<rparr>, kept = kept w, rest = rest w + c * n\<rparr>)"
  using assms
  by (simp add: run_measured_def split_beta Let_def steady_eq zero_bench_def bench_resume_def
      bench_pause_def bench_now_ns_def call_def perform_def now_posix_def ideal_clock_def)

lemma steady_linear: "1 \<le> c \<Longrightarrow> linear_cost ideal_clock \<lparr>e_name = nm, e_fn = steady c\<rparr> c c"
  by (auto simp: linear_cost_def steady_measured)

interpretation steady_bench: benchmark ideal_clock "\<lambda>t. t" "steady (int c)"
proof
  show "clock_law ideal_clock (\<lambda>t. t)" by (rule clock_law_ideal)
  fix w w' assume "steady (int c) w = Some w'"
  then show "advances (\<lambda>t. t) w w'"
    unfolding steady_def by (rule advances_loop) (auto intro!: advances_rest)
qed

theorem pick_n_converges_witness:
  "linear_cost ideal_clock \<lparr>e_name = ''x'', e_fn = steady 7\<rparr> 7 7 \<and>
   (\<exists>n w'. pick_n ideal_clock \<lparr>e_name = ''x'', e_fn = steady 7\<rparr> 1000000000
       \<lparr>bch = zero_bench, kept = [], rest = 0\<rparr> = Some (n, w')
     \<and> (1000000000 \<le> 7 * n \<or> n = N_MAX))"
  using pick_n_converges [OF steady_linear [of 7 "''x''"], of 1000000000
      "\<lparr>bch = zero_bench, kept = [], rest = 0\<rparr>"] steady_linear [of 7 "''x''"]
  by (simp add: safe_target_def)

theorem pick_n_returns_witness:
  "\<exists>n w'. pick_n ideal_clock \<lparr>e_name = ''x'', e_fn = Some\<rparr> 1000000000
       \<lparr>bch = zero_bench, kept = [], rest = 0\<rparr> = Some (n, w')"
  by (rule pick_n_returns) (simp_all add: safe_target_def)


lemma steady_round:
  assumes "1 \<le> n"
  shows "pick_n_rounds ideal_clock \<lparr>e_name = nm, e_fn = steady c\<rparr> T (Suc rounds) n w =
    (if T \<le> c * n \<or> N_MAX \<le> n
     then Some (n, snd (snd (the (run_measured ideal_clock \<lparr>e_name = nm, e_fn = steady c\<rparr> n True w))))
     else do {
       m \<leftarrow> next_n n (c * n) (c * n) T;
       if N_MAX < m
       then Some (N_MAX, snd (snd (the (run_measured ideal_clock \<lparr>e_name = nm, e_fn = steady c\<rparr> n True w))))
       else pick_n_rounds ideal_clock \<lparr>e_name = nm, e_fn = steady c\<rparr> T rounds m
         (snd (snd (the (run_measured ideal_clock \<lparr>e_name = nm, e_fn = steady c\<rparr> n True w))))
     })"
  using assms by (simp add: steady_measured cong: if_cong)

lemma steady_5:
  "\<exists>w'. pick_n ideal_clock \<lparr>e_name = ''x'', e_fn = steady 5\<rparr> 100
     \<lparr>bch = zero_bench, kept = [], rest = 0\<rparr> = Some (24, w')"
proof -
  have "next_n 1 5 5 100 = Some 24"
    by (simp add: next_n_def next_timed_def mul64_def add64_def div64_def check64_def in_int64_def
        int64_max_def)
  then show ?thesis
    by (simp add: pick_n_def numeral_eq_Suc steady_round N_MAX_def del: pick_n_rounds.simps)
qed

theorem pick_n_range_witness:
  "(1::int) \<le> 24 \<and> 24 \<le> N_MAX"
  using steady_5 pick_n_range by blast

theorem pick_n_reason_witness:
  "(24::int) = N_MAX \<or> (31::int) \<le> 24 \<or>
    (\<exists>v w' b wall. run_measured ideal_clock \<lparr>e_name = ''x'', e_fn = steady 5\<rparr> 24 True v
        = Some (b, wall, w') \<and> (100 \<le> b_ns b \<or> 100 \<le> wall))"
  using steady_5 pick_n_reason by blast

theorem next_n_grows_witness: "(1000::int) < 12000 \<and> (12000::int) \<le> 100 * 1000"
proof (rule next_n_grows [of 1000 100 50 1000])
  show "next_n 1000 100 50 1000 = Some 12000"
    by (simp add: next_n_def next_timed_def mul64_def add64_def div64_def check64_def in_int64_def
        int64_max_def)
qed simp

text \<open>
  C36. Error: with a long target the search overflows. A benchmark of two nanoseconds an
  iteration run with \<open>-time 100\<close> reaches the count \<open>10^8\<close> in four rounds, and then
  \<open>n * target_ns\<close> is \<open>10^19\<close>, outside \<open>int64_t\<close>: undefined behaviour.
\<close>
theorem pick_n_overflows:
  "pick_n ideal_clock \<lparr>e_name = nm, e_fn = steady 2\<rparr> 100000000000 w = None"
proof -
  have nx: "next_n 1 2 2 100000000000 = Some 100"
    "next_n 100 200 200 100000000000 = Some 10000"
    "next_n 10000 20000 20000 100000000000 = Some 1000000"
    "next_n 1000000 2000000 2000000 100000000000 = Some 100000000"
    "next_n 100000000 200000000 200000000 100000000000 = None"
    by (simp_all add: next_n_def next_timed_def mul64_def add64_def div64_def check64_def
        in_int64_def int64_max_def)
  show ?thesis
    by (simp add: pick_n_def numeral_eq_Suc steady_round N_MAX_def nx del: pick_n_rounds.simps)
qed

section \<open>What is timed\<close>

text \<open>
  C35. Functional: the timer runs from before the benchmark function is called. For a benchmark
  that does not touch the timer, with setup of \<open>S\<close> nanoseconds before its loop and
  \<open>D\<close> nanoseconds a round, the reported time is \<open>S + n * D\<close>: the setup outside
  \<open>BENCH_LOOP\<close> is counted, although \<open>bench.h\<close> says of the macro that everything
  outside it is not.
\<close>
theorem setup_is_timed:
  fixes w :: "'l world" and n :: int and prologue :: "'l stmt" and body :: "int \<Rightarrow> 'l stmt"
  assumes clock: "\<And>l. now_posix (fst (gettime l)) = time l" "\<And>l. snd (gettime l) = l"
    and before: "\<And>w. \<exists>w'. prologue w = Some w' \<and> bch w' = bch w \<and> time (rest w') = time (rest w) + S"
    and body: "\<And>i w. \<exists>w'. body i w = Some w' \<and> bch w' = bch w \<and> time (rest w') = time (rest w) + D"
    and "0 \<le> n"
  shows "\<exists>b wall w'. run_measured gettime
      \<lparr>e_name = nm, e_fn = (\<lambda>w. do { w \<leftarrow> prologue w; bench_loop body w })\<rparr> n want w = Some (b, wall, w')
    \<and> b_ns b = S + n * D"
proof -
  define w1 where "w1 = bench_resume gettime
    (snd (bench_now_ns gettime (w\<lparr>bch := zero_bench\<lparr>b_name := nm, b_n := n\<rparr>\<rparr>)))"
  have w1: "b_n (bch w1) = n" "running (bch w1)" "accum_ns (bch w1) = 0"
    "started_ns (bch w1) = time (rest w1)"
    by (simp_all add: w1_def timer_simps zero_bench_def clock)
  obtain w2 where w2: "prologue w1 = Some w2" "bch w2 = bch w1" "time (rest w2) = time (rest w1) + S"
    using before by blast
  have "\<exists>w3. for_loop (nat n) 0 body w2 = Some w3 \<and>
      (bch w3 = bch w1 \<and> time (rest w3) = time (rest w1) + S + int (nat n) * D)"
  proof (rule for_loop_total)
    fix j and v :: "'l world" assume "bch v = bch w1 \<and> time (rest v) = time (rest w1) + S + int j * D"
    with body [of "0 + int j" v]
    show "\<exists>v'. body (0 + int j) v = Some v' \<and> (bch v' = bch w1
        \<and> time (rest v') = time (rest w1) + S + int (Suc j) * D)"
      by (auto simp: algebra_simps)
  qed (simp add: w2)
  then obtain w3 where w3: "bench_loop body w2 = Some w3" "bch w3 = bch w1"
    "time (rest w3) = time (rest w1) + S + n * D"
    using \<open>0 \<le> n\<close> w1(1) w2(2) by (auto simp: bench_loop_def)
  have "accum_ns (bch (bench_pause gettime w3)) = S + n * D"
    by (simp add: timer_simps w1 w3(2,3) clock)
  with w2(1) w3(1) show ?thesis
    by (simp add: run_measured_def w1_def split_beta Let_def)
qed

theorem setup_is_timed_witness:
  "\<exists>b wall w'. run_measured ideal_clock
      \<lparr>e_name = ''x'', e_fn = (\<lambda>w. do { w \<leftarrow> Some (perform (\<lambda>t. t + 500) w);
         bench_loop (\<lambda>i w. Some (perform (\<lambda>t. t + 1) w)) w })\<rparr> 3 False
      \<lparr>bch = zero_bench, kept = [], rest = 0\<rparr> = Some (b, wall, w') \<and> b_ns b = 500 + 3 * 1"
  by (rule setup_is_timed [where time = "\<lambda>t. t"]) auto

text \<open>
  C13. Safety: the reported time of a benchmark that keeps its contract is never negative and
  never more than the wall time of the same run, whatever it does with the timer; the handle it
  returns is for the count and the name it was run with.
\<close>
theorem measured_within_wall:
  assumes "benchmark gettime time fn"
    and "run_measured gettime \<lparr>e_name = nm, e_fn = fn\<rparr> n True w = Some (b, wall, w')"
  shows "0 \<le> b_ns b \<and> b_ns b \<le> wall \<and> time (rest w) + wall \<le> time (rest w')
    \<and> b_n b = n \<and> b_name b = nm"
  using benchmark.measured [OF assms] by simp

theorem measured_within_wall_witness:
  "\<exists>b w'. run_measured ideal_clock \<lparr>e_name = ''x'', e_fn = steady (int 5)\<rparr> 4 True
       \<lparr>bch = zero_bench, kept = [], rest = 0\<rparr> = Some (b, 20, w')
     \<and> 0 \<le> b_ns b \<and> b_ns b \<le> 20"
proof -
  obtain b w' where r: "run_measured ideal_clock \<lparr>e_name = ''x'', e_fn = steady (int 5)\<rparr> 4 True
       \<lparr>bch = zero_bench, kept = [], rest = 0\<rparr> = Some (b, 20, w')"
    by (simp add: steady_measured)
  with measured_within_wall [OF steady_bench.benchmark_axioms r] show ?thesis by blast
qed

end
