(* ===== verification/Registry.thy ===== *)
theory Registry
  imports Runner
begin

text \<open>
  The table of benchmarks and the filter of \<open>-run\<close>: \<open>bench_register\<close> and
  \<open>name_matches\<close> of \<open>src/bench.c\<close>. The used part of the static array
  \<open>entries[0 .. nentries)\<close> is a list.
\<close>

definition BENCH_MAX :: nat where
  "BENCH_MAX = 1024"

definition bench_register :: "string \<Rightarrow> 'l stmt \<Rightarrow> 'l entry list \<Rightarrow> 'l entry list option" where
  "bench_register nm fn entries =
     (if BENCH_MAX \<le> length entries then None
      else Some (entries @ [\<lparr>e_name = nm, e_fn = fn\<rparr>]))"

fun register_all :: "(string \<times> 'l stmt) list \<Rightarrow> 'l entry list \<Rightarrow> 'l entry list option" where
  "register_all [] entries = Some entries"
| "register_all ((nm, fn) # bs) entries =
     do { entries \<leftarrow> bench_register nm fn entries; register_all bs entries }"

section \<open>The string functions of the C library that the filter uses\<close>

text \<open>A C string is the list of its bytes before the terminator.\<close>

fun strncmp_eq :: "string \<Rightarrow> string \<Rightarrow> nat \<Rightarrow> bool" where
  "strncmp_eq s t 0 = True"
| "strncmp_eq [] [] (Suc k) = True"
| "strncmp_eq (a # s) (b # t) (Suc k) = (a = b \<and> strncmp_eq s t k)"
| "strncmp_eq s t (Suc k) = False"

fun strstr :: "string \<Rightarrow> string \<Rightarrow> string option" where
  "strstr hay needle =
     (if prefix needle hay then Some hay
      else case hay of [] \<Rightarrow> None | c # hay \<Rightarrow> strstr hay needle)"

declare strstr.simps [simp del]

definition name_matches :: "string \<Rightarrow> string \<Rightarrow> bool" where
  "name_matches nm filt =
     (let n = length filt in
      if 0 < n \<and> filt ! (n - 1) = CHR ''$''
      then length nm = n - 1 \<and> strncmp_eq nm filt (n - 1)
      else strstr nm filt \<noteq> None)"

section \<open>Facts\<close>

lemma strncmp_eq_take: "strncmp_eq s t k \<longleftrightarrow> take k s = take k t"
  by (induction s t k rule: strncmp_eq.induct) auto

lemma strstr_sublist: "strstr hay needle \<noteq> None \<longleftrightarrow> sublist needle hay"
proof (induction hay needle rule: strstr.induct)
  case (1 hay needle)
  then show ?case
    by (cases hay; subst strstr.simps)
      (auto simp: sublist_Cons_right prefix_imp_sublist)
qed

lemma name_matches_dollar: "name_matches nm (x @ ''$'') \<longleftrightarrow> nm = x"
  by (auto simp: name_matches_def strncmp_eq_take nth_append)

lemma register_all_eq:
  "length entries \<le> BENCH_MAX \<Longrightarrow> register_all bs entries =
     (if length entries + length bs \<le> BENCH_MAX
      then Some (entries @ map (\<lambda>(nm, fn). \<lparr>e_name = nm, e_fn = fn\<rparr>) bs) else None)"
  by (induction bs entries rule: register_all.induct) (auto simp: bench_register_def)

text \<open>
  Functional: the table keeps the benchmarks in the order of registration, and the process
  ends with the message about \<open>BENCH_MAX\<close> exactly when more than 1024 are registered.
\<close>
theorem register_all_from_empty:
  "register_all bs [] =
     (if length bs \<le> 1024 then Some (map (\<lambda>(nm, fn). \<lparr>e_name = nm, e_fn = fn\<rparr>) bs) else None)"
  using register_all_eq [of "[]" bs] by (simp add: BENCH_MAX_def)

text \<open>
  C15. Functional: a filter that ends in \<open>$\<close> selects exactly the benchmark of that name,
  so \<open>goroutine_start$\<close> does not select \<open>goroutine_start_batch\<close>; any other filter
  selects the names it occurs in.
\<close>
theorem name_matches_spec:
  "(name_matches nm (x @ ''$'') \<longleftrightarrow> nm = x)
   \<and> (filt = [] \<or> last filt \<noteq> CHR ''$'' \<longrightarrow> (name_matches nm filt \<longleftrightarrow> sublist filt nm))"
  unfolding name_matches_def Let_def strstr_sublist
  by (auto simp: strncmp_eq_take nth_append last_conv_nth)

theorem name_matches_spec_witness:
  "name_matches ''goroutine_start'' ''goroutine_start$''
   \<and> \<not> name_matches ''goroutine_start_batch'' ''goroutine_start$''
   \<and> (name_matches ''hash_int'' ''h_in'' \<longleftrightarrow> sublist ''h_in'' ''hash_int'')"
  using name_matches_spec [of "''goroutine_start''" "''goroutine_start''" "''h_in''"]
    name_matches_spec [of "''goroutine_start_batch''" "''goroutine_start''" "''h_in''"]
    name_matches_spec [of "''hash_int''" "''goroutine_start''" "''h_in''"]
  by simp

end
