(* ===== verification/Statistics.thy ===== *)
theory Statistics
  imports Prelude "HOL-Library.Multiset" Complex_Main
begin

text \<open>
  The numbers of a row: \<open>compare_double\<close>, \<open>median_of\<close> and the smallest, largest and
  spread computations of \<open>bench_main\<close> in \<open>src/bench.c\<close>.

  A finite double is its exact value, a rational number, and an arithmetic operation is the exact
  operation followed by rounding to the nearest double, as IEEE 754 defines it. The rounding is a
  parameter \<open>rnd\<close>; \<open>rounding_law\<close> states what is used of it. The values here are
  times below \<open>2^63\<close>, so neither infinities nor NaNs arise.
\<close>

definition rounding_law :: "(rat \<Rightarrow> rat) \<Rightarrow> bool" where
  "rounding_law rnd \<longleftrightarrow> mono rnd \<and> (\<forall>x. rnd (rnd x) = rnd x) \<and> rnd 0 = 0
     \<and> (\<forall>x. rnd x = x \<longrightarrow> rnd (2 * x) = 2 * x)"

section \<open>Sorting with a comparison function\<close>

text \<open>\<open>qsort\<close> of the C library, as an insertion sort driven by the comparison function.\<close>

fun insert_by :: "('a \<Rightarrow> 'a \<Rightarrow> int) \<Rightarrow> 'a \<Rightarrow> 'a list \<Rightarrow> 'a list" where
  "insert_by cmp x [] = [x]"
| "insert_by cmp x (y # ys) = (if cmp x y \<le> 0 then x # y # ys else y # insert_by cmp x ys)"

definition qsort :: "('a \<Rightarrow> 'a \<Rightarrow> int) \<Rightarrow> 'a list \<Rightarrow> 'a list" where
  "qsort cmp xs = foldr (insert_by cmp) xs []"

definition compare_double :: "rat \<Rightarrow> rat \<Rightarrow> int" where
  "compare_double a b = (if a < b then - 1 else if b < a then 1 else 0)"

text \<open>
  What the C standard asks of a comparison function. The sort is a client of this interface;
  \<open>compare_double\<close> provides it.
\<close>

locale comparator =
  fixes cmp :: "'a \<Rightarrow> 'a \<Rightarrow> int"
  assumes cmp_antisym: "cmp x y < 0 \<longleftrightarrow> 0 < cmp y x"
    and cmp_trans: "cmp x y \<le> 0 \<Longrightarrow> cmp y z \<le> 0 \<Longrightarrow> cmp x z \<le> 0"
begin

lemma mset_insert_by: "mset (insert_by cmp x ys) = add_mset x (mset ys)"
  by (induction ys) auto

lemma set_insert_by: "set (insert_by cmp x ys) = insert x (set ys)"
  using mset_insert_by [of x ys] by (metis set_mset_add_mset_insert set_mset_mset)

lemma sorted_insert_by:
  "sorted_wrt (\<lambda>a b. cmp a b \<le> 0) ys \<Longrightarrow> sorted_wrt (\<lambda>a b. cmp a b \<le> 0) (insert_by cmp x ys)"
proof (induction ys)
  case (Cons y ys)
  have "cmp y x \<le> 0" if "\<not> cmp x y \<le> 0" using cmp_antisym [of y x] that by simp
  with Cons show ?case by (auto simp: set_insert_by intro: cmp_trans)
qed simp

lemma qsort_mset: "mset (qsort cmp xs) = mset xs"
  by (induction xs) (auto simp: qsort_def mset_insert_by)

lemma qsort_sorted: "sorted_wrt (\<lambda>a b. cmp a b \<le> 0) (qsort cmp xs)"
  by (induction xs) (auto simp: qsort_def intro: sorted_insert_by)

end

interpretation cd: comparator compare_double
  by unfold_locales (auto simp: compare_double_def split: if_splits)

lemma compare_double_le: "compare_double a b \<le> 0 \<longleftrightarrow> a \<le> b"
  by (simp add: compare_double_def)

lemma qsort_double: "qsort compare_double xs = sort xs"
proof -
  have "sorted (qsort compare_double xs)"
    using cd.qsort_sorted [of xs] by (simp add: compare_double_le)
  moreover have "mset (qsort compare_double xs) = mset xs" by (rule cd.qsort_mset)
  ultimately show ?thesis by (metis properties_for_sort)
qed

section \<open>The median\<close>

text \<open>\<open>median_of\<close> sorts the array it is given and returns the median with it.\<close>

definition median_of :: "(rat \<Rightarrow> rat) \<Rightarrow> rat list \<Rightarrow> nat \<Rightarrow> rat \<times> rat list" where
  "median_of rnd v n =
     (let v = qsort compare_double (take n v) @ drop n v in
      if n mod 2 = 1 then (v ! (n div 2), v)
      else (rnd (rnd (v ! (n div 2 - 1) + v ! (n div 2)) / 2), v))"

text \<open>The smallest and the largest sample, and the spread in percent, as \<open>bench_main\<close> has them.\<close>

definition lowest :: "rat list \<Rightarrow> rat" where
  "lowest samples = fold (\<lambda>s lo. if s < lo then s else lo) (tl samples) (hd samples)"

definition highest :: "rat list \<Rightarrow> rat" where
  "highest samples = fold (\<lambda>s hi. if hi < s then s else hi) (tl samples) (hd samples)"

definition spread_of :: "(rat \<Rightarrow> rat) \<Rightarrow> rat \<Rightarrow> rat \<Rightarrow> rat" where
  "spread_of rnd lo hi = (if 0 < lo then rnd (rnd (rnd (hi - lo) / lo) * 100) else 0)"

lemma fold_low: "fold (\<lambda>s lo. if s < lo then s else lo) xs (x::rat) = Min (insert x (set xs))"
proof (induction xs arbitrary: x)
  case (Cons a xs)
  have "(if a < x then a else x) = min a x" by auto
  then show ?case using Cons by (cases "xs = []") (simp_all add: min.left_commute min.commute)
qed simp

lemma fold_high: "fold (\<lambda>s hi. if hi < s then s else hi) xs (x::rat) = Max (insert x (set xs))"
proof (induction xs arbitrary: x)
  case (Cons a xs)
  have "(if x < a then a else x) = max a x" by auto
  then show ?case using Cons by (cases "xs = []") (simp_all add: max.left_commute max.commute)
qed simp

lemma lowest_Min: "v \<noteq> [] \<Longrightarrow> lowest v = Min (set v)"
  by (cases v) (auto simp: lowest_def fold_low)

lemma highest_Max: "v \<noteq> [] \<Longrightarrow> highest v = Max (set v)"
  by (cases v) (auto simp: highest_def fold_high)

text \<open>The middle of two doubles, rounded twice, lies between them.\<close>

lemma midpoint_between:
  assumes "rounding_law rnd" and "rnd a = a" and "rnd b = b" and "a \<le> b"
  shows "a \<le> rnd (rnd (a + b) / 2)" and "rnd (rnd (a + b) / 2) \<le> b"
proof -
  have mono: "\<And>x y. x \<le> y \<Longrightarrow> rnd x \<le> rnd y"
    and dbl: "rnd (2 * a) = 2 * a" "rnd (2 * b) = 2 * b"
    using assms(1-3) by (auto simp: rounding_law_def mono_def)
  have "2 * a \<le> rnd (a + b)" using mono [of "2 * a" "a + b"] dbl assms(4) by simp
  then have "rnd a \<le> rnd (rnd (a + b) / 2)" by (intro mono) simp
  then show "a \<le> rnd (rnd (a + b) / 2)" by (simp add: assms(2))
  have "rnd (a + b) \<le> 2 * b" using mono [of "a + b" "2 * b"] dbl assms(4) by simp
  then have "rnd (rnd (a + b) / 2) \<le> rnd b" by (intro mono) simp
  then show "rnd (rnd (a + b) / 2) \<le> b" by (simp add: assms(3))
qed

lemma median_between_middles:
  assumes "rounding_law rnd" and "\<forall>x \<in> set v. rnd x = x" and "v \<noteq> []"
  defines "s \<equiv> sort v"
  shows "s ! ((length v - 1) div 2) \<le> fst (median_of rnd v (length v))"
    and "fst (median_of rnd v (length v)) \<le> s ! (length v div 2)"
proof -
  have s: "length s = length v" "set s = set v" "sorted s" by (simp_all add: s_def)
  have n: "0 < length v" using assms(3) by simp
  have eq: "fst (median_of rnd v (length v)) =
    (if odd (length v) then s ! (length v div 2)
     else rnd (rnd (s ! (length v div 2 - 1) + s ! (length v div 2)) / 2))"
    by (simp add: median_of_def qsort_double s_def Let_def odd_iff_mod_2_eq_one)
  show "s ! ((length v - 1) div 2) \<le> fst (median_of rnd v (length v))"
    and "fst (median_of rnd v (length v)) \<le> s ! (length v div 2)"
  proof -
    have "s ! ((length v - 1) div 2) \<le> fst (median_of rnd v (length v))
      \<and> fst (median_of rnd v (length v)) \<le> s ! (length v div 2)"
    proof (cases "odd (length v)")
      case True
      then have "(length v - 1) div 2 = length v div 2" by (auto elim: oddE)
      with True show ?thesis by (simp add: eq)
    next
      case False
      let ?i = "length v div 2 - 1" and ?j = "length v div 2"
      have i: "(length v - 1) div 2 = ?i" "?j < length s" "?i \<le> ?j"
        using False n s(1) by (auto elim!: evenE)
      have le: "s ! ?i \<le> s ! ?j" using s(3) i by (intro sorted_nth_mono)
      have fp: "rnd (s ! ?i) = s ! ?i" "rnd (s ! ?j) = s ! ?j"
        using assms(2) i s(1,2) by (metis nth_mem le_less_trans)+
      from midpoint_between [OF assms(1) fp le] False i(1) show ?thesis by (simp add: eq)
    qed
    then show "s ! ((length v - 1) div 2) \<le> fst (median_of rnd v (length v))"
      and "fst (median_of rnd v (length v)) \<le> s ! (length v div 2)" by blast+
  qed
qed

lemma sorted_count_below:
  assumes "sorted (s :: rat list)" and "k < length s" and "s ! k \<le> m"
  shows "Suc k \<le> length (filter (\<lambda>x. x \<le> m) s)"
proof -
  have "s ! i \<le> m" if "i < Suc k" for i
    using sorted_nth_mono [OF assms(1), of i k] assms(2,3) that by simp
  then have "\<forall>x \<in> set (take (Suc k) s). x \<le> m" by (auto simp: in_set_conv_nth)
  then have "filter (\<lambda>x. x \<le> m) (take (Suc k) s) = take (Suc k) s" by (simp add: filter_id_conv)
  then have "length (filter (\<lambda>x. x \<le> m) (take (Suc k) s @ drop (Suc k) s)) \<ge> Suc k"
    using assms(2) by (simp only: filter_append) simp
  then show ?thesis by simp
qed

lemma sorted_count_above:
  assumes "sorted (s :: rat list)" and "k < length s" and "m \<le> s ! k"
  shows "length s - k \<le> length (filter (\<lambda>x. m \<le> x) s)"
proof -
  have "m \<le> s ! (k + i)" if "k + i < length s" for i
    using sorted_nth_mono [OF assms(1), of k "k + i"] assms(2,3) that by simp
  then have "\<forall>x \<in> set (drop k s). m \<le> x"
    by (auto simp: in_set_conv_nth add.commute less_diff_conv)
  then have "filter (\<lambda>x. m \<le> x) (drop k s) = drop k s" by (simp add: filter_id_conv)
  then have "length (filter (\<lambda>x. m \<le> x) (take k s @ drop k s)) \<ge> length s - k"
    by (simp only: filter_append) simp
  then show ?thesis by simp
qed

lemma median_of_props:
  assumes "rounding_law rnd" and "\<forall>x \<in> set v. rnd x = x" and "v \<noteq> []"
  shows "length v \<le> 2 * length (filter (\<lambda>x. x \<le> fst (median_of rnd v (length v))) v)
    \<and> length v \<le> 2 * length (filter (\<lambda>x. fst (median_of rnd v (length v)) \<le> x) v)
    \<and> lowest v \<le> fst (median_of rnd v (length v)) \<and> fst (median_of rnd v (length v)) \<le> highest v"
proof -
  let ?m = "fst (median_of rnd v (length v))" and ?s = "sort v"
  note b = median_between_middles [OF assms]
  have n: "0 < length v" using assms(3) by simp
  then have k: "(length v - 1) div 2 < length v" "length v div 2 < length v" by linarith+
  have count: "length (filter P ?s) = length (filter P v)" for P :: "rat \<Rightarrow> bool"
    by (metis mset_filter mset_sort size_mset)
  have "Suc ((length v - 1) div 2) \<le> length (filter (\<lambda>x. x \<le> ?m) ?s)"
    using k b(1) by (intro sorted_count_below) auto
  moreover have "length ?s - length v div 2 \<le> length (filter (\<lambda>x. ?m \<le> x) ?s)"
    using k b(2) by (intro sorted_count_above) auto
  moreover have "?s ! ((length v - 1) div 2) \<in> set v" "?s ! (length v div 2) \<in> set v"
    using k nth_mem [of _ ?s] by auto
  then have "lowest v \<le> ?m" "?m \<le> highest v"
    using b assms(3) by (auto simp: lowest_Min highest_Max intro: order_trans Min_le Max_ge)
  ultimately show ?thesis using n by (auto simp: count)
qed

text \<open>
  C14. Functional: \<open>median_of\<close> computes a median, with rounded arithmetic and for even and
  odd counts alike: at least half of the samples are at most the result and at least half are at
  least it, and it lies between the smallest and the largest sample.
\<close>
theorem median_of_is_median:
  assumes "rounding_law rnd" and "\<forall>x \<in> set v. rnd x = x" and "v \<noteq> []"
  shows "length v \<le> 2 * length (filter (\<lambda>x. x \<le> fst (median_of rnd v (length v))) v)
    \<and> length v \<le> 2 * length (filter (\<lambda>x. fst (median_of rnd v (length v)) \<le> x) v)
    \<and> lowest v \<le> fst (median_of rnd v (length v)) \<and> fst (median_of rnd v (length v)) \<le> highest v"
  using assms by (rule median_of_props)

lemma rounding_floor: "rounding_law (\<lambda>x. of_int \<lfloor>x\<rfloor>)"
proof -
  have "of_int \<lfloor>2 * x\<rfloor> = 2 * x" if "of_int \<lfloor>x\<rfloor> = x" for x :: rat
    by (metis that floor_of_int of_int_mult of_int_numeral)
  then show ?thesis by (auto simp: rounding_law_def mono_def intro: floor_mono)
qed

theorem median_of_is_median_witness:
  "lowest [9, 22, 15, 4] \<le> fst (median_of (\<lambda>x. of_int \<lfloor>x\<rfloor>) [9, 22, 15, 4] (length [9, 22, 15, 4 :: rat]))
   \<and> fst (median_of (\<lambda>x. of_int \<lfloor>x\<rfloor>) [9, 22, 15, 4] (length [9, 22, 15, 4 :: rat])) \<le> highest [9, 22, 15, 4]"
proof -
  have "\<forall>x \<in> set [9, 22, 15, 4]. of_int \<lfloor>x\<rfloor> = (x :: rat)" by simp
  from median_of_is_median [OF rounding_floor this] show ?thesis by blast
qed

lemma spread_of_props:
  assumes "rounding_law rnd" and "v \<noteq> []"
  shows "0 \<le> spread_of rnd (lowest v) (highest v)
    \<and> (lowest v = highest v \<longrightarrow> spread_of rnd (lowest v) (highest v) = 0)
    \<and> (length v = 1 \<longrightarrow> lowest v = highest v)"
proof -
  have rnd: "\<And>x. 0 \<le> x \<Longrightarrow> 0 \<le> rnd x" "rnd 0 = 0"
    using assms(1) by (auto simp: rounding_law_def mono_def dest: spec [of _ 0])
  have "lowest v \<le> highest v"
    using assms(2) by (simp add: lowest_Min highest_Max)
  then have "0 \<le> spread_of rnd (lowest v) (highest v)"
    by (auto simp: spread_of_def intro!: rnd mult_nonneg_nonneg divide_nonneg_nonneg)
  moreover have "length v = 1 \<Longrightarrow> lowest v = highest v"
    by (cases v) (auto simp: lowest_def highest_def)
  ultimately show ?thesis by (auto simp: spread_of_def rnd)
qed

text \<open>
  Bounds: the spread is never negative, and it is zero when all the samples are the same,
  in particular for a single run.
\<close>
theorem spread_of_bounds:
  assumes "rounding_law rnd" and "v \<noteq> []"
  shows "0 \<le> spread_of rnd (lowest v) (highest v)
    \<and> (lowest v = highest v \<longrightarrow> spread_of rnd (lowest v) (highest v) = 0)
    \<and> (length v = 1 \<longrightarrow> lowest v = highest v)"
  using assms by (rule spread_of_props)

theorem spread_of_bounds_witness:
  "0 \<le> spread_of (\<lambda>x. of_int \<lfloor>x\<rfloor>) (lowest [9, 15, 22]) (highest [9, 15, 22])"
  using spread_of_bounds [OF rounding_floor, of "[9, 15, 22]"] by simp

end
