(* ===== verification/Command.thy ===== *)
theory Command
  imports Registry Statistics
begin

text \<open>
  \<open>bench_main\<close> of \<open>src/bench.c\<close>: the command line, the loop over the table, the
  repetitions and the rows it prints. A printed line is a value of \<open>out_line\<close> holding the
  arguments of its \<open>printf\<close>; how \<open>printf\<close> renders a double is not modelled.
  \<open>atof\<close> and the rounding of doubles are parameters.
\<close>

section \<open>The command line\<close>

record opts =
  o_filter :: "string option"
  o_seconds :: rat
  o_fixed_n :: int
  o_count :: int
  o_tsv :: bool
  o_list :: bool

definition default_opts :: opts where
  "default_opts = \<lparr>o_filter = None, o_seconds = 1, o_fixed_n = 0, o_count = 1,
     o_tsv = False, o_list = False\<rparr>"

definition COUNT_MAX :: int where
  "COUNT_MAX = 64"

text \<open>
  \<open>strtoll(s, NULL, 10)\<close>: blanks, a sign, digits; saturating at the ends of the type. The same function
  stands for the \<open>strtol\<close> of \<open>-count\<close>, which is right where \<open>long\<close> has 64 bits (Linux, macOS); with the
  32 bit \<open>long\<close> of Windows a value outside of \<open>int\<close> saturates instead of wrapping.
\<close>

definition is_digit :: "char \<Rightarrow> bool" where
  "is_digit c \<longleftrightarrow> 48 \<le> (of_char c :: nat) \<and> (of_char c :: nat) \<le> 57"

definition is_space :: "char \<Rightarrow> bool" where
  "is_space c \<longleftrightarrow> c = CHR '' '' \<or> 9 \<le> (of_char c :: nat) \<and> (of_char c :: nat) \<le> 13"

definition digits_value :: "string \<Rightarrow> int" where
  "digits_value ds = fold (\<lambda>c v. 10 * v + (of_char c - 48)) ds 0"

definition strtoll10 :: "string \<Rightarrow> int" where
  "strtoll10 s =
     (let s = dropWhile is_space s;
          (neg, s) = (case s of c # cs \<Rightarrow> if c = CHR ''-'' then (True, cs)
                                      else if c = CHR ''+'' then (False, cs) else (False, s)
                        | [] \<Rightarrow> (False, []));
          v = digits_value (takeWhile is_digit s)
      in max (- int64_max - 1) (min int64_max (if neg then - v else v)))"

text \<open>The conversion \<open>(int)\<close> of a \<open>long\<close>, which keeps the low 32 bits.\<close>

definition to_int32 :: "int \<Rightarrow> int" where
  "to_int32 x = (x + 2147483648) mod 4294967296 - 2147483648"

text \<open>An argument that needs a value and has none after it falls through to the usage message.\<close>

fun parse_args :: "(string \<Rightarrow> rat) \<Rightarrow> string list \<Rightarrow> opts \<Rightarrow> opts option" where
  "parse_args atof [] o1 = Some o1"
| "parse_args atof [a] o1 =
     (if a = ''-tsv'' then Some (o1\<lparr>o_tsv := True\<rparr>)
      else if a = ''-list'' then Some (o1\<lparr>o_list := True\<rparr>)
      else None)"
| "parse_args atof (a # v # args) o1 =
     (if a = ''-run'' then parse_args atof args (o1\<lparr>o_filter := Some v\<rparr>)
      else if a = ''-time'' then parse_args atof args (o1\<lparr>o_seconds := atof v\<rparr>)
      else if a = ''-n'' then parse_args atof args (o1\<lparr>o_fixed_n := strtoll10 v\<rparr>)
      else if a = ''-count'' then parse_args atof args (o1\<lparr>o_count := to_int32 (strtoll10 v)\<rparr>)
      else if a = ''-tsv'' then parse_args atof (v # args) (o1\<lparr>o_tsv := True\<rparr>)
      else if a = ''-list'' then parse_args atof (v # args) (o1\<lparr>o_list := True\<rparr>)
      else None)"

definition clamp_count :: "int \<Rightarrow> int" where
  "clamp_count c = (let c = (if c < 1 then 1 else c) in if COUNT_MAX < c then COUNT_MAX else c)"

text \<open>\<open>(int64_t)(seconds * 1e9)\<close>, undefined when the product is out of range.\<close>

definition target_of :: "(rat \<Rightarrow> rat) \<Rightarrow> rat \<Rightarrow> int option" where
  "target_of rnd seconds = do {
     let x = rnd (seconds * 1000000000);
     target_ns \<leftarrow> check64 (if 0 \<le> x then \<lfloor>x\<rfloor> else \<lceil>x\<rceil>);
     Some (if target_ns < 1000000 then 1000000 else target_ns)
   }"

section \<open>The rows\<close>

record row =
  r_name :: string
  r_n :: int
  r_ns_per_op :: rat
  r_bytes_per_op :: rat
  r_allocs_per_op :: rat
  r_count :: int
  r_lo :: rat
  r_hi :: rat
  r_spread :: rat

datatype out_line =
    NameLine string
  | TsvHeader
  | TsvRow row
  | TextRow row bool bool  \<comment> \<open>whether the allocation and the spread columns are printed\<close>

datatype err_line = UsageLine | NothingMatched "string option"

definition per_op :: "(rat \<Rightarrow> rat) \<Rightarrow> int \<Rightarrow> int \<Rightarrow> rat" where
  "per_op rnd tot n = (if 0 < n then rnd (rnd (of_int tot) / rnd (of_int n)) else 0)"

text \<open>The repetitions of one benchmark, each a measured run with the same count.\<close>

fun repeat_runs ::
  "('l \<Rightarrow> (int \<times> int) \<times> 'l) \<Rightarrow> (rat \<Rightarrow> rat) \<Rightarrow> 'l entry \<Rightarrow> int \<Rightarrow> nat
     \<Rightarrow> rat list \<Rightarrow> bench \<Rightarrow> 'l world \<Rightarrow> (rat list \<times> bench \<times> 'l world) option" where
  "repeat_runs gettime rnd e n 0 samples last_b w = Some (samples, last_b, w)"
| "repeat_runs gettime rnd e n (Suc r) samples last_b w = do {
     (b, _, w) \<leftarrow> run_measured gettime e n False w;
     repeat_runs gettime rnd e n r (samples @ [per_op rnd (b_ns b) n]) b w
   }"

definition make_line :: "(rat \<Rightarrow> rat) \<Rightarrow> opts \<Rightarrow> 'l entry \<Rightarrow> int \<Rightarrow> rat list \<Rightarrow> bench \<Rightarrow> out_line" where
  "make_line rnd o1 e n samples last_b =
     (let lo = lowest samples;
          hi = highest samples;
          (ns_per_op, samples) = median_of rnd samples (nat (o_count o1));
          r = \<lparr>r_name = e_name e, r_n = n, r_ns_per_op = ns_per_op,
               r_bytes_per_op = per_op rnd (uint (b_bytes last_b)) n,
               r_allocs_per_op = per_op rnd (uint (b_allocs last_b)) n,
               r_count = o_count o1, r_lo = lo, r_hi = hi, r_spread = spread_of rnd lo hi\<rparr>
      in if o_tsv o1 then TsvRow r
         else TextRow r (0 < b_allocs last_b \<or> 0 < b_bytes last_b) (1 < o_count o1))"

definition run_entry ::
  "('l \<Rightarrow> (int \<times> int) \<times> 'l) \<Rightarrow> (rat \<Rightarrow> rat) \<Rightarrow> opts \<Rightarrow> int \<Rightarrow> 'l entry \<Rightarrow> 'l world
     \<Rightarrow> (out_line \<times> 'l world) option" where
  "run_entry gettime rnd o1 target_ns e w = do {
     (n, w) \<leftarrow> (if 0 < o_fixed_n o1 then Some (o_fixed_n o1, w) else pick_n gettime e target_ns w);
     (samples, last_b, w) \<leftarrow> repeat_runs gettime rnd e n (nat (o_count o1)) [] zero_bench w;
     Some (make_line rnd o1 e n samples last_b, w)
   }"

fun run_entries ::
  "('l \<Rightarrow> (int \<times> int) \<times> 'l) \<Rightarrow> (rat \<Rightarrow> rat) \<Rightarrow> opts \<Rightarrow> int \<Rightarrow> 'l entry list
     \<Rightarrow> 'l world \<Rightarrow> (out_line list \<times> 'l world) option" where
  "run_entries gettime rnd o1 target_ns [] w = Some ([], w)"
| "run_entries gettime rnd o1 target_ns (e # es) w =
     (if (case o_filter o1 of None \<Rightarrow> False | Some f \<Rightarrow> \<not> name_matches (e_name e) f)
      then run_entries gettime rnd o1 target_ns es w
      else do {
        (line, w) \<leftarrow> run_entry gettime rnd o1 target_ns e w;
        (lines, w) \<leftarrow> run_entries gettime rnd o1 target_ns es w;
        Some (line # lines, w)
      })"

text \<open>
  \<open>bench_main\<close>: the exit code with what was printed. \<open>ran == 0\<close> is an empty list of
  rows, since every benchmark that runs prints one.
\<close>

definition bench_main ::
  "('l \<Rightarrow> (int \<times> int) \<times> 'l) \<Rightarrow> (rat \<Rightarrow> rat) \<Rightarrow> (string \<Rightarrow> rat) \<Rightarrow> 'l entry list
     \<Rightarrow> string list \<Rightarrow> 'l world \<Rightarrow> (int \<times> out_line list \<times> err_line list \<times> 'l world) option" where
  "bench_main gettime rnd atof entries args w =
     (case parse_args atof args default_opts of
        None \<Rightarrow> Some (2, [], [UsageLine], w)
      | Some o1 \<Rightarrow>
          let o1 = o1\<lparr>o_count := clamp_count (o_count o1)\<rparr> in
          if o_list o1 then Some (0, map (\<lambda>e. NameLine (e_name e)) entries, [], w)
          else do {
            target_ns \<leftarrow> target_of rnd (o_seconds o1);
            (rows, w) \<leftarrow> run_entries gettime rnd o1 target_ns entries w;
            let out = (if o_tsv o1 then TsvHeader # rows else rows);
            Some (if rows = [] then (1, out, [NothingMatched (o_filter o1)], w) else (0, out, [], w))
          })"

section \<open>Facts\<close>

fun line_row :: "out_line \<Rightarrow> row option" where
  "line_row (TsvRow r) = Some r"
| "line_row (TextRow r _ _) = Some r"
| "line_row _ = None"

definition rows_of :: "out_line list \<Rightarrow> row list" where
  "rows_of lines = List.map_filter line_row lines"

lemma rows_of_simps [simp]:
  "rows_of [] = []"
  "rows_of (l # ls) = (case line_row l of None \<Rightarrow> rows_of ls | Some r \<Rightarrow> r # rows_of ls)"
  by (simp_all add: rows_of_def map_filter_simps split: option.split)

definition selected :: "opts \<Rightarrow> 'l entry \<Rightarrow> bool" where
  "selected o1 e \<longleftrightarrow> (case o_filter o1 of None \<Rightarrow> True | Some f \<Rightarrow> name_matches (e_name e) f)"

lemma clamp_count_range: "1 \<le> clamp_count c" "clamp_count c \<le> 64"
  by (auto simp: clamp_count_def COUNT_MAX_def Let_def)

lemma repeat_runs_samples:
  assumes "repeat_runs gt rnd e n k samples lb w = Some (samples', lb', w')"
    and "rounding_law rnd" and "\<forall>x \<in> set samples. rnd x = x"
  shows "length samples' = length samples + k \<and> (\<forall>x \<in> set samples'. rnd x = x)"
proof -
  have "rnd (per_op rnd t n) = per_op rnd t n" for t
    using assms(2) by (simp add: per_op_def rounding_law_def)
  then show ?thesis
    using assms(1,3)
    by (induction k arbitrary: samples lb w) (fastforce simp: bind_eq_Some_conv)+
qed

text \<open>A row in order: its statistics agree, and its counts are in their ranges.\<close>

definition row_ok :: "opts \<Rightarrow> row \<Rightarrow> bool" where
  "row_ok o1 r \<longleftrightarrow> r_count r = o_count o1 \<and> r_lo r \<le> r_ns_per_op r \<and> r_ns_per_op r \<le> r_hi r
     \<and> 0 \<le> r_spread r
     \<and> (if 0 < o_fixed_n o1 then r_n r = o_fixed_n o1 else 1 \<le> r_n r \<and> r_n r \<le> N_MAX)"

lemma make_line_row:
  "line_row (make_line rnd o1 e n samples lb) = Some
     \<lparr>r_name = e_name e, r_n = n, r_ns_per_op = fst (median_of rnd samples (nat (o_count o1))),
      r_bytes_per_op = per_op rnd (uint (b_bytes lb)) n,
      r_allocs_per_op = per_op rnd (uint (b_allocs lb)) n,
      r_count = o_count o1, r_lo = lowest samples, r_hi = highest samples,
      r_spread = spread_of rnd (lowest samples) (highest samples)\<rparr>"
  by (simp add: make_line_def split_beta Let_def)

lemma run_entry_row:
  assumes "run_entry gt rnd o1 target e w = Some (line, w')"
    and "rounding_law rnd" and "1 \<le> o_count o1"
  shows "\<exists>r. line_row line = Some r \<and> r_name r = e_name e \<and> row_ok o1 r"
proof -
  from assms(1) obtain n w1 samples lb where
    n: "(if 0 < o_fixed_n o1 then Some (o_fixed_n o1, w) else pick_n gt e target w) = Some (n, w1)"
    and s: "repeat_runs gt rnd e n (nat (o_count o1)) [] zero_bench w1 = Some (samples, lb, w')"
    and line: "line = make_line rnd o1 e n samples lb"
    by (auto simp: run_entry_def bind_eq_Some_conv)
  have len: "length samples = nat (o_count o1)" and "\<forall>x \<in> set samples. rnd x = x"
    using repeat_runs_samples [OF s assms(2)] by simp_all
  moreover have ne: "samples \<noteq> []" using len assms(3) by auto
  ultimately have "lowest samples \<le> fst (median_of rnd samples (nat (o_count o1)))"
    "fst (median_of rnd samples (nat (o_count o1))) \<le> highest samples"
    using median_of_props [OF assms(2), of samples] by auto
  moreover have "0 \<le> spread_of rnd (lowest samples) (highest samples)"
    using spread_of_props [OF assms(2) ne] by blast
  moreover have "if 0 < o_fixed_n o1 then n = o_fixed_n o1 else 1 \<le> n \<and> n \<le> N_MAX"
    using n pick_n_in_range [of gt e target w n w1] by (auto split: if_splits)
  ultimately show ?thesis by (simp add: line make_line_row row_ok_def)
qed

lemma selected_iff:
  "(case o_filter o1 of None \<Rightarrow> False | Some f \<Rightarrow> \<not> name_matches (e_name e) f) \<longleftrightarrow> \<not> selected o1 e"
  by (simp add: selected_def split: option.split)

lemma run_entries_rows:
  assumes "run_entries gt rnd o1 target es w = Some (lines, w')"
    and "rounding_law rnd" and "1 \<le> o_count o1"
  shows "map r_name (rows_of lines) = map e_name (filter (selected o1) es)
    \<and> (\<forall>r \<in> set (rows_of lines). row_ok o1 r)
    \<and> (lines = [] \<longleftrightarrow> filter (selected o1) es = [])"
  using assms(1)
proof (induction es arbitrary: w lines)
  case (Cons e es)
  show ?case
  proof (cases "selected o1 e")
    case False
    with Cons show ?thesis by (simp add: selected_iff)
  next
    case True
    with Cons.prems obtain line w1 ls where
      l: "run_entry gt rnd o1 target e w = Some (line, w1)"
      and ls: "run_entries gt rnd o1 target es w1 = Some (ls, w')" and lines: "lines = line # ls"
      by (auto simp: selected_iff bind_eq_Some_conv)
    obtain r where "line_row line = Some r" "r_name r = e_name e" "row_ok o1 r"
      using run_entry_row [OF l assms(2,3)] by blast
    with Cons.IH [OF ls] True show ?thesis by (simp add: lines)
  qed
qed simp

lemma bench_main_cases:
  assumes "bench_main gt rnd atof entries args w = Some (code, out, err, w')"
  obtains (usage) "parse_args atof args default_opts = None" and "code = 2" and "out = []"
      and "err = [UsageLine]"
    | (listing) p where "parse_args atof args default_opts = Some p" and "o_list p" and "code = 0"
      and "out = map (\<lambda>e. NameLine (e_name e)) entries" and "err = []" and "w' = w"
    | (ran) p target rows where "parse_args atof args default_opts = Some p" and "\<not> o_list p"
      and "target_of rnd (o_seconds p) = Some target"
      and "run_entries gt rnd (p\<lparr>o_count := clamp_count (o_count p)\<rparr>) target entries w
           = Some (rows, w')"
      and "out = (if o_tsv p then TsvHeader # rows else rows)"
      and "code = (if rows = [] then 1 else 0)"
      and "err = (if rows = [] then [NothingMatched (o_filter p)] else [])"
proof (cases "parse_args atof args default_opts")
  case None
  with assms usage show ?thesis by (simp add: bench_main_def)
next
  case (Some p)
  show ?thesis
  proof (cases "o_list p")
    case True
    with assms Some listing show ?thesis by (simp add: bench_main_def Let_def)
  next
    case False
    let ?p = "p\<lparr>o_count := clamp_count (o_count p)\<rparr>"
    have flds: "o_list ?p = o_list p" "o_seconds ?p = o_seconds p" "o_tsv ?p = o_tsv p"
      "o_filter ?p = o_filter p" by simp_all
    define fin where "fin = (\<lambda>(rows, v :: 'a world).
      if rows = [] then (1 :: int, if o_tsv p then TsvHeader # rows else rows,
                [NothingMatched (o_filter p)], v)
      else (0, if o_tsv p then TsvHeader # rows else rows, [], v))"
    have "bench_main gt rnd atof entries args w = do {
       target_ns \<leftarrow> target_of rnd (o_seconds p);
       rv \<leftarrow> run_entries gt rnd ?p target_ns entries w;
       Some (fin rv) }"
      using False
      by (simp add: bench_main_def Some Let_def fin_def case_prod_unfold if_distrib [of Some]
          cong: if_cong)
    with assms obtain target rows v where
      t: "target_of rnd (o_seconds p) = Some target" and
      r: "run_entries gt rnd ?p target entries w = Some (rows, v)" and
      q: "fin (rows, v) = (code, out, err, w')"
      by (auto simp: bind_eq_Some_conv)
    from q have "v = w'" "out = (if o_tsv p then TsvHeader # rows else rows)"
      "code = (if rows = [] then 1 else 0)"
      "err = (if rows = [] then [NothingMatched (o_filter p)] else [])"
      by (auto simp: fin_def split: if_splits)
    with ran [OF Some False t] r show ?thesis by blast
  qed
qed

text \<open>
  C2. Functional: an ordinary run prints one row for every registered benchmark the filter
  selects, in the order of the table, and no row for another; every row has a count of
  repetitions between 1 and 64, so the array of 64 samples is never overrun, a result between
  the smallest and the largest sample, a spread that is not negative, and the fixed iteration
  count, or one between 1 and \<open>N_MAX\<close>.
\<close>
theorem bench_main_rows:
  assumes "bench_main gettime rnd atof entries args w = Some (code, out, err, w')"
    and "parse_args atof args default_opts = Some p" and "\<not> o_list p" and "rounding_law rnd"
  shows "map r_name (rows_of out) = map e_name (filter (selected p) entries)
    \<and> (\<forall>r \<in> set (rows_of out). row_ok (p\<lparr>o_count := clamp_count (o_count p)\<rparr>) r
         \<and> 1 \<le> r_count r \<and> r_count r \<le> 64)"
  using assms(1)
proof (cases rule: bench_main_cases)
  case (ran q target rows)
  with assms(2) have q: "q = p" by simp
  let ?p = "p\<lparr>o_count := clamp_count (o_count p)\<rparr>"
  have "selected ?p = (selected p :: 'a entry \<Rightarrow> bool)" by (auto simp: selected_def fun_eq_iff)
  moreover have "rows_of out = rows_of rows" using ran(5) by simp
  moreover have "1 \<le> o_count ?p" by (simp add: clamp_count_range)
  note run_entries_rows [OF ran(4) [unfolded q] assms(4) this]
  ultimately show ?thesis by (auto simp: row_ok_def clamp_count_range)
qed (use assms in auto)

text \<open>
  C9. Error: the exit code says what happened. It is 2, with the usage message and nothing
  else, exactly when the arguments do not parse; 1, with the message that nothing matched,
  exactly when they parse, are no listing and select no registered benchmark; and otherwise 0 with
  nothing on the error stream.
\<close>
theorem bench_main_exit:
  assumes "bench_main gettime rnd atof entries args w = Some (code, out, err, w')"
    and "rounding_law rnd"
  shows "(code = 2 \<longleftrightarrow> parse_args atof args default_opts = None)
    \<and> (code = 1 \<longleftrightarrow> (\<exists>p. parse_args atof args default_opts = Some p \<and> \<not> o_list p
         \<and> filter (selected p) entries = []))
    \<and> (code = 0 \<or> code = 1 \<or> code = 2) \<and> (err = [] \<longleftrightarrow> code = 0)"
  using assms(1)
proof (cases rule: bench_main_cases)
  case (ran p target rows)
  let ?p = "p\<lparr>o_count := clamp_count (o_count p)\<rparr>"
  have sel: "selected ?p = (selected p :: 'a entry \<Rightarrow> bool)" by (auto simp: selected_def fun_eq_iff)
  have "1 \<le> o_count ?p" by (simp add: clamp_count_range)
  from run_entries_rows [OF ran(4) assms(2) this] sel ran show ?thesis by auto
qed auto

text \<open>A concrete run for the witnesses: one benchmark of five nanoseconds an iteration.\<close>

definition one_bench :: "int entry list" where
  "one_bench = [\<lparr>e_name = ''hash_int'', e_fn = (\<lambda>w. Some (perform (\<lambda>t. t + 5 * b_n (bch w)) w))\<rparr>]"

abbreviation idle_world :: "int world" where
  "idle_world \<equiv> \<lparr>bch = zero_bench, kept = [], rest = 0\<rparr>"

lemma one_bench_args:
  "parse_args (\<lambda>s. 0) [''-n'', ''1000'', ''-run'', ''hash''] default_opts
     = Some (default_opts\<lparr>o_fixed_n := 1000, o_filter := Some ''hash''\<rparr>)"
  by (simp add: strtoll10_def digits_value_def is_digit_def is_space_def int64_max_def)

lemma one_bench_matches: "name_matches ''hash_int'' ''hash''"
  by (simp add: name_matches_def strstr.simps)

lemma one_bench_target: "target_of (\<lambda>x. of_int \<lfloor>x\<rfloor>) 1 = Some 1000000000"
  by (simp add: target_of_def check64_def in_int64_def int64_max_def)

lemma one_bench_entry:
  "\<exists>l w'. run_entry ideal_clock rnd
      (default_opts\<lparr>o_fixed_n := 1000, o_filter := Some ''hash'', o_count := 1\<rparr>) t (hd one_bench) w
      = Some (l, w')"
  by (simp add: run_entry_def default_opts_def one_bench_def run_measured_def split_beta Let_def)

lemma one_bench_run:
  "\<exists>out w'. bench_main ideal_clock (\<lambda>x. of_int \<lfloor>x\<rfloor>) (\<lambda>s. 0) one_bench
     [''-n'', ''1000'', ''-run'', ''hash''] idle_world = Some (0, out, [], w')"
proof -
  let ?o = "default_opts\<lparr>o_fixed_n := 1000, o_filter := Some ''hash'', o_count := 1\<rparr>"
  obtain l w' where e: "run_entry ideal_clock (\<lambda>x. of_int \<lfloor>x\<rfloor>) ?o 1000000000 (hd one_bench) idle_world
      = Some (l, w')" using one_bench_entry by blast
  have "run_entries ideal_clock (\<lambda>x. of_int \<lfloor>x\<rfloor>) ?o 1000000000 one_bench idle_world = Some ([l], w')"
    using e one_bench_matches by (simp add: one_bench_def)
  then show ?thesis
    unfolding bench_main_def one_bench_args option.case
    by (simp add: clamp_count_def COUNT_MAX_def Let_def default_opts_def one_bench_target)
qed

theorem bench_main_rows_witness:
  "\<exists>code out err w'. bench_main ideal_clock (\<lambda>x. of_int \<lfloor>x\<rfloor>) (\<lambda>s. 0) one_bench
     [''-n'', ''1000'', ''-run'', ''hash''] idle_world = Some (code, out, err, w')
     \<and> map r_name (rows_of out) = [''hash_int'']"
proof -
  let ?o = "default_opts\<lparr>o_fixed_n := 1000, o_filter := Some ''hash''\<rparr>"
  obtain out w' where run: "bench_main ideal_clock (\<lambda>x. of_int \<lfloor>x\<rfloor>) (\<lambda>s. 0) one_bench
     [''-n'', ''1000'', ''-run'', ''hash''] idle_world = Some (0, out, [], w')"
    using one_bench_run by blast
  have "\<not> o_list ?o" by (simp add: default_opts_def)
  from bench_main_rows [OF run one_bench_args this rounding_floor]
  have "map r_name (rows_of out) = [''hash_int'']"
    using one_bench_matches by (simp add: one_bench_def selected_def)
  with run show ?thesis by (intro exI conjI)
qed

theorem bench_main_exit_witness:
  "\<exists>code out err w'. bench_main ideal_clock (\<lambda>x. of_int \<lfloor>x\<rfloor>) (\<lambda>s. 0) one_bench
     [''-n'', ''1000'', ''-run'', ''hash''] idle_world = Some (code, out, err, w')
     \<and> code \<noteq> 2 \<and> (err = [] \<longleftrightarrow> code = 0)"
proof -
  obtain code out err w' where run: "bench_main ideal_clock (\<lambda>x. of_int \<lfloor>x\<rfloor>) (\<lambda>s. 0) one_bench
     [''-n'', ''1000'', ''-run'', ''hash''] idle_world = Some (code, out, err, w')"
    using one_bench_run by blast
  from bench_main_exit [OF run rounding_floor] one_bench_args
  have "code \<noteq> 2" "err = [] \<longleftrightarrow> code = 0" by simp_all
  with run show ?thesis by blast
qed

end
