(* ===== verification/Process.thy ===== *)
theory Process
  imports Runner Complex_Main
begin

text \<open>
  The process a benchmark runs in, and the C statements the benchmark files are written with.

  A benchmark of \<open>bench/\<close> is a C function that reads and writes static variables,
  calls burrow, and hands results to the sink. Burrow is not part of this repository: each
  of its operations is a parameter, a function from the state of the library and the machine to
  its result, the nanoseconds it took, and the state it leaves. Those parameters are gathered
  in one record per burrow package, in the theory of the file that uses the package.
\<close>

section \<open>The process\<close>

text \<open>
  \<open>clock\<close> is the time of day. The variables of the program whose address is taken and
  the static variables of the benchmark files are stored by type, under the name of the
  variable. \<open>machine\<close> is everything that burrow and the kernel keep.
\<close>

record 'm process =
  clock :: int
  int_var :: "string \<Rightarrow> int"
  u64_var :: "string \<Rightarrow> u64"
  dbl_var :: "string \<Rightarrow> rat"
  int_array :: "string \<Rightarrow> int list"
  str_array :: "string \<Rightarrow> string list"
  machine :: 'm

type_synonym 'm cstmt = "'m process stmt"

text \<open>
  What the C library, the linker and the compiler give: the monotonic clock, the addresses of
  named objects, which the benchmarks hand to \<open>bench_keep\<close>, and the nanoseconds that
  a named function of the program itself takes.
\<close>

record 'm host =
  gettime :: "'m process \<Rightarrow> (int \<times> int) \<times> 'm process"
  addr :: "string \<Rightarrow> nat"
  work :: "string \<Rightarrow> nat"

text \<open>A host whose clock reads the time exactly and takes no time to do so.\<close>

definition exact_host :: "(string \<Rightarrow> nat) \<Rightarrow> (string \<Rightarrow> nat) \<Rightarrow> 'm host" where
  "exact_host a wk =
     \<lparr>gettime = (\<lambda>p. ((clock p div 1000000000, clock p mod 1000000000), p)), addr = a, work = wk\<rparr>"

definition host_ok :: "'m host \<Rightarrow> bool" where
  "host_ok h \<longleftrightarrow> clock_law (gettime h) clock
     \<and> (\<forall>p. snd (gettime h p) = p\<lparr>clock := clock (snd (gettime h p))\<rparr>)"

lemma host_ok_sel:
  assumes "host_ok h"
  shows "machine (snd (gettime h p)) = machine p" "int_var (snd (gettime h p)) = int_var p"
    "u64_var (snd (gettime h p)) = u64_var p" "int_array (snd (gettime h p)) = int_array p"
    "str_array (snd (gettime h p)) = str_array p"
proof -
  have "snd (gettime h p) = p\<lparr>clock := clock (snd (gettime h p))\<rparr>"
    using assms by (simp add: host_ok_def)
  then obtain t where "snd (gettime h p) = p\<lparr>clock := t\<rparr>" by blast
  then show "machine (snd (gettime h p)) = machine p" "int_var (snd (gettime h p)) = int_var p"
    "u64_var (snd (gettime h p)) = u64_var p" "int_array (snd (gettime h p)) = int_array p"
    "str_array (snd (gettime h p)) = str_array p" by simp_all
qed

text \<open>An operation of a library: result, nanoseconds, state left.\<close>

type_synonym ('a, 'm) op = "'m \<Rightarrow> 'a \<times> nat \<times> 'm"

definition lib :: "('a, 'm) op \<Rightarrow> 'm process \<Rightarrow> 'a \<times> 'm process" where
  "lib f p = (let (x, dt, m) = f (machine p) in (x, p\<lparr>clock := clock p + int dt, machine := m\<rparr>))"

text \<open>\<open>(uint64_t)x\<close> for a double: undefined where the truncation is out of range.\<close>

definition u64_of_double :: "rat \<Rightarrow> u64 option" where
  "u64_of_double x =
     (if - 1 < x \<and> x < 18446744073709551616 then Some (of_int (if 0 \<le> x then \<lfloor>x\<rfloor> else \<lceil>x\<rceil>)) else None)"

section \<open>Statements\<close>

fun block :: "'l stmt list \<Rightarrow> 'l stmt" where
  "block [] w = Some w"
| "block (s # ss) w = do { w \<leftarrow> s w; block ss w }"

lemma block_Nil_eq [simp]: "block [] = Some"
  by (rule ext) simp

lemma block_single [simp]: "block [s] = s"
  by (rule ext) simp

text \<open>\<open>x = f(...); rest of the block\<close>, for a function of a library.\<close>

definition calling :: "('a, 'm) op \<Rightarrow> ('a \<Rightarrow> 'm cstmt) \<Rightarrow> 'm cstmt" where
  "calling f k w = (let (x, w) = call (lib f) w in k x w)"

definition assign :: "('l \<Rightarrow> 'l) \<Rightarrow> 'l stmt" where
  "assign f w = Some (perform f w)"

definition reading :: "('l \<Rightarrow> 'a) \<Rightarrow> ('a \<Rightarrow> 'l stmt) \<Rightarrow> 'l stmt" where
  "reading f k w = k (f (rest w)) w"

text \<open>An expression whose evaluation may be undefined, such as an \<open>Int\<close> sum.\<close>

definition checked :: "'a option \<Rightarrow> ('a \<Rightarrow> 'l stmt) \<Rightarrow> 'l stmt" where
  "checked e k w = do { x \<leftarrow> e; k x w }"

text \<open>\<open>b->n\<close>.\<close>

definition reading_n :: "(int \<Rightarrow> 'l stmt) \<Rightarrow> 'l stmt" where
  "reading_n k w = k (b_n (bch w)) w"

definition keep :: "nat \<Rightarrow> 'l stmt" where
  "keep p w = Some (bench_keep p w)"

definition keep_u64 :: "u64 \<Rightarrow> 'l stmt" where
  "keep_u64 v w = Some (bench_keep_u64 v w)"

definition pausing :: "'m host \<Rightarrow> 'm cstmt" where
  "pausing h w = Some (bench_pause (gettime h) w)"

definition resuming :: "'m host \<Rightarrow> 'm cstmt" where
  "resuming h w = Some (bench_resume (gettime h) w)"

definition reporting :: "u64 \<Rightarrow> u64 \<Rightarrow> 'l stmt" where
  "reporting bytes allocs w = Some (bench_report_allocs bytes allocs w)"

definition aborting :: "'l stmt" where
  "aborting w = None"

definition set_int :: "string \<Rightarrow> int \<Rightarrow> 'm cstmt" where
  "set_int x v = assign (\<lambda>p. p\<lparr>int_var := (int_var p)(x := v)\<rparr>)"

definition set_u64 :: "string \<Rightarrow> u64 \<Rightarrow> 'm cstmt" where
  "set_u64 x v = assign (\<lambda>p. p\<lparr>u64_var := (u64_var p)(x := v)\<rparr>)"

definition set_dbl :: "string \<Rightarrow> rat \<Rightarrow> 'm cstmt" where
  "set_dbl x v = assign (\<lambda>p. p\<lparr>dbl_var := (dbl_var p)(x := v)\<rparr>)"

definition set_ints :: "string \<Rightarrow> int list \<Rightarrow> 'm cstmt" where
  "set_ints x v = assign (\<lambda>p. p\<lparr>int_array := (int_array p)(x := v)\<rparr>)"

definition set_strs :: "string \<Rightarrow> string list \<Rightarrow> 'm cstmt" where
  "set_strs x v = assign (\<lambda>p. p\<lparr>str_array := (str_array p)(x := v)\<rparr>)"

definition spending :: "'m host \<Rightarrow> string \<Rightarrow> 'm cstmt" where
  "spending h name = assign (\<lambda>p. p\<lparr>clock := clock p + int (work h name)\<rparr>)"

text \<open>\<open>for (i = 0; i < k; i++) body\<close> with a fixed bound.\<close>

definition repeat_for :: "nat \<Rightarrow> (int \<Rightarrow> 'l stmt) \<Rightarrow> 'l stmt" where
  "repeat_for k body w = for_loop k 0 body w"

section \<open>What every path through a statement does\<close>

text \<open>
  \<open>does R f\<close>: whenever \<open>f\<close> comes back, its states before and after are in
  \<open>R\<close>. The rules for the statements follow their syntax.
\<close>

definition does :: "('w \<Rightarrow> 'w \<Rightarrow> bool) \<Rightarrow> ('w \<Rightarrow> 'w option) \<Rightarrow> bool" where
  "does R f \<longleftrightarrow> (\<forall>w w'. f w = Some w' \<longrightarrow> R w w')"

lemma doesI: "(\<And>w w'. f w = Some w' \<Longrightarrow> R w w') \<Longrightarrow> does R f"
  by (simp add: does_def)

lemma doesD: "does R f \<Longrightarrow> f w = Some w' \<Longrightarrow> R w w'"
  by (simp add: does_def)

locale transition =
  fixes R :: "'l world \<Rightarrow> 'l world \<Rightarrow> bool"
  assumes R_refl: "R w w"
    and R_trans: "R u v \<Longrightarrow> R v w \<Longrightarrow> R u w"
begin

lemma block_Nil: "does R (block [])"
  by (simp add: does_def R_refl)

lemma block_Cons:
  assumes "does R s" and "does R (block ss)"
  shows "does R (block (s # ss))"
proof (rule doesI)
  fix w w' assume "block (s # ss) w = Some w'"
  then obtain v where "s w = Some v" "block ss v = Some w'"
    by (auto simp: bind_eq_Some_conv)
  with assms show "R w w'" by (blast intro: R_trans dest: doesD)
qed

lemma block_rule: "(\<And>s. s \<in> set ss \<Longrightarrow> does R s) \<Longrightarrow> does R (block ss)"
  by (induction ss) (simp_all add: block_Nil block_Cons del: block.simps block_Nil_eq)

lemma for_rule: "(\<And>i. does R (body i)) \<Longrightarrow> does R (for_loop k j body)"
  by (auto intro!: doesI elim!: for_loop_keeps [where P = "R _"] intro: R_refl R_trans dest: doesD)

lemma for_break_rule:
  assumes "\<And>i v g v'. body i v = Some (g, v') \<Longrightarrow> R v v'"
  shows "does R (for_break k j body)"
  by (auto intro!: doesI elim!: for_break_keeps [where P = "R _"] intro: R_refl R_trans assms)

lemma loop_rule: "(\<And>i. does R (body i)) \<Longrightarrow> does R (bench_loop body)"
  using for_rule [of body] by (simp add: does_def bench_loop_def)

lemma repeat_rule: "(\<And>i. does R (body i)) \<Longrightarrow> does R (repeat_for k body)"
  using for_rule [of body k 0] by (simp add: does_def repeat_for_def)

lemma reading_rule: "(\<And>x. does R (k x)) \<Longrightarrow> does R (reading f k)"
  by (simp add: does_def reading_def)

lemma reading_n_rule: "(\<And>x. does R (k x)) \<Longrightarrow> does R (reading_n k)"
  by (simp add: does_def reading_n_def)

lemma checked_rule: "(\<And>x. e = Some x \<Longrightarrow> does R (k x)) \<Longrightarrow> does R (checked e k)"
  by (auto simp: does_def checked_def bind_eq_Some_conv)

lemma if_rule: "(c \<Longrightarrow> does R f) \<Longrightarrow> (\<not> c \<Longrightarrow> does R g) \<Longrightarrow> does R (if c then f else g)"
  by simp

lemma aborting_rule: "does R aborting"
  by (simp add: does_def aborting_def)

lemma skip_rule: "does R Some"
  by (simp add: does_def R_refl)

lemmas rules = block_Cons block_Nil loop_rule repeat_rule reading_rule reading_n_rule checked_rule
  if_rule aborting_rule skip_rule

end

section \<open>The contract of the runner\<close>

interpretation moving: transition "advances clock :: 'm process world \<Rightarrow> 'm process world \<Rightarrow> bool"
  by unfold_locales (auto intro: advances_trans)

named_theorems contract_rules \<open>rules that show that a statement advances the handle\<close>

lemmas [contract_rules] = moving.rules

lemma loop_break_moves:
  fixes body :: "int \<Rightarrow> 'm process world \<Rightarrow> (bool \<times> 'm process world) option"
  assumes "\<And>i w g w'. body i w = Some (g, w') \<Longrightarrow> advances clock w w'"
  shows "does (advances clock) (bench_loop_break body)" "does (advances clock) (for_break k j body)"
  using moving.for_break_rule [of body] assms by (simp_all add: does_def bench_loop_break_def)

lemma lib_sel [simp]:
  "fst (lib f p) = fst (f (machine p))" "machine (snd (lib f p)) = snd (snd (f (machine p)))"
  "clock (snd (lib f p)) = clock p + int (fst (snd (f (machine p))))"
  "int_var (snd (lib f p)) = int_var p" "u64_var (snd (lib f p)) = u64_var p"
  "dbl_var (snd (lib f p)) = dbl_var p" "int_array (snd (lib f p)) = int_array p" "str_array (snd (lib f p)) = str_array p"
  by (simp_all add: lib_def split_beta)

lemma calling_moves [contract_rules]:
  fixes k :: "'a \<Rightarrow> 'm cstmt"
  assumes "\<And>x. does (advances clock) (k x)"
  shows "does (advances clock) (calling f k)"
proof (rule doesI)
  fix w w' :: "'m process world"
  assume "calling f k w = Some w'"
  then have "k (fst (call (lib f) w)) (snd (call (lib f) w)) = Some w'"
    by (simp add: calling_def split_beta)
  then have "advances clock (snd (call (lib f) w)) w'"
    by (rule doesD [OF assms])
  moreover have "advances clock w (snd (call (lib f) w))"
    by (rule advances_rest) simp_all
  ultimately show "advances clock w w'" by (blast intro: advances_trans)
qed

lemma assign_moves: "(\<And>p. clock (f p) = clock p) \<Longrightarrow> does (advances clock) (assign f)"
  by (auto simp: assign_def intro!: doesI advances_rest)

lemma set_moves [contract_rules]:
  "does (advances clock) (set_int x i)" "does (advances clock) (set_u64 x u)"
  "does (advances clock) (set_ints x is)" "does (advances clock) (set_strs x ss)"
  "does (advances clock) (set_dbl x d)"
  by (simp_all add: set_int_def set_u64_def set_dbl_def set_ints_def set_strs_def assign_moves)

lemma spending_moves [contract_rules]: "does (advances clock) (spending h x)"
  by (auto simp: spending_def assign_def intro!: doesI advances_rest)

lemma keep_moves [contract_rules]:
  "does (advances clock) (keep p)" "does (advances clock) (keep_u64 v)"
  "does (advances clock) (reporting x y)"
  by (auto simp: keep_def keep_u64_def reporting_def intro: doesI)

lemma timer_moves [contract_rules]:
  assumes "host_ok h"
  shows "does (advances clock) (pausing h)" "does (advances clock) (resuming h)"
  using assms by (auto simp: host_ok_def pausing_def resuming_def intro!: doesI intro: advances_intros)

text \<open>The timer operations change nothing but the timer and the clock.\<close>

lemma timer_stmt:
  assumes "host_ok h"
  shows "\<exists>w'. pausing h w = Some w' \<and> kept w' = kept w \<and> b_n (bch w') = b_n (bch w)
      \<and> machine (rest w') = machine (rest w) \<and> int_var (rest w') = int_var (rest w)
      \<and> u64_var (rest w') = u64_var (rest w) \<and> int_array (rest w') = int_array (rest w)
      \<and> str_array (rest w') = str_array (rest w)"
    and "\<exists>w'. resuming h w = Some w' \<and> kept w' = kept w \<and> b_n (bch w') = b_n (bch w)
      \<and> machine (rest w') = machine (rest w) \<and> int_var (rest w') = int_var (rest w)
      \<and> u64_var (rest w') = u64_var (rest w) \<and> int_array (rest w') = int_array (rest w)
      \<and> str_array (rest w') = str_array (rest w)"
  by (simp_all add: pausing_def resuming_def timer_simps host_ok_sel [OF assms])

lemma benchmark_if_moves:
  "host_ok h \<Longrightarrow> does (advances clock) f \<Longrightarrow> benchmark (gettime h) clock f"
  by unfold_locales (auto simp: host_ok_def dest: doesD)

section \<open>What the sink receives\<close>

text \<open>
  \<open>emits c f\<close>: in a run of \<open>n\<close> iterations \<open>f\<close> comes back, leaves the count
  alone and hands exactly \<open>c n\<close> values to the sink.
\<close>

definition emits :: "(nat \<Rightarrow> nat) \<Rightarrow> 'l stmt \<Rightarrow> bool" where
  "emits c f \<longleftrightarrow> (\<forall>w. \<exists>w'. f w = Some w' \<and> b_n (bch w') = b_n (bch w)
     \<and> length (kept w') = length (kept w) + c (nat (b_n (bch w))))"

named_theorems sink_rules \<open>rules that count the values handed to the sink\<close>

lemma emitsD:
  "emits c f \<Longrightarrow> \<exists>w'. f w = Some w' \<and> b_n (bch w') = b_n (bch w)
     \<and> length (kept w') = length (kept w) + c (nat (b_n (bch w)))"
  by (simp add: emits_def)

lemma emits_same: "emits c f \<Longrightarrow> (\<And>n. c n = d n) \<Longrightarrow> emits d f"
  by (simp add: emits_def)

lemma emits_Nil [sink_rules]: "emits (\<lambda>n. 0) (block [])"
  by (simp add: emits_def)

lemma emits_Cons [sink_rules]:
  assumes "emits c s" and "emits d (block ss)"
  shows "emits (\<lambda>n. c n + d n) (block (s # ss))"
  unfolding emits_def
proof
  fix w
  obtain v where v: "s w = Some v" "b_n (bch v) = b_n (bch w)"
    "length (kept v) = length (kept w) + c (nat (b_n (bch w)))"
    using emitsD [OF assms(1)] by blast
  with emitsD [OF assms(2), of v]
  show "\<exists>w'. block (s # ss) w = Some w' \<and> b_n (bch w') = b_n (bch w)
     \<and> length (kept w') = length (kept w) + (c (nat (b_n (bch w))) + d (nat (b_n (bch w))))"
    by auto
qed

lemma emits_for:
  assumes "\<And>i. emits c (body i)"
  shows "\<exists>w'. for_loop k j body w = Some w' \<and> b_n (bch w') = b_n (bch w)
     \<and> length (kept w') = length (kept w) + k * c (nat (b_n (bch w)))"
proof (rule for_loop_total)
  fix i and v :: "'a world"
  assume "b_n (bch v) = b_n (bch w)
    \<and> length (kept v) = length (kept w) + i * c (nat (b_n (bch w)))"
  with emitsD [OF assms, of "j + int i" v]
  show "\<exists>v'. body (j + int i) v = Some v' \<and> b_n (bch v') = b_n (bch w)
    \<and> length (kept v') = length (kept w) + Suc i * c (nat (b_n (bch w)))"
    by auto
qed simp

lemma emits_loop [sink_rules]:
  "(\<And>i. emits c (body i)) \<Longrightarrow> emits (\<lambda>n. n * c n) (bench_loop body)"
  using emits_for [of c body] by (simp add: emits_def bench_loop_def)

lemma emits_repeat [sink_rules]:
  "(\<And>i. emits c (body i)) \<Longrightarrow> emits (\<lambda>n. k * c n) (repeat_for k body)"
  using emits_for [of c body k 0] by (simp add: emits_def repeat_for_def)

lemma emits_reading [sink_rules]: "(\<And>x. emits c (k x)) \<Longrightarrow> emits c (reading f k)"
  by (simp add: emits_def reading_def)

lemma emits_calling [sink_rules]:
  assumes "\<And>x. emits c (k x)"
  shows "emits c (calling f k)"
  unfolding emits_def
proof
  fix w
  show "\<exists>w'. calling f k w = Some w' \<and> b_n (bch w') = b_n (bch w)
     \<and> length (kept w') = length (kept w) + c (nat (b_n (bch w)))"
    using emitsD [OF assms, of "fst (call (lib f) w)" "snd (call (lib f) w)"]
    by (simp add: calling_def split_beta)
qed

lemma emits_simple [sink_rules]:
  "emits (\<lambda>n. 1) (keep p)" "emits (\<lambda>n. 1) (keep_u64 v)"
  "emits (\<lambda>n. 0) (assign g)" "emits (\<lambda>n. 0) (set_int x i)" "emits (\<lambda>n. 0) (set_u64 x u)"
  "emits (\<lambda>n. 0) (set_dbl x d)" "emits (\<lambda>n. 0) (set_ints x is)" "emits (\<lambda>n. 0) (set_strs x ss)"
  "emits (\<lambda>n. 0) (pausing h)" "emits (\<lambda>n. 0) (resuming h)" "emits (\<lambda>n. 0) (reporting a c)"
  "emits (\<lambda>n. 0) Some" "emits (\<lambda>n. 0) (spending h y)"
  by (simp_all add: spending_def set_dbl_def emits_def keep_def keep_u64_def assign_def set_int_def set_u64_def set_ints_def
      set_strs_def pausing_def resuming_def reporting_def timer_simps bench_report_allocs_def)

lemma emits_if [sink_rules]: "emits c f \<Longrightarrow> emits c g \<Longrightarrow> emits c (if b then f else g)"
  by simp

text \<open>The values a loop hands to the sink, one list per round.\<close>

lemma loop_kept:
  fixes w :: "'l world"
  assumes "I 0 w"
    and "\<And>j v. j < nat (b_n (bch w)) \<Longrightarrow> I j v \<Longrightarrow>
      \<exists>v'. body (int j) v = Some v' \<and> kept v' = kept v @ g j \<and> I (Suc j) v'"
  shows "\<exists>w'. bench_loop body w = Some w' \<and> I (nat (b_n (bch w))) w'
    \<and> kept w' = kept w @ concat (map g [0..<nat (b_n (bch w))])"
proof -
  let ?J = "\<lambda>j v. I j v \<and> kept v = kept w @ concat (map g [0..<j])"
  have "\<exists>w'. for_loop (nat (b_n (bch w))) 0 body w = Some w' \<and> ?J (nat (b_n (bch w))) w'"
  proof (rule for_loop_total)
    fix j v assume j: "j < nat (b_n (bch w))" and v: "?J j v"
    with assms(2) [of j v] show "\<exists>v'. body (0 + int j) v = Some v' \<and> ?J (Suc j) v'" by auto
  qed (simp add: assms(1))
  then show ?thesis by (simp add: bench_loop_def)
qed

section \<open>The exact host\<close>

lemma exact_host_clock [simp]:
  "now_posix (fst (gettime (exact_host a wk) p)) = clock p"
  "snd (gettime (exact_host a wk) p) = p"
  by (simp_all add: exact_host_def now_posix_def)

lemma exact_host_ok [simp]: "host_ok (exact_host a wk)"
  by (simp add: host_ok_def clock_law_def)

lemma exact_host_sel [simp]:
  "addr (exact_host a wk) = a" "work (exact_host a wk) = wk"
  by (simp_all add: exact_host_def)

section \<open>Stepping through a statement\<close>

lemmas stmt_simps = calling_def assign_def reading_def reading_n_def checked_def keep_def keep_u64_def
  pausing_def resuming_def reporting_def aborting_def set_int_def set_u64_def set_ints_def
  set_strs_def set_dbl_def repeat_for_def spending_def split_beta Let_def

end
