(* ===== verification/Printf.thy ===== *)
theory Printf
  imports Process
begin

text \<open>
  The conversions of \<open>snprintf\<close> that the benchmark files build their inputs with, as the C
  library documents them: decimal numbers, zero padding, and the cut at the end of the buffer.
\<close>

fun decimal :: "nat \<Rightarrow> string" where
  "decimal v = (if v < 10 then [char_of (48 + v)] else decimal (v div 10) @ [char_of (48 + v mod 10)])"

declare decimal.simps [simp del]

text \<open>\<open>%0wd\<close>.\<close>

definition zero_padded :: "nat \<Rightarrow> nat \<Rightarrow> string" where
  "zero_padded wd v = replicate (wd - length (decimal v)) (CHR ''0'') @ decimal v"

text \<open>
  \<open>snprintf(buf, sz, ...)\<close> of a text: what is in the buffer of \<open>sz\<close> bytes afterwards, cut to
  leave room for the terminator, and the length of the whole text.
\<close>

definition snprintf :: "nat \<Rightarrow> string \<Rightarrow> string \<times> nat" where
  "snprintf sz txt =
     (let s = take (sz - 1) txt in (s @ replicate (sz - length s) (CHR 0x00), length txt))"

text \<open>\<open>(Str){buf, k}\<close>.\<close>

definition str_over :: "string \<Rightarrow> nat \<Rightarrow> string" where
  "str_over buf k = take k buf"

lemma decimal_length [input_simps]: "v < 10 ^ k \<Longrightarrow> 0 < k \<Longrightarrow> length (decimal v) \<le> k"
proof (induction k arbitrary: v)
  case (Suc k)
  show ?case
  proof (cases "v < 10")
    case False
    then have "0 < k" using Suc.prems by (cases k) auto
    moreover have "v div 10 < 10 ^ k" using Suc.prems by (simp add: less_mult_imp_div_less mult.commute)
    ultimately have "length (decimal (v div 10)) \<le> k" by (rule Suc.IH [rotated])
    with False show ?thesis by (subst decimal.simps) simp
  qed (subst decimal.simps, simp)
qed simp

lemma zero_padded_length [input_simps]:
  "v < 10 ^ k \<Longrightarrow> 0 < k \<Longrightarrow> length (zero_padded k v) = k"
  using decimal_length [of v k] by (simp add: zero_padded_def)

text \<open>Reading the digits back.\<close>

definition digit_value :: "char \<Rightarrow> nat" where
  "digit_value c = of_char c - 48"

definition read_digits :: "string \<Rightarrow> nat" where
  "read_digits s = fold (\<lambda>c v. 10 * v + digit_value c) s 0"

lemma digit_value_digit: "d < 10 \<Longrightarrow> digit_value (char_of (48 + d)) = d"
  by (simp add: digit_value_def of_char_of take_bit_eq_mod)

lemma read_decimal [simp]: "read_digits (decimal v) = v"
proof (induction v rule: decimal.induct)
  case (1 v)
  show ?case
  proof (cases "v < 10")
    case True
    then show ?thesis by (subst decimal.simps) (simp add: read_digits_def digit_value_digit)
  next
    case False
    then have "read_digits (decimal (v div 10)) = v div 10" by (rule 1)
    moreover have "decimal v = decimal (v div 10) @ [char_of (48 + v mod 10)]"
      using False by (subst decimal.simps) simp
    ultimately show ?thesis by (simp add: read_digits_def digit_value_digit)
  qed
qed

lemma read_zero_padded [simp]: "read_digits (zero_padded k v) = v"
proof -
  have "fold (\<lambda>c v. 10 * v + digit_value c) (replicate n (CHR ''0'')) 0 = 0" for n
    by (induction n) (simp_all add: digit_value_def)
  then have "read_digits (replicate n (CHR ''0'') @ s) = read_digits s" for n s
    by (simp add: read_digits_def)
  then show ?thesis by (simp add: zero_padded_def)
qed

lemma decimal_inject [simp]: "decimal u = decimal v \<longleftrightarrow> u = v"
  by (metis read_decimal)

lemma zero_padded_inject [simp]: "zero_padded k u = zero_padded k v \<longleftrightarrow> u = v"
  by (metis read_zero_padded)

text \<open>A text that fits is the string over the buffer.\<close>

lemma str_over_snprintf: "length txt < sz \<Longrightarrow> str_over (fst (snprintf sz txt)) (length txt) = txt"
  by (simp add: snprintf_def str_over_def Let_def)

end
