(* ===== verification/Command_Line.thy ===== *)
theory Command_Line
  imports Command Printf
begin

text \<open>
  What \<open>bench_main\<close> of \<open>src/bench.c\<close> reads from its command line, stated over the options a user
  gives rather than over the loop that scans the arguments: the words of an option, the value that an
  option gives to a setting, and the number that a text of digits stands for.
\<close>

section \<open>The options of the usage message\<close>

datatype given = GivenRun string | GivenTime string | GivenN string | GivenCount string | GivenTsv | GivenList

fun option_words :: "given \<Rightarrow> string list" where
  "option_words (GivenRun s) = [''-run'', s]" | "option_words (GivenTime s) = [''-time'', s]"
| "option_words (GivenN s) = [''-n'', s]" | "option_words (GivenCount s) = [''-count'', s]"
| "option_words GivenTsv = [''-tsv'']" | "option_words GivenList = [''-list'']"

fun run_given :: "given \<Rightarrow> string option" where
  "run_given (GivenRun s) = Some s" | "run_given g = None"

fun time_given :: "given \<Rightarrow> string option" where
  "time_given (GivenTime s) = Some s" | "time_given g = None"

fun n_given :: "given \<Rightarrow> string option" where
  "n_given (GivenN s) = Some s" | "n_given g = None"

fun count_given :: "given \<Rightarrow> string option" where
  "count_given (GivenCount s) = Some s" | "count_given g = None"

text \<open>The last of the options that speak about a setting decides it; with none it keeps its default.\<close>

definition latest :: "(given \<Rightarrow> string option) \<Rightarrow> (string \<Rightarrow> 'a) \<Rightarrow> 'a \<Rightarrow> given list \<Rightarrow> 'a" where
  "latest about val dflt gs = last (dflt # map val (List.map_filter about gs))"

lemma latest_simps [simp]:
  "latest about val dflt [] = dflt"
  "latest about val dflt (g # gs) = latest about val (case about g of None \<Rightarrow> dflt | Some s \<Rightarrow> val s) gs"
  by (simp_all add: latest_def map_filter_simps split: option.split)

text \<open>The settings that a list of options asks for, on top of \<open>o1\<close>.\<close>

definition settings :: "(string \<Rightarrow> rat) \<Rightarrow> opts \<Rightarrow> given list \<Rightarrow> opts" where
  "settings atof o1 gs = \<lparr>o_filter = latest run_given Some (o_filter o1) gs,
     o_seconds = latest time_given atof (o_seconds o1) gs,
     o_fixed_n = latest n_given strtoll10 (o_fixed_n o1) gs,
     o_count = latest count_given (to_int32 \<circ> strtoll10) (o_count o1) gs,
     o_tsv = (o_tsv o1 \<or> GivenTsv \<in> set gs), o_list = (o_list o1 \<or> GivenList \<in> set gs)\<rparr>"

lemma settings_simps [simp]:
  "settings atof o1 [] = o1"
  "settings atof o1 (GivenRun s # gs) = settings atof (o1\<lparr>o_filter := Some s\<rparr>) gs"
  "settings atof o1 (GivenTime s # gs) = settings atof (o1\<lparr>o_seconds := atof s\<rparr>) gs"
  "settings atof o1 (GivenN s # gs) = settings atof (o1\<lparr>o_fixed_n := strtoll10 s\<rparr>) gs"
  "settings atof o1 (GivenCount s # gs) = settings atof (o1\<lparr>o_count := to_int32 (strtoll10 s)\<rparr>) gs"
  "settings atof o1 (GivenTsv # gs) = settings atof (o1\<lparr>o_tsv := True\<rparr>) gs"
  "settings atof o1 (GivenList # gs) = settings atof (o1\<lparr>o_list := True\<rparr>) gs"
  by (simp_all add: settings_def)

section \<open>The scan of the arguments\<close>

lemma parse_given: "parse_args atof (concat (map option_words gs)) o1 = Some (settings atof o1 gs)"
proof (induction gs arbitrary: o1)
  case (Cons g gs)
  have "parse_args atof (''-tsv'' # args) o1 = parse_args atof args (o1\<lparr>o_tsv := True\<rparr>)"
    "parse_args atof (''-list'' # args) o1 = parse_args atof args (o1\<lparr>o_list := True\<rparr>)" for args
    by (cases args; simp)+
  with Cons show ?case by (cases g) simp_all
qed simp

lemma given_parsed:
  "parse_args atof args o1 = Some p \<Longrightarrow> \<exists>gs. args = concat (map option_words gs)"
proof (induction atof args o1 rule: parse_args.induct)
  case (1 atof o1)
  show ?case by (rule exI [of _ "[]"]) simp
next
  case (2 atof a o1)
  then have "a = ''-tsv'' \<or> a = ''-list''" by (simp split: if_splits)
  then show ?case by (elim disjE) (rule exI [of _ "[GivenTsv]"] exI [of _ "[GivenList]"]; simp)+
next
  case (3 atof a v args o1)
  have more_words: "\<exists>gs. option_words g @ xs = concat (map option_words gs)"
    if "\<exists>gs. xs = concat (map option_words gs)" for g xs
  proof -
    from that obtain gs where "xs = concat (map option_words gs)" by blast
    then show ?thesis by (intro exI [of _ "g # gs"]) simp
  qed
  consider "a = ''-run''" | "a = ''-time''" | "a = ''-n''" | "a = ''-count''" | "a = ''-tsv''" | "a = ''-list''"
    using "3.prems" by (simp split: if_splits)
  then show ?case
  proof cases
    case 1 with "3.IH"(1) "3.prems" more_words [of args "GivenRun v"] show ?thesis by simp
  next
    case 2 with "3.IH"(2) "3.prems" more_words [of args "GivenTime v"] show ?thesis by simp
  next
    case c: 3 with "3.IH"(3) "3.prems" more_words [of args "GivenN v"] show ?thesis by simp
  next
    case 4 with "3.IH"(4) "3.prems" more_words [of args "GivenCount v"] show ?thesis by simp
  next
    case 5 with "3.IH"(5) "3.prems" more_words [of "v # args" GivenTsv] show ?thesis by simp
  next
    case 6 with "3.IH"(6) "3.prems" more_words [of "v # args" GivenList] show ?thesis by simp
  qed
qed

section \<open>The numbers\<close>

definition decimal_int :: "int \<Rightarrow> string" where
  "decimal_int k = (if k < 0 then CHR ''-'' # decimal (nat (- k)) else decimal (nat k))"

lemma decimal_all_digits: "set (decimal v) \<subseteq> {c. is_digit c}"
proof (induction v rule: decimal.induct)
  case (1 v)
  have "is_digit (char_of (48 + d))" if "d < 10" for d :: nat
    using that by (simp add: is_digit_def of_char_of take_bit_eq_mod)
  then have "is_digit (char_of (48 + v mod 10))" "v < 10 \<Longrightarrow> is_digit (char_of (48 + v))" by simp_all
  with 1 show ?case by (subst decimal.simps) auto
qed

lemma int_of_char: "int (of_char c) = of_char c"
  by (cases c) (simp add: of_char_def)

lemma digits_value_read: "set s \<subseteq> {c. is_digit c} \<Longrightarrow> digits_value s = int (read_digits s)"
proof -
  have step: "10 * int v + (of_char c - 48) = int (10 * v + digit_value c)" if "is_digit c" for c v
    using that int_of_char [of c] by (simp add: digit_value_def is_digit_def of_nat_diff)
  have "set s \<subseteq> {c. is_digit c} \<Longrightarrow> fold (\<lambda>c v. 10 * v + (of_char c - 48)) s (int v)
      = int (fold (\<lambda>c v. 10 * v + digit_value c) s v)" for v
    by (induction s arbitrary: v) (auto simp: step simp del: of_nat_add of_nat_mult)
  from this [of 0] show "set s \<subseteq> {c. is_digit c} \<Longrightarrow> digits_value s = int (read_digits s)"
    by (simp add: digits_value_def read_digits_def)
qed

lemma decimal_nonempty: "decimal v \<noteq> []"
  by (subst decimal.simps) simp

lemma digit_kinds: "is_digit c \<Longrightarrow> \<not> is_space c \<and> c \<noteq> CHR ''-'' \<and> c \<noteq> CHR ''+''"
  by (auto simp: is_digit_def is_space_def)

lemma takeWhile_all_digits: "set s \<subseteq> {c. is_digit c} \<Longrightarrow> takeWhile is_digit s = s"
  by (induction s) auto

lemma strtoll10_decimal:
  assumes "- int64_max - 1 \<le> k" and "k \<le> int64_max"
  shows "strtoll10 (decimal_int k) = k"
proof -
  let ?v = "nat \<bar>k\<bar>"
  obtain c cs where s: "decimal ?v = c # cs" using decimal_nonempty [of ?v] by (cases "decimal ?v") auto
  have digits: "set (c # cs) \<subseteq> {c. is_digit c}" using decimal_all_digits [of ?v] s by simp
  then have c: "\<not> is_space c" "c \<noteq> CHR ''-''" "c \<noteq> CHR ''+''" using digit_kinds [of c] by auto
  have v: "digits_value (takeWhile is_digit (c # cs)) = \<bar>k\<bar>"
    unfolding takeWhile_all_digits [OF digits] digits_value_read [OF digits] unfolding s [symmetric] by simp
  have sign: "\<not> is_space (CHR ''-'')" by (simp add: is_space_def)
  show ?thesis
  proof (cases "k < 0")
    case True
    with s have "decimal_int k = CHR ''-'' # c # cs" by (simp add: decimal_int_def)
    with sign v assms True show ?thesis by (simp add: strtoll10_def Let_def del: takeWhile.simps)
  next
    case False
    with s have "decimal_int k = c # cs" by (simp add: decimal_int_def)
    with c v assms False show ?thesis by (simp add: strtoll10_def Let_def del: takeWhile.simps)
  qed
qed

lemma to_int32_same: "- (2 ^ 31) \<le> k \<Longrightarrow> k < 2 ^ 31 \<Longrightarrow> to_int32 k = k"
  by (simp add: to_int32_def)

text \<open>
  C38. Functional: what the command line means. The arguments are accepted exactly when they are a
  sequence of the options of the usage message, each with its value; the filter, the time, the fixed
  count and the number of repetitions are then the ones of the last option that speaks about them,
  or the defaults, and the two switches are on exactly when they are given, whatever the order. A
  value of \<open>-n\<close> in decimal is the number itself over the whole of \<open>int64_t\<close>, a value of \<open>-count\<close> over
  the whole of \<open>int\<close>.
\<close>
theorem command_line_meaning:
  "(parse_args atof args default_opts = Some p
      \<longleftrightarrow> (\<exists>gs. args = concat (map option_words gs)
          \<and> p = \<lparr>o_filter = latest run_given Some None gs, o_seconds = latest time_given atof 1 gs,
                o_fixed_n = latest n_given strtoll10 0 gs,
                o_count = latest count_given (to_int32 \<circ> strtoll10) 1 gs,
                o_tsv = (GivenTsv \<in> set gs), o_list = (GivenList \<in> set gs)\<rparr>))
    \<and> (\<forall>k \<in> {- (2 ^ 63)..2 ^ 63 - 1}. strtoll10 (decimal_int k) = k)
    \<and> (\<forall>k \<in> {- (2 ^ 31)..2 ^ 31 - 1}. to_int32 (strtoll10 (decimal_int k)) = k)"
proof (intro conjI ballI)
  have same: "settings atof default_opts gs
      = \<lparr>o_filter = latest run_given Some None gs, o_seconds = latest time_given atof 1 gs,
         o_fixed_n = latest n_given strtoll10 0 gs, o_count = latest count_given (to_int32 \<circ> strtoll10) 1 gs,
         o_tsv = (GivenTsv \<in> set gs), o_list = (GivenList \<in> set gs)\<rparr>" for gs
    by (simp add: settings_def default_opts_def)
  show "parse_args atof args default_opts = Some p \<longleftrightarrow> (\<exists>gs. args = concat (map option_words gs)
      \<and> p = \<lparr>o_filter = latest run_given Some None gs, o_seconds = latest time_given atof 1 gs,
            o_fixed_n = latest n_given strtoll10 0 gs, o_count = latest count_given (to_int32 \<circ> strtoll10) 1 gs,
            o_tsv = (GivenTsv \<in> set gs), o_list = (GivenList \<in> set gs)\<rparr>)"
    using given_parsed [of atof args default_opts p] parse_given [of atof _ default_opts]
    unfolding same by (auto 0 4)
next
  fix k :: int
  { assume "k \<in> {- (2 ^ 63)..2 ^ 63 - 1}"
    then show "strtoll10 (decimal_int k) = k" by (intro strtoll10_decimal) (simp_all add: int64_max_def) }
  { assume k: "k \<in> {- (2 ^ 31)..2 ^ 31 - 1}"
    then have "strtoll10 (decimal_int k) = k" by (intro strtoll10_decimal) (simp_all add: int64_max_def)
    with k to_int32_same [of k] show "to_int32 (strtoll10 (decimal_int k)) = k" by simp }
qed

theorem command_line_meaning_witness:
  "parse_args (\<lambda>s. 0) [''-run'', ''-list'', ''-count'', ''5'', ''-tsv'', ''-run'', ''map''] default_opts
     = Some \<lparr>o_filter = Some ''map'', o_seconds = 1, o_fixed_n = 0, o_count = 5, o_tsv = True, o_list = False\<rparr>"
proof -
  let ?gs = "[GivenRun ''-list'', GivenCount ''5'', GivenTsv, GivenRun ''map'']"
  have five: "decimal_int 5 = ''5''" by code_simp
  have n: "to_int32 (strtoll10 ''5'') = 5"
    unfolding five [symmetric]
    by (rule bspec [OF conjunct2 [OF conjunct2 [OF command_line_meaning [of "\<lambda>s. 0" "[]" default_opts]]]]) simp
  show ?thesis
    using command_line_meaning [of "\<lambda>s. 0" "concat (map option_words ?gs)"] n by (auto intro!: exI [of _ ?gs])
qed

end
