(* ===== verification/Catalogue.thy ===== *)
theory Catalogue
  imports Registry
begin

text \<open>
  What the program registers: the \<open>register_*_benchmarks\<close> functions of the files of
  \<open>bench/\<close>, and \<open>main\<close> of \<open>src/main.c\<close>, which calls them in this order. A name
  is the text of the identifier of the benchmark function, as the macros \<open>BENCH\<close> and
  \<open>BENCH_RUN\<close> make it. The functions themselves are the definitions of the other theories;
  here \<open>body\<close> maps each name to its function.
\<close>

section \<open>The files\<close>

definition register_chan_benchmarks :: "string list" where
  "register_chan_benchmarks = [
    ''chan_uncontended'', ''chan_nonblocking'', ''chan_pingpong_unbuffered'',
    ''chan_pingpong_buffered'', ''chan_prodcons'']"

definition register_clock_benchmarks :: "string list" where
  "register_clock_benchmarks = [
    ''nanotime'', ''nanotime_elapsed'', ''nanotime_interval'', ''note_timeout_hit'',
    ''note_timeout_poll'']"

definition register_cond_benchmarks :: "string list" where
  "register_cond_benchmarks = [
    ''cond_signal_empty'', ''cond_broadcast_empty'', ''cond_ping_pong'']"

definition register_context_benchmarks :: "string list" where
  "register_context_benchmarks = [
    ''context_done'', ''context_err_live'', ''context_value_shallow'', ''context_value_deep'',
    ''context_value_miss'', ''context_with_cancel'', ''context_with_cancel_nested'',
    ''context_with_timeout'', ''context_with_timeout_expired'', ''context_with_value'',
    ''context_cause'', ''context_with_cancel_cause'', ''context_without_cancel'',
    ''context_after_func'', ''context_cancel_tree'']"

definition register_defer_benchmarks :: "string list" where
  "register_defer_benchmarks = [
    ''defer_one'', ''defer_direct'', ''defer_four'', ''defer_eight'', ''defer_scope_empty'',
    ''defer_loop_ten'']"

definition register_error_benchmarks :: "string list" where
  "register_error_benchmarks = [
    ''error_is_sentinel'', ''error_is_sentinel_miss'', ''error_is_chain'',
    ''error_is_chain_miss'', ''error_as_chain'', ''error_text'', ''error_return_ok'',
    ''error_new'', ''error_sentinel_use'', ''error_join_two'', ''error_is_tree'']"

definition register_func_benchmarks :: "string list" where
  "register_func_benchmarks = [
    ''func_call'', ''func_call_direct'', ''func_call_env'', ''func_call_write_env'',
    ''func_call_two_targets'', ''func_call0'', ''func_make'', ''func_higher_order'']"

definition register_hash_benchmarks :: "string list" where
  "register_hash_benchmarks = [
    ''hash_int'', ''hash_float64'', ''hash_str_short'', ''hash_str_long'', ''hash_str_huge'']"

definition register_iface_benchmarks :: "string list" where
  "register_iface_benchmarks = [
    ''iface_call'', ''direct_call'', ''iface_call_two_types'', ''iface_convert'',
    ''iface_narrow'', ''iface_assert_hit'', ''iface_assert_miss'', ''iface_type'', ''any_make'',
    ''any_box'', ''any_assert_hit'', ''any_assert_miss'', ''any_equal_hit'',
    ''any_equal_type_miss'', ''io_copy_buffer_64k'', ''io_read_full_4k'']"

definition register_map_benchmarks :: "string list" where
  "register_map_benchmarks = [
    ''map_get_hit_int'', ''map_get_miss_int'', ''map_get2_hit_int'', ''map_get_hit_str'',
    ''map_get_miss_str'', ''map_set_update'', ''map_set_grow'', ''map_set_prealloc'',
    ''map_set_prealloc_str'', ''map_del_miss'', ''map_set_del_pair'', ''map_iter'', ''map_churn'',
    ''map_clear_refill'']"

definition register_mem_benchmarks :: "string list" where
  "register_mem_benchmarks = [
    ''arena_alloc'', ''arena_alloc_zeroed'', ''arena_alloc_large'', ''arena_reset'',
    ''arena_append_grow'', ''heap_alloc'', ''heap_alloc_zeroed'', ''track_arena_alloc'',
    ''track_heap_alloc'', ''track_heap_quarantine'', ''malloc_free'', ''calloc_free'',
    ''realloc_grow'']"

definition register_mutex_benchmarks :: "string list" where
  "register_mutex_benchmarks = [
    ''mutex_lock_unlock'', ''mutex_try_lock_unlock'', ''mutex_locker_lock_unlock'',
    ''rw_mutex_lock_unlock'', ''rw_mutex_r_lock_unlock'', ''mutex_contended'',
    ''rw_mutex_contended_read'']"

definition register_num_benchmarks :: "string list" where
  "register_num_benchmarks = [
    ''num_add'', ''num_add_raw'', ''num_add_generic'', ''num_mul'', ''num_mul_raw'', ''num_div'',
    ''num_div_raw'', ''num_mod'', ''num_mod_raw'', ''num_shl'', ''num_shl_raw'', ''num_shr'',
    ''num_from_float64'', ''num_from_float64_raw'', ''num_hash_round'', ''num_sum'',
    ''num_sum_raw'']"

definition register_panic_benchmarks :: "string list" where
  "register_panic_benchmarks = [
    ''panic_try_empty'', ''panic_caught'', ''panic_caught_scopes'', ''panic_runtime_error'']"

definition register_preempt_benchmarks :: "string list" where
  "register_preempt_benchmarks = [
    ''preempt_point_idle'', ''preempt_point_off_goroutine'']"

definition register_reclaim_benchmarks :: "string list" where
  "register_reclaim_benchmarks = [
    ''reclaim_pin_unpin'', ''reclaim_pin_nested'', ''reclaim_pin_foreign'', ''reclaim_retire'']"

definition register_runtime_benchmarks :: "string list" where
  "register_runtime_benchmarks = [
    ''mcontext_switch'', ''mcontext_make'', ''stack_alloc_free_min'', ''stack_alloc_free_large'',
    ''stack_set_current'', ''stack_page_size'', ''runq_put_get'', ''runq_put_get_next'',
    ''runq_fill_drain'', ''runq_steal_half'', ''runq_put_slow'', ''gqueue_push_pop'',
    ''callers_ten'', ''callers_two'']"

definition register_sched_benchmarks :: "string list" where
  "register_sched_benchmarks = [
    ''goroutine_start'', ''goroutine_start_batch'', ''goroutine_yield_alone'',
    ''goroutine_yield_pair'', ''goroutine_handoff'', ''runtime_start_stop'']"

definition register_select_benchmarks :: "string list" where
  "register_select_benchmarks = [
    ''select_uncontended'', ''select_default'', ''select_eight_arms'', ''select_pingpong'']"

definition register_slice_benchmarks :: "string list" where
  "register_slice_benchmarks = [
    ''slice_append_grow'', ''slice_append_prealloc'', ''slice_append_bulk'',
    ''slice_append_call'', ''raw_append_prealloc'', ''slice_make'', ''calloc_1k'',
    ''slice_index'', ''slice_index_call'', ''raw_index_int'', ''slice_sub'', ''slice_copy'',
    ''memcpy_same_size'', ''slice_from_str_medium'']"

definition register_str_benchmarks :: "string list" where
  "register_str_benchmarks = [
    ''str_from_cstr_short'', ''strlen_short'', ''str_from_cstr_medium'', ''strlen_medium'',
    ''str_eq_short'', ''strcmp_short'', ''str_eq_long'', ''memcmp_long'',
    ''str_eq_different_lengths'', ''strcmp_different_lengths'', ''str_cmp_long'',
    ''str_clone_medium'', ''str_at'', ''raw_index'']"

definition register_rand_benchmarks :: "string list" where
  "register_rand_benchmarks = [
    ''rand2_pcg_dxsm'', ''rand2_chacha8'', ''rand2_chacha8_read'', ''rand2_source_uint64'',
    ''rand2_global_int64'', ''rand2_global_uint64'', ''rand2_int64'', ''rand2_uint64'',
    ''rand2_global_intn1000'', ''rand2_intn1000'', ''rand2_int64n1000'', ''rand2_int64n1e9'',
    ''rand2_int64n1e18'', ''rand2_int64n4e18'', ''rand2_int32n1000'', ''rand2_int32n2e9'',
    ''rand2_float32'', ''rand2_float64'', ''rand2_exp_float64'', ''rand2_norm_float64'',
    ''rand2_perm3'', ''rand_int63_threadsafe'', ''rand_int63_unthreadsafe'', ''rand_intn1000'',
    ''rand_int63n1000'', ''rand_int31n1000'', ''rand_float64'', ''rand_perm30'',
    ''rand_shuffle_overhead'', ''rand_read3'', ''rand_read64'', ''rand_read1000'']"

definition register_bzip2_benchmarks :: "string list" where
  "register_bzip2_benchmarks = [
    ''bzip2_decode_digits'', ''bzip2_decode_newton'', ''bzip2_decode_rand'']"

definition register_flate_benchmarks :: "string list" where
  "register_flate_benchmarks = [
    ''flate_encode_digits_huffman_1e4'', ''flate_encode_digits_huffman_1e5'',
    ''flate_encode_digits_huffman_1e6'', ''flate_encode_digits_speed_1e4'',
    ''flate_encode_digits_speed_1e5'', ''flate_encode_digits_speed_1e6'',
    ''flate_encode_digits_default_1e4'', ''flate_encode_digits_default_1e5'',
    ''flate_encode_digits_default_1e6'', ''flate_encode_digits_compression_1e4'',
    ''flate_encode_digits_compression_1e5'', ''flate_encode_digits_compression_1e6'',
    ''flate_encode_newton_huffman_1e4'', ''flate_encode_newton_huffman_1e5'',
    ''flate_encode_newton_huffman_1e6'', ''flate_encode_newton_speed_1e4'',
    ''flate_encode_newton_speed_1e5'', ''flate_encode_newton_speed_1e6'',
    ''flate_encode_newton_default_1e4'', ''flate_encode_newton_default_1e5'',
    ''flate_encode_newton_default_1e6'', ''flate_encode_newton_compression_1e4'',
    ''flate_encode_newton_compression_1e5'', ''flate_encode_newton_compression_1e6'',
    ''flate_decode_digits_huffman_1e4'', ''flate_decode_digits_huffman_1e5'',
    ''flate_decode_digits_huffman_1e6'', ''flate_decode_digits_speed_1e4'',
    ''flate_decode_digits_speed_1e5'', ''flate_decode_digits_speed_1e6'',
    ''flate_decode_digits_default_1e4'', ''flate_decode_digits_default_1e5'',
    ''flate_decode_digits_default_1e6'', ''flate_decode_digits_compression_1e4'',
    ''flate_decode_digits_compression_1e5'', ''flate_decode_digits_compression_1e6'',
    ''flate_decode_newton_huffman_1e4'', ''flate_decode_newton_huffman_1e5'',
    ''flate_decode_newton_huffman_1e6'', ''flate_decode_newton_speed_1e4'',
    ''flate_decode_newton_speed_1e5'', ''flate_decode_newton_speed_1e6'',
    ''flate_decode_newton_default_1e4'', ''flate_decode_newton_default_1e5'',
    ''flate_decode_newton_default_1e6'', ''flate_decode_newton_compression_1e4'',
    ''flate_decode_newton_compression_1e5'', ''flate_decode_newton_compression_1e6'']"

definition register_lzw_benchmarks :: "string list" where
  "register_lzw_benchmarks = [
    ''lzw_decode_1e4'', ''lzw_decode_1e5'', ''lzw_decode_1e6'', ''lzw_decode_reuse_1e4'',
    ''lzw_decode_reuse_1e5'', ''lzw_decode_reuse_1e6'', ''lzw_encode_1e4'', ''lzw_encode_1e5'',
    ''lzw_encode_1e6'', ''lzw_encode_reuse_1e4'', ''lzw_encode_reuse_1e5'',
    ''lzw_encode_reuse_1e6'']"

definition register_regexp_benchmarks :: "string list" where
  "register_regexp_benchmarks = [
    ''regexp_find'', ''regexp_find_all_no_matches'', ''regexp_find_all_ten_matches'',
    ''regexp_find_string'', ''regexp_find_submatch'', ''regexp_find_string_submatch'',
    ''regexp_literal'', ''regexp_not_literal'', ''regexp_match_class'',
    ''regexp_match_class_in_range'', ''regexp_replace_all'',
    ''regexp_anchored_literal_short_non_match'', ''regexp_anchored_literal_long_non_match'',
    ''regexp_anchored_short_match'', ''regexp_anchored_long_match'', ''regexp_onepass_short_a'',
    ''regexp_not_onepass_short_a'', ''regexp_onepass_short_b'', ''regexp_not_onepass_short_b'',
    ''regexp_onepass_long_prefix'', ''regexp_onepass_long_not_prefix'', ''regexp_quote_meta_all'',
    ''regexp_quote_meta_none'', ''regexp_compile_onepass'', ''regexp_compile_medium'',
    ''regexp_compile_hard'', ''regexp_match_easy0_16'', ''regexp_match_easy0_32'',
    ''regexp_match_easy0_1k'', ''regexp_match_easy0_32k'', ''regexp_match_easy0_1m'',
    ''regexp_match_easy0i_16'', ''regexp_match_easy0i_32'', ''regexp_match_easy0i_1k'',
    ''regexp_match_easy0i_32k'', ''regexp_match_easy0i_1m'', ''regexp_match_easy1_16'',
    ''regexp_match_easy1_32'', ''regexp_match_easy1_1k'', ''regexp_match_easy1_32k'',
    ''regexp_match_easy1_1m'', ''regexp_match_medium_16'', ''regexp_match_medium_32'',
    ''regexp_match_medium_1k'', ''regexp_match_medium_32k'', ''regexp_match_medium_1m'',
    ''regexp_match_hard_16'', ''regexp_match_hard_32'', ''regexp_match_hard_1k'',
    ''regexp_match_hard_32k'', ''regexp_match_hard_1m'', ''regexp_match_hard1_16'',
    ''regexp_match_hard1_32'', ''regexp_match_hard1_1k'', ''regexp_match_hard1_32k'',
    ''regexp_match_hard1_1m'', ''regexp_match_onepass_regex_16'',
    ''regexp_match_onepass_regex_32'', ''regexp_match_onepass_regex_1k'',
    ''regexp_match_onepass_regex_32k'', ''regexp_match_onepass_regex_1m'']"

definition register_big_benchmarks :: "string list" where
  "register_big_benchmarks = [
    ''big_add_10'', ''big_add_1000'', ''big_mul_10'', ''big_mul_100'', ''big_mul_1000'',
    ''big_quo_10'', ''big_quo_100'', ''big_quo_1000'', ''big_sqr_100'', ''big_sqr_1000'',
    ''big_sqrt_100'', ''big_gcd_10'', ''big_gcd_100'', ''big_mod_inverse_32'', ''big_exp_mod_32'',
    ''big_string_10'', ''big_string_100'', ''big_string_1000'', ''big_set_string_10'',
    ''big_set_string_1000'', ''big_probably_prime_521'', ''big_rat_add_4'', ''big_rat_add_100'',
    ''big_rat_mul_4'', ''big_rat_mul_100'', ''big_rat_harmonic_100'', ''big_rat_float64_4'',
    ''big_rat_float_string_4'', ''big_rat_set_string'', ''big_float_add_1000'',
    ''big_float_mul_1000'', ''big_float_quo_1000'', ''big_float_sqrt_1000'',
    ''big_float_text_1000'', ''big_float_set_string'']"

definition register_strconv_benchmarks :: "string list" where
  "register_strconv_benchmarks = [
    ''strconv_atoi'', ''strconv_atoi_neg'', ''strconv_parse_int_hex'', ''strconv_append_int'',
    ''strconv_append_int_small'', ''strconv_append_uint_hex'', ''strconv_atof64_decimal'',
    ''strconv_atof64_float'', ''strconv_atof64_exp'', ''strconv_atof64_big'',
    ''strconv_atof64_shortest'', ''strconv_atof64_hard'', ''strconv_atof32_float'',
    ''strconv_ftoa_decimal'', ''strconv_ftoa_float'', ''strconv_ftoa_exp'',
    ''strconv_ftoa_neg_exp'', ''strconv_ftoa_long_exp'', ''strconv_ftoa_big'',
    ''strconv_ftoa_binary_exp'', ''strconv_ftoa32_float'', ''strconv_ftoa32_shortest'',
    ''strconv_ftoa64_fixed1'', ''strconv_ftoa64_fixed3'', ''strconv_ftoa64_fixed12'',
    ''strconv_ftoa64_fixed17'', ''strconv_ftoa64_f'', ''strconv_ftoa64_slow_path'',
    ''strconv_append_quote'', ''strconv_append_quote_rune'', ''strconv_unquote_easy'',
    ''strconv_unquote_hard'']"

definition register_strings_benchmarks :: "string list" where
  "register_strings_benchmarks = [
    ''strings_index_hard1'', ''strings_index_hard2'', ''strings_index_hard3'',
    ''strings_last_index_hard2'', ''strings_count_hard2'', ''strings_index'',
    ''strings_index_rune'', ''strings_index_any_ascii'', ''strings_equal_fold'',
    ''strings_trim_space'', ''strings_fields'', ''strings_split_single_byte'',
    ''strings_split_seq_single_byte'', ''strings_join'', ''strings_repeat'', ''strings_to_upper'',
    ''strings_to_upper_unchanged'', ''strings_replace_all'', ''strings_builder'',
    ''strings_html_escape'', ''strings_generic_match2'', ''strings_single_match'']"

definition register_crypto_benchmarks :: "string list" where
  "register_crypto_benchmarks = [
    ''md5_hash8k'', ''md5_hash8bytes'', ''sha1_hash8k'', ''sha1_hash8bytes'', ''sha256_hash8k'',
    ''sha256_hash8bytes'', ''sha512_hash8k'', ''sha512_hash8bytes'', ''sha3_256_hash8k'',
    ''sha3_256_hash8bytes'']"

definition register_netip_benchmarks :: "string list" where
  "register_netip_benchmarks = [
    ''netip_parse_addr_v4'', ''netip_parse_addr_v6'', ''netip_parse_addr_v6_ellipsis'',
    ''netip_parse_addr_v6_v4'', ''netip_parse_addr_v6_zone'', ''netip_addr_string_v4'',
    ''netip_addr_string_v6'', ''netip_addr_string_v6_ellipsis'', ''netip_addr_string_v6_v4'',
    ''netip_addr_string_v6_zone'', ''netip_addr_port_string_v4'', ''netip_addr_port_string_v6'',
    ''netip_addr_port_string_v6_ellipsis'', ''netip_addr_port_string_v6_v4'',
    ''netip_addr_port_string_v6_zone'', ''netip_parse_addr_port_v4'',
    ''netip_parse_addr_port_v6'', ''netip_parse_addr_port_v6_ellipsis'',
    ''netip_parse_addr_port_v6_v4'', ''netip_parse_addr_port_v6_zone'', ''netip_prefix_string'',
    ''netip_ipv4_contains'', ''netip_ipv6_contains'', ''netip_as16'']"

definition register_url_benchmarks :: "string list" where
  "register_url_benchmarks = [
    ''url_query_escape_0'', ''url_path_escape_0'', ''url_query_unescape_0'',
    ''url_path_unescape_0'', ''url_query_escape_1'', ''url_path_escape_1'',
    ''url_query_unescape_1'', ''url_path_unescape_1'', ''url_query_escape_2'',
    ''url_path_escape_2'', ''url_query_unescape_2'', ''url_path_unescape_2'',
    ''url_query_escape_3'', ''url_path_escape_3'', ''url_query_unescape_3'',
    ''url_path_unescape_3'', ''url_query_escape_4'', ''url_path_escape_4'',
    ''url_query_unescape_4'', ''url_path_unescape_4'', ''url_parse_full'', ''url_parse_plain'',
    ''url_string_full'', ''url_string_plain'', ''url_resolve_reference'', ''url_encode_query'',
    ''url_parse_query'']"

definition register_json_benchmarks :: "string list" where
  "register_json_benchmarks = [
    ''json_valid'', ''json_compact'', ''json_read_tokens'', ''json_marshal_struct'',
    ''json_unmarshal_struct'', ''json_unmarshal_any'', ''json_v1_marshal_struct'',
    ''json_v1_unmarshal_struct'', ''json_v1_decoder'']"

definition register_xml_benchmarks :: "string list" where
  "register_xml_benchmarks = [
    ''xml_raw_tokens'', ''xml_tokens'', ''xml_encode_tokens'', ''xml_marshal'',
    ''xml_encode_struct'', ''xml_unmarshal'']"

definition register_gob_benchmarks :: "string list" where
  "register_gob_benchmarks = [
    ''gob_encode'', ''gob_encode_again'', ''gob_decode'']"

definition register_asn1_benchmarks :: "string list" where
  "register_asn1_benchmarks = [
    ''asn1_marshal'', ''asn1_unmarshal'']"

definition register_template_benchmarks :: "string list" where
  "register_template_benchmarks = [
    ''template_parse_large'', ''template_execute_range'']"

definition register_textproto_benchmarks :: "string list" where
  "register_textproto_benchmarks = [
    ''textproto_read_mime_header_client'', ''textproto_read_mime_header_server'',
    ''textproto_uncommon'', ''textproto_canonical_key'']"

definition register_sort_benchmarks :: "string list" where
  "register_sort_benchmarks = [
    ''sort_string1k'', ''sort_string1k_slice'', ''sort_stable_string1k'', ''sort_int1k'',
    ''sort_int1k_sorted'', ''sort_int1k_reversed'', ''sort_int1k_mod8'', ''sort_stable_int1k'',
    ''sort_stable_int1k_slice'', ''sort_int64k'', ''sort_int64k_slice'']"

definition register_sync_atomic_benchmarks :: "string list" where
  "register_sync_atomic_benchmarks = [
    ''sync_atomic_add_int64'', ''sync_atomic_load_int64'', ''sync_atomic_int64_add'',
    ''sync_atomic_int64_load'', ''sync_atomic_int64_cas'', ''sync_atomic_bool_load'',
    ''sync_atomic_pointer_load'', ''sync_atomic_pointer_store'', ''sync_atomic_value_load'',
    ''sync_atomic_value_store'']"

definition register_sync_benchmarks :: "string list" where
  "register_sync_benchmarks = [
    ''atomic_add_u64'', ''atomic_add_u32'', ''atomic_load_u64'', ''atomic_store_u64'',
    ''atomic_cas_u64'', ''note_cycle'', ''note_pingpong'', ''thread_start_join'',
    ''thread_yield'', ''thread_self'']"

definition register_sync_map_benchmarks :: "string list" where
  "register_sync_map_benchmarks = [
    ''sync_map_load_hit'', ''sync_map_load_miss'', ''sync_map_has_hit'',
    ''sync_map_load_or_store_hit'', ''sync_map_store_update'', ''sync_map_store_delete_pair'',
    ''sync_map_range'']"

definition register_sync_pool_benchmarks :: "string list" where
  "register_sync_pool_benchmarks = [
    ''sync_pool_get_put'', ''sync_pool_get_put_pair'', ''sync_pool_get_new'',
    ''sync_pool_sweep_idle'']"

definition register_synctest_benchmarks :: "string list" where
  "register_synctest_benchmarks = [
    ''synctest_run_empty'', ''synctest_run_one_goroutine'', ''synctest_wait_alone'',
    ''synctest_wait_parked'', ''synctest_chan_pingpong'', ''synctest_go'', ''synctest_sleep'']"

definition register_timer_benchmarks :: "string list" where
  "register_timer_benchmarks = [
    ''timer_arm_stop'', ''timer_reset_stop'', ''timer_reset_stop_deep'', ''timer_sleep_1ms'',
    ''timer_fire_burst'']"

definition register_utf8_benchmarks :: "string list" where
  "register_utf8_benchmarks = [
    ''utf8_decode_ascii'', ''utf8_decode_japanese'', ''utf8_decode_slice'', ''utf8_range_mixed'',
    ''utf8_range_ascii'', ''utf8_range_ascii_raw'', ''utf8_rune_count_ascii'',
    ''utf8_rune_count_japanese'', ''utf8_rune_count_long'', ''utf8_rune_count_long_raw'',
    ''utf8_valid_ascii'', ''utf8_valid_japanese'', ''utf8_valid_long'', ''utf8_valid_mixed'',
    ''utf8_encode_ascii'', ''utf8_encode_wide'', ''utf8_rune_len'']"

definition register_waitgroup_benchmarks :: "string list" where
  "register_waitgroup_benchmarks = [
    ''wait_group_add_done'', ''wait_group_wait_empty'', ''wait_group_go_wait'', ''once_do'',
    ''once_func_call'', ''once_value_get'']"

text \<open>The order of the calls in \<open>main\<close>.\<close>

definition registrations :: "string list list" where
  "registrations = [
    register_chan_benchmarks, register_clock_benchmarks, register_cond_benchmarks,
    register_context_benchmarks, register_defer_benchmarks, register_error_benchmarks,
    register_func_benchmarks, register_hash_benchmarks, register_iface_benchmarks,
    register_map_benchmarks, register_mem_benchmarks, register_mutex_benchmarks,
    register_num_benchmarks, register_panic_benchmarks, register_preempt_benchmarks,
    register_reclaim_benchmarks, register_runtime_benchmarks, register_sched_benchmarks,
    register_select_benchmarks, register_slice_benchmarks, register_str_benchmarks,
    register_rand_benchmarks, register_bzip2_benchmarks, register_flate_benchmarks,
    register_lzw_benchmarks, register_regexp_benchmarks, register_big_benchmarks,
    register_strconv_benchmarks, register_strings_benchmarks, register_crypto_benchmarks,
    register_netip_benchmarks, register_url_benchmarks, register_json_benchmarks,
    register_xml_benchmarks, register_gob_benchmarks, register_asn1_benchmarks,
    register_template_benchmarks, register_textproto_benchmarks, register_sort_benchmarks,
    register_sync_atomic_benchmarks, register_sync_benchmarks, register_sync_map_benchmarks,
    register_sync_pool_benchmarks, register_synctest_benchmarks, register_timer_benchmarks,
    register_utf8_benchmarks, register_waitgroup_benchmarks]"

definition catalogue :: "string list" where
  "catalogue = concat registrations"

lemmas register_defs =
  register_chan_benchmarks_def register_clock_benchmarks_def register_cond_benchmarks_def
  register_context_benchmarks_def register_defer_benchmarks_def register_error_benchmarks_def
  register_func_benchmarks_def register_hash_benchmarks_def register_iface_benchmarks_def
  register_map_benchmarks_def register_mem_benchmarks_def register_mutex_benchmarks_def
  register_num_benchmarks_def register_panic_benchmarks_def register_preempt_benchmarks_def
  register_reclaim_benchmarks_def register_runtime_benchmarks_def register_sched_benchmarks_def
  register_select_benchmarks_def register_slice_benchmarks_def register_str_benchmarks_def
  register_rand_benchmarks_def register_bzip2_benchmarks_def register_flate_benchmarks_def
  register_lzw_benchmarks_def register_regexp_benchmarks_def register_big_benchmarks_def
  register_strconv_benchmarks_def register_strings_benchmarks_def register_crypto_benchmarks_def
  register_netip_benchmarks_def register_url_benchmarks_def register_json_benchmarks_def
  register_xml_benchmarks_def register_gob_benchmarks_def register_asn1_benchmarks_def
  register_template_benchmarks_def register_textproto_benchmarks_def register_sort_benchmarks_def
  register_sync_atomic_benchmarks_def register_sync_benchmarks_def
  register_sync_map_benchmarks_def register_sync_pool_benchmarks_def
  register_synctest_benchmarks_def register_timer_benchmarks_def register_utf8_benchmarks_def
  register_waitgroup_benchmarks_def

section \<open>The names are distinct\<close>

text \<open>
  Comparing 596 names pairwise is too much for the simplifier, so distinctness is checked with a
  binary trie over the bits of the names.
\<close>

datatype trie = Tip | Fork bool trie trie

fun name_bits :: "string \<Rightarrow> bool list" where
  "name_bits [] = []"
| "name_bits (Char b0 b1 b2 b3 b4 b5 b6 b7 # s) = b0 # b1 # b2 # b3 # b4 # b5 # b6 # b7 # name_bits s"

fun trie_member :: "bool list \<Rightarrow> trie \<Rightarrow> bool" where
  "trie_member p Tip = False"
| "trie_member [] (Fork here l r) = here"
| "trie_member (True # p) (Fork here l r) = trie_member p r"
| "trie_member (False # p) (Fork here l r) = trie_member p l"

fun trie_insert :: "bool list \<Rightarrow> trie \<Rightarrow> trie" where
  "trie_insert [] Tip = Fork True Tip Tip"
| "trie_insert (True # p) Tip = Fork False Tip (trie_insert p Tip)"
| "trie_insert (False # p) Tip = Fork False (trie_insert p Tip) Tip"
| "trie_insert [] (Fork here l r) = Fork True l r"
| "trie_insert (True # p) (Fork here l r) = Fork here l (trie_insert p r)"
| "trie_insert (False # p) (Fork here l r) = Fork here (trie_insert p l) r"

fun all_new :: "trie \<Rightarrow> string list \<Rightarrow> bool" where
  "all_new t [] = True"
| "all_new t (x # xs) =
     (let p = name_bits x in \<not> trie_member p t \<and> all_new (trie_insert p t) xs)"

lemma trie_member_insert: "trie_member q (trie_insert p t) \<longleftrightarrow> q = p \<or> trie_member q t"
proof (induction p t arbitrary: q rule: trie_insert.induct)
  case 1
  show ?case by (cases "(q, Fork True Tip Tip)" rule: trie_member.cases) auto
next
  case (2 p)
  then show ?case by (cases "(q, Fork False Tip Tip)" rule: trie_member.cases) auto
next
  case (3 p)
  then show ?case by (cases "(q, Fork False Tip Tip)" rule: trie_member.cases) auto
next
  case (4 here l r)
  then show ?case by (cases "(q, Fork here l r)" rule: trie_member.cases) auto
next
  case (5 p here l r)
  then show ?case by (cases "(q, Fork here l r)" rule: trie_member.cases) auto
next
  case (6 p here l r)
  then show ?case by (cases "(q, Fork here l r)" rule: trie_member.cases) auto
qed

lemma all_new_distinct:
  "all_new t xs \<Longrightarrow> distinct xs \<and> (\<forall>x \<in> set xs. \<not> trie_member (name_bits x) t)"
  by (induction t xs rule: all_new.induct) (auto simp: Let_def trie_member_insert)

text \<open>
  Two files share no name because no two names of different files share the tag: the first four
  characters, or the first ten where four are not enough.
\<close>

definition name_tag :: "string \<Rightarrow> string" where
  "name_tag x = (let t = take 4 x in
     if t \<in> set [''note'', ''call'', ''raw_'', ''memc'', ''strc'', ''sync''] then take 10 x else t)"

lemma distinct_concat_tagged:
  assumes "\<forall>xs \<in> set xss. distinct xs" and "distinct (concat (map (\<lambda>xs. remdups (map tag xs)) xss))"
  shows "distinct (concat xss)"
  using assms by (induction xss) auto

lemma names_of_a_file: "list_all (all_new Tip) registrations"
  by code_simp

lemma tags_of_the_files: "all_new Tip (concat (map (\<lambda>xs. remdups (map name_tag xs)) registrations))"
  by code_simp

lemma catalogue_distinct: "distinct catalogue"
  unfolding catalogue_def
proof (rule distinct_concat_tagged)
  show "\<forall>xs \<in> set registrations. distinct xs"
    using names_of_a_file all_new_distinct by (auto simp: list_all_iff)
  show "distinct (concat (map (\<lambda>xs. remdups (map name_tag xs)) registrations))"
    using all_new_distinct [OF tags_of_the_files] by simp
qed

lemma registrations_length: "map length registrations = [5, 5, 3, 15, 6, 11, 8, 5, 16, 14, 13, 7, 17, 4, 2, 4, 14, 6, 4, 14, 14, 32, 3, 48, 12, 61, 35, 32, 22, 10, 24, 27, 9, 6, 3, 2, 2, 4, 11, 10, 10, 7, 4, 7, 5, 17, 6]"
  by code_simp

lemma catalogue_length: "length catalogue = 596"
  by (simp add: catalogue_def length_concat registrations_length)

end
