(* ===== verification/Sort_Bench.thy ===== *)
theory Sort_Bench
  imports Printf "HOL-Library.Multiset"
begin

unbundle bit_operations_syntax

text \<open>
  \<open>bench/sort_bench.c\<close>: the inputs of the sort benchmarks and their bodies. The timed
  part of a round is the call of burrow's sort; the refill runs with the clock paused.
\<close>

section \<open>The inputs\<close>

definition N1K :: nat where "N1K = 2 ^ 10"
definition N64K :: nat where "N64K = 2 ^ 16"

datatype fill_kind = XOR_FILL | SORTED | REVERSED | MOD8

definition fill_value :: "nat \<Rightarrow> fill_kind \<Rightarrow> int \<Rightarrow> int" where
  "fill_value n f i =
     (case f of
        XOR_FILL \<Rightarrow> i XOR (if n = N1K then 0x2cc else 0xcccc)
      | SORTED \<Rightarrow> i
      | REVERSED \<Rightarrow> int n - i
      | MOD8 \<Rightarrow> i mod 8)"

text \<open>\<open>fill(data, n, f)\<close>: writes the first \<open>n\<close> elements of the array.\<close>

definition fill_data :: "int list \<Rightarrow> nat \<Rightarrow> fill_kind \<Rightarrow> int list" where
  "fill_data data n f = fold (\<lambda>i d. d[i := fill_value n f (int i)]) [0..<n] data"

text \<open>One round of \<open>init_strs\<close>: the string of \<open>k\<close> bytes at the start of the buffer.\<close>

definition init_str :: "nat \<Rightarrow> string" where
  "init_str i = (let (buf, k) = snprintf 8 (decimal (i XOR 0x2cc)) in str_over buf k)"

definition init_strs :: "string list" where
  "init_strs = map init_str [0..<N1K]"

section \<open>The bodies\<close>

text \<open>
  The operations of burrow's sort package: each is given the elements of the slice and returns
  the elements it leaves there. \<open>str_cmp\<close> is burrow's comparison of strings.
\<close>

record 'm sort_lib =
  sort_ints :: "int list \<Rightarrow> (int list, 'm) op"
  sort_strings :: "string list \<Rightarrow> (string list, 'm) op"
  sort_slice_int :: "(int list \<Rightarrow> nat \<Rightarrow> nat \<Rightarrow> bool) \<Rightarrow> int list \<Rightarrow> (int list, 'm) op"
  sort_slice_str :: "(string list \<Rightarrow> nat \<Rightarrow> nat \<Rightarrow> bool) \<Rightarrow> string list \<Rightarrow> (string list, 'm) op"
  sort_slice_stable_int :: "(int list \<Rightarrow> nat \<Rightarrow> nat \<Rightarrow> bool) \<Rightarrow> int list \<Rightarrow> (int list, 'm) op"
  sort_stable_ints :: "int list \<Rightarrow> (int list, 'm) op"
  sort_stable_strings :: "string list \<Rightarrow> (string list, 'm) op"
  str_cmp :: "string \<Rightarrow> string \<Rightarrow> int"

definition int_less :: "int list \<Rightarrow> nat \<Rightarrow> nat \<Rightarrow> bool" where
  "int_less d i j \<longleftrightarrow> d ! i < d ! j"

definition str_less :: "'m sort_lib \<Rightarrow> string list \<Rightarrow> nat \<Rightarrow> nat \<Rightarrow> bool" where
  "str_less L d i j \<longleftrightarrow> str_cmp L (d ! i) (d ! j) < 0"

text \<open>The call of a sort on the slice of the first \<open>n\<close> elements of \<open>ints\<close>.\<close>

definition sort_call_ints :: "(int list \<Rightarrow> (int list, 'm) op) \<Rightarrow> nat \<Rightarrow> 'm cstmt" where
  "sort_call_ints op n = reading (\<lambda>p. int_array p ''ints'') (\<lambda>d.
     calling (op (take n d)) (\<lambda>s. set_ints ''ints'' (s @ drop n d)))"

definition sort_call_strs :: "(string list \<Rightarrow> (string list, 'm) op) \<Rightarrow> 'm cstmt" where
  "sort_call_strs op = reading (\<lambda>p. str_array p ''strs'') (\<lambda>d.
     calling (op d) (set_strs ''strs''))"

text \<open>\<open>fill(ints, n, f)\<close> as a statement: it takes its time and writes the array.\<close>

definition fill_ints :: "'m host \<Rightarrow> nat \<Rightarrow> fill_kind \<Rightarrow> 'm cstmt" where
  "fill_ints h n f = block [spending h ''fill'',
     reading (\<lambda>p. int_array p ''ints'') (\<lambda>d. set_ints ''ints'' (fill_data d n f))]"

text \<open>The loop all bodies have: refill with the clock paused, sort with it running.\<close>

definition sort_rounds :: "'m host \<Rightarrow> 'm cstmt \<Rightarrow> 'm cstmt \<Rightarrow> 'm cstmt" where
  "sort_rounds h refill sort_it = block [
     pausing h,
     bench_loop (\<lambda>i. block [refill, resuming h, sort_it, pausing h]),
     resuming h]"

definition run_ints :: "'m host \<Rightarrow> 'm sort_lib \<Rightarrow> nat \<Rightarrow> fill_kind \<Rightarrow> 'm cstmt" where
  "run_ints h L n f = block [
     sort_rounds h (fill_ints h n f) (sort_call_ints (sort_ints L) n),
     keep (addr h ''ints'')]"

definition strs_setup :: "'m host \<Rightarrow> 'm cstmt" where
  "strs_setup h = block [spending h ''init_strs'', set_strs ''unsorted_strs'' init_strs]"

definition copy_strs :: "'m host \<Rightarrow> 'm cstmt" where
  "copy_strs h = block [spending h ''memcpy strs'',
     reading (\<lambda>p. str_array p ''unsorted_strs'') (set_strs ''strs'')]"

definition copy_ints :: "'m host \<Rightarrow> 'm cstmt" where
  "copy_ints h = block [spending h ''memcpy ints'',
     reading (\<lambda>p. int_array p ''unsorted_ints'') (\<lambda>u.
       reading (\<lambda>p. int_array p ''ints'') (\<lambda>d. set_ints ''ints'' (u @ drop N1K d)))]"

definition unsorted_setup :: "'m host \<Rightarrow> 'm cstmt" where
  "unsorted_setup h = block [spending h ''fill'',
     reading (\<lambda>p. int_array p ''unsorted_ints'') (\<lambda>d.
       set_ints ''unsorted_ints'' (fill_data d N1K XOR_FILL))]"

definition sort_string1k :: "'m host \<Rightarrow> 'm sort_lib \<Rightarrow> 'm cstmt" where
  "sort_string1k h L = block [strs_setup h,
     sort_rounds h (copy_strs h) (sort_call_strs (sort_strings L)), keep (addr h ''strs'')]"

definition sort_string1k_slice :: "'m host \<Rightarrow> 'm sort_lib \<Rightarrow> 'm cstmt" where
  "sort_string1k_slice h L = block [strs_setup h,
     sort_rounds h (copy_strs h) (sort_call_strs (sort_slice_str L (str_less L))),
     keep (addr h ''strs'')]"

definition sort_stable_string1k :: "'m host \<Rightarrow> 'm sort_lib \<Rightarrow> 'm cstmt" where
  "sort_stable_string1k h L = block [strs_setup h,
     sort_rounds h (copy_strs h) (sort_call_strs (sort_stable_strings L)), keep (addr h ''strs'')]"

definition sort_int1k :: "'m host \<Rightarrow> 'm sort_lib \<Rightarrow> 'm cstmt" where
  "sort_int1k h L = run_ints h L N1K XOR_FILL"

definition sort_int1k_sorted :: "'m host \<Rightarrow> 'm sort_lib \<Rightarrow> 'm cstmt" where
  "sort_int1k_sorted h L = run_ints h L N1K SORTED"

definition sort_int1k_reversed :: "'m host \<Rightarrow> 'm sort_lib \<Rightarrow> 'm cstmt" where
  "sort_int1k_reversed h L = run_ints h L N1K REVERSED"

definition sort_int1k_mod8 :: "'m host \<Rightarrow> 'm sort_lib \<Rightarrow> 'm cstmt" where
  "sort_int1k_mod8 h L = run_ints h L N1K MOD8"

definition sort_stable_int1k :: "'m host \<Rightarrow> 'm sort_lib \<Rightarrow> 'm cstmt" where
  "sort_stable_int1k h L = block [unsorted_setup h,
     sort_rounds h (copy_ints h) (sort_call_ints (sort_stable_ints L) N1K), keep (addr h ''ints'')]"

definition sort_stable_int1k_slice :: "'m host \<Rightarrow> 'm sort_lib \<Rightarrow> 'm cstmt" where
  "sort_stable_int1k_slice h L = block [unsorted_setup h,
     sort_rounds h (copy_ints h) (sort_call_ints (sort_slice_stable_int L int_less) N1K),
     keep (addr h ''ints'')]"

definition sort_int64k :: "'m host \<Rightarrow> 'm sort_lib \<Rightarrow> 'm cstmt" where
  "sort_int64k h L = run_ints h L N64K XOR_FILL"

definition sort_int64k_slice :: "'m host \<Rightarrow> 'm sort_lib \<Rightarrow> 'm cstmt" where
  "sort_int64k_slice h L = block [
     sort_rounds h (fill_ints h N64K XOR_FILL) (sort_call_ints (sort_slice_int L int_less) N64K),
     keep (addr h ''ints'')]"

text \<open>The table of \<open>register_sort_benchmarks\<close>.\<close>

definition sort_table :: "'m host \<Rightarrow> 'm sort_lib \<Rightarrow> (string \<times> 'm cstmt) list" where
  "sort_table h L = [
     (''sort_string1k'', sort_string1k h L),
     (''sort_string1k_slice'', sort_string1k_slice h L),
     (''sort_stable_string1k'', sort_stable_string1k h L),
     (''sort_int1k'', sort_int1k h L),
     (''sort_int1k_sorted'', sort_int1k_sorted h L),
     (''sort_int1k_reversed'', sort_int1k_reversed h L),
     (''sort_int1k_mod8'', sort_int1k_mod8 h L),
     (''sort_stable_int1k'', sort_stable_int1k h L),
     (''sort_stable_int1k_slice'', sort_stable_int1k_slice h L),
     (''sort_int64k'', sort_int64k h L),
     (''sort_int64k_slice'', sort_int64k_slice h L)]"

section \<open>What the inputs are\<close>

lemma fill_data_eq:
  "n \<le> length data \<Longrightarrow> fill_data data n f = map (\<lambda>i. fill_value n f (int i)) [0..<n] @ drop n data"
  unfolding fill_data_def
proof (induction n arbitrary: data)
  case (Suc n)
  have "fold (\<lambda>i d. d[i := v i]) [0..<n] data = map v [0..<n] @ drop n data"
    if "n \<le> length data" for v :: "nat \<Rightarrow> int"
    using that
    by (induction n) (auto simp: list_update_append Cons_nth_drop_Suc [symmetric])
  from this [of "\<lambda>i. fill_value (Suc n) f (int i)"] Suc.prems show ?case
    by (auto simp: list_update_append Cons_nth_drop_Suc [symmetric])
qed simp

lemma length_fill [input_simps]: "length (fill_data data n f) = length data"
proof -
  have "length (fold (\<lambda>i d. d[i := v i]) is data) = length data" for v :: "nat \<Rightarrow> int" and "is"
    by (induction "is" arbitrary: data) auto
  then show ?thesis by (simp add: fill_data_def)
qed

lemma xor_permutes:
  fixes c :: int
  assumes "0 \<le> c" and "c < 2 ^ k"
  shows "bij_betw (\<lambda>i. i XOR c) {0..<2 ^ k} {0..<2 ^ k}"
proof (rule bij_betw_byWitness [where f' = "\<lambda>i. i XOR c"])
  have "i XOR c \<in> {0..<2 ^ k}" if "i \<in> {0..<2 ^ k}" for i
  proof -
    have "take_bit k (i XOR c) = i XOR c"
      using that assms by (simp only: take_bit_xor take_bit_int_eq_self atLeastLessThan_iff)
    then have "0 \<le> i XOR c \<and> i XOR c < 2 ^ k" by (rule take_bit_int_eq_self_iff [THEN iffD1])
    then show ?thesis by simp
  qed
  then show "(\<lambda>i. i XOR c) ` {0..<2 ^ k} \<subseteq> {0..<2 ^ k}" "(\<lambda>i. i XOR c) ` {0..<2 ^ k} \<subseteq> {0..<2 ^ k}"
    by blast+
qed (simp_all add: xor.assoc)


lemma init_text_short:
  assumes "i < N1K"
  shows "length (decimal (i XOR 0x2cc)) \<le> 4"
proof -
  have "take_bit 10 (i XOR 0x2cc) = i XOR 0x2cc"
    using assms by (simp add: take_bit_xor take_bit_nat_eq_self N1K_def)
  then have "i XOR 0x2cc < 2 ^ 10" by (rule take_bit_nat_eq_self_iff [THEN iffD1])
  then show ?thesis by (intro decimal_length) simp_all
qed

lemma init_str_eq: "i < N1K \<Longrightarrow> init_str i = decimal (i XOR 0x2cc)"
  using init_text_short [of i] str_over_snprintf [of "decimal (i XOR 0x2cc)" 8]
  by (simp add: init_str_def split_beta snprintf_def Let_def)

text \<open>The values of the four fills, as a multiset and as what a sort leaves.\<close>

definition filled :: "nat \<Rightarrow> fill_kind \<Rightarrow> int list" where
  "filled n f = map (\<lambda>i. fill_value n f (int i)) [0..<n]"

definition sorted_fill :: "nat \<Rightarrow> fill_kind \<Rightarrow> int list" where
  "sorted_fill n f =
     (case f of
        XOR_FILL \<Rightarrow> map int [0..<n]
      | SORTED \<Rightarrow> map int [0..<n]
      | REVERSED \<Rightarrow> map (\<lambda>i. int i + 1) [0..<n]
      | MOD8 \<Rightarrow> concat (map (\<lambda>v. replicate (n div 8) (int v)) [0..<8]))"

lemma fill_take: "n \<le> length d \<Longrightarrow> take n (fill_data d n f) = filled n f"
  by (simp add: fill_data_eq filled_def)

lemma map_int_upt: "set (map int [0..<n]) = {0..<int n}"
  by (auto simp: image_iff intro!: bexI [where x = "nat _"])

lemma xor_filled_mset:
  assumes "n = N1K \<or> n = N64K"
  shows "mset (filled n XOR_FILL) = mset (map int [0..<n])"
proof -
  obtain k and c :: int where n: "n = 2 ^ k" and c: "0 \<le> c" "c < 2 ^ k"
    and f: "\<And>i. fill_value n XOR_FILL i = i XOR c"
  proof (cases "n = N1K")
    case True
    then show ?thesis using that [of 10 "0x2cc"] by (simp add: fill_value_def N1K_def)
  next
    case False
    then show ?thesis using that [of 16 "0xcccc"] assms by (simp add: fill_value_def N64K_def)
  qed
  have bij: "bij_betw (\<lambda>i. i XOR c) {0..<2 ^ k} {0..<2 ^ k}" using c by (rule xor_permutes)
  have s: "set (map int [0..<n]) = {0..<2 ^ k}" unfolding map_int_upt n by simp
  have eq: "filled n XOR_FILL = map (\<lambda>i. i XOR c) (map int [0..<n])"
    by (simp add: filled_def f)
  have "distinct (filled n XOR_FILL)"
    unfolding eq distinct_map s using bij by (auto simp: bij_betw_def distinct_map inj_on_def)
  moreover have "distinct (map int [0..<n])" by (simp add: distinct_map)
  moreover have "set (filled n XOR_FILL) = set (map int [0..<n])"
    unfolding eq set_map [of "\<lambda>i. i XOR c"] s using bij by (simp add: bij_betw_def)
  ultimately show ?thesis by (blast intro: set_eq_iff_mset_eq_distinct [THEN iffD1])
qed

lemma upt8: "[0..<8] = [0, 1, 2, 3, 4, 5, 6, 7]"
  by (simp add: upt_rec)

lemma mod8_mset:
  "mset (filled (8 * m) MOD8) = (\<Sum>v\<leftarrow>[0..<8]. replicate_mset m (int v))"
proof (induction m)
  case 0
  then show ?case by (simp add: filled_def upt8)
next
  case (Suc m)
  have "[0..<8 * Suc m] = [0..<8 * m] @ [8 * m..<8 * m + 8]"
    using upt_add_eq_append [of 0 "8 * m" 8] by (simp add: add.commute)
  also have "[8 * m..<8 * m + 8] = map (\<lambda>v. v + 8 * m) [0..<8]"
    using map_add_upt [of "8 * m" 8] by (simp add: add.commute)
  finally have "filled (8 * Suc m) MOD8 = filled (8 * m) MOD8 @ [0, 1, 2, 3, 4, 5, 6, 7]"
    unfolding filled_def by (simp add: upt8 fill_value_def)
  with Suc show ?case by (simp add: upt8)
qed

lemma sort_filled_mod8: "sort (filled (8 * m) MOD8) = sorted_fill (8 * m) MOD8"
proof (rule properties_for_sort)
  show "mset (sorted_fill (8 * m) MOD8) = mset (filled (8 * m) MOD8)"
    by (simp add: mod8_mset sorted_fill_def upt8)
  show "sorted (sorted_fill (8 * m) MOD8)"
    by (auto simp: sorted_fill_def upt8 sorted_append)
qed

lemma sort_filled:
  assumes "n = N1K \<or> n = N64K \<and> f \<noteq> MOD8"
  shows "sort (filled n f) = sorted_fill n f"
proof (cases f)
  case XOR_FILL
  show ?thesis
    unfolding XOR_FILL
  proof (rule properties_for_sort)
    show "mset (sorted_fill n XOR_FILL) = mset (filled n XOR_FILL)"
      using xor_filled_mset [of n] assms by (auto simp: sorted_fill_def)
    show "sorted (sorted_fill n XOR_FILL)" by (simp add: sorted_fill_def sorted_iff_nth_mono)
  qed
next
  case SORTED
  then show ?thesis
    by (intro properties_for_sort) (simp_all add: sorted_fill_def filled_def fill_value_def sorted_iff_nth_mono)
next
  case REVERSED
  have "filled n REVERSED = rev (sorted_fill n REVERSED)"
    by (rule nth_equalityI)
      (auto simp: filled_def sorted_fill_def fill_value_def rev_nth)
  moreover have "sorted (sorted_fill n REVERSED)"
    by (simp add: sorted_fill_def sorted_iff_nth_mono)
  ultimately show ?thesis
    unfolding REVERSED by (intro properties_for_sort) simp_all
next
  case MOD8
  moreover have "N1K = 8 * 128" by (simp add: N1K_def)
  ultimately show ?thesis using assms sort_filled_mod8 [of 128] by auto
qed

section \<open>What the rounds do\<close>

text \<open>
  One round with an exact clock: the refill is not counted, the sort is.
\<close>

definition round_inv ::
  "nat \<Rightarrow> fill_kind \<Rightarrow> nat \<Rightarrow> nat \<Rightarrow> 'm process world \<Rightarrow> nat \<Rightarrow> 'm process world \<Rightarrow> bool" where
  "round_inv n f D F w j v \<longleftrightarrow>
     b_n (bch v) = b_n (bch w) \<and> b_name (bch v) = b_name (bch w) \<and> \<not> running (bch v)
     \<and> accum_ns (bch v) = accum_ns (bch w) + int j * int D
     \<and> clock (rest v) = clock (rest w) + int j * (int D + int F)
     \<and> length (int_array (rest v) ''ints'') = length (int_array (rest w) ''ints'')
     \<and> (0 < j \<longrightarrow> take n (int_array (rest v) ''ints'') = sort (filled n f))"

lemma sort_round:
  assumes "round_inv n f D (wk ''fill'') w j v" and "n \<le> length (int_array (rest w) ''ints'')"
    and op: "\<And>m. fst (sort_ints L (filled n f) m) = sort (filled n f)"
      "\<And>m. fst (snd (sort_ints L (filled n f) m)) = D"
  shows "\<exists>v'. block [fill_ints (exact_host a wk) n f, resuming (exact_host a wk),
      sort_call_ints (sort_ints L) n, pausing (exact_host a wk)] v = Some v'
    \<and> round_inv n f D (wk ''fill'') w (Suc j) v'"
  using assms(1,2)
  by (auto simp: round_inv_def fill_ints_def sort_call_ints_def stmt_simps timer_simps op fill_take
      length_fill algebra_simps) (auto simp: filled_def)

text \<open>What burrow documents of \<open>sort_ints\<close>: an ascending rearrangement of the slice.\<close>

definition sorts_ints :: "'m sort_lib \<Rightarrow> bool" where
  "sorts_ints L \<longleftrightarrow> (\<forall>xs m. sorted (fst (sort_ints L xs m)) \<and> mset (fst (sort_ints L xs m)) = mset xs)"

lemma sorts_intsD: "sorts_ints L \<Longrightarrow> fst (sort_ints L xs m) = sort xs"
  by (metis properties_for_sort sorts_ints_def)

lemma run_ints_rounds:
  assumes "sorts_ints L" and "\<And>m. fst (snd (sort_ints L (filled n f) m)) = D"
    and "n \<le> length (int_array (rest w) ''ints'')" and "\<not> running (bch w)"
  shows "\<exists>v. bench_loop (\<lambda>i. block [fill_ints (exact_host a wk) n f, resuming (exact_host a wk),
      sort_call_ints (sort_ints L) n, pausing (exact_host a wk)]) w = Some v
    \<and> round_inv n f D (wk ''fill'') w (nat (b_n (bch w))) v"
  unfolding bench_loop_def
proof (rule for_loop_total [where I = "round_inv n f D (wk ''fill'') w"])
  show "round_inv n f D (wk ''fill'') w 0 w" using assms(4) by (simp add: round_inv_def)
  fix j and v :: "'a process world"
  assume "round_inv n f D (wk ''fill'') w j v"
  then show "\<exists>v'. block [fill_ints (exact_host a wk) n f, resuming (exact_host a wk),
      sort_call_ints (sort_ints L) n, pausing (exact_host a wk)] v = Some v'
    \<and> round_inv n f D (wk ''fill'') w (Suc j) v'"
    by (rule sort_round) (simp_all add: assms sorts_intsD)
qed

lemma run_ints_measured:
  assumes L: "sorts_ints L" "\<And>m. fst (snd (sort_ints L (filled n f) m)) = D"
    and n: "n \<le> length (int_array (rest w) ''ints'')" and k: "0 \<le> k"
  shows "\<exists>b w'. run_measured (gettime (exact_host a wk))
        \<lparr>e_name = nm, e_fn = run_ints (exact_host a wk) L n f\<rparr> k True w
      = Some (b, k * (int D + int (wk ''fill'')), w') \<and> b_ns b = k * int D
      \<and> (0 < k \<longrightarrow> take n (int_array (rest w') ''ints'') = sort (filled n f))"
proof -
  let ?h = "exact_host a wk :: 'a host"
  define u where "u = bench_pause (gettime ?h) (bench_resume (gettime ?h)
    (snd (bench_now_ns (gettime ?h) (w\<lparr>bch := zero_bench\<lparr>b_name := nm, b_n := k\<rparr>\<rparr>))))"
  have u: "\<not> running (bch u)" "b_n (bch u) = k" "accum_ns (bch u) = 0"
    "clock (rest u) = clock (rest w)" "int_array (rest u) = int_array (rest w)"
    by (simp_all add: u_def timer_simps zero_bench_def)
  obtain v where v: "bench_loop (\<lambda>i. block [fill_ints ?h n f, resuming ?h,
      sort_call_ints (sort_ints L) n, pausing ?h]) u = Some v" and inv: "round_inv n f D (wk ''fill'') u (nat k) v"
    using run_ints_rounds [OF L, of u a wk] n u by auto
  have run: "run_ints ?h L n f (bench_resume (gettime ?h)
      (snd (bench_now_ns (gettime ?h) (w\<lparr>bch := zero_bench\<lparr>b_name := nm, b_n := k\<rparr>\<rparr>))))
    = Some (bench_keep (a ''ints'') (bench_resume (gettime ?h) v))"
    using v by (simp add: run_ints_def sort_rounds_def u_def stmt_simps)
  show ?thesis
    using inv k u by (simp add: run_measured_def run split_beta Let_def timer_simps round_inv_def)
qed

text \<open>
  C33. Functional: the integer rows of \<open>sort_bench.c\<close> time the sort and nothing else. With a
  sort that does what burrow documents and takes \<open>D\<close> nanoseconds on the input of the row,
  the time reported for \<open>k\<close> iterations is \<open>k * D\<close>, although the run takes
  \<open>k * (D + F)\<close> where \<open>F\<close> is the time of the refill; and every iteration sorted the
  same input, which leaves the array with the numbers of \<open>sorted_fill\<close> (for the xor rows
  \<open>0 .. n - 1\<close>, so the xor input was a permutation).
\<close>
theorem sort_rows_time_only_sort:
  assumes "sorts_ints L" and "\<And>m. fst (snd (sort_ints L (filled n f) m)) = D"
    and "n = N1K \<or> n = N64K \<and> f \<noteq> MOD8"
    and "length (int_array (rest w) ''ints'') = N64K" and "0 < k"
  shows "\<exists>b w'. run_measured (gettime (exact_host a wk))
        \<lparr>e_name = nm, e_fn = run_ints (exact_host a wk) L n f\<rparr> k True w
      = Some (b, k * (int D + int (wk ''fill'')), w') \<and> b_ns b = k * int D
      \<and> take n (int_array (rest w') ''ints'') = sorted_fill n f"
proof -
  have "n \<le> length (int_array (rest w) ''ints'')"
    using assms(3,4) by (auto simp: N1K_def N64K_def)
  from run_ints_measured [OF assms(1,2) this, of k a wk nm] assms(5) sort_filled [OF assms(3)]
  show ?thesis by auto
qed

definition toy_sort :: "unit sort_lib" where
  "toy_sort = \<lparr>sort_ints = (\<lambda>xs m. (sort xs, 900, m)), sort_strings = (\<lambda>xs m. (xs, 0, m)),
     sort_slice_int = (\<lambda>less xs m. (sort xs, 0, m)), sort_slice_str = (\<lambda>less xs m. (xs, 0, m)),
     sort_slice_stable_int = (\<lambda>less xs m. (sort xs, 0, m)), sort_stable_ints = (\<lambda>xs m. (sort xs, 0, m)),
     sort_stable_strings = (\<lambda>xs m. (xs, 0, m)), str_cmp = (\<lambda>s t. if s = t then 0 else 1)\<rparr>"

definition fresh_process :: "unit process" where
  "fresh_process = \<lparr>clock = 0, int_var = (\<lambda>x. 0), u64_var = (\<lambda>x. 0), dbl_var = (\<lambda>x. 0),
     int_array = (\<lambda>x. replicate N64K 0), str_array = (\<lambda>x. []), machine = ()\<rparr>"

theorem sort_rows_time_only_sort_witness:
  "\<exists>b w'. run_measured (gettime (exact_host (\<lambda>x. 0) (\<lambda>x. 300)))
        \<lparr>e_name = ''sort_int1k'', e_fn = run_ints (exact_host (\<lambda>x. 0) (\<lambda>x. 300)) toy_sort N1K XOR_FILL\<rparr>
        10 True \<lparr>bch = zero_bench, kept = [], rest = fresh_process\<rparr>
      = Some (b, 10 * (int 900 + int 300), w') \<and> b_ns b = 10 * int 900
      \<and> take N1K (int_array (rest w') ''ints'') = sorted_fill N1K XOR_FILL"
  by (rule sort_rows_time_only_sort)
    (simp_all add: sorts_ints_def toy_sort_def fresh_process_def)

text \<open>
  Functional: the strings of the string rows are the decimal forms of the numbers
  \<open>i ^ 0x2cc\<close>; no text is longer than the seven bytes its buffer has room for, so none of the
  strings runs past what \<open>snprintf\<close> wrote.
\<close>
theorem init_strs_decimal:
  "init_strs = map (\<lambda>i. decimal (i XOR 0x2cc)) [0..<1024]
   \<and> (\<forall>s \<in> set init_strs. length s \<le> 7)"
proof
  show eq: "init_strs = map (\<lambda>i. decimal (i XOR 0x2cc)) [0..<1024]"
    by (auto simp: init_strs_def N1K_def intro: init_str_eq)
  show "\<forall>s \<in> set init_strs. length s \<le> 7"
    using init_text_short by (auto simp: eq N1K_def intro: order_trans [of _ 4])
qed

section \<open>The contract\<close>

lemma sort_call_moves [contract_rules]:
  "does (advances clock) (sort_call_ints op n)" "does (advances clock) (sort_call_strs op2)"
  unfolding sort_call_ints_def sort_call_strs_def by (intro contract_rules)+

lemma sort_rounds_moves [contract_rules]:
  "host_ok h \<Longrightarrow> does (advances clock) r \<Longrightarrow> does (advances clock) s \<Longrightarrow>
     does (advances clock) (sort_rounds h r s)"
  unfolding sort_rounds_def by (intro contract_rules)

lemmas sort_bodies = sort_string1k_def sort_string1k_slice_def sort_stable_string1k_def
  sort_int1k_def sort_int1k_sorted_def sort_int1k_reversed_def sort_int1k_mod8_def
  sort_stable_int1k_def sort_stable_int1k_slice_def sort_int64k_def sort_int64k_slice_def
  run_ints_def fill_ints_def strs_setup_def copy_strs_def copy_ints_def unsorted_setup_def

lemma sort_table_moves:
  "host_ok h \<Longrightarrow> (nm, f) \<in> set (sort_table h L) \<Longrightarrow> does (advances clock) f"
  by (auto simp: sort_table_def sort_bodies intro!: contract_rules simp del: block.simps)

interpretation sort_int1k: benchmark "gettime (exact_host a wk)" clock "sort_int1k (exact_host a wk) L"
  for a wk L
  by (rule benchmark_if_moves) (simp_all add: sort_bodies contract_rules del: block.simps)

end
