(* ===== verification/Arena_Lib.thy ===== *)
theory Arena_Lib
  imports Process
begin

text \<open>
  Burrow's arena as the benchmarks use it: initialised before the loop, reset at the end of
  every iteration, its statistics reported and its memory freed after the loop. The arena is
  a local variable of the benchmark, named by its address.
\<close>

record 'm arena_lib =
  arena_init :: "nat \<Rightarrow> (unit, 'm) op"
  arena_reset :: "nat \<Rightarrow> (unit, 'm) op"
  arena_free :: "nat \<Rightarrow> (unit, 'm) op"
  mem_stats :: "nat \<Rightarrow> (u64 \<times> u64, 'm) op"

text \<open>\<open>report_arena(b, ar)\<close>, which every file with an arena has a copy of.\<close>

definition report_arena :: "'m arena_lib \<Rightarrow> nat \<Rightarrow> 'm cstmt" where
  "report_arena A ar = calling (mem_stats A ar) (\<lambda>(bytes, allocs). reporting bytes allocs)"

lemma report_arena_rules [contract_rules, sink_rules]:
  "does (advances clock) (report_arena A ar)" "emits (\<lambda>n. 0) (report_arena A ar)"
  unfolding report_arena_def
  by (auto simp: split_beta intro!: contract_rules sink_rules)

text \<open>
  The shape of a benchmark with an arena: \<open>iter i\<close> is the body of the loop without the
  \<open>arena_reset\<close> that ends it.
\<close>

definition with_arena ::
  "'m arena_lib \<Rightarrow> nat \<Rightarrow> 'm cstmt \<Rightarrow> (int \<Rightarrow> 'm cstmt) \<Rightarrow> 'm cstmt" where
  "with_arena A ar before iter = block [
     calling (arena_init A ar) (\<lambda>_. Some),
     before,
     bench_loop (\<lambda>i. block [iter i, calling (arena_reset A ar) (\<lambda>_. Some)]),
     report_arena A ar,
     calling (arena_free A ar) (\<lambda>_. Some)]"

lemma with_arena_moves [contract_rules]:
  "does (advances clock) before \<Longrightarrow> (\<And>i. does (advances clock) (iter i)) \<Longrightarrow>
     does (advances clock) (with_arena A ar before iter)"
  unfolding with_arena_def by (intro contract_rules)

lemma with_arena_emits [sink_rules]:
  assumes "emits (\<lambda>n. 0) before" and "\<And>i. emits (\<lambda>n. c) (iter i)"
  shows "emits (\<lambda>n. n * c) (with_arena A ar before iter)"
proof -
  have "emits (\<lambda>n. 0 + (0 + (n * (c + (0 + 0)) + (0 + (0 + 0))))) (with_arena A ar before iter)"
    unfolding with_arena_def by (intro sink_rules assms)
  then show ?thesis by simp
qed

text \<open>A loop that resets the arena at the end of every iteration, and an arena that is not reported.\<close>

definition resetting :: "'m arena_lib \<Rightarrow> nat \<Rightarrow> 'm cstmt \<Rightarrow> 'm cstmt" where
  "resetting A a body = bench_loop (\<lambda>_. block [body, calling (arena_reset A a) (\<lambda>_. Some)])"

definition scratch_arena :: "'m arena_lib \<Rightarrow> nat \<Rightarrow> 'm cstmt \<Rightarrow> 'm cstmt" where
  "scratch_arena A ar body = block [
     calling (arena_init A ar) (\<lambda>_. Some), body, calling (arena_free A ar) (\<lambda>_. Some)]"

lemma scratch_arena_moves [contract_rules]:
  "does (advances clock) body \<Longrightarrow> does (advances clock) (scratch_arena A ar body)"
  "does (advances clock) body \<Longrightarrow> does (advances clock) (resetting A ar body)"
  unfolding scratch_arena_def resetting_def by (intro contract_rules; assumption?)+

text \<open>An arena whose calls do nothing but take a nanosecond.\<close>

definition still_arena :: "unit arena_lib" where
  "still_arena = \<lparr>arena_init = (\<lambda>a m. ((), 1, m)), arena_reset = (\<lambda>a m. ((), 1, m)),
     arena_free = (\<lambda>a m. ((), 1, m)), mem_stats = (\<lambda>a m. ((0, 0), 1, m))\<rparr>"

end
