(* ===== verification/Iface_Bench.thy ===== *)
theory Iface_Bench
  imports Arena_Lib
begin

text \<open>
  \<open>bench/iface_bench.c\<close>: interface values, which are a table of functions and a data
  pointer. The two \<open>Adder\<close> types, the reader and the writer are this file's own code; the
  conversions and assertions are burrow's.
\<close>

section \<open>The types of the file\<close>

text \<open>
  The vtables \<open>counter_adder_vt\<close> and \<open>doubler_adder_vt\<close>; an \<open>Adder\<close> is
  one of them and the name of the variable its data pointer points to.
\<close>

datatype adder_vt = CounterVT | DoublerVT

record adder =
  adder_vt :: adder_vt
  adder_data :: string

definition counter_add :: "string \<Rightarrow> int \<Rightarrow> (int \<Rightarrow> 'm cstmt) \<Rightarrow> 'm cstmt" where
  "counter_add self d k = reading (\<lambda>p. int_var p self) (\<lambda>n.
     checked (add64 n d) (\<lambda>n. block [set_int self n, k n]))"

definition doubler_add :: "string \<Rightarrow> int \<Rightarrow> (int \<Rightarrow> 'm cstmt) \<Rightarrow> 'm cstmt" where
  "doubler_add self d k = reading (\<lambda>p. int_var p self) (\<lambda>n.
     checked (mul64 d 2) (\<lambda>d. checked (add64 n d) (\<lambda>n. block [set_int self n, k n])))"

definition counter_as_adder :: "string \<Rightarrow> adder" where
  "counter_as_adder c = \<lparr>adder_vt = CounterVT, adder_data = c\<rparr>"

definition doubler_as_adder :: "string \<Rightarrow> adder" where
  "doubler_as_adder p = \<lparr>adder_vt = DoublerVT, adder_data = p\<rparr>"

text \<open>\<open>BURROW_CALL(v, add, d)\<close>: the function of the table, on the data pointer.\<close>

definition adder_call :: "adder \<Rightarrow> int \<Rightarrow> (int \<Rightarrow> 'm cstmt) \<Rightarrow> 'm cstmt" where
  "adder_call v d k =
     (case adder_vt v of
        CounterVT \<Rightarrow> counter_add (adder_data v) d k
      | DoublerVT \<Rightarrow> doubler_add (adder_data v) d k)"

text \<open>
  The reader and the writers. A slice is its length; the results are the count, whether
  \<open>*err\<close> was set to \<open>io_eof\<close>, and the new state of the object.
\<close>

definition STREAM_BYTES :: int where "STREAM_BYTES = 64 * 1024"
definition STREAM_CHUNK :: int where "STREAM_CHUNK = 512"
definition COPY_BUF :: int where "COPY_BUF = 32 * 1024"

record source =
  src_pos :: int
  src_len :: int

definition pipe_read :: "int \<Rightarrow> int \<Rightarrow> (int \<times> bool) \<times> int" where
  "pipe_read pos p_len = ((0, True), pos)"

definition pipe_write :: "int \<Rightarrow> int \<Rightarrow> int \<times> int" where
  "pipe_write pos p_len = (p_len, pos + p_len)"

definition source_read :: "source \<Rightarrow> int \<Rightarrow> (int \<times> bool) \<times> source" where
  "source_read s p_len =
     (let left = src_len s - src_pos s in
      if left \<le> 0 then ((0, True), s)
      else
        let n = (if left < p_len then left else p_len);
            n = (if n > STREAM_CHUNK then STREAM_CHUNK else n)
        in ((n, False), s\<lparr>src_pos := src_pos s + n\<rparr>))"

definition sink_write :: "int \<Rightarrow> int \<Rightarrow> int \<times> int" where
  "sink_write total_n p_len = (p_len, total_n + p_len)"

section \<open>What the file takes from burrow\<close>

type_synonym reader = "source \<Rightarrow> int \<Rightarrow> (int \<times> bool) \<times> source"
type_synonym writer = "int \<Rightarrow> int \<Rightarrow> int \<times> int"

text \<open>
  Types and variables are named; a pointer result is an address, \<open>0\<close> for \<open>NULL\<close>.
  \<open>io_copy_buffer\<close> and \<open>io_read_full\<close> call back the reader and the writer and return
  the count with the objects they leave.
\<close>

record 'm iface_lib =
  io_read_writer_as_io_reader :: "string \<Rightarrow> (nat, 'm) op"
  iface_assert :: "adder \<Rightarrow> string \<Rightarrow> (nat, 'm) op"
  iface_type :: "adder \<Rightarrow> (nat, 'm) op"
  any_box :: "nat \<Rightarrow> string \<times> int \<Rightarrow> (nat, 'm) op"
  any_assert :: "string \<times> int \<Rightarrow> string \<Rightarrow> (nat, 'm) op"
  any_equal :: "string \<times> int \<Rightarrow> string \<times> int \<Rightarrow> (bool, 'm) op"
  io_copy_buffer ::
    "writer \<Rightarrow> reader \<Rightarrow> int \<Rightarrow> int \<Rightarrow> source \<Rightarrow> (int \<times> int \<times> source, 'm) op"
  io_read_full :: "reader \<Rightarrow> int \<Rightarrow> source \<Rightarrow> (int \<times> source, 'm) op"

section \<open>The bodies\<close>

definition flag :: "bool \<Rightarrow> u64" where
  "flag c = (if c then 1 else 0)"

definition bench_iface_call :: "'m cstmt" where
  "bench_iface_call = block [set_int ''c'' 0,
     bench_loop (\<lambda>i. adder_call (counter_as_adder ''c'') 1 (\<lambda>r. keep_u64 (of_int r)))]"

definition bench_direct_call :: "'m cstmt" where
  "bench_direct_call = block [set_int ''c'' 0,
     bench_loop (\<lambda>i. counter_add ''c'' 1 (\<lambda>r. keep_u64 (of_int r)))]"

definition bench_iface_call_two_types :: "'m cstmt" where
  "bench_iface_call_two_types = block [set_int ''c'' 0, set_int ''d'' 0,
     bench_loop (\<lambda>i.
       let vs = [counter_as_adder ''c'', doubler_as_adder ''d'']; v = vs ! nat (i mod 2)
       in adder_call v 1 (\<lambda>r. keep_u64 (of_int r)))]"

text \<open>The address of an element of an array of eight byte objects.\<close>

definition elem_addr :: "nat \<Rightarrow> int \<Rightarrow> nat" where
  "elem_addr base i = base + 8 * nat i"

definition bench_iface_convert :: "'m host \<Rightarrow> 'm cstmt" where
  "bench_iface_convert h = bench_loop (\<lambda>i. keep (elem_addr (addr h ''cs'') (i mod 2)))"

definition bench_iface_narrow :: "'m iface_lib \<Rightarrow> 'm cstmt" where
  "bench_iface_narrow L = block [set_int ''q'' 0,
     bench_loop (\<lambda>i. calling (io_read_writer_as_io_reader L ''q'') keep)]"

definition bench_iface_assert_hit :: "'m iface_lib \<Rightarrow> 'm cstmt" where
  "bench_iface_assert_hit L = block [set_int ''c'' 0,
     bench_loop (\<lambda>i. calling (iface_assert L (counter_as_adder ''c'') ''counter_type'') keep)]"

definition bench_iface_assert_miss :: "'m iface_lib \<Rightarrow> 'm cstmt" where
  "bench_iface_assert_miss L = block [set_int ''c'' 0,
     bench_loop (\<lambda>i. calling (iface_assert L (counter_as_adder ''c'') ''doubler_type'') keep)]"

definition bench_iface_type :: "'m iface_lib \<Rightarrow> 'm cstmt" where
  "bench_iface_type L = block [set_int ''c'' 0,
     bench_loop (\<lambda>i. calling (iface_type L (counter_as_adder ''c'')) keep)]"

definition bench_any_make :: "'m host \<Rightarrow> 'm cstmt" where
  "bench_any_make h = bench_loop (\<lambda>i. keep (elem_addr (addr h ''ns'') (i mod 2)))"

definition bench_any_box :: "'m host \<Rightarrow> 'm arena_lib \<Rightarrow> 'm iface_lib \<Rightarrow> 'm cstmt" where
  "bench_any_box h A L = with_arena A (addr h ''ar'') Some (\<lambda>i.
     checked (add64 1234 i) (\<lambda>n. block [set_int ''n'' n,
       calling (any_box L (addr h ''ar'') (''TYPE_INT'', n)) keep]))"

definition bench_any_assert_hit :: "'m iface_lib \<Rightarrow> 'm cstmt" where
  "bench_any_assert_hit L =
     bench_loop (\<lambda>i. calling (any_assert L (''TYPE_INT'', 1234) ''TYPE_INT'') keep)"

definition bench_any_assert_miss :: "'m iface_lib \<Rightarrow> 'm cstmt" where
  "bench_any_assert_miss L =
     bench_loop (\<lambda>i. calling (any_assert L (''TYPE_INT'', 1234) ''TYPE_INT64'') keep)"

definition bench_any_equal_hit :: "'m iface_lib \<Rightarrow> 'm cstmt" where
  "bench_any_equal_hit L = bench_loop (\<lambda>i.
     calling (any_equal L (''TYPE_INT'', 1234) (''TYPE_INT'', 1234)) (\<lambda>r. keep_u64 (flag r)))"

definition bench_any_equal_type_miss :: "'m iface_lib \<Rightarrow> 'm cstmt" where
  "bench_any_equal_type_miss L = bench_loop (\<lambda>i.
     calling (any_equal L (''TYPE_INT'', 1234) (''TYPE_INT64'', 1234)) (\<lambda>r. keep_u64 (flag r)))"

definition bench_io_copy_buffer_64k :: "'m iface_lib \<Rightarrow> 'm cstmt" where
  "bench_io_copy_buffer_64k L = block [set_int ''src.pos'' 0, set_int ''dst.total'' 0,
     bench_loop (\<lambda>i. block [set_int ''src.pos'' 0,
       reading (\<lambda>p. (int_var p ''dst.total'', \<lparr>src_pos = int_var p ''src.pos'', src_len = STREAM_BYTES\<rparr>))
         (\<lambda>(t, s). calling (io_copy_buffer L sink_write source_read COPY_BUF t s) (\<lambda>(r, t, s).
            block [set_int ''dst.total'' t, set_int ''src.pos'' (src_pos s), keep_u64 (of_int r)]))]),
     reading (\<lambda>p. int_var p ''dst.total'') (\<lambda>t. keep_u64 (of_int t))]"

definition bench_io_read_full_4k :: "'m iface_lib \<Rightarrow> 'm cstmt" where
  "bench_io_read_full_4k L = block [set_int ''src.pos'' 0,
     bench_loop (\<lambda>i. block [set_int ''src.pos'' 0,
       reading (\<lambda>p. \<lparr>src_pos = int_var p ''src.pos'', src_len = STREAM_BYTES\<rparr>)
         (\<lambda>s. calling (io_read_full L source_read 4096 s) (\<lambda>(r, s).
            block [set_int ''src.pos'' (src_pos s), keep_u64 (of_int r)]))])]"

definition iface_table ::
  "'m host \<Rightarrow> 'm arena_lib \<Rightarrow> 'm iface_lib \<Rightarrow> (string \<times> 'm cstmt) list" where
  "iface_table h A L = [
     (''iface_call'', bench_iface_call),
     (''direct_call'', bench_direct_call),
     (''iface_call_two_types'', bench_iface_call_two_types),
     (''iface_convert'', bench_iface_convert h),
     (''iface_narrow'', bench_iface_narrow L),
     (''iface_assert_hit'', bench_iface_assert_hit L),
     (''iface_assert_miss'', bench_iface_assert_miss L),
     (''iface_type'', bench_iface_type L),
     (''any_make'', bench_any_make h),
     (''any_box'', bench_any_box h A L),
     (''any_assert_hit'', bench_any_assert_hit L),
     (''any_assert_miss'', bench_any_assert_miss L),
     (''any_equal_hit'', bench_any_equal_hit L),
     (''any_equal_type_miss'', bench_any_equal_type_miss L),
     (''io_copy_buffer_64k'', bench_io_copy_buffer_64k L),
     (''io_read_full_4k'', bench_io_read_full_4k L)]"

section \<open>The contract\<close>

lemma adder_call_moves [contract_rules]:
  "(\<And>r. does (advances clock) (k r)) \<Longrightarrow> does (advances clock) (counter_add x d k)"
  "(\<And>r. does (advances clock) (k r)) \<Longrightarrow> does (advances clock) (doubler_add x d k)"
  "(\<And>r. does (advances clock) (k r)) \<Longrightarrow> does (advances clock) (adder_call v d k)"
proof -
  assume k: "\<And>r. does (advances clock) (k r)"
  show c: "does (advances clock) (counter_add x d k)" for x
    unfolding counter_add_def by (intro contract_rules k)
  show d: "does (advances clock) (doubler_add x d k)" for x
    unfolding doubler_add_def by (intro contract_rules k)
  show "does (advances clock) (adder_call v d k)"
    unfolding adder_call_def by (cases "adder_vt v") (simp_all add: c d)
qed

lemmas iface_bodies = bench_iface_call_def bench_direct_call_def bench_iface_call_two_types_def
  bench_iface_convert_def bench_iface_narrow_def bench_iface_assert_hit_def
  bench_iface_assert_miss_def bench_iface_type_def bench_any_make_def bench_any_box_def
  bench_any_assert_hit_def bench_any_assert_miss_def bench_any_equal_hit_def
  bench_any_equal_type_miss_def bench_io_copy_buffer_64k_def bench_io_read_full_4k_def

lemma iface_table_moves:
  "(nm, f) \<in> set (iface_table h A L) \<Longrightarrow> does (advances clock) f"
  by (auto simp: iface_table_def iface_bodies Let_def split_beta intro!: contract_rules
      simp del: block.simps)

interpretation iface_call: benchmark "gettime (exact_host a wk)" clock bench_iface_call for a wk
  by (rule benchmark_if_moves) (simp_all add: iface_bodies contract_rules del: block.simps)

section \<open>Calls through an interface\<close>

lemma counter_add_step:
  assumes "int_var (rest v) x = n" and "in_int64 (n + d)"
  shows "counter_add x d (\<lambda>r. keep_u64 (of_int r)) v = Some (bench_keep_u64 (of_int (n + d))
    (v\<lparr>rest := (rest v)\<lparr>int_var := (int_var (rest v))(x := n + d)\<rparr>\<rparr>))"
  using assms by (simp add: counter_add_def stmt_simps perform_def add64_def check64_def)

lemma doubler_add_step:
  assumes "int_var (rest v) x = n" and "in_int64 (d * 2)" and "in_int64 (n + d * 2)"
  shows "doubler_add x d (\<lambda>r. keep_u64 (of_int r)) v = Some (bench_keep_u64 (of_int (n + d * 2))
    (v\<lparr>rest := (rest v)\<lparr>int_var := (int_var (rest v))(x := n + d * 2)\<rparr>\<rparr>))"
  using assms by (simp add: doubler_add_def stmt_simps perform_def add64_def mul64_def check64_def)

lemma direct_call_counts:
  assumes "b_n (bch w) \<le> int64_max"
  shows "\<exists>w'. bench_direct_call w = Some w'
    \<and> kept w' = kept w @ map (\<lambda>i. KeptU64 (of_nat (i + 1))) [0..<nat (b_n (bch w))]"
proof -
  let ?w = "perform (\<lambda>p. p\<lparr>int_var := (int_var p)(''c'' := 0)\<rparr>) w"
  let ?body = "\<lambda>i. counter_add ''c'' 1 (\<lambda>r. keep_u64 (of_int r))"
  have "\<exists>w'. bench_loop ?body ?w = Some w' \<and> int_var (rest w') ''c'' = int (nat (b_n (bch ?w)))
    \<and> kept w' = kept ?w @ concat (map (\<lambda>i. [KeptU64 (of_nat (i + 1))]) [0..<nat (b_n (bch ?w))])"
  proof (rule loop_kept [where I = "\<lambda>j v. int_var (rest v) ''c'' = int j"])
    fix j and v :: "'a process world"
    assume j: "j < nat (b_n (bch ?w))" and v: "int_var (rest v) ''c'' = int j"
    have "in_int64 (int j + 1)"
      using j assms by (simp add: in_int64_nonneg)
    from counter_add_step [OF v this]
    show "\<exists>v'. ?body (int j) v = Some v' \<and> kept v' = kept v @ [KeptU64 (of_nat (j + 1))]
      \<and> int_var (rest v') ''c'' = int (Suc j)"
      by (simp add: add.commute)
  qed simp
  then show ?thesis
    by (auto simp: bench_direct_call_def set_int_def assign_def)
qed

text \<open>
  Equivalence: a call through the table does what the direct call does. The benchmark of the
  interface call is the same function of the state as the benchmark of the direct call, and
  both hand the numbers \<open>1 .. n\<close> to the sink, one per iteration, for every count of the
  harness.
\<close>
theorem iface_call_is_direct:
  assumes "b_n (bch w) \<le> int64_max"
  shows "bench_iface_call w = bench_direct_call w
    \<and> (\<exists>w'. bench_iface_call w = Some w'
         \<and> kept w' = kept w @ map (\<lambda>i. KeptU64 (of_nat (i + 1))) [0..<nat (b_n (bch w))])"
proof -
  have "bench_iface_call = (bench_direct_call :: 'a cstmt)"
    by (simp add: bench_iface_call_def bench_direct_call_def adder_call_def counter_as_adder_def)
  with direct_call_counts [OF assms] show ?thesis by simp
qed

definition still_process :: "unit process" where
  "still_process = \<lparr>clock = 0, int_var = (\<lambda>x. 0), u64_var = (\<lambda>x. 0), dbl_var = (\<lambda>x. 0),
     int_array = (\<lambda>x. []), str_array = (\<lambda>x. []), machine = ()\<rparr>"

abbreviation run_of :: "int \<Rightarrow> unit process world" where
  "run_of n \<equiv> \<lparr>bch = zero_bench\<lparr>b_n := n\<rparr>, kept = [], rest = still_process\<rparr>"

theorem iface_call_is_direct_witness:
  "\<exists>w'. bench_iface_call (run_of 3) = Some w'
     \<and> kept w' = [KeptU64 1, KeptU64 2, KeptU64 3]"
  using iface_call_is_direct [of "run_of 3", THEN conjunct2] by (simp add: int64_max_def upt_rec)

lemma two_types_round:
  "(let vs = [counter_as_adder ''c'', doubler_as_adder ''d'']; v = vs ! nat (int j mod 2)
    in adder_call v 1 k) = (if even j then counter_add ''c'' 1 k else doubler_add ''d'' 1 k)"
proof -
  have m: "nat (int j mod 2) = j mod 2" by (simp add: nat_mod_distrib)
  show ?thesis
  proof (cases "even j")
    case True
    then have "j mod 2 = 0" by (simp add: even_iff_mod_2_eq_zero)
    with True m show ?thesis by (simp add: adder_call_def counter_as_adder_def)
  next
    case False
    then have "j mod 2 = 1" by (simp add: odd_iff_mod_2_eq_one)
    with False m show ?thesis by (simp add: adder_call_def doubler_as_adder_def Let_def)
  qed
qed

text \<open>
  Functional: the site that alternates two types really alternates. Even rounds go to the
  counter and odd rounds to the doubler, each with a variable of its own, so round \<open>i\<close>
  hands over \<open>i div 2 + 1\<close> or twice that.
\<close>
theorem two_types_alternate:
  assumes "b_n (bch w) \<le> int64_max"
  shows "\<exists>w'. bench_iface_call_two_types w = Some w' \<and> kept w' = kept w
    @ map (\<lambda>i. KeptU64 (of_nat (if even i then i div 2 + 1 else 2 * (i div 2 + 1))))
        [0..<nat (b_n (bch w))]"
proof -
  let ?w = "perform (\<lambda>p. p\<lparr>int_var := (int_var p)(''c'' := 0, ''d'' := 0)\<rparr>) w"
  let ?body = "\<lambda>i. let vs = [counter_as_adder ''c'', doubler_as_adder ''d'']; v = vs ! nat (i mod 2)
       in adder_call v 1 (\<lambda>r. keep_u64 (of_int r)) :: 'a cstmt"
  let ?g = "\<lambda>i. if even i then i div 2 + 1 else 2 * (i div 2 + 1) :: nat"
  let ?I = "\<lambda>j v. int_var (rest v) ''c'' = int ((j + 1) div 2) \<and> int_var (rest v) ''d'' = 2 * int (j div 2)"
  have "\<exists>w'. bench_loop ?body ?w = Some w' \<and> ?I (nat (b_n (bch ?w))) w'
    \<and> kept w' = kept ?w @ concat (map (\<lambda>i. [KeptU64 (of_nat (?g i))]) [0..<nat (b_n (bch ?w))])"
  proof (rule loop_kept [where I = ?I])
    fix j and v :: "'a process world"
    assume j: "j < nat (b_n (bch ?w))" and v: "?I j v"
    have jm: "int j + 1 \<le> int64_max" using j assms by simp
    show "\<exists>v'. ?body (int j) v = Some v' \<and> kept v' = kept v @ [KeptU64 (of_nat (?g j))] \<and> ?I (Suc j) v'"
    proof (cases "even j")
      case True
      then have c: "int_var (rest v) ''c'' = int (j div 2)" using v by simp
      have "in_int64 (int (j div 2) + 1)" using jm by (simp add: in_int64_nonneg)
      from counter_add_step [OF c this] True v show ?thesis
        unfolding two_types_round by (simp add: add.commute)
    next
      case False
      have d: "int_var (rest v) ''d'' = 2 * int (j div 2)" using v by simp
      have j2: "j = 2 * (j div 2) + 1" using False by (simp add: odd_two_times_div_two_succ)
      then have "int j = 2 * int (j div 2) + 1" by (metis of_nat_1 of_nat_add of_nat_mult of_nat_numeral)
      then have b: "in_int64 (2 * int (j div 2) + 1 * 2)" "in_int64 (1 * 2)"
        using jm by (simp_all add: in_int64_def int64_max_def)
      have "of_nat j = (of_nat (2 * (j div 2) + 1) :: u64)" by (rule arg_cong [OF j2])
      then have "of_nat j = (1 + 2 * of_nat (j div 2) :: u64)" by simp
      with doubler_add_step [OF d b(2,1)] False v show ?thesis
        unfolding two_types_round by (simp add: add.commute mult.commute)
    qed
  qed simp
  then show ?thesis
    by (auto simp: bench_iface_call_two_types_def set_int_def assign_def perform_def)
qed

theorem two_types_alternate_witness:
  "\<exists>w'. bench_iface_call_two_types (run_of 4) = Some w'
     \<and> kept w' = [KeptU64 1, KeptU64 2, KeptU64 2, KeptU64 4]"
  using two_types_alternate [of "run_of 4"] by (simp add: int64_max_def upt_rec)

section \<open>The stream\<close>

text \<open>
  Safety: \<open>source_read\<close> keeps the contract of \<open>io.Reader\<close> that burrow's copies
  rely on. For a slice that is not empty it never reports more bytes than the slice or a chunk
  holds, never steps past the end of the stream, says \<open>EOF\<close> exactly when nothing is left,
  and otherwise moves by exactly the bytes it reports, at least one.
\<close>
theorem source_read_contract:
  assumes "source_read s p_len = ((n, eof), s')" and "0 < p_len" and "src_pos s \<le> src_len s"
  shows "0 \<le> n \<and> n \<le> p_len \<and> n \<le> STREAM_CHUNK \<and> src_pos s' = src_pos s + n
    \<and> src_len s' = src_len s \<and> src_pos s' \<le> src_len s'
    \<and> (eof \<longleftrightarrow> src_pos s = src_len s) \<and> (0 < n \<longleftrightarrow> \<not> eof)"
  using assms by (auto simp: source_read_def STREAM_CHUNK_def Let_def split: if_splits)

theorem source_read_contract_witness:
  "source_read \<lparr>src_pos = 65500, src_len = 65536\<rparr> 4096
     = ((36, False), \<lparr>src_pos = 65536, src_len = 65536\<rparr>) \<and> \<not> (0 < (36::int) \<longleftrightarrow> False)"
proof -
  have r: "source_read \<lparr>src_pos = 65500, src_len = 65536\<rparr> 4096
     = ((36, False), \<lparr>src_pos = 65536, src_len = 65536\<rparr>)"
    by (simp add: source_read_def STREAM_CHUNK_def)
  with source_read_contract [OF r] show ?thesis by simp
qed

text \<open>
  What burrow documents of \<open>io_copy_buffer\<close>, as Go's: read into the buffer, write what was
  read, until the reader says \<open>EOF\<close>; a short write ends the copy. A copy that never ends
  is \<open>None\<close>.
\<close>

partial_function (option) copy_loop ::
  "writer \<Rightarrow> reader \<Rightarrow> int \<Rightarrow> int \<Rightarrow> int \<Rightarrow> source \<Rightarrow> (int \<times> int \<times> source) option" where
  "copy_loop wr rd len written t s =
     (let ((n, eof), s) = rd s len in
      if 0 < n then
        (let (k, t) = wr t n in
         if k \<noteq> n \<or> eof then Some (written + k, t, s)
         else copy_loop wr rd len (written + n) t s)
      else if eof then Some (written, t, s)
      else copy_loop wr rd len written t s)"

definition copies :: "'m iface_lib \<Rightarrow> bool" where
  "copies L \<longleftrightarrow> (\<forall>wr rd len t s r m.
     copy_loop wr rd len 0 t s = Some r \<longrightarrow> fst (io_copy_buffer L wr rd len t s m) = r)"

lemma source_read_end: "src_pos s = src_len s \<Longrightarrow> source_read s len = ((0, True), s)"
  by (simp add: source_read_def)

lemma source_read_step:
  assumes "src_pos s < src_len s" and "0 < len"
  obtains n where "source_read s len = ((n, False), s\<lparr>src_pos := src_pos s + n\<rparr>)"
    and "0 < n" and "n \<le> src_len s - src_pos s"
  using assms that by (auto simp: source_read_def STREAM_CHUNK_def Let_def)

lemma copy_drains:
  assumes "src_pos s \<le> src_len s" and "0 < len"
  shows "copy_loop sink_write source_read len written t s
    = Some (written + (src_len s - src_pos s), t + (src_len s - src_pos s), s\<lparr>src_pos := src_len s\<rparr>)"
  using assms
proof (induction "nat (src_len s - src_pos s)" arbitrary: written t s rule: less_induct)
  case less
  show ?case
  proof (cases "src_pos s = src_len s")
    case True
    then show ?thesis by (subst copy_loop.simps) (simp add: source_read_end)
  next
    case False
    obtain n where r: "source_read s len = ((n, False), s\<lparr>src_pos := src_pos s + n\<rparr>)"
      and n: "0 < n" "n \<le> src_len s - src_pos s"
      using source_read_step [of s len] False less.prems by (metis order_le_less)
    have wr: "sink_write t n = (n, t + n)" by (simp add: sink_write_def)
    have "copy_loop sink_write source_read len (written + n) (t + n) (s\<lparr>src_pos := src_pos s + n\<rparr>)
      = Some (written + (src_len s - src_pos s), t + (src_len s - src_pos s), s\<lparr>src_pos := src_len s\<rparr>)"
      using less.hyps [of "s\<lparr>src_pos := src_pos s + n\<rparr>" "written + n" "t + n"] n less.prems by simp
    then show ?thesis by (subst copy_loop.simps) (simp add: r n wr)
  qed
qed

lemma copy_round:
  assumes "copies L" and "int_var (rest v) ''dst.total'' = int j * STREAM_BYTES"
  shows "\<exists>v'. block [set_int ''src.pos'' 0,
       reading (\<lambda>p. (int_var p ''dst.total'', \<lparr>src_pos = int_var p ''src.pos'', src_len = STREAM_BYTES\<rparr>))
         (\<lambda>(t, s). calling (io_copy_buffer L sink_write source_read COPY_BUF t s) (\<lambda>(r, t, s).
            block [set_int ''dst.total'' t, set_int ''src.pos'' (src_pos s), keep_u64 (of_int r)]))] v
      = Some v' \<and> kept v' = kept v @ [KeptU64 65536]
      \<and> int_var (rest v') ''dst.total'' = int (Suc j) * STREAM_BYTES"
proof -
  let ?s = "\<lparr>src_pos = 0, src_len = STREAM_BYTES\<rparr>"
  have "copy_loop sink_write source_read COPY_BUF 0 (int j * STREAM_BYTES) ?s
    = Some (65536, int j * STREAM_BYTES + 65536, ?s\<lparr>src_pos := STREAM_BYTES\<rparr>)"
    using copy_drains [of ?s COPY_BUF 0 "int j * STREAM_BYTES"]
    by (simp add: STREAM_BYTES_def COPY_BUF_def)
  with assms(1) have "fst (io_copy_buffer L sink_write source_read COPY_BUF (int j * STREAM_BYTES) ?s m)
    = (65536, int j * STREAM_BYTES + 65536, ?s\<lparr>src_pos := STREAM_BYTES\<rparr>)" for m
    unfolding copies_def by blast
  then show ?thesis
    using assms(2) by (simp add: stmt_simps perform_def STREAM_BYTES_def)
qed

text \<open>
  Functional: every iteration of the copy benchmark moves the whole stream. Whatever the
  chunks, a copy that does what burrow documents hands the sink 65536 for each of the
  \<open>n\<close> iterations, and the bytes the writer saw in all, \<open>65536 * n\<close>, at the end.
\<close>
theorem io_copy_moves_all:
  assumes "copies L" and "0 \<le> b_n (bch w)"
  shows "\<exists>w'. bench_io_copy_buffer_64k L w = Some w'
    \<and> kept w' = kept w @ replicate (nat (b_n (bch w))) (KeptU64 65536)
        @ [KeptU64 (of_int (65536 * b_n (bch w)))]"
proof -
  let ?w = "perform (\<lambda>p. p\<lparr>int_var := (int_var p)(''src.pos'' := 0, ''dst.total'' := 0)\<rparr>) w"
  let ?I = "\<lambda>j v. int_var (rest v) ''dst.total'' = int j * STREAM_BYTES"
  let ?body = "\<lambda>i :: int. block [set_int ''src.pos'' 0,
       reading (\<lambda>p. (int_var p ''dst.total'', \<lparr>src_pos = int_var p ''src.pos'', src_len = STREAM_BYTES\<rparr>))
         (\<lambda>(t, s). calling (io_copy_buffer L sink_write source_read COPY_BUF t s) (\<lambda>(r, t, s).
            block [set_int ''dst.total'' t, set_int ''src.pos'' (src_pos s), keep_u64 (of_int r)]))]"
  have "\<exists>w'. bench_loop ?body ?w = Some w' \<and> ?I (nat (b_n (bch ?w))) w'
    \<and> kept w' = kept ?w @ concat (map (\<lambda>i. [KeptU64 65536]) [0..<nat (b_n (bch ?w))])"
  proof (rule loop_kept [where I = ?I])
    fix j and v :: "'a process world" assume "?I j v"
    then show "\<exists>v'. ?body (int j) v = Some v' \<and> kept v' = kept v @ [KeptU64 65536] \<and> ?I (Suc j) v'"
      by (rule copy_round [OF assms(1)])
  qed simp
  then obtain w' where "bench_loop ?body ?w = Some w'" and "?I (nat (b_n (bch w))) w'"
    and "kept w' = kept w @ replicate (nat (b_n (bch w))) (KeptU64 65536)"
    by (auto simp: map_replicate_const)
  with assms(2) show ?thesis
    by (simp add: bench_io_copy_buffer_64k_def stmt_simps perform_def STREAM_BYTES_def mult.commute)
qed

text \<open>\<open>io_read_full\<close> reads until the slice is full or the reader says \<open>EOF\<close>.\<close>

partial_function (option) fill_loop ::
  "reader \<Rightarrow> int \<Rightarrow> int \<Rightarrow> source \<Rightarrow> (int \<times> source) option" where
  "fill_loop rd len n s =
     (if len \<le> n then Some (n, s)
      else let ((k, eof), s) = rd s (len - n) in
        if eof then Some (n + k, s) else fill_loop rd len (n + k) s)"

definition fills :: "'m iface_lib \<Rightarrow> bool" where
  "fills L \<longleftrightarrow> (\<forall>rd len s r m. fill_loop rd len 0 s = Some r \<longrightarrow> fst (io_read_full L rd len s m) = r)"

lemma fill_step:
  assumes "n < len" and "src_pos s + (len - n) \<le> src_len s" and "512 \<le> len - n"
  shows "fill_loop source_read len n s
    = fill_loop source_read len (n + 512) (s\<lparr>src_pos := src_pos s + 512\<rparr>)"
  using assms by (subst fill_loop.simps) (auto simp: source_read_def STREAM_CHUNK_def Let_def)

lemma fill_4096:
  "fill_loop source_read 4096 0 \<lparr>src_pos = 0, src_len = STREAM_BYTES\<rparr>
    = Some (4096, \<lparr>src_pos = 4096, src_len = STREAM_BYTES\<rparr>)"
proof -
  have "fill_loop source_read 4096 4096 s = Some (4096, s)" for s
    by (subst fill_loop.simps) simp
  then show ?thesis by (simp add: fill_step STREAM_BYTES_def)
qed

definition ref_iface_lib :: "unit iface_lib" where
  "ref_iface_lib = \<lparr>io_read_writer_as_io_reader = (\<lambda>x m. (1, 0, m)),
     iface_assert = (\<lambda>v t m. (if adder_vt v = CounterVT \<and> t = ''counter_type'' then 1 else 0, 0, m)),
     iface_type = (\<lambda>v m. (1, 0, m)), any_box = (\<lambda>a v m. (1, 0, m)),
     any_assert = (\<lambda>v t m. (if fst v = t then 1 else 0, 0, m)), any_equal = (\<lambda>u v m. (u = v, 0, m)),
     io_copy_buffer = (\<lambda>wr rd len t s m. (the (copy_loop wr rd len 0 t s), 0, m)),
     io_read_full = (\<lambda>rd len s m. (the (fill_loop rd len 0 s), 0, m))\<rparr>"

lemma ref_iface_lib_laws: "copies ref_iface_lib" "fills ref_iface_lib"
  by (simp_all add: copies_def fills_def ref_iface_lib_def)

theorem io_copy_moves_all_witness:
  "\<exists>w'. bench_io_copy_buffer_64k ref_iface_lib (run_of 2) = Some w'
    \<and> kept w' = [KeptU64 65536, KeptU64 65536, KeptU64 131072]"
  using io_copy_moves_all [OF ref_iface_lib_laws(1), of "run_of 2"] by (simp add: numeral_eq_Suc)

text \<open>
  Functional: every iteration of the read benchmark fills its buffer of 4096 bytes, which
  takes eight reads of a chunk each, since the stream starts again in every iteration.
\<close>
theorem io_read_full_fills:
  assumes "fills L"
  shows "\<exists>w'. bench_io_read_full_4k L w = Some w'
    \<and> kept w' = kept w @ replicate (nat (b_n (bch w))) (KeptU64 4096)"
proof -
  let ?w = "perform (\<lambda>p. p\<lparr>int_var := (int_var p)(''src.pos'' := 0)\<rparr>) w"
  let ?body = "\<lambda>i :: int. block [set_int ''src.pos'' 0,
       reading (\<lambda>p. \<lparr>src_pos = int_var p ''src.pos'', src_len = STREAM_BYTES\<rparr>)
         (\<lambda>s. calling (io_read_full L source_read 4096 s) (\<lambda>(r, s).
            block [set_int ''src.pos'' (src_pos s), keep_u64 (of_int r)]))]"
  have r: "fst (io_read_full L source_read 4096 \<lparr>src_pos = 0, src_len = STREAM_BYTES\<rparr> m)
    = (4096, \<lparr>src_pos = 4096, src_len = STREAM_BYTES\<rparr>)" for m
    using assms fill_4096 unfolding fills_def by blast
  have "\<exists>w'. bench_loop ?body ?w = Some w' \<and> True
    \<and> kept w' = kept ?w @ concat (map (\<lambda>i. [KeptU64 4096]) [0..<nat (b_n (bch ?w))])"
    by (rule loop_kept [where I = "\<lambda>j v. True"]) (simp_all add: stmt_simps perform_def r)
  then show ?thesis
    by (auto simp: bench_io_read_full_4k_def set_int_def assign_def map_replicate_const)
qed

theorem io_read_full_fills_witness:
  "\<exists>w'. bench_io_read_full_4k ref_iface_lib (run_of 1) = Some w' \<and> kept w' = [KeptU64 4096]"
  using io_read_full_fills [OF ref_iface_lib_laws(2), of "run_of 1"] by simp

end
