(* ===== verification/Func_Bench.thy ===== *)
theory Func_Bench
  imports Iface_Bench
begin

text \<open>
  \<open>bench/func_bench.c\<close>: closures, which are a code pointer and an environment pointer. The
  environments are local structs, whose one \<open>Int\<close> field is a variable of the process.
  All sums and products are the checked ones of \<open>Int\<close>.
\<close>

section \<open>The functions\<close>

datatype filter_code = AddOne | DoubleIt | Scale | Bump

text \<open>\<open>BURROW_FN(Filter, code, env)\<close>.\<close>

record filter_fn =
  f_code :: filter_code
  f_env :: string

definition add_one :: "int \<Rightarrow> (int \<Rightarrow> 'm cstmt) \<Rightarrow> 'm cstmt" where
  "add_one d k = checked (add64 d 1) k"

definition double_it :: "int \<Rightarrow> (int \<Rightarrow> 'm cstmt) \<Rightarrow> 'm cstmt" where
  "double_it d k = checked (mul64 d 2) k"

definition scale :: "string \<Rightarrow> int \<Rightarrow> (int \<Rightarrow> 'm cstmt) \<Rightarrow> 'm cstmt" where
  "scale env d k = reading (\<lambda>p. int_var p env) (\<lambda>by_n. checked (mul64 d by_n) k)"

definition bump :: "string \<Rightarrow> int \<Rightarrow> (int \<Rightarrow> 'm cstmt) \<Rightarrow> 'm cstmt" where
  "bump env d k = reading (\<lambda>p. int_var p env) (\<lambda>n.
     checked (add64 n d) (\<lambda>n. block [set_int env n, k n]))"

definition tick :: "string \<Rightarrow> 'm cstmt" where
  "tick env = reading (\<lambda>p. int_var p env) (\<lambda>n. checked (add64 n 1) (set_int env))"

text \<open>\<open>BURROW_CALLF(f, d)\<close>.\<close>

definition call_filter :: "filter_fn \<Rightarrow> int \<Rightarrow> (int \<Rightarrow> 'm cstmt) \<Rightarrow> 'm cstmt" where
  "call_filter f d k =
     (case f_code f of
        AddOne \<Rightarrow> add_one d k
      | DoubleIt \<Rightarrow> double_it d k
      | Scale \<Rightarrow> scale (f_env f) d k
      | Bump \<Rightarrow> bump (f_env f) d k)"

text \<open>
  \<open>hide_filter\<close> stores the closure in a static slot and reads it back through a pointer that
  \<open>bench_hide\<close> returns: the same closure.
\<close>

definition hide_filter :: "filter_fn \<Rightarrow> filter_fn" where
  "hide_filter f = bench_hide f"

definition LINES :: nat where "LINES = 64"

text \<open>\<open>count_over(xs, n, keep)\<close>: the loop with its running total.\<close>

fun count_over :: "int list \<Rightarrow> filter_fn \<Rightarrow> int \<Rightarrow> (int \<Rightarrow> 'm cstmt) \<Rightarrow> 'm cstmt" where
  "count_over [] f acc k = k acc"
| "count_over (x # xs) f acc k = call_filter f x (\<lambda>r.
     checked (add64 acc r) (\<lambda>acc. count_over xs f acc k))"

section \<open>The bodies\<close>

definition bench_func_call :: "'m cstmt" where
  "bench_func_call = (let f = hide_filter \<lparr>f_code = AddOne, f_env = []\<rparr> in
     bench_loop (\<lambda>i. call_filter f i (\<lambda>r. keep_u64 (of_int r))))"

definition bench_func_call_direct :: "'m cstmt" where
  "bench_func_call_direct = bench_loop (\<lambda>i. add_one i (\<lambda>r. keep_u64 (of_int r)))"

definition bench_func_call_env :: "'m cstmt" where
  "bench_func_call_env = block [set_int ''e.by'' 3,
     let f = hide_filter \<lparr>f_code = Scale, f_env = ''e.by''\<rparr> in
     bench_loop (\<lambda>i. call_filter f i (\<lambda>r. keep_u64 (of_int r)))]"

definition bench_func_call_write_env :: "'m cstmt" where
  "bench_func_call_write_env = block [set_int ''e.n'' 0,
     let f = hide_filter \<lparr>f_code = Bump, f_env = ''e.n''\<rparr> in
     bench_loop (\<lambda>i. call_filter f 1 (\<lambda>r. keep_u64 (of_int r))),
     reading (\<lambda>p. int_var p ''e.n'') (\<lambda>n. keep_u64 (of_int n))]"

definition bench_func_call_two_targets :: "'m cstmt" where
  "bench_func_call_two_targets =
     (let fs = [hide_filter \<lparr>f_code = AddOne, f_env = []\<rparr>, hide_filter \<lparr>f_code = DoubleIt, f_env = []\<rparr>]
      in bench_loop (\<lambda>i. call_filter (fs ! nat (i mod 2)) i (\<lambda>r. keep_u64 (of_int r))))"

definition bench_func_call0 :: "'m cstmt" where
  "bench_func_call0 = block [set_int ''e.n'' 0,
     bench_loop (\<lambda>i. tick ''e.n''),
     reading (\<lambda>p. int_var p ''e.n'') (\<lambda>n. keep_u64 (of_int n))]"

definition bench_func_make :: "'m host \<Rightarrow> 'm cstmt" where
  "bench_func_make h = bench_loop (\<lambda>i. block [set_int ''func_make.e.by'' i, keep (addr h ''f'')])"

definition bench_func_higher_order :: "'m cstmt" where
  "bench_func_higher_order = block [set_int ''e.by'' 3,
     let f = hide_filter \<lparr>f_code = Scale, f_env = ''e.by''\<rparr> in block [
       set_ints ''xs'' (map int [0..<LINES]),
       bench_loop (\<lambda>i. reading (\<lambda>p. int_array p ''xs'') (\<lambda>xs.
         count_over (take LINES xs) f 0 (\<lambda>r. keep_u64 (of_int r))))]]"

definition func_table :: "'m host \<Rightarrow> (string \<times> 'm cstmt) list" where
  "func_table h = [
     (''func_call'', bench_func_call),
     (''func_call_direct'', bench_func_call_direct),
     (''func_call_env'', bench_func_call_env),
     (''func_call_write_env'', bench_func_call_write_env),
     (''func_call_two_targets'', bench_func_call_two_targets),
     (''func_call0'', bench_func_call0),
     (''func_make'', bench_func_make h),
     (''func_higher_order'', bench_func_higher_order)]"

section \<open>The contract\<close>

lemma call_filter_moves [contract_rules]:
  "(\<And>r. does (advances clock) (k r)) \<Longrightarrow> does (advances clock) (call_filter f d k)"
  unfolding call_filter_def add_one_def double_it_def scale_def bump_def
  by (cases "f_code f") (auto intro!: contract_rules simp del: block.simps)

lemma count_over_moves [contract_rules]:
  "(\<And>r. does (advances clock) (k r)) \<Longrightarrow> does (advances clock) (count_over xs f acc k)"
  by (induction xs f acc k rule: count_over.induct) (auto intro!: contract_rules)

lemmas func_bodies = bench_func_call_def bench_func_call_direct_def bench_func_call_env_def
  bench_func_call_write_env_def bench_func_call_two_targets_def bench_func_call0_def
  bench_func_make_def bench_func_higher_order_def

lemma func_table_moves: "(nm, f) \<in> set (func_table h) \<Longrightarrow> does (advances clock) f"
  by (auto simp: func_table_def func_bodies Let_def add_one_def tick_def intro!: contract_rules
      simp del: block.simps)

interpretation func_call_env: benchmark "gettime (exact_host a wk)" clock bench_func_call_env for a wk
  by (rule benchmark_if_moves) (simp_all add: func_bodies contract_rules del: block.simps)

section \<open>What the calls compute\<close>

text \<open>A closure over a read-only environment is a function of its argument.\<close>

lemma call_scale:
  assumes "int_var (rest v) env = s" and "in_int64 (d * s)"
  shows "call_filter \<lparr>f_code = Scale, f_env = env\<rparr> d k v = k (d * s) v"
  using assms by (simp add: call_filter_def scale_def stmt_simps mul64_def check64_def)

lemma scale_fits: "0 \<le> i \<Longrightarrow> i < 3074457345618258603 \<Longrightarrow> in_int64 (i * 3)"
  by (simp add: in_int64_def int64_max_def)

text \<open>
  Bounds: the closure row that scales by three is defined, and hands \<open>3 i\<close> to the sink in
  round \<open>i\<close>, for every count up to 3074457345618258603, three billion times what the
  harness picks; one iteration more overflows \<open>Int\<close>.
\<close>
theorem func_call_env_scales:
  assumes "0 \<le> b_n (bch w)"
  shows "(\<exists>w'. bench_func_call_env w = Some w'
      \<and> kept w' = kept w @ map (\<lambda>i. KeptU64 (3 * of_nat i)) [0..<nat (b_n (bch w))])
    \<longleftrightarrow> b_n (bch w) \<le> 3074457345618258603"
proof -
  let ?w = "perform (\<lambda>p. p\<lparr>int_var := (int_var p)(''e.by'' := 3)\<rparr>) w"
  let ?f = "\<lparr>f_code = Scale, f_env = ''e.by''\<rparr>"
  let ?body = "\<lambda>i. call_filter ?f i (\<lambda>r. keep_u64 (of_int r)) :: 'a cstmt"
  let ?n = "nat (b_n (bch w))"
  have eq: "bench_func_call_env w = bench_loop ?body ?w"
    by (simp add: bench_func_call_env_def hide_filter_def bench_hide_def set_int_def assign_def)
  have run: "\<exists>w'. for_loop k 0 ?body ?w = Some w' \<and> int_var (rest w') ''e.by'' = 3
      \<and> kept w' = kept w @ map (\<lambda>i. KeptU64 (3 * of_nat i)) [0..<k]"
    if "int k \<le> 3074457345618258603" for k
  proof (rule for_loop_total [where I = "\<lambda>j v. int_var (rest v) ''e.by'' = 3
      \<and> kept v = kept w @ map (\<lambda>i. KeptU64 (3 * of_nat i)) [0..<j]"])
    fix j and v :: "'a process world"
    assume j: "j < k" and v: "int_var (rest v) ''e.by'' = 3
      \<and> kept v = kept w @ map (\<lambda>i. KeptU64 (3 * of_nat i)) [0..<j]"
    have "in_int64 (int j * 3)" using j that by (simp add: scale_fits)
    with v show "\<exists>v'. ?body (0 + int j) v = Some v' \<and> int_var (rest v') ''e.by'' = 3
      \<and> kept v' = kept w @ map (\<lambda>i. KeptU64 (3 * of_nat i)) [0..<Suc j]"
      by (simp add: call_scale keep_u64_def mult.commute)
  qed simp
  show ?thesis
  proof
    assume "b_n (bch w) \<le> 3074457345618258603"
    with assms run [of ?n] show "\<exists>w'. bench_func_call_env w = Some w'
      \<and> kept w' = kept w @ map (\<lambda>i. KeptU64 (3 * of_nat i)) [0..<?n]"
      unfolding eq by (auto simp: bench_loop_def)
  next
    assume some: "\<exists>w'. bench_func_call_env w = Some w'
      \<and> kept w' = kept w @ map (\<lambda>i. KeptU64 (3 * of_nat i)) [0..<?n]"
    show "b_n (bch w) \<le> 3074457345618258603"
    proof (rule ccontr)
      define K :: nat where "K = 3074457345618258603"
      have K: "int K = 3074457345618258603" by (simp add: K_def)
      assume "\<not> b_n (bch w) \<le> 3074457345618258603"
      then have "K < ?n" using K by linarith
      then obtain r where r: "?n = K + Suc r" by (auto dest: less_imp_Suc_add)
      obtain v where v: "for_loop K 0 ?body ?w = Some v" "int_var (rest v) ''e.by'' = 3"
        using run [of K] K by auto
      have "for_loop (Suc r) (int K) ?body v = None"
        using v(2) by (simp add: K call_filter_def scale_def reading_def checked_def mul64_def
            check64_def in_int64_def int64_max_def)
      with v(1) have "bench_loop ?body ?w = None"
        using for_loop_add [of K "Suc r" 0 ?body ?w]
        by (simp add: bench_loop_def r del: for_loop.simps add_Suc_right)
      with some show False unfolding eq by simp
    qed
  qed
qed

theorem func_call_env_scales_witness:
  "\<exists>w'. bench_func_call_env (run_of 3) = Some w' \<and> kept w' = [KeptU64 0, KeptU64 3, KeptU64 6]"
  using func_call_env_scales [of "run_of 3"] by (simp add: upt_rec)

lemma count_over_scale:
  assumes "int_var (rest v) env = 3" and "\<forall>x \<in> set xs. 0 \<le> x" and "0 \<le> acc"
    and "acc + 3 * sum_list xs \<le> int64_max"
  shows "count_over xs \<lparr>f_code = Scale, f_env = env\<rparr> acc k v = k (acc + 3 * sum_list xs) v"
  using assms
proof (induction xs arbitrary: acc)
  case (Cons x xs)
  have pos: "0 \<le> sum_list xs" using Cons.prems(2) by (simp add: sum_list_nonneg)
  have b: "in_int64 (x * 3)" "in_int64 (acc + x * 3)"
    using Cons.prems pos by (simp_all add: in_int64_nonneg)
  have "count_over xs \<lparr>f_code = Scale, f_env = env\<rparr> (acc + x * 3) k v
    = k (acc + x * 3 + 3 * sum_list xs) v"
    by (rule Cons.IH) (use Cons.prems in auto)
  with b Cons.prems(1) show ?case
    by (simp add: call_scale checked_def add64_def check64_def algebra_simps)
qed simp

lemma sum_64: "sum_list (map int [0..<64]) = 2016"
  by (simp add: upt_rec)

text \<open>
  Functional: the higher order row folds the scaling closure over its array of 64 numbers in
  every iteration, so that the sink receives \<open>3 * (0 + ... + 63) = 6048\<close> each time, and
  none of the sums overflows.
\<close>
theorem func_higher_order_sum:
  "\<exists>w'. bench_func_higher_order w = Some w'
     \<and> kept w' = kept w @ replicate (nat (b_n (bch w))) (KeptU64 6048)"
proof -
  let ?w = "perform (\<lambda>p. p\<lparr>int_var := (int_var p)(''e.by'' := 3),
    int_array := (int_array p)(''xs'' := map int [0..<64])\<rparr>) w"
  let ?f = "\<lparr>f_code = Scale, f_env = ''e.by''\<rparr>"
  let ?body = "\<lambda>i :: int. reading (\<lambda>p. int_array p ''xs'') (\<lambda>xs.
         count_over (take LINES xs) ?f 0 (\<lambda>r. keep_u64 (of_int r))) :: 'a cstmt"
  let ?I = "\<lambda>j :: nat. \<lambda>v :: 'a process world.
    int_var (rest v) ''e.by'' = 3 \<and> int_array (rest v) ''xs'' = map int [0..<64]"
  have "\<exists>w'. bench_loop ?body ?w = Some w' \<and> ?I (nat (b_n (bch ?w))) w'
    \<and> kept w' = kept ?w @ concat (map (\<lambda>i. [KeptU64 6048]) [0..<nat (b_n (bch ?w))])"
  proof (rule loop_kept [where I = ?I])
    fix j and v :: "'a process world" assume v: "?I j v"
    have "count_over (map int [0..<64]) ?f 0 (\<lambda>r. keep_u64 (of_int r)) v
      = keep_u64 (of_int (0 + 3 * sum_list (map int [0..<64]))) v"
      by (rule count_over_scale) (use v sum_64 in \<open>auto simp: int64_max_def\<close>)
    then show "\<exists>v'. ?body (int j) v = Some v' \<and> kept v' = kept v @ [KeptU64 6048] \<and> ?I (Suc j) v'"
      using v by (simp add: reading_def LINES_def sum_64 keep_u64_def)
  qed (simp add: perform_def)
  then show ?thesis
    by (auto simp: bench_func_higher_order_def hide_filter_def bench_hide_def set_int_def set_ints_def
        assign_def perform_def LINES_def map_replicate_const Let_def)
qed

text \<open>
  Functional: a closure that writes its environment counts the calls. The two rows that call
  such a closure end with the number of iterations in the sink, so no call was lost or made
  twice.
\<close>
theorem closures_count_calls:
  assumes "0 \<le> b_n (bch w)" and "b_n (bch w) \<le> int64_max"
  shows "(\<exists>w'. bench_func_call0 w = Some w' \<and> kept w' = kept w @ [KeptU64 (of_int (b_n (bch w)))])
    \<and> (\<exists>w'. bench_func_call_write_env w = Some w'
         \<and> kept w' = kept w @ map (\<lambda>i. KeptU64 (of_nat (i + 1))) [0..<nat (b_n (bch w))]
             @ [KeptU64 (of_int (b_n (bch w)))])"
proof
  let ?w = "perform (\<lambda>p. p\<lparr>int_var := (int_var p)(''e.n'' := 0)\<rparr>) w"
  let ?I = "\<lambda>j :: nat. \<lambda>v :: 'a process world. int_var (rest v) ''e.n'' = int j"
  have bound: "in_int64 (int j + 1)" if "j < nat (b_n (bch ?w))" for j
    using that assms by (simp add: in_int64_nonneg)
  have "\<exists>w'. bench_loop (\<lambda>i. tick ''e.n'') ?w = Some w' \<and> ?I (nat (b_n (bch ?w))) w'
    \<and> kept w' = kept ?w @ concat (map (\<lambda>i. []) [0..<nat (b_n (bch ?w))])"
    by (rule loop_kept [where I = ?I])
      (use bound in \<open>auto simp: tick_def stmt_simps perform_def add64_def check64_def\<close>)
  then obtain v where "bench_loop (\<lambda>i. tick ''e.n'') ?w = Some v" "?I (nat (b_n (bch w))) v"
    "kept v = kept w" by auto
  then show "\<exists>w'. bench_func_call0 w = Some w' \<and> kept w' = kept w @ [KeptU64 (of_int (b_n (bch w)))]"
    using assms(1) by (simp add: bench_func_call0_def set_int_def assign_def reading_def keep_u64_def)
  let ?f = "\<lparr>f_code = Bump, f_env = ''e.n''\<rparr>"
  let ?body = "\<lambda>i :: int. call_filter ?f 1 (\<lambda>r. keep_u64 (of_int r)) :: 'a cstmt"
  have "\<exists>w'. bench_loop ?body ?w = Some w' \<and> ?I (nat (b_n (bch ?w))) w'
    \<and> kept w' = kept ?w @ concat (map (\<lambda>i. [KeptU64 (of_nat (i + 1))]) [0..<nat (b_n (bch ?w))])"
    by (rule loop_kept [where I = ?I])
      (use bound in \<open>auto simp: call_filter_def bump_def stmt_simps perform_def add64_def
        check64_def add.commute\<close>)
  then obtain u where "bench_loop ?body ?w = Some u" "?I (nat (b_n (bch w))) u"
    "kept u = kept w @ map (\<lambda>i. KeptU64 (of_nat (i + 1))) [0..<nat (b_n (bch w))]" by auto
  then show "\<exists>w'. bench_func_call_write_env w = Some w'
     \<and> kept w' = kept w @ map (\<lambda>i. KeptU64 (of_nat (i + 1))) [0..<nat (b_n (bch w))]
         @ [KeptU64 (of_int (b_n (bch w)))]"
    using assms(1)
    by (simp add: bench_func_call_write_env_def hide_filter_def bench_hide_def set_int_def assign_def
        reading_def keep_u64_def Let_def)
qed

theorem closures_count_calls_witness:
  "\<exists>w'. bench_func_call0 (run_of 5) = Some w' \<and> kept w' = [KeptU64 5]"
  using closures_count_calls [of "run_of 5"] by (simp add: int64_max_def)

end
