(* ===== verification/Error_Bench.thy ===== *)
theory Error_Bench
  imports Iface_Bench
begin

text \<open>
  \<open>bench/error_bench.c\<close>: sentinel errors, errors that wrap a cause, and joined errors. The
  wrapping type and the chain of the benchmarks are this file's code; the walks over a chain
  are burrow's.
\<close>

section \<open>Error values\<close>

text \<open>
  An \<open>Error\<close> is a table and a data pointer. It is one of the two sentinels of the file, a
  \<open>Wrapped\<close> node with its text and its cause, an error that \<open>errors_new\<close> made at an
  address, or what \<open>errors_join_v\<close> made of other errors.
\<close>

datatype error =
    NoError
  | Sentinel string
  | Wrapped string error
  | NewError nat string
  | Joined nat "error list"

definition bench_err_closed :: error where
  "bench_err_closed = Sentinel ''file already closed''"

definition bench_err_not_exist :: error where
  "bench_err_not_exist = Sentinel ''file does not exist''"

fun wrapped_message :: "error \<Rightarrow> string" where
  "wrapped_message (Wrapped txt cause) = txt"
| "wrapped_message e = []"

fun wrapped_unwrap :: "error \<Rightarrow> error" where
  "wrapped_unwrap (Wrapped txt cause) = cause"
| "wrapped_unwrap e = NoError"

definition DEPTH :: nat where "DEPTH = 5"

text \<open>
  \<open>build_chain\<close>: round \<open>i\<close> fills node \<open>i\<close> of the static array and makes the
  error that points to it; later rounds do not write the node again.
\<close>

definition build_chain :: error where
  "build_chain = fold (\<lambda>i e. Wrapped ''layer'' e) [0..<DEPTH] bench_err_closed"

definition succeeds :: "int \<Rightarrow> error" where
  "succeeds i = (if i < 0 then bench_err_closed else NoError)"

definition failed :: "error \<Rightarrow> bool" where
  "failed e \<longleftrightarrow> e \<noteq> NoError"

section \<open>What the file takes from burrow\<close>

record 'm error_lib =
  errors_is :: "error \<Rightarrow> error \<Rightarrow> (bool, 'm) op"
  errors_as :: "error \<Rightarrow> string \<Rightarrow> (nat, 'm) op"
  error_text :: "error \<Rightarrow> (nat, 'm) op"
  errors_new :: "nat \<Rightarrow> string \<Rightarrow> (error, 'm) op"
  errors_join_v :: "nat \<Rightarrow> error list \<Rightarrow> (error, 'm) op"

text \<open>The words of an \<open>Error\<close> value.\<close>

definition err_data :: "error \<Rightarrow> nat" where
  "err_data e = (case e of NewError p s \<Rightarrow> p | Joined p es \<Rightarrow> p | _ \<Rightarrow> 0)"

section \<open>The bodies\<close>

definition is_loop :: "'m error_lib \<Rightarrow> error \<Rightarrow> error \<Rightarrow> 'm cstmt" where
  "is_loop L err target = bench_loop (\<lambda>i. calling (errors_is L err target) (\<lambda>r. keep_u64 (flag r)))"

definition bench_error_is_sentinel :: "'m error_lib \<Rightarrow> 'm cstmt" where
  "bench_error_is_sentinel L = is_loop L bench_err_closed bench_err_closed"

definition bench_error_is_sentinel_miss :: "'m error_lib \<Rightarrow> 'm cstmt" where
  "bench_error_is_sentinel_miss L = is_loop L bench_err_closed bench_err_not_exist"

definition bench_error_is_chain :: "'m error_lib \<Rightarrow> 'm cstmt" where
  "bench_error_is_chain L = is_loop L build_chain bench_err_closed"

definition bench_error_is_chain_miss :: "'m error_lib \<Rightarrow> 'm cstmt" where
  "bench_error_is_chain_miss L = is_loop L build_chain bench_err_not_exist"

definition bench_error_as_chain :: "'m error_lib \<Rightarrow> 'm cstmt" where
  "bench_error_as_chain L = bench_loop (\<lambda>i. calling (errors_as L build_chain ''wrapped_type'') keep)"

definition bench_error_text :: "'m error_lib \<Rightarrow> 'm cstmt" where
  "bench_error_text L = bench_loop (\<lambda>i. calling (error_text L build_chain) keep)"

definition bench_error_return_ok :: "'m cstmt" where
  "bench_error_return_ok = bench_loop (\<lambda>i. keep_u64 (flag (failed (succeeds i))))"

definition bench_error_new :: "'m host \<Rightarrow> 'm arena_lib \<Rightarrow> 'm error_lib \<Rightarrow> 'm cstmt" where
  "bench_error_new h A L = with_arena A (addr h ''ar'') Some (\<lambda>i.
     calling (errors_new L (addr h ''ar'') ''connection reset by peer'') (\<lambda>e. keep (err_data e)))"

definition bench_error_sentinel_use :: "'m host \<Rightarrow> 'm cstmt" where
  "bench_error_sentinel_use h = bench_loop (\<lambda>i. keep (addr h ''bench_err_closed.vt''))"

definition bench_error_join_two :: "'m host \<Rightarrow> 'm arena_lib \<Rightarrow> 'm error_lib \<Rightarrow> 'm cstmt" where
  "bench_error_join_two h A L = with_arena A (addr h ''ar'') Some (\<lambda>i.
     calling (errors_join_v L (addr h ''ar'') [bench_err_closed, bench_err_not_exist])
       (\<lambda>e. keep (err_data e)))"

definition bench_error_is_tree :: "'m host \<Rightarrow> 'm arena_lib \<Rightarrow> 'm error_lib \<Rightarrow> 'm cstmt" where
  "bench_error_is_tree h A L = block [
     calling (arena_init A (addr h ''ar'')) (\<lambda>_. Some),
     calling (errors_join_v L (addr h ''ar'') [bench_err_not_exist, bench_err_closed]) (\<lambda>inner.
       calling (errors_join_v L (addr h ''ar'') [bench_err_not_exist, inner]) (\<lambda>err.
         is_loop L err bench_err_closed)),
     calling (arena_free A (addr h ''ar'')) (\<lambda>_. Some)]"

definition error_table ::
  "'m host \<Rightarrow> 'm arena_lib \<Rightarrow> 'm error_lib \<Rightarrow> (string \<times> 'm cstmt) list" where
  "error_table h A L = [
     (''error_is_sentinel'', bench_error_is_sentinel L),
     (''error_is_sentinel_miss'', bench_error_is_sentinel_miss L),
     (''error_is_chain'', bench_error_is_chain L),
     (''error_is_chain_miss'', bench_error_is_chain_miss L),
     (''error_as_chain'', bench_error_as_chain L),
     (''error_text'', bench_error_text L),
     (''error_return_ok'', bench_error_return_ok),
     (''error_new'', bench_error_new h A L),
     (''error_sentinel_use'', bench_error_sentinel_use h),
     (''error_join_two'', bench_error_join_two h A L),
     (''error_is_tree'', bench_error_is_tree h A L)]"

section \<open>The contract\<close>

lemmas error_bodies = bench_error_is_sentinel_def bench_error_is_sentinel_miss_def
  bench_error_is_chain_def bench_error_is_chain_miss_def bench_error_as_chain_def
  bench_error_text_def bench_error_return_ok_def bench_error_new_def bench_error_sentinel_use_def
  bench_error_join_two_def bench_error_is_tree_def is_loop_def

lemma error_table_moves: "(nm, f) \<in> set (error_table h A L) \<Longrightarrow> does (advances clock) f"
  by (auto simp: error_table_def error_bodies intro!: contract_rules simp del: block.simps)

section \<open>What the walks answer\<close>

text \<open>
  What burrow documents of \<open>errors_is\<close>, as Go's: true when the error is the target, or
  one of the errors it wraps or joins is.
\<close>

fun error_is :: "error \<Rightarrow> error \<Rightarrow> bool" where
  "error_is (Wrapped txt cause) t \<longleftrightarrow> Wrapped txt cause = t \<or> error_is cause t"
| "error_is (Joined p es) t \<longleftrightarrow> Joined p es = t \<or> (\<exists>e \<in> set es. error_is e t)"
| "error_is e t \<longleftrightarrow> e = t"

definition walks :: "'m error_lib \<Rightarrow> bool" where
  "walks L \<longleftrightarrow> (\<forall>e t m. fst (errors_is L e t m) = error_is e t)
     \<and> (\<forall>a es m. \<exists>p. fst (errors_join_v L a es m) = Joined p es)"

lemma walks_join: "walks L \<Longrightarrow> \<exists>p. fst (errors_join_v L a es m) = Joined p es"
  by (simp add: walks_def)

text \<open>The chain: five layers over the sentinel.\<close>

lemma chain_layers:
  "error_is (fold (\<lambda>i e. Wrapped s e) is e) (Sentinel t) \<longleftrightarrow> error_is e (Sentinel t)"
  by (induction "is" arbitrary: e) auto

lemma chain_depth: "(wrapped_unwrap ^^ DEPTH) build_chain = bench_err_closed"
  "k < DEPTH \<Longrightarrow> wrapped_message ((wrapped_unwrap ^^ k) build_chain) = ''layer''"
proof -
  have c: "build_chain = Wrapped ''layer'' (Wrapped ''layer'' (Wrapped ''layer''
      (Wrapped ''layer'' (Wrapped ''layer'' bench_err_closed))))"
    by (simp add: build_chain_def DEPTH_def upt_rec)
  show "(wrapped_unwrap ^^ DEPTH) build_chain = bench_err_closed"
    by (simp add: c DEPTH_def numeral_eq_Suc)
  assume "k < DEPTH"
  then consider "k = 0" | "k = 1" | "k = 2" | "k = 3" | "k = 4" by (fastforce simp: DEPTH_def)
  then show "wrapped_message ((wrapped_unwrap ^^ k) build_chain) = ''layer''"
    by cases (simp_all add: c numeral_eq_Suc)
qed

lemma is_loop_answers:
  assumes "walks L"
  shows "\<exists>w'. is_loop L e t w = Some w'
    \<and> kept w' = kept w @ replicate (nat (b_n (bch w))) (KeptU64 (flag (error_is e t)))"
proof -
  have "\<exists>w'. is_loop L e t w = Some w' \<and> True
    \<and> kept w' = kept w @ concat (map (\<lambda>i. [KeptU64 (flag (error_is e t))]) [0..<nat (b_n (bch w))])"
    unfolding is_loop_def
    by (rule loop_kept [where I = "\<lambda>j v. True"])
      (use assms in \<open>simp_all add: stmt_simps walks_def\<close>)
  then show ?thesis by (simp add: map_replicate_const)
qed

text \<open>
  Functional: the rows measure what their names say. With walks that do what burrow
  documents, the two hit rows and the tree row hand 1 to the sink in every iteration and the
  two miss rows 0; the chain they walk is five layers deep with the sentinel \<open>closed\<close> at its
  end, so a miss has to look at all six errors.
\<close>
theorem error_rows_answer:
  assumes "walks L"
  shows "(\<exists>w'. bench_error_is_chain L w = Some w'
      \<and> kept w' = kept w @ replicate (nat (b_n (bch w))) (KeptU64 1))
    \<and> (\<exists>w'. bench_error_is_chain_miss L w = Some w'
      \<and> kept w' = kept w @ replicate (nat (b_n (bch w))) (KeptU64 0))
    \<and> (\<exists>w'. bench_error_is_sentinel_miss L w = Some w'
      \<and> kept w' = kept w @ replicate (nat (b_n (bch w))) (KeptU64 0))
    \<and> (\<exists>w'. bench_error_is_tree h A L w = Some w'
      \<and> kept w' = kept w @ replicate (nat (b_n (bch w))) (KeptU64 1))
    \<and> (wrapped_unwrap ^^ DEPTH) build_chain = bench_err_closed"
proof -
  have e: "error_is build_chain bench_err_closed" "\<not> error_is build_chain bench_err_not_exist"
    "\<not> error_is bench_err_closed bench_err_not_exist"
    by (simp_all add: build_chain_def bench_err_closed_def bench_err_not_exist_def chain_layers)
  have "\<exists>w'. bench_error_is_tree h A L w = Some w'
      \<and> kept w' = kept w @ replicate (nat (b_n (bch w))) (KeptU64 1)"
  proof -
    have "\<exists>w1 p q. bench_error_is_tree h A L w
        = do { w \<leftarrow> is_loop L (Joined p [bench_err_not_exist, Joined q [bench_err_not_exist, bench_err_closed]])
                 bench_err_closed w1; calling (arena_free A (addr h ''ar'')) (\<lambda>_. Some) w }
      \<and> kept w1 = kept w \<and> bch w1 = bch w"
    proof -
      let ?w0 = "snd (call (lib (arena_init A (addr h ''ar''))) w)"
      let ?join = "\<lambda>es. lib (errors_join_v L (addr h ''ar'') es)"
      let ?es = "[bench_err_not_exist, bench_err_closed]"
      let ?w1 = "snd (call (?join ?es) ?w0)"
      obtain q where q: "fst (call (?join ?es) ?w0) = Joined q ?es"
        using walks_join [OF assms, of "addr h ''ar''" ?es "machine (rest ?w0)"] by auto
      let ?fs = "[bench_err_not_exist, Joined q ?es]"
      obtain p where p: "fst (call (?join ?fs) ?w1) = Joined p ?fs"
        using walks_join [OF assms, of "addr h ''ar''" ?fs "machine (rest ?w1)"] by auto
      show ?thesis
        by (rule exI [of _ "snd (call (?join ?fs) ?w1)"], rule exI [of _ p], rule exI [of _ q])
          (use p q in \<open>simp add: bench_error_is_tree_def calling_def [abs_def] split_beta Let_def\<close>)
    qed
    then obtain w1 p q where t: "bench_error_is_tree h A L w
        = do { w \<leftarrow> is_loop L (Joined p [bench_err_not_exist, Joined q [bench_err_not_exist, bench_err_closed]])
                 bench_err_closed w1; calling (arena_free A (addr h ''ar'')) (\<lambda>_. Some) w }"
      and w1: "kept w1 = kept w" "bch w1 = bch w" by blast
    have "error_is (Joined p [bench_err_not_exist, Joined q [bench_err_not_exist, bench_err_closed]])
        bench_err_closed" by (simp add: bench_err_closed_def)
    with is_loop_answers [OF assms, of "Joined p [bench_err_not_exist, Joined q [bench_err_not_exist,
        bench_err_closed]]" bench_err_closed w1]
    show ?thesis by (auto simp: t w1 flag_def calling_def split_beta)
  qed
  then show ?thesis
    using is_loop_answers [OF assms, of build_chain bench_err_closed w]
      is_loop_answers [OF assms, of build_chain bench_err_not_exist w]
      is_loop_answers [OF assms, of bench_err_closed bench_err_not_exist w] e chain_depth(1)
    by (simp add: bench_error_is_chain_def bench_error_is_chain_miss_def
        bench_error_is_sentinel_miss_def flag_def)
qed

definition ref_error_lib :: "unit error_lib" where
  "ref_error_lib = \<lparr>errors_is = (\<lambda>e t m. (error_is e t, 3, m)), errors_as = (\<lambda>e t m. (1, 3, m)),
     error_text = (\<lambda>e m. (1, 3, m)), errors_new = (\<lambda>a s m. (NewError 8 s, 3, m)),
     errors_join_v = (\<lambda>a es m. (Joined 8 es, 3, m))\<rparr>"

theorem error_rows_answer_witness:
  "(\<exists>w'. bench_error_is_chain ref_error_lib (run_of 2) = Some w' \<and> kept w' = [KeptU64 1, KeptU64 1])
   \<and> (\<exists>w'. bench_error_is_chain_miss ref_error_lib (run_of 2) = Some w'
        \<and> kept w' = [KeptU64 0, KeptU64 0])"
  using error_rows_answer [of ref_error_lib "run_of 2"]
  by (simp add: walks_def ref_error_lib_def numeral_eq_Suc)

end
