(* ===== verification/Defer_Bench.thy ===== *)
theory Defer_Bench
  imports Process
begin

text \<open>
  \<open>bench/defer_bench.c\<close> and \<open>bench/panic_bench.c\<close>: deferred calls and caught panics,
  counted by a static \<open>ticks\<close>. The scope, defer, try and catch macros are burrow's: each is
  a parameter that composes statements, and its documented behaviour a named hypothesis.
\<close>

section \<open>Deferred calls\<close>

definition tick64 :: "string \<Rightarrow> 'm cstmt" where
  "tick64 x = reading (\<lambda>p. u64_var p x) (\<lambda>n. set_u64 x (n + 1))"

definition defer_tick :: "'m cstmt" where
  "defer_tick = tick64 ''defer.ticks''"

definition keep_ticks :: "string \<Rightarrow> 'm cstmt" where
  "keep_ticks x = reading (\<lambda>p. u64_var p x) keep_u64"

text \<open>
  \<open>BURROW_SCOPE { BURROW_DEFER(d1) ... BURROW_DEFER(dk); body } BURROW_SCOPE_END\<close> is
  \<open>sc body [d1, ..., dk]\<close>.
\<close>

type_synonym 'm scope_fn = "'m cstmt \<Rightarrow> 'm cstmt list \<Rightarrow> 'm cstmt"

definition bench_defer_one :: "'m scope_fn \<Rightarrow> 'm cstmt" where
  "bench_defer_one sc = block [bench_loop (\<lambda>i. sc Some [defer_tick]), keep_ticks ''defer.ticks'']"

definition bench_defer_direct :: "'m cstmt" where
  "bench_defer_direct = block [bench_loop (\<lambda>i. defer_tick), keep_ticks ''defer.ticks'']"

definition bench_defer_four :: "'m scope_fn \<Rightarrow> 'm cstmt" where
  "bench_defer_four sc = block [
     bench_loop (\<lambda>i. sc Some [defer_tick, defer_tick, defer_tick, defer_tick]),
     keep_ticks ''defer.ticks'']"

definition bench_defer_eight :: "'m scope_fn \<Rightarrow> 'm cstmt" where
  "bench_defer_eight sc = block [
     bench_loop (\<lambda>i. sc Some [defer_tick, defer_tick, defer_tick, defer_tick,
       defer_tick, defer_tick, defer_tick, defer_tick]),
     keep_ticks ''defer.ticks'']"

definition bench_defer_scope_empty :: "'m scope_fn \<Rightarrow> 'm cstmt" where
  "bench_defer_scope_empty sc = bench_loop (\<lambda>i. sc (keep_u64 (of_int i)) [])"

definition bench_defer_loop_ten :: "'m scope_fn \<Rightarrow> 'm cstmt" where
  "bench_defer_loop_ten sc = block [
     bench_loop (\<lambda>i. repeat_for 10 (\<lambda>j. sc Some [defer_tick])), keep_ticks ''defer.ticks'']"

definition defer_table :: "'m scope_fn \<Rightarrow> (string \<times> 'm cstmt) list" where
  "defer_table sc = [
     (''defer_one'', bench_defer_one sc),
     (''defer_direct'', bench_defer_direct),
     (''defer_four'', bench_defer_four sc),
     (''defer_eight'', bench_defer_eight sc),
     (''defer_scope_empty'', bench_defer_scope_empty sc),
     (''defer_loop_ten'', bench_defer_loop_ten sc)]"

text \<open>
  The documented behaviour: the body, then the deferred calls in reverse order; entering and
  leaving are operations of the library.
\<close>

definition scope_law :: "'m scope_fn \<Rightarrow> bool" where
  "scope_law sc \<longleftrightarrow> (\<exists>(enter :: (unit, 'm) op) (leave :: (unit, 'm) op). \<forall>body ds.
     sc body ds = block [calling enter (\<lambda>_. Some), body, block (rev ds), calling leave (\<lambda>_. Some)])"

section \<open>Panics\<close>

text \<open>
  A statement that may panic says so with its new state. \<open>try_fn body handler\<close> is
  \<open>BURROW_TRY { body } BURROW_CATCH(p) { handler } BURROW_TRY_END\<close>, \<open>pscope\<close> a scope
  around a body that may panic, \<open>panic_str\<close> and \<open>index_panic\<close> the calls that panic, and
  \<open>message_len\<close> the length of the message of a caught runtime error, \<open>None\<close> for a
  panic that is no runtime error.
\<close>

type_synonym 'm pstmt = "'m process world \<Rightarrow> (bool \<times> 'm process world) option"

record 'm panic_lib =
  try_fn :: "'m pstmt \<Rightarrow> 'm cstmt \<Rightarrow> 'm cstmt"
  pscope :: "'m pstmt \<Rightarrow> 'm cstmt list \<Rightarrow> 'm pstmt"
  panic_str :: "string \<Rightarrow> 'm pstmt"
  index_panic :: "int \<Rightarrow> int \<Rightarrow> 'm pstmt"
  message_len :: "(nat option, 'm) op"

definition panic_tick :: "'m cstmt" where
  "panic_tick = tick64 ''panic.ticks''"

text \<open>A statement that does not panic.\<close>

definition quiet :: "'m cstmt \<Rightarrow> 'm pstmt" where
  "quiet s w = do { w \<leftarrow> s w; Some (False, w) }"

definition bench_panic_try_empty :: "'m panic_lib \<Rightarrow> 'm cstmt" where
  "bench_panic_try_empty L = block [
     bench_loop (\<lambda>i. try_fn L (quiet (keep_u64 (of_int i))) panic_tick), keep_ticks ''panic.ticks'']"

definition bench_panic_caught :: "'m panic_lib \<Rightarrow> 'm cstmt" where
  "bench_panic_caught L = block [
     bench_loop (\<lambda>i. try_fn L (panic_str L ''bench'') panic_tick), keep_ticks ''panic.ticks'']"

definition level_three :: "'m panic_lib \<Rightarrow> 'm pstmt" where
  "level_three L = pscope L (panic_str L ''bench'') [panic_tick]"

definition level_two :: "'m panic_lib \<Rightarrow> 'm pstmt" where
  "level_two L = pscope L (level_three L) [panic_tick]"

definition level_one :: "'m panic_lib \<Rightarrow> 'm pstmt" where
  "level_one L = pscope L (level_two L) [panic_tick]"

definition bench_panic_caught_scopes :: "'m panic_lib \<Rightarrow> 'm cstmt" where
  "bench_panic_caught_scopes L = block [
     bench_loop (\<lambda>i. try_fn L (level_one L) panic_tick), keep_ticks ''panic.ticks'']"

definition bench_panic_runtime_error :: "'m panic_lib \<Rightarrow> 'm cstmt" where
  "bench_panic_runtime_error L = block [
     bench_loop (\<lambda>i. try_fn L (index_panic L 5 3)
       (calling (message_len L) (\<lambda>r. case r of
          None \<Rightarrow> Some
        | Some len \<Rightarrow> reading (\<lambda>p. u64_var p ''panic.ticks'')
            (\<lambda>n. set_u64 ''panic.ticks'' (n + of_nat len))))),
     keep_ticks ''panic.ticks'']"

definition panic_table :: "'m panic_lib \<Rightarrow> (string \<times> 'm cstmt) list" where
  "panic_table L = [
     (''panic_try_empty'', bench_panic_try_empty L),
     (''panic_caught'', bench_panic_caught L),
     (''panic_caught_scopes'', bench_panic_caught_scopes L),
     (''panic_runtime_error'', bench_panic_runtime_error L)]"

text \<open>
  The documented behaviour: a panic leaves the scopes it passes through their deferred calls
  first, stops at the catch, and runs the handler there.
\<close>

definition try_law :: "('m pstmt \<Rightarrow> 'm cstmt \<Rightarrow> 'm cstmt) \<Rightarrow> bool" where
  "try_law tr \<longleftrightarrow>
     (\<exists>(enter :: (unit, 'm) op) (leave :: (unit, 'm) op). \<forall>body handler w. tr body handler w = do {
        w \<leftarrow> calling enter (\<lambda>_. Some) w;
        (panicked, w) \<leftarrow> body w;
        w \<leftarrow> (if panicked then handler w else Some w);
        calling leave (\<lambda>_. Some) w })"

definition pscope_law :: "('m pstmt \<Rightarrow> 'm cstmt list \<Rightarrow> 'm pstmt) \<Rightarrow> bool" where
  "pscope_law ps \<longleftrightarrow>
     (\<exists>(enter :: (unit, 'm) op) (leave :: (unit, 'm) op). \<forall>body ds w. ps body ds w = do {
        w \<leftarrow> calling enter (\<lambda>_. Some) w;
        (panicked, w) \<leftarrow> body w;
        w \<leftarrow> block (rev ds) w;
        w \<leftarrow> calling leave (\<lambda>_. Some) w;
        Some (panicked, w) })"

definition panicking_law :: "'m pstmt \<Rightarrow> bool" where
  "panicking_law p \<longleftrightarrow>
     (\<exists>f :: (unit, 'm) op. \<forall>w. p w = do { w \<leftarrow> calling f (\<lambda>_. Some) w; Some (True, w) })"

definition panic_law :: "'m panic_lib \<Rightarrow> bool" where
  "panic_law L \<longleftrightarrow> try_law (try_fn L) \<and> pscope_law (pscope L)
     \<and> (\<forall>s. panicking_law (panic_str L s)) \<and> (\<forall>i n. panicking_law (index_panic L i n))"

lemma panic_lawD:
  "panic_law L \<Longrightarrow> try_law (try_fn L)" "panic_law L \<Longrightarrow> pscope_law (pscope L)"
  "panic_law L \<Longrightarrow> panicking_law (panic_str L s)" "panic_law L \<Longrightarrow> panicking_law (index_panic L i n)"
  by (simp_all add: panic_law_def)

section \<open>Counting\<close>

text \<open>
  \<open>adds x k v s\<close>: the statement returns, adds \<open>k\<close> to the counter \<open>x\<close> and hands
  \<open>v\<close> to the sink.
\<close>

definition adds :: "string \<Rightarrow> u64 \<Rightarrow> sunk list \<Rightarrow> 'm cstmt \<Rightarrow> bool" where
  "adds x k v s \<longleftrightarrow> (\<forall>w. \<exists>w'. s w = Some w' \<and> bch w' = bch w \<and> kept w' = kept w @ v
     \<and> u64_var (rest w') x = u64_var (rest w) x + k)"

lemma addsD: "adds x k v s \<Longrightarrow> \<exists>w'. s w = Some w' \<and> bch w' = bch w \<and> kept w' = kept w @ v
     \<and> u64_var (rest w') x = u64_var (rest w) x + k"
  by (simp add: adds_def)

lemma adds_tick: "adds x 1 [] (tick64 x)"
  by (simp add: adds_def tick64_def stmt_simps perform_def)

lemma adds_op: "adds x 0 [] (calling f (\<lambda>_. Some))"
  by (simp add: adds_def calling_def split_beta)

lemma adds_Some: "adds x 0 [] Some"
  by (simp add: adds_def)

lemma adds_keep: "adds x 0 [KeptU64 v] (keep_u64 v)"
  by (simp add: adds_def keep_u64_def)

lemma adds_Cons:
  assumes "adds x k u s" and "adds x l v (block ss)"
  shows "adds x (k + l) (u @ v) (block (s # ss))"
  unfolding adds_def
proof
  fix w
  obtain w1 where w1: "s w = Some w1" "bch w1 = bch w" "kept w1 = kept w @ u"
    "u64_var (rest w1) x = u64_var (rest w) x + k"
    using addsD [OF assms(1)] by blast
  with addsD [OF assms(2), of w1]
  show "\<exists>w'. block (s # ss) w = Some w' \<and> bch w' = bch w \<and> kept w' = kept w @ u @ v
     \<and> u64_var (rest w') x = u64_var (rest w) x + (k + l)"
    by (auto simp: algebra_simps)
qed

lemma adds_block: "(\<And>s. s \<in> set ss \<Longrightarrow> adds x k [] s) \<Longrightarrow> adds x (of_nat (length ss) * k) [] (block ss)"
proof (induction ss)
  case (Cons s ss)
  then have "adds x (k + of_nat (length ss) * k) ([] @ []) (block (s # ss))"
    by (intro adds_Cons) simp_all
  then show ?case by (simp add: algebra_simps del: block.simps)
qed (simp add: adds_Some)

lemma adds_scope:
  assumes "scope_law sc" and "adds x 0 v body" and "\<And>d. d \<in> set ds \<Longrightarrow> adds x 1 [] d"
  shows "adds x (of_nat (length ds)) v (sc body ds)"
proof -
  obtain enter leave :: "(unit, 'a) op" where eq: "sc body ds
    = block [calling enter (\<lambda>_. Some), body, block (rev ds), calling leave (\<lambda>_. Some)]"
    using assms(1) unfolding scope_law_def by blast
  have "adds x (of_nat (length (rev ds)) * 1) [] (block (rev ds))"
    by (rule adds_block) (simp add: assms(3))
  then have "adds x (0 + (0 + (of_nat (length (rev ds)) * 1 + (0 + 0)))) ([] @ v @ [] @ [] @ []) (sc body ds)"
    unfolding eq by (intro adds_Cons adds_op assms(2)) (simp_all add: adds_Some)
  then show ?thesis by simp
qed

lemma adds_for:
  assumes "\<And>i. adds x k [] (body i)"
  shows "adds x (of_nat m * k) [] (for_loop m j body)"
proof (induction m arbitrary: j)
  case (Suc m)
  show ?case
    unfolding adds_def
  proof
    fix w
    obtain w1 where w1: "body j w = Some w1" "bch w1 = bch w" "kept w1 = kept w @ []"
      "u64_var (rest w1) x = u64_var (rest w) x + k"
      using addsD [OF assms] by blast
    with addsD [OF Suc.IH [of "j + 1"], of w1]
    show "\<exists>w'. for_loop (Suc m) j body w = Some w' \<and> bch w' = bch w \<and> kept w' = kept w @ []
        \<and> u64_var (rest w') x = u64_var (rest w) x + of_nat (Suc m) * k"
      by (auto simp: algebra_simps)
  qed
qed (simp add: adds_def)

lemma loop_then_ticks:
  assumes "\<And>i. adds x k [] (body i)"
  shows "\<exists>w'. block [bench_loop body, keep_ticks x] w = Some w'
    \<and> kept w' = kept w @ [KeptU64 (u64_var (rest w) x + of_nat (nat (b_n (bch w))) * k)]"
proof -
  have "adds x (of_nat (nat (b_n (bch w))) * k) [] (for_loop (nat (b_n (bch w))) 0 body)"
    by (rule adds_for) (rule assms)
  from addsD [OF this, of w] show ?thesis
    by (auto simp: bench_loop_def keep_ticks_def reading_def keep_u64_def)
qed

text \<open>
  Functional: every deferred call runs exactly once. A row with \<open>k\<close> deferred calls in
  its scope ends with the static counter raised by exactly \<open>k * n\<close>, modulo \<open>2 ^ 64\<close>,
  in the sink; the row with a scope inside a loop of ten runs ten a round.
\<close>
theorem defer_runs_once:
  assumes "scope_law sc"
  shows "(\<exists>w'. bench_defer_one sc w = Some w' \<and> kept w' = kept w
      @ [KeptU64 (u64_var (rest w) ''defer.ticks'' + of_nat (nat (b_n (bch w))))])
    \<and> (\<exists>w'. bench_defer_four sc w = Some w' \<and> kept w' = kept w
      @ [KeptU64 (u64_var (rest w) ''defer.ticks'' + of_nat (nat (b_n (bch w))) * 4)])
    \<and> (\<exists>w'. bench_defer_eight sc w = Some w' \<and> kept w' = kept w
      @ [KeptU64 (u64_var (rest w) ''defer.ticks'' + of_nat (nat (b_n (bch w))) * 8)])
    \<and> (\<exists>w'. bench_defer_loop_ten sc w = Some w' \<and> kept w' = kept w
      @ [KeptU64 (u64_var (rest w) ''defer.ticks'' + of_nat (nat (b_n (bch w))) * 10)])"
proof -
  let ?x = "''defer.ticks''"
  have s: "adds ?x (of_nat (length ds)) [] (sc Some ds)" if "\<And>d. d \<in> set ds \<Longrightarrow> d = defer_tick" for ds
  proof (rule adds_scope [OF assms])
    show "adds ?x 0 [] Some" by (rule adds_Some)
    fix d assume "d \<in> set ds"
    then have "d = defer_tick" by (rule that)
    then show "adds ?x 1 [] d" by (simp add: defer_tick_def adds_tick)
  qed
  have 1: "adds ?x 1 [] (sc Some [defer_tick])"
    using s [of "[defer_tick]"] by simp
  have 4: "adds ?x 4 [] (sc Some [defer_tick, defer_tick, defer_tick, defer_tick])"
    using s [of "[defer_tick, defer_tick, defer_tick, defer_tick]"] by simp
  have 8: "adds ?x 8 [] (sc Some [defer_tick, defer_tick, defer_tick, defer_tick,
      defer_tick, defer_tick, defer_tick, defer_tick])"
    using s [of "[defer_tick, defer_tick, defer_tick, defer_tick, defer_tick, defer_tick,
      defer_tick, defer_tick]"] by simp
  have "adds ?x (of_nat 10 * 1) [] (for_loop 10 0 (\<lambda>j. sc Some [defer_tick]))"
    by (rule adds_for) (rule 1)
  then have 10: "adds ?x 10 [] (repeat_for 10 (\<lambda>j. sc Some [defer_tick]))"
    by (simp add: adds_def repeat_for_def)
  show ?thesis
    using loop_then_ticks [where x = ?x and k = 1 and w = w and body = "\<lambda>i. sc Some [defer_tick]", OF 1]
      loop_then_ticks [where x = ?x and k = 4 and w = w and body = "\<lambda>i. sc Some [defer_tick, defer_tick, defer_tick, defer_tick]", OF 4]
      loop_then_ticks [where x = ?x and k = 8 and w = w and body = "\<lambda>i. sc Some [defer_tick, defer_tick, defer_tick, defer_tick,
        defer_tick, defer_tick, defer_tick, defer_tick]", OF 8]
      loop_then_ticks [where x = ?x and k = 10 and w = w and body = "\<lambda>i. repeat_for 10 (\<lambda>j. sc Some [defer_tick])", OF 10]
    unfolding bench_defer_one_def bench_defer_four_def bench_defer_eight_def bench_defer_loop_ten_def
    by (simp del: block.simps)
qed

definition ref_scope :: "unit scope_fn" where
  "ref_scope body ds = block [calling (\<lambda>m. ((), 2, m)) (\<lambda>_. Some), body, block (rev ds),
     calling (\<lambda>m. ((), 3, m)) (\<lambda>_. Some)]"

lemma ref_scope_law: "scope_law ref_scope"
  unfolding scope_law_def ref_scope_def by blast

abbreviation ticked :: "int \<Rightarrow> u64 \<Rightarrow> unit process world" where
  "ticked n t \<equiv> \<lparr>bch = zero_bench\<lparr>b_n := n\<rparr>, kept = [],
     rest = \<lparr>clock = 0, int_var = (\<lambda>x. 0), u64_var = (\<lambda>x. t), dbl_var = (\<lambda>x. 0), int_array = (\<lambda>x. []),
       str_array = (\<lambda>x. []), machine = ()\<rparr>\<rparr>"

theorem defer_runs_once_witness:
  "\<exists>w'. bench_defer_four ref_scope (ticked 5 100) = Some w' \<and> kept w' = [KeptU64 120]"
  using defer_runs_once [OF ref_scope_law, of "ticked 5 100"] by simp

section \<open>Panics run the deferred calls\<close>

text \<open>The statement panics and adds \<open>k\<close> to the counter on the way.\<close>

definition panics :: "string \<Rightarrow> u64 \<Rightarrow> 'm pstmt \<Rightarrow> bool" where
  "panics x k s \<longleftrightarrow> (\<forall>w. \<exists>w'. s w = Some (True, w') \<and> bch w' = bch w \<and> kept w' = kept w
     \<and> u64_var (rest w') x = u64_var (rest w) x + k)"

lemma panicsD: "panics x k s \<Longrightarrow> \<exists>w'. s w = Some (True, w') \<and> bch w' = bch w
     \<and> kept w' = kept w \<and> u64_var (rest w') x = u64_var (rest w) x + k"
  by (simp add: panics_def)

lemma panics_str: "panic_law L \<Longrightarrow> panics x 0 (panic_str L s)"
  by (drule panic_lawD(3)) (auto simp: panics_def panicking_law_def calling_def split_beta)

lemma panics_scope:
  assumes "panic_law L" and "panics x k body" and "\<And>d. d \<in> set ds \<Longrightarrow> adds x 1 [] d"
  shows "panics x (k + of_nat (length ds)) (pscope L body ds)"
  unfolding panics_def
proof
  fix w
  obtain enter leave :: "(unit, 'a) op" where eq: "\<And>w. pscope L body ds w = do {
        w \<leftarrow> calling enter (\<lambda>_. Some) w;
        (panicked, w) \<leftarrow> body w;
        w \<leftarrow> block (rev ds) w;
        w \<leftarrow> calling leave (\<lambda>_. Some) w;
        Some (panicked, w) }"
    using panic_lawD(2) [OF assms(1)] unfolding pscope_law_def by blast
  let ?w1 = "snd (call (lib enter) w)"
  obtain w2 where w2: "body ?w1 = Some (True, w2)" "bch w2 = bch w" "kept w2 = kept w"
    "u64_var (rest w2) x = u64_var (rest w) x + k"
    using panicsD [OF assms(2), of ?w1] by auto
  have "adds x (of_nat (length (rev ds)) * 1) [] (block (rev ds))"
    by (rule adds_block) (simp add: assms(3))
  from addsD [OF this, of w2] w2
  show "\<exists>w'. pscope L body ds w = Some (True, w') \<and> bch w' = bch w \<and> kept w' = kept w
     \<and> u64_var (rest w') x = u64_var (rest w) x + (k + of_nat (length ds))"
    by (auto simp: eq calling_def split_beta algebra_simps)
qed

lemma adds_try:
  assumes "panic_law L" and "panics x k body" and "adds x l [] handler"
  shows "adds x (k + l) [] (try_fn L body handler)"
  unfolding adds_def
proof
  fix w
  obtain enter leave :: "(unit, 'a) op" where eq: "\<And>w. try_fn L body handler w = do {
        w \<leftarrow> calling enter (\<lambda>_. Some) w;
        (panicked, w) \<leftarrow> body w;
        w \<leftarrow> (if panicked then handler w else Some w);
        calling leave (\<lambda>_. Some) w }"
    using panic_lawD(1) [OF assms(1)] unfolding try_law_def by blast
  let ?w1 = "snd (call (lib enter) w)"
  obtain w2 where w2: "body ?w1 = Some (True, w2)" "bch w2 = bch w" "kept w2 = kept w"
    "u64_var (rest w2) x = u64_var (rest w) x + k"
    using panicsD [OF assms(2), of ?w1] by auto
  from addsD [OF assms(3), of w2] w2
  show "\<exists>w'. try_fn L body handler w = Some w' \<and> bch w' = bch w \<and> kept w' = kept w @ []
     \<and> u64_var (rest w') x = u64_var (rest w) x + (k + l)"
    by (auto simp: eq calling_def split_beta algebra_simps)
qed

text \<open>
  Functional: a panic does not skip the deferred calls. Each iteration of the row with three
  scopes runs the deferred call of every level and then the handler, so the counter in the sink
  has risen by \<open>4 n\<close>; the row that panics without a scope raises it by \<open>n\<close>.
\<close>
theorem panic_runs_deferred:
  assumes "panic_law L"
  shows "(\<exists>w'. bench_panic_caught_scopes L w = Some w' \<and> kept w' = kept w
      @ [KeptU64 (u64_var (rest w) ''panic.ticks'' + of_nat (nat (b_n (bch w))) * 4)])
    \<and> (\<exists>w'. bench_panic_caught L w = Some w' \<and> kept w' = kept w
      @ [KeptU64 (u64_var (rest w) ''panic.ticks'' + of_nat (nat (b_n (bch w))))])"
proof -
  let ?x = "''panic.ticks''"
  have t: "adds ?x 1 [] panic_tick" by (simp add: panic_tick_def adds_tick)
  have scope: "panics ?x (k + 1) (pscope L body [panic_tick])" if "panics ?x k body" for k body
    using panics_scope [OF assms that, of "[panic_tick]"] t by simp
  have "panics ?x 0 (panic_str L ''bench'')" by (rule panics_str [OF assms])
  then have 0: "adds ?x (0 + 1) [] (try_fn L (panic_str L ''bench'') panic_tick)"
    by (rule adds_try [OF assms _ t])
  have "panics ?x (0 + 1 + 1 + 1) (level_one L)"
    unfolding level_one_def level_two_def level_three_def
    by (intro scope panics_str [OF assms])
  then have 3: "adds ?x (0 + 1 + 1 + 1 + 1) [] (try_fn L (level_one L) panic_tick)"
    by (rule adds_try [OF assms _ t])
  show ?thesis
    using loop_then_ticks [where x = ?x and k = _ and w = w and body = "\<lambda>i. try_fn L (panic_str L ''bench'') panic_tick", OF 0]
      loop_then_ticks [where x = ?x and k = _ and w = w and body = "\<lambda>i. try_fn L (level_one L) panic_tick", OF 3]
    unfolding bench_panic_caught_scopes_def bench_panic_caught_def
    by (simp del: block.simps)
qed

definition ref_panic_lib :: "unit panic_lib" where
  "ref_panic_lib = \<lparr>
     try_fn = (\<lambda>body handler w. do {
        w \<leftarrow> calling (\<lambda>m. ((), 1, m)) (\<lambda>_. Some) w;
        (panicked, w) \<leftarrow> body w;
        w \<leftarrow> (if panicked then handler w else Some w);
        calling (\<lambda>m. ((), 1, m)) (\<lambda>_. Some) w }),
     pscope = (\<lambda>body ds w. do {
        w \<leftarrow> calling (\<lambda>m. ((), 1, m)) (\<lambda>_. Some) w;
        (panicked, w) \<leftarrow> body w;
        w \<leftarrow> block (rev ds) w;
        w \<leftarrow> calling (\<lambda>m. ((), 1, m)) (\<lambda>_. Some) w;
        Some (panicked, w) }),
     panic_str = (\<lambda>s w. do { w \<leftarrow> calling (\<lambda>m. ((), 1, m)) (\<lambda>_. Some) w; Some (True, w) }),
     index_panic = (\<lambda>i n w. do { w \<leftarrow> calling (\<lambda>m. ((), 1, m)) (\<lambda>_. Some) w; Some (True, w) }),
     message_len = (\<lambda>m. (Some 20, 1, m))\<rparr>"

lemma ref_panic_law: "panic_law ref_panic_lib"
  unfolding panic_law_def try_law_def pscope_law_def panicking_law_def ref_panic_lib_def panic_lib.simps
  by blast

theorem panic_runs_deferred_witness:
  "\<exists>w'. bench_panic_caught_scopes ref_panic_lib (ticked 3 0) = Some w' \<and> kept w' = [KeptU64 12]"
  using panic_runs_deferred [OF ref_panic_law, of "ticked 3 0"] by simp

section \<open>The contract\<close>

lemma tick_moves [contract_rules]:
  "does (advances clock) (tick64 x)" "does (advances clock) defer_tick"
  "does (advances clock) panic_tick" "does (advances clock) (keep_ticks x)"
  unfolding tick64_def defer_tick_def panic_tick_def keep_ticks_def by (intro contract_rules)+

lemma scope_moves:
  assumes "scope_law sc" and "does (advances clock) body" and "\<And>d. d \<in> set ds \<Longrightarrow> does (advances clock) d"
  shows "does (advances clock) (sc body ds)"
proof -
  obtain enter leave :: "(unit, 'a) op" where eq: "sc body ds
    = block [calling enter (\<lambda>_. Some), body, block (rev ds), calling leave (\<lambda>_. Some)]"
    using assms(1) unfolding scope_law_def by blast
  have "does (advances clock) (block (rev ds))"
    by (rule moving.block_rule) (simp add: assms(3))
  then show ?thesis unfolding eq by (intro contract_rules assms(2))
qed

lemma defer_table_moves:
  assumes "scope_law sc" and "(nm, f) \<in> set (defer_table sc)"
  shows "does (advances clock) f"
proof -
  note sc = scope_moves [OF assms(1)]
  have ticks: "does (advances clock) (sc Some ds)" if "set ds \<subseteq> {defer_tick}" for ds
    using that by (intro sc) (auto simp: tick_moves moving.skip_rule)
  have empty: "does (advances clock) (sc (keep_u64 v) [])" for v
    by (intro sc) (simp_all add: keep_moves)
  show ?thesis
    using assms(2)
    by (auto simp: defer_table_def bench_defer_one_def bench_defer_direct_def bench_defer_four_def
        bench_defer_eight_def bench_defer_scope_empty_def bench_defer_loop_ten_def ticks empty
        intro!: contract_rules simp del: block.simps)
qed

text \<open>The same for statements that may panic.\<close>

definition pmoves :: "'m pstmt \<Rightarrow> bool" where
  "pmoves s \<longleftrightarrow> (\<forall>w p w'. s w = Some (p, w') \<longrightarrow> advances clock w w')"

lemma pmovesD: "pmoves s \<Longrightarrow> s w = Some (p, w') \<Longrightarrow> advances clock w w'"
  by (simp add: pmoves_def)

lemma pmoves_quiet: "does (advances clock) s \<Longrightarrow> pmoves (quiet s)"
  by (auto simp: pmoves_def quiet_def bind_eq_Some_conv dest: doesD)

lemma pmoves_panicking: "panicking_law p \<Longrightarrow> pmoves p"
  by (auto simp: pmoves_def panicking_law_def calling_def split_beta intro: advances_rest)

lemma op_moves: "calling f (\<lambda>_. Some) w = Some w' \<Longrightarrow> advances clock w w'"
  by (auto simp: calling_def split_beta intro: advances_rest)

lemma pmoves_scope:
  assumes "pscope_law ps" and "pmoves body" and "\<And>d. d \<in> set ds \<Longrightarrow> does (advances clock) d"
  shows "pmoves (ps body ds)"
  unfolding pmoves_def
proof (intro allI impI)
  fix w p w' assume run: "ps body ds w = Some (p, w')"
  obtain enter leave :: "(unit, 'a) op" where eq: "\<And>w. ps body ds w = do {
        w \<leftarrow> calling enter (\<lambda>_. Some) w;
        (panicked, w) \<leftarrow> body w;
        w \<leftarrow> block (rev ds) w;
        w \<leftarrow> calling leave (\<lambda>_. Some) w;
        Some (panicked, w) }"
    using assms(1) unfolding pscope_law_def by blast
  obtain w1 w2 w3 where "calling enter (\<lambda>_. Some) w = Some w1" "body w1 = Some (p, w2)"
    "block (rev ds) w2 = Some w3" "calling leave (\<lambda>_. Some) w3 = Some w'"
    using run by (auto simp: eq bind_eq_Some_conv)
  moreover have "does (advances clock) (block (rev ds))"
    by (rule moving.block_rule) (simp add: assms(3))
  ultimately show "advances clock w w'"
    by (blast intro: advances_trans op_moves pmovesD [OF assms(2)] dest: doesD)
qed

lemma try_moves:
  assumes "try_law tr" and "pmoves body" and "does (advances clock) handler"
  shows "does (advances clock) (tr body handler)"
proof (rule doesI)
  fix w w' assume run: "tr body handler w = Some w'"
  obtain enter leave :: "(unit, 'a) op" where eq: "\<And>w. tr body handler w = do {
        w \<leftarrow> calling enter (\<lambda>_. Some) w;
        (panicked, w) \<leftarrow> body w;
        w \<leftarrow> (if panicked then handler w else Some w);
        calling leave (\<lambda>_. Some) w }"
    using assms(1) unfolding try_law_def by blast
  obtain w1 p w2 w3 where "calling enter (\<lambda>_. Some) w = Some w1" and b: "body w1 = Some (p, w2)"
    and h: "(if p then handler w2 else Some w2) = Some w3" and "calling leave (\<lambda>_. Some) w3 = Some w'"
    using run by (fastforce simp: eq bind_eq_Some_conv)
  moreover have "advances clock w2 w3"
    using h assms(3) by (auto split: if_splits dest: doesD)
  ultimately show "advances clock w w'"
    by (blast intro: advances_trans op_moves pmovesD [OF assms(2)])
qed

lemma panic_table_moves:
  assumes "panic_law L" and "(nm, f) \<in> set (panic_table L)"
  shows "does (advances clock) f"
proof -
  note law = panic_lawD [OF assms(1)]
  note tr = try_moves [OF law(1)]
  have tick: "does (advances clock) d" if "d \<in> set [panic_tick]" for d
    using that by (simp add: tick_moves)
  have one: "pmoves (level_one L)"
    unfolding level_one_def level_two_def level_three_def
    by (intro pmoves_scope [OF law(2)] pmoves_panicking law(3) tick)
  have handler: "does (advances clock) (calling (message_len L) (\<lambda>r. case r of
          None \<Rightarrow> Some
        | Some len \<Rightarrow> reading (\<lambda>p. u64_var p ''panic.ticks'')
            (\<lambda>n. set_u64 ''panic.ticks'' (n + of_nat len))))"
    by (rule calling_moves) (auto split: option.split intro!: contract_rules)
  have rows: "does (advances clock) (try_fn L (quiet (keep_u64 v)) panic_tick)"
    "does (advances clock) (try_fn L (panic_str L ''bench'') panic_tick)"
    "does (advances clock) (try_fn L (level_one L) panic_tick)"
    "does (advances clock) (try_fn L (index_panic L 5 3) (calling (message_len L) (\<lambda>r. case r of
          None \<Rightarrow> Some
        | Some len \<Rightarrow> reading (\<lambda>p. u64_var p ''panic.ticks'')
            (\<lambda>n. set_u64 ''panic.ticks'' (n + of_nat len)))))" for v
    by (intro tr pmoves_quiet pmoves_panicking law one handler tick_moves keep_moves)+
  show ?thesis
    using assms(2)
    by (auto simp: panic_table_def bench_panic_try_empty_def bench_panic_caught_def
        bench_panic_caught_scopes_def bench_panic_runtime_error_def
        intro!: contract_rules rows simp del: block.simps)
qed

end
