(* ===== verification/Reclaim_Bench.thy ===== *)
theory Reclaim_Bench
  imports Process "HOL-Library.Multiset"
begin

text \<open>
  \<open>bench/reclaim_bench.c\<close>: pinning, and retiring boxes that come back through
  \<open>box_free\<close> when burrow's reclamation is done with them. The free list of the boxes is this
  file's own; the program's memory question is whether every box that was allocated is freed
  exactly once.
\<close>

section \<open>What the file takes from burrow\<close>

text \<open>
  \<open>runtime_main(body)\<close> starts the runtime, runs the body, and shuts the runtime down. A box is its address.
  \<open>retire\<close>, \<open>main_stop\<close> and \<open>reclaim_drain\<close> return the boxes for which the library
  called \<open>box_free\<close> meanwhile, in the order of the calls; \<open>new_box\<close> is
  \<open>BURROW_NEW(heap_allocator(), Box)\<close>, \<open>0\<close> when there is no memory.
\<close>

record 'm reclaim_lib =
  main_start :: "(unit, 'm) op"
  main_stop :: "(nat list, 'm) op"
  pin :: "(unit, 'm) op"
  unpin :: "(unit, 'm) op"
  retire :: "nat \<Rightarrow> (nat list, 'm) op"
  reclaim_drain :: "(nat list, 'm) op"
  new_box :: "(nat, 'm) op"
  free_box :: "nat \<Rightarrow> (unit, 'm) op"

abbreviation does_call :: "('a, 'm) op \<Rightarrow> 'm cstmt" where
  "does_call f \<equiv> calling f (\<lambda>_. Some)"

section \<open>Pinning\<close>

definition pin_body :: "'m host \<Rightarrow> 'm reclaim_lib \<Rightarrow> 'm cstmt" where
  "pin_body h L = block [resuming h,
     bench_loop (\<lambda>i. block [does_call (pin L), does_call (unpin L)]),
     pausing h]"

definition nested_body :: "'m host \<Rightarrow> 'm reclaim_lib \<Rightarrow> 'm cstmt" where
  "nested_body h L = block [resuming h,
     bench_loop (\<lambda>i. block [does_call (pin L), does_call (pin L), does_call (unpin L), does_call (unpin L)]),
     pausing h]"

section \<open>The free list\<close>

text \<open>\<open>pool\<close>, from its head: the boxes linked by \<open>reuse\<close>.\<close>

definition box_free :: "nat \<Rightarrow> nat list \<Rightarrow> nat list" where
  "box_free x pool = x # pool"

definition box_get :: "'m reclaim_lib \<Rightarrow> nat list \<Rightarrow> 'm \<Rightarrow> (nat \<times> nat list) \<times> nat \<times> 'm" where
  "box_get L pool m =
     (case pool of
        x # pool \<Rightarrow> ((x, pool), 0, m)
      | [] \<Rightarrow> (let (x, dt, m) = new_box L m in ((x, []), dt, m)))"

text \<open>
  The pool is a static variable of the process; the callbacks of the library push onto it.
\<close>

definition pool_of :: "'m process \<Rightarrow> nat list" where
  "pool_of p = map nat (int_array p ''reclaim.pool'')"

definition set_pool :: "nat list \<Rightarrow> 'm cstmt" where
  "set_pool xs = set_ints ''reclaim.pool'' (map int xs)"

definition freeing :: "(nat list, 'm) op \<Rightarrow> 'm cstmt" where
  "freeing f = calling f (\<lambda>xs. reading pool_of (\<lambda>pool. set_pool (fold box_free xs pool)))"

definition retire_round :: "'m reclaim_lib \<Rightarrow> 'm process world \<Rightarrow> (bool \<times> 'm process world) option" where
  "retire_round L w =
     (let ((x, pool), w) = call (lib (box_get L (pool_of (rest w)))) w in do {
        w \<leftarrow> set_pool pool w;
        if x = 0 then Some (False, w)
        else do { w \<leftarrow> freeing (retire L x) w; Some (True, w) } })"

definition retire_body :: "'m host \<Rightarrow> 'm reclaim_lib \<Rightarrow> 'm cstmt" where
  "retire_body h L = block [resuming h, bench_loop_break (\<lambda>i. retire_round L), pausing h]"

text \<open>\<open>while (pool != NULL)\<close>: the length of the pool is fuel enough.\<close>

fun free_pool :: "'m reclaim_lib \<Rightarrow> nat list \<Rightarrow> 'm cstmt" where
  "free_pool L [] = set_pool []"
| "free_pool L (x # pool) = block [set_pool pool, does_call (free_box L x), free_pool L pool]"

section \<open>The bodies\<close>

text \<open>
  The functions that run a body under \<open>runtime_main\<close>: the shutdown may run callbacks.
\<close>

definition bench_reclaim_pin_unpin :: "'m host \<Rightarrow> 'm reclaim_lib \<Rightarrow> 'm cstmt" where
  "bench_reclaim_pin_unpin h L = block [pausing h,
     does_call (main_start L), pin_body h L, freeing (main_stop L)]"

definition bench_reclaim_pin_nested :: "'m host \<Rightarrow> 'm reclaim_lib \<Rightarrow> 'm cstmt" where
  "bench_reclaim_pin_nested h L = block [pausing h,
     does_call (main_start L), nested_body h L, freeing (main_stop L)]"

definition bench_reclaim_pin_foreign :: "'m reclaim_lib \<Rightarrow> 'm cstmt" where
  "bench_reclaim_pin_foreign L = bench_loop (\<lambda>i. block [does_call (pin L), does_call (unpin L)])"

definition bench_reclaim_retire :: "'m host \<Rightarrow> 'm reclaim_lib \<Rightarrow> 'm cstmt" where
  "bench_reclaim_retire h L = block [pausing h,
     does_call (main_start L), retire_body h L, freeing (main_stop L),
     freeing (reclaim_drain L),
     reading pool_of (free_pool L)]"

definition reclaim_table :: "'m host \<Rightarrow> 'm reclaim_lib \<Rightarrow> (string \<times> 'm cstmt) list" where
  "reclaim_table h L = [
     (''reclaim_pin_unpin'', bench_reclaim_pin_unpin h L),
     (''reclaim_pin_nested'', bench_reclaim_pin_nested h L),
     (''reclaim_pin_foreign'', bench_reclaim_pin_foreign L),
     (''reclaim_retire'', bench_reclaim_retire h L)]"

section \<open>The contract\<close>

lemma set_pool_moves [contract_rules]: "does (advances clock) (set_pool xs)"
  by (simp add: set_pool_def contract_rules)

lemma freeing_moves [contract_rules]: "does (advances clock) (freeing f)"
  unfolding freeing_def by (intro contract_rules)

lemma free_pool_moves [contract_rules]: "does (advances clock) (free_pool L xs)"
  by (induction xs) (auto intro!: contract_rules simp del: block.simps)

lemma calling_break:
  "advances clock w (snd (call (lib f) w))"
  by (rule advances_rest) simp_all

lemma retire_round_moves: "retire_round L w = Some (g, w') \<Longrightarrow> advances clock w w'"
proof -
  assume r: "retire_round L w = Some (g, w')"
  let ?f = "box_get L (pool_of (rest w))"
  obtain x pool where x: "fst (call (lib ?f) w) = (x, pool)" by (cases "fst (call (lib ?f) w)")
  obtain v where v: "set_pool pool (snd (call (lib ?f) w)) = Some v"
    and or: "v = w' \<or> freeing (retire L x) v = Some w'"
    using r x by (auto simp: retire_round_def split_beta Let_def bind_eq_Some_conv split: if_splits)
  have "advances clock w v"
    using calling_break doesD [OF set_pool_moves v] by (rule advances_trans)
  with or doesD [OF freeing_moves] show ?thesis by (blast intro: advances_trans)
qed

lemma retire_body_moves [contract_rules]: "host_ok h \<Longrightarrow> does (advances clock) (retire_body h L)"
  unfolding retire_body_def
  by (intro contract_rules loop_break_moves) (auto dest: retire_round_moves)

lemma reclaim_table_moves:
  "host_ok h \<Longrightarrow> (nm, f) \<in> set (reclaim_table h L) \<Longrightarrow> does (advances clock) f"
  by (auto simp: reclaim_table_def bench_reclaim_pin_unpin_def bench_reclaim_pin_nested_def
      bench_reclaim_pin_foreign_def bench_reclaim_retire_def pin_body_def nested_body_def
      intro!: contract_rules simp del: block.simps)

interpretation reclaim_retire: benchmark "gettime (exact_host a wk)" clock
    "bench_reclaim_retire (exact_host a wk) L" for a wk L
  by (rule benchmark_if_moves)
    (simp, rule reclaim_table_moves [where nm = "''reclaim_retire''"], auto simp: reclaim_table_def)

section \<open>Every box is freed exactly once\<close>

text \<open>
  What burrow documents: a retired box is given back through its callback exactly once, by a
  later retire, by the shutdown or by the drain, and the drain leaves none. \<open>live\<close> is the
  multiset of the boxes the heap has handed out, \<open>pending\<close> that of the boxes retired and not
  yet given back. A fresh box is not \<open>NULL\<close>.
\<close>

definition reclaims :: "'m reclaim_lib \<Rightarrow> ('m \<Rightarrow> nat multiset) \<Rightarrow> ('m \<Rightarrow> nat multiset) \<Rightarrow> bool" where
  "reclaims L live pending \<longleftrightarrow>
     (\<forall>m. 0 \<notin># live m)
   \<and> (\<forall>m. live (snd (snd (main_start L m))) = live m \<and> pending (snd (snd (main_start L m))) = pending m)
   \<and> (\<forall>m. live (snd (snd (main_stop L m))) = live m
        \<and> pending m = mset (fst (main_stop L m)) + pending (snd (snd (main_stop L m))))
   \<and> (\<forall>x m. live (snd (snd (retire L x m))) = live m
        \<and> add_mset x (pending m) = mset (fst (retire L x m)) + pending (snd (snd (retire L x m))))
   \<and> (\<forall>m. live (snd (snd (reclaim_drain L m))) = live m
        \<and> pending m = mset (fst (reclaim_drain L m))
        \<and> pending (snd (snd (reclaim_drain L m))) = {#})
   \<and> (\<forall>m. pending (snd (snd (new_box L m))) = pending m
        \<and> live (snd (snd (new_box L m)))
            = (if fst (new_box L m) = 0 then live m else add_mset (fst (new_box L m)) (live m)))
   \<and> (\<forall>x m. pending (snd (snd (free_box L x m))) = pending m
        \<and> (x \<in># live m \<longrightarrow> add_mset x (live (snd (snd (free_box L x m)))) = live m))"

text \<open>
  The balance: what the heap has handed out is what it had before, the boxes of the pool and
  the pending boxes.
\<close>

definition balanced ::
  "('m \<Rightarrow> nat multiset) \<Rightarrow> ('m \<Rightarrow> nat multiset) \<Rightarrow> nat multiset \<Rightarrow> 'm process world \<Rightarrow> bool" where
  "balanced live pending base w \<longleftrightarrow>
     live (machine (rest w)) = base + mset (pool_of (rest w)) + pending (machine (rest w))"

lemma reclaimsD:
  assumes "reclaims L live pending"
  shows "0 \<notin># live m"
    and "live (snd (snd (main_start L m))) = live m" "pending (snd (snd (main_start L m))) = pending m"
    and "live (snd (snd (main_stop L m))) = live m"
      "mset (fst (main_stop L m)) + pending (snd (snd (main_stop L m))) = pending m"
    and "live (snd (snd (retire L x m))) = live m"
      "mset (fst (retire L x m)) + pending (snd (snd (retire L x m))) = add_mset x (pending m)"
    and "live (snd (snd (reclaim_drain L m))) = live m" "mset (fst (reclaim_drain L m)) = pending m"
      "pending (snd (snd (reclaim_drain L m))) = {#}"
    and "pending (snd (snd (new_box L m))) = pending m"
      "live (snd (snd (new_box L m)))
         = (if fst (new_box L m) = 0 then live m else add_mset (fst (new_box L m)) (live m))"
    and "pending (snd (snd (free_box L x m))) = pending m"
      "x \<in># live m \<Longrightarrow> add_mset x (live (snd (snd (free_box L x m)))) = live m"
  by (insert assms [unfolded reclaims_def], (blast | (elim conjE, metis))+)

lemma pool_of_set [simp]: "pool_of (p\<lparr>int_array := f(''reclaim.pool'' := map int xs)\<rparr>) = xs"
  by (simp add: pool_of_def comp_def)

lemma set_pool_eq:
  "set_pool xs w = Some (w\<lparr>rest := (rest w)\<lparr>int_array := (int_array (rest w))(''reclaim.pool'' := map int xs)\<rparr>\<rparr>)"
  by (simp add: set_pool_def set_ints_def assign_def perform_def)

lemma fold_box_free: "mset (fold box_free xs pool) = mset xs + mset pool"
  by (induction xs arbitrary: pool) (simp_all add: box_free_def)

lemma pool_of_lib [simp]: "pool_of (snd (lib f p)) = pool_of p"
  by (simp add: pool_of_def)

text \<open>The statement returns and keeps the balance.\<close>

definition keeps_balance ::
  "('m \<Rightarrow> nat multiset) \<Rightarrow> ('m \<Rightarrow> nat multiset) \<Rightarrow> nat multiset \<Rightarrow> 'm cstmt \<Rightarrow> bool" where
  "keeps_balance live pending base s \<longleftrightarrow>
     (\<forall>w. balanced live pending base w \<longrightarrow> (\<exists>w'. s w = Some w' \<and> balanced live pending base w'))"

lemma balance_Cons:
  "keeps_balance live pending base s \<Longrightarrow> keeps_balance live pending base (block ss) \<Longrightarrow>
     keeps_balance live pending base (block (s # ss))"
  unfolding keeps_balance_def by fastforce

lemma balance_Nil: "keeps_balance live pending base (block [])"
  by (simp add: keeps_balance_def)

lemma balance_timer:
  assumes "host_ok h"
  shows "keeps_balance live pending base (pausing h)" "keeps_balance live pending base (resuming h)"
  using timer_stmt [OF assms] unfolding keeps_balance_def balanced_def pool_of_def by metis+

lemma balance_start:
  "reclaims L live pending \<Longrightarrow> keeps_balance live pending base (does_call (main_start L))"
  by (simp add: keeps_balance_def balanced_def calling_def split_beta reclaimsD(2,3))

lemma freeing_effect:
  "\<exists>w'. freeing f w = Some w' \<and> machine (rest w') = snd (snd (f (machine (rest w))))
     \<and> mset (pool_of (rest w')) = mset (fst (f (machine (rest w)))) + mset (pool_of (rest w))"
  by (simp add: freeing_def calling_def reading_def split_beta Let_def set_pool_eq fold_box_free)

lemma balance_stop:
  assumes "reclaims L live pending"
  shows "keeps_balance live pending base (freeing (main_stop L))"
  unfolding keeps_balance_def balanced_def
proof (intro allI impI)
  fix w :: "'a process world"
  let ?m = "machine (rest w)"
  assume "live ?m = base + mset (pool_of (rest w)) + pending ?m"
  then show "\<exists>w'. freeing (main_stop L) w = Some w'
      \<and> live (machine (rest w')) = base + mset (pool_of (rest w')) + pending (machine (rest w'))"
    using freeing_effect [of "main_stop L" w] reclaimsD(4,5) [OF assms, of ?m]
    by (auto simp: ac_simps)
qed

lemma balance_round:
  assumes L: "reclaims L live pending" and bal: "balanced live pending base w"
  shows "\<exists>g w'. retire_round L w = Some (g, w') \<and> balanced live pending base w'"
proof -
  let ?r = "call (lib (box_get L (pool_of (rest w)))) w"
  obtain x pool where x: "fst ?r = (x, pool)" by (cases "fst ?r")
  let ?w1 = "snd ?r" and ?m = "machine (rest w)"
  let ?m1 = "machine (rest ?w1)"
  have got: "live ?m1 = base + mset pool + pending ?m1 + (if x = 0 then {#} else {#x#})"
  proof (cases "pool_of (rest w)")
    case Nil
    then have "x = fst (new_box L ?m)" "pool = []" "?m1 = snd (snd (new_box L ?m))"
      using x by (simp_all add: box_get_def split_beta Let_def)
    then show ?thesis
      using bal reclaimsD(11,12) [OF L, of ?m] by (simp add: balanced_def Nil)
  next
    case (Cons y ys)
    then have "x = y" "pool = ys" "?m1 = ?m" using x by (simp_all add: box_get_def)
    moreover have "y \<in># live ?m" using bal by (simp add: balanced_def Cons)
    then have "y \<noteq> 0" using reclaimsD(1) [OF L, of ?m] by metis
    ultimately show ?thesis using bal by (simp add: balanced_def Cons)
  qed
  let ?w2 = "?w1\<lparr>rest := (rest ?w1)\<lparr>int_array := (int_array (rest ?w1))(''reclaim.pool'' := map int pool)\<rparr>\<rparr>"
  have step: "retire_round L w = (if x = 0 then Some (False, ?w2)
      else do { w \<leftarrow> freeing (retire L x) ?w2; Some (True, w) })"
    using x by (simp add: retire_round_def split_beta Let_def set_pool_eq)
  show ?thesis
  proof (cases "x = 0")
    case True
    with step got show ?thesis by (auto simp: balanced_def)
  next
    case False
    obtain w3 where w3: "freeing (retire L x) ?w2 = Some w3"
      "machine (rest w3) = snd (snd (retire L x ?m1))"
      "mset (pool_of (rest w3)) = mset (fst (retire L x ?m1)) + mset pool"
      using freeing_effect [of "retire L x" ?w2] by auto
    have "balanced live pending base w3"
      using got False reclaimsD(6,7) [OF L, of x ?m1] by (simp add: balanced_def w3(2,3) ac_simps)
    with step False w3(1) show ?thesis by auto
  qed
qed

lemma balance_body:
  assumes "reclaims L live pending" and "host_ok h"
  shows "keeps_balance live pending base (retire_body h L)"
proof -
  have "keeps_balance live pending base (bench_loop_break (\<lambda>i. retire_round L))"
    unfolding keeps_balance_def bench_loop_break_def
    by (intro allI impI for_break_total balance_round [OF assms(1)])
  then show ?thesis
    unfolding retire_body_def by (intro balance_Cons balance_timer [OF assms(2)] balance_Nil)
qed

text \<open>The drain and the final loop give everything back.\<close>

lemma free_pool_frees:
  assumes "reclaims L live pending" and "live (machine (rest w)) = base + mset xs"
  shows "\<exists>w'. free_pool L xs w = Some w' \<and> live (machine (rest w')) = base
    \<and> pending (machine (rest w')) = pending (machine (rest w)) \<and> pool_of (rest w') = []"
  using assms(2)
proof (induction xs arbitrary: w)
  case Nil
  then show ?case by (simp add: set_pool_eq pool_of_set [where xs = "[]", simplified])
next
  case (Cons x xs)
  let ?w1 = "w\<lparr>rest := (rest w)\<lparr>int_array := (int_array (rest w))(''reclaim.pool'' := map int xs)\<rparr>\<rparr>"
  let ?w2 = "snd (call (lib (free_box L x)) ?w1)"
  have "x \<in># live (machine (rest w))" using Cons.prems by simp
  from reclaimsD(14) [OF assms(1) this] Cons.prems
  have "live (machine (rest ?w2)) = base + mset xs" by simp
  from Cons.IH [OF this] show ?case
    by (simp add: set_pool_eq calling_def split_beta reclaimsD(13) [OF assms(1)])
qed

lemma drain_then_free:
  assumes "reclaims L live pending" and "balanced live pending base w"
  shows "\<exists>w'. block [freeing (reclaim_drain L), reading pool_of (free_pool L)] w = Some w'
    \<and> live (machine (rest w')) = base \<and> pending (machine (rest w')) = {#} \<and> pool_of (rest w') = []"
proof -
  obtain w1 where w1: "freeing (reclaim_drain L) w = Some w1"
    "machine (rest w1) = snd (snd (reclaim_drain L (machine (rest w))))"
    "mset (pool_of (rest w1)) = mset (fst (reclaim_drain L (machine (rest w)))) + mset (pool_of (rest w))"
    using freeing_effect [of "reclaim_drain L" w] by blast
  have "live (machine (rest w1)) = base + mset (pool_of (rest w1))"
    using assms(2) reclaimsD(8,9) [OF assms(1)] by (simp add: w1 balanced_def ac_simps)
  from free_pool_frees [OF assms(1) this] w1 reclaimsD(10) [OF assms(1)]
  show ?thesis by (simp add: reading_def)
qed

text \<open>
  Safety: the retire benchmark neither leaks a box nor frees one twice. With a reclamation
  that gives every retired box back exactly once, the benchmark returns, whether or not the
  heap runs out and ends its loop early, and after it the heap has handed out exactly the
  boxes it had handed out before, nothing is pending, and the free list is empty.
\<close>
theorem retire_gives_back:
  assumes "reclaims L live pending" and "host_ok h"
    and "pool_of (rest w) = []" and "pending (machine (rest w)) = {#}"
  shows "\<exists>w'. bench_reclaim_retire h L w = Some w'
    \<and> live (machine (rest w')) = live (machine (rest w))
    \<and> pending (machine (rest w')) = {#} \<and> pool_of (rest w') = []"
proof -
  let ?base = "live (machine (rest w))"
  have "balanced live pending ?base w" using assms(3,4) by (simp add: balanced_def)
  moreover have "keeps_balance live pending ?base (block [pausing h, does_call (main_start L),
      retire_body h L, freeing (main_stop L)])"
    by (intro balance_Cons balance_timer balance_start balance_body balance_stop assms(1,2))
      (rule balance_Nil)
  ultimately obtain w1 where w1: "block [pausing h, does_call (main_start L), retire_body h L,
      freeing (main_stop L)] w = Some w1" "balanced live pending ?base w1"
    unfolding keeps_balance_def by blast
  from drain_then_free [OF assms(1) w1(2)] w1(1) show ?thesis
    by (auto simp: bench_reclaim_retire_def bind_eq_Some_conv)
qed

text \<open>A reclamation that gives a box back at the next retire, on a heap of numbered boxes.\<close>

definition lazy_reclaim :: "(nat \<times> nat list \<times> nat list) reclaim_lib" where
  "lazy_reclaim = \<lparr>main_start = (\<lambda>m. ((), 1, m)), main_stop = (\<lambda>m. ([], 1, m)),
     pin = (\<lambda>m. ((), 1, m)), unpin = (\<lambda>m. ((), 1, m)),
     retire = (\<lambda>x (k, l, p). (p, 5, (k, l, [x]))),
     reclaim_drain = (\<lambda>(k, l, p). (p, 5, (k, l, []))),
     new_box = (\<lambda>(k, l, p). (k + 1, 9, (k + 1, (k + 1) # l, p))),
     free_box = (\<lambda>x (k, l, p). ((), 4, (k, remove1 x l, p)))\<rparr>"

lemma lazy_reclaims:
  "reclaims lazy_reclaim (\<lambda>(k, l, p). mset (filter (\<lambda>x. 0 < x) l)) (\<lambda>(k, l, p). mset p)"
  by (auto simp: reclaims_def lazy_reclaim_def filter_remove1)

theorem retire_gives_back_witness:
  "\<exists>w'. bench_reclaim_retire (exact_host (\<lambda>x. 0) (\<lambda>x. 0)) lazy_reclaim
     \<lparr>bch = zero_bench\<lparr>b_n := 3\<rparr>, kept = [], rest = \<lparr>clock = 0, int_var = (\<lambda>x. 0), u64_var = (\<lambda>x. 0), dbl_var = (\<lambda>x. 0),
        int_array = (\<lambda>x. []), str_array = (\<lambda>x. []), machine = (0, [], [])\<rparr>\<rparr> = Some w'
   \<and> pool_of (rest w') = []"
  using retire_gives_back [OF lazy_reclaims exact_host_ok [of "\<lambda>x. 0" "\<lambda>x. 0"],
      of "\<lparr>bch = zero_bench\<lparr>b_n := 3\<rparr>, kept = [], rest = \<lparr>clock = 0, int_var = (\<lambda>x. 0),
        u64_var = (\<lambda>x. 0), dbl_var = (\<lambda>x. 0), int_array = (\<lambda>x. []), str_array = (\<lambda>x. []), machine = (0, [], [])\<rparr>\<rparr>"]
  by (auto simp: pool_of_def)

end
