(* ===== verification/Num_Bench.thy ===== *)
theory Num_Bench
  imports Process Statistics
begin

unbundle bit_operations_syntax

text \<open>
  \<open>bench/num_bench.c\<close>: burrow's wrapping arithmetic against the plain operators of C. The
  plain operators are the checked operations: where C leaves the result undefined the model
  does not return.
\<close>

section \<open>What the file takes from burrow\<close>

record 'm num_lib =
  int_add :: "int \<Rightarrow> int \<Rightarrow> (int, 'm) op"
  int_mul :: "int \<Rightarrow> int \<Rightarrow> (int, 'm) op"
  int_div :: "int \<Rightarrow> int \<Rightarrow> (int, 'm) op"
  int_mod :: "int \<Rightarrow> int \<Rightarrow> (int, 'm) op"
  int_shl :: "int \<Rightarrow> int \<Rightarrow> (int, 'm) op"
  int_shr :: "int \<Rightarrow> int \<Rightarrow> (int, 'm) op"
  int_from_float64 :: "rat \<Rightarrow> (int, 'm) op"

text \<open>\<open>hidden_int\<close> reads the value back through \<open>bench_hide\<close>.\<close>

definition hidden_int :: "int \<Rightarrow> int" where
  "hidden_int v = bench_hide v"

definition hidden_double :: "rat \<Rightarrow> rat" where
  "hidden_double v = bench_hide v"

text \<open>\<open>(Int)x\<close> for a double: truncation, undefined outside the range.\<close>

definition int_of_double :: "rat \<Rightarrow> int option" where
  "int_of_double x = check64 (if 0 \<le> x then \<lfloor>x\<rfloor> else \<lceil>x\<rceil>)"

section \<open>The bodies\<close>

definition keeping :: "int \<Rightarrow> 'm cstmt" where
  "keeping r = keep_u64 (of_int r)"

definition bench_num_add :: "'m num_lib \<Rightarrow> 'm cstmt" where
  "bench_num_add L = (let a = hidden_int 1234567 in bench_loop (\<lambda>i. calling (int_add L a i) keeping))"

definition bench_num_add_raw :: "'m cstmt" where
  "bench_num_add_raw = (let a = hidden_int 1234567 in bench_loop (\<lambda>i. checked (add64 a i) keeping))"

definition bench_num_mul :: "'m num_lib \<Rightarrow> 'm cstmt" where
  "bench_num_mul L = (let a = hidden_int 2654435761 in bench_loop (\<lambda>i. calling (int_mul L a i) keeping))"

definition bench_num_mul_raw :: "'m cstmt" where
  "bench_num_mul_raw = (let a = hidden_int 2654435761 in bench_loop (\<lambda>i. checked (mul64 a i) keeping))"

text \<open>\<open>BURROW_ADD\<close> picks \<open>int_add\<close> for an \<open>Int\<close>.\<close>

definition bench_num_add_generic :: "'m num_lib \<Rightarrow> 'm cstmt" where
  "bench_num_add_generic L =
     (let a = hidden_int 1234567 in bench_loop (\<lambda>i. calling (int_add L a i) keeping))"

definition bench_num_div :: "'m num_lib \<Rightarrow> 'm cstmt" where
  "bench_num_div L = (let d = hidden_int 7 in bench_loop (\<lambda>i. calling (int_div L i d) keeping))"

definition bench_num_div_raw :: "'m cstmt" where
  "bench_num_div_raw = (let d = hidden_int 7 in bench_loop (\<lambda>i. checked (div64 i d) keeping))"

definition bench_num_mod :: "'m num_lib \<Rightarrow> 'm cstmt" where
  "bench_num_mod L = (let d = hidden_int 7 in bench_loop (\<lambda>i. calling (int_mod L i d) keeping))"

definition bench_num_mod_raw :: "'m cstmt" where
  "bench_num_mod_raw = (let d = hidden_int 7 in bench_loop (\<lambda>i. checked (mod64 i d) keeping))"

definition bench_num_shl :: "'m num_lib \<Rightarrow> 'm cstmt" where
  "bench_num_shl L = (let x = hidden_int 1 in
     bench_loop (\<lambda>i. calling (int_shl L x (i AND 127)) keeping))"

definition bench_num_shl_raw :: "'m cstmt" where
  "bench_num_shl_raw = (let x = hidden_int 1 in
     bench_loop (\<lambda>i. checked (shl64 x (i AND 63)) keeping))"

definition bench_num_shr :: "'m num_lib \<Rightarrow> 'm cstmt" where
  "bench_num_shr L = (let x = hidden_int (- 123456789) in
     bench_loop (\<lambda>i. calling (int_shr L x (i AND 127)) keeping))"

text \<open>\<open>rnd\<close> is the rounding of the double operations.\<close>

definition bench_num_from_float64 :: "(rat \<Rightarrow> rat) \<Rightarrow> 'm num_lib \<Rightarrow> 'm cstmt" where
  "bench_num_from_float64 rnd L = (let f = hidden_double (2469 / 2) in
     bench_loop (\<lambda>i. calling (int_from_float64 L (rnd (f + rnd (of_int i)))) keeping))"

definition bench_num_from_float64_raw :: "(rat \<Rightarrow> rat) \<Rightarrow> 'm cstmt" where
  "bench_num_from_float64_raw rnd = (let f = hidden_double (2469 / 2) in
     bench_loop (\<lambda>i. checked (int_of_double (rnd (f + rnd (of_int i)))) keeping))"

definition HASH_BYTES :: nat where "HASH_BYTES = 64"

definition hash_buf :: "int list" where
  "hash_buf = map (\<lambda>i. (int i * 7 + 1) mod 256) [0..<HASH_BYTES]"

fun hash_loop :: "'m num_lib \<Rightarrow> int \<Rightarrow> int list \<Rightarrow> int \<Rightarrow> (int \<Rightarrow> 'm cstmt) \<Rightarrow> 'm cstmt" where
  "hash_loop L prime [] h k = k h"
| "hash_loop L prime (x # xs) h k =
     calling (int_mul L h prime) (\<lambda>h. hash_loop L prime xs (h XOR x) k)"

definition bench_num_hash_round :: "'m num_lib \<Rightarrow> 'm cstmt" where
  "bench_num_hash_round L = (let prime = hidden_int 1099511628211 in
     bench_loop (\<lambda>i. hash_loop L prime hash_buf (wrap64 14695981039346656037) keeping))"

definition SUM_LEN :: nat where "SUM_LEN = 256"

definition sum_xs :: "int list" where
  "sum_xs = map (\<lambda>i. int i * 3) [0..<SUM_LEN]"

fun sum_loop :: "'m num_lib \<Rightarrow> int list \<Rightarrow> int \<Rightarrow> (int \<Rightarrow> 'm cstmt) \<Rightarrow> 'm cstmt" where
  "sum_loop L [] acc k = k acc"
| "sum_loop L (x # xs) acc k = calling (int_add L acc x) (\<lambda>acc. sum_loop L xs acc k)"

fun sum_raw_loop :: "int list \<Rightarrow> int \<Rightarrow> (int \<Rightarrow> 'm cstmt) \<Rightarrow> 'm cstmt" where
  "sum_raw_loop [] acc k = k acc"
| "sum_raw_loop (x # xs) acc k = checked (add64 acc x) (\<lambda>acc. sum_raw_loop xs acc k)"

definition bench_num_sum :: "'m num_lib \<Rightarrow> 'm cstmt" where
  "bench_num_sum L = bench_loop (\<lambda>i. sum_loop L sum_xs 0 keeping)"

definition bench_num_sum_raw :: "'m cstmt" where
  "bench_num_sum_raw = bench_loop (\<lambda>i. sum_raw_loop sum_xs 0 keeping)"

definition num_table :: "(rat \<Rightarrow> rat) \<Rightarrow> 'm num_lib \<Rightarrow> (string \<times> 'm cstmt) list" where
  "num_table rnd L = [
     (''num_add'', bench_num_add L),
     (''num_add_raw'', bench_num_add_raw),
     (''num_add_generic'', bench_num_add_generic L),
     (''num_mul'', bench_num_mul L),
     (''num_mul_raw'', bench_num_mul_raw),
     (''num_div'', bench_num_div L),
     (''num_div_raw'', bench_num_div_raw),
     (''num_mod'', bench_num_mod L),
     (''num_mod_raw'', bench_num_mod_raw),
     (''num_shl'', bench_num_shl L),
     (''num_shl_raw'', bench_num_shl_raw),
     (''num_shr'', bench_num_shr L),
     (''num_from_float64'', bench_num_from_float64 rnd L),
     (''num_from_float64_raw'', bench_num_from_float64_raw rnd),
     (''num_hash_round'', bench_num_hash_round L),
     (''num_sum'', bench_num_sum L),
     (''num_sum_raw'', bench_num_sum_raw)]"

section \<open>The contract\<close>

lemma num_loop_moves [contract_rules]:
  "does (advances clock) (keeping r)"
  "(\<And>r. does (advances clock) (k r)) \<Longrightarrow> does (advances clock) (hash_loop L p xs h k)"
  "(\<And>r. does (advances clock) (k r)) \<Longrightarrow> does (advances clock) (sum_loop L xs acc k)"
  "(\<And>r. does (advances clock) (k r)) \<Longrightarrow> does (advances clock) (sum_raw_loop xs acc k)"
proof -
  show "does (advances clock) (keeping r)" by (simp add: keeping_def contract_rules)
  assume k: "\<And>r. does (advances clock) (k r)"
  show "does (advances clock) (hash_loop L p xs h k)"
    by (induction xs arbitrary: h) (simp_all add: k contract_rules)
  show "does (advances clock) (sum_loop L xs acc k)"
    by (induction xs arbitrary: acc) (simp_all add: k contract_rules)
  show "does (advances clock) (sum_raw_loop xs acc k)"
    by (induction xs arbitrary: acc) (simp_all add: k contract_rules)
qed

lemmas num_bodies = bench_num_add_def bench_num_add_raw_def bench_num_add_generic_def
  bench_num_mul_def bench_num_mul_raw_def bench_num_div_def bench_num_div_raw_def bench_num_mod_def
  bench_num_mod_raw_def bench_num_shl_def bench_num_shl_raw_def bench_num_shr_def
  bench_num_from_float64_def bench_num_from_float64_raw_def bench_num_hash_round_def
  bench_num_sum_def bench_num_sum_raw_def

lemma num_table_moves: "(nm, f) \<in> set (num_table rnd L) \<Longrightarrow> does (advances clock) f"
  by (auto simp: num_table_def num_bodies Let_def intro!: contract_rules)

section \<open>What the rows compute\<close>

text \<open>What burrow documents: Go's arithmetic, which wraps and truncates its divisions.\<close>

definition go_arithmetic :: "'m num_lib \<Rightarrow> bool" where
  "go_arithmetic L \<longleftrightarrow>
     (\<forall>a b m. fst (int_add L a b m) = wrap64 (a + b))
   \<and> (\<forall>a b m. fst (int_mul L a b m) = wrap64 (a * b))
   \<and> (\<forall>a b m. b \<noteq> 0 \<longrightarrow> fst (int_div L a b m) = wrap64 (sgn a * sgn b * (\<bar>a\<bar> div \<bar>b\<bar>)))
   \<and> (\<forall>a b m. b \<noteq> 0 \<longrightarrow> fst (int_mod L a b m) = sgn a * (\<bar>a\<bar> mod \<bar>b\<bar>))"

lemma wrap64_0 [simp]: "wrap64 0 = 0"
  by (simp add: wrap64_def)

lemma go_arithmeticD:
  assumes "go_arithmetic L"
  shows "fst (int_add L a b m) = wrap64 (a + b)" "fst (int_mul L a b m) = wrap64 (a * b)"
    "b \<noteq> 0 \<Longrightarrow> fst (int_div L a b m) = wrap64 (sgn a * sgn b * (\<bar>a\<bar> div \<bar>b\<bar>))"
    "b \<noteq> 0 \<Longrightarrow> fst (int_mod L a b m) = sgn a * (\<bar>a\<bar> mod \<bar>b\<bar>)"
  using assms by (simp_all add: go_arithmetic_def)

text \<open>A loop whose rounds hand over \<open>g i\<close>, whatever else they do.\<close>

lemma loop_hands:
  fixes w :: "'l world"
  assumes "\<And>j v. j < nat (b_n (bch w)) \<Longrightarrow>
      \<exists>v'. body (int j) v = Some v' \<and> kept v' = kept v @ [KeptU64 (g j)]"
  shows "\<exists>w'. bench_loop body w = Some w'
    \<and> kept w' = kept w @ map (\<lambda>j. KeptU64 (g j)) [0..<nat (b_n (bch w))]"
  using loop_kept [where I = "\<lambda>j v. True" and g = "\<lambda>j. [KeptU64 (g j)]" and w = w and body = body] assms
  by auto

lemma calling_keeping:
  "(\<And>m. fst (f m) = r) \<Longrightarrow> \<exists>v'. calling f keeping v = Some v'
    \<and> kept v' = kept v @ [KeptU64 (of_int r)]"
  by (simp add: calling_def keeping_def keep_u64_def split_beta)

lemma checked_keeping:
  "e = Some r \<Longrightarrow> \<exists>v'. checked e keeping v = Some v' \<and> kept v' = kept v @ [KeptU64 (of_int r)]"
  by (simp add: checked_def keeping_def keep_u64_def)

lemma small_quotient: "in_int64 (int j) \<Longrightarrow> div64 (int j) 7 = Some (int j div 7)"
  by (simp add: div64_nonneg)

lemma small_remainder: "mod64 (int j) 7 = Some (int j mod 7)"
proof -
  have "0 \<le> int j mod 7" "int j mod 7 < 7" by simp_all
  then have "in_int64 (int j mod 7)" unfolding in_int64_def int64_max_def by linarith
  then show ?thesis by (cases "j = 0") (simp_all add: mod64_def check64_def)
qed

text \<open>
  Equivalence: the pairs of rows compute the same numbers. For every count the harness can
  pick, the plain sum, product, quotient and remainder are defined in every iteration, and the
  wrapping row of the pair hands the sink exactly the values of the plain one, so the
  comparison of their times compares two ways to one result.
\<close>
theorem num_pairs_agree:
  assumes "go_arithmetic L" and "b_n (bch w) \<le> N_MAX"
  shows "(\<exists>u v. bench_num_add L w = Some u \<and> bench_num_add_raw w = Some v \<and> kept u = kept v)
    \<and> (\<exists>u v. bench_num_mul L w = Some u \<and> bench_num_mul_raw w = Some v \<and> kept u = kept v)
    \<and> (\<exists>u v. bench_num_div L w = Some u \<and> bench_num_div_raw w = Some v \<and> kept u = kept v)
    \<and> (\<exists>u v. bench_num_mod L w = Some u \<and> bench_num_mod_raw w = Some v \<and> kept u = kept v)"
proof -
  note go = go_arithmeticD [OF assms(1)]
  have small: "int j < 1000000000" if "j < nat (b_n (bch w))" for j
    using that assms(2) by (simp add: N_MAX_def)
  have add: "in_int64 (1234567 + int j)" and mul: "in_int64 (2654435761 * int j)"
    and div: "div64 (int j) 7 = Some (int j div 7)" "wrap64 (int j div 7) = int j div 7"
    and mod: "mod64 (int j) 7 = Some (int j mod 7)" "int j mod 7 = 0 \<or> 0 < j" if "j < nat (b_n (bch w))" for j
  proof -
    show "in_int64 (1234567 + int j)" "in_int64 (2654435761 * int j)"
      using small [OF that] by (simp_all add: in_int64_def int64_max_def)
    have q: "in_int64 (int j)" "0 \<le> int j div 7" "int j div 7 \<le> int j"
      using small [OF that] by (simp_all add: in_int64_def int64_max_def)
    show "div64 (int j) 7 = Some (int j div 7)" by (rule small_quotient [OF q(1)])
    have "in_int64 (int j div 7)" using q by (auto simp: in_int64_def)
    then show "wrap64 (int j div 7) = int j div 7" by (rule wrap64_id)
    show "mod64 (int j) 7 = Some (int j mod 7)" by (rule small_remainder)
    show "int j mod 7 = 0 \<or> 0 < j" by (cases "j = 0") simp_all
  qed
  have pair: "\<exists>u v. bench_loop f w = Some u \<and> bench_loop g w = Some v \<and> kept u = kept v"
    if "\<And>j v. j < nat (b_n (bch w)) \<Longrightarrow>
        \<exists>v'. f (int j) v = Some v' \<and> kept v' = kept v @ [KeptU64 (of_int (r j))]"
      and "\<And>j v. j < nat (b_n (bch w)) \<Longrightarrow>
        \<exists>v'. g (int j) v = Some v' \<and> kept v' = kept v @ [KeptU64 (of_int (r j))]" for f g r
    using loop_hands [where w = w and body = f and g = "\<lambda>j. of_int (r j)"]
      loop_hands [where w = w and body = g and g = "\<lambda>j. of_int (r j)"] that by metis
  have "\<exists>u v. bench_num_add L w = Some u \<and> bench_num_add_raw w = Some v \<and> kept u = kept v"
    unfolding bench_num_add_def bench_num_add_raw_def hidden_int_def bench_hide_def Let_def
  proof (rule pair [where r = "\<lambda>j. 1234567 + int j"])
    fix j and v :: "'a process world" assume j: "j < nat (b_n (bch w))"
    show "\<exists>v'. calling (int_add L 1234567 (int j)) keeping v = Some v' \<and> kept v' = kept v @ [KeptU64 (of_int (1234567 + int j))]"
      by (rule calling_keeping) (simp add: go add [OF j] del: of_int_add of_int_mult)
    show "\<exists>v'. checked (add64 1234567 (int j)) keeping v = Some v' \<and> kept v' = kept v @ [KeptU64 (of_int (1234567 + int j))]"
      by (rule checked_keeping) (simp add: add [OF j])
  qed
  moreover have "\<exists>u v. bench_num_mul L w = Some u \<and> bench_num_mul_raw w = Some v \<and> kept u = kept v"
    unfolding bench_num_mul_def bench_num_mul_raw_def hidden_int_def bench_hide_def Let_def
  proof (rule pair [where r = "\<lambda>j. 2654435761 * int j"])
    fix j and v :: "'a process world" assume j: "j < nat (b_n (bch w))"
    show "\<exists>v'. calling (int_mul L 2654435761 (int j)) keeping v = Some v' \<and> kept v' = kept v @ [KeptU64 (of_int (2654435761 * int j))]"
      by (rule calling_keeping) (simp add: go mul [OF j] del: of_int_add of_int_mult)
    show "\<exists>v'. checked (mul64 2654435761 (int j)) keeping v = Some v' \<and> kept v' = kept v @ [KeptU64 (of_int (2654435761 * int j))]"
      by (rule checked_keeping) (simp add: mul [OF j])
  qed
  moreover have "\<exists>u v. bench_num_div L w = Some u \<and> bench_num_div_raw w = Some v \<and> kept u = kept v"
    unfolding bench_num_div_def bench_num_div_raw_def hidden_int_def bench_hide_def Let_def
  proof (rule pair [where r = "\<lambda>j. int j div 7"])
    fix j and v :: "'a process world" assume j: "j < nat (b_n (bch w))"
    show "\<exists>v'. calling (int_div L (int j) 7) keeping v = Some v' \<and> kept v' = kept v @ [KeptU64 (of_int (int j div 7))]"
      by (rule calling_keeping) (simp add: go div [OF j] del: of_int_add of_int_mult)
    show "\<exists>v'. checked (div64 (int j) 7) keeping v = Some v' \<and> kept v' = kept v @ [KeptU64 (of_int (int j div 7))]"
      by (rule checked_keeping) (simp add: div [OF j])
  qed
  moreover have "\<exists>u v. bench_num_mod L w = Some u \<and> bench_num_mod_raw w = Some v \<and> kept u = kept v"
    unfolding bench_num_mod_def bench_num_mod_raw_def hidden_int_def bench_hide_def Let_def
  proof (rule pair [where r = "\<lambda>j. int j mod 7"])
    fix j and v :: "'a process world" assume j: "j < nat (b_n (bch w))"
    show "\<exists>v'. calling (int_mod L (int j) 7) keeping v = Some v' \<and> kept v' = kept v @ [KeptU64 (of_int (int j mod 7))]"
      by (rule calling_keeping) (simp add: go mod [OF j] del: of_int_add of_int_mult)
    show "\<exists>v'. checked (mod64 (int j) 7) keeping v = Some v' \<and> kept v' = kept v @ [KeptU64 (of_int (int j mod 7))]"
      by (rule checked_keeping) (simp add: mod [OF j])
  qed
  ultimately show ?thesis by blast
qed

definition ref_num_lib :: "unit num_lib" where
  "ref_num_lib = \<lparr>int_add = (\<lambda>a b m. (wrap64 (a + b), 1, m)), int_mul = (\<lambda>a b m. (wrap64 (a * b), 1, m)),
     int_div = (\<lambda>a b m. (if b = 0 then 0 else wrap64 (sgn a * sgn b * (\<bar>a\<bar> div \<bar>b\<bar>)), 1, m)),
     int_mod = (\<lambda>a b m. (if b = 0 then 0 else sgn a * (\<bar>a\<bar> mod \<bar>b\<bar>), 1, m)),
     int_shl = (\<lambda>x s m. (wrap64 (x * 2 ^ nat s), 1, m)), int_shr = (\<lambda>x s m. (x div 2 ^ nat s, 1, m)),
     int_from_float64 = (\<lambda>x m. (\<lfloor>x\<rfloor>, 1, m))\<rparr>"

lemma ref_num_lib_go: "go_arithmetic ref_num_lib"
  by (simp add: go_arithmetic_def ref_num_lib_def)

definition num_world :: "int \<Rightarrow> unit process world" where
  "num_world n = \<lparr>bch = zero_bench\<lparr>b_n := n\<rparr>, kept = [], rest = \<lparr>clock = 0, int_var = (\<lambda>x. 0),
     u64_var = (\<lambda>x. 0), dbl_var = (\<lambda>x. 0), int_array = (\<lambda>x. []), str_array = (\<lambda>x. []), machine = ()\<rparr>\<rparr>"

theorem num_pairs_agree_witness:
  "\<exists>u v. bench_num_div ref_num_lib (num_world 20) = Some u \<and> bench_num_div_raw (num_world 20) = Some v
     \<and> kept u = kept v"
  using num_pairs_agree [OF ref_num_lib_go, of "num_world 20"] by (simp add: num_world_def N_MAX_def)

lemma shl_small: "j < 63 \<Longrightarrow> shl64 1 (int j AND 63) = Some (2 ^ j)"
proof -
  assume j: "j < 63"
  have "int j AND 63 = int j mod 64"
    using take_bit_eq_mask [of 6 "int j"] take_bit_eq_mod [of 6 "int j"]
    by (simp add: mask_eq_exp_minus_1)
  then have a: "int j AND 63 = int j" using j by simp
  have "(2::int) ^ j \<le> 2 ^ 62" using j by (intro power_increasing) simp_all
  then have "in_int64 (2 ^ j)" by (simp add: in_int64_nonneg int64_max_def)
  with j show ?thesis by (simp add: a shl64_def check64_def)
qed

lemma shl_63: "shl64 1 (63 AND 63) = None"
  by (simp add: shl64_def in_int64_def int64_max_def)

text \<open>
  Error: the plain shift row is undefined for every count above 63. Round 63 shifts 1 into
  the sign bit of \<open>Int\<close>, which C11 leaves undefined, so the row returns exactly for the
  counts up to 63; \<open>pick_n\<close> goes past them.
\<close>
theorem num_shl_raw_defined:
  "(\<exists>w'. bench_num_shl_raw w = Some w') \<longleftrightarrow> b_n (bch w) \<le> 63"
proof -
  let ?body = "\<lambda>i. checked (shl64 1 (i AND 63)) keeping :: 'a cstmt"
  have eq: "bench_num_shl_raw w = bench_loop ?body w"
    by (simp add: bench_num_shl_raw_def hidden_int_def bench_hide_def Let_def)
  have run: "\<exists>w'. for_loop k 0 ?body w = Some w' \<and> True" if "k \<le> 63" for k
    by (rule for_loop_total [where I = "\<lambda>j v. True"])
      (use that in \<open>simp_all add: shl_small checked_def keeping_def keep_u64_def\<close>)
  show ?thesis
  proof
    assume "b_n (bch w) \<le> 63"
    then show "\<exists>w'. bench_num_shl_raw w = Some w'"
      using run [of "nat (b_n (bch w))"] by (simp add: eq bench_loop_def)
  next
    assume some: "\<exists>w'. bench_num_shl_raw w = Some w'"
    show "b_n (bch w) \<le> 63"
    proof (rule ccontr)
      define K :: nat where "K = 63"
      assume "\<not> b_n (bch w) \<le> 63"
      then have "K < nat (b_n (bch w))" by (simp add: K_def)
      then obtain r where r: "nat (b_n (bch w)) = K + Suc r" by (auto dest: less_imp_Suc_add)
      obtain v where v: "for_loop K 0 ?body w = Some v" using run [of K] by (auto simp: K_def)
      have "for_loop (Suc r) (int K) ?body v = None"
        by (simp add: K_def checked_def shl_63 [simplified])
      with v have "bench_loop ?body w = None"
        using for_loop_add [of K "Suc r" 0 ?body w]
        by (simp add: bench_loop_def r del: for_loop.simps add_Suc_right)
      with some show False unfolding eq by simp
    qed
  qed
qed

section \<open>The hash round and the sums\<close>

text \<open>The rounds of the hash in the unsigned arithmetic the real hashes use.\<close>

definition fnv_round :: "u64 \<Rightarrow> u64 \<Rightarrow> u64" where
  "fnv_round x h = (h * 1099511628211) XOR x"

lemma word_xor: "(of_int (a XOR b) :: u64) = of_int a XOR of_int b"
  by (transfer, simp)

lemma hash_loop_fnv:
  assumes "go_arithmetic L"
  shows "\<exists>v'. hash_loop L 1099511628211 xs h keeping v = Some v'
    \<and> kept v' = kept v @ [KeptU64 (fold fnv_round (map of_int xs) (of_int h))]"
proof (induction xs arbitrary: h v)
  case Nil
  then show ?case by (simp add: keeping_def keep_u64_def)
next
  case (Cons x xs)
  let ?h = "wrap64 (h * 1099511628211) XOR x"
  have "(of_int ?h :: u64) = fnv_round (of_int x) (of_int h)"
    by (simp add: word_xor fnv_round_def)
  with Cons [of ?h "snd (call (lib (int_mul L h 1099511628211)) v)"] show ?case
    by (simp add: calling_def split_beta go_arithmeticD(2) [OF assms])
qed

text \<open>
  Functional: the hash row, written with the signed wrapping product on purpose, computes the
  unsigned hash: each iteration hands over the fold of multiply-and-xor modulo \<open>2 ^ 64\<close> over
  the 64 bytes of the buffer from the offset basis, the same value in every iteration.
\<close>
theorem num_hash_round_is_fnv:
  assumes "go_arithmetic L"
  shows "\<exists>w'. bench_num_hash_round L w = Some w'
    \<and> kept w' = kept w @ replicate (nat (b_n (bch w)))
        (KeptU64 (fold fnv_round (map of_int hash_buf) 14695981039346656037))"
proof -
  let ?g = "fold fnv_round (map of_int hash_buf) (of_int (wrap64 14695981039346656037))"
  have "\<exists>w'. bench_num_hash_round L w = Some w'
    \<and> kept w' = kept w @ map (\<lambda>j. KeptU64 ?g) [0..<nat (b_n (bch w))]"
    unfolding bench_num_hash_round_def hidden_int_def bench_hide_def Let_def
    by (rule loop_hands) (rule hash_loop_fnv [OF assms])
  then show ?thesis by (simp add: map_replicate_const)
qed

theorem num_hash_round_is_fnv_witness:
  "\<exists>w'. bench_num_hash_round ref_num_lib (num_world 1) = Some w'
    \<and> kept w' = [KeptU64 (fold fnv_round (map of_int hash_buf) 14695981039346656037)]"
  using num_hash_round_is_fnv [OF ref_num_lib_go, of "num_world 1"] by (simp add: num_world_def)

end
