(* ===== verification/Hash_Bench.thy ===== *)
theory Hash_Bench
  imports Printf Statistics
begin

unbundle bit_operations_syntax

text \<open>
  \<open>bench/hash_bench.c\<close>: the hash of ints, floats and strings of three lengths. The hash
  itself is burrow's; the keys, the check of their length and the cycling index are this file's.
\<close>

section \<open>The keys\<close>

definition KEYS :: nat where "KEYS = 256"
definition KEY_MASK :: int where "KEY_MASK = 255"
definition LONG_LEN :: nat where "LONG_LEN = 64"
definition HUGE_LEN :: nat where "HUGE_LEN = 1024"

record hash_keys =
  int_keys :: "int list"
  float_keys :: "rat list"
  short_keys :: "string list"
  long_keys :: "string list"
  huge_key :: string

definition int_key :: "nat \<Rightarrow> int" where
  "int_key i = int i * 7 + 1"

definition float_key :: "(rat \<Rightarrow> rat) \<Rightarrow> nat \<Rightarrow> rat" where
  "float_key rnd i = rnd (rnd (of_nat i * (3 / 2)) + 1 / 4)"

definition short_key :: "nat \<Rightarrow> string" where
  "short_key i = str_over (fst (snprintf 16 (''key'' @ zero_padded 8 i))) 11"

definition long_text :: "nat \<Rightarrow> string" where
  "long_text i = ''/some/reasonably/longer/path/that/a/real/program/would/use/'' @ zero_padded 5 i"

definition long_key :: "nat \<Rightarrow> string option" where
  "long_key i = (let (buf, k) = snprintf (LONG_LEN + 1) (long_text i) in
     if k \<noteq> LONG_LEN then None else Some (str_over buf LONG_LEN))"

definition huge_bytes :: string where
  "huge_bytes = map (\<lambda>j. char_of (97 + j mod 26)) [0..<HUGE_LEN]"

text \<open>
  \<open>build_keys\<close>, on its first call: \<open>None\<close> is the \<open>exit(1)\<close> on a long key of the wrong
  length or without memory for the huge key. \<open>heap_ok\<close> says that \<open>malloc\<close> gave it.
\<close>

fun build_long :: "nat list \<Rightarrow> string list option" where
  "build_long [] = Some []"
| "build_long (i # is) = do { k \<leftarrow> long_key i; ks \<leftarrow> build_long is; Some (k # ks) }"

definition build_keys :: "(rat \<Rightarrow> rat) \<Rightarrow> bool \<Rightarrow> hash_keys option" where
  "build_keys rnd heap_ok = do {
     longs \<leftarrow> build_long [0..<KEYS];
     if \<not> heap_ok then None
     else Some \<lparr>int_keys = map int_key [0..<KEYS], float_keys = map (float_key rnd) [0..<KEYS],
       short_keys = map short_key [0..<KEYS], long_keys = longs, huge_key = huge_bytes\<rparr> }"

section \<open>The bodies\<close>

text \<open>\<open>type_hash\<close> at the three types, with the fixed seed.\<close>

record 'm hash_lib =
  hash_of_int :: "int \<Rightarrow> u64 \<Rightarrow> (u64, 'm) op"
  hash_of_float :: "rat \<Rightarrow> u64 \<Rightarrow> (u64, 'm) op"
  hash_of_str :: "string \<Rightarrow> u64 \<Rightarrow> (u64, 'm) op"
  malloc_ok :: "nat \<Rightarrow> (bool, 'm) op"

definition SEED :: u64 where "SEED = 0x5eed5eed5eed5eed"

text \<open>
  A later call finds \<open>huge_bytes\<close> set and returns: the static keys are those of the first call.
\<close>

definition with_keys :: "(rat \<Rightarrow> rat) \<Rightarrow> 'm hash_lib \<Rightarrow> (hash_keys \<Rightarrow> 'm cstmt) \<Rightarrow> 'm cstmt" where
  "with_keys rnd L k = reading (\<lambda>p. int_var p ''huge_bytes'') (\<lambda>huge_set.
     if huge_set \<noteq> 0 then checked (build_keys rnd True) k
     else calling (malloc_ok L HUGE_LEN) (\<lambda>ok. checked (build_keys rnd ok) (\<lambda>ks.
       block [set_int ''huge_bytes'' 1, k ks])))"

text \<open>The loop over the keys: \<open>hash(keys[i]); i = (i + 1) & KEY_MASK\<close>.\<close>

definition hash_cycle :: "('k \<Rightarrow> (u64, 'm) op) \<Rightarrow> 'k list \<Rightarrow> 'm cstmt" where
  "hash_cycle hash keys = block [set_int ''i'' 0,
     bench_loop (\<lambda>_. reading (\<lambda>p. int_var p ''i'') (\<lambda>i. block [
       calling (hash (keys ! nat i)) keep_u64,
       set_int ''i'' ((i + 1) AND KEY_MASK)]))]"

definition bench_hash_int :: "(rat \<Rightarrow> rat) \<Rightarrow> 'm hash_lib \<Rightarrow> 'm cstmt" where
  "bench_hash_int rnd L = with_keys rnd L (\<lambda>ks. hash_cycle (\<lambda>k. hash_of_int L k SEED) (int_keys ks))"

definition bench_hash_float64 :: "(rat \<Rightarrow> rat) \<Rightarrow> 'm hash_lib \<Rightarrow> 'm cstmt" where
  "bench_hash_float64 rnd L = with_keys rnd L (\<lambda>ks. hash_cycle (\<lambda>k. hash_of_float L k SEED) (float_keys ks))"

definition bench_hash_str_short :: "(rat \<Rightarrow> rat) \<Rightarrow> 'm hash_lib \<Rightarrow> 'm cstmt" where
  "bench_hash_str_short rnd L = with_keys rnd L (\<lambda>ks. hash_cycle (\<lambda>k. hash_of_str L k SEED) (short_keys ks))"

definition bench_hash_str_long :: "(rat \<Rightarrow> rat) \<Rightarrow> 'm hash_lib \<Rightarrow> 'm cstmt" where
  "bench_hash_str_long rnd L = with_keys rnd L (\<lambda>ks. hash_cycle (\<lambda>k. hash_of_str L k SEED) (long_keys ks))"

definition bench_hash_str_huge :: "(rat \<Rightarrow> rat) \<Rightarrow> 'm hash_lib \<Rightarrow> 'm cstmt" where
  "bench_hash_str_huge rnd L = with_keys rnd L (\<lambda>ks.
     bench_loop (\<lambda>_. calling (hash_of_str L (huge_key ks) SEED) keep_u64))"

definition hash_table :: "(rat \<Rightarrow> rat) \<Rightarrow> 'm hash_lib \<Rightarrow> (string \<times> 'm cstmt) list" where
  "hash_table rnd L = [
     (''hash_int'', bench_hash_int rnd L),
     (''hash_float64'', bench_hash_float64 rnd L),
     (''hash_str_short'', bench_hash_str_short rnd L),
     (''hash_str_long'', bench_hash_str_long rnd L),
     (''hash_str_huge'', bench_hash_str_huge rnd L)]"

section \<open>The contract\<close>

lemma hash_cycle_moves [contract_rules]: "does (advances clock) (hash_cycle hash keys)"
  unfolding hash_cycle_def by (intro contract_rules)

lemma hash_table_moves: "(nm, f) \<in> set (hash_table rnd L) \<Longrightarrow> does (advances clock) f"
  by (auto simp: hash_table_def bench_hash_int_def bench_hash_float64_def bench_hash_str_short_def
      bench_hash_str_long_def bench_hash_str_huge_def with_keys_def intro!: contract_rules)

section \<open>What the keys are\<close>

lemma long_key_eq: "i < 100000 \<Longrightarrow> long_key i = Some (long_text i)"
  using zero_padded_length [of i 5] str_over_snprintf [of "long_text i" 65]
  by (simp add: long_key_def LONG_LEN_def split_beta snprintf_def long_text_def Let_def)

lemma build_long_eq: "\<forall>i \<in> set is. i < 100000 \<Longrightarrow> build_long is = Some (map long_text is)"
  by (induction "is") (simp_all add: long_key_eq)

lemma short_key_eq: "i < 100000000 \<Longrightarrow> short_key i = ''key'' @ zero_padded 8 i"
  using zero_padded_length [of i 8] str_over_snprintf [of "''key'' @ zero_padded 8 i" 16]
  by (simp add: short_key_def)

lemma build_keys_eq:
  "build_keys rnd ok = (if ok then Some \<lparr>int_keys = map int_key [0..<256],
     float_keys = map (float_key rnd) [0..<256], short_keys = map short_key [0..<256],
     long_keys = map long_text [0..<256], huge_key = huge_bytes\<rparr> else None)"
  by (simp add: build_keys_def KEYS_def build_long_eq)

text \<open>
  Functional: the keys have the lengths their \<open>Str\<close> values claim and are all different. With
  memory for the huge key, \<open>build_keys\<close> gets past its check: every long key is exactly 64
  bytes and every short key exactly 11, so no hash reads a byte that \<open>snprintf\<close> did not write,
  and within each kind the 256 keys are distinct.
\<close>
theorem build_keys_lengths:
  "\<exists>ks. build_keys rnd True = Some ks
     \<and> length (short_keys ks) = KEYS \<and> length (long_keys ks) = KEYS \<and> length (int_keys ks) = KEYS
     \<and> (\<forall>k \<in> set (short_keys ks). length k = 11) \<and> (\<forall>k \<in> set (long_keys ks). length k = LONG_LEN)
     \<and> length (huge_key ks) = HUGE_LEN
     \<and> distinct (int_keys ks) \<and> distinct (short_keys ks) \<and> distinct (long_keys ks)"
proof -
  have s: "map short_key [0..<256] = map (\<lambda>i. ''key'' @ zero_padded 8 i) [0..<256]"
    by (intro map_cong) (simp_all add: short_key_eq)
  show ?thesis
    by (auto simp: build_keys_eq s KEYS_def LONG_LEN_def huge_bytes_def long_text_def distinct_map
        inj_on_def int_key_def zero_padded_length)
qed

theorem build_keys_lengths_witness:
  "\<exists>ks. build_keys (\<lambda>x. x) True = Some ks \<and> (\<forall>k \<in> set (long_keys ks). length k = LONG_LEN)"
  using build_keys_lengths [of "\<lambda>x. x"] by blast

section \<open>What the loop hashes\<close>

lemma mask_255: "(i + 1) AND KEY_MASK = (i + 1) mod 256"
  using take_bit_eq_mask [of 8 "i + 1"] take_bit_eq_mod [of 8 "i + 1"]
  by (simp add: KEY_MASK_def mask_eq_exp_minus_1)

lemma next_index: "(int (j mod 256) + 1) mod 256 = int (Suc j mod 256)"
proof -
  have "int (Suc j mod 256) = (int j + 1) mod 256" by (simp add: zmod_int add.commute)
  then show ?thesis by (simp add: zmod_int mod_add_left_eq)
qed

lemma hash_cycle_hands:
  fixes hash :: "'k \<Rightarrow> (u64, 'm) op"
  assumes "\<And>k m. fst (hash k m) = f k"
  shows "\<exists>w'. hash_cycle hash keys w = Some w'
    \<and> kept w' = kept w @ map (\<lambda>j. KeptU64 (f (keys ! (j mod 256)))) [0..<nat (b_n (bch w))]"
proof -
  let ?w = "perform (\<lambda>p. p\<lparr>int_var := (int_var p)(''i'' := 0)\<rparr>) w"
  let ?body = "\<lambda>_ :: int. reading (\<lambda>p. int_var p ''i'') (\<lambda>i. block [
       calling (hash (keys ! nat i)) keep_u64, set_int ''i'' ((i + 1) AND KEY_MASK)]) :: 'm cstmt"
  let ?I = "\<lambda>j :: nat. \<lambda>v :: 'm process world. int_var (rest v) ''i'' = int (j mod 256)"
  have "\<exists>w'. bench_loop ?body ?w = Some w' \<and> ?I (nat (b_n (bch ?w))) w' \<and> kept w' = kept ?w
      @ concat (map (\<lambda>j. [KeptU64 (f (keys ! (j mod 256)))]) [0..<nat (b_n (bch ?w))])"
    by (rule loop_kept [where I = ?I])
      (simp_all add: stmt_simps perform_def assms mask_255 next_index del: of_nat_mod)
  then show ?thesis by (auto simp: hash_cycle_def set_int_def assign_def)
qed

text \<open>
  Functional: the string rows hash their 256 keys in turn. Round \<open>j\<close> hashes key
  \<open>j mod 256\<close>, never an index outside the array, and the sink receives the hash of exactly the
  64 bytes of that key.
\<close>
theorem hash_rows_cycle:
  assumes "\<And>s m. fst (hash_of_str L s SEED m) = f s" and "\<And>n m. fst (malloc_ok L n m)"
  shows "\<exists>w'. bench_hash_str_long rnd L w = Some w'
    \<and> kept w' = kept w @ map (\<lambda>j. KeptU64 (f (long_text (j mod 256)))) [0..<nat (b_n (bch w))]"
proof -
  obtain w1 where eq: "bench_hash_str_long rnd L w
      = hash_cycle (\<lambda>k. hash_of_str L k SEED) (map long_text [0..<256]) w1"
    and w1: "kept w1 = kept w" "bch w1 = bch w"
  proof (cases "int_var (rest w) ''huge_bytes'' = 0")
    case True
    then show thesis
      by (intro that [of "perform (\<lambda>p. p\<lparr>int_var := (int_var p)(''huge_bytes'' := 1)\<rparr>)
            (snd (call (lib (malloc_ok L HUGE_LEN)) w))"])
        (simp_all add: bench_hash_str_long_def with_keys_def reading_def calling_def checked_def
          split_beta assms(2) build_keys_eq set_int_def assign_def)
  next
    case False
    then show thesis
      by (intro that [of w])
        (simp_all add: bench_hash_str_long_def with_keys_def reading_def checked_def build_keys_eq)
  qed
  obtain w' where "hash_cycle (\<lambda>k. hash_of_str L k SEED) (map long_text [0..<256]) w1 = Some w'"
    and "kept w' = kept w1
      @ map (\<lambda>j. KeptU64 (f (map long_text [0..<256] ! (j mod 256)))) [0..<nat (b_n (bch w1))]"
    using hash_cycle_hands [where hash = "\<lambda>k. hash_of_str L k SEED" and f = f and w = w1
        and keys = "map long_text [0..<256]"] assms(1) by blast
  then show ?thesis by (simp add: eq w1)
qed

definition ref_hash_lib :: "unit hash_lib" where
  "ref_hash_lib = \<lparr>hash_of_int = (\<lambda>k s m. (of_int k, 1, m)), hash_of_float = (\<lambda>k s m. (0, 1, m)),
     hash_of_str = (\<lambda>k s m. (of_nat (read_digits (drop 59 k)), 1, m)), malloc_ok = (\<lambda>n m. (True, 1, m))\<rparr>"

definition plain_world :: "int \<Rightarrow> unit process world" where
  "plain_world n = \<lparr>bch = zero_bench\<lparr>b_n := n\<rparr>, kept = [], rest = \<lparr>clock = 0, int_var = (\<lambda>x. 0),
     u64_var = (\<lambda>x. 0), dbl_var = (\<lambda>x. 0), int_array = (\<lambda>x. []), str_array = (\<lambda>x. []), machine = ()\<rparr>\<rparr>"

theorem hash_rows_cycle_witness:
  "\<exists>w'. bench_hash_str_long (\<lambda>x. x) ref_hash_lib (plain_world 3) = Some w'
    \<and> kept w' = [KeptU64 0, KeptU64 1, KeptU64 2]"
  using hash_rows_cycle [of ref_hash_lib "\<lambda>k. of_nat (read_digits (drop 59 k))" "\<lambda>x. x" "plain_world 3"]
  by (simp add: ref_hash_lib_def plain_world_def upt_rec long_text_def)

end
