(* ===== verification/Rand_Bench.thy ===== *)
theory Rand_Bench
  imports Arena_Lib Statistics
begin

unbundle bit_operations_syntax

text \<open>
  \<open>bench/rand_bench.c\<close>: draws from burrow's generators, summed into a total. The totals of the
  signed rows are sums of \<open>int64_t\<close>, which C leaves undefined on overflow; the unsigned rows
  and the 32 bit rows, which go through \<open>uint32_t\<close>, wrap.
\<close>

section \<open>What the file takes from burrow\<close>

text \<open>
  A generator is its address. The operations of one kind and result type are one field, named by
  the draw they make; \<open>shuffle_calls\<close> returns the pairs the shuffle called its swap with.
\<close>

record 'm rand_lib =
  new_rand :: "string \<Rightarrow> (nat, 'm) op"
  draw_u64 :: "string \<Rightarrow> nat \<Rightarrow> (u64, 'm) op"
  draw_int :: "string \<Rightarrow> nat \<Rightarrow> (int, 'm) op"
  draw_below :: "string \<Rightarrow> nat \<Rightarrow> int \<Rightarrow> (int, 'm) op"
  draw_float :: "string \<Rightarrow> nat \<Rightarrow> (rat, 'm) op"
  rand_read :: "nat \<Rightarrow> nat \<Rightarrow> (8 word list, 'm) op"
  rand_perm :: "nat \<Rightarrow> nat \<Rightarrow> int \<Rightarrow> (nat \<times> int list, 'm) op"
  shuffle_calls :: "nat \<Rightarrow> int \<Rightarrow> ((int \<times> int) list, 'm) op"

definition hidden_i64 :: "int \<Rightarrow> int" where
  "hidden_i64 v = bench_hide v"

definition test_rand :: "'m rand_lib \<Rightarrow> (nat \<Rightarrow> 'm cstmt) \<Rightarrow> 'm cstmt" where
  "test_rand L k = calling (new_rand L ''pcg 1 2'') (\<lambda>_. calling (new_rand L ''mathrand2'') k)"

definition test_rand1 :: "'m rand_lib \<Rightarrow> (nat \<Rightarrow> 'm cstmt) \<Rightarrow> 'm cstmt" where
  "test_rand1 L k = calling (new_rand L ''source 1'') (\<lambda>_. calling (new_rand L ''math_rand'') k)"

section \<open>The sums\<close>

definition sum_u64 :: "(u64, 'm) op \<Rightarrow> 'm cstmt" where
  "sum_u64 draw = block [set_u64 ''t'' 0,
     bench_loop (\<lambda>i. calling draw (\<lambda>r. reading (\<lambda>p. u64_var p ''t'') (\<lambda>t. set_u64 ''t'' (t + r)))),
     reading (\<lambda>p. u64_var p ''t'') keep_u64]"

definition sum_i64 :: "(int, 'm) op \<Rightarrow> 'm cstmt" where
  "sum_i64 draw = block [set_int ''t'' 0,
     bench_loop (\<lambda>i. calling draw (\<lambda>r. reading (\<lambda>p. int_var p ''t'') (\<lambda>t.
       checked (add64 t r) (set_int ''t'')))),
     reading (\<lambda>p. int_var p ''t'') (\<lambda>t. keep_u64 (of_int t))]"

text \<open>\<open>(int32_t)x\<close>.\<close>

definition wrap32 :: "int \<Rightarrow> int" where
  "wrap32 x = (x + 2147483648) mod 4294967296 - 2147483648"

definition sum_i32 :: "(int, 'm) op \<Rightarrow> 'm cstmt" where
  "sum_i32 draw = block [set_int ''t'' 0,
     bench_loop (\<lambda>i. calling draw (\<lambda>r. reading (\<lambda>p. int_var p ''t'') (\<lambda>t.
       set_int ''t'' (wrap32 (t + r))))),
     reading (\<lambda>p. int_var p ''t'') (\<lambda>t. keep_u64 (of_int t))]"

definition sum_float :: "(rat \<Rightarrow> rat) \<Rightarrow> (rat, 'm) op \<Rightarrow> 'm cstmt" where
  "sum_float rnd draw = block [set_dbl ''t'' 0,
     bench_loop (\<lambda>i. calling draw (\<lambda>r. reading (\<lambda>p. dbl_var p ''t'') (\<lambda>t. set_dbl ''t'' (rnd (t + r))))),
     reading (\<lambda>p. dbl_var p ''t'') (\<lambda>t. checked (u64_of_double t) keep_u64)]"

section \<open>The bodies of v2\<close>

definition bench_rand2_pcg_dxsm :: "'m rand_lib \<Rightarrow> 'm cstmt" where
  "bench_rand2_pcg_dxsm L = calling (new_rand L ''pcg 0 0'') (\<lambda>p. sum_u64 (draw_u64 L ''pcg'' p))"

definition bench_rand2_chacha8 :: "'m rand_lib \<Rightarrow> 'm cstmt" where
  "bench_rand2_chacha8 L = calling (new_rand L ''chacha8'') (\<lambda>c. sum_u64 (draw_u64 L ''chacha8'' c))"

text \<open>The \<open>uint8_t\<close> total is kept modulo 256.\<close>

definition bench_rand2_chacha8_read :: "'m rand_lib \<Rightarrow> 'm cstmt" where
  "bench_rand2_chacha8_read L = calling (new_rand L ''chacha8'') (\<lambda>c. block [set_u64 ''t'' 0,
     bench_loop (\<lambda>i. calling (rand_read L c 32) (\<lambda>buf. reading (\<lambda>p. u64_var p ''t'') (\<lambda>t.
       set_u64 ''t'' ((t + ucast (buf ! 0)) AND 255)))),
     reading (\<lambda>p. u64_var p ''t'') keep_u64])"

definition bench_rand2_source_uint64 :: "'m rand_lib \<Rightarrow> 'm cstmt" where
  "bench_rand2_source_uint64 L =
     calling (new_rand L ''pcg 1 2'') (\<lambda>s. sum_u64 (draw_u64 L ''source'' s))"

definition bench_rand2_global_int64 :: "'m rand_lib \<Rightarrow> 'm cstmt" where
  "bench_rand2_global_int64 L = sum_i64 (draw_int L ''global int64'' 0)"

definition bench_rand2_global_uint64 :: "'m rand_lib \<Rightarrow> 'm cstmt" where
  "bench_rand2_global_uint64 L = sum_u64 (draw_u64 L ''global'' 0)"

definition bench_rand2_int64 :: "'m rand_lib \<Rightarrow> 'm cstmt" where
  "bench_rand2_int64 L = test_rand L (\<lambda>r. sum_i64 (draw_int L ''int64'' r))"

definition bench_rand2_uint64 :: "'m rand_lib \<Rightarrow> 'm cstmt" where
  "bench_rand2_uint64 L = test_rand L (\<lambda>r. sum_u64 (draw_u64 L ''rand'' r))"

definition bench_rand2_global_intn1000 :: "'m rand_lib \<Rightarrow> 'm cstmt" where
  "bench_rand2_global_intn1000 L =
     (let arg = hidden_i64 1000 in sum_i64 (draw_below L ''global intn'' 0 arg))"

definition bench_rand2_intn1000 :: "'m rand_lib \<Rightarrow> 'm cstmt" where
  "bench_rand2_intn1000 L = test_rand L (\<lambda>r.
     let arg = hidden_i64 1000 in sum_i64 (draw_below L ''intn'' r arg))"

definition int64n :: "'m rand_lib \<Rightarrow> int \<Rightarrow> 'm cstmt" where
  "int64n L n = test_rand L (\<lambda>r. let arg = hidden_i64 n in sum_i64 (draw_below L ''int64n'' r arg))"

definition bench_rand2_int64n1000 :: "'m rand_lib \<Rightarrow> 'm cstmt" where
  "bench_rand2_int64n1000 L = int64n L 1000"

definition bench_rand2_int64n1e9 :: "'m rand_lib \<Rightarrow> 'm cstmt" where
  "bench_rand2_int64n1e9 L = int64n L 1000000000"

definition bench_rand2_int64n1e18 :: "'m rand_lib \<Rightarrow> 'm cstmt" where
  "bench_rand2_int64n1e18 L = int64n L 1000000000000000000"

definition bench_rand2_int64n4e18 :: "'m rand_lib \<Rightarrow> 'm cstmt" where
  "bench_rand2_int64n4e18 L = int64n L 4000000000000000000"

definition int32n :: "'m rand_lib \<Rightarrow> int \<Rightarrow> 'm cstmt" where
  "int32n L n = test_rand L (\<lambda>r. let arg = wrap32 (hidden_i64 n) in sum_i32 (draw_below L ''int32n'' r arg))"

definition bench_rand2_int32n1000 :: "'m rand_lib \<Rightarrow> 'm cstmt" where
  "bench_rand2_int32n1000 L = int32n L 1000"

definition bench_rand2_int32n2e9 :: "'m rand_lib \<Rightarrow> 'm cstmt" where
  "bench_rand2_int32n2e9 L = int32n L 2000000000"

definition bench_rand2_float32 :: "(rat \<Rightarrow> rat) \<Rightarrow> 'm rand_lib \<Rightarrow> 'm cstmt" where
  "bench_rand2_float32 rnd32 L = test_rand L (\<lambda>r. sum_float rnd32 (draw_float L ''float32'' r))"

definition bench_rand2_float64 :: "(rat \<Rightarrow> rat) \<Rightarrow> 'm rand_lib \<Rightarrow> 'm cstmt" where
  "bench_rand2_float64 rnd L = test_rand L (\<lambda>r. sum_float rnd (draw_float L ''float64'' r))"

definition bench_rand2_exp_float64 :: "(rat \<Rightarrow> rat) \<Rightarrow> 'm rand_lib \<Rightarrow> 'm cstmt" where
  "bench_rand2_exp_float64 rnd L = test_rand L (\<lambda>r. sum_float rnd (draw_float L ''exp'' r))"

definition bench_rand2_norm_float64 :: "(rat \<Rightarrow> rat) \<Rightarrow> 'm rand_lib \<Rightarrow> 'm cstmt" where
  "bench_rand2_norm_float64 rnd L = test_rand L (\<lambda>r. sum_float rnd (draw_float L ''norm'' r))"

definition bench_rand2_perm3 :: "'m host \<Rightarrow> 'm arena_lib \<Rightarrow> 'm rand_lib \<Rightarrow> 'm cstmt" where
  "bench_rand2_perm3 h A L = test_rand L (\<lambda>r. let ar = addr h ''ar'' in block [
     calling (arena_init A ar) (\<lambda>_. Some), set_int ''t'' 0,
     bench_loop (\<lambda>i. calling (rand_perm L r ar 3) (\<lambda>(ptr, p). reading (\<lambda>s. int_var s ''t'') (\<lambda>t.
       checked (add64 t (p ! 0)) (\<lambda>t. block [set_int ''t'' t, calling (arena_reset A ar) (\<lambda>_. Some)])))),
     calling (arena_free A ar) (\<lambda>_. Some),
     reading (\<lambda>p. int_var p ''t'') (\<lambda>t. keep_u64 (of_int t))])"

section \<open>The bodies of v1\<close>

definition dropping :: "('a, 'm) op \<Rightarrow> 'm cstmt" where
  "dropping draw = bench_loop (\<lambda>i. calling draw (\<lambda>_. Some))"

definition bench_rand_int63_threadsafe :: "'m rand_lib \<Rightarrow> 'm cstmt" where
  "bench_rand_int63_threadsafe L = dropping (draw_int L ''int63'' 0)"

definition bench_rand_int63_unthreadsafe :: "'m rand_lib \<Rightarrow> 'm cstmt" where
  "bench_rand_int63_unthreadsafe L = test_rand1 L (\<lambda>r. dropping (draw_int L ''rand int63'' r))"

definition bench_rand_intn1000 :: "'m rand_lib \<Rightarrow> 'm cstmt" where
  "bench_rand_intn1000 L = test_rand1 L (\<lambda>r. dropping (draw_below L ''rand intn'' r 1000))"

definition bench_rand_int63n1000 :: "'m rand_lib \<Rightarrow> 'm cstmt" where
  "bench_rand_int63n1000 L = test_rand1 L (\<lambda>r. dropping (draw_below L ''rand int63n'' r 1000))"

definition bench_rand_int31n1000 :: "'m rand_lib \<Rightarrow> 'm cstmt" where
  "bench_rand_int31n1000 L = test_rand1 L (\<lambda>r. dropping (draw_below L ''rand int31n'' r 1000))"

definition bench_rand_float64 :: "'m rand_lib \<Rightarrow> 'm cstmt" where
  "bench_rand_float64 L = test_rand1 L (\<lambda>r. dropping (draw_float L ''rand float64'' r))"

definition bench_rand_perm30 :: "'m host \<Rightarrow> 'm arena_lib \<Rightarrow> 'm rand_lib \<Rightarrow> 'm cstmt" where
  "bench_rand_perm30 h A L = test_rand1 L (\<lambda>r. let ar = addr h ''ar'' in block [
     calling (arena_init A ar) (\<lambda>_. Some),
     bench_loop (\<lambda>i. calling (rand_perm L r ar 30) (\<lambda>(ptr, p).
       block [keep ptr, calling (arena_reset A ar) (\<lambda>_. Some)])),
     calling (arena_free A ar) (\<lambda>_. Some)])"

definition swap_check :: "nat \<Rightarrow> int \<Rightarrow> int \<Rightarrow> 'm cstmt" where
  "swap_check env i j = (if i < 0 \<or> 52 \<le> i \<or> j < 0 \<or> 52 \<le> j then keep env else Some)"

definition bench_rand_shuffle_overhead :: "'m host \<Rightarrow> 'm rand_lib \<Rightarrow> 'm cstmt" where
  "bench_rand_shuffle_overhead h L = test_rand1 L (\<lambda>r. bench_loop (\<lambda>i.
     calling (shuffle_calls L r 52) (\<lambda>calls.
       block (map (\<lambda>c. swap_check (addr h ''b'') (fst c) (snd c)) calls))))"

definition read_n :: "'m host \<Rightarrow> 'm rand_lib \<Rightarrow> nat \<Rightarrow> 'm cstmt" where
  "read_n h L n = test_rand1 L (\<lambda>r. block [
     bench_loop (\<lambda>i. calling (rand_read L r n) (\<lambda>_. Some)), keep (addr h ''buf'')])"

definition bench_rand_read3 :: "'m host \<Rightarrow> 'm rand_lib \<Rightarrow> 'm cstmt" where
  "bench_rand_read3 h L = read_n h L 3"

definition bench_rand_read64 :: "'m host \<Rightarrow> 'm rand_lib \<Rightarrow> 'm cstmt" where
  "bench_rand_read64 h L = read_n h L 64"

definition bench_rand_read1000 :: "'m host \<Rightarrow> 'm rand_lib \<Rightarrow> 'm cstmt" where
  "bench_rand_read1000 h L = read_n h L 1000"

definition rand_table ::
  "'m host \<Rightarrow> (rat \<Rightarrow> rat) \<Rightarrow> (rat \<Rightarrow> rat) \<Rightarrow> 'm arena_lib \<Rightarrow> 'm rand_lib \<Rightarrow> (string \<times> 'm cstmt) list"
where
  "rand_table h rnd32 rnd A L = [
     (''rand2_pcg_dxsm'', bench_rand2_pcg_dxsm L),
     (''rand2_chacha8'', bench_rand2_chacha8 L),
     (''rand2_chacha8_read'', bench_rand2_chacha8_read L),
     (''rand2_source_uint64'', bench_rand2_source_uint64 L),
     (''rand2_global_int64'', bench_rand2_global_int64 L),
     (''rand2_global_uint64'', bench_rand2_global_uint64 L),
     (''rand2_int64'', bench_rand2_int64 L),
     (''rand2_uint64'', bench_rand2_uint64 L),
     (''rand2_global_intn1000'', bench_rand2_global_intn1000 L),
     (''rand2_intn1000'', bench_rand2_intn1000 L),
     (''rand2_int64n1000'', bench_rand2_int64n1000 L),
     (''rand2_int64n1e9'', bench_rand2_int64n1e9 L),
     (''rand2_int64n1e18'', bench_rand2_int64n1e18 L),
     (''rand2_int64n4e18'', bench_rand2_int64n4e18 L),
     (''rand2_int32n1000'', bench_rand2_int32n1000 L),
     (''rand2_int32n2e9'', bench_rand2_int32n2e9 L),
     (''rand2_float32'', bench_rand2_float32 rnd32 L),
     (''rand2_float64'', bench_rand2_float64 rnd L),
     (''rand2_exp_float64'', bench_rand2_exp_float64 rnd L),
     (''rand2_norm_float64'', bench_rand2_norm_float64 rnd L),
     (''rand2_perm3'', bench_rand2_perm3 h A L),
     (''rand_int63_threadsafe'', bench_rand_int63_threadsafe L),
     (''rand_int63_unthreadsafe'', bench_rand_int63_unthreadsafe L),
     (''rand_intn1000'', bench_rand_intn1000 L),
     (''rand_int63n1000'', bench_rand_int63n1000 L),
     (''rand_int31n1000'', bench_rand_int31n1000 L),
     (''rand_float64'', bench_rand_float64 L),
     (''rand_perm30'', bench_rand_perm30 h A L),
     (''rand_shuffle_overhead'', bench_rand_shuffle_overhead h L),
     (''rand_read3'', bench_rand_read3 h L),
     (''rand_read64'', bench_rand_read64 h L),
     (''rand_read1000'', bench_rand_read1000 h L)]"

lemmas rand_bodies =
  bench_rand2_pcg_dxsm_def bench_rand2_chacha8_def bench_rand2_chacha8_read_def
  bench_rand2_source_uint64_def bench_rand2_global_int64_def bench_rand2_global_uint64_def
  bench_rand2_int64_def bench_rand2_uint64_def bench_rand2_global_intn1000_def
  bench_rand2_intn1000_def bench_rand2_int64n1000_def bench_rand2_int64n1e9_def
  bench_rand2_int64n1e18_def bench_rand2_int64n4e18_def bench_rand2_int32n1000_def
  bench_rand2_int32n2e9_def bench_rand2_float32_def bench_rand2_float64_def
  bench_rand2_exp_float64_def bench_rand2_norm_float64_def bench_rand2_perm3_def
  bench_rand_int63_threadsafe_def bench_rand_int63_unthreadsafe_def bench_rand_intn1000_def
  bench_rand_int63n1000_def bench_rand_int31n1000_def bench_rand_float64_def bench_rand_perm30_def
  bench_rand_shuffle_overhead_def bench_rand_read3_def bench_rand_read64_def
  bench_rand_read1000_def

section \<open>The contract\<close>

lemma rand_moves [contract_rules]:
  "does (advances clock) (sum_u64 d)" "does (advances clock) (sum_i64 e)"
  "does (advances clock) (sum_i32 e)" "does (advances clock) (sum_float rnd g)"
  "does (advances clock) (dropping c)" "does (advances clock) (swap_check env i j)"
  unfolding sum_u64_def sum_i64_def sum_i32_def sum_float_def dropping_def swap_check_def
  by (intro contract_rules)+

lemma test_rand_moves [contract_rules]:
  "(\<And>r. does (advances clock) (k r)) \<Longrightarrow> does (advances clock) (test_rand L k)"
  "(\<And>r. does (advances clock) (k r)) \<Longrightarrow> does (advances clock) (test_rand1 L k)"
  unfolding test_rand_def test_rand1_def by (auto intro!: contract_rules)

lemma swaps_move: "does (advances clock) (block (map (\<lambda>c. swap_check env (fst c) (snd c)) calls))"
  by (rule moving.block_rule) (auto intro: rand_moves)

lemma rand_table_moves:
  "(nm, f) \<in> set (rand_table h rnd32 rnd A L) \<Longrightarrow> does (advances clock) f"
  unfolding rand_table_def rand_bodies int64n_def int32n_def read_n_def Let_def
  by (auto simp: split_beta intro!: contract_rules swaps_move
      simp del: block.simps)

section \<open>Overflow of the signed totals\<close>

text \<open>The draws a generator of numbers below \<open>n\<close> may make.\<close>

definition draws_below :: "(int, 'm) op \<Rightarrow> int \<Rightarrow> bool" where
  "draws_below d n \<longleftrightarrow> (\<forall>m. 0 \<le> fst (d m) \<and> fst (d m) < n)"

lemma sum_i64_total:
  assumes "draws_below d n" and "0 < n" and "0 \<le> b_n (bch w)" and "b_n (bch w) * (n - 1) \<le> int64_max"
  shows "\<exists>w' t. sum_i64 d w = Some w' \<and> kept w' = kept w @ [KeptU64 (of_int t)]
    \<and> 0 \<le> t \<and> t \<le> b_n (bch w) * (n - 1)"
proof -
  let ?w = "perform (\<lambda>p. p\<lparr>int_var := (int_var p)(''t'' := 0)\<rparr>) w"
  let ?body = "\<lambda>i :: int. calling d (\<lambda>r. reading (\<lambda>p. int_var p ''t'') (\<lambda>t.
       checked (add64 t r) (set_int ''t'')))"
  let ?k = "nat (b_n (bch w))"
  let ?I = "\<lambda>j v. 0 \<le> int_var (rest v) ''t'' \<and> int_var (rest v) ''t'' \<le> int j * (n - 1) \<and> kept v = kept w"
  have "\<exists>v. for_loop ?k 0 ?body ?w = Some v \<and> ?I ?k v"
  proof (rule for_loop_total [where I = ?I])
    fix j and v :: "'a process world" assume j: "j < ?k" and v: "?I j v"
    let ?r = "fst (d (machine (rest v)))"
    have r: "0 \<le> ?r" "?r \<le> n - 1" using assms(1) by (simp_all add: draws_below_def zle_diff1_eq)
    have "int (Suc j) * (n - 1) \<le> b_n (bch w) * (n - 1)"
      using j assms(2) by (intro mult_right_mono) auto
    then have le: "int_var (rest v) ''t'' + ?r \<le> int64_max"
      using v r assms(4) by (simp add: algebra_simps)
    then have "in_int64 (int_var (rest v) ''t'' + ?r)" using v r by (simp add: in_int64_nonneg)
    then show "\<exists>v'. ?body (0 + int j) v = Some v' \<and> ?I (Suc j) v'"
      using v r by (simp add: stmt_simps perform_def add64_def check64_def algebra_simps)
  qed simp
  then obtain v where v: "bench_loop ?body ?w = Some v" "?I ?k v" by (auto simp: bench_loop_def)
  then show ?thesis
    using assms(3)
    by (intro exI [of _ "bench_keep_u64 (of_int (int_var (rest v) ''t'')) v"]
        exI [of _ "int_var (rest v) ''t''"])
      (simp add: sum_i64_def set_int_def assign_def reading_def keep_u64_def)
qed

lemma sum_i64_overflows:
  assumes "\<And>m. fst (d m) = n - 1" and "0 < n" and "int64_max < b_n (bch w) * (n - 1)"
  shows "sum_i64 d w = None"
proof -
  let ?w = "perform (\<lambda>p. p\<lparr>int_var := (int_var p)(''t'' := 0)\<rparr>) w"
  let ?body = "\<lambda>i :: int. calling d (\<lambda>r. reading (\<lambda>p. int_var p ''t'') (\<lambda>t.
       checked (add64 t r) (set_int ''t'')))"
  have sum: "for_loop k i ?body v = Some v' \<Longrightarrow>
      int_var (rest v') ''t'' = int_var (rest v) ''t'' + int k * (n - 1)
      \<and> (0 < k \<longrightarrow> in_int64 (int_var (rest v') ''t''))" for k i and v v' :: "'a process world"
  proof (induction k arbitrary: i v)
    case (Suc k)
    obtain u where u: "?body i v = Some u" "for_loop k (i + 1) ?body u = Some v'"
      using Suc.prems by (auto simp: bind_eq_Some_conv)
    have "int_var (rest u) ''t'' = int_var (rest v) ''t'' + (n - 1) \<and> in_int64 (int_var (rest u) ''t'')"
      using u(1) by (auto simp: stmt_simps perform_def assms(1) bind_eq_Some_conv)
    with Suc.IH [OF u(2)] u(2) show ?case by (cases k) (auto simp: algebra_simps)
  qed simp
  have pos: "0 < b_n (bch w)"
  proof (rule ccontr)
    assume "\<not> 0 < b_n (bch w)"
    then have "b_n (bch w) * (n - 1) \<le> 0" using assms(2) by (simp add: mult_nonpos_nonneg)
    then show False using assms(3) by (simp add: int64_max_def)
  qed
  have "bench_loop ?body ?w = None"
  proof (rule ccontr)
    assume "bench_loop ?body ?w \<noteq> None"
    then obtain v' where "for_loop (nat (b_n (bch w))) 0 ?body ?w = Some v'"
      by (auto simp: bench_loop_def)
    from sum [OF this] pos have "in_int64 (b_n (bch w) * (n - 1))" by (auto simp: perform_def)
    then show False using assms(3) by (simp add: in_int64_def)
  qed
  then show ?thesis by (simp add: sum_i64_def set_int_def assign_def)
qed

text \<open>
  Bounds: the bounded rows with small bounds cannot overflow. With a generator that keeps its
  bound, the rows of draws below 1000 and below \<open>10 ^ 9\<close> are defined for every count the
  harness picks, and hand the sink one total between 0 and the count times the largest draw.
\<close>
theorem small_draws_never_overflow:
  assumes "\<And>r m. 0 \<le> fst (draw_below L ''int64n'' r n m) \<and> fst (draw_below L ''int64n'' r n m) < n"
    and "n = 1000 \<or> n = 1000000000" and "0 \<le> b_n (bch w)" and "b_n (bch w) \<le> N_MAX"
  shows "\<exists>w' t. int64n L n w = Some w' \<and> kept w' = kept w @ [KeptU64 (of_int t)]
    \<and> 0 \<le> t \<and> t \<le> b_n (bch w) * (n - 1)"
proof -
  have d: "draws_below (draw_below L ''int64n'' r n) n" for r
    using assms(1) by (simp add: draws_below_def)
  let ?w1 = "snd (call (lib (new_rand L ''pcg 1 2'')) w)"
  let ?w2 = "snd (call (lib (new_rand L ''mathrand2'')) ?w1)"
  have "b_n (bch w) * (n - 1) \<le> N_MAX * (n - 1)"
    using assms(2,4) by (intro mult_right_mono) auto
  also have "\<dots> \<le> int64_max" using assms(2) by (auto simp: N_MAX_def int64_max_def)
  finally have b: "b_n (bch ?w2) * (n - 1) \<le> int64_max" by simp
  have "0 < n" "0 \<le> b_n (bch ?w2)" using assms(2,3) by auto
  from sum_i64_total [OF d this b] show ?thesis
    by (simp add: int64n_def test_rand_def calling_def split_beta hidden_i64_def bench_hide_def Let_def)
qed

definition top_draws :: "unit rand_lib" where
  "top_draws = \<lparr>new_rand = (\<lambda>s m. (1, 1, m)), draw_u64 = (\<lambda>s r m. (7, 1, m)),
     draw_int = (\<lambda>s r m. (int64_max, 1, m)), draw_below = (\<lambda>s r n m. (n - 1, 1, m)),
     draw_float = (\<lambda>s r m. (- 2, 1, m)), rand_read = (\<lambda>r n m. (replicate n 7, 1, m)),
     rand_perm = (\<lambda>r a n m. ((8, [0..n - 1]), 1, m)), shuffle_calls = (\<lambda>r n m. ([(0, n - 1)], 1, m))\<rparr>"

definition rand_world :: "int \<Rightarrow> unit process world" where
  "rand_world n = \<lparr>bch = zero_bench\<lparr>b_n := n\<rparr>, kept = [], rest = \<lparr>clock = 0, int_var = (\<lambda>x. 0),
     u64_var = (\<lambda>x. 0), dbl_var = (\<lambda>x. 0), int_array = (\<lambda>x. []), str_array = (\<lambda>x. []), machine = ()\<rparr>\<rparr>"

theorem small_draws_never_overflow_witness:
  "\<exists>w' t. int64n top_draws 1000 (rand_world 5) = Some w' \<and> kept w' = [KeptU64 (of_int t)]
    \<and> t \<le> 5 * 999"
  using small_draws_never_overflow [of top_draws 1000 "rand_world 5"]
  by (auto simp: top_draws_def rand_world_def N_MAX_def)

text \<open>The first \<open>k\<close> draws, and the generator a row of \<open>math/rand/v2\<close> draws from.\<close>

fun drawn :: "nat \<Rightarrow> (int, 'm) op \<Rightarrow> 'm \<Rightarrow> int list" where
  "drawn 0 d m = []"
| "drawn (Suc k) d m = fst (d m) # drawn k d (snd (snd (d m)))"

definition test_generator :: "'m rand_lib \<Rightarrow> 'm \<Rightarrow> nat \<times> 'm" where
  "test_generator L m = (let (src, _, m) = new_rand L ''pcg 1 2'' m; (r, _, m) = new_rand L ''mathrand2'' m in (r, m))"

lemma drawn_nonneg: "draws_below d n \<Longrightarrow> 0 \<le> sum_list (drawn k d m)"
  by (induction k arbitrary: m) (simp_all add: draws_below_def)

lemma sum_loop_exact:
  fixes v :: "'m process world"
  assumes "draws_below d n" and "0 \<le> int_var (rest v) ''t''"
  shows "(for_loop k i (\<lambda>i. calling d (\<lambda>r. reading (\<lambda>p. int_var p ''t'') (\<lambda>t.
      checked (add64 t r) (set_int ''t'')))) v = None)
    \<longleftrightarrow> 0 < k \<and> int64_max < int_var (rest v) ''t'' + sum_list (drawn k d (machine (rest v)))"
  using assms(2)
proof (induction k arbitrary: i v)
  case (Suc k)
  let ?m = "machine (rest v)" and ?t = "int_var (rest v) ''t''"
  let ?r = "fst (d ?m)"
  have r: "0 \<le> ?r" using assms(1) by (simp add: draws_below_def)
  have tail: "0 \<le> sum_list (drawn k d (snd (snd (d ?m))))" by (rule drawn_nonneg [OF assms(1)])
  show ?case
  proof (cases "?t + ?r \<le> int64_max")
    case True
    then have "in_int64 (?t + ?r)" using r Suc.prems by (simp add: in_int64_nonneg)
    then obtain u where u: "calling d (\<lambda>r. reading (\<lambda>p. int_var p ''t'') (\<lambda>t.
        checked (add64 t r) (set_int ''t''))) v = Some u" "int_var (rest u) ''t'' = ?t + ?r"
      "machine (rest u) = snd (snd (d ?m))"
      by (simp add: stmt_simps perform_def add64_def check64_def)
    have "0 \<le> int_var (rest u) ''t''" using u(2) r Suc.prems by simp
    from Suc.IH [OF this, of "i + 1"] u True show ?thesis by (cases k) (simp_all add: add.assoc)
  next
    case False
    then have "\<not> in_int64 (?t + ?r)" by (simp add: in_int64_def)
    then have "calling d (\<lambda>r. reading (\<lambda>p. int_var p ''t'') (\<lambda>t.
        checked (add64 t r) (set_int ''t''))) v = None"
      by (simp add: stmt_simps add64_def check64_def)
    with False tail show ?thesis by simp
  qed
qed simp

text \<open>
  C34. Error: a bounded row is undefined exactly when its draws add up to more than \<open>int64_t\<close>
  holds. For a generator that keeps its bound, the row comes back if and only if the sum of the
  draws it makes is at most \<open>2 ^ 63 - 1\<close>. Below \<open>4 * 10 ^ 18\<close> that is a matter of a few
  draws, and the harness runs the row a million times.
\<close>
theorem bounded_row_defined:
  assumes "\<And>r m. 0 \<le> fst (draw_below L ''int64n'' r n m) \<and> fst (draw_below L ''int64n'' r n m) < n"
    and "test_generator L (machine (rest w)) = (r, m)"
  shows "int64n L n w = None
    \<longleftrightarrow> int64_max < sum_list (drawn (nat (b_n (bch w))) (draw_below L ''int64n'' r n) m)"
proof -
  let ?w2 = "snd (call (lib (new_rand L ''mathrand2'')) (snd (call (lib (new_rand L ''pcg 1 2'')) w)))"
  let ?w = "perform (\<lambda>p. p\<lparr>int_var := (int_var p)(''t'' := 0)\<rparr>) ?w2"
  have d: "draws_below (draw_below L ''int64n'' r n) n" using assms(1) by (simp add: draws_below_def)
  have rm: "r = fst (new_rand L ''mathrand2'' (snd (snd (new_rand L ''pcg 1 2'' (machine (rest w))))))"
    "m = machine (rest ?w)"
    using assms(2) by (auto simp: test_generator_def split_beta Let_def perform_def)
  have row: "int64n L n w = sum_i64 (draw_below L ''int64n'' r n) ?w2"
    by (simp add: int64n_def test_rand_def calling_def split_beta hidden_i64_def bench_hide_def Let_def rm(1))
  have total: "sum_i64 (draw_below L ''int64n'' r n) ?w2 = None \<longleftrightarrow> for_loop (nat (b_n (bch w))) 0 (\<lambda>i. calling (draw_below L ''int64n'' r n)
      (\<lambda>r. reading (\<lambda>p. int_var p ''t'') (\<lambda>t. checked (add64 t r) (set_int ''t'')))) ?w = None"
    by (cases "for_loop (nat (b_n (bch w))) 0 (\<lambda>i. calling (draw_below L ''int64n'' r n)
      (\<lambda>r. reading (\<lambda>p. int_var p ''t'') (\<lambda>t. checked (add64 t r) (set_int ''t'')))) ?w")
      (simp_all add: sum_i64_def set_int_def assign_def bench_loop_def reading_def keep_u64_def)
  have "0 \<le> int_var (rest ?w) ''t''" by (simp add: perform_def)
  from sum_loop_exact [OF d this, of "nat (b_n (bch w))" 0] show ?thesis
    unfolding row total by (cases "nat (b_n (bch w))") (simp_all add: perform_def rm(2) int64_max_def)
qed

theorem bounded_row_defined_witness:
  "int64n top_draws 4000000000000000000 (rand_world 3) = None
    \<and> int64n top_draws 4000000000000000000 (rand_world 2) \<noteq> None"
  using bounded_row_defined [of top_draws 4000000000000000000 "rand_world 3" 1 "()"]
    bounded_row_defined [of top_draws 4000000000000000000 "rand_world 2" 1 "()"]
  by (simp add: top_draws_def rand_world_def test_generator_def int64_max_def numeral_eq_Suc)

text \<open>
  Error: the rows with large bounds are undefined for the counts the harness runs them with. A
  generator may draw its largest number every time; then the row of draws below
  \<open>4 * 10 ^ 18\<close> is undefined from the third iteration on and the row of draws below
  \<open>10 ^ 18\<close> from the tenth, as is the row of unbounded draws from the second, since their
  totals are sums of \<open>int64_t\<close>.
\<close>
theorem large_draws_overflow:
  assumes "\<And>r n m. fst (draw_below L ''int64n'' r n m) = n - 1"
    and "\<And>r m. fst (draw_int L ''int64'' r m) = int64_max"
  shows "(3 \<le> b_n (bch w) \<longrightarrow> bench_rand2_int64n4e18 L w = None)
    \<and> (10 \<le> b_n (bch w) \<longrightarrow> bench_rand2_int64n1e18 L w = None)
    \<and> (2 \<le> b_n (bch w) \<longrightarrow> bench_rand2_int64 L w = None)"
proof -
  let ?w1 = "snd (call (lib (new_rand L ''pcg 1 2'')) w)"
  let ?w2 = "snd (call (lib (new_rand L ''mathrand2'')) ?w1)"
  have row: "int64n L n w = None" if "0 < n" "int64_max < b_n (bch w) * (n - 1)" for n
  proof -
    have "sum_i64 (draw_below L ''int64n'' r n) ?w2 = None" for r
      by (rule sum_i64_overflows [where n = n]) (use assms(1) that in simp_all)
    then show ?thesis
      by (simp add: int64n_def test_rand_def calling_def split_beta hidden_i64_def bench_hide_def Let_def)
  qed
  have "bench_rand2_int64n4e18 L w = None" if "3 \<le> b_n (bch w)"
    unfolding bench_rand2_int64n4e18_def by (rule row) (use that in \<open>simp_all add: int64_max_def\<close>)
  moreover have "bench_rand2_int64n1e18 L w = None" if "10 \<le> b_n (bch w)"
    unfolding bench_rand2_int64n1e18_def by (rule row) (use that in \<open>simp_all add: int64_max_def\<close>)
  moreover have "bench_rand2_int64 L w = None" if "2 \<le> b_n (bch w)"
  proof -
    have "sum_i64 (draw_int L ''int64'' r) ?w2 = None" for r
      by (rule sum_i64_overflows [where n = "int64_max + 1"])
        (use assms(2) that in \<open>simp_all add: int64_max_def\<close>)
    then show ?thesis by (simp add: bench_rand2_int64_def test_rand_def calling_def split_beta)
  qed
  ultimately show ?thesis by blast
qed

theorem large_draws_overflow_witness:
  "bench_rand2_int64n4e18 top_draws (rand_world 10) = None"
  using large_draws_overflow [of top_draws "rand_world 10"] by (simp add: top_draws_def rand_world_def)

text \<open>
  Functional: a shuffle within bounds leaves no trace. When every swap a shuffle of 52 elements
  asks for is inside the 52, the check of the row hands nothing to the sink, and a swap outside
  is handed over, so a wrong shuffle shows.
\<close>
theorem shuffle_row_checks:
  assumes "\<And>r m. \<forall>c \<in> set (fst (shuffle_calls L r 52 m)). 0 \<le> fst c \<and> fst c < 52 \<and> 0 \<le> snd c \<and> snd c < 52"
  shows "\<exists>w'. bench_rand_shuffle_overhead h L w = Some w' \<and> kept w' = kept w"
proof -
  have inside: "block (map (\<lambda>c. swap_check env (fst c) (snd c)) calls) v = Some v"
    if "\<forall>c \<in> set calls. 0 \<le> fst c \<and> fst c < 52 \<and> 0 \<le> snd c \<and> snd c < 52" for calls env and v :: "'a process world"
    using that by (induction calls) (auto simp: swap_check_def)
  have body: "\<exists>v'. calling (shuffle_calls L r 52)
      (\<lambda>calls. block (map (\<lambda>c. swap_check env (fst c) (snd c)) calls)) v = Some v' \<and> kept v' = kept v @ []"
    for r env and v :: "'a process world"
    using inside [OF assms] by (simp add: calling_def split_beta)
  have nil: "concat (map (\<lambda>j. []) xs) = []" for xs :: "nat list" by (induction xs) simp_all
  have "\<exists>w'. bench_loop (\<lambda>i. calling (shuffle_calls L r 52)
      (\<lambda>calls. block (map (\<lambda>c. swap_check env (fst c) (snd c)) calls))) u = Some w' \<and> True
      \<and> kept w' = kept u @ concat (map (\<lambda>j. []) [0..<nat (b_n (bch u))])" for r env u
    by (rule loop_kept [where I = "\<lambda>j v. True"]) (use body in simp_all)
  then have loop: "\<exists>w'. bench_loop (\<lambda>i. calling (shuffle_calls L r 52)
      (\<lambda>calls. block (map (\<lambda>c. swap_check env (fst c) (snd c)) calls))) u = Some w'
      \<and> kept w' = kept u" for r env u
    by (simp add: nil)
  show ?thesis
    using loop [of _ "addr h ''b''" "snd (call (lib (new_rand L ''math_rand''))
        (snd (call (lib (new_rand L ''source 1'')) w)))"]
    by (simp add: bench_rand_shuffle_overhead_def test_rand1_def calling_def split_beta)
qed

theorem shuffle_row_checks_witness:
  "\<exists>w'. bench_rand_shuffle_overhead (exact_host (\<lambda>x. 0) (\<lambda>x. 0)) top_draws (rand_world 4) = Some w'
    \<and> kept w' = []"
  using shuffle_row_checks [of top_draws "exact_host (\<lambda>x. 0) (\<lambda>x. 0)" "rand_world 4"]
  by (simp add: top_draws_def rand_world_def)

text \<open>
  Error: the row of normal draws converts a negative total. A normal draw may be negative; for
  one iteration and a draw of -1 or less the final conversion of the total to
  \<open>uint64_t\<close> is undefined.
\<close>
theorem norm_row_undefined:
  assumes "\<And>r m. fst (draw_float L ''norm'' r m) = d" and "d \<le> - 1" and "rnd d = d"
    and "b_n (bch w) = 1"
  shows "bench_rand2_norm_float64 rnd L w = None"
proof -
  have row: "sum_float rnd (draw_float L ''norm'' r) v = None" if "b_n (bch v) = 1" for r v
    using assms(2,3) that
    by (simp add: sum_float_def bench_loop_def calling_def reading_def checked_def set_dbl_def assign_def
        split_beta assms(1) perform_def u64_of_double_def)
  show ?thesis
    using assms(4) by (simp add: bench_rand2_norm_float64_def test_rand_def calling_def split_beta row)
qed

theorem norm_row_undefined_witness:
  "bench_rand2_norm_float64 (\<lambda>x. x) top_draws (rand_world 1) = None"
  using norm_row_undefined [of top_draws "- 2" "\<lambda>x. x" "rand_world 1"]
  by (simp add: top_draws_def rand_world_def)

end
