(* ===== verification/Compress_Bench.thy ===== *)
theory Compress_Bench
  imports Process
begin

text \<open>
  \<open>bench/flate_bench.c\<close>, \<open>bench/lzw_bench.c\<close> and \<open>bench/bzip2_bench.c\<close>: the inputs cut
  from the files of \<open>testdata/\<close>, the encode and decode loops, and the checks that end the
  process when a decoder did not give back every byte. The codecs are burrow's.
\<close>

section \<open>The input\<close>

text \<open>
  The loop \<open>for (i = 0; i < n; i += len)\<close> over a file of \<open>len\<close> bytes: the offsets and the
  lengths \<open>k = n - i < len ? n - i : len\<close> of its rounds.
\<close>

function pieces :: "nat \<Rightarrow> nat \<Rightarrow> nat \<Rightarrow> (nat \<times> nat) list" where
  "pieces len n i =
     (if n \<le> i \<or> len = 0 then []
      else (i, if n - i < len then n - i else len) # pieces len n (i + len))"
  by auto
termination
  by (relation "measure (\<lambda>(len, n, i). n - i)") auto

declare pieces.simps [simp del]

text \<open>
  \<open>sized_input\<close>: the copies of the rounds. With an empty file the loop does not advance, and
  never ends.
\<close>

definition sized_input :: "string \<Rightarrow> nat \<Rightarrow> string option" where
  "sized_input src n =
     (if src = [] \<and> 0 < n then None
      else Some (concat (map (\<lambda>(i, k). take k src) (pieces (length src) n 0))))"

section \<open>What the files take from burrow and the C library\<close>

text \<open>
  One record for a codec. \<open>read_whole\<close> is \<open>fopen\<close>, \<open>malloc\<close> and \<open>fread\<close> of
  \<open>read_file\<close>, \<open>None\<close> where one of them fails. A writer to a buffer and a writer to
  \<open>io_discard\<close> are told apart by the flag of \<open>new_writer\<close>; a handle is \<open>0\<close> for
  \<open>NULL\<close>. \<open>copy_discard\<close> is \<open>io_copy\<close> to \<open>io_discard\<close>: the count, and whether it
  failed.
\<close>

record 'm codec_lib =
  read_whole :: "string \<Rightarrow> (string option, 'm) op"
  new_writer :: "bool \<Rightarrow> int \<Rightarrow> (nat, 'm) op"
  writer_reset :: "nat \<Rightarrow> (unit, 'm) op"
  writer_write :: "nat \<Rightarrow> string \<Rightarrow> (unit, 'm) op"
  writer_close :: "nat \<Rightarrow> (bool, 'm) op"
  writer_free :: "nat \<Rightarrow> (unit, 'm) op"
  buffer_bytes :: "(string, 'm) op"
  buffer_free :: "(unit, 'm) op"
  new_reader :: "string \<Rightarrow> (nat, 'm) op"
  copy_discard :: "nat \<Rightarrow> (int \<times> bool, 'm) op"
  reader_close :: "nat \<Rightarrow> (unit, 'm) op"
  reader_reset :: "nat \<Rightarrow> string \<Rightarrow> (unit, 'm) op"
  reader_free :: "nat \<Rightarrow> (unit, 'm) op"

definition read_file :: "'m codec_lib \<Rightarrow> string \<Rightarrow> (string \<Rightarrow> 'm cstmt) \<Rightarrow> 'm cstmt" where
  "read_file F path k = calling (read_whole F path) (\<lambda>r. checked r k)"

abbreviation run_op :: "('a, 'm) op \<Rightarrow> 'm cstmt" where
  "run_op f \<equiv> calling f (\<lambda>_. Some)"

text \<open>\<open>if (w == NULL) abort();\<close>\<close>

definition unless_null :: "nat \<Rightarrow> 'm cstmt \<Rightarrow> 'm cstmt" where
  "unless_null p s = (if p = 0 then aborting else s)"

text \<open>\<open>total += k\<close> and \<open>if (total != b->n * size) abort();\<close> on the local total.\<close>

definition add_total :: "int \<Rightarrow> 'm cstmt" where
  "add_total k = reading (\<lambda>p. int_var p ''total'') (\<lambda>t. checked (add64 t k) (set_int ''total''))"

definition check_total :: "int \<Rightarrow> 'm cstmt" where
  "check_total sz = reading (\<lambda>p. int_var p ''total'') (\<lambda>t. reading_n (\<lambda>n.
     checked (mul64 n sz) (\<lambda>want. if t \<noteq> want then aborting else Some)))"

section \<open>flate\<close>

definition DIGITS :: string where "DIGITS = ''testdata/e.txt''"
definition NEWTON :: string where "NEWTON = ''testdata/Isaac.Newton-Opticks.txt''"

definition flate_encode :: "'m codec_lib \<Rightarrow> string \<Rightarrow> int \<Rightarrow> nat \<Rightarrow> 'm cstmt" where
  "flate_encode F path level n = read_file F path (\<lambda>src. checked (sized_input src n) (\<lambda>inp.
     calling (new_writer F False level) (\<lambda>w. unless_null w (block [
       bench_loop (\<lambda>i. block [run_op (writer_reset F w), run_op (writer_write F w inp),
         run_op (writer_close F w)]),
       run_op (writer_free F w)]))))"

definition write_pieces :: "'m codec_lib \<Rightarrow> nat \<Rightarrow> string \<Rightarrow> nat \<Rightarrow> nat \<Rightarrow> 'm cstmt" where
  "write_pieces F w inp len n =
     block (map (\<lambda>p. run_op (writer_write F w (take (snd p) (drop (fst p) inp)))) (pieces len n 0))"

definition flate_decode :: "'m codec_lib \<Rightarrow> string \<Rightarrow> int \<Rightarrow> nat \<Rightarrow> 'm cstmt" where
  "flate_decode F path level n = read_file F path (\<lambda>file. read_file F path (\<lambda>src.
     checked (sized_input src n) (\<lambda>inp.
     calling (new_writer F True level) (\<lambda>w. unless_null w (block [
       write_pieces F w inp (length file) n,
       run_op (writer_close F w),
       run_op (writer_free F w),
       calling (buffer_bytes F) (\<lambda>c. block [
         set_int ''total'' 0,
         bench_loop (\<lambda>i. calling (new_reader F c) (\<lambda>rc. calling (copy_discard F rc) (\<lambda>r.
           block [add_total (fst r), run_op (reader_free F rc)]))),
         check_total (int n),
         run_op (buffer_free F)])])))))"

definition bench_flate_encode_digits_huffman_1e4 :: "'m codec_lib \<Rightarrow> 'm cstmt" where
  "bench_flate_encode_digits_huffman_1e4 F = flate_encode F DIGITS (- 2) 10000"

definition bench_flate_encode_digits_huffman_1e5 :: "'m codec_lib \<Rightarrow> 'm cstmt" where
  "bench_flate_encode_digits_huffman_1e5 F = flate_encode F DIGITS (- 2) 100000"

definition bench_flate_encode_digits_huffman_1e6 :: "'m codec_lib \<Rightarrow> 'm cstmt" where
  "bench_flate_encode_digits_huffman_1e6 F = flate_encode F DIGITS (- 2) 1000000"

definition bench_flate_encode_digits_speed_1e4 :: "'m codec_lib \<Rightarrow> 'm cstmt" where
  "bench_flate_encode_digits_speed_1e4 F = flate_encode F DIGITS 1 10000"

definition bench_flate_encode_digits_speed_1e5 :: "'m codec_lib \<Rightarrow> 'm cstmt" where
  "bench_flate_encode_digits_speed_1e5 F = flate_encode F DIGITS 1 100000"

definition bench_flate_encode_digits_speed_1e6 :: "'m codec_lib \<Rightarrow> 'm cstmt" where
  "bench_flate_encode_digits_speed_1e6 F = flate_encode F DIGITS 1 1000000"

definition bench_flate_encode_digits_default_1e4 :: "'m codec_lib \<Rightarrow> 'm cstmt" where
  "bench_flate_encode_digits_default_1e4 F = flate_encode F DIGITS (- 1) 10000"

definition bench_flate_encode_digits_default_1e5 :: "'m codec_lib \<Rightarrow> 'm cstmt" where
  "bench_flate_encode_digits_default_1e5 F = flate_encode F DIGITS (- 1) 100000"

definition bench_flate_encode_digits_default_1e6 :: "'m codec_lib \<Rightarrow> 'm cstmt" where
  "bench_flate_encode_digits_default_1e6 F = flate_encode F DIGITS (- 1) 1000000"

definition bench_flate_encode_digits_compression_1e4 :: "'m codec_lib \<Rightarrow> 'm cstmt" where
  "bench_flate_encode_digits_compression_1e4 F = flate_encode F DIGITS 9 10000"

definition bench_flate_encode_digits_compression_1e5 :: "'m codec_lib \<Rightarrow> 'm cstmt" where
  "bench_flate_encode_digits_compression_1e5 F = flate_encode F DIGITS 9 100000"

definition bench_flate_encode_digits_compression_1e6 :: "'m codec_lib \<Rightarrow> 'm cstmt" where
  "bench_flate_encode_digits_compression_1e6 F = flate_encode F DIGITS 9 1000000"

definition bench_flate_encode_newton_huffman_1e4 :: "'m codec_lib \<Rightarrow> 'm cstmt" where
  "bench_flate_encode_newton_huffman_1e4 F = flate_encode F NEWTON (- 2) 10000"

definition bench_flate_encode_newton_huffman_1e5 :: "'m codec_lib \<Rightarrow> 'm cstmt" where
  "bench_flate_encode_newton_huffman_1e5 F = flate_encode F NEWTON (- 2) 100000"

definition bench_flate_encode_newton_huffman_1e6 :: "'m codec_lib \<Rightarrow> 'm cstmt" where
  "bench_flate_encode_newton_huffman_1e6 F = flate_encode F NEWTON (- 2) 1000000"

definition bench_flate_encode_newton_speed_1e4 :: "'m codec_lib \<Rightarrow> 'm cstmt" where
  "bench_flate_encode_newton_speed_1e4 F = flate_encode F NEWTON 1 10000"

definition bench_flate_encode_newton_speed_1e5 :: "'m codec_lib \<Rightarrow> 'm cstmt" where
  "bench_flate_encode_newton_speed_1e5 F = flate_encode F NEWTON 1 100000"

definition bench_flate_encode_newton_speed_1e6 :: "'m codec_lib \<Rightarrow> 'm cstmt" where
  "bench_flate_encode_newton_speed_1e6 F = flate_encode F NEWTON 1 1000000"

definition bench_flate_encode_newton_default_1e4 :: "'m codec_lib \<Rightarrow> 'm cstmt" where
  "bench_flate_encode_newton_default_1e4 F = flate_encode F NEWTON (- 1) 10000"

definition bench_flate_encode_newton_default_1e5 :: "'m codec_lib \<Rightarrow> 'm cstmt" where
  "bench_flate_encode_newton_default_1e5 F = flate_encode F NEWTON (- 1) 100000"

definition bench_flate_encode_newton_default_1e6 :: "'m codec_lib \<Rightarrow> 'm cstmt" where
  "bench_flate_encode_newton_default_1e6 F = flate_encode F NEWTON (- 1) 1000000"

definition bench_flate_encode_newton_compression_1e4 :: "'m codec_lib \<Rightarrow> 'm cstmt" where
  "bench_flate_encode_newton_compression_1e4 F = flate_encode F NEWTON 9 10000"

definition bench_flate_encode_newton_compression_1e5 :: "'m codec_lib \<Rightarrow> 'm cstmt" where
  "bench_flate_encode_newton_compression_1e5 F = flate_encode F NEWTON 9 100000"

definition bench_flate_encode_newton_compression_1e6 :: "'m codec_lib \<Rightarrow> 'm cstmt" where
  "bench_flate_encode_newton_compression_1e6 F = flate_encode F NEWTON 9 1000000"

definition bench_flate_decode_digits_huffman_1e4 :: "'m codec_lib \<Rightarrow> 'm cstmt" where
  "bench_flate_decode_digits_huffman_1e4 F = flate_decode F DIGITS (- 2) 10000"

definition bench_flate_decode_digits_huffman_1e5 :: "'m codec_lib \<Rightarrow> 'm cstmt" where
  "bench_flate_decode_digits_huffman_1e5 F = flate_decode F DIGITS (- 2) 100000"

definition bench_flate_decode_digits_huffman_1e6 :: "'m codec_lib \<Rightarrow> 'm cstmt" where
  "bench_flate_decode_digits_huffman_1e6 F = flate_decode F DIGITS (- 2) 1000000"

definition bench_flate_decode_digits_speed_1e4 :: "'m codec_lib \<Rightarrow> 'm cstmt" where
  "bench_flate_decode_digits_speed_1e4 F = flate_decode F DIGITS 1 10000"

definition bench_flate_decode_digits_speed_1e5 :: "'m codec_lib \<Rightarrow> 'm cstmt" where
  "bench_flate_decode_digits_speed_1e5 F = flate_decode F DIGITS 1 100000"

definition bench_flate_decode_digits_speed_1e6 :: "'m codec_lib \<Rightarrow> 'm cstmt" where
  "bench_flate_decode_digits_speed_1e6 F = flate_decode F DIGITS 1 1000000"

definition bench_flate_decode_digits_default_1e4 :: "'m codec_lib \<Rightarrow> 'm cstmt" where
  "bench_flate_decode_digits_default_1e4 F = flate_decode F DIGITS (- 1) 10000"

definition bench_flate_decode_digits_default_1e5 :: "'m codec_lib \<Rightarrow> 'm cstmt" where
  "bench_flate_decode_digits_default_1e5 F = flate_decode F DIGITS (- 1) 100000"

definition bench_flate_decode_digits_default_1e6 :: "'m codec_lib \<Rightarrow> 'm cstmt" where
  "bench_flate_decode_digits_default_1e6 F = flate_decode F DIGITS (- 1) 1000000"

definition bench_flate_decode_digits_compression_1e4 :: "'m codec_lib \<Rightarrow> 'm cstmt" where
  "bench_flate_decode_digits_compression_1e4 F = flate_decode F DIGITS 9 10000"

definition bench_flate_decode_digits_compression_1e5 :: "'m codec_lib \<Rightarrow> 'm cstmt" where
  "bench_flate_decode_digits_compression_1e5 F = flate_decode F DIGITS 9 100000"

definition bench_flate_decode_digits_compression_1e6 :: "'m codec_lib \<Rightarrow> 'm cstmt" where
  "bench_flate_decode_digits_compression_1e6 F = flate_decode F DIGITS 9 1000000"

definition bench_flate_decode_newton_huffman_1e4 :: "'m codec_lib \<Rightarrow> 'm cstmt" where
  "bench_flate_decode_newton_huffman_1e4 F = flate_decode F NEWTON (- 2) 10000"

definition bench_flate_decode_newton_huffman_1e5 :: "'m codec_lib \<Rightarrow> 'm cstmt" where
  "bench_flate_decode_newton_huffman_1e5 F = flate_decode F NEWTON (- 2) 100000"

definition bench_flate_decode_newton_huffman_1e6 :: "'m codec_lib \<Rightarrow> 'm cstmt" where
  "bench_flate_decode_newton_huffman_1e6 F = flate_decode F NEWTON (- 2) 1000000"

definition bench_flate_decode_newton_speed_1e4 :: "'m codec_lib \<Rightarrow> 'm cstmt" where
  "bench_flate_decode_newton_speed_1e4 F = flate_decode F NEWTON 1 10000"

definition bench_flate_decode_newton_speed_1e5 :: "'m codec_lib \<Rightarrow> 'm cstmt" where
  "bench_flate_decode_newton_speed_1e5 F = flate_decode F NEWTON 1 100000"

definition bench_flate_decode_newton_speed_1e6 :: "'m codec_lib \<Rightarrow> 'm cstmt" where
  "bench_flate_decode_newton_speed_1e6 F = flate_decode F NEWTON 1 1000000"

definition bench_flate_decode_newton_default_1e4 :: "'m codec_lib \<Rightarrow> 'm cstmt" where
  "bench_flate_decode_newton_default_1e4 F = flate_decode F NEWTON (- 1) 10000"

definition bench_flate_decode_newton_default_1e5 :: "'m codec_lib \<Rightarrow> 'm cstmt" where
  "bench_flate_decode_newton_default_1e5 F = flate_decode F NEWTON (- 1) 100000"

definition bench_flate_decode_newton_default_1e6 :: "'m codec_lib \<Rightarrow> 'm cstmt" where
  "bench_flate_decode_newton_default_1e6 F = flate_decode F NEWTON (- 1) 1000000"

definition bench_flate_decode_newton_compression_1e4 :: "'m codec_lib \<Rightarrow> 'm cstmt" where
  "bench_flate_decode_newton_compression_1e4 F = flate_decode F NEWTON 9 10000"

definition bench_flate_decode_newton_compression_1e5 :: "'m codec_lib \<Rightarrow> 'm cstmt" where
  "bench_flate_decode_newton_compression_1e5 F = flate_decode F NEWTON 9 100000"

definition bench_flate_decode_newton_compression_1e6 :: "'m codec_lib \<Rightarrow> 'm cstmt" where
  "bench_flate_decode_newton_compression_1e6 F = flate_decode F NEWTON 9 1000000"

definition flate_table :: "'m codec_lib \<Rightarrow> (string \<times> 'm cstmt) list" where
  "flate_table F = [
     (''flate_encode_digits_huffman_1e4'', bench_flate_encode_digits_huffman_1e4 F),
     (''flate_encode_digits_huffman_1e5'', bench_flate_encode_digits_huffman_1e5 F),
     (''flate_encode_digits_huffman_1e6'', bench_flate_encode_digits_huffman_1e6 F),
     (''flate_encode_digits_speed_1e4'', bench_flate_encode_digits_speed_1e4 F),
     (''flate_encode_digits_speed_1e5'', bench_flate_encode_digits_speed_1e5 F),
     (''flate_encode_digits_speed_1e6'', bench_flate_encode_digits_speed_1e6 F),
     (''flate_encode_digits_default_1e4'', bench_flate_encode_digits_default_1e4 F),
     (''flate_encode_digits_default_1e5'', bench_flate_encode_digits_default_1e5 F),
     (''flate_encode_digits_default_1e6'', bench_flate_encode_digits_default_1e6 F),
     (''flate_encode_digits_compression_1e4'', bench_flate_encode_digits_compression_1e4 F),
     (''flate_encode_digits_compression_1e5'', bench_flate_encode_digits_compression_1e5 F),
     (''flate_encode_digits_compression_1e6'', bench_flate_encode_digits_compression_1e6 F),
     (''flate_encode_newton_huffman_1e4'', bench_flate_encode_newton_huffman_1e4 F),
     (''flate_encode_newton_huffman_1e5'', bench_flate_encode_newton_huffman_1e5 F),
     (''flate_encode_newton_huffman_1e6'', bench_flate_encode_newton_huffman_1e6 F),
     (''flate_encode_newton_speed_1e4'', bench_flate_encode_newton_speed_1e4 F),
     (''flate_encode_newton_speed_1e5'', bench_flate_encode_newton_speed_1e5 F),
     (''flate_encode_newton_speed_1e6'', bench_flate_encode_newton_speed_1e6 F),
     (''flate_encode_newton_default_1e4'', bench_flate_encode_newton_default_1e4 F),
     (''flate_encode_newton_default_1e5'', bench_flate_encode_newton_default_1e5 F),
     (''flate_encode_newton_default_1e6'', bench_flate_encode_newton_default_1e6 F),
     (''flate_encode_newton_compression_1e4'', bench_flate_encode_newton_compression_1e4 F),
     (''flate_encode_newton_compression_1e5'', bench_flate_encode_newton_compression_1e5 F),
     (''flate_encode_newton_compression_1e6'', bench_flate_encode_newton_compression_1e6 F),
     (''flate_decode_digits_huffman_1e4'', bench_flate_decode_digits_huffman_1e4 F),
     (''flate_decode_digits_huffman_1e5'', bench_flate_decode_digits_huffman_1e5 F),
     (''flate_decode_digits_huffman_1e6'', bench_flate_decode_digits_huffman_1e6 F),
     (''flate_decode_digits_speed_1e4'', bench_flate_decode_digits_speed_1e4 F),
     (''flate_decode_digits_speed_1e5'', bench_flate_decode_digits_speed_1e5 F),
     (''flate_decode_digits_speed_1e6'', bench_flate_decode_digits_speed_1e6 F),
     (''flate_decode_digits_default_1e4'', bench_flate_decode_digits_default_1e4 F),
     (''flate_decode_digits_default_1e5'', bench_flate_decode_digits_default_1e5 F),
     (''flate_decode_digits_default_1e6'', bench_flate_decode_digits_default_1e6 F),
     (''flate_decode_digits_compression_1e4'', bench_flate_decode_digits_compression_1e4 F),
     (''flate_decode_digits_compression_1e5'', bench_flate_decode_digits_compression_1e5 F),
     (''flate_decode_digits_compression_1e6'', bench_flate_decode_digits_compression_1e6 F),
     (''flate_decode_newton_huffman_1e4'', bench_flate_decode_newton_huffman_1e4 F),
     (''flate_decode_newton_huffman_1e5'', bench_flate_decode_newton_huffman_1e5 F),
     (''flate_decode_newton_huffman_1e6'', bench_flate_decode_newton_huffman_1e6 F),
     (''flate_decode_newton_speed_1e4'', bench_flate_decode_newton_speed_1e4 F),
     (''flate_decode_newton_speed_1e5'', bench_flate_decode_newton_speed_1e5 F),
     (''flate_decode_newton_speed_1e6'', bench_flate_decode_newton_speed_1e6 F),
     (''flate_decode_newton_default_1e4'', bench_flate_decode_newton_default_1e4 F),
     (''flate_decode_newton_default_1e5'', bench_flate_decode_newton_default_1e5 F),
     (''flate_decode_newton_default_1e6'', bench_flate_decode_newton_default_1e6 F),
     (''flate_decode_newton_compression_1e4'', bench_flate_decode_newton_compression_1e4 F),
     (''flate_decode_newton_compression_1e5'', bench_flate_decode_newton_compression_1e5 F),
     (''flate_decode_newton_compression_1e6'', bench_flate_decode_newton_compression_1e6 F)]"

lemmas flate_bodies =
  bench_flate_encode_digits_huffman_1e4_def bench_flate_encode_digits_huffman_1e5_def
  bench_flate_encode_digits_huffman_1e6_def bench_flate_encode_digits_speed_1e4_def
  bench_flate_encode_digits_speed_1e5_def bench_flate_encode_digits_speed_1e6_def
  bench_flate_encode_digits_default_1e4_def bench_flate_encode_digits_default_1e5_def
  bench_flate_encode_digits_default_1e6_def bench_flate_encode_digits_compression_1e4_def
  bench_flate_encode_digits_compression_1e5_def bench_flate_encode_digits_compression_1e6_def
  bench_flate_encode_newton_huffman_1e4_def bench_flate_encode_newton_huffman_1e5_def
  bench_flate_encode_newton_huffman_1e6_def bench_flate_encode_newton_speed_1e4_def
  bench_flate_encode_newton_speed_1e5_def bench_flate_encode_newton_speed_1e6_def
  bench_flate_encode_newton_default_1e4_def bench_flate_encode_newton_default_1e5_def
  bench_flate_encode_newton_default_1e6_def bench_flate_encode_newton_compression_1e4_def
  bench_flate_encode_newton_compression_1e5_def bench_flate_encode_newton_compression_1e6_def
  bench_flate_decode_digits_huffman_1e4_def bench_flate_decode_digits_huffman_1e5_def
  bench_flate_decode_digits_huffman_1e6_def bench_flate_decode_digits_speed_1e4_def
  bench_flate_decode_digits_speed_1e5_def bench_flate_decode_digits_speed_1e6_def
  bench_flate_decode_digits_default_1e4_def bench_flate_decode_digits_default_1e5_def
  bench_flate_decode_digits_default_1e6_def bench_flate_decode_digits_compression_1e4_def
  bench_flate_decode_digits_compression_1e5_def bench_flate_decode_digits_compression_1e6_def
  bench_flate_decode_newton_huffman_1e4_def bench_flate_decode_newton_huffman_1e5_def
  bench_flate_decode_newton_huffman_1e6_def bench_flate_decode_newton_speed_1e4_def
  bench_flate_decode_newton_speed_1e5_def bench_flate_decode_newton_speed_1e6_def
  bench_flate_decode_newton_default_1e4_def bench_flate_decode_newton_default_1e5_def
  bench_flate_decode_newton_default_1e6_def bench_flate_decode_newton_compression_1e4_def
  bench_flate_decode_newton_compression_1e5_def bench_flate_decode_newton_compression_1e6_def

section \<open>lzw\<close>

definition lzw_compressed_input :: "'m codec_lib \<Rightarrow> nat \<Rightarrow> (string \<Rightarrow> 'm cstmt) \<Rightarrow> 'm cstmt" where
  "lzw_compressed_input Z n k = read_file Z DIGITS (\<lambda>src.
     calling (new_writer Z True 8) (\<lambda>w. unless_null w (block [
       block (map (\<lambda>p. run_op (writer_write Z w (take (snd p) src))) (pieces (length src) n 0)),
       calling (writer_close Z w) (\<lambda>failed. if failed then aborting else Some),
       run_op (writer_free Z w),
       calling (buffer_bytes Z) k])))"

definition lzw_decode :: "'m codec_lib \<Rightarrow> nat \<Rightarrow> 'm cstmt" where
  "lzw_decode Z n = lzw_compressed_input Z n (\<lambda>c. block [
     set_int ''total'' 0,
     bench_loop (\<lambda>i. calling (new_reader Z c) (\<lambda>r. calling (copy_discard Z r) (\<lambda>k.
       block [add_total (fst k), run_op (reader_free Z r)]))),
     check_total (int n),
     run_op (buffer_free Z)])"

definition lzw_decode_reuse :: "'m codec_lib \<Rightarrow> nat \<Rightarrow> 'm cstmt" where
  "lzw_decode_reuse Z n = lzw_compressed_input Z n (\<lambda>c.
     calling (new_reader Z c) (\<lambda>r. unless_null r (block [
       set_int ''total'' 0,
       bench_loop (\<lambda>i. calling (copy_discard Z r) (\<lambda>k. block [
         add_total (fst k), run_op (reader_close Z r), run_op (reader_reset Z r c)])),
       check_total (int n),
       run_op (reader_free Z r),
       run_op (buffer_free Z)])))"

definition lzw_encode :: "'m codec_lib \<Rightarrow> nat \<Rightarrow> 'm cstmt" where
  "lzw_encode Z n = read_file Z DIGITS (\<lambda>src. checked (sized_input src n) (\<lambda>inp.
     bench_loop (\<lambda>i. calling (new_writer Z False 8) (\<lambda>w. block [
       run_op (writer_write Z w inp), run_op (writer_close Z w), run_op (writer_free Z w)]))))"

definition lzw_encode_reuse :: "'m codec_lib \<Rightarrow> nat \<Rightarrow> 'm cstmt" where
  "lzw_encode_reuse Z n = read_file Z DIGITS (\<lambda>src. checked (sized_input src n) (\<lambda>inp.
     calling (new_writer Z False 8) (\<lambda>w. unless_null w (block [
       bench_loop (\<lambda>i. block [run_op (writer_write Z w inp), run_op (writer_close Z w),
         run_op (writer_reset Z w)]),
       run_op (writer_free Z w)]))))"

definition bench_lzw_decode_1e4 :: "'m codec_lib \<Rightarrow> 'm cstmt" where
  "bench_lzw_decode_1e4 Z = lzw_decode Z 10000"

definition bench_lzw_decode_1e5 :: "'m codec_lib \<Rightarrow> 'm cstmt" where
  "bench_lzw_decode_1e5 Z = lzw_decode Z 100000"

definition bench_lzw_decode_1e6 :: "'m codec_lib \<Rightarrow> 'm cstmt" where
  "bench_lzw_decode_1e6 Z = lzw_decode Z 1000000"

definition bench_lzw_decode_reuse_1e4 :: "'m codec_lib \<Rightarrow> 'm cstmt" where
  "bench_lzw_decode_reuse_1e4 Z = lzw_decode_reuse Z 10000"

definition bench_lzw_decode_reuse_1e5 :: "'m codec_lib \<Rightarrow> 'm cstmt" where
  "bench_lzw_decode_reuse_1e5 Z = lzw_decode_reuse Z 100000"

definition bench_lzw_decode_reuse_1e6 :: "'m codec_lib \<Rightarrow> 'm cstmt" where
  "bench_lzw_decode_reuse_1e6 Z = lzw_decode_reuse Z 1000000"

definition bench_lzw_encode_1e4 :: "'m codec_lib \<Rightarrow> 'm cstmt" where
  "bench_lzw_encode_1e4 Z = lzw_encode Z 10000"

definition bench_lzw_encode_1e5 :: "'m codec_lib \<Rightarrow> 'm cstmt" where
  "bench_lzw_encode_1e5 Z = lzw_encode Z 100000"

definition bench_lzw_encode_1e6 :: "'m codec_lib \<Rightarrow> 'm cstmt" where
  "bench_lzw_encode_1e6 Z = lzw_encode Z 1000000"

definition bench_lzw_encode_reuse_1e4 :: "'m codec_lib \<Rightarrow> 'm cstmt" where
  "bench_lzw_encode_reuse_1e4 Z = lzw_encode_reuse Z 10000"

definition bench_lzw_encode_reuse_1e5 :: "'m codec_lib \<Rightarrow> 'm cstmt" where
  "bench_lzw_encode_reuse_1e5 Z = lzw_encode_reuse Z 100000"

definition bench_lzw_encode_reuse_1e6 :: "'m codec_lib \<Rightarrow> 'm cstmt" where
  "bench_lzw_encode_reuse_1e6 Z = lzw_encode_reuse Z 1000000"

definition lzw_table :: "'m codec_lib \<Rightarrow> (string \<times> 'm cstmt) list" where
  "lzw_table Z = [
     (''lzw_decode_1e4'', bench_lzw_decode_1e4 Z),
     (''lzw_decode_1e5'', bench_lzw_decode_1e5 Z),
     (''lzw_decode_1e6'', bench_lzw_decode_1e6 Z),
     (''lzw_decode_reuse_1e4'', bench_lzw_decode_reuse_1e4 Z),
     (''lzw_decode_reuse_1e5'', bench_lzw_decode_reuse_1e5 Z),
     (''lzw_decode_reuse_1e6'', bench_lzw_decode_reuse_1e6 Z),
     (''lzw_encode_1e4'', bench_lzw_encode_1e4 Z),
     (''lzw_encode_1e5'', bench_lzw_encode_1e5 Z),
     (''lzw_encode_1e6'', bench_lzw_encode_1e6 Z),
     (''lzw_encode_reuse_1e4'', bench_lzw_encode_reuse_1e4 Z),
     (''lzw_encode_reuse_1e5'', bench_lzw_encode_reuse_1e5 Z),
     (''lzw_encode_reuse_1e6'', bench_lzw_encode_reuse_1e6 Z)]"

lemmas lzw_bodies =
  bench_lzw_decode_1e4_def bench_lzw_decode_1e5_def bench_lzw_decode_1e6_def
  bench_lzw_decode_reuse_1e4_def bench_lzw_decode_reuse_1e5_def bench_lzw_decode_reuse_1e6_def
  bench_lzw_encode_1e4_def bench_lzw_encode_1e5_def bench_lzw_encode_1e6_def
  bench_lzw_encode_reuse_1e4_def bench_lzw_encode_reuse_1e5_def bench_lzw_encode_reuse_1e6_def

section \<open>bzip2\<close>

definition bzip2_decode_once :: "'m codec_lib \<Rightarrow> string \<Rightarrow> (int \<Rightarrow> 'm cstmt) \<Rightarrow> 'm cstmt" where
  "bzip2_decode_once B c k = calling (new_reader B c) (\<lambda>r. unless_null r (
     calling (copy_discard B r) (\<lambda>res. block [
       run_op (reader_free B r),
       if snd res then aborting else Some,
       k (fst res)])))"

definition bzip2_decode :: "'m codec_lib \<Rightarrow> string \<Rightarrow> 'm cstmt" where
  "bzip2_decode B path = read_file B path (\<lambda>c. bzip2_decode_once B c (\<lambda>sz. block [
     set_int ''total'' 0,
     bench_loop (\<lambda>i. bzip2_decode_once B c add_total),
     check_total sz]))"

definition bench_bzip2_decode_digits :: "'m codec_lib \<Rightarrow> 'm cstmt" where
  "bench_bzip2_decode_digits B = bzip2_decode B ''testdata/e.txt.bz2''"

definition bench_bzip2_decode_newton :: "'m codec_lib \<Rightarrow> 'm cstmt" where
  "bench_bzip2_decode_newton B = bzip2_decode B ''testdata/Isaac.Newton-Opticks.txt.bz2''"

definition bench_bzip2_decode_rand :: "'m codec_lib \<Rightarrow> 'm cstmt" where
  "bench_bzip2_decode_rand B = bzip2_decode B ''testdata/random.data.bz2''"

definition bzip2_table :: "'m codec_lib \<Rightarrow> (string \<times> 'm cstmt) list" where
  "bzip2_table B = [
     (''bzip2_decode_digits'', bench_bzip2_decode_digits B),
     (''bzip2_decode_newton'', bench_bzip2_decode_newton B),
     (''bzip2_decode_rand'', bench_bzip2_decode_rand B)]"

section \<open>The contract\<close>

lemma codec_moves [contract_rules]:
  "(\<And>s. does (advances clock) (k s)) \<Longrightarrow> does (advances clock) (read_file F path k)"
  "does (advances clock) body \<Longrightarrow> does (advances clock) (unless_null p body)"
  "does (advances clock) (add_total d)" "does (advances clock) (check_total sz)"
  unfolding read_file_def unless_null_def add_total_def check_total_def
  by (intro contract_rules; assumption)+

lemma pieces_move:
  "does (advances clock) (block (map (\<lambda>p. run_op (f p)) ps))"
  by (rule moving.block_rule) (auto intro!: contract_rules)

lemma flate_moves [contract_rules]:
  "does (advances clock) (flate_encode F path lv n)" "does (advances clock) (flate_decode F path lv n)"
  unfolding flate_encode_def flate_decode_def write_pieces_def
  by (intro contract_rules pieces_move)+

lemma lzw_moves [contract_rules]:
  "(\<And>s. does (advances clock) (k s)) \<Longrightarrow> does (advances clock) (lzw_compressed_input Z n k)"
  "does (advances clock) (lzw_decode Z n)" "does (advances clock) (lzw_decode_reuse Z n)"
  "does (advances clock) (lzw_encode Z n)" "does (advances clock) (lzw_encode_reuse Z n)"
proof -
  show input: "does (advances clock) (lzw_compressed_input Z n k)"
    if "\<And>s. does (advances clock) (k s)" for k
    unfolding lzw_compressed_input_def by (intro contract_rules pieces_move that)
  show "does (advances clock) (lzw_decode Z n)" "does (advances clock) (lzw_decode_reuse Z n)"
    unfolding lzw_decode_def lzw_decode_reuse_def by (intro input contract_rules)+
  show "does (advances clock) (lzw_encode Z n)" "does (advances clock) (lzw_encode_reuse Z n)"
    unfolding lzw_encode_def lzw_encode_reuse_def by (intro contract_rules)+
qed

lemma bzip2_moves [contract_rules]:
  "(\<And>s. does (advances clock) (k s)) \<Longrightarrow> does (advances clock) (bzip2_decode_once B c k)"
  "does (advances clock) (bzip2_decode B path)"
proof -
  show once: "does (advances clock) (bzip2_decode_once B c k)"
    if "\<And>s. does (advances clock) (k s)" for k c
    unfolding bzip2_decode_once_def by (intro contract_rules that)
  show "does (advances clock) (bzip2_decode B path)"
    unfolding bzip2_decode_def by (intro contract_rules once)
qed

lemma flate_table_moves: "(nm, f) \<in> set (flate_table F) \<Longrightarrow> does (advances clock) f"
  by (auto simp: flate_table_def flate_bodies intro: flate_moves)

lemma lzw_table_moves: "(nm, f) \<in> set (lzw_table Z) \<Longrightarrow> does (advances clock) f"
  by (auto simp: lzw_table_def lzw_bodies intro: lzw_moves)

lemma bzip2_table_moves: "(nm, f) \<in> set (bzip2_table B) \<Longrightarrow> does (advances clock) f"
  by (auto simp: bzip2_table_def bench_bzip2_decode_digits_def bench_bzip2_decode_newton_def
      bench_bzip2_decode_rand_def intro: bzip2_moves)

section \<open>The rows say what they measure\<close>

definition flate_row_name :: "string \<Rightarrow> string \<Rightarrow> string \<Rightarrow> string \<Rightarrow> string" where
  "flate_row_name oper corpus lv sz = ''flate_'' @ oper @ ''_'' @ corpus @ ''_'' @ lv @ ''_'' @ sz"

definition flate_grid :: "'m codec_lib \<Rightarrow> (string \<times> 'm cstmt) list" where
  "flate_grid F =
     [(flate_row_name oper corpus lv sz, f path level n).
        (oper, f) \<leftarrow> [(''encode'', flate_encode F), (''decode'', flate_decode F)],
        (corpus, path) \<leftarrow> [(''digits'', DIGITS), (''newton'', NEWTON)],
        (lv, level) \<leftarrow> [(''huffman'', - 2), (''speed'', 1), (''default'', - 1), (''compression'', 9)],
        (sz, n) \<leftarrow> [(''1e4'', 10000), (''1e5'', 100000), (''1e6'', 1000000)]]"

text \<open>
  Equivalence: every one of the 48 rows written out in the file runs what its name says. The
  table of names and bodies is the full grid of two operations, two corpora, four levels and
  three sizes, each name built from the words of its own parameters, with no row missing,
  repeated or mixed up.
\<close>
theorem flate_rows_are_the_grid:
  "flate_table F = flate_grid F"
  by (simp add: flate_table_def flate_grid_def flate_row_name_def flate_bodies)

section \<open>The input is the file, repeated or cut\<close>

lemma pieces_slices:
  assumes "0 < len" and "i \<le> n" and "length inp = n"
  shows "concat (map (\<lambda>p. take (snd p) (drop (fst p) inp)) (pieces len n i)) = drop i inp"
  using assms
proof (induction len n i rule: pieces.induct)
  case (1 len n i)
  show ?case
  proof (cases "n \<le> i")
    case True
    then show ?thesis using 1 by (simp add: pieces.simps)
  next
    case False
    show ?thesis
    proof (cases "n - i < len")
      case True
      then have "pieces len n (i + len) = []" by (simp add: pieces.simps)
      with True False 1 show ?thesis by (subst pieces.simps) simp
    next
      case ge: False
      have "concat (map (\<lambda>p. take (snd p) (drop (fst p) inp)) (pieces len n (i + len))) = drop (i + len) inp"
        by (rule "1.IH") (use False ge 1 in auto)
      moreover have "drop (i + len) inp = drop len (drop i inp)" by (simp add: add.commute)
      moreover have "pieces len n i = (i, len) # pieces len n (i + len)"
        using False ge 1(2) by (subst pieces.simps) simp
      ultimately show ?thesis by (simp only: list.map concat.simps fst_conv snd_conv append_take_drop_id)
    qed
  qed
qed

lemma sized_from:
  assumes "src \<noteq> []" and "i \<le> n" and "i mod length src = 0"
  shows "concat (map (\<lambda>p. take (snd p) src) (pieces (length src) n i))
    = map (\<lambda>j. src ! (j mod length src)) [i..<n]"
  using assms
proof (induction "length src" n i rule: pieces.induct)
  case (1 n i)
  let ?len = "length src"
  show ?case
  proof (cases "n \<le> i")
    case True
    then show ?thesis by (simp add: pieces.simps)
  next
    case False
    have run: "take k src = map (\<lambda>j. src ! (j mod ?len)) [i..<i + k]" if "k \<le> ?len" for k
      using that 1(4) by (intro nth_equalityI) (auto simp: mod_add_left_eq [symmetric])
    show ?thesis
    proof (cases "n - i < ?len")
      case True
      then have "pieces ?len n (i + ?len) = []" by (auto simp: pieces.simps)
      with True False run [of "n - i"] 1(2) show ?thesis by (subst pieces.simps) simp
    next
      case ge: False
      have "concat (map (\<lambda>p. take (snd p) src) (pieces ?len n (i + ?len)))
        = map (\<lambda>j. src ! (j mod ?len)) [i + ?len..<n]"
        by (rule 1(1)) (use False ge 1(2,4) in auto)
      moreover have "[i..<n] = [i..<i + ?len] @ [i + ?len..<n]"
        using ge False upt_add_eq_append [of i "i + ?len" "n - (i + ?len)"] by simp
      ultimately show ?thesis
        using False ge 1(2) run [of ?len] by (subst pieces.simps) simp
    qed
  qed
qed

text \<open>
  Functional: the input of every compression row has exactly \<open>n\<close> bytes and is the file
  repeated or cut: byte \<open>j\<close> is byte \<open>j mod len\<close> of the file. The pieces the decode
  rows write are consecutive and cover the input, so what they compress is the input.
\<close>
theorem sized_input_repeats:
  assumes "src \<noteq> []"
  shows "sized_input src n = Some (map (\<lambda>j. src ! (j mod length src)) [0..<n])
    \<and> (\<forall>inp. length inp = n \<longrightarrow>
        concat (map (\<lambda>(i, k). take k (drop i inp)) (pieces (length src) n 0)) = inp)"
proof
  show "sized_input src n = Some (map (\<lambda>j. src ! (j mod length src)) [0..<n])"
    using assms sized_from [of src 0 n] by (simp add: sized_input_def case_prod_unfold)
  show "\<forall>inp. length inp = n \<longrightarrow>
      concat (map (\<lambda>(i, k). take k (drop i inp)) (pieces (length src) n 0)) = inp"
    using assms pieces_slices [of "length src" 0 n] by (auto simp: case_prod_unfold)
qed

theorem sized_input_repeats_witness:
  "sized_input ''abc'' 7 = Some ''abcabca''"
  using sized_input_repeats [of "''abc''" 7, THEN conjunct1] by (simp add: upt_rec)

section \<open>The checks at the end\<close>

text \<open>
  What burrow documents of a codec. The observers say how far a machine is: \<open>in_writer\<close> is the open
  writer to the buffer with what it has been given, \<open>shut_writer\<close> the one that has been closed,
  \<open>in_buffer\<close> the text whose compressed form is complete in the buffer, \<open>on_reader\<close> the reader with the
  compressed bytes it is at the start of, and \<open>at_end\<close> the reader that has come to their end. \<open>plain\<close>
  is the length of the text that compressed bytes stand for, \<open>data\<close> the content of the files.

  A writer keeps back what it is given: nothing is promised of the buffer before the writer has been
  closed, nor of a writer after that. A reader gives its text once: nothing is promised of a second
  copy from it before it has been closed and reset.
\<close>

record 'm codec_obs =
  in_writer :: "'m \<Rightarrow> (nat \<times> string) option"
  shut_writer :: "'m \<Rightarrow> (nat \<times> string) option"
  in_buffer :: "'m \<Rightarrow> string option"
  on_reader :: "'m \<Rightarrow> (nat \<times> string) option"
  at_end :: "'m \<Rightarrow> nat option"

definition codec_law ::
  "'m codec_lib \<Rightarrow> (string \<Rightarrow> string) \<Rightarrow> 'm codec_obs \<Rightarrow> (string \<Rightarrow> nat) \<Rightarrow> bool" where
  "codec_law F data ob plain \<longleftrightarrow>
     (\<forall>path m. fst (read_whole F path m) = Some (data path))
   \<and> (\<forall>lv m. fst (new_writer F True lv m) \<noteq> 0
        \<and> in_writer ob (snd (snd (new_writer F True lv m))) = Some (fst (new_writer F True lv m), []))
   \<and> (\<forall>h s d m. in_writer ob m = Some (h, s) \<longrightarrow> in_writer ob (snd (snd (writer_write F h d m))) = Some (h, s @ d))
   \<and> (\<forall>h s m. in_writer ob m = Some (h, s) \<longrightarrow> \<not> fst (writer_close F h m)
        \<and> shut_writer ob (snd (snd (writer_close F h m))) = Some (h, s))
   \<and> (\<forall>h s m. shut_writer ob m = Some (h, s) \<longrightarrow> in_buffer ob (snd (snd (writer_free F h m))) = Some s)
   \<and> (\<forall>s m. in_buffer ob m = Some s \<longrightarrow> plain (fst (buffer_bytes F m)) = length s)
   \<and> (\<forall>c m. fst (new_reader F c m) \<noteq> 0
        \<and> on_reader ob (snd (snd (new_reader F c m))) = Some (fst (new_reader F c m), c))
   \<and> (\<forall>r c m. on_reader ob m = Some (r, c) \<longrightarrow> fst (copy_discard F r m) = (int (plain c), False)
        \<and> at_end ob (snd (snd (copy_discard F r m))) = Some r)
   \<and> (\<forall>r m. at_end ob m = Some r \<longrightarrow> at_end ob (snd (snd (reader_close F r m))) = Some r)
   \<and> (\<forall>r c m. at_end ob m = Some r \<longrightarrow> on_reader ob (snd (snd (reader_reset F r c m))) = Some (r, c))"

lemma codec_lawD:
  assumes "codec_law F data ob plain"
  shows "fst (read_whole F path m) = Some (data path)"
    "fst (new_writer F True lv m) \<noteq> 0"
    "in_writer ob (snd (snd (new_writer F True lv m))) = Some (fst (new_writer F True lv m), [])"
    "in_writer ob m = Some (h, s) \<Longrightarrow> in_writer ob (snd (snd (writer_write F h d m))) = Some (h, s @ d)"
    "in_writer ob m = Some (h, s) \<Longrightarrow> \<not> fst (writer_close F h m)"
    "in_writer ob m = Some (h, s) \<Longrightarrow> shut_writer ob (snd (snd (writer_close F h m))) = Some (h, s)"
    "shut_writer ob m = Some (h, s) \<Longrightarrow> in_buffer ob (snd (snd (writer_free F h m))) = Some s"
    "in_buffer ob m = Some s \<Longrightarrow> plain (fst (buffer_bytes F m)) = length s"
    "fst (new_reader F c m) \<noteq> 0" "on_reader ob (snd (snd (new_reader F c m))) = Some (fst (new_reader F c m), c)"
    "on_reader ob m = Some (r, c) \<Longrightarrow> fst (copy_discard F r m) = (int (plain c), False)"
    "on_reader ob m = Some (r, c) \<Longrightarrow> at_end ob (snd (snd (copy_discard F r m))) = Some r"
    "at_end ob m = Some r \<Longrightarrow> at_end ob (snd (snd (reader_close F r m))) = Some r"
    "at_end ob m = Some r \<Longrightarrow> on_reader ob (snd (snd (reader_reset F r c m))) = Some (r, c)"
  using assms by (simp_all add: codec_law_def)

lemma write_pieces_sends:
  assumes "codec_law F data ob plain" and "in_writer ob (machine (rest w)) = Some (h, s)"
  shows "\<exists>w'. block (map (\<lambda>p. run_op (writer_write F h (g p))) ps) w = Some w' \<and> bch w' = bch w
    \<and> kept w' = kept w \<and> in_writer ob (machine (rest w')) = Some (h, s @ concat (map g ps))"
  using assms(2)
proof (induction ps arbitrary: w s)
  case (Cons p ps)
  show ?case
    using Cons.IH [of "snd (call (lib (writer_write F h (g p))) w)" "s @ g p"] Cons.prems
    by (simp add: calling_def split_beta codec_lawD(4) [OF assms(1)])
qed simp

text \<open>What is in the buffer once the writer has been closed and freed.\<close>

lemma closed_and_freed:
  assumes "codec_law F data ob plain" and "in_writer ob (machine (rest w)) = Some (h, s)"
  shows "plain (fst (buffer_bytes F (snd (snd (writer_free F h (snd (snd (writer_close F h (machine (rest w)))))))))) = length s"
  by (rule codec_lawD(8) [OF assms(1) codec_lawD(7) [OF assms(1) codec_lawD(6) [OF assms]]])

text \<open>The loop of a decode row: \<open>size\<close> bytes a round, and the check after it.\<close>

lemma decode_loop_total:
  fixes body :: "int \<Rightarrow> 'm cstmt"
  assumes round_ok: "\<And>i v. int_var (rest v) ''total'' = int i * sz \<Longrightarrow> in_int64 (int (Suc i) * sz) \<Longrightarrow>
      \<exists>v'. body (int i) v = Some v' \<and> bch v' = bch v \<and> int_var (rest v') ''total'' = int (Suc i) * sz"
    and "0 \<le> sz" and "0 \<le> b_n (bch w)" and "in_int64 (b_n (bch w) * sz)"
    and "int_var (rest w) ''total'' = 0"
  shows "\<exists>w'. bench_loop body w = Some w' \<and> bch w' = bch w
    \<and> int_var (rest w') ''total'' = b_n (bch w) * sz"
proof -
  let ?I = "\<lambda>i v. bch v = bch w \<and> int_var (rest v) ''total'' = int i * sz"
  have "\<exists>w'. for_loop (nat (b_n (bch w))) 0 body w = Some w' \<and> ?I (nat (b_n (bch w))) w'"
  proof (rule for_loop_total [where I = ?I])
    fix i and v :: "'m process world" assume i: "i < nat (b_n (bch w))" and v: "?I i v"
    have "int (Suc i) * sz \<le> b_n (bch w) * sz" using i assms(2) by (intro mult_right_mono) auto
    moreover have "0 \<le> int (Suc i) * sz" using assms(2) by simp
    ultimately have "in_int64 (int (Suc i) * sz)" using assms(4) by (auto simp: in_int64_def)
    with round_ok [of v i] v show "\<exists>v'. body (0 + int i) v = Some v' \<and> ?I (Suc i) v'" by auto
  qed (simp add: assms(5))
  then show ?thesis using assms(3) by (simp add: bench_loop_def)
qed

lemma add_total_effect:
  assumes "int_var (rest v) ''total'' = t" and "in_int64 (t + k)"
  shows "add_total k v = Some (v\<lparr>rest := (rest v)\<lparr>int_var := (int_var (rest v))(''total'' := t + k)\<rparr>\<rparr>)"
  using assms by (simp add: add_total_def stmt_simps perform_def add64_def check64_def)

lemma check_total_passes:
  assumes "int_var (rest v) ''total'' = b_n (bch v) * sz" and "in_int64 (b_n (bch v) * sz)"
  shows "check_total sz v = Some v"
  using assms by (simp add: check_total_def stmt_simps mul64_def check64_def)

lemma decode_rounds:
  assumes L: "codec_law F data ob plain" and "plain c = n"
    and "0 \<le> b_n (bch w)" and "in_int64 (b_n (bch w) * int n)"
  shows "\<exists>w'. block [set_int ''total'' 0,
     bench_loop (\<lambda>i. calling (new_reader F c) (\<lambda>rc. calling (copy_discard F rc) (\<lambda>r.
       block [add_total (fst r), run_op (reader_free F rc)]))),
     check_total (int n), run_op (buffer_free F)] w = Some w' \<and> bch w' = bch w"
proof -
  let ?w = "perform (\<lambda>p. p\<lparr>int_var := (int_var p)(''total'' := 0)\<rparr>) w"
  let ?body = "\<lambda>i :: int. calling (new_reader F c) (\<lambda>rc. calling (copy_discard F rc) (\<lambda>r.
       block [add_total (fst r), run_op (reader_free F rc)]))"
  have "\<exists>w'. bench_loop ?body ?w = Some w' \<and> bch w' = bch ?w
      \<and> int_var (rest w') ''total'' = b_n (bch ?w) * int n"
  proof (rule decode_loop_total)
    fix i and v :: "'a process world"
    assume v: "int_var (rest v) ''total'' = int i * int n" and b: "in_int64 (int (Suc i) * int n)"
    let ?v1 = "snd (call (lib (new_reader F c)) v)"
    let ?rc = "fst (call (lib (new_reader F c)) v)"
    let ?v2 = "snd (call (lib (copy_discard F ?rc)) ?v1)"
    have k: "fst (call (lib (copy_discard F ?rc)) ?v1) = (int n, False)"
      using codec_lawD(11) [OF L codec_lawD(10) [OF L]] assms(2) by simp
    have "add_total (int n) ?v2
      = Some (?v2\<lparr>rest := (rest ?v2)\<lparr>int_var := (int_var (rest ?v2))(''total'' := int i * int n + int n)\<rparr>\<rparr>)"
      by (rule add_total_effect) (use v b in \<open>simp_all add: algebra_simps\<close>)
    then show "\<exists>v'. ?body (int i) v = Some v' \<and> bch v' = bch v
        \<and> int_var (rest v') ''total'' = int (Suc i) * int n"
      using k by (simp add: calling_def split_beta algebra_simps)
  qed (use assms in \<open>simp_all add: perform_def\<close>)
  then obtain v where "bench_loop ?body ?w = Some v" "bch v = bch w"
    "int_var (rest v) ''total'' = b_n (bch v) * int n"
    by auto
  with check_total_passes [of v "int n"] assms(4) show ?thesis
    by (simp add: set_int_def assign_def calling_def split_beta)
qed

text \<open>The rounds of a row that opens its reader once.\<close>

lemma reuse_rounds:
  assumes L: "codec_law F data ob plain" and "plain c = n" and "on_reader ob (machine (rest w)) = Some (r, c)"
    and "0 \<le> b_n (bch w)" and "in_int64 (b_n (bch w) * int n)"
  shows "\<exists>w'. block [set_int ''total'' 0,
     bench_loop (\<lambda>i. calling (copy_discard F r) (\<lambda>k. block [
       add_total (fst k), run_op (reader_close F r), run_op (reader_reset F r c)])),
     check_total (int n), run_op (reader_free F r), run_op (buffer_free F)] w = Some w'"
proof -
  let ?w = "perform (\<lambda>p. p\<lparr>int_var := (int_var p)(''total'' := 0)\<rparr>) w"
  let ?body = "\<lambda>i :: int. calling (copy_discard F r) (\<lambda>k. block [
       add_total (fst k), run_op (reader_close F r), run_op (reader_reset F r c)])"
  let ?I = "\<lambda>i v. bch v = bch w \<and> int_var (rest v) ''total'' = int i * int n
    \<and> on_reader ob (machine (rest v)) = Some (r, c)"
  have "\<exists>w'. for_loop (nat (b_n (bch w))) 0 ?body ?w = Some w' \<and> ?I (nat (b_n (bch w))) w'"
  proof (rule for_loop_total [where I = ?I])
    fix i and v :: "'a process world" assume i: "i < nat (b_n (bch w))" and v: "?I i v"
    have "int (Suc i) * int n \<le> b_n (bch w) * int n" using i by (intro mult_right_mono) auto
    moreover have "0 \<le> int (Suc i) * int n" by simp
    ultimately have b: "in_int64 (int (Suc i) * int n)"
      using assms(5) unfolding in_int64_def int64_max_def by linarith
    let ?v1 = "snd (call (lib (copy_discard F r)) v)"
    have k: "fst (call (lib (copy_discard F r)) v) = (int n, False)"
      using codec_lawD(11) [OF L] v assms(2) by simp
    have e: "at_end ob (machine (rest ?v1)) = Some r" using codec_lawD(12) [OF L] v by simp
    have "add_total (int n) ?v1
      = Some (?v1\<lparr>rest := (rest ?v1)\<lparr>int_var := (int_var (rest ?v1))(''total'' := int i * int n + int n)\<rparr>\<rparr>)"
      by (rule add_total_effect) (use v b in \<open>simp_all add: algebra_simps\<close>)
    with k e v codec_lawD(14) [OF L codec_lawD(13) [OF L e]]
    show "\<exists>v'. ?body (0 + int i) v = Some v' \<and> ?I (Suc i) v'"
      by (simp add: calling_def split_beta algebra_simps)
  qed (use assms(3) in \<open>simp add: perform_def\<close>)
  then obtain v where "bench_loop ?body ?w = Some v" "?I (nat (b_n (bch w))) v"
    by (auto simp: bench_loop_def)
  with check_total_passes [of v "int n"] assms(4,5) show ?thesis
    by (simp add: set_int_def assign_def calling_def split_beta)
qed

text \<open>What the lzw rows decode: the compressed form of \<open>n\<close> bytes, from a writer that has been closed.\<close>

lemma lzw_input_ready:
  fixes w :: "'m process world"
  assumes L: "codec_law F data ob plain" and "data DIGITS \<noteq> []"
  shows "\<exists>c v. bch v = bch w \<and> plain c = n \<and> (\<forall>k. lzw_compressed_input F n k w = k c v)"
proof -
  note law = codec_lawD [OF L]
  let ?src = "data DIGITS"
  let ?w2 = "snd (call (lib (read_whole F DIGITS)) w)"
  let ?h = "fst (call (lib (new_writer F True 8)) ?w2)"
  let ?w3 = "snd (call (lib (new_writer F True 8)) ?w2)"
  have opened: "in_writer ob (machine (rest ?w3)) = Some (?h, [])" using law(3) by simp
  obtain w4 where w4: "block (map (\<lambda>p. run_op (writer_write F ?h (take (snd p) ?src)))
      (pieces (length ?src) n 0)) ?w3 = Some w4" "bch w4 = bch w"
    "in_writer ob (machine (rest w4)) = Some (?h, concat (map (\<lambda>p. take (snd p) ?src) (pieces (length ?src) n 0)))"
    using write_pieces_sends [OF L opened, of "\<lambda>p. take (snd p) ?src" "pieces (length ?src) n 0"] by auto
  let ?w5 = "snd (call (lib (writer_free F ?h)) (snd (call (lib (writer_close F ?h)) w4)))"
  let ?c = "fst (call (lib (buffer_bytes F)) ?w5)"
  have "plain ?c = n" using closed_and_freed [OF L w4(3)] sized_from [of ?src 0 n] assms(2) by simp
  moreover have "lzw_compressed_input F n k w = k ?c (snd (call (lib (buffer_bytes F)) ?w5))" for k
    using w4(1) law(5) [OF w4(3)] law(2) [of 8 "machine (rest ?w2)"]
    by (simp add: lzw_compressed_input_def read_file_def calling_def checked_def split_beta law(1) unless_null_def)
  ultimately show ?thesis using w4(2) by (intro exI [of _ ?c] exI [of _ "snd (call (lib (buffer_bytes F)) ?w5)"]) simp
qed

text \<open>
  C25. Safety: the abort at the end of a decode row cannot fire on a codec that does what burrow
  documents. For every file that is not empty, size and count whose product fits, the flate
  row and both lzw rows, with a new reader a round and with one that is reset, return: every byte of
  the sized input was written, in pieces, and the writer closed before its bytes were taken, so each
  round reads \<open>size\<close> bytes back and the total is \<open>n * size\<close>. Of a writer that has not been closed
  the law promises nothing, nor of a reader that has been read and not reset.
\<close>
theorem decode_rows_pass_their_check:
  assumes "codec_law F data ob plain" and "data path \<noteq> []" and "data DIGITS \<noteq> []"
    and "0 \<le> b_n (bch w)" and "in_int64 (b_n (bch w) * int n)"
  shows "(\<exists>w'. flate_decode F path level n w = Some w') \<and> (\<exists>w'. lzw_decode F n w = Some w')
    \<and> (\<exists>w'. lzw_decode_reuse F n w = Some w')"
proof (intro conjI)
  note L = assms(1) and law = codec_lawD [OF assms(1)]
  obtain inp where inp: "sized_input (data path) n = Some inp" "length inp = n"
    using sized_from [of "data path" 0 n] assms(2) by (simp add: sized_input_def case_prod_unfold)
  let ?w2 = "snd (call (lib (read_whole F path)) (snd (call (lib (read_whole F path)) w)))"
  let ?h = "fst (call (lib (new_writer F True level)) ?w2)"
  let ?w3 = "snd (call (lib (new_writer F True level)) ?w2)"
  have opened: "in_writer ob (machine (rest ?w3)) = Some (?h, [])" using law(3) by simp
  obtain w4 where w4: "write_pieces F ?h inp (length (data path)) n ?w3 = Some w4" "bch w4 = bch w"
    "in_writer ob (machine (rest w4)) = Some (?h, inp)"
    using write_pieces_sends [OF L opened, of "\<lambda>p. take (snd p) (drop (fst p) inp)"
        "pieces (length (data path)) n 0"] pieces_slices [of "length (data path)" 0 n inp] assms(2) inp(2)
    by (auto simp: write_pieces_def)
  let ?w5 = "snd (call (lib (writer_free F ?h)) (snd (call (lib (writer_close F ?h)) w4)))"
  let ?c = "fst (call (lib (buffer_bytes F)) ?w5)"
  have "plain ?c = n" using closed_and_freed [OF L w4(3)] inp(2) by simp
  from decode_rounds [OF L this, of "snd (call (lib (buffer_bytes F)) ?w5)"] assms(4,5) w4(2)
  have "\<exists>w'. block [set_int ''total'' 0,
     bench_loop (\<lambda>i. calling (new_reader F ?c) (\<lambda>rc. calling (copy_discard F rc) (\<lambda>r.
       block [add_total (fst r), run_op (reader_free F rc)]))),
     check_total (int n), run_op (buffer_free F)] (snd (call (lib (buffer_bytes F)) ?w5)) = Some w'"
    by auto
  then show "\<exists>w'. flate_decode F path level n w = Some w'"
    using w4(1) inp(1) law(2) [of level "machine (rest ?w2)"]
    by (simp add: flate_decode_def read_file_def calling_def checked_def split_beta law(1) unless_null_def)
next
  obtain c v where v: "bch v = bch w" "plain c = n" "\<And>k. lzw_compressed_input F n k w = k c v"
    using lzw_input_ready [OF assms(1,3), of w n] by blast
  show "\<exists>w'. lzw_decode F n w = Some w'"
    using decode_rounds [OF assms(1) v(2), of v] assms(4,5) v(1) unfolding lzw_decode_def v(3) by auto
  let ?r = "call (lib (new_reader F c)) v"
  have "on_reader ob (machine (rest (snd ?r))) = Some (fst ?r, c)" "fst ?r \<noteq> 0"
    using codec_lawD(9,10) [OF assms(1)] by simp_all
  with reuse_rounds [OF assms(1) v(2) this(1)] assms(4,5) v(1) show "\<exists>w'. lzw_decode_reuse F n w = Some w'"
    unfolding lzw_decode_reuse_def v(3) by (simp add: calling_def [of "new_reader F c"] split_beta unless_null_def del: block.simps)
qed

text \<open>
  A codec that stores, with the one writer and the one reader \<open>1\<close>: compressed bytes are the text
  itself. The machine is what the writer has been given, whether it is closed, what is in the buffer, and
  what the reader has left. The writer passes nothing on before it is closed.
\<close>

definition store_codec :: "(string \<Rightarrow> string) \<Rightarrow> (string \<times> bool \<times> string \<times> string) codec_lib" where
  "store_codec data = \<lparr>read_whole = (\<lambda>path m. (Some (data path), 1, m)),
     new_writer = (\<lambda>buf lv (s, z, b, r). (1, 1, ([], False, [], r))), writer_reset = (\<lambda>w m. ((), 1, m)),
     writer_write = (\<lambda>w d (s, z, b, r). ((), 1, (s @ d, z, b, r))),
     writer_close = (\<lambda>w (s, z, b, r). (False, 1, (s, True, s, r))),
     writer_free = (\<lambda>w m. ((), 1, m)), buffer_bytes = (\<lambda>(s, z, b, r). (b, 1, (s, z, b, r))),
     buffer_free = (\<lambda>m. ((), 1, m)), new_reader = (\<lambda>c (s, z, b, r). (1, 1, (s, z, b, c))),
     copy_discard = (\<lambda>h (s, z, b, r). ((int (length r), False), 1, (s, z, b, []))),
     reader_close = (\<lambda>h m. ((), 1, m)), reader_reset = (\<lambda>h c (s, z, b, r). ((), 1, (s, z, b, c))),
     reader_free = (\<lambda>h m. ((), 1, m))\<rparr>"

definition store_obs :: "(string \<times> bool \<times> string \<times> string) codec_obs" where
  "store_obs = \<lparr>in_writer = (\<lambda>(s, z, b, r). if z then None else Some (1, s)),
     shut_writer = (\<lambda>(s, z, b, r). if z then Some (1, b) else None),
     in_buffer = (\<lambda>(s, z, b, r). if z then Some b else None),
     on_reader = (\<lambda>(s, z, b, r). Some (1, r)), at_end = (\<lambda>m. Some 1)\<rparr>"

lemma store_codec_law: "codec_law (store_codec data) data store_obs length"
  by (auto simp: codec_law_def store_codec_def store_obs_def split_beta split: if_splits)

definition codec_world :: "int \<Rightarrow> (string \<times> bool \<times> string \<times> string) process world" where
  "codec_world n = \<lparr>bch = zero_bench\<lparr>b_n := n\<rparr>, kept = [], rest = \<lparr>clock = 0, int_var = (\<lambda>x. 0),
     u64_var = (\<lambda>x. 0), dbl_var = (\<lambda>x. 0), int_array = (\<lambda>x. []), str_array = (\<lambda>x. []),
     machine = ([], True, [], [])\<rparr>\<rparr>"

theorem decode_rows_pass_their_check_witness:
  "\<exists>w'. flate_decode (store_codec (\<lambda>p. ''2718281828'')) DIGITS 9 25 (codec_world 4) = Some w'"
  using decode_rows_pass_their_check [OF store_codec_law, of "\<lambda>p. ''2718281828''" DIGITS "codec_world 4" 25 9]
  by (simp add: codec_world_def in_int64_def int64_max_def)

definition silent_codec :: "unit codec_lib" where
  "silent_codec = \<lparr>read_whole = (\<lambda>path m. (Some ''x'', 1, m)),
     new_writer = (\<lambda>buf lv m. (1, 1, m)), writer_reset = (\<lambda>w m. ((), 1, m)),
     writer_write = (\<lambda>w d m. ((), 1, m)), writer_close = (\<lambda>w m. (False, 1, m)),
     writer_free = (\<lambda>w m. ((), 1, m)), buffer_bytes = (\<lambda>m. ([], 1, m)),
     buffer_free = (\<lambda>m. ((), 1, m)), new_reader = (\<lambda>c m. (1, 1, m)),
     copy_discard = (\<lambda>h m. ((0, False), 1, m)),
     reader_close = (\<lambda>h m. ((), 1, m)), reader_reset = (\<lambda>h c m. ((), 1, m)),
     reader_free = (\<lambda>h m. ((), 1, m))\<rparr>"

end
