(* ===== verification/Runtime_Lib.thy ===== *)
theory Runtime_Lib
  imports Process
begin

text \<open>
  Burrow's runtime as the benchmarks of goroutines and locks use it: \<open>runtime_main\<close> starts
  the scheduler, runs a function as the main goroutine and stops the scheduler when it returns;
  \<open>runtime_gomaxprocs\<close> sets the number of Ps and returns the old one.
\<close>

record 'm runtime_lib =
  runtime_start :: "(unit, 'm) op"
  runtime_stop :: "(unit, 'm) op"
  gomaxprocs :: "int \<Rightarrow> (int, 'm) op"
  gosched :: "(unit, 'm) op"

abbreviation call_op :: "('a, 'm) op \<Rightarrow> 'm cstmt" where
  "call_op f \<equiv> calling f (\<lambda>_. Some)"

definition runtime_main :: "'m runtime_lib \<Rightarrow> 'm cstmt \<Rightarrow> 'm cstmt" where
  "runtime_main R body = block [call_op (runtime_start R), body, call_op (runtime_stop R)]"

lemma runtime_main_moves [contract_rules]:
  "does (advances clock) body \<Longrightarrow> does (advances clock) (runtime_main R body)"
  unfolding runtime_main_def by (intro contract_rules)

section \<open>Operations that may block\<close>

text \<open>\<open>None\<close> is a call that blocks: in a program of one thread it never comes back.\<close>

type_synonym ('a, 'm) blocking_op = "'m \<Rightarrow> ('a \<times> nat \<times> 'm) option"

definition blocking :: "('a, 'm) blocking_op \<Rightarrow> ('a \<Rightarrow> 'm cstmt) \<Rightarrow> 'm cstmt" where
  "blocking f k w = (case f (machine (rest w)) of None \<Rightarrow> None | Some r \<Rightarrow> calling (\<lambda>_. r) k w)"

lemma blocking_moves [contract_rules]:
  fixes k :: "'a \<Rightarrow> 'm cstmt"
  assumes "\<And>x. does (advances clock) (k x)"
  shows "does (advances clock) (blocking f k)"
proof (rule doesI)
  fix w w' :: "'m process world"
  assume "blocking f k w = Some w'"
  then obtain r where "calling (\<lambda>_. r) k w = Some w'"
    by (auto simp: blocking_def split: option.splits)
  then show "advances clock w w'" by (rule doesD [OF calling_moves [OF assms]])
qed

section \<open>Waiting loops\<close>

text \<open>
  \<open>while (c) body\<close> with nothing that bounds it: a loop that never ends is \<open>None\<close>.
\<close>

partial_function (option) while_loop :: "('w \<Rightarrow> bool) \<Rightarrow> ('w \<Rightarrow> 'w option) \<Rightarrow> 'w \<Rightarrow> 'w option" where
  "while_loop c body w = (if c w then do { w \<leftarrow> body w; while_loop c body w } else Some w)"

text \<open>What the body keeps, the loop keeps, if it ends.\<close>

lemma while_keeps [loop_rules]:
  assumes "while_loop c body w = Some w'" and "P w"
    and "\<And>v v'. P v \<Longrightarrow> c v \<Longrightarrow> body v = Some v' \<Longrightarrow> P v'"
  shows "P w' \<and> \<not> c w'"
proof -
  let ?P = "\<lambda>c' body' v v'. c' = c \<longrightarrow> body' = body \<longrightarrow> P v \<longrightarrow> P v' \<and> \<not> c v'"
  have "?P c body w w'"
  proof (rule while_loop.raw_induct [OF _ assms(1), where P = ?P])
    fix rec c' and body' :: "'a \<Rightarrow> 'a option" and v v'
    assume IH: "\<And>c' body' v v'. rec c' body' v = Some v' \<Longrightarrow> ?P c' body' v v'"
      and eq: "(if c' v then body' v \<bind> rec c' body' else Some v) = Some v'"
    show "?P c' body' v v'"
    proof (intro impI)
      assume same: "c' = c" "body' = body" and v: "P v"
      show "P v' \<and> \<not> c v'"
      proof (cases "c v")
        case True
        with eq same obtain u where u: "body v = Some u" "rec c body u = Some v'"
          by (auto simp: bind_eq_Some_conv)
        with IH [OF u(2)] assms(3) [OF v True] show ?thesis by simp
      next
        case False
        with eq same v show ?thesis by simp
      qed
    qed
  qed
  with assms(2) show ?thesis by blast
qed

text \<open>A loop that never leaves its condition never comes back.\<close>

lemma while_spins:
  assumes "P w" and "\<And>v. P v \<Longrightarrow> c v" and "\<And>v v'. P v \<Longrightarrow> body v = Some v' \<Longrightarrow> P v'"
  shows "while_loop c body w = None"
proof (rule ccontr)
  assume "while_loop c body w \<noteq> None"
  then obtain w' where "while_loop c body w = Some w'" by blast
  from while_keeps [of c body w w' P, OF this assms(1)] assms(2,3) show False by blast
qed

text \<open>A loop whose body brings the condition nearer comes back.\<close>

lemma while_total [loop_rules]:
  assumes "P w" and "\<And>v. P v \<Longrightarrow> c v \<Longrightarrow> \<exists>v'. body v = Some v' \<and> P v' \<and> (m v' :: nat) < m v"
  shows "\<exists>w'. while_loop c body w = Some w' \<and> P w' \<and> \<not> c w'"
  using assms(1)
proof (induction "m w" arbitrary: w rule: less_induct)
  case less
  show ?case
  proof (cases "c w")
    case True
    with assms(2) less.prems obtain v where v: "body w = Some v" "P v" "m v < m w" by blast
    from less.hyps [OF v(3,2)] obtain w' where "while_loop c body v = Some w'" "P w'" "\<not> c w'" by blast
    with True v(1) show ?thesis by (subst while_loop.simps) simp
  next
    case False
    with less.prems show ?thesis by (subst while_loop.simps) simp
  qed
qed

lemma while_moves [contract_rules]:
  fixes body :: "'m cstmt"
  assumes "does (advances clock) body"
  shows "does (advances clock) (while_loop c body)"
proof (rule doesI)
  fix w w' :: "'m process world" assume "while_loop c body w = Some w'"
  then have "advances clock w w' \<and> \<not> c w'"
    by (rule while_keeps [where P = "advances clock w"])
      (auto intro: moving.R_refl advances_trans dest: doesD [OF assms])
  then show "advances clock w w'" ..
qed

section \<open>The timed section\<close>

text \<open>
  The part of such a benchmark that is timed: the benchmark was entered with the timer running, so
  the set-up pauses it, and the body resumes it around its loop.
\<close>

definition timed_section :: "'m host \<Rightarrow> 'm cstmt \<Rightarrow> 'm cstmt" where
  "timed_section h body = block [resuming h, body, pausing h]"

lemma timed_section_moves [contract_rules]:
  "host_ok h \<Longrightarrow> does (advances clock) body \<Longrightarrow> does (advances clock) (timed_section h body)"
  unfolding timed_section_def by (intro contract_rules)

text \<open>
  The timed section seen from outside: the timer operations keep everything but the clock, so what
  the body does to the rest is what the section does.
\<close>

lemma timed_section_run:
  assumes "host_ok h"
    and "\<And>v. machine (rest v) = machine (rest w) \<Longrightarrow> int_var (rest v) = int_var (rest w) \<Longrightarrow>
      u64_var (rest v) = u64_var (rest w) \<Longrightarrow> int_array (rest v) = int_array (rest w) \<Longrightarrow>
      str_array (rest v) = str_array (rest w) \<Longrightarrow> kept v = kept w \<Longrightarrow> b_n (bch v) = b_n (bch w) \<Longrightarrow>
      \<exists>v'. body v = Some v' \<and> kept v' = kept w @ out \<and> Q (machine (rest v')) (int_var (rest v'))
        (u64_var (rest v'))"
  shows "\<exists>w'. timed_section h body w = Some w' \<and> kept w' = kept w @ out
    \<and> Q (machine (rest w')) (int_var (rest w')) (u64_var (rest w'))"
proof -
  obtain v where v: "resuming h w = Some v" "machine (rest v) = machine (rest w)"
    "int_var (rest v) = int_var (rest w)" "u64_var (rest v) = u64_var (rest w)"
    "int_array (rest v) = int_array (rest w)" "str_array (rest v) = str_array (rest w)"
    "kept v = kept w" "b_n (bch v) = b_n (bch w)"
    using timer_stmt(2) [OF assms(1), of w] by blast
  obtain u where u: "body v = Some u" "kept u = kept w @ out"
    "Q (machine (rest u)) (int_var (rest u)) (u64_var (rest u))"
    using assms(2) [OF v(2-)] by blast
  obtain w' where w': "pausing h u = Some w'" "kept w' = kept u"
    "machine (rest w') = machine (rest u)" "int_var (rest w') = int_var (rest u)"
    "u64_var (rest w') = u64_var (rest u)"
    using timer_stmt(1) [OF assms(1), of u] by blast
  show ?thesis using v(1) u w' by (simp add: timed_section_def)
qed

end
