(* ===== verification/Answers.thy ===== *)
theory Answers
  imports Arena_Lib Runtime_Lib
begin

text \<open>
  What a statement hands to the sink whatever the state: \<open>gives g s\<close> says that \<open>s\<close> comes back
  from every state, that it leaves \<open>b->n\<close> alone, and that it writes \<open>g n\<close> when \<open>b->n\<close> is \<open>n\<close>.
  The rules follow the syntax of the statements; a library operation whose result a law fixes
  disappears in the simplification of its continuation.
\<close>

named_theorems answer_rules

definition gives :: "(int \<Rightarrow> sunk list) \<Rightarrow> 'l stmt \<Rightarrow> bool" where
  "gives g s \<longleftrightarrow> (\<forall>w. \<exists>w'. s w = Some w' \<and> kept w' = kept w @ g (b_n (bch w)) \<and> b_n (bch w') = b_n (bch w))"

lemma givesI:
  "(\<And>w. \<exists>w'. s w = Some w' \<and> kept w' = kept w @ g (b_n (bch w)) \<and> b_n (bch w') = b_n (bch w)) \<Longrightarrow> gives g s"
  by (simp add: gives_def)

lemma givesD:
  assumes "gives g s"
  obtains w' where "s w = Some w'" "kept w' = kept w @ g (b_n (bch w))" "b_n (bch w') = b_n (bch w)"
  using assms unfolding gives_def by blast

lemma gives_cong: "gives g s \<Longrightarrow> (\<And>n. g n = g' n) \<Longrightarrow> gives g' s"
  by (simp add: gives_def)

lemma gives_Some [answer_rules]: "gives (\<lambda>n. []) Some"
  by (simp add: gives_def)

lemma gives_Cons:
  assumes "gives g s" and "gives g' (block ss)"
  shows "gives (\<lambda>n. g n @ g' n) (block (s # ss))"
proof (rule givesI)
  fix w
  obtain u where u: "s w = Some u" "kept u = kept w @ g (b_n (bch w))" "b_n (bch u) = b_n (bch w)"
    by (rule givesD [OF assms(1)])
  obtain v where "block ss u = Some v" "kept v = kept u @ g' (b_n (bch u))" "b_n (bch v) = b_n (bch u)"
    by (rule givesD [OF assms(2)])
  with u show "\<exists>w'. block (s # ss) w = Some w' \<and> kept w' = kept w @ (g (b_n (bch w)) @ g' (b_n (bch w)))
      \<and> b_n (bch w') = b_n (bch w)" by simp
qed

lemma gives_first: "gives g s \<Longrightarrow> gives (\<lambda>n. []) (block ss) \<Longrightarrow> gives g (block (s # ss))"
  using gives_Cons [of g s "\<lambda>n. []"] by simp

lemma gives_after [answer_rules]: "gives (\<lambda>n. []) s \<Longrightarrow> gives g (block ss) \<Longrightarrow> gives g (block (s # ss))"
  using gives_Cons [of "\<lambda>n. []" s g] by simp

lemma gives_calling:
  assumes "\<And>m. gives g (k (fst (f m)))"
  shows "gives g (calling f k)"
proof (rule givesI)
  fix w
  obtain w' where "k (fst (f (machine (rest w)))) (snd (call (lib f) w)) = Some w'"
    "kept w' = kept (snd (call (lib f) w)) @ g (b_n (bch (snd (call (lib f) w))))"
    "b_n (bch w') = b_n (bch (snd (call (lib f) w)))" by (rule givesD [OF assms])
  then show "\<exists>w'. calling f k w = Some w' \<and> kept w' = kept w @ g (b_n (bch w)) \<and> b_n (bch w') = b_n (bch w)"
    by (simp add: calling_def split_beta)
qed

lemma gives_call_op [answer_rules]: "gives (\<lambda>n. []) (calling f (\<lambda>_. Some))"
  by (rule gives_calling) (rule gives_Some)

lemma gives_keeps [answer_rules]:
  "gives (\<lambda>n. [KeptPtr p]) (keep p)" "gives (\<lambda>n. [KeptU64 v]) (keep_u64 v)"
  by (simp_all add: gives_def keep_def keep_u64_def)

lemma gives_assigns [answer_rules]:
  "gives (\<lambda>n. []) (assign f)" "gives (\<lambda>n. []) (set_int x v)" "gives (\<lambda>n. []) (set_u64 x u)"
  "gives (\<lambda>n. []) (set_dbl x d)"
  by (simp_all add: gives_def assign_def set_int_def set_u64_def set_dbl_def)

lemma gives_checked: "e = Some x \<Longrightarrow> gives g (k x) \<Longrightarrow> gives g (checked e k)"
  by (simp add: gives_def checked_def)

lemma gives_timer:
  assumes "host_ok h"
  shows "gives (\<lambda>n. []) (pausing h)" "gives (\<lambda>n. []) (resuming h)"
  using timer_stmt [OF assms] by (fastforce simp: gives_def)+

lemma gives_loop:
  assumes "\<And>i. gives (g i) (body i)"
  shows "gives (\<lambda>n. concat (map (\<lambda>j. g (int j) n) [0..<nat n])) (bench_loop body)"
proof (rule givesI)
  fix w :: "'a world"
  let ?I = "\<lambda>(j :: nat) v :: 'a world. b_n (bch v) = b_n (bch w)"
  have "\<exists>v'. body (int j) v = Some v' \<and> kept v' = kept v @ g (int j) (b_n (bch w)) \<and> ?I (Suc j) v'"
    if "?I j v" for j and v :: "'a world"
    using givesD [OF assms, of "int j" v] that by metis
  from loop_kept [where I = ?I and g = "\<lambda>j. g (int j) (b_n (bch w))" and body = body, OF refl this]
  show "\<exists>w'. bench_loop body w = Some w'
      \<and> kept w' = kept w @ concat (map (\<lambda>j. g (int j) (b_n (bch w))) [0..<nat (b_n (bch w))])
      \<and> b_n (bch w') = b_n (bch w)" by blast
qed

text \<open>The loops whose rounds all hand over the same, and those that hand over nothing.\<close>

lemma concat_replicate_one: "concat (replicate k [x]) = replicate k x"
  by (induction k) simp_all

lemma gives_loop_same:
  assumes "\<And>i. gives (\<lambda>n. [x]) (body i)"
  shows "gives (\<lambda>n. replicate (nat n) x) (bench_loop body)"
  using gives_loop [of "\<lambda>_ _. [x]", OF assms]
  by (rule gives_cong) (simp add: map_replicate_const concat_replicate_one)

lemma gives_loop_none [answer_rules]:
  assumes "\<And>i. gives (\<lambda>n. []) (body i)"
  shows "gives (\<lambda>n. []) (bench_loop body)"
  using gives_loop [of "\<lambda>_ _. []", OF assms] by (rule gives_cong) (simp add: map_replicate_const)

lemma gives_resetting:
  "gives (\<lambda>n. [x]) body \<Longrightarrow> gives (\<lambda>n. replicate (nat n) x) (resetting A a body)"
  "gives (\<lambda>n. []) body \<Longrightarrow> gives (\<lambda>n. []) (resetting A a body)"
  unfolding resetting_def
  by (intro gives_loop_same gives_loop_none gives_first answer_rules; simp add: gives_call_op)+

lemma gives_scratch: "gives g body \<Longrightarrow> gives g (scratch_arena A a body)"
  unfolding scratch_arena_def
  by (rule gives_after [OF gives_call_op], rule gives_first) (simp_all add: gives_call_op del: block.simps)

text \<open>The conversions to \<open>uint64_t\<close> of a truth value and of an \<open>Int\<close> on the way to the sink.\<close>

definition keep_bool :: "bool \<Rightarrow> 'm cstmt" where
  "keep_bool ok = keep_u64 (if ok then 1 else 0)"

definition keep_int :: "int \<Rightarrow> 'm cstmt" where
  "keep_int r = keep_u64 (of_int r)"

lemma keep_value_moves [contract_rules]: "does (advances clock) (keep_bool ok)" "does (advances clock) (keep_int r)"
  unfolding keep_bool_def keep_int_def by (rule contract_rules)+

lemma gives_keep_value [answer_rules]:
  "gives (\<lambda>n. [KeptU64 (if ok then 1 else 0)]) (keep_bool ok)" "gives (\<lambda>n. [KeptU64 (of_int r)]) (keep_int r)"
  unfolding keep_bool_def keep_int_def by (rule answer_rules)+

text \<open>A row whose rounds call an operation with a known result.\<close>

lemma gives_call_loop:
  "(\<And>i m. fst (f i m) = r) \<Longrightarrow> gives (\<lambda>n. [v]) (k r) \<Longrightarrow> gives (\<lambda>n. replicate (nat n) v) (bench_loop (\<lambda>i. calling (f i) k))"
  by (rule gives_loop_same, rule gives_calling) simp

text \<open>A loop that aborts in its first round.\<close>

lemma abort_loop:
  assumes "\<And>i v. body i v = None" and "0 < b_n (bch w)"
  shows "bench_loop body w = None"
proof -
  obtain k where "nat (b_n (bch w)) = Suc k" using assms(2) by (cases "nat (b_n (bch w))") simp_all
  then show ?thesis by (simp add: bench_loop_def assms(1))
qed

section \<open>Sums in a local variable\<close>

text \<open>\<open>uint64_t sum = 0; for (i = 0; i < k; i++) sum += ...; bench_keep_u64(sum)\<close>; \<open>get\<close> hands the summand on.\<close>

definition u64_sum :: "nat \<Rightarrow> (int \<Rightarrow> (u64 \<Rightarrow> 'm cstmt) \<Rightarrow> 'm cstmt) \<Rightarrow> 'm cstmt" where
  "u64_sum k get = block [
     set_u64 ''sum'' 0,
     repeat_for k (\<lambda>i. get i (\<lambda>c. reading (\<lambda>p. u64_var p ''sum'') (\<lambda>s. set_u64 ''sum'' (s + c)))),
     reading (\<lambda>p. u64_var p ''sum'') keep_u64]"

lemma u64_sum_moves [contract_rules]:
  assumes "\<And>i g. (\<And>c. does (advances clock) (g c)) \<Longrightarrow> does (advances clock) (get i g)"
  shows "does (advances clock) (u64_sum k get)"
  unfolding u64_sum_def by (intro contract_rules assms)

text \<open>\<open>passes get j c\<close>: the summand of round \<open>j\<close> is \<open>c\<close>, and fetching it touches nothing else.\<close>

definition passes :: "(int \<Rightarrow> (u64 \<Rightarrow> 'm cstmt) \<Rightarrow> 'm cstmt) \<Rightarrow> nat \<Rightarrow> u64 \<Rightarrow> bool" where
  "passes get j c \<longleftrightarrow> (\<forall>k w. \<exists>u. get (int j) k w = k c u \<and> kept u = kept w
     \<and> b_n (bch u) = b_n (bch w) \<and> u64_var (rest u) = u64_var (rest w))"

lemma passes_calling:
  "(\<And>m. fst (f (int j) m) = x) \<Longrightarrow> passes (\<lambda>i k. calling (f i) (\<lambda>c. k (g c))) j (g x)"
  unfolding passes_def
proof (intro allI)
  fix k :: "u64 \<Rightarrow> 'a cstmt" and w assume "\<And>m. fst (f (int j) m) = x"
  then show "\<exists>u. calling (f (int j)) (\<lambda>c. k (g c)) w = k (g x) u \<and> kept u = kept w
      \<and> b_n (bch u) = b_n (bch w) \<and> u64_var (rest u) = u64_var (rest w)"
    by (intro exI [of _ "snd (call (lib (f (int j))) w)"]) (simp add: calling_def split_beta)
qed

lemma passes_direct: "f (int j) = c \<Longrightarrow> passes (\<lambda>i k. k (f i)) j c"
  unfolding passes_def by blast

lemma gives_u64_sum:
  fixes get :: "int \<Rightarrow> (u64 \<Rightarrow> 'm cstmt) \<Rightarrow> 'm cstmt"
  assumes "\<And>j. j < k \<Longrightarrow> passes get j (f j)"
  shows "gives (\<lambda>n. [KeptU64 (sum_list (map f [0..<k]))]) (u64_sum k get)"
proof (rule givesI)
  fix w :: "'m process world"
  let ?body = "\<lambda>i. get i (\<lambda>c. reading (\<lambda>p. u64_var p ''sum'') (\<lambda>s. set_u64 ''sum'' (s + c)))"
  let ?I = "\<lambda>j v :: 'm process world. kept v = kept w \<and> b_n (bch v) = b_n (bch w)
    \<and> u64_var (rest v) ''sum'' = sum_list (map f [0..<j])"
  let ?v = "perform (\<lambda>p. p\<lparr>u64_var := (u64_var p)(''sum'' := 0)\<rparr>) w"
  have "\<exists>x. for_loop k 0 ?body ?v = Some x \<and> ?I k x"
  proof (rule for_loop_total)
    fix j and v :: "'m process world" assume j: "j < k" and v: "?I j v"
    obtain u where "?body (int j) v = reading (\<lambda>p. u64_var p ''sum'') (\<lambda>s. set_u64 ''sum'' (s + f j)) u"
      "kept u = kept v" "b_n (bch u) = b_n (bch v)" "u64_var (rest u) = u64_var (rest v)"
      using assms [OF j] unfolding passes_def by blast
    with v show "\<exists>v'. ?body (0 + int j) v = Some v' \<and> ?I (Suc j) v'"
      by (simp add: reading_def set_u64_def assign_def)
  qed simp
  then obtain x where "repeat_for k ?body ?v = Some x" "?I k x" unfolding repeat_for_def by blast
  then show "\<exists>w'. u64_sum k get w = Some w' \<and> kept w' = kept w @ [KeptU64 (sum_list (map f [0..<k]))]
      \<and> b_n (bch w') = b_n (bch w)"
    by (simp add: u64_sum_def set_u64_def assign_def reading_def keep_u64_def)
qed

section \<open>Sums over an iterator\<close>

text \<open>
  \<open>while (next(&it, ..., &v)) sum += v\<close> over an \<open>Int\<close> that started at 0. Nothing in the program bounds
  the loop; \<open>nx\<close> returns the value it comes to when it returns true.
\<close>

partial_function (option) sum_values ::
  "(int option, 'm) op \<Rightarrow> int \<Rightarrow> 'm process world \<Rightarrow> (int \<times> 'm process world) option" where
  "sum_values nx s w = (let (r, w) = call (lib nx) w in
     case r of
       None \<Rightarrow> Some (s, w)
     | Some v \<Rightarrow> do { s \<leftarrow> add64 s v; sum_values nx s w })"

definition summing :: "(int option, 'm) op \<Rightarrow> (int \<Rightarrow> 'm cstmt) \<Rightarrow> 'm cstmt" where
  "summing nx k w = do { (s, w) \<leftarrow> sum_values nx 0 w; k s w }"

lemma sum_values_moves: "sum_values nx s w = Some r \<Longrightarrow> advances clock w (snd r)"
proof (erule sum_values.raw_induct [where P = "\<lambda>nx s w r. advances clock w (snd r)", rotated])
  fix rec and nx :: "(int option, 'a) op" and s w r
  assume IH: "\<And>nx s w r. rec nx s w = Some r \<Longrightarrow> advances clock w (snd r)"
    and eq: "(let (r, w) = call (lib nx) w in
       case r of None \<Rightarrow> Some (s, w) | Some v \<Rightarrow> add64 s v \<bind> (\<lambda>s. rec nx s w)) = Some r"
  let ?c = "call (lib nx) w"
  have step: "advances clock w (snd ?c)" by (rule advances_rest) simp_all
  show "advances clock w (snd r)"
  proof (cases "fst ?c")
    case None
    with eq step show ?thesis by (auto simp: split_beta Let_def)
  next
    case (Some v)
    with eq obtain s' where "rec nx s' (snd ?c) = Some r"
      by (auto simp: split_beta Let_def bind_eq_Some_conv)
    from IH [OF this] step show ?thesis by (blast intro: advances_trans)
  qed
qed

lemma summing_moves [contract_rules]:
  assumes "\<And>s. does (advances clock) (k s)"
  shows "does (advances clock) (summing nx k)"
proof (rule doesI)
  fix w w' :: "'a process world" assume "summing nx k w = Some w'"
  then obtain s v where "sum_values nx 0 w = Some (s, v)" "k s v = Some w'"
    by (auto simp: summing_def bind_eq_Some_conv)
  then have "advances clock w v" "advances clock v w'"
    using sum_values_moves [of nx 0 w] doesD [OF assms] by fastforce+
  then show "advances clock w w'" by (rule advances_trans)
qed

text \<open>
  \<open>todo\<close> is what the iterator has still to give; \<open>J\<close> is anything about the machine that a step of
  the iterator keeps. The variables of the program are not touched.
\<close>

lemma sum_values_run:
  fixes w :: "'m process world"
  assumes "\<And>m. fst (nx m) = (case todo m of [] \<Rightarrow> None | v # vs \<Rightarrow> Some v)"
    and "\<And>m. todo (snd (snd (nx m))) = tl (todo m)" and "\<And>m. J m \<Longrightarrow> J (snd (snd (nx m)))"
    and "todo (machine (rest w)) = vs" and "\<forall>v \<in> set vs. 0 \<le> v" and "0 \<le> s"
    and "s + sum_list vs \<le> int64_max" and "J (machine (rest w))"
  shows "\<exists>w'. sum_values nx s w = Some (s + sum_list vs, w') \<and> J (machine (rest w')) \<and> kept w' = kept w
    \<and> b_n (bch w') = b_n (bch w) \<and> int_var (rest w') = int_var (rest w) \<and> u64_var (rest w') = u64_var (rest w)
    \<and> int_array (rest w') = int_array (rest w) \<and> str_array (rest w') = str_array (rest w)"
  using assms(4-)
proof (induction vs arbitrary: s w)
  case Nil
  then show ?case
    by (subst sum_values.simps) (simp add: split_beta Let_def assms(1,3))
next
  case (Cons v vs)
  let ?u = "snd (call (lib nx) w)"
  have "0 \<le> sum_list vs" using Cons.prems(2) by (simp add: sum_list_nonneg)
  then have fits: "in_int64 (s + v)" using Cons.prems by (simp add: in_int64_nonneg)
  from Cons.IH [of ?u "s + v"] Cons.prems obtain w' where
    "sum_values nx (s + v) ?u = Some (s + v + sum_list vs, w') \<and> J (machine (rest w')) \<and> kept w' = kept w
      \<and> b_n (bch w') = b_n (bch w) \<and> int_var (rest w') = int_var (rest w) \<and> u64_var (rest w') = u64_var (rest w)
      \<and> int_array (rest w') = int_array (rest w) \<and> str_array (rest w') = str_array (rest w)"
    by (auto simp: assms(2,3))
  with Cons.prems(1) fits show ?case
    by (subst sum_values.simps) (simp add: split_beta Let_def assms(1) add64_def check64_def algebra_simps)
qed

lemma gives_summing:
  fixes f :: "(nat, 'm) op"
  assumes "\<And>it m. fst (nx it m) = (case todo it m of [] \<Rightarrow> None | v # vs \<Rightarrow> Some v)"
    and "\<And>it m. todo it (snd (snd (nx it m))) = tl (todo it m)"
    and "\<And>m. todo (fst (f m)) (snd (snd (f m))) = vs" and "\<forall>v \<in> set vs. 0 \<le> v" and "sum_list vs \<le> int64_max"
  shows "gives (\<lambda>n. [KeptU64 (of_int (sum_list vs))]) (calling f (\<lambda>it. summing (nx it) keep_int))"
proof (rule givesI)
  fix w :: "'m process world"
  let ?c = "call (lib f) w"
  from sum_values_run [where nx = "nx (fst ?c)" and todo = "todo (fst ?c)" and J = "\<lambda>_. True" and w = "snd ?c" and s = 0,
      OF assms(1,2) _ _ assms(4)] assms(3,5)
  obtain w' where "sum_values (nx (fst ?c)) 0 (snd ?c) = Some (sum_list vs, w')" "kept w' = kept w"
    "b_n (bch w') = b_n (bch w)" by auto
  then show "\<exists>w'. calling f (\<lambda>it. summing (nx it) keep_int) w = Some w'
      \<and> kept w' = kept w @ [KeptU64 (of_int (sum_list vs))] \<and> b_n (bch w') = b_n (bch w)"
    by (simp add: calling_def split_beta summing_def keep_int_def keep_u64_def)
qed

end
