(* ===== verification/Map_Bench.thy ===== *)
theory Map_Bench
  imports Answers Printf "HOL-Library.AList"
begin

unbundle bit_operations_syntax

text \<open>
  \<open>bench/map_bench.c\<close>: lookups, stores and deletes of burrow's map over 1024 int or string
  keys. The map is a parameter; the keys, the filling, the order of the operations and what is
  handed to the sink are this file's.
\<close>

section \<open>What the file takes from burrow\<close>

datatype map_key = IntKey int | StrKey string

datatype key_type = TypeInt | TypeString

text \<open>
  A map is its address, an iterator the address of the \<open>MapIter\<close>. \<open>map_get\<close> returns the
  address of the value, \<open>0\<close> for a key that is not there; \<open>map_get2\<close> the value it copies
  out, and \<open>map_next\<close> the value it comes to, when they return true.
\<close>

record 'm map_lib =
  map_make :: "nat \<Rightarrow> key_type \<Rightarrow> nat \<Rightarrow> (nat, 'm) op"
  map_set :: "nat \<Rightarrow> map_key \<Rightarrow> int \<Rightarrow> (unit, 'm) op"
  map_get :: "nat \<Rightarrow> map_key \<Rightarrow> (nat, 'm) op"
  map_get2 :: "nat \<Rightarrow> map_key \<Rightarrow> (int option, 'm) op"
  map_del :: "nat \<Rightarrow> map_key \<Rightarrow> (unit, 'm) op"
  map_len :: "nat \<Rightarrow> (int, 'm) op"
  map_clear :: "nat \<Rightarrow> (unit, 'm) op"
  map_iter :: "nat \<Rightarrow> (nat, 'm) op"
  map_next :: "nat \<Rightarrow> (int option, 'm) op"

section \<open>The keys\<close>

definition MAP_N :: nat where "MAP_N = 1024"

definition map_int_key :: "nat \<Rightarrow> int" where
  "map_int_key i = int i * 7 + 1"

definition map_str_key :: "nat \<Rightarrow> string" where
  "map_str_key i = str_over (fst (snprintf 16 (''key'' @ zero_padded 8 i))) 11"

definition map_str_miss :: "nat \<Rightarrow> string" where
  "map_str_miss i = str_over (fst (snprintf 16 (''nyk'' @ zero_padded 8 i))) 11"

definition map_build_keys :: "'m cstmt" where
  "map_build_keys = block [
     set_ints ''map.int_keys'' (map map_int_key [0..<MAP_N]),
     set_ints ''map.int_misses'' (map (\<lambda>i. - map_int_key i) [0..<MAP_N]),
     set_strs ''map.str_keys'' (map map_str_key [0..<MAP_N]),
     set_strs ''map.str_misses'' (map map_str_miss [0..<MAP_N])]"

text \<open>The four arrays at an index.\<close>

definition with_int_key :: "int \<Rightarrow> (int \<Rightarrow> 'm cstmt) \<Rightarrow> 'm cstmt" where
  "with_int_key i k = reading (\<lambda>p. int_array p ''map.int_keys'') (\<lambda>xs. k (xs ! nat i))"

definition with_int_miss :: "int \<Rightarrow> (int \<Rightarrow> 'm cstmt) \<Rightarrow> 'm cstmt" where
  "with_int_miss i k = reading (\<lambda>p. int_array p ''map.int_misses'') (\<lambda>xs. k (xs ! nat i))"

definition with_str_key :: "int \<Rightarrow> (string \<Rightarrow> 'm cstmt) \<Rightarrow> 'm cstmt" where
  "with_str_key i k = reading (\<lambda>p. str_array p ''map.str_keys'') (\<lambda>xs. k (xs ! nat i))"

definition with_str_miss :: "int \<Rightarrow> (string \<Rightarrow> 'm cstmt) \<Rightarrow> 'm cstmt" where
  "with_str_miss i k = reading (\<lambda>p. str_array p ''map.str_misses'') (\<lambda>xs. k (xs ! nat i))"

text \<open>\<open>bench_i_ & (N - 1)\<close>.\<close>

definition map_slot :: "int \<Rightarrow> int" where
  "map_slot i = i AND (int MAP_N - 1)"

section \<open>Filling\<close>

definition set_int_keys :: "'m map_lib \<Rightarrow> nat \<Rightarrow> 'm cstmt" where
  "set_int_keys L m = repeat_for MAP_N (\<lambda>i. with_int_key i (\<lambda>k.
     calling (map_set L m (IntKey k) k) (\<lambda>_. Some)))"

definition set_str_keys :: "'m map_lib \<Rightarrow> nat \<Rightarrow> 'm cstmt" where
  "set_str_keys L m = repeat_for MAP_N (\<lambda>i. with_str_key i (\<lambda>k.
     calling (map_set L m (StrKey k) i) (\<lambda>_. Some)))"

definition del_int_keys :: "'m map_lib \<Rightarrow> nat \<Rightarrow> 'm cstmt" where
  "del_int_keys L m = repeat_for MAP_N (\<lambda>i. with_int_key i (\<lambda>k.
     calling (map_del L m (IntKey k)) (\<lambda>_. Some)))"

definition filled_int_map :: "'m map_lib \<Rightarrow> nat \<Rightarrow> (nat \<Rightarrow> 'm cstmt) \<Rightarrow> 'm cstmt" where
  "filled_int_map L a k = calling (map_make L a TypeInt MAP_N) (\<lambda>m.
     block [map_build_keys, set_int_keys L m, k m])"

definition filled_str_map :: "'m map_lib \<Rightarrow> nat \<Rightarrow> (nat \<Rightarrow> 'm cstmt) \<Rightarrow> 'm cstmt" where
  "filled_str_map L a k = calling (map_make L a TypeString MAP_N) (\<lambda>m.
     block [map_build_keys, set_str_keys L m, k m])"

text \<open>\<open>bench_keep_u64((uint64_t)map_len(m))\<close>.\<close>

definition keep_len :: "'m map_lib \<Rightarrow> nat \<Rightarrow> 'm cstmt" where
  "keep_len L m = calling (map_len L m) (\<lambda>n. keep_u64 (of_int n))"

section \<open>The bodies\<close>

text \<open>The arena is initialised first and freed last; its statistics are reported by some rows.\<close>

definition in_arena :: "'m host \<Rightarrow> 'm arena_lib \<Rightarrow> (nat \<Rightarrow> 'm cstmt) \<Rightarrow> 'm cstmt" where
  "in_arena h A body = (let ar = addr h ''map.ar'' in block [
     calling (arena_init A ar) (\<lambda>_. Some), body ar, calling (arena_free A ar) (\<lambda>_. Some)])"

definition bench_map_get_hit_int :: "'m host \<Rightarrow> 'm arena_lib \<Rightarrow> 'm map_lib \<Rightarrow> 'm cstmt" where
  "bench_map_get_hit_int h A L = in_arena h A (\<lambda>a. filled_int_map L a (\<lambda>m.
     bench_loop (\<lambda>i. with_int_key (map_slot i) (\<lambda>k. calling (map_get L m (IntKey k)) keep))))"

definition bench_map_get_miss_int :: "'m host \<Rightarrow> 'm arena_lib \<Rightarrow> 'm map_lib \<Rightarrow> 'm cstmt" where
  "bench_map_get_miss_int h A L = in_arena h A (\<lambda>a. filled_int_map L a (\<lambda>m.
     bench_loop (\<lambda>i. with_int_miss (map_slot i) (\<lambda>k. calling (map_get L m (IntKey k)) keep))))"

definition bench_map_get2_hit_int :: "'m host \<Rightarrow> 'm arena_lib \<Rightarrow> 'm map_lib \<Rightarrow> 'm cstmt" where
  "bench_map_get2_hit_int h A L = in_arena h A (\<lambda>a. filled_int_map L a (\<lambda>m.
     block [set_int ''map.out'' 0,
     bench_loop (\<lambda>i. with_int_key (map_slot i) (\<lambda>k. calling (map_get2 L m (IntKey k)) (\<lambda>r. block [
       (case r of Some v \<Rightarrow> block [set_int ''map.out'' v, keep_u64 1] | None \<Rightarrow> keep_u64 0),
       keep (addr h ''map.out'')])))]))"

definition bench_map_get_hit_str :: "'m host \<Rightarrow> 'm arena_lib \<Rightarrow> 'm map_lib \<Rightarrow> 'm cstmt" where
  "bench_map_get_hit_str h A L = in_arena h A (\<lambda>a. filled_str_map L a (\<lambda>m.
     bench_loop (\<lambda>i. with_str_key (map_slot i) (\<lambda>k. calling (map_get L m (StrKey k)) keep))))"

definition bench_map_get_miss_str :: "'m host \<Rightarrow> 'm arena_lib \<Rightarrow> 'm map_lib \<Rightarrow> 'm cstmt" where
  "bench_map_get_miss_str h A L = in_arena h A (\<lambda>a. filled_str_map L a (\<lambda>m.
     bench_loop (\<lambda>i. with_str_miss (map_slot i) (\<lambda>k. calling (map_get L m (StrKey k)) keep))))"

definition bench_map_set_update :: "'m host \<Rightarrow> 'm arena_lib \<Rightarrow> 'm map_lib \<Rightarrow> 'm cstmt" where
  "bench_map_set_update h A L = in_arena h A (\<lambda>a. filled_int_map L a (\<lambda>m. block [
     bench_loop (\<lambda>i. with_int_key (map_slot i) (\<lambda>k.
       calling (map_set L m (IntKey k) k) (\<lambda>_. Some))),
     keep_len L m]))"

text \<open>The two rows that build a map of ints differ in the size they ask for.\<close>

definition map_set_rows :: "nat \<Rightarrow> 'm host \<Rightarrow> 'm arena_lib \<Rightarrow> 'm map_lib \<Rightarrow> 'm cstmt" where
  "map_set_rows hint h A L = in_arena h A (\<lambda>a. block [
     map_build_keys,
     bench_loop (\<lambda>i. calling (map_make L a TypeInt hint) (\<lambda>m. block [
       set_int_keys L m, keep_len L m, calling (arena_reset A a) (\<lambda>_. Some)])),
     report_arena A a])"

definition bench_map_set_grow :: "'m host \<Rightarrow> 'm arena_lib \<Rightarrow> 'm map_lib \<Rightarrow> 'm cstmt" where
  "bench_map_set_grow = map_set_rows 0"

definition bench_map_set_prealloc :: "'m host \<Rightarrow> 'm arena_lib \<Rightarrow> 'm map_lib \<Rightarrow> 'm cstmt" where
  "bench_map_set_prealloc = map_set_rows MAP_N"

definition bench_map_set_prealloc_str :: "'m host \<Rightarrow> 'm arena_lib \<Rightarrow> 'm map_lib \<Rightarrow> 'm cstmt" where
  "bench_map_set_prealloc_str h A L = in_arena h A (\<lambda>a. block [
     map_build_keys,
     bench_loop (\<lambda>i. calling (map_make L a TypeString MAP_N) (\<lambda>m. block [
       set_str_keys L m, keep_len L m, calling (arena_reset A a) (\<lambda>_. Some)])),
     report_arena A a])"

definition bench_map_del_miss :: "'m host \<Rightarrow> 'm arena_lib \<Rightarrow> 'm map_lib \<Rightarrow> 'm cstmt" where
  "bench_map_del_miss h A L = in_arena h A (\<lambda>a. filled_int_map L a (\<lambda>m. block [
     bench_loop (\<lambda>i. with_int_miss (map_slot i) (\<lambda>k. calling (map_del L m (IntKey k)) (\<lambda>_. Some))),
     keep_len L m]))"

definition bench_map_set_del_pair :: "'m host \<Rightarrow> 'm arena_lib \<Rightarrow> 'm map_lib \<Rightarrow> 'm cstmt" where
  "bench_map_set_del_pair h A L = in_arena h A (\<lambda>a. filled_int_map L a (\<lambda>m. block [
     bench_loop (\<lambda>i. with_int_key (map_slot i) (\<lambda>k. block [
       calling (map_del L m (IntKey k)) (\<lambda>_. Some),
       calling (map_set L m (IntKey k) k) (\<lambda>_. Some)])),
     keep_len L m]))"

definition bench_map_iter :: "'m host \<Rightarrow> 'm arena_lib \<Rightarrow> 'm map_lib \<Rightarrow> 'm cstmt" where
  "bench_map_iter h A L = in_arena h A (\<lambda>a. filled_int_map L a (\<lambda>m.
     bench_loop (\<lambda>i. calling (map_iter L m) (\<lambda>it. summing (map_next L it) (\<lambda>s. keep_u64 (of_int s))))))"

definition bench_map_churn :: "'m host \<Rightarrow> 'm arena_lib \<Rightarrow> 'm map_lib \<Rightarrow> 'm cstmt" where
  "bench_map_churn h A L = in_arena h A (\<lambda>a. calling (map_make L a TypeInt 0) (\<lambda>m. block [
     map_build_keys,
     bench_loop (\<lambda>i. block [set_int_keys L m, del_int_keys L m, keep_len L m]),
     report_arena A a]))"

definition bench_map_clear_refill :: "'m host \<Rightarrow> 'm arena_lib \<Rightarrow> 'm map_lib \<Rightarrow> 'm cstmt" where
  "bench_map_clear_refill h A L = in_arena h A (\<lambda>a. filled_int_map L a (\<lambda>m. block [
     bench_loop (\<lambda>i. block [calling (map_clear L m) (\<lambda>_. Some), set_int_keys L m, keep_len L m]),
     report_arena A a]))"

definition map_table :: "'m host \<Rightarrow> 'm arena_lib \<Rightarrow> 'm map_lib \<Rightarrow> (string \<times> 'm cstmt) list" where
  "map_table h A L = [
     (''map_get_hit_int'', bench_map_get_hit_int h A L),
     (''map_get_miss_int'', bench_map_get_miss_int h A L),
     (''map_get2_hit_int'', bench_map_get2_hit_int h A L),
     (''map_get_hit_str'', bench_map_get_hit_str h A L),
     (''map_get_miss_str'', bench_map_get_miss_str h A L),
     (''map_set_update'', bench_map_set_update h A L),
     (''map_set_grow'', bench_map_set_grow h A L),
     (''map_set_prealloc'', bench_map_set_prealloc h A L),
     (''map_set_prealloc_str'', bench_map_set_prealloc_str h A L),
     (''map_del_miss'', bench_map_del_miss h A L),
     (''map_set_del_pair'', bench_map_set_del_pair h A L),
     (''map_iter'', bench_map_iter h A L),
     (''map_churn'', bench_map_churn h A L),
     (''map_clear_refill'', bench_map_clear_refill h A L)]"

section \<open>The contract\<close>

lemma map_parts_move [contract_rules]:
  "does (advances clock) map_build_keys" "does (advances clock) (set_int_keys L m)"
  "does (advances clock) (set_str_keys L m)" "does (advances clock) (del_int_keys L m)"
  "does (advances clock) (keep_len L m)"
  unfolding map_build_keys_def set_int_keys_def set_str_keys_def del_int_keys_def keep_len_def
    with_int_key_def with_str_key_def
  by (intro contract_rules)+

lemma map_scopes_move [contract_rules]:
  "(\<And>k. does (advances clock) (f k)) \<Longrightarrow> does (advances clock) (with_int_key i f)"
  "(\<And>k. does (advances clock) (f k)) \<Longrightarrow> does (advances clock) (with_int_miss i f)"
  "(\<And>k. does (advances clock) (g k)) \<Longrightarrow> does (advances clock) (with_str_key i g)"
  "(\<And>k. does (advances clock) (g k)) \<Longrightarrow> does (advances clock) (with_str_miss i g)"
  "(\<And>m. does (advances clock) (c m)) \<Longrightarrow> does (advances clock) (filled_int_map L a c)"
  "(\<And>m. does (advances clock) (c m)) \<Longrightarrow> does (advances clock) (filled_str_map L a c)"
  "(\<And>m. does (advances clock) (c m)) \<Longrightarrow> does (advances clock) (in_arena h A c)"
  unfolding with_int_key_def with_int_miss_def with_str_key_def with_str_miss_def
    filled_int_map_def filled_str_map_def in_arena_def Let_def
  by (intro contract_rules; assumption)+

lemmas map_bodies = bench_map_get_hit_int_def bench_map_get_miss_int_def bench_map_get2_hit_int_def
  bench_map_get_hit_str_def bench_map_get_miss_str_def bench_map_set_update_def map_set_rows_def
  bench_map_set_grow_def bench_map_set_prealloc_def bench_map_set_prealloc_str_def
  bench_map_del_miss_def bench_map_set_del_pair_def bench_map_iter_def bench_map_churn_def
  bench_map_clear_refill_def

lemma map_table_moves: "(nm, f) \<in> set (map_table h A L) \<Longrightarrow> does (advances clock) f"
  by (auto simp: map_table_def map_bodies split: option.split intro!: contract_rules
      simp del: block.simps)

section \<open>What a map promises\<close>

text \<open>
  The contract of burrow's map. \<open>view m\<close> is the finite map at the address \<open>m\<close>, and
  \<open>todo it\<close> are the values that the iterator \<open>it\<close> has still to come to, in an order that
  the map chooses.
\<close>

definition map_law ::
  "'m map_lib \<Rightarrow> (nat \<Rightarrow> 'm \<Rightarrow> map_key \<Rightarrow> int option) \<Rightarrow> (nat \<Rightarrow> 'm \<Rightarrow> int list) \<Rightarrow> bool" where
  "map_law L view todo \<longleftrightarrow>
     (\<forall>a ty n s. view (fst (map_make L a ty n s)) (snd (snd (map_make L a ty n s))) = Map.empty)
   \<and> (\<forall>m k v s. view m (snd (snd (map_set L m k v s))) = (view m s)(k \<mapsto> v))
   \<and> (\<forall>m k s. view m (snd (snd (map_get L m k s))) = view m s
        \<and> (fst (map_get L m k s) = 0 \<longleftrightarrow> view m s k = None))
   \<and> (\<forall>m k s. view m (snd (snd (map_get2 L m k s))) = view m s \<and> fst (map_get2 L m k s) = view m s k)
   \<and> (\<forall>m k s. view m (snd (snd (map_del L m k s))) = (view m s)(k := None))
   \<and> (\<forall>m s. view m (snd (snd (map_len L m s))) = view m s
        \<and> (finite (dom (view m s)) \<longrightarrow> fst (map_len L m s) = int (card (dom (view m s)))))
   \<and> (\<forall>m s. view m (snd (snd (map_clear L m s))) = Map.empty)
   \<and> (\<forall>m s. view m (snd (snd (map_iter L m s))) = view m s
        \<and> (finite (dom (view m s)) \<longrightarrow> (\<exists>ks. distinct ks \<and> set ks = dom (view m s)
             \<and> todo (fst (map_iter L m s)) (snd (snd (map_iter L m s))) = map (the \<circ> view m s) ks)))
   \<and> (\<forall>m it s. view m (snd (snd (map_next L it s))) = view m s)
   \<and> (\<forall>it s. fst (map_next L it s) = (case todo it s of [] \<Rightarrow> None | v # vs \<Rightarrow> Some v)
        \<and> todo it (snd (snd (map_next L it s))) = tl (todo it s))"

lemma map_lawD:
  assumes "map_law L view todo"
  shows "view (fst (map_make L a ty n s)) (snd (snd (map_make L a ty n s))) = Map.empty"
    and "view m (snd (snd (map_set L m k v s))) = (view m s)(k \<mapsto> v)"
    and "view m (snd (snd (map_get L m k s))) = view m s"
    and "(fst (map_get L m k s) = 0) = (view m s k = None)"
    and "view m (snd (snd (map_get2 L m k s))) = view m s"
    and "fst (map_get2 L m k s) = view m s k"
    and "view m (snd (snd (map_del L m k s))) = (view m s)(k := None)"
    and "view m (snd (snd (map_len L m s))) = view m s"
    and "finite (dom (view m s)) \<Longrightarrow> fst (map_len L m s) = int (card (dom (view m s)))"
    and "view m (snd (snd (map_clear L m s))) = Map.empty"
    and "view m (snd (snd (map_iter L m s))) = view m s"
    and "finite (dom (view m s)) \<Longrightarrow> \<exists>ks. distinct ks \<and> set ks = dom (view m s)
             \<and> todo (fst (map_iter L m s)) (snd (snd (map_iter L m s))) = map (the \<circ> view m s) ks"
    and "view m (snd (snd (map_next L it s))) = view m s"
    and "fst (map_next L it s) = (case todo it s of [] \<Rightarrow> None | v # vs \<Rightarrow> Some v)"
    and "todo it (snd (snd (map_next L it s))) = tl (todo it s)"
  by (insert assms [unfolded map_law_def], (elim conjE, (blast | metis))+)

section \<open>The table after filling\<close>

text \<open>What storing \<open>vf i\<close> under \<open>kf i\<close> for every \<open>i\<close> up to \<open>j\<close> builds.\<close>

definition tbl :: "(nat \<Rightarrow> 'k) \<Rightarrow> (nat \<Rightarrow> 'v) \<Rightarrow> nat \<Rightarrow> 'k \<Rightarrow> 'v option" where
  "tbl kf vf j = map_of (map (\<lambda>i. (kf i, vf i)) (rev [0..<j]))"

lemma tbl_0 [simp]: "tbl kf vf 0 = Map.empty"
  by (simp add: tbl_def)

lemma tbl_Suc: "tbl kf vf (Suc j) = (tbl kf vf j)(kf j \<mapsto> vf j)"
  by (simp add: tbl_def)

lemma tbl_dom: "dom (tbl kf vf j) = kf ` {..<j}"
  by (simp add: tbl_def dom_map_of_conv_image_fst image_image atLeast0LessThan)

lemma tbl_hit: "inj kf \<Longrightarrow> i < j \<Longrightarrow> tbl kf vf j (kf i) = Some (vf i)"
  by (induction j) (auto simp: tbl_Suc less_Suc_eq dest: injD)

lemma tbl_miss: "(\<And>i. i < j \<Longrightarrow> kf i \<noteq> k) \<Longrightarrow> tbl kf vf j k = None"
  by (induction j) (auto simp: tbl_Suc)

lemma tbl_card: "inj kf \<Longrightarrow> card (dom (tbl kf vf j)) = j"
  by (simp add: tbl_dom card_image inj_on_subset)

lemma add_same [simp]: "f ++ f = f"
  by (rule map_add_le_mapI [THEN map_le_antisym]) simp_all

abbreviation int_tbl :: "map_key \<Rightarrow> int option" where
  "int_tbl \<equiv> tbl (\<lambda>i. IntKey (map_int_key i)) map_int_key MAP_N"

abbreviation str_tbl :: "map_key \<Rightarrow> int option" where
  "str_tbl \<equiv> tbl (\<lambda>i. StrKey (map_str_key i)) int MAP_N"

lemma int_key_inj [simp]: "inj (\<lambda>i. IntKey (map_int_key i))"
  by (rule injI) (simp add: map_int_key_def)

section \<open>Running the parts\<close>

text \<open>The static arrays hold the keys, and the map at \<open>m\<close> is \<open>T\<close>.\<close>

definition has_keys :: "'m process \<Rightarrow> bool" where
  "has_keys p \<longleftrightarrow> int_array p ''map.int_keys'' = map map_int_key [0..<MAP_N]
     \<and> int_array p ''map.int_misses'' = map (\<lambda>i. - map_int_key i) [0..<MAP_N]
     \<and> str_array p ''map.str_keys'' = map map_str_key [0..<MAP_N]
     \<and> str_array p ''map.str_misses'' = map map_str_miss [0..<MAP_N]"

definition table_is ::
  "(nat \<Rightarrow> 'm \<Rightarrow> map_key \<Rightarrow> int option) \<Rightarrow> nat \<Rightarrow> (map_key \<Rightarrow> int option) \<Rightarrow> 'm process world \<Rightarrow> bool" where
  "table_is view m T w \<longleftrightarrow> has_keys (rest w) \<and> view m (machine (rest w)) = T"

lemma has_keys_simps [simp]:
  "has_keys (snd (lib f p)) = has_keys p" "has_keys (p\<lparr>int_var := g\<rparr>) = has_keys p"
  by (simp_all add: has_keys_def)

lemma map_build_keys_run:
  "\<exists>w'. map_build_keys w = Some w' \<and> has_keys (rest w') \<and> machine (rest w') = machine (rest w)
     \<and> kept w' = kept w \<and> b_n (bch w') = b_n (bch w)"
  by (simp add: map_build_keys_def set_ints_def set_strs_def assign_def has_keys_def)

lemma key_at:
  assumes "has_keys (rest w)" and "0 \<le> i" and "i < 1024"
  shows "with_int_key i f w = f (map_int_key (nat i)) w"
    and "with_int_miss i f w = f (- map_int_key (nat i)) w"
    and "with_str_key i g w = g (map_str_key (nat i)) w"
    and "with_str_miss i g w = g (map_str_miss (nat i)) w"
  using assms by (simp_all add: with_int_key_def with_int_miss_def with_str_key_def with_str_miss_def
      reading_def has_keys_def MAP_N_def nat_less_iff)

lemma map_slot_eq: "map_slot i = i mod 1024"
  using take_bit_eq_mask [of 10 i] take_bit_eq_mod [of 10 i]
  by (simp add: map_slot_def MAP_N_def mask_eq_exp_minus_1)

text \<open>A loop over the whole table: stores, or deletes, in the order of the keys.\<close>

lemma table_loop:
  fixes w :: "'m process world"
  assumes "table_is view m (F 0) w"
    and "\<And>j v. j < MAP_N \<Longrightarrow> table_is view m (F j) v \<Longrightarrow>
      \<exists>v'. body (int j) v = Some v' \<and> table_is view m (F (Suc j)) v' \<and> kept v' = kept v
        \<and> b_n (bch v') = b_n (bch v)"
  shows "\<exists>w'. repeat_for MAP_N body w = Some w' \<and> table_is view m (F MAP_N) w' \<and> kept w' = kept w
    \<and> b_n (bch w') = b_n (bch w)"
proof -
  have "\<exists>w'. for_loop MAP_N 0 body w = Some w' \<and> (table_is view m (F MAP_N) w' \<and> kept w' = kept w
    \<and> b_n (bch w') = b_n (bch w))"
  proof (rule for_loop_total)
    fix j and v :: "'m process world"
    assume "j < MAP_N" "table_is view m (F j) v \<and> kept v = kept w \<and> b_n (bch v) = b_n (bch w)"
    with assms(2) [of j v]
    show "\<exists>v'. body (0 + int j) v = Some v' \<and> table_is view m (F (Suc j)) v' \<and> kept v' = kept w
      \<and> b_n (bch v') = b_n (bch w)" by auto
  qed (simp add: assms(1))
  then show ?thesis by (simp add: repeat_for_def)
qed

lemma set_int_run:
  assumes law: "map_law L view todo" and "table_is view m T w"
  shows "\<exists>w'. set_int_keys L m w = Some w' \<and> table_is view m (T ++ int_tbl) w' \<and> kept w' = kept w
    \<and> b_n (bch w') = b_n (bch w)"
  unfolding set_int_keys_def
  by (rule table_loop [where F = "\<lambda>j. T ++ tbl (\<lambda>i. IntKey (map_int_key i)) map_int_key j"])
    (use assms(2) in \<open>auto simp: table_is_def key_at MAP_N_def calling_def split_beta
      map_lawD [OF law] tbl_Suc\<close>)

lemma set_str_run:
  assumes law: "map_law L view todo" and "table_is view m T w"
  shows "\<exists>w'. set_str_keys L m w = Some w' \<and> table_is view m (T ++ str_tbl) w' \<and> kept w' = kept w
    \<and> b_n (bch w') = b_n (bch w)"
  unfolding set_str_keys_def
  by (rule table_loop [where F = "\<lambda>j. T ++ tbl (\<lambda>i. StrKey (map_str_key i)) int j"])
    (use assms(2) in \<open>auto simp: table_is_def key_at MAP_N_def calling_def split_beta
      map_lawD [OF law] tbl_Suc\<close>)

text \<open>Deleting the int keys of a map that has only those empties it.\<close>

lemma del_int_run:
  assumes law: "map_law L view todo" and "table_is view m int_tbl w"
  shows "\<exists>w'. del_int_keys L m w = Some w' \<and> table_is view m Map.empty w' \<and> kept w' = kept w
    \<and> b_n (bch w') = b_n (bch w)"
proof -
  let ?F = "\<lambda>j. int_tbl |` (- (\<lambda>i. IntKey (map_int_key i)) ` {..<j})"
  have empty: "?F MAP_N = Map.empty"
    by (rule ext) (auto simp: restrict_map_def intro: tbl_miss)
  have "\<exists>w'. del_int_keys L m w = Some w' \<and> table_is view m (?F MAP_N) w' \<and> kept w' = kept w
    \<and> b_n (bch w') = b_n (bch w)"
    unfolding del_int_keys_def
  proof (rule table_loop [where F = ?F])
    fix j and v :: "'a process world"
    assume "j < MAP_N" "table_is view m (?F j) v"
    moreover have "(?F j)(IntKey (map_int_key j) := None) = ?F (Suc j)"
      by (rule ext) (auto simp: restrict_map_def less_Suc_eq)
    ultimately show "\<exists>v'. with_int_key (int j) (\<lambda>k. calling (map_del L m (IntKey k)) (\<lambda>_. Some)) v = Some v'
      \<and> table_is view m (?F (Suc j)) v' \<and> kept v' = kept v \<and> b_n (bch v') = b_n (bch v)"
      by (simp add: table_is_def key_at MAP_N_def calling_def split_beta map_lawD [OF law])
  qed (use assms(2) in \<open>simp add: restrict_map_def\<close>)
  then show ?thesis by (simp only: empty)
qed

text \<open>The row around a filled map: what follows the filling starts from the full table.\<close>

lemma in_arena_run:
  fixes w :: "'m process world"
  assumes "\<And>a v. rest v = snd (lib (arena_init A a) (rest w)) \<Longrightarrow> kept v = kept w \<Longrightarrow>
      b_n (bch v) = b_n (bch w) \<Longrightarrow> \<exists>w'. body a v = Some w' \<and> kept w' = kept w @ out"
  shows "\<exists>w'. in_arena h A body w = Some w' \<and> kept w' = kept w @ out"
proof -
  let ?a = "addr h ''map.ar''"
  obtain v where "body ?a (snd (call (lib (arena_init A ?a)) w)) = Some v" "kept v = kept w @ out"
    using assms [of "snd (call (lib (arena_init A ?a)) w)" ?a] by auto
  then show ?thesis by (simp add: in_arena_def Let_def calling_def split_beta)
qed

lemma filled_run:
  fixes w :: "'m process world"
  assumes law: "map_law L view todo"
    and "\<And>a m v. table_is view m int_tbl v \<Longrightarrow> kept v = kept w \<Longrightarrow> b_n (bch v) = b_n (bch w) \<Longrightarrow>
      \<exists>w'. k a m v = Some w' \<and> kept w' = kept w @ out"
  shows "\<exists>w'. in_arena h A (\<lambda>a. filled_int_map L a (k a)) w = Some w' \<and> kept w' = kept w @ out"
proof (rule in_arena_run)
  fix a and v :: "'m process world"
  assume v: "kept v = kept w" "b_n (bch v) = b_n (bch w)"
  let ?c = "call (lib (map_make L a TypeInt MAP_N)) v"
  obtain v1 where v1: "map_build_keys (snd ?c) = Some v1" "has_keys (rest v1)"
    "machine (rest v1) = machine (rest (snd ?c))" "kept v1 = kept w" "b_n (bch v1) = b_n (bch w)"
    using map_build_keys_run [of "snd ?c"] v by auto
  then have "table_is view (fst ?c) Map.empty v1"
    by (simp add: table_is_def map_lawD [OF law])
  from set_int_run [OF law this] obtain v2 where "set_int_keys L (fst ?c) v1 = Some v2"
    "table_is view (fst ?c) int_tbl v2" "kept v2 = kept w" "b_n (bch v2) = b_n (bch w)"
    using v1 by auto
  with assms(2) [of "fst ?c" v2 a] v1(1)
  show "\<exists>w'. filled_int_map L a (k a) v = Some w' \<and> kept w' = kept w @ out"
    by (auto simp: filled_int_map_def calling_def split_beta)
qed

text \<open>A loop in which every round leaves the table as it was.\<close>

lemma table_rounds:
  fixes v :: "'m process world"
  assumes "table_is view m T v"
    and "\<And>j u. table_is view m T u \<Longrightarrow>
      \<exists>u'. body (int j) u = Some u' \<and> table_is view m T u' \<and> kept u' = kept u @ g j"
  shows "\<exists>w'. bench_loop body v = Some w' \<and> table_is view m T w'
    \<and> kept w' = kept v @ concat (map g [0..<nat (b_n (bch v))])"
  by (rule loop_kept [where I = "\<lambda>_. table_is view m T"]) (use assms in auto)

lemma slot_range: "0 \<le> map_slot (int j)" "map_slot (int j) < 1024"
  by (simp_all add: map_slot_eq)

lemma int_miss [simp]: "int_tbl (IntKey (- map_int_key i)) = None"
  by (rule tbl_miss) (simp add: map_int_key_def)

lemma int_hit [simp]: "i < 1024 \<Longrightarrow> int_tbl (IntKey (map_int_key i)) = Some (map_int_key i)"
  by (rule tbl_hit) (simp_all add: MAP_N_def)

lemma slot_hit [simp]:
  "int_tbl (IntKey (map_int_key (nat (map_slot (int j))))) = Some (map_int_key (nat (map_slot (int j))))"
  using slot_range [of j] by (intro int_hit) linarith

text \<open>
  Functional: in every round of the rows that read the map, a key that was stored is found and
  a key that was not is not. With any map that keeps its contract, the copying lookup reports
  true in each of the \<open>n\<close> rounds, and the lookup of a missing key returns \<open>NULL\<close> in each.
\<close>
theorem map_rows_find:
  assumes "map_law L view todo"
  shows "(\<exists>w'. bench_map_get2_hit_int h A L w = Some w' \<and> kept w' = kept w
        @ concat (replicate (nat (b_n (bch w))) [KeptU64 1, KeptPtr (addr h ''map.out'')]))
    \<and> (\<exists>w'. bench_map_get_miss_int h A L w = Some w'
        \<and> kept w' = kept w @ replicate (nat (b_n (bch w))) (KeptPtr 0))"
proof
  let ?out = "\<lambda>_ :: nat. [KeptU64 1, KeptPtr (addr h ''map.out'')]"
  have "\<exists>w'. bench_map_get2_hit_int h A L w = Some w'
    \<and> kept w' = kept w @ concat (map ?out [0..<nat (b_n (bch w))])"
    unfolding bench_map_get2_hit_int_def
  proof (rule filled_run [OF assms])
    fix m and v :: "'a process world"
    assume v: "table_is view m int_tbl v" "kept v = kept w" "b_n (bch v) = b_n (bch w)"
    let ?v = "perform (\<lambda>p. p\<lparr>int_var := (int_var p)(''map.out'' := 0)\<rparr>) v"
    have "table_is view m int_tbl ?v" using v(1) by (simp add: table_is_def perform_def)
    from table_rounds [OF this, of "\<lambda>i. with_int_key (map_slot i) (\<lambda>k. calling (map_get2 L m (IntKey k))
      (\<lambda>r. block [(case r of Some v \<Rightarrow> block [set_int ''map.out'' v, keep_u64 1] | None \<Rightarrow> keep_u64 0),
       keep (addr h ''map.out'')]))" ?out]
    show "\<exists>w'. block [set_int ''map.out'' 0, bench_loop (\<lambda>i. with_int_key (map_slot i) (\<lambda>k.
        calling (map_get2 L m (IntKey k)) (\<lambda>r. block [
         (case r of Some v \<Rightarrow> block [set_int ''map.out'' v, keep_u64 1] | None \<Rightarrow> keep_u64 0),
         keep (addr h ''map.out'')])))] v = Some w'
      \<and> kept w' = kept w @ concat (map ?out [0..<nat (b_n (bch w))])"
      using v by (auto simp: table_is_def key_at slot_range stmt_simps map_lawD [OF assms])
  qed
  then show "\<exists>w'. bench_map_get2_hit_int h A L w = Some w' \<and> kept w' = kept w
        @ concat (replicate (nat (b_n (bch w))) [KeptU64 1, KeptPtr (addr h ''map.out'')])"
    by (simp add: map_replicate_const)
next
  have "\<exists>w'. bench_map_get_miss_int h A L w = Some w'
    \<and> kept w' = kept w @ concat (map (\<lambda>_. [KeptPtr 0]) [0..<nat (b_n (bch w))])"
    unfolding bench_map_get_miss_int_def
  proof (rule filled_run [OF assms])
    fix m and v :: "'a process world"
    assume v: "table_is view m int_tbl v" "kept v = kept w" "b_n (bch v) = b_n (bch w)"
    from table_rounds [OF v(1), of "\<lambda>i. with_int_miss (map_slot i) (\<lambda>k. calling (map_get L m (IntKey k)) keep)"
      "\<lambda>_. [KeptPtr 0]"]
    show "\<exists>w'. bench_loop (\<lambda>i. with_int_miss (map_slot i) (\<lambda>k. calling (map_get L m (IntKey k)) keep)) v
      = Some w' \<and> kept w' = kept w @ concat (map (\<lambda>_. [KeptPtr 0]) [0..<nat (b_n (bch w))])"
      using v by (auto simp: table_is_def key_at slot_range stmt_simps map_lawD [OF assms])
  qed
  then show "\<exists>w'. bench_map_get_miss_int h A L w = Some w'
        \<and> kept w' = kept w @ replicate (nat (b_n (bch w))) (KeptPtr 0)"
    by (simp add: map_replicate_const)
qed

text \<open>The sum over an iterator: all the values that are still to come, when the sum fits.\<close>

lemma int_sum: "(\<Sum>i<n. 7 * int i + 1) = (7 * int n * (int n - 1) + 2 * int n) div 2"
proof -
  have "2 * (\<Sum>i<n. 7 * int i + 1) = 7 * int n * (int n - 1) + 2 * int n"
    by (induction n) (simp_all add: algebra_simps)
  then show ?thesis by simp
qed

text \<open>Any listing of the table sums to the same value.\<close>

lemma int_tbl_values:
  assumes "distinct ks" and "set ks = dom int_tbl"
  shows "sum_list (map (the \<circ> int_tbl) ks) = 3667456" and "\<forall>v \<in> set (map (the \<circ> int_tbl) ks). 0 \<le> v"
proof -
  let ?k = "\<lambda>i. IntKey (map_int_key i)"
  have "sum_list (map (the \<circ> int_tbl) ks) = (\<Sum>k \<in> ?k ` {..<1024}. the (int_tbl k))"
    using assms by (simp add: sum_list_distinct_conv_sum_set tbl_dom MAP_N_def)
  also have "\<dots> = (\<Sum>i<1024. the (int_tbl (?k i)))"
    by (simp add: sum.reindex inj_on_subset [OF int_key_inj])
  also have "\<dots> = (\<Sum>i<1024. 7 * int i + 1)"
    by (intro sum.cong) (simp_all add: map_int_key_def [symmetric], simp add: map_int_key_def)
  finally show "sum_list (map (the \<circ> int_tbl) ks) = 3667456" by (simp add: int_sum)
  show "\<forall>v \<in> set (map (the \<circ> int_tbl) ks). 0 \<le> v"
  proof
    fix v assume "v \<in> set (map (the \<circ> int_tbl) ks)"
    then obtain i where "i < 1024" "v = the (int_tbl (?k i))"
      using assms(2) by (auto simp: tbl_dom MAP_N_def)
    then have "v = map_int_key i" by simp
    then show "0 \<le> v" by (simp add: map_int_key_def)
  qed
qed

text \<open>
  Functional: the walk over the map sums every value exactly once. Whatever order the map
  iterates in, each round hands \<open>1 + 8 + ... + 7162 = 3667456\<close> to the sink, no partial sum
  overflows, and the loop over the iterator ends.
\<close>
theorem map_iter_sums_all:
  assumes "map_law L view todo"
  shows "\<exists>w'. bench_map_iter h A L w = Some w'
    \<and> kept w' = kept w @ replicate (nat (b_n (bch w))) (KeptU64 3667456)"
proof -
  let ?body = "\<lambda>m i. calling (map_iter L m) (\<lambda>it. summing (map_next L it) (\<lambda>s. keep_u64 (of_int s))) :: 'a cstmt"
  have round: "\<exists>u'. ?body m (int j) u = Some u' \<and> table_is view m int_tbl u'
    \<and> kept u' = kept u @ [KeptU64 3667456]" if u: "table_is view m int_tbl u" for m j u
  proof -
    let ?c = "call (lib (map_iter L m)) u"
    have "finite (dom (view m (machine (rest u))))" using u by (simp add: table_is_def tbl_dom)
    from map_lawD(12) [OF assms this] u obtain ks where ks: "distinct ks" "set ks = dom int_tbl"
      "todo (fst ?c) (machine (rest (snd ?c))) = map (the \<circ> int_tbl) ks"
      by (auto simp: table_is_def)
    have "table_is view m int_tbl (snd ?c)" using u by (simp add: table_is_def map_lawD [OF assms])
    with sum_values_run [where todo = "todo (fst ?c)" and J = "\<lambda>s. view m s = int_tbl",
        OF map_lawD(14) [OF assms] map_lawD(15) [OF assms] _ ks(3) int_tbl_values(2) [OF ks(1,2)], of 0]
      int_tbl_values(1) [OF ks(1,2)]
    obtain v where "sum_values (map_next L (fst ?c)) 0 (snd ?c) = Some (3667456, v)" "table_is view m int_tbl v"
      "kept v = kept u" by (auto simp: int64_max_def table_is_def has_keys_def map_lawD(13) [OF assms])
    then show ?thesis
      by (auto simp: calling_def split_beta summing_def keep_u64_def table_is_def)
  qed
  have "\<exists>w'. bench_map_iter h A L w = Some w'
    \<and> kept w' = kept w @ concat (map (\<lambda>_. [KeptU64 3667456]) [0..<nat (b_n (bch w))])"
    unfolding bench_map_iter_def
  proof (rule filled_run [OF assms])
    fix m and v :: "'a process world"
    assume v: "table_is view m int_tbl v" "kept v = kept w" "b_n (bch v) = b_n (bch w)"
    from table_rounds [OF v(1), of "?body m" "\<lambda>_. [KeptU64 3667456]"] round v(2,3)
    show "\<exists>w'. bench_loop (?body m) v = Some w'
      \<and> kept w' = kept w @ concat (map (\<lambda>_. [KeptU64 3667456]) [0..<nat (b_n (bch w))])" by auto
  qed
  then show ?thesis by (simp add: map_replicate_const)
qed

section \<open>The size of the table\<close>

lemma keep_len_run:
  assumes law: "map_law L view todo" and "table_is view m T u" and "finite (dom T)"
  shows "\<exists>u'. keep_len L m u = Some u' \<and> table_is view m T u' \<and> b_n (bch u') = b_n (bch u)
    \<and> kept u' = kept u @ [KeptU64 (of_nat (card (dom T)))]"
  using assms(2,3) by (simp add: keep_len_def calling_def split_beta keep_u64_def table_is_def map_lawD [OF law])

lemma int_size [simp]: "card (dom int_tbl) = 1024" "finite (dom int_tbl)"
  by (simp_all add: tbl_card) (simp_all add: MAP_N_def tbl_dom)

text \<open>Rows with one look at the size after the loop.\<close>

lemma size_after:
  fixes v :: "'m process world"
  assumes law: "map_law L view todo" and "table_is view m int_tbl v"
    and "\<And>j u. table_is view m int_tbl u \<Longrightarrow>
      \<exists>u'. body (int j) u = Some u' \<and> table_is view m int_tbl u' \<and> kept u' = kept u"
  shows "\<exists>w'. block [bench_loop body, keep_len L m] v = Some w' \<and> kept w' = kept v @ [KeptU64 1024]"
proof -
  have "\<exists>v1. bench_loop body v = Some v1 \<and> table_is view m int_tbl v1
    \<and> kept v1 = kept v @ concat (map (\<lambda>_. []) [0..<nat (b_n (bch v))])"
    by (rule table_rounds [OF assms(2)]) (use assms(3) in simp)
  then obtain v1 where "bench_loop body v = Some v1" "table_is view m int_tbl v1" "kept v1 = kept v"
    by auto
  with keep_len_run [OF law this(2)] show ?thesis by auto
qed

lemma same_key [simp]: "int_tbl(IntKey (map_int_key (nat (map_slot (int j))))
    \<mapsto> map_int_key (nat (map_slot (int j)))) = int_tbl"
  by (rule ext) simp

lemma same_miss [simp]: "int_tbl(IntKey (- map_int_key i) := None) = int_tbl"
  by (rule ext) simp

lemma size_row:
  fixes w :: "'m process world"
  assumes law: "map_law L view todo"
    and "\<And>m j u. table_is view m int_tbl u \<Longrightarrow>
      \<exists>u'. body m (int j) u = Some u' \<and> table_is view m int_tbl u' \<and> kept u' = kept u"
  shows "\<exists>w'. in_arena h A (\<lambda>a. filled_int_map L a (\<lambda>m. block [bench_loop (body m), keep_len L m])) w
    = Some w' \<and> kept w' = kept w @ [KeptU64 1024]"
proof (rule filled_run [OF law])
  fix m and v :: "'m process world" assume v: "table_is view m int_tbl v" "kept v = kept w"
  have "\<exists>w'. block [bench_loop (body m), keep_len L m] v = Some w' \<and> kept w' = kept v @ [KeptU64 1024]"
    by (rule size_after [OF law v(1)]) (rule assms(2))
  then show "\<exists>w'. block [bench_loop (body m), keep_len L m] v = Some w'
    \<and> kept w' = kept w @ [KeptU64 1024]" by (simp only: v(2))
qed

text \<open>
  Invariant: the rows that write through the full table leave it full. Storing over a key,
  deleting a key that is not there, and deleting and storing back a key keep the size at
  exactly 1024 in every run of any length; the one value in the sink says so.
\<close>
theorem map_updates_keep_size:
  assumes "map_law L view todo"
  shows "(\<exists>w'. bench_map_set_update h A L w = Some w' \<and> kept w' = kept w @ [KeptU64 1024])
    \<and> (\<exists>w'. bench_map_del_miss h A L w = Some w' \<and> kept w' = kept w @ [KeptU64 1024])
    \<and> (\<exists>w'. bench_map_set_del_pair h A L w = Some w' \<and> kept w' = kept w @ [KeptU64 1024])"
  unfolding bench_map_set_update_def bench_map_del_miss_def bench_map_set_del_pair_def
  by (intro conjI; rule size_row [OF assms];
      simp add: table_is_def key_at slot_range calling_def split_beta map_lawD [OF assms])

lemma report_run: "\<exists>w'. report_arena A a v = Some w' \<and> kept w' = kept v"
  by (simp add: report_arena_def calling_def split_beta reporting_def bench_report_allocs_def)

lemma churn_round:
  assumes law: "map_law L view todo" and "table_is view m Map.empty u"
  shows "\<exists>u'. block [set_int_keys L m, del_int_keys L m, keep_len L m] u = Some u'
    \<and> table_is view m Map.empty u' \<and> kept u' = kept u @ [KeptU64 0]"
proof -
  obtain u1 where u1: "set_int_keys L m u = Some u1" "table_is view m int_tbl u1" "kept u1 = kept u"
    using set_int_run [OF assms] by auto
  obtain u2 where u2: "del_int_keys L m u1 = Some u2" "table_is view m Map.empty u2" "kept u2 = kept u1"
    using del_int_run [OF law u1(2)] by auto
  from keep_len_run [OF law u2(2)] u1 u2 show ?thesis by auto
qed

lemma refill_round:
  assumes law: "map_law L view todo" and "table_is view m T u" and "T = Map.empty"
  shows "\<exists>u'. block [set_int_keys L m, keep_len L m] u = Some u'
    \<and> table_is view m int_tbl u' \<and> b_n (bch u') = b_n (bch u) \<and> kept u' = kept u @ [KeptU64 1024]"
proof -
  obtain u1 where u1: "set_int_keys L m u = Some u1" "table_is view m int_tbl u1" "kept u1 = kept u"
    "b_n (bch u1) = b_n (bch u)"
    using set_int_run [OF assms(1,2)] assms(3) by auto
  from keep_len_run [OF law u1(2)] u1 show ?thesis by auto
qed

lemma churn_row:
  fixes w :: "'m process world"
  assumes law: "map_law L view todo"
  shows "\<exists>w'. bench_map_churn h A L w = Some w'
    \<and> kept w' = kept w @ replicate (nat (b_n (bch w))) (KeptU64 0)"
  unfolding bench_map_churn_def
proof (rule in_arena_run)
  fix a and v :: "'m process world" assume v: "kept v = kept w" "b_n (bch v) = b_n (bch w)"
  let ?c = "call (lib (map_make L a TypeInt 0)) v"
  obtain v1 where v1: "map_build_keys (snd ?c) = Some v1" "has_keys (rest v1)"
    "machine (rest v1) = machine (rest (snd ?c))" "kept v1 = kept w" "b_n (bch v1) = b_n (bch w)"
    using map_build_keys_run [of "snd ?c"] v by auto
  then have "table_is view (fst ?c) Map.empty v1" by (simp add: table_is_def map_lawD [OF law])
  from table_rounds [OF this churn_round [OF law]] v1
  obtain v2 where v2: "bench_loop (\<lambda>i. block [set_int_keys L (fst ?c), del_int_keys L (fst ?c),
      keep_len L (fst ?c)]) v1 = Some v2"
    "kept v2 = kept w @ replicate (nat (b_n (bch w))) (KeptU64 0)"
    by (auto simp: map_replicate_const simp del: block.simps)
  obtain v3 where "report_arena A a v2 = Some v3" "kept v3 = kept v2"
    using report_run by blast
  with v1(1) v2 show "\<exists>w'. calling (map_make L a TypeInt 0) (\<lambda>m. block [map_build_keys,
      bench_loop (\<lambda>i. block [set_int_keys L m, del_int_keys L m, keep_len L m]), report_arena A a]) v
    = Some w' \<and> kept w' = kept w @ replicate (nat (b_n (bch w))) (KeptU64 0)"
    by (simp add: calling_def split_beta del: block.simps) simp
qed

lemma build_row:
  fixes w :: "'m process world"
  assumes law: "map_law L view todo"
  shows "\<exists>w'. map_set_rows hint h A L w = Some w'
    \<and> kept w' = kept w @ replicate (nat (b_n (bch w))) (KeptU64 1024)"
  unfolding map_set_rows_def
proof (rule in_arena_run)
  fix a and v :: "'m process world" assume v: "kept v = kept w" "b_n (bch v) = b_n (bch w)"
  let ?round = "\<lambda>i :: int. calling (map_make L a TypeInt hint) (\<lambda>m. block [
       set_int_keys L m, keep_len L m, calling (arena_reset A a) (\<lambda>_. Some)]) :: 'm cstmt"
  obtain v1 where v1: "map_build_keys v = Some v1" "has_keys (rest v1)" "kept v1 = kept w"
    "b_n (bch v1) = b_n (bch w)"
    using map_build_keys_run [of v] v by auto
  have "\<exists>v2. bench_loop ?round v1 = Some v2 \<and> has_keys (rest v2)
    \<and> kept v2 = kept v1 @ concat (map (\<lambda>_. [KeptU64 1024]) [0..<nat (b_n (bch v1))])"
  proof (rule loop_kept [where I = "\<lambda>_ u. has_keys (rest u)"])
    fix j and u :: "'m process world" assume "has_keys (rest u)"
    then have "table_is view (fst (call (lib (map_make L a TypeInt hint)) u)) Map.empty
        (snd (call (lib (map_make L a TypeInt hint)) u))"
      by (simp add: table_is_def map_lawD [OF law])
    from refill_round [OF law this refl]
    show "\<exists>u'. ?round (int j) u = Some u' \<and> kept u' = kept u @ [KeptU64 1024] \<and> has_keys (rest u')"
      by (auto simp: calling_def split_beta table_is_def bind_eq_Some_conv)
  qed (use v1 in simp)
  then obtain v2 where v2: "bench_loop ?round v1 = Some v2"
    "kept v2 = kept w @ replicate (nat (b_n (bch w))) (KeptU64 1024)"
    using v1 by (auto simp: map_replicate_const)
  obtain v3 where "report_arena A a v2 = Some v3" "kept v3 = kept v2"
    using report_run by blast
  with v1(1) v2 show "\<exists>w'. block [map_build_keys, bench_loop ?round, report_arena A a] v = Some w'
    \<and> kept w' = kept w @ replicate (nat (b_n (bch w))) (KeptU64 1024)" by simp
qed

lemma clear_row:
  fixes w :: "'m process world"
  assumes law: "map_law L view todo"
  shows "\<exists>w'. bench_map_clear_refill h A L w = Some w'
    \<and> kept w' = kept w @ replicate (nat (b_n (bch w))) (KeptU64 1024)"
  unfolding bench_map_clear_refill_def
proof (rule filled_run [OF law])
  fix a m and v :: "'m process world"
  assume v: "table_is view m int_tbl v" "kept v = kept w" "b_n (bch v) = b_n (bch w)"
  let ?round = "\<lambda>i :: int. block [calling (map_clear L m) (\<lambda>_. Some), set_int_keys L m, keep_len L m] :: 'm cstmt"
  have round: "\<exists>u'. ?round (int j) u = Some u' \<and> table_is view m int_tbl u' \<and> kept u' = kept u @ [KeptU64 1024]"
    if "table_is view m int_tbl u" for j u
  proof -
    have "table_is view m Map.empty (snd (call (lib (map_clear L m)) u))"
      using that by (simp add: table_is_def map_lawD [OF law])
    from refill_round [OF law this refl] show ?thesis by (auto simp: calling_def split_beta)
  qed
  obtain v2 where v2: "bench_loop ?round v = Some v2"
    "kept v2 = kept w @ replicate (nat (b_n (bch w))) (KeptU64 1024)"
    using table_rounds [OF v(1) round] v(2,3) by (auto simp: map_replicate_const simp del: block.simps)
  obtain v3 where "report_arena A a v2 = Some v3" "kept v3 = kept v2"
    using report_run by blast
  with v2 show "\<exists>w'. block [bench_loop ?round, report_arena A a] v = Some w'
    \<and> kept w' = kept w @ replicate (nat (b_n (bch w))) (KeptU64 1024)" by simp
qed

text \<open>
  The sizes that the rows which fill and empty a map in every round hand to the sink. What the tables
  hold at the end of every round is in theory \<open>Map_Rounds\<close>.
\<close>

lemma map_rounds_sizes:
  assumes "map_law L view todo"
  shows "(\<exists>w'. bench_map_churn h A L w = Some w'
       \<and> kept w' = kept w @ replicate (nat (b_n (bch w))) (KeptU64 0))
    \<and> (\<exists>w'. bench_map_set_grow h A L w = Some w'
       \<and> kept w' = kept w @ replicate (nat (b_n (bch w))) (KeptU64 1024))
    \<and> (\<exists>w'. bench_map_clear_refill h A L w = Some w'
       \<and> kept w' = kept w @ replicate (nat (b_n (bch w))) (KeptU64 1024))"
  using churn_row [OF assms] build_row [OF assms, of 0] clear_row [OF assms]
  by (auto simp: bench_map_set_grow_def)

section \<open>A map\<close>

text \<open>
  An association list, whose iterator lists the newest entries first: the laws hold for it.
\<close>

definition alist_map :: "((map_key \<times> int) list \<times> int list) map_lib" where
  "alist_map = \<lparr>
     map_make = (\<lambda>a ty n (al, it). (8, 1, ([], it))),
     map_set = (\<lambda>m k v (al, it). ((), 1, (AList.update k v al, it))),
     map_get = (\<lambda>m k (al, it). (case map_of al k of None \<Rightarrow> 0 | Some v \<Rightarrow> 16, 1, (al, it))),
     map_get2 = (\<lambda>m k (al, it). (map_of al k, 1, (al, it))),
     map_del = (\<lambda>m k (al, it). ((), 1, (AList.delete k al, it))),
     map_len = (\<lambda>m (al, it). (int (length (AList.clearjunk al)), 1, (al, it))),
     map_clear = (\<lambda>m (al, it). ((), 1, ([], it))),
     map_iter = (\<lambda>m (al, it). (24, 1, (al, map snd (AList.clearjunk al)))),
     map_next = (\<lambda>i (al, it). (case it of [] \<Rightarrow> (None, 1, (al, [])) | v # vs \<Rightarrow> (Some v, 1, (al, vs))))\<rparr>"

lemma clearjunk_size: "length (AList.clearjunk al) = card (dom (map_of al))"
proof -
  have "length (AList.clearjunk al) = card (set (map fst (AList.clearjunk al)))"
    using distinct_clearjunk [of al] by (metis distinct_card length_map)
  then show ?thesis by (simp add: dom_clearjunk dom_map_of_conv_image_fst)
qed

lemma clearjunk_listing:
  "\<exists>ks. distinct ks \<and> set ks = dom (map_of al) \<and> map snd (AList.clearjunk al) = map (the \<circ> map_of al) ks"
proof (intro exI conjI)
  show "distinct (map fst (AList.clearjunk al))" by (rule distinct_clearjunk)
  show "set (map fst (AList.clearjunk al)) = dom (map_of al)"
    by (simp add: dom_clearjunk dom_map_of_conv_image_fst)
  have "map_of al (fst x) = Some (snd x)" if "x \<in> set (AList.clearjunk al)" for x
    using that distinct_clearjunk [of al] by (metis map_of_clearjunk map_of_is_SomeI prod.collapse)
  then show "map snd (AList.clearjunk al) = map (the \<circ> map_of al) (map fst (AList.clearjunk al))"
    by simp
qed

lemma alist_map_law: "map_law alist_map (\<lambda>m (al, it). map_of al) (\<lambda>i (al, it). it)"
  using clearjunk_listing
  by (auto simp: map_law_def alist_map_def clearjunk_size update_conv' delete_conv' split: option.split list.split)

abbreviation map_world :: "int \<Rightarrow> ((map_key \<times> int) list \<times> int list) process world" where
  "map_world n \<equiv> \<lparr>bch = zero_bench\<lparr>b_n := n\<rparr>, kept = [], rest = \<lparr>clock = 0, int_var = (\<lambda>x. 0),
     u64_var = (\<lambda>x. 0), dbl_var = (\<lambda>x. 0), int_array = (\<lambda>x. []), str_array = (\<lambda>x. []),
     machine = ([], [])\<rparr>\<rparr>"

abbreviation map_host :: "((map_key \<times> int) list \<times> int list) host" where
  "map_host \<equiv> exact_host (\<lambda>x. 64) (\<lambda>x. 0)"

definition map_arena :: "((map_key \<times> int) list \<times> int list) arena_lib" where
  "map_arena = \<lparr>arena_init = (\<lambda>a m. ((), 1, m)), arena_reset = (\<lambda>a m. ((), 1, m)),
     arena_free = (\<lambda>a m. ((), 1, m)), mem_stats = (\<lambda>a m. ((0, 0), 1, m))\<rparr>"

theorem map_rows_find_witness:
  "\<exists>w'. bench_map_get2_hit_int map_host map_arena alist_map (map_world 2) = Some w'
     \<and> kept w' = [KeptU64 1, KeptPtr 64, KeptU64 1, KeptPtr 64]"
  using map_rows_find [OF alist_map_law, of map_host map_arena "map_world 2"]
  by (simp add: numeral_2_eq_2)

theorem map_iter_sums_all_witness:
  "\<exists>w'. bench_map_iter map_host map_arena alist_map (map_world 2) = Some w'
     \<and> kept w' = [KeptU64 3667456, KeptU64 3667456]"
  using map_iter_sums_all [OF alist_map_law, of map_host map_arena "map_world 2"]
  by (simp add: numeral_2_eq_2)

theorem map_updates_keep_size_witness:
  "\<exists>w'. bench_map_set_del_pair map_host map_arena alist_map (map_world 5) = Some w'
     \<and> kept w' = [KeptU64 1024]"
  using map_updates_keep_size [OF alist_map_law, of map_host map_arena "map_world 5"] by simp

end
