(* ===== verification/Map_Rounds.thy ===== *)
theory Map_Rounds
  imports Map_Bench
begin

text \<open>
  What the rows of \<open>bench/map_bench.c\<close> that fill and empty a map in every round ask of burrow's map, call by
  call, and what the map holds whenever they look at its size. The rows are run over a map that writes down the
  calls that change or measure it, beside what it does; it is burrow's map in everything else.
\<close>

section \<open>A map that writes down what it is asked\<close>

text \<open>\<open>Measured m T\<close> is a call of \<open>map_len\<close> at a time when the map holds \<open>T\<close>.\<close>

datatype map_call = Made nat nat | Stored nat map_key int | Deleted nat map_key | Cleared nat
  | Measured nat "map_key \<Rightarrow> int option"

definition noting :: "('a, 'm) op \<Rightarrow> ('a \<Rightarrow> 'm \<Rightarrow> map_call list) \<Rightarrow> ('a, 'm \<times> map_call list) op" where
  "noting f e = (\<lambda>(s, l). case f s of (x, ns, s') \<Rightarrow> (x, ns, (s', l @ e x s)))"

definition recorded :: "'m map_lib \<Rightarrow> (nat \<Rightarrow> 'm \<Rightarrow> map_key \<Rightarrow> int option) \<Rightarrow> ('m \<times> map_call list) map_lib" where
  "recorded L view = \<lparr>
     map_make = (\<lambda>a ty n. noting (map_make L a ty n) (\<lambda>m s. [Made m n])),
     map_set = (\<lambda>m k v. noting (map_set L m k v) (\<lambda>_ s. [Stored m k v])),
     map_get = (\<lambda>m k. noting (map_get L m k) (\<lambda>_ s. [])),
     map_get2 = (\<lambda>m k. noting (map_get2 L m k) (\<lambda>_ s. [])),
     map_del = (\<lambda>m k. noting (map_del L m k) (\<lambda>_ s. [Deleted m k])),
     map_len = (\<lambda>m. noting (map_len L m) (\<lambda>_ s. [Measured m (view m s)])),
     map_clear = (\<lambda>m. noting (map_clear L m) (\<lambda>_ s. [Cleared m])),
     map_iter = (\<lambda>m. noting (map_iter L m) (\<lambda>_ s. [])),
     map_next = (\<lambda>it. noting (map_next L it) (\<lambda>_ s. []))\<rparr>"

definition recorded_arena :: "'m arena_lib \<Rightarrow> ('m \<times> map_call list) arena_lib" where
  "recorded_arena A = \<lparr>
     arena_init = (\<lambda>a. noting (arena_init A a) (\<lambda>_ s. [])), arena_reset = (\<lambda>a. noting (arena_reset A a) (\<lambda>_ s. [])),
     arena_free = (\<lambda>a. noting (arena_free A a) (\<lambda>_ s. [])), mem_stats = (\<lambda>a. noting (mem_stats A a) (\<lambda>_ s. []))\<rparr>"

lemma noting_sel [simp]:
  "fst (noting f e m) = fst (f (fst m))" "fst (snd (snd (noting f e m))) = snd (snd (f (fst m)))"
  "snd (snd (snd (noting f e m))) = snd m @ e (fst (f (fst m))) (fst m)"
  by (simp_all add: noting_def split_beta)

lemma recorded_sel [simp]:
  "map_make (recorded L view) a ty n = noting (map_make L a ty n) (\<lambda>m s. [Made m n])"
  "map_set (recorded L view) m k v = noting (map_set L m k v) (\<lambda>_ s. [Stored m k v])"
  "map_del (recorded L view) m k = noting (map_del L m k) (\<lambda>_ s. [Deleted m k])"
  "map_len (recorded L view) m = noting (map_len L m) (\<lambda>_ s. [Measured m (view m s)])"
  "map_clear (recorded L view) m = noting (map_clear L m) (\<lambda>_ s. [Cleared m])"
  "arena_init (recorded_arena A) a = noting (arena_init A a) (\<lambda>_ s. [])"
  "arena_reset (recorded_arena A) a = noting (arena_reset A a) (\<lambda>_ s. [])"
  "arena_free (recorded_arena A) a = noting (arena_free A a) (\<lambda>_ s. [])"
  "mem_stats (recorded_arena A) a = noting (mem_stats A a) (\<lambda>_ s. [])"
  by (simp_all add: recorded_def recorded_arena_def)

section \<open>The calls of a round\<close>

text \<open>The key number \<open>i\<close> is \<open>7 * i + 1\<close>, and is stored under itself.\<close>

definition stores :: "nat \<Rightarrow> nat \<Rightarrow> map_call list" where
  "stores m k = map (\<lambda>i. Stored m (IntKey (7 * int i + 1)) (7 * int i + 1)) [0..<k]"

definition deletes :: "nat \<Rightarrow> nat \<Rightarrow> map_call list" where
  "deletes m k = map (\<lambda>i. Deleted m (IntKey (7 * int i + 1))) [0..<k]"

definition full_table :: "map_key \<Rightarrow> int option" where
  "full_table k = (case k of IntKey x \<Rightarrow> if 0 < x \<and> x \<le> 7162 \<and> x mod 7 = 1 then Some x else None | StrKey s \<Rightarrow> None)"

lemma int_tbl_full: "int_tbl = full_table"
proof (rule ext)
  fix k
  show "int_tbl k = full_table k"
  proof (cases k)
    case (StrKey s)
    then show ?thesis by (simp add: full_table_def tbl_miss)
  next
    case (IntKey x)
    show ?thesis
    proof (cases "0 < x \<and> x \<le> 7162 \<and> x mod 7 = 1")
      case True
      have "x = 7 * (x div 7) + 1" using True mult_div_mod_eq [of 7 x] by simp
      with True have "0 \<le> x div 7" "x div 7 < 1024" by linarith+
      then obtain i where "x div 7 = int i" "i < 1024" by (metis int_nat_eq nat_less_iff of_nat_numeral)
      with \<open>x = 7 * (x div 7) + 1\<close> have "x = map_int_key i" "i < 1024" by (simp_all add: map_int_key_def)
      then show ?thesis using True IntKey by (simp add: full_table_def)
    next
      case False
      have "map_int_key i \<noteq> x" if "i < MAP_N" for i
        using False that by (auto simp: map_int_key_def MAP_N_def)
      with False IntKey show ?thesis by (auto simp: full_table_def intro: tbl_miss)
    qed
  qed
qed

section \<open>Running the parts\<close>

text \<open>The keys are built, the map at \<open>m\<close> holds \<open>T\<close>, and \<open>xs\<close> are the calls so far.\<close>

definition at_call ::
  "(nat \<Rightarrow> 'm \<Rightarrow> map_key \<Rightarrow> int option) \<Rightarrow> nat \<Rightarrow> (map_key \<Rightarrow> int option) \<Rightarrow> map_call list
     \<Rightarrow> ('m \<times> map_call list) process world \<Rightarrow> bool" where
  "at_call view m T xs w \<longleftrightarrow> has_keys (rest w) \<and> view m (fst (machine (rest w))) = T \<and> snd (machine (rest w)) = xs"

lemma key_loop:
  fixes w :: "('m \<times> map_call list) process world"
  assumes "at_call view m (F 0) (xs @ G 0) w"
    and "\<And>j v. j < 1024 \<Longrightarrow> at_call view m (F j) (xs @ G j) v \<Longrightarrow>
      \<exists>v'. body (int j) v = Some v' \<and> at_call view m (F (Suc j)) (xs @ G (Suc j)) v' \<and> kept v' = kept v
        \<and> b_n (bch v') = b_n (bch v)"
  shows "\<exists>w'. repeat_for MAP_N body w = Some w' \<and> at_call view m (F 1024) (xs @ G 1024) w' \<and> kept w' = kept w
    \<and> b_n (bch w') = b_n (bch w)"
proof -
  have "\<exists>w'. for_loop 1024 0 body w = Some w' \<and> (at_call view m (F 1024) (xs @ G 1024) w' \<and> kept w' = kept w
    \<and> b_n (bch w') = b_n (bch w))"
  proof (rule for_loop_total)
    fix j and v :: "('m \<times> map_call list) process world"
    assume "j < 1024" "at_call view m (F j) (xs @ G j) v \<and> kept v = kept w \<and> b_n (bch v) = b_n (bch w)"
    with assms(2) [of j v]
    show "\<exists>v'. body (0 + int j) v = Some v' \<and> at_call view m (F (Suc j)) (xs @ G (Suc j)) v' \<and> kept v' = kept w
      \<and> b_n (bch v') = b_n (bch w)" by auto
  qed (simp add: assms(1))
  then show ?thesis by (simp add: repeat_for_def MAP_N_def)
qed

lemma stores_run:
  assumes law: "map_law L view todo" and "at_call view m Map.empty xs w"
  shows "\<exists>w'. set_int_keys (recorded L view) m w = Some w' \<and> at_call view m full_table (xs @ stores m 1024) w'
    \<and> kept w' = kept w \<and> b_n (bch w') = b_n (bch w)"
proof -
  have "\<exists>w'. set_int_keys (recorded L view) m w = Some w'
    \<and> at_call view m (tbl (\<lambda>i. IntKey (map_int_key i)) map_int_key 1024) (xs @ stores m 1024) w'
    \<and> kept w' = kept w \<and> b_n (bch w') = b_n (bch w)"
    unfolding set_int_keys_def
    by (rule key_loop [where F = "tbl (\<lambda>i. IntKey (map_int_key i)) map_int_key"])
      (use assms(2) in \<open>simp_all add: at_call_def stores_def key_at calling_def split_beta map_lawD [OF law] tbl_Suc
        map_int_key_def mult.commute\<close>)
  then show ?thesis using int_tbl_full by (simp add: MAP_N_def)
qed

lemma deletes_run:
  assumes law: "map_law L view todo" and "at_call view m full_table xs w"
  shows "\<exists>w'. del_int_keys (recorded L view) m w = Some w' \<and> at_call view m Map.empty (xs @ deletes m 1024) w'
    \<and> kept w' = kept w \<and> b_n (bch w') = b_n (bch w)"
proof -
  let ?F = "\<lambda>j. int_tbl |` (- (\<lambda>i. IntKey (map_int_key i)) ` {..<j})"
  have empty: "?F 1024 = Map.empty"
    by (rule ext) (auto simp: restrict_map_def MAP_N_def intro: tbl_miss)
  have "\<exists>w'. del_int_keys (recorded L view) m w = Some w' \<and> at_call view m (?F 1024) (xs @ deletes m 1024) w'
    \<and> kept w' = kept w \<and> b_n (bch w') = b_n (bch w)"
    unfolding del_int_keys_def
  proof (rule key_loop [where F = ?F])
    fix j and v :: "('a \<times> map_call list) process world"
    assume "j < 1024" "at_call view m (?F j) (xs @ deletes m j) v"
    moreover have "(?F j)(IntKey (map_int_key j) := None) = ?F (Suc j)"
      by (rule ext) (auto simp: restrict_map_def less_Suc_eq)
    ultimately show "\<exists>v'. with_int_key (int j) (\<lambda>k. calling (map_del (recorded L view) m (IntKey k)) (\<lambda>_. Some)) v = Some v'
      \<and> at_call view m (?F (Suc j)) (xs @ deletes m (Suc j)) v' \<and> kept v' = kept v \<and> b_n (bch v') = b_n (bch v)"
      by (simp add: at_call_def deletes_def key_at calling_def split_beta map_lawD [OF law]) (simp add: map_int_key_def)
  qed (use assms(2) int_tbl_full in \<open>simp add: restrict_map_def deletes_def\<close>)
  then show ?thesis by (simp only: empty)
qed

lemma measure_run:
  assumes law: "map_law L view todo" and "at_call view m T xs w" and "finite (dom T)"
  shows "\<exists>w'. keep_len (recorded L view) m w = Some w' \<and> at_call view m T (xs @ [Measured m T]) w'
    \<and> kept w' = kept w @ [KeptU64 (of_nat (card (dom T)))] \<and> b_n (bch w') = b_n (bch w)"
  using assms(2,3) by (simp add: keep_len_def calling_def split_beta keep_u64_def at_call_def map_lawD [OF law])

lemma full_table_size: "finite (dom full_table)" "card (dom full_table) = 1024"
  using int_size unfolding int_tbl_full by simp_all

text \<open>A fill with the look at the size after it.\<close>

lemma fill_run:
  assumes law: "map_law L view todo" and "at_call view m Map.empty xs w"
  shows "\<exists>w'. block [set_int_keys (recorded L view) m, keep_len (recorded L view) m] w = Some w'
    \<and> at_call view m full_table (xs @ stores m 1024 @ [Measured m full_table]) w'
    \<and> kept w' = kept w @ [KeptU64 1024] \<and> b_n (bch w') = b_n (bch w)"
proof -
  obtain u where u: "set_int_keys (recorded L view) m w = Some u" "at_call view m full_table (xs @ stores m 1024) u"
    "kept u = kept w" "b_n (bch u) = b_n (bch w)" using stores_run [OF assms] by blast
  from measure_run [OF law u(2) full_table_size(1)] u show ?thesis by (auto simp: full_table_size(2))
qed

text \<open>The arena around the rows and the report write nothing down.\<close>

lemma arena_quiet:
  fixes w :: "('m \<times> map_call list) process world"
  assumes "\<And>a v. snd (machine (rest v)) = snd (machine (rest w)) \<Longrightarrow> kept v = kept w \<Longrightarrow>
      b_n (bch v) = b_n (bch w) \<Longrightarrow> \<exists>v'. body a v = Some v' \<and> P (kept v') (snd (machine (rest v')))"
  shows "\<exists>w'. in_arena h (recorded_arena A) body w = Some w' \<and> P (kept w') (snd (machine (rest w')))"
proof -
  let ?a = "addr h ''map.ar''"
  let ?v = "snd (call (lib (arena_init (recorded_arena A) ?a)) w)"
  have "snd (machine (rest ?v)) = snd (machine (rest w))" by simp
  from assms [OF this, of ?a] obtain v' where "body ?a ?v = Some v'" "P (kept v') (snd (machine (rest v')))" by auto
  then show ?thesis by (simp add: in_arena_def Let_def calling_def split_beta)
qed

lemma report_quiet:
  "\<exists>v'. report_arena (recorded_arena A) a v = Some v' \<and> kept v' = kept v \<and> machine (rest v') = (snd (snd (mem_stats A a (fst (machine (rest v))))), snd (machine (rest v)))"
  by (simp add: report_arena_def calling_def split_beta reporting_def bench_report_allocs_def prod_eq_iff)

lemma built_keys:
  fixes v :: "('m \<times> map_call list) process world"
  assumes law: "map_law L view todo"
  shows "\<exists>u. map_build_keys (snd (call (lib (map_make (recorded L view) a TypeInt k)) v)) = Some u
    \<and> at_call view (fst (map_make L a TypeInt k (fst (machine (rest v))))) Map.empty
        (snd (machine (rest v)) @ [Made (fst (map_make L a TypeInt k (fst (machine (rest v))))) k]) u
    \<and> kept u = kept v \<and> b_n (bch u) = b_n (bch v)"
proof -
  let ?c = "snd (call (lib (map_make (recorded L view) a TypeInt k)) v)"
  obtain u where "map_build_keys ?c = Some u" "has_keys (rest u)" "machine (rest u) = machine (rest ?c)"
    "kept u = kept ?c" "b_n (bch u) = b_n (bch ?c)" using map_build_keys_run [of ?c] by blast
  then show ?thesis by (simp add: at_call_def map_lawD [OF law])
qed

section \<open>The rows\<close>

definition churn_calls :: "nat \<Rightarrow> map_call list" where
  "churn_calls m = stores m 1024 @ deletes m 1024 @ [Measured m Map.empty]"

definition build_calls :: "nat \<Rightarrow> nat \<Rightarrow> map_call list" where
  "build_calls hint m = Made m hint # stores m 1024 @ [Measured m full_table]"

definition refill_calls :: "nat \<Rightarrow> map_call list" where
  "refill_calls m = Cleared m # stores m 1024 @ [Measured m full_table]"

lemma same_rounds:
  fixes w :: "('m \<times> map_call list) process world"
  assumes "at_call view m T xs w"
    and "\<And>ys v. at_call view m T ys v \<Longrightarrow> \<exists>v'. body v = Some v' \<and> at_call view m T (ys @ es) v' \<and> kept v' = kept v @ [x]"
  shows "\<exists>w'. bench_loop (\<lambda>i. body) w = Some w' \<and> at_call view m T (xs @ concat (replicate (nat (b_n (bch w))) es)) w'
    \<and> kept w' = kept w @ replicate (nat (b_n (bch w))) x"
proof -
  let ?I = "\<lambda>j. at_call view m T (xs @ concat (replicate j es))"
  have "\<exists>w'. bench_loop (\<lambda>i. body) w = Some w' \<and> ?I (nat (b_n (bch w))) w'
    \<and> kept w' = kept w @ concat (map (\<lambda>_. [x]) [0..<nat (b_n (bch w))])"
  proof (rule loop_kept [where I = ?I])
    fix j and v :: "('m \<times> map_call list) process world" assume "?I j v"
    moreover have more_es: "xs @ concat (replicate (Suc j) es) = (xs @ concat (replicate j es)) @ es"
      by (induction j) simp_all
    ultimately show "\<exists>v'. body v = Some v' \<and> kept v' = kept v @ [x] \<and> ?I (Suc j) v'"
      unfolding more_es using assms(2) by blast
  qed (use assms(1) in simp)
  then show ?thesis by (simp add: map_replicate_const concat_replicate_one)
qed

lemma churn_calls_run:
  fixes w :: "('m \<times> map_call list) process world"
  assumes law: "map_law L view todo"
  shows "\<exists>w' m. bench_map_churn h (recorded_arena A) (recorded L view) w = Some w'
    \<and> kept w' = kept w @ replicate (nat (b_n (bch w))) (KeptU64 0)
    \<and> snd (machine (rest w')) = snd (machine (rest w)) @ Made m 0 # concat (replicate (nat (b_n (bch w))) (churn_calls m))"
proof -
  let ?n = "nat (b_n (bch w))" and ?L = "recorded L view" and ?A = "recorded_arena A"
  let ?P = "\<lambda>k l. k = kept w @ replicate ?n (KeptU64 0)
    \<and> (\<exists>m. l = snd (machine (rest w)) @ Made m 0 # concat (replicate ?n (churn_calls m)))"
  have "\<exists>w'. bench_map_churn h ?A ?L w = Some w' \<and> ?P (kept w') (snd (machine (rest w')))"
    unfolding bench_map_churn_def
  proof (rule arena_quiet)
    fix a and v :: "('m \<times> map_call list) process world"
    assume v: "snd (machine (rest v)) = snd (machine (rest w))" "kept v = kept w" "b_n (bch v) = b_n (bch w)"
    let ?m = "fst (map_make L a TypeInt 0 (fst (machine (rest v))))"
    let ?body = "block [set_int_keys ?L ?m, del_int_keys ?L ?m, keep_len ?L ?m] :: ('m \<times> map_call list) cstmt"
    obtain u where u: "map_build_keys (snd (call (lib (map_make ?L a TypeInt 0)) v)) = Some u"
      "at_call view ?m Map.empty (snd (machine (rest w)) @ [Made ?m 0]) u" "kept u = kept w" "b_n (bch u) = b_n (bch w)"
      using built_keys [OF law, of a 0 v] unfolding v by blast
    have round: "\<exists>y. ?body x = Some y \<and> at_call view ?m Map.empty (ys @ churn_calls ?m) y \<and> kept y = kept x @ [KeptU64 0]"
      if x: "at_call view ?m Map.empty ys x" for ys x
    proof -
      obtain x1 where x1: "set_int_keys ?L ?m x = Some x1" "at_call view ?m full_table (ys @ stores ?m 1024) x1" "kept x1 = kept x"
        using stores_run [OF law x] by blast
      obtain x2 where x2: "del_int_keys ?L ?m x1 = Some x2"
        "at_call view ?m Map.empty ((ys @ stores ?m 1024) @ deletes ?m 1024) x2" "kept x2 = kept x1"
        using deletes_run [OF law x1(2)] by blast
      from measure_run [OF law x2(2)] x1 x2 show ?thesis by (auto simp: churn_calls_def)
    qed
    obtain z where z: "bench_loop (\<lambda>i. ?body) u = Some z"
      "at_call view ?m Map.empty ((snd (machine (rest w)) @ [Made ?m 0]) @ concat (replicate ?n (churn_calls ?m))) z"
      "kept z = kept w @ replicate ?n (KeptU64 0)" using same_rounds [OF u(2) round] unfolding u(3,4) by blast
    obtain y where "report_arena ?A a z = Some y" "kept y = kept z" "snd (machine (rest y)) = snd (machine (rest z))"
      using report_quiet [of A a z] by auto
    with u(1) z show "\<exists>v'. calling (map_make ?L a TypeInt 0) (\<lambda>m. block [map_build_keys,
        bench_loop (\<lambda>i. block [set_int_keys ?L m, del_int_keys ?L m, keep_len ?L m]), report_arena ?A a]) v = Some v'
      \<and> ?P (kept v') (snd (machine (rest v')))"
      by (auto simp: calling_def split_beta at_call_def)
  qed
  then show ?thesis by blast
qed

lemma refill_calls_run:
  fixes w :: "('m \<times> map_call list) process world"
  assumes law: "map_law L view todo"
  shows "\<exists>w' m. bench_map_clear_refill h (recorded_arena A) (recorded L view) w = Some w'
    \<and> kept w' = kept w @ replicate (nat (b_n (bch w))) (KeptU64 1024)
    \<and> snd (machine (rest w')) = snd (machine (rest w)) @ Made m 1024 # stores m 1024
        @ concat (replicate (nat (b_n (bch w))) (refill_calls m))"
proof -
  let ?n = "nat (b_n (bch w))" and ?L = "recorded L view" and ?A = "recorded_arena A"
  let ?P = "\<lambda>k l. k = kept w @ replicate ?n (KeptU64 1024)
    \<and> (\<exists>m. l = snd (machine (rest w)) @ Made m 1024 # stores m 1024 @ concat (replicate ?n (refill_calls m)))"
  have "\<exists>w'. bench_map_clear_refill h ?A ?L w = Some w' \<and> ?P (kept w') (snd (machine (rest w')))"
    unfolding bench_map_clear_refill_def
  proof (rule arena_quiet)
    fix a and v :: "('m \<times> map_call list) process world"
    assume v: "snd (machine (rest v)) = snd (machine (rest w))" "kept v = kept w" "b_n (bch v) = b_n (bch w)"
    let ?m = "fst (map_make L a TypeInt MAP_N (fst (machine (rest v))))"
    let ?body = "block [calling (map_clear ?L ?m) (\<lambda>_. Some), set_int_keys ?L ?m, keep_len ?L ?m] :: ('m \<times> map_call list) cstmt"
    obtain u where u: "map_build_keys (snd (call (lib (map_make ?L a TypeInt MAP_N)) v)) = Some u"
      "at_call view ?m Map.empty (snd (machine (rest w)) @ [Made ?m MAP_N]) u" "kept u = kept w" "b_n (bch u) = b_n (bch w)"
      using built_keys [OF law, of a MAP_N v] unfolding v by blast
    obtain u1 where u1: "set_int_keys ?L ?m u = Some u1"
      "at_call view ?m full_table ((snd (machine (rest w)) @ [Made ?m MAP_N]) @ stores ?m 1024) u1"
      "kept u1 = kept w" "b_n (bch u1) = b_n (bch w)" using stores_run [OF law u(2)] u(3,4) by auto
    have round: "\<exists>y. ?body x = Some y \<and> at_call view ?m full_table (ys @ refill_calls ?m) y \<and> kept y = kept x @ [KeptU64 1024]"
      if x: "at_call view ?m full_table ys x" for ys x
    proof -
      have "at_call view ?m Map.empty (ys @ [Cleared ?m]) (snd (call (lib (map_clear ?L ?m)) x))"
        using x by (simp add: at_call_def map_lawD [OF law])
      from fill_run [OF law this] show ?thesis by (auto simp: calling_def split_beta refill_calls_def)
    qed
    obtain z where z: "bench_loop (\<lambda>i. ?body) u1 = Some z"
      "at_call view ?m full_table (((snd (machine (rest w)) @ [Made ?m MAP_N]) @ stores ?m 1024)
         @ concat (replicate ?n (refill_calls ?m))) z"
      "kept z = kept w @ replicate ?n (KeptU64 1024)" using same_rounds [OF u1(2) round] unfolding u1(3,4) by blast
    obtain y where y: "report_arena ?A a z = Some y" "kept y = kept z" "snd (machine (rest y)) = snd (machine (rest z))"
      using report_quiet [of A a z] by auto
    have made: "filled_int_map ?L a k v = block [map_build_keys, set_int_keys ?L ?m, k ?m]
        (snd (call (lib (map_make ?L a TypeInt MAP_N)) v))" for k
      by (simp add: filled_int_map_def calling_def split_beta del: block.simps)
    from u(1) u1(1) z y show "\<exists>v'. filled_int_map ?L a (\<lambda>m. block [
        bench_loop (\<lambda>i. block [calling (map_clear ?L m) (\<lambda>_. Some), set_int_keys ?L m, keep_len ?L m]), report_arena ?A a]) v = Some v'
      \<and> ?P (kept v') (snd (machine (rest v')))"
      unfolding made by (simp add: at_call_def) (simp add: MAP_N_def)
  qed
  then show ?thesis by blast
qed

lemma build_calls_run:
  fixes w :: "('m \<times> map_call list) process world"
  assumes law: "map_law L view todo"
  shows "\<exists>w' ms. map_set_rows hint h (recorded_arena A) (recorded L view) w = Some w'
    \<and> kept w' = kept w @ replicate (nat (b_n (bch w))) (KeptU64 1024) \<and> length ms = nat (b_n (bch w))
    \<and> snd (machine (rest w')) = snd (machine (rest w)) @ concat (map (build_calls hint) ms)"
proof -
  let ?n = "nat (b_n (bch w))" and ?L = "recorded L view" and ?A = "recorded_arena A"
  let ?C = "\<lambda>j l. \<exists>ms. length ms = j \<and> l = snd (machine (rest w)) @ concat (map (build_calls hint) ms)"
  let ?P = "\<lambda>k l. k = kept w @ replicate ?n (KeptU64 1024) \<and> ?C ?n l"
  have "\<exists>w'. map_set_rows hint h ?A ?L w = Some w' \<and> ?P (kept w') (snd (machine (rest w')))"
    unfolding map_set_rows_def
  proof (rule arena_quiet)
    fix a and v :: "('m \<times> map_call list) process world"
    assume v: "snd (machine (rest v)) = snd (machine (rest w))" "kept v = kept w" "b_n (bch v) = b_n (bch w)"
    let ?round = "\<lambda>i :: int. calling (map_make ?L a TypeInt hint) (\<lambda>m. block [
       set_int_keys ?L m, keep_len ?L m, calling (arena_reset ?A a) (\<lambda>_. Some)])"
    obtain v1 where v1: "map_build_keys v = Some v1" "has_keys (rest v1)" "kept v1 = kept w"
      "b_n (bch v1) = b_n (bch w)" "machine (rest v1) = machine (rest v)"
      using map_build_keys_run [of v] v by auto
    have "\<exists>v2. bench_loop ?round v1 = Some v2 \<and> (has_keys (rest v2) \<and> ?C (nat (b_n (bch v1))) (snd (machine (rest v2))))
      \<and> kept v2 = kept v1 @ concat (map (\<lambda>_. [KeptU64 1024]) [0..<nat (b_n (bch v1))])"
    proof (rule loop_kept [where I = "\<lambda>j u. has_keys (rest u) \<and> ?C j (snd (machine (rest u)))"])
      show "has_keys (rest v1) \<and> ?C 0 (snd (machine (rest v1)))" using v1 v(1) by simp
      fix j and u :: "('m \<times> map_call list) process world"
      assume "has_keys (rest u) \<and> ?C j (snd (machine (rest u)))"
      then obtain ms where u: "has_keys (rest u)" "length ms = j"
        "snd (machine (rest u)) = snd (machine (rest w)) @ concat (map (build_calls hint) ms)" by blast
      let ?m = "fst (map_make L a TypeInt hint (fst (machine (rest u))))"
      let ?x = "snd (call (lib (map_make ?L a TypeInt hint)) u)"
      have "at_call view ?m Map.empty (snd (machine (rest u)) @ [Made ?m hint]) ?x"
        using u(1) by (simp add: at_call_def map_lawD [OF law])
      from fill_run [OF law this] obtain y where y:
        "block [set_int_keys ?L ?m, keep_len ?L ?m] ?x = Some y"
        "at_call view ?m full_table ((snd (machine (rest u)) @ [Made ?m hint]) @ stores ?m 1024 @ [Measured ?m full_table]) y"
        "kept y = kept u @ [KeptU64 1024]" by auto
      let ?z = "snd (call (lib (arena_reset ?A a)) y)"
      have "?round (int j) u = Some ?z" using y(1)
        by (auto simp: calling_def split_beta bind_eq_Some_conv)
      moreover have "snd (machine (rest ?z)) = snd (machine (rest w)) @ concat (map (build_calls hint) (ms @ [?m]))"
        using y(2) u(3) by (simp add: at_call_def build_calls_def)
      moreover have "has_keys (rest ?z)" using y(2) by (simp add: at_call_def)
      ultimately show "\<exists>u'. ?round (int j) u = Some u' \<and> kept u' = kept u @ [KeptU64 1024]
          \<and> has_keys (rest u') \<and> ?C (Suc j) (snd (machine (rest u')))"
        using y(3) u(2) by (intro exI [of _ ?z] conjI exI [of _ "ms @ [?m]"]) simp_all
    qed
    then obtain v2 where v2: "bench_loop ?round v1 = Some v2" "?C ?n (snd (machine (rest v2)))"
      "kept v2 = kept w @ replicate ?n (KeptU64 1024)"
      using v1 by (auto simp: map_replicate_const concat_replicate_one)
    obtain y where y: "report_arena ?A a v2 = Some y" "kept y = kept v2" "snd (machine (rest y)) = snd (machine (rest v2))"
      using report_quiet [of A a v2] by auto
    have "block [map_build_keys, bench_loop ?round, report_arena ?A a] v = Some y" using v1(1) v2(1) y(1) by simp
    with v2 y show "\<exists>v'. block [map_build_keys, bench_loop ?round, report_arena ?A a] v = Some v'
      \<and> ?P (kept v') (snd (machine (rest v')))" by auto
  qed
  then show ?thesis by blast
qed

text \<open>
  C16. Invariant: the rows that fill and empty a map in every round start each round where the last one
  started, whatever the map is, as long as it keeps the contract of a map. What they ask of it is fixed call by
  call. The churn row stores the 1024 keys \<open>7 i + 1\<close> under themselves and deletes each of them in every round,
  and its map is empty whenever it looks at the size, so a table that keeps growing in it holds only tombstones.
  The growing row makes a map from no hint in every round, and the refilling row clears its one map, before they
  store the same keys; whenever they look, the map holds those 1024 keys with their values and nothing else.
\<close>
theorem map_rounds_repeat:
  fixes w :: "('m \<times> map_call list) process world"
  assumes "map_law L view todo"
  shows "(\<exists>w' m. bench_map_churn h (recorded_arena A) (recorded L view) w = Some w'
       \<and> kept w' = kept w @ replicate (nat (b_n (bch w))) (KeptU64 0)
       \<and> snd (machine (rest w')) = snd (machine (rest w)) @ Made m 0
           # concat (replicate (nat (b_n (bch w))) (stores m 1024 @ deletes m 1024 @ [Measured m Map.empty])))
    \<and> (\<exists>w' ms. bench_map_set_grow h (recorded_arena A) (recorded L view) w = Some w'
       \<and> kept w' = kept w @ replicate (nat (b_n (bch w))) (KeptU64 1024) \<and> length ms = nat (b_n (bch w))
       \<and> snd (machine (rest w')) = snd (machine (rest w))
           @ concat (map (\<lambda>m. Made m 0 # stores m 1024 @ [Measured m full_table]) ms))
    \<and> (\<exists>w' m. bench_map_clear_refill h (recorded_arena A) (recorded L view) w = Some w'
       \<and> kept w' = kept w @ replicate (nat (b_n (bch w))) (KeptU64 1024)
       \<and> snd (machine (rest w')) = snd (machine (rest w)) @ Made m 1024 # stores m 1024
           @ concat (replicate (nat (b_n (bch w))) (Cleared m # stores m 1024 @ [Measured m full_table])))"
  using churn_calls_run [OF assms, of h A w] build_calls_run [OF assms, of 0 h A w] refill_calls_run [OF assms, of h A w]
  unfolding churn_calls_def build_calls_def refill_calls_def bench_map_set_grow_def by blast

theorem map_rounds_repeat_witness:
  "\<exists>w' m. bench_map_churn (exact_host (\<lambda>x. 64) (\<lambda>x. 0)) (recorded_arena map_arena) (recorded alist_map (\<lambda>m (al, it). map_of al))
      \<lparr>bch = zero_bench\<lparr>b_n := 1\<rparr>, kept = [], rest = \<lparr>clock = 0, int_var = (\<lambda>x. 0), u64_var = (\<lambda>x. 0),
         dbl_var = (\<lambda>x. 0), int_array = (\<lambda>x. []), str_array = (\<lambda>x. []), machine = (([], []), [])\<rparr>\<rparr> = Some w'
     \<and> kept w' = [KeptU64 0] \<and> snd (machine (rest w')) = Made m 0 # stores m 1024 @ deletes m 1024 @ [Measured m Map.empty]"
  using map_rounds_repeat [OF alist_map_law, of "exact_host (\<lambda>x. 64) (\<lambda>x. 0)" map_arena
      "\<lparr>bch = zero_bench\<lparr>b_n := 1\<rparr>, kept = [], rest = \<lparr>clock = 0, int_var = (\<lambda>x. 0), u64_var = (\<lambda>x. 0),
         dbl_var = (\<lambda>x. 0), int_array = (\<lambda>x. []), str_array = (\<lambda>x. []), machine = (([], []), [])\<rparr>\<rparr>"]
  by simp

end
