(* ===== verification/Sync_Map_Bench.thy ===== *)
theory Sync_Map_Bench
  imports Map_Bench Runtime_Lib
begin

text \<open>
  \<open>bench/sync_map_bench.c\<close>: loads, stores and the walk of burrow's concurrent map, on one
  goroutine, over 1024 keys that are there and 1024 that are not.
\<close>

section \<open>What the file takes from burrow\<close>

text \<open>
  The map is named by its address. \<open>sync_load\<close> returns the value of a key that is there,
  \<open>sync_load_or_store\<close> the value and whether it was there, and \<open>sync_range\<close> the addresses
  of the keys and values for which the callback is called, which always asks to go on.
\<close>

record 'm sync_map_lib =
  sync_map_init :: "nat \<Rightarrow> (unit, 'm) op"
  sync_store :: "nat \<Rightarrow> int \<Rightarrow> int \<Rightarrow> (unit, 'm) op"
  sync_load :: "nat \<Rightarrow> int \<Rightarrow> (int option, 'm) op"
  sync_load_or_store :: "nat \<Rightarrow> int \<Rightarrow> int \<Rightarrow> (int \<times> bool, 'm) op"
  sync_delete :: "nat \<Rightarrow> int \<Rightarrow> (unit, 'm) op"
  sync_range :: "nat \<Rightarrow> ((nat \<times> nat) list, 'm) op"
  sync_map_free :: "nat \<Rightarrow> (unit, 'm) op"

section \<open>The keys\<close>

definition SYNC_N :: nat where "SYNC_N = 1024"

definition sync_key :: "nat \<Rightarrow> int" where
  "sync_key i = int i * 7 + 1"

definition sync_build_keys :: "'m cstmt" where
  "sync_build_keys = block [
     set_ints ''sync.keys'' (map sync_key [0..<SYNC_N]),
     set_ints ''sync.misses'' (map (\<lambda>i. - sync_key i) [0..<SYNC_N])]"

definition at_key :: "int \<Rightarrow> (int \<Rightarrow> 'm cstmt) \<Rightarrow> 'm cstmt" where
  "at_key i k = reading (\<lambda>p. int_array p ''sync.keys'') (\<lambda>xs. k (xs ! nat i))"

definition at_miss :: "int \<Rightarrow> (int \<Rightarrow> 'm cstmt) \<Rightarrow> 'm cstmt" where
  "at_miss i k = reading (\<lambda>p. int_array p ''sync.misses'') (\<lambda>xs. k (xs ! nat i))"

text \<open>\<open>keys[i & (N - 1)]\<close> and \<open>i++\<close>, with the local counter \<open>i\<close>.\<close>

definition next_key :: "(int \<Rightarrow> 'm cstmt) \<Rightarrow> 'm cstmt" where
  "next_key k = reading (\<lambda>p. int_var p ''sync.i'') (\<lambda>i. block [
     at_key (i AND (int SYNC_N - 1)) k, checked (add64 i 1) (set_int ''sync.i'')])"

definition next_miss :: "(int \<Rightarrow> 'm cstmt) \<Rightarrow> 'm cstmt" where
  "next_miss k = reading (\<lambda>p. int_var p ''sync.i'') (\<lambda>i. block [
     at_miss (i AND (int SYNC_N - 1)) k, checked (add64 i 1) (set_int ''sync.i'')])"

section \<open>The bodies\<close>

definition sync_fill :: "'m sync_map_lib \<Rightarrow> nat \<Rightarrow> 'm cstmt" where
  "sync_fill L m = repeat_for SYNC_N (\<lambda>i. at_key i (\<lambda>k. call_op (sync_store L m k k)))"

definition run_filled :: "'m host \<Rightarrow> 'm runtime_lib \<Rightarrow> 'm sync_map_lib \<Rightarrow> (nat \<Rightarrow> 'm cstmt) \<Rightarrow> 'm cstmt" where
  "run_filled h R L body = (let m = addr h ''c.m'' in block [
     sync_build_keys, call_op (sync_map_init L m), pausing h, runtime_main R (body m)])"

text \<open>What the bodies share: the counter, the filling, the timed loop, and freeing the map.\<close>

definition sync_loop :: "'m host \<Rightarrow> 'm sync_map_lib \<Rightarrow> (nat \<Rightarrow> 'm cstmt) \<Rightarrow> nat \<Rightarrow> 'm cstmt" where
  "sync_loop h L iter m = block [
     set_int ''sync.i'' 0,
     sync_fill L m,
     timed_section h (bench_loop (\<lambda>_. iter m)),
     call_op (sync_map_free L m)]"

definition load_hit_body :: "'m host \<Rightarrow> 'm sync_map_lib \<Rightarrow> nat \<Rightarrow> 'm cstmt" where
  "load_hit_body h L = sync_loop h L (\<lambda>m. next_key (\<lambda>k.
     calling (sync_load L m k) (\<lambda>r. keep_u64 (case r of Some got \<Rightarrow> of_int got | None \<Rightarrow> 0))))"

definition load_miss_body :: "'m host \<Rightarrow> 'm sync_map_lib \<Rightarrow> nat \<Rightarrow> 'm cstmt" where
  "load_miss_body h L = sync_loop h L (\<lambda>m. next_miss (\<lambda>k.
     calling (sync_load L m k) (\<lambda>r. keep_u64 (if r \<noteq> None then 1 else 0))))"

definition has_hit_body :: "'m host \<Rightarrow> 'm sync_map_lib \<Rightarrow> nat \<Rightarrow> 'm cstmt" where
  "has_hit_body h L = sync_loop h L (\<lambda>m. next_key (\<lambda>k.
     calling (sync_load L m k) (\<lambda>r. keep_u64 (if r \<noteq> None then 1 else 0))))"

definition load_or_store_hit_body :: "'m host \<Rightarrow> 'm sync_map_lib \<Rightarrow> nat \<Rightarrow> 'm cstmt" where
  "load_or_store_hit_body h L = sync_loop h L (\<lambda>m. next_key (\<lambda>k.
     calling (sync_load_or_store L m k k) (\<lambda>r. keep_u64 (of_int (fst r)))))"

definition store_update_body :: "'m host \<Rightarrow> 'm sync_map_lib \<Rightarrow> nat \<Rightarrow> 'm cstmt" where
  "store_update_body h L = sync_loop h L (\<lambda>m. next_key (\<lambda>k. call_op (sync_store L m k k)))"

definition store_delete_pair_body :: "'m host \<Rightarrow> 'm sync_map_lib \<Rightarrow> nat \<Rightarrow> 'm cstmt" where
  "store_delete_pair_body h L = sync_loop h L (\<lambda>m. next_miss (\<lambda>k. block [
     call_op (sync_store L m k k), call_op (sync_delete L m k)]))"

text \<open>\<open>count_one\<close>, called for each entry with the counter of the round.\<close>

fun count_one :: "(nat \<times> nat) list \<Rightarrow> int \<Rightarrow> (int \<Rightarrow> 'm cstmt) \<Rightarrow> 'm cstmt" where
  "count_one [] n k = k n"
| "count_one ((key, val) # xs) n k = block [keep key, keep val,
     checked (add64 n 1) (\<lambda>n. count_one xs n k)]"

definition range_body :: "'m host \<Rightarrow> 'm sync_map_lib \<Rightarrow> nat \<Rightarrow> 'm cstmt" where
  "range_body h L m = block [
     sync_fill L m,
     timed_section h (bench_loop (\<lambda>_. calling (sync_range L m) (\<lambda>xs.
       count_one xs 0 (\<lambda>n. keep_u64 (of_int n))))),
     call_op (sync_map_free L m)]"

definition bench_sync_map_load_hit :: "'m host \<Rightarrow> 'm runtime_lib \<Rightarrow> 'm sync_map_lib \<Rightarrow> 'm cstmt" where
  "bench_sync_map_load_hit h R L = run_filled h R L (load_hit_body h L)"

definition bench_sync_map_load_miss :: "'m host \<Rightarrow> 'm runtime_lib \<Rightarrow> 'm sync_map_lib \<Rightarrow> 'm cstmt" where
  "bench_sync_map_load_miss h R L = run_filled h R L (load_miss_body h L)"

definition bench_sync_map_has_hit :: "'m host \<Rightarrow> 'm runtime_lib \<Rightarrow> 'm sync_map_lib \<Rightarrow> 'm cstmt" where
  "bench_sync_map_has_hit h R L = run_filled h R L (has_hit_body h L)"

definition bench_sync_map_load_or_store_hit :: "'m host \<Rightarrow> 'm runtime_lib \<Rightarrow> 'm sync_map_lib \<Rightarrow> 'm cstmt" where
  "bench_sync_map_load_or_store_hit h R L = run_filled h R L (load_or_store_hit_body h L)"

definition bench_sync_map_store_update :: "'m host \<Rightarrow> 'm runtime_lib \<Rightarrow> 'm sync_map_lib \<Rightarrow> 'm cstmt" where
  "bench_sync_map_store_update h R L = run_filled h R L (store_update_body h L)"

definition bench_sync_map_store_delete_pair :: "'m host \<Rightarrow> 'm runtime_lib \<Rightarrow> 'm sync_map_lib \<Rightarrow> 'm cstmt" where
  "bench_sync_map_store_delete_pair h R L = run_filled h R L (store_delete_pair_body h L)"

definition bench_sync_map_range :: "'m host \<Rightarrow> 'm runtime_lib \<Rightarrow> 'm sync_map_lib \<Rightarrow> 'm cstmt" where
  "bench_sync_map_range h R L = run_filled h R L (range_body h L)"

definition sync_map_table :: "'m host \<Rightarrow> 'm runtime_lib \<Rightarrow> 'm sync_map_lib \<Rightarrow> (string \<times> 'm cstmt) list" where
  "sync_map_table h R L = [
     (''sync_map_load_hit'', bench_sync_map_load_hit h R L),
     (''sync_map_load_miss'', bench_sync_map_load_miss h R L),
     (''sync_map_has_hit'', bench_sync_map_has_hit h R L),
     (''sync_map_load_or_store_hit'', bench_sync_map_load_or_store_hit h R L),
     (''sync_map_store_update'', bench_sync_map_store_update h R L),
     (''sync_map_store_delete_pair'', bench_sync_map_store_delete_pair h R L),
     (''sync_map_range'', bench_sync_map_range h R L)]"

section \<open>The contract\<close>

lemma sync_parts_move [contract_rules]:
  "does (advances clock) sync_build_keys" "does (advances clock) (sync_fill L m)"
  "(\<And>k. does (advances clock) (f k)) \<Longrightarrow> does (advances clock) (next_key f)"
  "(\<And>k. does (advances clock) (f k)) \<Longrightarrow> does (advances clock) (next_miss f)"
  unfolding sync_build_keys_def sync_fill_def next_key_def next_miss_def at_key_def at_miss_def
  by (intro contract_rules; assumption?)+

lemma count_one_moves [contract_rules]:
  "(\<And>n. does (advances clock) (k n)) \<Longrightarrow> does (advances clock) (count_one xs n k)"
  by (induction xs n k rule: count_one.induct) (auto intro!: contract_rules simp del: block.simps)

lemmas sync_bodies = load_hit_body_def load_miss_body_def has_hit_body_def
  load_or_store_hit_body_def store_update_body_def store_delete_pair_body_def range_body_def
  bench_sync_map_load_hit_def bench_sync_map_load_miss_def bench_sync_map_has_hit_def
  bench_sync_map_load_or_store_hit_def bench_sync_map_store_update_def
  bench_sync_map_store_delete_pair_def bench_sync_map_range_def

lemma sync_map_table_moves:
  assumes "host_ok h" and "(nm, f) \<in> set (sync_map_table h R L)"
  shows "does (advances clock) f"
  using assms
  by (auto simp: sync_map_table_def sync_bodies run_filled_def sync_loop_def Let_def
      intro!: contract_rules simp del: block.simps)

section \<open>What a concurrent map promises\<close>

text \<open>
  The contract of the map used from one goroutine: \<open>view m\<close> is the finite map at \<open>m\<close>, and
  starting the scheduler leaves it alone.
\<close>

definition sync_law ::
  "'m runtime_lib \<Rightarrow> 'm sync_map_lib \<Rightarrow> (nat \<Rightarrow> 'm \<Rightarrow> int \<Rightarrow> int option) \<Rightarrow> bool" where
  "sync_law R L view \<longleftrightarrow>
     (\<forall>m s. view m (snd (snd (runtime_start R s))) = view m s)
   \<and> (\<forall>m s. view m (snd (snd (sync_map_init L m s))) = Map.empty)
   \<and> (\<forall>m k v s. view m (snd (snd (sync_store L m k v s))) = (view m s)(k \<mapsto> v))
   \<and> (\<forall>m k s. view m (snd (snd (sync_load L m k s))) = view m s \<and> fst (sync_load L m k s) = view m s k)
   \<and> (\<forall>m k v s. (case view m s k of
         Some x \<Rightarrow> view m (snd (snd (sync_load_or_store L m k v s))) = view m s
           \<and> fst (sync_load_or_store L m k v s) = (x, True)
       | None \<Rightarrow> view m (snd (snd (sync_load_or_store L m k v s))) = (view m s)(k \<mapsto> v)
           \<and> fst (sync_load_or_store L m k v s) = (v, False)))
   \<and> (\<forall>m k s. view m (snd (snd (sync_delete L m k s))) = (view m s)(k := None))
   \<and> (\<forall>m s. view m (snd (snd (sync_range L m s))) = view m s
        \<and> (finite (dom (view m s)) \<longrightarrow> length (fst (sync_range L m s)) = card (dom (view m s))))"

lemma sync_lawD:
  assumes "sync_law R L view"
  shows "view m (snd (snd (runtime_start R s))) = view m s"
    and "view m (snd (snd (sync_map_init L m s))) = Map.empty"
    and "view m (snd (snd (sync_store L m k v s))) = (view m s)(k \<mapsto> v)"
    and "view m (snd (snd (sync_load L m k s))) = view m s"
    and "fst (sync_load L m k s) = view m s k"
    and "view m (snd (snd (sync_delete L m k s))) = (view m s)(k := None)"
    and "view m (snd (snd (sync_range L m s))) = view m s"
    and "finite (dom (view m s)) \<Longrightarrow> length (fst (sync_range L m s)) = card (dom (view m s))"
  by (insert assms [unfolded sync_law_def], (elim conjE, (blast | metis))+)

lemma sync_law_hit:
  assumes "sync_law R L view" and "view m s k = Some x"
  shows "view m (snd (snd (sync_load_or_store L m k v s))) = view m s"
    and "fst (sync_load_or_store L m k v s) = (x, True)"
proof -
  have "case view m s k of
      Some x \<Rightarrow> view m (snd (snd (sync_load_or_store L m k v s))) = view m s
        \<and> fst (sync_load_or_store L m k v s) = (x, True)
    | None \<Rightarrow> view m (snd (snd (sync_load_or_store L m k v s))) = (view m s)(k \<mapsto> v)
        \<and> fst (sync_load_or_store L m k v s) = (v, False)"
    using assms(1) unfolding sync_law_def by blast
  with assms(2) show "view m (snd (snd (sync_load_or_store L m k v s))) = view m s"
    and "fst (sync_load_or_store L m k v s) = (x, True)" by simp_all
qed

abbreviation sync_tbl :: "int \<Rightarrow> int option" where
  "sync_tbl \<equiv> tbl sync_key sync_key SYNC_N"

lemma sync_key_inj [simp]: "inj sync_key"
  by (rule injI) (simp add: sync_key_def)

lemma sync_hit [simp]: "i < 1024 \<Longrightarrow> sync_tbl (sync_key i) = Some (sync_key i)"
  by (rule tbl_hit) (simp_all add: SYNC_N_def)

lemma sync_miss [simp]: "sync_tbl (- sync_key i) = None"
  by (rule tbl_miss) (simp add: sync_key_def)

lemma sync_size [simp]: "card (dom sync_tbl) = 1024" "finite (dom sync_tbl)"
  by (simp_all add: tbl_card) (simp_all add: SYNC_N_def tbl_dom)

lemma sync_same [simp]: "i < 1024 \<Longrightarrow> sync_tbl(sync_key i \<mapsto> sync_key i) = sync_tbl"
    "sync_tbl(- sync_key i := None) = sync_tbl"
  by (rule ext, simp)+

section \<open>Running the parts\<close>

definition sync_is ::
  "(nat \<Rightarrow> 'm \<Rightarrow> int \<Rightarrow> int option) \<Rightarrow> nat \<Rightarrow> (int \<Rightarrow> int option) \<Rightarrow> 'm process world \<Rightarrow> bool" where
  "sync_is view m T w \<longleftrightarrow> view m (machine (rest w)) = T
     \<and> int_array (rest w) ''sync.keys'' = map sync_key [0..<SYNC_N]
     \<and> int_array (rest w) ''sync.misses'' = map (\<lambda>i. - sync_key i) [0..<SYNC_N]"

lemma at_key_eq:
  assumes "sync_is view m T w" and "0 \<le> i" and "i < 1024"
  shows "at_key i f w = f (sync_key (nat i)) w" and "at_miss i f w = f (- sync_key (nat i)) w"
  using assms by (simp_all add: at_key_def at_miss_def reading_def sync_is_def SYNC_N_def nat_less_iff)

lemma sync_fill_run:
  fixes w :: "'m process world"
  assumes law: "sync_law R L view" and "sync_is view m Map.empty w"
  shows "\<exists>w'. sync_fill L m w = Some w' \<and> sync_is view m sync_tbl w' \<and> kept w' = kept w
    \<and> b_n (bch w') = b_n (bch w) \<and> int_var (rest w') = int_var (rest w)"
proof -
  let ?I = "\<lambda>j v. sync_is view m (tbl sync_key sync_key j) v \<and> kept v = kept w
    \<and> b_n (bch v) = b_n (bch w) \<and> int_var (rest v) = int_var (rest w)"
  have "\<exists>w'. for_loop SYNC_N 0 (\<lambda>i. at_key i (\<lambda>k. call_op (sync_store L m k k))) w = Some w' \<and> ?I SYNC_N w'"
  proof (rule for_loop_total [where I = ?I])
    fix j and v :: "'m process world" assume j: "j < SYNC_N" "?I j v"
    then have "at_key (0 + int j) f v = f (sync_key j) v" for f
      using at_key_eq(1) [of view m "tbl sync_key sync_key j" v "int j" f] by (simp add: SYNC_N_def)
    with j show "\<exists>v'. at_key (0 + int j) (\<lambda>k. call_op (sync_store L m k k)) v = Some v' \<and> ?I (Suc j) v'"
      by (simp add: calling_def split_beta sync_is_def sync_lawD [OF law] tbl_Suc)
  qed (use assms(2) in simp)
  then show ?thesis by (simp add: sync_fill_def repeat_for_def)
qed

lemma index_eq: "int j AND (int SYNC_N - 1) = int (j mod 1024)"
  using take_bit_eq_mask [of 10 "int j"] take_bit_eq_mod [of 10 "int j"]
  by (simp add: SYNC_N_def mask_eq_exp_minus_1 zmod_int)

text \<open>The set-up up to the timed section, and the rest after it.\<close>

lemma run_filled_run:
  fixes w :: "'m process world"
  assumes "host_ok h" and law: "sync_law R L view"
    and "\<And>m v. sync_is view m Map.empty v \<Longrightarrow> kept v = kept w \<Longrightarrow> b_n (bch v) = b_n (bch w) \<Longrightarrow>
      \<exists>v' out. body m v = Some v' \<and> kept v' = kept w @ out \<and> P out"
  shows "\<exists>w' out. run_filled h R L body w = Some w' \<and> kept w' = kept w @ out \<and> P out"
proof -
  let ?m = "addr h ''c.m''"
  let ?w1 = "perform (\<lambda>p. p\<lparr>int_array := (int_array p)(''sync.keys'' := map sync_key [0..<SYNC_N],
    ''sync.misses'' := map (\<lambda>i. - sync_key i) [0..<SYNC_N])\<rparr>) w"
  let ?w2 = "snd (call (lib (sync_map_init L ?m)) ?w1)"
  obtain w3 where w3: "pausing h ?w2 = Some w3" "kept w3 = kept w" "b_n (bch w3) = b_n (bch w)"
    "machine (rest w3) = machine (rest ?w2)" "int_array (rest w3) = int_array (rest ?w2)"
    using timer_stmt(1) [OF assms(1), of ?w2] by auto
  let ?w4 = "snd (call (lib (runtime_start R)) w3)"
  have "sync_is view ?m Map.empty ?w4"
    using w3 by (simp add: sync_is_def sync_lawD [OF law])
  from assms(3) [OF this] w3 obtain w5 out where w5: "body ?m ?w4 = Some w5" "kept w5 = kept w @ out" "P out"
    by auto
  have "sync_build_keys w = Some ?w1"
    by (simp add: sync_build_keys_def set_ints_def assign_def perform_def)
  with w3(1) w5 show ?thesis
    by (simp add: run_filled_def Let_def runtime_main_def calling_def split_beta)
qed

lemma sync_row:
  fixes w :: "'m process world" and iter :: "nat \<Rightarrow> 'm cstmt"
  assumes "host_ok h" and law: "sync_law R L view" and n: "b_n (bch w) \<le> int64_max"
    and iter: "\<And>m j u. sync_is view m sync_tbl u \<Longrightarrow> int_var (rest u) ''sync.i'' = int j \<Longrightarrow>
      in_int64 (int j + 1) \<Longrightarrow> \<exists>u'. iter m u = Some u' \<and> kept u' = kept u @ g j
        \<and> sync_is view m sync_tbl u' \<and> int_var (rest u') ''sync.i'' = int (Suc j)"
  shows "\<exists>w'. run_filled h R L (sync_loop h L iter) w = Some w'
    \<and> kept w' = kept w @ concat (map g [0..<nat (b_n (bch w))])"
proof -
  have "\<exists>w' out. run_filled h R L (sync_loop h L iter) w = Some w' \<and> kept w' = kept w @ out
    \<and> out = concat (map g [0..<nat (b_n (bch w))])"
  proof (rule run_filled_run [OF assms(1) law])
    fix m and v :: "'m process world"
    assume v: "sync_is view m Map.empty v" "kept v = kept w" "b_n (bch v) = b_n (bch w)"
    let ?v = "perform (\<lambda>p. p\<lparr>int_var := (int_var p)(''sync.i'' := 0)\<rparr>) v"
    let ?out = "concat (map g [0..<nat (b_n (bch w))])"
    have "sync_is view m Map.empty ?v" using v(1) by (simp add: sync_is_def perform_def)
    from sync_fill_run [OF law this] v obtain u where u: "sync_fill L m ?v = Some u"
      "sync_is view m sync_tbl u" "kept u = kept w" "b_n (bch u) = b_n (bch w)"
      "int_var (rest u) ''sync.i'' = 0" by (auto simp: perform_def)
    have "\<exists>u'. timed_section h (bench_loop (\<lambda>_. iter m)) u = Some u' \<and> kept u' = kept u @ ?out
      \<and> (\<lambda>_ _ _. True) (machine (rest u')) (int_var (rest u')) (u64_var (rest u'))"
    proof (rule timed_section_run [OF assms(1)])
      fix x :: "'m process world"
      assume x: "machine (rest x) = machine (rest u)" "int_var (rest x) = int_var (rest u)"
        "int_array (rest x) = int_array (rest u)" "kept x = kept u" "b_n (bch x) = b_n (bch u)"
      let ?I = "\<lambda>j z. sync_is view m sync_tbl z \<and> int_var (rest z) ''sync.i'' = int j"
      have "\<exists>x'. bench_loop (\<lambda>_. iter m) x = Some x' \<and> ?I (nat (b_n (bch x))) x'
        \<and> kept x' = kept x @ concat (map g [0..<nat (b_n (bch x))])"
      proof (rule loop_kept [where I = ?I])
        show "?I 0 x" using x u by (simp add: sync_is_def)
        fix j and z :: "'m process world" assume "j < nat (b_n (bch x))" "?I j z"
        moreover from this n x u have "in_int64 (int j + 1)" by (simp add: in_int64_nonneg)
        ultimately show "\<exists>z'. iter m z = Some z' \<and> kept z' = kept z @ g j \<and> ?I (Suc j) z'"
          using iter [of m z j] by blast
      qed
      then show "\<exists>x'. bench_loop (\<lambda>_. iter m) x = Some x' \<and> kept x' = kept u @ ?out \<and> True"
        using x u by auto
    qed
    then obtain u' where "timed_section h (bench_loop (\<lambda>_. iter m)) u = Some u'" "kept u' = kept u @ ?out"
      by blast
    with u show "\<exists>v' out. sync_loop h L iter m v = Some v' \<and> kept v' = kept w @ out \<and> out = ?out"
      by (simp add: sync_loop_def set_int_def assign_def calling_def split_beta)
  qed
  then show ?thesis by blast
qed

text \<open>One round: the key is the one of the counter, and the counter goes up.\<close>

lemma next_round:
  assumes "sync_is view m sync_tbl u" and "int_var (rest u) ''sync.i'' = int j" and "in_int64 (int j + 1)"
    and "\<exists>v. f (sync_key (j mod 1024)) u = Some v \<and> kept v = kept u @ out \<and> sync_is view m sync_tbl v
      \<and> int_var (rest v) = int_var (rest u)"
  shows "\<exists>u'. next_key f u = Some u' \<and> kept u' = kept u @ out
        \<and> sync_is view m sync_tbl u' \<and> int_var (rest u') ''sync.i'' = int (Suc j)"
proof -
  have "at_key (int j AND (int SYNC_N - 1)) f u = f (sync_key (j mod 1024)) u"
    unfolding index_eq using at_key_eq(1) [OF assms(1), of "int (j mod 1024)" f]
    by (metis mod_less_divisor nat_int of_nat_0_le_iff of_nat_less_iff of_nat_numeral zero_less_numeral)
  with assms show ?thesis
    by (auto simp: next_key_def reading_def checked_def add64_def check64_def set_int_def assign_def
        sync_is_def perform_def)
qed

lemma next_miss_round:
  assumes "sync_is view m sync_tbl u" and "int_var (rest u) ''sync.i'' = int j" and "in_int64 (int j + 1)"
    and "\<exists>v. f (- sync_key (j mod 1024)) u = Some v \<and> kept v = kept u @ out \<and> sync_is view m sync_tbl v
      \<and> int_var (rest v) = int_var (rest u)"
  shows "\<exists>u'. next_miss f u = Some u' \<and> kept u' = kept u @ out
        \<and> sync_is view m sync_tbl u' \<and> int_var (rest u') ''sync.i'' = int (Suc j)"
proof -
  have "at_miss (int j AND (int SYNC_N - 1)) f u = f (- sync_key (j mod 1024)) u"
    unfolding index_eq using at_key_eq(2) [OF assms(1), of "int (j mod 1024)" f]
    by (metis mod_less_divisor nat_int of_nat_0_le_iff of_nat_less_iff of_nat_numeral zero_less_numeral)
  with assms show ?thesis
    by (auto simp: next_miss_def reading_def checked_def add64_def check64_def set_int_def assign_def
        sync_is_def perform_def)
qed

text \<open>
  Functional: every load of a key that was stored returns the value stored under that key, and
  every load of a key that was not returns nothing. Round \<open>j\<close> of the hit row hands the key
  with index \<open>j mod 1024\<close> to the sink, the row that asks only for presence says yes in every
  round and the miss row says no in every round, for every run the 64-bit counter can count.
\<close>
theorem sync_loads_answer:
  assumes "host_ok h" and "sync_law R L view" and "b_n (bch w) \<le> int64_max"
  shows "(\<exists>w'. bench_sync_map_load_hit h R L w = Some w' \<and> kept w' = kept w
       @ map (\<lambda>j. KeptU64 (of_int (sync_key (j mod 1024)))) [0..<nat (b_n (bch w))])
    \<and> (\<exists>w'. bench_sync_map_has_hit h R L w = Some w'
       \<and> kept w' = kept w @ replicate (nat (b_n (bch w))) (KeptU64 1))
    \<and> (\<exists>w'. bench_sync_map_load_miss h R L w = Some w'
       \<and> kept w' = kept w @ replicate (nat (b_n (bch w))) (KeptU64 0))"
proof (intro conjI)
  note law = sync_lawD [OF assms(2)]
  have "\<exists>w'. bench_sync_map_load_hit h R L w = Some w' \<and> kept w' = kept w
    @ concat (map (\<lambda>j. [KeptU64 (of_int (sync_key (j mod 1024)))]) [0..<nat (b_n (bch w))])"
    unfolding bench_sync_map_load_hit_def load_hit_body_def
    by (rule sync_row [OF assms], rule next_round, assumption+)
      (simp add: calling_def split_beta keep_u64_def sync_is_def law)
  then show "\<exists>w'. bench_sync_map_load_hit h R L w = Some w' \<and> kept w' = kept w
    @ map (\<lambda>j. KeptU64 (of_int (sync_key (j mod 1024)))) [0..<nat (b_n (bch w))]" by simp
  have "\<exists>w'. bench_sync_map_has_hit h R L w = Some w' \<and> kept w' = kept w
    @ concat (map (\<lambda>j. [KeptU64 1]) [0..<nat (b_n (bch w))])"
    unfolding bench_sync_map_has_hit_def has_hit_body_def
    by (rule sync_row [OF assms], rule next_round, assumption+)
      (simp add: calling_def split_beta keep_u64_def sync_is_def law)
  then show "\<exists>w'. bench_sync_map_has_hit h R L w = Some w'
    \<and> kept w' = kept w @ replicate (nat (b_n (bch w))) (KeptU64 1)" by (simp add: map_replicate_const)
  have "\<exists>w'. bench_sync_map_load_miss h R L w = Some w' \<and> kept w' = kept w
    @ concat (map (\<lambda>j. [KeptU64 0]) [0..<nat (b_n (bch w))])"
    unfolding bench_sync_map_load_miss_def load_miss_body_def
    by (rule sync_row [OF assms], rule next_miss_round, assumption+)
      (simp add: calling_def split_beta keep_u64_def sync_is_def law)
  then show "\<exists>w'. bench_sync_map_load_miss h R L w = Some w'
    \<and> kept w' = kept w @ replicate (nat (b_n (bch w))) (KeptU64 0)" by (simp add: map_replicate_const)
qed

section \<open>The walk\<close>

lemma count_one_run:
  "0 \<le> n \<Longrightarrow> n + int (length xs) \<le> int64_max \<Longrightarrow> \<exists>v. count_one xs n k w = k (n + int (length xs)) v
     \<and> rest v = rest w \<and> bch v = bch w \<and> (\<exists>out. kept v = kept w @ out \<and> length out = 2 * length xs)"
proof (induction xs n k arbitrary: w rule: count_one.induct)
  case (1 n k)
  show ?case by (rule exI [of _ w]) simp
next
  case (2 key val xs n k)
  have fits: "in_int64 (n + 1)" using "2.prems" by (simp add: in_int64_nonneg)
  let ?w = "bench_keep val (bench_keep key w)"
  have "0 \<le> n + 1" "n + 1 + int (length xs) \<le> int64_max" using "2.prems" by simp_all
  from "2.IH" [OF this, of ?w] obtain v where
    "count_one xs (n + 1) k ?w = k (n + 1 + int (length xs)) v" "rest v = rest w" "bch v = bch w"
    "\<exists>out. kept v = kept w @ out \<and> length out = 2 * length ((key, val) # xs)" by auto
  with fits show ?case by (auto simp: keep_def checked_def add64_def check64_def algebra_simps)
qed

lemma range_loop:
  fixes x :: "'m process world"
  assumes law: "sync_law R L view" and "sync_is view m sync_tbl x"
  shows "\<exists>x' outs. bench_loop (\<lambda>_. calling (sync_range L m) (\<lambda>xs.
       count_one xs 0 (\<lambda>n. keep_u64 (of_int n)))) x = Some x' \<and> kept x' = kept x @ concat outs
     \<and> length outs = nat (b_n (bch x)) \<and> (\<forall>out \<in> set outs. length out = 2049 \<and> last out = KeptU64 1024)"
proof -
  let ?iter = "\<lambda>_ :: int. calling (sync_range L m) (\<lambda>xs. count_one xs 0 (\<lambda>n. keep_u64 (of_int n))) :: 'm cstmt"
  let ?I = "\<lambda>j z. sync_is view m sync_tbl z \<and> (\<exists>outs. kept z = kept x @ concat outs \<and> length outs = j
      \<and> (\<forall>out \<in> set outs. length out = 2049 \<and> last out = KeptU64 1024))"
  have "\<exists>x'. for_loop (nat (b_n (bch x))) 0 ?iter x = Some x' \<and> ?I (nat (b_n (bch x))) x'"
  proof (rule for_loop_total [where I = ?I])
    fix j and z :: "'m process world" assume z: "?I j z"
    then obtain outs where outs: "kept z = kept x @ concat outs" "length outs = j"
      "\<forall>out \<in> set outs. length out = 2049 \<and> last out = KeptU64 1024" by blast
    let ?c = "call (lib (sync_range L m)) z"
    have len: "length (fst ?c) = 1024" using z by (simp add: sync_is_def sync_lawD [OF law])
    obtain v out where v: "count_one (fst ?c) 0 (\<lambda>n. keep_u64 (of_int n)) (snd ?c)
        = keep_u64 (of_int (0 + int (length (fst ?c)))) v" "rest v = rest (snd ?c)"
      "kept v = kept z @ out" "length out = 2048"
      using count_one_run [of 0 "fst ?c" "\<lambda>n. keep_u64 (of_int n)" "snd ?c"] len
      by (auto simp: int64_max_def)
    let ?z = "bench_keep_u64 1024 v"
    have "?iter (0 + int j) z = Some ?z"
      using v(1) len by (simp add: calling_def split_beta keep_u64_def)
    moreover have "?I (Suc j) ?z"
      using z v outs
      by (auto simp: sync_is_def sync_lawD [OF law] intro!: exI [of _ "outs @ [out @ [KeptU64 1024]]"])
    ultimately show "\<exists>z'. ?iter (0 + int j) z = Some z' \<and> ?I (Suc j) z'" by blast
  qed (use assms(2) in \<open>auto intro: exI [of _ "[]"]\<close>)
  then show ?thesis by (auto simp: bench_loop_def)
qed

text \<open>
  Functional: the walk meets every entry once in every round. Each round calls the callback for
  exactly 1024 entries, which hands two addresses per entry to the sink, and then hands over the
  count 1024.
\<close>
theorem sync_range_meets_all:
  assumes "host_ok h" and "sync_law R L view"
  shows "\<exists>w' outs. bench_sync_map_range h R L w = Some w' \<and> kept w' = kept w @ concat outs
    \<and> length outs = nat (b_n (bch w)) \<and> (\<forall>out \<in> set outs. length out = 2049 \<and> last out = KeptU64 1024)"
proof -
  let ?P = "\<lambda>outs. length outs = nat (b_n (bch w)) \<and> (\<forall>out \<in> set outs. length out = 2049 \<and> last out = KeptU64 1024)"
  have body: "\<exists>v' outs. range_body h L m v = Some v' \<and> kept v' = kept w @ concat outs \<and> ?P outs"
    if v: "sync_is view m Map.empty v" "kept v = kept w" "b_n (bch v) = b_n (bch w)" for m v
  proof -
    obtain u where u: "sync_fill L m v = Some u" "sync_is view m sync_tbl u" "kept u = kept w"
      "b_n (bch u) = b_n (bch w)" using sync_fill_run [OF assms(2) v(1)] v by auto
    obtain x where x: "resuming h u = Some x" "kept x = kept w" "b_n (bch x) = b_n (bch w)"
      "machine (rest x) = machine (rest u)" "int_array (rest x) = int_array (rest u)"
      using timer_stmt(2) [OF assms(1), of u] u by auto
    then have "sync_is view m sync_tbl x" using u(2) by (simp add: sync_is_def)
    from range_loop [OF assms(2) this] obtain y outs where y: "bench_loop (\<lambda>_. calling (sync_range L m)
        (\<lambda>xs. count_one xs 0 (\<lambda>n. keep_u64 (of_int n)))) x = Some y"
      "kept y = kept w @ concat outs" "?P outs" using x by auto
    obtain z where "pausing h y = Some z" "kept z = kept y"
      using timer_stmt(1) [OF assms(1), of y] by blast
    with u(1) x(1) y show ?thesis
      by (auto simp: range_body_def timed_section_def calling_def split_beta)
  qed
  have "\<exists>w' out. run_filled h R L (range_body h L) w = Some w' \<and> kept w' = kept w @ out
    \<and> (\<exists>outs. out = concat outs \<and> ?P outs)"
    by (rule run_filled_run [OF assms]) (use body in blast)
  then show ?thesis unfolding bench_sync_map_range_def by blast
qed

section \<open>A concurrent map\<close>

definition plain_runtime :: "'m runtime_lib" where
  "plain_runtime = \<lparr>runtime_start = (\<lambda>m. ((), 9, m)), runtime_stop = (\<lambda>m. ((), 9, m)),
     gomaxprocs = (\<lambda>k m. (1, 1, m)), gosched = (\<lambda>m. ((), 1, m))\<rparr>"

definition alist_sync_map :: "(int \<times> int) list sync_map_lib" where
  "alist_sync_map = \<lparr>
     sync_map_init = (\<lambda>m al. ((), 1, [])),
     sync_store = (\<lambda>m k v al. ((), 1, AList.update k v al)),
     sync_load = (\<lambda>m k al. (map_of al k, 1, al)),
     sync_load_or_store = (\<lambda>m k v al. (case map_of al k of
        Some x \<Rightarrow> ((x, True), 1, al) | None \<Rightarrow> ((v, False), 1, AList.update k v al))),
     sync_delete = (\<lambda>m k al. ((), 1, AList.delete k al)),
     sync_range = (\<lambda>m al. (map (\<lambda>x. (16, 24)) (AList.clearjunk al), 1, al)),
     sync_map_free = (\<lambda>m al. ((), 1, []))\<rparr>"

lemma alist_sync_law: "sync_law plain_runtime alist_sync_map (\<lambda>m al. map_of al)"
  by (auto simp: sync_law_def alist_sync_map_def plain_runtime_def update_conv' delete_conv'
      clearjunk_size split: option.split)

definition sync_world :: "int \<Rightarrow> (int \<times> int) list process world" where
  "sync_world n = \<lparr>bch = zero_bench\<lparr>b_n := n\<rparr>, kept = [], rest = \<lparr>clock = 0, int_var = (\<lambda>x. 0),
     u64_var = (\<lambda>x. 0), dbl_var = (\<lambda>x. 0), int_array = (\<lambda>x. []), str_array = (\<lambda>x. []), machine = []\<rparr>\<rparr>"

theorem sync_loads_answer_witness:
  "\<exists>w'. bench_sync_map_load_hit (exact_host (\<lambda>x. 8) (\<lambda>x. 0)) plain_runtime alist_sync_map (sync_world 3)
     = Some w' \<and> kept w' = [KeptU64 1, KeptU64 8, KeptU64 15]"
  using sync_loads_answer [OF exact_host_ok alist_sync_law, of "sync_world 3" "\<lambda>x. 8" "\<lambda>x. 0"]
  by (simp add: sync_world_def int64_max_def upt_rec sync_key_def)

theorem sync_range_meets_all_witness:
  "\<exists>w' out. bench_sync_map_range (exact_host (\<lambda>x. 8) (\<lambda>x. 0)) plain_runtime alist_sync_map (sync_world 1)
     = Some w' \<and> kept w' = out \<and> length out = 2049"
proof -
  obtain w' outs where w: "bench_sync_map_range (exact_host (\<lambda>x. 8) (\<lambda>x. 0)) plain_runtime alist_sync_map
      (sync_world 1) = Some w'" "kept w' = concat outs" "length outs = 1"
    "\<forall>out \<in> set outs. length out = 2049"
    using sync_range_meets_all [OF exact_host_ok alist_sync_law, of "\<lambda>x. 8" "\<lambda>x. 0" "sync_world 1"]
    by (auto simp: sync_world_def)
  then obtain out where "outs = [out]" by (auto simp: length_Suc_conv)
  with w show ?thesis by auto
qed

end
