(* ===== verification/Sync_Pool_Bench.thy ===== *)
theory Sync_Pool_Bench
  imports Runtime_Lib "HOL-Library.Multiset"
begin

unbundle bit_operations_syntax

text \<open>
  \<open>bench/sync_pool_bench.c\<close>: gets and puts on burrow's object pool. When the pool has nothing
  it calls back \<open>make_buf\<close>, which hands out the buffers of a static ring in turn, and what the
  pool gives up goes to \<open>drop_buf\<close>.
\<close>

section \<open>What the file takes from burrow\<close>

text \<open>
  \<open>pool_get\<close> returns a cached object, or \<open>None\<close> when it has to call the new function;
  \<open>pool_free\<close> and \<open>pool_sweep\<close> return the objects handed to the free function.
\<close>

record 'm pool_lib =
  pool_init :: "(unit, 'm) op"
  pool_get :: "(nat option, 'm) op"
  pool_put :: "nat \<Rightarrow> (unit, 'm) op"
  pool_free :: "(nat list, 'm) op"
  pool_sweep :: "(nat list, 'm) op"

section \<open>The ring of buffers\<close>

definition POOL_OBJS :: nat where "POOL_OBJS = 64"

text \<open>\<open>&objs[k]\<close>, with the 64 bytes of a \<open>Buf\<close>.\<close>

definition obj_addr :: "'m host \<Rightarrow> nat \<Rightarrow> nat" where
  "obj_addr h k = addr h ''objs'' + 64 * k"

definition make_buf :: "'m host \<Rightarrow> (nat \<Rightarrow> 'm cstmt) \<Rightarrow> 'm cstmt" where
  "make_buf h k = reading (\<lambda>p. u64_var p ''next_obj'') (\<lambda>i. block [
     set_u64 ''next_obj'' ((i + 1) AND (of_nat POOL_OBJS - 1)),
     k (obj_addr h (unat i))])"

definition drop_buf :: "nat \<Rightarrow> 'm cstmt" where
  "drop_buf v = keep v"

section \<open>The bodies\<close>

text \<open>\<open>sync_pool_get\<close> with its new function, and the calls that run the free function.\<close>

definition get_buf :: "'m host \<Rightarrow> 'm pool_lib \<Rightarrow> (nat \<Rightarrow> 'm cstmt) \<Rightarrow> 'm cstmt" where
  "get_buf h L k = calling (pool_get L) (\<lambda>r. case r of Some v \<Rightarrow> k v | None \<Rightarrow> make_buf h k)"

definition dropping_bufs :: "(nat list, 'm) op \<Rightarrow> 'm cstmt" where
  "dropping_bufs f = calling f (\<lambda>xs. block (map drop_buf xs))"

definition run_pool :: "'m host \<Rightarrow> 'm runtime_lib \<Rightarrow> 'm pool_lib \<Rightarrow> 'm cstmt \<Rightarrow> 'm cstmt" where
  "run_pool h R L body = block [
     set_u64 ''next_obj'' 0,
     call_op (pool_init L),
     pausing h,
     runtime_main R body]"

definition get_put_body :: "'m host \<Rightarrow> 'm pool_lib \<Rightarrow> 'm cstmt" where
  "get_put_body h L = block [
     timed_section h (bench_loop (\<lambda>_. get_buf h L (\<lambda>v. block [
       keep v,
       call_op (pool_put L v)]))),
     dropping_bufs (pool_free L)]"

definition get_put_pair_body :: "'m host \<Rightarrow> 'm pool_lib \<Rightarrow> 'm cstmt" where
  "get_put_pair_body h L = block [
     timed_section h (bench_loop (\<lambda>_. get_buf h L (\<lambda>v1. get_buf h L (\<lambda>v2. block [
       keep v1,
       keep v2,
       call_op (pool_put L v1),
       call_op (pool_put L v2)])))),
     dropping_bufs (pool_free L)]"

definition get_new_body :: "'m host \<Rightarrow> 'm pool_lib \<Rightarrow> 'm cstmt" where
  "get_new_body h L = block [
     timed_section h (bench_loop (\<lambda>_. get_buf h L keep)),
     dropping_bufs (pool_free L)]"

definition sweep_body :: "'m host \<Rightarrow> 'm pool_lib \<Rightarrow> 'm cstmt" where
  "sweep_body h L = block [
     get_buf h L (\<lambda>v. call_op (pool_put L v)),
     timed_section h (bench_loop (\<lambda>_. dropping_bufs (pool_sweep L))),
     dropping_bufs (pool_free L)]"

definition bench_sync_pool_get_put :: "'m host \<Rightarrow> 'm runtime_lib \<Rightarrow> 'm pool_lib \<Rightarrow> 'm cstmt" where
  "bench_sync_pool_get_put h R L = run_pool h R L (get_put_body h L)"

definition bench_sync_pool_get_put_pair :: "'m host \<Rightarrow> 'm runtime_lib \<Rightarrow> 'm pool_lib \<Rightarrow> 'm cstmt" where
  "bench_sync_pool_get_put_pair h R L = run_pool h R L (get_put_pair_body h L)"

definition bench_sync_pool_get_new :: "'m host \<Rightarrow> 'm runtime_lib \<Rightarrow> 'm pool_lib \<Rightarrow> 'm cstmt" where
  "bench_sync_pool_get_new h R L = run_pool h R L (get_new_body h L)"

definition bench_sync_pool_sweep_idle :: "'m host \<Rightarrow> 'm runtime_lib \<Rightarrow> 'm pool_lib \<Rightarrow> 'm cstmt" where
  "bench_sync_pool_sweep_idle h R L = run_pool h R L (sweep_body h L)"

definition sync_pool_table :: "'m host \<Rightarrow> 'm runtime_lib \<Rightarrow> 'm pool_lib \<Rightarrow> (string \<times> 'm cstmt) list" where
  "sync_pool_table h R L = [
     (''sync_pool_get_put'', bench_sync_pool_get_put h R L),
     (''sync_pool_get_put_pair'', bench_sync_pool_get_put_pair h R L),
     (''sync_pool_get_new'', bench_sync_pool_get_new h R L),
     (''sync_pool_sweep_idle'', bench_sync_pool_sweep_idle h R L)]"

section \<open>The contract\<close>

lemma pool_parts_move [contract_rules]:
  "(\<And>v. does (advances clock) (k v)) \<Longrightarrow> does (advances clock) (make_buf h k)"
  "(\<And>v. does (advances clock) (k v)) \<Longrightarrow> does (advances clock) (get_buf h L k)"
  "does (advances clock) (dropping_bufs f)"
proof -
  show m: "does (advances clock) (make_buf h k)" if "\<And>v. does (advances clock) (k v)" for k :: "nat \<Rightarrow> 'a cstmt" and h
    unfolding make_buf_def by (intro contract_rules that)
  show "does (advances clock) (get_buf h L k)" if "\<And>v. does (advances clock) (k v)"
    unfolding get_buf_def by (auto intro!: contract_rules m that split: option.split)
  show "does (advances clock) (dropping_bufs f)"
    unfolding dropping_bufs_def drop_buf_def
    by (intro contract_rules moving.block_rule) (auto intro: contract_rules)
qed

lemmas pool_bodies = get_put_body_def get_put_pair_body_def get_new_body_def sweep_body_def
  bench_sync_pool_get_put_def bench_sync_pool_get_put_pair_def bench_sync_pool_get_new_def
  bench_sync_pool_sweep_idle_def run_pool_def

lemma sync_pool_table_moves:
  assumes "host_ok h" and "(nm, f) \<in> set (sync_pool_table h R L)"
  shows "does (advances clock) f"
  using assms
  by (auto simp: sync_pool_table_def pool_bodies intro!: contract_rules simp del: block.simps)

section \<open>What a pool promises\<close>

text \<open>
  A pool may forget objects at any time, but it never makes one up and never hands out one object
  twice: \<open>inside\<close> is the multiset of objects it holds.
\<close>

definition pool_law :: "'m runtime_lib \<Rightarrow> 'm pool_lib \<Rightarrow> ('m \<Rightarrow> nat multiset) \<Rightarrow> bool" where
  "pool_law R L inside \<longleftrightarrow>
     (\<forall>s. inside (snd (snd (runtime_start R s))) \<subseteq># inside s)
   \<and> (\<forall>s. inside (snd (snd (pool_init L s))) = {#})
   \<and> (\<forall>s. case fst (pool_get L s) of
         Some v \<Rightarrow> v \<in># inside s \<and> inside (snd (snd (pool_get L s))) \<subseteq># inside s - {#v#}
       | None \<Rightarrow> inside (snd (snd (pool_get L s))) \<subseteq># inside s)
   \<and> (\<forall>v s. inside (snd (snd (pool_put L v s))) \<subseteq># add_mset v (inside s))
   \<and> (\<forall>s. mset (fst (pool_free L s)) + inside (snd (snd (pool_free L s))) \<subseteq># inside s)
   \<and> (\<forall>s. mset (fst (pool_sweep L s)) + inside (snd (snd (pool_sweep L s))) \<subseteq># inside s)"

text \<open>The addresses of the ring, and the states in which everything is in it.\<close>

definition ring :: "'m host \<Rightarrow> nat set" where
  "ring h = obj_addr h ` {..<POOL_OBJS}"

definition ring_ok :: "'m host \<Rightarrow> ('m \<Rightarrow> nat multiset) \<Rightarrow> 'm process world \<Rightarrow> bool" where
  "ring_ok h inside w \<longleftrightarrow> u64_var (rest w) ''next_obj'' < of_nat POOL_OBJS
     \<and> set_mset (inside (machine (rest w))) \<subseteq> ring h"

text \<open>
  \<open>ring_safe f\<close>: from such a state \<open>f\<close> returns to such a state, and only addresses of the
  ring go into the sink.
\<close>

definition ring_safe :: "'m host \<Rightarrow> ('m \<Rightarrow> nat multiset) \<Rightarrow> 'm cstmt \<Rightarrow> bool" where
  "ring_safe h inside f \<longleftrightarrow> (\<forall>w. ring_ok h inside w \<longrightarrow> (\<exists>w' out. f w = Some w' \<and> ring_ok h inside w'
     \<and> kept w' = kept w @ out \<and> set out \<subseteq> KeptPtr ` ring h))"

named_theorems ring_rules \<open>rules that show that a statement stays in the ring\<close>

lemma ring_safeD:
  "ring_safe h inside f \<Longrightarrow> ring_ok h inside w \<Longrightarrow> \<exists>w' out. f w = Some w' \<and> ring_ok h inside w'
     \<and> kept w' = kept w @ out \<and> set out \<subseteq> KeptPtr ` ring h"
  by (simp add: ring_safe_def)

lemma ring_Nil [ring_rules]: "ring_safe h inside (block [])" "ring_safe h inside Some"
  by (simp_all add: ring_safe_def)

lemma ring_Cons [ring_rules]:
  assumes "ring_safe h inside s" and "ring_safe h inside (block ss)"
  shows "ring_safe h inside (block (s # ss))"
  unfolding ring_safe_def
proof (intro allI impI)
  fix w assume "ring_ok h inside w"
  from ring_safeD [OF assms(1) this] obtain v out where v: "s w = Some v" "ring_ok h inside v"
    "kept v = kept w @ out" "set out \<subseteq> KeptPtr ` ring h" by blast
  from ring_safeD [OF assms(2) v(2)] obtain w' out' where "block ss v = Some w'" "ring_ok h inside w'"
    "kept w' = kept v @ out'" "set out' \<subseteq> KeptPtr ` ring h" by blast
  with v show "\<exists>w' out. block (s # ss) w = Some w' \<and> ring_ok h inside w' \<and> kept w' = kept w @ out
    \<and> set out \<subseteq> KeptPtr ` ring h"
    by (auto intro!: exI [of _ "out @ out'"])
qed

lemma ring_block: "(\<And>s. s \<in> set ss \<Longrightarrow> ring_safe h inside s) \<Longrightarrow> ring_safe h inside (block ss)"
  by (induction ss) (auto intro!: ring_rules simp del: block.simps block_Nil_eq)

lemma ring_loop [ring_rules]:
  assumes "\<And>i. ring_safe h inside (body i)"
  shows "ring_safe h inside (bench_loop body)"
  unfolding ring_safe_def
proof (intro allI impI)
  fix w assume w: "ring_ok h inside w"
  let ?I = "\<lambda>j v. ring_ok h inside v \<and> (\<exists>out. kept v = kept w @ out \<and> set out \<subseteq> KeptPtr ` ring h)"
  have "\<exists>w'. for_loop (nat (b_n (bch w))) 0 body w = Some w' \<and> ?I (nat (b_n (bch w))) w'"
  proof (rule for_loop_total [where I = ?I])
    fix j v assume "?I j v"
    then obtain out where v: "ring_ok h inside v" "kept v = kept w @ out" "set out \<subseteq> KeptPtr ` ring h"
      by blast
    from ring_safeD [OF assms [of "0 + int j"] v(1)] obtain v' out' where
      "body (0 + int j) v = Some v'" "ring_ok h inside v'" "kept v' = kept v @ out'"
      "set out' \<subseteq> KeptPtr ` ring h" by blast
    with v show "\<exists>v'. body (0 + int j) v = Some v' \<and> ?I (Suc j) v'"
      by (auto intro!: exI [of _ v'] exI [of _ "out @ out'"])
  qed (use w in simp)
  then show "\<exists>w' out. bench_loop body w = Some w' \<and> ring_ok h inside w' \<and> kept w' = kept w @ out
    \<and> set out \<subseteq> KeptPtr ` ring h" by (auto simp: bench_loop_def)
qed

lemma ring_keep [ring_rules]: "v \<in> ring h \<Longrightarrow> ring_safe h inside (keep v)"
  by (auto simp: ring_safe_def keep_def ring_ok_def)

lemma ring_timer [ring_rules]:
  assumes "host_ok h"
  shows "ring_safe h inside (pausing h)" "ring_safe h inside (resuming h)"
  using timer_stmt [OF assms] unfolding ring_safe_def ring_ok_def
  by (metis append_Nil2 empty_set empty_subsetI)+

lemma ring_timed [ring_rules]:
  "host_ok h \<Longrightarrow> ring_safe h inside f \<Longrightarrow> ring_safe h inside (timed_section h f)"
  unfolding timed_section_def by (intro ring_rules)

text \<open>A call that only moves the objects of the pool.\<close>

lemma ring_call:
  assumes "\<And>s. set_mset (inside s) \<subseteq> ring h \<Longrightarrow> set_mset (inside (snd (snd (f s)))) \<subseteq> ring h
      \<and> P (fst (f s))"
    and "\<And>x. P x \<Longrightarrow> ring_safe h inside (k x)"
  shows "ring_safe h inside (calling f k)"
  unfolding ring_safe_def
proof (intro allI impI)
  fix w assume w: "ring_ok h inside w"
  let ?c = "call (lib f) w"
  have "ring_ok h inside (snd ?c)" "P (fst ?c)"
    using w assms(1) [of "machine (rest w)"] by (auto simp: ring_ok_def)
  from ring_safeD [OF assms(2) [OF this(2)] this(1)]
  show "\<exists>w' out. calling f k w = Some w' \<and> ring_ok h inside w' \<and> kept w' = kept w @ out
    \<and> set out \<subseteq> KeptPtr ` ring h" by (simp add: calling_def split_beta)
qed

lemma obj_in_ring: "i < 64 \<Longrightarrow> obj_addr h i \<in> ring h"
  by (simp add: ring_def POOL_OBJS_def)

lemma next_obj_mod: "unat (((i :: u64) + 1) AND (of_nat POOL_OBJS - 1)) = unat (i + 1) mod 64"
proof -
  have "(i + 1) AND (of_nat POOL_OBJS - 1) = take_bit 6 (i + 1)"
    by (simp add: take_bit_eq_mask POOL_OBJS_def mask_eq_exp_minus_1)
  then have "unat ((i + 1) AND (of_nat POOL_OBJS - 1)) = take_bit 6 (unat (i + 1))"
    by (simp only: unsigned_take_bit_eq)
  then show ?thesis by (simp add: take_bit_eq_mod)
qed

lemma next_obj_eq:
  assumes "unat (i :: u64) < 64"
  shows "unat ((i + 1) AND (of_nat POOL_OBJS - 1)) = (unat i + 1) mod 64"
proof -
  have "unat (i + 1) = unat i + 1"
    using assms by (simp add: unat_word_ariths)
  then show ?thesis by (simp add: next_obj_mod)
qed

lemma next_obj_range: "((i :: u64) + 1) AND (of_nat POOL_OBJS - 1) < of_nat POOL_OBJS"
  by (simp add: word_less_nat_alt next_obj_mod) (simp add: POOL_OBJS_def)

lemma ring_make [ring_rules]:
  assumes "\<And>v. v \<in> ring h \<Longrightarrow> ring_safe h inside (k v)"
  shows "ring_safe h inside (make_buf h k)"
  unfolding ring_safe_def
proof (intro allI impI)
  fix w assume w: "ring_ok h inside w"
  let ?i = "u64_var (rest w) ''next_obj''"
  let ?v = "perform (\<lambda>p. p\<lparr>u64_var := (u64_var p)(''next_obj'' := (?i + 1) AND (of_nat POOL_OBJS - 1))\<rparr>) w"
  have ok: "ring_ok h inside ?v" using w by (simp add: ring_ok_def next_obj_range perform_def)
  have "unat ?i < 64" using w by (simp add: ring_ok_def word_less_nat_alt POOL_OBJS_def)
  then have "ring_safe h inside (k (obj_addr h (unat ?i)))" by (intro assms obj_in_ring)
  from ring_safeD [OF this ok]
  show "\<exists>w' out. make_buf h k w = Some w' \<and> ring_ok h inside w' \<and> kept w' = kept w @ out
    \<and> set out \<subseteq> KeptPtr ` ring h"
    by (simp add: make_buf_def reading_def set_u64_def assign_def)
qed

lemma ring_get [ring_rules]:
  assumes "pool_law R L inside" and "\<And>v. v \<in> ring h \<Longrightarrow> ring_safe h inside (k v)"
  shows "ring_safe h inside (get_buf h L k)"
  unfolding get_buf_def
proof (rule ring_call [where P = "\<lambda>r. \<forall>v. r = Some v \<longrightarrow> v \<in> ring h"])
  fix s assume s: "set_mset (inside s) \<subseteq> ring h"
  have "case fst (pool_get L s) of
      Some v \<Rightarrow> v \<in># inside s \<and> inside (snd (snd (pool_get L s))) \<subseteq># inside s - {#v#}
    | None \<Rightarrow> inside (snd (snd (pool_get L s))) \<subseteq># inside s"
    using assms(1) by (simp add: pool_law_def)
  with s show "set_mset (inside (snd (snd (pool_get L s)))) \<subseteq> ring h
    \<and> (\<forall>v. fst (pool_get L s) = Some v \<longrightarrow> v \<in> ring h)"
    by (cases "fst (pool_get L s)")
      (auto dest!: set_mset_mono intro: order_trans dest: in_diffD)
next
  fix r assume "\<forall>v. r = Some v \<longrightarrow> v \<in> ring h"
  then show "ring_safe h inside (case r of Some v \<Rightarrow> k v | None \<Rightarrow> make_buf h k)"
    by (auto split: option.split intro: assms(2) ring_make)
qed

lemma ring_put [ring_rules]:
  assumes "pool_law R L inside" and "v \<in> ring h"
  shows "ring_safe h inside (call_op (pool_put L v))"
proof (rule ring_call [where P = "\<lambda>_. True"])
  fix s assume s: "set_mset (inside s) \<subseteq> ring h"
  have "inside (snd (snd (pool_put L v s))) \<subseteq># add_mset v (inside s)"
    using assms(1) by (simp add: pool_law_def)
  with s assms(2) show "set_mset (inside (snd (snd (pool_put L v s)))) \<subseteq> ring h \<and> True"
    by (auto dest!: mset_subset_eqD)
qed (rule ring_rules)

lemma ring_drop:
  assumes "\<And>s. mset (fst (f s)) + inside (snd (snd (f s))) \<subseteq># inside s"
  shows "ring_safe h inside (dropping_bufs f)"
  unfolding dropping_bufs_def
proof (rule ring_call [where P = "\<lambda>xs. set xs \<subseteq> ring h"])
  fix s assume s: "set_mset (inside s) \<subseteq> ring h"
  with assms [of s] show "set_mset (inside (snd (snd (f s)))) \<subseteq> ring h \<and> set (fst (f s)) \<subseteq> ring h"
    by (metis (no_types, lifting) Un_subset_iff order_trans set_mset_mono set_mset_mset set_mset_union)
next
  fix xs :: "nat list" assume "set xs \<subseteq> ring h"
  then show "ring_safe h inside (block (map drop_buf xs))"
    by (intro ring_block) (auto simp: drop_buf_def intro: ring_keep)
qed

lemma ring_drops [ring_rules]:
  assumes "pool_law R L inside"
  shows "ring_safe h inside (dropping_bufs (pool_free L))" "ring_safe h inside (dropping_bufs (pool_sweep L))"
  by (rule ring_drop, use assms in \<open>simp add: pool_law_def\<close>)+

text \<open>From the start of a row: the index is reset and the pool is new.\<close>

lemma run_pool_run:
  fixes w :: "'m process world"
  assumes "host_ok h" and law: "pool_law R L inside"
    and "\<And>v. kept v = kept w \<Longrightarrow> b_n (bch v) = b_n (bch w) \<Longrightarrow> u64_var (rest v) ''next_obj'' = 0 \<Longrightarrow>
      inside (machine (rest v)) = {#} \<Longrightarrow> \<exists>v' out. body v = Some v' \<and> kept v' = kept w @ out \<and> P out"
  shows "\<exists>w' out. run_pool h R L body w = Some w' \<and> kept w' = kept w @ out \<and> P out"
proof -
  let ?w1 = "perform (\<lambda>p. p\<lparr>u64_var := (u64_var p)(''next_obj'' := 0)\<rparr>) w"
  let ?w2 = "snd (call (lib (pool_init L)) ?w1)"
  obtain w3 where w3: "pausing h ?w2 = Some w3" "kept w3 = kept w" "b_n (bch w3) = b_n (bch w)"
    "machine (rest w3) = machine (rest ?w2)" "u64_var (rest w3) = u64_var (rest ?w2)"
    using timer_stmt(1) [OF assms(1), of ?w2] by auto
  let ?w4 = "snd (call (lib (runtime_start R)) w3)"
  have "inside (machine (rest ?w2)) = {#}" using law by (simp add: pool_law_def)
  moreover have "inside (machine (rest ?w4)) \<subseteq># inside (machine (rest w3))"
    using law by (simp add: pool_law_def)
  ultimately have "inside (machine (rest ?w4)) = {#}" using w3(4) by simp
  moreover have "u64_var (rest ?w4) ''next_obj'' = 0" using w3(5) by (simp add: perform_def)
  ultimately obtain w5 out where "body ?w4 = Some w5" "kept w5 = kept w @ out" "P out"
    using assms(3) [of ?w4] w3(2,3) by auto
  with w3(1) show ?thesis
    by (simp add: run_pool_def runtime_main_def set_u64_def assign_def calling_def split_beta)
qed

text \<open>
  Safety: no row of the pool hands out an address outside its ring of 64 buffers. For a pool
  that may forget objects whenever it likes, but makes none up, every row returns, and every
  pointer that it or the free function hands to the sink is one of \<open>&objs[0]\<close> to
  \<open>&objs[63]\<close>.
\<close>
theorem pool_rows_in_ring:
  assumes "host_ok h" and "pool_law R L inside" and "(nm, f) \<in> set (sync_pool_table h R L)"
  shows "\<exists>w' out. f w = Some w' \<and> kept w' = kept w @ out
    \<and> set out \<subseteq> KeptPtr ` obj_addr h ` {..<64}"
proof -
  note rules = ring_rules ring_drops [OF assms(2)] ring_get [OF assms(2)] ring_put [OF assms(2)]
  have safe: "ring_safe h inside (get_put_body h L)" "ring_safe h inside (get_put_pair_body h L)"
    "ring_safe h inside (get_new_body h L)" "ring_safe h inside (sweep_body h L)"
    unfolding get_put_body_def get_put_pair_body_def get_new_body_def sweep_body_def
    by (auto intro!: rules simp: assms(1) simp del: block.simps block_Nil_eq block_single)
  have run: "\<exists>w' out. run_pool h R L body w = Some w' \<and> kept w' = kept w @ out
    \<and> set out \<subseteq> KeptPtr ` obj_addr h ` {..<64}" if "ring_safe h inside body" for body
  proof (rule run_pool_run [OF assms(1,2)])
    fix v :: "'a process world"
    assume v: "kept v = kept w" "u64_var (rest v) ''next_obj'' = 0" "inside (machine (rest v)) = {#}"
    then have "ring_ok h inside v" by (simp add: ring_ok_def POOL_OBJS_def)
    from ring_safeD [OF that this] v(1)
    show "\<exists>v' out. body v = Some v' \<and> kept v' = kept w @ out \<and> set out \<subseteq> KeptPtr ` obj_addr h ` {..<64}"
      by (auto simp: ring_def POOL_OBJS_def)
  qed
  from assms(3) have "\<exists>body. f = run_pool h R L body \<and> ring_safe h inside body"
    by (auto simp: sync_pool_table_def bench_sync_pool_get_put_def bench_sync_pool_get_put_pair_def
        bench_sync_pool_get_new_def bench_sync_pool_sweep_idle_def intro: safe)
  with run show ?thesis by blast
qed

section \<open>The miss row\<close>

lemma empty_pool:
  assumes "pool_law R L inside" and "inside s = {#}"
  shows "fst (pool_get L s) = None" "inside (snd (snd (pool_get L s))) = {#}" "fst (pool_free L s) = []"
proof -
  have get: "case fst (pool_get L s) of
      Some v \<Rightarrow> v \<in># inside s \<and> inside (snd (snd (pool_get L s))) \<subseteq># inside s - {#v#}
    | None \<Rightarrow> inside (snd (snd (pool_get L s))) \<subseteq># inside s"
    and free: "mset (fst (pool_free L s)) + inside (snd (snd (pool_free L s))) \<subseteq># inside s"
    using assms(1) by (simp_all add: pool_law_def)
  from get assms(2) show "fst (pool_get L s) = None" "inside (snd (snd (pool_get L s))) = {#}"
    by (auto split: option.splits)
  from free assms(2) show "fst (pool_free L s) = []" by simp
qed

text \<open>
  Functional: a pool that is never given anything asks the new function every time, and the new
  function goes round its ring: round \<open>j\<close> of the miss row hands \<open>&objs[j mod 64]\<close> to the sink, and
  freeing the pool hands nothing to the free function.
\<close>
theorem pool_get_new_cycles:
  assumes "host_ok h" and "pool_law R L inside"
  shows "\<exists>w'. bench_sync_pool_get_new h R L w = Some w'
    \<and> kept w' = kept w @ map (\<lambda>j. KeptPtr (obj_addr h (j mod 64))) [0..<nat (b_n (bch w))]"
proof -
  let ?out = "map (\<lambda>j. KeptPtr (obj_addr h (j mod 64))) [0..<nat (b_n (bch w))]"
  note empty = empty_pool [OF assms(2)]
  have body: "\<exists>v' out. get_new_body h L v = Some v' \<and> kept v' = kept w @ out \<and> out = ?out"
    if v: "kept v = kept w" "b_n (bch v) = b_n (bch w)" "u64_var (rest v) ''next_obj'' = 0"
      "inside (machine (rest v)) = {#}" for v :: "'a process world"
  proof -
    have "\<exists>u. timed_section h (bench_loop (\<lambda>_. get_buf h L keep)) v = Some u \<and> kept u = kept v @ ?out
      \<and> (\<lambda>m i u. inside m = {#}) (machine (rest u)) (int_var (rest u)) (u64_var (rest u))"
    proof (rule timed_section_run [OF assms(1)])
      fix x :: "'a process world"
      assume x: "machine (rest x) = machine (rest v)" "u64_var (rest x) = u64_var (rest v)"
        "kept x = kept v" "b_n (bch x) = b_n (bch v)"
      let ?I = "\<lambda>j z. inside (machine (rest z)) = {#} \<and> unat (u64_var (rest z) ''next_obj'') = j mod 64"
      have "\<exists>x'. bench_loop (\<lambda>_. get_buf h L keep) x = Some x' \<and> ?I (nat (b_n (bch x))) x'
        \<and> kept x' = kept x @ concat (map (\<lambda>j. [KeptPtr (obj_addr h (j mod 64))]) [0..<nat (b_n (bch x))])"
      proof (rule loop_kept [where I = ?I])
        show "?I 0 x" using x v by simp
        fix j and z :: "'a process world" assume z: "?I j z"
        then have "unat (u64_var (rest z) ''next_obj'') < 64" by simp
        from next_obj_eq [OF this] z empty [of "machine (rest z)"]
        show "\<exists>z'. get_buf h L keep z = Some z' \<and> kept z' = kept z @ [KeptPtr (obj_addr h (j mod 64))]
          \<and> ?I (Suc j) z'"
          by (simp add: get_buf_def make_buf_def stmt_simps perform_def mod_Suc_eq)
      qed
      then show "\<exists>x'. bench_loop (\<lambda>_. get_buf h L keep) x = Some x' \<and> kept x' = kept v @ ?out
        \<and> inside (machine (rest x')) = {#}" using x v by auto
    qed
    then obtain u where "timed_section h (bench_loop (\<lambda>_. get_buf h L keep)) v = Some u"
      "kept u = kept v @ ?out" "inside (machine (rest u)) = {#}" by blast
    with empty(3) [of "machine (rest u)"] v(1) show ?thesis
      by (simp add: get_new_body_def dropping_bufs_def calling_def split_beta)
  qed
  have "\<exists>w' out. run_pool h R L (get_new_body h L) w = Some w' \<and> kept w' = kept w @ out \<and> out = ?out"
    by (rule run_pool_run [OF assms]) (use body in blast)
  then show ?thesis by (simp add: bench_sync_pool_get_new_def)
qed

section \<open>A pool\<close>

text \<open>A stack of objects that forgets all of them at a sweep.\<close>

definition stack_pool :: "nat list pool_lib" where
  "stack_pool = \<lparr>pool_init = (\<lambda>s. ((), 1, [])),
     pool_get = (\<lambda>s. (case s of [] \<Rightarrow> (None, 1, []) | x # xs \<Rightarrow> (Some x, 1, xs))),
     pool_put = (\<lambda>x s. ((), 1, x # s)), pool_free = (\<lambda>s. (s, 1, [])), pool_sweep = (\<lambda>s. (s, 1, []))\<rparr>"

definition pool_runtime :: "nat list runtime_lib" where
  "pool_runtime = \<lparr>runtime_start = (\<lambda>m. ((), 9, m)), runtime_stop = (\<lambda>m. ((), 9, m)),
     gomaxprocs = (\<lambda>k m. (1, 1, m)), gosched = (\<lambda>m. ((), 1, m))\<rparr>"

lemma stack_pool_law: "pool_law pool_runtime stack_pool mset"
  by (auto simp: pool_law_def stack_pool_def pool_runtime_def split: list.split)

definition pool_world :: "int \<Rightarrow> nat list process world" where
  "pool_world n = \<lparr>bch = zero_bench\<lparr>b_n := n\<rparr>, kept = [], rest = \<lparr>clock = 0, int_var = (\<lambda>x. 0),
     u64_var = (\<lambda>x. 0), dbl_var = (\<lambda>x. 0), int_array = (\<lambda>x. []), str_array = (\<lambda>x. []), machine = []\<rparr>\<rparr>"

theorem pool_get_new_cycles_witness:
  "\<exists>w'. bench_sync_pool_get_new (exact_host (\<lambda>x. 4096) (\<lambda>x. 0)) pool_runtime stack_pool (pool_world 3)
     = Some w' \<and> kept w' = [KeptPtr 4096, KeptPtr 4160, KeptPtr 4224]"
  using pool_get_new_cycles [OF exact_host_ok stack_pool_law, of "\<lambda>x. 4096" "\<lambda>x. 0" "pool_world 3"]
  by (simp add: pool_world_def upt_rec obj_addr_def)

theorem pool_rows_in_ring_witness:
  "\<exists>w' out. bench_sync_pool_sweep_idle (exact_host (\<lambda>x. 4096) (\<lambda>x. 0)) pool_runtime stack_pool (pool_world 3)
     = Some w' \<and> kept w' = out \<and> set out \<subseteq> KeptPtr ` obj_addr (exact_host (\<lambda>x. 4096) (\<lambda>x. 0) :: nat list host) ` {..<64}"
  using pool_rows_in_ring [OF exact_host_ok stack_pool_law, of "''sync_pool_sweep_idle''"
      "bench_sync_pool_sweep_idle (exact_host (\<lambda>x. 4096) (\<lambda>x. 0)) pool_runtime stack_pool"
      "\<lambda>x. 4096" "\<lambda>x. 0" "pool_world 3"]
  by (simp add: sync_pool_table_def pool_world_def)

end
