(* ===== verification/Strings_Bench.thy ===== *)
theory Strings_Bench
  imports Arena_Lib
begin

unbundle bit_operations_syntax

text \<open>
  \<open>bench/strings_bench.c\<close>: burrow's strings package on the rows of Go's strings tests. The
  inputs are this file's, among them the hard input, a megabyte of HTML tokens that an xorshift
  generator picks.
\<close>

section \<open>The hard input\<close>

definition HARD_LEN :: nat where "HARD_LEN = 2 ^ 20"

definition tokens :: "string list" where
  "tokens = [''<a>'', ''<p>'', ''<b>'', ''<strong>'', ''</a>'', ''</p>'', ''</b>'', ''</strong>'',
     ''hello'', ''world'']"

definition xorshift :: "u64 \<Rightarrow> u64" where
  "xorshift r = (let r = r XOR push_bit 13 r; r = r XOR drop_bit 7 r in r XOR push_bit 17 r)"

definition token_of :: "u64 \<Rightarrow> string" where
  "token_of r = tokens ! unat (r mod 10)"

lemma token_index: "unat ((r :: u64) mod 10) < length tokens"
  by (simp add: unat_mod tokens_def)

lemma token_of_in: "token_of r \<in> set tokens"
  unfolding token_of_def by (rule nth_mem) (rule token_index)

lemma token_lengths: "t \<in> set tokens \<Longrightarrow> 3 \<le> length t \<and> length t \<le> 9"
  by (auto simp: tokens_def)

text \<open>\<open>for (;;)\<close>: the bytes copied from \<open>n\<close> on, until a token does not fit.\<close>

function build_tokens :: "u64 \<Rightarrow> nat \<Rightarrow> string" where
  "build_tokens r n = (let r = xorshift r; t = token_of r in
     if HARD_LEN \<le> n + length t then [] else t @ build_tokens r (n + length t))"
  by auto
termination
proof (relation "measure (\<lambda>(r, n). HARD_LEN - n)")
  fix r r' :: u64 and n t
  assume "r' = xorshift r" "t = token_of r'" "\<not> HARD_LEN \<le> n + length t"
  moreover from this token_lengths [OF token_of_in] have "3 \<le> length t" by blast
  ultimately show "((r', n + length t), r, n) \<in> measure (\<lambda>(r, n). HARD_LEN - n)" by simp
qed simp

declare build_tokens.simps [simp del]

definition hard_text :: string where
  "hard_text = build_tokens 99 0"

text \<open>
  \<open>hard\<close>, empty until it is built; \<open>malloc\<close> returns \<open>0\<close> when there is no memory, which ends the
  process.
\<close>

definition hard :: "'m process \<Rightarrow> string" where
  "hard p = (case str_array p ''strings.hard'' of [] \<Rightarrow> [] | s # _ \<Rightarrow> s)"

section \<open>What the file takes from burrow\<close>

text \<open>
  A \<open>Str\<close> or a \<open>Slice\<close> that comes back is its address with the bytes, or the address alone
  where only that is used. The first argument of the operations that allocate is the arena.
\<close>

record 'm strings_lib =
  malloc_hard :: "nat \<Rightarrow> (nat, 'm) op"
  strings_index :: "string \<Rightarrow> string \<Rightarrow> (int, 'm) op"
  strings_last_index :: "string \<Rightarrow> string \<Rightarrow> (int, 'm) op"
  strings_count :: "string \<Rightarrow> string \<Rightarrow> (int, 'm) op"
  strings_index_rune :: "string \<Rightarrow> nat \<Rightarrow> (int, 'm) op"
  strings_index_any :: "string \<Rightarrow> string \<Rightarrow> (int, 'm) op"
  strings_equal_fold :: "string \<Rightarrow> string \<Rightarrow> (bool, 'm) op"
  strings_trim_space :: "string \<Rightarrow> (nat, 'm) op"
  strings_fields :: "nat \<Rightarrow> string \<Rightarrow> (nat, 'm) op"
  strings_split :: "nat \<Rightarrow> string \<Rightarrow> string \<Rightarrow> (nat, 'm) op"
  strings_split_seq :: "nat \<Rightarrow> string \<Rightarrow> string \<Rightarrow> (string list, 'm) op"
  strings_join :: "nat \<Rightarrow> string list \<Rightarrow> string \<Rightarrow> (nat, 'm) op"
  strings_repeat :: "nat \<Rightarrow> string \<Rightarrow> nat \<Rightarrow> (nat \<times> string, 'm) op"
  strings_to_upper :: "nat \<Rightarrow> string \<Rightarrow> (nat, 'm) op"
  strings_replace_all :: "nat \<Rightarrow> string \<Rightarrow> string \<Rightarrow> string \<Rightarrow> (nat, 'm) op"
  builder_init :: "nat \<Rightarrow> (unit, 'm) op"
  builder_write_string :: "string \<Rightarrow> (unit, 'm) op"
  builder_string :: "(nat, 'm) op"
  strings_new_replacer :: "nat \<Rightarrow> string list \<Rightarrow> (nat, 'm) op"
  strings_replacer_replace :: "nat \<Rightarrow> nat \<Rightarrow> string \<Rightarrow> (nat, 'm) op"

definition build_hard :: "'m strings_lib \<Rightarrow> 'm cstmt" where
  "build_hard L = reading hard (\<lambda>s.
     if 0 < length s then Some
     else calling (malloc_hard L HARD_LEN) (\<lambda>x.
       if x = 0 then aborting else set_strs ''strings.hard'' [hard_text]))"

text \<open>\<open>(Str){s, strlen(s)}\<close>.\<close>

definition cstr :: "string \<Rightarrow> string" where
  "cstr s = takeWhile (\<lambda>c. c \<noteq> CHR 0x00) s"

section \<open>Searching\<close>

definition index_hard :: "'m strings_lib \<Rightarrow> string \<Rightarrow> 'm cstmt" where
  "index_hard L sep = block [build_hard L, reading hard (\<lambda>hard. let s = cstr sep in
     bench_loop (\<lambda>_. calling (strings_index L hard s) (\<lambda>i. keep_u64 (of_int i))))]"

definition bench_strings_index_hard1 :: "'m strings_lib \<Rightarrow> 'm cstmt" where
  "bench_strings_index_hard1 L = index_hard L ''<>''"

definition bench_strings_index_hard2 :: "'m strings_lib \<Rightarrow> 'm cstmt" where
  "bench_strings_index_hard2 L = index_hard L ''</pre>''"

definition bench_strings_index_hard3 :: "'m strings_lib \<Rightarrow> 'm cstmt" where
  "bench_strings_index_hard3 L = index_hard L ''<b>hello world</b>''"

definition bench_strings_last_index_hard2 :: "'m strings_lib \<Rightarrow> 'm cstmt" where
  "bench_strings_last_index_hard2 L = block [build_hard L, reading hard (\<lambda>hard.
     let s = cstr ''</pre>'' in
     bench_loop (\<lambda>_. calling (strings_last_index L hard s) (\<lambda>i. keep_u64 (of_int i))))]"

definition bench_strings_count_hard2 :: "'m strings_lib \<Rightarrow> 'm cstmt" where
  "bench_strings_count_hard2 L = block [build_hard L, reading hard (\<lambda>hard.
     let s = cstr ''</pre>'' in
     bench_loop (\<lambda>_. calling (strings_count L hard s) (\<lambda>i. keep_u64 (of_int i))))]"

text \<open>The three bytes in the middle are the encoding of U+263A.\<close>

definition smiling :: string where
  "smiling = ''some_text=some'' @ [CHR 0xE2, CHR 0x98, CHR 0xBA] @ ''value''"

definition bench_strings_index :: "'m strings_lib \<Rightarrow> 'm cstmt" where
  "bench_strings_index L = (let s = cstr smiling; sep = cstr ''v'' in
     bench_loop (\<lambda>_. calling (strings_index L s sep) (\<lambda>i. keep_u64 (of_int i))))"

definition bench_strings_index_rune :: "'m strings_lib \<Rightarrow> 'm cstmt" where
  "bench_strings_index_rune L = (let s = cstr smiling in
     bench_loop (\<lambda>_. calling (strings_index_rune L s 0x263A) (\<lambda>i. keep_u64 (of_int i))))"

definition bench_strings_index_any_ascii :: "'m strings_lib \<Rightarrow> 'm cstmt" where
  "bench_strings_index_any_ascii L =
     (let s = cstr ''xxxxxxxxxxxxxxxxxxxxxxxxxxxxxxxxxxxxxxxxxxxxxxxxxxxxxxxxxxxxxxx.''; chars = cstr '',.;:'' in
     bench_loop (\<lambda>_. calling (strings_index_any L s chars) (\<lambda>i. keep_u64 (of_int i))))"

definition bench_strings_equal_fold :: "'m strings_lib \<Rightarrow> 'm cstmt" where
  "bench_strings_equal_fold L =
     (let s = cstr ''ABCDEFGHIJKLMNOPQRSTUVWXYZ1234567890'';
          t = cstr ''abcdefghijklmnopqrstuvwxyz1234567890'' in
     bench_loop (\<lambda>_. calling (strings_equal_fold L s t) (\<lambda>r. keep_u64 (if r then 1 else 0))))"

definition bench_strings_trim_space :: "'m strings_lib \<Rightarrow> 'm cstmt" where
  "bench_strings_trim_space L =
     (let s = cstr (''  '' @ [CHR 0x09, CHR 0x0A] @ ''  some text with spaces around it  ''
            @ [CHR 0x09, CHR 0x0A] @ ''  '') in
     bench_loop (\<lambda>_. calling (strings_trim_space L s) keep))"

section \<open>Building\<close>

text \<open>
  The rows of this section work in an arena, named by its address; those that allocate in the loop
  reset it at the end of every iteration.
\<close>

definition strings_arena :: "'m host \<Rightarrow> 'm arena_lib \<Rightarrow> (nat \<Rightarrow> 'm cstmt) \<Rightarrow> 'm cstmt" where
  "strings_arena h A body = (let ar = addr h ''strings.ar'' in block [
     calling (arena_init A ar) (\<lambda>_. Some), body ar, calling (arena_free A ar) (\<lambda>_. Some)])"

definition fields_input :: string where
  "fields_input = ''the quick brown fox jumps over the lazy dog, and then again, the quick brown ''
     @ ''fox jumps over the lazy dog once more before going home for the night''"

definition bench_strings_fields :: "'m host \<Rightarrow> 'm arena_lib \<Rightarrow> 'm strings_lib \<Rightarrow> 'm cstmt" where
  "bench_strings_fields h A L = strings_arena h A (\<lambda>a. let s = cstr fields_input in
     resetting A a (calling (strings_fields L a s) keep))"

definition bench_strings_split_single_byte :: "'m host \<Rightarrow> 'm arena_lib \<Rightarrow> 'm strings_lib \<Rightarrow> 'm cstmt" where
  "bench_strings_split_single_byte h A L = strings_arena h A (\<lambda>a. let s = cstr fields_input; sep = cstr '' '' in
     resetting A a (calling (strings_split L a s sep) keep))"

text \<open>\<open>count_piece\<close>, called for each piece with the counter of the round; it always goes on.\<close>

fun count_piece :: "string list \<Rightarrow> int \<Rightarrow> (int \<Rightarrow> 'm cstmt) \<Rightarrow> 'm cstmt" where
  "count_piece [] n k = k n"
| "count_piece (v # vs) n k = checked (add64 n 1) (\<lambda>n. count_piece vs n k)"

definition bench_strings_split_seq_single_byte ::
  "'m host \<Rightarrow> 'm arena_lib \<Rightarrow> 'm strings_lib \<Rightarrow> 'm cstmt" where
  "bench_strings_split_seq_single_byte h A L = strings_arena h A (\<lambda>a.
     let s = cstr fields_input; sep = cstr '' '' in
     resetting A a (calling (strings_split_seq L a s sep) (\<lambda>ps.
       count_piece ps 0 (\<lambda>n. keep_u64 (of_int n)))))"

definition bench_strings_join :: "'m host \<Rightarrow> 'm arena_lib \<Rightarrow> 'm strings_lib \<Rightarrow> 'm cstmt" where
  "bench_strings_join h A L = strings_arena h A (\<lambda>a.
     let elems = replicate 16 (cstr ''element''); sep = cstr '', '' in
     resetting A a (calling (strings_join L a elems sep) keep))"

definition bench_strings_repeat :: "'m host \<Rightarrow> 'm arena_lib \<Rightarrow> 'm strings_lib \<Rightarrow> 'm cstmt" where
  "bench_strings_repeat h A L = strings_arena h A (\<lambda>a. let s = cstr ''-'' in
     bench_loop (\<lambda>_. calling (strings_repeat L a s 80) (\<lambda>r. keep (fst r))))"

definition bench_strings_to_upper :: "'m host \<Rightarrow> 'm arena_lib \<Rightarrow> 'm strings_lib \<Rightarrow> 'm cstmt" where
  "bench_strings_to_upper h A L = strings_arena h A (\<lambda>a.
     let s = cstr ''the quick brown fox jumps over the lazy dog'' in
     resetting A a (calling (strings_to_upper L a s) keep))"

definition bench_strings_to_upper_unchanged :: "'m host \<Rightarrow> 'm arena_lib \<Rightarrow> 'm strings_lib \<Rightarrow> 'm cstmt" where
  "bench_strings_to_upper_unchanged h A L = strings_arena h A (\<lambda>a.
     let s = cstr ''THE QUICK BROWN FOX JUMPS OVER THE LAZY DOG'' in
     bench_loop (\<lambda>_. calling (strings_to_upper L a s) keep))"

definition bench_strings_replace_all :: "'m host \<Rightarrow> 'm arena_lib \<Rightarrow> 'm strings_lib \<Rightarrow> 'm cstmt" where
  "bench_strings_replace_all h A L = strings_arena h A (\<lambda>a.
     let s = cstr ''banana banana banana banana banana banana banana banana'';
         old = cstr ''a''; repl = cstr ''<>'' in
     resetting A a (calling (strings_replace_all L a s old repl) keep))"

definition bench_strings_builder :: "'m host \<Rightarrow> 'm arena_lib \<Rightarrow> 'm strings_lib \<Rightarrow> 'm cstmt" where
  "bench_strings_builder h A L = strings_arena h A (\<lambda>a. let piece = cstr ''some string '' in
     resetting A a (block [
       calling (builder_init L a) (\<lambda>_. Some),
       repeat_for 16 (\<lambda>_. calling (builder_write_string L piece) (\<lambda>_. Some)),
       calling (builder_string L) keep]))"

section \<open>Replacers\<close>

definition html_pairs :: "string list" where
  "html_pairs = [''&'', ''&amp;'', ''<'', ''&lt;'', ''>'', ''&gt;'', [CHR 0x22], ''&quot;'', [CHR 0x27], ''&apos;'']"

definition unescape_pairs :: "string list" where
  "unescape_pairs = [''&amp;'', ''&'', ''&lt;'', ''<'', ''&gt;'', ''>'', ''&quot;'', [CHR 0x22], ''&apos;'', [CHR 0x27]]"

definition run_replacer ::
  "'m host \<Rightarrow> 'm arena_lib \<Rightarrow> 'm strings_lib \<Rightarrow> string list \<Rightarrow> nat \<Rightarrow> string \<Rightarrow> 'm cstmt" where
  "run_replacer h A L pairs n s = (let ar = addr h ''replacer.ar''; kp = addr h ''replacer.keep'' in block [
     calling (arena_init A ar) (\<lambda>_. Some),
     calling (arena_init A kp) (\<lambda>_. Some),
     calling (strings_new_replacer L kp (take n pairs)) (\<lambda>r. block [
       calling (strings_replacer_replace L r ar s) (\<lambda>_. Some),
       calling (arena_reset A ar) (\<lambda>_. Some),
       resetting A ar (calling (strings_replacer_replace L r ar s) keep),
       calling (arena_free A ar) (\<lambda>_. Some),
       calling (arena_free A kp) (\<lambda>_. Some)])])"

definition bench_strings_html_escape :: "'m host \<Rightarrow> 'm arena_lib \<Rightarrow> 'm strings_lib \<Rightarrow> 'm cstmt" where
  "bench_strings_html_escape h A L =
     run_replacer h A L html_pairs 10 (cstr ''I <3 to escape HTML & other text too.'')"

definition bench_strings_generic_match2 :: "'m host \<Rightarrow> 'm arena_lib \<Rightarrow> 'm strings_lib \<Rightarrow> 'm cstmt" where
  "bench_strings_generic_match2 h A L = strings_arena h A (\<lambda>a.
     calling (strings_repeat L a (cstr ''It&apos;s &lt;b&gt;HTML&lt;/b&gt;!'') 100) (\<lambda>s.
       run_replacer h A L unescape_pairs 10 (snd s)))"

definition bench_strings_single_match :: "'m host \<Rightarrow> 'm arena_lib \<Rightarrow> 'm strings_lib \<Rightarrow> 'm cstmt" where
  "bench_strings_single_match h A L = strings_arena h A (\<lambda>a.
     calling (strings_repeat L a (cstr ''abcdefghijklmno'') 1000) (\<lambda>s.
       run_replacer h A L [''abcdef'', ''[match]''] 2 (snd s)))"

definition strings_table :: "'m host \<Rightarrow> 'm arena_lib \<Rightarrow> 'm strings_lib \<Rightarrow> (string \<times> 'm cstmt) list" where
  "strings_table h A L = [
     (''strings_index_hard1'', bench_strings_index_hard1 L),
     (''strings_index_hard2'', bench_strings_index_hard2 L),
     (''strings_index_hard3'', bench_strings_index_hard3 L),
     (''strings_last_index_hard2'', bench_strings_last_index_hard2 L),
     (''strings_count_hard2'', bench_strings_count_hard2 L),
     (''strings_index'', bench_strings_index L),
     (''strings_index_rune'', bench_strings_index_rune L),
     (''strings_index_any_ascii'', bench_strings_index_any_ascii L),
     (''strings_equal_fold'', bench_strings_equal_fold L),
     (''strings_trim_space'', bench_strings_trim_space L),
     (''strings_fields'', bench_strings_fields h A L),
     (''strings_split_single_byte'', bench_strings_split_single_byte h A L),
     (''strings_split_seq_single_byte'', bench_strings_split_seq_single_byte h A L),
     (''strings_join'', bench_strings_join h A L),
     (''strings_repeat'', bench_strings_repeat h A L),
     (''strings_to_upper'', bench_strings_to_upper h A L),
     (''strings_to_upper_unchanged'', bench_strings_to_upper_unchanged h A L),
     (''strings_replace_all'', bench_strings_replace_all h A L),
     (''strings_builder'', bench_strings_builder h A L),
     (''strings_html_escape'', bench_strings_html_escape h A L),
     (''strings_generic_match2'', bench_strings_generic_match2 h A L),
     (''strings_single_match'', bench_strings_single_match h A L)]"

section \<open>The contract\<close>

lemma strings_parts_move [contract_rules]:
  "does (advances clock) (build_hard L)" "does (advances clock) (index_hard L sep)"
  "(\<And>a. does (advances clock) (body a)) \<Longrightarrow> does (advances clock) (strings_arena h A body)"
  "does (advances clock) f \<Longrightarrow> does (advances clock) (resetting A a f)"
  "does (advances clock) (run_replacer h A L ps n s)"
  unfolding build_hard_def index_hard_def strings_arena_def resetting_def run_replacer_def Let_def
  by (intro contract_rules; assumption?)+

lemma count_piece_moves [contract_rules]:
  "(\<And>n. does (advances clock) (k n)) \<Longrightarrow> does (advances clock) (count_piece vs n k)"
  by (induction vs n k rule: count_piece.induct) (auto intro!: contract_rules)

lemmas strings_bodies = bench_strings_index_hard1_def bench_strings_index_hard2_def
  bench_strings_index_hard3_def bench_strings_last_index_hard2_def bench_strings_count_hard2_def
  bench_strings_index_def bench_strings_index_rune_def bench_strings_index_any_ascii_def
  bench_strings_equal_fold_def bench_strings_trim_space_def bench_strings_fields_def
  bench_strings_split_single_byte_def bench_strings_split_seq_single_byte_def bench_strings_join_def
  bench_strings_repeat_def bench_strings_to_upper_def bench_strings_to_upper_unchanged_def
  bench_strings_replace_all_def bench_strings_builder_def bench_strings_html_escape_def
  bench_strings_generic_match2_def bench_strings_single_match_def

lemma strings_table_moves: "(nm, f) \<in> set (strings_table h A L) \<Longrightarrow> does (advances clock) f"
  by (auto simp: strings_table_def strings_bodies Let_def intro!: contract_rules simp del: block.simps)

section \<open>What the hard input is\<close>

lemma build_tokens_spec:
  "n \<le> HARD_LEN - 1 \<Longrightarrow> \<exists>ts. set ts \<subseteq> set tokens \<and> build_tokens r n = concat ts
     \<and> n + length (concat ts) < HARD_LEN \<and> HARD_LEN \<le> n + length (concat ts) + 9"
proof (induction r n rule: build_tokens.induct)
  case (1 r n)
  let ?r = "xorshift r"
  let ?t = "token_of ?r"
  have t: "?t \<in> set tokens" "length ?t \<le> 9" "3 \<le> length ?t"
    using token_of_in [of ?r] token_lengths by auto
  show ?case
  proof (cases "HARD_LEN \<le> n + length ?t")
    case True
    with 1(2) t show ?thesis
      by (subst build_tokens.simps) (auto simp: Let_def HARD_LEN_def intro!: exI [of _ "[]"])
  next
    case False
    then have "n + length ?t \<le> HARD_LEN - 1" by simp
    from 1(1) [OF refl refl False this] obtain ts where ts: "set ts \<subseteq> set tokens"
      "build_tokens ?r (n + length ?t) = concat ts"
      "n + length ?t + length (concat ts) < HARD_LEN" "HARD_LEN \<le> n + length ?t + length (concat ts) + 9"
      by blast
    then have "build_tokens r n = concat (?t # ts)"
      using False by (subst build_tokens.simps) (simp add: Let_def)
    moreover have "set (?t # ts) \<subseteq> set tokens" using ts(1) t(1) by simp
    moreover have "n + length (concat (?t # ts)) < HARD_LEN" "HARD_LEN \<le> n + length (concat (?t # ts)) + 9"
      using ts(3,4) by simp_all
    ultimately show ?thesis by blast
  qed
qed

text \<open>
  C21. Termination: the endless loop that builds the hard input ends, inside its buffer. With the
  memory it asks for, \<open>build_hard\<close> returns and leaves a string of whole tokens that is shorter
  than the megabyte it allocated by at most nine bytes, the longest token.
\<close>
theorem build_hard_fills:
  assumes "hard (rest w) = []" and "fst (malloc_hard L HARD_LEN (machine (rest w))) \<noteq> 0"
  shows "\<exists>w' ts. build_hard L w = Some w' \<and> kept w' = kept w \<and> set ts \<subseteq> set tokens
    \<and> hard (rest w') = concat ts \<and> length (hard (rest w')) < HARD_LEN
    \<and> HARD_LEN \<le> length (hard (rest w')) + 9"
proof -
  obtain ts where "set ts \<subseteq> set tokens" "hard_text = concat ts" "length (concat ts) < HARD_LEN"
    "HARD_LEN \<le> length (concat ts) + 9"
    using build_tokens_spec [of 0 99] unfolding hard_text_def by auto
  with assms show ?thesis
    by (auto simp: build_hard_def stmt_simps hard_def [of "p\<lparr>str_array := f\<rparr>" for p f])
qed

definition strings_world :: "int \<Rightarrow> unit process world" where
  "strings_world n = \<lparr>bch = zero_bench\<lparr>b_n := n\<rparr>, kept = [], rest = \<lparr>clock = 0, int_var = (\<lambda>x. 0),
     u64_var = (\<lambda>x. 0), dbl_var = (\<lambda>x. 0), int_array = (\<lambda>x. []), str_array = (\<lambda>x. []), machine = ()\<rparr>\<rparr>"

definition silent_strings :: "unit strings_lib" where
  "silent_strings = \<lparr>malloc_hard = (\<lambda>n m. (64, 1, m)), strings_index = (\<lambda>s t m. (-1, 1, m)),
     strings_last_index = (\<lambda>s t m. (-1, 1, m)), strings_count = (\<lambda>s t m. (0, 1, m)),
     strings_index_rune = (\<lambda>s r m. (14, 1, m)), strings_index_any = (\<lambda>s t m. (63, 1, m)),
     strings_equal_fold = (\<lambda>s t m. (True, 1, m)), strings_trim_space = (\<lambda>s m. (8, 1, m)),
     strings_fields = (\<lambda>a s m. (8, 1, m)), strings_split = (\<lambda>a s t m. (8, 1, m)),
     strings_split_seq = (\<lambda>a s t m. ([s], 1, m)), strings_join = (\<lambda>a ss t m. (8, 1, m)),
     strings_repeat = (\<lambda>a s n m. ((8, concat (replicate n s)), 1, m)), strings_to_upper = (\<lambda>a s m. (8, 1, m)),
     strings_replace_all = (\<lambda>a s t u m. (8, 1, m)), builder_init = (\<lambda>a m. ((), 1, m)),
     builder_write_string = (\<lambda>s m. ((), 1, m)), builder_string = (\<lambda>m. (8, 1, m)),
     strings_new_replacer = (\<lambda>a ps m. (16, 1, m)), strings_replacer_replace = (\<lambda>r a s m. (8, 1, m))\<rparr>"

theorem build_hard_fills_witness:
  "\<exists>w'. build_hard silent_strings (strings_world 1) = Some w' \<and> HARD_LEN \<le> length (hard (rest w')) + 9"
  using build_hard_fills [of "strings_world 1" silent_strings]
  by (auto simp: strings_world_def silent_strings_def hard_def)

end
