(* ===== verification/Interleave.thy ===== *)
theory Interleave
  imports Answers
begin

text \<open>
  Two threads of control over one process. A thread is a program counter and a function that makes
  its next step, \<open>None\<close> while it is blocked; one step is one operation on something the two share. A
  schedule says whose turn it is; when that one is blocked the other moves. The main thread ends the
  run when it is done, and a run in which both are blocked before that never comes back.
\<close>

type_synonym ('p, 'w) thread = "'p \<Rightarrow> 'w \<Rightarrow> ('p \<times> 'w) option"

definition main_move :: "('p, 'w) thread \<Rightarrow> 'p \<times> 'q \<times> 'w \<Rightarrow> ('p \<times> 'q \<times> 'w) option" where
  "main_move f = (\<lambda>(p, q, w). do { (p, w) \<leftarrow> f p w; Some (p, q, w) })"

definition other_move :: "('q, 'w) thread \<Rightarrow> 'p \<times> 'q \<times> 'w \<Rightarrow> ('p \<times> 'q \<times> 'w) option" where
  "other_move g = (\<lambda>(p, q, w). do { (q, w) \<leftarrow> g q w; Some (p, q, w) })"

definition move_of :: "('p, 'w) thread \<Rightarrow> ('q, 'w) thread \<Rightarrow> bool \<Rightarrow> 'p \<times> 'q \<times> 'w \<Rightarrow> ('p \<times> 'q \<times> 'w) option" where
  "move_of f g b s = (if b then main_move f s else other_move g s)"

definition turn :: "bool \<Rightarrow> ('p, 'w) thread \<Rightarrow> ('q, 'w) thread \<Rightarrow> 'p \<times> 'q \<times> 'w \<Rightarrow> ('p \<times> 'q \<times> 'w) option" where
  "turn b f g s = (case move_of f g b s of Some t \<Rightarrow> Some t | None \<Rightarrow> move_of f g (\<not> b) s)"

partial_function (option) interleave ::
  "(nat \<Rightarrow> bool) \<Rightarrow> ('p, 'w) thread \<Rightarrow> ('q, 'w) thread \<Rightarrow> ('p \<Rightarrow> bool) \<Rightarrow> nat \<Rightarrow> 'p \<times> 'q \<times> 'w
     \<Rightarrow> ('p \<times> 'q \<times> 'w) option" where
  "interleave sc f g fin k s =
     (if fin (fst s) then Some s else do { s \<leftarrow> turn (sc k) f g s; interleave sc f g fin (k + 1) s })"

definition together ::
  "(nat \<Rightarrow> bool) \<Rightarrow> ('p, 'w) thread \<Rightarrow> ('q, 'w) thread \<Rightarrow> ('p \<Rightarrow> bool) \<Rightarrow> 'p \<Rightarrow> 'q \<Rightarrow> 'w \<Rightarrow> 'w option" where
  "together sc f g fin p q w = do { s \<leftarrow> interleave sc f g fin 0 (p, q, w); Some (snd (snd s)) }"

text \<open>A step that is a statement.\<close>

definition moves_to :: "'p \<Rightarrow> ('w \<Rightarrow> 'w option) \<Rightarrow> 'w \<Rightarrow> ('p \<times> 'w) option" where
  "moves_to p s w = do { w \<leftarrow> s w; Some (p, w) }"

lemma moves_to_advances: "does (advances clock) s \<Longrightarrow> moves_to p s w = Some (q, w') \<Longrightarrow> advances clock w w'"
  by (auto simp: moves_to_def bind_eq_Some_conv dest: doesD)

lemma called_step: "moves_to p (call_op f) w = Some (p, snd (call (lib f) w))"
  by (simp add: moves_to_def calling_def split_beta)

lemma set_step:
  "moves_to p (set_int x v) w = Some (p, perform (\<lambda>l. l\<lparr>int_var := (int_var l)(x := v)\<rparr>) w)"
  "moves_to p (set_u64 x u) w = Some (p, perform (\<lambda>l. l\<lparr>u64_var := (u64_var l)(x := u)\<rparr>) w)"
  by (simp_all add: moves_to_def set_int_def set_u64_def assign_def)

text \<open>A step that may block: what it leaves, and what that leaves of the process.\<close>

definition left_by :: "('a, 'm) blocking_op \<Rightarrow> 'm \<Rightarrow> 'm" where
  "left_by f m = (case f m of None \<Rightarrow> m | Some (_, _, m') \<Rightarrow> m')"

definition passed :: "('a, 'm) blocking_op \<Rightarrow> 'm process world \<Rightarrow> 'm process world" where
  "passed f w = (case f (machine (rest w)) of None \<Rightarrow> w | Some r \<Rightarrow> snd (call (lib (\<lambda>_. r)) w))"

lemma passed_step:
  "moves_to p (blocking f (\<lambda>_. Some)) w = (if f (machine (rest w)) = None then None else Some (p, passed f w))"
  by (cases "f (machine (rest w))") (simp_all add: moves_to_def blocking_def passed_def calling_def split_beta)

lemma passed_sel [simp]:
  "machine (rest (passed f w)) = left_by f (machine (rest w))" "kept (passed f w) = kept w" "bch (passed f w) = bch w"
  "int_var (rest (passed f w)) = int_var (rest w)" "u64_var (rest (passed f w)) = u64_var (rest w)"
  by (cases "f (machine (rest w))"; simp add: passed_def left_by_def split_beta)+

section \<open>What every step keeps\<close>

lemma turn_cases:
  assumes "turn b f g s = Some t"
  obtains "main_move f s = Some t" | "other_move g s = Some t"
  using assms by (auto simp: turn_def move_of_def split: option.splits if_splits)

lemma interleave_keeps:
  assumes "interleave sc f g fin k s = Some t" and "P s"
    and "\<And>u v. P u \<Longrightarrow> main_move f u = Some v \<Longrightarrow> P v" and "\<And>u v. P u \<Longrightarrow> other_move g u = Some v \<Longrightarrow> P v"
  shows "P t \<and> fin (fst t)"
proof -
  let ?P = "\<lambda>sc' f' g' fin' k s t. f' = f \<longrightarrow> g' = g \<longrightarrow> fin' = fin \<longrightarrow> P s \<longrightarrow> P t \<and> fin (fst t)"
  have "?P sc f g fin k s t"
  proof (rule interleave.raw_induct [OF _ assms(1), where P = ?P])
    fix rec sc' and f' :: "('a, 'c) thread" and g' :: "('b, 'c) thread" and fin' k s t
    assume IH: "\<And>sc' f' g' fin' k s t. rec sc' f' g' fin' k s = Some t \<Longrightarrow> ?P sc' f' g' fin' k s t"
      and eq: "(if fin' (fst s) then Some s
        else turn (sc' k) f' g' s \<bind> rec sc' f' g' fin' (k + 1)) = Some t"
    show "?P sc' f' g' fin' k s t"
    proof (intro impI)
      assume same: "f' = f" "g' = g" "fin' = fin" and s: "P s"
      show "P t \<and> fin (fst t)"
      proof (cases "fin (fst s)")
        case True
        with eq same s show ?thesis by simp
      next
        case False
        with eq same obtain u where u: "turn (sc' k) f g s = Some u" "rec sc' f g fin (k + 1) u = Some t"
          by (auto simp: bind_eq_Some_conv)
        from u(1) assms(3,4) s have "P u" by (elim turn_cases) blast+
        with IH [OF u(2)] show ?thesis by simp
      qed
    qed
  qed
  with assms(2) show ?thesis by blast
qed

lemma together_moves [contract_rules]:
  fixes f :: "('p, 'm process world) thread" and g :: "('q, 'm process world) thread"
  assumes "\<And>p w p' w'. f p w = Some (p', w') \<Longrightarrow> advances clock w w'"
    and "\<And>q w q' w'. g q w = Some (q', w') \<Longrightarrow> advances clock w w'"
  shows "does (advances clock) (together sc f g fin p q)"
proof (rule doesI)
  fix w w' :: "'m process world" assume "together sc f g fin p q w = Some w'"
  then obtain s where s: "interleave sc f g fin 0 (p, q, w) = Some s" "w' = snd (snd s)"
    by (auto simp: together_def bind_eq_Some_conv)
  have "advances clock w (snd (snd s)) \<and> fin (fst s)"
  proof (rule interleave_keeps [OF s(1), where P = "\<lambda>s. advances clock w (snd (snd s))"])
    fix u v :: "'p \<times> 'q \<times> 'm process world" assume u: "advances clock w (snd (snd u))"
    { assume "main_move f u = Some v"
      then have "advances clock (snd (snd u)) (snd (snd v))"
        using assms(1) by (cases u) (auto simp: main_move_def bind_eq_Some_conv)
      with u show "advances clock w (snd (snd v))" by (rule advances_trans) }
    { assume "other_move g u = Some v"
      then have "advances clock (snd (snd u)) (snd (snd v))"
        using assms(2) by (cases u) (auto simp: other_move_def bind_eq_Some_conv)
      with u show "advances clock w (snd (snd v))" by (rule advances_trans) }
  qed (simp add: moving.R_refl)
  with s(2) show "advances clock w w'" by simp
qed

section \<open>Runs that end\<close>

text \<open>
  Under a schedule that neglects neither thread a run ends when, in every state that is not final,
  one of the two, \<open>mover\<close>, can make a step that lowers the rank, and a step of the other either
  lowers it too or changes neither the rank nor the mover. Waiting loops are steps of the second kind.
\<close>

definition fair :: "(nat \<Rightarrow> bool) \<Rightarrow> bool" where
  "fair sc \<longleftrightarrow> (\<forall>k b. \<exists>j. sc (k + j) = b)"

definition lively :: "('p, 'w) thread \<Rightarrow> ('q, 'w) thread \<Rightarrow> ('p \<Rightarrow> bool) \<Rightarrow> ('p \<times> 'q \<times> 'w \<Rightarrow> bool)
    \<Rightarrow> ('p \<times> 'q \<times> 'w \<Rightarrow> nat) \<Rightarrow> ('p \<times> 'q \<times> 'w \<Rightarrow> bool) \<Rightarrow> bool" where
  "lively f g fin J rank mover \<longleftrightarrow> (\<forall>s. J s \<longrightarrow> \<not> fin (fst s) \<longrightarrow>
     (\<exists>t. move_of f g (mover s) s = Some t \<and> J t \<and> rank t < rank s)
     \<and> (\<forall>t. move_of f g (\<not> mover s) s = Some t \<longrightarrow>
          J t \<and> (rank t < rank s \<or> rank t = rank s \<and> mover t = mover s \<and> \<not> fin (fst t))))"

lemma livelyD:
  assumes "lively f g fin J rank mover" and "J s" and "\<not> fin (fst s)"
  shows "\<exists>t. move_of f g (mover s) s = Some t \<and> J t \<and> rank t < rank s"
    and "move_of f g (\<not> mover s) s = Some u \<Longrightarrow>
      J u \<and> (rank u < rank s \<or> rank u = rank s \<and> mover u = mover s \<and> \<not> fin (fst u))"
  using assms unfolding lively_def by blast+

lemma interleave_total:
  assumes "fair sc" and "lively f g fin J rank mover" and "J s"
  shows "\<exists>t. interleave sc f g fin k s = Some t \<and> J t \<and> fin (fst t)"
  using assms(3)
proof (induction "rank s" arbitrary: s k rule: less_induct)
  case less
  have waits: "\<exists>t. interleave sc f g fin k u = Some t \<and> J t \<and> fin (fst t)"
    if "sc (k + j) = mover u" "J u" "rank u = rank s" "\<not> fin (fst u)" for j k u
    using that
  proof (induction j arbitrary: k u)
    case (0 k u)
    obtain t where t: "move_of f g (mover u) u = Some t" "J t" "rank t < rank u"
      using livelyD(1) [OF assms(2) 0(2,4)] by blast
    then have "interleave sc f g fin k u = interleave sc f g fin (k + 1) t"
      using 0 by (subst interleave.simps) (simp add: turn_def)
    with less.hyps [of t "k + 1"] t 0(3) show ?case by simp
  next
    case (Suc j k u)
    obtain t where t: "move_of f g (mover u) u = Some t" "J t" "rank t < rank u"
      using livelyD(1) [OF assms(2) Suc.prems(2,4)] by blast
    note other = livelyD(2) [OF assms(2) Suc.prems(2,4)]
    obtain v where v: "turn (sc k) f g u = Some v" "v = t \<or> move_of f g (\<not> mover u) u = Some v"
    proof (cases "sc k = mover u")
      case True
      with t(1) have "turn (sc k) f g u = Some t" by (simp add: turn_def)
      then show ?thesis by (rule that) simp
    next
      case False
      then have "sc k = (\<not> mover u)" by blast
      with t(1) have "turn (sc k) f g u = (case move_of f g (\<not> mover u) u of Some v \<Rightarrow> Some v | None \<Rightarrow> Some t)"
        by (simp add: turn_def split: option.splits)
      then show ?thesis by (cases "move_of f g (\<not> mover u) u") (simp_all add: that)
    qed
    have step: "interleave sc f g fin k u = interleave sc f g fin (k + 1) v"
      using Suc.prems(4) v(1) by (subst interleave.simps) simp
    have "J v \<and> (rank v < rank u \<or> rank v = rank u \<and> mover v = mover u \<and> \<not> fin (fst v))"
    proof (cases "v = t")
      case False
      with v(2) show ?thesis using other by blast
    qed (use t in simp)
    then have "J v" "rank v < rank u \<or> rank v = rank u \<and> mover v = mover u \<and> \<not> fin (fst v)" by blast+
    then show ?case
    proof (elim disjE conjE)
      assume "rank v < rank u"
      with less.hyps [of v "k + 1"] \<open>J v\<close> Suc.prems(3) step show ?thesis by simp
    next
      assume same: "rank v = rank u" "mover v = mover u" "\<not> fin (fst v)"
      with Suc.IH [of "k + 1" v] Suc.prems(1,3) \<open>J v\<close> step show ?thesis by simp
    qed
  qed
  show ?case
  proof (cases "fin (fst s)")
    case True
    with less.prems show ?thesis by (subst interleave.simps) simp
  next
    case False
    obtain j where "sc (k + j) = mover s" using assms(1) unfolding fair_def by blast
    from waits [OF this less.prems refl False] show ?thesis .
  qed
qed

lemma together_total:
  assumes "fair sc" and "lively f g fin J rank mover" and "J (p, q, w)"
  shows "\<exists>w' p' q'. together sc f g fin p q w = Some w' \<and> J (p', q', w') \<and> fin p'"
proof -
  obtain t where "interleave sc f g fin 0 (p, q, w) = Some t" "J t" "fin (fst t)"
    using interleave_total [OF assms, of 0] by blast
  then show ?thesis by (cases t) (auto simp: together_def)
qed

text \<open>
  The usual case: the main thread is \<open>busy\<close> when it can make a step that lowers the rank. When it is not,
  it is blocked or spins, and then the other thread can move; every step of the other one lowers the rank.
\<close>

lemma lively_if_waiting:
  fixes f :: "('p, 'w) thread" and g :: "('q, 'w) thread"
  assumes "\<And>p q w. J (p, q, w) \<Longrightarrow> \<not> fin p \<Longrightarrow> busy (p, q, w) \<Longrightarrow>
      \<exists>p' w'. f p w = Some (p', w') \<and> J (p', q, w') \<and> rank (p', q, w') < rank (p, q, w)"
    and "\<And>p q w p' w'. J (p, q, w) \<Longrightarrow> \<not> fin p \<Longrightarrow> \<not> busy (p, q, w) \<Longrightarrow> f p w = Some (p', w') \<Longrightarrow>
      J (p', q, w') \<and> rank (p', q, w') = rank (p, q, w) \<and> \<not> busy (p', q, w') \<and> \<not> fin p'"
    and "\<And>p q w q' w'. J (p, q, w) \<Longrightarrow> \<not> fin p \<Longrightarrow> g q w = Some (q', w') \<Longrightarrow>
      J (p, q', w') \<and> rank (p, q', w') < rank (p, q, w)"
    and "\<And>p q w. J (p, q, w) \<Longrightarrow> \<not> fin p \<Longrightarrow> \<not> busy (p, q, w) \<Longrightarrow> g q w \<noteq> None"
  shows "lively f g fin J rank busy"
  unfolding lively_def
proof (intro allI impI)
  fix s assume J: "J s" "\<not> fin (fst s)"
  obtain p q w where s: "s = (p, q, w)" by (cases s)
  have other: "J t \<and> rank t < rank s" if t: "other_move g s = Some t" for t
  proof -
    from t s obtain q' w' where "g q w = Some (q', w')" "t = (p, q', w')"
      by (auto simp: other_move_def bind_eq_Some_conv)
    with assms(3) [of p q w q' w'] J s show ?thesis by simp
  qed
  show "(\<exists>t. move_of f g (busy s) s = Some t \<and> J t \<and> rank t < rank s)
    \<and> (\<forall>t. move_of f g (\<not> busy s) s = Some t \<longrightarrow> J t
        \<and> (rank t < rank s \<or> rank t = rank s \<and> busy t = busy s \<and> \<not> fin (fst t)))"
  proof (cases "busy s")
    case True
    with assms(1) [of p q w] J s obtain p' w' where "f p w = Some (p', w')" "J (p', q, w')" "rank (p', q, w') < rank s"
      by auto
    then have "move_of f g True s = Some (p', q, w')" by (simp add: s move_of_def main_move_def)
    with True other \<open>J (p', q, w')\<close> \<open>rank (p', q, w') < rank s\<close> show ?thesis
      by (simp add: move_of_def)
  next
    case False
    with assms(4) [of p q w] J s obtain r where "g q w = Some r" by auto
    then obtain t where t: "other_move g s = Some t" by (cases r) (simp add: s other_move_def)
    have "J u \<and> rank u = rank s \<and> \<not> busy u \<and> \<not> fin (fst u)" if u: "main_move f s = Some u" for u
    proof -
      from u s obtain p' w' where "f p w = Some (p', w')" "u = (p', q, w')"
        by (auto simp: main_move_def bind_eq_Some_conv)
      with assms(2) [of p q w p' w'] J s False show ?thesis by simp
    qed
    with False t other [OF t] show ?thesis by (simp add: move_of_def)
  qed
qed

text \<open>Threads that do not spin: every step lowers the rank, and one of the two can always move.\<close>

lemma lively_if_lowering:
  fixes f :: "('p, 'w) thread" and g :: "('q, 'w) thread"
  assumes "\<And>p q w p' w'. J (p, q, w) \<Longrightarrow> \<not> fin p \<Longrightarrow> f p w = Some (p', w') \<Longrightarrow>
      J (p', q, w') \<and> rank (p', q, w') < rank (p, q, w)"
    and "\<And>p q w q' w'. J (p, q, w) \<Longrightarrow> \<not> fin p \<Longrightarrow> g q w = Some (q', w') \<Longrightarrow>
      J (p, q', w') \<and> rank (p, q', w') < rank (p, q, w)"
    and "\<And>p q w. J (p, q, w) \<Longrightarrow> \<not> fin p \<Longrightarrow> f p w \<noteq> None \<or> g q w \<noteq> None"
  shows "lively f g fin J rank (\<lambda>(p, q, w). f p w \<noteq> None)"
proof (rule lively_if_waiting)
  fix p q w assume s: "J (p, q, w)" "\<not> fin p"
  { assume "case (p, q, w) of (p, q, w) \<Rightarrow> f p w \<noteq> None"
    then obtain p' w' where "f p w = Some (p', w')" by auto
    with assms(1) [OF s this] show "\<exists>p' w'. f p w = Some (p', w') \<and> J (p', q, w') \<and> rank (p', q, w') < rank (p, q, w)"
      by blast }
  { fix p' w' assume "\<not> (case (p, q, w) of (p, q, w) \<Rightarrow> f p w \<noteq> None)" "f p w = Some (p', w')"
    then show "J (p', q, w') \<and> rank (p', q, w') = rank (p, q, w)
        \<and> \<not> (case (p', q, w') of (p, q, w) \<Rightarrow> f p w \<noteq> None) \<and> \<not> fin p'" by simp }
  { fix q' w' assume "g q w = Some (q', w')"
    from assms(2) [OF s this] show "J (p, q', w') \<and> rank (p, q', w') < rank (p, q, w)" . }
  { assume "\<not> (case (p, q, w) of (p, q, w) \<Rightarrow> f p w \<noteq> None)"
    with assms(3) [OF s] show "g q w \<noteq> None" by simp }
qed

lemma fair_alternation: "fair even"
  unfolding fair_def
proof (intro allI)
  fix k :: nat and b
  show "\<exists>j. even (k + j) = b" by (cases "even k = b") (auto intro: exI [of _ 0] exI [of _ 1])
qed

end
