(* ===== verification/Crowd.thy ===== *)
theory Crowd
  imports Interleave
begin

text \<open>
  A thread that is a crowd: several workers with the same code, each at a place of its own. Whenever the crowd
  moves, one worker moves; a number for every move says where the search for one that is not blocked starts, so that
  every order of the workers' steps is a run. The crowd is blocked when all of its workers are.
\<close>

fun first_move :: "('p, 'w) thread \<Rightarrow> 'p list \<Rightarrow> nat list \<Rightarrow> 'w \<Rightarrow> ('p list \<times> 'w) option" where
  "first_move f ps [] w = None"
| "first_move f ps (i # is) w = (case f (ps ! i) w of
     None \<Rightarrow> first_move f ps is w
   | Some (p, w) \<Rightarrow> Some (ps[i := p], w))"

definition crowd :: "(nat \<Rightarrow> nat) \<Rightarrow> ('p, 'w) thread \<Rightarrow> (nat \<times> 'p list, 'w) thread" where
  "crowd pick f = (\<lambda>(k, ps) w. do {
     (ps, w) \<leftarrow> first_move f ps (rotate (pick k) [0..<length ps]) w;
     Some ((k + 1, ps), w) })"

lemma first_move_Some:
  "first_move f ps is w = Some (ps', w') \<Longrightarrow> \<exists>i p. i \<in> set is \<and> f (ps ! i) w = Some (p, w') \<and> ps' = ps[i := p]"
  by (induction "is") (auto split: option.splits prod.splits)

lemma first_move_None: "first_move f ps is w = None \<Longrightarrow> i \<in> set is \<Longrightarrow> f (ps ! i) w = None"
  by (induction "is") (auto split: option.splits prod.splits)

text \<open>A move of the crowd is one of a worker, and a worker that can move keeps the crowd from being blocked.\<close>

lemma crowd_moves:
  assumes "crowd pick f (k, ps) w = Some (q, w')"
  obtains i p where "i < length ps" "f (ps ! i) w = Some (p, w')" "q = (k + 1, ps[i := p])"
proof -
  from assms obtain ps' where "first_move f ps (rotate (pick k) [0..<length ps]) w = Some (ps', w')" "q = (k + 1, ps')"
    by (auto simp: crowd_def bind_eq_Some_conv)
  with first_move_Some [OF this(1)] that show ?thesis by auto
qed

lemma crowd_not_blocked:
  assumes "i < length ps" and "f (ps ! i) w \<noteq> None"
  shows "crowd pick f (k, ps) w \<noteq> None"
proof
  assume "crowd pick f (k, ps) w = None"
  then have "first_move f ps (rotate (pick k) [0..<length ps]) w = None"
    by (cases "first_move f ps (rotate (pick k) [0..<length ps]) w") (auto simp: crowd_def)
  from first_move_None [OF this, of i] assms show False by simp
qed

lemma crowd_advances:
  assumes "\<And>p w p' w'. f p w = Some (p', w') \<Longrightarrow> advances clock w w'" and "crowd pick f q w = Some (q', w')"
  shows "advances clock w w'"
proof -
  obtain k ps where q: "q = (k, ps)" by (cases q)
  from assms(2) [unfolded q] show ?thesis by (rule crowd_moves) (rule assms(1))
qed

section \<open>Counting the workers\<close>

definition number :: "('p \<Rightarrow> bool) \<Rightarrow> 'p list \<Rightarrow> nat" where
  "number P ps = length (filter P ps)"

lemma number_move:
  "i < length ps \<Longrightarrow> number P (ps[i := p]) + (if P (ps ! i) then 1 else 0) = number P ps + (if P p then 1 else 0)"
proof (induction ps arbitrary: i)
  case (Cons a ps)
  then show ?case by (cases i) (auto simp: number_def)
qed simp

lemma number_at: "i < length ps \<Longrightarrow> P (ps ! i) \<Longrightarrow> 0 < number P ps"
  by (auto simp: number_def filter_empty_conv)

lemma number_some: "0 < number P ps \<Longrightarrow> \<exists>i < length ps. P (ps ! i)"
  by (auto simp: number_def filter_empty_conv in_set_conv_nth)

lemma number_le: "number P ps \<le> length ps"
  by (simp add: number_def)

lemma number_replicate: "number P (replicate k p) = (if P p then k else 0)"
  by (simp add: number_def)

lemma sum_move:
  fixes r :: "'p \<Rightarrow> nat"
  shows "i < length ps \<Longrightarrow> sum_list (map r (ps[i := p])) + r (ps ! i) = sum_list (map r ps) + r p"
proof (induction ps arbitrary: i)
  case (Cons a ps)
  then show ?case by (cases i) auto
qed simp

end
