(* ===== verification/Row_Logic.thy ===== *)
theory Row_Logic
  imports Answers Runtime_Lib
begin

text \<open>
  Triples for rows that depend on the state: \<open>triple P s g Q\<close> says that the statement \<open>s\<close> comes back from
  every state whose machine and integer variables are in \<open>P\<close>, that it hands \<open>g n\<close> to the sink for
  the count \<open>n\<close>, and that the machine and the integer variables are in \<open>Q\<close> afterwards. The timer and
  the clock are not in an assertion, so the timer operations keep every one. The rules follow the syntax.
\<close>

type_synonym 'm asrt = "'m \<Rightarrow> (string \<Rightarrow> int) \<Rightarrow> bool"

definition holds_in :: "'m asrt \<Rightarrow> 'm process world \<Rightarrow> bool" where
  "holds_in P w \<longleftrightarrow> P (machine (rest w)) (int_var (rest w))"

definition triple :: "'m asrt \<Rightarrow> 'm cstmt \<Rightarrow> (int \<Rightarrow> sunk list) \<Rightarrow> 'm asrt \<Rightarrow> bool" where
  "triple P s g Q \<longleftrightarrow> (\<forall>w. holds_in P w \<longrightarrow>
     (\<exists>w'. s w = Some w' \<and> kept w' = kept w @ g (b_n (bch w)) \<and> b_n (bch w') = b_n (bch w) \<and> holds_in Q w'))"

lemma rowI:
  assumes "\<And>w. P (machine (rest w)) (int_var (rest w)) \<Longrightarrow> \<exists>w'. s w = Some w' \<and> kept w' = kept w @ g (b_n (bch w))
    \<and> b_n (bch w') = b_n (bch w) \<and> Q (machine (rest w')) (int_var (rest w'))"
  shows "triple P s g Q"
  using assms by (simp add: triple_def holds_in_def)

lemma rowD:
  assumes "triple P s g Q" and "P (machine (rest w)) (int_var (rest w))"
  shows "\<exists>w'. s w = Some w' \<and> kept w' = kept w @ g (b_n (bch w)) \<and> b_n (bch w') = b_n (bch w)
    \<and> Q (machine (rest w')) (int_var (rest w'))"
  using assms by (simp add: triple_def holds_in_def)

named_theorems row_rules \<open>rules for the statements of a row\<close>

section \<open>Consequence\<close>

lemma row_conseq:
  fixes P :: "'m asrt"
  assumes "triple P s g Q" and "\<And>m v. P' m v \<Longrightarrow> P m v" and "\<And>m v. Q m v \<Longrightarrow> Q' m v" and "\<And>n. g n = g' n"
  shows "triple P' s g' Q'"
proof (rule rowI)
  fix w :: "'m process world" assume "P' (machine (rest w)) (int_var (rest w))"
  from rowD [OF assms(1) assms(2) [OF this]] assms(3,4)
  show "\<exists>w'. s w = Some w' \<and> kept w' = kept w @ g' (b_n (bch w)) \<and> b_n (bch w') = b_n (bch w)
    \<and> Q' (machine (rest w')) (int_var (rest w'))" by metis
qed

lemma row_pre: "triple P s g Q \<Longrightarrow> (\<And>m v. P' m v \<Longrightarrow> P m v) \<Longrightarrow> triple P' s g Q"
  by (erule row_conseq) simp_all

lemma row_post: "triple P s g Q \<Longrightarrow> (\<And>m v. Q m v \<Longrightarrow> Q' m v) \<Longrightarrow> triple P s g Q'"
  by (erule row_conseq) simp_all

lemma row_from: "(\<And>m v. P m v \<Longrightarrow> triple (\<lambda>m' v'. m' = m \<and> v' = v) s g Q) \<Longrightarrow> triple P s g Q"
  by (simp add: triple_def holds_in_def)

section \<open>Statements\<close>

lemma row_Some [row_rules]: "triple P Some (\<lambda>n. []) P"
  by (rule rowI) simp

lemma row_Cons:
  fixes P :: "'m asrt"
  assumes "triple P s g Q" and "triple Q (block ss) g' R"
  shows "triple P (block (s # ss)) (\<lambda>n. g n @ g' n) R"
proof (rule rowI)
  fix w :: "'m process world" assume "P (machine (rest w)) (int_var (rest w))"
  from rowD [OF assms(1) this] obtain u where u: "s w = Some u" "kept u = kept w @ g (b_n (bch w))"
    "b_n (bch u) = b_n (bch w)" "Q (machine (rest u)) (int_var (rest u))" by blast
  from rowD [OF assms(2) u(4)] u(1-3)
  show "\<exists>w'. block (s # ss) w = Some w' \<and> kept w' = kept w @ (g (b_n (bch w)) @ g' (b_n (bch w)))
    \<and> b_n (bch w') = b_n (bch w) \<and> R (machine (rest w')) (int_var (rest w'))" by auto
qed

text \<open>A statement that hands nothing over, before or after the rest.\<close>

lemma row_then: "triple P s (\<lambda>n. []) Q \<Longrightarrow> triple Q (block ss) g R \<Longrightarrow> triple P (block (s # ss)) g R"
  using row_Cons [of P s "\<lambda>n. []" Q ss g R] by simp

lemma row_last: "triple P s g Q \<Longrightarrow> triple Q (block ss) (\<lambda>n. []) R \<Longrightarrow> triple P (block (s # ss)) g R"
  using row_Cons [of P s g Q ss "\<lambda>n. []" R] by simp

lemma row_end: "triple P s g Q \<Longrightarrow> triple P (block [s]) g Q"
  by simp

lemma row_calling:
  fixes f :: "('a, 'm) op"
  assumes "\<And>m v. P m v \<Longrightarrow> R (fst (f m)) (snd (snd (f m))) v" and "\<And>r. triple (R r) (k r) g Q"
  shows "triple P (calling f k) g Q"
proof (rule rowI)
  fix w :: "'m process world" assume "P (machine (rest w)) (int_var (rest w))"
  then have "R (fst (f (machine (rest w)))) (machine (rest (snd (call (lib f) w)))) (int_var (rest (snd (call (lib f) w))))"
    using assms(1) by simp
  from rowD [OF assms(2) this] show "\<exists>w'. calling f k w = Some w' \<and> kept w' = kept w @ g (b_n (bch w)) \<and> b_n (bch w') = b_n (bch w)
    \<and> Q (machine (rest w')) (int_var (rest w'))" by (simp add: calling_def split_beta)
qed

lemma row_call_op: "(\<And>m v. P m v \<Longrightarrow> Q (snd (snd (f m))) v) \<Longrightarrow> triple P (calling f (\<lambda>_. Some)) (\<lambda>n. []) Q"
  by (rule row_calling [where R = "\<lambda>r. Q"]) (simp_all add: row_Some)

lemma row_keeps [row_rules]:
  "triple P (keep p) (\<lambda>n. [KeptPtr p]) P" "triple P (keep_u64 u) (\<lambda>n. [KeptU64 u]) P"
  "triple P (keep_int r) (\<lambda>n. [KeptU64 (of_int r)]) P" "triple P (keep_bool ok) (\<lambda>n. [KeptU64 (if ok then 1 else 0)]) P"
  by (rule rowI; simp add: keep_def keep_u64_def keep_int_def keep_bool_def)+

lemma row_timer:
  assumes "host_ok h"
  shows "triple P (pausing h) (\<lambda>n. []) P" "triple P (resuming h) (\<lambda>n. []) P"
  by (rule rowI, insert timer_stmt [OF assms], metis append_Nil2)+

lemma row_set_int: "(\<And>m v. P m v \<Longrightarrow> Q m (v(x := i))) \<Longrightarrow> triple P (set_int x i) (\<lambda>n. []) Q"
  by (rule rowI) (simp add: set_int_def assign_def)

lemma row_reading:
  "(\<And>i. triple (\<lambda>m v. P m v \<and> v x = i) (k i) g Q) \<Longrightarrow> triple P (reading (\<lambda>p. int_var p x) k) g Q"
  by (simp add: triple_def holds_in_def reading_def)

lemma row_reading_at:
  "(\<And>m v. P m v \<Longrightarrow> v x = i) \<Longrightarrow> triple P (k i) g Q \<Longrightarrow> triple P (reading (\<lambda>p. int_var p x) k) g Q"
  by (simp add: triple_def holds_in_def reading_def)

lemma row_reading_n: "(\<And>n. triple P (k n) (\<lambda>_. g n) Q) \<Longrightarrow> triple P (reading_n k) g Q"
  by (simp add: triple_def holds_in_def reading_n_def)

lemma row_checked: "e = Some x \<Longrightarrow> triple P (k x) g Q \<Longrightarrow> triple P (checked e k) g Q"
  by (simp add: triple_def checked_def)

lemma row_if: "(c \<Longrightarrow> triple P s g Q) \<Longrightarrow> (\<not> c \<Longrightarrow> triple P t g Q) \<Longrightarrow> triple P (if c then s else t) g Q"
  by simp

text \<open>A case that the assertion excludes.\<close>

lemma row_false: "(\<And>m v. \<not> P m v) \<Longrightarrow> triple P s g Q"
  by (simp add: triple_def holds_in_def)

section \<open>Loops\<close>

lemma row_loop:
  fixes I :: "nat \<Rightarrow> 'm asrt"
  assumes "\<And>j. triple (I j) (body (int j)) (\<lambda>n. g j) (I (Suc j))"
  shows "triple (I 0) (bench_loop body) (\<lambda>n. concat (map g [0..<nat n])) (\<lambda>m v. \<exists>j. I j m v)"
proof (rule rowI)
  fix w :: "'m process world" assume w: "I 0 (machine (rest w)) (int_var (rest w))"
  let ?J = "\<lambda>j v. I j (machine (rest v)) (int_var (rest v)) \<and> b_n (bch v) = b_n (bch w)"
  have "\<exists>v'. body (int j) v = Some v' \<and> kept v' = kept v @ g j \<and> ?J (Suc j) v'" if "?J j v" for j and v :: "'m process world"
    using rowD [OF assms, of j v] that by auto
  from loop_kept [where I = ?J and g = g and body = body, OF _ this] w
  show "\<exists>w'. bench_loop body w = Some w' \<and> kept w' = kept w @ concat (map g [0..<nat (b_n (bch w))])
    \<and> b_n (bch w') = b_n (bch w) \<and> (\<exists>j. I j (machine (rest w')) (int_var (rest w')))" by fast
qed

lemma row_loop_inv:
  assumes "\<And>i. triple I (body i) (\<lambda>n. [x]) I"
  shows "triple I (bench_loop body) (\<lambda>n. replicate (nat n) x) I"
  using row_loop [of "\<lambda>_. I" body "\<lambda>_. [x]", OF assms]
  by (rule row_conseq) (simp_all add: map_replicate_const concat_replicate_one)

lemma row_loop_none:
  assumes "\<And>i. triple I (body i) (\<lambda>n. []) I"
  shows "triple I (bench_loop body) (\<lambda>n. []) I"
  using row_loop [of "\<lambda>_. I" body "\<lambda>_. []", OF assms]
  by (rule row_conseq) (simp_all add: map_replicate_const)

lemma row_for:
  fixes I :: "nat \<Rightarrow> 'm asrt"
  assumes "\<And>j. j < k \<Longrightarrow> triple (I j) (body (int j)) (\<lambda>n. []) (I (Suc j))"
  shows "triple (I 0) (repeat_for k body) (\<lambda>n. []) (I k)"
proof (rule rowI)
  fix w :: "'m process world" assume w: "I 0 (machine (rest w)) (int_var (rest w))"
  let ?J = "\<lambda>j v. I j (machine (rest v)) (int_var (rest v)) \<and> b_n (bch v) = b_n (bch w) \<and> kept v = kept w"
  have "\<exists>w'. for_loop k 0 body w = Some w' \<and> ?J k w'"
  proof (rule for_loop_total)
    show "?J 0 w" using w by simp
    fix j and v :: "'m process world" assume "j < k" "?J j v"
    with rowD [OF assms, of j v] show "\<exists>v'. body (0 + int j) v = Some v' \<and> ?J (Suc j) v'" by auto
  qed
  then show "\<exists>w'. repeat_for k body w = Some w' \<and> kept w' = kept w @ [] \<and> b_n (bch w') = b_n (bch w)
    \<and> I k (machine (rest w')) (int_var (rest w'))" by (auto simp: repeat_for_def)
qed

lemma row_for_inv: "(\<And>i. triple I (body i) (\<lambda>n. []) I) \<Longrightarrow> triple I (repeat_for k body) (\<lambda>n. []) I"
  using row_for [where I = "\<lambda>_. I"] by blast

text \<open>A loop with no bound but a measure.\<close>

lemma row_while:
  fixes P :: "'m asrt" and size_left :: "'m \<Rightarrow> (string \<Rightarrow> int) \<Rightarrow> nat"
  assumes "\<And>z. triple (\<lambda>m v. P m v \<and> c v \<and> size_left m v = z) body (\<lambda>n. []) (\<lambda>m v. P m v \<and> size_left m v < z)"
  shows "triple P (while_loop (\<lambda>w. c (int_var (rest w))) body) (\<lambda>n. []) (\<lambda>m v. P m v \<and> \<not> c v)"
proof (rule rowI)
  fix w :: "'m process world" assume w: "P (machine (rest w)) (int_var (rest w))"
  let ?J = "\<lambda>v. P (machine (rest v)) (int_var (rest v)) \<and> b_n (bch v) = b_n (bch w) \<and> kept v = kept w"
  let ?z = "\<lambda>v :: 'm process world. size_left (machine (rest v)) (int_var (rest v))"
  have step: "\<exists>v'. body v = Some v' \<and> ?J v' \<and> ?z v' < ?z v" if "?J v" "c (int_var (rest v))" for v :: "'m process world"
  proof -
    from that have "P (machine (rest v)) (int_var (rest v)) \<and> c (int_var (rest v)) \<and> ?z v = ?z v" by blast
    from rowD [OF assms this] obtain u where u: "body v = Some u" "kept u = kept v @ []" "b_n (bch u) = b_n (bch v)"
      "P (machine (rest u)) (int_var (rest u)) \<and> ?z u < ?z v" by blast
    with that(1) have "?J u" by simp
    with u(1,4) show ?thesis by blast
  qed
  have "?J w" using w by simp
  then have "\<exists>w'. while_loop (\<lambda>w. c (int_var (rest w))) body w = Some w' \<and> ?J w' \<and> \<not> c (int_var (rest w'))"
    by (rule while_total) (rule step)
  then show "\<exists>w'. while_loop (\<lambda>w. c (int_var (rest w))) body w = Some w' \<and> kept w' = kept w @ [] \<and> b_n (bch w') = b_n (bch w)
    \<and> P (machine (rest w')) (int_var (rest w')) \<and> \<not> c (int_var (rest w'))" by auto
qed

text \<open>The rounds of a loop that may be left, when each of them keeps the assertion.\<close>

lemma row_loop_break:
  assumes "\<And>i w. P (machine (rest w)) (int_var (rest w)) \<Longrightarrow> \<exists>go w'. body i w = Some (go, w') \<and> kept w' = kept w
    \<and> b_n (bch w') = b_n (bch w) \<and> P (machine (rest w')) (int_var (rest w'))"
  shows "triple P (bench_loop_break body) (\<lambda>n. []) P"
proof (rule rowI)
  fix w :: "'a process world" assume w: "P (machine (rest w)) (int_var (rest w))"
  let ?J = "\<lambda>v. P (machine (rest v)) (int_var (rest v)) \<and> b_n (bch v) = b_n (bch w) \<and> kept v = kept w"
  have "\<exists>w'. for_break (nat (b_n (bch w))) 0 body w = Some w' \<and> ?J w'"
  proof (rule for_break_total)
    fix j and v :: "'a process world" assume "?J v"
    then show "\<exists>go v'. body j v = Some (go, v') \<and> ?J v'" using assms [of v j] by auto
  qed (use w in simp)
  then show "\<exists>w'. bench_loop_break body w = Some w' \<and> kept w' = kept w @ [] \<and> b_n (bch w') = b_n (bch w)
    \<and> P (machine (rest w')) (int_var (rest w'))" by (auto simp: bench_loop_break_def)
qed

section \<open>The runtime around a row\<close>

text \<open>\<open>look\<close> is a part of what burrow keeps that its runtime calls leave alone.\<close>

definition runtime_keeps :: "'m runtime_lib \<Rightarrow> ('m \<Rightarrow> 'a) \<Rightarrow> bool" where
  "runtime_keeps R look \<longleftrightarrow> (\<forall>m. look (snd (snd (runtime_start R m))) = look m)
     \<and> (\<forall>m. look (snd (snd (runtime_stop R m))) = look m) \<and> (\<forall>k m. look (snd (snd (gomaxprocs R k m))) = look m)"

lemma row_runtime:
  assumes "runtime_keeps R look" and "triple (\<lambda>m v. P (look m) v) s g (\<lambda>m v. Q (look m) v)"
  shows "triple (\<lambda>m v. P (look m) v) (runtime_main R s) g (\<lambda>m v. Q (look m) v)"
proof -
  have "triple (\<lambda>m v. P (look m) v) (call_op (runtime_start R)) (\<lambda>n. []) (\<lambda>m v. P (look m) v)"
    and "triple (\<lambda>m v. Q (look m) v) (block [call_op (runtime_stop R)]) (\<lambda>n. []) (\<lambda>m v. Q (look m) v)"
    unfolding block_single using assms(1) by (auto simp: runtime_keeps_def intro!: row_call_op)
  then show ?thesis unfolding runtime_main_def by (elim row_then row_last [OF assms(2)])
qed

lemma row_procs:
  assumes "runtime_keeps R look" and "triple (\<lambda>m v. P (look m) v) s g (\<lambda>m v. Q (look m) v)"
  shows "triple (\<lambda>m v. P (look m) v) (calling (gomaxprocs R k) (\<lambda>old. block [s, call_op (gomaxprocs R old)])) g
    (\<lambda>m v. Q (look m) v)"
proof (rule row_calling [where R = "\<lambda>_ m v. P (look m) v"])
  fix old
  have "triple (\<lambda>m v. Q (look m) v) (block [call_op (gomaxprocs R old)]) (\<lambda>n. []) (\<lambda>m v. Q (look m) v)"
    unfolding block_single using assms(1) by (auto simp: runtime_keeps_def intro!: row_call_op)
  then show "triple (\<lambda>m v. P (look m) v) (block [s, call_op (gomaxprocs R old)]) g (\<lambda>m v. Q (look m) v)"
    by (rule row_last [OF assms(2)])
qed (use assms(1) in \<open>simp add: runtime_keeps_def\<close>)

lemma row_blocking:
  fixes f :: "('a, 'm) blocking_op"
  assumes "\<And>m v. P m v \<Longrightarrow> \<exists>r d m'. f m = Some (r, d, m') \<and> R r m' v" and "\<And>r. triple (R r) (k r) g Q"
  shows "triple P (blocking f k) g Q"
proof (rule rowI)
  fix w :: "'m process world" assume "P (machine (rest w)) (int_var (rest w))"
  from assms(1) [OF this] obtain r d m' where f: "f (machine (rest w)) = Some (r, d, m')" "R r m' (int_var (rest w))" by blast
  then have "R r (machine (rest (snd (call (lib (\<lambda>_. (r, d, m'))) w)))) (int_var (rest (snd (call (lib (\<lambda>_. (r, d, m'))) w))))"
    by simp
  from rowD [OF assms(2) this] f(1)
  show "\<exists>w'. blocking f k w = Some w' \<and> kept w' = kept w @ g (b_n (bch w)) \<and> b_n (bch w') = b_n (bch w)
    \<and> Q (machine (rest w')) (int_var (rest w'))" by (simp add: blocking_def calling_def split_beta)
qed

section \<open>Rows whose result depends on the count\<close>

text \<open>\<open>row_at n\<close>: as \<open>triple\<close>, from the states in which the count is \<open>n\<close>.\<close>

definition row_at :: "int \<Rightarrow> 'm asrt \<Rightarrow> 'm cstmt \<Rightarrow> sunk list \<Rightarrow> 'm asrt \<Rightarrow> bool" where
  "row_at n P s k Q \<longleftrightarrow> (\<forall>w. b_n (bch w) = n \<longrightarrow> holds_in P w \<longrightarrow>
     (\<exists>w'. s w = Some w' \<and> kept w' = kept w @ k \<and> b_n (bch w') = n \<and> holds_in Q w'))"

lemma row_atI:
  assumes "\<And>w. b_n (bch w) = n \<Longrightarrow> P (machine (rest w)) (int_var (rest w)) \<Longrightarrow> \<exists>w'. s w = Some w' \<and> kept w' = kept w @ k
    \<and> b_n (bch w') = n \<and> Q (machine (rest w')) (int_var (rest w'))"
  shows "row_at n P s k Q"
  using assms by (simp add: row_at_def holds_in_def)

lemma row_atD:
  assumes "row_at n P s k Q" and "b_n (bch w) = n" and "P (machine (rest w)) (int_var (rest w))"
  shows "\<exists>w'. s w = Some w' \<and> kept w' = kept w @ k \<and> b_n (bch w') = n \<and> Q (machine (rest w')) (int_var (rest w'))"
  using assms by (simp add: row_at_def holds_in_def)

lemma at_row: "triple P s g Q \<Longrightarrow> row_at n P s (g n) Q"
  by (auto simp: triple_def row_at_def)

lemma at_Cons:
  fixes P :: "'m asrt"
  assumes "row_at n P s k Q" and "row_at n Q (block ss) l R"
  shows "row_at n P (block (s # ss)) (k @ l) R"
proof (rule row_atI)
  fix w :: "'m process world" assume "b_n (bch w) = n" "P (machine (rest w)) (int_var (rest w))"
  from row_atD [OF assms(1) this] obtain u where u: "s w = Some u" "kept u = kept w @ k" "b_n (bch u) = n"
    "Q (machine (rest u)) (int_var (rest u))" by blast
  from row_atD [OF assms(2) u(3,4)] u(1,2)
  show "\<exists>w'. block (s # ss) w = Some w' \<and> kept w' = kept w @ (k @ l) \<and> b_n (bch w') = n
    \<and> R (machine (rest w')) (int_var (rest w'))" by auto
qed

lemma at_then: "triple P s (\<lambda>n. []) Q \<Longrightarrow> row_at n Q (block ss) l R \<Longrightarrow> row_at n P (block (s # ss)) l R"
  using at_Cons [OF at_row, of P s "\<lambda>n. []" Q n ss l R] by simp

lemma at_last: "row_at n P s k Q \<Longrightarrow> triple Q (block ss) (\<lambda>n. []) R \<Longrightarrow> row_at n P (block (s # ss)) k R"
  using at_Cons [OF _ at_row, of n P s k Q ss "\<lambda>n. []" R] by simp

lemma at_calling:
  fixes f :: "('a, 'm) op"
  assumes "\<And>m v. P m v \<Longrightarrow> R (fst (f m)) (snd (snd (f m))) v" and "\<And>r. row_at n (R r) (k r) l Q"
  shows "row_at n P (calling f k) l Q"
proof (rule row_atI)
  fix w :: "'m process world" assume w: "b_n (bch w) = n" "P (machine (rest w)) (int_var (rest w))"
  then have "R (fst (f (machine (rest w)))) (machine (rest (snd (call (lib f) w)))) (int_var (rest (snd (call (lib f) w))))"
    using assms(1) by simp
  from row_atD [OF assms(2) _ this] w(1) show "\<exists>w'. calling f k w = Some w' \<and> kept w' = kept w @ l \<and> b_n (bch w') = n
    \<and> Q (machine (rest w')) (int_var (rest w'))" by (simp add: calling_def split_beta)
qed

text \<open>A loop with at least one round, each of which leaves \<open>J\<close>.\<close>

lemma at_loop:
  fixes P J :: "'m asrt"
  assumes "\<And>i. triple P (body i) (\<lambda>n. []) J" and "\<And>m v. J m v \<Longrightarrow> P m v" and "0 < n"
  shows "row_at n P (bench_loop body) [] J"
proof (rule row_atI)
  fix w :: "'m process world" assume w: "b_n (bch w) = n" "P (machine (rest w)) (int_var (rest w))"
  let ?I = "\<lambda>(j :: nat) v. b_n (bch v) = n \<and> P (machine (rest v)) (int_var (rest v)) \<and> (0 < j \<longrightarrow> J (machine (rest v)) (int_var (rest v)))"
  have step: "\<exists>v'. body (int j) v = Some v' \<and> kept v' = kept v @ [] \<and> ?I (Suc j) v'" if v: "?I j v" for j and v :: "'m process world"
  proof -
    from v have "P (machine (rest v)) (int_var (rest v))" by blast
    from rowD [OF assms(1) this, of "int j"] assms(2) v show ?thesis by auto
  qed
  have "\<exists>w'. bench_loop body w = Some w' \<and> ?I (nat (b_n (bch w))) w' \<and> kept w' = kept w @ concat (map (\<lambda>j. []) [0..<nat (b_n (bch w))])"
    by (rule loop_kept) (use w step in auto)
  then show "\<exists>w'. bench_loop body w = Some w' \<and> kept w' = kept w @ [] \<and> b_n (bch w') = n
    \<and> J (machine (rest w')) (int_var (rest w'))" using assms(3) w(1) by (auto simp: map_replicate_const)
qed

lemma at_runtime:
  assumes "runtime_keeps R look" and "row_at n (\<lambda>m v. P (look m) v) s k (\<lambda>m v. Q (look m) v)"
  shows "row_at n (\<lambda>m v. P (look m) v) (calling (gomaxprocs R i) (\<lambda>old. block [runtime_main R s, call_op (gomaxprocs R old)])) k
    (\<lambda>m v. Q (look m) v)"
proof (rule at_calling [where R = "\<lambda>_ m v. P (look m) v"])
  fix old
  have keep: "triple (\<lambda>m v. P (look m) v) (call_op (runtime_start R)) (\<lambda>n. []) (\<lambda>m v. P (look m) v)"
    "triple (\<lambda>m v. Q (look m) v) (call_op (runtime_stop R)) (\<lambda>n. []) (\<lambda>m v. Q (look m) v)"
    "triple (\<lambda>m v. Q (look m) v) (call_op (gomaxprocs R old)) (\<lambda>n. []) (\<lambda>m v. Q (look m) v)"
    using assms(1) by (auto simp: runtime_keeps_def intro!: row_call_op)
  show "row_at n (\<lambda>m v. P (look m) v) (block [runtime_main R s, call_op (gomaxprocs R old)]) k (\<lambda>m v. Q (look m) v)"
    unfolding runtime_main_def
    by (rule at_last [OF at_then [OF keep(1) at_last [OF assms(2) row_end [OF keep(2)]]] row_end [OF keep(3)]])
qed (use assms(1) in \<open>simp add: runtime_keeps_def\<close>)

section \<open>Rows whose addresses are not known\<close>

text \<open>
  \<open>closes P s ok Q\<close>: as \<open>triple\<close>, but of what goes to the sink only that every item of it is \<open>ok\<close>.
\<close>

definition closes :: "'m asrt \<Rightarrow> 'm cstmt \<Rightarrow> (sunk \<Rightarrow> bool) \<Rightarrow> 'm asrt \<Rightarrow> bool" where
  "closes P s ok Q \<longleftrightarrow> (\<forall>w. holds_in P w \<longrightarrow> (\<exists>w' k. s w = Some w' \<and> kept w' = kept w @ k \<and> (\<forall>x \<in> set k. ok x)
     \<and> b_n (bch w') = b_n (bch w) \<and> holds_in Q w'))"

lemma endsD:
  assumes "closes P s ok Q" and "P (machine (rest w)) (int_var (rest w))"
  obtains w' k where "s w = Some w'" "kept w' = kept w @ k" "\<forall>x \<in> set k. ok x" "b_n (bch w') = b_n (bch w)"
    "Q (machine (rest w')) (int_var (rest w'))"
  using assms by (auto simp: closes_def holds_in_def)

lemma endsI:
  assumes "\<And>w. P (machine (rest w)) (int_var (rest w)) \<Longrightarrow> \<exists>w' k. s w = Some w' \<and> kept w' = kept w @ k
    \<and> (\<forall>x \<in> set k. ok x) \<and> b_n (bch w') = b_n (bch w) \<and> Q (machine (rest w')) (int_var (rest w'))"
  shows "closes P s ok Q"
  using assms by (simp add: closes_def holds_in_def)

lemma ends_row: "triple P s g Q \<Longrightarrow> (\<And>n x. x \<in> set (g n) \<Longrightarrow> ok x) \<Longrightarrow> closes P s ok Q"
  unfolding triple_def closes_def by blast

lemma ends_quiet: "triple P s (\<lambda>n. []) Q \<Longrightarrow> closes P s ok Q"
  by (erule ends_row) simp

lemma ends_conseq:
  assumes "closes P s ok Q" and "\<And>m v. P' m v \<Longrightarrow> P m v" and "\<And>m v. Q m v \<Longrightarrow> Q' m v"
  shows "closes P' s ok Q'"
  using assms unfolding closes_def holds_in_def by blast

lemma ends_Cons:
  fixes P :: "'m asrt"
  assumes "closes P s ok Q" and "closes Q (block ss) ok R"
  shows "closes P (block (s # ss)) ok R"
proof (rule endsI)
  fix w :: "'m process world" assume "P (machine (rest w)) (int_var (rest w))"
  from endsD [OF assms(1) this] obtain u k where u: "s w = Some u" "kept u = kept w @ k" "\<forall>x \<in> set k. ok x"
    "b_n (bch u) = b_n (bch w)" "Q (machine (rest u)) (int_var (rest u))" .
  from endsD [OF assms(2) u(5)] obtain w' k' where "block ss u = Some w'" "kept w' = kept u @ k'" "\<forall>x \<in> set k'. ok x"
    "b_n (bch w') = b_n (bch u)" "R (machine (rest w')) (int_var (rest w'))" .
  with u show "\<exists>w' k. block (s # ss) w = Some w' \<and> kept w' = kept w @ k \<and> (\<forall>x \<in> set k. ok x)
    \<and> b_n (bch w') = b_n (bch w) \<and> R (machine (rest w')) (int_var (rest w'))"
    by (intro exI [of _ w'] exI [of _ "k @ k'"]) auto
qed

lemma ends_then: "triple P s (\<lambda>n. []) Q \<Longrightarrow> closes Q (block ss) ok R \<Longrightarrow> closes P (block (s # ss)) ok R"
  by (rule ends_Cons [OF ends_quiet])

lemma ends_end: "closes P s ok Q \<Longrightarrow> closes P (block [s]) ok Q"
  by simp

lemma ends_calling:
  fixes f :: "('a, 'm) op"
  assumes "\<And>m v. P m v \<Longrightarrow> R (fst (f m)) (snd (snd (f m))) v" and "\<And>r. closes (R r) (k r) ok Q"
  shows "closes P (calling f k) ok Q"
proof (rule endsI)
  fix w :: "'m process world" assume "P (machine (rest w)) (int_var (rest w))"
  then have "R (fst (f (machine (rest w)))) (machine (rest (snd (call (lib f) w)))) (int_var (rest (snd (call (lib f) w))))"
    using assms(1) by simp
  from endsD [OF assms(2) this] show "\<exists>w' l. calling f k w = Some w' \<and> kept w' = kept w @ l \<and> (\<forall>x \<in> set l. ok x)
    \<and> b_n (bch w') = b_n (bch w) \<and> Q (machine (rest w')) (int_var (rest w'))"
    by (simp add: calling_def split_beta) metis
qed

lemma ends_loop:
  fixes I :: "'m asrt"
  assumes "\<And>i. closes I (body i) ok I"
  shows "closes I (bench_loop body) ok I"
proof (rule endsI)
  fix w :: "'m process world" assume w: "I (machine (rest w)) (int_var (rest w))"
  let ?J = "\<lambda>j v. I (machine (rest v)) (int_var (rest v)) \<and> b_n (bch v) = b_n (bch w)
    \<and> (\<exists>k. kept v = kept w @ k \<and> (\<forall>x \<in> set k. ok x))"
  have "\<exists>w'. for_loop (nat (b_n (bch w))) 0 body w = Some w' \<and> ?J (nat (b_n (bch w))) w'"
  proof (rule for_loop_total)
    show "?J 0 w" using w by simp
    fix j and v :: "'m process world" assume "?J j v"
    then obtain k where v: "I (machine (rest v)) (int_var (rest v))" "b_n (bch v) = b_n (bch w)"
      "kept v = kept w @ k" "\<forall>x \<in> set k. ok x" by blast
    from endsD [OF assms [of "0 + int j"] v(1)] obtain v' k' where "body (0 + int j) v = Some v'" "kept v' = kept v @ k'"
      "\<forall>x \<in> set k'. ok x" "b_n (bch v') = b_n (bch v)" "I (machine (rest v')) (int_var (rest v'))" .
    with v show "\<exists>v'. body (0 + int j) v = Some v' \<and> ?J (Suc j) v'"
      by (intro exI [of _ v'] conjI exI [of _ "k @ k'"]) auto
  qed
  then show "\<exists>w' k. bench_loop body w = Some w' \<and> kept w' = kept w @ k \<and> (\<forall>x \<in> set k. ok x)
    \<and> b_n (bch w') = b_n (bch w) \<and> I (machine (rest w')) (int_var (rest w'))" by (auto simp: bench_loop_def)
qed

lemma ends_runtime:
  assumes "runtime_keeps R look" and "closes (\<lambda>m v. P (look m) v) s ok (\<lambda>m v. Q (look m) v)"
  shows "closes (\<lambda>m v. P (look m) v) (runtime_main R s) ok (\<lambda>m v. Q (look m) v)"
proof -
  have "triple (\<lambda>m v. P (look m) v) (call_op (runtime_start R)) (\<lambda>n. []) (\<lambda>m v. P (look m) v)"
    and "triple (\<lambda>m v. Q (look m) v) (block [call_op (runtime_stop R)]) (\<lambda>n. []) (\<lambda>m v. Q (look m) v)"
    unfolding block_single using assms(1) by (auto simp: runtime_keeps_def intro!: row_call_op)
  then show ?thesis unfolding runtime_main_def
    by (rule ends_then [OF _ ends_Cons [OF assms(2) ends_quiet]])
qed

section \<open>A process to run a row on\<close>

definition row_world :: "int \<Rightarrow> 'm \<Rightarrow> 'm process world" where
  "row_world n m = \<lparr>bch = zero_bench\<lparr>b_n := n\<rparr>, kept = [], rest = \<lparr>clock = 0, int_var = (\<lambda>x. 0),
     u64_var = (\<lambda>x. 0), dbl_var = (\<lambda>x. 0), int_array = (\<lambda>x. []), str_array = (\<lambda>x. []), machine = m\<rparr>\<rparr>"

lemma row_world_sel [simp]:
  "b_n (bch (row_world n m)) = n" "kept (row_world n m) = []" "machine (rest (row_world n m)) = m"
  "int_var (rest (row_world n m)) x = 0" "u64_var (rest (row_world n m)) x = 0"
  "int_array (rest (row_world n m)) x = []" "str_array (rest (row_world n m)) x = []"
  by (simp_all add: row_world_def)

definition plain_procs :: "'m runtime_lib" where
  "plain_procs = \<lparr>runtime_start = (\<lambda>m. ((), 1, m)), runtime_stop = (\<lambda>m. ((), 1, m)),
     gomaxprocs = (\<lambda>k m. (1, 1, m)), gosched = (\<lambda>m. ((), 1, m))\<rparr>"

lemma plain_procs_keep: "runtime_keeps plain_procs look"
  by (simp add: runtime_keeps_def plain_procs_def)

end
