(* ===== verification/Sched_Gate.thy ===== *)
theory Sched_Gate
  imports Prelude
begin

text \<open>
  The blocking handoff of \<open>bench/sched_bench.c\<close>: a gate made of a lock, a waiter and a flag, and
  two goroutines that pass a turn through two gates. The steps of the two goroutines interleave
  in every possible way; one step is one operation on shared state. The lock, parking and
  readying are burrow's: a lock admits one holder, \<open>sched_park\<close> runs its callback when the
  goroutine is parked, and \<open>sched_ready\<close> is for a goroutine that is parked, a fault otherwise.
\<close>

section \<open>The gate\<close>

datatype gid = MainG | ChildG

record gate =
  locked :: bool
  waiter :: "gid option"
  signalled :: u32

definition zero_gate :: gate where
  "zero_gate = \<lparr>locked = False, waiter = None, signalled = 0\<rparr>"

text \<open>What a step of a goroutine can come to.\<close>

datatype 'a outcome = Blocked | Fault | Next 'a

text \<open>Where a goroutine is in \<open>gate_wait\<close> and in \<open>gate_signal\<close>.\<close>

datatype wait_pc = WLock | WTest | WUnlock | WPark | WParked | WDone

datatype signal_pc = SLock | STest | SUnlock | SUnlockW gid | SReady gid | SDone

definition gate_unlock :: "gate \<Rightarrow> gate" where
  "gate_unlock gt = gt\<lparr>locked := False\<rparr>"

fun gate_wait :: "gid \<Rightarrow> wait_pc \<Rightarrow> gate \<Rightarrow> (gid \<Rightarrow> bool) \<Rightarrow> (wait_pc \<times> gate \<times> (gid \<Rightarrow> bool)) outcome" where
  "gate_wait g WLock gt parked = (if locked gt then Blocked else Next (WTest, gt\<lparr>locked := True\<rparr>, parked))"
| "gate_wait g WTest gt parked =
     (if signalled gt \<noteq> 0 then Next (WUnlock, gt\<lparr>signalled := 0\<rparr>, parked)
      else Next (WPark, gt\<lparr>waiter := Some g\<rparr>, parked))"
| "gate_wait g WUnlock gt parked = Next (WDone, gt\<lparr>locked := False\<rparr>, parked)"
| "gate_wait g WPark gt parked = Next (WParked, gate_unlock gt, parked(g := True))"
| "gate_wait g WParked gt parked = (if parked g then Blocked else Next (WDone, gt, parked))"
| "gate_wait g WDone gt parked = Blocked"

fun gate_signal :: "signal_pc \<Rightarrow> gate \<Rightarrow> (gid \<Rightarrow> bool) \<Rightarrow> (signal_pc \<times> gate \<times> (gid \<Rightarrow> bool)) outcome" where
  "gate_signal SLock gt parked = (if locked gt then Blocked else Next (STest, gt\<lparr>locked := True\<rparr>, parked))"
| "gate_signal STest gt parked =
     (case waiter gt of
        None \<Rightarrow> Next (SUnlock, gt\<lparr>signalled := 1\<rparr>, parked)
      | Some w \<Rightarrow> Next (SUnlockW w, gt\<lparr>waiter := None\<rparr>, parked))"
| "gate_signal SUnlock gt parked = Next (SDone, gt\<lparr>locked := False\<rparr>, parked)"
| "gate_signal (SUnlockW w) gt parked = Next (SReady w, gt\<lparr>locked := False\<rparr>, parked)"
| "gate_signal (SReady w) gt parked = (if parked w then Next (SDone, gt, parked(w := False)) else Fault)"
| "gate_signal SDone gt parked = Blocked"

section \<open>The two goroutines\<close>

text \<open>
  \<open>hand_body\<close> makes \<open>n + 2\<close> volleys: number 0 before the clock starts, numbers 1 to \<open>n\<close> in the
  loop, and number \<open>n + 1\<close> after it has stored the stop flag.
\<close>

datatype main_pc = MSig nat signal_pc | MWait nat wait_pc | MLoop nat | MStop | MSpin | MDone

datatype child_pc = CWait wait_pc | CRead | CSig bool signal_pc | CAdd | CDone

record hand =
  main_pc :: main_pc
  child_pc :: child_pc
  hand_there :: gate
  hand_back :: gate
  parked :: "gid \<Rightarrow> bool"
  hand_stop :: u32
  hand_gone :: u32

text \<open>After \<open>go\<close> has launched the child.\<close>

definition hand_init :: hand where
  "hand_init = \<lparr>main_pc = MSig 0 SLock, child_pc = CWait WLock, hand_there = zero_gate,
     hand_back = zero_gate, parked = (\<lambda>g. False), hand_stop = 0, hand_gone = 0\<rparr>"

definition after_wait :: "nat \<Rightarrow> nat \<Rightarrow> main_pc" where
  "after_wait n v = (if v = n + 1 then MSpin else MLoop v)"

text \<open>A goroutine inside an operation on one of the gates.\<close>

definition main_signals :: "nat \<Rightarrow> hand \<Rightarrow> (signal_pc \<times> gate \<times> (gid \<Rightarrow> bool)) outcome \<Rightarrow> hand outcome" where
  "main_signals v s r = (case r of
     Next (pc, gt, pk) \<Rightarrow> Next (s\<lparr>main_pc := MSig v pc, hand_there := gt, parked := pk\<rparr>)
   | Blocked \<Rightarrow> Blocked | Fault \<Rightarrow> Fault)"

definition main_waits :: "nat \<Rightarrow> hand \<Rightarrow> (wait_pc \<times> gate \<times> (gid \<Rightarrow> bool)) outcome \<Rightarrow> hand outcome" where
  "main_waits v s r = (case r of
     Next (pc, gt, pk) \<Rightarrow> Next (s\<lparr>main_pc := MWait v pc, hand_back := gt, parked := pk\<rparr>)
   | Blocked \<Rightarrow> Blocked | Fault \<Rightarrow> Fault)"

definition child_signals :: "bool \<Rightarrow> hand \<Rightarrow> (signal_pc \<times> gate \<times> (gid \<Rightarrow> bool)) outcome \<Rightarrow> hand outcome" where
  "child_signals stop s r = (case r of
     Next (pc, gt, pk) \<Rightarrow> Next (s\<lparr>child_pc := CSig stop pc, hand_back := gt, parked := pk\<rparr>)
   | Blocked \<Rightarrow> Blocked | Fault \<Rightarrow> Fault)"

definition child_waits :: "hand \<Rightarrow> (wait_pc \<times> gate \<times> (gid \<Rightarrow> bool)) outcome \<Rightarrow> hand outcome" where
  "child_waits s r = (case r of
     Next (pc, gt, pk) \<Rightarrow> Next (s\<lparr>child_pc := CWait pc, hand_there := gt, parked := pk\<rparr>)
   | Blocked \<Rightarrow> Blocked | Fault \<Rightarrow> Fault)"

text \<open>\<open>hand_body\<close>, for \<open>n\<close> iterations of the loop, at a point of its code.\<close>

fun hand_body :: "nat \<Rightarrow> main_pc \<Rightarrow> hand \<Rightarrow> hand outcome" where
  "hand_body n (MSig v SDone) s = Next (s\<lparr>main_pc := MWait v WLock\<rparr>)"
| "hand_body n (MSig v pc) s = main_signals v s (gate_signal pc (hand_there s) (parked s))"
| "hand_body n (MWait v WDone) s = Next (s\<lparr>main_pc := after_wait n v\<rparr>)"
| "hand_body n (MWait v pc) s = main_waits v s (gate_wait MainG pc (hand_back s) (parked s))"
| "hand_body n (MLoop i) s = Next (s\<lparr>main_pc := if i < n then MSig (i + 1) SLock else MStop\<rparr>)"
| "hand_body n MStop s = Next (s\<lparr>main_pc := MSig (n + 1) SLock, hand_stop := 1\<rparr>)"
| "hand_body n MSpin s = Next (if hand_gone s = 0 then s else s\<lparr>main_pc := MDone\<rparr>)"
| "hand_body n MDone s = Blocked"

text \<open>\<open>hand_child\<close>: it reads the stop flag between the wait and the signal.\<close>

fun hand_child :: "child_pc \<Rightarrow> hand \<Rightarrow> hand outcome" where
  "hand_child (CWait WDone) s = Next (s\<lparr>child_pc := CRead\<rparr>)"
| "hand_child (CWait pc) s = child_waits s (gate_wait ChildG pc (hand_there s) (parked s))"
| "hand_child CRead s = Next (s\<lparr>child_pc := CSig (hand_stop s \<noteq> 0) SLock\<rparr>)"
| "hand_child (CSig stop SDone) s = Next (s\<lparr>child_pc := if stop then CAdd else CWait WLock\<rparr>)"
| "hand_child (CSig stop pc) s = child_signals stop s (gate_signal pc (hand_back s) (parked s))"
| "hand_child CAdd s = Next (s\<lparr>child_pc := CDone, hand_gone := hand_gone s + 1\<rparr>)"
| "hand_child CDone s = Blocked"

section \<open>What is observed\<close>

text \<open>
  The four events of a volley: the main goroutine's signal takes effect, the child comes out of its
  wait, the child's signal takes effect, and the main goroutine comes out of its wait.
\<close>

datatype event = SignalThere | WakeChild | SignalBack | WakeMain

fun main_event :: "main_pc \<Rightarrow> hand \<Rightarrow> event list" where
  "main_event (MSig v STest) s = [SignalThere]"
| "main_event (MWait v WTest) s = (if signalled (hand_back s) \<noteq> 0 then [WakeMain] else [])"
| "main_event (MWait v WParked) s = [WakeMain]"
| "main_event pc s = []"

fun child_event :: "child_pc \<Rightarrow> hand \<Rightarrow> event list" where
  "child_event (CSig stop STest) s = [SignalBack]"
| "child_event (CWait WTest) s = (if signalled (hand_there s) \<noteq> 0 then [WakeChild] else [])"
| "child_event (CWait WParked) s = [WakeChild]"
| "child_event pc s = []"

text \<open>One step of either goroutine, with the events it makes.\<close>

inductive hand_step :: "nat \<Rightarrow> hand \<Rightarrow> event list \<Rightarrow> hand \<Rightarrow> bool" for n where
  main_moves: "hand_body n (main_pc s) s = Next t \<Longrightarrow> hand_step n s (main_event (main_pc s) s) t"
| child_moves: "hand_child (child_pc s) s = Next t \<Longrightarrow> hand_step n s (child_event (child_pc s) s) t"

inductive_cases hand_stepE: "hand_step n s es t"

text \<open>
  The runs, with what they made observable and the number of steps that changed the state: a turn
  of the loop that waits for \<open>hand_gone\<close> changes nothing.
\<close>

inductive hand_run :: "nat \<Rightarrow> event list \<Rightarrow> nat \<Rightarrow> hand \<Rightarrow> bool" for n where
  start: "hand_run n [] 0 hand_init"
| step: "hand_run n es m s \<Longrightarrow> hand_step n s e t \<Longrightarrow>
     hand_run n (es @ e) (if t = s then m else m + 1) t"

section \<open>The abstract handoff\<close>

text \<open>
  The specification knows no locks and no queues: the four events take turns, for \<open>n + 2\<close> volleys.
  The state is the number of events so far.
\<close>

definition event_no :: "nat \<Rightarrow> event" where
  "event_no k = [SignalThere, WakeChild, SignalBack, WakeMain] ! (k mod 4)"

inductive abs_step :: "nat \<Rightarrow> nat \<Rightarrow> event list \<Rightarrow> nat \<Rightarrow> bool" for n where
  quiet: "abs_step n k [] k"
| pass: "k < 4 * (n + 2) \<Longrightarrow> abs_step n k [event_no k] (k + 1)"

section \<open>The simulation relation\<close>

text \<open>The lock of a gate is held by the goroutine that is between locking and unlocking it.\<close>

fun signal_holds :: "signal_pc \<Rightarrow> bool" where
  "signal_holds STest = True"
| "signal_holds SUnlock = True"
| "signal_holds (SUnlockW w) = True"
| "signal_holds pc = False"

fun wait_holds :: "wait_pc \<Rightarrow> bool" where
  "wait_holds WTest = True"
| "wait_holds WUnlock = True"
| "wait_holds WPark = True"
| "wait_holds pc = False"

definition main_in_there :: "hand \<Rightarrow> bool" where
  "main_in_there s = (case main_pc s of MSig v pc \<Rightarrow> signal_holds pc | _ \<Rightarrow> False)"

definition child_in_there :: "hand \<Rightarrow> bool" where
  "child_in_there s = (case child_pc s of CWait pc \<Rightarrow> wait_holds pc | _ \<Rightarrow> False)"

definition main_in_back :: "hand \<Rightarrow> bool" where
  "main_in_back s = (case main_pc s of MWait v pc \<Rightarrow> wait_holds pc | _ \<Rightarrow> False)"

definition child_in_back :: "hand \<Rightarrow> bool" where
  "child_in_back s = (case child_pc s of CSig b pc \<Rightarrow> signal_holds pc | _ \<Rightarrow> False)"

definition locks_ok :: "hand \<Rightarrow> bool" where
  "locks_ok s \<longleftrightarrow> locked (hand_there s) = (main_in_there s \<or> child_in_there s)
     \<and> \<not> (main_in_there s \<and> child_in_there s)
     \<and> locked (hand_back s) = (main_in_back s \<or> child_in_back s)
     \<and> \<not> (main_in_back s \<and> child_in_back s)"

text \<open>A goroutine that has not been signalled: its gate says whether it waits.\<close>

definition child_idle :: "bool \<Rightarrow> hand \<Rightarrow> bool" where
  "child_idle stop s \<longleftrightarrow>
     child_pc s \<in> (if stop then {CSig True SDone, CAdd, CDone}
       else {CSig False SDone, CWait WLock, CWait WTest, CWait WPark, CWait WParked})
     \<and> signalled (hand_there s) = 0
     \<and> waiter (hand_there s) = (if child_pc s \<in> {CWait WPark, CWait WParked} then Some ChildG else None)
     \<and> parked s ChildG = (child_pc s = CWait WParked)"

definition main_idle :: "nat \<Rightarrow> hand \<Rightarrow> bool" where
  "main_idle v s \<longleftrightarrow>
     main_pc s \<in> {MSig v SDone, MWait v WLock, MWait v WTest, MWait v WPark, MWait v WParked}
     \<and> signalled (hand_back s) = 0
     \<and> waiter (hand_back s) = (if main_pc s \<in> {MWait v WPark, MWait v WParked} then Some MainG else None)
     \<and> parked s MainG = (main_pc s = MWait v WParked)"

text \<open>Volley \<open>v\<close> at its four points.\<close>

definition main_turn :: "nat \<Rightarrow> nat \<Rightarrow> hand \<Rightarrow> bool" where
  "main_turn n v s \<longleftrightarrow>
     (main_pc s \<in> {MSig v SLock, MSig v STest} \<and> v \<le> n + 1
      \<or> 0 < v \<and> v \<le> n + 2 \<and> main_pc s \<in> {MWait (v - 1) WUnlock, MWait (v - 1) WDone}
      \<or> 0 < v \<and> v \<le> n + 1 \<and> main_pc s = MLoop (v - 1)
      \<or> v = n + 1 \<and> main_pc s = MStop
      \<or> v = n + 2 \<and> main_pc s \<in> {MSpin, MDone})
     \<and> child_idle (v = n + 2) s
     \<and> signalled (hand_back s) = 0 \<and> waiter (hand_back s) = None \<and> \<not> parked s MainG"

definition to_child :: "nat \<Rightarrow> nat \<Rightarrow> hand \<Rightarrow> bool" where
  "to_child n v s \<longleftrightarrow> (waiter (hand_there s) = None \<and> v \<le> n + 1)
     \<and> (signalled (hand_there s) = 1 \<and> \<not> parked s ChildG
          \<and> child_pc s \<in> {CSig False SDone, CWait WLock, CWait WTest} \<and> main_pc s = MSig v SUnlock
          \<and> signalled (hand_back s) = 0 \<and> waiter (hand_back s) = None \<and> \<not> parked s MainG
        \<or> signalled (hand_there s) = 1 \<and> \<not> parked s ChildG
          \<and> child_pc s \<in> {CSig False SDone, CWait WLock, CWait WTest} \<and> main_idle v s
        \<or> signalled (hand_there s) = 0 \<and> child_pc s = CWait WParked \<and> parked s ChildG
          \<and> main_pc s = MSig v (SUnlockW ChildG)
          \<and> signalled (hand_back s) = 0 \<and> waiter (hand_back s) = None \<and> \<not> parked s MainG
        \<or> signalled (hand_there s) = 0 \<and> child_pc s = CWait WParked \<and> parked s ChildG
          \<and> main_pc s = MSig v (SReady ChildG)
          \<and> signalled (hand_back s) = 0 \<and> waiter (hand_back s) = None \<and> \<not> parked s MainG
        \<or> signalled (hand_there s) = 0 \<and> child_pc s = CWait WParked \<and> \<not> parked s ChildG \<and> main_idle v s)"

definition child_turn :: "nat \<Rightarrow> nat \<Rightarrow> hand \<Rightarrow> bool" where
  "child_turn n v s \<longleftrightarrow> main_idle v s \<and> v \<le> n + 1
     \<and> child_pc s \<in> {CWait WUnlock, CWait WDone, CRead, CSig (v = n + 1) SLock, CSig (v = n + 1) STest}
     \<and> signalled (hand_there s) = 0 \<and> waiter (hand_there s) = None \<and> \<not> parked s ChildG"

definition to_main :: "nat \<Rightarrow> nat \<Rightarrow> hand \<Rightarrow> bool" where
  "to_main n v s \<longleftrightarrow> (waiter (hand_back s) = None \<and> v \<le> n + 1)
     \<and> (signalled (hand_back s) = 1 \<and> \<not> parked s MainG
          \<and> main_pc s \<in> {MSig v SDone, MWait v WLock, MWait v WTest} \<and> child_pc s = CSig (v = n + 1) SUnlock
          \<and> signalled (hand_there s) = 0 \<and> waiter (hand_there s) = None \<and> \<not> parked s ChildG
        \<or> signalled (hand_back s) = 1 \<and> \<not> parked s MainG
          \<and> main_pc s \<in> {MSig v SDone, MWait v WLock, MWait v WTest} \<and> child_idle (v = n + 1) s
        \<or> signalled (hand_back s) = 0 \<and> main_pc s = MWait v WParked \<and> parked s MainG
          \<and> child_pc s = CSig (v = n + 1) (SUnlockW MainG)
          \<and> signalled (hand_there s) = 0 \<and> waiter (hand_there s) = None \<and> \<not> parked s ChildG
        \<or> signalled (hand_back s) = 0 \<and> main_pc s = MWait v WParked \<and> parked s MainG
          \<and> child_pc s = CSig (v = n + 1) (SReady MainG)
          \<and> signalled (hand_there s) = 0 \<and> waiter (hand_there s) = None \<and> \<not> parked s ChildG
        \<or> signalled (hand_back s) = 0 \<and> main_pc s = MWait v WParked \<and> \<not> parked s MainG
          \<and> child_idle (v = n + 1) s)"

definition flags_ok :: "nat \<Rightarrow> hand \<Rightarrow> bool" where
  "flags_ok n s \<longleftrightarrow>
     hand_stop s = (case main_pc s of MSig v _ \<Rightarrow> if v = n + 1 then 1 else 0
       | MWait v _ \<Rightarrow> if v = n + 1 then 1 else 0 | MSpin \<Rightarrow> 1 | MDone \<Rightarrow> 1 | _ \<Rightarrow> 0)
     \<and> hand_gone s = (if child_pc s = CDone then 1 else 0)
     \<and> (main_pc s = MDone \<longrightarrow> child_pc s = CDone)"

definition simulates :: "nat \<Rightarrow> nat \<Rightarrow> hand \<Rightarrow> bool" where
  "simulates n k s \<longleftrightarrow> locks_ok s \<and> flags_ok n s
     \<and> (if k mod 4 = 0 then main_turn n (k div 4) s
        else if k mod 4 = 1 then to_child n (k div 4) s
        else if k mod 4 = 2 then child_turn n (k div 4) s
        else to_main n (k div 4) s)"

lemmas handoff_defs = locks_ok_def flags_ok_def main_turn_def to_child_def child_turn_def to_main_def
  child_idle_def main_idle_def main_in_there_def child_in_there_def main_in_back_def child_in_back_def

lemma simulates_init: "simulates n 0 hand_init"
  by (simp add: simulates_def hand_init_def zero_gate_def handoff_defs)

lemmas lock_defs = locks_ok_def main_in_there_def child_in_there_def main_in_back_def child_in_back_def

lemmas move_defs = main_signals_def main_waits_def child_signals_def child_waits_def gate_unlock_def
  after_wait_def

lemma locks_ok_main:
  assumes "hand_body n (main_pc s) s = Next t" and "locks_ok s"
  shows "locks_ok t"
proof (cases "main_pc s")
  case (MSig v pc)
  with assms show ?thesis
    by (cases pc) (clarsimp simp: lock_defs move_defs split: if_splits option.splits)+
next
  case (MWait v pc)
  with assms show ?thesis
    by (cases pc) (clarsimp simp: lock_defs move_defs split: if_splits)+
qed (use assms in \<open>auto simp: lock_defs split: if_splits\<close>)

lemma locks_ok_child:
  assumes "hand_child (child_pc s) s = Next t" and "locks_ok s"
  shows "locks_ok t"
proof (cases "child_pc s")
  case (CSig b pc)
  with assms show ?thesis
    by (cases pc) (clarsimp simp: lock_defs move_defs split: if_splits option.splits)+
next
  case (CWait pc)
  with assms show ?thesis
    by (cases pc) (clarsimp simp: lock_defs move_defs split: if_splits)+
qed (use assms in \<open>auto simp: lock_defs split: if_splits\<close>)

lemma flags_ok_main:
  assumes "hand_body n (main_pc s) s = Next t" and "flags_ok n s"
  shows "flags_ok n t"
proof (cases "main_pc s")
  case (MSig v pc)
  with assms show ?thesis
    by (cases pc) (auto simp: flags_ok_def move_defs split: if_splits option.splits)
next
  case (MWait v pc)
  with assms show ?thesis
    by (cases pc) (auto simp: flags_ok_def move_defs split: if_splits)
qed (use assms in \<open>auto simp: flags_ok_def split: if_splits\<close>)

lemma flags_ok_child:
  assumes "hand_child (child_pc s) s = Next t" and "flags_ok n s" and "main_pc s \<noteq> MDone"
  shows "flags_ok n t"
proof (cases "child_pc s")
  case (CSig b pc)
  with assms show ?thesis
    by (cases pc) (auto simp: flags_ok_def move_defs split: if_splits option.splits)
next
  case (CWait pc)
  with assms show ?thesis
    by (cases pc) (auto simp: flags_ok_def move_defs split: if_splits)
qed (use assms in \<open>auto simp: flags_ok_def split: if_splits\<close>)

text \<open>The goroutine that has not been signalled, by where it is.\<close>

lemma child_idle_waiting:
  assumes "child_idle False s" and "locks_ok s" and "main_in_there s"
  shows "waiter (hand_there s) = None \<and> child_pc s \<in> {CSig False SDone, CWait WLock} \<and> \<not> parked s ChildG
    \<or> waiter (hand_there s) = Some ChildG \<and> child_pc s = CWait WParked \<and> parked s ChildG"
  using assms by (auto simp: child_idle_def lock_defs split: if_splits)

lemma main_idle_waiting:
  assumes "main_idle v s" and "locks_ok s" and "child_in_back s"
  shows "waiter (hand_back s) = None \<and> main_pc s \<in> {MSig v SDone, MWait v WLock} \<and> \<not> parked s MainG
    \<or> waiter (hand_back s) = Some MainG \<and> main_pc s = MWait v WParked \<and> parked s MainG"
  using assms by (auto simp: main_idle_def lock_defs split: if_splits)

lemma main_turn_signals:
  assumes "main_pc s = MSig v STest" and "locks_ok s" and "main_turn n v s"
    and "hand_body n (main_pc s) s = Next t"
  shows "to_child n v t"
proof -
  have idle: "child_idle False s" and v: "v \<le> n + 1" and bk: "signalled (hand_back s) = 0"
      "waiter (hand_back s) = None" "\<not> parked s MainG"
    using assms(1,3) by (auto simp: main_turn_def)
  have "main_in_there s" using assms(1) by (simp add: main_in_there_def)
  from child_idle_waiting [OF idle assms(2) this] show ?thesis
  proof
    assume c: "waiter (hand_there s) = None \<and> child_pc s \<in> {CSig False SDone, CWait WLock} \<and> \<not> parked s ChildG"
    with assms(1,4) have "t = s\<lparr>main_pc := MSig v SUnlock, hand_there := (hand_there s)\<lparr>signalled := 1\<rparr>\<rparr>"
      by (auto simp: main_signals_def)
    with c v bk show ?thesis by (simp add: to_child_def) blast
  next
    assume c: "waiter (hand_there s) = Some ChildG \<and> child_pc s = CWait WParked \<and> parked s ChildG"
    with assms(1,4) have "t = s\<lparr>main_pc := MSig v (SUnlockW ChildG), hand_there := (hand_there s)\<lparr>waiter := None\<rparr>\<rparr>"
      by (auto simp: main_signals_def)
    moreover have "signalled (hand_there s) = 0" using idle by (simp add: child_idle_def)
    ultimately show ?thesis using c v bk by (simp add: to_child_def)
  qed
qed

lemma main_from_main_turn:
  assumes "hand_body n (main_pc s) s = Next t" and "locks_ok s" and "flags_ok n s" and "main_turn n v s"
  shows "main_event (main_pc s) s = [] \<and> main_turn n v t
    \<or> main_event (main_pc s) s = [SignalThere] \<and> to_child n v t \<and> v \<le> n + 1"
proof (cases "main_pc s")
  case (MSig u pc)
  with assms(4) have u: "u = v" "pc = SLock \<or> pc = STest" "v \<le> n + 1" by (auto simp: main_turn_def)
  show ?thesis
  proof (cases "pc = STest")
    case True
    with MSig u main_turn_signals [OF _ assms(2,4,1)] show ?thesis by simp
  next
    case False
    with u MSig assms(1) have t: "t = s\<lparr>main_pc := MSig v STest, hand_there := (hand_there s)\<lparr>locked := True\<rparr>\<rparr>"
      by (auto simp: main_signals_def split: if_splits)
    from assms(4) have idle: "child_idle (v = n + 2) s" by (simp add: main_turn_def)
    with t have "child_idle (v = n + 2) t" by (simp add: child_idle_def)
    with MSig u t False assms(4) show ?thesis by (simp add: main_turn_def)
  qed
next
  case (MWait u pc)
  with assms(4) have u: "u = v - 1" "pc = WUnlock \<or> pc = WDone" "0 < v" "v \<le> n + 2"
    "child_idle (v = n + 2) s" "signalled (hand_back s) = 0" "waiter (hand_back s) = None" "\<not> parked s MainG"
    by (auto simp: main_turn_def)
  show ?thesis
  proof (cases "pc = WDone")
    case True
    with MWait assms(1) have t: "t = s\<lparr>main_pc := after_wait n u\<rparr>" by simp
    with u(5) have "child_idle (v = n + 2) t" by (simp add: child_idle_def)
    with MWait u t True show ?thesis
      by (cases "v = n + 2") (simp_all add: main_turn_def after_wait_def)
  next
    case False
    with u(2) MWait assms(1) have t: "t = s\<lparr>main_pc := MWait u WDone, hand_back := (hand_back s)\<lparr>locked := False\<rparr>\<rparr>"
      by (auto simp: main_waits_def)
    with u(5) have "child_idle (v = n + 2) t" by (simp add: child_idle_def)
    with MWait u t False show ?thesis by (auto simp: main_turn_def)
  qed
next
  case (MLoop i)
  with assms(4) have u: "i = v - 1" "0 < v" "v \<le> n + 1" "child_idle (v = n + 2) s"
    "signalled (hand_back s) = 0" "waiter (hand_back s) = None" "\<not> parked s MainG"
    by (auto simp: main_turn_def)
  from MLoop assms(1) have t: "t = s\<lparr>main_pc := if i < n then MSig (i + 1) SLock else MStop\<rparr>" by simp
  with u(4) have "child_idle (v = n + 2) t" by (simp add: child_idle_def)
  with MLoop u t show ?thesis by (auto simp: main_turn_def)
next
  case MStop
  with assms(4) have "child_idle False s" by (auto simp: main_turn_def)
  with MStop assms(1) have "child_idle False t" by (auto simp: child_idle_def)
  with MStop assms(1,4) show ?thesis by (auto simp: main_turn_def)
next
  case MSpin
  with assms(4) have "child_idle True s" by (auto simp: main_turn_def)
  show ?thesis
  proof (cases "hand_gone s = 0")
    case True
    with MSpin assms(1,4) show ?thesis by simp
  next
    case False
    with MSpin assms(1) have t: "t = s\<lparr>main_pc := MDone\<rparr>" by simp
    with \<open>child_idle True s\<close> have "child_idle True t" by (simp add: child_idle_def)
    with MSpin t assms(4) show ?thesis by (simp add: main_turn_def)
  qed
qed (use assms(1) in simp)

text \<open>An idle goroutine goes to its gate and waits there, unobserved.\<close>

lemma child_idle_step:
  assumes "child_idle b s" and "hand_child (child_pc s) s = Next t"
  shows "child_idle b t \<and> child_event (child_pc s) s = [] \<and> main_pc t = main_pc s
    \<and> hand_back t = hand_back s \<and> parked t MainG = parked s MainG \<and> hand_stop t = hand_stop s"
proof (cases "child_pc s")
  case (CWait pc)
  with assms show ?thesis
    by (cases pc) (auto simp: child_idle_def move_defs split: if_split_asm)
next
  case (CSig stop pc)
  with assms(1) have "pc = SDone" "stop = b" by (auto simp: child_idle_def split: if_split_asm)
  with CSig assms show ?thesis by (cases b) (auto simp: child_idle_def)
next
  case CAdd
  with assms show ?thesis by (auto simp: child_idle_def split: if_split_asm)
qed (use assms in \<open>auto simp: child_idle_def split: if_split_asm\<close>)

lemma main_idle_step:
  assumes "main_idle v s" and "hand_body n (main_pc s) s = Next t"
  shows "main_idle v t \<and> main_event (main_pc s) s = [] \<and> child_pc t = child_pc s
    \<and> hand_there t = hand_there s \<and> parked t ChildG = parked s ChildG"
proof (cases "main_pc s")
  case (MWait u pc)
  with assms show ?thesis
    by (cases pc) (auto simp: main_idle_def move_defs split: if_split_asm)
next
  case (MSig u pc)
  with assms show ?thesis by (auto simp: main_idle_def)
qed (use assms in \<open>simp_all add: main_idle_def\<close>)

lemma child_from_main_turn:
  assumes "hand_child (child_pc s) s = Next t" and "main_turn n v s"
  shows "child_event (child_pc s) s = [] \<and> main_turn n v t"
proof -
  have "child_idle (v = n + 2) s" using assms(2) by (simp add: main_turn_def)
  from child_idle_step [OF this assms(1)] assms(2) show ?thesis by (simp add: main_turn_def)
qed

lemma main_from_child_turn:
  assumes "hand_body n (main_pc s) s = Next t" and "child_turn n v s"
  shows "main_event (main_pc s) s = [] \<and> child_turn n v t"
proof -
  have "main_idle v s" using assms(2) by (simp add: child_turn_def)
  from main_idle_step [OF this assms(1)] assms(2) show ?thesis by (simp add: child_turn_def)
qed

lemma child_turn_signals:
  assumes "child_pc s = CSig (v = n + 1) STest" and "locks_ok s" and "child_turn n v s"
    and "hand_child (child_pc s) s = Next t"
  shows "to_main n v t"
proof -
  have idle: "main_idle v s" and v: "v \<le> n + 1" and th: "signalled (hand_there s) = 0"
      "waiter (hand_there s) = None" "\<not> parked s ChildG"
    using assms(3) by (auto simp: child_turn_def)
  have "child_in_back s" using assms(1) by (simp add: child_in_back_def)
  from main_idle_waiting [OF idle assms(2) this] show ?thesis
  proof
    assume c: "waiter (hand_back s) = None \<and> main_pc s \<in> {MSig v SDone, MWait v WLock} \<and> \<not> parked s MainG"
    with assms(1,4) have "t = s\<lparr>child_pc := CSig (v = n + 1) SUnlock, hand_back := (hand_back s)\<lparr>signalled := 1\<rparr>\<rparr>"
      by (auto simp: child_signals_def)
    with c v th show ?thesis by (simp add: to_main_def) blast
  next
    assume c: "waiter (hand_back s) = Some MainG \<and> main_pc s = MWait v WParked \<and> parked s MainG"
    with assms(1,4) have "t = s\<lparr>child_pc := CSig (v = n + 1) (SUnlockW MainG), hand_back := (hand_back s)\<lparr>waiter := None\<rparr>\<rparr>"
      by (auto simp: child_signals_def)
    moreover have "signalled (hand_back s) = 0" using idle by (simp add: main_idle_def)
    ultimately show ?thesis using c v th by (simp add: to_main_def)
  qed
qed

lemma child_from_child_turn:
  assumes "hand_child (child_pc s) s = Next t" and "locks_ok s" and "flags_ok n s" and "child_turn n v s"
  shows "child_event (child_pc s) s = [] \<and> child_turn n v t
    \<or> child_event (child_pc s) s = [SignalBack] \<and> to_main n v t"
proof -
  have idle: "main_idle v s" and v: "v \<le> n + 1" and th: "signalled (hand_there s) = 0"
      "waiter (hand_there s) = None" "\<not> parked s ChildG"
    using assms(4) by (auto simp: child_turn_def)
  have stop: "(hand_stop s \<noteq> 0) = (v = n + 1)"
    using idle assms(3) by (auto simp: main_idle_def flags_ok_def split: if_split_asm)
  have frame: "main_idle v t" if "main_pc t = main_pc s" "signalled (hand_back t) = signalled (hand_back s)"
    "waiter (hand_back t) = waiter (hand_back s)" "parked t MainG = parked s MainG"
    using idle that by (simp add: main_idle_def)
  from assms(4) have "child_pc s \<in> {CWait WUnlock, CWait WDone, CRead, CSig (v = n + 1) SLock, CSig (v = n + 1) STest}"
    by (simp add: child_turn_def)
  then consider "child_pc s = CWait WUnlock" | "child_pc s = CWait WDone" | "child_pc s = CRead"
    | "child_pc s = CSig (v = n + 1) SLock" | "child_pc s = CSig (v = n + 1) STest" by blast
  then show ?thesis
  proof cases
    case 1
    with assms(1) have t: "t = s\<lparr>child_pc := CWait WDone, hand_there := (hand_there s)\<lparr>locked := False\<rparr>\<rparr>"
      by (auto simp: child_waits_def)
    with frame v th 1 show ?thesis by (simp add: child_turn_def)
  next
    case 2
    with assms(1) have "t = s\<lparr>child_pc := CRead\<rparr>" by simp
    with frame v th 2 show ?thesis by (simp add: child_turn_def)
  next
    case 3
    with assms(1) have "t = s\<lparr>child_pc := CSig (v = n + 1) SLock\<rparr>" by (simp add: stop)
    with frame v th 3 show ?thesis by (simp add: child_turn_def)
  next
    case 4
    with assms(1) have "t = s\<lparr>child_pc := CSig (v = n + 1) STest, hand_back := (hand_back s)\<lparr>locked := True\<rparr>\<rparr>"
      by (auto simp: child_signals_def split: if_split_asm)
    with frame v th 4 show ?thesis by (simp add: child_turn_def)
  next
    case 5
    from child_turn_signals [OF 5 assms(2,4,1)] 5 show ?thesis by simp
  qed
qed

text \<open>The signal on its way: through the flag, or through the queue.\<close>

lemma to_child_cases:
  assumes "to_child n v s"
  obtains (flag_unlock) "signalled (hand_there s) = 1" "\<not> parked s ChildG"
      "child_pc s \<in> {CSig False SDone, CWait WLock, CWait WTest}" "main_pc s = MSig v SUnlock"
      "signalled (hand_back s) = 0" "waiter (hand_back s) = None" "\<not> parked s MainG"
    | (flag_idle) "signalled (hand_there s) = 1" "\<not> parked s ChildG"
      "child_pc s \<in> {CSig False SDone, CWait WLock, CWait WTest}" "main_idle v s"
    | (waiter_unlock) "signalled (hand_there s) = 0" "child_pc s = CWait WParked" "parked s ChildG"
      "main_pc s = MSig v (SUnlockW ChildG)" "signalled (hand_back s) = 0" "waiter (hand_back s) = None" "\<not> parked s MainG"
    | (waiter_ready) "signalled (hand_there s) = 0" "child_pc s = CWait WParked" "parked s ChildG"
      "main_pc s = MSig v (SReady ChildG)" "signalled (hand_back s) = 0" "waiter (hand_back s) = None" "\<not> parked s MainG"
    | (waiter_idle) "signalled (hand_there s) = 0" "child_pc s = CWait WParked" "\<not> parked s ChildG" "main_idle v s"
  using assms unfolding to_child_def by (elim conjE disjE)

lemma to_main_cases:
  assumes "to_main n v s"
  obtains (flag_unlock) "signalled (hand_back s) = 1" "\<not> parked s MainG"
      "main_pc s \<in> {MSig v SDone, MWait v WLock, MWait v WTest}" "child_pc s = CSig (v = n + 1) SUnlock"
      "signalled (hand_there s) = 0" "waiter (hand_there s) = None" "\<not> parked s ChildG"
    | (flag_idle) "signalled (hand_back s) = 1" "\<not> parked s MainG"
      "main_pc s \<in> {MSig v SDone, MWait v WLock, MWait v WTest}" "child_idle (v = n + 1) s"
    | (waiter_unlock) "signalled (hand_back s) = 0" "main_pc s = MWait v WParked" "parked s MainG"
      "child_pc s = CSig (v = n + 1) (SUnlockW MainG)" "signalled (hand_there s) = 0" "waiter (hand_there s) = None" "\<not> parked s ChildG"
    | (waiter_ready) "signalled (hand_back s) = 0" "main_pc s = MWait v WParked" "parked s MainG"
      "child_pc s = CSig (v = n + 1) (SReady MainG)" "signalled (hand_there s) = 0" "waiter (hand_there s) = None" "\<not> parked s ChildG"
    | (waiter_idle) "signalled (hand_back s) = 0" "main_pc s = MWait v WParked" "\<not> parked s MainG" "child_idle (v = n + 1) s"
  using assms unfolding to_main_def by (elim conjE disjE)

lemma to_child_common: "to_child n v s \<Longrightarrow> waiter (hand_there s) = None \<and> v \<le> n + 1"
  by (simp add: to_child_def)

lemma to_main_common: "to_main n v s \<Longrightarrow> waiter (hand_back s) = None \<and> v \<le> n + 1"
  by (simp add: to_main_def)

lemma main_from_to_child:
  assumes "hand_body n (main_pc s) s = Next t" and "to_child n v s"
  shows "main_event (main_pc s) s = [] \<and> to_child n v t"
  using assms(2)
proof (cases rule: to_child_cases)
  case flag_unlock
  with assms(1) have t: "t = s\<lparr>main_pc := MSig v SDone, hand_there := (hand_there s)\<lparr>locked := False\<rparr>\<rparr>"
    by (auto simp: main_signals_def)
  with flag_unlock have "main_idle v t" by (simp add: main_idle_def)
  with flag_unlock t to_child_common [OF assms(2)] show ?thesis by (auto simp: to_child_def)
next
  case flag_idle
  with main_idle_step [OF flag_idle(4) assms(1)] to_child_common [OF assms(2)]
  show ?thesis by (auto simp: to_child_def)
next
  case waiter_unlock
  with assms(1) have "t = s\<lparr>main_pc := MSig v (SReady ChildG), hand_there := (hand_there s)\<lparr>locked := False\<rparr>\<rparr>"
    by (auto simp: main_signals_def)
  with waiter_unlock to_child_common [OF assms(2)] show ?thesis by (simp add: to_child_def)
next
  case waiter_ready
  with assms(1) have t: "t = s\<lparr>main_pc := MSig v SDone, parked := (parked s)(ChildG := False)\<rparr>"
    by (auto simp: main_signals_def)
  with waiter_ready have "main_idle v t" by (simp add: main_idle_def)
  with waiter_ready t to_child_common [OF assms(2)] show ?thesis by (simp add: to_child_def)
next
  case waiter_idle
  with main_idle_step [OF waiter_idle(4) assms(1)] to_child_common [OF assms(2)]
  show ?thesis by (simp add: to_child_def)
qed

lemma child_from_to_child:
  assumes "hand_child (child_pc s) s = Next t" and "locks_ok s" and "to_child n v s"
  shows "child_event (child_pc s) s = [] \<and> to_child n v t
    \<or> child_event (child_pc s) s = [WakeChild] \<and> child_turn n v t"
proof -
  have move: "child_pc s = CSig False SDone \<and> t = s\<lparr>child_pc := CWait WLock\<rparr>
      \<or> child_pc s = CWait WLock \<and> t = s\<lparr>child_pc := CWait WTest, hand_there := (hand_there s)\<lparr>locked := True\<rparr>\<rparr>
      \<or> child_pc s = CWait WTest \<and> t = s\<lparr>child_pc := CWait WUnlock, hand_there := (hand_there s)\<lparr>signalled := 0\<rparr>\<rparr>"
    if "signalled (hand_there s) = 1" "child_pc s \<in> {CSig False SDone, CWait WLock, CWait WTest}"
    using assms(1) that by (auto simp: child_waits_def split: if_split_asm)
  from assms(3) show ?thesis
  proof (cases rule: to_child_cases)
    case flag_unlock
    have "child_pc s \<noteq> CWait WTest"
      using assms(2) flag_unlock(4) by (auto simp: lock_defs)
    with move [OF flag_unlock(1,3)] consider
        "child_pc s = CSig False SDone" "t = s\<lparr>child_pc := CWait WLock\<rparr>"
      | "child_pc s = CWait WLock" "t = s\<lparr>child_pc := CWait WTest, hand_there := (hand_there s)\<lparr>locked := True\<rparr>\<rparr>"
      by blast
    then show ?thesis
      by cases (use flag_unlock(1,2,4-) to_child_common [OF assms(3)] in \<open>simp_all add: to_child_def\<close>)
  next
    case flag_idle
    from move [OF flag_idle(1,3)] consider
        "child_pc s = CSig False SDone" "t = s\<lparr>child_pc := CWait WLock\<rparr>"
      | "child_pc s = CWait WLock" "t = s\<lparr>child_pc := CWait WTest, hand_there := (hand_there s)\<lparr>locked := True\<rparr>\<rparr>"
      | "child_pc s = CWait WTest" "t = s\<lparr>child_pc := CWait WUnlock, hand_there := (hand_there s)\<lparr>signalled := 0\<rparr>\<rparr>"
      by blast
    then show ?thesis
    proof cases
      case 1
      with flag_idle(4) have "main_idle v t" by (simp add: main_idle_def)
      with 1 flag_idle(1,2) to_child_common [OF assms(3)] show ?thesis by (simp add: to_child_def)
    next
      case 2
      with flag_idle(4) have "main_idle v t" by (simp add: main_idle_def)
      with 2 flag_idle(1,2) to_child_common [OF assms(3)] show ?thesis by (simp add: to_child_def)
    next
      case 3
      with flag_idle(4) have "main_idle v t" by (simp add: main_idle_def)
      with 3 flag_idle(1,2) to_child_common [OF assms(3)] show ?thesis by (simp add: child_turn_def)
    qed
  next
    case waiter_idle
    with assms(1) have t: "t = s\<lparr>child_pc := CWait WDone\<rparr>" by (simp add: child_waits_def)
    with waiter_idle(4) have "main_idle v t" by (simp add: main_idle_def)
    with waiter_idle t to_child_common [OF assms(3)] show ?thesis by (simp add: child_turn_def)
  qed (use assms(1) in \<open>simp_all add: child_waits_def\<close>)
qed

lemma child_from_to_main:
  assumes "hand_child (child_pc s) s = Next t" and "to_main n v s"
  shows "child_event (child_pc s) s = [] \<and> to_main n v t"
  using assms(2)
proof (cases rule: to_main_cases)
  case flag_unlock
  with assms(1) have t: "t = s\<lparr>child_pc := CSig (v = n + 1) SDone, hand_back := (hand_back s)\<lparr>locked := False\<rparr>\<rparr>"
    by (auto simp: child_signals_def)
  with flag_unlock have "child_idle (v = n + 1) t" by (simp add: child_idle_def)
  with flag_unlock t to_main_common [OF assms(2)] show ?thesis by (auto simp: to_main_def)
next
  case flag_idle
  with child_idle_step [OF flag_idle(4) assms(1)] to_main_common [OF assms(2)]
  show ?thesis by (auto simp: to_main_def)
next
  case waiter_unlock
  with assms(1) have "t = s\<lparr>child_pc := CSig (v = n + 1) (SReady MainG), hand_back := (hand_back s)\<lparr>locked := False\<rparr>\<rparr>"
    by (auto simp: child_signals_def)
  with waiter_unlock to_main_common [OF assms(2)] show ?thesis by (simp add: to_main_def)
next
  case waiter_ready
  with assms(1) have t: "t = s\<lparr>child_pc := CSig (v = n + 1) SDone, parked := (parked s)(MainG := False)\<rparr>"
    by (auto simp: child_signals_def)
  with waiter_ready have "child_idle (v = n + 1) t" by (simp add: child_idle_def)
  with waiter_ready t to_main_common [OF assms(2)] show ?thesis by (simp add: to_main_def)
next
  case waiter_idle
  with child_idle_step [OF waiter_idle(4) assms(1)] to_main_common [OF assms(2)]
  show ?thesis by (simp add: to_main_def)
qed

lemma main_from_to_main:
  assumes "hand_body n (main_pc s) s = Next t" and "locks_ok s" and "to_main n v s"
  shows "main_event (main_pc s) s = [] \<and> to_main n v t
    \<or> main_event (main_pc s) s = [WakeMain] \<and> main_turn n (v + 1) t"
proof -
  have v: "v \<le> n + 1" using to_main_common [OF assms(3)] by simp
  have move: "main_pc s = MSig v SDone \<and> t = s\<lparr>main_pc := MWait v WLock\<rparr>
      \<or> main_pc s = MWait v WLock \<and> t = s\<lparr>main_pc := MWait v WTest, hand_back := (hand_back s)\<lparr>locked := True\<rparr>\<rparr>
      \<or> main_pc s = MWait v WTest \<and> t = s\<lparr>main_pc := MWait v WUnlock, hand_back := (hand_back s)\<lparr>signalled := 0\<rparr>\<rparr>"
    if "signalled (hand_back s) = 1" "main_pc s \<in> {MSig v SDone, MWait v WLock, MWait v WTest}"
    using assms(1) that by (auto simp: main_waits_def split: if_split_asm)
  from assms(3) show ?thesis
  proof (cases rule: to_main_cases)
    case flag_unlock
    have "main_pc s \<noteq> MWait v WTest"
      using assms(2) flag_unlock(4) by (auto simp: lock_defs)
    with move [OF flag_unlock(1,3)] consider
        "main_pc s = MSig v SDone" "t = s\<lparr>main_pc := MWait v WLock\<rparr>"
      | "main_pc s = MWait v WLock" "t = s\<lparr>main_pc := MWait v WTest, hand_back := (hand_back s)\<lparr>locked := True\<rparr>\<rparr>"
      by blast
    then show ?thesis
      by cases (use flag_unlock(1,2,4-) to_main_common [OF assms(3)] in \<open>simp_all add: to_main_def\<close>)
  next
    case flag_idle
    from move [OF flag_idle(1,3)] consider
        "main_pc s = MSig v SDone" "t = s\<lparr>main_pc := MWait v WLock\<rparr>"
      | "main_pc s = MWait v WLock" "t = s\<lparr>main_pc := MWait v WTest, hand_back := (hand_back s)\<lparr>locked := True\<rparr>\<rparr>"
      | "main_pc s = MWait v WTest" "t = s\<lparr>main_pc := MWait v WUnlock, hand_back := (hand_back s)\<lparr>signalled := 0\<rparr>\<rparr>"
      by blast
    then show ?thesis
    proof cases
      case 1
      with flag_idle(4) have "child_idle (v = n + 1) t" by (simp add: child_idle_def)
      with 1 flag_idle(1,2) to_main_common [OF assms(3)] show ?thesis by (simp add: to_main_def)
    next
      case 2
      with flag_idle(4) have "child_idle (v = n + 1) t" by (simp add: child_idle_def)
      with 2 flag_idle(1,2) to_main_common [OF assms(3)] show ?thesis by (simp add: to_main_def)
    next
      case 3
      with flag_idle(4) have "child_idle (v = n + 1) t" by (simp add: child_idle_def)
      with 3 flag_idle(1,2) to_main_common [OF assms(3)] show ?thesis by (simp add: main_turn_def)
    qed
  next
    case waiter_idle
    with assms(1) have t: "t = s\<lparr>main_pc := MWait v WDone\<rparr>" by (simp add: main_waits_def)
    with waiter_idle(4) have "child_idle (v = n + 1) t" by (simp add: child_idle_def)
    with waiter_idle t to_main_common [OF assms(3)] v show ?thesis by (simp add: main_turn_def)
  qed (use assms(1) in \<open>simp_all add: main_waits_def\<close>)
qed

section \<open>The simulation\<close>

lemma simulates_0: "simulates n (4 * v) s \<longleftrightarrow> locks_ok s \<and> flags_ok n s \<and> main_turn n v s"
  by (simp add: simulates_def)

lemma simulates_1: "simulates n (4 * v + 1) s \<longleftrightarrow> locks_ok s \<and> flags_ok n s \<and> to_child n v s"
proof -
  have "(4 * v + 1) mod 4 = 1" "(4 * v + 1) div 4 = v" by presburger+
  then show ?thesis unfolding simulates_def by simp
qed

lemma simulates_2: "simulates n (4 * v + 2) s \<longleftrightarrow> locks_ok s \<and> flags_ok n s \<and> child_turn n v s"
proof -
  have "(4 * v + 2) mod 4 = 2" "(4 * v + 2) div 4 = v" by presburger+
  then show ?thesis unfolding simulates_def by simp
qed

lemma simulates_3: "simulates n (4 * v + 3) s \<longleftrightarrow> locks_ok s \<and> flags_ok n s \<and> to_main n v s"
proof -
  have "(4 * v + 3) mod 4 = 3" "(4 * v + 3) div 4 = v" by presburger+
  then show ?thesis unfolding simulates_def by simp
qed

lemma volley_cases:
  fixes k :: nat
  obtains v where "k = 4 * v" | v where "k = 4 * v + 1" | v where "k = 4 * v + 2" | v where "k = 4 * v + 3"
proof -
  have "k = 4 * (k div 4) + k mod 4" "k mod 4 < 4" by simp_all
  then show thesis using that [of "k div 4"] by linarith
qed

lemma event_no_simps [simp]:
  "event_no (4 * v) = SignalThere" "event_no (Suc (4 * v)) = WakeChild"
  "event_no (4 * v + 2) = SignalBack" "event_no (4 * v + 3) = WakeMain"
  by (simp_all add: event_no_def) (simp_all add: numeral_2_eq_2 numeral_3_eq_3 mod_Suc)

lemma not_done:
  assumes "simulates n k s" and "main_pc s = MDone" and "hand_child (child_pc s) s = Next t"
  shows False
  using assms by (simp add: simulates_def flags_ok_def)

text \<open>
  The simulation step: whatever the detailed system does, the specification does nothing or its
  next event.
\<close>

lemma simulation_step:
  assumes "hand_step n s es t" and "simulates n k s"
  shows "\<exists>k'. abs_step n k es k' \<and> simulates n k' t"
  using assms(1)
proof (rule hand_stepE)
  assume main_moves: "es = main_event (main_pc s) s" "hand_body n (main_pc s) s = Next t"
  have s: "locks_ok s" "flags_ok n s" using assms(2) by (simp_all add: simulates_def)
  note ok = locks_ok_main [OF main_moves(2) s(1)] flags_ok_main [OF main_moves(2) s(2)] s
  show ?thesis
  proof (cases k rule: volley_cases)
    case (1 v)
    with assms(2) have "main_turn n v s" by (simp add: simulates_0)
    from main_from_main_turn [OF main_moves(2) ok(3,4) this] show ?thesis
    proof
      assume "main_event (main_pc s) s = [] \<and> main_turn n v t"
      with main_moves(1) 1 ok show ?thesis by (auto simp: simulates_0 intro: abs_step.quiet)
    next
      assume e: "main_event (main_pc s) s = [SignalThere] \<and> to_child n v t \<and> v \<le> n + 1"
      then have "abs_step n (4 * v) [event_no (4 * v)] (4 * v + 1)" by (intro abs_step.pass) simp
      with main_moves(1) 1 e ok simulates_1 [of n v t] show ?thesis by auto
    qed
  next
    case (2 v)
    with assms(2) have "to_child n v s" by (simp only: simulates_1)
    from main_from_to_child [OF main_moves(2) this] main_moves(1) 2 ok simulates_1 [of n v t]
    show ?thesis by (auto intro: abs_step.quiet)
  next
    case (3 v)
    with assms(2) have "child_turn n v s" by (simp only: simulates_2)
    from main_from_child_turn [OF main_moves(2) this] main_moves(1) 3 ok simulates_2 [of n v t]
    show ?thesis by (auto intro: abs_step.quiet)
  next
    case (4 v)
    with assms(2) have m: "to_main n v s" by (simp only: simulates_3)
    from main_from_to_main [OF main_moves(2) ok(3) this] show ?thesis
    proof
      assume "main_event (main_pc s) s = [] \<and> to_main n v t"
      with main_moves(1) 4 ok simulates_3 [of n v t] show ?thesis by (auto intro: abs_step.quiet)
    next
      assume e: "main_event (main_pc s) s = [WakeMain] \<and> main_turn n (v + 1) t"
      have "abs_step n (4 * v + 3) [event_no (4 * v + 3)] (4 * v + 3 + 1)"
        using to_main_common [OF m] by (intro abs_step.pass) simp
      moreover have "4 * v + 3 + 1 = 4 * (v + 1)" by simp
      ultimately show ?thesis using main_moves(1) 4 e ok simulates_0 [of n "v + 1" t]
        by (metis event_no_simps(4))
    qed
  qed
next
  assume child_moves: "es = child_event (child_pc s) s" "hand_child (child_pc s) s = Next t"
  have live: "main_pc s \<noteq> MDone" using not_done [OF assms(2)] child_moves(2) by blast
  have s: "locks_ok s" "flags_ok n s" using assms(2) by (simp_all add: simulates_def)
  note ok = locks_ok_child [OF child_moves(2) s(1)] flags_ok_child [OF child_moves(2) s(2) live] s
  show ?thesis
  proof (cases k rule: volley_cases)
    case (1 v)
    with assms(2) have "main_turn n v s" by (simp add: simulates_0)
    from child_from_main_turn [OF child_moves(2) this] child_moves(1) 1 ok show ?thesis
      by (auto simp: simulates_0 intro: abs_step.quiet)
  next
    case (2 v)
    with assms(2) have m: "to_child n v s" by (simp only: simulates_1)
    from child_from_to_child [OF child_moves(2) ok(3) this] show ?thesis
    proof
      assume "child_event (child_pc s) s = [] \<and> to_child n v t"
      with child_moves(1) 2 ok simulates_1 [of n v t] show ?thesis by (auto intro: abs_step.quiet)
    next
      assume e: "child_event (child_pc s) s = [WakeChild] \<and> child_turn n v t"
      have "abs_step n (4 * v + 1) [event_no (4 * v + 1)] (4 * v + 1 + 1)"
        using to_child_common [OF m] by (intro abs_step.pass) simp
      with child_moves(1) 2 e ok simulates_2 [of n v t] show ?thesis by auto
    qed
  next
    case (3 v)
    with assms(2) have m: "child_turn n v s" by (simp only: simulates_2)
    from child_from_child_turn [OF child_moves(2) ok(3,4) this] show ?thesis
    proof
      assume "child_event (child_pc s) s = [] \<and> child_turn n v t"
      with child_moves(1) 3 ok simulates_2 [of n v t] show ?thesis by (auto intro: abs_step.quiet)
    next
      assume e: "child_event (child_pc s) s = [SignalBack] \<and> to_main n v t"
      have "abs_step n (4 * v + 2) [event_no (4 * v + 2)] (4 * v + 2 + 1)"
        using m by (intro abs_step.pass) (simp add: child_turn_def)
      moreover have "4 * v + 2 + 1 = 4 * v + 3" by simp
      ultimately show ?thesis using child_moves(1) 3 e ok simulates_3 [of n v t]
        by (metis event_no_simps(3))
    qed
  next
    case (4 v)
    with assms(2) have "to_main n v s" by (simp only: simulates_3)
    from child_from_to_main [OF child_moves(2) this] child_moves(1) 4 ok simulates_3 [of n v t]
    show ?thesis by (auto intro: abs_step.quiet)
  qed
qed

lemma run_simulates: "hand_run n es m s \<Longrightarrow> simulates n (length es) s \<and> es = map event_no [0..<length es]
    \<and> length es \<le> 4 * (n + 2)"
proof (induction rule: hand_run.induct)
  case start
  show ?case by (simp add: simulates_init)
next
  case (step es m s e t)
  then obtain k' where k': "abs_step n (length es) e k'" "simulates n k' t"
    using simulation_step [of n s e t "length es"] by blast
  from k'(1) show ?case by (cases rule: abs_step.cases) (use k'(2) step.IH in auto)
qed

lemma main_done:
  assumes "simulates n k s" and "main_pc s = MDone"
  shows "k = 4 * (n + 2)"
proof (cases k rule: volley_cases)
  case (1 v)
  with assms show ?thesis by (auto simp: simulates_0 main_turn_def)
next
  case (2 v)
  with assms have "to_child n v s" by (simp only: simulates_1)
  then show ?thesis by (cases rule: to_child_cases) (use assms(2) in \<open>auto simp: main_idle_def\<close>)
next
  case (3 v)
  with assms have "child_turn n v s" by (simp only: simulates_2)
  with assms(2) show ?thesis by (auto simp: child_turn_def main_idle_def)
next
  case (4 v)
  with assms have "to_main n v s" by (simp only: simulates_3)
  then show ?thesis by (cases rule: to_main_cases) (use assms(2) in auto)
qed

text \<open>
  C3. Refinement: the gates implement the handoff. In every interleaving of the two goroutines,
  for every number \<open>n\<close> of iterations, the observable events are a prefix of the alternation of
  the specification: no wakeup is lost, none is made up, each side moves only on the other's
  signal, and there are at most \<open>n + 2\<close> volleys. When the main goroutine has finished, all
  \<open>n + 2\<close> volleys have happened.
\<close>
theorem handoff_alternates:
  assumes "hand_run n es m s"
  shows "es = map event_no [0..<length es] \<and> length es \<le> 4 * (n + 2)
    \<and> (main_pc s = MDone \<longrightarrow> length es = 4 * (n + 2))"
  using run_simulates [OF assms] main_done [of n "length es" s] by blast

section \<open>Progress\<close>

lemma no_fault:
  assumes "simulates n k s"
  shows "hand_body n (main_pc s) s \<noteq> Fault" and "hand_child (child_pc s) s \<noteq> Fault"
proof -
  have ready: "(\<exists>v w. main_pc s = MSig v (SReady w) \<and> \<not> parked s w) = False
    \<and> (\<exists>b w. child_pc s = CSig b (SReady w) \<and> \<not> parked s w) = False"
  proof (cases k rule: volley_cases)
    case (1 v)
    with assms have "main_turn n v s" by (simp add: simulates_0)
    then show ?thesis by (auto simp: main_turn_def child_idle_def split: if_split_asm)
  next
    case (2 v)
    with assms have "to_child n v s" by (simp only: simulates_1)
    then show ?thesis by (cases rule: to_child_cases) (auto simp: main_idle_def)
  next
    case (3 v)
    with assms have "child_turn n v s" by (simp only: simulates_2)
    then show ?thesis by (auto simp: child_turn_def main_idle_def)
  next
    case (4 v)
    with assms have "to_main n v s" by (simp only: simulates_3)
    then show ?thesis by (cases rule: to_main_cases) (auto simp: child_idle_def split: if_split_asm)
  qed
  show "hand_body n (main_pc s) s \<noteq> Fault"
  proof (cases "main_pc s")
    case (MSig v pc)
    with ready show ?thesis by (cases pc) (auto simp: main_signals_def split: option.split)
  next
    case (MWait v pc)
    then show ?thesis by (cases pc) (simp_all add: main_waits_def)
  qed simp_all
  show "hand_child (child_pc s) s \<noteq> Fault"
  proof (cases "child_pc s")
    case (CSig b pc)
    with ready show ?thesis by (cases pc) (auto simp: child_signals_def split: option.split)
  next
    case (CWait pc)
    then show ?thesis by (cases pc) (simp_all add: child_waits_def)
  qed simp_all
qed

text \<open>
  C4. Safety: \<open>sched_ready\<close> is only ever called on a goroutine that is parked, in every reachable
  state of every interleaving, although the signaller lets go of the lock before it calls it.
\<close>
theorem handoff_no_fault:
  assumes "hand_run n es m s"
  shows "hand_body n (main_pc s) s \<noteq> Fault \<and> hand_child (child_pc s) s \<noteq> Fault"
  using no_fault run_simulates [OF assms] by blast

text \<open>A goroutine that can move, and whose move changes the state.\<close>

definition can_move :: "nat \<Rightarrow> hand \<Rightarrow> bool" where
  "can_move n s \<longleftrightarrow> (\<exists>e t. hand_step n s e t \<and> t \<noteq> s)"

lemma main_can:
  assumes "hand_body n (main_pc s) s = Next t" and "main_pc t \<noteq> main_pc s"
  shows "can_move n s"
  unfolding can_move_def using hand_step.main_moves [OF assms(1)] assms(2) by blast

lemma child_can:
  assumes "hand_child (child_pc s) s = Next t" and "child_pc t \<noteq> child_pc s"
  shows "can_move n s"
  unfolding can_move_def using hand_step.child_moves [OF assms(1)] assms(2) by blast

text \<open>Where a goroutine is never blocked.\<close>

lemma child_free:
  assumes "child_pc s \<in> {CWait WTest, CWait WUnlock, CWait WPark, CWait WDone, CRead, CSig b STest,
      CSig b SUnlock, CSig b SDone, CAdd} \<or> child_pc s = CSig b (SUnlockW w)
    \<or> child_pc s = CSig b (SReady w) \<and> parked s w
    \<or> child_pc s = CWait WParked \<and> \<not> parked s ChildG
    \<or> child_pc s = CWait WLock \<and> \<not> locked (hand_there s) \<or> child_pc s = CSig b SLock \<and> \<not> locked (hand_back s)"
  shows "can_move n s"
proof -
  have "\<exists>t. hand_child (child_pc s) s = Next t \<and> child_pc t \<noteq> child_pc s"
    using assms by (elim disjE insertE emptyE conjE)
      (auto simp: child_waits_def child_signals_def split: option.split)
  then show ?thesis using child_can by blast
qed

lemma main_free:
  assumes "main_pc s \<in> {MWait v WTest, MWait v WUnlock, MWait v WPark, MWait v WDone, MSig v STest,
      MSig v SUnlock, MSig v SDone, MLoop v, MStop} \<or> main_pc s = MSig v (SUnlockW w)
    \<or> main_pc s = MSig v (SReady w) \<and> parked s w
    \<or> main_pc s = MWait v WParked \<and> \<not> parked s MainG
    \<or> main_pc s = MWait v WLock \<and> \<not> locked (hand_back s) \<or> main_pc s = MSig v SLock \<and> \<not> locked (hand_there s)
    \<or> main_pc s = MSpin \<and> hand_gone s \<noteq> 0"
  shows "can_move n s"
proof -
  have "\<exists>t. hand_body n (main_pc s) s = Next t \<and> main_pc t \<noteq> main_pc s"
    using assms by (elim disjE insertE emptyE conjE)
      (auto simp: main_waits_def main_signals_def after_wait_def split: option.split)
  then show ?thesis using main_can by blast
qed

lemma main_idle_pcs: "main_idle v s \<Longrightarrow> main_pc s = MSig v SDone \<or> main_pc s = MWait v WLock
    \<or> main_pc s = MWait v WTest \<or> main_pc s = MWait v WPark \<or> main_pc s = MWait v WParked \<and> parked s MainG"
  by (auto simp: main_idle_def)

lemma progress:
  assumes "simulates n k s" and "main_pc s \<noteq> MDone"
  shows "can_move n s"
proof (cases k rule: volley_cases)
  case (1 v)
  with assms(1) have m: "main_turn n v s" and locks: "locks_ok s" and flags: "flags_ok n s"
    by (simp_all add: simulates_0)
  have idle: "child_idle (v = n + 2) s" using m by (simp add: main_turn_def)
  from m assms(2) consider "main_pc s = MSig v SLock" | "main_pc s = MSig v STest"
    | "main_pc s = MWait (v - 1) WUnlock" | "main_pc s = MWait (v - 1) WDone" | "main_pc s = MLoop (v - 1)"
    | "main_pc s = MStop" | "main_pc s = MSpin" "v = n + 2" unfolding main_turn_def by blast
  then show ?thesis
  proof cases
    case 1
    show ?thesis
    proof (cases "locked (hand_there s)")
      case True
      with locks 1 have "child_in_there s" by (simp add: locks_ok_def main_in_there_def)
      then have "child_pc s \<in> {CWait WTest, CWait WUnlock, CWait WPark}"
        by (auto simp: child_in_there_def split: child_pc.split_asm elim: wait_holds.elims)
      then show ?thesis by (intro child_free [of _ False undefined]) auto
    next
      case False
      with 1 show ?thesis by (intro main_free) simp
    qed
  next
    case 7
    show ?thesis
    proof (cases "hand_gone s = 0")
      case True
      with flags have "child_pc s \<noteq> CDone" by (auto simp: flags_ok_def)
      with idle 7 have "child_pc s \<in> {CSig True SDone, CAdd}" by (auto simp: child_idle_def)
      then show ?thesis by (intro child_free [of _ True undefined]) auto
    next
      case False
      with 7 show ?thesis by (intro main_free) simp
    qed
  qed (rule main_free, simp)+
next
  case (2 v)
  with assms(1) have m: "to_child n v s" and locks: "locks_ok s" by (simp_all only: simulates_1)
  from m show ?thesis
  proof (cases rule: to_child_cases)
    case flag_unlock
    then show ?thesis by (intro main_free) simp
  next
    case flag_idle
    show ?thesis
    proof (cases "child_pc s = CWait WLock")
      case True
      with locks main_idle_pcs [OF flag_idle(4)] have "\<not> locked (hand_there s)"
        by (auto simp: lock_defs)
      with True show ?thesis by (intro child_free) simp
    next
      case False
      with flag_idle(3) show ?thesis by (intro child_free [of _ False undefined]) auto
    qed
  next
    case waiter_unlock
    then show ?thesis by (intro main_free) simp
  next
    case waiter_ready
    then show ?thesis by (intro main_free) simp
  next
    case waiter_idle
    then show ?thesis by (intro child_free) simp
  qed
next
  case (3 v)
  with assms(1) have m: "child_turn n v s" and locks: "locks_ok s" by (simp_all only: simulates_2)
  have idle: "main_idle v s" using m by (simp add: child_turn_def)
  show ?thesis
  proof (cases "child_pc s = CSig (v = n + 1) SLock \<and> locked (hand_back s)")
    case True
    with locks have "main_in_back s" by (simp add: locks_ok_def child_in_back_def)
    with main_idle_pcs [OF idle] have "main_pc s \<in> {MWait v WTest, MWait v WPark}"
      by (auto simp: main_in_back_def)
    then show ?thesis by (intro main_free [of _ v undefined]) auto
  next
    case False
    with m show ?thesis by (intro child_free [of _ "v = n + 1" undefined]) (auto simp: child_turn_def)
  qed
next
  case (4 v)
  with assms(1) have m: "to_main n v s" and locks: "locks_ok s" by (simp_all only: simulates_3)
  from m show ?thesis
  proof (cases rule: to_main_cases)
    case flag_unlock
    then show ?thesis by (intro child_free) simp
  next
    case flag_idle
    show ?thesis
    proof (cases "main_pc s = MWait v WLock")
      case True
      have "\<not> child_in_back s" using flag_idle(4)
        by (auto simp: child_idle_def child_in_back_def split: if_split_asm)
      with locks True have "\<not> locked (hand_back s)" by (simp add: locks_ok_def main_in_back_def)
      with True show ?thesis by (intro main_free) simp
    next
      case False
      with flag_idle(3) show ?thesis by (intro main_free [of _ v undefined]) auto
    qed
  next
    case waiter_unlock
    then show ?thesis by (intro child_free) simp
  next
    case waiter_ready
    then show ?thesis by (intro child_free) simp
  next
    case waiter_idle
    then show ?thesis by (intro main_free) simp
  qed
qed

section \<open>Every run ends\<close>

text \<open>How far a goroutine is from its next event.\<close>

fun wait_rank :: "wait_pc \<Rightarrow> nat" where
  "wait_rank WLock = 14" | "wait_rank WTest = 13" | "wait_rank WPark = 12" | "wait_rank WParked = 11"
| "wait_rank WUnlock = 9" | "wait_rank WDone = 8"

fun signal_rank :: "signal_pc \<Rightarrow> nat" where
  "signal_rank SLock = 5" | "signal_rank STest = 4" | "signal_rank (SUnlockW w) = 17"
| "signal_rank (SReady w) = 16" | "signal_rank SUnlock = 16" | "signal_rank SDone = 15"

fun main_rank :: "main_pc \<Rightarrow> nat" where
  "main_rank (MSig v pc) = signal_rank pc" | "main_rank (MWait v pc) = wait_rank pc"
| "main_rank (MLoop i) = 7" | "main_rank MStop = 6" | "main_rank MSpin = 7" | "main_rank MDone = 0"

fun child_rank :: "child_pc \<Rightarrow> nat" where
  "child_rank (CWait pc) = wait_rank pc" | "child_rank CRead = 7" | "child_rank (CSig b pc) = signal_rank pc"
| "child_rank CAdd = 14" | "child_rank CDone = 13"

definition rank :: "hand \<Rightarrow> nat" where
  "rank s = main_rank (main_pc s) + child_rank (child_pc s)"

lemma rank_bound: "rank s \<le> 34"
proof -
  have w: "wait_rank pc \<le> 17" for pc by (cases pc) simp_all
  have g: "signal_rank pc \<le> 17" for pc by (cases pc) simp_all
  have "main_rank pc \<le> 17" for pc by (cases pc) (simp_all add: w g)
  moreover have "child_rank pc \<le> 17" for pc by (cases pc) (simp_all add: w g)
  ultimately show ?thesis unfolding rank_def by (metis add_mono numeral_Bit0)
qed

lemma rank_step:
  assumes "hand_step n s e t"
  shows "t = s \<or> length e = 1 \<or> e = [] \<and> rank t < rank s"
  using assms
proof (rule hand_stepE)
  assume e: "e = main_event (main_pc s) s" and t: "hand_body n (main_pc s) s = Next t"
  show ?thesis
  proof (cases "main_pc s")
    case (MSig v pc)
    with e t show ?thesis
      by (cases pc) (auto simp: rank_def main_signals_def split: if_split_asm option.split_asm)
  next
    case (MWait v pc)
    with e t show ?thesis
      by (cases pc) (auto simp: rank_def main_waits_def after_wait_def split: if_split_asm)
  qed (use e t in \<open>auto simp: rank_def split: if_split_asm\<close>)
next
  assume e: "e = child_event (child_pc s) s" and t: "hand_child (child_pc s) s = Next t"
  show ?thesis
  proof (cases "child_pc s")
    case (CSig b pc)
    with e t show ?thesis
      by (cases pc) (auto simp: rank_def child_signals_def split: if_split_asm option.split_asm)
  next
    case (CWait pc)
    with e t show ?thesis
      by (cases pc) (auto simp: rank_def child_waits_def split: if_split_asm)
  qed (use e t in \<open>auto simp: rank_def split: if_split_asm\<close>)
qed

lemma run_length: "hand_run n es m s \<Longrightarrow> m + rank s \<le> 34 + 35 * length es"
proof (induction rule: hand_run.induct)
  case start
  show ?case using rank_bound [of hand_init] by simp
next
  case (step es m s e t)
  from rank_step [OF step.hyps(2)] step.IH rank_bound [of t] show ?case by auto
qed

text \<open>
  C5. Liveness: the handoff ends. A run of \<open>n\<close> iterations makes at most \<open>140 n + 314\<close> steps that
  change the state, in any interleaving; and as long as the main goroutine has not finished, one
  of the two goroutines can make such a step. So there is no deadlock, and a scheduler that goes
  on running whoever can move comes to the end.
\<close>
theorem handoff_ends:
  assumes "hand_run n es m s"
  shows "m \<le> 140 * n + 314 \<and> (main_pc s = MDone \<or> can_move n s)"
proof -
  have "length es \<le> 4 * (n + 2)" and sim: "simulates n (length es) s"
    using run_simulates [OF assms] by simp_all
  then have "m \<le> 140 * n + 314" using run_length [OF assms] by simp
  with progress [OF sim] show ?thesis by blast
qed

section \<open>A run\<close>

text \<open>The first volley: the child parks before the main goroutine signals.\<close>

definition child_parks :: hand where
  "child_parks = hand_init\<lparr>child_pc := CWait WParked, hand_there := zero_gate\<lparr>waiter := Some ChildG\<rparr>,
     parked := (\<lambda>g. False)(ChildG := True)\<rparr>"

lemma run_child_parks: "hand_run n [] 3 child_parks"
proof -
  let ?s1 = "hand_init\<lparr>child_pc := CWait WTest, hand_there := zero_gate\<lparr>locked := True\<rparr>\<rparr>"
  let ?s2 = "hand_init\<lparr>child_pc := CWait WPark, hand_there := zero_gate\<lparr>locked := True, waiter := Some ChildG\<rparr>\<rparr>"
  have s1: "hand_step n hand_init [] ?s1"
    using hand_step.child_moves [of hand_init ?s1 n] by (simp add: hand_init_def child_waits_def zero_gate_def)
  have s2: "hand_step n ?s1 [] ?s2"
    using hand_step.child_moves [of ?s1 ?s2 n] by (simp add: hand_init_def child_waits_def zero_gate_def)
  have s3: "hand_step n ?s2 [] child_parks"
    using hand_step.child_moves [of ?s2 child_parks n]
    by (simp add: hand_init_def child_parks_def child_waits_def zero_gate_def gate_unlock_def)
  have "hand_run n [] 1 ?s1"
    using hand_run.step [OF hand_run.start s1] by (simp add: hand_init_def)
  from hand_run.step [OF this s2] have "hand_run n [] 2 ?s2"
    by (simp add: hand_init_def zero_gate_def numeral_2_eq_2 split: if_split_asm)
  from hand_run.step [OF this s3] show ?thesis
    by (simp add: hand_init_def child_parks_def zero_gate_def numeral_3_eq_3 numeral_2_eq_2 split: if_split_asm)
qed

text \<open>Or the main goroutine signals first, and the flag remembers it.\<close>

definition main_signalled :: hand where
  "main_signalled = hand_init\<lparr>main_pc := MSig 0 SUnlock,
     hand_there := zero_gate\<lparr>locked := True, signalled := 1\<rparr>\<rparr>"

lemma run_main_signalled: "hand_run n [SignalThere] 2 main_signalled"
proof -
  let ?s1 = "hand_init\<lparr>main_pc := MSig 0 STest, hand_there := zero_gate\<lparr>locked := True\<rparr>\<rparr>"
  have s1: "hand_step n hand_init [] ?s1"
    using hand_step.main_moves [of n hand_init ?s1] by (simp add: hand_init_def main_signals_def zero_gate_def)
  have s2: "hand_step n ?s1 [SignalThere] main_signalled"
    using hand_step.main_moves [of n ?s1 main_signalled]
    by (simp add: hand_init_def main_signalled_def main_signals_def zero_gate_def)
  have "hand_run n [] 1 ?s1"
    using hand_run.step [OF hand_run.start s1] by (simp add: hand_init_def)
  from hand_run.step [OF this s2] show ?thesis
    by (simp add: hand_init_def main_signalled_def zero_gate_def numeral_2_eq_2 split: if_split_asm)
qed

theorem handoff_alternates_witness:
  "hand_run 1 [SignalThere] 2 main_signalled \<and> [SignalThere] = map event_no [0..<1]"
  using handoff_alternates [OF run_main_signalled [of 1]] run_main_signalled [of 1] by simp

theorem handoff_no_fault_witness: "hand_body 1 (main_pc child_parks) child_parks \<noteq> Fault"
  using handoff_no_fault [OF run_child_parks [of 1]] by simp

theorem handoff_ends_witness: "can_move 1 child_parks"
  using handoff_ends [OF run_child_parks [of 1]] by (simp add: child_parks_def hand_init_def)

end
