(* ===== verification/Sched_Bench.thy ===== *)
theory Sched_Bench
  imports Runtime_Lib Sched_Gate
begin

text \<open>
  \<open>bench/sched_bench.c\<close>: what goroutines cost. The handoff through two gates is the theory
  \<open>Sched_Gate\<close>, where every interleaving matters; here are the other rows, whose goroutines
  share one counter that the main goroutine looks at only after it has yielded.
\<close>

section \<open>What the file takes from burrow\<close>

text \<open>
  \<open>go_launch\<close> says whether the goroutine was launched. \<open>sched_yield\<close> is \<open>runtime_gosched\<close>: it
  returns how many turns the other goroutines got before it came back.
\<close>

record 'm sched_lib =
  go_launch :: "(bool, 'm) op"
  sched_yield :: "(nat, 'm) op"

definition run_with_one_p :: "'m host \<Rightarrow> 'm runtime_lib \<Rightarrow> 'm cstmt \<Rightarrow> 'm cstmt" where
  "run_with_one_p h R body = block [
     pausing h,
     calling (gomaxprocs R 1) (\<lambda>old. block [
       runtime_main R body,
       call_op (gomaxprocs R old)])]"

section \<open>Counting goroutines\<close>

text \<open>
  A child that has been launched and has not run yet is pending. It adds one to its 32-bit counter
  and is gone.
\<close>

definition counting_child :: "string \<Rightarrow> 'm cstmt" where
  "counting_child counter = reading (\<lambda>p. u64_var p counter) (\<lambda>c. set_u64 counter (take_bit 32 (c + 1)))"

definition start_child :: "'m cstmt" where
  "start_child = counting_child ''start_ran''"

definition batch_child :: "'m cstmt" where
  "batch_child = counting_child ''batch_done''"

definition pending :: "'m process \<Rightarrow> nat" where
  "pending p = nat (int_var p ''sched.pending'')"

text \<open>A launch, and a yield in which pending children get turns.\<close>

definition launching :: "'m sched_lib \<Rightarrow> (bool \<Rightarrow> 'm cstmt) \<Rightarrow> 'm cstmt" where
  "launching L k = calling (go_launch L) (\<lambda>ok. reading pending (\<lambda>q. block [
     set_int ''sched.pending'' (int (if ok then q + 1 else q)), k ok]))"

definition yielding :: "'m sched_lib \<Rightarrow> 'm cstmt \<Rightarrow> 'm cstmt" where
  "yielding L child = calling (sched_yield L) (\<lambda>turns. reading pending (\<lambda>q. block [
     set_int ''sched.pending'' (int (q - min turns q)),
     repeat_for (min turns q) (\<lambda>_. child)]))"

text \<open>A launch that leaves the loop when it fails: the result says whether the loop goes on.\<close>

definition go_or_break ::
  "'m sched_lib \<Rightarrow> 'm cstmt \<Rightarrow> 'm process world \<Rightarrow> (bool \<times> 'm process world) option" where
  "go_or_break L k w = (let (ok, w) = call (lib (go_launch L)) w; q = pending (rest w) in do {
     w \<leftarrow> set_int ''sched.pending'' (int (if ok then q + 1 else q)) w;
     if ok then do { w \<leftarrow> k w; Some (True, w) } else Some (False, w) })"

section \<open>The bodies\<close>

definition start_body :: "'m host \<Rightarrow> 'm sched_lib \<Rightarrow> 'm cstmt" where
  "start_body h L = timed_section h (bench_loop_break (\<lambda>_. go_or_break L (yielding L start_child)))"

definition bench_goroutine_start :: "'m host \<Rightarrow> 'm runtime_lib \<Rightarrow> 'm sched_lib \<Rightarrow> 'm cstmt" where
  "bench_goroutine_start h R L = block [
     set_u64 ''start_ran'' 0, set_int ''sched.pending'' 0,
     run_with_one_p h R (start_body h L),
     reading (\<lambda>p. u64_var p ''start_ran'') keep_u64]"

definition SCHED_BATCH :: nat where "SCHED_BATCH = 64"

text \<open>\<open>while (batch_done < SCHED_BATCH) runtime_gosched()\<close>: nothing bounds this loop.\<close>

definition await_batch :: "'m sched_lib \<Rightarrow> 'm cstmt" where
  "await_batch L = while_loop (\<lambda>w. unat (u64_var (rest w) ''batch_done'') < SCHED_BATCH)
     (yielding L batch_child)"

definition launch_batch :: "'m sched_lib \<Rightarrow> 'm cstmt" where
  "launch_batch L = for_break SCHED_BATCH 0 (\<lambda>_. go_or_break L Some)"

definition batch_body :: "'m host \<Rightarrow> 'm sched_lib \<Rightarrow> 'm cstmt" where
  "batch_body h L = timed_section h (bench_loop (\<lambda>_. block [
     set_u64 ''batch_done'' 0,
     launch_batch L,
     await_batch L]))"

definition bench_goroutine_start_batch :: "'m host \<Rightarrow> 'm runtime_lib \<Rightarrow> 'm sched_lib \<Rightarrow> 'm cstmt" where
  "bench_goroutine_start_batch h R L = block [
     set_u64 ''batch_done'' 0, set_int ''sched.pending'' 0,
     run_with_one_p h R (batch_body h L),
     reading (\<lambda>p. u64_var p ''batch_done'') keep_u64]"

definition yield_alone_body :: "'m host \<Rightarrow> 'm sched_lib \<Rightarrow> 'm cstmt" where
  "yield_alone_body h L = timed_section h (bench_loop (\<lambda>_. call_op (sched_yield L)))"

definition bench_goroutine_yield_alone :: "'m host \<Rightarrow> 'm runtime_lib \<Rightarrow> 'm sched_lib \<Rightarrow> 'm cstmt" where
  "bench_goroutine_yield_alone h R L = run_with_one_p h R (yield_alone_body h L)"

text \<open>
  The child of the pair yields until it sees the stop flag, then it adds to \<open>pair_gone\<close> and is gone:
  a turn of it looks at the flag once.
\<close>

definition pair_child :: "'m cstmt" where
  "pair_child = reading (\<lambda>p. (u64_var p ''pair_stop'', u64_var p ''pair_gone'')) (\<lambda>(stop, gone).
     if stop \<noteq> 0 \<and> gone = 0 then set_u64 ''pair_gone'' (take_bit 32 (gone + 1)) else Some)"

definition yield_to_pair :: "'m sched_lib \<Rightarrow> 'm cstmt" where
  "yield_to_pair L = calling (sched_yield L) (\<lambda>turns. if 0 < turns then pair_child else Some)"

definition await_pair :: "'m sched_lib \<Rightarrow> 'm cstmt" where
  "await_pair L = while_loop (\<lambda>w. u64_var (rest w) ''pair_gone'' = 0) (yield_to_pair L)"

definition pair_body :: "'m host \<Rightarrow> 'm sched_lib \<Rightarrow> 'm cstmt" where
  "pair_body h L = calling (go_launch L) (\<lambda>ok. if \<not> ok then Some else block [
     yield_to_pair L,
     timed_section h (bench_loop (\<lambda>_. yield_to_pair L)),
     set_u64 ''pair_stop'' 1,
     await_pair L])"

definition bench_goroutine_yield_pair :: "'m host \<Rightarrow> 'm runtime_lib \<Rightarrow> 'm sched_lib \<Rightarrow> 'm cstmt" where
  "bench_goroutine_yield_pair h R L = block [
     set_u64 ''pair_stop'' 0, set_u64 ''pair_gone'' 0,
     run_with_one_p h R (pair_body h L)]"

definition bench_runtime_start_stop :: "'m runtime_lib \<Rightarrow> 'm cstmt" where
  "bench_runtime_start_stop R = bench_loop (\<lambda>_. runtime_main R Some)"

text \<open>The table, but for the handoff.\<close>

definition sched_table :: "'m host \<Rightarrow> 'm runtime_lib \<Rightarrow> 'm sched_lib \<Rightarrow> (string \<times> 'm cstmt) list" where
  "sched_table h R L = [
     (''goroutine_start'', bench_goroutine_start h R L),
     (''goroutine_start_batch'', bench_goroutine_start_batch h R L),
     (''goroutine_yield_alone'', bench_goroutine_yield_alone h R L),
     (''goroutine_yield_pair'', bench_goroutine_yield_pair h R L),
     (''runtime_start_stop'', bench_runtime_start_stop R)]"

section \<open>The contract\<close>

lemma run_with_one_p_moves [contract_rules]:
  "host_ok h \<Longrightarrow> does (advances clock) body \<Longrightarrow> does (advances clock) (run_with_one_p h R body)"
  unfolding run_with_one_p_def by (intro contract_rules)

lemma counting_child_moves [contract_rules]: "does (advances clock) (counting_child c)"
  unfolding counting_child_def by (intro contract_rules)

lemma yielding_moves [contract_rules]:
  "does (advances clock) child \<Longrightarrow> does (advances clock) (yielding L child)"
  unfolding yielding_def by (intro contract_rules)

lemma pair_child_moves [contract_rules]: "does (advances clock) pair_child"
  unfolding pair_child_def by (auto simp: split_beta intro!: contract_rules)

lemma yield_to_pair_moves [contract_rules]: "does (advances clock) (yield_to_pair L)"
  unfolding yield_to_pair_def by (intro contract_rules)

lemma go_or_break_moves:
  assumes "does (advances clock) k" and "go_or_break L k w = Some (g, w')"
  shows "advances clock w w'"
proof -
  let ?c = "call (lib (go_launch L)) w"
  let ?v = "perform (\<lambda>p. p\<lparr>int_var := (int_var p)(''sched.pending'' := int (if fst ?c
    then pending (rest (snd ?c)) + 1 else pending (rest (snd ?c))))\<rparr>) (snd ?c)"
  have "advances clock w (snd ?c)" by (rule advances_rest) simp_all
  also have "advances clock (snd ?c) ?v" by (rule advances_rest) (simp_all add: perform_def)
  finally have v: "advances clock w ?v" .
  have "?v = w' \<or> k ?v = Some w'"
    using assms(2) by (auto simp: go_or_break_def split_beta Let_def set_int_def assign_def
        bind_eq_Some_conv split: if_split_asm)
  with v doesD [OF assms(1)] show ?thesis by (blast intro: advances_trans)
qed

lemma sched_parts_move [contract_rules]:
  "does (advances clock) (await_batch L)" "does (advances clock) (await_pair L)"
  "does (advances clock) (launch_batch L)" "does (advances clock) start_child" "does (advances clock) batch_child"
proof -
  show c: "does (advances clock) start_child" "does (advances clock) batch_child"
    unfolding start_child_def batch_child_def by (intro contract_rules)+
  show "does (advances clock) (await_batch L)" "does (advances clock) (await_pair L)"
    unfolding await_batch_def await_pair_def by (intro contract_rules c)+
  show "does (advances clock) (launch_batch L)"
    unfolding launch_batch_def by (intro loop_break_moves) (rule go_or_break_moves [OF moving.skip_rule])
qed

lemma start_body_moves [contract_rules]: "host_ok h \<Longrightarrow> does (advances clock) (start_body h L)"
  unfolding start_body_def
  by (intro timed_section_moves loop_break_moves)
    (auto elim!: go_or_break_moves [rotated] intro: contract_rules)

lemma sched_bodies_move [contract_rules]:
  assumes "host_ok h"
  shows "does (advances clock) (batch_body h L)" "does (advances clock) (yield_alone_body h L)"
    "does (advances clock) (pair_body h L)"
  unfolding batch_body_def yield_alone_body_def pair_body_def
  by (intro contract_rules assms)+

lemma sched_table_moves:
  assumes "host_ok h" and "(nm, f) \<in> set (sched_table h R L)"
  shows "does (advances clock) f"
  using assms
  by (auto simp: sched_table_def bench_goroutine_start_def bench_goroutine_start_batch_def
      bench_goroutine_yield_alone_def bench_goroutine_yield_pair_def bench_runtime_start_stop_def
      intro!: contract_rules simp del: block.simps)

section \<open>Counting\<close>

text \<open>
  The count of the children that ran and of those that are pending, under the counter's name: the
  machine and everything else may change, the count of iterations and the sink may not.
\<close>

definition counted :: "string \<Rightarrow> nat \<Rightarrow> nat \<Rightarrow> 'm process world \<Rightarrow> 'm process world \<Rightarrow> bool" where
  "counted c cnt q w v \<longleftrightarrow> unat (u64_var (rest v) c) = cnt \<and> pending (rest v) = q
     \<and> kept v = kept w \<and> b_n (bch v) = b_n (bch w)"

lemma pending_set [simp]:
  "pending (p\<lparr>int_var := f(''sched.pending'' := i)\<rparr>) = nat i"
  "pending (p\<lparr>u64_var := g\<rparr>) = pending p" "pending (snd (lib h p)) = pending p"
  by (simp_all add: pending_def)

lemma small_count: "cnt < 2 ^ 32 - 1 \<Longrightarrow> unat (c :: u64) = cnt \<Longrightarrow> unat (take_bit 32 (c + 1)) = cnt + 1"
proof -
  assume a: "cnt < 2 ^ 32 - 1" "unat c = cnt"
  then have "unat (c + 1) = cnt + 1" by (simp add: unat_word_ariths)
  moreover have "unat (take_bit 32 (c + 1)) = take_bit 32 (unat (c + 1))"
    by (simp only: unsigned_take_bit_eq)
  ultimately show ?thesis using a by (simp add: take_bit_eq_mod)
qed

lemma children_run:
  assumes "counted c cnt q w v" and "cnt + r < 2 ^ 32"
  shows "\<exists>v'. repeat_for r (\<lambda>_. counting_child c) v = Some v' \<and> counted c (cnt + r) q w v'"
proof -
  have "\<exists>v'. for_loop r 0 (\<lambda>_. counting_child c) v = Some v' \<and> counted c (cnt + r) q w v'"
  proof (rule for_loop_total [where I = "\<lambda>j. counted c (cnt + j) q w"])
    fix j u assume j: "j < r" and u: "counted c (cnt + j) q w u"
    have "cnt + j < 2 ^ 32 - 1" using assms(2) j by simp
    with small_count [OF this, of "u64_var (rest u) c"] u
    show "\<exists>u'. counting_child c u = Some u' \<and> counted c (cnt + Suc j) q w u'"
      by (simp add: counted_def counting_child_def stmt_simps)
  qed (use assms(1) in simp)
  then show ?thesis by (simp add: repeat_for_def)
qed

lemma yield_run:
  assumes "counted c cnt q w v" and "cnt + q < 2 ^ 32" and "\<And>m. 0 < fst (sched_yield L m)"
  shows "\<exists>v' r. yielding L (counting_child c) v = Some v' \<and> counted c (cnt + r) (q - r) w v'
    \<and> r \<le> q \<and> (0 < q \<longrightarrow> 0 < r)"
proof -
  let ?k = "fst (sched_yield L (machine (rest v)))"
  let ?r = "min ?k q"
  let ?v = "perform (\<lambda>p. p\<lparr>int_var := (int_var p)(''sched.pending'' := int (q - ?r))\<rparr>)
    (snd (call (lib (sched_yield L)) v))"
  have "counted c cnt (q - ?r) w ?v" using assms(1) by (simp add: counted_def perform_def nat_diff_distrib)
  moreover have "cnt + ?r < 2 ^ 32" using assms(2) by simp
  ultimately obtain v' where "repeat_for ?r (\<lambda>_. counting_child c) ?v = Some v'"
    "counted c (cnt + ?r) (q - ?r) w v'" using children_run by blast
  moreover have "pending (rest v) = q" using assms(1) by (simp add: counted_def)
  ultimately show ?thesis using assms(3) [of "machine (rest v)"]
    by (auto simp: yielding_def calling_def split_beta reading_def set_int_def assign_def
        intro!: exI [of _ ?r])
qed

lemma launch_run:
  assumes "counted c cnt q w v" and "\<And>m. fst (go_launch L m)" and "k = Some"
  shows "\<exists>v'. go_or_break L k v = Some (True, v') \<and> counted c cnt (q + 1) w v'"
  using assms by (simp add: go_or_break_def split_beta Let_def set_int_def assign_def perform_def
      counted_def add.commute)

lemma batch_run:
  assumes "pending (rest v) = 0" and "\<And>m. fst (go_launch L m)" and "\<And>m. 0 < fst (sched_yield L m)"
  shows "\<exists>v'. block [set_u64 ''batch_done'' 0, launch_batch L, await_batch L] v = Some v'
    \<and> counted ''batch_done'' 64 0 v v'"
proof -
  let ?c = "''batch_done''"
  let ?v = "perform (\<lambda>p. p\<lparr>u64_var := (u64_var p)(?c := 0)\<rparr>) v"
  have start: "counted ?c 0 0 v ?v" using assms(1) by (simp add: counted_def perform_def)
  have launched: "\<exists>u'. for_break k j (\<lambda>_. go_or_break L Some) u = Some u' \<and> counted ?c 0 (q + k) v u'"
    if "counted ?c 0 q v u" for k j q u
    using that
  proof (induction k arbitrary: j q u)
    case (Suc k)
    obtain u1 where "go_or_break L Some u = Some (True, u1)" "counted ?c 0 (q + 1) v u1"
      using launch_run [OF Suc.prems assms(2) refl] by blast
    with Suc.IH [OF this(2), of "j + 1"] show ?case by auto
  qed simp
  obtain u where u: "launch_batch L ?v = Some u" "counted ?c 0 64 v u"
    using launched [OF start, of 64 0] by (auto simp: launch_batch_def SCHED_BATCH_def)
  let ?P = "\<lambda>x. \<exists>cnt q. counted ?c cnt q v x \<and> cnt + q = 64"
  have "\<exists>x. await_batch L u = Some x \<and> ?P x \<and> \<not> unat (u64_var (rest x) ?c) < SCHED_BATCH"
    unfolding await_batch_def
  proof (rule while_total [where m = "\<lambda>x. pending (rest x)"])
    show "?P u" using u(2) by (intro exI [of _ 0] exI [of _ 64]) simp
    fix x assume "?P x" and c: "unat (u64_var (rest x) ?c) < SCHED_BATCH"
    then obtain cnt q where x: "counted ?c cnt q v x" "cnt + q = 64" by blast
    with c have "0 < q" by (simp add: counted_def SCHED_BATCH_def)
    with yield_run [OF x(1), of L] x(2) assms(3) obtain y r where
      "yielding L batch_child x = Some y" "counted ?c (cnt + r) (q - r) v y" "r \<le> q" "0 < r"
      by (auto simp: batch_child_def)
    with x \<open>0 < q\<close> show "\<exists>y. yielding L batch_child x = Some y \<and> ?P y \<and> pending (rest y) < pending (rest x)"
      by (intro exI [of _ y]) (auto simp: counted_def)
  qed
  then obtain x cnt q where "await_batch L u = Some x" "counted ?c cnt q v x" "cnt + q = 64"
    "\<not> unat (u64_var (rest x) ?c) < SCHED_BATCH" by blast
  then have "await_batch L u = Some x" "counted ?c 64 0 v x" by (auto simp: counted_def SCHED_BATCH_def)
  with u(1) show ?thesis by (simp add: set_u64_def assign_def)
qed

text \<open>The frame of a row: what the body does to its counters is what the row does.\<close>

lemma one_p_run:
  fixes w :: "'m process world"
  assumes "host_ok h"
    and "\<And>v. int_var (rest v) = int_var (rest w) \<Longrightarrow> u64_var (rest v) = u64_var (rest w) \<Longrightarrow> kept v = kept w \<Longrightarrow>
      b_n (bch v) = b_n (bch w) \<Longrightarrow> \<exists>v'. body v = Some v' \<and> kept v' = kept w \<and> Q (u64_var (rest v'))"
  shows "\<exists>w'. run_with_one_p h R body w = Some w' \<and> kept w' = kept w \<and> Q (u64_var (rest w'))"
proof -
  obtain v where v: "pausing h w = Some v" "kept v = kept w" "b_n (bch v) = b_n (bch w)"
    "int_var (rest v) = int_var (rest w)" "u64_var (rest v) = u64_var (rest w)"
    using timer_stmt(1) [OF assms(1), of w] by blast
  let ?u = "snd (call (lib (runtime_start R)) (snd (call (lib (gomaxprocs R 1)) v)))"
  obtain x where "body ?u = Some x" "kept x = kept w" "Q (u64_var (rest x))"
    using assms(2) [of ?u] v by auto
  with v(1) show ?thesis
    by (simp add: run_with_one_p_def runtime_main_def calling_def split_beta)
qed

lemma one_p_row:
  fixes w :: "'m process world"
  assumes "host_ok h"
    and "\<And>v. kept v = kept w \<Longrightarrow> b_n (bch v) = b_n (bch w) \<Longrightarrow> \<exists>v'. body v = Some v' \<and> Q (kept v')"
  shows "\<exists>w'. run_with_one_p h R body w = Some w' \<and> Q (kept w')"
proof -
  obtain v where v: "pausing h w = Some v" "kept v = kept w" "b_n (bch v) = b_n (bch w)"
    using timer_stmt(1) [OF assms(1), of w] by blast
  let ?u = "snd (call (lib (runtime_start R)) (snd (call (lib (gomaxprocs R 1)) v)))"
  obtain x where "body ?u = Some x" "Q (kept x)" using assms(2) [of ?u] v by auto
  with v(1) show ?thesis by (simp add: run_with_one_p_def runtime_main_def calling_def split_beta)
qed

text \<open>
  C18. Liveness: a batch of 64 goroutines is waited for, neither more nor less. When every launch
  succeeds and every yield lets a pending goroutine run, the row comes back although nothing
  bounds its waiting loop, and the counter it hands to the sink is 64: no goroutine of a batch is
  lost, and none is left over to be counted in the next one.
\<close>
theorem batch_waits_for_all:
  assumes "host_ok h" and "\<And>m. fst (go_launch L m)" and "\<And>m. 0 < fst (sched_yield L m)"
    and "0 < b_n (bch w)"
  shows "\<exists>w'. bench_goroutine_start_batch h R L w = Some w' \<and> kept w' = kept w @ [KeptU64 64]"
proof -
  let ?c = "''batch_done''"
  let ?w = "perform (\<lambda>p. p\<lparr>u64_var := (u64_var p)(?c := 0), int_var := (int_var p)(''sched.pending'' := 0)\<rparr>) w"
  let ?round = "\<lambda>_ :: int. block [set_u64 ?c 0, launch_batch L, await_batch L]"
  have "\<exists>w'. run_with_one_p h R (batch_body h L) ?w = Some w' \<and> kept w' = kept ?w
    \<and> (\<lambda>u. unat (u ?c) = 64) (u64_var (rest w'))"
  proof (rule one_p_run [OF assms(1)])
    fix v :: "'a process world"
    assume v: "int_var (rest v) = int_var (rest ?w)" "kept v = kept ?w" "b_n (bch v) = b_n (bch ?w)"
    have "\<exists>v'. timed_section h (bench_loop ?round) v = Some v' \<and> kept v' = kept v @ []
      \<and> (\<lambda>m i u. unat (u ?c) = 64) (machine (rest v')) (int_var (rest v')) (u64_var (rest v'))"
    proof (rule timed_section_run [OF assms(1)])
      fix x :: "'a process world"
      assume x: "int_var (rest x) = int_var (rest v)" "kept x = kept v" "b_n (bch x) = b_n (bch v)"
      let ?I = "\<lambda>(j :: nat) z. pending (rest z) = 0 \<and> (0 < j \<longrightarrow> unat (u64_var (rest z) ?c) = 64)"
      have "\<exists>x'. bench_loop ?round x = Some x' \<and> ?I (nat (b_n (bch x))) x'
        \<and> kept x' = kept x @ concat (map (\<lambda>_. []) [0..<nat (b_n (bch x))])"
      proof (rule loop_kept [where I = ?I])
        show "?I 0 x" using x v by (simp add: pending_def perform_def)
        fix j and z :: "'a process world" assume "?I j z"
        then have "pending (rest z) = 0" by simp
        from batch_run [OF this assms(2,3)] obtain z' where
          "?round (int j) z = Some z'" "counted ?c 64 0 z z'" by blast
        then show "\<exists>z'. ?round (int j) z = Some z' \<and> kept z' = kept z @ [] \<and> ?I (Suc j) z'"
          by (auto simp: counted_def simp del: block.simps)
      qed
      then show "\<exists>x'. bench_loop ?round x = Some x' \<and> kept x' = kept v @ [] \<and> unat (u64_var (rest x') ?c) = 64"
        using x v assms(4) by (auto simp del: block.simps)
    qed
    then show "\<exists>v'. batch_body h L v = Some v' \<and> kept v' = kept ?w \<and> unat (u64_var (rest v') ?c) = 64"
      using v by (simp add: batch_body_def del: block.simps)
  qed
  then obtain v where v: "run_with_one_p h R (batch_body h L) ?w = Some v" "kept v = kept w"
    "unat (u64_var (rest v) ?c) = 64" by auto
  then have "u64_var (rest v) ?c = 64" by (simp add: word_unat_eq_iff)
  with v show ?thesis
    by (simp add: bench_goroutine_start_batch_def set_u64_def set_int_def assign_def reading_def
        keep_u64_def perform_def)
qed

text \<open>
  C19. Error: a launch that fails in the batch row hangs the benchmark. The loop that waits for 64
  children does not know how many were launched, so when \<open>go\<close> returns false the row never comes
  back, for any number of iterations but zero and any scheduler.
\<close>
theorem batch_hangs_on_failure:
  assumes "host_ok h" and "\<And>m. \<not> fst (go_launch L m)" and "0 < b_n (bch w)"
  shows "bench_goroutine_start_batch h R L w = None"
proof -
  let ?c = "''batch_done''"
  have spin: "await_batch L u = None" if "u64_var (rest u) ?c = 0" "pending (rest u) = 0" for u
    unfolding await_batch_def
  proof (rule while_spins [where P = "\<lambda>u. u64_var (rest u) ?c = 0 \<and> pending (rest u) = 0"])
    fix x x' assume "u64_var (rest x) ?c = 0 \<and> pending (rest x) = 0" "yielding L batch_child x = Some x'"
    then show "u64_var (rest x') ?c = 0 \<and> pending (rest x') = 0"
      by (auto simp: yielding_def stmt_simps)
  qed (use that in \<open>simp_all add: SCHED_BATCH_def\<close>)
  have round: "block [set_u64 ?c 0, launch_batch L, await_batch L] v = None" if "pending (rest v) = 0" for v
  proof -
    have "for_break SCHED_BATCH 0 (\<lambda>_. go_or_break L Some) u = Some u'
      \<Longrightarrow> pending (rest u') = pending (rest u) \<and> u64_var (rest u') = u64_var (rest u)" for u u'
      using assms(2) by (auto simp: SCHED_BATCH_def numeral_eq_Suc go_or_break_def split_beta Let_def
          set_int_def assign_def pending_def perform_def)
    with spin that show ?thesis
      by (cases "launch_batch L (perform (\<lambda>p. p\<lparr>u64_var := (u64_var p)(?c := 0)\<rparr>) v)")
        (auto simp: set_u64_def assign_def launch_batch_def perform_def)
  qed
  obtain k where k: "nat (b_n (bch w)) = Suc k" using assms(3) by (cases "nat (b_n (bch w))") auto
  let ?w = "perform (\<lambda>p. p\<lparr>u64_var := (u64_var p)(?c := 0), int_var := (int_var p)(''sched.pending'' := 0)\<rparr>) w"
  have body: "batch_body h L v = None" if v: "int_var (rest v) = int_var (rest ?w)" "b_n (bch v) = b_n (bch w)" for v
  proof -
    obtain x where x: "resuming h v = Some x" "b_n (bch x) = b_n (bch v)" "int_var (rest x) = int_var (rest v)"
      using timer_stmt(2) [OF assms(1), of v] by blast
    then have "pending (rest x) = 0" using v by (simp add: pending_def perform_def)
    from round [OF this] have "bench_loop (\<lambda>_. block [set_u64 ?c 0, launch_batch L, await_batch L]) x = None"
      using x(2) v(2) k by (simp add: bench_loop_def del: block.simps)
    then have "block [bench_loop (\<lambda>_. block [set_u64 ?c 0, launch_batch L, await_batch L]), pausing h] x = None"
      by (simp only: block.simps bind.bind_lzero)
    with x(1) show ?thesis by (simp only: batch_body_def timed_section_def block.simps bind.bind_lunit)
  qed
  obtain v where v: "pausing h ?w = Some v" "b_n (bch v) = b_n (bch w)" "int_var (rest v) = int_var (rest ?w)"
    using timer_stmt(1) [OF assms(1), of ?w] by auto
  then have "batch_body h L (snd (call (lib (runtime_start R)) (snd (call (lib (gomaxprocs R 1)) v)))) = None"
    by (intro body) simp_all
  with v(1) show ?thesis
    by (simp add: bench_goroutine_start_batch_def set_u64_def set_int_def assign_def run_with_one_p_def
        runtime_main_def calling_def split_beta perform_def)
qed

definition fair_sched :: "unit sched_lib" where
  "fair_sched = \<lparr>go_launch = (\<lambda>m. (True, 1, m)), sched_yield = (\<lambda>m. (3, 1, m))\<rparr>"

definition full_sched :: "unit sched_lib" where
  "full_sched = \<lparr>go_launch = (\<lambda>m. (False, 1, m)), sched_yield = (\<lambda>m. (3, 1, m))\<rparr>"

definition unit_runtime :: "unit runtime_lib" where
  "unit_runtime = \<lparr>runtime_start = (\<lambda>m. ((), 9, m)), runtime_stop = (\<lambda>m. ((), 9, m)),
     gomaxprocs = (\<lambda>k m. (1, 1, m)), gosched = (\<lambda>m. ((), 1, m))\<rparr>"

definition sched_world :: "int \<Rightarrow> unit process world" where
  "sched_world n = \<lparr>bch = zero_bench\<lparr>b_n := n\<rparr>, kept = [], rest = \<lparr>clock = 0, int_var = (\<lambda>x. 0),
     u64_var = (\<lambda>x. 0), dbl_var = (\<lambda>x. 0), int_array = (\<lambda>x. []), str_array = (\<lambda>x. []), machine = ()\<rparr>\<rparr>"

theorem batch_waits_for_all_witness:
  "\<exists>w'. bench_goroutine_start_batch (exact_host (\<lambda>x. 0) (\<lambda>x. 0)) unit_runtime fair_sched (sched_world 2)
     = Some w' \<and> kept w' = [KeptU64 64]"
  using batch_waits_for_all [of "exact_host (\<lambda>x. 0) (\<lambda>x. 0)" fair_sched "sched_world 2" unit_runtime]
  by (simp add: fair_sched_def sched_world_def)

theorem batch_hangs_on_failure_witness:
  "bench_goroutine_start_batch (exact_host (\<lambda>x. 0) (\<lambda>x. 0)) unit_runtime full_sched (sched_world 1) = None"
  using batch_hangs_on_failure [of "exact_host (\<lambda>x. 0) (\<lambda>x. 0)" full_sched "sched_world 1" unit_runtime]
  by (simp add: full_sched_def sched_world_def)

end
