(* ===== verification/Mutex_Bench.thy ===== *)
theory Mutex_Bench
  imports Crowd Row_Logic Sched_Bench
begin

text \<open>
  \<open>bench/mutex_bench.c\<close>: burrow's mutex and read-write mutex, uncontended, and with four
  goroutines that share the iterations. A contended row is a program of the main goroutine and a crowd of four
  workers (theory \<open>Crowd\<close>): every lock, unlock, launch, report and yield is a step, and a lock that is not free
  blocks the worker that wants it. The main goroutine waits until four workers have reported, and reports itself for a
  worker that it could not launch.
\<close>

section \<open>What the file takes from burrow\<close>

text \<open>A lock blocks its goroutine while it cannot be had.\<close>

record 'm mutex_lib =
  mutex_lock :: "nat \<Rightarrow> (unit, 'm) blocking_op"
  mutex_unlock :: "nat \<Rightarrow> (unit, 'm) op"
  mutex_try_lock :: "nat \<Rightarrow> (bool, 'm) op"
  mutex_locker :: "nat \<Rightarrow> (nat, 'm) op"
  locker_lock :: "nat \<Rightarrow> (unit, 'm) blocking_op"
  locker_unlock :: "nat \<Rightarrow> (unit, 'm) op"
  rw_mutex_lock :: "nat \<Rightarrow> (unit, 'm) blocking_op"
  rw_mutex_unlock :: "nat \<Rightarrow> (unit, 'm) op"
  rw_mutex_r_lock :: "nat \<Rightarrow> (unit, 'm) blocking_op"
  rw_mutex_r_unlock :: "nat \<Rightarrow> (unit, 'm) op"

section \<open>Uncontended\<close>

definition bench_mutex_lock_unlock :: "'m host \<Rightarrow> 'm mutex_lib \<Rightarrow> 'm cstmt" where
  "bench_mutex_lock_unlock h L = (let m = bench_hide (addr h ''bench_mu'') in
     bench_loop (\<lambda>_. block [blocking (mutex_lock L m) (\<lambda>_. Some), call_op (mutex_unlock L m)]))"

definition bench_mutex_try_lock_unlock :: "'m host \<Rightarrow> 'm mutex_lib \<Rightarrow> 'm cstmt" where
  "bench_mutex_try_lock_unlock h L = (let m = bench_hide (addr h ''bench_mu'') in
     bench_loop (\<lambda>_. calling (mutex_try_lock L m) (\<lambda>ok. if ok then call_op (mutex_unlock L m) else Some)))"

definition bench_mutex_locker_lock_unlock :: "'m host \<Rightarrow> 'm mutex_lib \<Rightarrow> 'm cstmt" where
  "bench_mutex_locker_lock_unlock h L = calling (mutex_locker L (addr h ''bench_mu'')) (\<lambda>l.
     let l = bench_hide l in
     bench_loop (\<lambda>_. block [blocking (locker_lock L l) (\<lambda>_. Some), call_op (locker_unlock L l)]))"

definition bench_rw_mutex_lock_unlock :: "'m host \<Rightarrow> 'm mutex_lib \<Rightarrow> 'm cstmt" where
  "bench_rw_mutex_lock_unlock h L = (let rw = bench_hide (addr h ''bench_rw'') in
     bench_loop (\<lambda>_. block [blocking (rw_mutex_lock L rw) (\<lambda>_. Some), call_op (rw_mutex_unlock L rw)]))"

definition bench_rw_mutex_r_lock_unlock :: "'m host \<Rightarrow> 'm mutex_lib \<Rightarrow> 'm cstmt" where
  "bench_rw_mutex_r_lock_unlock h L = (let rw = bench_hide (addr h ''bench_rw'') in
     bench_loop (\<lambda>_. block [blocking (rw_mutex_r_lock L rw) (\<lambda>_. Some), call_op (rw_mutex_r_unlock L rw)]))"

section \<open>Contended\<close>

definition MUTEX_WORKERS :: nat where "MUTEX_WORKERS = 4"

text \<open>\<open>each = b->n / MUTEX_WORKERS\<close>, at least one.\<close>

definition each_of :: "int \<Rightarrow> int option" where
  "each_of n = do { e \<leftarrow> div64 n (int MUTEX_WORKERS); Some (if e < 1 then 1 else e) }"

definition run_contended :: "'m host \<Rightarrow> 'm runtime_lib \<Rightarrow> 'm cstmt \<Rightarrow> 'm cstmt" where
  "run_contended h R body = block [
     pausing h,
     reading_n (\<lambda>n. checked (each_of n) (set_int ''each'')),
     set_u64 ''workers_done'' 0, set_int ''sched.pending'' 0,
     calling (gomaxprocs R (int MUTEX_WORKERS)) (\<lambda>old. block [
       runtime_main R body,
       call_op (gomaxprocs R old)])]"

definition add_done :: "'m cstmt" where
  "add_done = counting_child ''workers_done''"

text \<open>
  Where a worker is: not running yet, before the lock and before the unlock of round \<open>i\<close> of its loop, gone. A worker
  that is not running yet starts when there is a launched goroutine that has not had a turn.
\<close>

datatype contender = LAsleep | LLock nat | LUnlock nat | LGone

fun worker :: "(unit, 'm) blocking_op \<Rightarrow> (unit, 'm) op \<Rightarrow> (contender, 'm process world) thread" where
  "worker lk ul LAsleep = (\<lambda>w. if pending (rest w) = 0 then None
     else moves_to (LLock 0) (set_int ''sched.pending'' (int (pending (rest w) - 1))) w)"
| "worker lk ul (LLock i) = (\<lambda>w. if int i < int_var (rest w) ''each''
     then moves_to (LUnlock i) (blocking lk (\<lambda>_. Some)) w else moves_to LGone add_done w)"
| "worker lk ul (LUnlock i) = moves_to (LLock (i + 1)) (call_op ul)"
| "worker lk ul LGone = (\<lambda>w. None)"

definition mutex_child :: "'m host \<Rightarrow> 'm mutex_lib \<Rightarrow> (contender, 'm process world) thread" where
  "mutex_child h L = worker (mutex_lock L (addr h ''bench_mu'')) (mutex_unlock L (addr h ''bench_mu''))"

definition rw_read_child :: "'m host \<Rightarrow> 'm mutex_lib \<Rightarrow> (contender, 'm process world) thread" where
  "rw_read_child h L = worker (rw_mutex_r_lock L (addr h ''bench_rw'')) (rw_mutex_r_unlock L (addr h ''bench_rw''))"

text \<open>A turn of the waiting loop, at \<open>here\<close>, or the way out of it.\<close>

definition wait_for_workers :: "'m sched_lib \<Rightarrow> 'p \<Rightarrow> 'p \<Rightarrow> 'm process world \<Rightarrow> ('p \<times> 'm process world) option" where
  "wait_for_workers S here after w = (if unat (u64_var (rest w) ''workers_done'') < MUTEX_WORKERS
     then moves_to here (call_op (sched_yield S)) w else Some (after, w))"

text \<open>The main goroutine: \<open>KLaunch i\<close> is before launch \<open>i\<close>, and \<open>KReport i\<close> after a launch that failed.\<close>

datatype contended_pc = KResume | KLaunch nat | KReport nat | KWait | KPause | KOut

fun contended_step :: "'m host \<Rightarrow> 'm sched_lib \<Rightarrow> (contended_pc, 'm process world) thread" where
  "contended_step h S KResume = moves_to (KLaunch 0) (resuming h)"
| "contended_step h S (KLaunch i) = (\<lambda>w. if i < MUTEX_WORKERS
     then let (ok, w) = call (lib (go_launch S)) w in
       if ok then moves_to (KLaunch (i + 1)) (set_int ''sched.pending'' (int (pending (rest w) + 1))) w
       else Some (KReport i, w)
     else Some (KWait, w))"
| "contended_step h S (KReport i) = moves_to (KLaunch (i + 1)) add_done"
| "contended_step h S KWait = wait_for_workers S KWait KPause"
| "contended_step h S KPause = moves_to KOut (pausing h)"
| "contended_step h S KOut = (\<lambda>w. None)"

text \<open>The body of both contended rows.\<close>

definition contended_body :: "(nat \<Rightarrow> bool) \<Rightarrow> (nat \<Rightarrow> nat) \<Rightarrow> 'm host \<Rightarrow> 'm sched_lib
    \<Rightarrow> (contender, 'm process world) thread \<Rightarrow> 'm cstmt" where
  "contended_body sc pick h S child = together sc (contended_step h S) (crowd pick child) (\<lambda>p. p = KOut)
     KResume (0, replicate MUTEX_WORKERS LAsleep)"

definition mutex_contended_body ::
  "(nat \<Rightarrow> bool) \<Rightarrow> (nat \<Rightarrow> nat) \<Rightarrow> 'm host \<Rightarrow> 'm sched_lib \<Rightarrow> 'm mutex_lib \<Rightarrow> 'm cstmt" where
  "mutex_contended_body sc pick h S L = contended_body sc pick h S (mutex_child h L)"

definition rw_contended_body ::
  "(nat \<Rightarrow> bool) \<Rightarrow> (nat \<Rightarrow> nat) \<Rightarrow> 'm host \<Rightarrow> 'm sched_lib \<Rightarrow> 'm mutex_lib \<Rightarrow> 'm cstmt" where
  "rw_contended_body sc pick h S L = contended_body sc pick h S (rw_read_child h L)"

definition bench_mutex_contended :: "(nat \<Rightarrow> bool) \<Rightarrow> (nat \<Rightarrow> nat) \<Rightarrow>
  'm host \<Rightarrow> 'm runtime_lib \<Rightarrow> 'm sched_lib \<Rightarrow> 'm mutex_lib \<Rightarrow> 'm cstmt" where
  "bench_mutex_contended sc pick h R S L = run_contended h R (mutex_contended_body sc pick h S L)"

definition bench_rw_mutex_contended_read :: "(nat \<Rightarrow> bool) \<Rightarrow> (nat \<Rightarrow> nat) \<Rightarrow>
  'm host \<Rightarrow> 'm runtime_lib \<Rightarrow> 'm sched_lib \<Rightarrow> 'm mutex_lib \<Rightarrow> 'm cstmt" where
  "bench_rw_mutex_contended_read sc pick h R S L = run_contended h R (rw_contended_body sc pick h S L)"

definition mutex_table :: "(nat \<Rightarrow> bool) \<Rightarrow> (nat \<Rightarrow> nat) \<Rightarrow>
  'm host \<Rightarrow> 'm runtime_lib \<Rightarrow> 'm sched_lib \<Rightarrow> 'm mutex_lib \<Rightarrow> (string \<times> 'm cstmt) list" where
  "mutex_table sc pick h R S L = [
     (''mutex_lock_unlock'', bench_mutex_lock_unlock h L),
     (''mutex_try_lock_unlock'', bench_mutex_try_lock_unlock h L),
     (''mutex_locker_lock_unlock'', bench_mutex_locker_lock_unlock h L),
     (''rw_mutex_lock_unlock'', bench_rw_mutex_lock_unlock h L),
     (''rw_mutex_r_lock_unlock'', bench_rw_mutex_r_lock_unlock h L),
     (''mutex_contended'', bench_mutex_contended sc pick h R S L),
     (''rw_mutex_contended_read'', bench_rw_mutex_contended_read sc pick h R S L)]"

section \<open>The contract\<close>

lemma add_done_moves [contract_rules]: "does (advances clock) add_done"
  unfolding add_done_def by (intro contract_rules)

lemma contended_threads_move:
  "host_ok h \<Longrightarrow> contended_step h S p w = Some (p', w') \<Longrightarrow> advances clock w w'"
  "worker lk ul q w = Some (q', w') \<Longrightarrow> advances clock w w'"
proof -
  show "advances clock w w'" if "worker lk ul q w = Some (q', w')"
    using that by (cases q; auto split: if_splits elim!: moves_to_advances [rotated] intro!: contract_rules)
  have launch: "advances clock w (snd (call (lib (go_launch S)) w))" by (rule advances_rest) simp_all
  show "advances clock w w'" if "host_ok h" "contended_step h S p w = Some (p', w')"
  proof (cases p)
    case (KLaunch i)
    show ?thesis
    proof (cases "i < MUTEX_WORKERS \<and> fst (call (lib (go_launch S)) w)")
      case True
      with that(2) KLaunch have "moves_to (KLaunch (i + 1)) (set_int ''sched.pending''
          (int (pending (rest (snd (call (lib (go_launch S)) w))) + 1))) (snd (call (lib (go_launch S)) w)) = Some (p', w')"
        by (simp add: split_beta)
      from moves_to_advances [OF _ this] advances_trans [OF launch] show ?thesis by (blast intro: contract_rules)
    qed (use that(2) KLaunch launch in \<open>auto simp: split_beta moving.R_refl split: if_splits\<close>)
  qed (use that in \<open>auto simp: wait_for_workers_def moving.R_refl split: if_splits elim!: moves_to_advances [rotated]
      intro!: contract_rules\<close>)
qed

lemma contended_moves [contract_rules]:
  fixes h :: "'m host"
  assumes "host_ok h"
  shows "does (advances clock) (mutex_contended_body sc pick h S L)" "does (advances clock) (rw_contended_body sc pick h S L)"
    "does (advances clock) body \<Longrightarrow> does (advances clock) (run_contended h R body)"
proof -
  have "does (advances clock) (contended_body sc pick h S (worker lk ul))" for lk :: "(unit, 'm) blocking_op" and ul
    unfolding contended_body_def
    by (rule together_moves) (blast intro: contended_threads_move(1) [OF assms] crowd_advances contended_threads_move(2))+
  then show "does (advances clock) (mutex_contended_body sc pick h S L)" "does (advances clock) (rw_contended_body sc pick h S L)"
    by (simp_all add: mutex_contended_body_def rw_contended_body_def mutex_child_def rw_read_child_def)
  show "does (advances clock) (run_contended h R body)" if "does (advances clock) body"
    unfolding run_contended_def by (intro contract_rules assms that)
qed

lemma mutex_table_moves:
  assumes "host_ok h" and "(nm, f) \<in> set (mutex_table sc pick h R S L)"
  shows "does (advances clock) f"
  using assms
  by (auto simp: mutex_table_def bench_mutex_lock_unlock_def bench_mutex_try_lock_unlock_def
      bench_mutex_locker_lock_unlock_def bench_rw_mutex_lock_unlock_def bench_rw_mutex_r_lock_unlock_def
      bench_mutex_contended_def bench_rw_mutex_contended_read_def Let_def
      intro!: contract_rules simp del: block.simps)

section \<open>The split of the iterations\<close>

lemma each_some: "0 < n \<Longrightarrow> n \<le> int64_max \<Longrightarrow> each_of n = Some (if n div 4 < 1 then 1 else n div 4)"
  using div64_nonneg [of n 4] by (simp add: each_of_def MUTEX_WORKERS_def in_int64_nonneg)

text \<open>
  Bounds: what the four workers of a contended row do together. From four iterations on they
  make between \<open>n - 3\<close> and \<open>n\<close> lock and unlock pairs, so up to three iterations are paid for and
  not made; below four they make four pairs.
\<close>
theorem each_splits:
  assumes "0 < n" and "n \<le> int64_max"
  shows "\<exists>e. each_of n = Some e \<and> 1 \<le> e
    \<and> (if 4 \<le> n then n - 3 \<le> 4 * e \<and> 4 * e \<le> n else 4 * e = 4)"
  using each_some [OF assms] by (intro exI conjI) auto

theorem each_splits_witness: "\<exists>e. each_of 7 = Some e \<and> 4 \<le> 4 * e \<and> 4 * e \<le> 7"
  using each_splits [of 7] by (auto simp: int64_max_def)

section \<open>Every worker is waited for\<close>

text \<open>
  What the contended rows rely on of a lock. \<open>holders\<close> counts the goroutines that have it, and \<open>can\<close> says when one
  more may: a mutex has one holder at most, a read-write mutex that no writer wants any number of readers. A lock
  blocks exactly when it cannot be had, an unlock by a holder gives it back, launches and yields leave it alone.
  \<open>calm\<close> is what the library keeps to itself besides (no writer holds or wants the lock).
\<close>

definition lock_law :: "(unit, 'm) blocking_op \<Rightarrow> (unit, 'm) op \<Rightarrow> (nat \<Rightarrow> bool) \<Rightarrow> ('m \<Rightarrow> nat) \<Rightarrow> ('m \<Rightarrow> bool)
    \<Rightarrow> 'm sched_lib \<Rightarrow> bool" where
  "lock_law lk ul can holders calm S \<longleftrightarrow> can 0 \<and> (\<forall>m. calm m \<longrightarrow>
     (lk m = None) = (\<not> can (holders m))
     \<and> (can (holders m) \<longrightarrow> holders (left_by lk m) = holders m + 1 \<and> calm (left_by lk m))
     \<and> (0 < holders m \<longrightarrow> holders (snd (snd (ul m))) = holders m - 1 \<and> calm (snd (snd (ul m))))
     \<and> holders (snd (snd (go_launch S m))) = holders m \<and> calm (snd (snd (go_launch S m)))
     \<and> holders (snd (snd (sched_yield S m))) = holders m \<and> calm (snd (snd (sched_yield S m))))"

definition mutex_law :: "(unit, 'm) blocking_op \<Rightarrow> (unit, 'm) op \<Rightarrow> ('m \<Rightarrow> nat) \<Rightarrow> ('m \<Rightarrow> bool) \<Rightarrow> 'm sched_lib \<Rightarrow> bool" where
  "mutex_law lk ul = lock_law lk ul (\<lambda>k. k = 0)"

definition readers_law :: "(unit, 'm) blocking_op \<Rightarrow> (unit, 'm) op \<Rightarrow> ('m \<Rightarrow> nat) \<Rightarrow> ('m \<Rightarrow> bool) \<Rightarrow> 'm sched_lib \<Rightarrow> bool" where
  "readers_law lk ul = lock_law lk ul (\<lambda>k. True)"

lemma lockD:
  assumes "lock_law lk ul can holders calm S"
  shows "can 0" "calm m \<Longrightarrow> (lk m = None) = (\<not> can (holders m))"
    "calm m \<Longrightarrow> can (holders m) \<Longrightarrow> holders (left_by lk m) = holders m + 1 \<and> calm (left_by lk m)"
    "calm m \<Longrightarrow> 0 < holders m \<Longrightarrow> holders (snd (snd (ul m))) = holders m - 1 \<and> calm (snd (snd (ul m)))"
    "calm m \<Longrightarrow> holders (snd (snd (go_launch S m))) = holders m \<and> calm (snd (snd (go_launch S m)))"
    "calm m \<Longrightarrow> holders (snd (snd (sched_yield S m))) = holders m \<and> calm (snd (snd (sched_yield S m)))"
  using assms unfolding lock_law_def by blast+

text \<open>
  What every step keeps. A launched worker that has not started, one that is at its loop and a report are one worker
  each, and the main goroutine has seen to \<open>seen p\<close> of the four. A worker has the lock when it is before its unlock.
\<close>

fun has_lock :: "contender \<Rightarrow> bool" where
  "has_lock (LUnlock i) = True" | "has_lock _ = False"

fun looping :: "contender \<Rightarrow> bool" where
  "looping LAsleep = False" | "looping LGone = False" | "looping _ = True"

fun in_rounds :: "nat \<Rightarrow> contender \<Rightarrow> bool" where
  "in_rounds e (LLock i) = (i \<le> e)" | "in_rounds e (LUnlock i) = (i < e)" | "in_rounds e _ = True"

fun seen :: "contended_pc \<Rightarrow> nat" where
  "seen KResume = 0" | "seen (KLaunch i) = i" | "seen (KReport i) = i" | "seen _ = 4"

definition reported :: "'m process world \<Rightarrow> nat" where
  "reported w = unat (u64_var (rest w) ''workers_done'')"

definition contention :: "nat \<Rightarrow> sunk list \<Rightarrow> ('m \<Rightarrow> nat) \<Rightarrow> ('m \<Rightarrow> bool)
    \<Rightarrow> contended_pc \<times> (nat \<times> contender list) \<times> 'm process world \<Rightarrow> bool" where
  "contention e ks holders calm = (\<lambda>(p, (k, ws), w).
     length ws = 4 \<and> kept w = ks \<and> int_var (rest w) ''each'' = int e
     \<and> calm (machine (rest w)) \<and> holders (machine (rest w)) = number has_lock ws \<and> (\<forall>c \<in> set ws. in_rounds e c)
     \<and> number (\<lambda>c. c = LGone) ws \<le> reported w
     \<and> pending (rest w) + number looping ws + reported w = seen p \<and> seen p \<le> 4 \<and> (\<forall>i. p = KReport i \<longrightarrow> i < 4)
     \<and> (p \<in> {KPause, KOut} \<longrightarrow> reported w = 4))"

fun rounds_left :: "nat \<Rightarrow> contender \<Rightarrow> nat" where
  "rounds_left e LAsleep = 2 * e + 2" | "rounds_left e (LLock i) = 2 * (e - i) + 1"
| "rounds_left e (LUnlock i) = 2 * (e - i)" | "rounds_left e LGone = 0"

fun launches_left :: "contended_pc \<Rightarrow> nat" where
  "launches_left KResume = 12" | "launches_left (KLaunch i) = 2 * (4 - i) + 3"
| "launches_left (KReport i) = 2 * (4 - i) + 2" | "launches_left KWait = 2" | "launches_left KPause = 1"
| "launches_left KOut = 0"

definition work_left :: "nat \<Rightarrow> contended_pc \<times> (nat \<times> contender list) \<times> 'm process world \<Rightarrow> nat" where
  "work_left e = (\<lambda>(p, (k, ws), w). launches_left p + sum_list (map (rounds_left e) ws))"

definition not_waiting :: "contended_pc \<times> (nat \<times> contender list) \<times> 'm process world \<Rightarrow> bool" where
  "not_waiting = (\<lambda>(p, q, w). p = KWait \<longrightarrow> 4 \<le> reported w)"

lemma each_place: "number (\<lambda>c. c = LAsleep) ws + number looping ws + number (\<lambda>c. c = LGone) ws = length ws"
proof (induction ws)
  case (Cons c ws)
  then show ?case by (cases c) (simp_all add: number_def)
qed (simp add: number_def)

lemma reports:
  assumes "reported w < 4"
  shows "moves_to q add_done w = Some (q, perform (\<lambda>l. l\<lparr>u64_var := (u64_var l)(''workers_done'' :=
      take_bit 32 (u64_var l ''workers_done'' + 1))\<rparr>) w)
    \<and> unat (take_bit 32 (u64_var (rest w) ''workers_done'' + 1)) = reported w + 1"
proof
  show "unat (take_bit 32 (u64_var (rest w) ''workers_done'' + 1)) = reported w + 1"
    using assms by (intro small_count) (simp_all add: reported_def)
  show "moves_to q add_done w = Some (q, perform (\<lambda>l. l\<lparr>u64_var := (u64_var l)(''workers_done'' :=
      take_bit 32 (u64_var l ''workers_done'' + 1))\<rparr>) w)"
    by (simp add: add_done_def counting_child_def moves_to_def reading_def set_u64_def assign_def perform_def)
qed

text \<open>What a step of one worker has to do for all of this to be kept.\<close>

lemma worker_keeps:
  assumes J: "contention e ks holders calm (p, (k, ws), w)" and i: "i < length ws" and d: "ws ! i = d"
    and state: "kept w' = kept w" "int_var (rest w') ''each'' = int_var (rest w) ''each''" "calm (machine (rest w'))"
    and lock: "holders (machine (rest w')) + of_bool (has_lock d) = holders (machine (rest w)) + of_bool (has_lock c)"
    and gone: "reported w' = reported w + of_bool (c = LGone)" "d \<noteq> LGone" "c = LGone \<Longrightarrow> looping d"
    and placed: "pending (rest w') + of_bool (looping c) + of_bool (c = LGone) = pending (rest w) + of_bool (looping d)"
    and less: "in_rounds e c" "rounds_left e c < rounds_left e d"
  shows "contention e ks holders calm (p, (k + 1, ws[i := c]), w')
    \<and> work_left e (p, (k + 1, ws[i := c]), w') < work_left e (p, (k, ws), w)"
proof -
  note inv = J [unfolded contention_def prod.case]
  have all: "\<forall>d \<in> set (ws[i := c]). in_rounds e d"
    using less(1) inv set_update_subset_insert [of ws i c] by auto
  have ins: "number has_lock (ws[i := c]) + of_bool (has_lock d) = number has_lock ws + of_bool (has_lock c)"
    using number_move [OF i, of has_lock c] d by (simp add: of_bool_def)
  have loop: "number looping (ws[i := c]) + of_bool (looping d) = number looping ws + of_bool (looping c)"
    using number_move [OF i, of looping c] d by (simp add: of_bool_def)
  have out: "number (\<lambda>c. c = LGone) (ws[i := c]) = number (\<lambda>c. c = LGone) ws + of_bool (c = LGone)"
    using number_move [OF i, of "\<lambda>c. c = LGone" c] d gone(2) by simp
  have busy: "c = LGone \<Longrightarrow> 0 < number looping ws" using gone(3) number_at [OF i, of looping] d by blast
  have "pending (rest w') + number looping (ws[i := c]) + reported w' = seen p"
    using inv placed loop gone(1) by linarith
  moreover have "p \<in> {KPause, KOut} \<longrightarrow> reported w' = 4"
    using inv busy gone(1) by (cases "c = LGone") auto
  moreover have "holders (machine (rest w')) = number has_lock (ws[i := c])" using inv lock ins by linarith
  moreover have "number (\<lambda>c. c = LGone) (ws[i := c]) \<le> reported w'" using inv out gone(1) by linarith
  moreover have "sum_list (map (rounds_left e) (ws[i := c])) < sum_list (map (rounds_left e) ws)"
    using sum_move [OF i, of "rounds_left e" c, unfolded d] less(2) by linarith
  ultimately show ?thesis using inv all state
    unfolding contention_def work_left_def prod.case by simp
qed

lemma worker_step:
  assumes law: "lock_law lk ul can holders calm S"
    and J: "contention e ks holders calm (p, (k, ws), w)" and i: "i < length ws"
    and step: "worker lk ul (ws ! i) w = Some (c, w')"
  shows "contention e ks holders calm (p, (k + 1, ws[i := c]), w')
    \<and> work_left e (p, (k + 1, ws[i := c]), w') < work_left e (p, (k, ws), w)"
proof -
  note inv = J [unfolded contention_def prod.case]
  have calm: "calm (machine (rest w))" and lock: "holders (machine (rest w)) = number has_lock ws"
    and each: "int_var (rest w) ''each'' = int e" using inv by simp_all
  have at: "in_rounds e (ws ! i)" using inv i by auto
  show ?thesis
  proof (cases "ws ! i")
    case LAsleep
    with step have c: "c = LLock 0" "0 < pending (rest w)"
      "w' = perform (\<lambda>l. l\<lparr>int_var := (int_var l)(''sched.pending'' := int (pending (rest w) - 1))\<rparr>) w"
      by (auto simp: set_step split: if_splits)
    show ?thesis by (rule worker_keeps [OF J i LAsleep]) (use c calm in \<open>simp_all add: reported_def perform_def\<close>)
  next
    case (LLock j)
    show ?thesis
    proof (cases "j < e")
      case True
      with step LLock each have c: "c = LUnlock j" "w' = passed lk w" "lk (machine (rest w)) \<noteq> None"
        by (auto simp: passed_step split: if_splits)
      with lockD(2,3) [OF law calm] have "holders (left_by lk (machine (rest w))) = holders (machine (rest w)) + 1"
        "calm (left_by lk (machine (rest w)))" by auto
      with c True show ?thesis
        by (intro worker_keeps [OF J i LLock]) (simp_all add: reported_def pending_def)
    next
      case False
      have "0 < number looping ws" using number_at [OF i, of looping] LLock by simp
      with inv have "reported w < 4" by linarith
      from reports [OF this, of LGone] step LLock False each have c: "c = LGone"
        "w' = perform (\<lambda>l. l\<lparr>u64_var := (u64_var l)(''workers_done'' := take_bit 32 (u64_var l ''workers_done'' + 1))\<rparr>) w"
        "unat (take_bit 32 (u64_var (rest w) ''workers_done'' + 1)) = reported w + 1" by auto
      show ?thesis by (rule worker_keeps [OF J i LLock]) (use c calm in \<open>simp_all add: reported_def perform_def\<close>)
    qed
  next
    case (LUnlock j)
    with step have c: "c = LLock (j + 1)" "w' = snd (call (lib ul) w)" by (auto simp: called_step)
    have "0 < number has_lock ws" using number_at [OF i, of has_lock] LUnlock by simp
    with lockD(4) [OF law calm] lock have "holders (snd (snd (ul (machine (rest w))))) + 1 = holders (machine (rest w))"
      "calm (snd (snd (ul (machine (rest w)))))" by auto
    with c LUnlock at show ?thesis
      by (intro worker_keeps [OF J i LUnlock]) (simp_all add: reported_def pending_def)
  qed (use step in simp)
qed

text \<open>A step of the main goroutine that is not a turn of its waiting loop, and one that is.\<close>

lemma main_keeps:
  assumes J: "contention e ks holders calm (p, q, w)"
    and same: "kept w' = kept w" "int_var (rest w') ''each'' = int_var (rest w) ''each''" "calm (machine (rest w'))"
      "holders (machine (rest w')) = holders (machine (rest w))"
    and count: "reported w \<le> reported w'" "pending (rest w') + reported w' + seen p = pending (rest w) + reported w + seen p'"
    and seen: "seen p' \<le> 4" "\<And>i. p' = KReport i \<Longrightarrow> i < 4" "p' \<in> {KPause, KOut} \<Longrightarrow> reported w' = 4"
  shows "contention e ks holders calm (p', q, w')"
proof -
  obtain k ws where q: "q = (k, ws)" by (cases q)
  note inv = J [unfolded q contention_def prod.case]
  have "pending (rest w') + number looping ws + reported w' = seen p'" using inv count by linarith
  moreover have "number (\<lambda>c. c = LGone) ws \<le> reported w'" using inv count by linarith
  ultimately show ?thesis using inv same seen unfolding q contention_def prod.case by simp
qed

lemma work_left_main: "work_left e (p', q, w') < work_left e (p, q, w) \<longleftrightarrow> launches_left p' < launches_left p"
  by (cases q) (simp add: work_left_def)

lemma main_step:
  fixes w :: "'m process world"
  assumes law: "lock_law lk ul can holders calm S" and h: "host_ok h"
    and J: "contention e ks holders calm (p, q, w)" and p: "p \<noteq> KOut" "not_waiting (p, q, w)"
  shows "\<exists>p' w'. contended_step h S p w = Some (p', w') \<and> contention e ks holders calm (p', q, w')
    \<and> work_left e (p', q, w') < work_left e (p, q, w)"
proof -
  obtain k ws where q: "q = (k, ws)" by (cases q)
  note inv = J [unfolded q contention_def prod.case]
  have calm: "calm (machine (rest w))" using inv by simp
  let ?ok = "\<lambda>p' w'. contended_step h S p w = Some (p', w') \<and> contention e ks holders calm (p', q, w')
    \<and> work_left e (p', q, w') < work_left e (p, q, w)"
  show ?thesis
  proof (cases p)
    case KResume
    obtain v where v: "resuming h w = Some v" "kept v = kept w" "machine (rest v) = machine (rest w)"
      "int_var (rest v) = int_var (rest w)" "u64_var (rest v) = u64_var (rest w)"
      using timer_stmt(2) [OF h, of w] by blast
    then have "contention e ks holders calm (KLaunch 0, q, v)"
      using calm KResume by (intro main_keeps [OF J]) (simp_all add: reported_def pending_def)
    with v(1) KResume have "?ok (KLaunch 0) v" by (simp add: moves_to_def work_left_main)
    then show ?thesis by blast
  next
    case (KLaunch i)
    show ?thesis
    proof (cases "i < 4")
      case True
      let ?v = "snd (call (lib (go_launch S)) w)"
      have v: "kept ?v = kept w" "int_var (rest ?v) = int_var (rest w)" "calm (machine (rest ?v))"
        "holders (machine (rest ?v)) = holders (machine (rest w))" "reported ?v = reported w" "pending (rest ?v) = pending (rest w)"
        using lockD(5) [OF law calm] by (simp_all add: reported_def pending_def)
      show ?thesis
      proof (cases "fst (call (lib (go_launch S)) w)")
        case True
        let ?u = "perform (\<lambda>l. l\<lparr>int_var := (int_var l)(''sched.pending'' := int (pending (rest ?v) + 1))\<rparr>) ?v"
        have "contention e ks holders calm (KLaunch (i + 1), q, ?u)"
          using v \<open>i < 4\<close> KLaunch by (intro main_keeps [OF J]) (simp_all add: reported_def)
        with True KLaunch \<open>i < 4\<close> have "?ok (KLaunch (i + 1)) ?u"
          by (simp add: set_step split_beta Let_def work_left_main MUTEX_WORKERS_def)
        then show ?thesis by blast
      next
        case False
        have "contention e ks holders calm (KReport i, q, ?v)"
          using v \<open>i < 4\<close> KLaunch by (intro main_keeps [OF J]) simp_all
        with False KLaunch \<open>i < 4\<close> have "?ok (KReport i) ?v"
          by (simp add: split_beta Let_def work_left_main MUTEX_WORKERS_def)
        then show ?thesis by blast
      qed
    next
      case False
      have "contention e ks holders calm (KWait, q, w)"
        using False calm KLaunch inv by (intro main_keeps [OF J]) auto
      with False KLaunch have "?ok KWait w" by (simp add: work_left_main MUTEX_WORKERS_def)
      then show ?thesis by blast
    qed
  next
    case (KReport i)
    have i: "i < 4" "reported w < 4" using KReport inv by auto
    from reports [OF i(2), of "KLaunch (i + 1)"] obtain v where v: "moves_to (KLaunch (i + 1)) add_done w = Some (KLaunch (i + 1), v)"
      "kept v = kept w" "int_var (rest v) = int_var (rest w)" "machine (rest v) = machine (rest w)" "reported v = reported w + 1"
      by (auto simp: reported_def perform_def)
    then have "contention e ks holders calm (KLaunch (i + 1), q, v)"
      using calm KReport i by (intro main_keeps [OF J]) (simp_all add: pending_def)
    with v(1) KReport i have "?ok (KLaunch (i + 1)) v" by (simp add: work_left_main)
    then show ?thesis by blast
  next
    case KWait
    with p(2) inv have four: "reported w = 4" by (simp add: not_waiting_def)
    have "contention e ks holders calm (KPause, q, w)"
      using four calm KWait by (intro main_keeps [OF J]) simp_all
    with four KWait have "?ok KPause w"
      by (simp add: work_left_main wait_for_workers_def MUTEX_WORKERS_def reported_def)
    then show ?thesis by blast
  next
    case KPause
    obtain v where v: "pausing h w = Some v" "kept v = kept w" "machine (rest v) = machine (rest w)"
      "int_var (rest v) = int_var (rest w)" "u64_var (rest v) = u64_var (rest w)"
      using timer_stmt(1) [OF h, of w] by blast
    then have "contention e ks holders calm (KOut, q, v)"
      using calm KPause inv by (intro main_keeps [OF J]) (simp_all add: reported_def pending_def)
    with v(1) KPause have "?ok KOut v" by (simp add: moves_to_def work_left_main)
    then show ?thesis by blast
  qed (use p in simp)
qed

lemma waiting_turn:
  assumes law: "lock_law lk ul can holders calm S"
    and J: "contention e ks holders calm (p, q, w)" and p: "\<not> not_waiting (p, q, w)"
    and step: "contended_step h S p w = Some (p', w')"
  shows "contention e ks holders calm (p', q, w') \<and> work_left e (p', q, w') = work_left e (p, q, w)
    \<and> \<not> not_waiting (p', q, w') \<and> p' \<noteq> KOut"
proof -
  obtain k ws where q: "q = (k, ws)" by (cases q)
  note inv = J [unfolded q contention_def prod.case]
  have w: "p = KWait" "p' = KWait" "w' = snd (call (lib (sched_yield S)) w)" "reported w' = reported w"
    using p step by (auto simp: not_waiting_def wait_for_workers_def called_step MUTEX_WORKERS_def reported_def)
  have "contention e ks holders calm (p', q, w')"
    using lockD(6) [OF law, of "machine (rest w)"] inv w by (intro main_keeps [OF J]) (simp_all add: pending_def)
  with w p q show ?thesis by (simp add: not_waiting_def work_left_def)
qed

text \<open>While the main goroutine waits, one of the workers can move: somebody has the lock, or it can be had.\<close>

lemma some_worker_moves:
  assumes law: "lock_law lk ul can holders calm S"
    and J: "contention e ks holders calm (p, (k, ws), w)" and p: "\<not> not_waiting (p, (k, ws), w)"
  shows "\<exists>i < length ws. worker lk ul (ws ! i) w \<noteq> None"
proof -
  note inv = J [unfolded contention_def prod.case]
  have w: "p = KWait" "reported w < 4" using p by (auto simp: not_waiting_def)
  show ?thesis
  proof (cases "0 < pending (rest w)")
    case True
    have "0 < number (\<lambda>c. c = LAsleep) ws" using each_place [of ws] inv w True by auto
    with True show ?thesis by (auto dest!: number_some simp: set_step)
  next
    case False
    with inv w have "0 < number looping ws" by auto
    then obtain i where i: "i < length ws" "looping (ws ! i)" using number_some by blast
    show ?thesis
    proof (cases "0 < number has_lock ws")
      case True
      then obtain j where j: "j < length ws" "has_lock (ws ! j)" using number_some by blast
      then show ?thesis by (cases "ws ! j") (auto simp: called_step)
    next
      case False
      with inv lockD(1,2) [OF law] have lk: "lk (machine (rest w)) \<noteq> None" by auto
      have "\<not> has_lock (ws ! i)" using False number_at [OF i(1), of has_lock] by auto
      with i obtain r where r: "ws ! i = LLock r" by (cases "ws ! i") auto
      have "moves_to LGone add_done w \<noteq> None" using reports [OF w(2), of LGone] by auto
      with lk r i have "worker lk ul (ws ! i) w \<noteq> None" by (simp only: worker.simps passed_step if_False not_None_eq split: if_split) auto
      with i show ?thesis by blast
    qed
  qed
qed

lemma contended_lively:
  assumes law: "lock_law lk ul can holders calm S" and h: "host_ok h"
  shows "lively (contended_step h S) (crowd pick (worker lk ul)) (\<lambda>p. p = KOut) (contention e ks holders calm) (work_left e) not_waiting"
proof (rule lively_if_waiting)
  fix p q w assume J: "contention e ks holders calm (p, q, w)" and p: "p \<noteq> KOut"
  obtain k ws where q: "q = (k, ws)" by (cases q)
  { assume "not_waiting (p, q, w)"
    then show "\<exists>p' w'. contended_step h S p w = Some (p', w') \<and> contention e ks holders calm (p', q, w')
      \<and> work_left e (p', q, w') < work_left e (p, q, w)" by (rule main_step [OF law h J p]) }
  { fix p' w' assume "\<not> not_waiting (p, q, w)" "contended_step h S p w = Some (p', w')"
    then show "contention e ks holders calm (p', q, w') \<and> work_left e (p', q, w') = work_left e (p, q, w)
      \<and> \<not> not_waiting (p', q, w') \<and> p' \<noteq> KOut" by (rule waiting_turn [OF law J]) }
  { fix q' w' assume "crowd pick (worker lk ul) q w = Some (q', w')"
    then obtain i c where i: "i < length ws" "worker lk ul (ws ! i) w = Some (c, w')" "q' = (k + 1, ws[i := c])"
      unfolding q by (rule crowd_moves)
    from worker_step [OF law J [unfolded q] i(1,2)] i(3) q
    show "contention e ks holders calm (p, q', w') \<and> work_left e (p, q', w') < work_left e (p, q, w)" by simp }
  { assume "\<not> not_waiting (p, q, w)"
    from some_worker_moves [OF law J [unfolded q] this [unfolded q]] show "crowd pick (worker lk ul) q w \<noteq> None"
      unfolding q by (elim exE conjE) (rule crowd_not_blocked) }
qed

text \<open>The frame of a contended row.\<close>

lemma run_contended_run:
  fixes w :: "'m process world"
  assumes h: "host_ok h" and law: "lock_law lk ul can holders calm S" and R: "runtime_keeps R (\<lambda>m. (holders m, calm m))"
    and sc: "fair sc" and start: "holders (machine (rest w)) = 0" "calm (machine (rest w))"
    and n: "0 < b_n (bch w)" "b_n (bch w) \<le> int64_max"
  shows "\<exists>w'. run_contended h R (contended_body sc pick h S (worker lk ul)) w = Some w' \<and> kept w' = kept w
    \<and> reported w' = 4 \<and> pending (rest w') = 0 \<and> holders (machine (rest w')) = 0"
proof -
  obtain v where v: "pausing h w = Some v" "kept v = kept w" "b_n (bch v) = b_n (bch w)" "machine (rest v) = machine (rest w)"
    using timer_stmt(1) [OF h, of w] by blast
  obtain e where e: "each_of (b_n (bch v)) = Some e" "1 \<le> e"
    using each_some [OF n] v(3) by (cases "b_n (bch w) div 4 < 1") auto
  let ?u = "perform (\<lambda>p. p\<lparr>u64_var := (u64_var p)(''workers_done'' := 0),
    int_var := (int_var p)(''each'' := e, ''sched.pending'' := 0)\<rparr>) v"
  let ?x = "snd (call (lib (runtime_start R)) (snd (call (lib (gomaxprocs R (int MUTEX_WORKERS))) ?u)))"
  have look: "(holders (machine (rest ?x)), calm (machine (rest ?x))) = (0, True)"
    using R start v(4) by (simp add: runtime_keeps_def perform_def)
  have "contention (nat e) (kept w) holders calm (KResume, (0, replicate MUTEX_WORKERS LAsleep), ?x)"
    using look e(2) v(2) by (simp add: contention_def MUTEX_WORKERS_def number_replicate reported_def pending_def perform_def)
  from together_total [OF sc contended_lively [OF law h] this, of pick] obtain z p q where
    z: "contended_body sc pick h S (worker lk ul) ?x = Some z" "contention (nat e) (kept w) holders calm (KOut, q, z)"
    unfolding contended_body_def by blast
  obtain k ws where q: "q = (k, ws)" by (cases q)
  note inv = z(2) [unfolded q contention_def prod.case]
  have none: "number has_lock ws = 0"
  proof (rule ccontr)
    assume "number has_lock ws \<noteq> 0"
    then obtain i where i: "i < length ws" "has_lock (ws ! i)" using number_some [of has_lock ws] by auto
    then have "looping (ws ! i)" by (cases "ws ! i") auto
    with number_at [OF i(1), of looping] inv show False by simp
  qed
  let ?y = "snd (call (lib (gomaxprocs R (fst (call (lib (gomaxprocs R (int MUTEX_WORKERS))) ?u))))
    (snd (call (lib (runtime_stop R)) z)))"
  have "run_contended h R (contended_body sc pick h S (worker lk ul)) w = Some ?y"
    using v(1) e(1) z(1)
    by (simp add: run_contended_def runtime_main_def stmt_simps split_beta perform_def set_int_def set_u64_def)
  moreover have "kept ?y = kept z" "reported ?y = reported z" "pending (rest ?y) = pending (rest z)"
    by (simp_all add: reported_def pending_def)
  moreover have "kept z = kept w" "reported z = 4" "pending (rest z) = 0" using inv by simp_all
  moreover have "holders (machine (rest ?y)) = 0"
    using R inv none by (simp add: runtime_keeps_def)
  ultimately show ?thesis by auto
qed

text \<open>
  C20. Liveness: a contended row comes back, whatever the launches answer and in whatever order the four workers take
  their steps, under every fair schedule. The main goroutine reports for a worker that it could not launch, so that
  its unbounded waiting loop sees four reports once the launched workers have made their rounds; and they make them,
  because a worker that is blocked at the lock waits for one that has it and that one gives it back. Nothing reaches
  the sink, no launched worker is left over, and nobody is left with the lock.
\<close>
theorem contended_row_returns:
  fixes w :: "'m process world"
  assumes "host_ok h" and "fair sc" and "0 < b_n (bch w)" and "b_n (bch w) \<le> int64_max"
    and "runtime_keeps R (\<lambda>m. (holders m, calm m))" and "holders (machine (rest w)) = 0" and "calm (machine (rest w))"
    and "f = bench_mutex_contended sc pick h R S L
        \<and> mutex_law (mutex_lock L (addr h ''bench_mu'')) (mutex_unlock L (addr h ''bench_mu'')) holders calm S
      \<or> f = bench_rw_mutex_contended_read sc pick h R S L
        \<and> readers_law (rw_mutex_r_lock L (addr h ''bench_rw'')) (rw_mutex_r_unlock L (addr h ''bench_rw'')) holders calm S"
  shows "\<exists>w'. f w = Some w' \<and> kept w' = kept w
    \<and> unat (u64_var (rest w') ''workers_done'') = 4 \<and> pending (rest w') = 0 \<and> holders (machine (rest w')) = 0"
  using assms(8)
proof (elim disjE conjE)
  assume f: "f = bench_mutex_contended sc pick h R S L"
    and law: "mutex_law (mutex_lock L (addr h ''bench_mu'')) (mutex_unlock L (addr h ''bench_mu'')) holders calm S"
  show ?thesis
    using run_contended_run [OF assms(1) law [unfolded mutex_law_def] assms(5,2,6,7,3,4), of pick]
    by (simp add: f bench_mutex_contended_def mutex_contended_body_def mutex_child_def reported_def)
next
  assume f: "f = bench_rw_mutex_contended_read sc pick h R S L"
    and law: "readers_law (rw_mutex_r_lock L (addr h ''bench_rw'')) (rw_mutex_r_unlock L (addr h ''bench_rw'')) holders calm S"
  show ?thesis
    using run_contended_run [OF assms(1) law [unfolded readers_law_def] assms(5,2,6,7,3,4), of pick]
    by (simp add: f bench_rw_mutex_contended_read_def rw_contended_body_def rw_read_child_def reported_def)
qed

text \<open>A lock to run the rows on, where the machine is the number of its holders, and one that never blocks.\<close>

definition one_lock :: "nat mutex_lib" where
  "one_lock = \<lparr>mutex_lock = (\<lambda>a m. if m = 0 then Some ((), 2, 1) else None), mutex_unlock = (\<lambda>a m. ((), 2, m - 1)),
     mutex_try_lock = (\<lambda>a m. if m = 0 then (True, 2, 1) else (False, 2, m)), mutex_locker = (\<lambda>a m. (a, 1, m)),
     locker_lock = (\<lambda>a m. if m = 0 then Some ((), 2, 1) else None), locker_unlock = (\<lambda>a m. ((), 2, m - 1)),
     rw_mutex_lock = (\<lambda>a m. if m = 0 then Some ((), 2, 1) else None), rw_mutex_unlock = (\<lambda>a m. ((), 2, m - 1)),
     rw_mutex_r_lock = (\<lambda>a m. Some ((), 2, m + 1)), rw_mutex_r_unlock = (\<lambda>a m. ((), 2, m - 1))\<rparr>"

definition lock_sched :: "nat sched_lib" where
  "lock_sched = \<lparr>go_launch = (\<lambda>m. (True, 1, m)), sched_yield = (\<lambda>m. (3, 1, m))\<rparr>"

definition unit_mutex :: "unit mutex_lib" where
  "unit_mutex = \<lparr>mutex_lock = (\<lambda>a m. Some ((), 2, m)), mutex_unlock = (\<lambda>a m. ((), 2, m)),
     mutex_try_lock = (\<lambda>a m. (True, 2, m)), mutex_locker = (\<lambda>a m. (a, 1, m)),
     locker_lock = (\<lambda>a m. Some ((), 2, m)), locker_unlock = (\<lambda>a m. ((), 2, m)),
     rw_mutex_lock = (\<lambda>a m. Some ((), 2, m)), rw_mutex_unlock = (\<lambda>a m. ((), 2, m)),
     rw_mutex_r_lock = (\<lambda>a m. Some ((), 2, m)), rw_mutex_r_unlock = (\<lambda>a m. ((), 2, m))\<rparr>"

lemma one_lock_law: "mutex_law (mutex_lock one_lock a) (mutex_unlock one_lock a) (\<lambda>m. m) (\<lambda>m. True) lock_sched"
  "readers_law (rw_mutex_r_lock one_lock a) (rw_mutex_r_unlock one_lock a) (\<lambda>m. m) (\<lambda>m. True) lock_sched"
  by (simp_all add: mutex_law_def readers_law_def lock_law_def one_lock_def lock_sched_def left_by_def)

theorem contended_row_returns_witness:
  "\<exists>w'. bench_mutex_contended even (\<lambda>k. k) (exact_host length (\<lambda>x. 0)) plain_procs lock_sched one_lock (row_world 9 0) = Some w'
    \<and> unat (u64_var (rest w') ''workers_done'') = 4 \<and> pending (rest w') = 0 \<and> machine (rest w') = 0"
proof -
  from contended_row_returns [OF exact_host_ok [of length "\<lambda>x. 0"] fair_alternation _ _ plain_procs_keep,
      where w = "row_world 9 0" and S = lock_sched and holders = "\<lambda>k. k" and calm = "\<lambda>k. True" and L = one_lock
        and f = "bench_mutex_contended even (\<lambda>k. k) (exact_host length (\<lambda>x. 0)) plain_procs lock_sched one_lock"]
  show ?thesis by (auto simp: int64_max_def one_lock_law)
qed

end
