(* ===== verification/Chan_Bench.thy ===== *)
theory Chan_Bench
  imports Sched_Bench
begin

text \<open>
  \<open>bench/chan_bench.c\<close>: burrow's channels. The two rows without a second goroutine are
  statements; the ping pong and the producer with its consumer are step relations over every
  interleaving of the two goroutines, where one step is one operation on a channel or on a
  shared flag. A channel operation that would block is \<open>None\<close>: in a program of one goroutine it
  never comes back, in a program of two it is tried again when the other one has moved.
\<close>

section \<open>What the file takes from burrow\<close>

text \<open>
  \<open>chan_recv\<close> gives the value it stored and whether there was one; \<open>chan_meet\<close> is a send and a
  receive that meet on a channel without a buffer.
\<close>

record 'm chan_lib =
  chan_make :: "nat \<Rightarrow> (nat, 'm) op"
  chan_free :: "nat \<Rightarrow> (unit, 'm) op"
  chan_send :: "nat \<Rightarrow> int \<Rightarrow> (unit, 'm) blocking_op"
  chan_recv :: "nat \<Rightarrow> (int \<times> bool, 'm) blocking_op"
  chan_try_recv :: "nat \<Rightarrow> (int \<times> bool, 'm) op"
  chan_close :: "nat \<Rightarrow> (unit, 'm) op"
  chan_meet :: "nat \<Rightarrow> int \<Rightarrow> 'm \<Rightarrow> 'm"

section \<open>One goroutine\<close>

definition with_chan :: "'m chan_lib \<Rightarrow> nat \<Rightarrow> (nat \<Rightarrow> 'm cstmt) \<Rightarrow> 'm cstmt" where
  "with_chan L cap k = calling (chan_make L cap) (\<lambda>c. block [
     set_int ''c1'' (int c),
     if c = 0 then Some else block [
       k c,
       call_op (chan_free L c),
       set_int ''c1'' 0]])"

definition uncontended_body :: "'m host \<Rightarrow> 'm chan_lib \<Rightarrow> 'm cstmt" where
  "uncontended_body h L = with_chan L 1 (\<lambda>c. timed_section h (bench_loop (\<lambda>_.
     blocking (chan_send L c 1) (\<lambda>_.
       blocking (chan_recv L c) (\<lambda>(got, ok). keep_u64 (of_int got))))))"

definition bench_chan_uncontended :: "'m host \<Rightarrow> 'm runtime_lib \<Rightarrow> 'm chan_lib \<Rightarrow> 'm cstmt" where
  "bench_chan_uncontended h R L = run_with_one_p h R (uncontended_body h L)"

definition nonblocking_body :: "'m host \<Rightarrow> 'm chan_lib \<Rightarrow> 'm cstmt" where
  "nonblocking_body h L = with_chan L 1 (\<lambda>c. timed_section h (bench_loop (\<lambda>_.
     calling (chan_try_recv L c) (\<lambda>(got, ok). keep_u64 (if ok then 1 else 0)))))"

definition bench_chan_nonblocking :: "'m host \<Rightarrow> 'm runtime_lib \<Rightarrow> 'm chan_lib \<Rightarrow> 'm cstmt" where
  "bench_chan_nonblocking h R L = run_with_one_p h R (nonblocking_body h L)"

definition chan_table :: "'m host \<Rightarrow> 'm runtime_lib \<Rightarrow> 'm chan_lib \<Rightarrow> (string \<times> 'm cstmt) list" where
  "chan_table h R L = [
     (''chan_uncontended'', bench_chan_uncontended h R L),
     (''chan_nonblocking'', bench_chan_nonblocking h R L)]"

section \<open>The contract\<close>

lemma with_chan_moves [contract_rules]:
  "(\<And>c. does (advances clock) (k c)) \<Longrightarrow> does (advances clock) (with_chan L cap k)"
  unfolding with_chan_def by (intro contract_rules)

lemma chan_bodies_move [contract_rules]:
  assumes "host_ok h"
  shows "does (advances clock) (uncontended_body h L)" "does (advances clock) (nonblocking_body h L)"
  unfolding uncontended_body_def nonblocking_body_def
  by (auto simp: split_beta intro!: contract_rules assms)

lemma chan_table_moves:
  assumes "host_ok h" and "(nm, f) \<in> set (chan_table h R L)"
  shows "does (advances clock) f"
  using assms by (auto simp: chan_table_def bench_chan_uncontended_def bench_chan_nonblocking_def
      intro!: contract_rules)

section \<open>What a channel promises\<close>

text \<open>
  The documented behaviour: a channel is a queue with a capacity. \<open>queued\<close> is what it holds,
  \<open>shut\<close> whether it has been closed. A send blocks when the queue is full, a receive when it is
  empty and open; from an empty channel that was closed a receive comes back without a value. An
  operation on one channel leaves the others alone.
\<close>

definition same_shape :: "('m \<Rightarrow> nat \<Rightarrow> bool) \<Rightarrow> ('m \<Rightarrow> nat \<Rightarrow> nat) \<Rightarrow> 'm \<Rightarrow> 'm \<Rightarrow> bool" where
  "same_shape shut cap m m' \<longleftrightarrow> shut m' = shut m \<and> cap m' = cap m"

definition sends :: "'m chan_lib \<Rightarrow> ('m \<Rightarrow> nat \<Rightarrow> int list) \<Rightarrow> ('m \<Rightarrow> nat \<Rightarrow> bool) \<Rightarrow> ('m \<Rightarrow> nat \<Rightarrow> nat) \<Rightarrow> bool" where
  "sends L queued shut cap \<longleftrightarrow> (\<forall>c v m. \<not> shut m c \<longrightarrow>
     (case chan_send L c v m of
        None \<Rightarrow> cap m c \<le> length (queued m c)
      | Some (_, _, m') \<Rightarrow> length (queued m c) < cap m c \<and> same_shape shut cap m m'
          \<and> queued m' = (queued m)(c := queued m c @ [v])))"

definition receives :: "'m chan_lib \<Rightarrow> ('m \<Rightarrow> nat \<Rightarrow> int list) \<Rightarrow> ('m \<Rightarrow> nat \<Rightarrow> bool) \<Rightarrow> ('m \<Rightarrow> nat \<Rightarrow> nat) \<Rightarrow> bool" where
  "receives L queued shut cap \<longleftrightarrow> (\<forall>c m.
     (case chan_recv L c m of
        None \<Rightarrow> queued m c = [] \<and> \<not> shut m c
      | Some ((v, ok), _, m') \<Rightarrow> same_shape shut cap m m'
          \<and> (case queued m c of [] \<Rightarrow> \<not> ok \<and> shut m c \<and> queued m' = queued m
             | x # xs \<Rightarrow> ok \<and> v = x \<and> queued m' = (queued m)(c := xs))))"

definition chan_law :: "'m chan_lib \<Rightarrow> ('m \<Rightarrow> nat \<Rightarrow> int list) \<Rightarrow> ('m \<Rightarrow> nat \<Rightarrow> bool) \<Rightarrow> ('m \<Rightarrow> nat \<Rightarrow> nat) \<Rightarrow> bool" where
  "chan_law L queued shut cap \<longleftrightarrow> sends L queued shut cap \<and> receives L queued shut cap
     \<and> (\<forall>k m c t m'. chan_make L k m = (c, t, m') \<longrightarrow> c \<noteq> 0 \<longrightarrow>
          queued m' c = [] \<and> \<not> shut m' c \<and> cap m' c = k)
     \<and> (\<forall>c m. queued m c = [] \<longrightarrow> \<not> shut m c \<longrightarrow> \<not> snd (fst (chan_try_recv L c m))
          \<and> same_shape shut cap m (snd (snd (chan_try_recv L c m)))
          \<and> queued (snd (snd (chan_try_recv L c m))) = queued m)
     \<and> (\<forall>c m. queued (snd (snd (chan_close L c m))) = queued m
          \<and> shut (snd (snd (chan_close L c m))) = (shut m)(c := True)
          \<and> cap (snd (snd (chan_close L c m))) = cap m)
     \<and> (\<forall>c v m. cap m c = 0 \<longrightarrow> queued (chan_meet L c v m) = queued m
          \<and> same_shape shut cap m (chan_meet L c v m))"

lemma sendsD:
  assumes "chan_law L queued shut cap" and "\<not> shut m c"
  shows "case chan_send L c v m of
        None \<Rightarrow> cap m c \<le> length (queued m c)
      | Some (_, _, m') \<Rightarrow> length (queued m c) < cap m c \<and> same_shape shut cap m m'
          \<and> queued m' = (queued m)(c := queued m c @ [v])"
  using assms unfolding chan_law_def sends_def by blast

lemma receivesD:
  assumes "chan_law L queued shut cap"
  shows "case chan_recv L c m of
        None \<Rightarrow> queued m c = [] \<and> \<not> shut m c
      | Some ((v, ok), _, m') \<Rightarrow> same_shape shut cap m m'
          \<and> (case queued m c of [] \<Rightarrow> \<not> ok \<and> shut m c \<and> queued m' = queued m
             | x # xs \<Rightarrow> ok \<and> v = x \<and> queued m' = (queued m)(c := xs))"
  using assms unfolding chan_law_def receives_def by blast

lemma chan_law_send:
  assumes "chan_law L queued shut cap" and "\<not> shut m c" and "length (queued m c) < cap m c"
  obtains t m' where "chan_send L c v m = Some ((), t, m')" "same_shape shut cap m m'"
    "queued m' = (queued m)(c := queued m c @ [v])"
  using sendsD [OF assms(1,2), where v = v] assms(3) that
  by (cases "chan_send L c v m") (auto simp: split_beta)

lemma chan_law_full:
  assumes "chan_law L queued shut cap" and "\<not> shut m c" and "cap m c \<le> length (queued m c)"
  shows "chan_send L c v m = None"
  using sendsD [OF assms(1,2), where v = v] assms(3) by (cases "chan_send L c v m") (auto simp: split_beta)

lemma chan_law_recv:
  assumes "chan_law L queued shut cap" and "queued m c = x # xs"
  obtains t m' where "chan_recv L c m = Some ((x, True), t, m')" "same_shape shut cap m m'"
    "queued m' = (queued m)(c := xs)"
  using receivesD [OF assms(1), where c = c and m = m] assms(2) that
  by (cases "chan_recv L c m") (auto simp: split_beta)

lemma chan_law_empty:
  assumes "chan_law L queued shut cap" and "queued m c = []" and "\<not> shut m c"
  shows "chan_recv L c m = None"
  using receivesD [OF assms(1), where c = c and m = m] assms(2,3) by (cases "chan_recv L c m") (auto simp: split_beta)

lemma chan_law_shut:
  assumes "chan_law L queued shut cap" and "queued m c = []" and "shut m c"
  obtains v t m' where "chan_recv L c m = Some ((v, False), t, m')" "same_shape shut cap m m'"
    "queued m' = queued m"
  using receivesD [OF assms(1), where c = c and m = m] assms(2,3) that
  by (cases "chan_recv L c m") (auto simp: split_beta)

lemma chan_law_try:
  assumes "chan_law L queued shut cap" and "queued m c = []" and "\<not> shut m c"
  shows "\<not> snd (fst (chan_try_recv L c m))" "same_shape shut cap m (snd (snd (chan_try_recv L c m)))"
    "queued (snd (snd (chan_try_recv L c m))) = queued m"
  using assms unfolding chan_law_def by blast+

lemma chan_law_close:
  assumes "chan_law L queued shut cap"
  shows "queued (snd (snd (chan_close L c m))) = queued m"
    "shut (snd (snd (chan_close L c m))) = (shut m)(c := True)"
    "cap (snd (snd (chan_close L c m))) = cap m"
  using assms unfolding chan_law_def by blast+

lemma chan_law_meet:
  assumes "chan_law L queued shut cap" and "cap m c = 0"
  shows "queued (chan_meet L c v m) = queued m" "same_shape shut cap m (chan_meet L c v m)"
  using assms unfolding chan_law_def by blast+

lemma chan_law_make:
  assumes "chan_law L queued shut cap" and "chan_make L k m = (c, t, m')" and "c \<noteq> 0"
  shows "queued m' c = []" "\<not> shut m' c" "cap m' c = k"
  using assms unfolding chan_law_def by blast+

section \<open>The rows of one goroutine\<close>

text \<open>What the channel looks like at the top of every round.\<close>

definition idle_chan :: "('m \<Rightarrow> nat \<Rightarrow> int list) \<Rightarrow> ('m \<Rightarrow> nat \<Rightarrow> bool) \<Rightarrow> ('m \<Rightarrow> nat \<Rightarrow> nat) \<Rightarrow> nat
    \<Rightarrow> 'm process world \<Rightarrow> bool" where
  "idle_chan queued shut cap c w \<longleftrightarrow> queued (machine (rest w)) c = [] \<and> \<not> shut (machine (rest w)) c
     \<and> cap (machine (rest w)) c = 1"

lemma send_recv_round:
  assumes "chan_law L queued shut cap" and "idle_chan queued shut cap c w"
  shows "\<exists>w'. blocking (chan_send L c 1) (\<lambda>_. blocking (chan_recv L c) (\<lambda>(got, ok). keep_u64 (of_int got))) w
    = Some w' \<and> kept w' = kept w @ [KeptU64 1] \<and> idle_chan queued shut cap c w'"
proof -
  let ?m = "machine (rest w)"
  obtain t m1 where s: "chan_send L c 1 ?m = Some ((), t, m1)" "same_shape shut cap ?m m1"
    "queued m1 = (queued ?m)(c := [1])"
    using chan_law_send [OF assms(1), where m = ?m and c = c and v = 1] assms(2) by (auto simp: idle_chan_def)
  then have "queued m1 c = [1]" by simp
  then obtain u m2 where "chan_recv L c m1 = Some ((1, True), u, m2)" "same_shape shut cap m1 m2"
    "queued m2 = (queued m1)(c := [])" using chan_law_recv [OF assms(1)] by metis
  with s assms(2) show ?thesis
    by (simp add: blocking_def stmt_simps idle_chan_def same_shape_def lib_def perform_def)
qed

lemma try_recv_round:
  assumes "chan_law L queued shut cap" and "idle_chan queued shut cap c w"
  shows "\<exists>w'. calling (chan_try_recv L c) (\<lambda>(got, ok). keep_u64 (if ok then 1 else 0)) w = Some w'
    \<and> kept w' = kept w @ [KeptU64 0] \<and> idle_chan queued shut cap c w'"
proof -
  obtain v ok t m' where "chan_try_recv L c (machine (rest w)) = ((v, ok), t, m')"
    by (metis surj_pair)
  moreover from this assms(2) have "\<not> ok" "same_shape shut cap (machine (rest w)) m'"
    "queued m' = queued (machine (rest w))"
    using chan_law_try [OF assms(1), where c = c and m = "machine (rest w)"] by (simp_all add: idle_chan_def)
  ultimately show ?thesis using assms(2)
    by (simp add: stmt_simps idle_chan_def same_shape_def lib_def)
qed

text \<open>A row that makes a channel, runs rounds that leave it idle, and frees it.\<close>

lemma with_chan_row:
  fixes w :: "'m process world" and queued :: "'m \<Rightarrow> nat \<Rightarrow> int list"
  assumes "host_ok h" and "chan_law L queued shut cap" and "\<And>m. (fst (chan_make L 1 m) \<noteq> 0) = made"
    and "\<And>c v. idle_chan queued shut cap c v \<Longrightarrow>
      \<exists>v'. body c v = Some v' \<and> kept v' = kept v @ [out] \<and> idle_chan queued shut cap c v'"
  shows "\<exists>w'. run_with_one_p h R (with_chan L 1 (\<lambda>c. timed_section h (bench_loop (\<lambda>_. body c)))) w = Some w'
    \<and> kept w' = kept w @ (if made then replicate (nat (b_n (bch w))) out else [])"
proof (rule one_p_row [OF assms(1)])
  fix v :: "'m process world" assume v: "kept v = kept w" "b_n (bch v) = b_n (bch w)"
  obtain c t m' where c: "chan_make L 1 (machine (rest v)) = (c, t, m')" by (metis surj_pair)
  let ?x = "perform (\<lambda>p. p\<lparr>int_var := (int_var p)(''c1'' := int c)\<rparr>) (snd (call (lib (chan_make L 1)) v))"
  let ?outs = "if made then replicate (nat (b_n (bch w))) out else []"
  have made: "made = (c \<noteq> 0)" using assms(3) [of "machine (rest v)"] c by simp
  show "\<exists>v'. with_chan L 1 (\<lambda>c. timed_section h (bench_loop (\<lambda>_. body c))) v = Some v'
    \<and> kept v' = kept w @ ?outs"
  proof (cases "c = 0")
    case True
    with made c v show ?thesis by (simp add: with_chan_def calling_def split_beta set_int_def assign_def)
  next
    case False
    have idle: "idle_chan queued shut cap c ?x"
      using chan_law_make [OF assms(2) c False] c by (simp add: idle_chan_def perform_def)
    have "\<exists>y. timed_section h (bench_loop (\<lambda>_. body c)) ?x = Some y
      \<and> kept y = kept ?x @ replicate (nat (b_n (bch w))) out \<and> True"
    proof (rule timed_section_run [OF assms(1)])
      fix y :: "'m process world"
      assume y: "machine (rest y) = machine (rest ?x)" "kept y = kept ?x" "b_n (bch y) = b_n (bch ?x)"
      have "idle_chan queued shut cap c y" using idle y(1) by (simp add: idle_chan_def)
      from loop_kept [of "\<lambda>j. idle_chan queued shut cap c" y "\<lambda>_. body c" "\<lambda>_. [out]", OF this] assms(4)
      obtain z where "bench_loop (\<lambda>_. body c) y = Some z"
        "kept z = kept y @ concat (map (\<lambda>_. [out]) [0..<nat (b_n (bch y))])" by blast
      then show "\<exists>z. bench_loop (\<lambda>_. body c) y = Some z \<and> kept z = kept ?x @ replicate (nat (b_n (bch w))) out \<and> True"
        using y v by (simp add: map_replicate_const)
    qed
    then obtain y where "timed_section h (bench_loop (\<lambda>_. body c)) ?x = Some y"
      "kept y = kept w @ replicate (nat (b_n (bch w))) out" using v(1) by auto
    with made c False v show ?thesis
      by (simp add: with_chan_def calling_def split_beta set_int_def assign_def)
  qed
qed

text \<open>
  Functional: the rows of one goroutine never block. With a channel that keeps its contract,
  every value that is sent is received, so the row of sends and receives hands 1 to the sink in
  every round, and the row that asks an empty channel gets no in every round; when no channel can
  be made both come back with nothing in the sink.
\<close>
theorem chan_rows_answer:
  assumes "host_ok h" and "chan_law L queued shut cap" and "\<And>m. (fst (chan_make L 1 m) \<noteq> 0) = made"
  shows "(\<exists>w'. bench_chan_uncontended h R L w = Some w'
      \<and> kept w' = kept w @ (if made then replicate (nat (b_n (bch w))) (KeptU64 1) else []))
    \<and> (\<exists>w'. bench_chan_nonblocking h R L w = Some w'
      \<and> kept w' = kept w @ (if made then replicate (nat (b_n (bch w))) (KeptU64 0) else []))"
  unfolding bench_chan_uncontended_def bench_chan_nonblocking_def uncontended_body_def nonblocking_body_def
  by (intro conjI with_chan_row [OF assms] send_recv_round [OF assms(2)] try_recv_round [OF assms(2)])

end
