(* ===== verification/Chan_Steps.thy ===== *)
theory Chan_Steps
  imports Chan_Bench
begin

text \<open>
  The two benchmarks of \<open>bench/chan_bench.c\<close> with a second goroutine, in every interleaving: the
  pipeline from a producer to a consumer, and the ping pong over two channels, with a buffer of
  one or without. The channels keep the contract of \<open>Chan_Bench\<close>.
\<close>

section \<open>Producer to consumer\<close>

definition PRODCONS_CAP :: nat where "PRODCONS_CAP = 100"

text \<open>
  \<open>next_i\<close> is the \<open>i\<close> of the producer, \<open>closing\<close> says that it has left its loop and closed the
  channel; \<open>total_sum\<close> and \<open>drained\<close> are the consumer's \<open>sum\<close> and whether its loop has ended.
\<close>

record 'm pipe =
  next_i :: nat
  closing :: bool
  total_sum :: u64
  drained :: bool
  mach :: 'm

fun prodcons_producer :: "'m chan_lib \<Rightarrow> nat \<Rightarrow> nat \<Rightarrow> 'm pipe \<Rightarrow> 'm pipe option" where
  "prodcons_producer L c n s =
     (if closing s then None
      else if next_i s < n
      then (case chan_send L c (int (next_i s)) (mach s) of
              None \<Rightarrow> None
            | Some (_, _, m) \<Rightarrow> Some (s\<lparr>next_i := next_i s + 1, mach := m\<rparr>))
      else Some (s\<lparr>closing := True, mach := snd (snd (chan_close L c (mach s)))\<rparr>))"

fun prodcons_body :: "'m chan_lib \<Rightarrow> nat \<Rightarrow> 'm pipe \<Rightarrow> 'm pipe option" where
  "prodcons_body L c s =
     (if drained s then None
      else (case chan_recv L c (mach s) of
              None \<Rightarrow> None
            | Some ((got, ok), _, m) \<Rightarrow>
                Some (if ok then s\<lparr>total_sum := total_sum s + of_int got, mach := m\<rparr>
                      else s\<lparr>drained := True, mach := m\<rparr>)))"

definition pipe_start :: "'m \<Rightarrow> 'm pipe" where
  "pipe_start m = \<lparr>next_i = 0, closing = False, total_sum = 0, drained = False, mach = m\<rparr>"

inductive pipe_step :: "'m chan_lib \<Rightarrow> nat \<Rightarrow> nat \<Rightarrow> 'm pipe \<Rightarrow> 'm pipe \<Rightarrow> bool" for L c n where
  produce: "prodcons_producer L c n s = Some t \<Longrightarrow> pipe_step L c n s t"
| consume: "prodcons_body L c s = Some t \<Longrightarrow> pipe_step L c n s t"

text \<open>The states after \<open>k\<close> steps, whoever made them.\<close>

inductive pipe_run :: "'m chan_lib \<Rightarrow> nat \<Rightarrow> nat \<Rightarrow> 'm \<Rightarrow> nat \<Rightarrow> 'm pipe \<Rightarrow> bool" for L c n m where
  start: "pipe_run L c n m 0 (pipe_start m)"
| step: "pipe_run L c n m k s \<Longrightarrow> pipe_step L c n s t \<Longrightarrow> pipe_run L c n m (k + 1) t"

text \<open>
  The invariant: what has been received and what is queued are the numbers that were sent, in
  order; \<open>got\<close> is how many have been received.
\<close>

definition pipe_inv :: "('m \<Rightarrow> nat \<Rightarrow> int list) \<Rightarrow> ('m \<Rightarrow> nat \<Rightarrow> bool) \<Rightarrow> ('m \<Rightarrow> nat \<Rightarrow> nat) \<Rightarrow> nat \<Rightarrow> nat \<Rightarrow> nat
    \<Rightarrow> nat \<Rightarrow> 'm pipe \<Rightarrow> bool" where
  "pipe_inv queued shut cap c n k got s \<longleftrightarrow>
     got \<le> next_i s \<and> next_i s \<le> n \<and> queued (mach s) c = map int [got..<next_i s]
     \<and> total_sum s = of_nat (\<Sum>{0..<got}) \<and> shut (mach s) c = closing s
     \<and> (closing s \<longrightarrow> next_i s = n) \<and> (drained s \<longrightarrow> closing s \<and> got = n)
     \<and> cap (mach s) c = PRODCONS_CAP
     \<and> k = next_i s + got + (if closing s then 1 else 0) + (if drained s then 1 else 0)"

lemma upt_first: "map int [a..<b] = x # xs \<Longrightarrow> a < b \<and> x = int a \<and> xs = map int [Suc a..<b]"
  by (cases "a < b") (auto simp: upt_conv_Cons)

lemma producer_keeps:
  assumes "chan_law L queued shut cap" and "pipe_inv queued shut cap c n k got s"
    and "prodcons_producer L c n s = Some t"
  shows "pipe_inv queued shut cap c n (k + 1) got t"
proof (cases "next_i s < n")
  case True
  have open_c: "\<not> closing s" "\<not> shut (mach s) c" using assms(2,3) by (auto simp: pipe_inv_def split: if_splits)
  from assms(3) True open_c obtain u m where send: "chan_send L c (int (next_i s)) (mach s) = Some ((), u, m)"
    and t: "t = s\<lparr>next_i := next_i s + 1, mach := m\<rparr>" by (auto split: option.splits)
  from sendsD [OF assms(1) open_c(2), where v = "int (next_i s)"] send
  have "same_shape shut cap (mach s) m" "queued m = (queued (mach s))(c := queued (mach s) c @ [int (next_i s)])"
    by simp_all
  with assms(2) True open_c t show ?thesis by (simp add: pipe_inv_def same_shape_def)
next
  case False
  with assms(3) have "\<not> closing s" and t: "t = s\<lparr>closing := True, mach := snd (snd (chan_close L c (mach s)))\<rparr>"
    by (auto split: if_splits)
  with assms(2) False chan_law_close [OF assms(1), of c "mach s"] show ?thesis
    by (simp add: pipe_inv_def)
qed

lemma consumer_keeps:
  assumes "chan_law L queued shut cap" and "pipe_inv queued shut cap c n k got s"
    and "prodcons_body L c s = Some t"
  shows "\<exists>got'. pipe_inv queued shut cap c n (k + 1) got' t"
proof -
  have nd: "\<not> drained s" using assms(3) by (auto split: if_splits)
  from assms(3) nd obtain v ok u m where recv: "chan_recv L c (mach s) = Some ((v, ok), u, m)"
    and t: "t = (if ok then s\<lparr>total_sum := total_sum s + of_int v, mach := m\<rparr> else s\<lparr>drained := True, mach := m\<rparr>)"
    by (auto split: option.splits)
  from receivesD [OF assms(1), where c = c and m = "mach s"] recv
  have law: "same_shape shut cap (mach s) m" "case queued (mach s) c of
      [] \<Rightarrow> \<not> ok \<and> shut (mach s) c \<and> queued m = queued (mach s)
    | x # xs \<Rightarrow> ok \<and> v = x \<and> queued m = (queued (mach s))(c := xs)" by simp_all
  show ?thesis
  proof (cases "queued (mach s) c")
    case Nil
    with law(2) have "\<not> ok" "shut (mach s) c" "queued m = queued (mach s)" by simp_all
    moreover from Nil assms(2) have "got = next_i s" by (auto simp: pipe_inv_def)
    ultimately have "pipe_inv queued shut cap c n (k + 1) got t"
      using assms(2) nd law(1) t Nil by (simp add: pipe_inv_def same_shape_def)
    then show ?thesis by blast
  next
    case (Cons x xs)
    with law(2) have r: "ok" "v = x" "queued m = (queued (mach s))(c := xs)" by simp_all
    have q: "got < next_i s" "x = int got" "xs = map int [Suc got..<next_i s]"
      using assms(2) Cons upt_first [of got "next_i s" x xs] by (simp_all add: pipe_inv_def)
    have "pipe_inv queued shut cap c n (k + 1) (Suc got) t"
      using assms(2) nd law(1) t r q by (simp add: pipe_inv_def same_shape_def)
    then show ?thesis by blast
  qed
qed

lemma pipe_run_inv:
  assumes "chan_law L queued shut cap" and "queued m c = []" and "\<not> shut m c" and "cap m c = PRODCONS_CAP"
    and "pipe_run L c n m k s"
  shows "\<exists>got. pipe_inv queued shut cap c n k got s"
  using assms(5)
proof (induction rule: pipe_run.induct)
  case start
  then show ?case using assms(2-4) by (intro exI [of _ 0]) (simp add: pipe_inv_def pipe_start_def)
next
  case (step k s t)
  then obtain got where "pipe_inv queued shut cap c n k got s" by blast
  with step.hyps(2) producer_keeps [OF assms(1) this] consumer_keeps [OF assms(1) this] show ?case
    by (auto elim!: pipe_step.cases simp del: prodcons_producer.simps prodcons_body.simps)
qed

text \<open>
  Functional: the pipeline delivers every number once. In every interleaving of the producer
  and the consumer over a channel that keeps its contract, for every \<open>n\<close>, the run makes at most
  \<open>2 n + 2\<close> operations on the channel and is never stuck before the consumer's loop has ended; when
  it has, its sum is \<open>0 + 1 + ... + (n - 1)\<close> in 64 bits, and the producer has
  closed the channel, so it is not using it when the consumer frees it.
\<close>
theorem prodcons_sums_all:
  assumes "chan_law L queued shut cap" and "queued m c = []" and "\<not> shut m c" and "cap m c = PRODCONS_CAP"
    and "pipe_run L c n m k s"
  shows "k \<le> 2 * n + 2 \<and> (drained s \<or> (\<exists>t. pipe_step L c n s t))
    \<and> (drained s \<longrightarrow> total_sum s = of_nat (n * (n - 1) div 2) \<and> closing s)"
proof -
  obtain got where inv: "pipe_inv queued shut cap c n k got s" using pipe_run_inv [OF assms] by blast
  have "k \<le> 2 * n + 2" using inv by (auto simp: pipe_inv_def)
  moreover have "drained s \<or> (\<exists>t. pipe_step L c n s t)"
  proof (cases "drained s")
    case False
    have "prodcons_body L c s \<noteq> None \<or> prodcons_producer L c n s \<noteq> None"
    proof (cases "queued (mach s) c = [] \<and> \<not> shut (mach s) c")
      case True
      with inv have nc: "\<not> closing s" "\<not> shut (mach s) c" "length (queued (mach s) c) < cap (mach s) c"
        by (simp_all add: pipe_inv_def PRODCONS_CAP_def)
      obtain u x where "chan_send L c (int (next_i s)) (mach s) = Some ((), u, x)"
        by (rule chan_law_send [OF assms(1) nc(2,3), where v = "int (next_i s)"])
      with nc(1) show ?thesis by simp
    next
      case False
      with receivesD [OF assms(1), where c = c and m = "mach s"] have "chan_recv L c (mach s) \<noteq> None"
        by (cases "chan_recv L c (mach s)") auto
      with \<open>\<not> drained s\<close> show ?thesis by (auto split: option.splits)
    qed
    then show ?thesis using pipe_step.intros by (metis not_None_eq)
  qed simp
  moreover have "total_sum s = of_nat (n * (n - 1) div 2) \<and> closing s" if "drained s"
  proof -
    have "\<Sum>{0..<n} = n * (n - 1) div 2" using Sum_Ico_nat [of 0 n] by simp
    moreover have "total_sum s = of_nat (\<Sum>{0..<n})" "closing s"
      using inv that unfolding pipe_inv_def by blast+
    ultimately show ?thesis by simp
  qed
  ultimately show ?thesis by blast
qed

section \<open>The ping pong\<close>

text \<open>
  \<open>pingpong\<close> after it has made its channels and launched \<open>pingpong_child\<close>: where each of the two
  is in its code, \<open>VSend i\<close> and \<open>VRecv i\<close> being the operations of round \<open>i\<close> of the loop.
\<close>

datatype volley_pc = VSend nat | VRecv nat | VStop | VLast | VSpin | VDone

datatype reply_pc = RRecv | RTest int | RSend int | RAdd | RGone

record 'm volley =
  volley_pc :: volley_pc
  reply_pc :: reply_pc
  pp_stop :: u32
  pp_gone :: u32
  pp_got :: int
  pp_mach :: 'm

definition volley_start :: "'m \<Rightarrow> 'm volley" where
  "volley_start m = \<lparr>volley_pc = VSend 0, reply_pc = RRecv, pp_stop = 0, pp_gone = 0, pp_got = 0, pp_mach = m\<rparr>"

text \<open>The channel operation each of the two is at, with what it sends and where it goes on.\<close>

fun main_sends :: "nat \<Rightarrow> volley_pc \<Rightarrow> (int \<times> volley_pc) option" where
  "main_sends n (VSend i) = (if i < n then Some (1, VRecv i) else None)"
| "main_sends n VLast = Some (0, VSpin)"
| "main_sends n pc = None"

fun main_receives :: "volley_pc \<Rightarrow> volley_pc option" where
  "main_receives (VRecv i) = Some (VSend (i + 1))"
| "main_receives pc = None"

fun child_sends :: "reply_pc \<Rightarrow> (int \<times> reply_pc) option" where
  "child_sends (RSend v) = Some (v, RRecv)"
| "child_sends pc = None"

fun child_receives :: "reply_pc \<Rightarrow> int \<times> bool \<Rightarrow> reply_pc option" where
  "child_receives RRecv (v, ok) = Some (if ok then RTest v else RAdd)"
| "child_receives pc r = None"

text \<open>The steps that are not channel operations.\<close>

fun pingpong_main :: "nat \<Rightarrow> 'm volley \<Rightarrow> 'm volley option" where
  "pingpong_main n s = (case volley_pc s of
     VSend i \<Rightarrow> if i < n then None else Some (s\<lparr>volley_pc := VStop\<rparr>)
   | VStop \<Rightarrow> Some (s\<lparr>volley_pc := VLast, pp_stop := 1\<rparr>)
   | VSpin \<Rightarrow> Some (if pp_gone s = 0 then s else s\<lparr>volley_pc := VDone\<rparr>)
   | _ \<Rightarrow> None)"

fun pingpong_child :: "'m volley \<Rightarrow> 'm volley option" where
  "pingpong_child s = (case reply_pc s of
     RTest v \<Rightarrow> Some (s\<lparr>reply_pc := if pp_stop s \<noteq> 0 then RAdd else RSend v\<rparr>)
   | RAdd \<Rightarrow> Some (s\<lparr>reply_pc := RGone, pp_gone := pp_gone s + 1\<rparr>)
   | _ \<Rightarrow> None)"

text \<open>
  One step: a local one, an operation on a buffered channel, or a send and a receive that meet on a
  channel without a buffer.
\<close>

inductive volley_step :: "'m chan_lib \<Rightarrow> nat \<Rightarrow> nat \<Rightarrow> nat \<Rightarrow> nat \<Rightarrow> 'm volley \<Rightarrow> 'm volley \<Rightarrow> bool"
  for L buf c1 c2 n where
  main_local: "pingpong_main n s = Some t \<Longrightarrow> volley_step L buf c1 c2 n s t"
| child_local: "pingpong_child s = Some t \<Longrightarrow> volley_step L buf c1 c2 n s t"
| main_send: "main_sends n (volley_pc s) = Some (v, pc) \<Longrightarrow>
    chan_send L c1 v (pp_mach s) = Some (x, d, m) \<Longrightarrow>
    volley_step L buf c1 c2 n s (s\<lparr>volley_pc := pc, pp_mach := m\<rparr>)"
| child_recv: "chan_recv L c1 (pp_mach s) = Some (r, d, m) \<Longrightarrow> child_receives (reply_pc s) r = Some pc \<Longrightarrow>
    volley_step L buf c1 c2 n s (s\<lparr>reply_pc := pc, pp_mach := m\<rparr>)"
| child_send: "child_sends (reply_pc s) = Some (v, pc) \<Longrightarrow>
    chan_send L c2 v (pp_mach s) = Some (x, d, m) \<Longrightarrow>
    volley_step L buf c1 c2 n s (s\<lparr>reply_pc := pc, pp_mach := m\<rparr>)"
| main_recv: "chan_recv L c2 (pp_mach s) = Some ((v, ok), d, m) \<Longrightarrow> main_receives (volley_pc s) = Some pc \<Longrightarrow>
    volley_step L buf c1 c2 n s (s\<lparr>volley_pc := pc, pp_got := v, pp_mach := m\<rparr>)"
| meet_there: "buf = 0 \<Longrightarrow> main_sends n (volley_pc s) = Some (v, pc) \<Longrightarrow>
    child_receives (reply_pc s) (v, True) = Some pc' \<Longrightarrow>
    volley_step L buf c1 c2 n s
      (s\<lparr>volley_pc := pc, reply_pc := pc', pp_mach := chan_meet L c1 v (pp_mach s)\<rparr>)"
| meet_back: "buf = 0 \<Longrightarrow> child_sends (reply_pc s) = Some (v, pc) \<Longrightarrow>
    main_receives (volley_pc s) = Some pc' \<Longrightarrow>
    volley_step L buf c1 c2 n s
      (s\<lparr>reply_pc := pc, volley_pc := pc', pp_got := v, pp_mach := chan_meet L c2 v (pp_mach s)\<rparr>)"

text \<open>The runs; a turn of the loop that waits for \<open>pp_gone\<close> is not counted.\<close>

inductive volley_run :: "'m chan_lib \<Rightarrow> nat \<Rightarrow> nat \<Rightarrow> nat \<Rightarrow> nat \<Rightarrow> 'm \<Rightarrow> nat \<Rightarrow> 'm volley \<Rightarrow> bool"
  for L buf c1 c2 n m where
  start: "volley_run L buf c1 c2 n m 0 (volley_start m)"
| step: "volley_run L buf c1 c2 n m k s \<Longrightarrow> volley_step L buf c1 c2 n s t \<Longrightarrow>
    volley_run L buf c1 c2 n m (if t = s then k else k + 1) t"

text \<open>
  The invariant: where the one value in flight is. \<open>q1\<close> and \<open>q2\<close> are the queues of the two
  channels and \<open>k\<close> is the number of steps so far; \<open>e\<close> is one with a buffer, where a value is sent in
  one step and received in another, and zero without, where the two meet.
\<close>

fun volley_at :: "nat \<Rightarrow> nat \<Rightarrow> nat \<Rightarrow> volley_pc \<Rightarrow> reply_pc \<Rightarrow> int list \<Rightarrow> int list \<Rightarrow> u32 \<Rightarrow> u32 \<Rightarrow> bool" where
  "volley_at n e k (VSend i) r q1 q2 stop gone \<longleftrightarrow>
     i \<le> n \<and> r = RRecv \<and> q1 = [] \<and> q2 = [] \<and> stop = 0 \<and> gone = 0 \<and> k = (3 + 2 * e) * i"
| "volley_at n e k (VRecv i) r q1 q2 stop gone \<longleftrightarrow> i < n \<and> stop = 0 \<and> gone = 0
     \<and> (r = RRecv \<and> q1 = [1] \<and> q2 = [] \<and> e = 1 \<and> k = 5 * i + 1
        \<or> r = RTest 1 \<and> q1 = [] \<and> q2 = [] \<and> k = (3 + 2 * e) * i + 1 + e
        \<or> r = RSend 1 \<and> q1 = [] \<and> q2 = [] \<and> k = (3 + 2 * e) * i + 2 + e
        \<or> r = RRecv \<and> q1 = [] \<and> q2 = [1] \<and> e = 1 \<and> k = 5 * i + 4)"
| "volley_at n e k VStop r q1 q2 stop gone \<longleftrightarrow>
     r = RRecv \<and> q1 = [] \<and> q2 = [] \<and> stop = 0 \<and> gone = 0 \<and> k = (3 + 2 * e) * n + 1"
| "volley_at n e k VLast r q1 q2 stop gone \<longleftrightarrow>
     r = RRecv \<and> q1 = [] \<and> q2 = [] \<and> stop = 1 \<and> gone = 0 \<and> k = (3 + 2 * e) * n + 2"
| "volley_at n e k VSpin r q1 q2 stop gone \<longleftrightarrow> q2 = [] \<and> stop = 1
     \<and> (r = RRecv \<and> q1 = [0] \<and> gone = 0 \<and> e = 1 \<and> k = 5 * n + 3
        \<or> r = RTest 0 \<and> q1 = [] \<and> gone = 0 \<and> k = (3 + 2 * e) * n + 3 + e
        \<or> r = RAdd \<and> q1 = [] \<and> gone = 0 \<and> k = (3 + 2 * e) * n + 4 + e
        \<or> r = RGone \<and> q1 = [] \<and> gone = 1 \<and> k = (3 + 2 * e) * n + 5 + e)"
| "volley_at n e k VDone r q1 q2 stop gone \<longleftrightarrow>
     r = RGone \<and> q1 = [] \<and> q2 = [] \<and> stop = 1 \<and> gone = 1 \<and> k = (3 + 2 * e) * n + 6 + e"

text \<open>One with a buffer.\<close>

definition slots :: "nat \<Rightarrow> nat" where
  "slots buf = (if buf = 0 then 0 else 1)"

lemma slots_none [simp]: "slots 0 = 0"
  by (simp add: slots_def)

definition open_chans :: "('m \<Rightarrow> nat \<Rightarrow> bool) \<Rightarrow> ('m \<Rightarrow> nat \<Rightarrow> nat) \<Rightarrow> nat \<Rightarrow> nat \<Rightarrow> nat \<Rightarrow> 'm \<Rightarrow> bool" where
  "open_chans shut cap buf c1 c2 m \<longleftrightarrow> \<not> shut m c1 \<and> \<not> shut m c2 \<and> cap m c1 = buf \<and> cap m c2 = buf"

text \<open>How many volleys are complete.\<close>

fun volleys :: "nat \<Rightarrow> volley_pc \<Rightarrow> nat" where
  "volleys n (VSend i) = i"
| "volleys n (VRecv i) = i"
| "volleys n pc = n"

definition volley_inv :: "('m \<Rightarrow> nat \<Rightarrow> int list) \<Rightarrow> ('m \<Rightarrow> nat \<Rightarrow> bool) \<Rightarrow> ('m \<Rightarrow> nat \<Rightarrow> nat) \<Rightarrow> nat \<Rightarrow> nat
    \<Rightarrow> nat \<Rightarrow> nat \<Rightarrow> nat \<Rightarrow> 'm volley \<Rightarrow> bool" where
  "volley_inv queued shut cap buf c1 c2 n k s \<longleftrightarrow> open_chans shut cap buf c1 c2 (pp_mach s)
     \<and> volley_at n (slots buf) k (volley_pc s) (reply_pc s) (queued (pp_mach s) c1) (queued (pp_mach s) c2)
         (pp_stop s) (pp_gone s)
     \<and> pp_got s = (if volleys n (volley_pc s) = 0 then 0 else 1)"

lemma open_chans_same:
  "same_shape shut cap m m' \<Longrightarrow> open_chans shut cap buf c1 c2 m' = open_chans shut cap buf c1 c2 m"
  by (simp add: same_shape_def open_chans_def)

lemma volley_local:
  assumes "volley_inv queued shut cap buf c1 c2 n k s"
    and "pingpong_main n s = Some t \<or> pingpong_child s = Some t" and "t \<noteq> s"
  shows "volley_inv queued shut cap buf c1 c2 n (k + 1) t"
  using assms
  by (cases "volley_pc s"; cases "reply_pc s") (auto simp: volley_inv_def split: if_splits)

lemma volley_main_send:
  assumes "chan_law L queued shut cap" and "volley_inv queued shut cap buf c1 c2 n k s" and "c1 \<noteq> c2"
    and "main_sends n (volley_pc s) = Some (v, pc)" and "chan_send L c1 v (pp_mach s) = Some (x, d, m)"
  shows "volley_inv queued shut cap buf c1 c2 n (k + 1) (s\<lparr>volley_pc := pc, pp_mach := m\<rparr>)"
proof -
  have "\<not> shut (pp_mach s) c1" using assms(2) by (simp add: volley_inv_def open_chans_def)
  from sendsD [OF assms(1) this, where v = v] assms(5)
  have "same_shape shut cap (pp_mach s) m" "queued m = (queued (pp_mach s))(c1 := queued (pp_mach s) c1 @ [v])"
    "length (queued (pp_mach s) c1) < cap (pp_mach s) c1" by simp_all
  moreover from this(3) have "slots buf = 1" using assms(2) by (auto simp: volley_inv_def open_chans_def slots_def)
  ultimately show ?thesis using assms(2-4)
    by (cases "volley_pc s") (auto simp: volley_inv_def open_chans_same split: if_splits)
qed

lemma volley_child_send:
  assumes "chan_law L queued shut cap" and "volley_inv queued shut cap buf c1 c2 n k s" and "c1 \<noteq> c2"
    and "child_sends (reply_pc s) = Some (v, pc)" and "chan_send L c2 v (pp_mach s) = Some (x, d, m)"
  shows "volley_inv queued shut cap buf c1 c2 n (k + 1) (s\<lparr>reply_pc := pc, pp_mach := m\<rparr>)"
proof -
  have "\<not> shut (pp_mach s) c2" using assms(2) by (simp add: volley_inv_def open_chans_def)
  from sendsD [OF assms(1) this, where v = v] assms(5)
  have "same_shape shut cap (pp_mach s) m" "queued m = (queued (pp_mach s))(c2 := queued (pp_mach s) c2 @ [v])"
    "length (queued (pp_mach s) c2) < cap (pp_mach s) c2" by simp_all
  moreover from this(3) have "slots buf = 1" using assms(2) by (auto simp: volley_inv_def open_chans_def slots_def)
  ultimately show ?thesis using assms(2-4)
    by (cases "reply_pc s"; cases "volley_pc s") (auto simp: volley_inv_def open_chans_same)
qed

lemma recv_open:
  assumes "chan_law L queued shut cap" and "\<not> shut m c" and "chan_recv L c m = Some ((v, ok), d, m')"
  shows "ok \<and> same_shape shut cap m m' \<and> (\<exists>q. queued m c = v # q \<and> queued m' = (queued m)(c := q))"
  using receivesD [OF assms(1), where c = c and m = m] assms(2,3)
  by (cases "queued m c") auto

lemma volley_child_recv:
  assumes "chan_law L queued shut cap" and "volley_inv queued shut cap buf c1 c2 n k s" and "c1 \<noteq> c2"
    and "chan_recv L c1 (pp_mach s) = Some (r, d, m)" and "child_receives (reply_pc s) r = Some pc"
  shows "volley_inv queued shut cap buf c1 c2 n (k + 1) (s\<lparr>reply_pc := pc, pp_mach := m\<rparr>)"
proof -
  obtain v ok where r: "r = (v, ok)" by (cases r)
  have "\<not> shut (pp_mach s) c1" using assms(2) by (simp add: volley_inv_def open_chans_def)
  from recv_open [OF assms(1) this assms(4) [unfolded r]] obtain q where
    q: ok "same_shape shut cap (pp_mach s) m" "queued (pp_mach s) c1 = v # q"
      "queued m = (queued (pp_mach s))(c1 := q)" by blast
  from assms(5) r have "reply_pc s = RRecv" by (cases "reply_pc s") simp_all
  with assms(2,3,5) q r show ?thesis
    by (cases "volley_pc s") (auto simp: volley_inv_def open_chans_same)
qed

lemma volley_main_recv:
  assumes "chan_law L queued shut cap" and "volley_inv queued shut cap buf c1 c2 n k s" and "c1 \<noteq> c2"
    and "chan_recv L c2 (pp_mach s) = Some ((v, ok), d, m)" and "main_receives (volley_pc s) = Some pc"
  shows "volley_inv queued shut cap buf c1 c2 n (k + 1) (s\<lparr>volley_pc := pc, pp_got := v, pp_mach := m\<rparr>)"
proof -
  have "\<not> shut (pp_mach s) c2" using assms(2) by (simp add: volley_inv_def open_chans_def)
  from recv_open [OF assms(1) this assms(4)] obtain q where
    q: "same_shape shut cap (pp_mach s) m" "queued (pp_mach s) c2 = v # q"
      "queued m = (queued (pp_mach s))(c2 := q)" by blast
  with assms(2,3,5) show ?thesis
    by (cases "volley_pc s") (auto simp: volley_inv_def open_chans_same)
qed

lemma volley_meet:
  assumes "chan_law L queued shut cap" and "volley_inv queued shut cap 0 c1 c2 n k s"
  shows "main_sends n (volley_pc s) = Some (v, pc) \<Longrightarrow> child_receives (reply_pc s) (v, True) = Some pc' \<Longrightarrow>
      volley_inv queued shut cap 0 c1 c2 n (k + 1)
        (s\<lparr>volley_pc := pc, reply_pc := pc', pp_mach := chan_meet L c1 v (pp_mach s)\<rparr>)"
    and "child_sends (reply_pc s) = Some (v, rpc) \<Longrightarrow> main_receives (volley_pc s) = Some mpc \<Longrightarrow>
      volley_inv queued shut cap 0 c1 c2 n (k + 1)
        (s\<lparr>reply_pc := rpc, volley_pc := mpc, pp_got := v, pp_mach := chan_meet L c2 v (pp_mach s)\<rparr>)"
proof -
  have "cap (pp_mach s) c1 = 0" "cap (pp_mach s) c2 = 0" using assms(2)
    by (simp_all add: volley_inv_def open_chans_def)
  then have laws: "queued (chan_meet L c1 x (pp_mach s)) = queued (pp_mach s)"
    "queued (chan_meet L c2 x (pp_mach s)) = queued (pp_mach s)"
    "open_chans shut cap 0 c1 c2 (chan_meet L c1 x (pp_mach s)) = open_chans shut cap 0 c1 c2 (pp_mach s)"
    "open_chans shut cap 0 c1 c2 (chan_meet L c2 x (pp_mach s)) = open_chans shut cap 0 c1 c2 (pp_mach s)" for x
    using chan_law_meet [OF assms(1)] open_chans_same by metis+
  show "volley_inv queued shut cap 0 c1 c2 n (k + 1)
        (s\<lparr>volley_pc := pc, reply_pc := pc', pp_mach := chan_meet L c1 v (pp_mach s)\<rparr>)"
    if "main_sends n (volley_pc s) = Some (v, pc)" "child_receives (reply_pc s) (v, True) = Some pc'"
    using that assms(2) laws
    by (cases "volley_pc s"; cases "reply_pc s") (auto simp: volley_inv_def split: if_splits)
  show "volley_inv queued shut cap 0 c1 c2 n (k + 1)
        (s\<lparr>reply_pc := rpc, volley_pc := mpc, pp_got := v, pp_mach := chan_meet L c2 v (pp_mach s)\<rparr>)"
    if "child_sends (reply_pc s) = Some (v, rpc)" "main_receives (volley_pc s) = Some mpc"
    using that assms(2) laws
    by (cases "volley_pc s"; cases "reply_pc s") (auto simp: volley_inv_def)
qed

lemma volley_step_inv:
  assumes "chan_law L queued shut cap" and "c1 \<noteq> c2" and "volley_inv queued shut cap buf c1 c2 n k s"
    and "volley_step L buf c1 c2 n s t" and "t \<noteq> s"
  shows "volley_inv queued shut cap buf c1 c2 n (k + 1) t"
  using assms(4)
proof (cases rule: volley_step.cases)
  case main_local
  with volley_local [OF assms(3)] assms(5) show ?thesis by blast
next
  case child_local
  with volley_local [OF assms(3)] assms(5) show ?thesis by blast
next
  case main_send
  with volley_main_send [OF assms(1,3,2)] show ?thesis by blast
next
  case child_recv
  with volley_child_recv [OF assms(1,3,2)] show ?thesis by blast
next
  case child_send
  with volley_child_send [OF assms(1,3,2)] show ?thesis by blast
next
  case main_recv
  with volley_main_recv [OF assms(1,3,2)] show ?thesis by blast
next
  case meet_there
  with volley_meet(1) [OF assms(1)] assms(3) show ?thesis by blast
next
  case meet_back
  with volley_meet(2) [OF assms(1)] assms(3) show ?thesis by blast
qed

lemma volley_run_inv:
  assumes "chan_law L queued shut cap" and "c1 \<noteq> c2" and "open_chans shut cap buf c1 c2 m"
    and "queued m c1 = []" and "queued m c2 = []" and "volley_run L buf c1 c2 n m k s"
  shows "volley_inv queued shut cap buf c1 c2 n k s"
  using assms(6)
proof (induction rule: volley_run.induct)
  case start
  then show ?case using assms(3-5) by (simp add: volley_inv_def volley_start_def)
next
  case (step k s t)
  then show ?case using volley_step_inv [OF assms(1,2) step.IH step.hyps(2)] by simp
qed

lemma main_can_send:
  assumes "chan_law L queued shut cap" and "open_chans shut cap buf c1 c2 (pp_mach s)"
    and "queued (pp_mach s) c1 = []" and "main_sends n (volley_pc s) = Some (v, pc)" and "reply_pc s = RRecv"
  shows "\<exists>t. volley_step L buf c1 c2 n s t \<and> volley_pc t = pc"
proof (cases "buf = 0")
  case True
  from volley_step.meet_there [OF True assms(4), of "RTest v" L c1 c2] assms(5)
  have "volley_step L buf c1 c2 n s
      (s\<lparr>volley_pc := pc, reply_pc := RTest v, pp_mach := chan_meet L c1 v (pp_mach s)\<rparr>)" by simp
  then show ?thesis by (intro exI conjI, assumption) simp
next
  case False
  then have "\<not> shut (pp_mach s) c1" "length (queued (pp_mach s) c1) < cap (pp_mach s) c1"
    using assms(2,3) by (simp_all add: open_chans_def)
  then obtain d m where "chan_send L c1 v (pp_mach s) = Some ((), d, m)"
    using chan_law_send [OF assms(1), where v = v] by metis
  from volley_step.main_send [OF assms(4) this, of buf c2] show ?thesis by (intro exI conjI, assumption) simp
qed

lemma child_can_send:
  assumes "chan_law L queued shut cap" and "open_chans shut cap buf c1 c2 (pp_mach s)"
    and "queued (pp_mach s) c2 = []" and "reply_pc s = RSend v" and "volley_pc s = VRecv i"
  shows "\<exists>t. volley_step L buf c1 c2 n s t \<and> reply_pc t = RRecv"
proof (cases "buf = 0")
  case True
  from volley_step.meet_back [OF True, of s v RRecv "VSend (i + 1)" L c1 c2 n] assms(4,5)
  have "volley_step L buf c1 c2 n s
      (s\<lparr>reply_pc := RRecv, volley_pc := VSend (i + 1), pp_got := v, pp_mach := chan_meet L c2 v (pp_mach s)\<rparr>)"
    by simp
  then show ?thesis by (intro exI conjI, assumption) simp
next
  case False
  then have "\<not> shut (pp_mach s) c2" "length (queued (pp_mach s) c2) < cap (pp_mach s) c2"
    using assms(2,3) by (simp_all add: open_chans_def)
  then obtain d m where send: "chan_send L c2 v (pp_mach s) = Some ((), d, m)"
    using chan_law_send [OF assms(1), where v = v] by metis
  have "child_sends (reply_pc s) = Some (v, RRecv)" using assms(4) by simp
  from volley_step.child_send [OF this send, of buf c1 n] show ?thesis by (intro exI conjI, assumption) simp
qed

lemma child_can_recv:
  assumes "chan_law L queued shut cap" and "queued (pp_mach s) c1 = v # q" and "reply_pc s = RRecv"
  shows "\<exists>t. volley_step L buf c1 c2 n s t \<and> reply_pc t = RTest v"
proof -
  obtain d m where recv: "chan_recv L c1 (pp_mach s) = Some ((v, True), d, m)"
    using chan_law_recv [OF assms(1,2)] by metis
  have "child_receives (reply_pc s) (v, True) = Some (RTest v)" using assms(3) by simp
  from volley_step.child_recv [OF recv this, of buf c2 n] show ?thesis by (intro exI conjI, assumption) simp
qed

lemma main_can_recv:
  assumes "chan_law L queued shut cap" and "queued (pp_mach s) c2 = v # q" and "volley_pc s = VRecv i"
  shows "\<exists>t. volley_step L buf c1 c2 n s t \<and> volley_pc t = VSend (i + 1)"
proof -
  obtain d m where recv: "chan_recv L c2 (pp_mach s) = Some ((v, True), d, m)"
    using chan_law_recv [OF assms(1,2)] by metis
  have "main_receives (volley_pc s) = Some (VSend (i + 1))" using assms(3) by simp
  from volley_step.main_recv [OF recv this, of buf c1 n] show ?thesis by (intro exI conjI, assumption) simp
qed

lemma volley_progress:
  assumes "chan_law L queued shut cap" and "volley_inv queued shut cap buf c1 c2 n k s" and "volley_pc s \<noteq> VDone"
  shows "\<exists>t. t \<noteq> s \<and> volley_step L buf c1 c2 n s t"
proof -
  have opened: "open_chans shut cap buf c1 c2 (pp_mach s)" using assms(2) by (simp add: volley_inv_def)
  note send = main_can_send [OF assms(1) opened]
  have child: "\<exists>t. t \<noteq> s \<and> volley_step L buf c1 c2 n s t"
    if "reply_pc s = RAdd \<or> (\<exists>v. reply_pc s = RTest v)"
  proof -
    from that obtain t where "pingpong_child s = Some t" "reply_pc t \<noteq> reply_pc s" by auto
    then show ?thesis using volley_step.child_local by metis
  qed
  show ?thesis
  proof (cases "volley_pc s")
    case (VSend i)
    show ?thesis
    proof (cases "i < n")
      case True
      with VSend assms(2) send [of n 1 "VRecv i"] obtain t where "volley_step L buf c1 c2 n s t" "volley_pc t = VRecv i"
        by (auto simp: volley_inv_def)
      with VSend show ?thesis by (intro exI [of _ t]) auto
    next
      case False
      with VSend have "pingpong_main n s = Some (s\<lparr>volley_pc := VStop\<rparr>)" by simp
      from volley_step.main_local [OF this, of L buf c1 c2] VSend show ?thesis
        by (metis volley.simps(1) volley.surjective volley.update_convs(1) volley_pc.distinct(3))
    qed
  next
    case (VRecv i)
    with assms(2) consider "reply_pc s = RRecv" "queued (pp_mach s) c1 = [1]" | "reply_pc s = RTest 1"
      | "reply_pc s = RSend 1" "queued (pp_mach s) c2 = []" | "queued (pp_mach s) c2 = [1]"
      by (auto simp: volley_inv_def)
    then show ?thesis
    proof cases
      case 1
      with child_can_recv [OF assms(1) 1(2,1), of buf c2 n] show ?thesis by (metis reply_pc.distinct(1))
    next
      case 2
      with child show ?thesis by blast
    next
      case 3
      with child_can_send [OF assms(1) opened 3(2,1) VRecv, of n] show ?thesis by (metis reply_pc.distinct(3))
    next
      case 4
      with main_can_recv [OF assms(1) 4 VRecv, of buf c1 n] VRecv show ?thesis by (metis volley_pc.distinct(1))
    qed
  next
    case VStop
    then have "pingpong_main n s = Some (s\<lparr>volley_pc := VLast, pp_stop := 1\<rparr>)" by simp
    from volley_step.main_local [OF this, of L buf c1 c2] VStop show ?thesis
      by (intro exI [of _ "s\<lparr>volley_pc := VLast, pp_stop := 1\<rparr>"]) (auto dest: arg_cong [of _ _ volley_pc])
  next
    case VLast
    with assms(2) send [of n 0 VSpin] obtain t where "volley_step L buf c1 c2 n s t" "volley_pc t = VSpin"
      by (auto simp: volley_inv_def)
    with VLast show ?thesis by (intro exI [of _ t]) auto
  next
    case VSpin
    with assms(2) consider "reply_pc s = RRecv" "queued (pp_mach s) c1 = [0]" | "reply_pc s = RTest 0"
      | "reply_pc s = RAdd" | "pp_gone s = 1" by (auto simp: volley_inv_def)
    then show ?thesis
    proof cases
      case 1
      with child_can_recv [OF assms(1) 1(2,1), of buf c2 n] show ?thesis by (metis reply_pc.distinct(1))
    next
      case 4
      with VSpin have "pingpong_main n s = Some (s\<lparr>volley_pc := VDone\<rparr>)" by simp
      from volley_step.main_local [OF this, of L buf c1 c2] VSpin show ?thesis
        by (intro exI [of _ "s\<lparr>volley_pc := VDone\<rparr>"]) (auto dest: arg_cong [of _ _ volley_pc])
    qed (use child in blast)+
  qed (use assms(3) in blast)
qed

text \<open>
  C7. Liveness: the ping pong ends after a known number of steps, with or without a buffer. In every interleaving of
  the two goroutines over two channels that keep their contract, a run of \<open>n\<close> iterations that is over has made
  exactly \<open>5 n + 7\<close> steps that change the state, or \<open>3 n + 6\<close> when there is no buffer and a send and its receive are
  one step: a whole volley, there, looked at and back, for each iteration, and one way for the stop. No run makes more,
  and none is stuck before the main goroutine is through; every reply is the value that was sent; and when the main
  goroutine goes on to free the channels, the child is gone and nothing is left in them.
\<close>
theorem pingpong_ends:
  assumes "chan_law L queued shut cap" and "c1 \<noteq> c2" and "open_chans shut cap buf c1 c2 m"
    and "queued m c1 = []" and "queued m c2 = []" and "volley_run L buf c1 c2 n m k s"
  shows "k \<le> (if buf = 0 then 3 * n + 6 else 5 * n + 7)
    \<and> (volley_pc s = VDone \<or> (\<exists>t. t \<noteq> s \<and> volley_step L buf c1 c2 n s t))
    \<and> pp_got s = (if volleys n (volley_pc s) = 0 then 0 else 1)
    \<and> (volley_pc s = VDone \<longrightarrow> k = (if buf = 0 then 3 * n + 6 else 5 * n + 7) \<and> reply_pc s = RGone
         \<and> queued (pp_mach s) c1 = [] \<and> queued (pp_mach s) c2 = [])"
proof -
  have inv: "volley_inv queued shut cap buf c1 c2 n k s" by (rule volley_run_inv [OF assms])
  then have at: "volley_at n (slots buf) k (volley_pc s) (reply_pc s) (queued (pp_mach s) c1) (queued (pp_mach s) c2)
      (pp_stop s) (pp_gone s)" by (simp add: volley_inv_def)
  have "k \<le> (if buf = 0 then 3 * n + 6 else 5 * n + 7)"
    using at by (cases "volley_pc s"; cases "buf = 0") (auto simp: slots_def)
  moreover have "volley_pc s = VDone \<longrightarrow> k = (if buf = 0 then 3 * n + 6 else 5 * n + 7) \<and> reply_pc s = RGone
      \<and> queued (pp_mach s) c1 = [] \<and> queued (pp_mach s) c2 = []" using at by (auto simp: slots_def)
  moreover have "pp_got s = (if volleys n (volley_pc s) = 0 then 0 else 1)" using inv by (simp add: volley_inv_def)
  ultimately show ?thesis using volley_progress [OF assms(1) inv] by blast
qed

section \<open>A channel that keeps the contract\<close>

record chans =
  queue_of :: "nat \<Rightarrow> int list"
  closed_of :: "nat \<Rightarrow> bool"
  cap_of :: "nat \<Rightarrow> nat"

definition list_chan :: "chans chan_lib" where
  "list_chan = \<lparr>
     chan_make = (\<lambda>k m. (1, 5, m\<lparr>queue_of := (queue_of m)(1 := []), closed_of := (closed_of m)(1 := False),
       cap_of := (cap_of m)(1 := k)\<rparr>)),
     chan_free = (\<lambda>c m. ((), 1, m)),
     chan_send = (\<lambda>c v m. if length (queue_of m c) < cap_of m c
       then Some ((), 1, m\<lparr>queue_of := (queue_of m)(c := queue_of m c @ [v])\<rparr>) else None),
     chan_recv = (\<lambda>c m. case queue_of m c of
       [] \<Rightarrow> if closed_of m c then Some ((0, False), 1, m) else None
     | x # xs \<Rightarrow> Some ((x, True), 1, m\<lparr>queue_of := (queue_of m)(c := xs)\<rparr>)),
     chan_try_recv = (\<lambda>c m. case queue_of m c of
       [] \<Rightarrow> ((0, False), 1, m)
     | x # xs \<Rightarrow> ((x, True), 1, m\<lparr>queue_of := (queue_of m)(c := xs)\<rparr>)),
     chan_close = (\<lambda>c m. ((), 1, m\<lparr>closed_of := (closed_of m)(c := True)\<rparr>)),
     chan_meet = (\<lambda>c v m. m)\<rparr>"

lemma list_chan_law: "chan_law list_chan queue_of closed_of cap_of"
  unfolding chan_law_def
  by (intro conjI)
    (auto simp: sends_def receives_def list_chan_def same_shape_def split: list.splits)

definition empty_chans :: "nat \<Rightarrow> chans" where
  "empty_chans k = \<lparr>queue_of = (\<lambda>c. []), closed_of = (\<lambda>c. False), cap_of = (\<lambda>c. k)\<rparr>"

definition one_p :: "chans runtime_lib" where
  "one_p = \<lparr>runtime_start = (\<lambda>m. ((), 9, m)), runtime_stop = (\<lambda>m. ((), 9, m)),
     gomaxprocs = (\<lambda>k m. (1, 1, m)), gosched = (\<lambda>m. ((), 1, m))\<rparr>"

text \<open>A run along a schedule: true is a turn of the producer.\<close>

fun scheduled :: "'m chan_lib \<Rightarrow> nat \<Rightarrow> nat \<Rightarrow> bool list \<Rightarrow> 'm pipe \<Rightarrow> 'm pipe option" where
  "scheduled L c n [] s = Some s"
| "scheduled L c n (b # bs) s =
     do { s \<leftarrow> if b then prodcons_producer L c n s else prodcons_body L c s; scheduled L c n bs s }"

lemma scheduled_run:
  "pipe_run L c n m k s \<Longrightarrow> scheduled L c n bs s = Some t \<Longrightarrow> pipe_run L c n m (k + length bs) t"
proof (induction bs arbitrary: k s)
  case (Cons b bs)
  then obtain u where u: "(if b then prodcons_producer L c n s else prodcons_body L c s) = Some u"
    "scheduled L c n bs u = Some t" by (auto simp: bind_eq_Some_conv simp del: prodcons_producer.simps prodcons_body.simps)
  then have "pipe_step L c n s u"
    by (cases b) (simp_all add: pipe_step.intros del: prodcons_producer.simps prodcons_body.simps)
  from Cons.IH [OF pipe_run.step [OF Cons.prems(1) this] u(2)] show ?case by simp
qed simp

lemma pipe_of_two:
  "\<exists>s. scheduled list_chan 1 2 [True, True, False, True, False, False] (pipe_start (empty_chans 100)) = Some s
    \<and> drained s"
  by (simp add: pipe_start_def list_chan_def empty_chans_def)

theorem prodcons_sums_all_witness:
  "\<exists>s. pipe_run list_chan 1 2 (empty_chans 100) 6 s \<and> total_sum s = 1 \<and> closing s"
proof -
  obtain s where d: "drained s" "scheduled list_chan 1 2 [True, True, False, True, False, False]
      (pipe_start (empty_chans 100)) = Some s" using pipe_of_two by blast
  have s: "pipe_run list_chan 1 2 (empty_chans 100) 6 s"
    using scheduled_run [OF pipe_run.start d(2)] by (simp add: eval_nat_numeral)
  from prodcons_sums_all [OF list_chan_law _ _ _ s] s d(1) show ?thesis
    by (auto simp: empty_chans_def PRODCONS_CAP_def)
qed

theorem pingpong_ends_witness:
  "\<exists>t. volley_step list_chan 0 1 2 3 (volley_start (empty_chans 0)) t"
  using pingpong_ends [OF list_chan_law _ _ _ _ volley_run.start, of 1 2 0 "empty_chans 0" 3]
  by (auto simp: empty_chans_def open_chans_def volley_start_def)

definition chan_world :: "int \<Rightarrow> chans process world" where
  "chan_world n = \<lparr>bch = zero_bench\<lparr>b_n := n\<rparr>, kept = [], rest = \<lparr>clock = 0, int_var = (\<lambda>x. 0),
     u64_var = (\<lambda>x. 0), dbl_var = (\<lambda>x. 0), int_array = (\<lambda>x. []), str_array = (\<lambda>x. []),
     machine = empty_chans 0\<rparr>\<rparr>"

theorem chan_rows_answer_witness:
  "\<exists>w'. bench_chan_uncontended (exact_host (\<lambda>x. 0) (\<lambda>x. 0)) one_p list_chan (chan_world 2) = Some w'
    \<and> kept w' = [KeptU64 1, KeptU64 1]"
proof -
  have "\<And>m. (fst (chan_make list_chan 1 m) \<noteq> 0) = True" by (simp add: list_chan_def)
  from chan_rows_answer [OF exact_host_ok list_chan_law this, of "\<lambda>x. 0" "\<lambda>x. 0" one_p "chan_world 2"]
  show ?thesis by (simp add: chan_world_def numeral_2_eq_2)
qed

end
