(* ===== verification/Runtime_Bench.thy ===== *)
theory Runtime_Bench
  imports Runtime_Lib
begin

text \<open>
  \<open>bench/runtime_bench.c\<close>: the parts a goroutine is made of, which are contexts, stacks, run
  queues and stack traces. All rows run on one thread; the worker context of the switching row is
  modelled by what it does between two switches.
\<close>

section \<open>What the file takes from burrow\<close>

text \<open>
  Contexts, stacks, queues and goroutines are named by their addresses. A put says whether it
  succeeded; \<open>runq_zero\<close> is \<open>memset\<close> of a P followed by its status; \<open>callers frames max\<close> is
  \<open>runtime_callers\<close> called with that many frames of \<open>tr_down\<close> on the stack and a buffer of \<open>max\<close>.
\<close>

record 'm rt_lib =
  stack_alloc :: "nat \<Rightarrow> nat \<Rightarrow> (bool, 'm) op"
  stack_free :: "nat \<Rightarrow> (unit, 'm) op"
  stack_bounds :: "nat \<Rightarrow> (nat \<times> nat, 'm) op"
  stack_set_current :: "nat \<Rightarrow> (nat, 'm) op"
  stack_page_size :: "(nat, 'm) op"
  mcontext_attach :: "nat \<Rightarrow> (bool, 'm) op"
  mcontext_detach :: "nat \<Rightarrow> (unit, 'm) op"
  mcontext_make :: "nat \<Rightarrow> nat \<Rightarrow> nat \<Rightarrow> nat \<Rightarrow> (bool, 'm) op"
  mcontext_free :: "nat \<Rightarrow> (unit, 'm) op"
  mcontext_switch :: "nat \<Rightarrow> nat \<Rightarrow> (unit, 'm) op"
  runq_zero :: "nat \<Rightarrow> (unit, 'm) op"
  runq_put :: "nat \<Rightarrow> nat \<Rightarrow> bool \<Rightarrow> (bool, 'm) op"
  runq_get :: "nat \<Rightarrow> (nat, 'm) op"
  runq_steal :: "nat \<Rightarrow> nat \<Rightarrow> bool \<Rightarrow> (nat, 'm) op"
  runq_put_slow :: "nat \<Rightarrow> nat \<Rightarrow> nat \<Rightarrow> (unit, 'm) op"
  gqueue_zero :: "nat \<Rightarrow> (unit, 'm) op"
  gqueue_push :: "nat \<Rightarrow> nat \<Rightarrow> (unit, 'm) op"
  gqueue_pop :: "nat \<Rightarrow> (nat, 'm) op"
  gqueue_head :: "nat \<Rightarrow> (nat, 'm) op"
  callers :: "nat \<Rightarrow> nat \<Rightarrow> (int, 'm) op"

definition BURROW_STACK_MIN :: "'m host \<Rightarrow> nat" where
  "BURROW_STACK_MIN h = addr h ''BURROW_STACK_MIN''"

definition BURROW_RUNQ_SIZE :: nat where "BURROW_RUNQ_SIZE = 256"

section \<open>Contexts\<close>

text \<open>
  A turn of the worker, from the switch into it to the switch back or its return; \<open>rt.returned\<close>
  counts its returns.
\<close>

definition rt_bounce :: "'m host \<Rightarrow> 'm rt_lib \<Rightarrow> 'm cstmt" where
  "rt_bounce h L = reading (\<lambda>p. (u64_var p ''rt_stop'', u64_var p ''rt.returned'')) (\<lambda>(stop, r).
     if stop = 0 then call_op (mcontext_switch L (addr h ''rt_worker'') (addr h ''rt_main''))
     else set_u64 ''rt.returned'' (r + 1))"

definition to_worker :: "'m host \<Rightarrow> 'm rt_lib \<Rightarrow> 'm cstmt" where
  "to_worker h L = block [
     call_op (mcontext_switch L (addr h ''rt_main'') (addr h ''rt_worker'')), rt_bounce h L]"

definition switch_rounds :: "'m host \<Rightarrow> 'm rt_lib \<Rightarrow> 'm cstmt" where
  "switch_rounds h L = block [
     resuming h,
     bench_loop (\<lambda>_. to_worker h L),
     pausing h,
     set_u64 ''rt_stop'' 1,
     to_worker h L,
     call_op (mcontext_free L (addr h ''rt_worker'')),
     call_op (mcontext_detach L (addr h ''rt_main'')),
     call_op (stack_free L (addr h ''rt_stack'')),
     resuming h]"

definition bench_mcontext_switch :: "'m host \<Rightarrow> 'm rt_lib \<Rightarrow> 'm cstmt" where
  "bench_mcontext_switch h L = block [
     pausing h,
     calling (stack_alloc L (addr h ''rt_stack'') 65536) (\<lambda>ok.
       if \<not> ok then Some
       else calling (mcontext_attach L (addr h ''rt_main'')) (\<lambda>ok.
         if \<not> ok then call_op (stack_free L (addr h ''rt_stack''))
         else calling (stack_bounds L (addr h ''rt_stack'')) (\<lambda>(lo, hi). block [
           set_u64 ''rt_stop'' 0,
           calling (mcontext_make L (addr h ''rt_worker'') lo (hi - lo) (addr h ''rt_main'')) (\<lambda>ok.
             if \<not> ok then block [
               call_op (mcontext_detach L (addr h ''rt_main'')),
               call_op (stack_free L (addr h ''rt_stack''))]
             else switch_rounds h L)])))]"

text \<open>A loop body that leaves the loop when an operation of burrow fails.\<close>

definition or_break :: "(bool, 'm) op \<Rightarrow> 'm cstmt \<Rightarrow> 'm process world \<Rightarrow> (bool \<times> 'm process world) option" where
  "or_break f k w = (let (ok, w) = call (lib f) w in
     if ok then do { w \<leftarrow> k w; Some (True, w) } else Some (False, w))"

definition bench_mcontext_make :: "'m host \<Rightarrow> 'm rt_lib \<Rightarrow> 'm cstmt" where
  "bench_mcontext_make h L = block [
     pausing h,
     calling (stack_alloc L (addr h ''rt_make_stack'') 65536) (\<lambda>ok.
       if \<not> ok then Some
       else calling (stack_bounds L (addr h ''rt_make_stack'')) (\<lambda>(lo, hi). block [
         resuming h,
         bench_loop_break (\<lambda>_. or_break (mcontext_make L (addr h ''rt_made'') lo (hi - lo) (addr h ''rt_link''))
           (call_op (mcontext_free L (addr h ''rt_made'')))),
         pausing h,
         call_op (stack_free L (addr h ''rt_make_stack'')),
         resuming h]))]"

section \<open>Stacks\<close>

definition alloc_free :: "'m host \<Rightarrow> 'm rt_lib \<Rightarrow> nat \<Rightarrow> 'm cstmt" where
  "alloc_free h L sz = bench_loop_break (\<lambda>_. or_break (stack_alloc L (addr h ''rt_scratch'') sz) (block [
     calling (stack_bounds L (addr h ''rt_scratch'')) (\<lambda>(lo, hi). keep lo),
     call_op (stack_free L (addr h ''rt_scratch''))]))"

definition bench_stack_alloc_free_min :: "'m host \<Rightarrow> 'm rt_lib \<Rightarrow> 'm cstmt" where
  "bench_stack_alloc_free_min h L = alloc_free h L (BURROW_STACK_MIN h)"

definition bench_stack_alloc_free_large :: "'m host \<Rightarrow> 'm rt_lib \<Rightarrow> 'm cstmt" where
  "bench_stack_alloc_free_large h L = alloc_free h L 1048576"

definition bench_stack_set_current :: "'m host \<Rightarrow> 'm rt_lib \<Rightarrow> 'm cstmt" where
  "bench_stack_set_current h L = (let p = bench_hide (addr h ''rt_named'') in block [
     bench_loop (\<lambda>_. calling (stack_set_current L p) keep),
     call_op (stack_set_current L 0)])"

definition bench_stack_page_size :: "'m rt_lib \<Rightarrow> 'm cstmt" where
  "bench_stack_page_size L = bench_loop (\<lambda>_. calling (stack_page_size L) (\<lambda>s. keep_u64 (of_nat s)))"

section \<open>The run queues\<close>

text \<open>\<open>&rq_gs[i]\<close>: the goroutines are the elements of a static array.\<close>

definition rq_g :: "'m host \<Rightarrow> nat \<Rightarrow> nat" where
  "rq_g h i = addr h ''rq_gs'' + i * addr h ''sizeof burrow__G''"

definition rq_reset :: "'m rt_lib \<Rightarrow> nat \<Rightarrow> 'm cstmt" where
  "rq_reset L p = call_op (runq_zero L p)"

definition put_get :: "'m host \<Rightarrow> 'm rt_lib \<Rightarrow> bool \<Rightarrow> 'm cstmt" where
  "put_get h L nxt = block [
     pausing h,
     rq_reset L (addr h ''rq_p''),
     resuming h,
     bench_loop (\<lambda>_. block [
       call_op (runq_put L (addr h ''rq_p'') (rq_g h 0) nxt),
       calling (runq_get L (addr h ''rq_p'')) keep])]"

definition bench_runq_put_get :: "'m host \<Rightarrow> 'm rt_lib \<Rightarrow> 'm cstmt" where
  "bench_runq_put_get h L = put_get h L False"

definition bench_runq_put_get_next :: "'m host \<Rightarrow> 'm rt_lib \<Rightarrow> 'm cstmt" where
  "bench_runq_put_get_next h L = put_get h L True"

text \<open>The loop that fills the ring of a P.\<close>

definition fill_ring :: "'m host \<Rightarrow> 'm rt_lib \<Rightarrow> nat \<Rightarrow> 'm cstmt" where
  "fill_ring h L p = repeat_for BURROW_RUNQ_SIZE (\<lambda>i. call_op (runq_put L p (rq_g h (nat i)) False))"

definition bench_runq_fill_drain :: "'m host \<Rightarrow> 'm rt_lib \<Rightarrow> 'm cstmt" where
  "bench_runq_fill_drain h L = block [
     pausing h,
     rq_reset L (addr h ''rq_p''),
     resuming h,
     bench_loop (\<lambda>_. block [
       fill_ring h L (addr h ''rq_p''),
       repeat_for BURROW_RUNQ_SIZE (\<lambda>_. calling (runq_get L (addr h ''rq_p'')) keep)])]"

definition bench_runq_steal_half :: "'m host \<Rightarrow> 'm rt_lib \<Rightarrow> 'm cstmt" where
  "bench_runq_steal_half h L = block [
     pausing h,
     rq_reset L (addr h ''rq_p''),
     rq_reset L (addr h ''rq_victim''),
     resuming h,
     bench_loop (\<lambda>_. block [
       pausing h,
       rq_reset L (addr h ''rq_p''),
       rq_reset L (addr h ''rq_victim''),
       fill_ring h L (addr h ''rq_victim''),
       resuming h,
       calling (runq_steal L (addr h ''rq_p'') (addr h ''rq_victim'') False) keep])]"

definition bench_gqueue_push_pop :: "'m host \<Rightarrow> 'm rt_lib \<Rightarrow> 'm cstmt" where
  "bench_gqueue_push_pop h L = block [
     call_op (gqueue_zero L (addr h ''q'')),
     bench_loop (\<lambda>_. block [
       call_op (gqueue_push L (addr h ''q'') (rq_g h 0)),
       calling (gqueue_pop L (addr h ''q'')) keep])]"

definition bench_runq_put_slow :: "'m host \<Rightarrow> 'm rt_lib \<Rightarrow> 'm cstmt" where
  "bench_runq_put_slow h L = block [
     pausing h,
     rq_reset L (addr h ''rq_p''),
     resuming h,
     bench_loop (\<lambda>_. block [
       pausing h,
       rq_reset L (addr h ''rq_p''),
       fill_ring h L (addr h ''rq_p''),
       call_op (gqueue_zero L (addr h ''batch'')),
       resuming h,
       call_op (runq_put_slow L (addr h ''rq_p'') (rq_g h BURROW_RUNQ_SIZE) (addr h ''batch'')),
       calling (gqueue_head L (addr h ''batch'')) keep])]"

section \<open>Tracing\<close>

definition TR_DEPTH :: nat where "TR_DEPTH = 10"
definition TR_MAX :: nat where "TR_MAX = 32"

text \<open>\<open>frames\<close> counts the calls of \<open>tr_down\<close> on the stack, this one included.\<close>

fun tr_down :: "'m rt_lib \<Rightarrow> nat \<Rightarrow> nat \<Rightarrow> nat \<Rightarrow> (int, 'm) op" where
  "tr_down L frames 0 mx = callers L frames mx"
| "tr_down L frames (Suc depth) mx = tr_down L (frames + 1) depth mx"

definition bench_callers_ten :: "'m rt_lib \<Rightarrow> 'm cstmt" where
  "bench_callers_ten L = bench_loop (\<lambda>_. calling (tr_down L 1 TR_DEPTH TR_MAX) (\<lambda>n. keep_u64 (of_int n)))"

definition bench_callers_two :: "'m rt_lib \<Rightarrow> 'm cstmt" where
  "bench_callers_two L = bench_loop (\<lambda>_. calling (tr_down L 1 TR_DEPTH 2) (\<lambda>n. keep_u64 (of_int n)))"

definition runtime_table :: "'m host \<Rightarrow> 'm rt_lib \<Rightarrow> (string \<times> 'm cstmt) list" where
  "runtime_table h L = [
     (''mcontext_switch'', bench_mcontext_switch h L),
     (''mcontext_make'', bench_mcontext_make h L),
     (''stack_alloc_free_min'', bench_stack_alloc_free_min h L),
     (''stack_alloc_free_large'', bench_stack_alloc_free_large h L),
     (''stack_set_current'', bench_stack_set_current h L),
     (''stack_page_size'', bench_stack_page_size L),
     (''runq_put_get'', bench_runq_put_get h L),
     (''runq_put_get_next'', bench_runq_put_get_next h L),
     (''runq_fill_drain'', bench_runq_fill_drain h L),
     (''runq_steal_half'', bench_runq_steal_half h L),
     (''runq_put_slow'', bench_runq_put_slow h L),
     (''gqueue_push_pop'', bench_gqueue_push_pop h L),
     (''callers_ten'', bench_callers_ten L),
     (''callers_two'', bench_callers_two L)]"

section \<open>The contract\<close>

lemma or_break_moves:
  assumes "does (advances clock) k" and "or_break f k w = Some (g, w')"
  shows "advances clock w w'"
proof -
  let ?v = "snd (call (lib f) w)"
  have "advances clock w ?v" by (rule advances_rest) simp_all
  moreover have "?v = w' \<or> k ?v = Some w'"
    using assms(2) by (auto simp: or_break_def split_beta Let_def bind_eq_Some_conv split: if_split_asm)
  ultimately show ?thesis using doesD [OF assms(1)] by (blast intro: advances_trans)
qed

lemma or_break_loop_moves [contract_rules]:
  "does (advances clock) k \<Longrightarrow> does (advances clock) (bench_loop_break (\<lambda>i. or_break f k))"
  by (intro loop_break_moves) (rule or_break_moves)

lemma runtime_parts_move [contract_rules]:
  assumes "host_ok h"
  shows "does (advances clock) (switch_rounds h L)" "does (advances clock) (put_get h L nxt)"
    "does (advances clock) (fill_ring h L p)" "does (advances clock) (rq_reset L p)"
proof -
  have bounce: "does (advances clock) (rt_bounce h L)"
    unfolding rt_bounce_def by (auto simp: split_beta intro!: contract_rules)
  have "does (advances clock) (to_worker h L)"
    unfolding to_worker_def by (intro contract_rules bounce)
  then show "does (advances clock) (switch_rounds h L)" "does (advances clock) (put_get h L nxt)"
    "does (advances clock) (fill_ring h L p)" "does (advances clock) (rq_reset L p)"
    unfolding switch_rounds_def put_get_def fill_ring_def rq_reset_def
    by (intro contract_rules assms; assumption?)+
qed

lemma runtime_table_moves:
  assumes "host_ok h" and "(nm, f) \<in> set (runtime_table h L)"
  shows "does (advances clock) f"
  using assms
  by (auto simp: runtime_table_def bench_mcontext_switch_def bench_mcontext_make_def alloc_free_def
      bench_stack_alloc_free_min_def bench_stack_alloc_free_large_def bench_stack_set_current_def
      bench_stack_page_size_def bench_runq_put_get_def bench_runq_put_get_next_def
      bench_runq_fill_drain_def bench_runq_steal_half_def bench_runq_put_slow_def
      bench_gqueue_push_pop_def bench_callers_ten_def bench_callers_two_def Let_def split_beta
      intro!: contract_rules simp del: block.simps)

section \<open>What the queues promise\<close>

text \<open>
  \<open>ring m p\<close> is what a P has queued, in the order it will be run; \<open>glob m q\<close> the same of a global
  queue. A put onto a ring with room appends, or fills the empty \<open>runnext\<close> slot; a get takes the
  first; a steal hands back one of the victim's goroutines; the slow put hands half a full ring and
  the new goroutine to a batch, whose head is one of them.
\<close>

definition runq_law :: "'m rt_lib \<Rightarrow> ('m \<Rightarrow> nat \<Rightarrow> nat list) \<Rightarrow> ('m \<Rightarrow> nat \<Rightarrow> nat list) \<Rightarrow> bool" where
  "runq_law L ring glob \<longleftrightarrow>
     (\<forall>p m. ring (snd (snd (runq_zero L p m))) = (ring m)(p := []))
     \<and> (\<forall>p g m. length (ring m p) < BURROW_RUNQ_SIZE \<longrightarrow>
          ring (snd (snd (runq_put L p g False m))) = (ring m)(p := ring m p @ [g]))
     \<and> (\<forall>p g m. ring m p = [] \<longrightarrow> ring (snd (snd (runq_put L p g True m))) = (ring m)(p := [g]))
     \<and> (\<forall>p g gs m. ring m p = g # gs \<longrightarrow>
          fst (runq_get L p m) = g \<and> ring (snd (snd (runq_get L p m))) = (ring m)(p := gs))
     \<and> (\<forall>p v m. p \<noteq> v \<longrightarrow> ring m p = [] \<longrightarrow> ring m v \<noteq> [] \<longrightarrow> fst (runq_steal L p v False m) \<in> set (ring m v))
     \<and> (\<forall>q m. glob (snd (snd (gqueue_zero L q m))) = (glob m)(q := []) \<and> ring (snd (snd (gqueue_zero L q m))) = ring m)
     \<and> (\<forall>q g m. glob (snd (snd (gqueue_push L q g m))) = (glob m)(q := glob m q @ [g]))
     \<and> (\<forall>q g gs m. glob m q = g # gs \<longrightarrow>
          fst (gqueue_pop L q m) = g \<and> glob (snd (snd (gqueue_pop L q m))) = (glob m)(q := gs))
     \<and> (\<forall>q m. glob m q \<noteq> [] \<longrightarrow> fst (gqueue_head L q m) = hd (glob m q))
     \<and> (\<forall>p g q m. length (ring m p) = BURROW_RUNQ_SIZE \<longrightarrow> glob m q = [] \<longrightarrow>
          glob (snd (snd (runq_put_slow L p g q m))) q \<noteq> []
          \<and> set (glob (snd (snd (runq_put_slow L p g q m))) q) \<subseteq> insert g (set (ring m p)))"

lemma runq_lawD:
  assumes "runq_law L ring glob"
  shows "ring (snd (snd (runq_zero L p m))) = (ring m)(p := [])"
    and "length (ring m p) < BURROW_RUNQ_SIZE \<Longrightarrow>
      ring (snd (snd (runq_put L p g False m))) = (ring m)(p := ring m p @ [g])"
    and "ring m p = [] \<Longrightarrow> ring (snd (snd (runq_put L p g True m))) = (ring m)(p := [g])"
    and "ring m p = g # gs \<Longrightarrow> fst (runq_get L p m) = g"
    and "ring m p = g # gs \<Longrightarrow> ring (snd (snd (runq_get L p m))) = (ring m)(p := gs)"
    and "p \<noteq> v \<Longrightarrow> ring m p = [] \<Longrightarrow> ring m v \<noteq> [] \<Longrightarrow> fst (runq_steal L p v False m) \<in> set (ring m v)"
    and "glob (snd (snd (gqueue_zero L q m))) = (glob m)(q := [])"
    and "ring (snd (snd (gqueue_zero L q m))) = ring m"
    and "glob (snd (snd (gqueue_push L q g m))) = (glob m)(q := glob m q @ [g])"
    and "glob m q = g # gs \<Longrightarrow> fst (gqueue_pop L q m) = g"
    and "glob m q = g # gs \<Longrightarrow> glob (snd (snd (gqueue_pop L q m))) = (glob m)(q := gs)"
    and "glob m q \<noteq> [] \<Longrightarrow> fst (gqueue_head L q m) = hd (glob m q)"
    and "length (ring m p) = BURROW_RUNQ_SIZE \<Longrightarrow> glob m q = [] \<Longrightarrow>
      glob (snd (snd (runq_put_slow L p g q m))) q \<noteq> []"
    and "length (ring m p) = BURROW_RUNQ_SIZE \<Longrightarrow> glob m q = [] \<Longrightarrow>
      set (glob (snd (snd (runq_put_slow L p g q m))) q) \<subseteq> insert g (set (ring m p))"
  by (insert assms [unfolded runq_law_def], (elim conjE, (blast | metis))+)

text \<open>The loops over a ring.\<close>

lemma fill_ring_run:
  fixes w :: "'m process world"
  assumes "runq_law L ring glob" and "ring (machine (rest w)) p = []"
  shows "\<exists>v. fill_ring h L p w = Some v \<and> kept v = kept w \<and> b_n (bch v) = b_n (bch w)
    \<and> ring (machine (rest v)) = (ring (machine (rest w)))(p := map (rq_g h) [0..<BURROW_RUNQ_SIZE])"
proof -
  let ?I = "\<lambda>j (u :: 'm process world). kept u = kept w \<and> b_n (bch u) = b_n (bch w)
    \<and> ring (machine (rest u)) = (ring (machine (rest w)))(p := map (rq_g h) [0..<j])"
  have "\<exists>v. for_loop BURROW_RUNQ_SIZE 0 (\<lambda>i. call_op (runq_put L p (rq_g h (nat i)) False)) w = Some v \<and> ?I BURROW_RUNQ_SIZE v"
  proof (rule for_loop_total [where I = ?I])
    show "?I 0 w" using assms(2) by auto
    fix j and u :: "'m process world" assume "j < BURROW_RUNQ_SIZE" "?I j u"
    with runq_lawD(2) [OF assms(1), of "machine (rest u)" p "rq_g h j"]
    show "\<exists>u'. call_op (runq_put L p (rq_g h (nat (0 + int j))) False) u = Some u' \<and> ?I (Suc j) u'"
      by (simp add: calling_def split_beta)
  qed
  then show ?thesis by (simp add: fill_ring_def repeat_for_def)
qed

lemma drain_run:
  fixes w :: "'m process world"
  assumes "runq_law L ring glob" and "ring (machine (rest w)) p = gs"
  shows "\<exists>v. repeat_for (length gs) (\<lambda>_. calling (runq_get L p) keep) w = Some v
    \<and> kept v = kept w @ map KeptPtr gs \<and> ring (machine (rest v)) p = []"
proof -
  have "\<exists>v. for_loop (length gs) i (\<lambda>_. calling (runq_get L p) keep) w = Some v
    \<and> kept v = kept w @ map KeptPtr gs \<and> ring (machine (rest v)) p = []" for i
    using assms(2)
  proof (induction gs arbitrary: i w)
    case (Cons g gs)
    let ?u = "bench_keep g (snd (call (lib (runq_get L p)) w))"
    have "calling (runq_get L p) keep w = Some ?u" "ring (machine (rest ?u)) p = gs"
      "kept ?u = kept w @ [KeptPtr g]"
      using runq_lawD(4,5) [OF assms(1) Cons.prems] by (simp_all add: calling_def split_beta keep_def)
    with Cons.IH [of ?u "i + 1"] show ?case by auto
  qed simp
  then show ?thesis by (simp add: repeat_for_def)
qed

text \<open>The set-up with the timer stopped.\<close>

lemma paused_reset:
  fixes w :: "'m process world"
  assumes "host_ok h" and "runq_law L ring glob"
  obtains v where "block (pausing h # rq_reset L p # resuming h # ss) w = block ss v"
    "kept v = kept w" "b_n (bch v) = b_n (bch w)" "ring (machine (rest v)) = (ring (machine (rest w)))(p := [])"
proof -
  obtain u where u: "pausing h w = Some u" "kept u = kept w" "b_n (bch u) = b_n (bch w)"
    "machine (rest u) = machine (rest w)" using timer_stmt(1) [OF assms(1), of w] by blast
  let ?x = "snd (call (lib (runq_zero L p)) u)"
  obtain v where v: "resuming h ?x = Some v" "kept v = kept ?x" "b_n (bch v) = b_n (bch ?x)"
    "machine (rest v) = machine (rest ?x)" using timer_stmt(2) [OF assms(1), of ?x] by blast
  have "block (pausing h # rq_reset L p # resuming h # ss) w = block ss v"
    using u(1) v(1) by (simp add: rq_reset_def calling_def split_beta)
  with that u v runq_lawD(1) [OF assms(2)] show ?thesis by simp
qed

lemma put_get_row:
  fixes w :: "'m process world"
  assumes "host_ok h" and "runq_law L ring glob"
  shows "\<exists>w'. put_get h L nxt w = Some w'
    \<and> kept w' = kept w @ replicate (nat (b_n (bch w))) (KeptPtr (rq_g h 0))"
proof -
  let ?p = "addr h ''rq_p''"
  let ?body = "\<lambda>_ :: int. block [call_op (runq_put L ?p (rq_g h 0) nxt), calling (runq_get L ?p) keep]"
  let ?I = "\<lambda>(j :: nat) (v :: 'm process world). ring (machine (rest v)) ?p = []"
  obtain v where v: "put_get h L nxt w = block [bench_loop ?body] v" "kept v = kept w"
    "b_n (bch v) = b_n (bch w)" "?I 0 v"
    by (rule paused_reset [OF assms, where p = ?p and ss = "[bench_loop ?body]" and w = w])
      (simp add: put_get_def del: block.simps)
  have "\<exists>w'. bench_loop ?body v = Some w' \<and> ?I (nat (b_n (bch v))) w'
    \<and> kept w' = kept v @ concat (map (\<lambda>_. [KeptPtr (rq_g h 0)]) [0..<nat (b_n (bch v))])"
  proof (rule loop_kept [where I = ?I])
    show "?I 0 v" by (rule v(4))
    fix j and u :: "'m process world" assume u: "?I j u"
    let ?u = "snd (call (lib (runq_put L ?p (rq_g h 0) nxt)) u)"
    have "ring (machine (rest ?u)) ?p = [rq_g h 0]"
      using u runq_lawD(2,3) [OF assms(2), of "machine (rest u)" ?p "rq_g h 0"]
      by (cases nxt) (simp_all add: BURROW_RUNQ_SIZE_def)
    then have "fst (runq_get L ?p (machine (rest ?u))) = rq_g h 0"
      "ring (snd (snd (runq_get L ?p (machine (rest ?u))))) ?p = []"
      using runq_lawD(4,5) [OF assms(2), where m = "machine (rest ?u)" and p = ?p] by simp_all
    then show "\<exists>u'. ?body (int j) u = Some u' \<and> kept u' = kept u @ [KeptPtr (rq_g h 0)] \<and> ?I (Suc j) u'"
      by (simp add: calling_def split_beta keep_def)
  qed
  with v show ?thesis by (auto simp: map_replicate_const)
qed

lemma fill_drain_row:
  fixes w :: "'m process world"
  assumes "host_ok h" and "runq_law L ring glob"
  shows "\<exists>w'. bench_runq_fill_drain h L w = Some w'
    \<and> kept w' = kept w @ concat (replicate (nat (b_n (bch w))) (map (\<lambda>i. KeptPtr (rq_g h i)) [0..<BURROW_RUNQ_SIZE]))"
proof -
  let ?p = "addr h ''rq_p''"
  let ?body = "\<lambda>_ :: int. block [fill_ring h L ?p,
    repeat_for BURROW_RUNQ_SIZE (\<lambda>_. calling (runq_get L ?p) keep)]"
  let ?I = "\<lambda>(j :: nat) (v :: 'm process world). ring (machine (rest v)) ?p = []"
  obtain v where v: "bench_runq_fill_drain h L w = block [bench_loop ?body] v" "kept v = kept w"
    "b_n (bch v) = b_n (bch w)" "?I 0 v"
    by (rule paused_reset [OF assms, where p = ?p and ss = "[bench_loop ?body]" and w = w])
      (simp add: bench_runq_fill_drain_def del: block.simps)
  have "\<exists>w'. bench_loop ?body v = Some w' \<and> ?I (nat (b_n (bch v))) w'
    \<and> kept w' = kept v @ concat (map (\<lambda>_. map (\<lambda>i. KeptPtr (rq_g h i)) [0..<BURROW_RUNQ_SIZE]) [0..<nat (b_n (bch v))])"
  proof (rule loop_kept [where I = ?I])
    show "?I 0 v" by (rule v(4))
    fix j and u :: "'m process world" assume "?I j u"
    from fill_ring_run [OF assms(2) this] obtain x where x: "fill_ring h L ?p u = Some x" "kept x = kept u"
      "ring (machine (rest x)) ?p = map (rq_g h) [0..<BURROW_RUNQ_SIZE]" by (metis fun_upd_same)
    from drain_run [OF assms(2) x(3)] x(1,2)
    show "\<exists>u'. ?body (int j) u = Some u' \<and> kept u' = kept u @ map (\<lambda>i. KeptPtr (rq_g h i)) [0..<BURROW_RUNQ_SIZE] \<and> ?I (Suc j) u'"
      by (auto simp: comp_def)
  qed
  with v show ?thesis by (auto simp: map_replicate_const)
qed

lemma gqueue_row:
  fixes w :: "'m process world"
  assumes "runq_law L ring glob"
  shows "\<exists>w'. bench_gqueue_push_pop h L w = Some w'
    \<and> kept w' = kept w @ replicate (nat (b_n (bch w))) (KeptPtr (rq_g h 0))"
proof -
  let ?q = "addr h ''q''"
  let ?body = "\<lambda>_ :: int. block [call_op (gqueue_push L ?q (rq_g h 0)), calling (gqueue_pop L ?q) keep]"
  let ?I = "\<lambda>(j :: nat) (v :: 'm process world). glob (machine (rest v)) ?q = []"
  let ?v = "snd (call (lib (gqueue_zero L ?q)) w)"
  have "\<exists>w'. bench_loop ?body ?v = Some w' \<and> ?I (nat (b_n (bch ?v))) w'
    \<and> kept w' = kept ?v @ concat (map (\<lambda>_. [KeptPtr (rq_g h 0)]) [0..<nat (b_n (bch ?v))])"
  proof (rule loop_kept [where I = ?I])
    show "?I 0 ?v" using runq_lawD(7) [OF assms] by simp
    fix j and u :: "'m process world" assume u: "?I j u"
    let ?u = "snd (call (lib (gqueue_push L ?q (rq_g h 0))) u)"
    have "glob (machine (rest ?u)) ?q = [rq_g h 0]" using u runq_lawD(9) [OF assms] by simp
    from runq_lawD(10,11) [OF assms this]
    show "\<exists>u'. ?body (int j) u = Some u' \<and> kept u' = kept u @ [KeptPtr (rq_g h 0)] \<and> ?I (Suc j) u'"
      by (simp add: calling_def split_beta keep_def)
  qed
  then show ?thesis
    by (auto simp: bench_gqueue_push_pop_def calling_def split_beta map_replicate_const)
qed

text \<open>
  C24. Functional: what goes through a queue comes out of it, in order. With run queues that keep
  their contract, no put of the rows finds a full ring: the row that fills and drains hands all 256
  goroutines to the sink in the order they were put, in every round, and the rows of one put and
  one get, through the ring, the slot or the global queue, hand over that goroutine every time.
\<close>
theorem queue_rows_fifo:
  assumes "host_ok h" and "runq_law L ring glob"
  shows "(\<exists>w'. bench_runq_fill_drain h L w = Some w'
      \<and> kept w' = kept w @ concat (replicate (nat (b_n (bch w))) (map (\<lambda>i. KeptPtr (rq_g h i)) [0..<BURROW_RUNQ_SIZE])))
    \<and> (\<forall>f \<in> {bench_runq_put_get h L, bench_runq_put_get_next h L, bench_gqueue_push_pop h L}.
        \<exists>w'. f w = Some w' \<and> kept w' = kept w @ replicate (nat (b_n (bch w))) (KeptPtr (rq_g h 0)))"
  using fill_drain_row [OF assms, of w] put_get_row [OF assms, of _ w] gqueue_row [OF assms(2), of h w]
  by (simp add: bench_runq_put_get_def bench_runq_put_get_next_def)

text \<open>A ring that is filled while the timer is stopped inside a round.\<close>

lemma paused_fill:
  fixes w :: "'m process world"
  assumes "host_ok h" and "runq_law L ring glob"
  obtains u x where "pausing h w = Some u" "rq_reset L p u = Some x" "kept x = kept w"
    "ring (machine (rest x)) = (ring (machine (rest w)))(p := [])"
proof -
  obtain u where u: "pausing h w = Some u" "kept u = kept w" "machine (rest u) = machine (rest w)"
    using timer_stmt(1) [OF assms(1), of w] by blast
  let ?x = "snd (call (lib (runq_zero L p)) u)"
  have "rq_reset L p u = Some ?x" by (simp add: rq_reset_def calling_def split_beta)
  with that u runq_lawD(1) [OF assms(2)] show ?thesis by simp
qed

lemma steal_round:
  fixes w :: "'m process world"
  assumes "host_ok h" and "runq_law L ring glob" and "p \<noteq> v"
  shows "\<exists>w' i. block [pausing h, rq_reset L p, rq_reset L v, fill_ring h L v, resuming h,
      calling (runq_steal L p v False) keep] w = Some w' \<and> kept w' = kept w @ [KeptPtr (rq_g h i)] \<and> i < BURROW_RUNQ_SIZE"
proof -
  obtain u x where x: "pausing h w = Some u" "rq_reset L p u = Some x" "kept x = kept w"
    "ring (machine (rest x)) = (ring (machine (rest w)))(p := [])" by (rule paused_fill [OF assms(1,2)])
  let ?y = "snd (call (lib (runq_zero L v)) x)"
  have y: "rq_reset L v x = Some ?y" "kept ?y = kept w" "ring (machine (rest ?y)) v = []" "ring (machine (rest ?y)) p = []"
    using x(3,4) runq_lawD(1) [OF assms(2)] by (simp_all add: rq_reset_def calling_def split_beta)
  obtain z where z: "fill_ring h L v ?y = Some z" "kept z = kept w"
    "ring (machine (rest z)) v = map (rq_g h) [0..<BURROW_RUNQ_SIZE]" "ring (machine (rest z)) p = []"
    using fill_ring_run [OF assms(2) y(3), where h = h] y(2,4) assms(3) by auto
  obtain t where t: "resuming h z = Some t" "kept t = kept z" "machine (rest t) = machine (rest z)"
    using timer_stmt(2) [OF assms(1), of z] by blast
  let ?g = "fst (runq_steal L p v False (machine (rest t)))"
  have "ring (machine (rest t)) v \<noteq> []" using z(3) t(3) by (simp add: BURROW_RUNQ_SIZE_def)
  then have "?g \<in> rq_g h ` {0..<BURROW_RUNQ_SIZE}"
    using runq_lawD(6) [OF assms(2,3), of "machine (rest t)"] z(3,4) t(3) by simp
  then obtain i where "?g = rq_g h i" "i < BURROW_RUNQ_SIZE" by auto
  moreover have "block [pausing h, rq_reset L p, rq_reset L v, fill_ring h L v, resuming h,
      calling (runq_steal L p v False) keep] w = Some (bench_keep ?g (snd (call (lib (runq_steal L p v False)) t)))"
    using x(1,2) y(1) z(1) t(1) by (simp add: calling_def split_beta keep_def)
  ultimately show ?thesis using z(2) t(2) by auto
qed

lemma slow_round:
  fixes w :: "'m process world"
  assumes "host_ok h" and "runq_law L ring glob"
  shows "\<exists>w' i. block [pausing h, rq_reset L p, fill_ring h L p, call_op (gqueue_zero L q), resuming h,
      call_op (runq_put_slow L p (rq_g h BURROW_RUNQ_SIZE) q), calling (gqueue_head L q) keep] w = Some w'
    \<and> kept w' = kept w @ [KeptPtr (rq_g h i)] \<and> i \<le> BURROW_RUNQ_SIZE"
proof -
  obtain u x where x: "pausing h w = Some u" "rq_reset L p u = Some x" "kept x = kept w"
    "ring (machine (rest x)) = (ring (machine (rest w)))(p := [])" by (rule paused_fill [OF assms])
  then have "ring (machine (rest x)) p = []" by simp
  from fill_ring_run [OF assms(2) this, where h = h] obtain z where z: "fill_ring h L p x = Some z" "kept z = kept w"
    "ring (machine (rest z)) p = map (rq_g h) [0..<BURROW_RUNQ_SIZE]" using x(3) by auto
  let ?y = "snd (call (lib (gqueue_zero L q)) z)"
  obtain t where t: "resuming h ?y = Some t" "kept t = kept ?y" "machine (rest t) = machine (rest ?y)"
    using timer_stmt(2) [OF assms(1), of ?y] by blast
  let ?g = "rq_g h BURROW_RUNQ_SIZE"
  let ?s = "snd (call (lib (runq_put_slow L p ?g q)) t)"
  have "length (ring (machine (rest t)) p) = BURROW_RUNQ_SIZE" "glob (machine (rest t)) q = []"
    "set (ring (machine (rest t)) p) = rq_g h ` {0..<BURROW_RUNQ_SIZE}"
    using t(3) z(3) runq_lawD(7,8) [OF assms(2)] by simp_all
  with runq_lawD(13,14) [OF assms(2), where m = "machine (rest t)" and p = p and q = q and g = ?g]
  have s: "glob (machine (rest ?s)) q \<noteq> []"
    "set (glob (machine (rest ?s)) q) \<subseteq> insert ?g (rq_g h ` {0..<BURROW_RUNQ_SIZE})" by simp_all
  then have "hd (glob (machine (rest ?s)) q) \<in> rq_g h ` {..BURROW_RUNQ_SIZE}"
    by (force dest: hd_in_set)
  with runq_lawD(12) [OF assms(2) s(1)]
  obtain i where i: "fst (gqueue_head L q (machine (rest ?s))) = rq_g h i" "i \<le> BURROW_RUNQ_SIZE" by auto
  have "block [pausing h, rq_reset L p, fill_ring h L p, call_op (gqueue_zero L q), resuming h,
      call_op (runq_put_slow L p ?g q), calling (gqueue_head L q) keep] w
    = Some (bench_keep (rq_g h i) (snd (call (lib (gqueue_head L q)) ?s)))"
    using x(1,2) z(1) t(1) i(1) by (simp add: calling_def split_beta keep_def)
  with i(2) z(2) t(2) show ?thesis by auto
qed

text \<open>A loop whose rounds hand one goroutine each to the sink.\<close>

lemma one_each:
  fixes w :: "'m process world"
  assumes "\<And>v :: 'm process world. \<exists>v' i. body v = Some v' \<and> kept v' = kept v @ [KeptPtr (f i)] \<and> i \<le> (b :: nat)"
  shows "\<exists>w' is. bench_loop (\<lambda>_. body) w = Some w' \<and> kept w' = kept w @ map (\<lambda>i. KeptPtr (f i)) is
    \<and> length is = nat (b_n (bch w)) \<and> set is \<subseteq> {..b}"
proof -
  let ?I = "\<lambda>j (v :: 'm process world). \<exists>is. kept v = kept w @ map (\<lambda>i. KeptPtr (f i)) is \<and> length is = j \<and> set is \<subseteq> {..b}"
  have "\<exists>v. for_loop (nat (b_n (bch w))) 0 (\<lambda>_. body) w = Some v \<and> ?I (nat (b_n (bch w))) v"
  proof (rule for_loop_total [where I = ?I])
    show "?I 0 w" by simp
    fix j and v :: "'m process world" assume "?I j v"
    then obtain "is" where v: "kept v = kept w @ map (\<lambda>i. KeptPtr (f i)) is" "length is = j" "set is \<subseteq> {..b}" by blast
    obtain v' i where "body v = Some v'" "kept v' = kept v @ [KeptPtr (f i)]" "i \<le> b" using assms by blast
    with v show "\<exists>v'. body v = Some v' \<and> ?I (Suc j) v'"
      by (intro exI [of _ v'] conjI exI [of _ "is @ [i]"]) simp_all
  qed
  then show ?thesis by (auto simp: bench_loop_def)
qed

text \<open>
  Safety: the rows that steal and that overflow hand on goroutines of their own array only. In
  every round the victim's ring is full and the thief's empty when the steal is timed, so the steal
  comes back with one of the 256 goroutines; and the batch of the overflowing put starts with one
  of the 256 in the ring or the one that did not fit.
\<close>
theorem steal_rows_in_array:
  assumes "host_ok h" and "runq_law L ring glob" and "addr h ''rq_p'' \<noteq> addr h ''rq_victim''"
    and "f \<in> {bench_runq_steal_half h L, bench_runq_put_slow h L}"
  shows "\<exists>w' is. f w = Some w' \<and> kept w' = kept w @ map (\<lambda>i. KeptPtr (rq_g h i)) is
    \<and> length is = nat (b_n (bch w)) \<and> set is \<subseteq> {..BURROW_RUNQ_SIZE}"
proof -
  let ?p = "addr h ''rq_p''" and ?v = "addr h ''rq_victim''" and ?q = "addr h ''batch''"
  let ?steal = "block [pausing h, rq_reset L ?p, rq_reset L ?v, fill_ring h L ?v, resuming h,
    calling (runq_steal L ?p ?v False) keep]"
  let ?slow = "block [pausing h, rq_reset L ?p, fill_ring h L ?p, call_op (gqueue_zero L ?q), resuming h,
    call_op (runq_put_slow L ?p (rq_g h BURROW_RUNQ_SIZE) ?q), calling (gqueue_head L ?q) keep]"
  have steal: "\<exists>v' i. ?steal v = Some v' \<and> kept v' = kept v @ [KeptPtr (rq_g h i)] \<and> i \<le> BURROW_RUNQ_SIZE"
    for v using steal_round [OF assms(1-3)] less_imp_le by metis
  obtain u where u: "bench_runq_steal_half h L w = block [rq_reset L ?v, resuming h, bench_loop (\<lambda>_. ?steal)] u"
    "kept u = kept w" "b_n (bch u) = b_n (bch w)"
  proof -
    obtain v where v: "pausing h w = Some v" "kept v = kept w" "b_n (bch v) = b_n (bch w)"
      using timer_stmt(1) [OF assms(1), of w] by blast
    then have "bench_runq_steal_half h L w = block [rq_reset L ?v, resuming h, bench_loop (\<lambda>_. ?steal)]
      (snd (call (lib (runq_zero L ?p)) v))"
      by (simp add: bench_runq_steal_half_def rq_reset_def calling_def split_beta)
    with v that show ?thesis by simp
  qed
  let ?u = "snd (call (lib (runq_zero L ?v)) u)"
  obtain x where x: "resuming h ?u = Some x" "kept x = kept ?u" "b_n (bch x) = b_n (bch ?u)"
    using timer_stmt(2) [OF assms(1), of ?u] by blast
  have "bench_runq_steal_half h L w = bench_loop (\<lambda>_. ?steal) x"
    unfolding u(1) using x(1) by (simp add: rq_reset_def calling_def split_beta)
  with one_each [of ?steal "rq_g h" BURROW_RUNQ_SIZE x, OF steal] u x
  have one: "\<exists>w' is. bench_runq_steal_half h L w = Some w' \<and> kept w' = kept w @ map (\<lambda>i. KeptPtr (rq_g h i)) is
    \<and> length is = nat (b_n (bch w)) \<and> set is \<subseteq> {..BURROW_RUNQ_SIZE}" by simp
  obtain y where y: "bench_runq_put_slow h L w = block [bench_loop (\<lambda>_. ?slow)] y" "kept y = kept w"
    "b_n (bch y) = b_n (bch w)"
    by (rule paused_reset [OF assms(1,2), where p = ?p and ss = "[bench_loop (\<lambda>_. ?slow)]" and w = w])
      (simp add: bench_runq_put_slow_def del: block.simps)
  with one_each [of ?slow "rq_g h" BURROW_RUNQ_SIZE y, OF slow_round [OF assms(1,2)]]
  have two: "\<exists>w' is. bench_runq_put_slow h L w = Some w' \<and> kept w' = kept w @ map (\<lambda>i. KeptPtr (rq_g h i)) is
    \<and> length is = nat (b_n (bch w)) \<and> set is \<subseteq> {..BURROW_RUNQ_SIZE}" by simp
  show ?thesis using assms(4) one two by blast
qed

section \<open>The worker context\<close>

text \<open>One turn of the worker while it has not been told to stop, and the turn in which it has.\<close>

lemma to_worker_run:
  fixes w :: "'m process world"
  shows "\<exists>v. to_worker h L w = Some v \<and> kept v = kept w
    \<and> u64_var (rest v) = (if u64_var (rest w) ''rt_stop'' = 0 then u64_var (rest w)
         else (u64_var (rest w))(''rt.returned'' := u64_var (rest w) ''rt.returned'' + 1))"
  by (simp add: to_worker_def rt_bounce_def stmt_simps perform_def)

text \<open>
  Safety: the worker has returned when its context and stack are freed. When the set-up
  succeeds, the worker hands every turn of the loop back without returning, and the one switch after
  the loop, made with the flag set, lets it return, exactly once for every count.
\<close>
theorem worker_returns_once:
  assumes "host_ok h" and "\<And>st n m. fst (stack_alloc L st n m)" and "\<And>c m. fst (mcontext_attach L c m)"
    and "\<And>c lo n lk m. fst (mcontext_make L c lo n lk m)"
  shows "\<exists>w'. bench_mcontext_switch h L w = Some w' \<and> kept w' = kept w
    \<and> u64_var (rest w') ''rt.returned'' = u64_var (rest w) ''rt.returned'' + 1"
proof -
  let ?r = "u64_var (rest w) ''rt.returned''"
  have rounds: "\<exists>v'. switch_rounds h L v = Some v' \<and> kept v' = kept w \<and> u64_var (rest v') ''rt.returned'' = ?r + 1"
    if stop: "u64_var (rest v) ''rt_stop'' = 0" and ret: "u64_var (rest v) ''rt.returned'' = ?r"
      and out: "kept v = kept w" for v :: "'a process world"
  proof -
    obtain u where u: "resuming h v = Some u" "kept u = kept v" "u64_var (rest u) = u64_var (rest v)"
      using timer_stmt(2) [OF assms(1), of v] by blast
    let ?I = "\<lambda>(j :: nat) (x :: 'a process world). u64_var (rest x) = u64_var (rest u)"
    have "\<exists>x. bench_loop (\<lambda>_. to_worker h L) u = Some x \<and> ?I (nat (b_n (bch u))) x
      \<and> kept x = kept u @ concat (map (\<lambda>_. []) [0..<nat (b_n (bch u))])"
    proof (rule loop_kept [where I = ?I])
      fix j and x :: "'a process world" assume "?I j x"
      with to_worker_run [of h L x] stop u(3)
      show "\<exists>x'. to_worker h L x = Some x' \<and> kept x' = kept x @ [] \<and> ?I (Suc j) x'" by auto
    qed simp
    then obtain x where x: "bench_loop (\<lambda>_. to_worker h L) u = Some x" "kept x = kept v" "u64_var (rest x) = u64_var (rest u)"
      using u(2) by (auto simp: map_replicate_const)
    obtain y where y: "pausing h x = Some y" "kept y = kept x" "u64_var (rest y) = u64_var (rest x)"
      using timer_stmt(1) [OF assms(1), of x] by blast
    let ?y = "perform (\<lambda>p. p\<lparr>u64_var := (u64_var p)(''rt_stop'' := 1)\<rparr>) y"
    obtain z where z: "to_worker h L ?y = Some z" "kept z = kept y" "u64_var (rest z) ''rt.returned'' = ?r + 1"
      using to_worker_run [of h L ?y] ret u(3) x(3) y(3) by (auto simp: perform_def)
    let ?z = "snd (call (lib (stack_free L (addr h ''rt_stack''))) (snd (call (lib (mcontext_detach L (addr h ''rt_main'')))
      (snd (call (lib (mcontext_free L (addr h ''rt_worker''))) z)))))"
    obtain t where t: "resuming h ?z = Some t" "kept t = kept ?z" "u64_var (rest t) = u64_var (rest ?z)"
      using timer_stmt(2) [OF assms(1), of ?z] by blast
    have "switch_rounds h L v = Some t"
      using u(1) x(1) y(1) z(1) t(1) by (simp add: switch_rounds_def set_u64_def assign_def calling_def split_beta)
    with x(2) y(2) z(2,3) t(2,3) out show ?thesis by simp
  qed
  obtain v where v: "pausing h w = Some v" "kept v = kept w" "u64_var (rest v) = u64_var (rest w)"
    using timer_stmt(1) [OF assms(1), of w] by blast
  then show ?thesis
    using assms(2-4)
    by (simp add: bench_mcontext_switch_def calling_def split_beta set_u64_def assign_def)
      (rule rounds; simp add: perform_def)
qed

text \<open>
  Error: a row whose set-up fails reports 0 nanoseconds for its count. When no stack can be had
  the row returns with the timer stopped and nothing done; the harness gets a time of 0 for as
  many iterations as it asked for, and nothing tells the row from a fast one.
\<close>
theorem failed_setup_reports_zero:
  assumes "\<And>st n m. \<not> fst (stack_alloc L st n m)"
    and "f \<in> {bench_mcontext_switch (exact_host a wk) L, bench_mcontext_make (exact_host a wk) L}"
  shows "\<exists>b wall w'. run_measured (gettime (exact_host a wk)) \<lparr>e_name = nm, e_fn = f\<rparr> k True w = Some (b, wall, w')
    \<and> b_ns b = 0 \<and> b_n b = k \<and> kept w' = kept w"
  using assms
  by (auto simp: run_measured_def bench_mcontext_switch_def bench_mcontext_make_def stmt_simps timer_simps zero_bench_def)

text \<open>
  Bounds: the length of the traces. When \<open>runtime_callers\<close> fills its buffer with the frames
  there are, the row with a buffer of two gets two in every round, and the other one gets at least
  the eleven frames of \<open>tr_down\<close> and at most the 32 it has room for.
\<close>
theorem callers_rows_fill:
  assumes "\<And>frames mx m. fst (callers L frames mx m) = int (min mx (frames + base))"
  shows "(\<exists>w'. bench_callers_two L w = Some w'
      \<and> kept w' = kept w @ replicate (nat (b_n (bch w))) (KeptU64 2))
    \<and> (\<exists>w' d. bench_callers_ten L w = Some w' \<and> 11 \<le> d \<and> d \<le> 32
      \<and> kept w' = kept w @ replicate (nat (b_n (bch w))) (KeptU64 (of_nat d)))"
proof -
  have down: "tr_down L i d mx = callers L (i + d) mx" for i d mx
    by (induction d arbitrary: i) simp_all
  have row: "\<exists>w'. bench_loop (\<lambda>_. calling (tr_down L 1 TR_DEPTH mx) (\<lambda>n. keep_u64 (of_int n))) w = Some w' \<and> True
    \<and> kept w' = kept w @ concat (map (\<lambda>_. [KeptU64 (of_nat (min mx (11 + base)))]) [0..<nat (b_n (bch w))])" for mx
    by (rule loop_kept [where I = "\<lambda>j v. True"])
      (simp_all add: down TR_DEPTH_def calling_def split_beta keep_u64_def assms)
  have "min 2 (11 + base) = 2" "11 \<le> min 32 (11 + base)" "min 32 (11 + base) \<le> 32" by simp_all
  with row [of 2] row [of TR_MAX] show ?thesis
    by (auto simp: bench_callers_two_def bench_callers_ten_def TR_MAX_def map_replicate_const
        intro!: exI [of _ "min 32 (11 + base)"])
qed

section \<open>A machine that keeps the contracts\<close>

record rq_machine =
  rings :: "nat \<Rightarrow> nat list"
  globals :: "nat \<Rightarrow> nat list"

definition list_rt :: "bool \<Rightarrow> rq_machine rt_lib" where
  "list_rt ok = \<lparr>
     stack_alloc = (\<lambda>st n m. (ok, 9, m)), stack_free = (\<lambda>st m. ((), 9, m)),
     stack_bounds = (\<lambda>st m. ((4096, 69632), 0, m)), stack_set_current = (\<lambda>st m. (st, 1, m)),
     stack_page_size = (\<lambda>m. (4096, 1, m)),
     mcontext_attach = (\<lambda>c m. (ok, 1, m)), mcontext_detach = (\<lambda>c m. ((), 1, m)),
     mcontext_make = (\<lambda>c lo n lk m. (ok, 1, m)), mcontext_free = (\<lambda>c m. ((), 1, m)),
     mcontext_switch = (\<lambda>a b m. ((), 3, m)),
     runq_zero = (\<lambda>p m. ((), 1, m\<lparr>rings := (rings m)(p := [])\<rparr>)),
     runq_put = (\<lambda>p g nxt m. if length (rings m p) < 256
       then (True, 1, m\<lparr>rings := (rings m)(p := if nxt then g # rings m p else rings m p @ [g])\<rparr>)
       else (False, 1, m)),
     runq_get = (\<lambda>p m. case rings m p of [] \<Rightarrow> (0, 1, m)
       | g # gs \<Rightarrow> (g, 1, m\<lparr>rings := (rings m)(p := gs)\<rparr>)),
     runq_steal = (\<lambda>p v nxt m. case rings m v of [] \<Rightarrow> (0, 1, m)
       | g # gs \<Rightarrow> (g, 1, m\<lparr>rings := (rings m)(v := gs)\<rparr>)),
     runq_put_slow = (\<lambda>p g q m. ((), 1, m\<lparr>globals := (globals m)(q := take 128 (rings m p) @ [g]),
       rings := (rings m)(p := drop 128 (rings m p))\<rparr>)),
     gqueue_zero = (\<lambda>q m. ((), 1, m\<lparr>globals := (globals m)(q := [])\<rparr>)),
     gqueue_push = (\<lambda>q g m. ((), 1, m\<lparr>globals := (globals m)(q := globals m q @ [g])\<rparr>)),
     gqueue_pop = (\<lambda>q m. case globals m q of [] \<Rightarrow> (0, 1, m)
       | g # gs \<Rightarrow> (g, 1, m\<lparr>globals := (globals m)(q := gs)\<rparr>)),
     gqueue_head = (\<lambda>q m. (case globals m q of [] \<Rightarrow> 0 | g # gs \<Rightarrow> g, 1, m)),
     callers = (\<lambda>frames mx m. (int (min mx (frames + 3)), 1, m))\<rparr>"

lemma list_rt_law: "runq_law (list_rt ok) rings globals"
  by (auto simp: runq_law_def list_rt_def BURROW_RUNQ_SIZE_def dest: in_set_takeD split: list.splits)

definition rt_world :: "int \<Rightarrow> rq_machine process world" where
  "rt_world n = \<lparr>bch = zero_bench\<lparr>b_n := n\<rparr>, kept = [], rest = \<lparr>clock = 0, int_var = (\<lambda>x. 0),
     u64_var = (\<lambda>x. 0), dbl_var = (\<lambda>x. 0), int_array = (\<lambda>x. []), str_array = (\<lambda>x. []),
     machine = \<lparr>rings = (\<lambda>p. []), globals = (\<lambda>q. [])\<rparr>\<rparr>\<rparr>"

abbreviation rt_host :: "rq_machine host" where
  "rt_host \<equiv> exact_host (\<lambda>x. length x) (\<lambda>x. 0)"

theorem queue_rows_fifo_witness:
  "\<exists>w'. bench_runq_put_get rt_host (list_rt True) (rt_world 2) = Some w'
    \<and> kept w' = replicate 2 (KeptPtr (rq_g rt_host 0))"
  using queue_rows_fifo [OF exact_host_ok list_rt_law, of "\<lambda>x. length x" "\<lambda>x. 0" True "rt_world 2"]
  by (simp add: rt_world_def)

theorem steal_rows_in_array_witness:
  "\<exists>w' is. bench_runq_steal_half rt_host (list_rt True) (rt_world 3) = Some w'
    \<and> kept w' = map (\<lambda>i. KeptPtr (rq_g rt_host i)) is \<and> length is = 3"
proof -
  have "addr rt_host ''rq_p'' \<noteq> addr rt_host ''rq_victim''" by simp
  from steal_rows_in_array [OF exact_host_ok list_rt_law [of True] this, where w = "rt_world 3"
      and f = "bench_runq_steal_half rt_host (list_rt True)"]
  show ?thesis by (auto simp: rt_world_def)
qed

theorem worker_returns_once_witness:
  "\<exists>w'. bench_mcontext_switch rt_host (list_rt True) (rt_world 3) = Some w'
    \<and> u64_var (rest w') ''rt.returned'' = 1"
  using worker_returns_once [of rt_host "list_rt True" "rt_world 3"]
  by (auto simp: rt_world_def list_rt_def)

theorem failed_setup_reports_zero_witness:
  "\<exists>b wall w'. run_measured (gettime rt_host)
      \<lparr>e_name = ''mcontext_switch'', e_fn = bench_mcontext_switch rt_host (list_rt False)\<rparr> 1000 True (rt_world 0)
    = Some (b, wall, w') \<and> b_ns b = 0"
  using failed_setup_reports_zero [of "list_rt False" "bench_mcontext_switch rt_host (list_rt False)"
      "\<lambda>x. length x" "\<lambda>x. 0" "''mcontext_switch''" 1000 "rt_world 0"]
  by (auto simp: list_rt_def)

theorem callers_rows_fill_witness:
  "\<exists>w'. bench_callers_two (list_rt True) (rt_world 2) = Some w' \<and> kept w' = replicate 2 (KeptU64 2)"
  using callers_rows_fill [of "list_rt True" 3 "rt_world 2"] by (simp add: list_rt_def rt_world_def)

end
