(* ===== verification/Big_Bench.thy ===== *)
theory Big_Bench
  imports Arena_Lib Printf Runtime_Lib
begin

unbundle bit_operations_syntax

text \<open>
  \<open>bench/big_bench.c\<close>: burrow's big integers, fractions and floats. A big number is the number it
  stands for; the operands come from a generator of 64-bit words that is the program's own.
\<close>

section \<open>What the file takes from burrow\<close>

text \<open>
  An operation of the package takes the values of its operands and gives the value left in its
  receiver. \<open>big_mod_inverse\<close> and \<open>big_rat_set_string\<close> leave the receiver as their package says
  when they fail, which no row looks at.
\<close>

record 'm big_lib =
  malloc_words :: "nat \<Rightarrow> (bool, 'm) op"
  free_words :: "(unit, 'm) op"
  big_free :: "string \<Rightarrow> (unit, 'm) op"
  big_set_bits :: "u64 list \<Rightarrow> (int, 'm) op"
  big_add :: "int \<Rightarrow> int \<Rightarrow> (int, 'm) op"
  big_sub :: "int \<Rightarrow> int \<Rightarrow> (int, 'm) op"
  big_mul :: "int \<Rightarrow> int \<Rightarrow> (int, 'm) op"
  big_quo :: "int \<Rightarrow> int \<Rightarrow> (int, 'm) op"
  big_sqrt :: "int \<Rightarrow> (int, 'm) op"
  big_gcd :: "int \<Rightarrow> int \<Rightarrow> (int, 'm) op"
  big_mod_inverse :: "int \<Rightarrow> int \<Rightarrow> (int, 'm) op"
  big_exp :: "int \<Rightarrow> int \<Rightarrow> int \<Rightarrow> (int, 'm) op"
  big_lsh :: "int \<Rightarrow> nat \<Rightarrow> (int, 'm) op"
  big_bit_len :: "int \<Rightarrow> (nat, 'm) op"
  big_string :: "int \<Rightarrow> nat \<Rightarrow> (nat \<times> string, 'm) op"
  big_set_string :: "string \<Rightarrow> nat \<Rightarrow> (int \<times> bool, 'm) op"
  big_probably_prime :: "int \<Rightarrow> nat \<Rightarrow> (bool, 'm) op"
  rat_set_frac :: "int \<Rightarrow> int \<Rightarrow> (rat, 'm) op"
  rat_set_frac64 :: "int \<Rightarrow> int \<Rightarrow> (rat, 'm) op"
  rat_add :: "rat \<Rightarrow> rat \<Rightarrow> (rat, 'm) op"
  rat_mul :: "rat \<Rightarrow> rat \<Rightarrow> (rat, 'm) op"
  rat_num :: "rat \<Rightarrow> (int, 'm) op"
  rat_denom :: "rat \<Rightarrow> (int, 'm) op"
  rat_float64 :: "rat \<Rightarrow> (rat, 'm) op"
  rat_float_string :: "rat \<Rightarrow> nat \<Rightarrow> nat \<Rightarrow> (string, 'm) op"
  rat_set_string :: "string \<Rightarrow> (rat, 'm) op"
  float_set_prec :: "string \<Rightarrow> nat \<Rightarrow> (unit, 'm) op"
  float_set_int :: "nat \<Rightarrow> int \<Rightarrow> (rat, 'm) op"
  float_set_mant_exp :: "nat \<Rightarrow> rat \<Rightarrow> int \<Rightarrow> (rat, 'm) op"
  float_op :: "string \<Rightarrow> nat \<Rightarrow> rat \<Rightarrow> rat \<Rightarrow> (rat, 'm) op"
  float_sqrt :: "nat \<Rightarrow> rat \<Rightarrow> (rat, 'm) op"
  float_mant_exp :: "rat \<Rightarrow> (int, 'm) op"
  float_text :: "rat \<Rightarrow> nat \<Rightarrow> char \<Rightarrow> nat \<Rightarrow> (string, 'm) op"
  float_set_string :: "nat \<Rightarrow> string \<Rightarrow> (rat, 'm) op"

section \<open>The operands\<close>

text \<open>\<open>splitmix\<close> gives the word and the state it leaves in \<open>*s\<close>.\<close>

definition splitmix :: "u64 \<Rightarrow> u64 \<times> u64" where
  "splitmix s = (let s = s + 0x9e3779b97f4a7c15; z = s;
     z = (z XOR drop_bit 30 z) * 0xbf58476d1ce4e5b9;
     z = (z XOR drop_bit 27 z) * 0x94d049bb133111eb
     in (z XOR drop_bit 31 z, s))"

fun splitmix_words :: "nat \<Rightarrow> u64 \<Rightarrow> u64 list" where
  "splitmix_words 0 seed = []"
| "splitmix_words (Suc n) seed = (let (w, seed) = splitmix seed in w # splitmix_words n seed)"

text \<open>The words of \<open>rnd\<close>, the lowest first; \<open>w[n - 1]\<close> of no words at all is out of bounds.\<close>

definition rnd_words :: "nat \<Rightarrow> u64 \<Rightarrow> u64 list option" where
  "rnd_words n seed = (let ws = splitmix_words n seed in
     if n = 0 then None else Some (ws[n - 1 := ws ! (n - 1) OR push_bit 63 1]))"

text \<open>
  \<open>rnd\<close> does not look at what \<open>malloc\<close> returns and writes to it: when there is no memory that is a write to a
  null pointer, undefined in C, and \<open>None\<close> here like every other undefined behaviour.
\<close>

definition rnd :: "'m big_lib \<Rightarrow> nat \<Rightarrow> u64 \<Rightarrow> (int \<Rightarrow> 'm cstmt) \<Rightarrow> 'm cstmt" where
  "rnd L n seed k = calling (malloc_words L n) (\<lambda>ok. if \<not> ok then aborting
     else checked (rnd_words n seed) (\<lambda>ws. calling (big_set_bits L ws) (\<lambda>z. block [
       call_op (free_words L), k z])))"

section \<open>Integers\<close>

definition binop :: "'m big_lib \<Rightarrow> (int \<Rightarrow> int \<Rightarrow> (int, 'm) op) \<Rightarrow> nat \<Rightarrow> nat \<Rightarrow> 'm cstmt" where
  "binop L bop nx ny = rnd L nx 1 (\<lambda>x. rnd L ny 2 (\<lambda>y. block [
     set_int ''big.z'' 0,
     bench_loop (\<lambda>_. calling (bop x y) (set_int ''big.z'')),
     reading (\<lambda>p. int_var p ''big.z'') (\<lambda>z. calling (big_bit_len L z) (\<lambda>n. keep_u64 (of_nat n))),
     call_op (big_free L ''x''), call_op (big_free L ''y''), call_op (big_free L ''z'')]))"

definition sqr :: "'m big_lib \<Rightarrow> int \<Rightarrow> int \<Rightarrow> (int, 'm) op" where
  "sqr L x y = big_mul L x x"

definition sqrt_op :: "'m big_lib \<Rightarrow> int \<Rightarrow> int \<Rightarrow> (int, 'm) op" where
  "sqrt_op L x y = big_sqrt L x"

definition gcd_op :: "'m big_lib \<Rightarrow> int \<Rightarrow> int \<Rightarrow> (int, 'm) op" where
  "gcd_op L x y = big_gcd L x y"

definition mod_inverse :: "'m big_lib \<Rightarrow> int \<Rightarrow> int \<Rightarrow> (int, 'm) op" where
  "mod_inverse L x y = big_mod_inverse L x y"

definition bench_big_add_10 :: "'m big_lib \<Rightarrow> 'm cstmt" where
  "bench_big_add_10 L = binop L (big_add L) 10 10"
definition bench_big_add_1000 :: "'m big_lib \<Rightarrow> 'm cstmt" where
  "bench_big_add_1000 L = binop L (big_add L) 1000 1000"
definition bench_big_mul_10 :: "'m big_lib \<Rightarrow> 'm cstmt" where
  "bench_big_mul_10 L = binop L (big_mul L) 10 10"
definition bench_big_mul_100 :: "'m big_lib \<Rightarrow> 'm cstmt" where
  "bench_big_mul_100 L = binop L (big_mul L) 100 100"
definition bench_big_mul_1000 :: "'m big_lib \<Rightarrow> 'm cstmt" where
  "bench_big_mul_1000 L = binop L (big_mul L) 1000 1000"
definition bench_big_quo_10 :: "'m big_lib \<Rightarrow> 'm cstmt" where
  "bench_big_quo_10 L = binop L (big_quo L) 20 10"
definition bench_big_quo_100 :: "'m big_lib \<Rightarrow> 'm cstmt" where
  "bench_big_quo_100 L = binop L (big_quo L) 200 100"
definition bench_big_quo_1000 :: "'m big_lib \<Rightarrow> 'm cstmt" where
  "bench_big_quo_1000 L = binop L (big_quo L) 2000 1000"
definition bench_big_sqr_100 :: "'m big_lib \<Rightarrow> 'm cstmt" where
  "bench_big_sqr_100 L = binop L (sqr L) 100 1"
definition bench_big_sqr_1000 :: "'m big_lib \<Rightarrow> 'm cstmt" where
  "bench_big_sqr_1000 L = binop L (sqr L) 1000 1"
definition bench_big_sqrt_100 :: "'m big_lib \<Rightarrow> 'm cstmt" where
  "bench_big_sqrt_100 L = binop L (sqrt_op L) 100 1"
definition bench_big_gcd_10 :: "'m big_lib \<Rightarrow> 'm cstmt" where
  "bench_big_gcd_10 L = binop L (gcd_op L) 10 10"
definition bench_big_gcd_100 :: "'m big_lib \<Rightarrow> 'm cstmt" where
  "bench_big_gcd_100 L = binop L (gcd_op L) 100 100"
definition bench_big_mod_inverse_32 :: "'m big_lib \<Rightarrow> 'm cstmt" where
  "bench_big_mod_inverse_32 L = binop L (mod_inverse L) 32 32"

definition bench_big_exp_mod_32 :: "'m big_lib \<Rightarrow> 'm cstmt" where
  "bench_big_exp_mod_32 L = rnd L 32 1 (\<lambda>x. rnd L 32 2 (\<lambda>y. rnd L 32 3 (\<lambda>m. block [
     set_int ''big.z'' 0,
     bench_loop (\<lambda>_. calling (big_exp L x y m) (set_int ''big.z'')),
     reading (\<lambda>p. int_var p ''big.z'') (\<lambda>z. calling (big_bit_len L z) (\<lambda>n. keep_u64 (of_nat n))),
     call_op (big_free L ''x''), call_op (big_free L ''y''), call_op (big_free L ''m''),
     call_op (big_free L ''z'')])))"

definition to_string :: "'m host \<Rightarrow> 'm arena_lib \<Rightarrow> 'm big_lib \<Rightarrow> nat \<Rightarrow> 'm cstmt" where
  "to_string h A L n = (let a = addr h ''big.ar'' in rnd L n 1 (\<lambda>x. block [
     scratch_arena A a (resetting A a (calling (big_string L x a) (\<lambda>(p, s). keep p))),
     call_op (big_free L ''x'')]))"

definition bench_big_string_10 :: "'m host \<Rightarrow> 'm arena_lib \<Rightarrow> 'm big_lib \<Rightarrow> 'm cstmt" where
  "bench_big_string_10 h A L = to_string h A L 10"
definition bench_big_string_100 :: "'m host \<Rightarrow> 'm arena_lib \<Rightarrow> 'm big_lib \<Rightarrow> 'm cstmt" where
  "bench_big_string_100 h A L = to_string h A L 100"
definition bench_big_string_1000 :: "'m host \<Rightarrow> 'm arena_lib \<Rightarrow> 'm big_lib \<Rightarrow> 'm cstmt" where
  "bench_big_string_1000 h A L = to_string h A L 1000"

definition set_string :: "'m host \<Rightarrow> 'm arena_lib \<Rightarrow> 'm big_lib \<Rightarrow> nat \<Rightarrow> 'm cstmt" where
  "set_string h A L n = (let a = addr h ''big.ar'' in rnd L n 1 (\<lambda>x. block [
     set_int ''big.z'' 0,
     scratch_arena A a (calling (big_string L x a) (\<lambda>(p, s).
       bench_loop (\<lambda>_. calling (big_set_string L s 10) (\<lambda>(z, ok). block [
         set_int ''big.z'' z, if \<not> ok then aborting else Some])))),
     call_op (big_free L ''x''), call_op (big_free L ''z'')]))"

definition bench_big_set_string_10 :: "'m host \<Rightarrow> 'm arena_lib \<Rightarrow> 'm big_lib \<Rightarrow> 'm cstmt" where
  "bench_big_set_string_10 h A L = set_string h A L 10"
definition bench_big_set_string_1000 :: "'m host \<Rightarrow> 'm arena_lib \<Rightarrow> 'm big_lib \<Rightarrow> 'm cstmt" where
  "bench_big_set_string_1000 h A L = set_string h A L 1000"

definition bench_big_probably_prime_521 :: "'m big_lib \<Rightarrow> 'm cstmt" where
  "bench_big_probably_prime_521 L = calling (big_lsh L 1 521) (\<lambda>p. calling (big_sub L p 1) (\<lambda>p. block [
     bench_loop (\<lambda>_. calling (big_probably_prime L p 20) (\<lambda>ok. if \<not> ok then aborting else Some)),
     call_op (big_free L ''p'')]))"

section \<open>Fractions\<close>

definition rnd_rat :: "'m big_lib \<Rightarrow> nat \<Rightarrow> u64 \<Rightarrow> (rat \<Rightarrow> 'm cstmt) \<Rightarrow> 'm cstmt" where
  "rnd_rat L n seed k = rnd L n seed (\<lambda>nu. rnd L n (seed + 100) (\<lambda>den.
     calling (rat_set_frac L nu den) (\<lambda>z. block [
       call_op (big_free L ''num''), call_op (big_free L ''den''), k z])))"

definition rat_binop :: "'m big_lib \<Rightarrow> (rat \<Rightarrow> rat \<Rightarrow> (rat, 'm) op) \<Rightarrow> nat \<Rightarrow> 'm cstmt" where
  "rat_binop L rop n = rnd_rat L n 1 (\<lambda>x. rnd_rat L n 2 (\<lambda>y. block [
     set_dbl ''big.z'' 0,
     bench_loop (\<lambda>_. calling (rop x y) (set_dbl ''big.z'')),
     reading (\<lambda>p. dbl_var p ''big.z'') (\<lambda>z. calling (rat_num L z) (\<lambda>nu.
       calling (big_bit_len L nu) (\<lambda>n. keep_u64 (of_nat n)))),
     call_op (big_free L ''x''), call_op (big_free L ''y''), call_op (big_free L ''z'')]))"

definition bench_big_rat_add_4 :: "'m big_lib \<Rightarrow> 'm cstmt" where
  "bench_big_rat_add_4 L = rat_binop L (rat_add L) 4"
definition bench_big_rat_add_100 :: "'m big_lib \<Rightarrow> 'm cstmt" where
  "bench_big_rat_add_100 L = rat_binop L (rat_add L) 100"
definition bench_big_rat_mul_4 :: "'m big_lib \<Rightarrow> 'm cstmt" where
  "bench_big_rat_mul_4 L = rat_binop L (rat_mul L) 4"
definition bench_big_rat_mul_100 :: "'m big_lib \<Rightarrow> 'm cstmt" where
  "bench_big_rat_mul_100 L = rat_binop L (rat_mul L) 100"

definition keep_denom :: "'m big_lib \<Rightarrow> string \<Rightarrow> 'm cstmt" where
  "keep_denom L x = reading (\<lambda>p. dbl_var p x) (\<lambda>z. calling (rat_denom L z) (\<lambda>d.
     calling (big_bit_len L d) (\<lambda>n. keep_u64 (of_nat n))))"

definition bench_big_rat_harmonic_100 :: "'m big_lib \<Rightarrow> 'm cstmt" where
  "bench_big_rat_harmonic_100 L = block [
     set_dbl ''big.h'' 0,
     bench_loop (\<lambda>_. block [
       set_dbl ''big.h'' 0,
       repeat_for 100 (\<lambda>i. calling (rat_set_frac64 L 1 (i + 1)) (\<lambda>t.
         reading (\<lambda>p. dbl_var p ''big.h'') (\<lambda>s. calling (rat_add L s t) (set_dbl ''big.h''))))]),
     keep_denom L ''big.h'',
     call_op (big_free L ''h''), call_op (big_free L ''t'')]"

definition bench_big_rat_float64_4 :: "(rat \<Rightarrow> rat) \<Rightarrow> 'm big_lib \<Rightarrow> 'm cstmt" where
  "bench_big_rat_float64_4 rnd64 L = rnd_rat L 4 1 (\<lambda>x. block [
     set_dbl ''big.sum'' 0,
     bench_loop (\<lambda>_. calling (rat_float64 L x) (\<lambda>d. reading (\<lambda>p. dbl_var p ''big.sum'') (\<lambda>s.
       set_dbl ''big.sum'' (rnd64 (s + d))))),
     reading (\<lambda>p. dbl_var p ''big.sum'') (\<lambda>s. checked (u64_of_double s) keep_u64),
     call_op (big_free L ''x'')])"

definition bench_big_rat_float_string_4 :: "'m host \<Rightarrow> 'm arena_lib \<Rightarrow> 'm big_lib \<Rightarrow> 'm cstmt" where
  "bench_big_rat_float_string_4 h A L = (let a = addr h ''big.ar'' in rnd_rat L 4 1 (\<lambda>x. block [
     scratch_arena A a (resetting A a (calling (rat_float_string L x a 50) (\<lambda>s. keep_u64 (of_nat (length s))))),
     call_op (big_free L ''x'')]))"

definition pi_text :: string where
  "pi_text = ''3.14159265358979323846264338327950288419716939937510e-10''"

definition bench_big_rat_set_string :: "'m big_lib \<Rightarrow> 'm cstmt" where
  "bench_big_rat_set_string L = block [
     set_dbl ''big.x'' 0,
     bench_loop (\<lambda>_. calling (rat_set_string L pi_text) (set_dbl ''big.x'')),
     keep_denom L ''big.x'',
     call_op (big_free L ''x'')]"

section \<open>Floats\<close>

definition rnd_float :: "'m big_lib \<Rightarrow> string \<Rightarrow> nat \<Rightarrow> u64 \<Rightarrow> (rat \<Rightarrow> 'm cstmt) \<Rightarrow> 'm cstmt" where
  "rnd_float L z prec seed k = rnd L (prec div 64 + 1) seed (\<lambda>m. block [
     call_op (float_set_prec L z prec),
     calling (float_set_int L prec m) (\<lambda>v.
       calling (big_bit_len L m) (\<lambda>n.
         calling (float_set_mant_exp L prec v (- int n)) (\<lambda>v. block [
           call_op (big_free L ''m''), k v])))])"

definition keep_exponent :: "'m big_lib \<Rightarrow> string \<Rightarrow> 'm cstmt" where
  "keep_exponent L x = reading (\<lambda>p. dbl_var p x) (\<lambda>z. calling (float_mant_exp L z) (\<lambda>e. keep_u64 (of_int e)))"

definition float_binop :: "'m big_lib \<Rightarrow> string \<Rightarrow> nat \<Rightarrow> 'm cstmt" where
  "float_binop L fop prec = rnd_float L ''x'' prec 1 (\<lambda>x. rnd_float L ''y'' prec 2 (\<lambda>y. block [
     set_dbl ''big.z'' 0,
     call_op (float_set_prec L ''z'' prec),
     bench_loop (\<lambda>_. calling (float_op L fop prec x y) (set_dbl ''big.z'')),
     keep_exponent L ''big.z'',
     call_op (big_free L ''x''), call_op (big_free L ''y''), call_op (big_free L ''z'')]))"

definition bench_big_float_add_1000 :: "'m big_lib \<Rightarrow> 'm cstmt" where
  "bench_big_float_add_1000 L = float_binop L ''add'' 1000"
definition bench_big_float_mul_1000 :: "'m big_lib \<Rightarrow> 'm cstmt" where
  "bench_big_float_mul_1000 L = float_binop L ''mul'' 1000"
definition bench_big_float_quo_1000 :: "'m big_lib \<Rightarrow> 'm cstmt" where
  "bench_big_float_quo_1000 L = float_binop L ''quo'' 1000"

definition bench_big_float_sqrt_1000 :: "'m big_lib \<Rightarrow> 'm cstmt" where
  "bench_big_float_sqrt_1000 L = rnd_float L ''x'' 1000 1 (\<lambda>x. block [
     set_dbl ''big.z'' 0,
     call_op (float_set_prec L ''z'' 1000),
     bench_loop (\<lambda>_. calling (float_sqrt L 1000 x) (set_dbl ''big.z'')),
     keep_exponent L ''big.z'',
     call_op (big_free L ''x''), call_op (big_free L ''z'')])"

definition bench_big_float_text_1000 :: "'m host \<Rightarrow> 'm arena_lib \<Rightarrow> 'm big_lib \<Rightarrow> 'm cstmt" where
  "bench_big_float_text_1000 h A L = (let a = addr h ''big.ar'' in rnd_float L ''x'' 1000 1 (\<lambda>x. block [
     scratch_arena A a (resetting A a (calling (float_text L x a (CHR ''g'') 50) (\<lambda>s. keep_u64 (of_nat (length s))))),
     call_op (big_free L ''x'')]))"

definition bench_big_float_set_string :: "'m big_lib \<Rightarrow> 'm cstmt" where
  "bench_big_float_set_string L = block [
     set_dbl ''big.x'' 0,
     call_op (float_set_prec L ''x'' 200),
     bench_loop (\<lambda>_. calling (float_set_string L 200 pi_text) (set_dbl ''big.x'')),
     keep_exponent L ''big.x'',
     call_op (big_free L ''x'')]"

definition big_table :: "'m host \<Rightarrow> (rat \<Rightarrow> rat) \<Rightarrow> 'm arena_lib \<Rightarrow> 'm big_lib \<Rightarrow> (string \<times> 'm cstmt) list" where
  "big_table h rnd64 A L = [
     (''big_add_10'', bench_big_add_10 L), (''big_add_1000'', bench_big_add_1000 L),
     (''big_mul_10'', bench_big_mul_10 L), (''big_mul_100'', bench_big_mul_100 L),
     (''big_mul_1000'', bench_big_mul_1000 L), (''big_quo_10'', bench_big_quo_10 L),
     (''big_quo_100'', bench_big_quo_100 L), (''big_quo_1000'', bench_big_quo_1000 L),
     (''big_sqr_100'', bench_big_sqr_100 L), (''big_sqr_1000'', bench_big_sqr_1000 L),
     (''big_sqrt_100'', bench_big_sqrt_100 L), (''big_gcd_10'', bench_big_gcd_10 L),
     (''big_gcd_100'', bench_big_gcd_100 L), (''big_mod_inverse_32'', bench_big_mod_inverse_32 L),
     (''big_exp_mod_32'', bench_big_exp_mod_32 L), (''big_string_10'', bench_big_string_10 h A L),
     (''big_string_100'', bench_big_string_100 h A L), (''big_string_1000'', bench_big_string_1000 h A L),
     (''big_set_string_10'', bench_big_set_string_10 h A L),
     (''big_set_string_1000'', bench_big_set_string_1000 h A L),
     (''big_probably_prime_521'', bench_big_probably_prime_521 L),
     (''big_rat_add_4'', bench_big_rat_add_4 L), (''big_rat_add_100'', bench_big_rat_add_100 L),
     (''big_rat_mul_4'', bench_big_rat_mul_4 L), (''big_rat_mul_100'', bench_big_rat_mul_100 L),
     (''big_rat_harmonic_100'', bench_big_rat_harmonic_100 L),
     (''big_rat_float64_4'', bench_big_rat_float64_4 rnd64 L),
     (''big_rat_float_string_4'', bench_big_rat_float_string_4 h A L),
     (''big_rat_set_string'', bench_big_rat_set_string L),
     (''big_float_add_1000'', bench_big_float_add_1000 L), (''big_float_mul_1000'', bench_big_float_mul_1000 L),
     (''big_float_quo_1000'', bench_big_float_quo_1000 L), (''big_float_sqrt_1000'', bench_big_float_sqrt_1000 L),
     (''big_float_text_1000'', bench_big_float_text_1000 h A L),
     (''big_float_set_string'', bench_big_float_set_string L)]"

section \<open>The contract\<close>

lemma rnd_moves [contract_rules]:
  "(\<And>z. does (advances clock) (k z)) \<Longrightarrow> does (advances clock) (rnd L n seed k)"
  unfolding rnd_def by (intro contract_rules)

lemma rnd_more_moves [contract_rules]:
  "(\<And>z. does (advances clock) (kr z)) \<Longrightarrow> does (advances clock) (rnd_rat L n seed kr)"
  "(\<And>z. does (advances clock) (kr z)) \<Longrightarrow> does (advances clock) (rnd_float L v n seed kr)"
  unfolding rnd_rat_def rnd_float_def by (intro contract_rules; assumption?)+

lemma big_parts_move [contract_rules]:
  "does (advances clock) (binop L bop nx ny)" "does (advances clock) (to_string h A L n)"
  "does (advances clock) (set_string h A L n)" "does (advances clock) (rat_binop L rop n)"
  "does (advances clock) (float_binop L fop n)" "does (advances clock) (keep_denom L x)"
  "does (advances clock) (keep_exponent L x)"
proof -
  show k: "does (advances clock) (keep_denom L x)" "does (advances clock) (keep_exponent L x)"
    for L :: "'m big_lib" and x
    unfolding keep_denom_def keep_exponent_def by (intro contract_rules)+
  show "does (advances clock) (binop L bop nx ny)" "does (advances clock) (to_string h A L n)"
    "does (advances clock) (set_string h A L n)" "does (advances clock) (rat_binop L rop n)"
    "does (advances clock) (float_binop L fop n)"
    unfolding binop_def to_string_def set_string_def rat_binop_def float_binop_def Let_def
    by (auto simp: split_beta intro!: contract_rules k simp del: block.simps)
qed

lemmas big_bodies = bench_big_add_10_def bench_big_add_1000_def bench_big_mul_10_def
  bench_big_mul_100_def bench_big_mul_1000_def bench_big_quo_10_def bench_big_quo_100_def
  bench_big_quo_1000_def bench_big_sqr_100_def bench_big_sqr_1000_def bench_big_sqrt_100_def
  bench_big_gcd_10_def bench_big_gcd_100_def bench_big_mod_inverse_32_def bench_big_exp_mod_32_def
  bench_big_string_10_def bench_big_string_100_def bench_big_string_1000_def bench_big_set_string_10_def
  bench_big_set_string_1000_def bench_big_probably_prime_521_def bench_big_rat_add_4_def
  bench_big_rat_add_100_def bench_big_rat_mul_4_def bench_big_rat_mul_100_def
  bench_big_rat_harmonic_100_def bench_big_rat_float64_4_def bench_big_rat_float_string_4_def
  bench_big_rat_set_string_def bench_big_float_add_1000_def bench_big_float_mul_1000_def
  bench_big_float_quo_1000_def bench_big_float_sqrt_1000_def bench_big_float_text_1000_def
  bench_big_float_set_string_def

lemma big_table_moves:
  "(nm, f) \<in> set (big_table h rnd64 A L) \<Longrightarrow> does (advances clock) f"
  unfolding big_table_def big_bodies Let_def
  by (auto simp: split_beta intro!: contract_rules simp del: block.simps)

section \<open>The operands have the size asked for\<close>

text \<open>The number that words stand for, the lowest first.\<close>

fun bits_value :: "u64 list \<Rightarrow> int" where
  "bits_value [] = 0"
| "bits_value (w # ws) = uint w + 2 ^ 64 * bits_value ws"

lemma bits_value_bounds: "0 \<le> bits_value ws \<and> bits_value ws < 2 ^ (64 * length ws)"
proof (induction ws)
  case (Cons w ws)
  have "uint w < 2 ^ 64" "0 \<le> uint w" using uint_lt2p [of w] by simp_all
  moreover have "bits_value ws + 1 \<le> 2 ^ (64 * length ws)" using Cons by simp
  then have "2 ^ 64 * (bits_value ws + 1) \<le> 2 ^ 64 * (2 ^ (64 * length ws))" by simp
  ultimately show ?case using Cons by (simp add: power_add algebra_simps)
qed simp

lemma bits_value_append: "bits_value (us @ ws) = bits_value us + 2 ^ (64 * length us) * bits_value ws"
  by (induction us) (simp_all add: power_add algebra_simps)

lemma splitmix_words_length [simp]: "length (splitmix_words n seed) = n"
  by (induction n arbitrary: seed) (simp_all add: split_beta Let_def)

lemma high_bit_set: "2 ^ 63 \<le> uint (x OR push_bit 63 (1 :: u64))"
proof -
  have "push_bit 63 (1 :: u64) \<le> x OR push_bit 63 1" by (rule le_word_or1)
  then have "uint (push_bit 63 (1 :: u64)) \<le> uint (x OR push_bit 63 1)" by (simp add: word_le_def)
  then show ?thesis by simp
qed

text \<open>The value of the operand of \<open>n\<close> words.\<close>

definition operand :: "nat \<Rightarrow> u64 \<Rightarrow> int" where
  "operand n seed = (case rnd_words n seed of None \<Rightarrow> 0 | Some ws \<Rightarrow> bits_value ws)"

lemma rnd_words_Some: "0 < n \<Longrightarrow> \<exists>ws. rnd_words n seed = Some ws \<and> bits_value ws = operand n seed"
  by (simp add: rnd_words_def operand_def Let_def)

lemma operand_size:
  assumes "0 < n"
  shows "2 ^ (64 * n - 1) \<le> operand n seed" and "operand n seed < 2 ^ (64 * n)"
proof -
  let ?ws = "splitmix_words n seed"
  let ?top = "?ws ! (n - 1) OR push_bit 63 1"
  have ws: "?ws[n - 1 := ?top] = take (n - 1) ?ws @ [?top]"
    using assms by (simp add: upd_conv_take_nth_drop)
  have v: "operand n seed = bits_value (take (n - 1) ?ws @ [?top])"
    using assms unfolding operand_def rnd_words_def Let_def by (simp only: ws) simp
  then show "operand n seed < 2 ^ (64 * n)"
    using bits_value_bounds [of "take (n - 1) ?ws @ [?top]"] assms by simp
  have e: "64 * n - 1 = 64 * (n - 1) + 63" using assms by simp
  have "(2 :: int) ^ (64 * n - 1) = 2 ^ (64 * (n - 1)) * 2 ^ 63" unfolding e by (rule power_add)
  also have "\<dots> \<le> 2 ^ (64 * (n - 1)) * uint ?top" using high_bit_set by (intro mult_left_mono) simp_all
  also have "\<dots> \<le> operand n seed"
    using v bits_value_bounds [of "take (n - 1) ?ws"] by (simp add: bits_value_append)
  finally show "2 ^ (64 * n - 1) \<le> operand n seed" .
qed

section \<open>What the rows hand to the sink\<close>

text \<open>\<open>v\<close> is at least 0 and its binary form has \<open>k\<close> digits.\<close>

definition has_bits :: "int \<Rightarrow> nat \<Rightarrow> bool" where
  "has_bits v k \<longleftrightarrow> v < 2 ^ k \<and> (if k = 0 then v = 0 else 2 ^ (k - 1) \<le> v)"

text \<open>The documented results, for operands that are not negative.\<close>

definition big_law :: "'m big_lib \<Rightarrow> bool" where
  "big_law L \<longleftrightarrow> (\<forall>n m. fst (malloc_words L n m)) \<and> (\<forall>ws m. fst (big_set_bits L ws m) = bits_value ws)
     \<and> (\<forall>x y m. fst (big_add L x y m) = x + y) \<and> (\<forall>x y m. fst (big_mul L x y m) = x * y)
     \<and> (\<forall>x y m. 0 \<le> x \<longrightarrow> 0 < y \<longrightarrow> fst (big_quo L x y m) = x div y)
     \<and> (\<forall>x m. 0 \<le> x \<longrightarrow> 0 \<le> fst (big_sqrt L x m) \<and> fst (big_sqrt L x m) ^ 2 \<le> x
          \<and> x < (fst (big_sqrt L x m) + 1) ^ 2)
     \<and> (\<forall>v m. 0 \<le> v \<longrightarrow> has_bits v (fst (big_bit_len L v m)))
     \<and> (\<forall>v a m. 0 \<le> v \<longrightarrow> snd (fst (big_string L v a m)) = decimal (nat v))
     \<and> (\<forall>v m. fst (big_set_string L (decimal v) 10 m) = (int v, True))"

lemma big_lawD:
  assumes "big_law L"
  shows "fst (malloc_words L n m)" "fst (big_set_bits L ws m) = bits_value ws"
    "fst (big_add L x y m) = x + y" "fst (big_mul L x y m) = x * y"
    "0 \<le> x \<Longrightarrow> 0 < y \<Longrightarrow> fst (big_quo L x y m) = x div y"
    "0 \<le> x \<Longrightarrow> 0 \<le> fst (big_sqrt L x m)" "0 \<le> x \<Longrightarrow> fst (big_sqrt L x m) ^ 2 \<le> x"
    "0 \<le> x \<Longrightarrow> x < (fst (big_sqrt L x m) + 1) ^ 2"
    "0 \<le> v \<Longrightarrow> has_bits v (fst (big_bit_len L v m))"
    "0 \<le> v \<Longrightarrow> snd (fst (big_string L v a m)) = decimal (nat v)"
    "fst (big_set_string L (decimal j) 10 m) = (int j, True)"
  by (insert assms [unfolded big_law_def], (elim conjE, (blast | metis))+)

lemma has_bits_between:
  assumes "has_bits v k" and "2 ^ a \<le> v" and "v < 2 ^ b"
  shows "a < k" and "k \<le> b"
proof -
  have "v < 2 ^ k" using assms(1) by (simp add: has_bits_def)
  with assms(2) have "(2 :: int) ^ a < 2 ^ k" by (rule order.strict_trans1)
  then show "a < k" by (rule power_less_imp_less_exp [rotated]) simp
  then have "2 ^ (k - 1) \<le> v" using assms(1) by (simp add: has_bits_def)
  then have "(2 :: int) ^ (k - 1) < 2 ^ b" using assms(3) by (rule order.strict_trans1)
  then have "k - 1 < b" by (rule power_less_imp_less_exp [rotated]) simp
  then show "k \<le> b" by simp
qed

text \<open>What \<open>rnd\<close> does to the rest: nothing.\<close>

lemma rnd_run:
  fixes w :: "'m process world"
  assumes "big_law L" and "0 < n"
  shows "\<exists>v. rnd L n seed k w = k (operand n seed) v \<and> kept v = kept w \<and> b_n (bch v) = b_n (bch w)"
proof -
  obtain ws where ws: "rnd_words n seed = Some ws" "bits_value ws = operand n seed"
    using rnd_words_Some [OF assms(2)] by blast
  let ?v = "snd (call (lib (free_words L)) (snd (call (lib (big_set_bits L ws)) (snd (call (lib (malloc_words L n)) w)))))"
  have "rnd L n seed k w = k (operand n seed) ?v"
    using ws by (simp add: rnd_def calling_def split_beta checked_def big_lawD [OF assms(1)])
  then show ?thesis by (intro exI [of _ ?v]) simp
qed

lemma binop_run:
  fixes w :: "'m process world"
  assumes "big_law L" and "0 < nx" and "0 < ny" and "0 < b_n (bch w)"
    and "\<And>m. P (fst (bop (operand nx 1) (operand ny 2) m))" and "\<And>v. P v \<Longrightarrow> 0 \<le> v"
  shows "\<exists>w' v k. binop L bop nx ny w = Some w' \<and> kept w' = kept w @ [KeptU64 (of_nat k)] \<and> P v \<and> has_bits v k"
proof -
  let ?x = "operand nx 1" and ?y = "operand ny 2"
  let ?body = "\<lambda>_ :: int. calling (bop ?x ?y) (set_int ''big.z'')"
  let ?I = "\<lambda>j (v :: 'm process world). 0 < j \<longrightarrow> P (int_var (rest v) ''big.z'')"
  let ?k = "\<lambda>x y. block [
     set_int ''big.z'' 0, bench_loop (\<lambda>_. calling (bop x y) (set_int ''big.z'')),
     reading (\<lambda>p. int_var p ''big.z'') (\<lambda>z. calling (big_bit_len L z) (\<lambda>n. keep_u64 (of_nat n))),
     call_op (big_free L ''x''), call_op (big_free L ''y''), call_op (big_free L ''z'')]"
  obtain u where u: "binop L bop nx ny w = rnd L ny 2 (?k ?x) u" "kept u = kept w" "b_n (bch u) = b_n (bch w)"
    using rnd_run [OF assms(1,2), of 1 "\<lambda>x. rnd L ny 2 (?k x)" w] unfolding binop_def by blast
  obtain v where "rnd L ny 2 (?k ?x) u = ?k ?x ?y v" "kept v = kept u" "b_n (bch v) = b_n (bch u)"
    using rnd_run [OF assms(1,3), of 2 "?k ?x" u] by blast
  with u have v: "binop L bop nx ny w = ?k ?x ?y v" "kept v = kept w" "b_n (bch v) = b_n (bch w)"
    by (simp_all del: block.simps)
  let ?v = "perform (\<lambda>p. p\<lparr>int_var := (int_var p)(''big.z'' := 0)\<rparr>) v"
  have "\<exists>x. bench_loop ?body ?v = Some x \<and> ?I (nat (b_n (bch ?v))) x
    \<and> kept x = kept ?v @ concat (map (\<lambda>_. []) [0..<nat (b_n (bch ?v))])"
    by (rule loop_kept [where I = ?I])
      (simp_all add: calling_def split_beta set_int_def assign_def perform_def assms(5))
  then obtain x where x: "bench_loop ?body ?v = Some x" "P (int_var (rest x) ''big.z'')" "kept x = kept w"
    using assms(4) v(2,3) by (auto simp: map_replicate_const)
  let ?z = "int_var (rest x) ''big.z''"
  let ?n = "fst (big_bit_len L ?z (machine (rest x)))"
  have "has_bits ?z ?n" using x(2) assms(6) by (intro big_lawD(9) [OF assms(1)]) blast
  moreover have "\<exists>w'. binop L bop nx ny w = Some w' \<and> kept w' = kept w @ [KeptU64 (of_nat ?n)]"
    unfolding v(1) using x(1,3)
    by (simp add: set_int_def assign_def reading_def calling_def split_beta keep_u64_def)
  ultimately show ?thesis using x(2) by blast
qed

text \<open>Ranges of the results, for operands of \<open>a\<close> and \<open>b\<close> words.\<close>

lemma above_power: "(2 :: int) ^ k \<le> x \<Longrightarrow> 0 < x"
  by (rule less_le_trans [of 0 "2 ^ k"]) simp_all

lemma product_range:
  fixes x y :: int
  assumes "2 ^ (64 * a - 1) \<le> x" "x < 2 ^ (64 * a)" "2 ^ (64 * b - 1) \<le> y" "y < 2 ^ (64 * b)" "0 < a" "0 < b"
  shows "2 ^ (64 * (a + b) - 2) \<le> x * y" "x * y < 2 ^ (64 * (a + b))"
proof -
  have e: "64 * (a + b) - 2 = (64 * a - 1) + (64 * b - 1)" "64 * (a + b) = 64 * a + 64 * b" using assms(5,6) by simp_all
  have pos: "0 \<le> x" "0 < y" using above_power [OF assms(1)] above_power [OF assms(3)] by simp_all
  show "2 ^ (64 * (a + b) - 2) \<le> x * y"
    unfolding e(1) power_add using assms(1,3) pos by (intro mult_mono) simp_all
  show "x * y < 2 ^ (64 * (a + b))"
    unfolding e(2) power_add using assms(2,4) pos by (intro mult_strict_mono') simp_all
qed

lemma sum_range:
  fixes x y :: int
  assumes "2 ^ (64 * a - 1) \<le> x" "x < 2 ^ (64 * a)" "2 ^ (64 * a - 1) \<le> y" "y < 2 ^ (64 * a)" "0 < a"
  shows "2 ^ (64 * a) \<le> x + y" "x + y < 2 ^ (64 * a + 1)"
proof -
  have "64 * a = Suc (64 * a - 1)" using assms(5) by simp
  then have "(2 :: int) ^ (64 * a) = 2 * 2 ^ (64 * a - 1)" by (metis power_Suc)
  with assms show "2 ^ (64 * a) \<le> x + y" "x + y < 2 ^ (64 * a + 1)" by simp_all
qed

lemma quotient_range:
  fixes x y :: int
  assumes "2 ^ (64 * (a + b) - 1) \<le> x" "x < 2 ^ (64 * (a + b))" "2 ^ (64 * b - 1) \<le> y" "y < 2 ^ (64 * b)"
    "0 < a" "0 < b"
  shows "2 ^ (64 * a - 1) \<le> x div y" "x div y < 2 ^ (64 * a + 1)"
proof -
  have y: "0 < y" by (rule above_power [OF assms(3)])
  have "64 * (a + b) - 1 = (64 * a - 1) + 64 * b" using assms(5) by simp
  then have "2 ^ (64 * a - 1) * y \<le> 2 ^ (64 * (a + b) - 1)"
    using assms(4) by (simp only: power_add) (intro mult_left_mono, simp_all)
  then have "2 ^ (64 * a - 1) * y \<le> x" using assms(1) by simp
  then have "2 ^ (64 * a - 1) * y div y \<le> x div y" using y by (rule zdiv_mono1)
  then show "2 ^ (64 * a - 1) \<le> x div y" using y by simp
  have "64 * (a + b) = (64 * a + 1) + (64 * b - 1)" using assms(6) by simp
  then have "(2 :: int) ^ (64 * (a + b)) = 2 ^ (64 * a + 1) * 2 ^ (64 * b - 1)" by (metis power_add)
  also have "\<dots> \<le> 2 ^ (64 * a + 1) * y" using assms(3) by (intro mult_left_mono) simp_all
  finally have "x < 2 ^ (64 * a + 1) * y" using assms(2) by simp
  moreover have "x div y * y \<le> x" using div_mult_mod_eq [of x y] pos_mod_sign [OF y, of x] by linarith
  ultimately have "x div y * y < 2 ^ (64 * a + 1) * y" by simp
  then show "x div y < 2 ^ (64 * a + 1)" using y by (simp add: mult_less_cancel_right)
qed

lemma root_range:
  fixes x r :: int
  assumes "2 ^ (64 * a - 1) \<le> x" "x < 2 ^ (64 * a)" "0 \<le> r" "r ^ 2 \<le> x" "x < (r + 1) ^ 2" "0 < a"
  shows "2 ^ (32 * a - 1) \<le> r" "r < 2 ^ (32 * a)"
proof -
  have "((2 :: int) ^ (32 * a - 1)) ^ 2 \<le> 2 ^ (64 * a - 1)"
    unfolding power_mult [symmetric] by (intro power_increasing) simp_all
  then have "(2 ^ (32 * a - 1)) ^ 2 < (r + 1) ^ 2" using assms(1,5) by simp
  then have "2 ^ (32 * a - 1) < r + 1" by (rule power_less_imp_less_base) (use assms(3) in simp)
  then show "2 ^ (32 * a - 1) \<le> r" by simp
  have "(2 :: int) ^ (64 * a) = (2 ^ (32 * a)) ^ 2" unfolding power_mult [symmetric] by simp
  then have "r ^ 2 < (2 ^ (32 * a)) ^ 2" using assms(2,4) by simp
  then show "r < 2 ^ (32 * a)" by (rule power_less_imp_less_base) simp
qed

text \<open>A row with both operands, by the range of its result.\<close>

lemma binop_bits:
  fixes w :: "'m process world"
  assumes "big_law L" and "0 < nx" and "0 < ny" and "0 < b_n (bch w)"
    and "\<And>m. 2 ^ lo \<le> fst (bop (operand nx 1) (operand ny 2) m) \<and> fst (bop (operand nx 1) (operand ny 2) m) < 2 ^ hi"
  shows "\<exists>w' k. binop L bop nx ny w = Some w' \<and> kept w' = kept w @ [KeptU64 (of_nat k)] \<and> lo < k \<and> k \<le> hi"
proof -
  let ?P = "\<lambda>v :: int. 2 ^ lo \<le> v \<and> v < 2 ^ hi"
  have nonneg: "0 \<le> v" if "?P v" for v
    using that above_power [of lo v] by simp
  obtain w' v k where "binop L bop nx ny w = Some w'" "kept w' = kept w @ [KeptU64 (of_nat k)]" "?P v" "has_bits v k"
    using binop_run [where P = ?P and bop = bop, OF assms(1-4)] assms(5) nonneg by blast
  with has_bits_between [of v k lo hi] show ?thesis by blast
qed

lemma quo_bits:
  fixes w :: "'m process world"
  assumes "big_law L" and "0 < b_n (bch w)" and "0 < n"
  shows "\<exists>w' k. binop L (big_quo L) (n + n) n w = Some w' \<and> kept w' = kept w @ [KeptU64 (of_nat k)]
    \<and> 64 * n - 1 < k \<and> k \<le> 64 * n + 1"
proof (intro binop_bits assms)
  fix m
  have pos: "0 < operand n 2" "0 < operand (n + n) 1" using above_power [OF operand_size(1)] assms(3) by simp_all
  then show "2 ^ (64 * n - 1) \<le> fst (big_quo L (operand (n + n) 1) (operand n 2) m)
    \<and> fst (big_quo L (operand (n + n) 1) (operand n 2) m) < 2 ^ (64 * n + 1)"
    using assms(3) quotient_range [OF operand_size operand_size, of n n]
    by (simp add: big_lawD(5) [OF assms(1)])
qed (use assms(3) in simp_all)

lemma root_bits:
  fixes w :: "'m process world"
  assumes "big_law L" and "0 < b_n (bch w)" and "0 < n"
  shows "\<exists>w' k. binop L (sqrt_op L) n 1 w = Some w' \<and> kept w' = kept w @ [KeptU64 (of_nat k)]
    \<and> 32 * n - 1 < k \<and> k \<le> 32 * n"
proof (intro binop_bits assms)
  fix m
  have "0 < operand n 1" using above_power [OF operand_size(1)] assms(3) by simp
  then show "2 ^ (32 * n - 1) \<le> fst (sqrt_op L (operand n 1) (operand 1 2) m)
    \<and> fst (sqrt_op L (operand n 1) (operand 1 2) m) < 2 ^ (32 * n)"
    using assms(3) root_range [OF operand_size [OF assms(3), of 1], of "fst (big_sqrt L (operand n 1) m)"]
    by (simp add: big_lawD(6-8) [OF assms(1)] sqrt_op_def)
qed (use assms(3) in simp_all)

text \<open>
  C22. Bounds: the rows compute numbers of the size they are named for. The operands, which come from
  the program's own generator, have exactly the words asked for. So with operations that compute
  what their package documents, the bit length that a row hands to the sink is known in advance,
  exactly for the sums and the root, and within one bit for the products, squares and quotients.
\<close>
theorem big_rows_have_size:
  assumes "big_law L" and "0 < b_n (bch w)"
    and "(f, lo, hi) \<in> {(bench_big_add_10 L, 641, 641), (bench_big_add_1000 L, 64001, 64001),
      (bench_big_mul_10 L, 1279, 1280), (bench_big_mul_100 L, 12799, 12800),
      (bench_big_mul_1000 L, 127999, 128000), (bench_big_quo_10 L, 640, 641),
      (bench_big_quo_100 L, 6400, 6401), (bench_big_quo_1000 L, 64000, 64001),
      (bench_big_sqr_100 L, 12799, 12800), (bench_big_sqr_1000 L, 127999, 128000),
      (bench_big_sqrt_100 L, 3200, 3200)}"
  shows "\<exists>w' k. f w = Some w' \<and> kept w' = kept w @ [KeptU64 (of_nat k)] \<and> lo \<le> k \<and> k \<le> hi"
proof -
  note size = operand_size and law = big_lawD [OF assms(1)]
  have add: "\<exists>w' k. binop L (big_add L) n n w = Some w' \<and> kept w' = kept w @ [KeptU64 (of_nat k)]
      \<and> 64 * n < k \<and> k \<le> 64 * n + 1" if "0 < n" for n
    using that sum_range [OF size size, OF that that that]
    by (intro binop_bits assms) (simp_all add: law)
  have mul: "\<exists>w' k. binop L (big_mul L) n n w = Some w' \<and> kept w' = kept w @ [KeptU64 (of_nat k)]
      \<and> 64 * (n + n) - 2 < k \<and> k \<le> 64 * (n + n)" if "0 < n" for n
    using that product_range [OF size size, OF that that that that]
    by (intro binop_bits assms) (simp_all add: law)
  have sqr: "\<exists>w' k. binop L (sqr L) n 1 w = Some w' \<and> kept w' = kept w @ [KeptU64 (of_nat k)]
      \<and> 64 * (n + n) - 2 < k \<and> k \<le> 64 * (n + n)" if "0 < n" for n
    using that product_range [OF size size, OF that that that that]
    by (intro binop_bits assms) (simp_all add: law sqr_def)
  let ?Q = "\<lambda>f lo hi. \<exists>w' k. f w = Some w' \<and> kept w' = kept w @ [KeptU64 (of_nat k)] \<and> lo \<le> k \<and> k \<le> hi"
  have rows: "?Q (bench_big_add_10 L) 641 641" "?Q (bench_big_add_1000 L) 64001 64001"
    "?Q (bench_big_mul_10 L) 1279 1280" "?Q (bench_big_mul_100 L) 12799 12800" "?Q (bench_big_mul_1000 L) 127999 128000"
    "?Q (bench_big_quo_10 L) 640 641" "?Q (bench_big_quo_100 L) 6400 6401" "?Q (bench_big_quo_1000 L) 64000 64001"
    "?Q (bench_big_sqr_100 L) 12799 12800" "?Q (bench_big_sqr_1000 L) 127999 128000" "?Q (bench_big_sqrt_100 L) 3200 3200"
    using add [of 10] add [of 1000] mul [of 10] mul [of 100] mul [of 1000]
      quo_bits [OF assms(1,2), of 10] quo_bits [OF assms(1,2), of 100] quo_bits [OF assms(1,2), of 1000]
      sqr [of 100] sqr [of 1000] root_bits [OF assms(1,2), of 100]
    by (simp_all add: big_bodies less_eq_Suc_le)
  from assms(3) show ?thesis
    by (simp only: insert_iff empty_iff prod.inject) (elim disjE conjE FalseE; simp only: rows)
qed

text \<open>
  Roundtrip: what \<open>big_int_string\<close> prints, \<open>big_int_set_string\<close> reads. When the two do what
  their package documents, the abort in the loop of the parsing rows never fires: after any number of
  iterations the receiver is the operand that was printed before the loop.
\<close>
theorem set_string_reads_back:
  fixes w :: "'m process world"
  assumes "big_law L" and "0 < b_n (bch w)"
    and "(f, n) \<in> {(bench_big_set_string_10 h A L, 10), (bench_big_set_string_1000 h A L, 1000)}"
  shows "\<exists>w'. f w = Some w' \<and> kept w' = kept w \<and> int_var (rest w') ''big.z'' = operand n 1"
proof -
  have f: "f = set_string h A L n" "0 < n" using assms(3)
    by (auto simp: bench_big_set_string_10_def bench_big_set_string_1000_def)
  let ?a = "addr h ''big.ar''" and ?x = "operand n 1"
  let ?body = "\<lambda>s (_ :: int). calling (big_set_string L s 10) (\<lambda>(z, ok). block [
    set_int ''big.z'' z, if \<not> ok then aborting else Some])"
  let ?k = "\<lambda>x. block [set_int ''big.z'' 0,
    scratch_arena A ?a (calling (big_string L x ?a) (\<lambda>(p, s). bench_loop (?body s))),
    call_op (big_free L ''x''), call_op (big_free L ''z'')]"
  have x: "0 \<le> ?x" using above_power [OF operand_size(1) [OF f(2)], of 1] by simp
  obtain v where v: "f w = ?k ?x v" "kept v = kept w" "b_n (bch v) = b_n (bch w)"
    using rnd_run [OF assms(1) f(2), of 1 ?k w] unfolding f(1) set_string_def Let_def by blast
  let ?v = "snd (call (lib (big_string L ?x ?a)) (snd (call (lib (arena_init A ?a))
    (perform (\<lambda>p. p\<lparr>int_var := (int_var p)(''big.z'' := 0)\<rparr>) v))))"
  let ?I = "\<lambda>j (u :: 'm process world). 0 < j \<longrightarrow> int_var (rest u) ''big.z'' = ?x"
  have "\<exists>u. bench_loop (?body (decimal (nat ?x))) ?v = Some u \<and> ?I (nat (b_n (bch ?v))) u
    \<and> kept u = kept ?v @ concat (map (\<lambda>_. []) [0..<nat (b_n (bch ?v))])"
    by (rule loop_kept [where I = ?I])
      (simp_all add: calling_def split_beta set_int_def assign_def perform_def big_lawD(11) [OF assms(1)] x)
  then obtain u where u: "bench_loop (?body (decimal (nat ?x))) ?v = Some u" "int_var (rest u) ''big.z'' = ?x"
    "kept u = kept w" using assms(2) v(2,3) by (auto simp: map_replicate_const)
  show ?thesis
    unfolding v(1) using u
    by (simp add: scratch_arena_def calling_def split_beta set_int_def assign_def big_lawD(10) [OF assms(1) x])
qed

section \<open>A package that keeps the law\<close>

fun bit_length :: "nat \<Rightarrow> nat" where
  "bit_length v = (if v = 0 then 0 else Suc (bit_length (v div 2)))"

fun root :: "nat \<Rightarrow> nat" where
  "root v = (if v = 0 then 0 else let r = 2 * root (v div 4) in if (r + 1) ^ 2 \<le> v then r + 1 else r)"

declare bit_length.simps [simp del] root.simps [simp del]

lemma bit_length_bits: "v < 2 ^ bit_length v \<and> (0 < v \<longrightarrow> 2 ^ (bit_length v - 1) \<le> v)"
proof (induction v rule: bit_length.induct)
  case (1 v)
  show ?case
  proof (cases "v \<le> 1")
    case True
    then have "v = 0 \<or> v = 1" by auto
    moreover have "bit_length 0 = 0" by (subst bit_length.simps) simp
    moreover from this have "bit_length 1 = 1" by (subst bit_length.simps) simp
    ultimately show ?thesis by (elim disjE) simp_all
  next
    case False
    let ?k = "bit_length (v div 2)"
    have IH: "v div 2 < 2 ^ ?k" "2 ^ (?k - 1) \<le> v div 2" using 1 False by auto
    then have "?k \<noteq> 0" using False by (intro notI) simp
    then have p: "(2 :: nat) ^ ?k = 2 * 2 ^ (?k - 1)" by (cases ?k) simp_all
    have k: "bit_length v = Suc ?k" using False by (simp add: bit_length.simps [of v])
    have "v < 2 * 2 ^ ?k" using IH(1) by linarith
    moreover have "2 ^ ?k \<le> v" using IH(2) p by linarith
    ultimately show ?thesis by (simp add: k)
  qed
qed

lemma root_square: "root v ^ 2 \<le> v \<and> v < (root v + 1) ^ 2"
proof (induction v rule: root.induct)
  case (1 v)
  show ?case
  proof (cases "v = 0")
    case False
    let ?r = "root (v div 4)"
    have IH: "?r ^ 2 \<le> v div 4" "v div 4 < (?r + 1) ^ 2" using 1 False by auto
    then have "4 * ?r ^ 2 \<le> v" "v < 4 * (?r + 1) ^ 2" by simp_all
    then have "(2 * ?r) ^ 2 \<le> v" "v < (2 * ?r + 2) ^ 2" by (simp_all add: power2_eq_square algebra_simps)
    with False show ?thesis by (subst (1 2) root.simps) (simp add: Let_def)
  qed (simp add: root.simps)
qed

definition ref_big :: "unit big_lib" where
  "ref_big = \<lparr>
     malloc_words = (\<lambda>n m. (True, 9, m)), free_words = (\<lambda>m. ((), 3, m)), big_free = (\<lambda>x m. ((), 3, m)),
     big_set_bits = (\<lambda>ws m. (bits_value ws, 5, m)),
     big_add = (\<lambda>x y m. (x + y, 2, m)), big_sub = (\<lambda>x y m. (x - y, 2, m)), big_mul = (\<lambda>x y m. (x * y, 8, m)),
     big_quo = (\<lambda>x y m. (x div y, 20, m)), big_sqrt = (\<lambda>x m. (int (root (nat x)), 30, m)),
     big_gcd = (\<lambda>x y m. (gcd x y, 30, m)), big_mod_inverse = (\<lambda>x y m. (1, 30, m)),
     big_exp = (\<lambda>x y n m. (x ^ nat y mod n, 90, m)), big_lsh = (\<lambda>x k m. (x * 2 ^ k, 1, m)),
     big_bit_len = (\<lambda>x m. (bit_length (nat x), 1, m)), big_string = (\<lambda>x a m. ((8, decimal (nat x)), 50, m)),
     big_set_string = (\<lambda>s k m. ((int (read_digits s), True), 50, m)), big_probably_prime = (\<lambda>x k m. (True, 99, m)),
     rat_set_frac = (\<lambda>x y m. (Fract x y, 9, m)), rat_set_frac64 = (\<lambda>x y m. (Fract x y, 9, m)),
     rat_add = (\<lambda>x y m. (x + y, 9, m)), rat_mul = (\<lambda>x y m. (x * y, 9, m)),
     rat_num = (\<lambda>x m. (fst (quotient_of x), 0, m)), rat_denom = (\<lambda>x m. (snd (quotient_of x), 0, m)),
     rat_float64 = (\<lambda>x m. (x, 9, m)), rat_float_string = (\<lambda>x a k m. (''0'', 9, m)),
     rat_set_string = (\<lambda>s m. (0, 9, m)),
     float_set_prec = (\<lambda>x k m. ((), 1, m)), float_set_int = (\<lambda>k x m. (of_int x, 5, m)),
     float_set_mant_exp = (\<lambda>k x e m. (x * 2 powi e, 5, m)), float_op = (\<lambda>s k x y m. (x + y, 9, m)),
     float_sqrt = (\<lambda>k x m. (x, 9, m)), float_mant_exp = (\<lambda>x m. (0, 1, m)),
     float_text = (\<lambda>x a c k m. (''0'', 9, m)), float_set_string = (\<lambda>k s m. (0, 9, m))\<rparr>"

lemma ref_big_law: "big_law ref_big"
  unfolding big_law_def
proof (intro conjI allI impI)
  fix v :: int and m assume v: "0 \<le> v"
  let ?k = "bit_length (nat v)"
  have "int (nat v) < 2 ^ ?k" "0 < nat v \<longrightarrow> 2 ^ (?k - 1) \<le> int (nat v)"
    using bit_length_bits [of "nat v"] by (metis of_nat_less_numeral_power_cancel_iff, metis numeral_power_le_of_nat_cancel_iff)
  moreover have "?k = 0 \<longleftrightarrow> v = 0" using v by (subst bit_length.simps) auto
  ultimately show "has_bits v (fst (big_bit_len ref_big v m))" using v by (auto simp: has_bits_def ref_big_def)
next
  fix x :: int and m assume x: "0 \<le> x"
  have "int (root (nat x) ^ 2) \<le> int (nat x)" "int (nat x) < int ((root (nat x) + 1) ^ 2)"
    using root_square [of "nat x"] by (simp_all only: of_nat_le_iff of_nat_less_iff)
  with x show "fst (big_sqrt ref_big x m) ^ 2 \<le> x" "x < (fst (big_sqrt ref_big x m) + 1) ^ 2"
    by (simp_all add: ref_big_def add.commute)
qed (simp_all add: ref_big_def)

definition big_world :: "int \<Rightarrow> unit process world" where
  "big_world n = \<lparr>bch = zero_bench\<lparr>b_n := n\<rparr>, kept = [], rest = \<lparr>clock = 0, int_var = (\<lambda>x. 0),
     u64_var = (\<lambda>x. 0), dbl_var = (\<lambda>x. 0), int_array = (\<lambda>x. []), str_array = (\<lambda>x. []), machine = ()\<rparr>\<rparr>"

theorem big_rows_have_size_witness:
  "\<exists>w'. bench_big_add_10 ref_big (big_world 3) = Some w' \<and> kept w' = [KeptU64 641]"
proof -
  have "0 < b_n (bch (big_world 3))" by (simp add: big_world_def)
  from big_rows_have_size [OF ref_big_law this, of "bench_big_add_10 ref_big" 641 641] show ?thesis
    by (auto simp: big_world_def dest: le_antisym)
qed

theorem set_string_reads_back_witness:
  "\<exists>w'. bench_big_set_string_10 (exact_host (\<lambda>x. 8) (\<lambda>x. 0)) still_arena ref_big (big_world 2) = Some w'
    \<and> int_var (rest w') ''big.z'' = operand 10 1"
proof -
  have "0 < b_n (bch (big_world 2))" by (simp add: big_world_def)
  from set_string_reads_back [OF ref_big_law this,
      of "bench_big_set_string_10 (exact_host (\<lambda>x. 8) (\<lambda>x. 0)) still_arena ref_big" 10
      "exact_host (\<lambda>x. 8) (\<lambda>x. 0)" still_arena]
  show ?thesis by auto
qed

end
