(* ===== verification/Regexp_Lib.thy ===== *)
theory Regexp_Lib
  imports Answers
begin

text \<open>
  What the regular expressions of \<open>bench/regexp_bench.c\<close> mean, as the documentation of burrow's
  package (that of Go and of RE2) has it: the leftmost match, and among the matches there the one a
  backtracking search finds first. The law at the end states that burrow answers accordingly.
\<close>

section \<open>Expressions and their matches\<close>

datatype rx = Eps | One "char \<Rightarrow> bool" | Bol | Eol | Seq rx rx | Alt rx rx | Star rx | Grp rx

text \<open>
  A position in a text is its index with the rest of the text. The ways to match from a position
  on, in the order the search tries them, each with where it ends and with the ranges of the
  groups. A repetition stops at a round that matches nothing.
\<close>

type_synonym pos = "nat \<times> string"
type_synonym hit = "pos \<times> (nat \<times> nat) list"

fun star_ends :: "nat \<Rightarrow> (pos \<Rightarrow> hit list) \<Rightarrow> pos \<Rightarrow> hit list" where
  "star_ends 0 f p = [(p, [])]"
| "star_ends (Suc k) f p = concat (map (\<lambda>(q, c). if fst q \<le> fst p then []
     else map (\<lambda>(e, d). (e, if d = [] then c else d)) (star_ends k f q)) (f p)) @ [(p, [])]"

fun ends :: "rx \<Rightarrow> pos \<Rightarrow> hit list" where
  "ends Eps p = [(p, [])]"
| "ends (One f) p = (case snd p of [] \<Rightarrow> [] | x # xs \<Rightarrow> if f x then [((fst p + 1, xs), [])] else [])"
| "ends Bol p = (if fst p = 0 then [(p, [])] else [])"
| "ends Eol p = (if snd p = [] then [(p, [])] else [])"
| "ends (Seq a b) p = concat (map (\<lambda>(q, c). map (\<lambda>(e, d). (e, c @ d)) (ends b q)) (ends a p))"
| "ends (Alt a b) p = ends a p @ ends b p"
| "ends (Star a) p = star_ends (length (snd p)) (ends a) p"
| "ends (Grp a) p = map (\<lambda>(e, c). (e, (fst p, fst e) # c)) (ends a p)"

text \<open>The first match that begins at the position or after it.\<close>

fun search :: "rx \<Rightarrow> nat \<Rightarrow> string \<Rightarrow> (nat \<times> hit) option" where
  "search r i s = (case ends r (i, s) of h # _ \<Rightarrow> Some (i, h)
     | [] \<Rightarrow> (case s of [] \<Rightarrow> None | x # xs \<Rightarrow> search r (i + 1) xs))"

declare search.simps [simp del]

definition occurs :: "rx \<Rightarrow> string \<Rightarrow> bool" where
  "occurs r s \<longleftrightarrow> search r 0 s \<noteq> None"

definition sub :: "string \<Rightarrow> nat \<Rightarrow> nat \<Rightarrow> string" where
  "sub s i e = take (e - i) (drop i s)"

text \<open>The matches one after the other, for expressions that do not match nothing.\<close>

fun all_matches :: "nat \<Rightarrow> rx \<Rightarrow> nat \<Rightarrow> string \<Rightarrow> (nat \<times> nat) list" where
  "all_matches 0 r i s = []"
| "all_matches (Suc k) r i s = (case search r i s of
     None \<Rightarrow> [] | Some (j, (e, t), c) \<Rightarrow> (j, e) # (if j < e then all_matches k r e t else []))"

definition matches_in :: "rx \<Rightarrow> string \<Rightarrow> (nat \<times> nat) list" where
  "matches_in r s = all_matches (Suc (length s)) r 0 s"

definition text_match :: "rx \<Rightarrow> string \<Rightarrow> string" where
  "text_match r s = (case search r 0 s of None \<Rightarrow> [] | Some (i, (e, t), c) \<Rightarrow> sub s i e)"

definition submatches :: "rx \<Rightarrow> string \<Rightarrow> string list" where
  "submatches r s = (case search r 0 s of None \<Rightarrow> []
     | Some (i, (e, t), c) \<Rightarrow> sub s i e # map (\<lambda>(a, b). sub s a b) c)"

section \<open>The patterns of the program\<close>

definition is_char :: "char \<Rightarrow> rx" where "is_char c = One (\<lambda>x. x = c)"
definition class_of :: "string \<Rightarrow> rx" where "class_of cs = One (\<lambda>x. x \<in> set cs)"
definition dot :: rx where "dot = One (\<lambda>x. x \<noteq> CHR 0x0A)"

fun word :: "string \<Rightarrow> rx" where
  "word [] = Eps"
| "word (c # cs) = Seq (is_char c) (word cs)"

definition plus :: "rx \<Rightarrow> rx" where "plus r = Seq r (Star r)"

definition in_range :: "char \<Rightarrow> char \<Rightarrow> char \<Rightarrow> bool" where
  "in_range a b c \<longleftrightarrow> of_char a \<le> (of_char c :: nat) \<and> of_char c \<le> (of_char b :: nat)"

text \<open>\<open>(?i)\<close> of a word.\<close>

definition flip_case :: "char \<Rightarrow> char" where
  "flip_case c = (if in_range (CHR ''a'') (CHR ''z'') c then char_of (of_char c - (32 :: nat))
     else if in_range (CHR ''A'') (CHR ''Z'') c then char_of (of_char c + (32 :: nat)) else c)"

fun any_case :: "string \<Rightarrow> rx" where
  "any_case [] = Eps"
| "any_case (c # cs) = Seq (class_of [c, flip_case c]) (any_case cs)"

fun alternatives :: "rx list \<Rightarrow> rx" where
  "alternatives [] = One (\<lambda>_. False)"
| "alternatives [r] = r"
| "alternatives (r # rs) = Alt r (alternatives rs)"

definition ALPHABET :: string where "ALPHABET = ''abcdefghijklmnopqrstuvwxyz''"
definition CAPITALS :: string where "CAPITALS = ''ABCDEFGHIJKLMNOPQRSTUVWXYZ''"

definition d_or_e :: rx where "d_or_e = Grp (Alt (is_char (CHR ''d'')) (is_char (CHR ''e'')))"

definition easy1 :: rx where
  "easy1 = foldr Seq [is_char (CHR ''A''), class_of ''AB'', is_char (CHR ''B''), class_of ''BC'',
     is_char (CHR ''C''), class_of ''CD'', is_char (CHR ''D''), class_of ''DE'', is_char (CHR ''E''),
     class_of ''EF'', is_char (CHR ''F''), class_of ''FG'', is_char (CHR ''G''), class_of ''GH'',
     is_char (CHR ''H''), class_of ''HI'', is_char (CHR ''I''), class_of ''IJ'', is_char (CHR ''J'')] Eol"

definition pattern_meaning :: "string \<Rightarrow> rx option" where
  "pattern_meaning = map_of [
     (''a+b+'', Seq (plus (is_char (CHR ''a''))) (plus (is_char (CHR ''b'')))),
     (''a(a+b+)b'', Seq (is_char (CHR ''a''))
        (Seq (Grp (Seq (plus (is_char (CHR ''a''))) (plus (is_char (CHR ''b''))))) (is_char (CHR ''b'')))),
     (''y'', is_char (CHR ''y'')),
     (''.y'', Seq dot (is_char (CHR ''y''))),
     (''[abcdw]'', class_of ''abcdw''),
     (''[ac]'', class_of ''ac''),
     (''[cjrw]'', class_of ''cjrw''),
     (''^zbc(d|e)'', Seq Bol (Seq (word ''zbc'') d_or_e)),
     (''^.bc(d|e)'', Seq Bol (Seq dot (Seq (word ''bc'') d_or_e))),
     (''^.bc(d|e)*$'', Seq Bol (Seq dot (Seq (word ''bc'') (Seq (Star d_or_e) Eol)))),
     (''.bc(d|e)*$'', Seq dot (Seq (word ''bc'') (Seq (Star d_or_e) Eol))),
     (''^.bc(?:d|e)*$'', Seq Bol (Seq dot (Seq (word ''bc'') (Seq (Star (class_of ''de'')) Eol)))),
     (''.bc(?:d|e)*$'', Seq dot (Seq (word ''bc'') (Seq (Star (class_of ''de'')) Eol))),
     (''^abcdefghijklmnopqrstuvwxyz.*$'', Seq Bol (Seq (word ALPHABET) (Seq (Star dot) Eol))),
     (''^.bcdefghijklmnopqrstuvwxyz.*$'', Seq Bol (Seq dot (Seq (word (tl ALPHABET)) (Seq (Star dot) Eol)))),
     (''ABCDEFGHIJKLMNOPQRSTUVWXYZ$'', Seq (word CAPITALS) Eol),
     (''(?i)ABCDEFGHIJklmnopqrstuvwxyz$'', Seq (any_case CAPITALS) Eol),
     (''A[AB]B[BC]C[CD]D[DE]E[EF]F[FG]G[GH]H[HI]I[IJ]J$'', easy1),
     (''[XYZ]ABCDEFGHIJKLMNOPQRSTUVWXYZ$'', Seq (class_of ''XYZ'') (Seq (word CAPITALS) Eol)),
     (''[ -~]*ABCDEFGHIJKLMNOPQRSTUVWXYZ$'', Seq (Star (One (in_range (CHR 0x20) (CHR 0x7E))))
        (Seq (word CAPITALS) Eol)),
     (''ABCD|CDEF|EFGH|GHIJ|IJKL|KLMN|MNOP|OPQR|QRST|STUV|UVWX|WXYZ'', alternatives (map word
        [''ABCD'', ''CDEF'', ''EFGH'', ''GHIJ'', ''IJKL'', ''KLMN'', ''MNOP'', ''OPQR'', ''QRST'', ''STUV'',
         ''UVWX'', ''WXYZ''])),
     (''(?s)'' @ [CHR 0x5C] @ ''A.*'' @ [CHR 0x5C] @ ''z'', Seq Bol (Seq (Star (One (\<lambda>_. True))) Eol))]"

section \<open>What the file takes from burrow\<close>

text \<open>
  A compiled expression is the pattern it was made from. \<open>must_compile\<close> says whether the pattern
  compiled; \<open>regexp_must_compile\<close> panics when it did not. A slice of matches is its texts, or its
  address and length where the program looks at nothing else.
\<close>

record 'm regexp_lib =
  must_compile :: "string \<Rightarrow> (bool, 'm) op"
  re_compile :: "string \<Rightarrow> (bool, 'm) op"
  re_free :: "string \<Rightarrow> (unit, 'm) op"
  re_match :: "string \<Rightarrow> string \<Rightarrow> (bool, 'm) op"
  re_match_string :: "string \<Rightarrow> string \<Rightarrow> (bool, 'm) op"
  re_find :: "string \<Rightarrow> string \<Rightarrow> (string, 'm) op"
  re_find_string :: "string \<Rightarrow> string \<Rightarrow> (string, 'm) op"
  re_find_all :: "string \<Rightarrow> nat \<Rightarrow> string \<Rightarrow> int \<Rightarrow> (nat \<times> nat, 'm) op"
  re_find_submatch :: "string \<Rightarrow> nat \<Rightarrow> string \<Rightarrow> (string list, 'm) op"
  re_find_string_submatch :: "string \<Rightarrow> nat \<Rightarrow> string \<Rightarrow> (string list, 'm) op"
  re_replace_all_string :: "string \<Rightarrow> nat \<Rightarrow> string \<Rightarrow> string \<Rightarrow> (nat, 'm) op"
  re_quote_meta :: "nat \<Rightarrow> string \<Rightarrow> (nat, 'm) op"

definition answers :: "'m regexp_lib \<Rightarrow> string \<Rightarrow> rx \<Rightarrow> bool" where
  "answers L p r \<longleftrightarrow> (\<forall>m. fst (must_compile L p m))
     \<and> (\<forall>s m. fst (re_match L p s m) = occurs r s) \<and> (\<forall>s m. fst (re_match_string L p s m) = occurs r s)
     \<and> (\<forall>s m. fst (re_find L p s m) = text_match r s) \<and> (\<forall>s m. fst (re_find_string L p s m) = text_match r s)
     \<and> (\<forall>a s m. fst (re_find_submatch L p a s m) = submatches r s)
     \<and> (\<forall>a s m. fst (re_find_string_submatch L p a s m) = submatches r s)
     \<and> (\<forall>a s m. snd (fst (re_find_all L p a s (- 1) m)) = length (matches_in r s)
          \<and> (fst (fst (re_find_all L p a s (- 1) m)) = 0 \<longleftrightarrow> matches_in r s = []))"

definition regexp_law :: "'m regexp_lib \<Rightarrow> bool" where
  "regexp_law L \<longleftrightarrow> (\<forall>p r. pattern_meaning p = Some r \<longrightarrow> answers L p r)"

lemma answersD:
  assumes "regexp_law L" and "pattern_meaning p = Some r"
  shows "fst (must_compile L p m)" "fst (re_match L p s m) = occurs r s"
    "fst (re_match_string L p s m) = occurs r s" "fst (re_find L p s m) = text_match r s"
    "fst (re_find_string L p s m) = text_match r s" "fst (re_find_submatch L p a s m) = submatches r s"
    "fst (re_find_string_submatch L p a s m) = submatches r s"
    "snd (fst (re_find_all L p a s (- 1) m)) = length (matches_in r s)"
    "fst (fst (re_find_all L p a s (- 1) m)) = 0 \<longleftrightarrow> matches_in r s = []"
  using assms unfolding regexp_law_def answers_def by blast+

section \<open>A package that keeps the law\<close>

definition rx_of :: "string \<Rightarrow> rx" where
  "rx_of p = (case pattern_meaning p of None \<Rightarrow> Eps | Some r \<Rightarrow> r)"

definition ref_regexp :: "unit regexp_lib" where
  "ref_regexp = \<lparr>must_compile = (\<lambda>p m. (pattern_meaning p \<noteq> None, 9, m)), re_compile = (\<lambda>p m. (True, 9, m)),
     re_free = (\<lambda>p m. ((), 3, m)),
     re_match = (\<lambda>p s m. (occurs (rx_of p) s, 9, m)), re_match_string = (\<lambda>p s m. (occurs (rx_of p) s, 9, m)),
     re_find = (\<lambda>p s m. (text_match (rx_of p) s, 9, m)), re_find_string = (\<lambda>p s m. (text_match (rx_of p) s, 9, m)),
     re_find_all = (\<lambda>p a s n m. let ms = matches_in (rx_of p) s
       in ((if ms = [] then 0 else 8, length ms), 9, m)),
     re_find_submatch = (\<lambda>p a s m. (submatches (rx_of p) s, 9, m)),
     re_find_string_submatch = (\<lambda>p a s m. (submatches (rx_of p) s, 9, m)),
     re_replace_all_string = (\<lambda>p a s r m. (8, 9, m)), re_quote_meta = (\<lambda>a s m. (8, 9, m))\<rparr>"

lemma ref_regexp_law: "regexp_law ref_regexp"
proof -
  have "rx_of p = r" if "pattern_meaning p = Some r" for p r using that by (simp add: rx_of_def)
  then show ?thesis
    by (simp add: regexp_law_def answers_def ref_regexp_def Let_def)
qed

end
