(* ===== verification/Regexp_Bench.thy ===== *)
theory Regexp_Bench
  imports Regexp_Lib
begin

unbundle bit_operations_syntax

text \<open>
  \<open>bench/regexp_bench.c\<close>: the texts that are searched, which the program builds, and every row with
  the checks that abort. What the rows answer rests on the meaning of their patterns in
  \<open>Regexp_Lib\<close>.
\<close>

section \<open>Inputs\<close>

definition must :: "'m regexp_lib \<Rightarrow> string \<Rightarrow> (string \<Rightarrow> 'm cstmt) \<Rightarrow> 'm cstmt" where
  "must L pat k = calling (must_compile L pat) (\<lambda>ok. if ok then k (bench_hide pat) else aborting)"

text \<open>\<open>s\<close> copied \<open>n\<close> times, one after the other.\<close>

fun repeat :: "string \<Rightarrow> nat \<Rightarrow> string" where
  "repeat s 0 = []"
| "repeat s (Suc n) = repeat s n @ s"

text \<open>The state of the generator from one byte to the next, and the byte.\<close>

definition text_step :: "u32 \<Rightarrow> u32" where
  "text_step x = (let x = x + x; x = x XOR 1 in if sint x < 0 then x XOR 0x88888eef else x)"

definition text_byte :: "u32 \<Rightarrow> char" where
  "text_byte x = (if x mod 31 = 0 then CHR 0x0A else char_of (unat (x mod (0x7E + 1 - 0x20) + 0x20)))"

fun text_from :: "nat \<Rightarrow> u32 \<Rightarrow> string" where
  "text_from 0 x = []"
| "text_from (Suc n) x = (let x = text_step x in text_byte x # text_from n x)"

definition make_text :: "nat \<Rightarrow> string" where
  "make_text n = text_from n (NOT 0)"

section \<open>Finding\<close>

definition bench_regexp_find :: "'m regexp_lib \<Rightarrow> 'm cstmt" where
  "bench_regexp_find L = must L ''a+b+'' (\<lambda>re. block [
     bench_loop (\<lambda>_. calling (re_find L re ''acbbaaabbdd'') (\<lambda>m. if length m \<noteq> 5 then aborting else Some)),
     call_op (re_free L re)])"

definition bench_regexp_find_all_no_matches :: "'m host \<Rightarrow> 'm arena_lib \<Rightarrow> 'm regexp_lib \<Rightarrow> 'm cstmt" where
  "bench_regexp_find_all_no_matches h A L = (let a = addr h ''re.ar'' in must L ''a+b+'' (\<lambda>re. block [
     scratch_arena A a (resetting A a (calling (re_find_all L re a ''acddee'' (- 1))
       (\<lambda>(p, n). if p \<noteq> 0 then aborting else Some))),
     call_op (re_free L re)]))"

definition bench_regexp_find_all_ten_matches :: "'m host \<Rightarrow> 'm arena_lib \<Rightarrow> 'm regexp_lib \<Rightarrow> 'm cstmt" where
  "bench_regexp_find_all_ten_matches h A L = (let a = addr h ''re.ar'' in must L ''a+b+'' (\<lambda>re.
     let x = repeat ''acddeeabbax'' 10 in block [
       scratch_arena A a (resetting A a (calling (re_find_all L re a x (- 1))
         (\<lambda>(p, n). if n \<noteq> 10 then aborting else Some))),
       call_op (re_free L re)]))"

definition bench_regexp_find_string :: "'m regexp_lib \<Rightarrow> 'm cstmt" where
  "bench_regexp_find_string L = must L ''a+b+'' (\<lambda>re. block [
     bench_loop (\<lambda>_. calling (re_find_string L re ''acbbaaabbdd'') (\<lambda>m. if length m \<noteq> 5 then aborting else Some)),
     call_op (re_free L re)])"

definition bench_regexp_find_submatch :: "'m host \<Rightarrow> 'm arena_lib \<Rightarrow> 'm regexp_lib \<Rightarrow> 'm cstmt" where
  "bench_regexp_find_submatch h A L = (let a = addr h ''re.ar'' in must L ''a(a+b+)b'' (\<lambda>re. block [
     scratch_arena A a (resetting A a (calling (re_find_submatch L re a ''acbbaaabbdd'')
       (\<lambda>m. if length m \<noteq> 2 \<or> length (m ! 0) \<noteq> 5 \<or> length (m ! 1) \<noteq> 3 then aborting else Some))),
     call_op (re_free L re)]))"

definition bench_regexp_find_string_submatch :: "'m host \<Rightarrow> 'm arena_lib \<Rightarrow> 'm regexp_lib \<Rightarrow> 'm cstmt" where
  "bench_regexp_find_string_submatch h A L = (let a = addr h ''re.ar'' in must L ''a(a+b+)b'' (\<lambda>re. block [
     scratch_arena A a (resetting A a (calling (re_find_string_submatch L re a ''acbbaaabbdd'')
       (\<lambda>m. if length m \<noteq> 2 \<or> length (m ! 0) \<noteq> 5 \<or> length (m ! 1) \<noteq> 3 then aborting else Some))),
     call_op (re_free L re)]))"

definition match_string :: "'m regexp_lib \<Rightarrow> string \<Rightarrow> string \<Rightarrow> nat \<Rightarrow> string \<Rightarrow> 'm cstmt" where
  "match_string L pat unit_text n tail = must L pat (\<lambda>re. let x = repeat unit_text n @ tail in block [
     bench_loop (\<lambda>_. calling (re_match_string L re x) (\<lambda>ok. if \<not> ok then aborting else Some)),
     call_op (re_free L re)])"

definition bench_regexp_literal :: "'m regexp_lib \<Rightarrow> 'm cstmt" where
  "bench_regexp_literal L = match_string L ''y'' ''x'' 50 ''y''"

definition bench_regexp_not_literal :: "'m regexp_lib \<Rightarrow> 'm cstmt" where
  "bench_regexp_not_literal L = match_string L ''.y'' ''x'' 50 ''y''"

definition bench_regexp_match_class :: "'m regexp_lib \<Rightarrow> 'm cstmt" where
  "bench_regexp_match_class L = match_string L ''[abcdw]'' ''xxxx'' 20 ''w''"

definition bench_regexp_match_class_in_range :: "'m regexp_lib \<Rightarrow> 'm cstmt" where
  "bench_regexp_match_class_in_range L = match_string L ''[ac]'' ''bbbb'' 20 ''c''"

definition bench_regexp_replace_all :: "'m host \<Rightarrow> 'm arena_lib \<Rightarrow> 'm regexp_lib \<Rightarrow> 'm cstmt" where
  "bench_regexp_replace_all h A L = (let a = addr h ''re.ar'' in must L ''[cjrw]'' (\<lambda>re. block [
     scratch_arena A a (resetting A a (calling (re_replace_all_string L re a ''abcdefghijklmnopqrstuvwxyz'' [])
       keep)),
     call_op (re_free L re)]))"

section \<open>Matching without a check\<close>

definition match_bytes :: "'m regexp_lib \<Rightarrow> string \<Rightarrow> string \<Rightarrow> bool \<Rightarrow> 'm cstmt" where
  "match_bytes L pat txt long_text = must L pat (\<lambda>re.
     let x = if long_text then repeat txt (2 ^ 15) else repeat txt 1 in block [
       bench_loop (\<lambda>_. calling (re_match L re x) (\<lambda>ok. keep_u64 (if ok then 1 else 0))),
       call_op (re_free L re)])"

definition bench_regexp_anchored_literal_short_non_match :: "'m regexp_lib \<Rightarrow> 'm cstmt" where
  "bench_regexp_anchored_literal_short_non_match L = match_bytes L ''^zbc(d|e)'' ALPHABET False"

definition bench_regexp_anchored_literal_long_non_match :: "'m regexp_lib \<Rightarrow> 'm cstmt" where
  "bench_regexp_anchored_literal_long_non_match L = match_bytes L ''^zbc(d|e)'' ALPHABET True"

definition bench_regexp_anchored_short_match :: "'m regexp_lib \<Rightarrow> 'm cstmt" where
  "bench_regexp_anchored_short_match L = match_bytes L ''^.bc(d|e)'' ALPHABET False"

definition bench_regexp_anchored_long_match :: "'m regexp_lib \<Rightarrow> 'm cstmt" where
  "bench_regexp_anchored_long_match L = match_bytes L ''^.bc(d|e)'' ALPHABET True"

definition bench_regexp_onepass_short_a :: "'m regexp_lib \<Rightarrow> 'm cstmt" where
  "bench_regexp_onepass_short_a L = match_bytes L ''^.bc(d|e)*$'' ''abcddddddeeeededd'' False"

definition bench_regexp_not_onepass_short_a :: "'m regexp_lib \<Rightarrow> 'm cstmt" where
  "bench_regexp_not_onepass_short_a L = match_bytes L ''.bc(d|e)*$'' ''abcddddddeeeededd'' False"

definition bench_regexp_onepass_short_b :: "'m regexp_lib \<Rightarrow> 'm cstmt" where
  "bench_regexp_onepass_short_b L = match_bytes L ''^.bc(?:d|e)*$'' ''abcddddddeeeededd'' False"

definition bench_regexp_not_onepass_short_b :: "'m regexp_lib \<Rightarrow> 'm cstmt" where
  "bench_regexp_not_onepass_short_b L = match_bytes L ''.bc(?:d|e)*$'' ''abcddddddeeeededd'' False"

definition bench_regexp_onepass_long_prefix :: "'m regexp_lib \<Rightarrow> 'm cstmt" where
  "bench_regexp_onepass_long_prefix L = match_bytes L ''^abcdefghijklmnopqrstuvwxyz.*$'' ALPHABET False"

definition bench_regexp_onepass_long_not_prefix :: "'m regexp_lib \<Rightarrow> 'm cstmt" where
  "bench_regexp_onepass_long_not_prefix L = match_bytes L ''^.bcdefghijklmnopqrstuvwxyz.*$'' ALPHABET False"

definition quote_meta :: "'m host \<Rightarrow> 'm arena_lib \<Rightarrow> 'm regexp_lib \<Rightarrow> string \<Rightarrow> 'm cstmt" where
  "quote_meta h A L s = (let a = addr h ''re.ar''; s = bench_hide s in
     scratch_arena A a (resetting A a (calling (re_quote_meta L a s) keep)))"

definition bench_regexp_quote_meta_all :: "'m host \<Rightarrow> 'm arena_lib \<Rightarrow> 'm regexp_lib \<Rightarrow> 'm cstmt" where
  "bench_regexp_quote_meta_all h A L = quote_meta h A L (''$()*+.?['' @ [CHR 0x5C] @ '']^{|}'')"

definition bench_regexp_quote_meta_none :: "'m host \<Rightarrow> 'm arena_lib \<Rightarrow> 'm regexp_lib \<Rightarrow> 'm cstmt" where
  "bench_regexp_quote_meta_none h A L = quote_meta h A L ALPHABET"

section \<open>Compiling\<close>

definition compile :: "'m regexp_lib \<Rightarrow> string \<Rightarrow> 'm cstmt" where
  "compile L pat = bench_loop (\<lambda>_. calling (re_compile L pat) (\<lambda>ok.
     if \<not> ok then aborting else call_op (re_free L pat)))"

definition bench_regexp_compile_onepass :: "'m regexp_lib \<Rightarrow> 'm cstmt" where
  "bench_regexp_compile_onepass L = compile L ''^a.[l-nA-Cg-j]?e$''"

definition bench_regexp_compile_medium :: "'m regexp_lib \<Rightarrow> 'm cstmt" where
  "bench_regexp_compile_medium L = compile L (''^((a|b|[d-z0-9])*('' @ [CHR 0xE6, CHR 0x97, CHR 0xA5] @ ''){4,5}.)+$'')"

definition bench_regexp_compile_hard :: "'m regexp_lib \<Rightarrow> 'm cstmt" where
  "bench_regexp_compile_hard L = (let opening = repeat ''((abc)*|'' 50; closing = repeat '')'' 50 in
     compile L (opening @ closing))"

section \<open>Matching a text of the generator\<close>

definition match_data :: "'m regexp_lib \<Rightarrow> string \<Rightarrow> nat \<Rightarrow> 'm cstmt" where
  "match_data L pat n = must L pat (\<lambda>re. let t = make_text n in block [
     bench_loop (\<lambda>_. calling (re_match L re t) (\<lambda>ok. if ok then aborting else Some)),
     call_op (re_free L re)])"

definition match_onepass :: "'m regexp_lib \<Rightarrow> nat \<Rightarrow> 'm cstmt" where
  "match_onepass L n = must L (''(?s)'' @ [CHR 0x5C] @ ''A.*'' @ [CHR 0x5C] @ ''z'') (\<lambda>re.
     let t = make_text n in block [
       bench_loop (\<lambda>_. calling (re_match L re t) (\<lambda>ok. if \<not> ok then aborting else Some)),
       call_op (re_free L re)])"

definition bench_regexp_match_easy0_16 :: "'m regexp_lib \<Rightarrow> 'm cstmt" where
  "bench_regexp_match_easy0_16 L = match_data L ''ABCDEFGHIJKLMNOPQRSTUVWXYZ$'' 16"

definition bench_regexp_match_easy0_32 :: "'m regexp_lib \<Rightarrow> 'm cstmt" where
  "bench_regexp_match_easy0_32 L = match_data L ''ABCDEFGHIJKLMNOPQRSTUVWXYZ$'' 32"

definition bench_regexp_match_easy0_1k :: "'m regexp_lib \<Rightarrow> 'm cstmt" where
  "bench_regexp_match_easy0_1k L = match_data L ''ABCDEFGHIJKLMNOPQRSTUVWXYZ$'' 1024"

definition bench_regexp_match_easy0_32k :: "'m regexp_lib \<Rightarrow> 'm cstmt" where
  "bench_regexp_match_easy0_32k L = match_data L ''ABCDEFGHIJKLMNOPQRSTUVWXYZ$'' 32768"

definition bench_regexp_match_easy0_1m :: "'m regexp_lib \<Rightarrow> 'm cstmt" where
  "bench_regexp_match_easy0_1m L = match_data L ''ABCDEFGHIJKLMNOPQRSTUVWXYZ$'' 1048576"

definition bench_regexp_match_easy0i_16 :: "'m regexp_lib \<Rightarrow> 'm cstmt" where
  "bench_regexp_match_easy0i_16 L = match_data L ''(?i)ABCDEFGHIJklmnopqrstuvwxyz$'' 16"

definition bench_regexp_match_easy0i_32 :: "'m regexp_lib \<Rightarrow> 'm cstmt" where
  "bench_regexp_match_easy0i_32 L = match_data L ''(?i)ABCDEFGHIJklmnopqrstuvwxyz$'' 32"

definition bench_regexp_match_easy0i_1k :: "'m regexp_lib \<Rightarrow> 'm cstmt" where
  "bench_regexp_match_easy0i_1k L = match_data L ''(?i)ABCDEFGHIJklmnopqrstuvwxyz$'' 1024"

definition bench_regexp_match_easy0i_32k :: "'m regexp_lib \<Rightarrow> 'm cstmt" where
  "bench_regexp_match_easy0i_32k L = match_data L ''(?i)ABCDEFGHIJklmnopqrstuvwxyz$'' 32768"

definition bench_regexp_match_easy0i_1m :: "'m regexp_lib \<Rightarrow> 'm cstmt" where
  "bench_regexp_match_easy0i_1m L = match_data L ''(?i)ABCDEFGHIJklmnopqrstuvwxyz$'' 1048576"

definition bench_regexp_match_easy1_16 :: "'m regexp_lib \<Rightarrow> 'm cstmt" where
  "bench_regexp_match_easy1_16 L = match_data L ''A[AB]B[BC]C[CD]D[DE]E[EF]F[FG]G[GH]H[HI]I[IJ]J$'' 16"

definition bench_regexp_match_easy1_32 :: "'m regexp_lib \<Rightarrow> 'm cstmt" where
  "bench_regexp_match_easy1_32 L = match_data L ''A[AB]B[BC]C[CD]D[DE]E[EF]F[FG]G[GH]H[HI]I[IJ]J$'' 32"

definition bench_regexp_match_easy1_1k :: "'m regexp_lib \<Rightarrow> 'm cstmt" where
  "bench_regexp_match_easy1_1k L = match_data L ''A[AB]B[BC]C[CD]D[DE]E[EF]F[FG]G[GH]H[HI]I[IJ]J$'' 1024"

definition bench_regexp_match_easy1_32k :: "'m regexp_lib \<Rightarrow> 'm cstmt" where
  "bench_regexp_match_easy1_32k L = match_data L ''A[AB]B[BC]C[CD]D[DE]E[EF]F[FG]G[GH]H[HI]I[IJ]J$'' 32768"

definition bench_regexp_match_easy1_1m :: "'m regexp_lib \<Rightarrow> 'm cstmt" where
  "bench_regexp_match_easy1_1m L = match_data L ''A[AB]B[BC]C[CD]D[DE]E[EF]F[FG]G[GH]H[HI]I[IJ]J$'' 1048576"

definition bench_regexp_match_medium_16 :: "'m regexp_lib \<Rightarrow> 'm cstmt" where
  "bench_regexp_match_medium_16 L = match_data L ''[XYZ]ABCDEFGHIJKLMNOPQRSTUVWXYZ$'' 16"

definition bench_regexp_match_medium_32 :: "'m regexp_lib \<Rightarrow> 'm cstmt" where
  "bench_regexp_match_medium_32 L = match_data L ''[XYZ]ABCDEFGHIJKLMNOPQRSTUVWXYZ$'' 32"

definition bench_regexp_match_medium_1k :: "'m regexp_lib \<Rightarrow> 'm cstmt" where
  "bench_regexp_match_medium_1k L = match_data L ''[XYZ]ABCDEFGHIJKLMNOPQRSTUVWXYZ$'' 1024"

definition bench_regexp_match_medium_32k :: "'m regexp_lib \<Rightarrow> 'm cstmt" where
  "bench_regexp_match_medium_32k L = match_data L ''[XYZ]ABCDEFGHIJKLMNOPQRSTUVWXYZ$'' 32768"

definition bench_regexp_match_medium_1m :: "'m regexp_lib \<Rightarrow> 'm cstmt" where
  "bench_regexp_match_medium_1m L = match_data L ''[XYZ]ABCDEFGHIJKLMNOPQRSTUVWXYZ$'' 1048576"

definition bench_regexp_match_hard_16 :: "'m regexp_lib \<Rightarrow> 'm cstmt" where
  "bench_regexp_match_hard_16 L = match_data L ''[ -~]*ABCDEFGHIJKLMNOPQRSTUVWXYZ$'' 16"

definition bench_regexp_match_hard_32 :: "'m regexp_lib \<Rightarrow> 'm cstmt" where
  "bench_regexp_match_hard_32 L = match_data L ''[ -~]*ABCDEFGHIJKLMNOPQRSTUVWXYZ$'' 32"

definition bench_regexp_match_hard_1k :: "'m regexp_lib \<Rightarrow> 'm cstmt" where
  "bench_regexp_match_hard_1k L = match_data L ''[ -~]*ABCDEFGHIJKLMNOPQRSTUVWXYZ$'' 1024"

definition bench_regexp_match_hard_32k :: "'m regexp_lib \<Rightarrow> 'm cstmt" where
  "bench_regexp_match_hard_32k L = match_data L ''[ -~]*ABCDEFGHIJKLMNOPQRSTUVWXYZ$'' 32768"

definition bench_regexp_match_hard_1m :: "'m regexp_lib \<Rightarrow> 'm cstmt" where
  "bench_regexp_match_hard_1m L = match_data L ''[ -~]*ABCDEFGHIJKLMNOPQRSTUVWXYZ$'' 1048576"

definition bench_regexp_match_hard1_16 :: "'m regexp_lib \<Rightarrow> 'm cstmt" where
  "bench_regexp_match_hard1_16 L = match_data L ''ABCD|CDEF|EFGH|GHIJ|IJKL|KLMN|MNOP|OPQR|QRST|STUV|UVWX|WXYZ'' 16"

definition bench_regexp_match_hard1_32 :: "'m regexp_lib \<Rightarrow> 'm cstmt" where
  "bench_regexp_match_hard1_32 L = match_data L ''ABCD|CDEF|EFGH|GHIJ|IJKL|KLMN|MNOP|OPQR|QRST|STUV|UVWX|WXYZ'' 32"

definition bench_regexp_match_hard1_1k :: "'m regexp_lib \<Rightarrow> 'm cstmt" where
  "bench_regexp_match_hard1_1k L = match_data L ''ABCD|CDEF|EFGH|GHIJ|IJKL|KLMN|MNOP|OPQR|QRST|STUV|UVWX|WXYZ'' 1024"

definition bench_regexp_match_hard1_32k :: "'m regexp_lib \<Rightarrow> 'm cstmt" where
  "bench_regexp_match_hard1_32k L = match_data L ''ABCD|CDEF|EFGH|GHIJ|IJKL|KLMN|MNOP|OPQR|QRST|STUV|UVWX|WXYZ'' 32768"

definition bench_regexp_match_hard1_1m :: "'m regexp_lib \<Rightarrow> 'm cstmt" where
  "bench_regexp_match_hard1_1m L = match_data L ''ABCD|CDEF|EFGH|GHIJ|IJKL|KLMN|MNOP|OPQR|QRST|STUV|UVWX|WXYZ'' 1048576"

definition bench_regexp_match_onepass_regex_16 :: "'m regexp_lib \<Rightarrow> 'm cstmt" where
  "bench_regexp_match_onepass_regex_16 L = match_onepass L 16"

definition bench_regexp_match_onepass_regex_32 :: "'m regexp_lib \<Rightarrow> 'm cstmt" where
  "bench_regexp_match_onepass_regex_32 L = match_onepass L 32"

definition bench_regexp_match_onepass_regex_1k :: "'m regexp_lib \<Rightarrow> 'm cstmt" where
  "bench_regexp_match_onepass_regex_1k L = match_onepass L 1024"

definition bench_regexp_match_onepass_regex_32k :: "'m regexp_lib \<Rightarrow> 'm cstmt" where
  "bench_regexp_match_onepass_regex_32k L = match_onepass L 32768"

definition bench_regexp_match_onepass_regex_1m :: "'m regexp_lib \<Rightarrow> 'm cstmt" where
  "bench_regexp_match_onepass_regex_1m L = match_onepass L 1048576"

definition regexp_table :: "'m host \<Rightarrow> 'm arena_lib \<Rightarrow> 'm regexp_lib \<Rightarrow> (string \<times> 'm cstmt) list" where
  "regexp_table h A L = [
     (''regexp_find'', bench_regexp_find L),
     (''regexp_find_all_no_matches'', bench_regexp_find_all_no_matches h A L),
     (''regexp_find_all_ten_matches'', bench_regexp_find_all_ten_matches h A L),
     (''regexp_find_string'', bench_regexp_find_string L),
     (''regexp_find_submatch'', bench_regexp_find_submatch h A L),
     (''regexp_find_string_submatch'', bench_regexp_find_string_submatch h A L),
     (''regexp_literal'', bench_regexp_literal L),
     (''regexp_not_literal'', bench_regexp_not_literal L),
     (''regexp_match_class'', bench_regexp_match_class L),
     (''regexp_match_class_in_range'', bench_regexp_match_class_in_range L),
     (''regexp_replace_all'', bench_regexp_replace_all h A L),
     (''regexp_anchored_literal_short_non_match'', bench_regexp_anchored_literal_short_non_match L),
     (''regexp_anchored_literal_long_non_match'', bench_regexp_anchored_literal_long_non_match L),
     (''regexp_anchored_short_match'', bench_regexp_anchored_short_match L),
     (''regexp_anchored_long_match'', bench_regexp_anchored_long_match L),
     (''regexp_onepass_short_a'', bench_regexp_onepass_short_a L),
     (''regexp_not_onepass_short_a'', bench_regexp_not_onepass_short_a L),
     (''regexp_onepass_short_b'', bench_regexp_onepass_short_b L),
     (''regexp_not_onepass_short_b'', bench_regexp_not_onepass_short_b L),
     (''regexp_onepass_long_prefix'', bench_regexp_onepass_long_prefix L),
     (''regexp_onepass_long_not_prefix'', bench_regexp_onepass_long_not_prefix L),
     (''regexp_quote_meta_all'', bench_regexp_quote_meta_all h A L),
     (''regexp_quote_meta_none'', bench_regexp_quote_meta_none h A L),
     (''regexp_compile_onepass'', bench_regexp_compile_onepass L),
     (''regexp_compile_medium'', bench_regexp_compile_medium L),
     (''regexp_compile_hard'', bench_regexp_compile_hard L),
     (''regexp_match_easy0_16'', bench_regexp_match_easy0_16 L),
     (''regexp_match_easy0_32'', bench_regexp_match_easy0_32 L),
     (''regexp_match_easy0_1k'', bench_regexp_match_easy0_1k L),
     (''regexp_match_easy0_32k'', bench_regexp_match_easy0_32k L),
     (''regexp_match_easy0_1m'', bench_regexp_match_easy0_1m L),
     (''regexp_match_easy0i_16'', bench_regexp_match_easy0i_16 L),
     (''regexp_match_easy0i_32'', bench_regexp_match_easy0i_32 L),
     (''regexp_match_easy0i_1k'', bench_regexp_match_easy0i_1k L),
     (''regexp_match_easy0i_32k'', bench_regexp_match_easy0i_32k L),
     (''regexp_match_easy0i_1m'', bench_regexp_match_easy0i_1m L),
     (''regexp_match_easy1_16'', bench_regexp_match_easy1_16 L),
     (''regexp_match_easy1_32'', bench_regexp_match_easy1_32 L),
     (''regexp_match_easy1_1k'', bench_regexp_match_easy1_1k L),
     (''regexp_match_easy1_32k'', bench_regexp_match_easy1_32k L),
     (''regexp_match_easy1_1m'', bench_regexp_match_easy1_1m L),
     (''regexp_match_medium_16'', bench_regexp_match_medium_16 L),
     (''regexp_match_medium_32'', bench_regexp_match_medium_32 L),
     (''regexp_match_medium_1k'', bench_regexp_match_medium_1k L),
     (''regexp_match_medium_32k'', bench_regexp_match_medium_32k L),
     (''regexp_match_medium_1m'', bench_regexp_match_medium_1m L),
     (''regexp_match_hard_16'', bench_regexp_match_hard_16 L),
     (''regexp_match_hard_32'', bench_regexp_match_hard_32 L),
     (''regexp_match_hard_1k'', bench_regexp_match_hard_1k L),
     (''regexp_match_hard_32k'', bench_regexp_match_hard_32k L),
     (''regexp_match_hard_1m'', bench_regexp_match_hard_1m L),
     (''regexp_match_hard1_16'', bench_regexp_match_hard1_16 L),
     (''regexp_match_hard1_32'', bench_regexp_match_hard1_32 L),
     (''regexp_match_hard1_1k'', bench_regexp_match_hard1_1k L),
     (''regexp_match_hard1_32k'', bench_regexp_match_hard1_32k L),
     (''regexp_match_hard1_1m'', bench_regexp_match_hard1_1m L),
     (''regexp_match_onepass_regex_16'', bench_regexp_match_onepass_regex_16 L),
     (''regexp_match_onepass_regex_32'', bench_regexp_match_onepass_regex_32 L),
     (''regexp_match_onepass_regex_1k'', bench_regexp_match_onepass_regex_1k L),
     (''regexp_match_onepass_regex_32k'', bench_regexp_match_onepass_regex_32k L),
     (''regexp_match_onepass_regex_1m'', bench_regexp_match_onepass_regex_1m L)]"

section \<open>The contract\<close>

lemma must_moves [contract_rules]:
  "(\<And>re. does (advances clock) (k re)) \<Longrightarrow> does (advances clock) (must L pat k)"
  unfolding must_def by (auto intro!: contract_rules)

lemma regexp_parts_move [contract_rules]:
  "does (advances clock) (match_string L pat u n tail)" "does (advances clock) (match_bytes L pat txt lng)"
  "does (advances clock) (quote_meta h A L s)" "does (advances clock) (compile L pat)"
  "does (advances clock) (match_data L pat n)" "does (advances clock) (match_onepass L n)"
  unfolding match_string_def match_bytes_def quote_meta_def compile_def match_data_def match_onepass_def Let_def
  by (auto intro!: contract_rules simp del: block.simps)

lemmas regexp_bodies =
  bench_regexp_find_def
  bench_regexp_find_all_no_matches_def
  bench_regexp_find_all_ten_matches_def
  bench_regexp_find_string_def
  bench_regexp_find_submatch_def
  bench_regexp_find_string_submatch_def
  bench_regexp_literal_def
  bench_regexp_not_literal_def
  bench_regexp_match_class_def
  bench_regexp_match_class_in_range_def
  bench_regexp_replace_all_def
  bench_regexp_anchored_literal_short_non_match_def
  bench_regexp_anchored_literal_long_non_match_def
  bench_regexp_anchored_short_match_def
  bench_regexp_anchored_long_match_def
  bench_regexp_onepass_short_a_def
  bench_regexp_not_onepass_short_a_def
  bench_regexp_onepass_short_b_def
  bench_regexp_not_onepass_short_b_def
  bench_regexp_onepass_long_prefix_def
  bench_regexp_onepass_long_not_prefix_def
  bench_regexp_quote_meta_all_def
  bench_regexp_quote_meta_none_def
  bench_regexp_compile_onepass_def
  bench_regexp_compile_medium_def
  bench_regexp_compile_hard_def
  bench_regexp_match_easy0_16_def
  bench_regexp_match_easy0_32_def
  bench_regexp_match_easy0_1k_def
  bench_regexp_match_easy0_32k_def
  bench_regexp_match_easy0_1m_def
  bench_regexp_match_easy0i_16_def
  bench_regexp_match_easy0i_32_def
  bench_regexp_match_easy0i_1k_def
  bench_regexp_match_easy0i_32k_def
  bench_regexp_match_easy0i_1m_def
  bench_regexp_match_easy1_16_def
  bench_regexp_match_easy1_32_def
  bench_regexp_match_easy1_1k_def
  bench_regexp_match_easy1_32k_def
  bench_regexp_match_easy1_1m_def
  bench_regexp_match_medium_16_def
  bench_regexp_match_medium_32_def
  bench_regexp_match_medium_1k_def
  bench_regexp_match_medium_32k_def
  bench_regexp_match_medium_1m_def
  bench_regexp_match_hard_16_def
  bench_regexp_match_hard_32_def
  bench_regexp_match_hard_1k_def
  bench_regexp_match_hard_32k_def
  bench_regexp_match_hard_1m_def
  bench_regexp_match_hard1_16_def
  bench_regexp_match_hard1_32_def
  bench_regexp_match_hard1_1k_def
  bench_regexp_match_hard1_32k_def
  bench_regexp_match_hard1_1m_def
  bench_regexp_match_onepass_regex_16_def
  bench_regexp_match_onepass_regex_32_def
  bench_regexp_match_onepass_regex_1k_def
  bench_regexp_match_onepass_regex_32k_def
  bench_regexp_match_onepass_regex_1m_def

lemma regexp_table_moves:
  "(nm, f) \<in> set (regexp_table h A L) \<Longrightarrow> does (advances clock) f"
  unfolding regexp_table_def regexp_bodies Let_def
  by (auto simp: split_beta intro!: contract_rules simp del: block.simps)

section \<open>The texts\<close>

text \<open>
  The texts of the generator have the length asked for and are printable ASCII with newlines, so
  no byte of them ends a C string or leaves the range of a byte.
\<close>

lemma text_byte_printable: "text_byte x = CHR 0x0A \<or> in_range (CHR 0x20) (CHR 0x7E) (text_byte x)"
proof -
  have "unat (x mod 95) < 95" using word_mod_less_divisor [of 95 x] by (simp add: word_less_nat_alt)
  then have "unat (x mod 95 + 0x20) = unat (x mod 95) + 32" by (simp add: unat_word_ariths unat_mod)
  with \<open>unat (x mod 95) < 95\<close> show ?thesis
    by (simp add: text_byte_def in_range_def of_char_of take_bit_eq_mod)
qed

lemma text_from_shape:
  "length (text_from n x) = n \<and> (\<forall>c \<in> set (text_from n x). c = CHR 0x0A \<or> in_range (CHR 0x20) (CHR 0x7E) c)"
  using text_byte_printable by (induction n arbitrary: x) (auto simp: Let_def)

lemma make_text_shape:
  "length (make_text n) = n" "c \<in> set (make_text n) \<Longrightarrow> c = CHR 0x0A \<or> in_range (CHR 0x20) (CHR 0x7E) c"
  using text_from_shape [of n "NOT 0"] unfolding make_text_def by blast+

lemma make_text_16: "make_text 16 = ''c(6@aDiT*5KwpbFm''"
  by code_simp

lemma repeat_first: "0 < n \<Longrightarrow> repeat s n = s @ repeat s (n - 1)"
proof (induction n)
  case (Suc n)
  then show ?case by (cases n) simp_all
qed simp

section \<open>The rows by their patterns\<close>

lemma gives_must:
  assumes "regexp_law L" and "pattern_meaning p = Some r" and "gives g (k p)"
  shows "gives g (must L p k)"
  unfolding must_def by (rule gives_calling) (simp add: answersD(1) [OF assms(1,2)] bench_hide_def assms(3))

lemma match_string_row:
  assumes "regexp_law L" and "pattern_meaning p = Some r" and "occurs r (repeat u n @ tail)"
  shows "gives (\<lambda>_. []) (match_string L p u n tail)"
  unfolding match_string_def Let_def
  by (intro gives_must [OF assms(1,2)] gives_after gives_loop_none gives_calling)
    (simp_all add: answersD(3) [OF assms(1,2)] assms(3) gives_Some gives_call_op)

lemma match_bytes_row:
  assumes "regexp_law L" and "pattern_meaning p = Some r"
  shows "gives (\<lambda>n. replicate (nat n) (KeptU64 (if occurs r (repeat txt (if lng then 2 ^ 15 else 1)) then 1 else 0)))
    (match_bytes L p txt lng)"
proof -
  let ?x = "repeat txt (if lng then 2 ^ 15 else 1)"
  have x: "(if lng then repeat txt (2 ^ 15) else repeat txt 1) = ?x" by simp
  show ?thesis
    unfolding match_bytes_def Let_def x
    by (intro gives_must [OF assms] gives_first gives_loop_same gives_calling)
      (simp_all only: answersD(2) [OF assms] gives_keeps gives_Some block_Nil_eq bench_hide_def)
qed

lemma match_data_row:
  assumes "regexp_law L" and "pattern_meaning p = Some r" and "\<not> occurs r (make_text n)"
  shows "gives (\<lambda>_. []) (match_data L p n)"
  unfolding match_data_def Let_def
  by (intro gives_must [OF assms(1,2)] gives_after gives_loop_none gives_calling)
    (simp_all add: answersD(2) [OF assms(1,2)] assms(3) gives_Some gives_call_op)

lemma match_data_aborts:
  assumes "regexp_law L" and "pattern_meaning p = Some r" and "occurs r (make_text n)" and "0 < b_n (bch w)"
  shows "match_data L p n w = None"
proof -
  let ?v = "snd (call (lib (must_compile L p)) w)"
  have "bench_loop (\<lambda>_. calling (re_match L p (make_text n)) (\<lambda>ok. if ok then aborting else Some)) ?v = None"
    by (rule abort_loop) (simp_all add: calling_def split_beta answersD(2) [OF assms(1,2)] assms(3,4) aborting_def)
  then show ?thesis
    by (simp add: match_data_def must_def calling_def split_beta Let_def bench_hide_def answersD(1) [OF assms(1,2)])
qed

section \<open>Matches\<close>

lemma search_after_bol: "0 < i \<Longrightarrow> search (Seq Bol r) i s = None"
  by (induction s arbitrary: i) (simp_all add: search.simps)

lemma occurs_bol: "occurs (Seq Bol r) s \<longleftrightarrow> ends r (0, s) \<noteq> []"
  unfolding occurs_def
  by (subst search.simps) (auto simp: search_after_bol split: list.splits)

lemma anything_ends: "length s \<le> k \<Longrightarrow> ((i + length s, []), []) \<in> set (star_ends k (ends (One (\<lambda>_. True))) (i, s))"
proof (induction s arbitrary: i k)
  case Nil
  then show ?case by (cases k) simp_all
next
  case (Cons x s)
  then obtain k' where "k = Suc k'" "length s \<le> k'" by (cases k) auto
  with Cons.IH [of k' "i + 1"] show ?case by (auto simp: image_iff)
qed

lemma everything_matches: "occurs (Seq Bol (Seq (Star (One (\<lambda>_. True))) Eol)) s"
proof -
  let ?hits = "ends (Seq (Star (One (\<lambda>_. True))) Eol) (0, s)"
  have "((length s, []), []) \<in> set ?hits" using anything_ends [of s "length s" 0] by force
  then have "?hits \<noteq> []" by (metis empty_iff empty_set)
  then show ?thesis unfolding occurs_bol by simp
qed

lemma starts_with_alphabet: "repeat ALPHABET (2 ^ 15) = ALPHABET @ repeat ALPHABET (2 ^ 15 - 1)"
  by (rule repeat_first) simp

text \<open>What the program's texts contain.\<close>

lemma find_facts:
  "text_match (Seq (plus (is_char (CHR ''a''))) (plus (is_char (CHR ''b'')))) ''acbbaaabbdd'' = ''aaabb''"
  "matches_in (Seq (plus (is_char (CHR ''a''))) (plus (is_char (CHR ''b'')))) ''acddee'' = []"
  "length (matches_in (Seq (plus (is_char (CHR ''a''))) (plus (is_char (CHR ''b'')))) (repeat ''acddeeabbax'' 10)) = 10"
  "submatches (Seq (is_char (CHR ''a'')) (Seq (Grp (Seq (plus (is_char (CHR ''a''))) (plus (is_char (CHR ''b'')))))
     (is_char (CHR ''b'')))) ''acbbaaabbdd'' = [''aaabb'', ''aab'']"
  by code_simp+

lemma literal_facts:
  "occurs (is_char (CHR ''y'')) (repeat ''x'' 50 @ ''y'')"
  "occurs (Seq dot (is_char (CHR ''y''))) (repeat ''x'' 50 @ ''y'')"
  "occurs (class_of ''abcdw'') (repeat ''xxxx'' 20 @ ''w'')"
  "occurs (class_of ''ac'') (repeat ''bbbb'' 20 @ ''c'')"
  by code_simp+

lemma text_16_facts:
  "\<not> occurs (Seq (word CAPITALS) Eol) (make_text 16)"
  "\<not> occurs (Seq (any_case CAPITALS) Eol) (make_text 16)"
  "\<not> occurs easy1 (make_text 16)"
  "\<not> occurs (Seq (class_of ''XYZ'') (Seq (word CAPITALS) Eol)) (make_text 16)"
  "\<not> occurs (Seq (Star (One (in_range (CHR 0x20) (CHR 0x7E)))) (Seq (word CAPITALS) Eol)) (make_text 16)"
  "\<not> occurs (alternatives (map word [''ABCD'', ''CDEF'', ''EFGH'', ''GHIJ'', ''IJKL'', ''KLMN'', ''MNOP'', ''OPQR'',
     ''QRST'', ''STUV'', ''UVWX'', ''WXYZ''])) (make_text 16)"
  unfolding make_text_16 by code_simp+

lemma anchored_facts:
  "\<not> occurs (Seq Bol (Seq (word ''zbc'') d_or_e)) (ALPHABET @ s)"
  "occurs (Seq Bol (Seq dot (Seq (word ''bc'') d_or_e))) (ALPHABET @ s)"
  by (simp_all add: occurs_bol ALPHABET_def d_or_e_def is_char_def dot_def)

lemma onepass_facts:
  "occurs (Seq Bol (Seq dot (Seq (word ''bc'') (Seq (Star d_or_e) Eol)))) ''abcddddddeeeededd''"
  "occurs (Seq dot (Seq (word ''bc'') (Seq (Star d_or_e) Eol))) ''abcddddddeeeededd''"
  "occurs (Seq Bol (Seq dot (Seq (word ''bc'') (Seq (Star (class_of ''de'')) Eol)))) ''abcddddddeeeededd''"
  "occurs (Seq dot (Seq (word ''bc'') (Seq (Star (class_of ''de'')) Eol))) ''abcddddddeeeededd''"
  "occurs (Seq Bol (Seq (word ALPHABET) (Seq (Star dot) Eol))) ALPHABET"
  "occurs (Seq Bol (Seq dot (Seq (word (tl ALPHABET)) (Seq (Star dot) Eol)))) ALPHABET"
  by code_simp+

section \<open>What the rows answer\<close>

lemma find_rows:
  assumes "regexp_law L"
  shows "gives (\<lambda>_. []) (bench_regexp_find L)" "gives (\<lambda>_. []) (bench_regexp_find_string L)"
    "gives (\<lambda>_. []) (bench_regexp_find_all_no_matches h A L)"
    "gives (\<lambda>_. []) (bench_regexp_find_all_ten_matches h A L)"
    "gives (\<lambda>_. []) (bench_regexp_find_submatch h A L)"
    "gives (\<lambda>_. []) (bench_regexp_find_string_submatch h A L)"
proof -
  have p: "pattern_meaning ''a+b+'' = Some (Seq (plus (is_char (CHR ''a''))) (plus (is_char (CHR ''b''))))"
    "pattern_meaning ''a(a+b+)b'' = Some (Seq (is_char (CHR ''a''))
      (Seq (Grp (Seq (plus (is_char (CHR ''a''))) (plus (is_char (CHR ''b''))))) (is_char (CHR ''b''))))"
    by (simp_all add: pattern_meaning_def)
  note a = answersD [OF assms p(1)] answersD [OF assms p(2)]
  have none: "fst (fst (re_find_all L ''a+b+'' x ''acddee'' (- 1) m)) = 0" for x m
    by (simp add: a(9) find_facts)
  show "gives (\<lambda>_. []) (bench_regexp_find L)" "gives (\<lambda>_. []) (bench_regexp_find_string L)"
    unfolding bench_regexp_find_def bench_regexp_find_string_def
    by (intro gives_must [OF assms p(1)] gives_after gives_loop_none gives_calling;
      simp add: a find_facts bench_hide_def gives_Some)+
  show "gives (\<lambda>_. []) (bench_regexp_find_all_no_matches h A L)"
    "gives (\<lambda>_. []) (bench_regexp_find_all_ten_matches h A L)"
    unfolding bench_regexp_find_all_no_matches_def bench_regexp_find_all_ten_matches_def Let_def
    by (intro gives_must [OF assms p(1)] gives_after gives_scratch gives_resetting(2) gives_calling;
      simp add: split_beta none a(8) find_facts bench_hide_def gives_Some)+
  show "gives (\<lambda>_. []) (bench_regexp_find_submatch h A L)"
    "gives (\<lambda>_. []) (bench_regexp_find_string_submatch h A L)"
    unfolding bench_regexp_find_submatch_def bench_regexp_find_string_submatch_def Let_def
    by (intro gives_must [OF assms p(2)] gives_after gives_scratch gives_resetting(2) gives_calling;
      simp add: a find_facts bench_hide_def gives_Some)+
qed

lemma onepass_row:
  assumes "regexp_law L"
  shows "gives (\<lambda>_. []) (match_onepass L n)"
proof -
  have p: "pattern_meaning (''(?s)'' @ [CHR 0x5C] @ ''A.*'' @ [CHR 0x5C] @ ''z'')
      = Some (Seq Bol (Seq (Star (One (\<lambda>_. True))) Eol))" by (simp add: pattern_meaning_def)
  show ?thesis
    unfolding match_onepass_def Let_def
    by (intro gives_must [OF assms p] gives_after gives_loop_none gives_calling)
      (simp_all only: answersD(2) [OF assms p] bench_hide_def everything_matches gives_Some block_Nil_eq
        simp_thms if_False)
qed

lemma literal_rows:
  assumes "regexp_law L"
  shows "gives (\<lambda>_. []) (bench_regexp_literal L)" "gives (\<lambda>_. []) (bench_regexp_not_literal L)"
    "gives (\<lambda>_. []) (bench_regexp_match_class L)" "gives (\<lambda>_. []) (bench_regexp_match_class_in_range L)"
  unfolding bench_regexp_literal_def bench_regexp_not_literal_def bench_regexp_match_class_def
    bench_regexp_match_class_in_range_def
  by (rule match_string_row [OF assms _ literal_facts(1)], simp add: pattern_meaning_def)
    (rule match_string_row [OF assms _ literal_facts(2)], simp add: pattern_meaning_def,
     rule match_string_row [OF assms _ literal_facts(3)], simp add: pattern_meaning_def,
     rule match_string_row [OF assms _ literal_facts(4)], simp add: pattern_meaning_def)

lemma short_rows:
  assumes "regexp_law L"
  shows "gives (\<lambda>_. []) (bench_regexp_match_easy0_16 L)"
    "gives (\<lambda>_. []) (bench_regexp_match_easy0i_16 L)"
    "gives (\<lambda>_. []) (bench_regexp_match_easy1_16 L)"
    "gives (\<lambda>_. []) (bench_regexp_match_medium_16 L)"
    "gives (\<lambda>_. []) (bench_regexp_match_hard_16 L)"
    "gives (\<lambda>_. []) (bench_regexp_match_hard1_16 L)"
  unfolding bench_regexp_match_easy0_16_def bench_regexp_match_easy0i_16_def
    bench_regexp_match_easy1_16_def bench_regexp_match_medium_16_def bench_regexp_match_hard_16_def
    bench_regexp_match_hard1_16_def
  by (rule match_data_row [OF assms _ text_16_facts(1)], simp add: pattern_meaning_def, rule match_data_row [OF assms _ text_16_facts(2)], simp add: pattern_meaning_def, rule match_data_row [OF assms _ text_16_facts(3)], simp add: pattern_meaning_def, rule match_data_row [OF assms _ text_16_facts(4)], simp add: pattern_meaning_def, rule match_data_row [OF assms _ text_16_facts(5)], simp add: pattern_meaning_def, rule match_data_row [OF assms _ text_16_facts(6)], simp add: pattern_meaning_def)

text \<open>
  Functional: the checks of the rows never fire. With a matcher that gives the leftmost match, and
  there the one that a backtracking search meets first, the rows that abort on a wrong answer come
  back: \<open>a+b+\<close> matches five bytes of the text and nothing of the other one, there are ten matches in
  the tenfold text, the group of \<open>a(a+b+)b\<close> has three bytes, the literals and classes occur, the
  one pass pattern matches a text of any size, and no pattern matches the text of 16 bytes.
\<close>
theorem regexp_checks_pass:
  assumes "regexp_law L"
    and "f \<in> {bench_regexp_find L, bench_regexp_find_string L, bench_regexp_find_all_no_matches h A L,
      bench_regexp_find_all_ten_matches h A L, bench_regexp_find_submatch h A L,
      bench_regexp_find_string_submatch h A L, bench_regexp_literal L, bench_regexp_not_literal L,
      bench_regexp_match_class L, bench_regexp_match_class_in_range L, bench_regexp_match_easy0_16 L,
      bench_regexp_match_easy0i_16 L, bench_regexp_match_easy1_16 L, bench_regexp_match_medium_16 L,
      bench_regexp_match_hard_16 L, bench_regexp_match_hard1_16 L,
      bench_regexp_match_onepass_regex_16 L, bench_regexp_match_onepass_regex_32 L,
      bench_regexp_match_onepass_regex_1k L, bench_regexp_match_onepass_regex_32k L,
      bench_regexp_match_onepass_regex_1m L}"
  shows "\<exists>w'. f w = Some w' \<and> kept w' = kept w"
proof -
  have onepass: "gives (\<lambda>_. []) (bench_regexp_match_onepass_regex_16 L)"
    "gives (\<lambda>_. []) (bench_regexp_match_onepass_regex_32 L)"
    "gives (\<lambda>_. []) (bench_regexp_match_onepass_regex_1k L)"
    "gives (\<lambda>_. []) (bench_regexp_match_onepass_regex_32k L)"
    "gives (\<lambda>_. []) (bench_regexp_match_onepass_regex_1m L)"
    unfolding bench_regexp_match_onepass_regex_16_def bench_regexp_match_onepass_regex_32_def
      bench_regexp_match_onepass_regex_1k_def bench_regexp_match_onepass_regex_32k_def
      bench_regexp_match_onepass_regex_1m_def
    by (simp_all only: onepass_row [OF assms(1)])
  have "gives (\<lambda>_. []) f"
    using assms(2) by (elim insertE emptyE; hypsubst)
      (rule find_rows [OF assms(1)] literal_rows [OF assms(1)] short_rows [OF assms(1)] onepass)+
  then show ?thesis by (rule givesD [where w = w]) auto
qed

text \<open>
  Functional: the rows whose answer is thrown away. With the same law, the anchored pattern that
  begins with another letter never matches and the other patterns match, in every round and, for
  the anchored ones, also in the text of 32768 alphabets.
\<close>
theorem regexp_bytes_answer:
  assumes "regexp_law L"
    and "(f, v) \<in> {(bench_regexp_anchored_literal_short_non_match L, 0),
      (bench_regexp_anchored_literal_long_non_match L, 0), (bench_regexp_anchored_short_match L, 1),
      (bench_regexp_anchored_long_match L, 1), (bench_regexp_onepass_short_a L, 1),
      (bench_regexp_not_onepass_short_a L, 1), (bench_regexp_onepass_short_b L, 1),
      (bench_regexp_not_onepass_short_b L, 1), (bench_regexp_onepass_long_prefix L, 1),
      (bench_regexp_onepass_long_not_prefix L, 1)}"
  shows "\<exists>w'. f w = Some w' \<and> kept w' = kept w @ replicate (nat (b_n (bch w))) (KeptU64 v)"
proof -
  have row: "gives (\<lambda>n. replicate (nat n) (KeptU64 (if b then 1 else 0))) (match_bytes L p u lng)"
    if "pattern_meaning p = Some r" "occurs r (repeat u (if lng then 2 ^ 15 else 1)) = b" for p r u lng b
    using match_bytes_row [OF assms(1) that(1), of u lng] that(2) by simp
  have anchored: "occurs (Seq Bol (Seq (word ''zbc'') d_or_e)) (repeat ALPHABET (if lng then 2 ^ 15 else 1)) = False"
    "occurs (Seq Bol (Seq dot (Seq (word ''bc'') d_or_e))) (repeat ALPHABET (if lng then 2 ^ 15 else 1)) = True" for lng
    using anchored_facts repeat_first [of "if lng then 2 ^ 15 else 1" ALPHABET] by (metis (full_types) zero_less_one zero_less_power zero_less_numeral)+
  have once: "occurs r u \<Longrightarrow> occurs r (repeat u (if False then 2 ^ 15 else 1)) = True" for r u by simp
  have rows: "gives (\<lambda>n. replicate (nat n) (KeptU64 0)) (bench_regexp_anchored_literal_short_non_match L)"
    "gives (\<lambda>n. replicate (nat n) (KeptU64 0)) (bench_regexp_anchored_literal_long_non_match L)"
    "gives (\<lambda>n. replicate (nat n) (KeptU64 1)) (bench_regexp_anchored_short_match L)"
    "gives (\<lambda>n. replicate (nat n) (KeptU64 1)) (bench_regexp_anchored_long_match L)"
    "gives (\<lambda>n. replicate (nat n) (KeptU64 1)) (bench_regexp_onepass_short_a L)"
    "gives (\<lambda>n. replicate (nat n) (KeptU64 1)) (bench_regexp_not_onepass_short_a L)"
    "gives (\<lambda>n. replicate (nat n) (KeptU64 1)) (bench_regexp_onepass_short_b L)"
    "gives (\<lambda>n. replicate (nat n) (KeptU64 1)) (bench_regexp_not_onepass_short_b L)"
    "gives (\<lambda>n. replicate (nat n) (KeptU64 1)) (bench_regexp_onepass_long_prefix L)"
    "gives (\<lambda>n. replicate (nat n) (KeptU64 1)) (bench_regexp_onepass_long_not_prefix L)"
    unfolding bench_regexp_anchored_literal_short_non_match_def
      bench_regexp_anchored_literal_long_non_match_def bench_regexp_anchored_short_match_def
      bench_regexp_anchored_long_match_def bench_regexp_onepass_short_a_def
      bench_regexp_not_onepass_short_a_def bench_regexp_onepass_short_b_def
      bench_regexp_not_onepass_short_b_def bench_regexp_onepass_long_prefix_def
      bench_regexp_onepass_long_not_prefix_def
    subgoal by (rule row [OF _ anchored(1), simplified if_True if_False], simp add: pattern_meaning_def)
    subgoal by (rule row [OF _ anchored(1), simplified if_True if_False], simp add: pattern_meaning_def)
    subgoal by (rule row [OF _ anchored(2), simplified if_True if_False], simp add: pattern_meaning_def)
    subgoal by (rule row [OF _ anchored(2), simplified if_True if_False], simp add: pattern_meaning_def)
    subgoal by (rule row [OF _ once [OF onepass_facts(1)], simplified if_True if_False], simp add: pattern_meaning_def)
    subgoal by (rule row [OF _ once [OF onepass_facts(2)], simplified if_True if_False], simp add: pattern_meaning_def)
    subgoal by (rule row [OF _ once [OF onepass_facts(3)], simplified if_True if_False], simp add: pattern_meaning_def)
    subgoal by (rule row [OF _ once [OF onepass_facts(4)], simplified if_True if_False], simp add: pattern_meaning_def)
    subgoal by (rule row [OF _ once [OF onepass_facts(5)], simplified if_True if_False], simp add: pattern_meaning_def)
    subgoal by (rule row [OF _ once [OF onepass_facts(6)], simplified if_True if_False], simp add: pattern_meaning_def)
    done
  have "gives (\<lambda>n. replicate (nat n) (KeptU64 v)) f"
    using assms(2) by (elim insertE emptyE Pair_inject; hypsubst) (rule rows)+
  then show ?thesis by (rule givesD [where w = w]) blast
qed

text \<open>
  Error: a row over a text of the generator aborts exactly when its pattern occurs in the text,
  whatever the size.
\<close>
theorem match_data_decides:
  assumes "regexp_law L" and "pattern_meaning pat = Some r" and "0 < b_n (bch w)"
  shows "match_data L pat n w = None \<longleftrightarrow> occurs r (make_text n)"
  using match_data_aborts [OF assms(1,2) _ assms(3)] match_data_row [OF assms(1,2)]
  by (metis givesD option.distinct(1))

definition regexp_world :: "int \<Rightarrow> unit process world" where
  "regexp_world n = \<lparr>bch = zero_bench\<lparr>b_n := n\<rparr>, kept = [], rest = \<lparr>clock = 0, int_var = (\<lambda>x. 0),
     u64_var = (\<lambda>x. 0), dbl_var = (\<lambda>x. 0), int_array = (\<lambda>x. []), str_array = (\<lambda>x. []), machine = ()\<rparr>\<rparr>"

theorem regexp_checks_pass_witness:
  "\<exists>w'. bench_regexp_find ref_regexp (regexp_world 3) = Some w' \<and> kept w' = []"
  using regexp_checks_pass [OF ref_regexp_law, where f = "bench_regexp_find ref_regexp"
      and h = "exact_host (\<lambda>x. 0) (\<lambda>x. 0)" and A = still_arena and w = "regexp_world 3"]
  by (simp add: regexp_world_def)

theorem regexp_bytes_answer_witness:
  "\<exists>w'. bench_regexp_anchored_long_match ref_regexp (regexp_world 2) = Some w' \<and> kept w' = [KeptU64 1, KeptU64 1]"
  using regexp_bytes_answer [OF ref_regexp_law, of "bench_regexp_anchored_long_match ref_regexp" 1 "regexp_world 2"]
  by (simp add: regexp_world_def numeral_2_eq_2)

theorem match_data_decides_witness:
  "match_data ref_regexp ''y'' 16 (regexp_world 1) = None \<longleftrightarrow> occurs (is_char (CHR ''y'')) (make_text 16)"
  by (rule match_data_decides [OF ref_regexp_law]) (simp_all add: pattern_meaning_def regexp_world_def)

end
