(* ===== verification/Str_Bench.thy ===== *)
theory Str_Bench
  imports Answers Printf
begin

text \<open>
  \<open>bench/str_bench.c\<close>: burrow's \<open>Str\<close> beside the C string functions. The two long buffers are
  static arrays of the program, all zero until \<open>fill_long\<close> has run.
\<close>

section \<open>The buffers\<close>

record 'm str_lib =
  str_from_cstr :: "string \<Rightarrow> (string, 'm) op"
  str_eq :: "string \<Rightarrow> string \<Rightarrow> (bool, 'm) op"
  str_cmp :: "string \<Rightarrow> string \<Rightarrow> (int, 'm) op"
  str_clone :: "nat \<Rightarrow> string \<Rightarrow> (nat, 'm) op"
  str_at :: "string \<Rightarrow> nat \<Rightarrow> (nat, 'm) op"

definition short_c :: string where "short_c = ''burrow''"

definition medium_c :: string where
  "medium_c = ''the quick brown fox jumps over the lazy dog, and then does it again''"

definition STR_LONG_LEN :: nat where "STR_LONG_LEN = 4096"

text \<open>A buffer that was never written is not in the store: it holds \<open>STR_LONG_LEN + 1\<close> zeros.\<close>

definition long_buf :: "string \<Rightarrow> 'm process \<Rightarrow> string" where
  "long_buf x p = (case str_array p x of [] \<Rightarrow> replicate (STR_LONG_LEN + 1) (CHR 0x00) | t # _ \<Rightarrow> t)"

definition long_byte :: "nat \<Rightarrow> char" where
  "long_byte i = char_of (97 + i mod 26)"

definition long_bytes :: string where
  "long_bytes = map long_byte [0..<STR_LONG_LEN]"

definition fill_long :: "'m cstmt" where
  "fill_long = reading (\<lambda>p. (long_buf ''long_a'' p, long_buf ''long_b'' p)) (\<lambda>(a, b).
     if a ! 0 \<noteq> CHR 0x00 then Some
     else block [
       set_strs ''long_a'' [long_bytes @ drop STR_LONG_LEN a],
       set_strs ''long_b'' [(long_bytes @ drop STR_LONG_LEN b)[STR_LONG_LEN - 1 := CHR ''Z'']]])"

definition with_long :: "(string \<Rightarrow> string \<Rightarrow> 'm cstmt) \<Rightarrow> 'm cstmt" where
  "with_long k = block [fill_long,
     reading (\<lambda>p. (long_buf ''long_a'' p, long_buf ''long_b'' p)) (\<lambda>(a, b). k a b)]"

text \<open>The C library on these buffers: up to the terminator, or up to a length.\<close>

definition c_string :: "string \<Rightarrow> string" where "c_string s = takeWhile (\<lambda>c. c \<noteq> CHR 0x00) s"
definition c_strlen :: "string \<Rightarrow> nat" where "c_strlen s = length (c_string s)"
definition strcmp_eq :: "string \<Rightarrow> string \<Rightarrow> bool" where "strcmp_eq s t \<longleftrightarrow> c_string s = c_string t"
definition memcmp_eq :: "string \<Rightarrow> string \<Rightarrow> nat \<Rightarrow> bool" where "memcmp_eq s t n \<longleftrightarrow> take n s = take n t"

section \<open>The rows\<close>

definition bench_str_from_cstr_short :: "'m str_lib \<Rightarrow> 'm cstmt" where
  "bench_str_from_cstr_short L = bench_loop (\<lambda>_. calling (str_from_cstr L short_c) (\<lambda>s. keep_u64 (of_nat (length s))))"

definition bench_strlen_short :: "'m cstmt" where
  "bench_strlen_short = bench_loop (\<lambda>_. keep_u64 (of_nat (c_strlen short_c)))"

definition bench_str_from_cstr_medium :: "'m str_lib \<Rightarrow> 'm cstmt" where
  "bench_str_from_cstr_medium L = bench_loop (\<lambda>_. calling (str_from_cstr L medium_c) (\<lambda>s. keep_u64 (of_nat (length s))))"

definition bench_strlen_medium :: "'m cstmt" where
  "bench_strlen_medium = bench_loop (\<lambda>_. keep_u64 (of_nat (c_strlen medium_c)))"

definition bench_str_eq_long :: "'m str_lib \<Rightarrow> 'm cstmt" where
  "bench_str_eq_long L = with_long (\<lambda>a b. bench_loop (\<lambda>_.
     calling (str_eq L (str_over a STR_LONG_LEN) (str_over b STR_LONG_LEN)) keep_bool))"

definition bench_memcmp_long :: "'m cstmt" where
  "bench_memcmp_long = with_long (\<lambda>a b. bench_loop (\<lambda>_. keep_bool (memcmp_eq a b STR_LONG_LEN)))"

definition bench_str_eq_different_lengths :: "'m str_lib \<Rightarrow> 'm cstmt" where
  "bench_str_eq_different_lengths L = with_long (\<lambda>a b. bench_loop (\<lambda>_.
     calling (str_eq L (str_over a STR_LONG_LEN) (str_over b (STR_LONG_LEN - 1))) keep_bool))"

definition bench_strcmp_different_lengths :: "'m cstmt" where
  "bench_strcmp_different_lengths = with_long (\<lambda>a b. bench_loop (\<lambda>_. keep_bool (strcmp_eq a b)))"

definition bench_str_eq_short :: "'m str_lib \<Rightarrow> 'm cstmt" where
  "bench_str_eq_short L = calling (str_from_cstr L short_c) (\<lambda>a. calling (str_from_cstr L short_c) (\<lambda>c.
     bench_loop (\<lambda>_. calling (str_eq L a c) keep_bool)))"

definition bench_strcmp_short :: "'m cstmt" where
  "bench_strcmp_short = bench_loop (\<lambda>_. keep_bool (strcmp_eq short_c short_c))"

definition bench_str_cmp_long :: "'m str_lib \<Rightarrow> 'm cstmt" where
  "bench_str_cmp_long L = with_long (\<lambda>a b. bench_loop (\<lambda>_.
     calling (str_cmp L (str_over a STR_LONG_LEN) (str_over b STR_LONG_LEN)) (\<lambda>r. keep_u64 (of_int r))))"

definition bench_str_clone_medium :: "'m host \<Rightarrow> 'm arena_lib \<Rightarrow> 'm str_lib \<Rightarrow> 'm cstmt" where
  "bench_str_clone_medium h A L = (let a = addr h ''str.ar'' in
     calling (str_from_cstr L medium_c) (\<lambda>s. with_arena A a Some (\<lambda>_. calling (str_clone L a s) keep)))"

definition bench_str_at :: "'m str_lib \<Rightarrow> 'm cstmt" where
  "bench_str_at L = with_long (\<lambda>a b. let s = str_over a STR_LONG_LEN in
     bench_loop (\<lambda>_. u64_sum 64 (\<lambda>i k. calling (str_at L s (nat i)) (\<lambda>c. k (of_nat c)))))"

definition bench_raw_index :: "'m cstmt" where
  "bench_raw_index = with_long (\<lambda>a b. bench_loop (\<lambda>_. u64_sum 64 (\<lambda>i k. k (of_nat (of_char (a ! nat i))))))"

definition str_table :: "'m host \<Rightarrow> 'm arena_lib \<Rightarrow> 'm str_lib \<Rightarrow> (string \<times> 'm cstmt) list" where
  "str_table h A L = [
     (''str_from_cstr_short'', bench_str_from_cstr_short L), (''strlen_short'', bench_strlen_short),
     (''str_from_cstr_medium'', bench_str_from_cstr_medium L), (''strlen_medium'', bench_strlen_medium),
     (''str_eq_short'', bench_str_eq_short L), (''strcmp_short'', bench_strcmp_short),
     (''str_eq_long'', bench_str_eq_long L), (''memcmp_long'', bench_memcmp_long),
     (''str_eq_different_lengths'', bench_str_eq_different_lengths L),
     (''strcmp_different_lengths'', bench_strcmp_different_lengths),
     (''str_cmp_long'', bench_str_cmp_long L), (''str_clone_medium'', bench_str_clone_medium h A L),
     (''str_at'', bench_str_at L), (''raw_index'', bench_raw_index)]"

section \<open>The contract\<close>

lemma str_parts_move [contract_rules]:
  "does (advances clock) fill_long"
  "(\<And>a b. does (advances clock) (k a b)) \<Longrightarrow> does (advances clock) (with_long k)"
  unfolding fill_long_def with_long_def
  by (auto intro!: contract_rules simp: split_beta simp del: block.simps)

lemma str_table_moves:
  "(nm, f) \<in> set (str_table h A L) \<Longrightarrow> does (advances clock) f"
  unfolding str_table_def Let_def
  by (auto simp: bench_str_from_cstr_short_def bench_strlen_short_def bench_str_from_cstr_medium_def
      bench_strlen_medium_def bench_str_eq_short_def bench_strcmp_short_def bench_str_eq_long_def
      bench_memcmp_long_def bench_str_eq_different_lengths_def bench_strcmp_different_lengths_def
      bench_str_cmp_long_def bench_str_clone_medium_def bench_str_at_def bench_raw_index_def Let_def
      intro!: contract_rules simp del: block.simps)

section \<open>Both sides of a pair answer alike\<close>

definition str_law :: "'m str_lib \<Rightarrow> bool" where
  "str_law L \<longleftrightarrow> (\<forall>s m. fst (str_from_cstr L s m) = c_string s) \<and> (\<forall>s t m. fst (str_eq L s t m) = (s = t))
     \<and> (\<forall>s i m. i < length s \<longrightarrow> fst (str_at L s i m) = of_char (s ! i))"

lemma str_lawD:
  assumes "str_law L"
  shows "fst (str_from_cstr L s m) = c_string s" "fst (str_eq L s t m) = (s = t)"
    "i < length s \<Longrightarrow> fst (str_at L s i m) = of_char (s ! i)"
  using assms unfolding str_law_def by blast+

text \<open>The buffers before \<open>fill_long\<close> has run and after.\<close>

definition long_b_bytes :: string where
  "long_b_bytes = long_bytes[STR_LONG_LEN - 1 := CHR ''Z'']"

definition long_ok :: "'m process \<Rightarrow> bool" where
  "long_ok p \<longleftrightarrow> str_array p ''long_a'' = [] \<and> str_array p ''long_b'' = []
     \<or> str_array p ''long_a'' = [long_bytes @ [CHR 0x00]] \<and> str_array p ''long_b'' = [long_b_bytes @ [CHR 0x00]]"

lemma long_bytes_length [simp]: "length long_bytes = STR_LONG_LEN" "length long_b_bytes = STR_LONG_LEN"
  by (simp_all add: long_bytes_def long_b_bytes_def)

lemma long_byte_letter: "long_byte i \<noteq> CHR 0x00" "long_byte i \<noteq> CHR ''Z''" "of_char (long_byte i) = (97 + i mod 26 :: nat)"
proof -
  have "i mod 26 < 26" by simp
  then have v: "of_char (long_byte i) = (97 + i mod 26 :: nat)" by (simp add: long_byte_def of_char_of take_bit_eq_mod)
  then show "of_char (long_byte i) = (97 + i mod 26 :: nat)" .
  from v show "long_byte i \<noteq> CHR 0x00" "long_byte i \<noteq> CHR ''Z''"
    by (auto dest: arg_cong [of _ _ "of_char :: char \<Rightarrow> nat"])
qed

lemma fill_long_run:
  fixes w :: "'m process world"
  assumes "long_ok (rest w)"
  shows "\<exists>v. fill_long w = Some v \<and> kept v = kept w \<and> bch v = bch w
    \<and> long_buf ''long_a'' (rest v) = long_bytes @ [CHR 0x00] \<and> long_buf ''long_b'' (rest v) = long_b_bytes @ [CHR 0x00]"
  using assms unfolding long_ok_def
proof (elim disjE conjE)
  assume "str_array (rest w) ''long_a'' = []" "str_array (rest w) ''long_b'' = []"
  then show ?thesis
    by (simp add: fill_long_def reading_def long_buf_def set_strs_def assign_def perform_def STR_LONG_LEN_def
        long_b_bytes_def list_update_append)
next
  assume a: "str_array (rest w) ''long_a'' = [long_bytes @ [CHR 0x00]]" "str_array (rest w) ''long_b'' = [long_b_bytes @ [CHR 0x00]]"
  have "long_bytes ! 0 \<noteq> CHR 0x00" using long_byte_letter(1) by (simp add: long_bytes_def STR_LONG_LEN_def)
  with a show ?thesis by (simp add: fill_long_def reading_def long_buf_def nth_append STR_LONG_LEN_def)
qed

lemma with_long_row:
  assumes "long_ok (rest w)" and "gives g (k (long_bytes @ [CHR 0x00]) (long_b_bytes @ [CHR 0x00]))"
  shows "\<exists>w'. with_long k w = Some w' \<and> kept w' = kept w @ g (b_n (bch w))"
proof -
  obtain v where v: "fill_long w = Some v" "kept v = kept w" "bch v = bch w"
    "long_buf ''long_a'' (rest v) = long_bytes @ [CHR 0x00]" "long_buf ''long_b'' (rest v) = long_b_bytes @ [CHR 0x00]"
    using fill_long_run [OF assms(1)] by blast
  obtain w' where "k (long_bytes @ [CHR 0x00]) (long_b_bytes @ [CHR 0x00]) v = Some w'" "kept w' = kept v @ g (b_n (bch v))"
    by (rule givesD [OF assms(2)])
  with v show ?thesis by (simp add: with_long_def reading_def)
qed

lemma long_differ: "long_bytes \<noteq> long_b_bytes"
proof
  assume "long_bytes = long_b_bytes"
  moreover have "long_b_bytes ! (STR_LONG_LEN - 1) = CHR ''Z''"
    unfolding long_b_bytes_def by (rule nth_list_update_eq) (simp add: STR_LONG_LEN_def)
  moreover have "long_bytes ! (STR_LONG_LEN - 1) = long_byte (STR_LONG_LEN - 1)"
    unfolding long_bytes_def by (subst nth_map) (simp_all add: STR_LONG_LEN_def)
  ultimately show False using long_byte_letter(2) by metis
qed

lemma no_terminator: "c_string (long_bytes @ [CHR 0x00]) = long_bytes" "c_string (long_b_bytes @ [CHR 0x00]) = long_b_bytes"
proof -
  have a: "\<forall>c \<in> set long_bytes. c \<noteq> CHR 0x00" using long_byte_letter(1) by (auto simp: long_bytes_def)
  then have "\<forall>c \<in> set long_b_bytes. c \<noteq> CHR 0x00"
    unfolding long_b_bytes_def by (auto dest!: subsetD [OF set_update_subset_insert])
  with a show "c_string (long_bytes @ [CHR 0x00]) = long_bytes" "c_string (long_b_bytes @ [CHR 0x00]) = long_b_bytes"
    by (simp_all add: c_string_def)
qed

text \<open>The sum of the first 64 letters.\<close>

lemma letters_sum: "sum_list (map (\<lambda>j. of_nat (97 + j mod 26) :: u64) [0..<64]) = 6924"
  by code_simp

lemma long_byte_at: "j < 64 \<Longrightarrow> of_char (long_bytes ! j) = (97 + j mod 26 :: nat)"
  by (simp add: long_bytes_def STR_LONG_LEN_def long_byte_letter)

lemma sum_rows:
  assumes "str_law L"
  shows "gives (\<lambda>n. [KeptU64 6924]) (u64_sum 64 (\<lambda>i k. calling (str_at L long_bytes (nat i)) (\<lambda>c. k (of_nat c))))"
    and "gives (\<lambda>n. [KeptU64 6924]) (u64_sum 64 (\<lambda>i k. k (of_nat (of_char ((long_bytes @ [CHR 0x00]) ! nat i)))))"
proof -
  have "passes (\<lambda>i k. calling (str_at L long_bytes (nat i)) (\<lambda>c. k (of_nat c))) j (of_nat (97 + j mod 26))"
    if "j < 64" for j
    using that by (intro passes_calling) (simp add: str_lawD(3) [OF assms] long_byte_at STR_LONG_LEN_def)
  from gives_u64_sum [of 64, OF this] show "gives (\<lambda>n. [KeptU64 6924]) (u64_sum 64 (\<lambda>i k. calling (str_at L long_bytes (nat i)) (\<lambda>c. k (of_nat c))))"
    using letters_sum by auto
  have "passes (\<lambda>i k. k (of_nat (of_char ((long_bytes @ [CHR 0x00]) ! nat i)))) j (of_nat (97 + j mod 26))" if "j < 64" for j
    using that long_byte_at [OF that] by (intro passes_direct) (simp add: nth_append STR_LONG_LEN_def)
  from gives_u64_sum [of 64, OF this] show "gives (\<lambda>n. [KeptU64 6924]) (u64_sum 64 (\<lambda>i k. k (of_nat (of_char ((long_bytes @ [CHR 0x00]) ! nat i)))))"
    using letters_sum by auto
qed

text \<open>
  Equivalence: a burrow row and the C row beside it hand the same number to the sink in every
  round. The two lengths, the three comparisons of long texts, equal texts and the sums of 64 bytes
  agree, whether or not the buffers had been filled before, and the long texts are found different.
\<close>
theorem str_pairs_agree:
  assumes "str_law L" and "long_ok (rest w)"
    and "(f, g, v) \<in> {(bench_str_from_cstr_short L, bench_strlen_short, 6),
      (bench_str_from_cstr_medium L, bench_strlen_medium, 67), (bench_str_eq_short L, bench_strcmp_short, 1),
      (bench_str_eq_long L, bench_memcmp_long, 0),
      (bench_str_eq_different_lengths L, bench_strcmp_different_lengths, 0),
      (bench_str_at L, bench_raw_index, 6924)}"
  shows "\<forall>s \<in> {f, g}. \<exists>w'. s w = Some w' \<and> kept w' = kept w @ replicate (nat (b_n (bch w))) (KeptU64 v)"
proof -
  let ?Q = "\<lambda>s v. \<exists>w'. s w = Some w' \<and> kept w' = kept w @ replicate (nat (b_n (bch w))) (KeptU64 v)"
  have Q: "?Q s v" if "gives (\<lambda>n. replicate (nat n) (KeptU64 v)) s" for s v
    using that by (rule givesD [where w = w]) blast
  note law = str_lawD [OF assms(1)]
  have len: "length (c_string short_c) = 6" "length (c_string medium_c) = 67"
    by (simp_all add: c_string_def short_c_def medium_c_def)
  have lengths: "?Q (bench_str_from_cstr_short L) 6" "?Q bench_strlen_short 6"
    "?Q (bench_str_from_cstr_medium L) 67" "?Q bench_strlen_medium 67"
    unfolding bench_str_from_cstr_short_def bench_strlen_short_def bench_str_from_cstr_medium_def bench_strlen_medium_def
    by (rule Q, rule gives_loop_same, (rule gives_calling)?, simp add: law c_strlen_def len answer_rules)+
  have short: "?Q (bench_str_eq_short L) 1" "?Q bench_strcmp_short 1"
    unfolding bench_str_eq_short_def bench_strcmp_short_def
    by (rule Q, ((rule gives_calling)+)?, rule gives_loop_same, (rule gives_calling)?,
        simp add: law keep_bool_def strcmp_eq_def answer_rules)+
  note long = with_long_row [OF assms(2)]
  have diff: "long_bytes \<noteq> take (STR_LONG_LEN - Suc 0) long_b_bytes"
    by (auto dest: arg_cong [of _ _ length] simp: STR_LONG_LEN_def)
  have "?Q (bench_str_eq_long L) 0" "?Q bench_memcmp_long 0" "?Q (bench_str_eq_different_lengths L) 0"
    "?Q bench_strcmp_different_lengths 0"
    unfolding bench_str_eq_long_def bench_memcmp_long_def bench_str_eq_different_lengths_def
      bench_strcmp_different_lengths_def
    by (rule long, rule gives_loop_same, (rule gives_calling)?,
        simp add: law keep_bool_def strcmp_eq_def memcmp_eq_def no_terminator long_differ str_over_def diff answer_rules)+
  moreover have "?Q (bench_str_at L) 6924" "?Q bench_raw_index 6924"
    unfolding bench_str_at_def bench_raw_index_def Let_def
    by (rule long, rule gives_loop_same, simp add: str_over_def sum_rows [OF assms(1)])+
  ultimately show ?thesis using assms(3) lengths short by blast
qed

definition ref_str :: "unit str_lib" where
  "ref_str = \<lparr>str_from_cstr = (\<lambda>s m. (c_string s, 1, m)), str_eq = (\<lambda>s t m. (s = t, 1, m)),
     str_cmp = (\<lambda>s t m. (0, 1, m)), str_clone = (\<lambda>a s m. (8, 1, m)),
     str_at = (\<lambda>s i m. (of_char (s ! i), 1, m))\<rparr>"

definition str_world :: "int \<Rightarrow> unit process world" where
  "str_world n = \<lparr>bch = zero_bench\<lparr>b_n := n\<rparr>, kept = [], rest = \<lparr>clock = 0, int_var = (\<lambda>x. 0),
     u64_var = (\<lambda>x. 0), dbl_var = (\<lambda>x. 0), int_array = (\<lambda>x. []), str_array = (\<lambda>x. []), machine = ()\<rparr>\<rparr>"

theorem str_pairs_agree_witness:
  "\<exists>w'. bench_str_at ref_str (str_world 2) = Some w' \<and> kept w' = [KeptU64 6924, KeptU64 6924]"
proof -
  have "str_law ref_str" "long_ok (rest (str_world 2))"
    by (simp_all add: str_law_def ref_str_def long_ok_def str_world_def)
  from str_pairs_agree [OF this, of "bench_str_at ref_str" bench_raw_index 6924] show ?thesis
    by (simp add: str_world_def numeral_2_eq_2)
qed

end
