(* ===== verification/Mem_Bench.thy ===== *)
theory Mem_Bench
  imports Answers
begin

unbundle bit_operations_syntax

text \<open>
  \<open>bench/mem_bench.c\<close>: the allocators. A block is its address, 0 when there is none; an allocator
  is the address of its arena or tracker. What is allocated at a time is a view of the machine.
\<close>

section \<open>What the file takes from burrow and the C library\<close>

record 'm mem_lib =
  heap_allocator :: nat
  mem_alloc :: "nat \<Rightarrow> nat \<Rightarrow> nat \<Rightarrow> (nat, 'm) op"
  mem_alloc_nozero :: "nat \<Rightarrow> nat \<Rightarrow> nat \<Rightarrow> (nat, 'm) op"
  mem_realloc :: "nat \<Rightarrow> nat \<Rightarrow> nat \<Rightarrow> nat \<Rightarrow> nat \<Rightarrow> (nat, 'm) op"
  mem_free :: "nat \<Rightarrow> nat \<Rightarrow> nat \<Rightarrow> nat \<Rightarrow> (unit, 'm) op"
  mem_reset :: "nat \<Rightarrow> (unit, 'm) op"
  track_init :: "nat \<Rightarrow> nat \<Rightarrow> (unit, 'm) op"
  track_set_quarantine :: "nat \<Rightarrow> nat \<Rightarrow> (unit, 'm) op"
  track_free :: "nat \<Rightarrow> (unit, 'm) op"
  c_malloc :: "nat \<Rightarrow> (nat, 'm) op"
  c_calloc :: "nat \<Rightarrow> nat \<Rightarrow> (nat, 'm) op"
  c_realloc :: "nat \<Rightarrow> nat \<Rightarrow> (nat, 'm) op"
  c_free :: "nat \<Rightarrow> (unit, 'm) op"

definition RESET_EVERY :: int where "RESET_EVERY = 1024"
definition SMALL :: nat where "SMALL = 64"
definition LARGE :: nat where "LARGE = 2 ^ 20"

section \<open>Arenas\<close>

text \<open>An arena that is reported after the loop.\<close>

definition reported_arena :: "'m arena_lib \<Rightarrow> nat \<Rightarrow> 'm cstmt \<Rightarrow> 'm cstmt" where
  "reported_arena A a body = block [call_op (arena_init A a), body, report_arena A a, call_op (arena_free A a)]"

definition reset_due :: "int \<Rightarrow> bool" where
  "reset_due i \<longleftrightarrow> i AND (RESET_EVERY - 1) = 0"

definition alloc_rounds :: "(nat, 'm) op \<Rightarrow> (unit, 'm) op \<Rightarrow> 'm cstmt" where
  "alloc_rounds alloc reset = bench_loop (\<lambda>i. calling alloc (\<lambda>p. block [
     keep p,
     if reset_due i then call_op reset else Some]))"

definition bench_arena_alloc :: "'m host \<Rightarrow> 'm arena_lib \<Rightarrow> 'm mem_lib \<Rightarrow> 'm cstmt" where
  "bench_arena_alloc h A L = (let a = addr h ''mem.ar'' in
     reported_arena A a (alloc_rounds (mem_alloc_nozero L a SMALL 8) (arena_reset A a)))"

definition bench_arena_alloc_zeroed :: "'m host \<Rightarrow> 'm arena_lib \<Rightarrow> 'm mem_lib \<Rightarrow> 'm cstmt" where
  "bench_arena_alloc_zeroed h A L = (let a = addr h ''mem.ar'' in
     reported_arena A a (alloc_rounds (mem_alloc L a SMALL 8) (arena_reset A a)))"

definition bench_arena_alloc_large :: "'m host \<Rightarrow> 'm arena_lib \<Rightarrow> 'm mem_lib \<Rightarrow> 'm cstmt" where
  "bench_arena_alloc_large h A L = (let a = addr h ''mem.ar'' in
     reported_arena A a (resetting A a (calling (mem_alloc_nozero L a LARGE 8) keep)))"

definition bench_arena_reset :: "'m host \<Rightarrow> 'm arena_lib \<Rightarrow> 'm mem_lib \<Rightarrow> 'm cstmt" where
  "bench_arena_reset h A L = (let a = addr h ''mem.ar'' in
     scratch_arena A a (bench_loop (\<lambda>_. block [
       pausing h,
       repeat_for (nat RESET_EVERY) (\<lambda>_. calling (mem_alloc_nozero L a SMALL 8) keep),
       resuming h,
       call_op (arena_reset A a)])))"

text \<open>\<open>k\<close> doublings of a block \<open>p\<close> of \<open>n\<close> bytes.\<close>

fun grow :: "'m mem_lib \<Rightarrow> nat \<Rightarrow> nat \<Rightarrow> nat \<Rightarrow> nat \<Rightarrow> (nat \<Rightarrow> 'm cstmt) \<Rightarrow> 'm cstmt" where
  "grow L a 0 n p k = k p"
| "grow L a (Suc i) n p k = calling (mem_realloc L a p n (n * 2) 8) (\<lambda>p. grow L a i (n * 2) p k)"

definition bench_arena_append_grow :: "'m host \<Rightarrow> 'm arena_lib \<Rightarrow> 'm mem_lib \<Rightarrow> 'm cstmt" where
  "bench_arena_append_grow h A L = (let a = addr h ''mem.ar'' in
     reported_arena A a (resetting A a (calling (mem_alloc_nozero L a 16 8) (\<lambda>p. grow L a 8 16 p keep))))"

section \<open>The heap and the tracker\<close>

text \<open>A block that is handed to the sink and given back.\<close>

definition alloc_and_free :: "(nat, 'm) op \<Rightarrow> (nat \<Rightarrow> (unit, 'm) op) \<Rightarrow> 'm cstmt" where
  "alloc_and_free alloc free = bench_loop (\<lambda>_. calling alloc (\<lambda>p. block [keep p, call_op (free p)]))"

definition bench_heap_alloc :: "'m mem_lib \<Rightarrow> 'm cstmt" where
  "bench_heap_alloc L = (let a = heap_allocator L in
     alloc_and_free (mem_alloc_nozero L a SMALL 8) (\<lambda>p. mem_free L a p SMALL 8))"

definition bench_heap_alloc_zeroed :: "'m mem_lib \<Rightarrow> 'm cstmt" where
  "bench_heap_alloc_zeroed L = (let a = heap_allocator L in
     alloc_and_free (mem_alloc L a SMALL 8) (\<lambda>p. mem_free L a p SMALL 8))"

definition bench_track_arena_alloc :: "'m host \<Rightarrow> 'm arena_lib \<Rightarrow> 'm mem_lib \<Rightarrow> 'm cstmt" where
  "bench_track_arena_alloc h A L = (let ar = addr h ''mem.ar''; tr = addr h ''mem.tr'' in block [
     call_op (arena_init A ar),
     call_op (track_init L tr ar),
     call_op (track_set_quarantine L tr 0),
     alloc_rounds (mem_alloc_nozero L tr SMALL 8) (mem_reset L tr),
     call_op (track_free L tr),
     call_op (arena_free A ar)])"

definition bench_track_heap_alloc :: "'m host \<Rightarrow> 'm mem_lib \<Rightarrow> 'm cstmt" where
  "bench_track_heap_alloc h L = (let tr = addr h ''mem.tr'' in block [
     call_op (track_init L tr (heap_allocator L)),
     call_op (track_set_quarantine L tr 0),
     alloc_and_free (mem_alloc_nozero L tr SMALL 8) (\<lambda>p. mem_free L tr p SMALL 8),
     call_op (track_free L tr)])"

definition bench_track_heap_quarantine :: "'m host \<Rightarrow> 'm mem_lib \<Rightarrow> 'm cstmt" where
  "bench_track_heap_quarantine h L = (let tr = addr h ''mem.tr'' in block [
     call_op (track_init L tr (heap_allocator L)),
     alloc_and_free (mem_alloc_nozero L tr SMALL 8) (\<lambda>p. mem_free L tr p SMALL 8),
     call_op (track_free L tr)])"

section \<open>The C library\<close>

definition bench_malloc_free :: "'m mem_lib \<Rightarrow> 'm cstmt" where
  "bench_malloc_free L = alloc_and_free (c_malloc L SMALL) (c_free L)"

definition bench_calloc_free :: "'m mem_lib \<Rightarrow> 'm cstmt" where
  "bench_calloc_free L = alloc_and_free (c_calloc L 1 SMALL) (c_free L)"

fun c_grow :: "'m mem_lib \<Rightarrow> nat \<Rightarrow> nat \<Rightarrow> nat \<Rightarrow> (nat \<Rightarrow> 'm cstmt) \<Rightarrow> 'm cstmt" where
  "c_grow L 0 n p k = k p"
| "c_grow L (Suc i) n p k = calling (c_realloc L p (n * 2)) (\<lambda>p. c_grow L i (n * 2) p k)"

definition bench_realloc_grow :: "'m mem_lib \<Rightarrow> 'm cstmt" where
  "bench_realloc_grow L = bench_loop (\<lambda>_. calling (c_malloc L 16) (\<lambda>p. c_grow L 8 16 p (\<lambda>p. block [
     keep p, call_op (c_free L p)])))"

definition mem_table :: "'m host \<Rightarrow> 'm arena_lib \<Rightarrow> 'm mem_lib \<Rightarrow> (string \<times> 'm cstmt) list" where
  "mem_table h A L = [
     (''arena_alloc'', bench_arena_alloc h A L), (''arena_alloc_zeroed'', bench_arena_alloc_zeroed h A L),
     (''arena_alloc_large'', bench_arena_alloc_large h A L), (''arena_reset'', bench_arena_reset h A L),
     (''arena_append_grow'', bench_arena_append_grow h A L), (''heap_alloc'', bench_heap_alloc L),
     (''heap_alloc_zeroed'', bench_heap_alloc_zeroed L), (''track_arena_alloc'', bench_track_arena_alloc h A L),
     (''track_heap_alloc'', bench_track_heap_alloc h L), (''track_heap_quarantine'', bench_track_heap_quarantine h L),
     (''malloc_free'', bench_malloc_free L), (''calloc_free'', bench_calloc_free L),
     (''realloc_grow'', bench_realloc_grow L)]"

section \<open>The contract\<close>

lemma grows_move [contract_rules]:
  "(\<And>p. does (advances clock) (k p)) \<Longrightarrow> does (advances clock) (grow L a i n p k)"
  "(\<And>p. does (advances clock) (k p)) \<Longrightarrow> does (advances clock) (c_grow L i n p k)"
  by (induction i arbitrary: n p) (auto intro!: contract_rules)

lemma mem_parts_move [contract_rules]:
  "does (advances clock) body \<Longrightarrow> does (advances clock) (reported_arena A a body)"
  "does (advances clock) (alloc_rounds alloc reset)" "does (advances clock) (alloc_and_free alloc free)"
  unfolding reported_arena_def alloc_rounds_def alloc_and_free_def
  by (auto intro!: contract_rules simp del: block.simps)

lemmas mem_bodies = bench_arena_alloc_def bench_arena_alloc_zeroed_def bench_arena_alloc_large_def
  bench_arena_reset_def bench_arena_append_grow_def bench_heap_alloc_def bench_heap_alloc_zeroed_def
  bench_track_arena_alloc_def bench_track_heap_alloc_def bench_track_heap_quarantine_def
  bench_malloc_free_def bench_calloc_free_def bench_realloc_grow_def

lemma mem_table_moves:
  assumes "host_ok h" and "(nm, f) \<in> set (mem_table h A L)"
  shows "does (advances clock) f"
  using assms unfolding mem_table_def mem_bodies Let_def
  by (auto intro!: contract_rules simp del: block.simps)

section \<open>An arena that is reset in time\<close>

text \<open>\<open>held\<close> is how many blocks the arena has given out since it was last reset.\<close>

definition arena_counts :: "(nat, 'm) op \<Rightarrow> (unit, 'm) op \<Rightarrow> ('m \<Rightarrow> nat) \<Rightarrow> bool" where
  "arena_counts alloc reset held \<longleftrightarrow> (\<forall>m. held (snd (snd (alloc m))) \<le> held m + 1)
     \<and> (\<forall>m. held (snd (snd (reset m))) = 0)"

lemma arena_countsD:
  assumes "arena_counts alloc reset held"
  shows "held (snd (snd (alloc m))) \<le> held m + 1" "held (snd (snd (reset m))) = 0"
  using assms unfolding arena_counts_def by blast+

lemma machine_call: "machine (rest (snd (call (lib f) w))) = snd (snd (f (machine (rest w))))"
  by (simp add: call_def lib_def split_beta)

lemma mod_before:
  fixes x n :: int
  assumes "x mod n \<noteq> 0" and "0 < n"
  shows "x mod n = (x - 1) mod n + 1"
proof -
  have "0 < x mod n" "x mod n < n" using assms(1) pos_mod_bound [OF assms(2), of x] pos_mod_sign [OF assms(2), of x] by linarith+
  then have "(x mod n - 1) mod n = x mod n - 1" by (intro mod_pos_pos_trivial) simp_all
  then show ?thesis by (simp add: mod_diff_left_eq)
qed

lemma reset_due_mod: "reset_due i \<longleftrightarrow> i mod RESET_EVERY = 0"
proof -
  have "RESET_EVERY - 1 = mask 10" "RESET_EVERY = 2 ^ 10" by (simp_all add: RESET_EVERY_def mask_eq_exp_minus_1)
  then show ?thesis unfolding reset_due_def by (simp only: take_bit_eq_mask [symmetric] take_bit_eq_mod)
qed

text \<open>
  Bounds: the arena of the small rows does not grow with the iteration count. The loop comes back
  with \<open>n\<close> pointers in the sink; the blocks that are out after any number of rounds are at most
  the index of the last round modulo 1024.
\<close>
theorem arena_rounds_bounded:
  fixes w :: "'m process world"
  assumes "arena_counts alloc reset held"
  shows "\<exists>w'. alloc_rounds alloc reset w = Some w'
    \<and> length (kept w') = length (kept w) + nat (b_n (bch w))
    \<and> (0 < b_n (bch w) \<longrightarrow> held (machine (rest w')) \<le> nat ((b_n (bch w) - 1) mod RESET_EVERY))"
proof -
  let ?I = "\<lambda>j (v :: 'm process world). length (kept v) = length (kept w) + j
    \<and> (0 < j \<longrightarrow> held (machine (rest v)) \<le> nat ((int j - 1) mod RESET_EVERY))"
  let ?body = "\<lambda>i. calling alloc (\<lambda>p. block [keep p, if reset_due i then call_op reset else Some])"
  have "\<exists>w'. for_loop (nat (b_n (bch w))) 0 ?body w = Some w' \<and> ?I (nat (b_n (bch w))) w'"
  proof (rule for_loop_total)
    fix j and v :: "'m process world" assume v: "?I j v"
    let ?u = "snd (call (lib alloc) v)"
    have one: "held (machine (rest ?u)) \<le> held (machine (rest v)) + 1"
      using arena_countsD(1) [OF assms] by (simp add: call_def lib_def split_beta)
    have "\<exists>v'. ?body (int j) v = Some v' \<and> length (kept v') = length (kept v) + 1
      \<and> held (machine (rest v')) \<le> nat (int j mod RESET_EVERY)"
    proof (cases "reset_due (int j)")
      case True
      then show ?thesis
        using arena_countsD(2) [OF assms]
        by (simp add: calling_def split_beta keep_def call_def lib_def bench_keep_def)
    next
      case False
      then have "int j mod RESET_EVERY \<noteq> 0" by (simp add: reset_due_mod)
      then have m: "int j mod RESET_EVERY = (int j - 1) mod RESET_EVERY + 1"
        using mod_before [of "int j" RESET_EVERY] by (simp add: RESET_EVERY_def)
      have "0 < j" using False by (cases j) (simp_all add: reset_due_mod)
      moreover have "0 \<le> (int j - 1) mod RESET_EVERY" by (simp add: RESET_EVERY_def)
      ultimately show ?thesis
        using False v one by (simp add: m calling_def split_beta keep_def bench_keep_def nat_add_distrib machine_call)
    qed
    with v show "\<exists>v'. ?body (0 + int j) v = Some v' \<and> ?I (Suc j) v'" by auto
  qed simp
  then show ?thesis unfolding alloc_rounds_def bench_loop_def by auto
qed

section \<open>Nothing is left on the heap\<close>

text \<open>
  \<open>live\<close> gives the blocks of the heap that are allocated, each with its size. In a state that is
  \<open>holding\<close> the block \<open>p\<close> of \<open>sz\<close> bytes beside \<open>m0\<close>, or no block at all, giving it back with that
  size leaves \<open>m0\<close>, and a reallocation moves the block or, when it fails, leaves it where it is.
\<close>

definition holding :: "('m \<Rightarrow> nat \<Rightarrow> nat option) \<Rightarrow> (nat \<Rightarrow> nat option) \<Rightarrow> nat \<Rightarrow> nat \<Rightarrow> 'm \<Rightarrow> bool" where
  "holding live m0 p sz m \<longleftrightarrow> (if p = 0 then live m = m0 else m0 p = None \<and> live m = m0(p \<mapsto> sz))"

definition allocates :: "('m \<Rightarrow> nat \<Rightarrow> nat option) \<Rightarrow> nat \<Rightarrow> (nat, 'm) op \<Rightarrow> bool" where
  "allocates live sz f \<longleftrightarrow> (\<forall>m. holding live (live m) (fst (f m)) sz (snd (snd (f m))))"

definition frees :: "('m \<Rightarrow> nat \<Rightarrow> nat option) \<Rightarrow> nat \<Rightarrow> (nat \<Rightarrow> (unit, 'm) op) \<Rightarrow> bool" where
  "frees live sz f \<longleftrightarrow> (\<forall>m0 p m. holding live m0 p sz m \<longrightarrow> live (snd (snd (f p m))) = m0)"

definition reallocates :: "('m \<Rightarrow> nat \<Rightarrow> nat option) \<Rightarrow> (nat \<Rightarrow> nat \<Rightarrow> (nat, 'm) op) \<Rightarrow> bool" where
  "reallocates live f \<longleftrightarrow> (\<forall>m0 p k sz m. holding live m0 p k m \<longrightarrow> 0 < sz \<longrightarrow>
     (if fst (f p sz m) = 0 then holding live m0 p k (snd (snd (f p sz m)))
      else holding live m0 (fst (f p sz m)) sz (snd (snd (f p sz m)))))"

definition heap_law :: "('m \<Rightarrow> nat \<Rightarrow> nat option) \<Rightarrow> 'm mem_lib \<Rightarrow> bool" where
  "heap_law live L \<longleftrightarrow>
     (\<forall>sz. let a = heap_allocator L in allocates live sz (mem_alloc_nozero L a sz 8) \<and> allocates live sz (mem_alloc L a sz 8)
        \<and> frees live sz (\<lambda>p. mem_free L a p sz 8)
        \<and> allocates live sz (c_malloc L sz) \<and> allocates live sz (c_calloc L 1 sz) \<and> frees live sz (c_free L))
     \<and> reallocates live (c_realloc L)"

lemma heap_lawD:
  assumes "heap_law live L"
  shows "allocates live sz (mem_alloc_nozero L (heap_allocator L) sz 8)"
    "allocates live sz (mem_alloc L (heap_allocator L) sz 8)"
    "frees live sz (\<lambda>p. mem_free L (heap_allocator L) p sz 8)"
    "allocates live sz (c_malloc L sz)" "allocates live sz (c_calloc L 1 sz)" "frees live sz (c_free L)"
    "reallocates live (c_realloc L)"
  using assms unfolding heap_law_def Let_def by blast+

text \<open>The statement gives the block back and hands it to the sink before.\<close>

lemma keep_and_free:
  fixes w :: "'m process world"
  assumes "frees live sz free" and "holding live m0 p sz (machine (rest w))"
  shows "\<exists>w'. block [keep p, call_op (free p)] w = Some w' \<and> live (machine (rest w')) = m0
    \<and> kept w' = kept w @ [KeptPtr p]"
proof -
  have "live (machine (rest (snd (call (lib (free p)) (bench_keep p w))))) = m0"
    using assms unfolding frees_def machine_call by (simp add: bench_keep_def)
  then show ?thesis by (simp add: calling_def split_beta keep_def)
qed

lemma alloc_and_free_keeps:
  fixes w :: "'m process world"
  assumes "allocates live sz alloc" and "frees live sz free"
  shows "\<exists>w'. alloc_and_free alloc free w = Some w' \<and> live (machine (rest w')) = live (machine (rest w))"
proof -
  let ?I = "\<lambda>(j :: nat) (v :: 'm process world). live (machine (rest v)) = live (machine (rest w))"
  have "\<exists>w'. for_loop (nat (b_n (bch w))) 0 (\<lambda>_. calling alloc (\<lambda>p. block [keep p, call_op (free p)])) w = Some w'
    \<and> ?I (nat (b_n (bch w))) w'"
  proof (rule for_loop_total)
    fix j and v :: "'m process world" assume v: "?I j v"
    let ?p = "fst (alloc (machine (rest v)))"
    have "holding live (live (machine (rest v))) ?p sz (machine (rest (snd (call (lib alloc) v))))"
      using assms(1) unfolding allocates_def machine_call by blast
    from keep_and_free [OF assms(2) this] v
    show "\<exists>v'. calling alloc (\<lambda>p. block [keep p, call_op (free p)]) v = Some v' \<and> ?I (Suc j) v'"
      by (auto simp: calling_def split_beta simp del: block.simps)
  qed simp
  then show ?thesis unfolding alloc_and_free_def bench_loop_def .
qed

lemma c_grow_run:
  fixes w :: "'m process world"
  assumes "reallocates live (c_realloc L)" and "\<And>p sz m. fst (c_realloc L p sz m) \<noteq> 0"
    and "holding live m0 p n (machine (rest w))" and "0 < n"
  shows "\<exists>q v. c_grow L i n p k w = k q v \<and> holding live m0 q (n * 2 ^ i) (machine (rest v))"
  using assms(3,4)
proof (induction i arbitrary: n p w)
  case 0
  then show ?case by (intro exI [of _ p] exI [of _ w]) simp
next
  case (Suc i)
  let ?q = "fst (c_realloc L p (n * 2) (machine (rest w)))" and ?v = "snd (call (lib (c_realloc L p (n * 2))) w)"
  have "holding live m0 ?q (n * 2) (machine (rest ?v))"
    using assms(1,2) Suc.prems unfolding reallocates_def machine_call by (metis mult_pos_pos zero_less_numeral)
  moreover have "0 < n * 2" using Suc.prems by simp
  ultimately obtain q v where "c_grow L i (n * 2) ?q k ?v = k q v" "holding live m0 q (n * 2 * 2 ^ i) (machine (rest v))"
    using Suc.IH by blast
  then show ?case by (intro exI [of _ q] exI [of _ v]) (simp add: calling_def split_beta mult.assoc)
qed

text \<open>
  Invariant: the rows of the heap leave it as it was. With allocators that keep their contract,
  every block is given back with the size it was allocated with, in every round, whether or not the
  allocation succeeded; the row that doubles a block eight times gives back the last one, as long
  as no reallocation fails.
\<close>
theorem heap_rows_free_all:
  fixes w :: "'m process world"
  assumes "heap_law live L" and "\<And>p sz m. fst (c_realloc L p sz m) \<noteq> 0"
    and "f \<in> {bench_heap_alloc L, bench_heap_alloc_zeroed L, bench_malloc_free L, bench_calloc_free L,
      bench_realloc_grow L}"
  shows "\<exists>w'. f w = Some w' \<and> live (machine (rest w')) = live (machine (rest w))"
proof -
  note law = heap_lawD [OF assms(1)]
  let ?grow = "\<lambda>_ :: int. calling (c_malloc L 16) (\<lambda>p. c_grow L 8 16 p (\<lambda>p. block [keep p, call_op (c_free L p)]))"
  let ?I = "\<lambda>(j :: nat) (v :: 'm process world). live (machine (rest v)) = live (machine (rest w))"
  have "\<exists>w'. for_loop (nat (b_n (bch w))) 0 ?grow w = Some w' \<and> ?I (nat (b_n (bch w))) w'"
  proof (rule for_loop_total)
    fix j and v :: "'m process world" assume v: "?I j v"
    let ?p = "fst (c_malloc L 16 (machine (rest v)))" and ?u = "snd (call (lib (c_malloc L 16)) v)"
    have "holding live (live (machine (rest v))) ?p 16 (machine (rest ?u))"
      using law(4) unfolding allocates_def machine_call by blast
    from c_grow_run [OF law(7) assms(2) this zero_less_numeral, of 8 "\<lambda>p. block [keep p, call_op (c_free L p)]"]
    obtain q x where g: "c_grow L 8 16 ?p (\<lambda>p. block [keep p, call_op (c_free L p)]) ?u = block [keep q, call_op (c_free L q)] x"
      and x: "holding live (live (machine (rest v))) q (16 * 2 ^ 8) (machine (rest x))" by blast
    have "?grow 0 v = block [keep q, call_op (c_free L q)] x" using g by (simp add: calling_def split_beta del: block.simps)
    with keep_and_free [OF law(6) x] v show "\<exists>v'. ?grow (0 + int j) v = Some v' \<and> ?I (Suc j) v'"
      by (auto simp del: block.simps)
  qed simp
  then have "\<exists>w'. bench_realloc_grow L w = Some w' \<and> live (machine (rest w')) = live (machine (rest w))"
    unfolding bench_realloc_grow_def bench_loop_def .
  moreover note alloc_and_free_keeps [OF law(1) law(3), of SMALL w] alloc_and_free_keeps [OF law(2) law(3), of SMALL w]
    alloc_and_free_keeps [OF law(4) law(6), of SMALL w] alloc_and_free_keeps [OF law(5) law(6), of SMALL w]
  ultimately show ?thesis using assms(3)
    unfolding bench_heap_alloc_def bench_heap_alloc_zeroed_def bench_malloc_free_def bench_calloc_free_def Let_def
    by blast
qed

text \<open>Reallocations that all fail: the heap stays, and the pointer to the block is lost.\<close>

lemma c_grow_fails:
  fixes w :: "'m process world"
  assumes "reallocates live (c_realloc L)" and "\<And>p sz m. fst (c_realloc L p sz m) = 0"
    and "holding live m0 p n (machine (rest w))" and "0 < n"
  shows "\<exists>v. c_grow L (Suc i) n p k w = k 0 v \<and> live (machine (rest v)) = live (machine (rest w))"
  using assms(3,4)
proof (induction i arbitrary: n p w m0)
  case 0
  have "holding live m0 p n (machine (rest (snd (call (lib (c_realloc L p (n * 2))) w))))"
    using assms(1,2) 0 unfolding reallocates_def machine_call by (metis mult_pos_pos zero_less_numeral)
  with 0 show ?case by (auto simp: calling_def split_beta assms(2) holding_def split: if_splits)
next
  case (Suc i)
  let ?v = "snd (call (lib (c_realloc L p (n * 2))) w)"
  have "holding live m0 p n (machine (rest ?v))"
    using assms(1,2) Suc.prems unfolding reallocates_def machine_call by (metis mult_pos_pos zero_less_numeral)
  then have same: "live (machine (rest ?v)) = live (machine (rest w))"
    using Suc.prems by (auto simp: holding_def split: if_splits)
  have "holding live (live (machine (rest ?v))) 0 (n * 2) (machine (rest ?v))" "0 < n * 2"
    using Suc.prems by (simp_all add: holding_def)
  from Suc.IH [OF this] obtain v where "c_grow L (Suc i) (n * 2) 0 k ?v = k 0 v"
    "live (machine (rest v)) = live (machine (rest ?v))" by blast
  with same show ?case by (auto simp: calling_def split_beta assms(2))
qed

text \<open>
  C40. Error: \<open>p = realloc(p, n)\<close> loses the block when the reallocation fails. If memory can be
  allocated but not reallocated, every round of the doubling row leaves one block behind.
\<close>
theorem realloc_grow_leaks:
  fixes w :: "'m process world"
  assumes "heap_law live L" and "\<And>p sz m. fst (c_realloc L p sz m) = 0" and "\<And>sz m. fst (c_malloc L sz m) \<noteq> 0"
    and "finite (dom (live (machine (rest w))))"
  shows "\<exists>w'. bench_realloc_grow L w = Some w'
    \<and> card (dom (live (machine (rest w')))) = card (dom (live (machine (rest w)))) + nat (b_n (bch w))"
proof -
  note law = heap_lawD [OF assms(1)]
  let ?grow = "\<lambda>_ :: int. calling (c_malloc L 16) (\<lambda>p. c_grow L 8 16 p (\<lambda>p. block [keep p, call_op (c_free L p)]))"
  let ?D = "\<lambda>v :: 'm process world. dom (live (machine (rest v)))"
  let ?I = "\<lambda>j v. finite (?D v) \<and> card (?D v) = card (?D w) + j"
  have "\<exists>w'. for_loop (nat (b_n (bch w))) 0 ?grow w = Some w' \<and> ?I (nat (b_n (bch w))) w'"
  proof (rule for_loop_total)
    fix j v assume v: "?I j v"
    let ?m0 = "live (machine (rest v))" and ?p = "fst (c_malloc L 16 (machine (rest v)))"
    let ?u = "snd (call (lib (c_malloc L 16)) v)"
    have h: "holding live ?m0 ?p 16 (machine (rest ?u))" using law(4) unfolding allocates_def machine_call by blast
    then have new: "?m0 ?p = None" "live (machine (rest ?u)) = ?m0(?p \<mapsto> 16)"
      using assms(3) by (auto simp: holding_def split: if_splits)
    from c_grow_fails [OF law(7) assms(2) h zero_less_numeral, of 7 "\<lambda>p. block [keep p, call_op (c_free L p)]"]
    obtain x where g: "c_grow L (Suc 7) 16 ?p (\<lambda>p. block [keep p, call_op (c_free L p)]) ?u
      = block [keep 0, call_op (c_free L 0)] x" and x: "live (machine (rest x)) = ?m0(?p \<mapsto> 16)"
      using new(2) by auto
    have "Suc 7 = (8 :: nat)" by simp
    with g have "?grow (int j) v = block [keep 0, call_op (c_free L 0)] x"
      by (simp only: calling_def split_beta Let_def) simp
    moreover have "holding live (?m0(?p \<mapsto> 16)) 0 16 (machine (rest x))" using x by (simp add: holding_def)
    from keep_and_free [OF law(6) this] obtain v' where
      "block [keep 0, call_op (c_free L 0)] x = Some v'" "live (machine (rest v')) = ?m0(?p \<mapsto> 16)" by blast
    ultimately have v': "?grow (int j) v = Some v'" "live (machine (rest v')) = ?m0(?p \<mapsto> 16)" by simp_all
    have "?D v' = insert ?p (?D v)" "?p \<notin> ?D v" using v'(2) new(1) by (simp_all add: domIff)
    then have "?I (Suc j) v'" using v by simp
    with v'(1) show "\<exists>v'. ?grow (0 + int j) v = Some v' \<and> ?I (Suc j) v'" by auto
  qed (use assms(4) in simp)
  then show ?thesis unfolding bench_realloc_grow_def bench_loop_def by auto
qed

section \<open>A heap that keeps the law\<close>

record blocks =
  block_size :: "nat \<Rightarrow> nat option"
  fresh :: nat

definition new_block :: "nat \<Rightarrow> (nat, blocks) op" where
  "new_block sz m = (Suc (fresh m), 1, m\<lparr>block_size := (block_size m)(Suc (fresh m) \<mapsto> sz), fresh := Suc (fresh m)\<rparr>)"

definition drop_block :: "nat \<Rightarrow> (unit, blocks) op" where
  "drop_block p m = ((), 1, if p = 0 then m else m\<lparr>block_size := (block_size m)(p := None)\<rparr>)"

definition block_heap :: "bool \<Rightarrow> blocks mem_lib" where
  "block_heap ok = \<lparr>heap_allocator = 1, mem_alloc = (\<lambda>a sz al. new_block sz), mem_alloc_nozero = (\<lambda>a sz al. new_block sz),
     mem_realloc = (\<lambda>a p k sz al m. (p, 1, m)), mem_free = (\<lambda>a p sz al. drop_block p), mem_reset = (\<lambda>a m. ((), 1, m)),
     track_init = (\<lambda>t a m. ((), 1, m)), track_set_quarantine = (\<lambda>t n m. ((), 1, m)), track_free = (\<lambda>t m. ((), 1, m)),
     c_malloc = new_block, c_calloc = (\<lambda>k. new_block),
     c_realloc = (\<lambda>p sz m. if \<not> ok then (0, 1, m) else if p = 0 then new_block sz m
       else (p, 1, m\<lparr>block_size := (block_size m)(p \<mapsto> sz)\<rparr>)), c_free = drop_block\<rparr>"

definition live_blocks :: "blocks \<Rightarrow> nat \<Rightarrow> nat option" where
  "live_blocks m p = (if 0 < p \<and> p \<le> fresh m then block_size m p else None)"

lemma block_heap_law: "heap_law live_blocks (block_heap ok)"
proof -
  have new: "allocates live_blocks sz (new_block sz)" for sz
    by (auto simp: allocates_def holding_def new_block_def live_blocks_def fun_eq_iff)
  have drop: "frees live_blocks sz drop_block" for sz
    unfolding frees_def
  proof (intro allI impI)
    fix m0 p m assume h: "holding live_blocks m0 p sz m"
    show "live_blocks (snd (snd (drop_block p m))) = m0"
    proof (cases "p = 0")
      case False
      with h have "live_blocks m = m0(p \<mapsto> sz)" "m0 p = None" by (simp_all add: holding_def)
      moreover have "live_blocks (snd (snd (drop_block p m))) = (live_blocks m)(p := None)"
        using False by (auto simp: drop_block_def live_blocks_def fun_eq_iff)
      ultimately show ?thesis by (simp add: fun_upd_idem)
    qed (use h in \<open>simp add: holding_def drop_block_def\<close>)
  qed
  have "reallocates live_blocks (c_realloc (block_heap ok))"
    unfolding reallocates_def
  proof (intro allI impI)
    fix m0 p k sz m assume h: "holding live_blocks m0 p k m" "0 < (sz :: nat)"
    let ?r = "c_realloc (block_heap ok) p sz m"
    show "if fst ?r = 0 then holding live_blocks m0 p k (snd (snd ?r)) else holding live_blocks m0 (fst ?r) sz (snd (snd ?r))"
    proof (cases "ok \<and> p \<noteq> 0")
      case True
      with h have m: "live_blocks m = m0(p \<mapsto> k)" "m0 p = None" by (simp_all add: holding_def)
      then have "live_blocks m p = Some k" by simp
      then have "0 < p" "p \<le> fresh m" by (auto simp: live_blocks_def split: if_splits)
      then have "live_blocks (m\<lparr>block_size := (block_size m)(p \<mapsto> sz)\<rparr>) = (live_blocks m)(p \<mapsto> sz)"
        by (auto simp: live_blocks_def fun_eq_iff)
      with True m show ?thesis by (simp add: block_heap_def holding_def)
    next
      case False
      with h new [of sz] show ?thesis by (auto simp: block_heap_def holding_def allocates_def new_block_def)
    qed
  qed
  with new drop show ?thesis by (simp add: heap_law_def block_heap_def)
qed

definition mem_world :: "int \<Rightarrow> blocks process world" where
  "mem_world n = \<lparr>bch = zero_bench\<lparr>b_n := n\<rparr>, kept = [], rest = \<lparr>clock = 0, int_var = (\<lambda>x. 0),
     u64_var = (\<lambda>x. 0), dbl_var = (\<lambda>x. 0), int_array = (\<lambda>x. []), str_array = (\<lambda>x. []),
     machine = \<lparr>block_size = (\<lambda>p. None), fresh = 0\<rparr>\<rparr>\<rparr>"

theorem arena_rounds_bounded_witness:
  "\<exists>w'. alloc_rounds (new_block 64) (\<lambda>m. ((), 1, m\<lparr>fresh := 0\<rparr>)) (mem_world 1025) = Some w'
    \<and> length (kept w') = 1025 \<and> fresh (machine (rest w')) = 0"
proof -
  have "arena_counts (new_block 64) (\<lambda>m. ((), 1, m\<lparr>fresh := 0\<rparr>)) fresh" by (simp add: arena_counts_def new_block_def)
  from arena_rounds_bounded [OF this, of "mem_world 1025"] show ?thesis by (auto simp: mem_world_def RESET_EVERY_def)
qed

theorem heap_rows_free_all_witness:
  "\<exists>w'. bench_realloc_grow (block_heap True) (mem_world 3) = Some w' \<and> live_blocks (machine (rest w')) = (\<lambda>p. None)"
proof -
  have "fst (c_realloc (block_heap True) p sz m) \<noteq> 0" for p sz m by (simp add: block_heap_def new_block_def)
  from heap_rows_free_all [OF block_heap_law this, of "bench_realloc_grow (block_heap True)" "mem_world 3"]
  moreover have "live_blocks (machine (rest (mem_world 3))) = (\<lambda>p. None)"
    by (auto simp: mem_world_def live_blocks_def fun_eq_iff)
  ultimately show ?thesis by simp
qed

theorem realloc_grow_leaks_witness:
  "\<exists>w'. bench_realloc_grow (block_heap False) (mem_world 3) = Some w' \<and> card (dom (live_blocks (machine (rest w')))) = 3"
proof -
  have none: "dom (live_blocks (machine (rest (mem_world 3)))) = {}" by (auto simp: mem_world_def live_blocks_def)
  have "fst (c_realloc (block_heap False) p sz m) = 0" "fst (c_malloc (block_heap False) sz m) \<noteq> 0" for p sz m
    by (simp_all add: block_heap_def new_block_def)
  from realloc_grow_leaks [OF block_heap_law this, of "mem_world 3"] none show ?thesis
    by (simp add: mem_world_def)
qed

end
