(* ===== verification/Slice_Bench.thy ===== *)
theory Slice_Bench
  imports Mem_Bench
begin

text \<open>
  \<open>bench/slice_bench.c\<close>: burrow's slices of integers, beside the loops over raw memory. A slice
  is its address, its elements and its capacity; an operation that panics on an index out of range
  gives \<open>None\<close>, and the row does not come back.
\<close>

record sl =
  sl_p :: nat
  elems :: "int list"
  sl_cap :: nat

record 'm slice_lib =
  slice_make :: "nat \<Rightarrow> nat \<Rightarrow> nat \<Rightarrow> (sl, 'm) op"
  append_one :: "nat \<Rightarrow> sl \<Rightarrow> int \<Rightarrow> (sl, 'm) op"
  slice_append :: "nat \<Rightarrow> sl \<Rightarrow> int list \<Rightarrow> (sl, 'm) op"
  at_set :: "sl \<Rightarrow> int \<Rightarrow> int \<Rightarrow> (sl option, 'm) op"
  at_get :: "sl \<Rightarrow> int \<Rightarrow> (int option, 'm) op"
  slice_at :: "sl \<Rightarrow> int \<Rightarrow> (int option, 'm) op"
  slice_sub :: "sl \<Rightarrow> int \<Rightarrow> int \<Rightarrow> (sl option, 'm) op"
  slice_copy :: "sl \<Rightarrow> sl \<Rightarrow> (int, 'm) op"
  slice_from_str :: "nat \<Rightarrow> string \<Rightarrow> (nat, 'm) op"

definition SLICE_N :: nat where "SLICE_N = 1024"
definition CHUNK :: nat where "CHUNK = 64"

definition slice_nil :: sl where
  "slice_nil = \<lparr>sl_p = 0, elems = [], sl_cap = 0\<rparr>"

definition slice_text :: string where
  "slice_text = ''the quick brown fox jumps over the lazy dog, and then does it again''"

definition chunk :: "'m process \<Rightarrow> int list" where
  "chunk p = int_array p ''chunk''"

definition fill_chunk :: "'m cstmt" where
  "fill_chunk = set_ints ''chunk'' (map int [0..<CHUNK])"

text \<open>The result of an operation that may panic.\<close>

definition or_panic :: "('a option, 'm) op \<Rightarrow> ('a \<Rightarrow> 'm cstmt) \<Rightarrow> 'm cstmt" where
  "or_panic f k = calling f (\<lambda>r. checked r k)"

section \<open>Appending\<close>

text \<open>The loop that appends \<open>i\<close>, \<open>i + 1\<close>, ... with an operation that appends one element.\<close>

fun append_all :: "(sl \<Rightarrow> int \<Rightarrow> (sl, 'm) op) \<Rightarrow> nat \<Rightarrow> int \<Rightarrow> sl \<Rightarrow> (sl \<Rightarrow> 'm cstmt) \<Rightarrow> 'm cstmt" where
  "append_all app 0 i s k = k s"
| "append_all app (Suc j) i s k = calling (app s i) (\<lambda>s. append_all app j (i + 1) s k)"

fun append_chunks :: "(sl \<Rightarrow> (sl, 'm) op) \<Rightarrow> nat \<Rightarrow> sl \<Rightarrow> (sl \<Rightarrow> 'm cstmt) \<Rightarrow> 'm cstmt" where
  "append_chunks app 0 s k = k s"
| "append_chunks app (Suc j) s k = calling (app s) (\<lambda>s. append_chunks app j s k)"

definition bench_slice_append_grow :: "'m host \<Rightarrow> 'm arena_lib \<Rightarrow> 'm slice_lib \<Rightarrow> 'm cstmt" where
  "bench_slice_append_grow h A L = (let a = addr h ''slice.ar'' in
     reported_arena A a (resetting A a (append_all (append_one L a) SLICE_N 0 slice_nil (\<lambda>s. keep (sl_p s)))))"

definition bench_slice_append_prealloc :: "'m host \<Rightarrow> 'm arena_lib \<Rightarrow> 'm slice_lib \<Rightarrow> 'm cstmt" where
  "bench_slice_append_prealloc h A L = (let a = addr h ''slice.ar'' in
     reported_arena A a (resetting A a (calling (slice_make L a 0 SLICE_N) (\<lambda>s.
       append_all (append_one L a) SLICE_N 0 s (\<lambda>s. keep (sl_p s))))))"

definition bench_slice_append_bulk :: "'m host \<Rightarrow> 'm arena_lib \<Rightarrow> 'm slice_lib \<Rightarrow> 'm cstmt" where
  "bench_slice_append_bulk h A L = (let a = addr h ''slice.ar'' in
     reported_arena A a (block [fill_chunk, resetting A a (reading chunk (\<lambda>c.
       append_chunks (\<lambda>s. slice_append L a s c) (SLICE_N div CHUNK) slice_nil (\<lambda>s. keep (sl_p s))))]))"

definition bench_slice_append_call :: "'m host \<Rightarrow> 'm arena_lib \<Rightarrow> 'm slice_lib \<Rightarrow> 'm cstmt" where
  "bench_slice_append_call h A L = (let a = addr h ''slice.ar'' in
     reported_arena A a (resetting A a (calling (slice_make L a 0 SLICE_N) (\<lambda>s.
       append_all (\<lambda>s i. slice_append L a s [i]) SLICE_N 0 s (\<lambda>s. keep (sl_p s))))))"

text \<open>Raw memory that is written from the front: \<open>slice.raw\<close> is the part that has been written.\<close>

definition write_raw :: "'m cstmt" where
  "write_raw = block [
     set_ints ''slice.raw'' [],
     repeat_for SLICE_N (\<lambda>i. reading (\<lambda>p. int_array p ''slice.raw'') (\<lambda>xs. set_ints ''slice.raw'' (xs @ [i])))]"

definition bench_raw_append_prealloc :: "'m host \<Rightarrow> 'm arena_lib \<Rightarrow> 'm mem_lib \<Rightarrow> 'm cstmt" where
  "bench_raw_append_prealloc h A M = (let a = addr h ''slice.ar'' in
     reported_arena A a (resetting A a (calling (mem_alloc_nozero M a (SLICE_N * 8) 8) (\<lambda>p. block [
       if p \<noteq> 0 then write_raw else Some,
       keep p]))))"

section \<open>Making\<close>

definition bench_slice_make :: "'m host \<Rightarrow> 'm arena_lib \<Rightarrow> 'm slice_lib \<Rightarrow> 'm cstmt" where
  "bench_slice_make h A L = (let a = addr h ''slice.ar'' in
     reported_arena A a (resetting A a (calling (slice_make L a SLICE_N SLICE_N) (\<lambda>s. keep (sl_p s)))))"

definition bench_calloc_1k :: "'m mem_lib \<Rightarrow> 'm cstmt" where
  "bench_calloc_1k M = alloc_and_free (c_calloc M SLICE_N 8) (c_free M)"

section \<open>Indexing\<close>

text \<open>\<open>BURROW_AT(Int, s, i) = i\<close> for \<open>j\<close> indices from \<open>i\<close> on.\<close>

fun write_all :: "'m slice_lib \<Rightarrow> nat \<Rightarrow> int \<Rightarrow> sl \<Rightarrow> (sl \<Rightarrow> 'm cstmt) \<Rightarrow> 'm cstmt" where
  "write_all L 0 i s k = k s"
| "write_all L (Suc j) i s k = or_panic (at_set L s i i) (\<lambda>s. write_all L j (i + 1) s k)"

definition index_rows :: "'m host \<Rightarrow> 'm arena_lib \<Rightarrow> 'm slice_lib \<Rightarrow> (sl \<Rightarrow> int \<Rightarrow> (int option, 'm) op) \<Rightarrow> 'm cstmt" where
  "index_rows h A L get_at = (let a = addr h ''slice.ar'' in
     scratch_arena A a (calling (slice_make L a SLICE_N SLICE_N) (\<lambda>s. write_all L SLICE_N 0 s (\<lambda>s.
       bench_loop (\<lambda>_. u64_sum CHUNK (\<lambda>i k. or_panic (get_at s i) (\<lambda>v. k (of_int v))))))))"

definition bench_slice_index :: "'m host \<Rightarrow> 'm arena_lib \<Rightarrow> 'm slice_lib \<Rightarrow> 'm cstmt" where
  "bench_slice_index h A L = index_rows h A L (at_get L)"

definition bench_slice_index_call :: "'m host \<Rightarrow> 'm arena_lib \<Rightarrow> 'm slice_lib \<Rightarrow> 'm cstmt" where
  "bench_slice_index_call h A L = index_rows h A L (slice_at L)"

text \<open>A null pointer is not tested for here: writing through it is undefined.\<close>

definition bench_raw_index_int :: "'m host \<Rightarrow> 'm arena_lib \<Rightarrow> 'm mem_lib \<Rightarrow> 'm cstmt" where
  "bench_raw_index_int h A M = (let a = addr h ''slice.ar'' in
     scratch_arena A a (calling (mem_alloc M a (SLICE_N * 8) 8) (\<lambda>p. if p = 0 then aborting else block [
       write_raw,
       reading (\<lambda>p. int_array p ''slice.raw'') (\<lambda>xs. bench_loop (\<lambda>_.
         u64_sum CHUNK (\<lambda>i k. k (of_int (xs ! nat i)))))])))"

section \<open>Reslicing and copying\<close>

definition bench_slice_sub :: "'m host \<Rightarrow> 'm arena_lib \<Rightarrow> 'm slice_lib \<Rightarrow> 'm cstmt" where
  "bench_slice_sub h A L = (let a = addr h ''slice.ar'' in
     scratch_arena A a (calling (slice_make L a SLICE_N SLICE_N) (\<lambda>s. bench_loop (\<lambda>_.
       or_panic (slice_sub L s 1 (int SLICE_N - 1)) (\<lambda>m. block [
         keep (sl_p m), keep_u64 (of_nat (length (elems m)))])))))"

definition bench_slice_copy :: "'m host \<Rightarrow> 'm arena_lib \<Rightarrow> 'm slice_lib \<Rightarrow> 'm cstmt" where
  "bench_slice_copy h A L = (let a = addr h ''slice.ar'' in
     scratch_arena A a (calling (slice_make L a SLICE_N SLICE_N) (\<lambda>src.
       calling (slice_make L a SLICE_N SLICE_N) (\<lambda>dst.
         bench_loop (\<lambda>_. calling (slice_copy L dst src) (\<lambda>n. keep_u64 (of_int n)))))))"

definition bench_memcpy_same_size :: "'m host \<Rightarrow> 'm arena_lib \<Rightarrow> 'm mem_lib \<Rightarrow> 'm cstmt" where
  "bench_memcpy_same_size h A M = (let a = addr h ''slice.ar'' in
     scratch_arena A a (calling (mem_alloc M a (SLICE_N * 8) 8) (\<lambda>src. calling (mem_alloc M a (SLICE_N * 8) 8) (\<lambda>dst.
       bench_loop (\<lambda>_. if src = 0 \<or> dst = 0 then aborting else keep dst)))))"

definition bench_slice_from_str_medium :: "'m host \<Rightarrow> 'm arena_lib \<Rightarrow> 'm slice_lib \<Rightarrow> 'm cstmt" where
  "bench_slice_from_str_medium h A L = (let a = addr h ''slice.ar'' in
     reported_arena A a (resetting A a (calling (slice_from_str L a slice_text) keep)))"

definition slice_table :: "'m host \<Rightarrow> 'm arena_lib \<Rightarrow> 'm mem_lib \<Rightarrow> 'm slice_lib \<Rightarrow> (string \<times> 'm cstmt) list" where
  "slice_table h A M L = [
     (''slice_append_grow'', bench_slice_append_grow h A L),
     (''slice_append_prealloc'', bench_slice_append_prealloc h A L),
     (''slice_append_bulk'', bench_slice_append_bulk h A L), (''slice_append_call'', bench_slice_append_call h A L),
     (''raw_append_prealloc'', bench_raw_append_prealloc h A M), (''slice_make'', bench_slice_make h A L),
     (''calloc_1k'', bench_calloc_1k M), (''slice_index'', bench_slice_index h A L),
     (''slice_index_call'', bench_slice_index_call h A L), (''raw_index_int'', bench_raw_index_int h A M),
     (''slice_sub'', bench_slice_sub h A L), (''slice_copy'', bench_slice_copy h A L),
     (''memcpy_same_size'', bench_memcpy_same_size h A M),
     (''slice_from_str_medium'', bench_slice_from_str_medium h A L)]"

section \<open>The contract\<close>

lemma or_panic_moves [contract_rules]:
  "(\<And>x. does (advances clock) (k x)) \<Longrightarrow> does (advances clock) (or_panic f k)"
  unfolding or_panic_def by (intro contract_rules)

lemma append_moves [contract_rules]:
  "(\<And>s. does (advances clock) (k s)) \<Longrightarrow> does (advances clock) (append_all app j i s k)"
  "(\<And>s. does (advances clock) (k s)) \<Longrightarrow> does (advances clock) (append_chunks app2 j s k)"
  "(\<And>s. does (advances clock) (k s)) \<Longrightarrow> does (advances clock) (write_all L j i s k)"
  by (induction j arbitrary: i s) (auto intro!: contract_rules)

lemma slice_parts_move [contract_rules]:
  "does (advances clock) fill_chunk" "does (advances clock) write_raw"
  "does (advances clock) (index_rows h A L get_at)"
  unfolding fill_chunk_def write_raw_def index_rows_def Let_def by (intro contract_rules)+

lemmas slice_bodies = bench_slice_append_grow_def bench_slice_append_prealloc_def bench_slice_append_bulk_def
  bench_slice_append_call_def bench_raw_append_prealloc_def bench_slice_make_def bench_calloc_1k_def
  bench_slice_index_def bench_slice_index_call_def bench_raw_index_int_def bench_slice_sub_def
  bench_slice_copy_def bench_memcpy_same_size_def bench_slice_from_str_medium_def

lemma slice_table_moves:
  "(nm, f) \<in> set (slice_table h A M L) \<Longrightarrow> does (advances clock) f"
  unfolding slice_table_def slice_bodies Let_def
  by (auto intro!: contract_rules simp del: block.simps)

section \<open>What the appends build\<close>

text \<open>
  The documented results. Making a slice gives zeros, appending puts the elements at the end,
  reading and writing are in range or panic, and a copy moves as much as both have room for.
\<close>

definition slice_law :: "'m slice_lib \<Rightarrow> bool" where
  "slice_law L \<longleftrightarrow> (\<forall>a n c m. elems (fst (slice_make L a n c m)) = replicate n 0)
     \<and> (\<forall>a s x m. elems (fst (append_one L a s x m)) = elems s @ [x])
     \<and> (\<forall>a s xs m. elems (fst (slice_append L a s xs m)) = elems s @ xs)
     \<and> (\<forall>s j x m. j < length (elems s) \<longrightarrow>
          fst (at_set L s (int j) x m) = Some (s\<lparr>elems := (elems s)[j := x]\<rparr>))
     \<and> (\<forall>s j m. j < length (elems s) \<longrightarrow> fst (at_get L s (int j) m) = Some (elems s ! j))
     \<and> (\<forall>s j m. j < length (elems s) \<longrightarrow> fst (slice_at L s (int j) m) = Some (elems s ! j))
     \<and> (\<forall>d s m. fst (slice_copy L d s m) = int (min (length (elems d)) (length (elems s))))"

lemma slice_lawD:
  assumes "slice_law L"
  shows "elems (fst (slice_make L a n c m)) = replicate n 0"
    "elems (fst (append_one L a s x m)) = elems s @ [x]"
    "elems (fst (slice_append L a s xs m)) = elems s @ xs"
    "j < length (elems s) \<Longrightarrow> fst (at_set L s (int j) x m) = Some (s\<lparr>elems := (elems s)[j := x]\<rparr>)"
    "j < length (elems s) \<Longrightarrow> fst (at_get L s (int j) m) = Some (elems s ! j)"
    "j < length (elems s) \<Longrightarrow> fst (slice_at L s (int j) m) = Some (elems s ! j)"
    "fst (slice_copy L d s m) = int (min (length (elems d)) (length (elems s)))"
  by (insert assms [unfolded slice_law_def], (elim conjE, (blast | metis))+)

lemma append_all_builds:
  assumes "\<And>s x m. elems (fst (app s x m)) = elems s @ [x]"
  shows "\<exists>t v. append_all app j i s k w = k t v \<and> elems t = elems s @ map (\<lambda>x. i + int x) [0..<j]"
proof (induction j arbitrary: i s w)
  case 0
  then show ?case by (intro exI [of _ s] exI [of _ w]) simp
next
  case (Suc j)
  let ?t = "fst (app s i (machine (rest w)))" and ?v = "snd (call (lib (app s i)) w)"
  obtain t v where "append_all app j (i + 1) ?t k ?v = k t v"
    "elems t = elems ?t @ map (\<lambda>x. i + 1 + int x) [0..<j]" using Suc by blast
  moreover have "map (\<lambda>x. i + int x) [0..<Suc j] = i # map (\<lambda>x. i + 1 + int x) [0..<j]"
    by (simp only: upt_conv_Cons map_Suc_upt [symmetric] zero_less_Suc list.map map_map) (simp add: algebra_simps)
  ultimately show ?case
    by (intro exI [of _ t] exI [of _ v]) (simp add: calling_def split_beta assms)
qed

lemma append_chunks_builds:
  assumes "\<And>s m. elems (fst (app s m)) = elems s @ c"
  shows "\<exists>t v. append_chunks app j s k w = k t v \<and> elems t = elems s @ concat (replicate j c)"
proof (induction j arbitrary: s w)
  case 0
  then show ?case by (intro exI [of _ s] exI [of _ w]) simp
next
  case (Suc j)
  let ?t = "fst (app s (machine (rest w)))" and ?v = "snd (call (lib (app s)) w)"
  obtain t v where "append_chunks app j ?t k ?v = k t v" "elems t = elems ?t @ concat (replicate j c)" using Suc by blast
  then show ?case by (intro exI [of _ t] exI [of _ v]) (simp add: calling_def split_beta assms)
qed

lemma write_all_run:
  assumes "slice_law L" and "length (elems s) = i + j" and "take i (elems s) = map int [0..<i]"
  shows "\<exists>t v. write_all L j (int i) s k w = k t v \<and> elems t = map int [0..<i + j] \<and> kept v = kept w
    \<and> b_n (bch v) = b_n (bch w)"
  using assms(2,3)
proof (induction j arbitrary: i s w)
  case 0
  then show ?case by (intro exI [of _ s] exI [of _ w]) simp
next
  case (Suc j)
  let ?t = "s\<lparr>elems := (elems s)[i := int i]\<rparr>" and ?v = "snd (call (lib (at_set L s (int i) (int i))) w)"
  have "take (Suc i) (elems ?t) = map int [0..<Suc i]"
    using Suc.prems by (simp add: take_Suc_conv_app_nth)
  moreover have "length (elems ?t) = Suc i + j" using Suc.prems by simp
  ultimately obtain t v where "write_all L j (int (Suc i)) ?t k ?v = k t v" "elems t = map int [0..<Suc i + j]"
    "kept v = kept ?v" "b_n (bch v) = b_n (bch ?v)" using Suc.IH by blast
  moreover have "fst (at_set L s (int i) (int i) m) = Some ?t" for m
    using Suc.prems by (intro slice_lawD(4) [OF assms(1)]) simp
  ultimately show ?case
    by (intro exI [of _ t] exI [of _ v]) (simp add: or_panic_def calling_def checked_def split_beta add.commute)
qed

lemma gives_index_rows:
  assumes "slice_law L" and "\<And>s j m. j < length (elems s) \<Longrightarrow> fst (get_at s (int j) m) = Some (elems s ! j)"
  shows "gives (\<lambda>n. replicate (nat n) (KeptU64 2016)) (index_rows h A L get_at)"
proof -
  have body: "gives (\<lambda>n. [KeptU64 2016]) (u64_sum CHUNK (\<lambda>i k. or_panic (get_at s i) (\<lambda>v. k (of_int v))))"
    if s: "elems s = map int [0..<SLICE_N]" for s
  proof -
    have "passes (\<lambda>i k. or_panic (get_at s i) (\<lambda>v. k (of_int v))) j (of_nat j)" if "j < CHUNK" for j
      unfolding passes_def or_panic_def
    proof (intro allI)
      fix k :: "u64 \<Rightarrow> 'a cstmt" and w
      have "fst (get_at s (int j) m) = Some (int j)" for m
        using assms(2) [of j s m] that by (simp add: s CHUNK_def SLICE_N_def)
      then show "\<exists>u. calling (get_at s (int j)) (\<lambda>r. checked r (\<lambda>v. k (of_int v))) w = k (of_nat j) u
          \<and> kept u = kept w \<and> b_n (bch u) = b_n (bch w) \<and> u64_var (rest u) = u64_var (rest w)"
        by (intro exI [of _ "snd (call (lib (get_at s (int j))) w)"]) (simp add: calling_def split_beta checked_def)
    qed
    moreover have "sum_list (map of_nat [0..<CHUNK]) = (2016 :: u64)" unfolding CHUNK_def by code_simp
    ultimately show ?thesis using gives_u64_sum [where k = CHUNK and f = of_nat] by auto
  qed
  show ?thesis
    unfolding index_rows_def Let_def
  proof (intro gives_scratch gives_calling givesI)
    fix m and w :: "'a process world"
    let ?s = "fst (slice_make L (addr h ''slice.ar'') SLICE_N SLICE_N m)"
    let ?k = "\<lambda>s. bench_loop (\<lambda>_. u64_sum CHUNK (\<lambda>i k. or_panic (get_at s i) (\<lambda>v. k (of_int v))))"
    obtain t v where "write_all L SLICE_N (int 0) ?s ?k w = ?k t v" and t: "elems t = map int [0..<SLICE_N]"
      and v: "kept v = kept w" "b_n (bch v) = b_n (bch w)"
      using write_all_run [OF assms(1), of ?s 0 SLICE_N ?k w] slice_lawD(1) [OF assms(1)] by auto
    moreover obtain w' where "?k t v = Some w'" "kept w' = kept v @ replicate (nat (b_n (bch v))) (KeptU64 2016)"
      "b_n (bch w') = b_n (bch v)" using gives_loop_same [OF body [OF t]] by (rule givesD)
    ultimately show "\<exists>w'. write_all L SLICE_N 0 ?s ?k w = Some w'
        \<and> kept w' = kept w @ replicate (nat (b_n (bch w))) (KeptU64 2016) \<and> b_n (bch w') = b_n (bch w)"
      by auto
  qed
qed

lemma write_raw_run:
  fixes w :: "'m process world"
  shows "\<exists>v. write_raw w = Some v \<and> int_array (rest v) ''slice.raw'' = map int [0..<SLICE_N] \<and> kept v = kept w
    \<and> b_n (bch v) = b_n (bch w)"
proof -
  let ?body = "\<lambda>i. reading (\<lambda>p. int_array p ''slice.raw'') (\<lambda>xs. set_ints ''slice.raw'' (xs @ [i]))"
  let ?v = "perform (\<lambda>p. p\<lparr>int_array := (int_array p)(''slice.raw'' := [])\<rparr>) w"
  let ?I = "\<lambda>j v :: 'm process world. int_array (rest v) ''slice.raw'' = map int [0..<j] \<and> kept v = kept w
    \<and> b_n (bch v) = b_n (bch w)"
  have "\<exists>x. for_loop SLICE_N 0 ?body ?v = Some x \<and> ?I SLICE_N x"
    by (rule for_loop_total) (simp_all add: reading_def set_ints_def assign_def)
  then show ?thesis by (auto simp: write_raw_def repeat_for_def set_ints_def assign_def)
qed

lemma gives_raw_index:
  assumes "\<And>a n al m. fst (mem_alloc M a n al m) \<noteq> 0"
  shows "gives (\<lambda>n. replicate (nat n) (KeptU64 2016)) (bench_raw_index_int h A M)"
proof -
  have sum: "sum_list (map of_nat [0..<CHUNK]) = (2016 :: u64)" unfolding CHUNK_def by code_simp
  have "passes (\<lambda>i k. k (of_int (map int [0..<SLICE_N] ! nat i))) j (of_nat j)" if "j < CHUNK" for j
    using that by (intro passes_direct) (simp add: CHUNK_def SLICE_N_def del: upt_rec_numeral)
  then have "gives (\<lambda>n. [KeptU64 2016]) (u64_sum CHUNK (\<lambda>i k. k (of_int (map int [0..<SLICE_N] ! nat i))))"
    using gives_u64_sum [where k = CHUNK and f = of_nat] sum by auto
  note row = gives_loop_same [OF this]
  show ?thesis
    unfolding bench_raw_index_int_def Let_def
  proof (intro gives_scratch gives_calling givesI)
    fix m and w :: "'a process world"
    obtain v where v: "write_raw w = Some v" "int_array (rest v) ''slice.raw'' = map int [0..<SLICE_N]"
      "kept v = kept w" "b_n (bch v) = b_n (bch w)" using write_raw_run by blast
    obtain w' where "bench_loop (\<lambda>_. u64_sum CHUNK (\<lambda>i k. k (of_int (map int [0..<SLICE_N] ! nat i)))) v = Some w'"
      "kept w' = kept v @ replicate (nat (b_n (bch v))) (KeptU64 2016)" "b_n (bch w') = b_n (bch v)"
      using row by (rule givesD)
    with v show "\<exists>w'. (if fst (mem_alloc M (addr h ''slice.ar'') (SLICE_N * 8) 8 m) = 0 then aborting
        else block [write_raw, reading (\<lambda>p. int_array p ''slice.raw'') (\<lambda>xs. bench_loop (\<lambda>_.
          u64_sum CHUNK (\<lambda>i k. k (of_int (xs ! nat i)))))]) w = Some w'
      \<and> kept w' = kept w @ replicate (nat (b_n (bch w))) (KeptU64 2016) \<and> b_n (bch w') = b_n (bch w)"
      by (simp add: assms reading_def)
  qed
qed

text \<open>
  Equivalence: the checked reads through the macro, the calls to \<open>slice_at\<close> and the reads of raw
  memory sum the same 64 numbers. When memory is there and the operations in range do what they
  document, each of the three rows hands 2016 to the sink in every round.
\<close>
theorem slice_index_rows_agree:
  assumes "slice_law L" and "\<And>a n al m. fst (mem_alloc M a n al m) \<noteq> 0"
    and "f \<in> {bench_slice_index h A L, bench_slice_index_call h A L, bench_raw_index_int h A M}"
  shows "\<exists>w'. f w = Some w' \<and> kept w' = kept w @ replicate (nat (b_n (bch w))) (KeptU64 2016)"
proof -
  have "gives (\<lambda>n. replicate (nat n) (KeptU64 2016)) (bench_slice_index h A L)"
    "gives (\<lambda>n. replicate (nat n) (KeptU64 2016)) (bench_slice_index_call h A L)"
    unfolding bench_slice_index_def bench_slice_index_call_def
    by (rule gives_index_rows [OF assms(1)], rule slice_lawD(5,6) [OF assms(1)], assumption)+
  with gives_raw_index [OF assms(2)] assms(3) have "gives (\<lambda>n. replicate (nat n) (KeptU64 2016)) f" by blast
  then show ?thesis by (rule givesD [where w = w]) blast
qed

text \<open>
  Functional: what the appends build before the arena is reset. Appending one by one to nothing, to
  a slice with room, or through the call builds the numbers below 1024 in order, whatever
  the growth; the sixteen bulk appends build as many elements, the numbers below 64 sixteen times.
\<close>
theorem slice_appends_build:
  assumes "slice_law L"
  shows "(\<exists>s v. append_all (append_one L a) SLICE_N 0 slice_nil k w = k s v \<and> elems s = map int [0..<SLICE_N])
    \<and> (\<forall>t. elems t = [] \<longrightarrow>
        (\<exists>s v. append_all (append_one L a) SLICE_N 0 t k w = k s v \<and> elems s = map int [0..<SLICE_N])
      \<and> (\<exists>s v. append_all (\<lambda>s i. slice_append L a s [i]) SLICE_N 0 t k w = k s v \<and> elems s = map int [0..<SLICE_N]))
    \<and> (\<exists>s v. append_chunks (\<lambda>s. slice_append L a s (map int [0..<CHUNK])) (SLICE_N div CHUNK) slice_nil k w = k s v
        \<and> elems s = concat (replicate 16 (map int [0..<64])) \<and> length (elems s) = SLICE_N)"
proof -
  have "elems slice_nil = []" by (simp add: slice_nil_def)
  note one = append_all_builds [where app = "append_one L a" and j = SLICE_N and i = 0 and k = k and w = w, OF slice_lawD(2) [OF assms]]
  note call = append_all_builds [where app = "\<lambda>s i. slice_append L a s [i]" and j = SLICE_N and i = 0 and k = k and w = w,
    OF slice_lawD(3) [OF assms]]
  have len: "length (concat (replicate 16 (map int [0..<64]))) = SLICE_N"
    by (simp add: SLICE_N_def length_concat sum_list_replicate del: upt_rec_numeral)
  have "SLICE_N div CHUNK = 16" by (simp add: SLICE_N_def CHUNK_def)
  then have bulk: "\<exists>s v. append_chunks (\<lambda>s. slice_append L a s (map int [0..<CHUNK])) (SLICE_N div CHUNK) slice_nil k w = k s v
      \<and> elems s = concat (replicate 16 (map int [0..<64])) \<and> length (elems s) = SLICE_N"
    using append_chunks_builds [where app = "\<lambda>s. slice_append L a s (map int [0..<CHUNK])" and j = 16
        and s = slice_nil and k = k and w = w, OF slice_lawD(3) [OF assms]] len \<open>elems slice_nil = []\<close>
    unfolding CHUNK_def by auto
  have each: "\<exists>s v. append_all (append_one L a) SLICE_N 0 t k w = k s v \<and> elems s = map int [0..<SLICE_N]"
    "\<exists>s v. append_all (\<lambda>s i. slice_append L a s [i]) SLICE_N 0 t k w = k s v \<and> elems s = map int [0..<SLICE_N]"
    if "elems t = []" for t
    using one [of t] call [of t] that by simp_all
  show ?thesis by (intro conjI allI impI each bulk \<open>elems slice_nil = []\<close>)
qed

definition list_slices :: "unit slice_lib" where
  "list_slices = \<lparr>slice_make = (\<lambda>a n c m. (\<lparr>sl_p = 8, elems = replicate n 0, sl_cap = c\<rparr>, 1, m)),
     append_one = (\<lambda>a s x m. (s\<lparr>elems := elems s @ [x]\<rparr>, 1, m)),
     slice_append = (\<lambda>a s xs m. (s\<lparr>elems := elems s @ xs\<rparr>, 1, m)),
     at_set = (\<lambda>s i x m. (if 0 \<le> i \<and> nat i < length (elems s) then Some (s\<lparr>elems := (elems s)[nat i := x]\<rparr>) else None, 1, m)),
     at_get = (\<lambda>s i m. (if 0 \<le> i \<and> nat i < length (elems s) then Some (elems s ! nat i) else None, 1, m)),
     slice_at = (\<lambda>s i m. (if 0 \<le> i \<and> nat i < length (elems s) then Some (elems s ! nat i) else None, 1, m)),
     slice_sub = (\<lambda>s i j m. (Some s, 1, m)),
     slice_copy = (\<lambda>d s m. (int (min (length (elems d)) (length (elems s))), 1, m)),
     slice_from_str = (\<lambda>a s m. (8, 1, m))\<rparr>"

lemma list_slices_law: "slice_law list_slices"
  by (simp add: slice_law_def list_slices_def)

definition idle_mem :: "unit mem_lib" where
  "idle_mem = \<lparr>heap_allocator = 1, mem_alloc = (\<lambda>a n al m. (8, 1, m)), mem_alloc_nozero = (\<lambda>a n al m. (8, 1, m)),
     mem_realloc = (\<lambda>a p k n al m. (8, 1, m)), mem_free = (\<lambda>a p n al m. ((), 1, m)), mem_reset = (\<lambda>a m. ((), 1, m)),
     track_init = (\<lambda>t a m. ((), 1, m)), track_set_quarantine = (\<lambda>t n m. ((), 1, m)), track_free = (\<lambda>t m. ((), 1, m)),
     c_malloc = (\<lambda>n m. (8, 1, m)), c_calloc = (\<lambda>k n m. (8, 1, m)), c_realloc = (\<lambda>p n m. (8, 1, m)),
     c_free = (\<lambda>p m. ((), 1, m))\<rparr>"

definition slice_world :: "int \<Rightarrow> unit process world" where
  "slice_world n = \<lparr>bch = zero_bench\<lparr>b_n := n\<rparr>, kept = [], rest = \<lparr>clock = 0, int_var = (\<lambda>x. 0),
     u64_var = (\<lambda>x. 0), dbl_var = (\<lambda>x. 0), int_array = (\<lambda>x. []), str_array = (\<lambda>x. []), machine = ()\<rparr>\<rparr>"

theorem slice_index_rows_agree_witness:
  "\<exists>w'. bench_raw_index_int (exact_host (\<lambda>x. 8) (\<lambda>x. 0)) still_arena idle_mem (slice_world 2) = Some w'
    \<and> kept w' = [KeptU64 2016, KeptU64 2016]"
proof -
  have "fst (mem_alloc idle_mem a n al m) \<noteq> 0" for a n al m by (simp add: idle_mem_def)
  from slice_index_rows_agree [OF list_slices_law this, of "bench_raw_index_int (exact_host (\<lambda>x. 8) (\<lambda>x. 0)) still_arena idle_mem"
      "exact_host (\<lambda>x. 8) (\<lambda>x. 0)" still_arena "slice_world 2"]
  show ?thesis by (simp add: slice_world_def numeral_2_eq_2)
qed

theorem slice_appends_build_witness:
  "\<exists>(s :: sl) v. append_all (append_one list_slices 8) SLICE_N 0 slice_nil (\<lambda>s. keep (sl_p s)) (slice_world 1) = keep (sl_p s) v
    \<and> elems s = map int [0..<SLICE_N]"
  using slice_appends_build [OF list_slices_law, where a = 8 and k = "\<lambda>s. keep (sl_p s)" and w = "slice_world 1"]
  by (rule conjunct1)

end
