(* ===== verification/Utf8_Bench.thy ===== *)
theory Utf8_Bench
  imports Answers Printf
begin

unbundle bit_operations_syntax

text \<open>
  \<open>bench/utf8_bench.c\<close>: decoding, counting, validating and encoding UTF-8. The first section is the
  encoding of the Unicode standard, which the contract of burrow's functions refers to; the texts,
  the loops over bytes and the rows are the file's.
\<close>

section \<open>The encoding\<close>

definition is_scalar :: "int \<Rightarrow> bool" where
  "is_scalar r \<longleftrightarrow> 0 \<le> r \<and> r < 0xD800 \<or> 0xE000 \<le> r \<and> r \<le> 0x10FFFF"

definition rune_bytes :: "nat \<Rightarrow> nat list" where
  "rune_bytes r =
     (if r < 0x80 then [r]
      else if r < 0x800 then [0xC0 + r div 64, 0x80 + r mod 64]
      else if r < 0x10000 then [0xE0 + r div 4096, 0x80 + r div 64 mod 64, 0x80 + r mod 64]
      else [0xF0 + r div 262144, 0x80 + r div 4096 mod 64, 0x80 + r div 64 mod 64, 0x80 + r mod 64])"

definition encode_rune :: "int \<Rightarrow> string" where
  "encode_rune r = map char_of (rune_bytes (nat r))"

definition encoding :: "int list \<Rightarrow> string" where
  "encoding rs = concat (map encode_rune rs)"

text \<open>The bytes of a text are read back by the lead byte. A byte that starts no rune stands for itself.\<close>

definition payload :: "nat list \<Rightarrow> nat" where
  "payload bs = (case bs of
       [a, b] \<Rightarrow> a mod 32 * 64 + b mod 64
     | [a, b, c] \<Rightarrow> a mod 16 * 4096 + b mod 64 * 64 + c mod 64
     | [a, b, c, d] \<Rightarrow> a mod 8 * 262144 + b mod 64 * 4096 + c mod 64 * 64 + d mod 64
     | _ \<Rightarrow> hd bs)"

definition rune_size :: "nat \<Rightarrow> nat" where
  "rune_size a = (if a < 0xC0 then 1 else if a < 0xE0 then 2 else if a < 0xF0 then 3 else 4)"

fun decode_from :: "nat \<Rightarrow> nat list \<Rightarrow> int list" where
  "decode_from k [] = []"
| "decode_from 0 bs = []"
| "decode_from (Suc k) (a # bs) = int (payload (take (rune_size a) (a # bs))) # decode_from k (drop (rune_size a) (a # bs))"

definition decode_text :: "string \<Rightarrow> int list" where
  "decode_text s = decode_from (length s) (map of_char s)"

lemma rune_bytes_range: "r \<le> 0x10FFFF \<Longrightarrow> b \<in> set (rune_bytes r) \<Longrightarrow> b < 256"
proof -
  assume r: "r \<le> 0x10FFFF" and b: "b \<in> set (rune_bytes r)"
  have "r mod 64 < 64" "r div 64 mod 64 < 64" "r div 4096 mod 64 < 64" by simp_all
  moreover have "r < 0x800 \<Longrightarrow> r div 64 < 32" "r < 0x10000 \<Longrightarrow> r div 4096 < 16" "r div 262144 < 5"
    using r by (simp_all add: less_mult_imp_div_less)
  ultimately show ?thesis using b by (auto simp: rune_bytes_def split: if_splits)
qed

lemma decode_first:
  assumes "r \<le> 0x10FFFF"
  shows "decode_from (Suc k) (rune_bytes r @ bs) = int r # decode_from k bs"
proof -
  have d: "r < 0x800 \<Longrightarrow> r div 64 < 32" "r < 0x10000 \<Longrightarrow> r div 4096 < 16" "r div 262144 < 5"
    using assms by (simp_all add: less_mult_imp_div_less)
  have two: "r div 64 mod 32 * 64 + r mod 64 = r" if "r < 0x800" using d(1) [OF that] by simp
  have q: "r div 64 * 64 + r mod 64 = r" "r div 4096 * 64 + r div 64 mod 64 = r div 64"
    "r div 262144 * 64 + r div 4096 mod 64 = r div 4096"
    using div_mult_mod_eq [of r 64] div_mult_mod_eq [of "r div 64" 64] div_mult_mod_eq [of "r div 4096" 64]
    by (simp_all add: div_mult2_eq [symmetric])
  have three: "r div 4096 mod 16 * 4096 + r div 64 mod 64 * 64 + r mod 64 = r" if "r < 0x10000"
  proof -
    from d(2) [OF that] have "r div 4096 mod 16 = r div 4096" by simp
    with q(1,2) show ?thesis by linarith
  qed
  have four: "r div 262144 mod 8 * 262144 + r div 4096 mod 64 * 4096 + r div 64 mod 64 * 64 + r mod 64 = r"
  proof -
    from d(3) have "r div 262144 mod 8 = r div 262144" by simp
    with q show ?thesis by linarith
  qed
  have m: "(0xC0 + a) mod 32 = a mod 32" "(0xE0 + a) mod 16 = a mod 16" "(0xF0 + a) mod 8 = a mod 8"
    "(0x80 + a) mod 64 = a mod 64" for a :: nat
    using mod_mult_self3 [of 6 32 a] mod_mult_self3 [of 14 16 a] mod_mult_self3 [of 30 8 a] mod_mult_self3 [of 2 64 a]
    by simp_all
  consider "r < 0x80" | "0x80 \<le> r" "r < 0x800" | "0x800 \<le> r" "r < 0x10000" | "0x10000 \<le> r" by linarith
  then show ?thesis
  proof cases
    case 2
    with d(1) have "rune_bytes r = [0xC0 + r div 64, 0x80 + r mod 64]" "rune_size (0xC0 + r div 64) = 2"
      by (auto simp: rune_bytes_def rune_size_def)
    with 2 two show ?thesis by (simp add: payload_def m)
  next
    case 3
    with d(2) have "rune_bytes r = [0xE0 + r div 4096, 0x80 + r div 64 mod 64, 0x80 + r mod 64]"
      "rune_size (0xE0 + r div 4096) = 3"
      by (auto simp: rune_bytes_def rune_size_def)
    with 3 three show ?thesis by (simp add: payload_def m)
  next
    case 4
    with d(3) have "rune_bytes r = [0xF0 + r div 262144, 0x80 + r div 4096 mod 64, 0x80 + r div 64 mod 64, 0x80 + r mod 64]"
      "rune_size (0xF0 + r div 262144) = 4"
      by (auto simp: rune_bytes_def rune_size_def)
    moreover have "payload [0xF0 + r div 262144, 0x80 + r div 4096 mod 64, 0x80 + r div 64 mod 64, 0x80 + r mod 64] = r"
      unfolding payload_def list.case m mod_mod_trivial using four .
    ultimately show ?thesis by (simp only: append_Cons decode_from.simps) simp
  qed (simp add: rune_bytes_def rune_size_def payload_def)
qed

lemma rune_bytes_length: "0 < length (rune_bytes r)"
  by (simp add: rune_bytes_def)

text \<open>Decoding is the inverse of encoding, so a text is the encoding of at most one list of runes.\<close>

lemma decode_encoding:
  assumes "\<forall>r \<in> set rs. is_scalar r"
  shows "decode_text (encoding rs) = rs"
proof -
  have chars: "map of_char (encode_rune r) = rune_bytes (nat r)" if "is_scalar r" for r
  proof -
    have "nat r \<le> 0x10FFFF" using that by (auto simp: is_scalar_def)
    from rune_bytes_range [OF this] show ?thesis
      by (auto simp: encode_rune_def of_char_of take_bit_eq_mod intro!: map_idI)
  qed
  have "decode_from k (map of_char (encoding rs)) = rs" if "length (encoding rs) \<le> k" for k
    using assms that
  proof (induction rs arbitrary: k)
    case (Cons r rs)
    have r: "is_scalar r" "nat r \<le> 0x10FFFF" "0 \<le> r" using Cons.prems(1) by (auto simp: is_scalar_def)
    have "length (encoding (r # rs)) = length (encode_rune r) + length (encoding rs)" by (simp add: encoding_def)
    moreover have "0 < length (encode_rune r)" unfolding encode_rune_def length_map by (rule rune_bytes_length)
    ultimately have "length (encoding rs) < k" using Cons.prems(2) by linarith
    then obtain j where "k = Suc j" "length (encoding rs) \<le> j" by (cases k) auto
    with Cons r show ?case by (simp add: encoding_def chars decode_first)
  qed (simp add: encoding_def)
  then show ?thesis by (simp add: decode_text_def)
qed

section \<open>What the file takes from burrow\<close>

text \<open>
  A byte slice is the text it holds. \<open>str_runes\<close> returns the address of an iterator, and
  \<open>str_next_rune\<close> the rune it comes to when it returns true; the byte offset that it also stores is
  read by no row. \<open>utf8_encode_rune\<close> is given the length of the buffer.
\<close>

record 'm utf8_lib =
  utf8_decode_rune_in_string :: "string \<Rightarrow> (int, 'm) op"
  utf8_decode_rune :: "string \<Rightarrow> (int, 'm) op"
  utf8_rune_count_in_string :: "string \<Rightarrow> (int, 'm) op"
  utf8_valid_string :: "string \<Rightarrow> (bool, 'm) op"
  utf8_encode_rune :: "nat \<Rightarrow> int \<Rightarrow> (int, 'm) op"
  utf8_rune_len :: "int \<Rightarrow> (int, 'm) op"
  str_runes :: "string \<Rightarrow> (nat, 'm) op"
  str_next_rune :: "nat \<Rightarrow> (int option, 'm) op"

section \<open>The texts\<close>

definition ascii10 :: string where "ascii10 = ''0123456789''"

definition japanese10 :: string where
  "japanese10 = (let nihongo = [CHR 0xE6, CHR 0x97, CHR 0xA5, CHR 0xE6, CHR 0x9C, CHR 0xAC, CHR 0xE8, CHR 0xAA, CHR 0x9E]
     in nihongo @ nihongo @ nihongo @ [CHR 0xE6, CHR 0x97, CHR 0xA5])"

definition mixed :: string where
  "mixed = ''the na'' @ [CHR 0xC3, CHR 0xAF] @ ''ve caf'' @ [CHR 0xC3, CHR 0xA9] @ '' r'' @ [CHR 0xC3, CHR 0xB4] @ ''le of ''
     @ ''co'' @ [CHR 0xC3, CHR 0xB6] @ ''rdination, said the '' @ [CHR 0xE2, CHR 0x9C, CHR 0x93] @ '' sign''"

definition UTF8_LONG_LEN :: nat where "UTF8_LONG_LEN = 4096"

definition long_ascii :: "'m process \<Rightarrow> string" where
  "long_ascii p = (case str_array p ''long_ascii'' of [] \<Rightarrow> replicate (UTF8_LONG_LEN + 1) (CHR 0x00) | t # _ \<Rightarrow> t)"

definition ascii_digits :: string where
  "ascii_digits = map (\<lambda>i. char_of (48 + i mod 10 :: nat)) [0..<UTF8_LONG_LEN]"

definition fill_ascii :: "'m cstmt" where
  "fill_ascii = reading long_ascii (\<lambda>t.
     if t ! 0 \<noteq> CHR 0x00 then Some
     else set_strs ''long_ascii'' [ascii_digits @ drop UTF8_LONG_LEN t])"

definition long_str :: "(string \<Rightarrow> 'm cstmt) \<Rightarrow> 'm cstmt" where
  "long_str k = block [fill_ascii, reading long_ascii (\<lambda>t. k (str_over t UTF8_LONG_LEN))]"

section \<open>Loops over bytes\<close>

text \<open>\<open>Int total = 0\<close>, a step for every byte of the text, and the total to the sink.\<close>

definition byte_loop :: "string \<Rightarrow> (nat \<Rightarrow> int \<Rightarrow> int option) \<Rightarrow> 'm cstmt" where
  "byte_loop s step = block [
     set_int ''total'' 0,
     repeat_for (length s) (\<lambda>i. reading (\<lambda>p. int_var p ''total'') (\<lambda>t.
       checked (step (of_char (s ! nat i)) t) (set_int ''total''))),
     reading (\<lambda>p. int_var p ''total'') (\<lambda>t. keep_u64 (of_int t))]"

definition add_byte :: "nat \<Rightarrow> int \<Rightarrow> int option" where
  "add_byte c t = add64 t (int c)"

definition count_start :: "nat \<Rightarrow> int \<Rightarrow> int option" where
  "count_start c n = (if c AND 0xC0 \<noteq> 0x80 then add64 n 1 else Some n)"

section \<open>The rows\<close>

definition bench_utf8_decode_ascii :: "'m utf8_lib \<Rightarrow> 'm cstmt" where
  "bench_utf8_decode_ascii L = bench_loop (\<lambda>_. calling (utf8_decode_rune_in_string L ascii10) keep_int)"

definition bench_utf8_decode_japanese :: "'m utf8_lib \<Rightarrow> 'm cstmt" where
  "bench_utf8_decode_japanese L = bench_loop (\<lambda>_. calling (utf8_decode_rune_in_string L japanese10) keep_int)"

definition bench_utf8_decode_slice :: "'m utf8_lib \<Rightarrow> 'm cstmt" where
  "bench_utf8_decode_slice L = bench_loop (\<lambda>_. calling (utf8_decode_rune L japanese10) keep_int)"

definition bench_utf8_range_mixed :: "'m utf8_lib \<Rightarrow> 'm cstmt" where
  "bench_utf8_range_mixed L =
     bench_loop (\<lambda>_. calling (str_runes L mixed) (\<lambda>it. summing (str_next_rune L it) keep_int))"

definition bench_utf8_range_ascii :: "'m utf8_lib \<Rightarrow> 'm cstmt" where
  "bench_utf8_range_ascii L =
     bench_loop (\<lambda>_. calling (str_runes L ascii10) (\<lambda>it. summing (str_next_rune L it) keep_int))"

definition bench_utf8_range_ascii_raw :: "'m cstmt" where
  "bench_utf8_range_ascii_raw = bench_loop (\<lambda>_. byte_loop ascii10 add_byte)"

definition bench_utf8_rune_count_ascii :: "'m utf8_lib \<Rightarrow> 'm cstmt" where
  "bench_utf8_rune_count_ascii L = bench_loop (\<lambda>_. calling (utf8_rune_count_in_string L ascii10) keep_int)"

definition bench_utf8_rune_count_japanese :: "'m utf8_lib \<Rightarrow> 'm cstmt" where
  "bench_utf8_rune_count_japanese L = bench_loop (\<lambda>_. calling (utf8_rune_count_in_string L japanese10) keep_int)"

definition bench_utf8_rune_count_long :: "'m utf8_lib \<Rightarrow> 'm cstmt" where
  "bench_utf8_rune_count_long L = long_str (\<lambda>s. bench_loop (\<lambda>_. calling (utf8_rune_count_in_string L s) keep_int))"

definition bench_utf8_rune_count_long_raw :: "'m cstmt" where
  "bench_utf8_rune_count_long_raw = long_str (\<lambda>s. bench_loop (\<lambda>_. byte_loop s count_start))"

definition bench_utf8_valid_ascii :: "'m utf8_lib \<Rightarrow> 'm cstmt" where
  "bench_utf8_valid_ascii L = bench_loop (\<lambda>_. calling (utf8_valid_string L ascii10) keep_bool)"

definition bench_utf8_valid_japanese :: "'m utf8_lib \<Rightarrow> 'm cstmt" where
  "bench_utf8_valid_japanese L = bench_loop (\<lambda>_. calling (utf8_valid_string L japanese10) keep_bool)"

definition bench_utf8_valid_long :: "'m utf8_lib \<Rightarrow> 'm cstmt" where
  "bench_utf8_valid_long L = long_str (\<lambda>s. bench_loop (\<lambda>_. calling (utf8_valid_string L s) keep_bool))"

definition bench_utf8_valid_mixed :: "'m utf8_lib \<Rightarrow> 'm cstmt" where
  "bench_utf8_valid_mixed L = bench_loop (\<lambda>_. calling (utf8_valid_string L mixed) keep_bool)"

definition bench_utf8_encode_ascii :: "'m utf8_lib \<Rightarrow> 'm cstmt" where
  "bench_utf8_encode_ascii L = bench_loop (\<lambda>i. calling (utf8_encode_rune L 8 (97 + (i AND 15))) keep_int)"

definition bench_utf8_encode_wide :: "'m utf8_lib \<Rightarrow> 'm cstmt" where
  "bench_utf8_encode_wide L = bench_loop (\<lambda>i. calling (utf8_encode_rune L 8 (0x1F300 + (i AND 15))) keep_int)"

definition bench_utf8_rune_len :: "'m utf8_lib \<Rightarrow> 'm cstmt" where
  "bench_utf8_rune_len L = bench_loop (\<lambda>i. calling (utf8_rune_len L (0x1F300 + (i AND 15))) keep_int)"

definition utf8_table :: "'m utf8_lib \<Rightarrow> (string \<times> 'm cstmt) list" where
  "utf8_table L = [
     (''utf8_decode_ascii'', bench_utf8_decode_ascii L), (''utf8_decode_japanese'', bench_utf8_decode_japanese L),
     (''utf8_decode_slice'', bench_utf8_decode_slice L), (''utf8_range_mixed'', bench_utf8_range_mixed L),
     (''utf8_range_ascii'', bench_utf8_range_ascii L), (''utf8_range_ascii_raw'', bench_utf8_range_ascii_raw),
     (''utf8_rune_count_ascii'', bench_utf8_rune_count_ascii L),
     (''utf8_rune_count_japanese'', bench_utf8_rune_count_japanese L),
     (''utf8_rune_count_long'', bench_utf8_rune_count_long L),
     (''utf8_rune_count_long_raw'', bench_utf8_rune_count_long_raw),
     (''utf8_valid_ascii'', bench_utf8_valid_ascii L), (''utf8_valid_japanese'', bench_utf8_valid_japanese L),
     (''utf8_valid_long'', bench_utf8_valid_long L), (''utf8_valid_mixed'', bench_utf8_valid_mixed L),
     (''utf8_encode_ascii'', bench_utf8_encode_ascii L), (''utf8_encode_wide'', bench_utf8_encode_wide L),
     (''utf8_rune_len'', bench_utf8_rune_len L)]"

section \<open>The contract\<close>

lemma utf8_parts_move [contract_rules]:
  "does (advances clock) fill_ascii"
  "(\<And>s. does (advances clock) (k s)) \<Longrightarrow> does (advances clock) (long_str k)"
  "does (advances clock) (byte_loop s step)"
  unfolding fill_ascii_def long_str_def byte_loop_def
  by (auto intro!: contract_rules simp del: block.simps)

lemmas utf8_bodies = bench_utf8_decode_ascii_def bench_utf8_decode_japanese_def bench_utf8_decode_slice_def
  bench_utf8_range_mixed_def bench_utf8_range_ascii_def bench_utf8_range_ascii_raw_def
  bench_utf8_rune_count_ascii_def bench_utf8_rune_count_japanese_def bench_utf8_rune_count_long_def
  bench_utf8_rune_count_long_raw_def bench_utf8_valid_ascii_def bench_utf8_valid_japanese_def
  bench_utf8_valid_long_def bench_utf8_valid_mixed_def bench_utf8_encode_ascii_def
  bench_utf8_encode_wide_def bench_utf8_rune_len_def

lemma utf8_table_moves:
  "(nm, f) \<in> set (utf8_table L) \<Longrightarrow> does (advances clock) f"
  by (auto simp: utf8_table_def utf8_bodies intro!: contract_rules simp del: block.simps)

section \<open>What the rows answer\<close>

definition utf8_law :: "'m utf8_lib \<Rightarrow> (nat \<Rightarrow> 'm \<Rightarrow> int list) \<Rightarrow> bool" where
  "utf8_law L todo \<longleftrightarrow>
     (\<forall>rs m. (\<forall>r \<in> set rs. is_scalar r) \<longrightarrow>
        (rs \<noteq> [] \<longrightarrow> fst (utf8_decode_rune_in_string L (encoding rs) m) = hd rs
           \<and> fst (utf8_decode_rune L (encoding rs) m) = hd rs)
        \<and> fst (utf8_rune_count_in_string L (encoding rs) m) = int (length rs)
        \<and> fst (utf8_valid_string L (encoding rs) m)
        \<and> todo (fst (str_runes L (encoding rs) m)) (snd (snd (str_runes L (encoding rs) m))) = rs)
   \<and> (\<forall>it m. fst (str_next_rune L it m) = (case todo it m of [] \<Rightarrow> None | r # rs \<Rightarrow> Some r)
        \<and> todo it (snd (snd (str_next_rune L it m))) = tl (todo it m))
   \<and> (\<forall>r m k. is_scalar r \<longrightarrow> length (encode_rune r) \<le> k \<longrightarrow>
        fst (utf8_encode_rune L k r m) = int (length (encode_rune r)))
   \<and> (\<forall>r m. is_scalar r \<longrightarrow> fst (utf8_rune_len L r m) = int (length (encode_rune r)))"

lemma utf8_lawD:
  assumes "utf8_law L todo"
  shows "\<forall>r \<in> set rs. is_scalar r \<Longrightarrow> rs \<noteq> [] \<Longrightarrow> fst (utf8_decode_rune_in_string L (encoding rs) m) = hd rs"
    and "\<forall>r \<in> set rs. is_scalar r \<Longrightarrow> rs \<noteq> [] \<Longrightarrow> fst (utf8_decode_rune L (encoding rs) m) = hd rs"
    and "\<forall>r \<in> set rs. is_scalar r \<Longrightarrow> fst (utf8_rune_count_in_string L (encoding rs) m) = int (length rs)"
    and "\<forall>r \<in> set rs. is_scalar r \<Longrightarrow> fst (utf8_valid_string L (encoding rs) m)"
    and "\<forall>r \<in> set rs. is_scalar r \<Longrightarrow> todo (fst (str_runes L (encoding rs) m)) (snd (snd (str_runes L (encoding rs) m))) = rs"
    and "fst (str_next_rune L it m) = (case todo it m of [] \<Rightarrow> None | r # rs \<Rightarrow> Some r)"
    and "todo it (snd (snd (str_next_rune L it m))) = tl (todo it m)"
    and "is_scalar r \<Longrightarrow> length (encode_rune r) \<le> k \<Longrightarrow> fst (utf8_encode_rune L k r m) = int (length (encode_rune r))"
    and "is_scalar r \<Longrightarrow> fst (utf8_rune_len L r m) = int (length (encode_rune r))"
  by (insert assms [unfolded utf8_law_def], (elim conjE, (blast | metis))+)

text \<open>The texts as runes.\<close>

definition ascii_runes :: "int list" where
  "ascii_runes = [48, 49, 50, 51, 52, 53, 54, 55, 56, 57]"

definition japanese_runes :: "int list" where
  "japanese_runes = [0x65E5, 0x672C, 0x8A9E, 0x65E5, 0x672C, 0x8A9E, 0x65E5, 0x672C, 0x8A9E, 0x65E5]"

definition mixed_runes :: "int list" where
  "mixed_runes = [116, 104, 101, 32, 110, 97, 239, 118, 101, 32, 99, 97, 102, 233, 32, 114,
     244, 108, 101, 32, 111, 102, 32, 99, 111, 246, 114, 100, 105, 110, 97, 116, 105, 111, 110, 44,
     32, 115, 97, 105, 100, 32, 116, 104, 101, 32, 10003, 32, 115, 105, 103, 110]"

definition long_runes :: "int list" where
  "long_runes = map (\<lambda>i. int (48 + i mod 10)) [0..<UTF8_LONG_LEN]"

lemma short_texts:
  "encoding ascii_runes = ascii10" "encoding japanese_runes = japanese10" "encoding mixed_runes = mixed"
  by (simp_all add: encoding_def encode_rune_def rune_bytes_def ascii_runes_def ascii10_def japanese_runes_def
      japanese10_def mixed_runes_def mixed_def char_of_def bit_Suc_0_iff)

lemma all_scalar:
  "\<forall>r \<in> set ascii_runes. is_scalar r" "\<forall>r \<in> set japanese_runes. is_scalar r" "\<forall>r \<in> set mixed_runes. is_scalar r"
  by (simp_all add: is_scalar_def ascii_runes_def japanese_runes_def mixed_runes_def)

lemma ascii_encoding: "\<forall>i < n. f i < 128 \<Longrightarrow> encoding (map (\<lambda>i. int (f i)) [0..<n]) = map (\<lambda>i. char_of (f i)) [0..<n]"
  by (induction n) (simp_all add: encoding_def encode_rune_def rune_bytes_def)

lemma byte_loop_gives:
  fixes F :: "nat \<Rightarrow> int"
  assumes "F 0 = 0" and "\<And>j. j < length s \<Longrightarrow> step (of_char (s ! j)) (F j) = Some (F (Suc j))"
  shows "gives (\<lambda>n. [KeptU64 (of_int (F (length s)))]) (byte_loop s step :: 'm cstmt)"
proof (rule givesI)
  fix w :: "'m process world"
  let ?body = "\<lambda>i. reading (\<lambda>p. int_var p ''total'') (\<lambda>t. checked (step (of_char (s ! nat i)) t) (set_int ''total''))"
  let ?I = "\<lambda>j v :: 'm process world. kept v = kept w \<and> b_n (bch v) = b_n (bch w) \<and> int_var (rest v) ''total'' = F j"
  let ?v = "perform (\<lambda>p. p\<lparr>int_var := (int_var p)(''total'' := 0)\<rparr>) w"
  have "\<exists>x. for_loop (length s) 0 ?body ?v = Some x \<and> ?I (length s) x"
    by (rule for_loop_total) (auto simp: reading_def checked_def set_int_def assign_def assms)
  then obtain x where "repeat_for (length s) ?body ?v = Some x" "?I (length s) x" unfolding repeat_for_def by blast
  then show "\<exists>w'. byte_loop s step w = Some w' \<and> kept w' = kept w @ [KeptU64 (of_int (F (length s)))]
      \<and> b_n (bch w') = b_n (bch w)"
    by (simp add: byte_loop_def set_int_def assign_def reading_def keep_u64_def)
qed

lemma long_runes_text: "encoding long_runes = ascii_digits" "\<forall>r \<in> set long_runes. is_scalar r"
  "length long_runes = 4096"
proof -
  have d: "i mod 10 < 10" for i :: nat by simp
  have "48 + i mod 10 < 128" for i :: nat using d [of i] by linarith
  then show "encoding long_runes = ascii_digits"
    unfolding long_runes_def ascii_digits_def by (intro ascii_encoding) blast
  show "\<forall>r \<in> set long_runes. is_scalar r"
  proof
    fix r assume "r \<in> set long_runes"
    then obtain i where "r = int (48 + i mod 10)" by (auto simp: long_runes_def)
    moreover have "i mod 10 < 0xD7D0" using d [of i] by linarith
    ultimately show "is_scalar r" by (simp add: is_scalar_def)
  qed
  show "length long_runes = 4096" by (simp add: long_runes_def UTF8_LONG_LEN_def)
qed

text \<open>The bytes of the long text, none of which continues a rune.\<close>

lemma digit_starts:
  assumes "j < length ascii_digits"
  shows "count_start (of_char (ascii_digits ! j)) (int j) = Some (int (Suc j))"
proof -
  have "j mod 10 \<in> {0, 1, 2, 3, 4, 5, 6, 7, 8, 9}"
    using mod_less_divisor [of 10 j] by (simp del: mod_less_divisor) presburger
  moreover have "of_char (ascii_digits ! j) = 48 + j mod 10"
    using assms mod_less_divisor [of 10 j]
    by (simp add: ascii_digits_def of_char_of take_bit_eq_mod del: mod_less_divisor)
  ultimately have "of_char (ascii_digits ! j) AND 0xC0 \<noteq> (0x80 :: nat)" by auto
  moreover have "j < 4096" using assms by (simp add: ascii_digits_def UTF8_LONG_LEN_def)
  ultimately show ?thesis by (simp add: count_start_def add64_def check64_def in_int64_def int64_max_def)
qed

definition digits_ok :: "'m process \<Rightarrow> bool" where
  "digits_ok p \<longleftrightarrow> str_array p ''long_ascii'' = [] \<or> str_array p ''long_ascii'' = [ascii_digits @ [CHR 0x00]]"

lemma long_str_row:
  assumes "digits_ok (rest w)" and "gives g (k ascii_digits)"
  shows "\<exists>w'. long_str k w = Some w' \<and> kept w' = kept w @ g (b_n (bch w))"
proof -
  have first: "ascii_digits ! 0 \<noteq> CHR 0x00" "length ascii_digits = UTF8_LONG_LEN" "ascii_digits \<noteq> []"
    by (simp_all add: ascii_digits_def UTF8_LONG_LEN_def char_of_def)
  have "\<exists>v. fill_ascii w = Some v \<and> kept v = kept w \<and> bch v = bch w \<and> long_ascii (rest v) = ascii_digits @ [CHR 0x00]"
    using assms(1) first unfolding digits_ok_def
    by (auto simp: fill_ascii_def reading_def long_ascii_def set_strs_def assign_def perform_def nth_append UTF8_LONG_LEN_def)
  then obtain v where v: "fill_ascii w = Some v" "kept v = kept w" "bch v = bch w"
    "long_ascii (rest v) = ascii_digits @ [CHR 0x00]" by blast
  obtain w' where "k ascii_digits v = Some w'" "kept w' = kept v @ g (b_n (bch v))"
    by (rule givesD [OF assms(2)])
  with v first(2) show ?thesis by (simp add: long_str_def reading_def str_over_def)
qed

lemma ascii_sum:
  assumes "j < length ascii10"
  shows "add_byte (of_char (ascii10 ! j)) (sum_list (take j ascii_runes)) = Some (sum_list (take (Suc j) ascii_runes))"
proof -
  have "j \<in> {0, 1, 2, 3, 4, 5, 6, 7, 8, 9}" using assms by (simp add: ascii10_def) presburger
  then show ?thesis
    by (auto simp: ascii10_def ascii_runes_def add_byte_def add64_def check64_def in_int64_def int64_max_def)
qed

lemma encoded_sizes:
  "is_scalar (97 + (i AND 15))" "length (encode_rune (97 + (i AND 15))) = 1"
  "is_scalar (0x1F300 + (i AND 15))" "length (encode_rune (0x1F300 + (i AND 15))) = 4"
proof -
  have "i AND mask 4 = i mod 2 ^ 4" by (simp only: take_bit_eq_mask [symmetric] take_bit_eq_mod)
  then have "i AND 15 = i mod 16" by (simp add: mask_eq_exp_minus_1)
  then have "0 \<le> i AND 15" "i AND 15 < 16" by simp_all
  moreover from this have "nat (97 + (i AND 15)) < 0x80" "0x10000 \<le> nat (0x1F300 + (i AND 15))" by linarith+
  ultimately show "is_scalar (97 + (i AND 15))" "length (encode_rune (97 + (i AND 15))) = 1"
    "is_scalar (0x1F300 + (i AND 15))" "length (encode_rune (0x1F300 + (i AND 15))) = 4"
    by (simp_all add: is_scalar_def encode_rune_def rune_bytes_def)
qed

text \<open>
  C39. Functional: what every row hands to the sink. The first rune of the texts, the sum over
  the runes with and without decoding, the number of runes, that the texts are valid, and the sizes of
  the encoded runes: the row of a loop over bytes and the row of burrow's function beside it agree,
  whether or not the long buffer had been filled before.
\<close>
theorem utf8_rows_answer:
  assumes "utf8_law L todo" and "digits_ok (rest w)"
    and "(f, v) \<in> {(bench_utf8_decode_ascii L, 48), (bench_utf8_decode_japanese L, 0x65E5),
      (bench_utf8_decode_slice L, 0x65E5), (bench_utf8_range_mixed L, 15227), (bench_utf8_range_ascii L, 525),
      (bench_utf8_range_ascii_raw, 525), (bench_utf8_rune_count_ascii L, 10),
      (bench_utf8_rune_count_japanese L, 10), (bench_utf8_rune_count_long L, 4096),
      (bench_utf8_rune_count_long_raw, 4096), (bench_utf8_valid_ascii L, 1), (bench_utf8_valid_japanese L, 1),
      (bench_utf8_valid_long L, 1), (bench_utf8_valid_mixed L, 1), (bench_utf8_encode_ascii L, 1),
      (bench_utf8_encode_wide L, 4), (bench_utf8_rune_len L, 4)}"
  shows "\<exists>w'. f w = Some w' \<and> kept w' = kept w @ replicate (nat (b_n (bch w))) (KeptU64 v)"
proof -
  let ?Q = "\<lambda>s v. \<exists>w'. s w = Some w' \<and> kept w' = kept w @ replicate (nat (b_n (bch w))) (KeptU64 v)"
  have Q: "?Q s v" if "gives (\<lambda>n. replicate (nat n) (KeptU64 v)) s" for s v
    using that by (rule givesD [where w = w]) blast
  note law = utf8_lawD [OF assms(1)]
  note texts = short_texts [symmetric] and known = all_scalar long_runes_text(2)
  have hds: "hd ascii_runes = 48" "hd japanese_runes = 0x65E5" "ascii_runes \<noteq> []" "japanese_runes \<noteq> []"
    "length ascii_runes = 10" "length japanese_runes = 10" "sum_list ascii_runes = 525" "sum_list mixed_runes = 15227"
    by (simp_all add: ascii_runes_def japanese_runes_def mixed_runes_def)
  have calls: "?Q (bench_utf8_decode_ascii L) 48" "?Q (bench_utf8_decode_japanese L) 0x65E5"
    "?Q (bench_utf8_decode_slice L) 0x65E5" "?Q (bench_utf8_rune_count_ascii L) 10"
    "?Q (bench_utf8_rune_count_japanese L) 10" "?Q (bench_utf8_valid_ascii L) 1"
    "?Q (bench_utf8_valid_japanese L) 1" "?Q (bench_utf8_valid_mixed L) 1"
    "?Q (bench_utf8_encode_ascii L) 1" "?Q (bench_utf8_encode_wide L) 4" "?Q (bench_utf8_rune_len L) 4"
    unfolding utf8_bodies texts
    by (rule Q, rule gives_loop_same, rule gives_calling,
        simp add: law known hds encoded_sizes keep_int_def keep_bool_def answer_rules)+
  have longs: "?Q (bench_utf8_rune_count_long L) 4096" "?Q (bench_utf8_valid_long L) 1"
    unfolding utf8_bodies
    by (rule long_str_row [OF assms(2)], unfold long_runes_text(1) [symmetric], rule gives_loop_same, rule gives_calling,
        simp add: law known long_runes_text(3) keep_int_def keep_bool_def answer_rules)+
  have "gives (\<lambda>n. [KeptU64 (of_int (sum_list rs))]) (calling (str_runes L (encoding rs)) (\<lambda>it. summing (str_next_rune L it) keep_int))"
    if "\<forall>r \<in> set rs. is_scalar r" "sum_list rs \<le> int64_max" for rs
    using that by (intro gives_summing [where todo = todo] law) (auto simp: is_scalar_def)
  from this [of mixed_runes] this [of ascii_runes]
  have ranges: "?Q (bench_utf8_range_mixed L) 15227" "?Q (bench_utf8_range_ascii L) 525"
    unfolding utf8_bodies texts by (auto simp: known hds int64_max_def intro!: Q gives_loop_same)
  have "gives (\<lambda>n. [KeptU64 525]) (byte_loop ascii10 add_byte)"
    using byte_loop_gives [of "\<lambda>j. sum_list (take j ascii_runes)" ascii10 add_byte] ascii_sum
    by (simp add: ascii10_def ascii_runes_def)
  then have "?Q bench_utf8_range_ascii_raw 525"
    unfolding utf8_bodies by (intro Q gives_loop_same)
  moreover have "gives (\<lambda>n. [KeptU64 4096]) (byte_loop ascii_digits count_start)"
    using byte_loop_gives [of int ascii_digits count_start] digit_starts
    by (simp add: ascii_digits_def UTF8_LONG_LEN_def)
  then have "?Q bench_utf8_rune_count_long_raw 4096"
    unfolding utf8_bodies by (intro long_str_row [OF assms(2)] gives_loop_same)
  ultimately show ?thesis using assms(3) calls longs ranges by blast
qed

section \<open>A decoder that keeps the law\<close>

text \<open>The state is what the iterator has still to give.\<close>

definition ref_utf8 :: "int list utf8_lib" where
  "ref_utf8 = \<lparr>utf8_decode_rune_in_string = (\<lambda>s m. (hd (decode_text s), 1, m)),
     utf8_decode_rune = (\<lambda>s m. (hd (decode_text s), 1, m)),
     utf8_rune_count_in_string = (\<lambda>s m. (int (length (decode_text s)), 1, m)),
     utf8_valid_string = (\<lambda>s m. (encoding (decode_text s) = s, 1, m)),
     utf8_encode_rune = (\<lambda>k r m. (int (length (encode_rune r)), 1, m)),
     utf8_rune_len = (\<lambda>r m. (int (length (encode_rune r)), 1, m)),
     str_runes = (\<lambda>s m. (8, 1, decode_text s)),
     str_next_rune = (\<lambda>it m. (case m of [] \<Rightarrow> None | r # rs \<Rightarrow> Some r, 1, tl m))\<rparr>"

lemma ref_utf8_law: "utf8_law ref_utf8 (\<lambda>it m. m)"
  unfolding utf8_law_def by (simp add: ref_utf8_def decode_encoding)

definition utf8_world :: "int \<Rightarrow> int list process world" where
  "utf8_world n = \<lparr>bch = zero_bench\<lparr>b_n := n\<rparr>, kept = [], rest = \<lparr>clock = 0, int_var = (\<lambda>x. 0),
     u64_var = (\<lambda>x. 0), dbl_var = (\<lambda>x. 0), int_array = (\<lambda>x. []), str_array = (\<lambda>x. []), machine = []\<rparr>\<rparr>"

theorem utf8_rows_answer_witness:
  "\<exists>w'. bench_utf8_range_mixed ref_utf8 (utf8_world 2) = Some w' \<and> kept w' = [KeptU64 15227, KeptU64 15227]"
proof -
  have "digits_ok (rest (utf8_world 2))" by (simp add: digits_ok_def utf8_world_def)
  from utf8_rows_answer [OF ref_utf8_law this, of "bench_utf8_range_mixed ref_utf8" 15227] show ?thesis
    by (simp add: utf8_world_def numeral_2_eq_2)
qed

end
