(* ===== verification/Atomic_Bench.thy ===== *)
theory Atomic_Bench
  imports Answers
begin

text \<open>
  \<open>bench/sync_atomic_bench.c\<close>: burrow's atomic functions and types on one thread. The cells are
  static variables of the program that only the package reads and writes, so they are part of what
  burrow keeps, under their addresses.
\<close>

section \<open>What the file takes from burrow\<close>

record 'm atomic_lib =
  add_int64 :: "nat \<Rightarrow> int \<Rightarrow> (int, 'm) op"
  load_int64 :: "nat \<Rightarrow> (int, 'm) op"
  int64_add :: "nat \<Rightarrow> int \<Rightarrow> (int, 'm) op"
  int64_load :: "nat \<Rightarrow> (int, 'm) op"
  int64_store :: "nat \<Rightarrow> int \<Rightarrow> (unit, 'm) op"
  int64_cas :: "nat \<Rightarrow> int \<Rightarrow> int \<Rightarrow> (bool, 'm) op"
  bool_load :: "nat \<Rightarrow> (bool, 'm) op"
  bool_store :: "nat \<Rightarrow> bool \<Rightarrow> (unit, 'm) op"
  pointer_load :: "nat \<Rightarrow> (nat, 'm) op"
  pointer_store :: "nat \<Rightarrow> nat \<Rightarrow> (unit, 'm) op"
  value_load :: "nat \<Rightarrow> (nat, 'm) op"
  value_store :: "nat \<Rightarrow> nat \<Rightarrow> (unit, 'm) op"

section \<open>The rows\<close>

definition bench_sync_atomic_add_int64 :: "'m host \<Rightarrow> 'm atomic_lib \<Rightarrow> 'm cstmt" where
  "bench_sync_atomic_add_int64 h L = (let p = bench_hide (addr h ''atomic.counter'') in
     bench_loop (\<lambda>_. calling (add_int64 L p 1) keep_int))"

definition bench_sync_atomic_load_int64 :: "'m host \<Rightarrow> 'm atomic_lib \<Rightarrow> 'm cstmt" where
  "bench_sync_atomic_load_int64 h L = (let p = bench_hide (addr h ''atomic.counter'') in
     bench_loop (\<lambda>_. calling (load_int64 L p) keep_int))"

definition bench_sync_atomic_int64_add :: "'m host \<Rightarrow> 'm atomic_lib \<Rightarrow> 'm cstmt" where
  "bench_sync_atomic_int64_add h L = (let a = bench_hide (addr h ''typed'') in
     bench_loop (\<lambda>_. calling (int64_add L a 1) keep_int))"

definition bench_sync_atomic_int64_load :: "'m host \<Rightarrow> 'm atomic_lib \<Rightarrow> 'm cstmt" where
  "bench_sync_atomic_int64_load h L = (let a = bench_hide (addr h ''typed'') in
     bench_loop (\<lambda>_. calling (int64_load L a) keep_int))"

definition bench_sync_atomic_int64_cas :: "'m host \<Rightarrow> 'm atomic_lib \<Rightarrow> 'm cstmt" where
  "bench_sync_atomic_int64_cas h L = (let a = bench_hide (addr h ''typed'') in block [
     call_op (int64_store L a 0),
     bench_loop (\<lambda>i. checked (add64 i 1) (\<lambda>i1.
       calling (int64_cas L a i i1) (\<lambda>ok. if ok then keep_u64 1 else Some)))])"

definition bench_sync_atomic_bool_load :: "'m host \<Rightarrow> 'm atomic_lib \<Rightarrow> 'm cstmt" where
  "bench_sync_atomic_bool_load h L = (let f = bench_hide (addr h ''flag'') in block [
     call_op (bool_store L f True),
     bench_loop (\<lambda>_. calling (bool_load L f) keep_bool)])"

definition bench_sync_atomic_pointer_load :: "'m host \<Rightarrow> 'm atomic_lib \<Rightarrow> 'm cstmt" where
  "bench_sync_atomic_pointer_load h L = (let p = bench_hide (addr h ''ptr'') in block [
     call_op (pointer_store L p (addr h ''atomic.counter'')),
     bench_loop (\<lambda>_. calling (pointer_load L p) keep)])"

definition bench_sync_atomic_pointer_store :: "'m host \<Rightarrow> 'm atomic_lib \<Rightarrow> 'm cstmt" where
  "bench_sync_atomic_pointer_store h L =
     (let p = bench_hide (addr h ''ptr''); v = bench_hide (addr h ''atomic.counter'') in
     bench_loop (\<lambda>_. call_op (pointer_store L p v)))"

definition bench_sync_atomic_value_load :: "'m host \<Rightarrow> 'm atomic_lib \<Rightarrow> 'm cstmt" where
  "bench_sync_atomic_value_load h L = (let v = bench_hide (addr h ''boxed'') in block [
     call_op (value_store L v (addr h ''value_load.n'')),
     bench_loop (\<lambda>_. calling (value_load L v) keep)])"

definition bench_sync_atomic_value_store :: "'m host \<Rightarrow> 'm atomic_lib \<Rightarrow> 'm cstmt" where
  "bench_sync_atomic_value_store h L =
     (let v = bench_hide (addr h ''boxed''); val = addr h ''value_store.n'' in block [
     call_op (value_store L v val),
     bench_loop (\<lambda>_. call_op (value_store L v val))])"

definition atomic_table :: "'m host \<Rightarrow> 'm atomic_lib \<Rightarrow> (string \<times> 'm cstmt) list" where
  "atomic_table h L = [
     (''sync_atomic_add_int64'', bench_sync_atomic_add_int64 h L),
     (''sync_atomic_load_int64'', bench_sync_atomic_load_int64 h L),
     (''sync_atomic_int64_add'', bench_sync_atomic_int64_add h L),
     (''sync_atomic_int64_load'', bench_sync_atomic_int64_load h L),
     (''sync_atomic_int64_cas'', bench_sync_atomic_int64_cas h L),
     (''sync_atomic_bool_load'', bench_sync_atomic_bool_load h L),
     (''sync_atomic_pointer_load'', bench_sync_atomic_pointer_load h L),
     (''sync_atomic_pointer_store'', bench_sync_atomic_pointer_store h L),
     (''sync_atomic_value_load'', bench_sync_atomic_value_load h L),
     (''sync_atomic_value_store'', bench_sync_atomic_value_store h L)]"

section \<open>The contract\<close>

lemmas atomic_bodies = bench_sync_atomic_add_int64_def bench_sync_atomic_load_int64_def
  bench_sync_atomic_int64_add_def bench_sync_atomic_int64_load_def bench_sync_atomic_int64_cas_def
  bench_sync_atomic_bool_load_def bench_sync_atomic_pointer_load_def bench_sync_atomic_pointer_store_def
  bench_sync_atomic_value_load_def bench_sync_atomic_value_store_def

lemma atomic_table_moves:
  "(nm, f) \<in> set (atomic_table h L) \<Longrightarrow> does (advances clock) f"
  unfolding atomic_table_def atomic_bodies Let_def
  by (auto intro!: contract_rules simp del: block.simps)

section \<open>The cells\<close>

text \<open>
  \<open>cell m p\<close> is the number at the address \<open>p\<close>; the Boolean, the pointer and the value of an \<open>Any\<close>
  stand in it as numbers. Sums wrap around, as Go's atomic functions do.
\<close>

definition atomic_law :: "'m atomic_lib \<Rightarrow> ('m \<Rightarrow> nat \<Rightarrow> int) \<Rightarrow> bool" where
  "atomic_law L cell \<longleftrightarrow>
     (\<forall>p d m. fst (add_int64 L p d m) = wrap64 (cell m p + d)
        \<and> cell (snd (snd (add_int64 L p d m))) = (cell m)(p := wrap64 (cell m p + d)))
   \<and> (\<forall>p d m. fst (int64_add L p d m) = wrap64 (cell m p + d)
        \<and> cell (snd (snd (int64_add L p d m))) = (cell m)(p := wrap64 (cell m p + d)))
   \<and> (\<forall>p m. fst (load_int64 L p m) = cell m p \<and> cell (snd (snd (load_int64 L p m))) = cell m)
   \<and> (\<forall>p m. fst (int64_load L p m) = cell m p \<and> cell (snd (snd (int64_load L p m))) = cell m)
   \<and> (\<forall>p v m. cell (snd (snd (int64_store L p v m))) = (cell m)(p := v))
   \<and> (\<forall>p v v' m. fst (int64_cas L p v v' m) = (cell m p = v)
        \<and> cell (snd (snd (int64_cas L p v v' m))) = (if cell m p = v then (cell m)(p := v') else cell m))
   \<and> (\<forall>p m. fst (bool_load L p m) = (cell m p \<noteq> 0) \<and> cell (snd (snd (bool_load L p m))) = cell m)
   \<and> (\<forall>p b m. cell (snd (snd (bool_store L p b m))) = (cell m)(p := if b then 1 else 0))
   \<and> (\<forall>p m. fst (pointer_load L p m) = nat (cell m p) \<and> cell (snd (snd (pointer_load L p m))) = cell m)
   \<and> (\<forall>p v m. cell (snd (snd (pointer_store L p v m))) = (cell m)(p := int v))
   \<and> (\<forall>p m. fst (value_load L p m) = nat (cell m p) \<and> cell (snd (snd (value_load L p m))) = cell m)
   \<and> (\<forall>p v m. cell (snd (snd (value_store L p v m))) = (cell m)(p := int v))"

lemma atomic_lawD:
  assumes "atomic_law L cell"
  shows "fst (add_int64 L p d m) = wrap64 (cell m p + d)"
    and "cell (snd (snd (add_int64 L p d m))) = (cell m)(p := wrap64 (cell m p + d))"
    and "fst (int64_add L p d m) = wrap64 (cell m p + d)"
    and "cell (snd (snd (int64_add L p d m))) = (cell m)(p := wrap64 (cell m p + d))"
    and "fst (load_int64 L p m) = cell m p" and "cell (snd (snd (load_int64 L p m))) = cell m"
    and "fst (int64_load L p m) = cell m p" and "cell (snd (snd (int64_load L p m))) = cell m"
    and "cell (snd (snd (int64_store L p v m))) = (cell m)(p := v)"
    and "fst (int64_cas L p v v' m) = (cell m p = v)"
    and "cell m p = v \<Longrightarrow> cell (snd (snd (int64_cas L p v v' m))) = (cell m)(p := v')"
    and "fst (bool_load L p m) = (cell m p \<noteq> 0)" and "cell (snd (snd (bool_load L p m))) = cell m"
    and "cell (snd (snd (bool_store L p b m))) = (cell m)(p := if b then 1 else 0)"
    and "fst (pointer_load L p m) = nat (cell m p)" and "cell (snd (snd (pointer_load L p m))) = cell m"
    and "cell (snd (snd (pointer_store L p a m))) = (cell m)(p := int a)"
    and "fst (value_load L p m) = nat (cell m p)" and "cell (snd (snd (value_load L p m))) = cell m"
    and "cell (snd (snd (value_store L p a m))) = (cell m)(p := int a)"
  by (insert assms [unfolded atomic_law_def], (elim conjE, (blast | simp))+)

text \<open>A loop over one cell: \<open>F j\<close> is what the cells are before round \<open>j\<close>.\<close>

lemma cell_loop:
  fixes w :: "'m process world"
  assumes "cell (machine (rest w)) = F 0"
    and "\<And>j v. j < nat (b_n (bch w)) \<Longrightarrow> cell (machine (rest v)) = F j \<Longrightarrow>
      \<exists>v'. body (int j) v = Some v' \<and> kept v' = kept v @ [g j] \<and> cell (machine (rest v')) = F (Suc j)"
  shows "\<exists>w'. bench_loop body w = Some w' \<and> cell (machine (rest w')) = F (nat (b_n (bch w)))
    \<and> kept w' = kept w @ map g [0..<nat (b_n (bch w))]"
proof -
  from loop_kept [where I = "\<lambda>j v. cell (machine (rest v)) = F j" and g = "\<lambda>j. [g j]" and body = body, OF assms(1)]
    assms(2) have "\<exists>w'. bench_loop body w = Some w' \<and> cell (machine (rest w')) = F (nat (b_n (bch w)))
      \<and> kept w' = kept w @ concat (map (\<lambda>j. [g j]) [0..<nat (b_n (bch w))])" by blast
  then show ?thesis by (simp add: concat_map_singleton)
qed

lemma wrap64_Suc: "wrap64 (wrap64 (v + int j) + 1) = wrap64 (v + int (Suc j))"
  unfolding wrap64_def
  using mod_add_left_eq [of "v + int j + 9223372036854775808" 18446744073709551616 1] by (simp add: algebra_simps)

text \<open>
  Functional: the adding rows count on from the number in the cell. Round \<open>j\<close> hands \<open>v + j + 1\<close> to
  the sink, wrapped around the ends of \<open>int64_t\<close>, and the cell holds \<open>v + n\<close> afterwards.
\<close>
theorem atomic_adds_count:
  fixes w :: "'m process world"
  assumes "atomic_law L cell"
    and "(f, p) \<in> {(bench_sync_atomic_add_int64 h L, addr h ''atomic.counter''),
      (bench_sync_atomic_int64_add h L, addr h ''typed'')}"
    and "cell (machine (rest w)) p = v" and "in_int64 v"
  shows "\<exists>w'. f w = Some w' \<and> cell (machine (rest w')) p = wrap64 (v + int (nat (b_n (bch w))))
    \<and> kept w' = kept w @ map (\<lambda>j. KeptU64 (of_int (v + int j + 1))) [0..<nat (b_n (bch w))]"
proof -
  note law = atomic_lawD [OF assms(1)]
  let ?F = "\<lambda>j. (cell (machine (rest w)))(p := wrap64 (v + int j))"
  let ?Q = "\<lambda>s w p. \<exists>w'. s w = Some w' \<and> cell (machine (rest w')) p = wrap64 (v + int (nat (b_n (bch w))))
    \<and> kept w' = kept w @ map (\<lambda>j. KeptU64 (of_int (v + int j + 1))) [0..<nat (b_n (bch w))]"
  have row: "?Q (bench_loop (\<lambda>_. calling (add p 1) keep_int)) w p"
    if "\<And>m. fst (add p 1 m) = wrap64 (cell m p + 1)"
      "\<And>m. cell (snd (snd (add p 1 m))) = (cell m)(p := wrap64 (cell m p + 1))" for add :: "nat \<Rightarrow> int \<Rightarrow> (int, 'm) op"
  proof -
    have "\<exists>w'. bench_loop (\<lambda>_. calling (add p 1) keep_int) w = Some w'
      \<and> cell (machine (rest w')) = ?F (nat (b_n (bch w)))
      \<and> kept w' = kept w @ map (\<lambda>j. KeptU64 (of_int (v + int j + 1))) [0..<nat (b_n (bch w))]"
    proof (rule cell_loop [where F = ?F])
    show "cell (machine (rest w)) = ?F 0" using assms(3,4) by (auto simp: fun_eq_iff)
    fix j and u :: "'m process world" assume "cell (machine (rest u)) = ?F j"
    then have "fst (add p 1 (machine (rest u))) = wrap64 (v + int (Suc j))"
      "cell (snd (snd (add p 1 (machine (rest u))))) = ?F (Suc j)"
      by (simp_all only: that fun_upd_same fun_upd_upd wrap64_Suc)
    then show "\<exists>u'. calling (add p 1) keep_int u = Some u'
        \<and> kept u' = kept u @ [KeptU64 (of_int (v + int j + 1))] \<and> cell (machine (rest u')) = ?F (Suc j)"
      by (simp add: calling_def split_beta keep_int_def keep_u64_def algebra_simps)
    qed
    then show ?thesis by auto
  qed
  have "?Q (bench_sync_atomic_add_int64 h L) w p" if "p = addr h ''atomic.counter''"
    unfolding bench_sync_atomic_add_int64_def bench_hide_def Let_def that [symmetric] by (rule row [where add1 = "add_int64 L", OF law(1,2)])
  moreover have "?Q (bench_sync_atomic_int64_add h L) w p" if "p = addr h ''typed''"
    unfolding bench_sync_atomic_int64_add_def bench_hide_def Let_def that [symmetric] by (rule row [where add1 = "int64_add L", OF law(3,4)])
  ultimately show ?thesis using assms(2) by blast
qed

text \<open>
  Functional: the compare-and-swap row never retries. It starts from 0 and its expected value in
  round \<open>j\<close> is what round \<open>j - 1\<close> stored, whatever was in the cell before the row, so every exchange succeeds.
\<close>
theorem atomic_cas_never_fails:
  fixes w :: "'m process world"
  assumes "atomic_law L cell" and "b_n (bch w) \<le> int64_max"
  shows "\<exists>w'. bench_sync_atomic_int64_cas h L w = Some w'
    \<and> cell (machine (rest w')) (addr h ''typed'') = int (nat (b_n (bch w)))
    \<and> kept w' = kept w @ replicate (nat (b_n (bch w))) (KeptU64 1)"
proof -
  note law = atomic_lawD [OF assms(1)]
  let ?a = "addr h ''typed''"
  let ?u = "snd (call (lib (int64_store L ?a 0)) w)"
  let ?F = "\<lambda>j. (cell (machine (rest ?u)))(?a := int j)"
  let ?body = "\<lambda>i. checked (add64 i 1) (\<lambda>i1. calling (int64_cas L ?a i i1) (\<lambda>ok. if ok then keep_u64 1 else Some))"
  have "\<exists>w'. bench_loop ?body ?u = Some w' \<and> cell (machine (rest w')) = ?F (nat (b_n (bch ?u)))
    \<and> kept w' = kept ?u @ map (\<lambda>_. KeptU64 1) [0..<nat (b_n (bch ?u))]"
  proof (rule cell_loop [where F = ?F])
    show "cell (machine (rest ?u)) = ?F 0" by (simp add: law(9))
    fix j and v :: "'m process world"
    assume j: "j < nat (b_n (bch ?u))" and v: "cell (machine (rest v)) = ?F j"
    from j assms(2) have "add64 (int j) 1 = Some (int j + 1)"
      by (simp add: add64_def check64_def in_int64_def int64_max_def)
    then have "?body (int j) v = calling (int64_cas L ?a (int j) (int j + 1)) (\<lambda>ok. if ok then keep_u64 1 else Some) v"
      by (simp only: checked_def Option.bind.simps)
    moreover from v have "cell (machine (rest v)) ?a = int j" by simp
    with law(10,11) [where p = ?a and m = "machine (rest v)" and v = "int j"] v
    have "fst (int64_cas L ?a (int j) (int j + 1) (machine (rest v)))"
      "cell (snd (snd (int64_cas L ?a (int j) (int j + 1) (machine (rest v))))) = ?F (Suc j)" by (simp_all add: add.commute)
    ultimately show "\<exists>v'. ?body (int j) v = Some v' \<and> kept v' = kept v @ [KeptU64 1]
        \<and> cell (machine (rest v')) = ?F (Suc j)"
      by (simp add: calling_def split_beta keep_u64_def)
  qed
  then obtain w' where "bench_loop ?body ?u = Some w'" "cell (machine (rest w')) ?a = int (nat (b_n (bch w)))"
    "kept w' = kept w @ replicate (nat (b_n (bch w))) (KeptU64 1)" by (auto simp: map_replicate_const)
  moreover have "bench_sync_atomic_int64_cas h L w = bench_loop ?body ?u"
    unfolding bench_sync_atomic_int64_cas_def bench_hide_def Let_def block.simps block_single
    by (simp add: calling_def split_beta)
  ultimately show ?thesis by simp
qed

section \<open>Cells that keep the law\<close>

definition ref_atomic :: "(nat \<Rightarrow> int) atomic_lib" where
  "ref_atomic = \<lparr>
     add_int64 = (\<lambda>p d m. (wrap64 (m p + d), 1, m(p := wrap64 (m p + d)))), load_int64 = (\<lambda>p m. (m p, 1, m)),
     int64_add = (\<lambda>p d m. (wrap64 (m p + d), 1, m(p := wrap64 (m p + d)))), int64_load = (\<lambda>p m. (m p, 1, m)),
     int64_store = (\<lambda>p v m. ((), 1, m(p := v))),
     int64_cas = (\<lambda>p v v' m. (m p = v, 1, if m p = v then m(p := v') else m)),
     bool_load = (\<lambda>p m. (m p \<noteq> 0, 1, m)), bool_store = (\<lambda>p b m. ((), 1, m(p := if b then 1 else 0))),
     pointer_load = (\<lambda>p m. (nat (m p), 1, m)), pointer_store = (\<lambda>p v m. ((), 1, m(p := int v))),
     value_load = (\<lambda>p m. (nat (m p), 1, m)), value_store = (\<lambda>p v m. ((), 1, m(p := int v)))\<rparr>"

lemma ref_atomic_law: "atomic_law ref_atomic (\<lambda>m. m)"
  by (simp add: atomic_law_def ref_atomic_def)

definition atomic_world :: "int \<Rightarrow> (nat \<Rightarrow> int) process world" where
  "atomic_world n = \<lparr>bch = zero_bench\<lparr>b_n := n\<rparr>, kept = [], rest = \<lparr>clock = 0, int_var = (\<lambda>x. 0),
     u64_var = (\<lambda>x. 0), dbl_var = (\<lambda>x. 0), int_array = (\<lambda>x. []), str_array = (\<lambda>x. []),
     machine = (\<lambda>p. int64_max)\<rparr>\<rparr>"

theorem atomic_adds_count_witness:
  "\<exists>w'. bench_sync_atomic_int64_add (exact_host (\<lambda>x. 8) (\<lambda>x. 0)) ref_atomic (atomic_world 2) = Some w'
     \<and> machine (rest w') 8 = - int64_max"
proof -
  have "wrap64 (int64_max + int (nat 2)) = - int64_max" by (simp add: wrap64_def int64_max_def)
  with atomic_adds_count [OF ref_atomic_law, where w = "atomic_world 2" and v = int64_max
      and h = "exact_host (\<lambda>x. 8) (\<lambda>x. 0)" and p = 8
      and f = "bench_sync_atomic_int64_add (exact_host (\<lambda>x. 8) (\<lambda>x. 0)) ref_atomic"]
  show ?thesis by (auto simp: atomic_world_def in_int64_def int64_max_def)
qed

theorem atomic_cas_never_fails_witness:
  "\<exists>w'. bench_sync_atomic_int64_cas (exact_host (\<lambda>x. 8) (\<lambda>x. 0)) ref_atomic (atomic_world 2) = Some w'
     \<and> kept w' = [KeptU64 1, KeptU64 1]"
  using atomic_cas_never_fails [OF ref_atomic_law, where w = "atomic_world 2"
      and h = "exact_host (\<lambda>x. 8) (\<lambda>x. 0)"]
  by (auto simp: atomic_world_def int64_max_def numeral_2_eq_2)

end
