(* ===== verification/Note_Lib.thy ===== *)
theory Note_Lib
  imports Answers
begin

text \<open>
  Burrow's notes and threads, which \<open>bench/sync_bench.c\<close> and \<open>bench/clock_bench.c\<close> use. A note is a
  gate: it is closed when it is made, a wake opens it, a clear closes it, and a sleep waits until it is open.
\<close>

record 'm note_lib =
  note_init :: "nat \<Rightarrow> (bool, 'm) op"
  note_free :: "nat \<Rightarrow> (unit, 'm) op"
  note_clear :: "nat \<Rightarrow> (unit, 'm) op"
  note_wake :: "nat \<Rightarrow> (unit, 'm) op"
  note_sleep :: "nat \<Rightarrow> (unit, 'm) blocking_op"
  note_sleep_timeout :: "nat \<Rightarrow> int \<Rightarrow> (bool, 'm) op"

record 'm thread_lib =
  thread_start :: "nat \<Rightarrow> (bool, 'm) op"
  thread_join :: "nat \<Rightarrow> (unit, 'm) op"
  thread_yield :: "(unit, 'm) op"
  thread_self :: "(u64, 'm) op"

text \<open>
  \<open>opened m x\<close>: the note at \<open>x\<close> is open; \<open>made m\<close>: the notes that were initialised and not freed. No
  thread but those of the program touches them.
\<close>

definition note_law :: "'m note_lib \<Rightarrow> ('m \<Rightarrow> nat \<Rightarrow> bool) \<Rightarrow> ('m \<Rightarrow> nat set) \<Rightarrow> bool" where
  "note_law N opened made \<longleftrightarrow>
     (\<forall>x m. fst (note_init N x m) \<longrightarrow> made (snd (snd (note_init N x m))) = insert x (made m)
        \<and> opened (snd (snd (note_init N x m))) = (opened m)(x := False))
   \<and> (\<forall>x m. \<not> fst (note_init N x m) \<longrightarrow> made (snd (snd (note_init N x m))) = made m)
   \<and> (\<forall>x m. made (snd (snd (note_free N x m))) = made m - {x})
   \<and> (\<forall>x m. made (snd (snd (note_clear N x m))) = made m
        \<and> opened (snd (snd (note_clear N x m))) = (opened m)(x := False))
   \<and> (\<forall>x m. made (snd (snd (note_wake N x m))) = made m
        \<and> opened (snd (snd (note_wake N x m))) = (opened m)(x := True))
   \<and> (\<forall>x m. case note_sleep N x m of None \<Rightarrow> \<not> opened m x
        | Some (_, _, m') \<Rightarrow> opened m x \<and> opened m' = opened m \<and> made m' = made m)
   \<and> (\<forall>x t m. fst (note_sleep_timeout N x t m) = opened m x
        \<and> opened (snd (snd (note_sleep_timeout N x t m))) = opened m
        \<and> made (snd (snd (note_sleep_timeout N x t m))) = made m)"

lemma note_lawD:
  assumes "note_law N opened made"
  shows "fst (note_init N x m) \<Longrightarrow> made (snd (snd (note_init N x m))) = insert x (made m)"
    and "fst (note_init N x m) \<Longrightarrow> opened (snd (snd (note_init N x m))) = (opened m)(x := False)"
    and "\<not> fst (note_init N x m) \<Longrightarrow> made (snd (snd (note_init N x m))) = made m"
    and "made (snd (snd (note_free N x m))) = made m - {x}"
    and "made (snd (snd (note_clear N x m))) = made m"
    and "opened (snd (snd (note_clear N x m))) = (opened m)(x := False)"
    and "made (snd (snd (note_wake N x m))) = made m"
    and "opened (snd (snd (note_wake N x m))) = (opened m)(x := True)"
    and "fst (note_sleep_timeout N x t m) = opened m x"
    and "opened (snd (snd (note_sleep_timeout N x t m))) = opened m"
    and "made (snd (snd (note_sleep_timeout N x t m))) = made m"
  using assms by (simp_all add: note_law_def)

lemma note_sleepD:
  assumes "note_law N opened made"
  shows "opened m x \<Longrightarrow> \<exists>d m'. note_sleep N x m = Some ((), d, m') \<and> opened m' = opened m \<and> made m' = made m"
    and "\<not> opened m x \<Longrightarrow> note_sleep N x m = None"
proof -
  have "case note_sleep N x m of None \<Rightarrow> \<not> opened m x
    | Some (_, _, m') \<Rightarrow> opened m x \<and> opened m' = opened m \<and> made m' = made m"
    using assms by (simp add: note_law_def)
  then show "opened m x \<Longrightarrow> \<exists>d m'. note_sleep N x m = Some ((), d, m') \<and> opened m' = opened m \<and> made m' = made m"
    and "\<not> opened m x \<Longrightarrow> note_sleep N x m = None"
    by (auto split: option.splits)
qed

definition thread_law :: "'m thread_lib \<Rightarrow> ('m \<Rightarrow> nat \<Rightarrow> bool) \<Rightarrow> ('m \<Rightarrow> nat set) \<Rightarrow> bool" where
  "thread_law T opened made \<longleftrightarrow>
     (\<forall>x m. opened (snd (snd (thread_start T x m))) = opened m \<and> made (snd (snd (thread_start T x m))) = made m)
   \<and> (\<forall>x m. opened (snd (snd (thread_join T x m))) = opened m \<and> made (snd (snd (thread_join T x m))) = made m)"

lemma thread_lawD:
  assumes "thread_law T opened made"
  shows "opened (snd (snd (thread_start T x m))) = opened m" "made (snd (snd (thread_start T x m))) = made m"
    "opened (snd (snd (thread_join T x m))) = opened m" "made (snd (snd (thread_join T x m))) = made m"
  using assms unfolding thread_law_def by blast+

text \<open>Notes that keep the law: the state is the set of open notes and the set of made ones.\<close>

definition ref_notes :: "(nat set \<times> nat set) note_lib" where
  "ref_notes = \<lparr>note_init = (\<lambda>x (op, mk). (True, 1, (op - {x}, insert x mk))),
     note_free = (\<lambda>x (op, mk). ((), 1, (op, mk - {x}))), note_clear = (\<lambda>x (op, mk). ((), 1, (op - {x}, mk))),
     note_wake = (\<lambda>x (op, mk). ((), 1, (insert x op, mk))),
     note_sleep = (\<lambda>x (op, mk). if x \<in> op then Some ((), 1, (op, mk)) else None),
     note_sleep_timeout = (\<lambda>x t (op, mk). (x \<in> op, 1, (op, mk)))\<rparr>"

definition ref_threads :: "'m thread_lib" where
  "ref_threads = \<lparr>thread_start = (\<lambda>x m. (True, 1, m)), thread_join = (\<lambda>x m. ((), 1, m)),
     thread_yield = (\<lambda>m. ((), 1, m)), thread_self = (\<lambda>m. (1, 1, m))\<rparr>"

lemma ref_notes_law: "note_law ref_notes (\<lambda>m x. x \<in> fst m) snd" "thread_law ref_threads (\<lambda>m x. x \<in> fst m) snd"
  by (auto simp: note_law_def thread_law_def ref_notes_def ref_threads_def fun_eq_iff)

end
