(* ===== verification/Clock_Bench.thy ===== *)
theory Clock_Bench
  imports Note_Lib Sched_Bench
begin

text \<open>
  \<open>bench/clock_bench.c\<close> and \<open>bench/preempt_bench.c\<close>: reading burrow's clock, the timed sleep on a
  note, and the safe point of the scheduler.
\<close>

section \<open>The clock\<close>

definition bench_nanotime :: "(int, 'm) op \<Rightarrow> 'm cstmt" where
  "bench_nanotime nanotime = bench_loop (\<lambda>_. calling nanotime keep_int)"

definition bench_nanotime_elapsed :: "(int, 'm) op \<Rightarrow> 'm cstmt" where
  "bench_nanotime_elapsed nanotime = calling nanotime (\<lambda>start.
     bench_loop (\<lambda>_. calling nanotime (\<lambda>t. checked (add64 t (- start)) keep_int)))"

definition bench_nanotime_interval :: "(int, 'm) op \<Rightarrow> 'm cstmt" where
  "bench_nanotime_interval nanotime = bench_loop (\<lambda>_. calling nanotime (\<lambda>start.
     calling nanotime (\<lambda>t. checked (add64 t (- start)) keep_int)))"

section \<open>The timed sleep\<close>

definition bench_note_timeout_hit :: "'m host \<Rightarrow> 'm note_lib \<Rightarrow> 'm cstmt" where
  "bench_note_timeout_hit h N = (let x = addr h ''clock_note'' in
     calling (note_init N x) (\<lambda>ok. if \<not> ok then Some else block [
       bench_loop (\<lambda>_. block [
         call_op (note_clear N x),
         call_op (note_wake N x),
         calling (note_sleep_timeout N x 1000000000) keep_bool]),
       call_op (note_free N x)]))"

definition bench_note_timeout_poll :: "'m host \<Rightarrow> 'm note_lib \<Rightarrow> 'm cstmt" where
  "bench_note_timeout_poll h N = (let x = addr h ''clock_note'' in
     calling (note_init N x) (\<lambda>ok. if \<not> ok then Some else block [
       bench_loop (\<lambda>_. calling (note_sleep_timeout N x 0) keep_bool),
       call_op (note_free N x)]))"

definition clock_table :: "'m host \<Rightarrow> (int, 'm) op \<Rightarrow> 'm note_lib \<Rightarrow> (string \<times> 'm cstmt) list" where
  "clock_table h nanotime N = [
     (''nanotime'', bench_nanotime nanotime), (''nanotime_elapsed'', bench_nanotime_elapsed nanotime),
     (''nanotime_interval'', bench_nanotime_interval nanotime),
     (''note_timeout_hit'', bench_note_timeout_hit h N), (''note_timeout_poll'', bench_note_timeout_poll h N)]"

section \<open>The safe point\<close>

definition idle_body :: "'m host \<Rightarrow> (unit, 'm) op \<Rightarrow> 'm cstmt" where
  "idle_body h preempt_point = timed_section h (bench_loop (\<lambda>_. call_op preempt_point))"

definition bench_preempt_point_idle :: "'m host \<Rightarrow> 'm runtime_lib \<Rightarrow> (unit, 'm) op \<Rightarrow> 'm cstmt" where
  "bench_preempt_point_idle h R preempt_point = run_with_one_p h R (idle_body h preempt_point)"

definition bench_preempt_point_off_goroutine :: "(unit, 'm) op \<Rightarrow> 'm cstmt" where
  "bench_preempt_point_off_goroutine preempt_point = bench_loop (\<lambda>_. call_op preempt_point)"

definition preempt_table :: "'m host \<Rightarrow> 'm runtime_lib \<Rightarrow> (unit, 'm) op \<Rightarrow> (string \<times> 'm cstmt) list" where
  "preempt_table h R preempt_point = [
     (''preempt_point_idle'', bench_preempt_point_idle h R preempt_point),
     (''preempt_point_off_goroutine'', bench_preempt_point_off_goroutine preempt_point)]"

section \<open>The contract\<close>

lemma clock_table_moves:
  "(nm, f) \<in> set (clock_table h nanotime N) \<Longrightarrow> does (advances clock) f"
  unfolding clock_table_def bench_nanotime_def bench_nanotime_elapsed_def bench_nanotime_interval_def
    bench_note_timeout_hit_def bench_note_timeout_poll_def Let_def
  by (auto intro!: contract_rules simp del: block.simps)

lemma preempt_table_moves:
  assumes "host_ok h" and "(nm, f) \<in> set (preempt_table h R preempt_point)"
  shows "does (advances clock) f"
  using assms
  by (auto simp: preempt_table_def bench_preempt_point_idle_def bench_preempt_point_off_goroutine_def idle_body_def
      intro!: contract_rules simp del: block.simps)

section \<open>Time does not run backwards\<close>

text \<open>\<open>time\<close> is what the clock of burrow shows: it never goes back and stays inside \<open>int64_t\<close>.\<close>

definition nanotime_law :: "(int, 'm) op \<Rightarrow> ('m \<Rightarrow> int) \<Rightarrow> bool" where
  "nanotime_law nanotime time \<longleftrightarrow> (\<forall>m. fst (nanotime m) = time (snd (snd (nanotime m)))
     \<and> 0 \<le> time m \<and> time m \<le> time (snd (snd (nanotime m))) \<and> time m \<le> int64_max)"

lemma nanotime_lawD:
  assumes "nanotime_law nanotime time"
  shows "fst (nanotime m) = time (snd (snd (nanotime m)))" "0 \<le> time m"
    "time m \<le> time (snd (snd (nanotime m)))" "time m \<le> int64_max"
  using assms by (simp_all add: nanotime_law_def)

text \<open>
  The values of the elapsed row: each is at least the one before, and all are in a range.
\<close>

definition times_from :: "int \<Rightarrow> int \<Rightarrow> int list \<Rightarrow> bool" where
  "times_from lo hi ts \<longleftrightarrow> sorted ts \<and> (\<forall>t \<in> set ts. lo \<le> t \<and> t \<le> hi)"

lemma times_from_snoc: "times_from lo hi ts \<Longrightarrow> lo \<le> hi \<Longrightarrow> hi \<le> t \<Longrightarrow> times_from lo t (ts @ [t])"
  by (fastforce simp: times_from_def sorted_append)

text \<open>
  Invariant: the elapsed time a row reads never decreases, is never negative and never overflows, so
  its conversion to \<open>uint64_t\<close> is exact: the row hands over a sorted list of \<open>n\<close> numbers.
\<close>
theorem elapsed_times_sorted:
  fixes w :: "'m process world"
  assumes "nanotime_law nanotime time"
  shows "\<exists>w' ts. bench_nanotime_elapsed nanotime w = Some w' \<and> length ts = nat (b_n (bch w))
    \<and> kept w' = kept w @ map (\<lambda>t. KeptU64 (of_int t)) ts \<and> times_from 0 int64_max ts"
proof -
  note law = nanotime_lawD [OF assms]
  let ?u = "snd (call (lib nanotime) w)" and ?t0 = "fst (nanotime (machine (rest w)))"
  let ?body = "\<lambda>_ :: int. calling nanotime (\<lambda>t. checked (add64 t (- ?t0)) keep_int)"
  let ?I = "\<lambda>j v :: 'm process world. ?t0 \<le> time (machine (rest v)) \<and> (\<exists>ts. length ts = j
    \<and> kept v = kept w @ map (\<lambda>t. KeptU64 (of_int t)) ts \<and> times_from 0 (time (machine (rest v)) - ?t0) ts)"
  have t0: "0 \<le> ?t0" by (simp add: law(1,2))
  have "\<exists>w'. for_loop (nat (b_n (bch w))) 0 ?body ?u = Some w' \<and> ?I (nat (b_n (bch w))) w'"
  proof (rule for_loop_total)
    show "?I 0 ?u" by (simp add: law(1) times_from_def)
    fix j and v :: "'m process world" assume v: "?I j v"
    then obtain ts where ts: "length ts = j" "kept v = kept w @ map (\<lambda>t. KeptU64 (of_int t)) ts"
      "times_from 0 (time (machine (rest v)) - ?t0) ts" by blast
    let ?m = "snd (snd (nanotime (machine (rest v))))"
    have le: "?t0 \<le> time (machine (rest v))" "time (machine (rest v)) \<le> time ?m" using v law(3) by simp_all
    have "in_int64 (time ?m - ?t0)"
      using le t0 law(4) [of ?m] by (simp add: in_int64_nonneg)
    then have "add64 (fst (nanotime (machine (rest v)))) (- ?t0) = Some (time ?m - ?t0)"
      by (simp add: law(1))
    then have step: "?body (0 + int j) v = Some (bench_keep_u64 (of_int (time ?m - ?t0)) (snd (call (lib nanotime) v)))"
      unfolding calling_def checked_def split_beta Let_def fst_call
      by (simp only: lib_sel Option.bind.simps keep_int_def keep_u64_def)
    show "\<exists>v'. ?body (0 + int j) v = Some v' \<and> ?I (Suc j) v'"
      unfolding step
      using times_from_snoc [OF ts(3), of "time ?m - ?t0"] le ts(1,2)
      by (auto intro!: exI [of _ "ts @ [time ?m - ?t0]"])
  qed
  then obtain w' ts where "for_loop (nat (b_n (bch w))) 0 ?body ?u = Some w'" "length ts = nat (b_n (bch w))"
    "kept w' = kept w @ map (\<lambda>t. KeptU64 (of_int t)) ts" "times_from 0 (time (machine (rest w')) - ?t0) ts" by blast
  moreover from this(4) t0 law(4) [of "machine (rest w')"] have "times_from 0 int64_max ts"
    by (auto simp: times_from_def)
  ultimately show ?thesis
    by (auto simp: bench_nanotime_elapsed_def calling_def split_beta Let_def bench_loop_def)
qed

section \<open>The notes\<close>

lemma note_loop:
  fixes w :: "'m process world"
  assumes "\<And>v. Q (machine (rest v)) \<Longrightarrow>
      \<exists>v'. body v = Some v' \<and> kept v' = kept v @ [KeptU64 c] \<and> Q (machine (rest v'))"
    and "Q (machine (rest w))"
  shows "\<exists>w'. bench_loop (\<lambda>_. body) w = Some w' \<and> Q (machine (rest w'))
    \<and> kept w' = kept w @ replicate (nat (b_n (bch w))) (KeptU64 c)"
proof -
  from loop_kept [where I = "\<lambda>j v. Q (machine (rest v))" and g = "\<lambda>j. [KeptU64 c]" and body = "\<lambda>_. body" and w = w, OF assms(2)]
    assms(1) have "\<exists>w'. bench_loop (\<lambda>_. body) w = Some w' \<and> Q (machine (rest w'))
    \<and> kept w' = kept w @ concat (map (\<lambda>j. [KeptU64 c]) [0..<nat (b_n (bch w))])" by blast
  then show ?thesis by (simp add: map_replicate_const concat_replicate_one)
qed

text \<open>
  Error: a note row whose note cannot be made comes back at once with nothing for the sink. Otherwise
  the gate that was opened is found open in every round and the gate that nobody opened is found
  closed, no round waits, and the note is freed.
\<close>
theorem note_rows_answer:
  fixes w :: "'m process world"
  assumes "note_law N opened made" and "(f, c) \<in> {(bench_note_timeout_hit h N, 1), (bench_note_timeout_poll h N, 0)}"
    and "addr h ''clock_note'' \<notin> made (machine (rest w))"
  shows "\<exists>w'. f w = Some w' \<and> made (machine (rest w')) = made (machine (rest w))
    \<and> kept w' = kept w @ (if fst (note_init N (addr h ''clock_note'') (machine (rest w)))
        then replicate (nat (b_n (bch w))) (KeptU64 c) else [])"
proof -
  note law = note_lawD [OF assms(1)]
  let ?x = "addr h ''clock_note''" and ?m = "machine (rest w)"
  let ?c = "call (lib (note_init N ?x)) w"
  let ?row = "\<lambda>body. calling (note_init N ?x) (\<lambda>ok. if \<not> ok then Some else block [
    bench_loop (\<lambda>_. body), call_op (note_free N ?x)])"
  let ?Q = "\<lambda>s. \<exists>w'. s w = Some w' \<and> made (machine (rest w')) = made ?m
    \<and> kept w' = kept w @ (if fst (note_init N ?x ?m) then replicate (nat (b_n (bch w))) (KeptU64 c) else [])"
  have row: "?Q (?row body)" if "P (opened (snd (snd (note_init N ?x ?m))) ?x)"
    "\<And>v. P (opened (machine (rest v)) ?x) \<Longrightarrow> \<exists>v'. body v = Some v' \<and> kept v' = kept v @ [KeptU64 c]
      \<and> P (opened (machine (rest v')) ?x) \<and> made (machine (rest v')) = made (machine (rest v))" for body P
  proof (cases "fst (note_init N ?x ?m)")
    case True
    let ?Q = "\<lambda>m. P (opened m ?x) \<and> made m = insert ?x (made ?m)"
    have "\<exists>v'. bench_loop (\<lambda>_. body) (snd ?c) = Some v' \<and> ?Q (machine (rest v'))
      \<and> kept v' = kept (snd ?c) @ replicate (nat (b_n (bch (snd ?c)))) (KeptU64 c)"
    proof (rule note_loop [where Q = ?Q])
      show "?Q (machine (rest (snd ?c)))" using that(1) True by (simp add: law(1))
    qed (use that(2) in blast)
    with True assms(3) show ?thesis
      by (auto simp: calling_def split_beta law(4))
  qed (simp add: calling_def split_beta law(3))
  have "?Q (bench_note_timeout_hit h N)" if "c = 1"
    unfolding bench_note_timeout_hit_def Let_def
    by (rule row [of "\<lambda>_. True"]) (simp_all add: that calling_def split_beta keep_bool_def keep_u64_def law)
  moreover have "?Q (bench_note_timeout_poll h N)" if "c = 0"
  proof (cases "fst (note_init N ?x ?m)")
    case True
    show ?thesis unfolding bench_note_timeout_poll_def Let_def
      by (rule row [of Not]) (simp_all add: that True calling_def split_beta keep_bool_def keep_u64_def law)
  qed (simp add: bench_note_timeout_poll_def Let_def calling_def split_beta law(3))
  ultimately show ?thesis using assms(2) by blast
qed

definition clock_world :: "int \<Rightarrow> 'm \<Rightarrow> 'm process world" where
  "clock_world n m = \<lparr>bch = zero_bench\<lparr>b_n := n\<rparr>, kept = [], rest = \<lparr>clock = 0, int_var = (\<lambda>x. 0),
     u64_var = (\<lambda>x. 0), dbl_var = (\<lambda>x. 0), int_array = (\<lambda>x. []), str_array = (\<lambda>x. []), machine = m\<rparr>\<rparr>"

text \<open>A clock that moves by 7 with every reading until it stands still.\<close>

definition ticking :: "(int, nat) op" where
  "ticking m = (int (min (m + 7) 1000), 1, min (m + 7) 1000)"

theorem elapsed_times_sorted_witness:
  "\<exists>w' ts. bench_nanotime_elapsed ticking (clock_world 3 5) = Some w' \<and> length ts = 3
     \<and> kept w' = map (\<lambda>t. KeptU64 (of_int t)) ts \<and> times_from 0 int64_max ts"
proof -
  have "nanotime_law ticking (\<lambda>m. min (int m) 1000)"
    by (auto simp: nanotime_law_def ticking_def int64_max_def)
  from elapsed_times_sorted [OF this, of "clock_world 3 5"] show ?thesis by (simp add: clock_world_def)
qed

theorem note_rows_answer_witness:
  "\<exists>w'. bench_note_timeout_poll (exact_host (\<lambda>x. 8) (\<lambda>x. 0)) ref_notes (clock_world 2 ({}, {})) = Some w'
     \<and> kept w' = [KeptU64 0, KeptU64 0]"
  using note_rows_answer [OF ref_notes_law(1), of "bench_note_timeout_poll (exact_host (\<lambda>x. 8) (\<lambda>x. 0)) ref_notes" 0
      "exact_host (\<lambda>x. 8) (\<lambda>x. 0)" "clock_world 2 ({}, {})"]
  by (auto simp: clock_world_def ref_notes_def numeral_2_eq_2)

end
