(* ===== verification/Sync_Bench.thy ===== *)
theory Sync_Bench
  imports Note_Lib Interleave
begin

text \<open>
  \<open>bench/sync_bench.c\<close>: the atomics, notes and threads under the scheduler. The ping pong over two
  notes is a program of two threads (theory \<open>Interleave\<close>); the other rows have one thread, or one that is
  joined before anything else happens.
\<close>

section \<open>The atomics\<close>

text \<open>
  An atomic operation is given the number in the cell, a static variable of the program, and returns
  its result and what it leaves in the cell; the compare-and-swap also returns what it leaves in \<open>want\<close>.
\<close>

record 'm raw_atomics =
  add_u64 :: "u64 \<Rightarrow> u64 \<Rightarrow> (u64 \<times> u64, 'm) op"
  add_u32 :: "u32 \<Rightarrow> u32 \<Rightarrow> (u32 \<times> u32, 'm) op"
  load_u64 :: "u64 \<Rightarrow> (u64, 'm) op"
  store_u64 :: "u64 \<Rightarrow> u64 \<Rightarrow> (u64, 'm) op"
  cas_u64 :: "u64 \<Rightarrow> u64 \<Rightarrow> u64 \<Rightarrow> (bool \<times> u64 \<times> u64, 'm) op"

definition on_cell :: "string \<Rightarrow> (u64 \<Rightarrow> 'm cstmt) \<Rightarrow> 'm cstmt" where
  "on_cell x k = reading (\<lambda>p. u64_var p x) k"

definition bench_atomic_add_u64 :: "'m raw_atomics \<Rightarrow> 'm cstmt" where
  "bench_atomic_add_u64 A = bench_loop (\<lambda>_. on_cell ''sync_counter'' (\<lambda>c.
     calling (add_u64 A c 1) (\<lambda>(r, c). block [set_u64 ''sync_counter'' c, keep_u64 r])))"

definition bench_atomic_add_u32 :: "'m raw_atomics \<Rightarrow> 'm cstmt" where
  "bench_atomic_add_u32 A = bench_loop (\<lambda>_. on_cell ''sync_counter32'' (\<lambda>c.
     calling (add_u32 A (ucast c) 1) (\<lambda>(r, c). block [set_u64 ''sync_counter32'' (ucast c), keep_u64 (ucast r)])))"

definition bench_atomic_load_u64 :: "'m raw_atomics \<Rightarrow> 'm cstmt" where
  "bench_atomic_load_u64 A = bench_loop (\<lambda>_. on_cell ''sync_counter'' (\<lambda>c. calling (load_u64 A c) keep_u64))"

definition bench_atomic_store_u64 :: "'m raw_atomics \<Rightarrow> 'm cstmt" where
  "bench_atomic_store_u64 A = bench_loop (\<lambda>i. on_cell ''sync_counter'' (\<lambda>c.
     calling (store_u64 A c (of_int i)) (set_u64 ''sync_counter'')))"

definition bench_atomic_cas_u64 :: "'m raw_atomics \<Rightarrow> 'm cstmt" where
  "bench_atomic_cas_u64 A = block [
     set_u64 ''sync_counter'' 0,
     bench_loop (\<lambda>i. let want = of_int i in on_cell ''sync_counter'' (\<lambda>c.
       calling (cas_u64 A c want (want + 1)) (\<lambda>(ok, c, _). block [set_u64 ''sync_counter'' c, keep_bool ok])))]"

section \<open>One thread and a note\<close>

definition bench_note_cycle :: "'m host \<Rightarrow> 'm note_lib \<Rightarrow> 'm cstmt" where
  "bench_note_cycle h N = (let x = addr h ''sync_note'' in
     calling (note_init N x) (\<lambda>ok. if \<not> ok then Some else block [
       bench_loop (\<lambda>_. block [
         call_op (note_clear N x),
         call_op (note_wake N x),
         blocking (note_sleep N x) (\<lambda>_. Some)]),
       call_op (note_free N x)]))"

section \<open>The ping pong\<close>

text \<open>
  Where the two threads are: \<open>PClear i\<close>, \<open>PWake i\<close> and \<open>PSleep i\<close> are the calls of round \<open>i\<close> of the
  loop. \<open>sync_ponger.ended\<close> is set when \<open>sync_pong\<close> has returned, which is what the join waits for.
\<close>

datatype ping_pc = PClear nat | PWake nat | PSleep nat | PLastClear | PLastWake | PLastSleep | PJoin | POut

datatype pong_pc = QSleep | QClear | QTest | QWake bool | QReturn | QGone

fun note_pingpong :: "'m note_lib \<Rightarrow> 'm thread_lib \<Rightarrow> nat \<Rightarrow> nat \<Rightarrow> nat \<Rightarrow> nat \<Rightarrow> (ping_pc, 'm process world) thread" where
  "note_pingpong N T there back th n (PClear i) =
     (if i < n then moves_to (PWake i) (call_op (note_clear N back))
      else moves_to PLastClear (set_u64 ''sync_stop'' 1))"
| "note_pingpong N T there back th n (PWake i) = moves_to (PSleep i) (call_op (note_wake N there))"
| "note_pingpong N T there back th n (PSleep i) = moves_to (PClear (i + 1)) (blocking (note_sleep N back) (\<lambda>_. Some))"
| "note_pingpong N T there back th n PLastClear = moves_to PLastWake (call_op (note_clear N back))"
| "note_pingpong N T there back th n PLastWake = moves_to PLastSleep (call_op (note_wake N there))"
| "note_pingpong N T there back th n PLastSleep = moves_to PJoin (blocking (note_sleep N back) (\<lambda>_. Some))"
| "note_pingpong N T there back th n PJoin = (\<lambda>w.
     if int_var (rest w) ''sync_ponger.ended'' = 0 then None else moves_to POut (call_op (thread_join T th)) w)"
| "note_pingpong N T there back th n POut = (\<lambda>w. None)"

fun sync_pong :: "'m note_lib \<Rightarrow> nat \<Rightarrow> nat \<Rightarrow> (pong_pc, 'm process world) thread" where
  "sync_pong N there back QSleep = moves_to QClear (blocking (note_sleep N there) (\<lambda>_. Some))"
| "sync_pong N there back QClear = moves_to QTest (call_op (note_clear N there))"
| "sync_pong N there back QTest = (\<lambda>w. Some (QWake (u64_var (rest w) ''sync_stop'' \<noteq> 0), w))"
| "sync_pong N there back (QWake fin) = moves_to (if fin then QReturn else QSleep) (call_op (note_wake N back))"
| "sync_pong N there back QReturn = moves_to QGone (set_int ''sync_ponger.ended'' 1)"
| "sync_pong N there back QGone = (\<lambda>w. None)"

definition bench_note_pingpong :: "(nat \<Rightarrow> bool) \<Rightarrow> 'm host \<Rightarrow> 'm note_lib \<Rightarrow> 'm thread_lib \<Rightarrow> 'm cstmt" where
  "bench_note_pingpong sc h N T =
     (let there = addr h ''sync_to_worker''; back = addr h ''sync_to_main''; th = addr h ''sync_ponger'' in
     calling (note_init N there) (\<lambda>ok. if \<not> ok then Some else
     calling (note_init N back) (\<lambda>ok. if \<not> ok then call_op (note_free N there) else block [
       set_u64 ''sync_stop'' 0,
       calling (thread_start T th) (\<lambda>ok. if \<not> ok then Some else block [
         set_int ''sync_ponger.ended'' 0,
         reading_n (\<lambda>n. together sc (note_pingpong N T there back th (nat n)) (sync_pong N there back)
           (\<lambda>p. p = POut) (PClear 0) QSleep)]),
       call_op (note_free N back),
       call_op (note_free N there)])))"

section \<open>Threads\<close>

definition sync_touch :: "'m cstmt" where
  "sync_touch = reading (\<lambda>p. u64_var p ''sync_worker_ran'') (\<lambda>c. set_u64 ''sync_worker_ran'' (c + 1))"

text \<open>A thread that was started has run when the join returns.\<close>

definition start_join :: "'m host \<Rightarrow> 'm thread_lib \<Rightarrow> 'm process world \<Rightarrow> (bool \<times> 'm process world) option" where
  "start_join h T w = (let th = addr h ''sync_worker''; (ok, w) = call (lib (thread_start T th)) w in
     if \<not> ok then Some (False, w)
     else do { w \<leftarrow> block [sync_touch, call_op (thread_join T th)] w; Some (True, w) })"

definition bench_thread_start_join :: "'m host \<Rightarrow> 'm thread_lib \<Rightarrow> 'm cstmt" where
  "bench_thread_start_join h T = block [
     bench_loop_break (\<lambda>_. start_join h T),
     reading (\<lambda>p. u64_var p ''sync_worker_ran'') keep_u64]"

definition bench_thread_yield :: "'m thread_lib \<Rightarrow> 'm cstmt" where
  "bench_thread_yield T = bench_loop (\<lambda>_. call_op (thread_yield T))"

definition bench_thread_self :: "'m thread_lib \<Rightarrow> 'm cstmt" where
  "bench_thread_self T = bench_loop (\<lambda>_. calling (thread_self T) keep_u64)"

definition sync_table ::
  "(nat \<Rightarrow> bool) \<Rightarrow> 'm host \<Rightarrow> 'm raw_atomics \<Rightarrow> 'm note_lib \<Rightarrow> 'm thread_lib \<Rightarrow> (string \<times> 'm cstmt) list" where
  "sync_table sc h A N T = [
     (''atomic_add_u64'', bench_atomic_add_u64 A), (''atomic_add_u32'', bench_atomic_add_u32 A),
     (''atomic_load_u64'', bench_atomic_load_u64 A), (''atomic_store_u64'', bench_atomic_store_u64 A),
     (''atomic_cas_u64'', bench_atomic_cas_u64 A), (''note_cycle'', bench_note_cycle h N),
     (''note_pingpong'', bench_note_pingpong sc h N T), (''thread_start_join'', bench_thread_start_join h T),
     (''thread_yield'', bench_thread_yield T), (''thread_self'', bench_thread_self T)]"

section \<open>The contract\<close>

lemma note_threads_move:
  "note_pingpong N T there back th n p w = Some (p', w') \<Longrightarrow> advances clock w w'"
  "sync_pong N there back q w = Some (q', w') \<Longrightarrow> advances clock w w'"
proof -
  show "advances clock w w'" if "note_pingpong N T there back th n p w = Some (p', w')"
    using that by (cases p; auto split: if_splits elim!: moves_to_advances [rotated] intro: contract_rules)
  show "advances clock w w'" if "sync_pong N there back q w = Some (q', w')"
    using that by (cases q; auto split: if_splits simp: moving.R_refl elim!: moves_to_advances [rotated] intro: contract_rules)
qed

lemma sync_touch_moves [contract_rules]: "does (advances clock) sync_touch"
  unfolding sync_touch_def by (intro contract_rules)

lemma start_join_moves [contract_rules]: "does (advances clock) (bench_loop_break (\<lambda>_. start_join h T))"
proof (rule loop_break_moves)
  fix w g and w' :: "'a process world" assume "start_join h T w = Some (g, w')"
  then have "does (advances clock) (calling (thread_start T (addr h ''sync_worker'')) (\<lambda>ok. if ok then
      block [sync_touch, call_op (thread_join T (addr h ''sync_worker''))] else Some)) \<and>
    calling (thread_start T (addr h ''sync_worker'')) (\<lambda>ok. if ok then
      block [sync_touch, call_op (thread_join T (addr h ''sync_worker''))] else Some) w = Some w'"
    by (auto simp: start_join_def calling_def split_beta Let_def bind_eq_Some_conv
        simp del: block.simps split: if_splits intro!: contract_rules)
  then show "advances clock w w'" by (blast dest: doesD)
qed

lemmas sync_bodies = bench_atomic_add_u64_def bench_atomic_add_u32_def bench_atomic_load_u64_def
  bench_atomic_store_u64_def bench_atomic_cas_u64_def bench_note_cycle_def bench_note_pingpong_def
  bench_thread_start_join_def bench_thread_yield_def bench_thread_self_def on_cell_def

lemma sync_table_moves:
  "(nm, f) \<in> set (sync_table sc h A N T) \<Longrightarrow> does (advances clock) f"
  unfolding sync_table_def sync_bodies Let_def
  by (auto simp: split_beta intro!: contract_rules intro: note_threads_move simp del: block.simps)

section \<open>The ping pong ends\<close>

text \<open>
  The invariant: which of the two gates is open and where the thread is, for every place of the main
  thread. \<open>a\<close> and \<open>c\<close> are the gates of the thread and of the main thread.
\<close>

fun volley_ok :: "nat \<Rightarrow> ping_pc \<Rightarrow> pong_pc \<Rightarrow> bool \<Rightarrow> bool \<Rightarrow> bool \<Rightarrow> bool \<Rightarrow> bool" where
  "volley_ok n (PClear i) q a c stop ended \<longleftrightarrow> i \<le> n \<and> \<not> stop \<and> q = QSleep \<and> \<not> a \<and> \<not> ended"
| "volley_ok n (PWake i) q a c stop ended \<longleftrightarrow> i < n \<and> \<not> stop \<and> q = QSleep \<and> \<not> a \<and> \<not> c \<and> \<not> ended"
| "volley_ok n (PSleep i) q a c stop ended \<longleftrightarrow> i < n \<and> \<not> stop \<and> \<not> ended
     \<and> (if c then q = QSleep \<and> \<not> a else q \<in> {QSleep, QClear} \<and> a \<or> q \<in> {QTest, QWake False} \<and> \<not> a)"
| "volley_ok n PLastClear q a c stop ended \<longleftrightarrow> stop \<and> q = QSleep \<and> \<not> a \<and> \<not> ended"
| "volley_ok n PLastWake q a c stop ended \<longleftrightarrow> stop \<and> q = QSleep \<and> \<not> a \<and> \<not> c \<and> \<not> ended"
| "volley_ok n PLastSleep q a c stop ended \<longleftrightarrow> stop
     \<and> (if c then q = QReturn \<and> \<not> ended \<or> q = QGone \<and> ended
        else \<not> ended \<and> (q \<in> {QSleep, QClear} \<and> a \<or> q \<in> {QTest, QWake True} \<and> \<not> a))"
| "volley_ok n PJoin q a c stop ended \<longleftrightarrow> q = QReturn \<and> \<not> ended \<or> q = QGone \<and> ended"
| "volley_ok n POut q a c stop ended \<longleftrightarrow> q = QGone \<and> ended"

fun pong_left :: "pong_pc \<Rightarrow> nat" where
  "pong_left QSleep = 5" | "pong_left QClear = 4" | "pong_left QTest = 3" | "pong_left (QWake b) = 2"
| "pong_left QReturn = 1" | "pong_left QGone = 0"

fun steps_left :: "nat \<Rightarrow> ping_pc \<Rightarrow> pong_pc \<Rightarrow> bool \<Rightarrow> nat" where
  "steps_left n (PClear i) q c = 7 * (n - i) + 10"
| "steps_left n (PWake i) q c = 7 * (n - i) + 9"
| "steps_left n (PSleep i) q c = 7 * (n - i) + (if c then 4 else 3 + pong_left q)"
| "steps_left n PLastClear q c = 9"
| "steps_left n PLastWake q c = 8"
| "steps_left n PLastSleep q c = 2 + pong_left q"
| "steps_left n PJoin q c = 1 + pong_left q"
| "steps_left n POut q c = 0"

definition volley_state ::
  "('m \<Rightarrow> nat \<Rightarrow> bool) \<Rightarrow> ('m \<Rightarrow> nat set) \<Rightarrow> nat \<Rightarrow> nat \<Rightarrow> nat \<Rightarrow> nat set \<Rightarrow> sunk list \<Rightarrow> ping_pc \<times> pong_pc \<times> 'm process world \<Rightarrow> bool" where
  "volley_state opened made there back n notes sink = (\<lambda>(p, q, w).
     volley_ok n p q (opened (machine (rest w)) there) (opened (machine (rest w)) back)
       (u64_var (rest w) ''sync_stop'' \<noteq> 0) (int_var (rest w) ''sync_ponger.ended'' \<noteq> 0)
     \<and> made (machine (rest w)) = notes \<and> kept w = sink)"

lemma sleep_step:
  assumes "note_law N opened made"
  shows "(note_sleep N x m = None) = (\<not> opened m x)" "opened (left_by (note_sleep N x) m) = opened m"
    "made (left_by (note_sleep N x) m) = made m"
proof -
  have "(note_sleep N x m = None) = (\<not> opened m x) \<and> opened (left_by (note_sleep N x) m) = opened m
    \<and> made (left_by (note_sleep N x) m) = made m"
  proof (cases "opened m x")
    case True
    obtain d m' where "note_sleep N x m = Some ((), d, m')" "opened m' = opened m" "made m' = made m"
      using note_sleepD(1) [where opened = opened, OF assms True] by blast
    with True show ?thesis by (simp add: left_by_def)
  next
    case False
    with note_sleepD(2) [where opened = opened, OF assms False] show ?thesis by (simp add: left_by_def)
  qed
  then show "(note_sleep N x m = None) = (\<not> opened m x)" "opened (left_by (note_sleep N x) m) = opened m"
    "made (left_by (note_sleep N x) m) = made m" by blast+
qed

lemma note_volleys_end:
  assumes "note_law N opened made" and "thread_law T opened made" and "there \<noteq> back"
  shows "lively (note_pingpong N T there back th n) (sync_pong N there back) (\<lambda>p. p = POut)
    (volley_state opened made there back n notes sink)
    (\<lambda>(p, q, w). steps_left n p q (opened (machine (rest w)) back))
    (\<lambda>(p, q, w). note_pingpong N T there back th n p w \<noteq> None)"
proof (rule lively_if_lowering)
  note step = sleep_step [OF assms(1)] passed_step called_step set_step note_lawD [OF assms(1)] thread_lawD [OF assms(2)] assms(3) assms(3) [symmetric]
  fix p q and w :: "'a process world"
  assume J: "volley_state opened made there back n notes sink (p, q, w)"
  { fix p' w' assume "note_pingpong N T there back th n p w = Some (p', w')"
    with J show "volley_state opened made there back n notes sink (p', q, w')
      \<and> (case (p', q, w') of (p, q, w) \<Rightarrow> steps_left n p q (opened (machine (rest w)) back))
        < (case (p, q, w) of (p, q, w) \<Rightarrow> steps_left n p q (opened (machine (rest w)) back))"
      by (cases p) (auto simp: volley_state_def step split: if_splits) }
  { fix q' w' assume "sync_pong N there back q w = Some (q', w')"
    with J show "volley_state opened made there back n notes sink (p, q', w')
      \<and> (case (p, q', w') of (p, q, w) \<Rightarrow> steps_left n p q (opened (machine (rest w)) back))
        < (case (p, q, w) of (p, q, w) \<Rightarrow> steps_left n p q (opened (machine (rest w)) back))"
      by (cases p; cases q) (auto simp: volley_state_def step split: if_splits) }
  { assume "p \<noteq> POut"
    with J show "note_pingpong N T there back th n p w \<noteq> None \<or> sync_pong N there back q w \<noteq> None"
      by (cases p; cases q) (auto simp: volley_state_def step split: if_splits) }
qed

text \<open>
  C23. Liveness: the ping pong over two notes comes back for every schedule that neglects neither thread,
  whatever fails on the way. No wake is lost, although each side closes its gate again after it has gone
  through; the thread is joined, both notes are freed and nothing is handed to the sink.
\<close>
theorem note_pingpong_returns:
  fixes w :: "'m process world"
  assumes "note_law N opened made" and "thread_law T opened made" and "fair sc"
    and "addr h ''sync_to_worker'' \<noteq> addr h ''sync_to_main''"
    and "addr h ''sync_to_worker'' \<notin> made (machine (rest w))" and "addr h ''sync_to_main'' \<notin> made (machine (rest w))"
  shows "\<exists>w'. bench_note_pingpong sc h N T w = Some w' \<and> kept w' = kept w
    \<and> made (machine (rest w')) = made (machine (rest w))"
proof -
  let ?there = "addr h ''sync_to_worker''" and ?home = "addr h ''sync_to_main''" and ?th = "addr h ''sync_ponger''"
  note law = note_lawD [OF assms(1)] and tlaw = thread_lawD [OF assms(2)]
  let ?notes = "insert ?home (insert ?there (made (machine (rest w))))"
  have volleys: "\<exists>v'. together sc (note_pingpong N T ?there ?home ?th n) (sync_pong N ?there ?home) (\<lambda>p. p = POut)
      (PClear 0) QSleep v = Some v' \<and> made (machine (rest v')) = ?notes \<and> kept v' = kept w"
    if "\<not> opened (machine (rest v)) ?there" "u64_var (rest v) ''sync_stop'' = 0"
      "int_var (rest v) ''sync_ponger.ended'' = 0" "made (machine (rest v)) = ?notes" "kept v = kept w" for n v
  proof -
    have "volley_state opened made ?there ?home n ?notes (kept w) (PClear 0, QSleep, v)"
      using that by (simp add: volley_state_def)
    from together_total [OF assms(3) note_volleys_end [OF assms(1,2,4)] this]
    show ?thesis by (auto simp: volley_state_def)
  qed
  let ?c1 = "call (lib (note_init N ?there)) w"
  let ?c2 = "call (lib (note_init N ?home)) (snd ?c1)"
  show ?thesis
  proof (cases "fst ?c1 \<and> fst ?c2")
    case True
    let ?u = "perform (\<lambda>p. p\<lparr>u64_var := (u64_var p)(''sync_stop'' := 0)\<rparr>) (snd ?c2)"
    let ?c3 = "call (lib (thread_start T ?th)) ?u"
    let ?v = "perform (\<lambda>p. p\<lparr>int_var := (int_var p)(''sync_ponger.ended'' := 0)\<rparr>) (snd ?c3)"
    let ?run = "calling (thread_start T ?th) (\<lambda>ok. if \<not> ok then Some else block [
         set_int ''sync_ponger.ended'' 0,
         reading_n (\<lambda>n. together sc (note_pingpong N T ?there ?home ?th (nat n)) (sync_pong N ?there ?home)
           (\<lambda>p. p = POut) (PClear 0) QSleep)])"
    have made: "made (machine (rest ?u)) = ?notes" "\<not> opened (machine (rest ?u)) ?there" "kept ?u = kept w"
      using True assms(4) by (simp_all add: law)
    have "\<exists>v'. ?run ?u = Some v' \<and> made (machine (rest v')) = ?notes \<and> kept v' = kept w"
    proof (cases "fst ?c3")
      case True
      have "\<exists>v'. together sc (note_pingpong N T ?there ?home ?th (nat (b_n (bch ?v)))) (sync_pong N ?there ?home)
          (\<lambda>p. p = POut) (PClear 0) QSleep ?v = Some v' \<and> made (machine (rest v')) = ?notes \<and> kept v' = kept w"
        by (rule volleys) (use made in \<open>simp_all add: tlaw\<close>)
      with True show ?thesis
        by (simp add: calling_def split_beta set_int_def assign_def reading_n_def)
    qed (use made in \<open>simp add: calling_def split_beta tlaw\<close>)
    then obtain v' where v': "?run ?u = Some v'" "made (machine (rest v')) = ?notes" "kept v' = kept w" by blast
    let ?f1 = "snd (call (lib (note_free N ?home)) v')"
    let ?f2 = "snd (call (lib (note_free N ?there)) ?f1)"
    have "bench_note_pingpong sc h N T w = Some ?f2"
      using True v'(1) unfolding bench_note_pingpong_def Let_def calling_def [of "note_init N ?there"]
        calling_def [of "note_init N ?home"]
      by (simp add: split_beta set_u64_def assign_def calling_def [of "note_free N ?home"] calling_def [of "note_free N ?there"])
    moreover have "made (machine (rest ?f2)) = made (machine (rest w))" "kept ?f2 = kept w"
      using v'(2,3) assms(4-6) by (auto simp: law)
    ultimately show ?thesis by blast
  next
    case False
    then show ?thesis using assms(5)
      by (auto simp: bench_note_pingpong_def Let_def calling_def split_beta law)
  qed
qed

section \<open>The rows of one thread\<close>

definition raw_law :: "'m raw_atomics \<Rightarrow> bool" where
  "raw_law A \<longleftrightarrow> (\<forall>c d m. snd (fst (add_u64 A c d m)) = c + d) \<and> (\<forall>c d m. snd (fst (add_u32 A c d m)) = c + d)
     \<and> (\<forall>c m. fst (load_u64 A c m) = c) \<and> (\<forall>c v m. fst (store_u64 A c v m) = v)
     \<and> (\<forall>c v v' m. c = v \<longrightarrow> fst (cas_u64 A c v v' m) = (True, v', v))"

lemma raw_lawD:
  assumes "raw_law A"
  shows "snd (fst (add_u64 A c d m)) = c + d" "fst (load_u64 A c m) = c" "fst (store_u64 A c v m) = v"
    "fst (cas_u64 A c c v' m) = (True, v', c)"
  using assms by (simp_all add: raw_law_def)

text \<open>
  Functional: the compare-and-swap row never retries. Its expected value in round \<open>j\<close> is what round
  \<open>j - 1\<close> stored, so every exchange succeeds, and the counter ends at \<open>n\<close>.
\<close>
theorem raw_cas_never_fails:
  fixes w :: "'m process world"
  assumes "raw_law A"
  shows "\<exists>w'. bench_atomic_cas_u64 A w = Some w' \<and> u64_var (rest w') ''sync_counter'' = of_nat (nat (b_n (bch w)))
    \<and> kept w' = kept w @ replicate (nat (b_n (bch w))) (KeptU64 1)"
proof -
  let ?u = "perform (\<lambda>p. p\<lparr>u64_var := (u64_var p)(''sync_counter'' := 0)\<rparr>) w"
  let ?body = "\<lambda>i. let want = of_int i in on_cell ''sync_counter'' (\<lambda>c. calling (cas_u64 A c want (want + 1))
    (\<lambda>(ok, c, _). block [set_u64 ''sync_counter'' c, keep_bool ok]))"
  have "\<exists>w'. bench_loop ?body ?u = Some w'
      \<and> (\<lambda>j v. u64_var (rest v) ''sync_counter'' = of_nat j) (nat (b_n (bch ?u))) w'
      \<and> kept w' = kept ?u @ concat (map (\<lambda>_. [KeptU64 1]) [0..<nat (b_n (bch ?u))])"
  proof (rule loop_kept)
    fix j and v :: "'m process world" assume "u64_var (rest v) ''sync_counter'' = of_nat j"
    then show "\<exists>v'. ?body (int j) v = Some v' \<and> kept v' = kept v @ [KeptU64 1]
        \<and> u64_var (rest v') ''sync_counter'' = of_nat (Suc j)"
      by (simp add: on_cell_def reading_def calling_def split_beta raw_lawD [OF assms] set_u64_def assign_def
          keep_bool_def keep_u64_def Let_def)
  qed simp
  then show ?thesis
    by (simp add: bench_atomic_cas_u64_def set_u64_def assign_def map_replicate_const concat_replicate_one)
qed

text \<open>
  Functional: the thread row counts the threads that ran. It starts at most \<open>n\<close> threads, joins each
  before the next, leaves the loop when one cannot be started, and hands the counter of the
  threads to the sink, raised by the number of threads that were started: all \<open>n\<close> when none fails.
\<close>
theorem thread_row_counts:
  fixes w :: "'m process world"
  shows "\<exists>w' j. bench_thread_start_join h T w = Some w' \<and> j \<le> nat (b_n (bch w))
    \<and> ((\<forall>m. fst (thread_start T (addr h ''sync_worker'') m)) \<longrightarrow> j = nat (b_n (bch w)))
    \<and> kept w' = kept w @ [KeptU64 (u64_var (rest w) ''sync_worker_ran'' + of_nat j)]"
proof -
  let ?ran = "\<lambda>v :: 'm process world. u64_var (rest v) ''sync_worker_ran''"
  have run: "\<exists>w' j. for_break k i (\<lambda>_. start_join h T) v = Some w' \<and> j \<le> k
      \<and> ((\<forall>m. fst (thread_start T (addr h ''sync_worker'') m)) \<longrightarrow> j = k)
      \<and> kept w' = kept v \<and> ?ran w' = ?ran v + of_nat j" for k i and v :: "'m process world"
  proof (induction k arbitrary: i v)
    case (Suc k)
    let ?c = "call (lib (thread_start T (addr h ''sync_worker''))) v"
    show ?case
    proof (cases "fst ?c")
      case True
      then obtain u where u: "start_join h T v = Some (True, u)" "kept u = kept v" "?ran u = ?ran v + 1"
        by (auto simp: start_join_def split_beta Let_def sync_touch_def reading_def set_u64_def assign_def calling_def)
      obtain w' j where "for_break k (i + 1) (\<lambda>_. start_join h T) u = Some w'" "j \<le> k"
        "(\<forall>m. fst (thread_start T (addr h ''sync_worker'') m)) \<longrightarrow> j = k" "kept w' = kept u" "?ran w' = ?ran u + of_nat j"
        using Suc.IH [of "i + 1" u] by blast
      with u show ?thesis by (intro exI [of _ w'] exI [of _ "Suc j"]) simp
    next
      case False
      then have "start_join h T v = Some (False, snd ?c)" by (simp add: start_join_def split_beta Let_def)
      with False show ?thesis by (intro exI [of _ "snd ?c"] exI [of _ 0]) auto
    qed
  qed simp
  then obtain w' j where "for_break (nat (b_n (bch w))) 0 (\<lambda>_. start_join h T) w = Some w'" "j \<le> nat (b_n (bch w))"
    "(\<forall>m. fst (thread_start T (addr h ''sync_worker'') m)) \<longrightarrow> j = nat (b_n (bch w))" "kept w' = kept w"
    "?ran w' = ?ran w + of_nat j" by blast
  then show ?thesis
    by (auto simp: bench_thread_start_join_def bench_loop_break_def reading_def keep_u64_def)
qed

section \<open>Instances\<close>

definition note_world :: "int \<Rightarrow> 'm \<Rightarrow> 'm process world" where
  "note_world n m = \<lparr>bch = zero_bench\<lparr>b_n := n\<rparr>, kept = [], rest = \<lparr>clock = 0, int_var = (\<lambda>x. 0),
     u64_var = (\<lambda>x. 0), dbl_var = (\<lambda>x. 0), int_array = (\<lambda>x. []), str_array = (\<lambda>x. []), machine = m\<rparr>\<rparr>"

definition ref_raw :: "'m raw_atomics" where
  "ref_raw = \<lparr>add_u64 = (\<lambda>c d m. ((c + d, c + d), 1, m)), add_u32 = (\<lambda>c d m. ((c + d, c + d), 1, m)),
     load_u64 = (\<lambda>c m. (c, 1, m)), store_u64 = (\<lambda>c v m. (v, 1, m)),
     cas_u64 = (\<lambda>c v v' m. if c = v then ((True, v', v), 1, m) else ((False, c, c), 1, m))\<rparr>"

lemma ref_raw_law: "raw_law ref_raw"
  by (simp add: raw_law_def ref_raw_def)

theorem note_pingpong_returns_witness:
  "\<exists>w'. bench_note_pingpong even (exact_host length (\<lambda>x. 0)) ref_notes ref_threads (note_world 5 ({}, {})) = Some w'
     \<and> kept w' = [] \<and> snd (machine (rest w')) = {}"
  using note_pingpong_returns [OF ref_notes_law fair_alternation, of "exact_host length (\<lambda>x. 0)" "note_world 5 ({}, {})"]
  by (simp add: note_world_def)

theorem raw_cas_never_fails_witness:
  "\<exists>w'. bench_atomic_cas_u64 ref_raw (note_world 2 ()) = Some w' \<and> kept w' = [KeptU64 1, KeptU64 1]"
  using raw_cas_never_fails [OF ref_raw_law, of "note_world 2 ()"]
  by (auto simp: note_world_def numeral_2_eq_2)

theorem thread_row_counts_witness:
  "\<exists>w'. bench_thread_start_join (exact_host length (\<lambda>x. 0)) ref_threads (note_world 3 ()) = Some w' \<and> kept w' = [KeptU64 3]"
  using thread_row_counts [of "exact_host length (\<lambda>x. 0)" ref_threads "note_world 3 ()"]
  by (auto simp: note_world_def ref_threads_def)

end
