(* ===== verification/Cond_Bench.thy ===== *)
theory Cond_Bench
  imports Interleave Sched_Bench
begin

text \<open>
  \<open>bench/cond_bench.c\<close>: burrow's condition variable, with nobody waiting, and between two goroutines
  that take turns. The ping pong is a program of two threads (theory \<open>Interleave\<close>): every lock, unlock,
  signal and access to a shared variable is a step, and a wait is two, the one that lets go of the mutex
  and queues, and the one that has been woken and has the mutex again. The schedule decides who moves, so
  the number of turns that a yield reports plays no part here.
\<close>

section \<open>What the file takes from burrow\<close>

text \<open>
  \<open>True\<close> is the main goroutine and \<open>False\<close> the partner: burrow knows which goroutine calls.
\<close>

record 'm cond_lib =
  mu_zero :: "nat \<Rightarrow> (unit, 'm) op"
  cond_init :: "nat \<Rightarrow> nat \<Rightarrow> (unit, 'm) op"
  mu_lock :: "bool \<Rightarrow> nat \<Rightarrow> (unit, 'm) blocking_op"
  mu_unlock :: "nat \<Rightarrow> (unit, 'm) op"
  cond_signal :: "nat \<Rightarrow> (unit, 'm) op"
  cond_broadcast :: "nat \<Rightarrow> (unit, 'm) op"
  wait_begin :: "bool \<Rightarrow> nat \<Rightarrow> (unit, 'm) op"
  wait_end :: "bool \<Rightarrow> nat \<Rightarrow> (unit, 'm) blocking_op"

section \<open>Nobody is waiting\<close>

definition init_empty :: "'m host \<Rightarrow> 'm cond_lib \<Rightarrow> 'm cstmt" where
  "init_empty h C = block [
     call_op (mu_zero C (addr h ''empty_mu'')),
     call_op (cond_init C (addr h ''empty_cond'') (addr h ''empty_mu''))]"

definition bench_cond_signal_empty :: "'m host \<Rightarrow> 'm cond_lib \<Rightarrow> 'm cstmt" where
  "bench_cond_signal_empty h C = block [
     init_empty h C,
     bench_loop (\<lambda>_. call_op (cond_signal C (bench_hide (addr h ''empty_cond''))))]"

definition bench_cond_broadcast_empty :: "'m host \<Rightarrow> 'm cond_lib \<Rightarrow> 'm cstmt" where
  "bench_cond_broadcast_empty h C = block [
     init_empty h C,
     bench_loop (\<lambda>_. call_op (cond_broadcast C (bench_hide (addr h ''empty_cond''))))]"

section \<open>The ping pong\<close>

text \<open>
  Where the two are. \<open>MLock i\<close> to \<open>MUnlock2 i\<close> are round \<open>i\<close> of the loop of \<open>pp_body\<close>, and
  \<open>MWaiting\<close> and \<open>QWaiting\<close> are inside \<open>sync_cond_wait\<close>; \<open>QUnlock\<close> and \<open>QSignal\<close> carry the
  partner's local variable \<open>stop\<close>.
\<close>

datatype pp_pc = MResume | MLock nat | MSet nat | MUnlock nat | MSignal nat | MLock2 nat | MTest nat
  | MWait nat | MWaiting nat | MUnlock2 nat | MStopLock | MStop | MStopUnlock | MBroadcast | MSpin | MOut

datatype partner_pc = QLock | QTest | QWait | QWaiting | QTake | QUnlock bool | QSignal bool | QStore | QGone

fun pp_body_step :: "'m host \<Rightarrow> 'm sched_lib \<Rightarrow> 'm cond_lib \<Rightarrow> nat \<Rightarrow> nat \<Rightarrow> nat \<Rightarrow> (pp_pc, 'm process world) thread" where
  "pp_body_step h S C mu c n MResume = moves_to (MLock 0) (resuming h)"
| "pp_body_step h S C mu c n (MLock i) =
     (if i < n then moves_to (MSet i) (blocking (mu_lock C True mu) (\<lambda>_. Some)) else moves_to MStopLock (pausing h))"
| "pp_body_step h S C mu c n (MSet i) = moves_to (MUnlock i) (set_int ''pp_turn'' 1)"
| "pp_body_step h S C mu c n (MUnlock i) = moves_to (MSignal i) (call_op (mu_unlock C mu))"
| "pp_body_step h S C mu c n (MSignal i) = moves_to (MLock2 i) (call_op (cond_signal C c))"
| "pp_body_step h S C mu c n (MLock2 i) = moves_to (MTest i) (blocking (mu_lock C True mu) (\<lambda>_. Some))"
| "pp_body_step h S C mu c n (MTest i) = (\<lambda>w.
     Some (if int_var (rest w) ''pp_turn'' \<noteq> 0 then MWait i else MUnlock2 i, w))"
| "pp_body_step h S C mu c n (MWait i) = moves_to (MWaiting i) (call_op (wait_begin C True c))"
| "pp_body_step h S C mu c n (MWaiting i) = moves_to (MTest i) (blocking (wait_end C True c) (\<lambda>_. Some))"
| "pp_body_step h S C mu c n (MUnlock2 i) = moves_to (MLock (i + 1)) (call_op (mu_unlock C mu))"
| "pp_body_step h S C mu c n MStopLock = moves_to MStop (blocking (mu_lock C True mu) (\<lambda>_. Some))"
| "pp_body_step h S C mu c n MStop = moves_to MStopUnlock (block [set_int ''pp_stop'' 1, set_int ''pp_turn'' 1])"
| "pp_body_step h S C mu c n MStopUnlock = moves_to MBroadcast (call_op (mu_unlock C mu))"
| "pp_body_step h S C mu c n MBroadcast = moves_to MSpin (call_op (cond_broadcast C c))"
| "pp_body_step h S C mu c n MSpin = (\<lambda>w.
     if int_var (rest w) ''pp_done'' = 0 then moves_to MSpin (call_op (sched_yield S)) w else Some (MOut, w))"
| "pp_body_step h S C mu c n MOut = (\<lambda>w. None)"

fun pp_partner :: "'m cond_lib \<Rightarrow> nat \<Rightarrow> nat \<Rightarrow> (partner_pc, 'm process world) thread" where
  "pp_partner C mu c QLock = moves_to QTest (blocking (mu_lock C False mu) (\<lambda>_. Some))"
| "pp_partner C mu c QTest = (\<lambda>w. Some (if int_var (rest w) ''pp_turn'' \<noteq> 1 then QWait else QTake, w))"
| "pp_partner C mu c QWait = moves_to QWaiting (call_op (wait_begin C False c))"
| "pp_partner C mu c QWaiting = moves_to QTest (blocking (wait_end C False c) (\<lambda>_. Some))"
| "pp_partner C mu c QTake = (\<lambda>w.
     moves_to (QUnlock (int_var (rest w) ''pp_stop'' \<noteq> 0)) (set_int ''pp_turn'' 0) w)"
| "pp_partner C mu c (QUnlock stop) = moves_to (QSignal stop) (call_op (mu_unlock C mu))"
| "pp_partner C mu c (QSignal stop) = moves_to (if stop then QStore else QLock) (call_op (cond_signal C c))"
| "pp_partner C mu c QStore = moves_to QGone (set_int ''pp_done'' 1)"
| "pp_partner C mu c QGone = (\<lambda>w. None)"

definition pp_body :: "(nat \<Rightarrow> bool) \<Rightarrow> 'm host \<Rightarrow> 'm sched_lib \<Rightarrow> 'm cond_lib \<Rightarrow> 'm cstmt" where
  "pp_body sc h S C = (let mu = addr h ''pp_mu''; c = addr h ''pp_cond'' in block [
     call_op (mu_zero C mu), call_op (cond_init C c mu),
     set_int ''pp_turn'' 0, set_int ''pp_stop'' 0, set_int ''pp_done'' 0,
     calling (go_launch S) (\<lambda>ok. if \<not> ok then Some else
       reading_n (\<lambda>n. together sc (pp_body_step h S C mu c (nat n)) (pp_partner C mu c) (\<lambda>p. p = MOut) MResume QLock))])"

definition bench_cond_ping_pong ::
  "(nat \<Rightarrow> bool) \<Rightarrow> 'm host \<Rightarrow> 'm runtime_lib \<Rightarrow> 'm sched_lib \<Rightarrow> 'm cond_lib \<Rightarrow> 'm cstmt" where
  "bench_cond_ping_pong sc h R S C = block [
     pausing h,
     calling (gomaxprocs R 2) (\<lambda>old. block [
       runtime_main R (pp_body sc h S C),
       call_op (gomaxprocs R old)])]"

definition cond_table ::
  "(nat \<Rightarrow> bool) \<Rightarrow> 'm host \<Rightarrow> 'm runtime_lib \<Rightarrow> 'm sched_lib \<Rightarrow> 'm cond_lib \<Rightarrow> (string \<times> 'm cstmt) list" where
  "cond_table sc h R S C = [
     (''cond_signal_empty'', bench_cond_signal_empty h C),
     (''cond_broadcast_empty'', bench_cond_broadcast_empty h C),
     (''cond_ping_pong'', bench_cond_ping_pong sc h R S C)]"

section \<open>The contract\<close>

lemma cond_threads_move:
  "host_ok h \<Longrightarrow> pp_body_step h S C mu c n p w = Some (p', w') \<Longrightarrow> advances clock w w'"
  "pp_partner C mu c q w = Some (q', w') \<Longrightarrow> advances clock w w'"
proof -
  show "advances clock w w'" if "host_ok h" "pp_body_step h S C mu c n p w = Some (p', w')"
    using that by (cases p; auto split: if_splits simp: moving.R_refl simp del: block.simps
        elim!: moves_to_advances [rotated] intro!: contract_rules)
  show "advances clock w w'" if "pp_partner C mu c q w = Some (q', w')"
    using that by (cases q; auto split: if_splits simp: moving.R_refl elim!: moves_to_advances [rotated] intro: contract_rules)
qed

lemma cond_table_moves:
  assumes "host_ok h" and "(nm, f) \<in> set (cond_table sc h R S C)"
  shows "does (advances clock) f"
  using assms
  unfolding cond_table_def bench_cond_signal_empty_def bench_cond_broadcast_empty_def bench_cond_ping_pong_def
    pp_body_def init_empty_def Let_def
  by (auto intro!: contract_rules intro: cond_threads_move simp del: block.simps)

section \<open>What a condition variable promises\<close>

text \<open>
  \<open>holder\<close> is who holds the mutex of the condition variable, \<open>waiting m x\<close> says that \<open>x\<close> is in its
  queue. A signal takes one goroutine out of the queue if there is one, and a wait ends when its
  goroutine is out of the queue and the mutex is free. Launching and yielding touch neither.
\<close>

definition cond_law :: "'m cond_lib \<Rightarrow> 'm sched_lib \<Rightarrow> nat \<Rightarrow> nat \<Rightarrow> ('m \<Rightarrow> bool option) \<Rightarrow> ('m \<Rightarrow> bool \<Rightarrow> bool) \<Rightarrow> bool" where
  "cond_law C S mu c holder waiting \<longleftrightarrow>
     (\<forall>m. holder (snd (snd (mu_zero C mu m))) = None)
   \<and> (\<forall>m. holder (snd (snd (cond_init C c mu m))) = holder m \<and> waiting (snd (snd (cond_init C c mu m))) = (\<lambda>x. False))
   \<and> (\<forall>me m. (mu_lock C me mu m = None) = (holder m \<noteq> None)
        \<and> (holder m = None \<longrightarrow> holder (left_by (mu_lock C me mu) m) = Some me)
        \<and> waiting (left_by (mu_lock C me mu) m) = waiting m)
   \<and> (\<forall>m. holder m \<noteq> None \<longrightarrow> holder (snd (snd (mu_unlock C mu m))) = None)
   \<and> (\<forall>m. waiting (snd (snd (mu_unlock C mu m))) = waiting m)
   \<and> (\<forall>m. holder (snd (snd (cond_signal C c m))) = holder m
        \<and> (\<exists>x. waiting (snd (snd (cond_signal C c m))) = (waiting m)(x := False) \<and> (waiting m x \<or> waiting m = (\<lambda>x. False))))
   \<and> (\<forall>m. holder (snd (snd (cond_broadcast C c m))) = holder m
        \<and> waiting (snd (snd (cond_broadcast C c m))) = (\<lambda>x. False))
   \<and> (\<forall>me m. holder m = Some me \<longrightarrow> holder (snd (snd (wait_begin C me c m))) = None
        \<and> waiting (snd (snd (wait_begin C me c m))) = (waiting m)(me := True))
   \<and> (\<forall>me m. (wait_end C me c m = None) = (waiting m me \<or> holder m \<noteq> None)
        \<and> (\<not> waiting m me \<and> holder m = None \<longrightarrow> holder (left_by (wait_end C me c) m) = Some me)
        \<and> waiting (left_by (wait_end C me c) m) = waiting m)
   \<and> (\<forall>m. holder (snd (snd (go_launch S m))) = holder m \<and> waiting (snd (snd (go_launch S m))) = waiting m)
   \<and> (\<forall>m. holder (snd (snd (sched_yield S m))) = holder m \<and> waiting (snd (snd (sched_yield S m))) = waiting m)"

lemma cond_lawD:
  assumes "cond_law C S mu c holder waiting"
  shows "holder (snd (snd (mu_zero C mu m))) = None" "holder (snd (snd (cond_init C c mu m))) = holder m"
    "waiting (snd (snd (cond_init C c mu m))) = (\<lambda>x. False)"
    "(mu_lock C me mu m = None) = (holder m \<noteq> None)"
    "holder m = None \<Longrightarrow> holder (left_by (mu_lock C me mu) m) = Some me"
    "waiting (left_by (mu_lock C me mu) m) = waiting m"
    "holder m \<noteq> None \<Longrightarrow> holder (snd (snd (mu_unlock C mu m))) = None"
    "waiting (snd (snd (mu_unlock C mu m))) = waiting m"
    "holder (snd (snd (cond_signal C c m))) = holder m"
    "holder (snd (snd (cond_broadcast C c m))) = holder m"
    "waiting (snd (snd (cond_broadcast C c m))) = (\<lambda>x. False)"
    "holder m = Some me \<Longrightarrow> holder (snd (snd (wait_begin C me c m))) = None"
    "holder m = Some me \<Longrightarrow> waiting (snd (snd (wait_begin C me c m))) = (waiting m)(me := True)"
    "(wait_end C me c m = None) = (waiting m me \<or> holder m \<noteq> None)"
    "\<not> waiting m me \<Longrightarrow> holder m = None \<Longrightarrow> holder (left_by (wait_end C me c) m) = Some me"
    "waiting (left_by (wait_end C me c) m) = waiting m"
    "holder (snd (snd (go_launch S m))) = holder m" "waiting (snd (snd (go_launch S m))) = waiting m"
    "holder (snd (snd (sched_yield S m))) = holder m" "waiting (snd (snd (sched_yield S m))) = waiting m"
  using assms by (simp_all add: cond_law_def)

text \<open>With nobody but one goroutine that can be in the queue, a signal wakes exactly that one.\<close>

lemma cond_signalD:
  assumes "cond_law C S mu c holder waiting" and "\<not> waiting m me"
  shows "waiting (snd (snd (cond_signal C c m))) = (\<lambda>x. False)"
proof -
  obtain x where x: "waiting (snd (snd (cond_signal C c m))) = (waiting m)(x := False)"
    "waiting m x \<or> waiting m = (\<lambda>x. False)" using assms(1) unfolding cond_law_def by blast
  then show ?thesis using assms(2) by (cases x; cases me) (auto simp: fun_eq_iff all_bool_eq)
qed

section \<open>The invariant\<close>

fun main_holds :: "pp_pc \<Rightarrow> bool" where
  "main_holds (MSet i) = True" | "main_holds (MUnlock i) = True" | "main_holds (MTest i) = True"
| "main_holds (MWait i) = True" | "main_holds (MUnlock2 i) = True" | "main_holds MStop = True"
| "main_holds MStopUnlock = True" | "main_holds p = False"

fun partner_holds :: "partner_pc \<Rightarrow> bool" where
  "partner_holds QTest = True" | "partner_holds QWait = True" | "partner_holds QTake = True"
| "partner_holds (QUnlock stop) = True" | "partner_holds q = False"

fun stopped :: "pp_pc \<Rightarrow> bool" where
  "stopped MStopUnlock = True" | "stopped MBroadcast = True" | "stopped MSpin = True" | "stopped MOut = True"
| "stopped p = False"

text \<open>What the place of the main goroutine says about its round and the turn.\<close>

fun main_at :: "nat \<Rightarrow> pp_pc \<Rightarrow> int \<Rightarrow> bool" where
  "main_at n MResume tn = (tn = 0)"
| "main_at n (MLock i) tn = (i \<le> n \<and> tn = 0)" | "main_at n (MSet i) tn = (i < n \<and> tn = 0)"
| "main_at n (MUnlock i) tn = (i < n \<and> tn = 1)" | "main_at n (MSignal i) tn = (i < n)"
| "main_at n (MLock2 i) tn = (i < n)" | "main_at n (MTest i) tn = (i < n)"
| "main_at n (MWait i) tn = (i < n \<and> tn = 1)" | "main_at n (MWaiting i) tn = (i < n)"
| "main_at n (MUnlock2 i) tn = (i < n \<and> tn = 0)" | "main_at n MStopLock tn = (tn = 0)"
| "main_at n MStop tn = (tn = 0)" | "main_at n MStopUnlock tn = (tn = 1)"
| "main_at n MBroadcast tn = True" | "main_at n MSpin tn = True" | "main_at n MOut tn = True"

text \<open>The partner: a signal of an earlier turn may still be to come when the turn is the partner's again.\<close>

fun partner_at :: "partner_pc \<Rightarrow> int \<Rightarrow> bool \<Rightarrow> bool" where
  "partner_at QTake tn fin = (tn = 1)" | "partner_at QWait tn fin = (tn = 0 \<and> \<not> fin)"
| "partner_at (QUnlock stop) tn fin = (tn = 0 \<and> stop = fin)"
| "partner_at (QSignal stop) tn fin = (if stop then tn = 0 \<and> fin else fin \<longrightarrow> tn = 1)"
| "partner_at QStore tn fin = (tn = 0 \<and> fin)" | "partner_at QGone tn fin = (tn = 0 \<and> fin)"
| "partner_at q tn fin = (fin \<longrightarrow> tn = 1)"

fun main_waits_in :: "pp_pc \<Rightarrow> bool" where
  "main_waits_in (MWaiting i) = True" | "main_waits_in p = False"

fun main_will_signal :: "pp_pc \<Rightarrow> bool" where
  "main_will_signal (MUnlock i) = True" | "main_will_signal (MSignal i) = True"
| "main_will_signal MStopUnlock = True" | "main_will_signal MBroadcast = True" | "main_will_signal p = False"

fun partner_will_signal :: "partner_pc \<Rightarrow> bool" where
  "partner_will_signal (QUnlock stop) = True" | "partner_will_signal (QSignal stop) = True"
| "partner_will_signal q = False"

text \<open>Whoever is in the queue while the turn is its own has a signal coming.\<close>

definition pp_ok :: "nat \<Rightarrow> pp_pc \<Rightarrow> partner_pc \<Rightarrow> int \<Rightarrow> int \<Rightarrow> int \<Rightarrow> bool option \<Rightarrow> (bool \<Rightarrow> bool) \<Rightarrow> bool" where
  "pp_ok n p q tn stop gone hold wait \<longleftrightarrow>
     hold = (if main_holds p then Some True else if partner_holds q then Some False else None)
     \<and> \<not> (main_holds p \<and> partner_holds q)
     \<and> (tn = 0 \<or> tn = 1) \<and> (stop \<noteq> 0) = stopped p \<and> (gone \<noteq> 0) = (q = QGone)
     \<and> main_at n p tn \<and> partner_at q tn (stopped p)
     \<and> (wait True \<longrightarrow> main_waits_in p \<and> (tn = 1 \<or> partner_will_signal q))
     \<and> (wait False \<longrightarrow> q = QWaiting \<and> (tn = 0 \<or> main_will_signal p))
     \<and> (p = MOut \<longrightarrow> q = QGone)"

text \<open>The rank: how often the turn still changes hands, and how far each is in its turn.\<close>

fun flips :: "nat \<Rightarrow> pp_pc \<Rightarrow> int \<Rightarrow> nat" where
  "flips n MResume tn = 2 * n + 2" | "flips n (MLock i) tn = 2 * (n - i) + 2"
| "flips n (MSet i) tn = 2 * (n - i) + 2" | "flips n (MUnlock i) tn = 2 * (n - i) + (if tn = 1 then 1 else 0)"
| "flips n (MSignal i) tn = 2 * (n - i) + (if tn = 1 then 1 else 0)"
| "flips n (MLock2 i) tn = 2 * (n - i) + (if tn = 1 then 1 else 0)"
| "flips n (MTest i) tn = 2 * (n - i) + (if tn = 1 then 1 else 0)"
| "flips n (MWait i) tn = 2 * (n - i) + (if tn = 1 then 1 else 0)"
| "flips n (MWaiting i) tn = 2 * (n - i) + (if tn = 1 then 1 else 0)"
| "flips n (MUnlock2 i) tn = 2 * (n - i)" | "flips n MStopLock tn = 2" | "flips n MStop tn = 2"
| "flips n p tn = (if tn = 1 then 1 else 0)"

fun main_left :: "pp_pc \<Rightarrow> bool \<Rightarrow> nat" where
  "main_left MResume wt = 6" | "main_left (MLock i) wt = 5" | "main_left (MSet i) wt = 4"
| "main_left (MUnlock i) wt = 18" | "main_left (MSignal i) wt = 17" | "main_left (MLock2 i) wt = 8"
| "main_left (MTest i) wt = 7" | "main_left (MWait i) wt = 6" | "main_left (MWaiting i) wt = (if wt then 0 else 8)"
| "main_left (MUnlock2 i) wt = 6" | "main_left MStopLock wt = 4" | "main_left MStop wt = 3"
| "main_left MStopUnlock wt = 18" | "main_left MBroadcast wt = 17" | "main_left MSpin wt = 1" | "main_left MOut wt = 0"

fun partner_left :: "partner_pc \<Rightarrow> bool \<Rightarrow> nat" where
  "partner_left QLock wt = 8" | "partner_left QTest wt = 7" | "partner_left QWait wt = 6"
| "partner_left QWaiting wt = (if wt then 0 else 8)" | "partner_left QTake wt = 6"
| "partner_left (QUnlock stop) wt = 18" | "partner_left (QSignal stop) wt = 17"
| "partner_left QStore wt = 5" | "partner_left QGone wt = 0"

definition pp_state ::
  "('m \<Rightarrow> bool option) \<Rightarrow> ('m \<Rightarrow> bool \<Rightarrow> bool) \<Rightarrow> nat \<Rightarrow> sunk list \<Rightarrow> pp_pc \<times> partner_pc \<times> 'm process world \<Rightarrow> bool" where
  "pp_state holder waiting n sink = (\<lambda>(p, q, w). kept w = sink
     \<and> pp_ok n p q (int_var (rest w) ''pp_turn'') (int_var (rest w) ''pp_stop'') (int_var (rest w) ''pp_done'')
         (holder (machine (rest w))) (waiting (machine (rest w))))"

definition pp_rank :: "('m \<Rightarrow> bool \<Rightarrow> bool) \<Rightarrow> nat \<Rightarrow> pp_pc \<times> partner_pc \<times> 'm process world \<Rightarrow> nat" where
  "pp_rank waiting n = (\<lambda>(p, q, w). 40 * flips n p (int_var (rest w) ''pp_turn'')
     + main_left p (waiting (machine (rest w)) True) + partner_left q (waiting (machine (rest w)) False))"

fun main_busy :: "pp_pc \<Rightarrow> nat \<Rightarrow> bool option \<Rightarrow> bool \<Rightarrow> bool \<Rightarrow> bool" where
  "main_busy (MLock i) n hold wt gone = (i < n \<longrightarrow> hold = None)" | "main_busy (MLock2 i) n hold wt gone = (hold = None)"
| "main_busy MStopLock n hold wt gone = (hold = None)" | "main_busy (MWaiting i) n hold wt gone = (\<not> wt \<and> hold = None)"
| "main_busy MSpin n hold wt gone = gone" | "main_busy p n hold wt gone = True"

definition pp_busy :: "('m \<Rightarrow> bool option) \<Rightarrow> ('m \<Rightarrow> bool \<Rightarrow> bool) \<Rightarrow> nat \<Rightarrow> pp_pc \<times> partner_pc \<times> 'm process world \<Rightarrow> bool" where
  "pp_busy holder waiting n = (\<lambda>(p, q, w). main_busy p n (holder (machine (rest w)))
     (waiting (machine (rest w)) True) (int_var (rest w) ''pp_done'' \<noteq> 0))"

lemma timer_step:
  assumes "host_ok h"
  shows "moves_to p (resuming h) w = Some (p, bench_resume (gettime h) w)"
    and "moves_to p (pausing h) w = Some (p, bench_pause (gettime h) w)"
    and "kept (bench_resume (gettime h) w) = kept w" "kept (bench_pause (gettime h) w) = kept w"
    and "machine (rest (bench_resume (gettime h) w)) = machine (rest w)"
    and "machine (rest (bench_pause (gettime h) w)) = machine (rest w)"
    and "int_var (rest (bench_resume (gettime h) w)) = int_var (rest w)"
    and "int_var (rest (bench_pause (gettime h) w)) = int_var (rest w)"
  by (simp_all add: moves_to_def resuming_def pausing_def timer_simps host_ok_sel [OF assms])

lemma stop_step:
  "moves_to p (block [set_int x v, set_int y u]) w
     = Some (p, perform (\<lambda>l. l\<lparr>int_var := (int_var l)(x := v, y := u)\<rparr>) w)"
  by (simp add: moves_to_def set_int_def assign_def perform_def)

lemma partner_given_turn:
  "partner_at q 0 False \<Longrightarrow> \<not> partner_holds q \<Longrightarrow> partner_at q 1 fin"
  by (cases q) (auto split: if_splits)

text \<open>What the steps of the partner do to the place of the main goroutine.\<close>

lemma main_taken: "main_at n p 1 \<Longrightarrow> \<not> main_holds p \<Longrightarrow> main_at n p 0 \<and> flips n p 1 = Suc (flips n p 0)"
  by (cases p) simp_all

lemma main_woken: "main_left p False \<le> main_left p x + 8"
  by (cases p) auto

lemma partner_blocked:
  assumes "cond_law C S mu c holder waiting" and "pp_partner C mu c q w = None"
  shows "q = QGone \<or> \<not> partner_holds q \<and> holder (machine (rest w)) \<noteq> None
    \<or> q = QWaiting \<and> waiting (machine (rest w)) False"
  using assms(2) by (cases q) (auto simp: passed_step called_step set_step cond_lawD(4,14) [OF assms(1)] split: if_splits)

lemma idle_main:
  "\<not> main_busy p n hold wt gone \<Longrightarrow> p = MSpin \<and> \<not> gone \<or> \<not> main_holds p \<and> \<not> stopped p \<and> (hold \<noteq> None \<or> main_waits_in p \<and> wt)"
  by (cases p) auto

text \<open>No deadlock: when the main goroutine waits, the partner is neither gone nor waits.\<close>

lemma pp_no_deadlock:
  assumes ok: "pp_ok n p q tn st gone hold wait" and "\<not> main_busy p n hold (wait True) (gone \<noteq> 0)"
  shows "q \<noteq> QGone" and "partner_holds q \<or> hold = None" and "\<not> (q = QWaiting \<and> wait False)"
proof -
  have idle: "p = MSpin \<and> gone = 0 \<or> \<not> stopped p \<and> (hold \<noteq> None \<or> main_waits_in p \<and> wait True)" "\<not> main_holds p"
    using idle_main [OF assms(2)] by auto
  from idle ok show gone: "q \<noteq> QGone" by (auto simp: pp_ok_def)
  from idle(2) ok show held: "partner_holds q \<or> hold = None" by (simp add: pp_ok_def)
  have quiet: "main_waits_in p \<Longrightarrow> \<not> main_will_signal p" by (cases p) simp_all
  show "\<not> (q = QWaiting \<and> wait False)"
  proof
    assume q: "q = QWaiting \<and> wait False"
    with ok idle(2) have "hold = None" by (simp add: pp_ok_def)
    with idle(1) show False
    proof (elim disjE conjE)
      assume "p = MSpin"
      with ok q show False by (auto simp: pp_ok_def)
    next
      assume "main_waits_in p" "wait True"
      with ok q quiet show False by (auto simp: pp_ok_def)
    qed simp
  qed
qed

lemma pp_lively:
  assumes "host_ok h" and "cond_law C S mu c holder waiting"
  shows "lively (pp_body_step h S C mu c n) (pp_partner C mu c) (\<lambda>p. p = MOut)
    (pp_state holder waiting n sink) (pp_rank waiting n) (pp_busy holder waiting n)"
proof (rule lively_if_waiting)
  note defs = pp_state_def pp_rank_def pp_busy_def pp_ok_def passed_step called_step set_step stop_step
    timer_step [OF assms(1)] cond_lawD [OF assms(2)] cond_signalD [OF assms(2)]
  fix p q and w :: "'a process world"
  assume J: "pp_state holder waiting n sink (p, q, w)" and fin: "p \<noteq> MOut"
  { assume "pp_busy holder waiting n (p, q, w)"
    with J fin show "\<exists>p' w'. pp_body_step h S C mu c n p w = Some (p', w')
        \<and> pp_state holder waiting n sink (p', q, w') \<and> pp_rank waiting n (p', q, w') < pp_rank waiting n (p, q, w)"
      by (cases p) (auto simp: defs partner_given_turn split: if_splits) }
  { fix p' w' assume idle: "\<not> pp_busy holder waiting n (p, q, w)" "pp_body_step h S C mu c n p w = Some (p', w')"
    then have "p = MSpin"
      by (cases p) (auto simp: pp_busy_def passed_step cond_lawD(4,14) [OF assms(2)] split: if_splits)
    with idle have "p' = MSpin" "w' = snd (call (lib (sched_yield S)) w)"
      by (simp_all add: pp_busy_def called_step)
    with J idle(1) \<open>p = MSpin\<close> show "pp_state holder waiting n sink (p', q, w') \<and> pp_rank waiting n (p', q, w') = pp_rank waiting n (p, q, w)
        \<and> \<not> pp_busy holder waiting n (p', q, w') \<and> p' \<noteq> MOut"
      by (simp add: pp_state_def pp_rank_def pp_busy_def cond_lawD(17-20) [OF assms(2)]) }
  { fix q' w' assume s: "pp_partner C mu c q w = Some (q', w')"
    show "pp_state holder waiting n sink (p, q', w') \<and> pp_rank waiting n (p, q', w') < pp_rank waiting n (p, q, w)"
    proof (cases q)
      case (QSignal stop)
      with s have step: "q' = (if stop then QStore else QLock)" "w' = snd (call (lib (cond_signal C c)) w)"
        by (simp_all add: called_step)
      from J QSignal have "\<not> waiting (machine (rest w)) False" by (simp add: pp_state_def pp_ok_def)
      then have none: "waiting (machine (rest w')) = (\<lambda>x. False)" by (simp add: step(2) cond_signalD [OF assms(2)])
      have same: "kept w' = kept w" "int_var (rest w') = int_var (rest w)" "holder (machine (rest w')) = holder (machine (rest w))"
        by (simp_all add: step(2) cond_lawD(9) [OF assms(2)])
      from J QSignal main_woken [of p "waiting (machine (rest w)) True"] show ?thesis
        unfolding pp_state_def pp_rank_def pp_ok_def prod.case none same
        by (cases stop) (auto simp: step(1))
    next
      case QTake
      with s have step: "q' = QUnlock (int_var (rest w) ''pp_stop'' \<noteq> 0)"
        "w' = perform (\<lambda>l. l\<lparr>int_var := (int_var l)(''pp_turn'' := 0)\<rparr>) w"
        by (simp_all add: set_step)
      from J QTake have J': "int_var (rest w) ''pp_turn'' = 1" "\<not> main_holds p" "main_at n p 1"
        by (auto simp: pp_state_def pp_ok_def)
      from J QTake main_taken [OF J'(3,2)] J'(1,2) show ?thesis
        by (simp add: step pp_state_def pp_rank_def pp_ok_def)
    next
      case QLock
      with J s show ?thesis
        by (cases "stopped p"; auto simp: pp_state_def pp_rank_def pp_ok_def passed_step cond_lawD(4,5,6) [OF assms(2)] split: if_splits)
    next
      case QTest
      with J s show ?thesis
        by (cases "stopped p"; auto simp: pp_state_def pp_rank_def pp_ok_def  split: if_splits)
    next
      case QWait
      with J s show ?thesis
        by (cases "stopped p"; auto simp: pp_state_def pp_rank_def pp_ok_def called_step cond_lawD(12,13) [OF assms(2)] split: if_splits)
    next
      case QWaiting
      with s have step: "q' = QTest" "w' = passed (wait_end C False c) w"
        and free: "\<not> waiting (machine (rest w)) False" "holder (machine (rest w)) = None"
        by (simp_all add: passed_step cond_lawD(14) [OF assms(2)] split: if_splits)
      from J QWaiting free show ?thesis
        by (simp add: step pp_state_def pp_rank_def pp_ok_def cond_lawD(15,16) [OF assms(2)] split: if_splits)
    next
      case (QUnlock stop)
      with s have step: "q' = QSignal stop" "w' = snd (call (lib (mu_unlock C mu)) w)" by (simp_all add: called_step)
      from J QUnlock show ?thesis
        by (auto simp: step pp_state_def pp_rank_def pp_ok_def cond_lawD(7,8) [OF assms(2)])
    next
      case QStore
      with s have step: "q' = QGone" "w' = perform (\<lambda>l. l\<lparr>int_var := (int_var l)(''pp_done'' := 1)\<rparr>) w"
        by (simp_all add: set_step)
      from J QStore show ?thesis by (auto simp: step pp_state_def pp_rank_def pp_ok_def)
    next
      case QGone
      with s show ?thesis by simp
    qed }
  { assume "\<not> pp_busy holder waiting n (p, q, w)"
    with J pp_no_deadlock [of n p q] partner_blocked [OF assms(2)] show "pp_partner C mu c q w \<noteq> None"
      unfolding pp_state_def pp_busy_def prod.case by metis }
qed

section \<open>The ping pong comes back\<close>

lemma pp_body_returns:
  fixes w :: "'m process world"
  assumes "host_ok h" and "cond_law C S (addr h ''pp_mu'') (addr h ''pp_cond'') holder waiting" and "fair sc"
  shows "\<exists>w'. pp_body sc h S C w = Some w' \<and> kept w' = kept w
    \<and> ((\<forall>m. fst (go_launch S m)) \<longrightarrow> int_var (rest w') ''pp_done'' \<noteq> 0)
    \<and> ((\<forall>m. \<not> fst (go_launch S m)) \<longrightarrow> int_var (rest w') ''pp_done'' = 0)"
proof -
  let ?mu = "addr h ''pp_mu''" and ?c = "addr h ''pp_cond''"
  note law = cond_lawD [OF assms(2)]
  let ?v = "snd (call (lib (cond_init C ?c ?mu)) (snd (call (lib (mu_zero C ?mu)) w)))"
  let ?u = "perform (\<lambda>l. l\<lparr>int_var := (int_var l)(''pp_done'' := 0)\<rparr>)
    (perform (\<lambda>l. l\<lparr>int_var := (int_var l)(''pp_stop'' := 0)\<rparr>)
      (perform (\<lambda>l. l\<lparr>int_var := (int_var l)(''pp_turn'' := 0)\<rparr>) ?v))"
  let ?g = "call (lib (go_launch S)) ?u"
  let ?n = "nat (b_n (bch (snd ?g)))"
  have run: "pp_body sc h S C w = (if \<not> fst ?g then Some (snd ?g) else
      together sc (pp_body_step h S C ?mu ?c ?n) (pp_partner C ?mu ?c) (\<lambda>p. p = MOut) MResume QLock (snd ?g))"
    by (simp add: pp_body_def Let_def calling_def split_beta set_int_def assign_def reading_n_def)
  show ?thesis
  proof (cases "fst ?g")
    case True
    have "pp_state holder waiting ?n (kept w) (MResume, QLock, snd ?g)"
      by (simp add: pp_state_def pp_ok_def law)
    from together_total [OF assms(3) pp_lively [OF assms(1,2)] this] obtain w' q where
      w': "together sc (pp_body_step h S C ?mu ?c ?n) (pp_partner C ?mu ?c) (\<lambda>p. p = MOut) MResume QLock (snd ?g) = Some w'"
      "pp_state holder waiting ?n (kept w) (MOut, q, w')" by blast
    then have "kept w' = kept w" "int_var (rest w') ''pp_done'' \<noteq> 0" by (simp_all add: pp_state_def pp_ok_def)
    with w'(1) True show ?thesis unfolding run by auto
  next
    case False
    then have "\<not> (\<forall>m. fst (go_launch S m))" by auto
    with False show ?thesis unfolding run by simp
  qed
qed

text \<open>
  C17. Liveness: the ping pong of two goroutines over one condition variable comes back for every schedule that
  neglects neither of them: no signal is lost although each side signals after it has let go of the mutex. When the
  partner can be launched it has said that it is gone (\<open>pp_done\<close>) by the time the row is over, so that the next run
  starts with one goroutine; when it cannot be launched the row comes back as well, with \<open>pp_done\<close> still clear.
  Nothing is handed to the sink.
\<close>
theorem cond_ping_pong_returns:
  fixes w :: "'m process world"
  assumes "host_ok h" and "cond_law C S (addr h ''pp_mu'') (addr h ''pp_cond'') holder waiting" and "fair sc"
  shows "\<exists>w'. bench_cond_ping_pong sc h R S C w = Some w' \<and> kept w' = kept w
    \<and> ((\<forall>m. fst (go_launch S m)) \<longrightarrow> int_var (rest w') ''pp_done'' \<noteq> 0)
    \<and> ((\<forall>m. \<not> fst (go_launch S m)) \<longrightarrow> int_var (rest w') ''pp_done'' = 0)"
proof -
  obtain v where v: "pausing h w = Some v" "kept v = kept w" using timer_stmt(1) [OF assms(1)] by blast
  let ?u = "snd (call (lib (runtime_start R)) (snd (call (lib (gomaxprocs R 2)) v)))"
  obtain u where u: "pp_body sc h S C ?u = Some u" "kept u = kept ?u"
    "(\<forall>m. fst (go_launch S m)) \<longrightarrow> int_var (rest u) ''pp_done'' \<noteq> 0"
    "(\<forall>m. \<not> fst (go_launch S m)) \<longrightarrow> int_var (rest u) ''pp_done'' = 0" using pp_body_returns [OF assms, of ?u] by blast
  let ?w = "snd (call (lib (gomaxprocs R (fst (call (lib (gomaxprocs R 2)) v)))) (snd (call (lib (runtime_stop R)) u)))"
  have "bench_cond_ping_pong sc h R S C w = Some ?w" "kept ?w = kept w" "int_var (rest ?w) = int_var (rest u)"
    using v u(1,2) by (simp_all add: bench_cond_ping_pong_def runtime_main_def calling_def split_beta)
  with u(3,4) show ?thesis by (intro exI [of _ ?w]) auto
qed

section \<open>A condition variable that keeps the promise\<close>

text \<open>The machine is who holds the mutex and who is in the queue.\<close>

definition ref_cond :: "(bool option \<times> (bool \<Rightarrow> bool)) cond_lib" where
  "ref_cond = \<lparr>mu_zero = (\<lambda>x m. ((), 1, (None, snd m))), cond_init = (\<lambda>x y m. ((), 1, (fst m, \<lambda>b. False))),
     mu_lock = (\<lambda>me x m. if fst m = None then Some ((), 1, (Some me, snd m)) else None),
     mu_unlock = (\<lambda>x m. ((), 1, (None, snd m))),
     cond_signal = (\<lambda>x m. ((), 1, (fst m, (snd m)(snd m True := False)))),
     cond_broadcast = (\<lambda>x m. ((), 1, (fst m, \<lambda>b. False))),
     wait_begin = (\<lambda>me x m. ((), 1, (None, (snd m)(me := True)))),
     wait_end = (\<lambda>me x m. if \<not> snd m me \<and> fst m = None then Some ((), 1, (Some me, snd m)) else None)\<rparr>"

definition ref_sched :: "'m sched_lib" where
  "ref_sched = \<lparr>go_launch = (\<lambda>m. (True, 1, m)), sched_yield = (\<lambda>m. (1, 1, m))\<rparr>"

lemma ref_cond_law: "cond_law ref_cond ref_sched mu c fst snd"
  by (auto simp: cond_law_def ref_cond_def ref_sched_def left_by_def fun_eq_iff all_bool_eq ex_bool_eq)

definition ref_procs :: "'m runtime_lib" where
  "ref_procs = \<lparr>runtime_start = (\<lambda>m. ((), 1, m)), runtime_stop = (\<lambda>m. ((), 1, m)),
     gomaxprocs = (\<lambda>k m. (1, 1, m)), gosched = (\<lambda>m. ((), 1, m))\<rparr>"

theorem cond_ping_pong_returns_witness:
  "\<exists>w'. bench_cond_ping_pong even (exact_host length (\<lambda>x. 0)) ref_procs ref_sched ref_cond
       \<lparr>bch = zero_bench\<lparr>b_n := 5\<rparr>, kept = [], rest = \<lparr>clock = 0, int_var = (\<lambda>x. 0), u64_var = (\<lambda>x. 0),
         dbl_var = (\<lambda>x. 0), int_array = (\<lambda>x. []), str_array = (\<lambda>x. []), machine = (None, \<lambda>b. False)\<rparr>\<rparr> = Some w'
     \<and> int_var (rest w') ''pp_done'' \<noteq> 0"
proof -
  have "\<forall>m. fst (go_launch ref_sched m)" by (simp add: ref_sched_def)
  then show ?thesis using cond_ping_pong_returns [OF exact_host_ok ref_cond_law fair_alternation] by blast
qed

end
