(* ===== verification/Wait_Group_Bench.thy ===== *)
theory Wait_Group_Bench
  imports Row_Logic
begin

text \<open>
  \<open>bench/waitgroup_bench.c\<close>: the counter of a wait group, four goroutines that are started and
  waited for, and the functions that run once. The goroutines do nothing, so nothing of them is seen but
  the counter; the wait gives those that have not run yet their turn.
\<close>

section \<open>What the file takes from burrow\<close>

text \<open>
  A \<open>None\<close> of \<open>wg_wait\<close> is a wait that nobody ends. \<open>once_enter\<close> is the part of \<open>sync_once_do\<close>,
  \<open>sync_once_func_call\<close> and \<open>sync_once_value_get\<close> before the function is called, and says whether it is to be
  called; \<open>once_leave\<close> is the part after it, and \<open>once_set\<close> keeps the value it returned.
\<close>

record 'm wait_group_lib =
  wg_zero :: "nat \<Rightarrow> (unit, 'm) op"
  wg_add :: "nat \<Rightarrow> int \<Rightarrow> (unit, 'm) op"
  wg_done :: "nat \<Rightarrow> (unit, 'm) op"
  wg_go :: "nat \<Rightarrow> (bool, 'm) op"
  wg_wait :: "nat \<Rightarrow> (unit, 'm) blocking_op"
  once_enter :: "nat \<Rightarrow> (bool, 'm) op"
  once_leave :: "nat \<Rightarrow> (unit, 'm) op"
  once_set :: "nat \<Rightarrow> nat \<Rightarrow> (unit, 'm) op"
  once_value :: "nat \<Rightarrow> (nat, 'm) op"

section \<open>The wait group\<close>

definition bench_wait_group_add_done :: "'m host \<Rightarrow> 'm wait_group_lib \<Rightarrow> 'm cstmt" where
  "bench_wait_group_add_done h W = (let wg = bench_hide (addr h ''bench_wg'') in
     bench_loop (\<lambda>_. block [call_op (wg_add W wg 1), call_op (wg_done W wg)]))"

definition bench_wait_group_wait_empty :: "'m host \<Rightarrow> 'm wait_group_lib \<Rightarrow> 'm cstmt" where
  "bench_wait_group_wait_empty h W = (let wg = bench_hide (addr h ''bench_wg'') in
     bench_loop (\<lambda>_. blocking (wg_wait W wg) (\<lambda>_. Some)))"

definition WG_WORKERS :: nat where "WG_WORKERS = 4"

text \<open>\<open>for (i = 0; i < k; i++) if (!go) break;\<close>\<close>

fun go_workers :: "'m wait_group_lib \<Rightarrow> nat \<Rightarrow> nat \<Rightarrow> 'm cstmt" where
  "go_workers W wg 0 = Some"
| "go_workers W wg (Suc k) = calling (wg_go W wg) (\<lambda>ok. if \<not> ok then Some else go_workers W wg k)"

definition go_wait_body :: "'m host \<Rightarrow> 'm wait_group_lib \<Rightarrow> 'm cstmt" where
  "go_wait_body h W = (let wg = addr h ''go_wait_body.wg'' in block [
     resuming h,
     bench_loop (\<lambda>_. block [
       call_op (wg_zero W wg),
       go_workers W wg WG_WORKERS,
       blocking (wg_wait W wg) (\<lambda>_. Some)]),
     pausing h])"

definition bench_wait_group_go_wait :: "'m host \<Rightarrow> 'm runtime_lib \<Rightarrow> 'm wait_group_lib \<Rightarrow> 'm cstmt" where
  "bench_wait_group_go_wait h R W = block [
     pausing h,
     calling (gomaxprocs R (int WG_WORKERS)) (\<lambda>old. block [
       runtime_main R (go_wait_body h W),
       call_op (gomaxprocs R old)])]"

section \<open>Once\<close>

definition bump_once :: "'m cstmt" where
  "bump_once = reading (\<lambda>p. int_var p ''once_counter'') (\<lambda>c. checked (add64 c 1) (set_int ''once_counter''))"

text \<open>A call of the once object at \<open>o1\<close> with a function of no result, and with one that returns an address.\<close>

definition calling_once :: "'m wait_group_lib \<Rightarrow> nat \<Rightarrow> 'm cstmt \<Rightarrow> 'm cstmt" where
  "calling_once W o1 f = calling (once_enter W o1) (\<lambda>first. if first then block [f, call_op (once_leave W o1)] else Some)"

definition getting_once :: "'m wait_group_lib \<Rightarrow> nat \<Rightarrow> nat \<Rightarrow> (nat \<Rightarrow> 'm cstmt) \<Rightarrow> 'm cstmt" where
  "getting_once W o1 result k = block [
     calling (once_enter W o1) (\<lambda>first. if first then block [call_op (once_set W o1 result), call_op (once_leave W o1)] else Some),
     calling (once_value W o1) k]"

definition bench_once_do :: "'m host \<Rightarrow> 'm wait_group_lib \<Rightarrow> 'm cstmt" where
  "bench_once_do h W = (let o1 = bench_hide (addr h ''bench_once'') in block [
     calling_once W o1 bump_once,
     bench_loop (\<lambda>_. calling_once W o1 bump_once)])"

definition bench_once_func_call :: "'m host \<Rightarrow> 'm wait_group_lib \<Rightarrow> 'm cstmt" where
  "bench_once_func_call h W = (let o1 = bench_hide (addr h ''bench_once_func'') in block [
     calling_once W o1 bump_once,
     bench_loop (\<lambda>_. calling_once W o1 bump_once)])"

definition produce :: "'m host \<Rightarrow> nat" where
  "produce h = addr h ''once_result''"

definition bench_once_value_get :: "'m host \<Rightarrow> 'm wait_group_lib \<Rightarrow> 'm cstmt" where
  "bench_once_value_get h W = (let o1 = bench_hide (addr h ''bench_once_value'') in block [
     getting_once W o1 (produce h) (\<lambda>_. Some),
     bench_loop (\<lambda>_. getting_once W o1 (produce h) keep)])"

definition waitgroup_table :: "'m host \<Rightarrow> 'm runtime_lib \<Rightarrow> 'm wait_group_lib \<Rightarrow> (string \<times> 'm cstmt) list" where
  "waitgroup_table h R W = [
     (''wait_group_add_done'', bench_wait_group_add_done h W),
     (''wait_group_wait_empty'', bench_wait_group_wait_empty h W),
     (''wait_group_go_wait'', bench_wait_group_go_wait h R W),
     (''once_do'', bench_once_do h W),
     (''once_func_call'', bench_once_func_call h W),
     (''once_value_get'', bench_once_value_get h W)]"

section \<open>The contract\<close>

lemma waitgroup_parts_move [contract_rules]:
  "does (advances clock) (go_workers W wg k)" "does (advances clock) bump_once"
  "does (advances clock) f \<Longrightarrow> does (advances clock) (calling_once W o1 f)"
  "(\<And>x. does (advances clock) (c x)) \<Longrightarrow> does (advances clock) (getting_once W o1 r c)"
  unfolding calling_once_def getting_once_def bump_once_def
  by (induction k) (auto intro!: contract_rules simp del: block.simps)

lemma waitgroup_table_moves:
  assumes "host_ok h" and "(nm, f) \<in> set (waitgroup_table h R W)"
  shows "does (advances clock) f"
  using assms
  unfolding waitgroup_table_def bench_wait_group_add_done_def bench_wait_group_wait_empty_def
    bench_wait_group_go_wait_def go_wait_body_def bench_once_do_def bench_once_func_call_def
    bench_once_value_get_def Let_def
  by (auto intro!: contract_rules simp del: block.simps)

section \<open>What a wait group promises\<close>

text \<open>
  \<open>owed m p\<close> is the counter of the group at \<open>p\<close> and \<open>busy m p\<close> how many of its goroutines have not finished. A
  goroutine that finishes takes one off both. A wait comes back when the counter is zero, so exactly when
  nothing is owed but by goroutines.
\<close>

definition wait_group_law :: "'m wait_group_lib \<Rightarrow> ('m \<Rightarrow> nat \<Rightarrow> int) \<Rightarrow> ('m \<Rightarrow> nat \<Rightarrow> nat) \<Rightarrow> bool" where
  "wait_group_law W owed busy \<longleftrightarrow>
     (\<forall>p m. owed (snd (snd (wg_zero W p m))) = (owed m)(p := 0) \<and> busy (snd (snd (wg_zero W p m))) = busy m)
   \<and> (\<forall>p d m. 0 \<le> owed m p + d \<longrightarrow> owed (snd (snd (wg_add W p d m))) = (owed m)(p := owed m p + d)
        \<and> busy (snd (snd (wg_add W p d m))) = busy m)
   \<and> (\<forall>p m. 0 < owed m p \<longrightarrow> owed (snd (snd (wg_done W p m))) = (owed m)(p := owed m p - 1)
        \<and> busy (snd (snd (wg_done W p m))) = busy m)
   \<and> (\<forall>p m. owed (snd (snd (wg_go W p m))) = (if fst (wg_go W p m) then (owed m)(p := owed m p + 1) else owed m)
        \<and> busy (snd (snd (wg_go W p m))) = (if fst (wg_go W p m) then (busy m)(p := busy m p + 1) else busy m))
   \<and> (\<forall>p m. owed m p \<noteq> int (busy m p) \<longrightarrow> wg_wait W p m = None)
   \<and> (\<forall>p m. owed m p = int (busy m p) \<longrightarrow> (\<exists>d m'. wg_wait W p m = Some ((), d, m')
        \<and> owed m' = (owed m)(p := 0) \<and> busy m' = (busy m)(p := 0)))"

lemma wait_group_lawD:
  assumes "wait_group_law W owed busy"
  shows "owed (snd (snd (wg_zero W p m))) = (owed m)(p := 0)" "busy (snd (snd (wg_zero W p m))) = busy m"
    "0 \<le> owed m p + d \<Longrightarrow> owed (snd (snd (wg_add W p d m))) = (owed m)(p := owed m p + d)"
    "0 \<le> owed m p + d \<Longrightarrow> busy (snd (snd (wg_add W p d m))) = busy m"
    "0 < owed m p \<Longrightarrow> owed (snd (snd (wg_done W p m))) = (owed m)(p := owed m p - 1)"
    "0 < owed m p \<Longrightarrow> busy (snd (snd (wg_done W p m))) = busy m"
    "owed (snd (snd (wg_go W p m))) = (if fst (wg_go W p m) then (owed m)(p := owed m p + 1) else owed m)"
    "busy (snd (snd (wg_go W p m))) = (if fst (wg_go W p m) then (busy m)(p := busy m p + 1) else busy m)"
    "owed m p = int (busy m p) \<Longrightarrow> \<exists>d m'. wg_wait W p m = Some ((), d, m') \<and> owed m' = (owed m)(p := 0) \<and> busy m' = (busy m)(p := 0)"
  using assms by (simp_all add: wait_group_law_def)

text \<open>Whatever the launches answer, what is owed is what the goroutines owe.\<close>

lemma go_workers_row:
  assumes "wait_group_law W owed busy"
  shows "triple (\<lambda>m v. owed m p = int (busy m p)) (go_workers W p k) (\<lambda>n. []) (\<lambda>m v. owed m p = int (busy m p))"
proof (induction k)
  case (Suc k)
  show ?case unfolding go_workers.simps
  proof (rule row_calling [where R = "\<lambda>_ m v. owed m p = int (busy m p)"])
    fix m :: 'a and v :: "string \<Rightarrow> int" assume "owed m p = int (busy m p)"
    then show "owed (snd (snd (wg_go W p m))) p = int (busy (snd (snd (wg_go W p m))) p)"
      by (simp add: wait_group_lawD(7,8) [OF assms])
  qed (auto intro: row_if row_Some Suc.IH)
qed (simp add: row_Some)

lemma wait_row:
  assumes "wait_group_law W owed busy"
  shows "triple (\<lambda>m v. owed m p = int (busy m p)) (blocking (wg_wait W p) (\<lambda>_. Some)) (\<lambda>n. []) (\<lambda>m v. owed m p = 0 \<and> busy m p = 0)"
proof (rule row_blocking [where R = "\<lambda>_ m v. owed m p = 0 \<and> busy m p = 0"])
  fix m :: 'a and v :: "string \<Rightarrow> int" assume "owed m p = int (busy m p)"
  from wait_group_lawD(9) [OF assms this]
  show "\<exists>r d m'. wg_wait W p m = Some (r, d, m') \<and> owed m' p = 0 \<and> busy m' p = 0" by auto
qed (rule row_Some)

text \<open>
  Liveness: no row of a wait group waits for good, and every one leaves its group with nothing owed and
  nobody running. The row that starts four goroutines comes back also when it cannot start them all: it leaves
  the loop at the first failure and waits for those that did start.
\<close>
theorem wait_group_rows_return:
  fixes w :: "'m process world"
  assumes "host_ok h" and "wait_group_law W owed busy" and "runtime_keeps R (\<lambda>m. (owed m, busy m))"
    and "(f, p) \<in> {(bench_wait_group_add_done h W, addr h ''bench_wg''), (bench_wait_group_wait_empty h W, addr h ''bench_wg''),
      (bench_wait_group_go_wait h R W, addr h ''go_wait_body.wg'')}"
    and "owed (machine (rest w)) p = 0" and "busy (machine (rest w)) p = 0"
  shows "\<exists>w'. f w = Some w' \<and> kept w' = kept w \<and> owed (machine (rest w')) p = 0 \<and> busy (machine (rest w')) p = 0"
proof -
  note law = wait_group_lawD [OF assms(2)]
  let ?I = "\<lambda>p m v. owed m p = 0 \<and> busy m p = 0"
  have pair: "triple (?I p) (bench_wait_group_add_done h W) (\<lambda>n. []) (?I p)" if "p = addr h ''bench_wg''" for p
    unfolding bench_wait_group_add_done_def bench_hide_def Let_def that [symmetric]
    by (rule row_loop_none, rule row_then [where Q = "\<lambda>m v. owed m p = 1 \<and> busy m p = 0"], rule row_call_op, simp add: law,
      rule row_end, rule row_call_op, simp add: law)
  have empty: "triple (?I p) (bench_wait_group_wait_empty h W) (\<lambda>n. []) (?I p)" if "p = addr h ''bench_wg''" for p
    unfolding bench_wait_group_wait_empty_def bench_hide_def Let_def that [symmetric]
    by (intro row_loop_none row_pre [OF wait_row [OF assms(2)]]) simp
  have round: "triple (?I p) (block [call_op (wg_zero W p), go_workers W p WG_WORKERS, blocking (wg_wait W p) (\<lambda>_. Some)])
      (\<lambda>n. []) (?I p)" for p
    by (rule row_then [where Q = "\<lambda>m v. owed m p = int (busy m p)"], rule row_call_op, simp add: law,
      rule row_then [OF go_workers_row [OF assms(2)]], rule row_end, rule wait_row [OF assms(2)])
  have go: "triple (?I p) (bench_wait_group_go_wait h R W) (\<lambda>n. []) (?I p)" if "p = addr h ''go_wait_body.wg''" for p
  proof -
    have "triple (?I p) (go_wait_body h W) (\<lambda>n. []) (?I p)"
      unfolding go_wait_body_def Let_def that [symmetric]
      by (rule row_then [OF row_timer(2) [OF assms(1)]], rule row_then [OF row_loop_none [OF round]])
        (simp add: row_timer [OF assms(1)])
    then have body: "triple (\<lambda>m v. (\<lambda>(x, y) v. x p = 0 \<and> y p = 0) (owed m, busy m) v) (go_wait_body h W) (\<lambda>n. [])
      (\<lambda>m v. (\<lambda>(x, y) v. x p = 0 \<and> y p = 0) (owed m, busy m) v)" by simp
    from row_procs [OF assms(3) row_runtime [OF assms(3) body], of "int WG_WORKERS"]
    show ?thesis unfolding bench_wait_group_go_wait_def
      by (intro row_then [OF row_timer(1) [OF assms(1)]]) simp
  qed
  from assms(4) pair empty go have "triple (?I p) f (\<lambda>n. []) (?I p)" by auto
  from rowD [OF this, of w] assms(5,6) show ?thesis by auto
qed

section \<open>What a once object promises\<close>

text \<open>\<open>did m p\<close>: the function of the object at \<open>p\<close> has been called; \<open>value m p\<close> is what it returned.\<close>

definition once_law :: "'m wait_group_lib \<Rightarrow> ('m \<Rightarrow> nat \<Rightarrow> bool) \<Rightarrow> ('m \<Rightarrow> nat \<Rightarrow> nat) \<Rightarrow> bool" where
  "once_law W did got \<longleftrightarrow>
     (\<forall>p m. fst (once_enter W p m) = (\<not> did m p) \<and> did (snd (snd (once_enter W p m))) = did m
        \<and> got (snd (snd (once_enter W p m))) = got m)
   \<and> (\<forall>p m. did (snd (snd (once_leave W p m))) = (did m)(p := True) \<and> got (snd (snd (once_leave W p m))) = got m)
   \<and> (\<forall>p x m. did (snd (snd (once_set W p x m))) = did m \<and> got (snd (snd (once_set W p x m))) = (got m)(p := x))
   \<and> (\<forall>p m. fst (once_value W p m) = got m p \<and> did (snd (snd (once_value W p m))) = did m
        \<and> got (snd (snd (once_value W p m))) = got m)"

lemma once_lawD:
  assumes "once_law W did got"
  shows "fst (once_enter W p m) = (\<not> did m p)" "did (snd (snd (once_enter W p m))) = did m"
    "got (snd (snd (once_enter W p m))) = got m" "did (snd (snd (once_leave W p m))) = (did m)(p := True)"
    "got (snd (snd (once_leave W p m))) = got m" "did (snd (snd (once_set W p x m))) = did m"
    "got (snd (snd (once_set W p x m))) = (got m)(p := x)" "fst (once_value W p m) = got m p"
    "did (snd (snd (once_value W p m))) = did m" "got (snd (snd (once_value W p m))) = got m"
  using assms by (simp_all add: once_law_def)

text \<open>The first call runs the function, no later one does.\<close>

lemma calling_once_row:
  assumes "once_law W did got" and "c < int64_max" and "0 \<le> c"
  shows "triple (\<lambda>m v. did m p = d \<and> v ''once_counter'' = c) (calling_once W p bump_once) (\<lambda>n. [])
    (\<lambda>m v. did m p \<and> v ''once_counter'' = (if d then c else c + 1))"
proof -
  note law = once_lawD [OF assms(1)]
  have add: "add64 c 1 = Some (c + 1)" using assms(2,3) by (simp add: add64_def check64_def in_int64_def)
  have bump: "triple (\<lambda>m v. \<not> d \<and> v ''once_counter'' = c) bump_once (\<lambda>n. []) (\<lambda>m v. \<not> d \<and> v ''once_counter'' = c + 1)"
    unfolding bump_once_def
    by (rule row_reading_at [where i = c], simp, rule row_checked [OF add], rule row_set_int) simp
  have first: "triple (\<lambda>m v. \<not> d \<and> v ''once_counter'' = c) (block [bump_once, call_op (once_leave W p)]) (\<lambda>n. [])
      (\<lambda>m v. did m p \<and> v ''once_counter'' = (if d then c else c + 1))"
    by (rule row_then [OF bump], rule row_end, rule row_call_op) (simp add: law)
  show ?thesis unfolding calling_once_def
  proof (rule row_calling [where R = "\<lambda>r m v. did m p = d \<and> r = (\<not> d) \<and> v ''once_counter'' = c"])
    fix r
    show "triple (\<lambda>m v. did m p = d \<and> r = (\<not> d) \<and> v ''once_counter'' = c)
        (if r then block [bump_once, call_op (once_leave W p)] else Some) (\<lambda>n. [])
        (\<lambda>m v. did m p \<and> v ''once_counter'' = (if d then c else c + 1))"
      by (rule row_if; rule row_conseq [OF first] row_conseq [OF row_Some]) auto
  qed (simp add: law)
qed

text \<open>
  Safety: the function of a once object runs at most once in the life of the program, however often a row is
  run and with whatever counts. A row adds one to the counter if its object had not been called, nothing otherwise.
\<close>
theorem once_rows_call_once:
  fixes w :: "'m process world"
  assumes "once_law W did got"
    and "(f, p) \<in> {(bench_once_do h W, addr h ''bench_once''), (bench_once_func_call h W, addr h ''bench_once_func'')}"
    and "int_var (rest w) ''once_counter'' = c" and "0 \<le> c" and "c + 1 < int64_max"
  shows "\<exists>w'. f w = Some w' \<and> kept w' = kept w \<and> did (machine (rest w')) p
    \<and> int_var (rest w') ''once_counter'' = (if did (machine (rest w)) p then c else c + 1)"
proof -
  let ?d = "did (machine (rest w)) p" let ?c = "if ?d then c else c + 1"
  have loop: "triple (\<lambda>m v. did m p \<and> v ''once_counter'' = ?c) (bench_loop (\<lambda>_. calling_once W p bump_once)) (\<lambda>n. [])
      (\<lambda>m v. did m p \<and> v ''once_counter'' = ?c)"
    by (rule row_loop_none, rule row_conseq [OF calling_once_row [OF assms(1), of ?c p True]]) (use assms(4,5) in auto)
  have "triple (\<lambda>m v. did m p = ?d \<and> v ''once_counter'' = c)
      (block [calling_once W p bump_once, bench_loop (\<lambda>_. calling_once W p bump_once)]) (\<lambda>n. [])
      (\<lambda>m v. did m p \<and> v ''once_counter'' = ?c)"
    by (rule row_then [OF calling_once_row [OF assms(1)]]) (use assms(4,5) row_end [OF loop] in simp_all)
  from rowD [OF this, of w] assms(2,3) show ?thesis
    by (auto simp: bench_once_do_def bench_once_func_call_def bench_hide_def Let_def)
qed

text \<open>
  Functional: the row of the once value hands the address of the result to the sink in every round, also when the
  value had been fetched before.
\<close>
theorem once_value_row:
  fixes w :: "'m process world"
  assumes "once_law W did got" and "p = addr h ''bench_once_value''"
    and "did (machine (rest w)) p \<longrightarrow> got (machine (rest w)) p = produce h"
  shows "\<exists>w'. bench_once_value_get h W w = Some w' \<and> kept w' = kept w @ replicate (nat (b_n (bch w))) (KeptPtr (produce h))"
proof -
  note law = once_lawD [OF assms(1)]
  let ?I = "\<lambda>m v. did m p \<longrightarrow> got m p = produce h" let ?J = "\<lambda>m (v :: string \<Rightarrow> int). did m p \<and> got m p = produce h"
  have enter: "triple ?I (calling (once_enter W p) (\<lambda>first. if first then
      block [call_op (once_set W p (produce h)), call_op (once_leave W p)] else Some)) (\<lambda>n. []) ?J"
  proof (rule row_calling [where R = "\<lambda>r m v. r = (\<not> did m p) \<and> (did m p \<longrightarrow> got m p = produce h)"])
    have set: "triple (\<lambda>m v. \<not> did m p) (block [call_op (once_set W p (produce h)), call_op (once_leave W p)]) (\<lambda>n. []) ?J"
      by (rule row_then [where Q = "\<lambda>m v. got m p = produce h"], rule row_call_op, simp add: law,
        rule row_end, rule row_call_op, simp add: law)
    show "triple (\<lambda>m v. r = (\<not> did m p) \<and> (did m p \<longrightarrow> got m p = produce h))
        (if r then block [call_op (once_set W p (produce h)), call_op (once_leave W p)] else Some) (\<lambda>n. []) ?J" for r
      by (rule row_if; rule row_pre [OF set] row_conseq [OF row_Some]) auto
  qed (simp add: law)
  have get: "triple ?I (getting_once W p (produce h) k) g ?J" if "triple ?J (k (produce h)) g ?J" for k g
    unfolding getting_once_def
    by (rule row_then [OF enter], rule row_end,
      rule row_calling [where R = "\<lambda>r m v. r = produce h \<and> did m p \<and> got m p = produce h"])
      (use that in \<open>auto simp: law triple_def holds_in_def\<close>)
  have "triple ?I (block [getting_once W p (produce h) (\<lambda>_. Some), bench_loop (\<lambda>_. getting_once W p (produce h) keep)])
      (\<lambda>n. replicate (nat n) (KeptPtr (produce h))) ?J"
    by (rule row_then [OF get [OF row_Some]], rule row_end, rule row_loop_inv, rule row_pre [OF get [OF row_keeps(1)]]) simp
  from rowD [OF this, of w] assms(2,3) show ?thesis by (auto simp: bench_once_value_get_def bench_hide_def Let_def)
qed

section \<open>Groups that keep the promise\<close>

type_synonym groups = "((nat \<Rightarrow> int) \<times> (nat \<Rightarrow> nat)) \<times> (nat \<Rightarrow> bool) \<times> (nat \<Rightarrow> nat)"

text \<open>The third goroutine of a group cannot be launched.\<close>

definition ref_groups :: "groups wait_group_lib" where
  "ref_groups = \<lparr>wg_zero = (\<lambda>p ((q, r), s). ((), 1, ((q(p := 0), r), s))),
     wg_add = (\<lambda>p d ((q, r), s). ((), 1, ((q(p := q p + d), r), s))),
     wg_done = (\<lambda>p ((q, r), s). ((), 1, ((q(p := q p - 1), r), s))),
     wg_go = (\<lambda>p ((q, r), s). if r p < 2 then (True, 1, ((q(p := q p + 1), r(p := r p + 1)), s)) else (False, 1, ((q, r), s))),
     wg_wait = (\<lambda>p ((q, r), s). if q p = int (r p) then Some ((), 1, ((q(p := 0), r(p := 0)), s)) else None),
     once_enter = (\<lambda>p (s, d, g). (\<not> d p, 1, (s, d, g))), once_leave = (\<lambda>p (s, d, g). ((), 1, (s, d(p := True), g))),
     once_set = (\<lambda>p x (s, d, g). ((), 1, (s, d, g(p := x)))), once_value = (\<lambda>p (s, d, g). (g p, 1, (s, d, g)))\<rparr>"

lemma ref_groups_law:
  "wait_group_law ref_groups (\<lambda>m. fst (fst m)) (\<lambda>m. snd (fst m))" "once_law ref_groups (\<lambda>m. fst (snd m)) (\<lambda>m. snd (snd m))"
  by (auto simp: wait_group_law_def once_law_def ref_groups_def)

definition no_groups :: groups where
  "no_groups = ((\<lambda>p. 0, \<lambda>p. 0), \<lambda>p. False, \<lambda>p. 0)"

theorem wait_group_rows_return_witness:
  "\<exists>w'. bench_wait_group_go_wait (exact_host length (\<lambda>x. 0)) plain_procs ref_groups (row_world 3 no_groups) = Some w'
     \<and> fst (fst (machine (rest w'))) 15 = 0"
  using wait_group_rows_return [OF exact_host_ok ref_groups_law(1) plain_procs_keep,
      of "bench_wait_group_go_wait (exact_host length (\<lambda>x. 0)) plain_procs ref_groups" 15 length "\<lambda>x. 0" "row_world 3 no_groups"]
  by (auto simp: no_groups_def)

theorem once_rows_call_once_witness:
  "\<exists>w'. bench_once_do (exact_host length (\<lambda>x. 0)) ref_groups (row_world 3 no_groups) = Some w'
     \<and> int_var (rest w') ''once_counter'' = 1"
  using once_rows_call_once [OF ref_groups_law(2),
      of "bench_once_do (exact_host length (\<lambda>x. 0)) ref_groups" 10 "exact_host length (\<lambda>x. 0)" "row_world 3 no_groups" 0]
  by (auto simp: no_groups_def int64_max_def)

theorem once_value_row_witness:
  "\<exists>w'. bench_once_value_get (exact_host length (\<lambda>x. 0)) ref_groups (row_world 2 no_groups) = Some w'
     \<and> kept w' = [KeptPtr 11, KeptPtr 11]"
  using once_value_row [OF ref_groups_law(2) refl, of "row_world 2 no_groups" "exact_host length (\<lambda>x. 0)"]
  by (auto simp: no_groups_def produce_def numeral_2_eq_2)

end
