(* ===== verification/Context_Bench.thy ===== *)
theory Context_Bench
  imports Row_Logic
begin

text \<open>
  \<open>bench/context_bench.c\<close>: trees of contexts. A context is its \<open>data\<close> pointer, \<open>0\<close> for the nil
  context, and the function that cancels it is a closure over it. Every body runs as the main goroutine.
\<close>

section \<open>What the file takes from burrow\<close>

text \<open>
  A key is the \<open>Int\<close> that its \<open>Any\<close> points to, since keys of one type are compared by value and no
  row writes to them. \<open>ctx_value\<close> returns the type and the data of the \<open>Any\<close>, both \<open>0\<close> when nothing was
  found; an error is its \<open>vt\<close>, \<open>0\<close> for nil. Every allocation is from the heap.
\<close>

record 'm context_lib =
  ctx_background :: "(nat, 'm) op"
  ctx_with_cancel :: "nat \<Rightarrow> (nat, 'm) op"
  ctx_with_cancel_cause :: "nat \<Rightarrow> (nat, 'm) op"
  ctx_with_timeout :: "nat \<Rightarrow> int \<Rightarrow> (nat, 'm) op"
  ctx_with_value :: "nat \<Rightarrow> int \<Rightarrow> nat \<Rightarrow> (nat, 'm) op"
  ctx_without_cancel :: "nat \<Rightarrow> (nat, 'm) op"
  ctx_after_func :: "nat \<Rightarrow> (nat, 'm) op"
  ctx_cancel :: "nat \<Rightarrow> (unit, 'm) op"
  ctx_cancel_cause :: "nat \<Rightarrow> nat \<Rightarrow> (unit, 'm) op"
  ctx_stop :: "nat \<Rightarrow> (bool, 'm) op"
  ctx_done :: "nat \<Rightarrow> (nat, 'm) op"
  ctx_err :: "nat \<Rightarrow> (nat, 'm) op"
  ctx_cause :: "nat \<Rightarrow> (nat, 'm) op"
  ctx_value :: "nat \<Rightarrow> int \<Rightarrow> (nat \<times> nat, 'm) op"
  ctx_release :: "nat \<Rightarrow> (unit, 'm) op"

section \<open>Keys, values and sizes\<close>

definition KEY_ONE :: int where "KEY_ONE = 1"
definition KEY_TWO :: int where "KEY_TWO = 2"
definition key_three :: int where "key_three = 3"

definition VALUE :: "'m host \<Rightarrow> nat" where
  "VALUE h = addr h ''payload''"

definition CTX_DEPTH :: nat where "CTX_DEPTH = 8"
definition FANOUT :: nat where "FANOUT = 64"

definition AN_HOUR :: int where "AN_HOUR = 3600 * 1000000000"

text \<open>\<open>run\<close>.\<close>

definition run_main :: "'m host \<Rightarrow> 'm runtime_lib \<Rightarrow> 'm cstmt \<Rightarrow> 'm cstmt" where
  "run_main h R body = block [pausing h, runtime_main R body]"

section \<open>The questions\<close>

definition asking :: "'m host \<Rightarrow> 'm context_lib \<Rightarrow> (nat \<Rightarrow> (nat, 'm) op) \<Rightarrow> 'm cstmt" where
  "asking h L ask = calling (ctx_background L) (\<lambda>r. calling (ctx_with_cancel L r) (\<lambda>c. block [
     resuming h,
     bench_loop (\<lambda>_. calling (ask c) keep),
     pausing h,
     call_op (ctx_cancel L c), call_op (ctx_release L c)]))"

definition done_body :: "'m host \<Rightarrow> 'm context_lib \<Rightarrow> 'm cstmt" where
  "done_body h L = asking h L (ctx_done L)"

definition bench_context_done :: "'m host \<Rightarrow> 'm runtime_lib \<Rightarrow> 'm context_lib \<Rightarrow> 'm cstmt" where
  "bench_context_done h R L = run_main h R (done_body h L)"

definition err_body :: "'m host \<Rightarrow> 'm context_lib \<Rightarrow> 'm cstmt" where
  "err_body h L = asking h L (ctx_err L)"

definition bench_context_err_live :: "'m host \<Rightarrow> 'm runtime_lib \<Rightarrow> 'm context_lib \<Rightarrow> 'm cstmt" where
  "bench_context_err_live h R L = run_main h R (err_body h L)"

section \<open>The value walk\<close>

definition value_shallow_body :: "'m host \<Rightarrow> 'm context_lib \<Rightarrow> 'm cstmt" where
  "value_shallow_body h L = calling (ctx_background L) (\<lambda>r. calling (ctx_with_value L r KEY_ONE (VALUE h)) (\<lambda>c. block [
     resuming h,
     bench_loop (\<lambda>_. calling (ctx_value L c KEY_ONE) (\<lambda>(t, data). keep data)),
     pausing h,
     call_op (ctx_release L c)]))"

definition bench_context_value_shallow :: "'m host \<Rightarrow> 'm runtime_lib \<Rightarrow> 'm context_lib \<Rightarrow> 'm cstmt" where
  "bench_context_value_shallow h R L = run_main h R (value_shallow_body h L)"

text \<open>
  \<open>build\<close> leaves the contexts it made in \<open>chain\<close>; their number is what it returns. \<open>unbuild\<close> frees
  the last one first.
\<close>

fun build_on :: "'m host \<Rightarrow> 'm context_lib \<Rightarrow> nat \<Rightarrow> nat list \<Rightarrow> (nat list \<Rightarrow> 'm cstmt) \<Rightarrow> 'm cstmt" where
  "build_on h L 0 chain k = k chain"
| "build_on h L (Suc j) chain k = calling (ctx_with_value L (last chain) KEY_TWO (VALUE h)) (\<lambda>c.
     if c = 0 then k chain else build_on h L j (chain @ [c]) k)"

definition build :: "'m host \<Rightarrow> 'm context_lib \<Rightarrow> (nat list \<Rightarrow> 'm cstmt) \<Rightarrow> 'm cstmt" where
  "build h L k = calling (ctx_background L) (\<lambda>r. calling (ctx_with_value L r KEY_ONE (VALUE h)) (\<lambda>c.
     if c = 0 then k [] else build_on h L (CTX_DEPTH - 1) [c] k))"

definition unbuild :: "'m context_lib \<Rightarrow> nat list \<Rightarrow> 'm cstmt" where
  "unbuild L chain = block (map (\<lambda>c. call_op (ctx_release L c)) (rev chain))"

definition walking :: "'m host \<Rightarrow> 'm context_lib \<Rightarrow> (nat \<Rightarrow> 'm cstmt) \<Rightarrow> 'm cstmt" where
  "walking h L look = build h L (\<lambda>chain.
     if length chain \<noteq> CTX_DEPTH then unbuild L chain else block [
       resuming h,
       bench_loop (\<lambda>_. look (chain ! (CTX_DEPTH - 1))),
       pausing h,
       unbuild L chain])"

definition value_deep_body :: "'m host \<Rightarrow> 'm context_lib \<Rightarrow> 'm cstmt" where
  "value_deep_body h L = walking h L (\<lambda>c. calling (ctx_value L c KEY_ONE) (\<lambda>(t, data). keep data))"

definition bench_context_value_deep :: "'m host \<Rightarrow> 'm runtime_lib \<Rightarrow> 'm context_lib \<Rightarrow> 'm cstmt" where
  "bench_context_value_deep h R L = run_main h R (value_deep_body h L)"

definition value_miss_body :: "'m host \<Rightarrow> 'm context_lib \<Rightarrow> 'm cstmt" where
  "value_miss_body h L = walking h L (\<lambda>c. calling (ctx_value L c key_three) (\<lambda>(t, data). keep t))"

definition bench_context_value_miss :: "'m host \<Rightarrow> 'm runtime_lib \<Rightarrow> 'm context_lib \<Rightarrow> 'm cstmt" where
  "bench_context_value_miss h R L = run_main h R (value_miss_body h L)"

section \<open>Making one\<close>

text \<open>The life of a context in one round: made, shown, cancelled where it can be, freed.\<close>

definition life :: "'m context_lib \<Rightarrow> (nat, 'm) op \<Rightarrow> (nat \<Rightarrow> 'm cstmt) \<Rightarrow> 'm cstmt" where
  "life L mk stop = calling mk (\<lambda>c. block [keep c, stop c, call_op (ctx_release L c)])"

definition under_root :: "'m host \<Rightarrow> 'm context_lib \<Rightarrow> (nat \<Rightarrow> (nat, 'm) op) \<Rightarrow> (nat \<Rightarrow> 'm cstmt) \<Rightarrow> 'm cstmt" where
  "under_root h L mk stop = calling (ctx_background L) (\<lambda>r. block [
     resuming h, bench_loop (\<lambda>_. life L (mk r) stop), pausing h])"

definition with_cancel_body :: "'m host \<Rightarrow> 'm context_lib \<Rightarrow> 'm cstmt" where
  "with_cancel_body h L = under_root h L (ctx_with_cancel L) (\<lambda>c. call_op (ctx_cancel L c))"

definition bench_context_with_cancel :: "'m host \<Rightarrow> 'm runtime_lib \<Rightarrow> 'm context_lib \<Rightarrow> 'm cstmt" where
  "bench_context_with_cancel h R L = run_main h R (with_cancel_body h L)"

definition with_timeout_body :: "'m host \<Rightarrow> 'm context_lib \<Rightarrow> 'm cstmt" where
  "with_timeout_body h L = under_root h L (\<lambda>r. ctx_with_timeout L r AN_HOUR) (\<lambda>c. call_op (ctx_cancel L c))"

definition bench_context_with_timeout :: "'m host \<Rightarrow> 'm runtime_lib \<Rightarrow> 'm context_lib \<Rightarrow> 'm cstmt" where
  "bench_context_with_timeout h R L = run_main h R (with_timeout_body h L)"

definition with_timeout_expired_body :: "'m host \<Rightarrow> 'm context_lib \<Rightarrow> 'm cstmt" where
  "with_timeout_expired_body h L = under_root h L (\<lambda>r. ctx_with_timeout L r 0) (\<lambda>c. call_op (ctx_cancel L c))"

definition bench_context_with_timeout_expired :: "'m host \<Rightarrow> 'm runtime_lib \<Rightarrow> 'm context_lib \<Rightarrow> 'm cstmt" where
  "bench_context_with_timeout_expired h R L = run_main h R (with_timeout_expired_body h L)"

definition with_value_body :: "'m host \<Rightarrow> 'm context_lib \<Rightarrow> 'm cstmt" where
  "with_value_body h L = under_root h L (\<lambda>r. ctx_with_value L r KEY_ONE (VALUE h)) (\<lambda>c. Some)"

definition bench_context_with_value :: "'m host \<Rightarrow> 'm runtime_lib \<Rightarrow> 'm context_lib \<Rightarrow> 'm cstmt" where
  "bench_context_with_value h R L = run_main h R (with_value_body h L)"

text \<open>The rows that make their contexts under a parent of their own.\<close>

definition under_parent :: "'m host \<Rightarrow> 'm context_lib \<Rightarrow> (nat \<Rightarrow> (nat, 'm) op) \<Rightarrow> (nat \<Rightarrow> 'm cstmt) \<Rightarrow> 'm cstmt" where
  "under_parent h L mk stop = calling (ctx_background L) (\<lambda>r. calling (ctx_with_cancel L r) (\<lambda>parent.
     if parent = 0 then Some else block [
       resuming h, bench_loop (\<lambda>_. life L (mk parent) stop), pausing h,
       call_op (ctx_cancel L parent), call_op (ctx_release L parent)]))"

definition with_cancel_nested_body :: "'m host \<Rightarrow> 'm context_lib \<Rightarrow> 'm cstmt" where
  "with_cancel_nested_body h L = under_parent h L (ctx_with_cancel L) (\<lambda>c. call_op (ctx_cancel L c))"

definition bench_context_with_cancel_nested :: "'m host \<Rightarrow> 'm runtime_lib \<Rightarrow> 'm context_lib \<Rightarrow> 'm cstmt" where
  "bench_context_with_cancel_nested h R L = run_main h R (with_cancel_nested_body h L)"

section \<open>The causes\<close>

text \<open>The sentinel error \<open>bench_reason\<close>, as its \<open>vt\<close>.\<close>

definition bench_reason :: "'m host \<Rightarrow> nat" where
  "bench_reason h = addr h ''bench_reason''"

definition cause_body :: "'m host \<Rightarrow> 'm context_lib \<Rightarrow> 'm cstmt" where
  "cause_body h L = calling (ctx_background L) (\<lambda>r. calling (ctx_with_cancel_cause L r) (\<lambda>c.
     if c = 0 then Some else block [
       call_op (ctx_cancel_cause L c (bench_reason h)),
       resuming h,
       bench_loop (\<lambda>_. calling (ctx_cause L c) keep),
       pausing h,
       call_op (ctx_release L c)]))"

definition bench_context_cause :: "'m host \<Rightarrow> 'm runtime_lib \<Rightarrow> 'm context_lib \<Rightarrow> 'm cstmt" where
  "bench_context_cause h R L = run_main h R (cause_body h L)"

definition with_cancel_cause_body :: "'m host \<Rightarrow> 'm context_lib \<Rightarrow> 'm cstmt" where
  "with_cancel_cause_body h L =
     under_root h L (ctx_with_cancel_cause L) (\<lambda>c. call_op (ctx_cancel_cause L c (bench_reason h)))"

definition bench_context_with_cancel_cause :: "'m host \<Rightarrow> 'm runtime_lib \<Rightarrow> 'm context_lib \<Rightarrow> 'm cstmt" where
  "bench_context_with_cancel_cause h R L = run_main h R (with_cancel_cause_body h L)"

definition without_cancel_body :: "'m host \<Rightarrow> 'm context_lib \<Rightarrow> 'm cstmt" where
  "without_cancel_body h L = under_parent h L (ctx_without_cancel L) (\<lambda>c. Some)"

definition bench_context_without_cancel :: "'m host \<Rightarrow> 'm runtime_lib \<Rightarrow> 'm context_lib \<Rightarrow> 'm cstmt" where
  "bench_context_without_cancel h R L = run_main h R (without_cancel_body h L)"

definition after_func_body :: "'m host \<Rightarrow> 'm context_lib \<Rightarrow> 'm cstmt" where
  "after_func_body h L = under_parent h L (ctx_after_func L) (\<lambda>reg. calling (ctx_stop L reg) keep_bool)"

definition bench_context_after_func :: "'m host \<Rightarrow> 'm runtime_lib \<Rightarrow> 'm context_lib \<Rightarrow> 'm cstmt" where
  "bench_context_after_func h R L = run_main h R (after_func_body h L)"

section \<open>The cancel\<close>

fun make_kids :: "'m context_lib \<Rightarrow> nat \<Rightarrow> nat \<Rightarrow> nat list \<Rightarrow> (nat list \<Rightarrow> 'm cstmt) \<Rightarrow> 'm cstmt" where
  "make_kids L parent 0 kids k = k kids"
| "make_kids L parent (Suc j) kids k = calling (ctx_with_cancel L parent) (\<lambda>c.
     if c = 0 then k kids else make_kids L parent j (kids @ [c]) k)"

definition cancel_tree_body :: "'m host \<Rightarrow> 'm context_lib \<Rightarrow> 'm cstmt" where
  "cancel_tree_body h L = block [
     resuming h,
     bench_loop (\<lambda>_. calling (ctx_background L) (\<lambda>r. calling (ctx_with_cancel L r) (\<lambda>parent.
       make_kids L parent FANOUT [] (\<lambda>kids. block [
         call_op (ctx_cancel L parent),
         unbuild L kids,
         call_op (ctx_release L parent)])))),
     pausing h]"

definition bench_context_cancel_tree :: "'m host \<Rightarrow> 'm runtime_lib \<Rightarrow> 'm context_lib \<Rightarrow> 'm cstmt" where
  "bench_context_cancel_tree h R L = run_main h R (cancel_tree_body h L)"

definition context_table :: "'m host \<Rightarrow> 'm runtime_lib \<Rightarrow> 'm context_lib \<Rightarrow> (string \<times> 'm cstmt) list" where
  "context_table h R L = [
     (''context_done'', bench_context_done h R L), (''context_err_live'', bench_context_err_live h R L),
     (''context_value_shallow'', bench_context_value_shallow h R L),
     (''context_value_deep'', bench_context_value_deep h R L),
     (''context_value_miss'', bench_context_value_miss h R L),
     (''context_with_cancel'', bench_context_with_cancel h R L),
     (''context_with_cancel_nested'', bench_context_with_cancel_nested h R L),
     (''context_with_timeout'', bench_context_with_timeout h R L),
     (''context_with_timeout_expired'', bench_context_with_timeout_expired h R L),
     (''context_with_value'', bench_context_with_value h R L), (''context_cause'', bench_context_cause h R L),
     (''context_with_cancel_cause'', bench_context_with_cancel_cause h R L),
     (''context_without_cancel'', bench_context_without_cancel h R L),
     (''context_after_func'', bench_context_after_func h R L),
     (''context_cancel_tree'', bench_context_cancel_tree h R L)]"

section \<open>The contract\<close>

lemma unbuild_moves [contract_rules]: "does (advances clock) (unbuild L chain)"
proof -
  have "does (advances clock) (block (map (\<lambda>c. call_op (ctx_release L c)) cs))" for cs
    by (induction cs) (auto intro!: contract_rules simp del: block.simps)
  then show ?thesis by (simp add: unbuild_def)
qed

lemma context_parts_move [contract_rules]:
  "(\<And>cs. does (advances clock) (k cs)) \<Longrightarrow> does (advances clock) (build_on h L j chain k)"
  "(\<And>cs. does (advances clock) (k cs)) \<Longrightarrow> does (advances clock) (make_kids L p j chain k)"
  "(\<And>c. does (advances clock) (stop c)) \<Longrightarrow> does (advances clock) (life L mk stop)"
  "does (advances clock) body \<Longrightarrow> host_ok h \<Longrightarrow> does (advances clock) (run_main h R body)"
  unfolding life_def run_main_def
  by (induction j arbitrary: chain) (auto intro!: contract_rules simp del: block.simps)

lemmas context_rows = bench_context_done_def bench_context_err_live_def bench_context_value_shallow_def
  bench_context_value_deep_def bench_context_value_miss_def bench_context_with_cancel_def
  bench_context_with_cancel_nested_def bench_context_with_timeout_def bench_context_with_timeout_expired_def
  bench_context_with_value_def bench_context_cause_def bench_context_with_cancel_cause_def
  bench_context_without_cancel_def bench_context_after_func_def bench_context_cancel_tree_def

lemmas context_bodies = done_body_def err_body_def value_shallow_body_def value_deep_body_def value_miss_body_def
  with_cancel_body_def with_timeout_body_def with_timeout_expired_body_def with_value_body_def
  with_cancel_nested_body_def cause_body_def with_cancel_cause_body_def without_cancel_body_def
  after_func_body_def cancel_tree_body_def

lemma context_table_moves:
  assumes "host_ok h" and "(nm, f) \<in> set (context_table h R L)"
  shows "does (advances clock) f"
  using assms
  unfolding context_table_def context_rows context_bodies asking_def walking_def build_def under_root_def under_parent_def
  by (auto simp: split_beta intro!: contract_rules simp del: block.simps)

section \<open>What a tree of contexts promises\<close>

text \<open>
  \<open>tree m\<close> has the contexts that were made and not released, with their parents; \<open>held m c\<close> are the values a
  lookup from \<open>c\<close> finds, \<open>over m c\<close> is the cause of its cancellation, \<open>0\<close> while it is live. Under the root or a
  context of the tree a constructor returns nil and changes nothing, or it returns a node that is nobody's parent. The
  questions, the cancel functions and the release are for contexts of the tree, and what may be released is a node without
  children. Nothing at all is promised of a call on the nil context, on one that was released, or of a constructor under
  such a parent: Go documents that a nil Context is not to be passed.
\<close>

definition alive :: "(nat \<rightharpoonup> nat) \<Rightarrow> nat \<Rightarrow> bool" where
  "alive t c \<longleftrightarrow> c \<noteq> 0 \<and> t c \<noteq> None"

definition makes_node ::
  "nat \<Rightarrow> ('m \<Rightarrow> nat \<rightharpoonup> nat) \<Rightarrow> ('m \<Rightarrow> nat \<Rightarrow> int \<rightharpoonup> nat) \<Rightarrow> ('m \<Rightarrow> nat \<Rightarrow> nat) \<Rightarrow> (nat, 'm) op \<Rightarrow> nat
     \<Rightarrow> ('m \<Rightarrow> int \<rightharpoonup> nat) \<Rightarrow> ('m \<Rightarrow> nat) \<Rightarrow> bool" where
  "makes_node bg tree held over f p values cause \<longleftrightarrow> (\<forall>m. p = bg \<or> alive (tree m) p \<longrightarrow>
     (let c = fst (f m); m' = snd (snd (f m)) in
     if c = 0 then tree m' = tree m \<and> held m' = held m \<and> over m' = over m
     else tree m c = None \<and> c \<noteq> bg \<and> c \<notin> ran (tree m) \<and> tree m' = (tree m)(c \<mapsto> p)
       \<and> held m' = (held m)(c := values m) \<and> over m' = (over m)(c := cause m)))"

definition context_law ::
  "'m context_lib \<Rightarrow> nat \<Rightarrow> ('m \<Rightarrow> nat \<rightharpoonup> nat) \<Rightarrow> ('m \<Rightarrow> nat \<Rightarrow> int \<rightharpoonup> nat) \<Rightarrow> ('m \<Rightarrow> nat \<Rightarrow> nat) \<Rightarrow> bool" where
  "context_law L bg tree held over \<longleftrightarrow> (let same = (\<lambda>m m'. tree m' = tree m \<and> held m' = held m \<and> over m' = over m);
       node = makes_node bg tree held over in
     bg \<noteq> 0 \<and> (\<forall>m. held m bg = Map.empty \<and> over m bg = 0)
   \<and> (\<forall>m. fst (ctx_background L m) = bg \<and> same m (snd (snd (ctx_background L m))))
   \<and> (\<forall>p. node (ctx_with_cancel L p) p (\<lambda>m. held m p) (\<lambda>m. over m p))
   \<and> (\<forall>p. node (ctx_with_cancel_cause L p) p (\<lambda>m. held m p) (\<lambda>m. over m p))
   \<and> (\<forall>p t. \<exists>cause. node (ctx_with_timeout L p t) p (\<lambda>m. held m p) cause)
   \<and> (\<forall>p k v. node (ctx_with_value L p k v) p (\<lambda>m. (held m p)(k \<mapsto> v)) (\<lambda>m. over m p))
   \<and> (\<forall>p. node (ctx_without_cancel L p) p (\<lambda>m. held m p) (\<lambda>m. 0))
   \<and> (\<forall>p. node (ctx_after_func L p) p (\<lambda>m. held m p) (\<lambda>m. over m p))
   \<and> (\<forall>c m. alive (tree m) c \<longrightarrow> same m (snd (snd (ctx_done L c m)))
        \<and> (fst (ctx_err L c m) = 0) = (over m c = 0) \<and> same m (snd (snd (ctx_err L c m)))
        \<and> fst (ctx_cause L c m) = over m c \<and> same m (snd (snd (ctx_cause L c m))))
   \<and> (\<forall>c k m. alive (tree m) c \<longrightarrow> same m (snd (snd (ctx_value L c k m)))
        \<and> (held m c k = None \<longrightarrow> fst (ctx_value L c k m) = (0, 0)))
   \<and> (\<forall>c k x m. alive (tree m) c \<and> held m c k = Some x \<longrightarrow> snd (fst (ctx_value L c k m)) = x)
   \<and> (\<forall>c m. alive (tree m) c \<longrightarrow> tree (snd (snd (ctx_cancel L c m))) = tree m \<and> held (snd (snd (ctx_cancel L c m))) = held m)
   \<and> (\<forall>c e m. alive (tree m) c \<longrightarrow> tree (snd (snd (ctx_cancel_cause L c e m))) = tree m
        \<and> held (snd (snd (ctx_cancel_cause L c e m))) = held m
        \<and> (over m c = 0 \<longrightarrow> over (snd (snd (ctx_cancel_cause L c e m))) c = e))
   \<and> (\<forall>c m. alive (tree m) c \<longrightarrow> tree (snd (snd (ctx_stop L c m))) = tree m \<and> held (snd (snd (ctx_stop L c m))) = held m)
   \<and> (\<forall>c m. alive (tree m) c \<and> c \<notin> ran (tree m) \<longrightarrow> tree (snd (snd (ctx_release L c m))) = (tree m)(c := None)))"

lemma makes_nodeD:
  assumes "makes_node bg tree held over f p values cause" and "p = bg \<or> alive (tree m) p"
  shows "fst (f m) = 0 \<Longrightarrow> tree (snd (snd (f m))) = tree m"
    and "fst (f m) \<noteq> 0 \<Longrightarrow> tree m (fst (f m)) = None \<and> fst (f m) \<noteq> bg \<and> fst (f m) \<notin> ran (tree m)
      \<and> tree (snd (snd (f m))) = (tree m)(fst (f m) \<mapsto> p) \<and> held (snd (snd (f m))) = (held m)(fst (f m) := values m)
      \<and> over (snd (snd (f m))) = (over m)(fst (f m) := cause m)"
  using assms(1) [unfolded makes_node_def, THEN spec, THEN mp, OF assms(2)] by (simp_all add: Let_def)

lemma context_lawD:
  assumes "context_law L bg tree held over"
  shows "held m bg = Map.empty" "over m bg = 0"
    "fst (ctx_background L m) = bg" "tree (snd (snd (ctx_background L m))) = tree m"
    "alive (tree m) c \<Longrightarrow> tree (snd (snd (ctx_done L c m))) = tree m" "alive (tree m) c \<Longrightarrow> tree (snd (snd (ctx_err L c m))) = tree m"
    "alive (tree m) c \<Longrightarrow> tree (snd (snd (ctx_cause L c m))) = tree m" "alive (tree m) c \<Longrightarrow> tree (snd (snd (ctx_value L c k m))) = tree m"
    "alive (tree m) c \<Longrightarrow> held (snd (snd (ctx_value L c k m))) = held m" "alive (tree m) c \<Longrightarrow> over (snd (snd (ctx_err L c m))) = over m"
    "alive (tree m) c \<Longrightarrow> over (snd (snd (ctx_cause L c m))) = over m"
    "alive (tree m) c \<Longrightarrow> (fst (ctx_err L c m) = 0) = (over m c = 0)" "alive (tree m) c \<Longrightarrow> fst (ctx_cause L c m) = over m c"
    "alive (tree m) c \<Longrightarrow> tree (snd (snd (ctx_cancel L c m))) = tree m"
    "alive (tree m) c \<Longrightarrow> tree (snd (snd (ctx_cancel_cause L c e m))) = tree m"
    "alive (tree m) c \<Longrightarrow> tree (snd (snd (ctx_stop L c m))) = tree m"
    "alive (tree m) c \<Longrightarrow> c \<notin> ran (tree m) \<Longrightarrow> tree (snd (snd (ctx_release L c m))) = (tree m)(c := None)"
    "alive (tree m) c \<Longrightarrow> over m c = 0 \<Longrightarrow> over (snd (snd (ctx_cancel_cause L c e m))) c = e"
    "alive (tree m) c \<Longrightarrow> held m c k = None \<Longrightarrow> fst (ctx_value L c k m) = (0, 0)"
    "alive (tree m) c \<Longrightarrow> held m c k = Some x \<Longrightarrow> snd (fst (ctx_value L c k m)) = x"
  using assms by (simp_all add: context_law_def Let_def)

lemma context_nodes:
  assumes "context_law L bg tree held over"
  shows "bg \<noteq> 0"
    "makes_node bg tree held over (ctx_with_cancel L p) p (\<lambda>m. held m p) (\<lambda>m. over m p)"
    "makes_node bg tree held over (ctx_with_cancel_cause L p) p (\<lambda>m. held m p) (\<lambda>m. over m p)"
    "makes_node bg tree held over (ctx_with_value L p k v) p (\<lambda>m. (held m p)(k \<mapsto> v)) (\<lambda>m. over m p)"
    "makes_node bg tree held over (ctx_without_cancel L p) p (\<lambda>m. held m p) (\<lambda>m. 0)"
    "makes_node bg tree held over (ctx_after_func L p) p (\<lambda>m. held m p) (\<lambda>m. over m p)"
    "\<exists>cause. makes_node bg tree held over (ctx_with_timeout L p t) p (\<lambda>m. held m p) cause"
  using assms by (simp_all add: context_law_def Let_def)

text \<open>No allocation fails: under a parent that exists no constructor answers nil.\<close>

definition never_nil :: "'m context_lib \<Rightarrow> nat \<Rightarrow> ('m \<Rightarrow> nat \<rightharpoonup> nat) \<Rightarrow> bool" where
  "never_nil L bg tree \<longleftrightarrow> (\<forall>p m. p = bg \<or> alive (tree m) p \<longrightarrow> fst (ctx_with_cancel L p m) \<noteq> 0
     \<and> fst (ctx_with_cancel_cause L p m) \<noteq> 0 \<and> (\<forall>t. fst (ctx_with_timeout L p t m) \<noteq> 0)
     \<and> (\<forall>k v. fst (ctx_with_value L p k v m) \<noteq> 0) \<and> fst (ctx_without_cancel L p m) \<noteq> 0 \<and> fst (ctx_after_func L p m) \<noteq> 0)"

lemma never_nilD:
  assumes "never_nil L bg tree" and "p = bg \<or> alive (tree m) p"
  shows "fst (ctx_with_cancel L p m) \<noteq> 0" "fst (ctx_with_cancel_cause L p m) \<noteq> 0" "fst (ctx_with_timeout L p t m) \<noteq> 0"
    "fst (ctx_with_value L p k x m) \<noteq> 0" "fst (ctx_without_cancel L p m) \<noteq> 0" "fst (ctx_after_func L p m) \<noteq> 0"
  using assms(1) [unfolded never_nil_def, THEN spec, THEN spec, THEN mp, OF assms(2)] by blast+

section \<open>Nothing is left behind\<close>

text \<open>The tree with the contexts \<open>cs\<close> on top of \<open>t0\<close>, the one that is to be released first in front.\<close>

fun stacked :: "(nat \<rightharpoonup> nat) \<Rightarrow> (nat \<rightharpoonup> nat) \<Rightarrow> nat list \<Rightarrow> bool" where
  "stacked t0 t [] \<longleftrightarrow> t = t0"
| "stacked t0 t (c # cs) \<longleftrightarrow> (\<exists>p. c \<noteq> 0 \<and> t c = Some p \<and> c \<notin> ran t \<and> stacked t0 (t(c := None)) cs)"

lemma stacked_alive: "stacked t0 t cs \<Longrightarrow> c \<in> set cs \<Longrightarrow> alive t c"
proof (induction cs arbitrary: t)
  case (Cons a cs)
  from Cons.prems(1) have a: "alive t a" "stacked t0 (t(a := None)) cs" by (auto simp: alive_def)
  show ?case
  proof (cases "c = a")
    case False
    with Cons.prems(2) Cons.IH [OF a(2)] show ?thesis by (simp add: alive_def)
  qed (simp add: a(1))
qed simp

lemma stacked_push:
  assumes "stacked t0 t cs" and "c \<noteq> 0" and "t c = None" and "c \<notin> ran t" and "p \<noteq> c"
  shows "stacked t0 (t(c \<mapsto> p)) (c # cs)"
proof -
  have "(t(c \<mapsto> p))(c := None) = t" using assms(3) by (simp add: fun_upd_idem)
  with assms show ?thesis by (simp add: ran_map_upd)
qed

lemma stacked_top: "stacked t0 t (c # cs) \<Longrightarrow> alive t c \<and> c \<notin> ran t \<and> stacked t0 (t(c := None)) cs"
  by (auto simp: alive_def)

lemma made_stacked:
  assumes "makes_node bg tree held over f p values cause" and "stacked t0 (tree m) cs" and "p = bg \<or> p \<in> set cs"
  shows "stacked t0 (tree (snd (snd (f m)))) (if fst (f m) = 0 then cs else fst (f m) # cs)"
proof -
  have p: "p = bg \<or> alive (tree m) p" using assms(2,3) stacked_alive by blast
  show ?thesis
  proof (cases "fst (f m) = 0")
    case False
    from makes_nodeD(2) [OF assms(1) p False] have new: "tree m (fst (f m)) = None" "fst (f m) \<noteq> bg"
      "fst (f m) \<notin> ran (tree m)" "tree (snd (snd (f m))) = (tree m)(fst (f m) \<mapsto> p)" by simp_all
    then have "p \<noteq> fst (f m)" using p by (auto simp: alive_def)
    with stacked_push [OF assms(2) False new(1,3)] new(4) False show ?thesis by simp
  qed (use makes_nodeD(1) [OF assms(1) p] assms(2) in simp)
qed

declare stacked.simps [simp del]

text \<open>
  A constructor on top of a stack: what follows has to cope with nil, unless the constructor never answers nil there.
\<close>

lemma ends_make:
  assumes "makes_node bg tree held over f p values cause" and "p = bg \<or> p \<in> set cs"
    and "\<And>c. c \<noteq> 0 \<Longrightarrow> closes (\<lambda>m v. stacked t0 (tree m) (c # cs)) (k c) ok Q"
    and "(\<forall>m. p = bg \<or> alive (tree m) p \<longrightarrow> fst (f m) \<noteq> 0) \<or> closes (\<lambda>m v. stacked t0 (tree m) cs) (k 0) ok Q"
  shows "closes (\<lambda>m v. stacked t0 (tree m) cs) (calling f k) ok Q"
proof (rule ends_calling [where R = "\<lambda>c m v. stacked t0 (tree m) (if c = 0 then cs else c # cs)
    \<and> (c = 0 \<longrightarrow> \<not> (\<forall>m. p = bg \<or> alive (tree m) p \<longrightarrow> fst (f m) \<noteq> 0))"])
  let ?free = "\<forall>m. p = bg \<or> alive (tree m) p \<longrightarrow> fst (f m) \<noteq> 0"
  show "closes (\<lambda>m v. stacked t0 (tree m) (if c = 0 then cs else c # cs) \<and> (c = 0 \<longrightarrow> \<not> ?free)) (k c) ok Q" for c
  proof (cases "c = 0")
    case True
    from assms(4) show ?thesis
    proof
      assume ?free
      with True show ?thesis by (simp add: closes_def holds_in_def)
    next
      assume "closes (\<lambda>m v. stacked t0 (tree m) cs) (k 0) ok Q"
      then show ?thesis unfolding True by (rule ends_conseq) simp_all
    qed
  next
    case False
    show ?thesis by (rule ends_conseq [OF assms(3) [OF False]]) (simp_all add: False)
  qed
  fix m and v :: "string \<Rightarrow> int" assume m: "stacked t0 (tree m) cs"
  then have "p = bg \<or> alive (tree m) p" using assms(2) stacked_alive by blast
  with made_stacked [OF assms(1) m assms(2)]
  show "stacked t0 (tree (snd (snd (f m)))) (if fst (f m) = 0 then cs else fst (f m) # cs) \<and> (fst (f m) = 0 \<longrightarrow> \<not> ?free)"
    by blast
qed

lemma release_row:
  assumes "context_law L bg tree held over"
  shows "triple (\<lambda>m v. stacked t0 (tree m) (c # cs)) (call_op (ctx_release L c)) (\<lambda>n. []) (\<lambda>m v. stacked t0 (tree m) cs)"
  by (rule row_call_op) (use stacked_top context_lawD(17) [OF assms] in fastforce)

lemma releases_row:
  assumes "context_law L bg tree held over"
  shows "triple (\<lambda>m v. stacked t0 (tree m) (cs @ ds)) (block (map (\<lambda>c. call_op (ctx_release L c)) cs)) (\<lambda>n. [])
    (\<lambda>m v. stacked t0 (tree m) ds)"
proof (induction cs)
  case (Cons c cs)
  from row_then [OF release_row [OF assms, of t0 c "cs @ ds"] Cons.IH] show ?case by (simp del: block.simps)
qed (simp add: row_Some)

lemma unbuild_ends:
  assumes "context_law L bg tree held over"
  shows "closes (\<lambda>m v. stacked t0 (tree m) (rev kids @ ds)) (unbuild L kids) ok (\<lambda>m v. stacked t0 (tree m) ds)"
  unfolding unbuild_def by (rule ends_quiet [OF releases_row [OF assms]])

text \<open>The calls on a context of the stack.\<close>

lemma calls_keep_tree:
  assumes "context_law L bg tree held over" and "c \<in> set cs"
  shows "triple (\<lambda>m v. stacked t0 (tree m) cs) (call_op (ctx_cancel L c)) (\<lambda>n. []) (\<lambda>m v. stacked t0 (tree m) cs)"
    "triple (\<lambda>m v. stacked t0 (tree m) cs) (call_op (ctx_cancel_cause L c e)) (\<lambda>n. []) (\<lambda>m v. stacked t0 (tree m) cs)"
  by (rule row_call_op; use stacked_alive [OF _ assms(2)] context_lawD(14,15) [OF assms(1)] in fastforce)+

lemma questions_keep_tree:
  assumes "context_law L bg tree held over" and "c \<in> set cs" and "\<And>x. closes (\<lambda>m v. stacked t0 (tree m) cs) (k x) ok (\<lambda>m v. stacked t0 (tree m) cs)"
  shows "ask \<in> {ctx_done L, ctx_err L, ctx_cause L} \<Longrightarrow>
      closes (\<lambda>m v. stacked t0 (tree m) cs) (calling (ask c) k) ok (\<lambda>m v. stacked t0 (tree m) cs)"
  by (rule ends_calling [where R = "\<lambda>_ m v. stacked t0 (tree m) cs", OF _ assms(3)])
    (use stacked_alive [OF _ assms(2)] context_lawD(5-7) [OF assms(1)] in fastforce)

lemma value_keeps_tree:
  assumes "context_law L bg tree held over" and "c \<in> set cs" and "\<And>x. closes (\<lambda>m v. stacked t0 (tree m) cs) (k x) ok (\<lambda>m v. stacked t0 (tree m) cs)"
  shows "closes (\<lambda>m v. stacked t0 (tree m) cs) (calling (ctx_value L c i) k) ok (\<lambda>m v. stacked t0 (tree m) cs)"
  by (rule ends_calling [where R = "\<lambda>_ m v. stacked t0 (tree m) cs", OF _ assms(3)])
    (use stacked_alive [OF _ assms(2)] context_lawD(8) [OF assms(1)] in fastforce)

lemma stop_keeps_tree:
  assumes "context_law L bg tree held over" and "c \<in> set cs"
  shows "closes (\<lambda>m v. stacked t0 (tree m) cs) (calling (ctx_stop L c) keep_bool) (\<lambda>_. True) (\<lambda>m v. stacked t0 (tree m) cs)"
  by (rule ends_calling [where R = "\<lambda>_ m v. stacked t0 (tree m) cs"])
    (use stacked_alive [OF _ assms(2)] context_lawD(16) [OF assms(1)] in \<open>fastforce intro: ends_row [OF row_keeps(4)]\<close>)+

lemma life_ends:
  assumes "context_law L bg tree held over" and "makes_node bg tree held over mk p values cause" and "p = bg \<or> p \<in> set cs"
    and "\<forall>m. p = bg \<or> alive (tree m) p \<longrightarrow> fst (mk m) \<noteq> 0"
    and "\<And>c cs. closes (\<lambda>m v. stacked t0 (tree m) (c # cs)) (stop c) (\<lambda>_. True) (\<lambda>m v. stacked t0 (tree m) (c # cs))"
  shows "closes (\<lambda>m v. stacked t0 (tree m) cs) (life L mk stop) (\<lambda>_. True) (\<lambda>m v. stacked t0 (tree m) cs)"
  unfolding life_def
proof (rule ends_make [OF assms(2,3) _ disjI1 [OF assms(4)]])
  show "closes (\<lambda>m v. stacked t0 (tree m) (c # cs)) (block [keep c, stop c, call_op (ctx_release L c)]) (\<lambda>_. True)
      (\<lambda>m v. stacked t0 (tree m) cs)" for c
    by (rule ends_Cons [OF ends_row [OF row_keeps(1)] ends_Cons [OF assms(5) ends_end [OF ends_quiet [OF release_row [OF assms(1)]]]]]) simp
qed

lemma background_ends:
  assumes "context_law L bg tree held over" and "closes (\<lambda>m v. stacked t0 (tree m) cs) (k bg) ok Q"
  shows "closes (\<lambda>m v. stacked t0 (tree m) cs) (calling (ctx_background L) k) ok Q"
proof (rule ends_calling [where R = "\<lambda>r m v. r = bg \<and> stacked t0 (tree m) cs"])
  show "closes (\<lambda>m v. r = bg \<and> stacked t0 (tree m) cs) (k r) ok Q" for r
    using assms(2) by (cases "r = bg") (simp_all add: closes_def holds_in_def)
qed (simp add: context_lawD [OF assms(1)])

text \<open>The timed loop between its two timer calls.\<close>

lemma timed_ends:
  assumes "host_ok h" and "\<And>i. closes I (body i) ok I" and "closes I (block ss) ok Q"
  shows "closes I (block (resuming h # bench_loop body # pausing h # ss)) ok Q"
  by (rule ends_then [OF row_timer(2) [OF assms(1)] ends_Cons [OF ends_loop [OF assms(2)]
    ends_then [OF row_timer(1) [OF assms(1)] assms(3)]]])

lemma build_on_ends:
  assumes "context_law L bg tree held over" and "\<And>chain. closes (\<lambda>m v. stacked t0 (tree m) (rev chain)) (k chain) ok Q"
    and "chain \<noteq> []"
  shows "closes (\<lambda>m v. stacked t0 (tree m) (rev chain)) (build_on h L j chain k) ok Q"
  using assms(3)
proof (induction j arbitrary: chain)
  case (Suc j)
  show ?case unfolding build_on.simps
  proof (rule ends_make [OF context_nodes(4) [OF assms(1)]])
    show "closes (\<lambda>m v. stacked t0 (tree m) (c # rev chain))
        (if c = 0 then k chain else build_on h L j (chain @ [c]) k) ok Q" if "c \<noteq> 0" for c
      using Suc.IH [of "chain @ [c]"] that by simp
  qed (use Suc.prems assms(2) in simp_all)
qed (simp add: assms(2))

lemma make_kids_ends:
  assumes "context_law L bg tree held over" and "\<And>kids. closes (\<lambda>m v. stacked t0 (tree m) (rev kids @ cs)) (k kids) ok Q"
    and "p \<in> set cs"
  shows "closes (\<lambda>m v. stacked t0 (tree m) (rev kids @ cs)) (make_kids L p j kids k) ok Q"
proof (induction j arbitrary: kids)
  case (Suc j)
  show ?case unfolding make_kids.simps
  proof (rule ends_make [OF context_nodes(2) [OF assms(1)]])
    show "closes (\<lambda>m v. stacked t0 (tree m) (c # rev kids @ cs))
        (if c = 0 then k kids else make_kids L p j (kids @ [c]) k) ok Q" if "c \<noteq> 0" for c
      using Suc.IH [of "kids @ [c]"] that by simp
  qed (use assms(2,3) in auto)
qed (simp add: assms(2))

text \<open>The bodies that check for nil, from the tree \<open>t0\<close> back to it.\<close>

lemma walking_ends:
  assumes "host_ok h" and "context_law L bg tree held over"
    and "\<And>c cs. c \<in> set cs \<Longrightarrow> closes (\<lambda>m v. stacked t0 (tree m) cs) (look c) (\<lambda>_. True) (\<lambda>m v. stacked t0 (tree m) cs)"
  shows "closes (\<lambda>m v. stacked t0 (tree m) []) (walking h L look) (\<lambda>_. True) (\<lambda>m v. stacked t0 (tree m) [])"
proof -
  let ?A = "\<lambda>cs m v. stacked t0 (tree m) cs"
  let ?k = "\<lambda>chain. if length chain \<noteq> CTX_DEPTH then unbuild L chain else block [
     resuming h, bench_loop (\<lambda>_. look (chain ! (CTX_DEPTH - 1))), pausing h, unbuild L chain]"
  have un: "closes (?A (rev chain)) (unbuild L chain) (\<lambda>_. True) (?A [])" for chain
    using unbuild_ends [OF assms(2), of t0 chain "[]"] by simp
  have after: "closes (?A (rev chain)) (?k chain) (\<lambda>_. True) (?A [])" for chain
  proof (cases "length chain = CTX_DEPTH")
    case True
    then have "chain ! (CTX_DEPTH - 1) \<in> set (rev chain)" by (simp add: CTX_DEPTH_def)
    from timed_ends [OF assms(1) assms(3) [OF this] ends_end [OF un]] True show ?thesis by (simp del: block.simps)
  qed (simp add: un)
  show ?thesis unfolding walking_def build_def
  proof (rule background_ends [OF assms(2)], rule ends_make [OF context_nodes(4) [OF assms(2)]])
    fix c :: nat assume "c \<noteq> 0"
    then show "closes (?A [c]) (if c = 0 then ?k [] else build_on h L (CTX_DEPTH - 1) [c] ?k) (\<lambda>_. True) (?A [])"
      using build_on_ends [OF assms(2) after, of "[c]"] by simp
  qed (use after [of "[]"] in simp_all)
qed

lemma guarded_bodies_end:
  assumes "host_ok h" and "context_law L bg tree held over"
    and "s \<in> {value_deep_body h L, value_miss_body h L, cause_body h L}"
  shows "closes (\<lambda>m v. stacked t0 (tree m) []) s (\<lambda>_. True) (\<lambda>m v. stacked t0 (tree m) [])"
proof -
  let ?A = "\<lambda>cs m v. stacked t0 (tree m) cs"
  have keeps: "closes (?A cs) (keep x) (\<lambda>_. True) (?A cs)" for cs x by (simp add: ends_row [OF row_keeps(1)])
  have "closes (?A []) (value_deep_body h L) (\<lambda>_. True) (?A [])" "closes (?A []) (value_miss_body h L) (\<lambda>_. True) (?A [])"
    unfolding value_deep_body_def value_miss_body_def
    by (rule walking_ends [OF assms(1,2)], rule value_keeps_tree [OF assms(2)], assumption, simp add: keeps split: prod.splits)+
  moreover have asked: "closes (?A [c]) (block [call_op (ctx_cancel_cause L c e), resuming h,
      bench_loop (\<lambda>_. calling (ctx_cause L c) keep), pausing h, call_op (ctx_release L c)]) (\<lambda>_. True) (?A [])" for c e
    by (intro ends_then [OF calls_keep_tree(2) [OF assms(2)]] timed_ends [OF assms(1)] questions_keep_tree [OF assms(2)]
        ends_end ends_quiet [OF release_row [OF assms(2)]] keeps) simp_all
  moreover have "closes (?A []) (cause_body h L) (\<lambda>_. True) (?A [])" unfolding cause_body_def
    by (rule background_ends [OF assms(2)], rule ends_make [OF context_nodes(3) [OF assms(2)]])
      (simp_all add: asked ends_quiet [OF row_Some] del: block.simps)
  ultimately show ?thesis using assms(3) by blast
qed

text \<open>The bodies that rely on their allocations.\<close>

lemma asking_ends:
  assumes "host_ok h" and "context_law L bg tree held over" and "never_nil L bg tree" and "ask \<in> {ctx_done L, ctx_err L, ctx_cause L}"
  shows "closes (\<lambda>m v. stacked t0 (tree m) []) (asking h L ask) (\<lambda>_. True) (\<lambda>m v. stacked t0 (tree m) [])"
  unfolding asking_def
proof (rule background_ends [OF assms(2)], rule ends_make [OF context_nodes(2) [OF assms(2)]])
  show "closes (\<lambda>m v. stacked t0 (tree m) [c]) (block [resuming h, bench_loop (\<lambda>_. calling (ask c) keep), pausing h,
      call_op (ctx_cancel L c), call_op (ctx_release L c)]) (\<lambda>_. True) (\<lambda>m v. stacked t0 (tree m) [])" for c
    by (intro timed_ends [OF assms(1)] questions_keep_tree [OF assms(2) _ _ assms(4)] ends_then [OF calls_keep_tree(1) [OF assms(2)]]
        ends_end ends_quiet [OF release_row [OF assms(2)]] ends_row [OF row_keeps(1)]) simp_all
qed (use assms(3) in \<open>simp_all add: never_nil_def\<close>)

lemma under_root_ends:
  assumes "host_ok h" and "context_law L bg tree held over" and "\<exists>values cause. makes_node bg tree held over (mk bg) bg values cause"
    and "\<And>m. fst (mk bg m) \<noteq> 0"
    and "\<And>c cs. closes (\<lambda>m v. stacked t0 (tree m) (c # cs)) (stop c) (\<lambda>_. True) (\<lambda>m v. stacked t0 (tree m) (c # cs))"
  shows "closes (\<lambda>m v. stacked t0 (tree m) []) (under_root h L mk stop) (\<lambda>_. True) (\<lambda>m v. stacked t0 (tree m) [])"
proof -
  from assms(3) obtain x y where "makes_node bg tree held over (mk bg) bg x y" by blast
  from life_ends [OF assms(2) this _ _ assms(5), of "[]"] assms(4) show ?thesis
    unfolding under_root_def
    by (intro background_ends [OF assms(2)] timed_ends [OF assms(1), where ss = "[]"]) (simp_all add: ends_quiet [OF row_Some])
qed

lemma under_parent_ends:
  assumes "host_ok h" and "context_law L bg tree held over" and "never_nil L bg tree"
    and "\<And>p. \<exists>values cause. makes_node bg tree held over (mk p) p values cause"
    and "\<And>p m. p = bg \<or> alive (tree m) p \<Longrightarrow> fst (mk p m) \<noteq> 0"
    and "\<And>c cs. closes (\<lambda>m v. stacked t0 (tree m) (c # cs)) (stop c) (\<lambda>_. True) (\<lambda>m v. stacked t0 (tree m) (c # cs))"
  shows "closes (\<lambda>m v. stacked t0 (tree m) []) (under_parent h L mk stop) (\<lambda>_. True) (\<lambda>m v. stacked t0 (tree m) [])"
proof -
  have life: "closes (\<lambda>m v. stacked t0 (tree m) [p]) (life L (mk p) stop) (\<lambda>_. True) (\<lambda>m v. stacked t0 (tree m) [p])" for p
  proof -
    from assms(4) obtain x y where "makes_node bg tree held over (mk p) p x y" by blast
    from life_ends [OF assms(2) this _ _ assms(6), of "[p]"] assms(5) show ?thesis by simp
  qed
  have body: "closes (\<lambda>m v. stacked t0 (tree m) [p]) (block [resuming h, bench_loop (\<lambda>_. life L (mk p) stop), pausing h,
      call_op (ctx_cancel L p), call_op (ctx_release L p)]) (\<lambda>_. True) (\<lambda>m v. stacked t0 (tree m) [])" for p
    by (intro timed_ends [OF assms(1) life] ends_then [OF calls_keep_tree(1) [OF assms(2)]] ends_end
        ends_quiet [OF release_row [OF assms(2)]]) simp
  show ?thesis unfolding under_parent_def
    by (rule background_ends [OF assms(2)], rule ends_make [OF context_nodes(2) [OF assms(2)]])
      (auto simp: body ends_quiet [OF row_Some] simp del: block.simps)
qed

lemma cancel_tree_ends:
  assumes "host_ok h" and "context_law L bg tree held over" and "never_nil L bg tree"
  shows "closes (\<lambda>m v. stacked t0 (tree m) []) (cancel_tree_body h L) (\<lambda>_. True) (\<lambda>m v. stacked t0 (tree m) [])"
proof -
  let ?A = "\<lambda>cs m v. stacked t0 (tree m) cs"
  have tidy: "closes (?A (rev kids @ [c])) (block [call_op (ctx_cancel L c), unbuild L kids,
      call_op (ctx_release L c)]) (\<lambda>_. True) (?A [])" for kids c
    by (rule ends_then [OF calls_keep_tree(1) [OF assms(2)] ends_Cons [OF unbuild_ends [OF assms(2)]
        ends_end [OF ends_quiet [OF release_row [OF assms(2)]]]]]) simp
  have family: "closes (?A [c]) (make_kids L c FANOUT [] (\<lambda>kids. block [call_op (ctx_cancel L c),
      unbuild L kids, call_op (ctx_release L c)])) (\<lambda>_. True) (?A [])" for c
    using make_kids_ends [OF assms(2) tidy, of c c "[]"] by simp
  have "closes (?A []) (calling (ctx_background L) (\<lambda>r. calling (ctx_with_cancel L r) (\<lambda>c. make_kids L c FANOUT []
      (\<lambda>kids. block [call_op (ctx_cancel L c), unbuild L kids, call_op (ctx_release L c)])))) (\<lambda>_. True) (?A [])"
    by (rule background_ends [OF assms(2)], rule ends_make [OF context_nodes(2) [OF assms(2)]])
      (use assms(3) in \<open>simp_all add: family never_nil_def del: block.simps\<close>)
  from timed_ends [OF assms(1) this, of "[]"] show ?thesis
    unfolding cancel_tree_body_def by (simp add: ends_quiet [OF row_Some])
qed

lemma value_shallow_ends:
  assumes "host_ok h" and "context_law L bg tree held over" and "never_nil L bg tree"
  shows "closes (\<lambda>m v. stacked t0 (tree m) []) (value_shallow_body h L) (\<lambda>_. True) (\<lambda>m v. stacked t0 (tree m) [])"
  unfolding value_shallow_body_def
proof (rule background_ends [OF assms(2)], rule ends_make [OF context_nodes(4) [OF assms(2)]])
  show "closes (\<lambda>m v. stacked t0 (tree m) [c]) (block [resuming h, bench_loop (\<lambda>_. calling (ctx_value L c KEY_ONE) (\<lambda>(t, data). keep data)),
      pausing h, call_op (ctx_release L c)]) (\<lambda>_. True) (\<lambda>m v. stacked t0 (tree m) [])" for c
    by (intro timed_ends [OF assms(1)] value_keeps_tree [OF assms(2)] ends_end ends_quiet [OF release_row [OF assms(2)]])
      (auto simp: ends_row [OF row_keeps(1)])
qed (use assms(3) in \<open>simp_all add: never_nil_def\<close>)

lemma all_bodies_end:
  assumes "host_ok h" and "context_law L bg tree held over" and "never_nil L bg tree" and "(nm, f) \<in> set (context_table h R L)"
  shows "\<exists>s. f = run_main h R s \<and> closes (\<lambda>m v. stacked t0 (tree m) []) s (\<lambda>_. True) (\<lambda>m v. stacked t0 (tree m) [])"
proof -
  let ?I = "\<lambda>m v. stacked t0 (tree m) []"
  note node = context_nodes [OF assms(2)]
  have nil: "fst (ctx_with_cancel L p m) \<noteq> 0" "fst (ctx_with_cancel_cause L p m) \<noteq> 0" "fst (ctx_with_timeout L p t m) \<noteq> 0"
    "fst (ctx_with_value L p k x m) \<noteq> 0" "fst (ctx_without_cancel L p m) \<noteq> 0" "fst (ctx_after_func L p m) \<noteq> 0"
    if "p = bg \<or> alive (tree m) p" for p m t k x by (rule never_nilD [OF assms(3) that])+
  have stop: "closes (\<lambda>m v. stacked t0 (tree m) (c # cs)) (call_op (ctx_cancel L c)) (\<lambda>_. True) (\<lambda>m v. stacked t0 (tree m) (c # cs))"
    "closes (\<lambda>m v. stacked t0 (tree m) (c # cs)) (call_op (ctx_cancel_cause L c e)) (\<lambda>_. True) (\<lambda>m v. stacked t0 (tree m) (c # cs))"
    "closes (\<lambda>m v. stacked t0 (tree m) (c # cs)) Some (\<lambda>_. True) (\<lambda>m v. stacked t0 (tree m) (c # cs))"
    "closes (\<lambda>m v. stacked t0 (tree m) (c # cs)) (calling (ctx_stop L c) keep_bool) (\<lambda>_. True) (\<lambda>m v. stacked t0 (tree m) (c # cs))" for c cs e
    by (simp_all add: ends_quiet [OF calls_keep_tree(1) [OF assms(2)]] ends_quiet [OF calls_keep_tree(2) [OF assms(2)]]
        ends_quiet [OF row_Some] stop_keeps_tree [OF assms(2)])
  have "closes ?I (done_body h L) (\<lambda>_. True) ?I" "closes ?I (err_body h L) (\<lambda>_. True) ?I"
    unfolding done_body_def err_body_def by (rule asking_ends [OF assms(1-3)]; simp)+
  moreover have "closes ?I (with_cancel_body h L) (\<lambda>_. True) ?I" "closes ?I (with_timeout_body h L) (\<lambda>_. True) ?I"
    "closes ?I (with_timeout_expired_body h L) (\<lambda>_. True) ?I" "closes ?I (with_value_body h L) (\<lambda>_. True) ?I"
    "closes ?I (with_cancel_cause_body h L) (\<lambda>_. True) ?I"
    unfolding with_cancel_body_def with_timeout_body_def with_timeout_expired_body_def with_value_body_def with_cancel_cause_body_def
    by (rule under_root_ends [OF assms(1,2)]; (rule stop | use node in blast | simp add: nil))+
  moreover have "closes ?I (with_cancel_nested_body h L) (\<lambda>_. True) ?I" "closes ?I (without_cancel_body h L) (\<lambda>_. True) ?I"
    "closes ?I (after_func_body h L) (\<lambda>_. True) ?I"
    unfolding with_cancel_nested_body_def without_cancel_body_def after_func_body_def
    by (rule under_parent_ends [OF assms(1-3)]; (rule stop | use node in blast | simp add: nil))+
  ultimately show ?thesis
    using assms(4) guarded_bodies_end [OF assms(1,2), where ?t0.0 = t0] cancel_tree_ends [OF assms(1-3)] value_shallow_ends [OF assms(1-3)]
    unfolding context_table_def context_rows by auto
qed

text \<open>
  C29. Safety: no row leaves a context behind. When no allocation fails, every context that any of the fifteen rows makes
  is released, once, and only when it has no children left: the chain of the deep rows and the children of the cancelled
  tree last to first, and the parent after them. The three rows that check each of their contexts for nil before they use
  it do so whichever of their allocations fail. Of the nil context and of released ones the law promises nothing, so that
  the check, and the order of the releases, are what this rests on.
\<close>
theorem context_rows_give_back:
  fixes w :: "'m process world"
  assumes "host_ok h" and "context_law L bg tree held over" and "runtime_keeps R tree"
    and "(nm, f) \<in> set (context_table h R L)"
    and "never_nil L bg tree \<or> nm \<in> {''context_value_deep'', ''context_value_miss'', ''context_cause''}"
  shows "\<exists>w'. f w = Some w' \<and> tree (machine (rest w')) = tree (machine (rest w))"
proof -
  let ?t0 = "tree (machine (rest w))" let ?I = "\<lambda>m v. stacked ?t0 (tree m) []"
  have body: "\<exists>w'. run_main h R s w = Some w' \<and> tree (machine (rest w')) = ?t0"
    if "closes ?I s (\<lambda>_. True) ?I" for s
  proof -
    from ends_runtime [where P = "\<lambda>t v. stacked ?t0 t []" and Q = "\<lambda>t v. stacked ?t0 t []", OF assms(3) that]
    have "closes ?I (run_main h R s) (\<lambda>_. True) ?I"
      unfolding run_main_def by (rule ends_then [OF row_timer(1) [OF assms(1)] ends_end])
    from endsD [OF this, of w] show ?thesis by (auto simp: stacked.simps)
  qed
  have "\<exists>s. f = run_main h R s \<and> closes ?I s (\<lambda>_. True) ?I"
    using assms(5)
  proof
    assume "never_nil L bg tree"
    from all_bodies_end [OF assms(1,2) this assms(4)] show ?thesis .
  next
    assume "nm \<in> {''context_value_deep'', ''context_value_miss'', ''context_cause''}"
    then show ?thesis using assms(4) guarded_bodies_end [OF assms(1,2), where ?t0.0 = ?t0]
      unfolding context_table_def context_rows by auto
  qed
  with body show ?thesis by blast
qed

section \<open>What the questions answer\<close>

text \<open>A constructor that does not fail, under a parent of which something is known.\<close>

lemma row_node_in:
  assumes "makes_node bg tree held over f p values cause"
    and "\<And>m. p = bg \<or> alive (tree m) p \<Longrightarrow> fst (f m) \<noteq> 0"
    and "\<And>m v. P m v \<Longrightarrow> (p = bg \<or> alive (tree m) p) \<and> S (values m) (cause m)"
    and "\<And>c. triple (\<lambda>m v. alive (tree m) c \<and> S (held m c) (over m c)) (k c) g Q"
  shows "triple P (calling f k) g Q"
proof (rule row_calling [where R = "\<lambda>c m v. alive (tree m) c \<and> S (held m c) (over m c)"])
  show "alive (tree (snd (snd (f m)))) (fst (f m))
      \<and> S (held (snd (snd (f m))) (fst (f m))) (over (snd (snd (f m))) (fst (f m)))" if "P m v" for m v
    using makes_nodeD(2) [OF assms(1), of m] assms(2) [of m] assms(3) [OF that] by (simp add: alive_def)
qed (rule assms(4))

lemma row_background:
  assumes "context_law L bg tree held over" and "triple (\<lambda>m v. True) (k bg) g Q"
  shows "triple (\<lambda>m v. True) (calling (ctx_background L) k) g Q"
proof (rule row_calling [where R = "\<lambda>r m v. r = bg"])
  show "triple (\<lambda>m v. r = bg) (k r) g Q" for r using assms(2) by (cases "r = bg") (simp_all add: row_false)
qed (simp add: context_lawD [OF assms(1)])

lemma row_calls: "triple P (block (map (\<lambda>c. call_op (f c)) cs)) (\<lambda>n. []) (\<lambda>m v. True)"
proof (induction cs arbitrary: P)
  case (Cons c cs)
  show ?case unfolding list.map by (rule row_then [OF row_call_op Cons.IH]) simp
qed (simp add: row_pre [OF row_Some])

text \<open>The timed loop, when what the operation answers is known and stays so.\<close>

lemma timed_row:
  assumes "host_ok h" and "\<And>i. triple I (body i) (\<lambda>n. [x]) I" and "triple I (block ss) (\<lambda>n. []) Q"
  shows "triple I (block (resuming h # bench_loop body # pausing h # ss)) (\<lambda>n. replicate (nat n) x) Q"
  by (rule row_then [OF row_timer(2) [OF assms(1)] row_last [OF row_loop_inv [OF assms(2)]
    row_then [OF row_timer(1) [OF assms(1)] assms(3)]]])

text \<open>A context from which the key number one is found and the key number three is not.\<close>

definition finds_one ::
  "('m \<Rightarrow> nat \<rightharpoonup> nat) \<Rightarrow> ('m \<Rightarrow> nat \<Rightarrow> int \<rightharpoonup> nat) \<Rightarrow> nat \<Rightarrow> nat \<Rightarrow> 'm \<Rightarrow> bool" where
  "finds_one tree held x c m \<longleftrightarrow> alive (tree m) c \<and> held m c KEY_ONE = Some x \<and> held m c key_three = None"

lemma build_on_row:
  assumes "context_law L bg tree held over" and "never_nil L bg tree" and "chain \<noteq> []"
    and "\<And>c cs. length (c # cs) = length chain + j \<Longrightarrow> triple (\<lambda>m v. finds_one tree held x (last (c # cs)) m) (k (c # cs)) g Q"
  shows "triple (\<lambda>m v. finds_one tree held x (last chain) m) (build_on h L j chain k) g Q"
  using assms(3,4)
proof (induction j arbitrary: chain)
  case 0
  then show ?case by (cases chain) simp_all
next
  case (Suc j)
  let ?S = "\<lambda>s (e :: nat). s KEY_ONE = Some x \<and> s key_three = None"
  show ?case unfolding build_on.simps
  proof (rule row_node_in [OF context_nodes(4) [OF assms(1)], where S = ?S])
    show "fst (ctx_with_value L (last chain) KEY_TWO (VALUE h) m) \<noteq> 0" if "last chain = bg \<or> alive (tree m) (last chain)" for m
      by (rule never_nilD(4) [OF assms(2) that])
    show "(last chain = bg \<or> alive (tree m) (last chain)) \<and> ?S ((held m (last chain))(KEY_TWO \<mapsto> VALUE h)) (over m (last chain))"
      if "finds_one tree held x (last chain) m" for m and v :: "string \<Rightarrow> int"
      using that by (simp add: finds_one_def KEY_ONE_def KEY_TWO_def key_three_def)
    have step: "triple (\<lambda>m v. finds_one tree held x c m) (build_on h L j (chain @ [c]) k) g Q" for c
      using Suc.IH [of "chain @ [c]"] Suc.prems(2) by simp
    show "triple (\<lambda>m v. alive (tree m) c \<and> ?S (held m c) (over m c))
        (if c = 0 then k chain else build_on h L j (chain @ [c]) k) g Q" for c
      using row_pre [OF step] by (cases "c = 0") (simp_all add: row_false finds_one_def alive_def)
  qed
qed

text \<open>What a question answers of a context of which the answer is known.\<close>

lemma known_answers:
  assumes "context_law L bg tree held over"
  shows "triple (\<lambda>m v. alive (tree m) c \<and> over m c = e) (calling (ctx_cause L c) keep) (\<lambda>n. [KeptPtr e])
      (\<lambda>m v. alive (tree m) c \<and> over m c = e)"
    and "triple (\<lambda>m v. alive (tree m) c \<and> over m c = 0) (calling (ctx_err L c) keep) (\<lambda>n. [KeptPtr 0])
      (\<lambda>m v. alive (tree m) c \<and> over m c = 0)"
    and "triple (\<lambda>m v. alive (tree m) c \<and> held m c i = Some y) (calling (ctx_value L c i) (\<lambda>(t, data). keep data)) (\<lambda>n. [KeptPtr y])
      (\<lambda>m v. alive (tree m) c \<and> held m c i = Some y)"
    and "triple (\<lambda>m v. finds_one tree held y c m) (calling (ctx_value L c KEY_ONE) (\<lambda>(t, data). keep data)) (\<lambda>n. [KeptPtr y])
      (\<lambda>m v. finds_one tree held y c m)"
    and "triple (\<lambda>m v. finds_one tree held y c m) (calling (ctx_value L c key_three) (\<lambda>(t, data). keep t)) (\<lambda>n. [KeptPtr 0])
      (\<lambda>m v. finds_one tree held y c m)"
proof -
  note law = context_lawD [OF assms]
  show "triple (\<lambda>m v. alive (tree m) c \<and> over m c = e) (calling (ctx_cause L c) keep) (\<lambda>n. [KeptPtr e])
      (\<lambda>m v. alive (tree m) c \<and> over m c = e)"
    by (rule row_calling [where R = "\<lambda>r m v. r = e \<and> alive (tree m) c \<and> over m c = e"])
      (auto simp: law triple_def holds_in_def keep_def)
  show "triple (\<lambda>m v. alive (tree m) c \<and> over m c = 0) (calling (ctx_err L c) keep) (\<lambda>n. [KeptPtr 0])
      (\<lambda>m v. alive (tree m) c \<and> over m c = 0)"
    by (rule row_calling [where R = "\<lambda>r m v. r = 0 \<and> alive (tree m) c \<and> over m c = 0"])
      (auto simp: law triple_def holds_in_def keep_def)
  show "triple (\<lambda>m v. alive (tree m) c \<and> held m c i = Some y) (calling (ctx_value L c i) (\<lambda>(t, data). keep data)) (\<lambda>n. [KeptPtr y])
      (\<lambda>m v. alive (tree m) c \<and> held m c i = Some y)"
    by (rule row_calling [where R = "\<lambda>r m v. snd r = y \<and> alive (tree m) c \<and> held m c i = Some y"])
      (auto simp: law triple_def holds_in_def keep_def split: prod.splits)
  show "triple (\<lambda>m v. finds_one tree held y c m) (calling (ctx_value L c KEY_ONE) (\<lambda>(t, data). keep data)) (\<lambda>n. [KeptPtr y])
      (\<lambda>m v. finds_one tree held y c m)"
    by (rule row_calling [where R = "\<lambda>r m v. snd r = y \<and> finds_one tree held y c m"])
      (auto simp: law finds_one_def triple_def holds_in_def keep_def split: prod.splits)
  show "triple (\<lambda>m v. finds_one tree held y c m) (calling (ctx_value L c key_three) (\<lambda>(t, data). keep t)) (\<lambda>n. [KeptPtr 0])
      (\<lambda>m v. finds_one tree held y c m)"
    by (rule row_calling [where R = "\<lambda>r m v. fst r = 0 \<and> finds_one tree held y c m"])
      (auto simp: law finds_one_def triple_def holds_in_def keep_def split: prod.splits)
qed

lemma releasing: "triple P (block [call_op (ctx_release L c)]) (\<lambda>n. []) (\<lambda>m v. True)"
  "triple P (block [call_op (ctx_cancel L c), call_op (ctx_release L c)]) (\<lambda>n. []) (\<lambda>m v. True)"
  using row_calls [of P "\<lambda>f. f" "[ctx_release L c]"] row_calls [of P "\<lambda>f. f" "[ctx_cancel L c, ctx_release L c]"] by simp_all

lemma walking_answers:
  assumes "host_ok h" and "context_law L bg tree held over" and "never_nil L bg tree"
    and "\<And>c. triple (\<lambda>m v. finds_one tree held (VALUE h) c m) (look c) (\<lambda>n. [KeptPtr x]) (\<lambda>m v. finds_one tree held (VALUE h) c m)"
  shows "triple (\<lambda>m v. True) (walking h L look) (\<lambda>n. replicate (nat n) (KeptPtr x)) (\<lambda>m v. True)"
proof -
  let ?k = "\<lambda>chain. if length chain \<noteq> CTX_DEPTH then unbuild L chain else block [
     resuming h, bench_loop (\<lambda>_. look (chain ! (CTX_DEPTH - 1))), pausing h, unbuild L chain]"
  let ?S = "\<lambda>c m v. finds_one tree held (VALUE h) c m"
  have last: "triple (?S (last chain)) (?k chain) (\<lambda>n. replicate (nat n) (KeptPtr x)) (\<lambda>m v. True)"
    if len: "length chain = CTX_DEPTH" for chain
  proof -
    from len have "chain \<noteq> []" by (auto simp: CTX_DEPTH_def)
    with len have "chain ! (CTX_DEPTH - 1) = last chain" using last_conv_nth [of chain] by simp
    with timed_row [OF assms(1,4) row_end [OF row_calls]] len show ?thesis
      by (simp add: unbuild_def del: block.simps)
  qed
  have full: "length [c] + (CTX_DEPTH - 1) = CTX_DEPTH" for c :: nat by (simp add: CTX_DEPTH_def)
  have "triple (?S (last [c])) (build_on h L (CTX_DEPTH - 1) [c] ?k) (\<lambda>n. replicate (nat n) (KeptPtr x)) (\<lambda>m v. True)" for c
    by (rule build_on_row [OF assms(2,3)], simp, rule last, simp only: full)
  then have built: "triple (?S c) (build_on h L (CTX_DEPTH - 1) [c] ?k) (\<lambda>n. replicate (nat n) (KeptPtr x)) (\<lambda>m v. True)" for c
    by simp
  show ?thesis unfolding walking_def build_def
  proof (rule row_background [OF assms(2)],
      rule row_node_in [OF context_nodes(4) [OF assms(2)], where S = "\<lambda>s e. s KEY_ONE = Some (VALUE h) \<and> s key_three = None"])
    show "triple (\<lambda>m v. alive (tree m) c \<and> held m c KEY_ONE = Some (VALUE h) \<and> held m c key_three = None)
        (if c = 0 then ?k [] else build_on h L (CTX_DEPTH - 1) [c] ?k) (\<lambda>n. replicate (nat n) (KeptPtr x)) (\<lambda>m v. True)" for c
      using built [of c] by (cases "c = 0") (simp_all add: row_false alive_def finds_one_def)
  qed (use assms(3) context_lawD(1) [OF assms(2)] in \<open>simp_all add: never_nil_def KEY_ONE_def key_three_def\<close>)
qed

lemma single_answers:
  assumes "host_ok h" and "context_law L bg tree held over" and "never_nil L bg tree"
  shows "triple (\<lambda>m v. True) (err_body h L) (\<lambda>n. replicate (nat n) (KeptPtr 0)) (\<lambda>m v. True)"
    and "triple (\<lambda>m v. True) (value_shallow_body h L) (\<lambda>n. replicate (nat n) (KeptPtr (VALUE h))) (\<lambda>m v. True)"
    and "triple (\<lambda>m v. True) (cause_body h L) (\<lambda>n. replicate (nat n) (KeptPtr (bench_reason h))) (\<lambda>m v. True)"
proof -
  note law = context_lawD [OF assms(2)] and node = context_nodes [OF assms(2)] and known = known_answers [OF assms(2)]
  have nil: "fst (ctx_with_cancel L bg m) \<noteq> 0" "fst (ctx_with_cancel_cause L bg m) \<noteq> 0" "fst (ctx_with_value L bg k x m) \<noteq> 0"
    for m k x using assms(3) by (simp_all add: never_nil_def)
  show "triple (\<lambda>m v. True) (err_body h L) (\<lambda>n. replicate (nat n) (KeptPtr 0)) (\<lambda>m v. True)"
    unfolding err_body_def asking_def
    by (rule row_background [OF assms(2)], rule row_node_in [where S = "\<lambda>s e. e = 0", OF node(2) nil(1)], simp add: law,
      rule timed_row [OF assms(1) known(2) releasing(2)])
  show "triple (\<lambda>m v. True) (value_shallow_body h L) (\<lambda>n. replicate (nat n) (KeptPtr (VALUE h))) (\<lambda>m v. True)"
    unfolding value_shallow_body_def
    by (rule row_background [OF assms(2)], rule row_node_in [where S = "\<lambda>s e. s KEY_ONE = Some (VALUE h)", OF node(4) nil(3)], simp,
      rule timed_row [OF assms(1) known(3) releasing(1)])
  show "triple (\<lambda>m v. True) (cause_body h L) (\<lambda>n. replicate (nat n) (KeptPtr (bench_reason h))) (\<lambda>m v. True)"
    unfolding cause_body_def
  proof (rule row_background [OF assms(2)], rule row_node_in [where S = "\<lambda>s e. e = 0", OF node(3) nil(2)])
    fix c
    have cancel: "triple (\<lambda>m v. alive (tree m) c \<and> over m c = 0) (call_op (ctx_cancel_cause L c (bench_reason h))) (\<lambda>n. [])
        (\<lambda>m v. alive (tree m) c \<and> over m c = bench_reason h)"
      by (rule row_call_op) (simp add: law)
    show "triple (\<lambda>m v. alive (tree m) c \<and> over m c = 0) (if c = 0 then Some else block [call_op (ctx_cancel_cause L c (bench_reason h)),
        resuming h, bench_loop (\<lambda>_. calling (ctx_cause L c) keep), pausing h, call_op (ctx_release L c)])
        (\<lambda>n. replicate (nat n) (KeptPtr (bench_reason h))) (\<lambda>m v. True)"
      using row_then [OF cancel timed_row [OF assms(1) known(1) releasing(1)]]
      by (cases "c = 0") (simp_all add: row_false alive_def del: block.simps)
  qed (simp add: law)
qed

text \<open>
  C6. Functional: what the questions answer when no allocation fails. The error of a live context is nil, a value is
  found on the context that has it and below seven others, a key that nobody put in is not, and the cause of a
  cancelled context is the reason it was cancelled with.
\<close>
theorem context_rows_answer:
  fixes w :: "'m process world"
  assumes "host_ok h" and "context_law L bg tree held over" and "never_nil L bg tree"
    and "(f, x) \<in> {(bench_context_err_live h R L, 0), (bench_context_value_shallow h R L, VALUE h),
      (bench_context_value_deep h R L, VALUE h), (bench_context_value_miss h R L, 0),
      (bench_context_cause h R L, bench_reason h)}"
  shows "\<exists>w'. f w = Some w' \<and> kept w' = kept w @ replicate (nat (b_n (bch w))) (KeptPtr x)"
proof -
  let ?any = "\<lambda>m v. True"
  have whole: "\<exists>w'. run_main h R s w = Some w' \<and> kept w' = kept w @ replicate (nat (b_n (bch w))) (KeptPtr x)"
    if "triple ?any s (\<lambda>n. replicate (nat n) (KeptPtr x)) ?any" for s x
  proof -
    from row_runtime [where P = ?any and Q = ?any and look = "\<lambda>m. ()", OF _ that]
    have "triple ?any (run_main h R s) (\<lambda>n. replicate (nat n) (KeptPtr x)) ?any"
      unfolding run_main_def by (intro row_then [OF row_timer(1) [OF assms(1)] row_end]) (simp add: runtime_keeps_def)
    from rowD [OF this, of w] show ?thesis by auto
  qed
  have "triple ?any (value_deep_body h L) (\<lambda>n. replicate (nat n) (KeptPtr (VALUE h))) ?any"
    unfolding value_deep_body_def by (rule walking_answers [OF assms(1-3) known_answers(4) [OF assms(2)]])
  moreover have "triple ?any (value_miss_body h L) (\<lambda>n. replicate (nat n) (KeptPtr 0)) ?any"
    unfolding value_miss_body_def by (rule walking_answers [OF assms(1-3) known_answers(5) [OF assms(2)]])
  ultimately show ?thesis using assms(4) whole single_answers [OF assms(1-3)] unfolding context_rows by auto
qed

section \<open>Contexts that keep the promise\<close>

text \<open>A list of nodes with their parents, values and causes; the root is \<open>1\<close>.\<close>

type_synonym nodes = "(nat \<times> nat \<times> (int \<rightharpoonup> nat) \<times> nat) list"

definition tree_of :: "nodes \<Rightarrow> nat \<rightharpoonup> nat" where
  "tree_of m = (map_of (map (\<lambda>(c, p, v, e). (c, p)) m))(1 := None)"

definition held_by :: "nodes \<Rightarrow> nat \<Rightarrow> int \<rightharpoonup> nat" where
  "held_by m c = (if c = 1 then Map.empty else case map_of (map (\<lambda>(c, p, v, e). (c, v)) m) c of None \<Rightarrow> Map.empty | Some v \<Rightarrow> v)"

definition over_of :: "nodes \<Rightarrow> nat \<Rightarrow> nat" where
  "over_of m c = (if c = 1 then 0 else case map_of (map (\<lambda>(c, p, v, e). (c, e)) m) c of None \<Rightarrow> 0 | Some e \<Rightarrow> e)"

definition new_node :: "nat \<Rightarrow> (int \<rightharpoonup> nat) \<Rightarrow> nat \<Rightarrow> (nat, nodes) op" where
  "new_node p v e m = (let c = 2 + sum_list (map (\<lambda>(c, p, v, e). c + p) m) in (c, 1, (c, p, v, e) # m))"

definition cancel_node :: "nat \<Rightarrow> nat \<Rightarrow> nodes \<Rightarrow> nodes" where
  "cancel_node c x m = map (\<lambda>(d, p, v, e). (d, p, v, if d = c \<and> e = 0 then x else e)) m"

definition free_node :: "nat \<Rightarrow> nodes \<Rightarrow> nodes" where
  "free_node c m = (if c = 0 then m else filter (\<lambda>(d, p, v, e). d \<noteq> c) m)"

definition ref_contexts :: "nodes context_lib" where
  "ref_contexts = \<lparr>ctx_background = (\<lambda>m. (1, 1, m)),
     ctx_with_cancel = (\<lambda>p m. new_node p (held_by m p) (over_of m p) m),
     ctx_with_cancel_cause = (\<lambda>p m. new_node p (held_by m p) (over_of m p) m),
     ctx_with_timeout = (\<lambda>p t m. new_node p (held_by m p) (if t = 0 then 1 else over_of m p) m),
     ctx_with_value = (\<lambda>p k v m. new_node p ((held_by m p)(k \<mapsto> v)) (over_of m p) m),
     ctx_without_cancel = (\<lambda>p m. new_node p (held_by m p) 0 m),
     ctx_after_func = (\<lambda>p m. new_node p (held_by m p) (over_of m p) m),
     ctx_cancel = (\<lambda>c m. ((), 1, cancel_node c 1 m)), ctx_cancel_cause = (\<lambda>c e m. ((), 1, cancel_node c e m)),
     ctx_stop = (\<lambda>c m. (over_of m c = 0, 1, cancel_node c 1 m)), ctx_done = (\<lambda>c m. (c, 1, m)),
     ctx_err = (\<lambda>c m. (over_of m c, 1, m)), ctx_cause = (\<lambda>c m. (over_of m c, 1, m)),
     ctx_value = (\<lambda>c k m. (case held_by m c k of None \<Rightarrow> (0, 0) | Some v \<Rightarrow> (1, v), 1, m)),
     ctx_release = (\<lambda>c m. ((), 1, free_node c m))\<rparr>"

lemma new_node_makes: "makes_node 1 tree_of held_by over_of (\<lambda>m. new_node p (values m) (cause m) m) p values cause"
proof -
  let ?sum = "\<lambda>m :: nodes. sum_list (map (\<lambda>(c, p, v, e). c + p) m)"
  have below: "tree_of m c = Some p \<Longrightarrow> c \<le> ?sum m \<and> p \<le> ?sum m" for m c p
    by (induction m) (auto simp: tree_of_def split: if_splits)
  have "tree_of m (2 + ?sum m) = None" "2 + ?sum m \<notin> ran (tree_of m)" for m
    using below [of m "2 + ?sum m"] below [of m _ "2 + ?sum m"]
    by (cases "tree_of m (2 + ?sum m)"; force simp: ran_def)+
  then show ?thesis
    by (auto simp: makes_node_def new_node_def Let_def tree_of_def held_by_def over_of_def fun_eq_iff)
qed

lemma cancel_node_keeps: "tree_of (cancel_node c x m) = tree_of m" "held_by (cancel_node c x m) = held_by m"
    "tree_of m c \<noteq> None \<Longrightarrow> over_of m c = 0 \<Longrightarrow> over_of (cancel_node c x m) c = x"
  by (induction m) (auto simp: cancel_node_def tree_of_def held_by_def over_of_def fun_eq_iff split: if_splits)

lemma free_node_tree: "c \<noteq> 0 \<Longrightarrow> tree_of (free_node c m) = (tree_of m)(c := None)"
proof -
  assume "c \<noteq> 0"
  have "map_of (map (\<lambda>(c, p, v, e). (c, p)) (filter (\<lambda>(d, p, v, e). d \<noteq> c) m)) = (map_of (map (\<lambda>(c, p, v, e). (c, p)) m))(c := None)"
    by (induction m) (auto simp: fun_eq_iff)
  with \<open>c \<noteq> 0\<close> show ?thesis by (auto simp: free_node_def tree_of_def fun_eq_iff)
qed

lemma ref_contexts_law: "context_law ref_contexts 1 tree_of held_by over_of"
proof -
  have "makes_node 1 tree_of held_by over_of (\<lambda>m. new_node p (held_by m p) (over_of m p) m) p (\<lambda>m. held_by m p) (\<lambda>m. over_of m p)"
    "makes_node 1 tree_of held_by over_of (\<lambda>m. new_node p ((held_by m p)(k \<mapsto> v)) (over_of m p) m) p
      (\<lambda>m. (held_by m p)(k \<mapsto> v)) (\<lambda>m. over_of m p)"
    "makes_node 1 tree_of held_by over_of (\<lambda>m. new_node p (held_by m p) 0 m) p (\<lambda>m. held_by m p) (\<lambda>m. 0)"
    "\<exists>cause. makes_node 1 tree_of held_by over_of (\<lambda>m. new_node p (held_by m p) (if t = 0 then 1 else over_of m p) m) p
      (\<lambda>m. held_by m p) cause" for p k v t
    by ((rule exI)?, rule new_node_makes)+
  moreover have root_node: "held_by m 1 = Map.empty" "over_of m 1 = 0" for m
    by (simp_all add: held_by_def over_of_def)
  moreover have "alive (tree_of m) c \<Longrightarrow> over_of m c = 0 \<Longrightarrow> over_of (cancel_node c e m) c = e"
    "alive (tree_of m) c \<Longrightarrow> tree_of (free_node c m) = (tree_of m)(c := None)" for c e m
    by (simp_all add: alive_def cancel_node_keeps free_node_tree)
  ultimately show ?thesis
    by (simp add: context_law_def ref_contexts_def Let_def cancel_node_keeps(1,2)) blast
qed

lemma ref_contexts_never_nil: "never_nil ref_contexts 1 tree_of"
  by (simp add: never_nil_def ref_contexts_def new_node_def Let_def)

theorem context_rows_give_back_witness:
  "\<exists>w'. bench_context_cancel_tree (exact_host length (\<lambda>x. 0)) plain_procs ref_contexts (row_world 3 []) = Some w'
     \<and> tree_of (machine (rest w')) = Map.empty"
proof -
  have "(''context_cancel_tree'', bench_context_cancel_tree h R L) \<in> set (context_table h R L)"
    for h :: "nodes host" and R L by (simp add: context_table_def)
  from context_rows_give_back [OF exact_host_ok ref_contexts_law plain_procs_keep this disjI1 [OF ref_contexts_never_nil],
      of length "\<lambda>x. 0" "row_world 3 []"]
  show ?thesis by (simp add: tree_of_def fun_eq_iff)
qed

theorem context_rows_answer_witness:
  "\<exists>w'. bench_context_value_deep (exact_host length (\<lambda>x. 0)) plain_procs ref_contexts (row_world 2 []) = Some w'
     \<and> kept w' = [KeptPtr 7, KeptPtr 7]"
  using context_rows_answer [OF exact_host_ok ref_contexts_law ref_contexts_never_nil, of _ _ length "\<lambda>x. 0" plain_procs "row_world 2 []"]
  by (force simp: VALUE_def numeral_2_eq_2)

end
