(* ===== verification/Timer_Bench.thy ===== *)
theory Timer_Bench
  imports Row_Logic Arena_Lib
begin

text \<open>
  \<open>bench/timer_bench.c\<close>: timers that are armed and cancelled, and a thousand that fire. A callback
  runs on a goroutine of its own, so it runs while the main goroutine yields.
\<close>

section \<open>What the file takes from burrow\<close>

text \<open>
  \<open>time_after_func\<close> is given the delay and returns the address of the timer, \<open>0\<close> for \<open>NULL\<close>; the callback
  is \<open>on_fire\<close> and the memory is the arena's in every row. \<open>gosched_fires\<close> is \<open>runtime_gosched\<close>, and
  returns how many callbacks ran before it came back.
\<close>

record 'm timer_lib =
  time_after_func :: "int \<Rightarrow> (nat, 'm) op"
  time_timer_stop :: "nat \<Rightarrow> (bool, 'm) op"
  time_timer_reset :: "nat \<Rightarrow> int \<Rightarrow> (bool, 'm) op"
  time_timer_free :: "nat \<Rightarrow> (unit, 'm) op"
  time_sleep :: "int \<Rightarrow> (unit, 'm) op"
  gosched_fires :: "(nat, 'm) op"

definition TIME_MILLISECOND :: int where "TIME_MILLISECOND = 1000000"

text \<open>\<open>TIME_HOUR\<close>.\<close>

definition NEVER :: int where "NEVER = 3600000000000"

text \<open>\<open>run_with_one_p\<close> of this file.\<close>

definition one_p_with_arena :: "'m host \<Rightarrow> 'm runtime_lib \<Rightarrow> 'm arena_lib \<Rightarrow> 'm cstmt \<Rightarrow> 'm cstmt" where
  "one_p_with_arena h R A body = block [
     pausing h,
     call_op (arena_init A (addr h ''timer_arena'')),
     calling (gomaxprocs R 1) (\<lambda>old. block [runtime_main R body, call_op (gomaxprocs R old)]),
     call_op (arena_free A (addr h ''timer_arena''))]"

text \<open>The atomic sum on the 32-bit counter.\<close>

definition on_fire :: "'m cstmt" where
  "on_fire = reading (\<lambda>p. int_var p ''fired'') (\<lambda>c. set_int ''fired'' ((c + 1) mod 2 ^ 32))"

section \<open>Timers that never fire\<close>

text \<open>A round that leaves the loop when there is no timer.\<close>

definition arm_stop_round :: "'m timer_lib \<Rightarrow> int \<Rightarrow> 'm process world \<Rightarrow> (bool \<times> 'm process world) option" where
  "arm_stop_round T i w = (let (t, w) = call (lib (time_after_func T NEVER)) w in
     if t = 0 then Some (False, w)
     else do { w \<leftarrow> block [call_op (time_timer_stop T t), call_op (time_timer_free T t)] w; Some (True, w) })"

definition arm_stop_body :: "'m host \<Rightarrow> 'm timer_lib \<Rightarrow> 'm cstmt" where
  "arm_stop_body h T = block [resuming h, bench_loop_break (arm_stop_round T), pausing h]"

definition bench_timer_arm_stop :: "'m host \<Rightarrow> 'm runtime_lib \<Rightarrow> 'm arena_lib \<Rightarrow> 'm timer_lib \<Rightarrow> 'm cstmt" where
  "bench_timer_arm_stop h R A T = one_p_with_arena h R A (arm_stop_body h T)"

definition reset_and_stop :: "'m host \<Rightarrow> 'm timer_lib \<Rightarrow> nat \<Rightarrow> 'm cstmt" where
  "reset_and_stop h T t = block [
     call_op (time_timer_stop T t),
     resuming h,
     bench_loop (\<lambda>_. block [call_op (time_timer_reset T t NEVER), call_op (time_timer_stop T t)]),
     pausing h,
     call_op (time_timer_free T t)]"

definition reset_stop_body :: "'m host \<Rightarrow> 'm timer_lib \<Rightarrow> 'm cstmt" where
  "reset_stop_body h T = calling (time_after_func T NEVER) (\<lambda>t. if t = 0 then Some else reset_and_stop h T t)"

definition bench_timer_reset_stop :: "'m host \<Rightarrow> 'm runtime_lib \<Rightarrow> 'm arena_lib \<Rightarrow> 'm timer_lib \<Rightarrow> 'm cstmt" where
  "bench_timer_reset_stop h R A T = one_p_with_arena h R A (reset_stop_body h T)"

definition DEEP :: nat where "DEEP = 1000"

text \<open>
  The loop that fills an array with timers, \<open>each\<close> being what is done with one before the next; a
  failure returns from the body.
\<close>

fun arm_timers :: "'m timer_lib \<Rightarrow> (nat \<Rightarrow> 'm cstmt) \<Rightarrow> nat \<Rightarrow> nat list \<Rightarrow> (nat list \<Rightarrow> 'm cstmt) \<Rightarrow> 'm cstmt" where
  "arm_timers T each 0 ts k = k ts"
| "arm_timers T each (Suc j) ts k = calling (time_after_func T NEVER) (\<lambda>t.
     if t = 0 then Some else block [each t, arm_timers T each j (ts @ [t]) k])"

definition free_timers :: "'m timer_lib \<Rightarrow> nat list \<Rightarrow> 'm cstmt" where
  "free_timers T ts = block (map (\<lambda>t. call_op (time_timer_free T t)) ts)"

definition reset_stop_deep_body :: "'m host \<Rightarrow> 'm timer_lib \<Rightarrow> 'm cstmt" where
  "reset_stop_deep_body h T = arm_timers T (\<lambda>_. Some) DEEP [] (\<lambda>deep.
     calling (time_after_func T NEVER) (\<lambda>t. if t = 0 then Some else block [reset_and_stop h T t, free_timers T deep]))"

definition bench_timer_reset_stop_deep :: "'m host \<Rightarrow> 'm runtime_lib \<Rightarrow> 'm arena_lib \<Rightarrow> 'm timer_lib \<Rightarrow> 'm cstmt" where
  "bench_timer_reset_stop_deep h R A T = one_p_with_arena h R A (reset_stop_deep_body h T)"

section \<open>Sleeping and firing\<close>

definition sleep_body :: "'m host \<Rightarrow> 'm timer_lib \<Rightarrow> 'm cstmt" where
  "sleep_body h T = block [resuming h, bench_loop (\<lambda>_. call_op (time_sleep T TIME_MILLISECOND)), pausing h]"

definition bench_timer_sleep_1ms :: "'m host \<Rightarrow> 'm runtime_lib \<Rightarrow> 'm arena_lib \<Rightarrow> 'm timer_lib \<Rightarrow> 'm cstmt" where
  "bench_timer_sleep_1ms h R A T = one_p_with_arena h R A (sleep_body h T)"

definition BURST :: nat where "BURST = 1000"

text \<open>\<open>while (fired < BURST) runtime_gosched();\<close>\<close>

definition await_fired :: "'m timer_lib \<Rightarrow> 'm cstmt" where
  "await_fired T = while_loop (\<lambda>w. int_var (rest w) ''fired'' < int BURST)
     (calling (gosched_fires T) (\<lambda>k. repeat_for k (\<lambda>_. on_fire)))"

definition fire_round :: "'m host \<Rightarrow> 'm timer_lib \<Rightarrow> nat list \<Rightarrow> 'm cstmt" where
  "fire_round h T burst = block [
     set_int ''fired'' 0,
     resuming h,
     repeat_for BURST (\<lambda>i. call_op (time_timer_reset T (burst ! nat i) 0)),
     await_fired T,
     pausing h]"

definition burst_body :: "'m host \<Rightarrow> 'm timer_lib \<Rightarrow> 'm cstmt" where
  "burst_body h T = arm_timers T (\<lambda>t. call_op (time_timer_stop T t)) BURST [] (\<lambda>burst. block [
     bench_loop (\<lambda>_. fire_round h T burst),
     free_timers T burst])"

definition bench_timer_fire_burst :: "'m host \<Rightarrow> 'm runtime_lib \<Rightarrow> 'm arena_lib \<Rightarrow> 'm timer_lib \<Rightarrow> 'm cstmt" where
  "bench_timer_fire_burst h R A T = block [
     one_p_with_arena h R A (burst_body h T),
     reading (\<lambda>p. int_var p ''fired'') keep_int]"

definition timer_table :: "'m host \<Rightarrow> 'm runtime_lib \<Rightarrow> 'm arena_lib \<Rightarrow> 'm timer_lib \<Rightarrow> (string \<times> 'm cstmt) list" where
  "timer_table h R A T = [
     (''timer_arm_stop'', bench_timer_arm_stop h R A T),
     (''timer_reset_stop'', bench_timer_reset_stop h R A T),
     (''timer_reset_stop_deep'', bench_timer_reset_stop_deep h R A T),
     (''timer_sleep_1ms'', bench_timer_sleep_1ms h R A T),
     (''timer_fire_burst'', bench_timer_fire_burst h R A T)]"

section \<open>The contract\<close>

lemma arm_stop_round_moves: "arm_stop_round T i w = Some (go, w') \<Longrightarrow> advances clock w w'"
proof -
  have "does (advances clock) (calling (time_after_func T NEVER) (\<lambda>t. if t = 0 then Some
      else block [call_op (time_timer_stop T t), call_op (time_timer_free T t)]))"
    by (auto intro!: contract_rules simp del: block.simps)
  moreover assume "arm_stop_round T i w = Some (go, w')"
  then have "calling (time_after_func T NEVER) (\<lambda>t. if t = 0 then Some
      else block [call_op (time_timer_stop T t), call_op (time_timer_free T t)]) w = Some w'"
    by (auto simp: arm_stop_round_def calling_def split_beta bind_eq_Some_conv split: if_splits simp del: block.simps)
  ultimately show ?thesis by (rule doesD)
qed

lemma free_timers_moves [contract_rules]: "does (advances clock) (free_timers T ts)"
  unfolding free_timers_def by (rule moving.block_rule) (auto intro: contract_rules)

lemma arm_timers_moves [contract_rules]:
  "(\<And>t. does (advances clock) (each t)) \<Longrightarrow> (\<And>ts. does (advances clock) (k ts)) \<Longrightarrow> does (advances clock) (arm_timers T each j ts k)"
  by (induction j arbitrary: ts) (auto intro!: contract_rules simp del: block.simps)

lemma timer_table_moves:
  assumes "host_ok h" and "(nm, f) \<in> set (timer_table h R A T)"
  shows "does (advances clock) f"
  using assms
  unfolding timer_table_def bench_timer_arm_stop_def bench_timer_reset_stop_def bench_timer_reset_stop_deep_def
    bench_timer_sleep_1ms_def bench_timer_fire_burst_def one_p_with_arena_def arm_stop_body_def reset_stop_body_def
    reset_stop_deep_body_def sleep_body_def burst_body_def reset_and_stop_def fire_round_def await_fired_def on_fire_def
  by (auto intro!: contract_rules loop_break_moves intro: arm_stop_round_moves simp: keep_value_moves simp del: block.simps)

section \<open>What timers promise\<close>

text \<open>
  \<open>live m\<close> are the timers that were made and not freed, \<open>due m\<close> those of them that are due and whose callback
  has not run. A yield runs at least one callback if one is due. A timer may be freed when it is not due. The
  runtime and the arena touch neither set.
\<close>

definition timer_law ::
  "'m timer_lib \<Rightarrow> 'm arena_lib \<Rightarrow> 'm runtime_lib \<Rightarrow> ('m \<Rightarrow> nat set) \<Rightarrow> ('m \<Rightarrow> nat set) \<Rightarrow> bool" where
  "timer_law T A R live due \<longleftrightarrow> runtime_keeps R (\<lambda>m. (live m, due m))
   \<and> (\<forall>p m. live (snd (snd (arena_init A p m))) = live m \<and> due (snd (snd (arena_init A p m))) = due m)
   \<and> (\<forall>p m. live (snd (snd (arena_free A p m))) = live m \<and> due (snd (snd (arena_free A p m))) = due m)
   \<and> (\<forall>d m. 0 < d \<longrightarrow> due (snd (snd (time_after_func T d m))) = due m
        \<and> (if fst (time_after_func T d m) = 0 then live (snd (snd (time_after_func T d m))) = live m
           else fst (time_after_func T d m) \<notin> live m
             \<and> live (snd (snd (time_after_func T d m))) = insert (fst (time_after_func T d m)) (live m)))
   \<and> (\<forall>t m. live (snd (snd (time_timer_stop T t m))) = live m \<and> due (snd (snd (time_timer_stop T t m))) = due m - {t})
   \<and> (\<forall>t d m. live (snd (snd (time_timer_reset T t d m))) = live m
        \<and> due (snd (snd (time_timer_reset T t d m))) = (if 0 < d then due m - {t} else insert t (due m)))
   \<and> (\<forall>t m. t \<in> live m \<and> t \<notin> due m \<longrightarrow> live (snd (snd (time_timer_free T t m))) = live m - {t}
        \<and> due (snd (snd (time_timer_free T t m))) = due m)
   \<and> (\<forall>d m. due m = {} \<longrightarrow> live (snd (snd (time_sleep T d m))) = live m \<and> due (snd (snd (time_sleep T d m))) = {})
   \<and> (\<forall>m. live (snd (snd (gosched_fires T m))) = live m \<and> due (snd (snd (gosched_fires T m))) \<subseteq> due m
        \<and> (finite (due m) \<longrightarrow> card (due m) = card (due (snd (snd (gosched_fires T m)))) + fst (gosched_fires T m))
        \<and> (due m \<noteq> {} \<longrightarrow> 0 < fst (gosched_fires T m)))"

lemma timer_lawD:
  assumes "timer_law T A R live due"
  shows "runtime_keeps R (\<lambda>m. (live m, due m))"
    "live (snd (snd (arena_init A p m))) = live m" "due (snd (snd (arena_init A p m))) = due m"
    "live (snd (snd (arena_free A p m))) = live m" "due (snd (snd (arena_free A p m))) = due m"
    "due (snd (snd (time_after_func T NEVER m))) = due m"
    "fst (time_after_func T NEVER m) = 0 \<Longrightarrow> live (snd (snd (time_after_func T NEVER m))) = live m"
    "fst (time_after_func T NEVER m) \<noteq> 0 \<Longrightarrow> fst (time_after_func T NEVER m) \<notin> live m
      \<and> live (snd (snd (time_after_func T NEVER m))) = insert (fst (time_after_func T NEVER m)) (live m)"
    "live (snd (snd (time_timer_stop T t m))) = live m" "due (snd (snd (time_timer_stop T t m))) = due m - {t}"
    "live (snd (snd (time_timer_reset T t d m))) = live m"
    "due (snd (snd (time_timer_reset T t d m))) = (if 0 < d then due m - {t} else insert t (due m))"
    "t \<in> live m \<Longrightarrow> t \<notin> due m \<Longrightarrow> live (snd (snd (time_timer_free T t m))) = live m - {t}"
    "t \<in> live m \<Longrightarrow> t \<notin> due m \<Longrightarrow> due (snd (snd (time_timer_free T t m))) = due m"
    "due m = {} \<Longrightarrow> live (snd (snd (time_sleep T d m))) = live m" "due m = {} \<Longrightarrow> due (snd (snd (time_sleep T d m))) = {}"
    "live (snd (snd (gosched_fires T m))) = live m" "due (snd (snd (gosched_fires T m))) \<subseteq> due m"
    "finite (due m) \<Longrightarrow> card (due m) = card (due (snd (snd (gosched_fires T m)))) + fst (gosched_fires T m)"
    "due m \<noteq> {} \<Longrightarrow> 0 < fst (gosched_fires T m)"
  using assms by (simp_all add: timer_law_def NEVER_def)

text \<open>Over the timers \<open>L\<close> that were there before, exactly \<open>ts\<close> are live and none is due.\<close>

definition over_base :: "nat set \<Rightarrow> nat list \<Rightarrow> nat set \<Rightarrow> nat set \<Rightarrow> bool" where
  "over_base L ts l d \<longleftrightarrow> l = L \<union> set ts \<and> distinct ts \<and> L \<inter> set ts = {} \<and> d = {}"

lemma made_over:
  assumes "timer_law T A R live due" and "over_base L ts (live m) (due m)"
  shows "over_base L (if fst (time_after_func T NEVER m) = 0 then ts else ts @ [fst (time_after_func T NEVER m)])
    (live (snd (snd (time_after_func T NEVER m)))) (due (snd (snd (time_after_func T NEVER m))))"
  using timer_lawD(6-8) [OF assms(1), of m] assms(2) by (auto simp: over_base_def)

lemma over_base_front: "over_base L (ts @ [t]) l d \<longleftrightarrow> over_base L (t # ts) l d"
  by (auto simp: over_base_def)

lemma timer_calls:
  assumes "timer_law T A R live due"
  shows "triple (\<lambda>m v. over_base L ts (live m) (due m)) (call_op (time_timer_stop T t)) (\<lambda>n. []) (\<lambda>m v. over_base L ts (live m) (due m))"
    "triple (\<lambda>m v. over_base L ts (live m) (due m)) (call_op (time_timer_reset T t NEVER)) (\<lambda>n. []) (\<lambda>m v. over_base L ts (live m) (due m))"
    "triple (\<lambda>m v. over_base L ts (live m) (due m)) (call_op (time_sleep T z)) (\<lambda>n. []) (\<lambda>m v. over_base L ts (live m) (due m))"
    "triple (\<lambda>m v. over_base L (t # ts) (live m) (due m)) (call_op (time_timer_free T t)) (\<lambda>n. []) (\<lambda>m v. over_base L ts (live m) (due m))"
  by (rule row_call_op, use timer_lawD [OF assms] in \<open>auto simp: over_base_def NEVER_def\<close>)+

lemma free_timers_row:
  assumes "timer_law T A R live due"
  shows "triple (\<lambda>m v. over_base L ts (live m) (due m)) (free_timers T ts) (\<lambda>n. []) (\<lambda>m v. over_base L [] (live m) (due m))"
proof (induction ts)
  case (Cons t ts)
  show ?case unfolding free_timers_def list.map
    by (rule row_then [OF timer_calls(4) [OF assms] Cons.IH [unfolded free_timers_def]])
qed (simp add: free_timers_def row_Some)

lemma reset_and_stop_row:
  assumes "host_ok h" and "timer_law T A R live due"
  shows "triple (\<lambda>m v. over_base L (t # ts) (live m) (due m)) (reset_and_stop h T t) (\<lambda>n. []) (\<lambda>m v. over_base L ts (live m) (due m))"
  unfolding reset_and_stop_def
  by (rule row_then [OF timer_calls(1) [OF assms(2)] row_then [OF row_timer(2) [OF assms(1)]
    row_then [OF row_loop_none [OF row_then [OF timer_calls(2) [OF assms(2)] row_end [OF timer_calls(1) [OF assms(2)]]]]
      row_then [OF row_timer(1) [OF assms(1)] row_end [OF timer_calls(4) [OF assms(2)]]]]]])

text \<open>The filling loops, when no allocation fails.\<close>

lemma arm_timers_at:
  assumes "timer_law T A R live due" and "\<And>m. fst (time_after_func T NEVER m) \<noteq> 0"
    and "\<And>t ts. triple (\<lambda>m v. over_base L ts (live m) (due m)) (each t) (\<lambda>n. []) (\<lambda>m v. over_base L ts (live m) (due m))"
    and "\<And>ts'. length ts' = length ts + j \<Longrightarrow> row_at n (\<lambda>m v. over_base L ts' (live m) (due m)) (k ts') l Q"
  shows "row_at n (\<lambda>m v. over_base L ts (live m) (due m)) (arm_timers T each j ts k) l Q"
  using assms(4)
proof (induction j arbitrary: ts)
  case (Suc j)
  show ?case unfolding arm_timers.simps
  proof (rule at_calling [where R = "\<lambda>t m v. t \<noteq> 0 \<and> over_base L (ts @ [t]) (live m) (due m)"])
    show "fst (time_after_func T NEVER m) \<noteq> 0 \<and> over_base L (ts @ [fst (time_after_func T NEVER m)])
        (live (snd (snd (time_after_func T NEVER m)))) (due (snd (snd (time_after_func T NEVER m))))"
      if "over_base L ts (live m) (due m)" for m and v :: "string \<Rightarrow> int"
      using made_over [OF assms(1) that] assms(2) [of m] by simp
    have next_one: "row_at n (\<lambda>m v. over_base L (ts @ [t]) (live m) (due m)) (block [each t, arm_timers T each j (ts @ [t]) k]) l Q" for t
      using Suc.IH [of "ts @ [t]"] Suc.prems by (intro at_then [OF assms(3)]) simp
    show "row_at n (\<lambda>m v. t \<noteq> 0 \<and> over_base L (ts @ [t]) (live m) (due m))
        (if t = 0 then Some else block [each t, arm_timers T each j (ts @ [t]) k]) l Q" for t
      using next_one [of t] by (cases "t = 0") (simp_all add: row_at_def holds_in_def del: block.simps)
  qed
qed simp

lemma arena_at:
  assumes "host_ok h" and "timer_law T A R live due"
    and "row_at n (\<lambda>m v. P (live m, due m) v) body k (\<lambda>m v. Q (live m, due m) v)"
  shows "row_at n (\<lambda>m v. P (live m, due m) v) (one_p_with_arena h R A body) k (\<lambda>m v. Q (live m, due m) v)"
proof -
  note law = timer_lawD [OF assms(2)]
  have "triple (\<lambda>m v. P (live m, due m) v) (call_op (arena_init A (addr h ''timer_arena''))) (\<lambda>n. []) (\<lambda>m v. P (live m, due m) v)"
    "triple (\<lambda>m v. Q (live m, due m) v) (call_op (arena_free A (addr h ''timer_arena''))) (\<lambda>n. []) (\<lambda>m v. Q (live m, due m) v)"
    by (rule row_call_op; simp add: law)+
  then show ?thesis unfolding one_p_with_arena_def
    by (intro at_then [OF row_timer(1) [OF assms(1)] at_then [OF _ at_last [OF at_runtime [OF law(1) assms(3)] row_end]]])
qed

section \<open>A burst\<close>

lemma on_fire_row:
  "0 \<le> c \<Longrightarrow> c < 1000 \<Longrightarrow> triple (\<lambda>m v. P m \<and> v ''fired'' = c) on_fire (\<lambda>n. []) (\<lambda>m v. P m \<and> v ''fired'' = c + 1)"
  unfolding on_fire_def by (rule row_reading_at [where i = c], simp, rule row_set_int) simp

text \<open>The callbacks that have run and the timers that are still due make up the burst.\<close>

lemma await_fired_row:
  assumes "timer_law T A R live due" and "finite (set ts)"
  shows "triple (\<lambda>m v. live m = l \<and> due m \<subseteq> set ts \<and> 0 \<le> v ''fired'' \<and> v ''fired'' + int (card (due m)) = int BURST)
    (await_fired T) (\<lambda>n. []) (\<lambda>m v. live m = l \<and> due m = {} \<and> v ''fired'' = int BURST)"
proof -
  note law = timer_lawD [OF assms(1)]
  let ?P = "\<lambda>m v. live m = l \<and> due m \<subseteq> set ts \<and> 0 \<le> v ''fired'' \<and> v ''fired'' + int (card (due m)) = int BURST"
  have "triple ?P (await_fired T) (\<lambda>n. []) (\<lambda>m v. ?P m v \<and> \<not> v ''fired'' < int BURST)"
    unfolding await_fired_def
  proof (rule row_while [where c = "\<lambda>v. v ''fired'' < int BURST" and size_left = "\<lambda>m v. card (due m)"])
    fix z
    let ?R = "\<lambda>k m v. live m = l \<and> due m \<subseteq> set ts \<and> 0 \<le> v ''fired'' \<and> v ''fired'' + int k + int (card (due m)) = int BURST
      \<and> card (due m) < z"
    show "triple (\<lambda>m v. ?P m v \<and> v ''fired'' < int BURST \<and> card (due m) = z) (calling (gosched_fires T) (\<lambda>k. repeat_for k (\<lambda>_. on_fire)))
        (\<lambda>n. []) (\<lambda>m v. ?P m v \<and> card (due m) < z)"
    proof (rule row_calling [where R = ?R])
      fix m :: 'a and v :: "string \<Rightarrow> int" assume b: "?P m v \<and> v ''fired'' < int BURST \<and> card (due m) = z"
      then have fin: "finite (due m)" "due m \<noteq> {}" using assms(2) finite_subset by fastforce+
      from law(17,18) [of m] law(19) [OF fin(1)] law(20) [OF fin(2)] b
      show "?R (fst (gosched_fires T m)) (snd (snd (gosched_fires T m))) v" by auto
    next
      fix k
      let ?S = "\<lambda>(c :: int) m. live m = l \<and> due m \<subseteq> set ts \<and> 0 \<le> c \<and> c + int k + int (card (due m)) = int BURST \<and> card (due m) < z"
      have fires: "triple (\<lambda>m v. ?S c m \<and> v ''fired'' = c + int 0) (repeat_for k (\<lambda>_. on_fire)) (\<lambda>n. []) (\<lambda>m v. ?S c m \<and> v ''fired'' = c + int k)" for c :: int
      proof (rule row_for [where I = "\<lambda>j m v. ?S c m \<and> v ''fired'' = c + int j"])
        fix j assume "j < k"
        show "triple (\<lambda>m v. ?S c m \<and> v ''fired'' = c + int j) on_fire (\<lambda>n. []) (\<lambda>m v. ?S c m \<and> v ''fired'' = c + int (Suc j))"
        proof (cases "0 \<le> c \<and> c + int k \<le> int BURST")
          case True
          with \<open>j < k\<close> show ?thesis
            using on_fire_row [of "c + int j" "?S c"] by (simp add: BURST_def add.commute add.left_commute)
        qed (rule row_false, auto)
      qed
      have "triple (\<lambda>m v. ?R k m v \<and> v ''fired'' = c) (repeat_for k (\<lambda>_. on_fire)) (\<lambda>n. []) (\<lambda>m v. ?P m v \<and> card (due m) < z)" for c :: int
        by (rule row_conseq [OF fires [of c]]) auto
      then show "triple (?R k) (repeat_for k (\<lambda>_. on_fire)) (\<lambda>n. []) (\<lambda>m v. ?P m v \<and> card (due m) < z)"
        by (auto simp: triple_def holds_in_def)
    qed
  qed
  then show ?thesis
  proof (rule row_post)
    fix m v assume b: "?P m v \<and> \<not> v ''fired'' < int BURST"
    then have "finite (due m)" using finite_subset [OF _ assms(2)] by blast
    moreover from b have "card (due m) = 0" by linarith
    ultimately show "live m = l \<and> due m = {} \<and> v ''fired'' = int BURST" using b by simp
  qed
qed

lemma fire_round_row:
  assumes "host_ok h" and "timer_law T A R live due" and "length ts = BURST"
  shows "triple (\<lambda>m v. over_base L ts (live m) (due m)) (fire_round h T ts) (\<lambda>n. [])
    (\<lambda>m v. over_base L ts (live m) (due m) \<and> v ''fired'' = int BURST)"
proof (cases "distinct ts")
  case True
  note law = timer_lawD [OF assms(2)]
  let ?I = "\<lambda>j m v. over_base L ts (live m) {} \<and> due m = set (take j ts) \<and> v ''fired'' = 0"
  have "triple (?I 0) (repeat_for BURST (\<lambda>i. call_op (time_timer_reset T (ts ! nat i) 0))) (\<lambda>n. []) (?I BURST)"
  proof (rule row_for)
    fix j assume "j < BURST"
    then show "triple (?I j) (call_op (time_timer_reset T (ts ! nat (int j)) 0)) (\<lambda>n. []) (?I (Suc j))"
      using assms(3) by (intro row_call_op) (auto simp: law take_Suc_conv_app_nth)
  qed
  then have reset: "triple (?I 0) (repeat_for BURST (\<lambda>i. call_op (time_timer_reset T (ts ! nat i) 0))) (\<lambda>n. [])
      (\<lambda>m v. live m = L \<union> set ts \<and> due m \<subseteq> set ts \<and> 0 \<le> v ''fired'' \<and> v ''fired'' + int (card (due m)) = int BURST)"
    by (rule row_post) (use assms(3) True in \<open>auto simp: over_base_def distinct_card\<close>)
  have await: "triple (\<lambda>m v. live m = L \<union> set ts \<and> due m \<subseteq> set ts \<and> 0 \<le> v ''fired'' \<and> v ''fired'' + int (card (due m)) = int BURST)
      (await_fired T) (\<lambda>n. []) (\<lambda>m v. live m = L \<union> set ts \<and> due m = {} \<and> v ''fired'' = int BURST)"
    by (rule await_fired_row [OF assms(2)]) simp
  have "triple (\<lambda>m v. over_base L ts (live m) (due m) \<and> L \<inter> set ts = {}) (fire_round h T ts) (\<lambda>n. [])
      (\<lambda>m v. live m = L \<union> set ts \<and> due m = {} \<and> v ''fired'' = int BURST)"
    unfolding fire_round_def
    by (rule row_then [where Q = "?I 0"], rule row_set_int, simp add: over_base_def,
      rule row_then [OF row_timer(2) [OF assms(1)] row_then [OF reset row_then [OF await row_end [OF row_timer(1) [OF assms(1)]]]]])
  from row_conseq [OF this] have "L \<inter> set ts = {} \<Longrightarrow> ?thesis"
    using True by (auto simp: over_base_def)
  moreover have "L \<inter> set ts \<noteq> {} \<Longrightarrow> ?thesis" by (rule row_false) (auto simp: over_base_def)
  ultimately show ?thesis by blast
qed (rule row_false, simp add: over_base_def)

section \<open>The rows\<close>

lemma at_If: "(c \<Longrightarrow> row_at n P s k Q) \<Longrightarrow> (\<not> c \<Longrightarrow> row_at n P t k Q) \<Longrightarrow> row_at n P (if c then s else t) k Q"
  by simp

lemma quiet_bodies:
  assumes "host_ok h" and "timer_law T A R live due"
  shows "triple (\<lambda>m v. over_base L [] (live m) (due m)) (arm_stop_body h T) (\<lambda>n. []) (\<lambda>m v. over_base L [] (live m) (due m))"
    and "triple (\<lambda>m v. over_base L [] (live m) (due m)) (reset_stop_body h T) (\<lambda>n. []) (\<lambda>m v. over_base L [] (live m) (due m))"
    and "triple (\<lambda>m v. over_base L [] (live m) (due m)) (sleep_body h T) (\<lambda>n. []) (\<lambda>m v. over_base L [] (live m) (due m))"
proof -
  let ?A = "\<lambda>ts m (v :: string \<Rightarrow> int). over_base L ts (live m) (due m)"
  note calls = timer_calls [OF assms(2)] and timer = row_timer [OF assms(1)]
  have "triple (?A []) (bench_loop_break (arm_stop_round T)) (\<lambda>n. []) (?A [])"
  proof (rule row_loop_break)
    fix i and w :: "'a process world" assume w: "?A [] (machine (rest w)) (int_var (rest w))"
    let ?c = "call (lib (time_after_func T NEVER)) w"
    show "\<exists>go w'. arm_stop_round T i w = Some (go, w') \<and> kept w' = kept w \<and> b_n (bch w') = b_n (bch w)
        \<and> ?A [] (machine (rest w')) (int_var (rest w'))"
    proof (cases "fst ?c = 0")
      case True
      with made_over [OF assms(2) w] show ?thesis
        by (intro exI [of _ False] exI [of _ "snd ?c"]) (simp add: arm_stop_round_def split_beta)
    next
      case False
      have "triple (?A [fst ?c]) (block [call_op (time_timer_stop T (fst ?c)), call_op (time_timer_free T (fst ?c))]) (\<lambda>n. []) (?A [])"
        by (rule row_then [OF calls(1) row_end [OF calls(4)]])
      from rowD [OF this, of "snd ?c"] made_over [OF assms(2) w] False show ?thesis
        by (auto simp: arm_stop_round_def split_beta simp del: block.simps)
    qed
  qed
  then show "triple (?A []) (arm_stop_body h T) (\<lambda>n. []) (?A [])" unfolding arm_stop_body_def
    by (intro row_then [OF timer(2) row_then [OF _ row_end [OF timer(1)]]])
  show "triple (?A []) (reset_stop_body h T) (\<lambda>n. []) (?A [])" unfolding reset_stop_body_def
  proof (rule row_calling [where R = "\<lambda>t. ?A (if t = 0 then [] else [t])"])
    show "?A (if fst (time_after_func T NEVER m) = 0 then [] else [fst (time_after_func T NEVER m)])
        (snd (snd (time_after_func T NEVER m))) v" if "?A [] m v" for m v
      using made_over [OF assms(2) that] by (simp split: if_splits)
    show "triple (?A (if t = 0 then [] else [t])) (if t = 0 then Some else reset_and_stop h T t) (\<lambda>n. []) (?A [])" for t
      using reset_and_stop_row [OF assms, of L t "[]"] by (simp add: row_Some)
  qed
  show "triple (?A []) (sleep_body h T) (\<lambda>n. []) (?A [])" unfolding sleep_body_def
    by (rule row_then [OF timer(2) row_then [OF row_loop_none [OF calls(3)] row_end [OF timer(1)]]])
qed

lemma full_bodies:
  assumes "host_ok h" and "timer_law T A R live due" and "\<And>m. fst (time_after_func T NEVER m) \<noteq> 0"
  shows "row_at n (\<lambda>m v. over_base L [] (live m) (due m)) (reset_stop_deep_body h T) [] (\<lambda>m v. over_base L [] (live m) (due m))"
    and "row_at n (\<lambda>m v. over_base L [] (live m) (due m)) (burst_body h T) []
      (\<lambda>m v. over_base L [] (live m) (due m) \<and> (0 < n \<longrightarrow> v ''fired'' = int BURST))"
proof -
  let ?A = "\<lambda>ts m (v :: string \<Rightarrow> int). over_base L ts (live m) (due m)"
  note calls = timer_calls [OF assms(2)]
  have deep: "row_at n (?A ts) (calling (time_after_func T NEVER) (\<lambda>t. if t = 0 then Some else
      block [reset_and_stop h T t, free_timers T ts])) [] (?A [])" for ts
  proof (rule at_calling [where R = "\<lambda>t m v. t \<noteq> 0 \<and> ?A (t # ts) m v"])
    show "fst (time_after_func T NEVER m) \<noteq> 0 \<and> ?A (fst (time_after_func T NEVER m) # ts) (snd (snd (time_after_func T NEVER m))) v"
      if "?A ts m v" for m v using made_over [OF assms(2) that] assms(3) [of m] by (simp add: over_base_front)
    have "row_at n (?A (t # ts)) (block [reset_and_stop h T t, free_timers T ts]) [] (?A [])" for t
      using at_row [OF row_then [OF reset_and_stop_row [OF assms(1,2)] row_end [OF free_timers_row [OF assms(2)]]]] .
    then show "row_at n (\<lambda>m v. t \<noteq> 0 \<and> ?A (t # ts) m v) (if t = 0 then Some else
        block [reset_and_stop h T t, free_timers T ts]) [] (?A [])" for t
      by (cases "t = 0") (simp_all add: row_at_def holds_in_def del: block.simps)
  qed
  show "row_at n (?A []) (reset_stop_deep_body h T) [] (?A [])" unfolding reset_stop_deep_body_def
    by (rule arm_timers_at [OF assms(2,3) row_Some deep])
  let ?J = "\<lambda>ts m v. ?A ts m v \<and> (0 < n \<longrightarrow> v ''fired'' = int BURST)"
  have free: "triple (?J ts) (free_timers T ts) (\<lambda>n. []) (?J [])" for ts
  proof -
    have "triple (?J (t # ts)) (call_op (time_timer_free T t)) (\<lambda>n. []) (?J ts)" for t ts
      by (rule row_call_op, use timer_lawD [OF assms(2)] in \<open>auto simp: over_base_def\<close>)
    then show ?thesis unfolding free_timers_def
      by (induction ts) (auto simp: row_Some simp del: block.simps intro: row_then)
  qed
  have rounds: "row_at n (?A ts) (bench_loop (\<lambda>_. fire_round h T ts)) [] (?J ts)" if "length ts = BURST" for ts
  proof (cases "0 < n")
    case True
    from at_loop [OF fire_round_row [OF assms(1,2) that] _ True] True show ?thesis by simp
  next
    case False
    from at_row [OF row_loop_none [OF row_post [OF fire_round_row [OF assms(1,2) that]]]] False show ?thesis by simp
  qed
  show "row_at n (?A []) (burst_body h T) [] (?J [])" unfolding burst_body_def
    by (rule arm_timers_at [OF assms(2,3) calls(1)], rule at_last [OF rounds row_end [OF free]]) simp
qed

text \<open>
  Safety: no row leaves a timer behind, armed or not, and none due. The rows of one timer give it back also when
  it cannot be made; the rows of a thousand when every allocation succeeds.
\<close>
theorem timer_rows_give_back:
  fixes w :: "'m process world"
  assumes "host_ok h" and "timer_law T A R live due" and "due (machine (rest w)) = {}"
    and "f \<in> {bench_timer_arm_stop h R A T, bench_timer_reset_stop h R A T, bench_timer_sleep_1ms h R A T}
      \<or> (\<forall>m. fst (time_after_func T NEVER m) \<noteq> 0) \<and> f \<in> {bench_timer_reset_stop_deep h R A T, bench_timer_fire_burst h R A T}"
  shows "\<exists>w'. f w = Some w' \<and> live (machine (rest w')) = live (machine (rest w)) \<and> due (machine (rest w')) = {}"
proof -
  let ?L = "live (machine (rest w))" and ?n = "b_n (bch w)"
  let ?B = "\<lambda>x (v :: string \<Rightarrow> int). over_base ?L [] (fst x) (snd x)"
  have done_at: "\<exists>w'. g w = Some w' \<and> live (machine (rest w')) = ?L \<and> due (machine (rest w')) = {}"
    if "row_at ?n (\<lambda>m v. ?B (live m, due m) v) g k (\<lambda>m v. ?B (live m, due m) v)" for g k
    using row_atD [OF that refl] assms(3) by (auto simp: over_base_def)
  have arena: "row_at ?n (\<lambda>m v. ?B (live m, due m) v) (one_p_with_arena h R A s) [] (\<lambda>m v. ?B (live m, due m) v)"
    if "row_at ?n (\<lambda>m v. over_base ?L [] (live m) (due m)) s [] (\<lambda>m v. over_base ?L [] (live m) (due m))" for s
    by (rule arena_at [OF assms(1,2)]) (use that in simp)
  have "\<exists>w'. f w = Some w' \<and> live (machine (rest w')) = ?L \<and> due (machine (rest w')) = {}"
    if "f \<in> {bench_timer_arm_stop h R A T, bench_timer_reset_stop h R A T, bench_timer_sleep_1ms h R A T}"
    using that arena [OF at_row [OF quiet_bodies(1) [OF assms(1,2)]]] arena [OF at_row [OF quiet_bodies(2) [OF assms(1,2)]]]
      arena [OF at_row [OF quiet_bodies(3) [OF assms(1,2)]]] done_at
    unfolding bench_timer_arm_stop_def bench_timer_reset_stop_def bench_timer_sleep_1ms_def by blast
  moreover have "\<exists>w'. f w = Some w' \<and> live (machine (rest w')) = ?L \<and> due (machine (rest w')) = {}"
    if nil: "\<And>m. fst (time_after_func T NEVER m) \<noteq> 0" and f: "f \<in> {bench_timer_reset_stop_deep h R A T, bench_timer_fire_burst h R A T}"
  proof -
    have burst: "row_at ?n (\<lambda>m v. over_base ?L [] (live m) (due m)) (burst_body h T) [] (\<lambda>m v. over_base ?L [] (live m) (due m))"
      using full_bodies(2) [OF assms(1,2) nil, of ?n ?L] unfolding row_at_def holds_in_def by blast
    have "\<exists>w'. bench_timer_fire_burst h R A T w = Some w' \<and> live (machine (rest w')) = ?L \<and> due (machine (rest w')) = {}"
      using done_at [OF arena [OF burst]]
      by (auto simp: bench_timer_fire_burst_def reading_def keep_int_def keep_u64_def)
    with f done_at [OF arena [OF full_bodies(1) [OF assms(1,2) nil]]] show ?thesis
      unfolding bench_timer_reset_stop_deep_def by blast
  qed
  ultimately show ?thesis using assms(4) by blast
qed

text \<open>
  C30. Liveness: the burst waits for all thousand callbacks of a round, no more and no less, although nothing bounds the
  waiting loop: a row with at least one round comes back with nothing due and hands 1000 to the sink.
\<close>
theorem burst_waits_for_all:
  fixes w :: "'m process world"
  assumes "host_ok h" and "timer_law T A R live due" and "due (machine (rest w)) = {}"
    and "\<forall>m. fst (time_after_func T NEVER m) \<noteq> 0" and "0 < b_n (bch w)"
  shows "\<exists>w'. bench_timer_fire_burst h R A T w = Some w' \<and> kept w' = kept w @ [KeptU64 1000] \<and> due (machine (rest w')) = {}"
proof -
  let ?L = "live (machine (rest w))" and ?n = "b_n (bch w)"
  let ?P = "\<lambda>x (v :: string \<Rightarrow> int). over_base ?L [] (fst x) (snd x)"
  let ?Q = "\<lambda>x v. over_base ?L [] (fst x) (snd x) \<and> (0 < ?n \<longrightarrow> v ''fired'' = int BURST)"
  have nil: "\<And>m. fst (time_after_func T NEVER m) \<noteq> 0" using assms(4) by blast
  have "row_at ?n (\<lambda>m v. ?P (live m, due m) v) (one_p_with_arena h R A (burst_body h T)) [] (\<lambda>m v. ?Q (live m, due m) v)"
    by (rule arena_at [OF assms(1,2)]) (use full_bodies(2) [OF assms(1,2) nil, of ?n ?L] in simp)
  from row_atD [OF this refl] assms(3,5) obtain w' where "one_p_with_arena h R A (burst_body h T) w = Some w'"
    "kept w' = kept w" "due (machine (rest w')) = {}" "int_var (rest w') ''fired'' = 1000"
    by (auto simp: over_base_def BURST_def)
  then show ?thesis by (simp add: bench_timer_fire_burst_def reading_def keep_int_def keep_u64_def)
qed

section \<open>A failure among the thousand\<close>

text \<open>
  What tells an armed timer from a stopped one. \<open>armed m\<close> are the timers that are set to fire and have not been
  stopped or freed, \<open>room m\<close> is how many more timers the memory has room for: \<open>time_after_func\<close> answers \<open>NULL\<close>
  exactly when there is none. The runtime and \<open>arena_init\<close> touch neither.
\<close>

definition armed_law ::
  "'m timer_lib \<Rightarrow> 'm arena_lib \<Rightarrow> 'm runtime_lib \<Rightarrow> ('m \<Rightarrow> nat set) \<Rightarrow> ('m \<Rightarrow> nat) \<Rightarrow> bool" where
  "armed_law T A R armed room \<longleftrightarrow> runtime_keeps R (\<lambda>m. (armed m, room m))
   \<and> (\<forall>p m. armed (snd (snd (arena_init A p m))) = armed m \<and> room (snd (snd (arena_init A p m))) = room m)
   \<and> (\<forall>d m. 0 < d \<and> room m = 0 \<longrightarrow> fst (time_after_func T d m) = 0
        \<and> armed (snd (snd (time_after_func T d m))) = armed m \<and> room (snd (snd (time_after_func T d m))) = 0)
   \<and> (\<forall>d m. 0 < d \<and> 0 < room m \<longrightarrow> fst (time_after_func T d m) \<noteq> 0 \<and> fst (time_after_func T d m) \<notin> armed m
        \<and> armed (snd (snd (time_after_func T d m))) = insert (fst (time_after_func T d m)) (armed m)
        \<and> room (snd (snd (time_after_func T d m))) = room m - 1)
   \<and> (\<forall>t m. armed (snd (snd (time_timer_stop T t m))) = armed m - {t} \<and> room (snd (snd (time_timer_stop T t m))) = room m)
   \<and> (\<forall>t d m. 0 < d \<longrightarrow> armed (snd (snd (time_timer_reset T t d m))) = insert t (armed m)
        \<and> room (snd (snd (time_timer_reset T t d m))) = room m)
   \<and> (\<forall>t m. armed (snd (snd (time_timer_free T t m))) = armed m - {t})"

lemma armed_lawD:
  assumes "armed_law T A R armed room"
  shows "runtime_keeps R (\<lambda>m. (armed m, room m))"
    "armed (snd (snd (arena_init A p m))) = armed m" "room (snd (snd (arena_init A p m))) = room m"
    "room m = 0 \<Longrightarrow> fst (time_after_func T NEVER m) = 0"
    "room m = 0 \<Longrightarrow> armed (snd (snd (time_after_func T NEVER m))) = armed m"
    "room m = 0 \<Longrightarrow> room (snd (snd (time_after_func T NEVER m))) = 0"
    "0 < room m \<Longrightarrow> fst (time_after_func T NEVER m) \<noteq> 0" "0 < room m \<Longrightarrow> fst (time_after_func T NEVER m) \<notin> armed m"
    "0 < room m \<Longrightarrow> armed (snd (snd (time_after_func T NEVER m))) = insert (fst (time_after_func T NEVER m)) (armed m)"
    "0 < room m \<Longrightarrow> room (snd (snd (time_after_func T NEVER m))) = room m - 1"
  using assms by (simp_all add: armed_law_def NEVER_def)

text \<open>From \<open>m\<close> to \<open>m'\<close> the timers \<open>ts\<close> have been made and are armed.\<close>

definition armed_since :: "('m \<Rightarrow> nat set) \<Rightarrow> ('m \<Rightarrow> nat) \<Rightarrow> nat list \<Rightarrow> 'm \<Rightarrow> 'm \<Rightarrow> bool" where
  "armed_since armed room ts m m' \<longleftrightarrow> armed m' = armed m \<union> set ts \<and> distinct ts \<and> armed m \<inter> set ts = {}
     \<and> room m = room m' + length ts"

lemma armed_since_first:
  assumes "armed_law T A R armed room" and "0 < room m"
    and "armed_since armed room ts (snd (snd (time_after_func T NEVER m))) m'"
  shows "armed_since armed room (fst (time_after_func T NEVER m) # ts) m m'"
  using assms(2,3) armed_lawD(8-10) [OF assms(1,2)] by (auto simp: armed_since_def)

text \<open>The loop makes as many as there is room for; it goes on to what follows only when it has made all.\<close>

lemma arm_timers_room:
  assumes "armed_law T A R armed room"
  shows "\<exists>v ts. armed_since armed room ts (machine (rest w)) (machine (rest v)) \<and> kept v = kept w
    \<and> length ts = min j (room (machine (rest w)))
    \<and> arm_timers T (\<lambda>_. Some) j ts1 k w = (if j \<le> room (machine (rest w)) then k (ts1 @ ts) v else Some v)"
proof (induction j arbitrary: w ts1)
  case 0
  show ?case by (intro exI [of _ w] exI [of _ "[]"]) (simp add: armed_since_def)
next
  case (Suc j)
  note law = armed_lawD [OF assms]
  let ?m = "machine (rest w)"
  let ?t = "fst (time_after_func T NEVER ?m)" and ?u = "snd (call (lib (time_after_func T NEVER)) w)"
  show ?case
  proof (cases "room ?m = 0")
    case True
    then show ?thesis using law(4-6) [of ?m]
      by (intro exI [of _ ?u] exI [of _ "[]"]) (simp add: armed_since_def calling_def split_beta)
  next
    case False
    then have r: "0 < room ?m" by simp
    from Suc.IH [of ?u "ts1 @ [?t]"] obtain v ts where v:
      "armed_since armed room ts (machine (rest ?u)) (machine (rest v))" "kept v = kept ?u"
      "length ts = min j (room (machine (rest ?u)))"
      "arm_timers T (\<lambda>_. Some) j (ts1 @ [?t]) k ?u
        = (if j \<le> room (machine (rest ?u)) then k ((ts1 @ [?t]) @ ts) v else Some v)" by blast
    have "armed_since armed room (?t # ts) ?m (machine (rest v))"
      by (rule armed_since_first [OF assms r]) (use v(1) in simp)
    moreover have "room (machine (rest ?u)) = room ?m - 1" using law(10) [OF r] by simp
    ultimately show ?thesis using v(2-4) r law(7) [OF r]
      by (intro exI [of _ v] exI [of _ "?t # ts"]) (auto simp: calling_def split_beta)
  qed
qed

text \<open>The body, when there is no room for all of its timers.\<close>

lemma deep_body_room:
  assumes "armed_law T A R armed room" and "room (machine (rest w)) \<le> DEEP"
  shows "\<exists>v ts. reset_stop_deep_body h T w = Some v \<and> armed_since armed room ts (machine (rest w)) (machine (rest v))
    \<and> length ts = room (machine (rest w)) \<and> kept v = kept w"
proof -
  note law = armed_lawD [OF assms(1)]
  let ?k = "\<lambda>deep. calling (time_after_func T NEVER) (\<lambda>t. if t = 0 then Some else block [reset_and_stop h T t, free_timers T deep])"
  from arm_timers_room [OF assms(1), of w DEEP "[]" ?k] obtain v ts where v:
    "armed_since armed room ts (machine (rest w)) (machine (rest v))" "kept v = kept w"
    "length ts = min DEEP (room (machine (rest w)))"
    "reset_stop_deep_body h T w = (if DEEP \<le> room (machine (rest w)) then ?k ts v else Some v)"
    unfolding reset_stop_deep_body_def append_Nil by blast
  show ?thesis
  proof (cases "room (machine (rest w)) = DEEP")
    case False
    with v assms(2) show ?thesis by (intro exI [of _ v] exI [of _ ts]) simp
  next
    case True
    let ?u = "snd (call (lib (time_after_func T NEVER)) v)"
    have r: "room (machine (rest v)) = 0" using v(1,3) True by (simp add: armed_since_def)
    from v(4) True law(4) [OF r] have "reset_stop_deep_body h T w = Some ?u" by (simp add: calling_def split_beta)
    moreover have "armed_since armed room ts (machine (rest w)) (machine (rest ?u))"
      using v(1) r law(5,6) [OF r] by (simp add: armed_since_def)
    ultimately show ?thesis using v(2,3) True by (intro exI [of _ ?u] exI [of _ ts]) simp
  qed
qed

text \<open>
  C31. Error: the row with a thousand timers in the heap gives back the arena while they are armed when one of its
  allocations fails. Let there be room for at most a thousand timers, so that one of the 1001 cannot be made: the
  row ends with \<open>arena_free\<close> of the arena that the timers are in, in a state in which every timer that it has made is
  armed, an hour ahead; none has been stopped or freed on the way.
\<close>
theorem deep_failure_leaves_armed:
  fixes w :: "'m process world"
  assumes "host_ok h" and "armed_law T A R armed room" and "room (machine (rest w)) \<le> DEEP"
  shows "\<exists>v ts. bench_timer_reset_stop_deep h R A T w = Some (snd (call (lib (arena_free A (addr h ''timer_arena''))) v))
    \<and> armed (machine (rest v)) = armed (machine (rest w)) \<union> set ts
    \<and> length ts = room (machine (rest w)) \<and> distinct ts \<and> armed (machine (rest w)) \<inter> set ts = {}"
proof -
  note law = armed_lawD [OF assms(2)]
  have keeps: "armed (snd (snd (runtime_start R m))) = armed m" "room (snd (snd (runtime_start R m))) = room m"
    "armed (snd (snd (runtime_stop R m))) = armed m" "armed (snd (snd (gomaxprocs R k m))) = armed m"
    "room (snd (snd (gomaxprocs R k m))) = room m" for k m
    using law(1) by (simp_all add: runtime_keeps_def)
  let ?p = "bench_pause (gettime h) w"
  let ?i = "snd (call (lib (arena_init A (addr h ''timer_arena''))) ?p)"
  let ?g = "call (lib (gomaxprocs R 1)) ?i"
  let ?u = "snd (call (lib (runtime_start R)) (snd ?g))"
  have m: "machine (rest ?p) = machine (rest w)" by (simp add: timer_simps host_ok_sel [OF assms(1)])
  have u: "armed (machine (rest ?u)) = armed (machine (rest w))" "room (machine (rest ?u)) = room (machine (rest w))"
    by (simp_all add: keeps law(2,3) m)
  from deep_body_room [OF assms(2), of ?u h] assms(3) u(2) obtain x ts where
    x: "reset_stop_deep_body h T ?u = Some x" "armed_since armed room ts (machine (rest ?u)) (machine (rest x))"
    "length ts = room (machine (rest w))" by auto
  let ?v = "snd (call (lib (gomaxprocs R (fst ?g))) (snd (call (lib (runtime_stop R)) x)))"
  have "bench_timer_reset_stop_deep h R A T w = Some (snd (call (lib (arena_free A (addr h ''timer_arena''))) ?v))"
    using x(1) by (simp add: bench_timer_reset_stop_deep_def one_p_with_arena_def runtime_main_def pausing_def
        calling_def split_beta)
  moreover have "armed (machine (rest ?v)) = armed (machine (rest x))" by (simp add: keeps)
  ultimately show ?thesis using x(2,3) u(1) unfolding armed_since_def by metis
qed

section \<open>Timers that keep the promise\<close>

text \<open>The timers that are live and those that are due, as lists; an allocation succeeds when \<open>ok\<close> says so.\<close>

definition ref_timers :: "(nat list \<Rightarrow> bool) \<Rightarrow> (nat list \<times> nat list) timer_lib" where
  "ref_timers ok = \<lparr>
     time_after_func = (\<lambda>d (l, q). if ok l then (Suc (sum_list l), 1, (Suc (sum_list l) # l, q)) else (0, 1, (l, q))),
     time_timer_stop = (\<lambda>t (l, q). (True, 1, (l, filter (\<lambda>x. x \<noteq> t) q))),
     time_timer_reset = (\<lambda>t d (l, q). (True, 1, (l, if 0 < d then filter (\<lambda>x. x \<noteq> t) q else t # q))),
     time_timer_free = (\<lambda>t (l, q). ((), 1, (filter (\<lambda>x. x \<noteq> t) l, q))),
     time_sleep = (\<lambda>d m. ((), nat d, m)), gosched_fires = (\<lambda>(l, q). (card (set q), 1, (l, [])))\<rparr>"

definition plain_arena :: "'m arena_lib" where
  "plain_arena = \<lparr>arena_init = (\<lambda>a m. ((), 1, m)), arena_reset = (\<lambda>a m. ((), 1, m)),
     arena_free = (\<lambda>a m. ((), 1, m)), mem_stats = (\<lambda>a m. ((0, 0), 1, m))\<rparr>"

lemma ref_timers_law: "timer_law (ref_timers ok) plain_arena plain_procs (\<lambda>m. set (fst m)) (\<lambda>m. set (snd m))"
proof -
  have fresh: "Suc (sum_list l) \<notin> set l" for l :: "nat list"
    using member_le_sum_list [of "Suc (sum_list l)" l] by fastforce
  then show ?thesis
    by (auto simp: timer_law_def ref_timers_def plain_arena_def plain_procs_keep card_gt_0_iff)
qed

lemma ref_timers_made: "fst (time_after_func (ref_timers (\<lambda>l. True)) d m) \<noteq> 0"
  by (cases m) (simp add: ref_timers_def)

theorem timer_rows_give_back_witness:
  "\<exists>w'. bench_timer_reset_stop_deep (exact_host length (\<lambda>x. 0)) plain_procs plain_arena (ref_timers (\<lambda>l. True)) (row_world 3 ([], [])) = Some w'
     \<and> fst (machine (rest w')) = []"
  using timer_rows_give_back [OF exact_host_ok ref_timers_law, of "row_world 3 ([], [])"
      "bench_timer_reset_stop_deep (exact_host length (\<lambda>x. 0)) plain_procs plain_arena (ref_timers (\<lambda>l. True))" length "\<lambda>x. 0" "\<lambda>l. True"]
  by (auto simp: ref_timers_made)

theorem burst_waits_for_all_witness:
  "\<exists>w'. bench_timer_fire_burst (exact_host length (\<lambda>x. 0)) plain_procs plain_arena (ref_timers (\<lambda>l. True)) (row_world 3 ([], [])) = Some w'
     \<and> kept w' = [KeptU64 1000]"
  using burst_waits_for_all [OF exact_host_ok ref_timers_law, of "row_world 3 ([], [])" "\<lambda>l. True" length "\<lambda>x. 0"]
  by (auto simp: ref_timers_made)

text \<open>The timers that are armed, and how many more there is room for.\<close>

definition arming_timers :: "(nat list \<times> nat) timer_lib" where
  "arming_timers = \<lparr>
     time_after_func = (\<lambda>d (l, q). if q = 0 then (0, 1, (l, q)) else (Suc (sum_list l), 1, (Suc (sum_list l) # l, q - 1))),
     time_timer_stop = (\<lambda>t (l, q). (True, 1, (filter (\<lambda>x. x \<noteq> t) l, q))),
     time_timer_reset = (\<lambda>t d (l, q). (True, 1, (t # l, q))),
     time_timer_free = (\<lambda>t (l, q). ((), 1, (filter (\<lambda>x. x \<noteq> t) l, q + 1))),
     time_sleep = (\<lambda>d m. ((), nat d, m)), gosched_fires = (\<lambda>m. (0, 1, m))\<rparr>"

lemma arming_timers_law: "armed_law arming_timers plain_arena plain_procs (\<lambda>m. set (fst m)) snd"
proof -
  have "Suc (sum_list l) \<notin> set l" for l :: "nat list"
    using member_le_sum_list [of "Suc (sum_list l)" l] by fastforce
  then show ?thesis by (auto simp: armed_law_def arming_timers_def plain_arena_def plain_procs_keep)
qed

theorem deep_failure_leaves_armed_witness:
  "\<exists>v ts. bench_timer_reset_stop_deep (exact_host length (\<lambda>x. 0)) plain_procs plain_arena arming_timers (row_world 3 ([], 7))
       = Some (snd (call (lib (arena_free plain_arena (addr (exact_host length (\<lambda>x. 0)) ''timer_arena''))) v))
     \<and> set (fst (machine (rest v))) = set ts \<and> length ts = 7 \<and> distinct ts"
  using deep_failure_leaves_armed [OF exact_host_ok arming_timers_law, of "row_world 3 ([], 7)" length "\<lambda>x. 0"]
  by (simp add: DEEP_def)

end
