(* ===== verification/Volley.thy ===== *)
theory Volley
  imports Interleave Row_Logic Chan_Bench
begin

text \<open>
  Two goroutines and a value going there and back over channels without a buffer: the ping pong that
  \<open>bench/chan_bench.c\<close>, \<open>bench/select_bench.c\<close> and \<open>bench/synctest_bench.c\<close> each have, with bare
  operations or with selects. What the three files share is here: the goroutines that park and are woken,
  the two loops, and the proof that the volleys end under every schedule that neglects neither.
\<close>

section \<open>What the files take from burrow\<close>

text \<open>The cases of a select. A bare send or receive is a select of one case.\<close>

datatype sel_case = Sending nat int | Receiving nat | Default

text \<open>
  An answer is the index of the case that ran, the value that it received, and whether there was one.
  \<open>True\<close> is the main goroutine and \<open>False\<close> the other: burrow knows which one calls. \<open>sel_begin\<close> is an
  operation up to where it has run or its goroutine is parked, \<open>sel_end\<close> the return of one whose
  goroutine has been woken. \<open>go_return\<close> is the end of the launched goroutine.
\<close>

type_synonym sel_answer = "nat \<times> int \<times> bool"

record 'm select_lib =
  sel_begin :: "bool \<Rightarrow> sel_case list \<Rightarrow> (sel_answer option, 'm) op"
  sel_end :: "bool \<Rightarrow> (sel_answer, 'm) blocking_op"
  go_return :: "(unit, 'm) op"

text \<open>The two steps of an operation that may park its goroutine.\<close>

definition begins :: "('a option, 'm) op \<Rightarrow> ('a \<Rightarrow> 'p) \<Rightarrow> 'p \<Rightarrow> 'm process world \<Rightarrow> ('p \<times> 'm process world) option" where
  "begins f go wait w = (let (r, w) = call (lib f) w in Some (case r of Some a \<Rightarrow> go a | None \<Rightarrow> wait, w))"

definition wakes :: "('a, 'm) blocking_op \<Rightarrow> ('a \<Rightarrow> 'p) \<Rightarrow> 'm process world \<Rightarrow> ('p \<times> 'm process world) option" where
  "wakes f go w = (case f (machine (rest w)) of None \<Rightarrow> None | Some (a, _) \<Rightarrow> Some (go a, passed f w))"

section \<open>The two loops\<close>

text \<open>
  What the three files do differently: the case lists, the local tests on what an operation of the child
  answered, and the names of the flags.
\<close>

record volley_shape =
  main_sends_on :: "sel_case list"
  main_receives_on :: "sel_case list"
  main_ends_on :: "sel_case list"
  child_receives_on :: "sel_case list"
  child_sends_on :: "int \<Rightarrow> sel_case list"
  child_took :: "sel_answer \<Rightarrow> bool"
  child_sent :: "sel_answer \<Rightarrow> bool"
  stop_flag :: string
  gone_count :: string

datatype main_loc = VmStart | VmSend nat | VmSendW nat | VmRecv nat | VmRecvW nat | VmStop | VmLast | VmLastW
  | VmAway | VmOut

datatype child_loc = VcRecv | VcRecvW | VcTest int | VcSend int | VcSendW | VcAdd | VcExit | VcGone

text \<open>
  The main goroutine, from the resumption of the timer on. A location with a \<open>W\<close> is inside an operation
  that parked. \<open>away\<close> is the wait for the child at the end: a turn of it, and whether it is over.
\<close>

fun volley_main :: "'m host \<Rightarrow> 'm select_lib \<Rightarrow> volley_shape \<Rightarrow> ('m process world \<Rightarrow> (bool \<times> 'm process world) option)
    \<Rightarrow> nat \<Rightarrow> (main_loc, 'm process world) thread" where
  "volley_main h X Z away n VmStart = moves_to (VmSend 0) (resuming h)"
| "volley_main h X Z away n (VmSend i) = (if i < n
     then begins (sel_begin X True (main_sends_on Z)) (\<lambda>_. VmRecv i) (VmSendW i) else moves_to VmStop (pausing h))"
| "volley_main h X Z away n (VmSendW i) = wakes (sel_end X True) (\<lambda>_. VmRecv i)"
| "volley_main h X Z away n (VmRecv i) =
     begins (sel_begin X True (main_receives_on Z)) (\<lambda>_. VmSend (i + 1)) (VmRecvW i)"
| "volley_main h X Z away n (VmRecvW i) = wakes (sel_end X True) (\<lambda>_. VmSend (i + 1))"
| "volley_main h X Z away n VmStop = moves_to VmLast (set_u64 (stop_flag Z) 1)"
| "volley_main h X Z away n VmLast = begins (sel_begin X True (main_ends_on Z)) (\<lambda>_. VmAway) VmLastW"
| "volley_main h X Z away n VmLastW = wakes (sel_end X True) (\<lambda>_. VmAway)"
| "volley_main h X Z away n VmAway = (\<lambda>w. do { (fin, w) \<leftarrow> away w; Some (if fin then VmOut else VmAway, w) })"
| "volley_main h X Z away n VmOut = (\<lambda>w. None)"

fun volley_child :: "'m select_lib \<Rightarrow> volley_shape \<Rightarrow> (child_loc, 'm process world) thread" where
  "volley_child X Z VcRecv = begins (sel_begin X False (child_receives_on Z))
     (\<lambda>(i, v, ok). if child_took Z (i, v, ok) then VcTest v else VcAdd) VcRecvW"
| "volley_child X Z VcRecvW = wakes (sel_end X False) (\<lambda>(i, v, ok). if child_took Z (i, v, ok) then VcTest v else VcAdd)"
| "volley_child X Z (VcTest v) = (\<lambda>w. Some (if u64_var (rest w) (stop_flag Z) \<noteq> 0 then VcAdd else VcSend v, w))"
| "volley_child X Z (VcSend v) = begins (sel_begin X False (child_sends_on Z v))
     (\<lambda>r. if child_sent Z r then VcRecv else VcAdd) VcSendW"
| "volley_child X Z VcSendW = wakes (sel_end X False) (\<lambda>r. if child_sent Z r then VcRecv else VcAdd)"
| "volley_child X Z VcAdd = moves_to VcExit (counting_child (gone_count Z))"
| "volley_child X Z VcExit = moves_to VcGone (call_op (go_return X))"
| "volley_child X Z VcGone = (\<lambda>w. None)"

definition play_volleys :: "(nat \<Rightarrow> bool) \<Rightarrow> 'm host \<Rightarrow> 'm select_lib \<Rightarrow> volley_shape
    \<Rightarrow> ('m process world \<Rightarrow> (bool \<times> 'm process world) option) \<Rightarrow> 'm cstmt" where
  "play_volleys sc h X Z away = reading_n (\<lambda>n.
     together sc (volley_main h X Z away (nat n)) (volley_child X Z) (\<lambda>p. p = VmOut) VmStart VcRecv)"

text \<open>\<open>while (gone == 0) runtime_gosched();\<close>, a test and a turn at a time.\<close>

definition spin_until :: "'m sched_lib \<Rightarrow> string \<Rightarrow> 'm process world \<Rightarrow> (bool \<times> 'm process world) option" where
  "spin_until S x w = (if u64_var (rest w) x = 0 then do { w \<leftarrow> call_op (sched_yield S) w; Some (False, w) } else Some (True, w))"

text \<open>
  The frame of the ping pongs: the channels are made one after the other, then tested for \<open>NULL\<close> together;
  the second goroutine is launched, and a failure of either returns from the body.
\<close>

fun make_all :: "'m chan_lib \<Rightarrow> nat \<Rightarrow> nat list \<Rightarrow> (nat list \<Rightarrow> 'm cstmt) \<Rightarrow> 'm cstmt" where
  "make_all C 0 cs k = k cs"
| "make_all C (Suc j) cs k = calling (chan_make C 0) (\<lambda>c. make_all C j (cs @ [c]) k)"

definition volley_frame :: "(nat \<Rightarrow> bool) \<Rightarrow> 'm host \<Rightarrow> 'm sched_lib \<Rightarrow> 'm select_lib \<Rightarrow> (nat list \<Rightarrow> volley_shape)
    \<Rightarrow> ('m process world \<Rightarrow> (bool \<times> 'm process world) option) \<Rightarrow> (nat list \<Rightarrow> 'm cstmt) \<Rightarrow> nat list \<Rightarrow> 'm cstmt" where
  "volley_frame sc h S X Z away fin cs = (if 0 \<in> set cs then Some else
     calling (go_launch S) (\<lambda>ok. if \<not> ok then Some else block [play_volleys sc h X (Z cs) away, fin cs]))"

definition free_all :: "'m chan_lib \<Rightarrow> nat list \<Rightarrow> 'm cstmt" where
  "free_all C cs = block (map (\<lambda>c. call_op (chan_free C c)) cs)"

section \<open>The contract\<close>

lemma begins_advances: "begins f go wait w = Some (p, w') \<Longrightarrow> advances clock w w'"
proof -
  assume "begins f go wait w = Some (p, w')"
  then have "call_op f w = Some w'" by (auto simp: begins_def calling_def split_beta Let_def)
  moreover have "does (advances clock) (call_op f)" by (intro contract_rules)
  ultimately show ?thesis by (rule doesD [rotated])
qed

lemma wakes_advances: "wakes f go w = Some (p, w') \<Longrightarrow> advances clock w w'"
proof -
  assume a: "wakes f go w = Some (p, w')"
  then have "moves_to p (blocking f (\<lambda>_. Some)) w = Some (p, w')"
    by (auto simp: wakes_def passed_step split: option.splits)
  moreover have "does (advances clock) (blocking f (\<lambda>_. Some))" by (intro contract_rules)
  ultimately show ?thesis by (rule moves_to_advances [rotated])
qed

lemma volley_threads_move:
  "host_ok h \<Longrightarrow> (\<And>w b w'. away w = Some (b, w') \<Longrightarrow> advances clock w w')
     \<Longrightarrow> volley_main h X Z away n p w = Some (p', w') \<Longrightarrow> advances clock w w'"
  "volley_child X Z q w = Some (q', w') \<Longrightarrow> advances clock w w'"
proof -
  show "advances clock w w'" if "host_ok h" "volley_main h X Z away n p w = Some (p', w')"
    "\<And>w b w'. away w = Some (b, w') \<Longrightarrow> advances clock w w'"
    using that(1,2) by (cases p; auto split: if_splits simp: moving.R_refl bind_eq_Some_conv dest: that(3)
        begins_advances wakes_advances elim!: moves_to_advances [rotated] intro!: contract_rules)
  show "advances clock w w'" if "volley_child X Z q w = Some (q', w')"
    using that by (cases q; auto split: if_splits simp: moving.R_refl
        dest: begins_advances wakes_advances elim!: moves_to_advances [rotated] intro!: contract_rules)
qed

lemma volleys_moves [contract_rules]:
  "host_ok h \<Longrightarrow> (\<And>w b w'. away w = Some (b, w') \<Longrightarrow> advances clock w w')
     \<Longrightarrow> does (advances clock) (play_volleys sc h X Z away)"
  unfolding play_volleys_def
  by (intro contract_rules) (blast intro: volley_threads_move)+

lemma make_all_moves [contract_rules]:
  "(\<And>cs. does (advances clock) (k cs)) \<Longrightarrow> does (advances clock) (make_all C j cs k)"
  by (induction j arbitrary: cs) (auto intro!: contract_rules)

lemma free_all_moves [contract_rules]: "does (advances clock) (free_all C cs)"
  unfolding free_all_def by (induction cs) (auto intro!: contract_rules simp del: block.simps)

lemma volley_frame_moves [contract_rules]:
  "host_ok h \<Longrightarrow> (\<And>w b w'. away w = Some (b, w') \<Longrightarrow> advances clock w w') \<Longrightarrow> (\<And>cs. does (advances clock) (fin cs))
     \<Longrightarrow> does (advances clock) (volley_frame sc h S X Z away fin cs)"
  unfolding volley_frame_def by (auto intro!: contract_rules simp del: block.simps)

lemma spin_until_advances: "spin_until S x w = Some (b, w') \<Longrightarrow> advances clock w w'"
proof -
  assume "spin_until S x w = Some (b, w')"
  then have "w' = w \<or> call_op (sched_yield S) w = Some w'" by (auto simp: spin_until_def bind_eq_Some_conv split: if_splits)
  moreover have "does (advances clock) (call_op (sched_yield S))" by (intro contract_rules)
  ultimately show ?thesis by (auto simp: moving.R_refl dest: doesD)
qed

section \<open>What goroutines and channels without a buffer promise\<close>

datatype goroutine = GRunning | GParked "sel_case list" | GWoken sel_answer | GGone

text \<open>Two cases meet when one sends and the other receives on the same channel.\<close>

fun meet :: "sel_case \<Rightarrow> sel_case \<Rightarrow> int option" where
  "meet (Sending c v) (Receiving d) = (if c = d then Some v else None)"
| "meet (Receiving c) (Sending d v) = (if c = d then Some v else None)"
| "meet a b = None"

definition meetings :: "sel_case list \<Rightarrow> sel_case list \<Rightarrow> (nat \<times> nat \<times> int) list" where
  "meetings cs ds = concat (map (\<lambda>i. concat (map (\<lambda>j.
     case meet (cs ! i) (ds ! j) of None \<Rightarrow> [] | Some v \<Rightarrow> [(i, j, v)]) [0..<length ds])) [0..<length cs])"

fun chan_of_case :: "sel_case \<Rightarrow> nat set" where
  "chan_of_case (Sending c v) = {c}" | "chan_of_case (Receiving c) = {c}" | "chan_of_case Default = {}"

text \<open>What a goroutine that is parked on cases meets when another begins with its own.\<close>

definition offers :: "goroutine \<Rightarrow> sel_case list \<Rightarrow> (nat \<times> nat \<times> int) list" where
  "offers g cs = (case g of GParked ds \<Rightarrow> meetings cs ds | _ \<Rightarrow> [])"

text \<open>
  \<open>unbuf\<close> are the channels made without a buffer, open and not freed, \<open>stat\<close> the states of the two
  goroutines. An operation without a default case runs if the other goroutine is parked on one that meets
  it, and wakes it; otherwise it parks.
\<close>

definition meet_law :: "'m chan_lib \<Rightarrow> 'm sched_lib \<Rightarrow> 'm select_lib \<Rightarrow> ('m \<Rightarrow> nat set) \<Rightarrow> ('m \<Rightarrow> bool \<Rightarrow> goroutine) \<Rightarrow> bool" where
  "meet_law C S X unbuf stat \<longleftrightarrow>
     (\<forall>m. let (c, t, m') = chan_make C 0 m in stat m' = stat m
        \<and> (if c = 0 then unbuf m' = unbuf m else c \<notin> unbuf m \<and> unbuf m' = insert c (unbuf m)))
   \<and> (\<forall>c m. let (r, t, m') = chan_free C c m in stat m' = stat m \<and> unbuf m' = unbuf m - {c})
   \<and> (\<forall>m. let (ok, t, m') = go_launch S m in
        stat m' = (if ok then (stat m)(False := GRunning) else stat m) \<and> unbuf m' = unbuf m)
   \<and> (\<forall>m. let (k, t, m') = sched_yield S m in stat m' = stat m \<and> unbuf m' = unbuf m)
   \<and> (\<forall>m. let (r, t, m') = go_return X m in stat m' = (stat m)(False := GGone) \<and> unbuf m' = unbuf m)
   \<and> (\<forall>me cs m. stat m me = GRunning \<longrightarrow> Default \<notin> set cs \<longrightarrow> (\<Union>a \<in> set cs. chan_of_case a) \<subseteq> unbuf m \<longrightarrow>
        (let (r, t, m') = sel_begin X me cs m in unbuf m' = unbuf m
           \<and> (case r of
                None \<Rightarrow> offers (stat m (\<not> me)) cs = [] \<and> stat m' = (stat m)(me := GParked cs)
              | Some (i, v, ok) \<Rightarrow> ok \<and> (\<exists>j. (i, j, v) \<in> set (offers (stat m (\<not> me)) cs)
                  \<and> stat m' = (stat m)(\<not> me := GWoken (j, v, True))))))
   \<and> (\<forall>me m. case sel_end X me m of
        None \<Rightarrow> \<nexists>a. stat m me = GWoken a
      | Some (a, t, m') \<Rightarrow> stat m me = GWoken a \<and> stat m' = (stat m)(me := GRunning) \<and> unbuf m' = unbuf m)"

lemma meet_lawD:
  assumes "meet_law C S X unbuf stat"
  shows "stat (snd (snd (chan_make C 0 m))) = stat m"
    "fst (chan_make C 0 m) = 0 \<Longrightarrow> unbuf (snd (snd (chan_make C 0 m))) = unbuf m"
    "fst (chan_make C 0 m) \<noteq> 0 \<Longrightarrow> fst (chan_make C 0 m) \<notin> unbuf m"
    "fst (chan_make C 0 m) \<noteq> 0 \<Longrightarrow> unbuf (snd (snd (chan_make C 0 m))) = insert (fst (chan_make C 0 m)) (unbuf m)"
    "stat (snd (snd (chan_free C c m))) = stat m" "unbuf (snd (snd (chan_free C c m))) = unbuf m - {c}"
    "stat (snd (snd (go_launch S m))) = (if fst (go_launch S m) then (stat m)(False := GRunning) else stat m)"
    "unbuf (snd (snd (go_launch S m))) = unbuf m"
    "stat (snd (snd (sched_yield S m))) = stat m" "unbuf (snd (snd (sched_yield S m))) = unbuf m"
    "stat (snd (snd (go_return X m))) = (stat m)(False := GGone)" "unbuf (snd (snd (go_return X m))) = unbuf m"
  using assms by (simp_all add: meet_law_def split_beta Let_def)

lemma sel_endD:
  assumes "meet_law C S X unbuf stat"
  shows "stat m me = GWoken a \<Longrightarrow> \<exists>t m'. sel_end X me m = Some (a, t, m')"
    "\<nexists>a. stat m me = GWoken a \<Longrightarrow> sel_end X me m = None"
    "sel_end X me m \<noteq> None \<Longrightarrow> stat (left_by (sel_end X me) m) = (stat m)(me := GRunning)"
    "sel_end X me m \<noteq> None \<Longrightarrow> unbuf (left_by (sel_end X me) m) = unbuf m"
proof -
  have l: "case sel_end X me m of None \<Rightarrow> \<nexists>a. stat m me = GWoken a
      | Some (a, t, m') \<Rightarrow> stat m me = GWoken a \<and> stat m' = (stat m)(me := GRunning) \<and> unbuf m' = unbuf m"
    using assms unfolding meet_law_def by blast
  show "\<exists>t m'. sel_end X me m = Some (a, t, m')" if "stat m me = GWoken a"
    using l that by (cases "sel_end X me m"; cases a) auto
  show "sel_end X me m = None" if "\<nexists>a. stat m me = GWoken a"
  proof (rule ccontr)
    assume "sel_end X me m \<noteq> None"
    then obtain a t m' where "sel_end X me m = Some (a, t, m')" by (metis not_None_eq surj_pair)
    with l have "stat m me = GWoken a" by simp
    with that show False by blast
  qed
  show "stat (left_by (sel_end X me) m) = (stat m)(me := GRunning)" "unbuf (left_by (sel_end X me) m) = unbuf m"
    if "sel_end X me m \<noteq> None"
    using l that by (auto simp: left_by_def)
qed

lemma sel_beginD:
  assumes "meet_law C S X unbuf stat" and "stat m me = GRunning" and "Default \<notin> set cs"
    and "(\<Union>a \<in> set cs. chan_of_case a) \<subseteq> unbuf m"
  shows "unbuf (snd (snd (sel_begin X me cs m))) = unbuf m"
    "offers (stat m (\<not> me)) cs = [] \<Longrightarrow> fst (sel_begin X me cs m) = None"
    "offers (stat m (\<not> me)) cs = [] \<Longrightarrow> stat (snd (snd (sel_begin X me cs m))) = (stat m)(me := GParked cs)"
    "offers (stat m (\<not> me)) cs = [(i, j, v)] \<Longrightarrow> fst (sel_begin X me cs m) = Some (i, v, True)"
    "offers (stat m (\<not> me)) cs = [(i, j, v)] \<Longrightarrow>
       stat (snd (snd (sel_begin X me cs m))) = (stat m)(\<not> me := GWoken (j, v, True))"
proof -
  obtain r t m' where r: "sel_begin X me cs m = (r, t, m')" by (metis surj_pair)
  have "let (r, t, m') = sel_begin X me cs m in unbuf m' = unbuf m
      \<and> (case r of None \<Rightarrow> offers (stat m (\<not> me)) cs = [] \<and> stat m' = (stat m)(me := GParked cs)
         | Some (i, v, ok) \<Rightarrow> ok \<and> (\<exists>j. (i, j, v) \<in> set (offers (stat m (\<not> me)) cs)
             \<and> stat m' = (stat m)(\<not> me := GWoken (j, v, True))))"
    using assms unfolding meet_law_def by blast
  then have l: "unbuf m' = unbuf m" "case r of None \<Rightarrow> offers (stat m (\<not> me)) cs = [] \<and> stat m' = (stat m)(me := GParked cs)
      | Some (i, v, ok) \<Rightarrow> ok \<and> (\<exists>j. (i, j, v) \<in> set (offers (stat m (\<not> me)) cs)
          \<and> stat m' = (stat m)(\<not> me := GWoken (j, v, True)))" by (simp_all add: r)
  from l(1) show "unbuf (snd (snd (sel_begin X me cs m))) = unbuf m" by (simp add: r)
  { assume "offers (stat m (\<not> me)) cs = []"
    with l(2) show "fst (sel_begin X me cs m) = None"
      "stat (snd (snd (sel_begin X me cs m))) = (stat m)(me := GParked cs)"
      by (cases r; auto simp: r)+ }
  { assume "offers (stat m (\<not> me)) cs = [(i, j, v)]"
    with l(2) show "fst (sel_begin X me cs m) = Some (i, v, True)"
      "stat (snd (snd (sel_begin X me cs m))) = (stat m)(\<not> me := GWoken (j, v, True))"
      by (cases r; auto simp: r)+ }
qed

section \<open>The invariant of the volleys\<close>

text \<open>
  The loops fit together when, on open channels without a buffer, the sends of one meet the receives of the
  other and nothing else does.
\<close>

definition one_meeting :: "sel_case list \<Rightarrow> sel_case list \<Rightarrow> int \<Rightarrow> bool" where
  "one_meeting cs ds v \<longleftrightarrow> meetings cs ds = [(0, 0, v)] \<and> meetings ds cs = [(0, 0, v)]"

definition shape_cases :: "volley_shape \<Rightarrow> sel_case list set" where
  "shape_cases Z = {main_sends_on Z, main_receives_on Z, main_ends_on Z, child_receives_on Z} \<union> range (child_sends_on Z)"

definition fitting :: "volley_shape \<Rightarrow> nat set \<Rightarrow> bool" where
  "fitting Z chs \<longleftrightarrow> (\<exists>u. one_meeting (main_sends_on Z) (child_receives_on Z) u)
     \<and> (\<exists>u. one_meeting (main_ends_on Z) (child_receives_on Z) u)
     \<and> (\<forall>v. \<exists>u. one_meeting (child_sends_on Z v) (main_receives_on Z) u)
     \<and> (\<forall>v. child_took Z (0, v, True)) \<and> (\<forall>v. child_sent Z (0, v, True))
     \<and> (\<forall>cs \<in> shape_cases Z. Default \<notin> set cs \<and> (\<Union>a \<in> set cs. chan_of_case a) \<subseteq> chs)
     \<and> stop_flag Z \<noteq> gone_count Z"

text \<open>
  Between two meetings the next one is the question of the main goroutine, the reply of the child, or, after
  the last question, none.
\<close>

datatype volley_phase = Asking | Replying | Leaving

fun phase_of :: "main_loc \<Rightarrow> bool \<Rightarrow> volley_phase" where
  "phase_of (VmSendW i) aw = (if aw then Replying else Asking)" | "phase_of (VmRecv i) aw = Replying"
| "phase_of (VmRecvW i) aw = (if aw then Asking else Replying)" | "phase_of VmLastW aw = (if aw then Leaving else Asking)"
| "phase_of VmAway aw = Leaving" | "phase_of VmOut aw = Leaving" | "phase_of p aw = Asking"

definition awake :: "goroutine \<Rightarrow> bool" where "awake g \<longleftrightarrow> (\<exists>v. g = GWoken (0, v, True))"

lemma awake_simps [simp]: "\<not> awake GRunning" "\<not> awake (GParked cs)" "\<not> awake GGone" "awake (GWoken (0, v, True))"
  by (simp_all add: awake_def)

definition inside :: "sel_case list \<Rightarrow> goroutine \<Rightarrow> bool" where
  "inside cs g \<longleftrightarrow> g = GParked cs \<or> awake g"

fun main_here :: "volley_shape \<Rightarrow> nat \<Rightarrow> main_loc \<Rightarrow> goroutine \<Rightarrow> u64 \<Rightarrow> bool" where
  "main_here Z n VmStart g stop = (g = GRunning \<and> stop = 0)"
| "main_here Z n (VmSend i) g stop = (g = GRunning \<and> stop = 0 \<and> i \<le> n)"
| "main_here Z n (VmSendW i) g stop = (inside (main_sends_on Z) g \<and> stop = 0 \<and> i < n)"
| "main_here Z n (VmRecv i) g stop = (g = GRunning \<and> stop = 0 \<and> i < n)"
| "main_here Z n (VmRecvW i) g stop = (inside (main_receives_on Z) g \<and> stop = 0 \<and> i < n)"
| "main_here Z n VmStop g stop = (g = GRunning \<and> stop = 0)"
| "main_here Z n VmLast g stop = (g = GRunning \<and> stop = 1)"
| "main_here Z n VmLastW g stop = (inside (main_ends_on Z) g \<and> stop = 1)"
| "main_here Z n VmAway g stop = (g = GRunning \<and> stop = 1)"
| "main_here Z n VmOut g stop = (g = GRunning \<and> stop = 1)"

fun child_here :: "volley_shape \<Rightarrow> volley_phase \<Rightarrow> child_loc \<Rightarrow> goroutine \<Rightarrow> u64 \<Rightarrow> bool" where
  "child_here Z ph VcRecv g gone = (g = GRunning \<and> ph = Asking \<and> gone = 0)"
| "child_here Z ph VcRecvW g gone = (inside (child_receives_on Z) g \<and> (awake g \<longleftrightarrow> ph \<noteq> Asking) \<and> gone = 0)"
| "child_here Z ph (VcTest v) g gone = (g = GRunning \<and> ph \<noteq> Asking \<and> gone = 0)"
| "child_here Z ph (VcSend v) g gone = (g = GRunning \<and> ph = Replying \<and> gone = 0)"
| "child_here Z ph VcSendW g gone = ((\<exists>v. inside (child_sends_on Z v) g) \<and> ph = (if awake g then Asking else Replying) \<and> gone = 0)"
| "child_here Z ph VcAdd g gone = (g = GRunning \<and> ph = Leaving \<and> gone = 0)"
| "child_here Z ph VcExit g gone = (g = GRunning \<and> ph = Leaving \<and> gone = 1)"
| "child_here Z ph VcGone g gone = (g = GGone \<and> ph = Leaving \<and> gone = 1)"

text \<open>The meetings to come, and the steps that each of the two can still make before the next one.\<close>

fun meetings_left :: "nat \<Rightarrow> main_loc \<Rightarrow> bool \<Rightarrow> nat" where
  "meetings_left n VmStart aw = 2 * n + 1" | "meetings_left n (VmSend i) aw = 2 * (n - i) + 1"
| "meetings_left n (VmSendW i) aw = (if aw then 2 * (n - i) else 2 * (n - i) + 1)"
| "meetings_left n (VmRecv i) aw = 2 * (n - i)"
| "meetings_left n (VmRecvW i) aw = (if aw then 2 * (n - i) - 1 else 2 * (n - i))"
| "meetings_left n VmLastW aw = (if aw then 0 else 1)"
| "meetings_left n VmAway aw = 0" | "meetings_left n VmOut aw = 0" | "meetings_left n p aw = 1"

fun main_steps :: "main_loc \<Rightarrow> bool \<Rightarrow> nat" where
  "main_steps VmStart aw = 10" | "main_steps (VmSend i) aw = 8" | "main_steps (VmSendW i) aw = (if aw then 9 else 0)"
| "main_steps (VmRecv i) aw = 8" | "main_steps (VmRecvW i) aw = (if aw then 9 else 0)" | "main_steps VmStop aw = 6"
| "main_steps VmLast aw = 5" | "main_steps VmLastW aw = (if aw then 4 else 0)" | "main_steps VmAway aw = 1"
| "main_steps VmOut aw = 0"

fun child_steps :: "child_loc \<Rightarrow> bool \<Rightarrow> nat" where
  "child_steps VcRecv aw = 2" | "child_steps VcRecvW aw = (if aw then 6 else 0)" | "child_steps (VcTest v) aw = 5"
| "child_steps (VcSend v) aw = 4" | "child_steps VcSendW aw = (if aw then 3 else 0)" | "child_steps VcAdd aw = 3"
| "child_steps VcExit aw = 2" | "child_steps VcGone aw = 0"

definition is_parked :: "goroutine \<Rightarrow> bool" where "is_parked g \<longleftrightarrow> (\<exists>cs. g = GParked cs)"

lemma is_parked_simps [simp]: "\<not> is_parked GRunning" "is_parked (GParked cs)" "\<not> is_parked GGone" "\<not> is_parked (GWoken a)"
  by (simp_all add: is_parked_def)

section \<open>The steps, seen from outside\<close>

text \<open>What the invariant sees of a state.\<close>

type_synonym volley_view = "sunk list \<times> nat set \<times> (bool \<Rightarrow> goroutine) \<times> (string \<Rightarrow> u64)"

definition view :: "('m \<Rightarrow> nat set) \<Rightarrow> ('m \<Rightarrow> bool \<Rightarrow> goroutine) \<Rightarrow> 'm process world \<Rightarrow> volley_view" where
  "view unbuf stat w = (kept w, unbuf (machine (rest w)), stat (machine (rest w)), u64_var (rest w))"

lemma begin_step:
  assumes "meet_law C S X unbuf stat" and "view unbuf stat w = (k, us, st, vars)" and "st me = GRunning"
    and "Default \<notin> set cs" and "(\<Union>a \<in> set cs. chan_of_case a) \<subseteq> us"
  shows "offers (st (\<not> me)) cs = [] \<Longrightarrow> \<exists>w'. begins (sel_begin X me cs) go wait w = Some (wait, w')
      \<and> view unbuf stat w' = (k, us, st(me := GParked cs), vars)"
    and "offers (st (\<not> me)) cs = [(i, j, v)] \<Longrightarrow> \<exists>w'. begins (sel_begin X me cs) go wait w = Some (go (i, v, True), w')
      \<and> view unbuf stat w' = (k, us, st(\<not> me := GWoken (j, v, True)), vars)"
proof -
  have m: "stat (machine (rest w)) = st" "unbuf (machine (rest w)) = us" "kept w = k" "u64_var (rest w) = vars"
    using assms(2) by (simp_all add: view_def)
  note l = sel_beginD [OF assms(1), where m = "machine (rest w)" and me = me and cs = cs, unfolded m, OF assms(3-5)]
  show "offers (st (\<not> me)) cs = [] \<Longrightarrow> \<exists>w'. begins (sel_begin X me cs) go wait w = Some (wait, w')
      \<and> view unbuf stat w' = (k, us, st(me := GParked cs), vars)"
    using l(1-3) m by (simp add: begins_def view_def split_beta Let_def)
  show "offers (st (\<not> me)) cs = [(i, j, v)] \<Longrightarrow> \<exists>w'. begins (sel_begin X me cs) go wait w = Some (go (i, v, True), w')
      \<and> view unbuf stat w' = (k, us, st(\<not> me := GWoken (j, v, True)), vars)"
    using l(1) l(4,5) [of i j v] m by (simp add: begins_def view_def split_beta Let_def)
qed

lemma end_step:
  assumes "meet_law C S X unbuf stat" and "view unbuf stat w = (k, us, st, vars)"
  shows "st me = GWoken a \<Longrightarrow> \<exists>w'. wakes (sel_end X me) go w = Some (go a, w')
      \<and> view unbuf stat w' = (k, us, st(me := GRunning), vars)"
    and "is_parked (st me) \<Longrightarrow> wakes (sel_end X me) go w = None"
proof -
  have m: "stat (machine (rest w)) = st" "unbuf (machine (rest w)) = us" "kept w = k" "u64_var (rest w) = vars"
    using assms(2) by (simp_all add: view_def)
  note l = sel_endD [OF assms(1), where m = "machine (rest w)" and me = me, unfolded m]
  { assume "st me = GWoken a"
    then obtain t m' where "sel_end X me (machine (rest w)) = Some (a, t, m')" using l(1) by blast
    with l(3,4) m show "\<exists>w'. wakes (sel_end X me) go w = Some (go a, w')
      \<and> view unbuf stat w' = (k, us, st(me := GRunning), vars)"
      by (simp add: wakes_def view_def) }
  { assume "is_parked (st me)"
    with l(2) show "wakes (sel_end X me) go w = None" by (auto simp: wakes_def is_parked_def) }
qed

lemma other_steps:
  assumes "meet_law C S X unbuf stat" and "view unbuf stat w = (k, us, st, vars)"
  shows "host_ok h \<Longrightarrow> \<exists>w'. moves_to p (resuming h) w = Some (p, w') \<and> view unbuf stat w' = (k, us, st, vars)"
    and "host_ok h \<Longrightarrow> \<exists>w'. moves_to p (pausing h) w = Some (p, w') \<and> view unbuf stat w' = (k, us, st, vars)"
    and "\<exists>w'. moves_to p (set_u64 x u) w = Some (p, w') \<and> view unbuf stat w' = (k, us, st, vars(x := u))"
    and "\<exists>w'. moves_to q (counting_child x) w = Some (q, w')
      \<and> view unbuf stat w' = (k, us, st, vars(x := take_bit 32 (vars x + 1)))"
    and "\<exists>w'. moves_to q (call_op (go_return X)) w = Some (q, w') \<and> view unbuf stat w' = (k, us, st(False := GGone), vars)"
  using assms(2)
  by (simp_all add: view_def moves_to_def resuming_def pausing_def timer_simps host_ok_sel counting_child_def
      reading_def set_u64_def assign_def perform_def calling_def split_beta meet_lawD(11,12) [OF assms(1)])

section \<open>The invariant and the rank\<close>

definition meeting_ok :: "volley_shape \<Rightarrow> nat \<Rightarrow> nat set \<Rightarrow> sunk list \<Rightarrow> ((bool \<Rightarrow> goroutine) \<Rightarrow> u64 \<Rightarrow> bool)
    \<Rightarrow> main_loc \<Rightarrow> child_loc \<Rightarrow> volley_view \<Rightarrow> bool" where
  "meeting_ok Z n chs sink over p q = (\<lambda>(k, us, st, vars). k = sink \<and> us = chs
     \<and> main_here Z n p (st True) (vars (stop_flag Z))
     \<and> child_here Z (phase_of p (awake (st True))) q (st False) (vars (gone_count Z))
     \<and> \<not> (is_parked (st True) \<and> is_parked (st False)) \<and> (p = VmOut \<longrightarrow> over st (vars (gone_count Z))))"

definition volley_rank :: "nat \<Rightarrow> main_loc \<Rightarrow> child_loc \<Rightarrow> volley_view \<Rightarrow> nat" where
  "volley_rank n p q = (\<lambda>(k, us, st, vars).
     20 * meetings_left n p (awake (st True)) + main_steps p (awake (st True)) + child_steps q (awake (st False)))"

fun volley_busy :: "volley_shape \<Rightarrow> ((bool \<Rightarrow> goroutine) \<Rightarrow> u64 \<Rightarrow> bool) \<Rightarrow> main_loc \<Rightarrow> volley_view \<Rightarrow> bool" where
  "volley_busy Z over VmAway (k, us, st, vars) = over st (vars (gone_count Z))"
| "volley_busy Z over p (k, us, st, vars) = (\<not> is_parked (st True))"

text \<open>What a wait for the child at the end has to do.\<close>

definition awaits :: "('m process world \<Rightarrow> (bool \<times> 'm process world) option) \<Rightarrow> ('m \<Rightarrow> nat set) \<Rightarrow> ('m \<Rightarrow> bool \<Rightarrow> goroutine)
    \<Rightarrow> string \<Rightarrow> ((bool \<Rightarrow> goroutine) \<Rightarrow> u64 \<Rightarrow> bool) \<Rightarrow> bool" where
  "awaits away unbuf stat x over \<longleftrightarrow>
     (\<forall>w. if over (stat (machine (rest w))) (u64_var (rest w) x)
        then \<exists>w'. away w = Some (True, w') \<and> view unbuf stat w' = view unbuf stat w
        else \<forall>b w'. away w = Some (b, w') \<longrightarrow> \<not> b \<and> view unbuf stat w' = view unbuf stat w)
   \<and> (\<forall>st. st False = GGone \<longrightarrow> over st 1) \<and> (\<forall>st. over st 0 \<longrightarrow> is_parked (st False) \<or> st False = GGone)"

lemma offers_simps [simp]: "offers GRunning cs = []" "offers GGone cs = []" "offers (GWoken a) cs = []"
  "offers (GParked ds) cs = meetings cs ds"
  by (simp_all add: offers_def)

lemma offers_awake: "awake g \<Longrightarrow> offers g cs = []" and not_parked_awake: "awake g \<Longrightarrow> \<not> is_parked g"
  by (auto simp: awake_def)

text \<open>Where a goroutine is parked that the other one may meet.\<close>

lemma child_asking: "child_here Z Asking q g gone \<Longrightarrow>
    \<not> is_parked g \<and> offers g cs = [] \<or> q = VcRecvW \<and> g = GParked (child_receives_on Z)"
  by (cases q) (auto simp: inside_def offers_awake not_parked_awake split: if_splits)

lemma child_replying: "child_here Z Replying q g gone \<Longrightarrow>
    \<not> is_parked g \<and> offers g cs = [] \<or> q = VcSendW \<and> (\<exists>v. g = GParked (child_sends_on Z v))"
  by (cases q) (auto simp: inside_def offers_awake not_parked_awake split: if_splits)

lemma main_asking: "main_here Z n p g stop \<Longrightarrow> phase_of p (awake g) = Asking \<Longrightarrow>
    \<not> is_parked g \<and> offers g cs = [] \<or> (\<exists>i. p = VmSendW i \<and> g = GParked (main_sends_on Z))
    \<or> p = VmLastW \<and> g = GParked (main_ends_on Z)"
  by (cases p) (auto simp: inside_def offers_awake not_parked_awake split: if_splits)

lemma main_replying: "main_here Z n p g stop \<Longrightarrow> phase_of p (awake g) = Replying \<Longrightarrow>
    \<not> is_parked g \<and> offers g cs = [] \<or> (\<exists>i. p = VmRecvW i \<and> g = GParked (main_receives_on Z))"
  by (cases p) (auto simp: inside_def offers_awake not_parked_awake split: if_splits)

lemma fittingD:
  assumes "fitting Z chs"
  shows "\<exists>u. meetings (main_sends_on Z) (child_receives_on Z) = [(0, 0, u)] \<and> meetings (child_receives_on Z) (main_sends_on Z) = [(0, 0, u)]"
    "\<exists>u. meetings (main_ends_on Z) (child_receives_on Z) = [(0, 0, u)] \<and> meetings (child_receives_on Z) (main_ends_on Z) = [(0, 0, u)]"
    "\<exists>u. meetings (child_sends_on Z v) (main_receives_on Z) = [(0, 0, u)] \<and> meetings (main_receives_on Z) (child_sends_on Z v) = [(0, 0, u)]"
    "child_took Z (0, v, True)" "child_sent Z (0, v, True)" "stop_flag Z \<noteq> gone_count Z" "gone_count Z \<noteq> stop_flag Z"
proof -
  note f = assms [unfolded fitting_def one_meeting_def]
  from f show "\<exists>u. meetings (main_sends_on Z) (child_receives_on Z) = [(0, 0, u)] \<and> meetings (child_receives_on Z) (main_sends_on Z) = [(0, 0, u)]" by (elim conjE)
  from f show "\<exists>u. meetings (main_ends_on Z) (child_receives_on Z) = [(0, 0, u)] \<and> meetings (child_receives_on Z) (main_ends_on Z) = [(0, 0, u)]" by (elim conjE)
  from f show "\<exists>u. meetings (child_sends_on Z v) (main_receives_on Z) = [(0, 0, u)] \<and> meetings (main_receives_on Z) (child_sends_on Z v) = [(0, 0, u)]" by simp
  from f show "child_took Z (0, v, True)" "child_sent Z (0, v, True)" "stop_flag Z \<noteq> gone_count Z" by simp_all
  then show "gone_count Z \<noteq> stop_flag Z" by (metis not_sym)
qed

lemma fitting_cases:
  assumes "fitting Z chs" and "cs \<in> shape_cases Z"
  shows "Default \<notin> set cs" "(\<Union>a \<in> set cs. chan_of_case a) \<subseteq> chs"
  using assms unfolding fitting_def by blast+

lemma shape_cases_in [simp]: "main_sends_on Z \<in> shape_cases Z" "main_receives_on Z \<in> shape_cases Z"
  "main_ends_on Z \<in> shape_cases Z" "child_receives_on Z \<in> shape_cases Z" "child_sends_on Z v \<in> shape_cases Z"
  by (simp_all add: shape_cases_def)

text \<open>A step of the main goroutine that begins an operation on which the child may be parked.\<close>

lemma main_begins:
  assumes "meet_law C S X unbuf stat" and "fitting Z chs" and "view unbuf stat w = (k, chs, st, vars)"
    and "st True = GRunning" and "cs \<in> shape_cases Z" and "offers (st False) cs = [] \<or> offers (st False) cs = [(0, 0, u)]"
  shows "\<exists>w'. begins (sel_begin X True cs) go wait w = Some (if offers (st False) cs = [] then wait else go (0, u, True), w')
    \<and> view unbuf stat w' = (k, chs, if offers (st False) cs = [] then st(True := GParked cs) else st(False := GWoken (0, u, True)), vars)"
  using begin_step(1) [OF assms(1,3), of True cs go wait] begin_step(2) [OF assms(1,3), of True cs 0 0 u go wait] fitting_cases [OF assms(2,5)] assms(4,6) by auto

lemma child_begins:
  assumes "meet_law C S X unbuf stat" and "fitting Z chs" and "view unbuf stat w = (k, chs, st, vars)"
    and "st False = GRunning" and "cs \<in> shape_cases Z" and "offers (st True) cs = [] \<or> offers (st True) cs = [(0, 0, u)]"
  shows "\<exists>w'. begins (sel_begin X False cs) go wait w = Some (if offers (st True) cs = [] then wait else go (0, u, True), w')
    \<and> view unbuf stat w' = (k, chs, if offers (st True) cs = [] then st(False := GParked cs) else st(True := GWoken (0, u, True)), vars)"
  using begin_step(1) [OF assms(1,3), of False cs go wait] begin_step(2) [OF assms(1,3), of False cs 0 0 u go wait] fitting_cases [OF assms(2,5)] assms(4,6) by auto

text \<open>Every location of the main goroutine that can move, in turn.\<close>

lemma main_lowers:
  fixes w :: "'m process world"
  assumes "host_ok h" and "meet_law C S X unbuf stat" and "fitting Z chs" and "awaits away unbuf stat (gone_count Z) over"
    and "meeting_ok Z n chs sink over p q (view unbuf stat w)" and "p \<noteq> VmOut" and "volley_busy Z over p (view unbuf stat w)"
  shows "\<exists>p' w'. volley_main h X Z away n p w = Some (p', w') \<and> meeting_ok Z n chs sink over p' q (view unbuf stat w')
    \<and> volley_rank n p' q (view unbuf stat w') < volley_rank n p q (view unbuf stat w)"
proof -
  obtain k us st vars where v: "view unbuf stat w = (k, us, st, vars)" by (metis surj_pair)
  note ok = assms(5) [unfolded v meeting_ok_def prod.case]
  from ok have us: "us = chs" and k: "k = sink" and main: "main_here Z n p (st True) (vars (stop_flag Z))"
    and child: "child_here Z (phase_of p (awake (st True))) q (st False) (vars (gone_count Z))"
    and np: "\<not> (is_parked (st True) \<and> is_parked (st False))" by simp_all
  note v = v [unfolded us k]
  note quiet = other_steps [OF assms(2) v]
  note starts = main_begins [OF assms(2,3) v]
  note fit = fittingD [OF assms(3)]
  note defs = meeting_ok_def volley_rank_def v
  show ?thesis
  proof (cases p)
    case VmStart
    with main child show ?thesis using quiet(1) [OF assms(1), of "VmSend 0"] by (auto simp: defs)
  next
    case VmStop
    with main child obtain w' where "volley_main h X Z away n p w = Some (VmLast, w')"
      "view unbuf stat w' = (sink, chs, st, vars(stop_flag Z := 1))" using quiet(3) [of VmLast "stop_flag Z" 1] by auto
    with VmStop main child fit(6,7) show ?thesis by (simp add: defs)
  next
    case (VmSend i)
    show ?thesis
    proof (cases "i < n")
      case True
      from VmSend main child have run: "st True = GRunning" and ask: "child_here Z Asking q (st False) (vars (gone_count Z))" by simp_all
      obtain u where u: "meetings (main_sends_on Z) (child_receives_on Z) = [(0, 0, u)]" using fit(1) by blast
      let ?o = "offers (st False) (main_sends_on Z) = []"
      from child_asking [OF ask, of "main_sends_on Z"] u
      have o: "?o \<and> \<not> is_parked (st False) \<or> \<not> ?o \<and> q = VcRecvW \<and> st False = GParked (child_receives_on Z)" by auto
      have "?o \<or> offers (st False) (main_sends_on Z) = [(0, 0, u)]" using o u by auto
      from starts [OF run shape_cases_in(1) this, of "\<lambda>_. VmRecv i" "VmSendW i"] obtain w' where
        w': "volley_main h X Z away n p w = Some (if ?o then VmSendW i else VmRecv i, w')"
        "view unbuf stat w' = (sink, chs, if ?o then st(True := GParked (main_sends_on Z)) else st(False := GWoken (0, u, True)), vars)"
        using VmSend True by auto
      from o w' VmSend True main ask run show ?thesis
        by (elim disjE conjE) (simp_all add: defs inside_def)
    next
      case False
      with VmSend main child show ?thesis using quiet(2) [OF assms(1), of VmStop] by (auto simp: defs)
    qed
  next
    case (VmSendW i)
    with main assms(7) obtain a where a: "st True = GWoken (0, a, True)" by (auto simp: inside_def awake_def v)
    from end_step(1) [OF assms(2) v a, of "\<lambda>_. VmRecv i"] VmSendW obtain w' where
      "volley_main h X Z away n p w = Some (VmRecv i, w')" "view unbuf stat w' = (sink, chs, st(True := GRunning), vars)" by auto
    with VmSendW main child a show ?thesis by (simp add: defs)
  next
    case (VmRecv i)
    from VmRecv main child have run: "st True = GRunning" and ask: "child_here Z Replying q (st False) (vars (gone_count Z))" by simp_all
    let ?o = "offers (st False) (main_receives_on Z) = []"
    have "\<exists>u x. ?o \<and> \<not> is_parked (st False) \<or> \<not> ?o \<and> q = VcSendW \<and> st False = GParked (child_sends_on Z x)
        \<and> offers (st False) (main_receives_on Z) = [(0, 0, u)]"
      using child_replying [OF ask, of "main_receives_on Z"]
    proof (elim disjE conjE exE)
      fix x assume "q = VcSendW" "st False = GParked (child_sends_on Z x)"
      moreover obtain u where "meetings (main_receives_on Z) (child_sends_on Z x) = [(0, 0, u)]" using fit(3) [of x] by blast
      ultimately show ?thesis by auto
    qed blast
    then obtain u x where o: "?o \<and> \<not> is_parked (st False) \<or> \<not> ?o \<and> q = VcSendW \<and> st False = GParked (child_sends_on Z x)
        \<and> offers (st False) (main_receives_on Z) = [(0, 0, u)]" by blast
    then have "?o \<or> offers (st False) (main_receives_on Z) = [(0, 0, u)]" by auto
    from starts [OF run shape_cases_in(2) this, of "\<lambda>_. VmSend (i + 1)" "VmRecvW i"] obtain w' where
      w': "volley_main h X Z away n p w = Some (if ?o then VmRecvW i else VmSend (i + 1), w')"
      "view unbuf stat w' = (sink, chs, if ?o then st(True := GParked (main_receives_on Z)) else st(False := GWoken (0, u, True)), vars)"
      using VmRecv by auto
    from o w' VmRecv main ask run show ?thesis
      by (elim disjE conjE) (auto simp: defs inside_def)
  next
    case (VmRecvW i)
    with main assms(7) obtain a where a: "st True = GWoken (0, a, True)" by (auto simp: inside_def awake_def v)
    from end_step(1) [OF assms(2) v a, of "\<lambda>_. VmSend (i + 1)"] VmRecvW obtain w' where
      "volley_main h X Z away n p w = Some (VmSend (i + 1), w')" "view unbuf stat w' = (sink, chs, st(True := GRunning), vars)" by auto
    moreover from VmRecvW main obtain d where "n = Suc (i + d)" by (auto dest: less_imp_Suc_add)
    ultimately show ?thesis using VmRecvW main child a by (simp add: defs)
  next
    case VmLast
    from VmLast main child have run: "st True = GRunning" and ask: "child_here Z Asking q (st False) (vars (gone_count Z))" by simp_all
    obtain u where u: "meetings (main_ends_on Z) (child_receives_on Z) = [(0, 0, u)]" using fit(2) by blast
    let ?o = "offers (st False) (main_ends_on Z) = []"
    from child_asking [OF ask, of "main_ends_on Z"] u
    have o: "?o \<and> \<not> is_parked (st False) \<or> \<not> ?o \<and> q = VcRecvW \<and> st False = GParked (child_receives_on Z)" by auto
    have "?o \<or> offers (st False) (main_ends_on Z) = [(0, 0, u)]" using o u by auto
    from starts [OF run shape_cases_in(3) this, of "\<lambda>_. VmAway" "VmLastW"] obtain w' where
      w': "volley_main h X Z away n p w = Some (if ?o then VmLastW else VmAway, w')"
      "view unbuf stat w' = (sink, chs, if ?o then st(True := GParked (main_ends_on Z)) else st(False := GWoken (0, u, True)), vars)"
      using VmLast by auto
    from o w' VmLast main ask run show ?thesis
      by (elim disjE conjE) (simp_all add: defs inside_def)
  next
    case VmLastW
    with main assms(7) obtain a where a: "st True = GWoken (0, a, True)" by (auto simp: inside_def awake_def v)
    from end_step(1) [OF assms(2) v a, of "\<lambda>_. VmAway"] VmLastW obtain w' where
      "volley_main h X Z away n p w = Some (VmAway, w')" "view unbuf stat w' = (sink, chs, st(True := GRunning), vars)" by auto
    with VmLastW main child a show ?thesis by (simp add: defs)
  next
    case VmAway
    with assms(7) have "over st (vars (gone_count Z))" by (simp add: v)
    moreover have "stat (machine (rest w)) = st" "u64_var (rest w) = vars" using v by (simp_all add: view_def)
    ultimately obtain w' where "away w = Some (True, w')" "view unbuf stat w' = view unbuf stat w"
      using assms(4) unfolding awaits_def by metis
    with VmAway main child \<open>over st (vars (gone_count Z))\<close> show ?thesis by (simp add: defs)
  qed (use assms(6) in simp)
qed

lemma child_lowers:
  fixes w :: "'m process world"
  assumes "meet_law C S X unbuf stat" and "fitting Z chs"
    and "meeting_ok Z n chs sink over p q (view unbuf stat w)" and "p \<noteq> VmOut" and "volley_child X Z q w = Some (q', w')"
  shows "meeting_ok Z n chs sink over p q' (view unbuf stat w')
    \<and> volley_rank n p q' (view unbuf stat w') < volley_rank n p q (view unbuf stat w)"
proof -
  obtain k us st vars where v: "view unbuf stat w = (k, us, st, vars)" by (metis surj_pair)
  note ok = assms(3) [unfolded v meeting_ok_def prod.case]
  from ok have us: "us = chs" and k: "k = sink" and main: "main_here Z n p (st True) (vars (stop_flag Z))"
    and child: "child_here Z (phase_of p (awake (st True))) q (st False) (vars (gone_count Z))"
    and np: "\<not> (is_parked (st True) \<and> is_parked (st False))" by simp_all
  note v = v [unfolded us k]
  note quiet = other_steps [OF assms(1) v]
  note starts = child_begins [OF assms(1,2) v]
  note fit = fittingD [OF assms(2)]
  note defs = meeting_ok_def volley_rank_def v
  have parked: "is_parked (st False) \<Longrightarrow> wakes (sel_end X False) go w = None" for go :: "sel_answer \<Rightarrow> child_loc"
    by (rule end_step(2) [OF assms(1) v])
  show ?thesis
  proof (cases q)
    case VcRecv
    with child have run: "st False = GRunning" and ask: "phase_of p (awake (st True)) = Asking" by simp_all
    let ?o = "offers (st True) (child_receives_on Z) = []"
    have "\<exists>u. ?o \<and> \<not> is_parked (st True) \<or> \<not> ?o \<and> offers (st True) (child_receives_on Z) = [(0, 0, u)]
        \<and> ((\<exists>i. p = VmSendW i \<and> st True = GParked (main_sends_on Z)) \<or> p = VmLastW \<and> st True = GParked (main_ends_on Z))"
      using main_asking [OF main ask, of "child_receives_on Z"] fit(1,2) by fastforce
    then obtain u where o: "?o \<and> \<not> is_parked (st True) \<or> \<not> ?o \<and> offers (st True) (child_receives_on Z) = [(0, 0, u)]
        \<and> ((\<exists>i. p = VmSendW i \<and> st True = GParked (main_sends_on Z)) \<or> p = VmLastW \<and> st True = GParked (main_ends_on Z))" by blast
    then have "?o \<or> offers (st True) (child_receives_on Z) = [(0, 0, u)]" by auto
    from starts [OF run shape_cases_in(4) this, of "\<lambda>(i, v, ok). if child_took Z (i, v, ok) then VcTest v else VcAdd" VcRecvW]
      assms(5) VcRecv fit(4)
    have s: "q' = (if ?o then VcRecvW else VcTest u)"
      "view unbuf stat w' = (sink, chs, if ?o then st(False := GParked (child_receives_on Z)) else st(True := GWoken (0, u, True)), vars)"
      by (auto split: if_splits)
    from o s VcRecv main ask child run show ?thesis
      by (elim disjE conjE exE) (auto simp: defs inside_def)
  next
    case VcRecvW
    with assms(5) parked have "\<not> is_parked (st False)" by auto
    with VcRecvW child obtain a where a: "st False = GWoken (0, a, True)" by (auto simp: inside_def awake_def)
    from end_step(1) [OF assms(1) v a, of "\<lambda>(i, v, ok). if child_took Z (i, v, ok) then VcTest v else VcAdd"] VcRecvW assms(5) fit(4)
    have "q' = VcTest a" "view unbuf stat w' = (sink, chs, st(False := GRunning), vars)" by auto
    with VcRecvW main child a assms(4) show ?thesis by (auto simp: defs)
  next
    case (VcTest a)
    with assms(5) have "q' = (if vars (stop_flag Z) \<noteq> 0 then VcAdd else VcSend a)" "w' = w" using v by (auto simp: view_def)
    with VcTest main child assms(4) show ?thesis by (cases p) (auto simp: defs split: if_splits)
  next
    case (VcSend a)
    with child have run: "st False = GRunning" and rep: "phase_of p (awake (st True)) = Replying" by simp_all
    let ?o = "offers (st True) (child_sends_on Z a) = []"
    have "\<exists>u i. ?o \<and> \<not> is_parked (st True) \<or> \<not> ?o \<and> offers (st True) (child_sends_on Z a) = [(0, 0, u)]
        \<and> p = VmRecvW i \<and> st True = GParked (main_receives_on Z)"
      using main_replying [OF main rep, of "child_sends_on Z a"] fit(3) [of a] by fastforce
    then obtain u i where o: "?o \<and> \<not> is_parked (st True) \<or> \<not> ?o \<and> offers (st True) (child_sends_on Z a) = [(0, 0, u)]
        \<and> p = VmRecvW i \<and> st True = GParked (main_receives_on Z)" by blast
    then have "?o \<or> offers (st True) (child_sends_on Z a) = [(0, 0, u)]" by auto
    from starts [OF run shape_cases_in(5) this, of "\<lambda>r. if child_sent Z r then VcRecv else VcAdd" VcSendW]
      assms(5) VcSend fit(5)
    have s: "q' = (if ?o then VcSendW else VcRecv)"
      "view unbuf stat w' = (sink, chs, if ?o then st(False := GParked (child_sends_on Z a)) else st(True := GWoken (0, u, True)), vars)"
      by (auto split: if_splits)
    from o s VcSend main rep child run show ?thesis
      by (elim disjE conjE) (auto simp: defs inside_def)
  next
    case VcSendW
    with assms(5) parked have "\<not> is_parked (st False)" by auto
    with VcSendW child obtain a where a: "st False = GWoken (0, a, True)" by (auto simp: inside_def awake_def)
    from end_step(1) [OF assms(1) v a, of "\<lambda>r. if child_sent Z r then VcRecv else VcAdd"] VcSendW assms(5) fit(5)
    have "q' = VcRecv" "view unbuf stat w' = (sink, chs, st(False := GRunning), vars)" by auto
    with VcSendW main child a show ?thesis by (auto simp: defs)
  next
    case VcAdd
    with assms(5) quiet(4) [of VcExit "gone_count Z"] have "q' = VcExit"
      "view unbuf stat w' = (sink, chs, st, vars(gone_count Z := take_bit 32 (vars (gone_count Z) + 1)))" by auto
    with VcAdd main child fit(6,7) assms(4) show ?thesis by (simp add: defs)
  next
    case VcExit
    with assms(5) quiet(5) [of VcGone] have "q' = VcGone" "view unbuf stat w' = (sink, chs, st(False := GGone), vars)" by auto
    with VcExit main child assms(4) show ?thesis by (simp add: defs)
  next
    case VcGone
    with assms(5) show ?thesis by simp
  qed
qed

section \<open>The volleys end\<close>

lemma volley_lively:
  fixes C :: "'m chan_lib"
  assumes "host_ok h" and "meet_law C S X unbuf stat" and "fitting Z chs" and "awaits away unbuf stat (gone_count Z) over"
  shows "lively (volley_main h X Z away n) (volley_child X Z) (\<lambda>p. p = VmOut)
    (\<lambda>(p, q, w). meeting_ok Z n chs sink over p q (view unbuf stat w))
    (\<lambda>(p, q, w). volley_rank n p q (view unbuf stat w)) (\<lambda>(p, q, w). volley_busy Z over p (view unbuf stat w))"
proof (rule lively_if_waiting; unfold prod.case)
  fix p q and w :: "'m process world"
  assume J: "meeting_ok Z n chs sink over p q (view unbuf stat w)" and fin: "p \<noteq> VmOut"
  obtain k us st vars where v: "view unbuf stat w = (k, us, st, vars)" by (metis surj_pair)
  have vw: "stat (machine (rest w)) = st" "u64_var (rest w) = vars" using v by (simp_all add: view_def)
  { assume "volley_busy Z over p (view unbuf stat w)"
    from main_lowers [OF assms J fin this]
    show "\<exists>p' w'. volley_main h X Z away n p w = Some (p', w') \<and> meeting_ok Z n chs sink over p' q (view unbuf stat w')
      \<and> volley_rank n p' q (view unbuf stat w') < volley_rank n p q (view unbuf stat w)" . }
  { fix p' w' assume idle: "\<not> volley_busy Z over p (view unbuf stat w)" and s: "volley_main h X Z away n p w = Some (p', w')"
    have parked: "is_parked (st True) \<Longrightarrow> wakes (sel_end X True) go w = None" for go :: "sel_answer \<Rightarrow> main_loc"
      by (rule end_step(2) [OF assms(2) v])
    have "p = VmAway"
      using J fin idle s parked by (cases p) (auto simp: v meeting_ok_def)
    moreover from this idle vw have "\<not> over (stat (machine (rest w))) (u64_var (rest w) (gone_count Z))" by (simp add: v)
    moreover from \<open>p = VmAway\<close> s obtain b where "away w = Some (b, w')" "p' = (if b then VmOut else VmAway)"
      by (auto simp: bind_eq_Some_conv split: if_splits)
    ultimately have "p = VmAway" "p' = VmAway" "view unbuf stat w' = view unbuf stat w"
      using assms(4) unfolding awaits_def by metis+
    with J idle show "meeting_ok Z n chs sink over p' q (view unbuf stat w')
        \<and> volley_rank n p' q (view unbuf stat w') = volley_rank n p q (view unbuf stat w)
        \<and> \<not> volley_busy Z over p' (view unbuf stat w') \<and> p' \<noteq> VmOut" by simp }
  { fix q' w' assume "volley_child X Z q w = Some (q', w')"
    from child_lowers [OF assms(2,3) J fin this]
    show "meeting_ok Z n chs sink over p q' (view unbuf stat w')
      \<and> volley_rank n p q' (view unbuf stat w') < volley_rank n p q (view unbuf stat w)" . }
  { assume idle: "\<not> volley_busy Z over p (view unbuf stat w)"
    have awake: "st False = GWoken a \<Longrightarrow> wakes (sel_end X False) go w \<noteq> None" for go :: "sel_answer \<Rightarrow> child_loc" and a
      using end_step(1) [OF assms(2) v, of False a] by fastforce
    have gone: "st False = GGone \<Longrightarrow> over st 1" using assms(4) by (simp add: awaits_def)
    have np: "\<not> is_parked (st False)"
    proof (cases "p = VmAway")
      case True
      with J show ?thesis by (cases q) (auto simp: v meeting_ok_def inside_def not_parked_awake)
    next
      case False
      with idle have "is_parked (st True)" by (cases p) (simp_all add: v)
      with J show ?thesis by (simp add: v meeting_ok_def)
    qed
    have "q \<noteq> VcGone"
    proof
      assume "q = VcGone"
      with J have "st False = GGone" "vars (gone_count Z) = 1" "phase_of p (awake (st True)) = Leaving" by (simp_all add: v meeting_ok_def)
      with gone idle J fin show False
        by (cases p) (auto simp: v meeting_ok_def is_parked_def split: if_splits)
    qed
    then show "volley_child X Z q w \<noteq> None"
      using J np awake
      by (cases q) (auto simp: v meeting_ok_def inside_def awake_def begins_def moves_to_def counting_child_def reading_def
        set_u64_def assign_def calling_def split_beta Let_def) }
qed

text \<open>
  When the main goroutine runs and the second one has just been launched, the volleys come back, with
  nothing in the sink, the channels as they were, and the child counted out once.
\<close>

lemma volleys_end:
  fixes w :: "'m process world"
  assumes "host_ok h" and "meet_law C S X unbuf stat" and "fitting Z (unbuf (machine (rest w)))"
    and "awaits away unbuf stat (gone_count Z) over" and "fair sc"
    and "stat (machine (rest w)) True = GRunning" and "stat (machine (rest w)) False = GRunning"
    and "u64_var (rest w) (stop_flag Z) = 0" and "u64_var (rest w) (gone_count Z) = 0"
  shows "\<exists>w'. play_volleys sc h X Z away w = Some w' \<and> kept w' = kept w \<and> unbuf (machine (rest w')) = unbuf (machine (rest w))
    \<and> u64_var (rest w') (gone_count Z) = 1 \<and> over (stat (machine (rest w'))) 1 \<and> \<not> is_parked (stat (machine (rest w')) False)"
proof -
  let ?n = "nat (b_n (bch w))"
  let ?J = "\<lambda>(p, q, v). meeting_ok Z ?n (unbuf (machine (rest w))) (kept w) over p q (view unbuf stat v)"
  have "?J (VmStart, VcRecv, w)" using assms(6-9) by (simp add: meeting_ok_def view_def)
  from together_total [OF assms(5) volley_lively [OF assms(1-4)] this]
  obtain w' q' where w': "play_volleys sc h X Z away w = Some w'" "?J (VmOut, q', w')"
    unfolding play_volleys_def reading_n_def by auto
  let ?st = "stat (machine (rest w'))" and ?u = "u64_var (rest w') (gone_count Z)"
  from w'(2) have c: "child_here Z Leaving q' (?st False) ?u" "over ?st ?u" by (simp_all add: meeting_ok_def view_def)
  moreover from c(1) have np: "\<not> is_parked (?st False)" by (cases q') (auto simp: inside_def not_parked_awake split: if_splits)
  moreover have "over ?st 0 \<Longrightarrow> is_parked (?st False) \<or> ?st False = GGone" using assms(4) by (simp add: awaits_def)
  ultimately have "?u = 1" by (cases q') (auto simp: inside_def split: if_splits)
  with w' c(2) np show ?thesis by (auto simp: meeting_ok_def view_def)
qed

lemma spin_awaits:
  assumes "meet_law C S X unbuf stat"
  shows "awaits (spin_until S x) unbuf stat x (\<lambda>st u. u \<noteq> 0)"
  by (simp add: awaits_def spin_until_def view_def calling_def split_beta meet_lawD(9,10) [OF assms])

section \<open>The frame of a ping pong\<close>

lemma make_step:
  assumes "meet_law C S X unbuf stat" and "view unbuf stat w = (k, us, st, vars)"
  shows "\<exists>c w'. (\<forall>f. calling (chan_make C 0) f w = f c w') \<and> c = fst (chan_make C 0 (machine (rest w)))
    \<and> (c \<noteq> 0 \<longrightarrow> c \<notin> us) \<and> view unbuf stat w' = (k, us \<union> ({c} - {0}), st, vars)"
proof -
  let ?c = "fst (chan_make C 0 (machine (rest w)))" and ?w = "snd (call (lib (chan_make C 0)) w)"
  have "\<forall>f. calling (chan_make C 0) f w = f ?c ?w" by (simp add: calling_def split_beta)
  moreover have "(?c \<noteq> 0 \<longrightarrow> ?c \<notin> us) \<and> view unbuf stat ?w = (k, us \<union> ({?c} - {0}), st, vars)"
    using assms(2) meet_lawD(1-4) [OF assms(1), of "machine (rest w)"] by (cases "?c = 0") (auto simp: view_def)
  ultimately show ?thesis by blast
qed

lemma make_all_step:
  assumes "meet_law C S X unbuf stat" and "view unbuf stat w = (k, us, st, vars)"
  shows "\<exists>ds w'. make_all C j cs f w = f (cs @ ds) w' \<and> length ds = j \<and> view unbuf stat w' = (k, us \<union> (set ds - {0}), st, vars)
    \<and> (0 \<notin> set ds \<longrightarrow> distinct ds \<and> set ds \<inter> us = {}) \<and> ((\<forall>m. fst (chan_make C 0 m) \<noteq> 0) \<longrightarrow> 0 \<notin> set ds)
    \<and> (set ds - {0}) \<inter> us = {}"
  using assms(2)
proof (induction j arbitrary: cs w us)
  case 0
  then show ?case by (intro exI [of _ "[]"]) auto
next
  case (Suc j)
  from make_step [OF assms(1) Suc.prems] obtain c w1 where c: "\<forall>f. calling (chan_make C 0) f w = f c w1"
    "c = fst (chan_make C 0 (machine (rest w)))" "c \<noteq> 0 \<longrightarrow> c \<notin> us" "view unbuf stat w1 = (k, us \<union> ({c} - {0}), st, vars)" by blast
  from Suc.IH [OF c(4), of "cs @ [c]"] obtain ds w' where ds: "make_all C j (cs @ [c]) f w1 = f ((cs @ [c]) @ ds) w'" "length ds = j"
    "view unbuf stat w' = (k, us \<union> ({c} - {0}) \<union> (set ds - {0}), st, vars)"
    "0 \<notin> set ds \<longrightarrow> distinct ds \<and> set ds \<inter> (us \<union> ({c} - {0})) = {}" "(\<forall>m. fst (chan_make C 0 m) \<noteq> 0) \<longrightarrow> 0 \<notin> set ds"
    "(set ds - {0}) \<inter> (us \<union> ({c} - {0})) = {}" by blast
  have "us \<union> ({c} - {0}) \<union> (set ds - {0}) = us \<union> (set (c # ds) - {0})" by auto
  with ds(3) have "view unbuf stat w' = (k, us \<union> (set (c # ds) - {0}), st, vars)" by simp
  moreover have "make_all C (Suc j) cs f w = f (cs @ c # ds) w'" using c(1) ds(1) by simp
  moreover have "0 \<notin> set (c # ds) \<longrightarrow> distinct (c # ds) \<and> set (c # ds) \<inter> us = {}" using c(3) ds(4) by auto
  moreover have "(\<forall>m. fst (chan_make C 0 m) \<noteq> 0) \<longrightarrow> 0 \<notin> set (c # ds)" using c(2) ds(5) by auto
  moreover have "(set (c # ds) - {0}) \<inter> us = {}" using c(3) ds(6) by auto
  ultimately show ?case using ds(2) by (intro exI [of _ "c # ds"] exI [of _ w']) simp
qed

lemma free_all_step:
  assumes "meet_law C S X unbuf stat" and "view unbuf stat w = (k, us, st, vars)"
  shows "\<exists>w'. free_all C cs w = Some w' \<and> view unbuf stat w' = (k, us - set cs, st, vars)"
  using assms(2) unfolding free_all_def
proof (induction cs arbitrary: w us)
  case (Cons c cs)
  have "view unbuf stat (snd (call (lib (chan_free C c)) w)) = (k, us - {c}, st, vars)"
    using Cons.prems meet_lawD(5,6) [OF assms(1), of c "machine (rest w)"] by (simp add: view_def)
  from Cons.IH [OF this] show ?case by (auto simp: calling_def split_beta Diff_insert2 [of us c "set cs"])
qed simp

text \<open>
  The frame comes back. Either the second goroutine never ran, and then something failed, or it was counted out
  once and the end of the body has been reached with the channels of the row.
\<close>

lemma volley_frame_ends:
  assumes "host_ok h" and "meet_law C S X unbuf stat" and "fair sc" and "awaits away unbuf stat gone over"
    and Z: "stop_flag (Z cs) = stop" "gone_count (Z cs) = gone"
    and fit: "0 \<notin> set cs \<Longrightarrow> fitting (Z cs) us"
    and w: "view unbuf stat w = (k, us, st, vars)" "st True = GRunning" "vars stop = 0" "vars gone = 0"
  shows "\<exists>v. volley_frame sc h S X Z away fin cs w = Some v \<and> \<not> ((\<forall>m. fst (go_launch S m)) \<and> 0 \<notin> set cs)
      \<and> view unbuf stat v = (k, us, st, vars)
    \<or> volley_frame sc h S X Z away fin cs w = fin cs v \<and> 0 \<notin> set cs
      \<and> (\<exists>st' vars'. view unbuf stat v = (k, us, st', vars') \<and> vars' gone = 1 \<and> over st' 1 \<and> \<not> is_parked (st' False))"
proof (cases "0 \<in> set cs")
  case True
  with w(1) show ?thesis by (intro exI [of _ w] disjI1) (simp add: volley_frame_def)
next
  case False
  let ?g = "call (lib (go_launch S)) w"
  have run: "volley_frame sc h S X Z away fin cs w
      = (if fst ?g then block [play_volleys sc h X (Z cs) away, fin cs] (snd ?g) else Some (snd ?g))"
    using False by (simp add: volley_frame_def calling_def split_beta del: block.simps)
  have v: "view unbuf stat (snd ?g) = (k, us, if fst ?g then st(False := GRunning) else st, vars)"
    using w(1) meet_lawD(7,8) [OF assms(2), of "machine (rest w)"] by (simp add: view_def)
  show ?thesis
  proof (cases "fst ?g")
    case True
    with v have m: "unbuf (machine (rest (snd ?g))) = us" "stat (machine (rest (snd ?g))) = st(False := GRunning)"
      "u64_var (rest (snd ?g)) = vars" "kept (snd ?g) = k" by (simp_all add: view_def)
    have "fitting (Z cs) (unbuf (machine (rest (snd ?g))))" using fit [OF False] by (simp only: m)
    from volleys_end [OF assms(1,2) this _ assms(3), of away over] assms(4) w(2-4)
    obtain u where "play_volleys sc h X (Z cs) away (snd ?g) = Some u" "kept u = k" "unbuf (machine (rest u)) = us" "u64_var (rest u) gone = 1"
      "over (stat (machine (rest u))) 1" "\<not> is_parked (stat (machine (rest u)) False)"
      unfolding Z m by auto
    with run True False show ?thesis by (intro exI [of _ u] disjI2) (simp add: view_def)
  next
    case not: False
    then have "\<not> (\<forall>m. fst (go_launch S m))" by auto
    with run v not show ?thesis by (intro exI [of _ "snd ?g"] disjI1) simp
  qed
qed

text \<open>Around it, for a body that needs nothing but a main goroutine that runs.\<close>

definition starts_main :: "'m runtime_lib \<Rightarrow> ('m \<Rightarrow> nat set) \<Rightarrow> ('m \<Rightarrow> bool \<Rightarrow> goroutine) \<Rightarrow> bool" where
  "starts_main R unbuf stat \<longleftrightarrow> runtime_keeps R unbuf \<and> (\<forall>m. stat (snd (snd (runtime_start R m))) True = GRunning)"

lemma one_p_frame_count:
  fixes w :: "'m process world"
  assumes "host_ok h" and "starts_main R unbuf stat"
    and "\<And>u st. view unbuf stat u = (kept w, unbuf (machine (rest w)), st, u64_var (rest w)) \<Longrightarrow> st True = GRunning \<Longrightarrow>
      b_n (bch u) = b_n (bch w) \<Longrightarrow>
      \<exists>u'. body u = Some u' \<and> Q (kept u') (unbuf (machine (rest u'))) (u64_var (rest u'))"
  shows "\<exists>w'. run_with_one_p h R body w = Some w' \<and> Q (kept w') (unbuf (machine (rest w'))) (u64_var (rest w'))"
proof -
  let ?v = "bench_pause (gettime h) w"
  let ?u = "snd (call (lib (runtime_start R)) (snd (call (lib (gomaxprocs R 1)) ?v)))"
  have v: "b_n (bch ?v) = b_n (bch w)" "kept ?v = kept w" "u64_var (rest ?v) = u64_var (rest w)" "machine (rest ?v) = machine (rest w)"
    by (simp_all add: timer_simps host_ok_sel [OF assms(1)])
  have r: "\<And>m. unbuf (snd (snd (runtime_start R m))) = unbuf m" "\<And>m. unbuf (snd (snd (runtime_stop R m))) = unbuf m"
    "\<And>k m. unbuf (snd (snd (gomaxprocs R k m))) = unbuf m" "\<And>m. stat (snd (snd (runtime_start R m))) True = GRunning"
    using assms(2) by (simp_all add: starts_main_def runtime_keeps_def)
  have "view unbuf stat ?u = (kept w, unbuf (machine (rest w)), stat (machine (rest ?u)), u64_var (rest w))"
    "stat (machine (rest ?u)) True = GRunning" "b_n (bch ?u) = b_n (bch w)"
    by (simp_all add: view_def v r)
  from assms(3) [OF this] obtain x where "body ?u = Some x" "Q (kept x) (unbuf (machine (rest x))) (u64_var (rest x))" by blast
  then show ?thesis
    by (simp add: run_with_one_p_def runtime_main_def pausing_def calling_def split_beta r)
qed

lemma one_p_frame:
  fixes w :: "'m process world"
  assumes "host_ok h" and "starts_main R unbuf stat"
    and "\<And>u st. view unbuf stat u = (kept w, unbuf (machine (rest w)), st, u64_var (rest w)) \<Longrightarrow> st True = GRunning \<Longrightarrow>
      \<exists>u'. body u = Some u' \<and> Q (kept u') (unbuf (machine (rest u'))) (u64_var (rest u'))"
  shows "\<exists>w'. run_with_one_p h R body w = Some w' \<and> Q (kept w') (unbuf (machine (rest w'))) (u64_var (rest w'))"
  by (rule one_p_frame_count [OF assms(1,2)]) (rule assms(3))

text \<open>The whole row, where the wait at the end is a spin and the channels are freed by the body.\<close>

definition volley_row :: "(nat \<Rightarrow> bool) \<Rightarrow> 'm host \<Rightarrow> 'm sched_lib \<Rightarrow> 'm chan_lib \<Rightarrow> 'm select_lib \<Rightarrow> nat \<Rightarrow> (nat list \<Rightarrow> volley_shape)
    \<Rightarrow> string \<Rightarrow> 'm cstmt" where
  "volley_row sc h S C X j Z gone = make_all C j [] (volley_frame sc h S X Z (spin_until S gone) (free_all C))"

lemma volley_row_moves [contract_rules]: "host_ok h \<Longrightarrow> does (advances clock) (volley_row sc h S C X j Z gone)"
  unfolding volley_row_def by (intro contract_rules spin_until_advances)

lemma volley_row_returns:
  assumes "host_ok h" and "meet_law C S X unbuf stat" and "fair sc"
    and flags: "\<And>cs. stop_flag (Z cs) = stop" "\<And>cs. gone_count (Z cs) = gone"
    and fit: "\<And>cs chs. distinct cs \<Longrightarrow> length cs = j \<Longrightarrow> set cs \<subseteq> chs \<Longrightarrow> fitting (Z cs) chs"
    and w: "view unbuf stat w = (k, us, st, vars)" "st True = GRunning" "vars stop = 0" "vars gone = 0"
  shows "\<exists>w'. volley_row sc h S C X j Z gone w = Some w' \<and> kept w' = k
    \<and> (u64_var (rest w') gone = 0 \<or> u64_var (rest w') gone = 1 \<and> unbuf (machine (rest w')) = us)
    \<and> ((\<forall>m. fst (chan_make C 0 m) \<noteq> 0 \<and> fst (go_launch S m)) \<longrightarrow> u64_var (rest w') gone = 1)"
proof -
  let ?f = "volley_frame sc h S X Z (spin_until S gone) (free_all C)"
  from make_all_step [OF assms(2) w(1), of j "[]" ?f] obtain cs u where
    u: "volley_row sc h S C X j Z gone w = ?f cs u" "length cs = j" "view unbuf stat u = (k, us \<union> (set cs - {0}), st, vars)"
    and cs: "0 \<notin> set cs \<longrightarrow> distinct cs \<and> set cs \<inter> us = {}" "(\<forall>m. fst (chan_make C 0 m) \<noteq> 0) \<longrightarrow> 0 \<notin> set cs"
    unfolding volley_row_def by auto
  have fits: "fitting (Z cs) (us \<union> (set cs - {0}))" if "0 \<notin> set cs"
    by (rule fit) (use that cs(1) u(2) in auto)
  from volley_frame_ends [where Z = Z and cs = cs and fin = "free_all C" and h = h and sc = sc,
      OF assms(1-3) spin_awaits [OF assms(2)] flags(1) flags(2) fits u(3) w(2-4)] obtain v where
    "?f cs u = Some v \<and> \<not> ((\<forall>m. fst (go_launch S m)) \<and> 0 \<notin> set cs) \<and> view unbuf stat v = (k, us \<union> (set cs - {0}), st, vars)
    \<or> ?f cs u = free_all C cs v \<and> 0 \<notin> set cs \<and> (\<exists>st' vars'. view unbuf stat v = (k, us \<union> (set cs - {0}), st', vars') \<and> vars' gone = 1)"
    by blast
  then show ?thesis
  proof (elim disjE conjE exE)
    assume "?f cs u = Some v" "\<not> ((\<forall>m. fst (go_launch S m)) \<and> 0 \<notin> set cs)" "view unbuf stat v = (k, us \<union> (set cs - {0}), st, vars)"
    with u(1) w(4) cs(2) show ?thesis by (auto simp: view_def)
  next
    fix st' vars' assume v: "?f cs u = free_all C cs v" "0 \<notin> set cs" "view unbuf stat v = (k, us \<union> (set cs - {0}), st', vars')"
      "vars' gone = 1"
    from free_all_step [OF assms(2) v(3), of cs] obtain x where "free_all C cs v = Some x"
      "view unbuf stat x = (k, us \<union> (set cs - {0}) - set cs, st', vars')" by blast
    moreover have "us \<union> (set cs - {0}) - set cs = us" using v(2) cs(1) by auto
    ultimately show ?thesis using u(1) v(1,4) by (simp add: view_def)
  qed
qed

lemma volley_bench_returns:
  fixes w :: "'m process world"
  assumes "host_ok h" and "meet_law C S X unbuf stat" and "starts_main R unbuf stat" and "fair sc"
    and flags: "\<And>cs. stop_flag (Z cs) = stop" "\<And>cs. gone_count (Z cs) = gone"
    and fit: "\<And>cs chs. distinct cs \<Longrightarrow> length cs = j \<Longrightarrow> set cs \<subseteq> chs \<Longrightarrow> fitting (Z cs) chs"
  shows "\<exists>w'. block [set_u64 stop 0, set_u64 gone 0, run_with_one_p h R (volley_row sc h S C X j Z gone)] w = Some w'
    \<and> kept w' = kept w
    \<and> (u64_var (rest w') gone = 0 \<or> u64_var (rest w') gone = 1 \<and> unbuf (machine (rest w')) = unbuf (machine (rest w)))
    \<and> ((\<forall>m. fst (chan_make C 0 m) \<noteq> 0 \<and> fst (go_launch S m)) \<longrightarrow> u64_var (rest w') gone = 1)"
proof -
  let ?w = "perform (\<lambda>p. p\<lparr>u64_var := (u64_var p)(stop := 0, gone := 0)\<rparr>) w"
  let ?all = "\<forall>m. fst (chan_make C 0 m) \<noteq> 0 \<and> fst (go_launch S m)"
  let ?Q = "\<lambda>k us vars. k = kept w \<and> (vars gone = 0 \<or> vars gone = 1 \<and> us = unbuf (machine (rest w))) \<and> (?all \<longrightarrow> vars gone = 1)"
  have row: "\<exists>u'. volley_row sc h S C X j Z gone u = Some u' \<and> ?Q (kept u') (unbuf (machine (rest u'))) (u64_var (rest u'))"
    if "view unbuf stat u = (kept ?w, unbuf (machine (rest ?w)), st, u64_var (rest ?w))" "st True = GRunning" for u st
    using volley_row_returns [OF assms(1,2,4) flags fit that] by (simp add: perform_def)
  have "\<exists>w'. run_with_one_p h R (volley_row sc h S C X j Z gone) ?w = Some w'
    \<and> ?Q (kept w') (unbuf (machine (rest w'))) (u64_var (rest w'))"
    by (rule one_p_frame [OF assms(1,3), where Q = ?Q]) (rule row)
  then show ?thesis by (simp add: set_u64_def assign_def perform_def)
qed

section \<open>Channels without a buffer that keep the promises\<close>

text \<open>The channels made and the states of the two goroutines.\<close>

lemma fresh_sum: "Suc (sum_list xs) \<notin> set (xs :: nat list)"
  using member_le_sum_list [of "Suc (sum_list xs)" xs] by auto

type_synonym meeting_point = "nat list \<times> (bool \<Rightarrow> goroutine)"

definition ref_unbuffered :: "meeting_point chan_lib" where
  "ref_unbuffered = \<lparr>chan_make = (\<lambda>k (made, st). let c = Suc (sum_list made) in (c, 1, (c # made, st))),
     chan_free = (\<lambda>c (made, st). ((), 1, (filter (\<lambda>d. d \<noteq> c) made, st))),
     chan_send = (\<lambda>c v m. None), chan_recv = (\<lambda>c m. None), chan_try_recv = (\<lambda>c m. ((0, False), 1, m)),
     chan_close = (\<lambda>c m. ((), 1, m)), chan_meet = (\<lambda>c v m. m)\<rparr>"

definition ref_goroutines :: "meeting_point sched_lib" where
  "ref_goroutines = \<lparr>go_launch = (\<lambda>(made, st). (True, 1, (made, st(False := GRunning)))), sched_yield = (\<lambda>m. (1, 1, m))\<rparr>"

definition meeting_begin :: "bool \<Rightarrow> sel_case list \<Rightarrow> meeting_point \<Rightarrow> sel_answer option \<times> nat \<times> meeting_point" where
  "meeting_begin me cs = (\<lambda>(made, st). case offers (st (\<not> me)) cs of
     [] \<Rightarrow> (None, 1, (made, st(me := GParked cs)))
   | (i, j, v) # _ \<Rightarrow> (Some (i, v, True), 1, (made, st(\<not> me := GWoken (j, v, True)))))"

definition meeting_end :: "bool \<Rightarrow> (sel_answer, meeting_point) blocking_op" where
  "meeting_end me = (\<lambda>(made, st). case st me of GWoken a \<Rightarrow> Some (a, 1, (made, st(me := GRunning))) | _ \<Rightarrow> None)"

definition ref_meeting :: "meeting_point select_lib" where
  "ref_meeting = \<lparr>sel_begin = meeting_begin, sel_end = meeting_end,
     go_return = (\<lambda>(made, st). ((), 1, (made, st(False := GGone))))\<rparr>"

definition ref_start :: "meeting_point runtime_lib" where
  "ref_start = \<lparr>runtime_start = (\<lambda>(made, st). ((), 1, (made, \<lambda>me. if me then GRunning else GGone))),
     runtime_stop = (\<lambda>m. ((), 1, m)), gomaxprocs = (\<lambda>k m. (1, 1, m)), gosched = (\<lambda>m. ((), 1, m))\<rparr>"

lemma ref_meeting_law: "meet_law ref_unbuffered ref_goroutines ref_meeting (\<lambda>(made, st). set made) snd"
proof -
  { fix me cs and m :: meeting_point
    have "let (r, t, m') = sel_begin ref_meeting me cs m in (\<lambda>(made, st). set made) m' = (\<lambda>(made, st). set made) m
           \<and> (case r of None \<Rightarrow> offers (snd m (\<not> me)) cs = [] \<and> snd m' = (snd m)(me := GParked cs)
              | Some (i, v, ok) \<Rightarrow> ok \<and> (\<exists>j. (i, j, v) \<in> set (offers (snd m (\<not> me)) cs)
                  \<and> snd m' = (snd m)(\<not> me := GWoken (j, v, True))))"
      by (cases m; cases "offers (snd m (\<not> me)) cs") (auto simp: ref_meeting_def meeting_begin_def) }
  moreover
  { fix me and m :: meeting_point
    have "case sel_end ref_meeting me m of None \<Rightarrow> \<nexists>a. snd m me = GWoken a
      | Some (a, t, m') \<Rightarrow> snd m me = GWoken a \<and> snd m' = (snd m)(me := GRunning) \<and> (\<lambda>(made, st). set made) m' = (\<lambda>(made, st). set made) m"
      by (cases m; cases "snd m me") (auto simp: ref_meeting_def meeting_end_def) }
  ultimately show ?thesis
    unfolding meet_law_def
    by (intro conjI allI impI) (auto simp: ref_unbuffered_def ref_goroutines_def ref_meeting_def fresh_sum Let_def)
qed

lemma ref_starts_main: "starts_main ref_start (\<lambda>(made, st). set made) snd"
  by (auto simp: starts_main_def runtime_keeps_def ref_start_def)

end
