(* ===== verification/Select_Bench.thy ===== *)
theory Select_Bench
  imports Volley
begin

text \<open>
  \<open>bench/select_bench.c\<close>: selects that find a case ready, that find none and take the default, and that
  wait. The channels are file statics in C, through which the second goroutine finds them; here they are
  passed on.
\<close>

section \<open>One goroutine\<close>

text \<open>A select, and a send, which is a select of one case.\<close>

definition selecting :: "'m select_lib \<Rightarrow> sel_case list \<Rightarrow> (sel_answer \<Rightarrow> 'm cstmt) \<Rightarrow> 'm cstmt" where
  "selecting X cases k = calling (sel_begin X True cases) (\<lambda>r. case r of
     Some a \<Rightarrow> k a
   | None \<Rightarrow> blocking (sel_end X True) k)"

definition sending :: "'m select_lib \<Rightarrow> nat \<Rightarrow> int \<Rightarrow> 'm cstmt" where
  "sending X c v = selecting X [Sending c v] (\<lambda>_. Some)"

definition two_chans :: "'m chan_lib \<Rightarrow> (nat \<Rightarrow> nat \<Rightarrow> 'm cstmt) \<Rightarrow> 'm cstmt" where
  "two_chans C k = calling (chan_make C 1) (\<lambda>c1. calling (chan_make C 1) (\<lambda>c2.
     if c1 = 0 \<or> c2 = 0 then Some else k c1 c2))"

definition select_uncontended_body :: "'m host \<Rightarrow> 'm chan_lib \<Rightarrow> 'm select_lib \<Rightarrow> 'm cstmt" where
  "select_uncontended_body h C X = two_chans C (\<lambda>c1 c2. block [
     sending X c1 1,
     resuming h,
     bench_loop (\<lambda>_. selecting X [Receiving c1, Receiving c2] (\<lambda>(which, got, ok).
       if which = 0 then sending X c2 got else sending X c1 got)),
     pausing h,
     call_op (chan_free C c1), call_op (chan_free C c2)])"

definition bench_select_uncontended :: "'m host \<Rightarrow> 'm runtime_lib \<Rightarrow> 'm chan_lib \<Rightarrow> 'm select_lib \<Rightarrow> 'm cstmt" where
  "bench_select_uncontended h R C X = run_with_one_p h R (select_uncontended_body h C X)"

definition default_body :: "'m host \<Rightarrow> 'm chan_lib \<Rightarrow> 'm select_lib \<Rightarrow> 'm cstmt" where
  "default_body h C X = two_chans C (\<lambda>c1 c2. block [
     resuming h,
     bench_loop (\<lambda>_. selecting X [Receiving c1, Receiving c2, Default] (\<lambda>(which, got, ok). keep_u64 (of_nat which))),
     pausing h,
     call_op (chan_free C c1), call_op (chan_free C c2)])"

definition bench_select_default :: "'m host \<Rightarrow> 'm runtime_lib \<Rightarrow> 'm chan_lib \<Rightarrow> 'm select_lib \<Rightarrow> 'm cstmt" where
  "bench_select_default h R C X = run_with_one_p h R (default_body h C X)"

definition ARMS :: nat where "ARMS = 8"

text \<open>The loop that fills \<open>wide\<close>; a failure returns from the body.\<close>

fun make_arms :: "'m chan_lib \<Rightarrow> nat \<Rightarrow> nat list \<Rightarrow> (nat list \<Rightarrow> 'm cstmt) \<Rightarrow> 'm cstmt" where
  "make_arms C 0 wide k = k wide"
| "make_arms C (Suc j) wide k = calling (chan_make C 1) (\<lambda>c. if c = 0 then Some else make_arms C j (wide @ [c]) k)"

definition eight_arms_body :: "'m host \<Rightarrow> 'm chan_lib \<Rightarrow> 'm select_lib \<Rightarrow> 'm cstmt" where
  "eight_arms_body h C X = make_arms C ARMS [] (\<lambda>wide. block [
     sending X (wide ! 0) 1,
     resuming h,
     bench_loop (\<lambda>_. selecting X (map Receiving wide) (\<lambda>(which, got, ok). sending X (wide ! ((which + 1) mod ARMS)) got)),
     pausing h,
     free_all C wide])"

definition bench_select_eight_arms :: "'m host \<Rightarrow> 'm runtime_lib \<Rightarrow> 'm chan_lib \<Rightarrow> 'm select_lib \<Rightarrow> 'm cstmt" where
  "bench_select_eight_arms h R C X = run_with_one_p h R (eight_arms_body h C X)"

section \<open>The ping pong\<close>

text \<open>The case lists of the two loops; the local tests are \<open>chan_select(...) != 0\<close>.\<close>

definition pp_cases :: "nat \<Rightarrow> nat \<Rightarrow> nat \<Rightarrow> volley_shape" where
  "pp_cases c1 c2 quit = \<lparr>
     main_sends_on = [Sending c1 1, Receiving quit],
     main_receives_on = [Receiving c2, Receiving quit],
     main_ends_on = [Sending c1 0],
     child_receives_on = [Receiving c1, Receiving quit],
     child_sends_on = (\<lambda>v. [Sending c2 v, Receiving quit]),
     child_took = (\<lambda>(which, v, ok). which = 0),
     child_sent = (\<lambda>(which, v, ok). which = 0),
     stop_flag = ''select.pp_stop'', gone_count = ''select.pp_gone''\<rparr>"

definition select_pingpong_body ::
  "(nat \<Rightarrow> bool) \<Rightarrow> 'm host \<Rightarrow> 'm sched_lib \<Rightarrow> 'm chan_lib \<Rightarrow> 'm select_lib \<Rightarrow> 'm cstmt" where
  "select_pingpong_body sc h S C X = volley_row sc h S C X 3 (\<lambda>cs. pp_cases (cs ! 0) (cs ! 1) (cs ! 2)) ''select.pp_gone''"

definition bench_select_pingpong ::
  "(nat \<Rightarrow> bool) \<Rightarrow> 'm host \<Rightarrow> 'm runtime_lib \<Rightarrow> 'm sched_lib \<Rightarrow> 'm chan_lib \<Rightarrow> 'm select_lib \<Rightarrow> 'm cstmt" where
  "bench_select_pingpong sc h R S C X = block [
     set_u64 ''select.pp_stop'' 0, set_u64 ''select.pp_gone'' 0,
     run_with_one_p h R (select_pingpong_body sc h S C X)]"

definition select_table ::
  "(nat \<Rightarrow> bool) \<Rightarrow> 'm host \<Rightarrow> 'm runtime_lib \<Rightarrow> 'm sched_lib \<Rightarrow> 'm chan_lib \<Rightarrow> 'm select_lib \<Rightarrow> (string \<times> 'm cstmt) list" where
  "select_table sc h R S C X = [
     (''select_uncontended'', bench_select_uncontended h R C X),
     (''select_default'', bench_select_default h R C X),
     (''select_eight_arms'', bench_select_eight_arms h R C X),
     (''select_pingpong'', bench_select_pingpong sc h R S C X)]"

section \<open>The contract\<close>

lemma selecting_moves [contract_rules]:
  "(\<And>a. does (advances clock) (k a)) \<Longrightarrow> does (advances clock) (selecting X cases k)"
  unfolding selecting_def by (intro contract_rules allI) (auto split: option.splits intro!: contract_rules)

lemma sending_moves [contract_rules]: "does (advances clock) (sending X c v)"
  unfolding sending_def by (intro contract_rules)

lemma make_arms_moves [contract_rules]:
  "(\<And>cs. does (advances clock) (k cs)) \<Longrightarrow> does (advances clock) (make_arms C j wide k)"
  by (induction j arbitrary: wide) (auto intro!: contract_rules)

lemma select_table_moves:
  assumes "host_ok h" and "(nm, f) \<in> set (select_table sc h R S C X)"
  shows "does (advances clock) f"
  using assms
  unfolding select_table_def bench_select_uncontended_def bench_select_default_def bench_select_eight_arms_def
    bench_select_pingpong_def select_uncontended_body_def default_body_def eight_arms_body_def
    select_pingpong_body_def two_chans_def
  by (auto intro!: contract_rules spin_until_advances simp: split_beta simp del: block.simps)

section \<open>What channels with a buffer promise one goroutine\<close>

text \<open>
  \<open>queued\<close> is what a channel holds, \<open>room\<close> how much it may hold, \<open>opened\<close> the channels made and not freed.
  What a case does that can run, with the value it received:
\<close>

fun runs :: "(nat \<Rightarrow> int list) \<Rightarrow> (nat \<Rightarrow> nat) \<Rightarrow> sel_case \<Rightarrow> (int \<times> (nat \<Rightarrow> int list)) option" where
  "runs q room (Sending c v) = (if length (q c) < room c then Some (v, q(c := q c @ [v])) else None)"
| "runs q room (Receiving c) = (case q c of [] \<Rightarrow> None | x # xs \<Rightarrow> Some (x, q(c := xs)))"
| "runs q room Default = None"

definition buffer_law :: "'m chan_lib \<Rightarrow> 'm select_lib \<Rightarrow> ('m \<Rightarrow> nat \<Rightarrow> int list) \<Rightarrow> ('m \<Rightarrow> nat \<Rightarrow> nat) \<Rightarrow> ('m \<Rightarrow> nat set) \<Rightarrow> bool" where
  "buffer_law C X queued room opened \<longleftrightarrow>
     (\<forall>k m. let (c, t, m') = chan_make C k m in if c = 0 then opened m' = opened m
        else c \<notin> opened m \<and> opened m' = insert c (opened m) \<and> queued m' = (queued m)(c := []) \<and> room m' = (room m)(c := k))
   \<and> (\<forall>c m. let (r, t, m') = chan_free C c m in opened m' = opened m - {c})
   \<and> (\<forall>cs m. (\<Union>a \<in> set cs. chan_of_case a) \<subseteq> opened m \<longrightarrow>
        (\<exists>a \<in> set cs. a = Default \<or> runs (queued m) (room m) a \<noteq> None) \<longrightarrow>
        (let (r, t, m') = sel_begin X True cs m in opened m' = opened m \<and> room m' = room m \<and>
          (case r of None \<Rightarrow> False | Some (i, v, ok) \<Rightarrow> i < length cs
            \<and> (if \<exists>a \<in> set cs. runs (queued m) (room m) a \<noteq> None
               then runs (queued m) (room m) (cs ! i) = Some (v, queued m')
               else cs ! i = Default \<and> queued m' = queued m))))"

lemma buffer_lawD:
  assumes "buffer_law C X queued room opened"
  shows "fst (chan_make C k m) = 0 \<Longrightarrow> opened (snd (snd (chan_make C k m))) = opened m"
    "fst (chan_make C k m) \<noteq> 0 \<Longrightarrow> fst (chan_make C k m) \<notin> opened m"
    "fst (chan_make C k m) \<noteq> 0 \<Longrightarrow> opened (snd (snd (chan_make C k m))) = insert (fst (chan_make C k m)) (opened m)"
    "fst (chan_make C k m) \<noteq> 0 \<Longrightarrow> queued (snd (snd (chan_make C k m))) = (queued m)(fst (chan_make C k m) := [])"
    "fst (chan_make C k m) \<noteq> 0 \<Longrightarrow> room (snd (snd (chan_make C k m))) = (room m)(fst (chan_make C k m) := k)"
    "opened (snd (snd (chan_free C c m))) = opened m - {c}"
  using assms by (simp_all add: buffer_law_def split_beta Let_def)

text \<open>A select of which a case, or the default, can run.\<close>

lemma buffer_select:
  assumes "buffer_law C X queued room opened" and "(\<Union>a \<in> set cs. chan_of_case a) \<subseteq> opened m"
    and "\<exists>a \<in> set cs. a = Default \<or> runs (queued m) (room m) a \<noteq> None"
  obtains i v ok t m' where "sel_begin X True cs m = (Some (i, v, ok), t, m')" "i < length cs" "opened m' = opened m" "room m' = room m"
    "\<exists>a \<in> set cs. runs (queued m) (room m) a \<noteq> None \<Longrightarrow> runs (queued m) (room m) (cs ! i) = Some (v, queued m')"
    "\<forall>a \<in> set cs. runs (queued m) (room m) a = None \<Longrightarrow> cs ! i = Default \<and> queued m' = queued m"
proof -
  obtain r t m' where r: "sel_begin X True cs m = (r, t, m')" by (metis surj_pair)
  have l: "let (r, t, m') = sel_begin X True cs m in opened m' = opened m \<and> room m' = room m \<and>
      (case r of None \<Rightarrow> False | Some (i, v, ok) \<Rightarrow> i < length cs
        \<and> (if \<exists>a \<in> set cs. runs (queued m) (room m) a \<noteq> None
           then runs (queued m) (room m) (cs ! i) = Some (v, queued m') else cs ! i = Default \<and> queued m' = queued m))"
    using assms unfolding buffer_law_def by blast
  show ?thesis
  proof (cases r)
    case (Some a)
    obtain i v ok where a: "a = (i, v, ok)" by (cases a)
    from l have "i < length cs" "opened m' = opened m" "room m' = room m"
      and c: "if \<exists>a \<in> set cs. runs (queued m) (room m) a \<noteq> None
         then runs (queued m) (room m) (cs ! i) = Some (v, queued m') else cs ! i = Default \<and> queued m' = queued m"
      by (simp_all add: r Some a)
    moreover have "\<forall>a \<in> set cs. runs (queued m) (room m) a = None \<Longrightarrow> cs ! i = Default \<and> queued m' = queued m"
      using c by auto
    ultimately show ?thesis using that r Some a by presburger
  qed (use l r in simp)
qed

section \<open>The rows of one goroutine\<close>

text \<open>One value is in exactly one of the channels, and each of them has room for one.\<close>

definition one_token :: "nat list \<Rightarrow> nat \<Rightarrow> (nat \<Rightarrow> int list) \<Rightarrow> (nat \<Rightarrow> nat) \<Rightarrow> bool" where
  "one_token cs j q room \<longleftrightarrow> j < length cs \<and> distinct cs
     \<and> (\<forall>i < length cs. room (cs ! i) = 1 \<and> q (cs ! i) = (if i = j then [1] else []))"

definition no_token :: "nat list \<Rightarrow> (nat \<Rightarrow> int list) \<Rightarrow> (nat \<Rightarrow> nat) \<Rightarrow> bool" where
  "no_token cs q room \<longleftrightarrow> distinct cs \<and> (\<forall>i < length cs. room (cs ! i) = 1 \<and> q (cs ! i) = [])"

lemma take_token:
  assumes "buffer_law C X queued room opened" and "set cs \<subseteq> opened m" and "one_token cs j (queued m) (room m)"
  shows "\<exists>t m'. sel_begin X True (map Receiving cs) m = (Some (j, 1, snd (snd (the (fst (sel_begin X True (map Receiving cs) m))))), t, m')
    \<and> opened m' = opened m \<and> no_token cs (queued m') (room m')"
proof -
  have j: "j < length cs" "runs (queued m) (room m) (Receiving (cs ! j)) = Some (1, (queued m)(cs ! j := []))"
    and others: "\<And>i. i < length cs \<Longrightarrow> i \<noteq> j \<Longrightarrow> runs (queued m) (room m) (Receiving (cs ! i)) = None"
    using assms(3) by (auto simp: one_token_def)
  have some: "\<exists>a \<in> set (map Receiving cs). runs (queued m) (room m) a \<noteq> None"
    using j by (intro bexI [of _ "Receiving (cs ! j)"]) auto
  have ch: "(\<Union>a \<in> set (map Receiving cs). chan_of_case a) \<subseteq> opened m" using assms(2) by auto
  obtain i v ok t m' where s: "sel_begin X True (map Receiving cs) m = (Some (i, v, ok), t, m')" "i < length (map Receiving cs)"
    "opened m' = opened m" "room m' = room m"
    "\<exists>a \<in> set (map Receiving cs). runs (queued m) (room m) a \<noteq> None \<Longrightarrow> runs (queued m) (room m) (map Receiving cs ! i) = Some (v, queued m')"
    using buffer_select [OF assms(1) ch] some by metis
  from s(5) [OF some] s(2) have run: "runs (queued m) (room m) (Receiving (cs ! i)) = Some (v, queued m')" by simp
  with others s(2) have "i = j" by fastforce
  with run j have "v = 1" "queued m' = (queued m)(cs ! j := [])" by auto
  with assms(3) s(3,4) have "no_token cs (queued m') (room m')"
    by (auto simp: one_token_def no_token_def)
  with s(1,3) \<open>i = j\<close> \<open>v = 1\<close> show ?thesis by simp
qed

lemma put_token:
  assumes "buffer_law C X queued room opened" and "set cs \<subseteq> opened m" and "no_token cs (queued m) (room m)" and "i < length cs"
  shows "\<exists>a t m'. sel_begin X True [Sending (cs ! i) 1] m = (Some a, t, m')
    \<and> opened m' = opened m \<and> one_token cs i (queued m') (room m')"
proof -
  have r: "runs (queued m) (room m) (Sending (cs ! i) 1) = Some (1, (queued m)(cs ! i := [1]))"
    using assms(3,4) by (auto simp: no_token_def)
  have ch: "(\<Union>a \<in> set [Sending (cs ! i) 1]. chan_of_case a) \<subseteq> opened m" using assms(2,4) by auto
  have some: "\<exists>a \<in> set [Sending (cs ! i) 1]. runs (queued m) (room m) a \<noteq> None" using r by simp
  obtain k v ok t m' where s: "sel_begin X True [Sending (cs ! i) 1] m = (Some (k, v, ok), t, m')" "k < length [Sending (cs ! i) 1]"
    "opened m' = opened m" "room m' = room m"
    "\<exists>a \<in> set [Sending (cs ! i) 1]. runs (queued m) (room m) a \<noteq> None \<Longrightarrow> runs (queued m) (room m) ([Sending (cs ! i) 1] ! k) = Some (v, queued m')"
    using buffer_select [OF assms(1) ch] some by metis
  from s(5) [OF some] s(2) r have "queued m' = (queued m)(cs ! i := [1])" by simp
  with assms(3,4) s(3,4) have "one_token cs i (queued m') (room m')"
    by (auto simp: one_token_def no_token_def nth_eq_iff_index_eq)
  with s(1,3) show ?thesis by blast
qed

text \<open>A select that runs at once.\<close>

lemma row_selecting:
  fixes P :: "'m asrt"
  assumes "\<And>m v. P m v \<Longrightarrow> \<exists>a t m'. sel_begin X True cs m = (Some a, t, m') \<and> R a m' v" and "\<And>a. triple (R a) (k a) g Q"
  shows "triple P (selecting X cs k) g Q"
  unfolding selecting_def
proof (rule row_calling [where R = "\<lambda>r m v. \<exists>a. r = Some a \<and> R a m v"])
  fix m v assume "P m v"
  with assms(1) obtain a t m' where "sel_begin X True cs m = (Some a, t, m')" "R a m' v" by blast
  then show "\<exists>a. fst (sel_begin X True cs m) = Some a \<and> R a (snd (snd (sel_begin X True cs m))) v" by simp
next
  fix r
  show "triple (\<lambda>m v. \<exists>a. r = Some a \<and> R a m v) (case r of Some a \<Rightarrow> k a | None \<Rightarrow> blocking (sel_end X True) k) g Q"
    using assms(2) by (cases r) (auto intro: row_false)
qed

abbreviation holds_chans :: "('m \<Rightarrow> nat set) \<Rightarrow> nat set \<Rightarrow> nat list \<Rightarrow> 'm \<Rightarrow> bool" where
  "holds_chans opened chs cs m \<equiv> set cs \<inter> chs = {} \<and> opened m = chs \<union> set cs"

lemma put_row:
  assumes "buffer_law C X queued room opened" and "i < length cs" and "v = 1"
  shows "triple (\<lambda>m u. holds_chans opened chs cs m \<and> no_token cs (queued m) (room m)) (sending X (cs ! i) v) (\<lambda>n. [])
    (\<lambda>m u. holds_chans opened chs cs m \<and> one_token cs i (queued m) (room m))"
  unfolding sending_def assms(3)
proof (rule row_selecting [where R = "\<lambda>a m u. holds_chans opened chs cs m \<and> one_token cs i (queued m) (room m)"])
  fix m assume h: "holds_chans opened chs cs m \<and> no_token cs (queued m) (room m)"
  then have "set cs \<subseteq> opened m" by simp
  from put_token [OF assms(1) this _ assms(2)] h
  show "\<exists>a t m'. sel_begin X True [Sending (cs ! i) 1] m = (Some a, t, m')
    \<and> holds_chans opened chs cs m' \<and> one_token cs i (queued m') (room m')" by metis
qed (rule row_Some)

text \<open>The round of the first and the third row: the value is taken from where it is and put elsewhere.\<close>

lemma bounce_row:
  assumes "buffer_law C X queued room opened" and "\<And>i. i < length cs \<Longrightarrow> to i < length cs"
    and "\<And>i got ok. i < length cs \<Longrightarrow> k (i, got, ok) = sending X (cs ! to i) got"
  shows "triple (\<lambda>m u. \<exists>j. holds_chans opened chs cs m \<and> one_token cs j (queued m) (room m)) (selecting X (map Receiving cs) k) (\<lambda>n. [])
    (\<lambda>m u. \<exists>j. holds_chans opened chs cs m \<and> one_token cs j (queued m) (room m))"
proof (rule row_selecting [where R = "\<lambda>(i, got, ok) m u. i < length cs \<and> got = 1 \<and> holds_chans opened chs cs m \<and> no_token cs (queued m) (room m)"])
  fix m and u :: "string \<Rightarrow> int" assume "\<exists>j. holds_chans opened chs cs m \<and> one_token cs j (queued m) (room m)"
  then obtain j where h: "holds_chans opened chs cs m" "one_token cs j (queued m) (room m)" by blast
  then have "set cs \<subseteq> opened m" by simp
  from take_token [OF assms(1) this h(2)] obtain ok t m' where "sel_begin X True (map Receiving cs) m = (Some (j, 1, ok), t, m')"
    "opened m' = opened m" "no_token cs (queued m') (room m')" by blast
  with h show "\<exists>a t m'. sel_begin X True (map Receiving cs) m = (Some a, t, m')
    \<and> (case a of (i, got, ok) \<Rightarrow> \<lambda>m u. i < length cs \<and> got = 1 \<and> holds_chans opened chs cs m \<and> no_token cs (queued m) (room m)) m' u"
    by (auto simp: one_token_def)
next
  fix a :: sel_answer
  obtain i got ok where a: "a = (i, got, ok)" by (cases a)
  show "triple ((case a of (i, got, ok) \<Rightarrow> \<lambda>m u. i < length cs \<and> got = 1 \<and> holds_chans opened chs cs m \<and> no_token cs (queued m) (room m)))
      (k a) (\<lambda>n. []) (\<lambda>m u. \<exists>j. holds_chans opened chs cs m \<and> one_token cs j (queued m) (room m))"
  proof (cases "i < length cs \<and> got = 1")
    case True
    then have "triple (\<lambda>m u. holds_chans opened chs cs m \<and> no_token cs (queued m) (room m)) (sending X (cs ! to i) got) (\<lambda>n. [])
      (\<lambda>m u. holds_chans opened chs cs m \<and> one_token cs (to i) (queued m) (room m))"
      by (intro put_row [OF assms(1)] assms(2)) auto
    then have "triple (\<lambda>m u. holds_chans opened chs cs m \<and> no_token cs (queued m) (room m)) (sending X (cs ! to i) got) (\<lambda>n. [])
      (\<lambda>m u. \<exists>j. holds_chans opened chs cs m \<and> one_token cs j (queued m) (room m))" by (rule row_post) blast
    with True show ?thesis by (simp add: a assms(3))
  next
    case False
    then show ?thesis by (intro row_false) (auto simp: a)
  qed
qed

lemma free_chans_row:
  assumes "buffer_law C X queued room opened"
  shows "triple (\<lambda>m u. opened m = chs) (block (map (\<lambda>c. call_op (chan_free C c)) cs)) (\<lambda>n. []) (\<lambda>m u. opened m = chs - set cs)"
proof (induction cs arbitrary: chs)
  case Nil
  show ?case by (simp add: row_Some)
next
  case (Cons c cs)
  have "triple (\<lambda>m u. opened m = chs) (call_op (chan_free C c)) (\<lambda>n. []) (\<lambda>m u. opened m = chs - {c})"
    by (rule row_call_op) (simp add: buffer_lawD(6) [OF assms])
  from row_then [OF this Cons.IH [of "chs - {c}"]] show ?case by (simp add: Diff_insert2 [symmetric] del: block.simps)
qed

lemma free_held_row:
  assumes "buffer_law C X queued room opened"
  shows "triple (\<lambda>m u. holds_chans opened chs cs m) (block (map (\<lambda>c. call_op (chan_free C c)) cs)) (\<lambda>n. []) (\<lambda>m u. opened m = chs)"
proof (cases "set cs \<inter> chs = {}")
  case True
  show ?thesis by (rule row_conseq [OF free_chans_row [OF assms, of "chs \<union> set cs" cs]]) (use True in auto)
qed (rule row_false, auto)

text \<open>The channels that a row makes, when the heap has room for them.\<close>

lemma make_row:
  assumes "buffer_law C X queued room opened" and "\<And>m. fst (chan_make C 1 m) \<noteq> 0"
    and "\<And>c. c \<noteq> 0 \<Longrightarrow> triple (\<lambda>m u. holds_chans opened chs (cs @ [c]) m \<and> no_token (cs @ [c]) (queued m) (room m)) (k c) g Q"
  shows "triple (\<lambda>m u. holds_chans opened chs cs m \<and> no_token cs (queued m) (room m)) (calling (chan_make C 1) k) g Q"
proof (rule row_calling [where R = "\<lambda>c m u. c \<noteq> 0 \<and> holds_chans opened chs (cs @ [c]) m \<and> no_token (cs @ [c]) (queued m) (room m)"])
  fix m and u :: "string \<Rightarrow> int" assume h: "holds_chans opened chs cs m \<and> no_token cs (queued m) (room m)"
  obtain c t m' where c: "chan_make C 1 m = (c, t, m')" by (metis surj_pair)
  note l = buffer_lawD(2-5) [OF assms(1) assms(2), of m, unfolded c fst_conv snd_conv]
  from h have "no_token (cs @ [c]) (queued m') (room m')"
    using l(1) by (auto simp: no_token_def l(3,4) nth_append less_Suc_eq)
  with h l(1) assms(2) [of m] show "fst (chan_make C 1 m) \<noteq> 0 \<and> holds_chans opened chs (cs @ [fst (chan_make C 1 m)]) (snd (snd (chan_make C 1 m)))
    \<and> no_token (cs @ [fst (chan_make C 1 m)]) (queued (snd (snd (chan_make C 1 m)))) (room (snd (snd (chan_make C 1 m))))"
    unfolding c fst_conv snd_conv by (auto simp: l(2))
next
  fix c
  show "triple (\<lambda>m u. c \<noteq> 0 \<and> holds_chans opened chs (cs @ [c]) m \<and> no_token (cs @ [c]) (queued m) (room m)) (k c) g Q"
    using assms(3) [of c] by (cases "c = 0") (auto intro: row_false)
qed

lemma one_p_select_row:
  assumes "host_ok h" and "runtime_keeps R opened" and "triple (\<lambda>m u. opened m = chs) body g (\<lambda>m u. opened m = chs)"
  shows "triple (\<lambda>m u. opened m = chs) (run_with_one_p h R body) g (\<lambda>m u. opened m = chs)"
  unfolding run_with_one_p_def
  by (rule row_then [OF row_timer(1) [OF assms(1)] row_end]) (rule row_procs [OF assms(2) row_runtime [OF assms(2,3)]])

lemma uncontended_row:
  assumes "host_ok h" and "buffer_law C X queued room opened" and "\<And>m. fst (chan_make C 1 m) \<noteq> 0"
  shows "triple (\<lambda>m u. opened m = chs) (select_uncontended_body h C X) (\<lambda>n. []) (\<lambda>m u. opened m = chs)"
proof -
  have "triple (\<lambda>m u. holds_chans opened chs [] m \<and> no_token [] (queued m) (room m))
    (select_uncontended_body h C X) (\<lambda>n. []) (\<lambda>m u. opened m = chs)"
    unfolding select_uncontended_body_def two_chans_def
  proof (rule make_row [OF assms(2,3)], unfold append_Nil, rule make_row [OF assms(2,3)], unfold append.simps)
    fix c1 c2 :: nat assume "c1 \<noteq> 0" "c2 \<noteq> 0"
    let ?P = "\<lambda>m u. holds_chans opened chs [c1, c2] m \<and> no_token [c1, c2] (queued m) (room m)"
    let ?I = "\<lambda>m u. \<exists>j. holds_chans opened chs [c1, c2] m \<and> one_token [c1, c2] j (queued m) (room m)"
    let ?k = "\<lambda>(which, got, ok). if which = 0 then sending X c2 got else sending X c1 got"
    have "triple ?P (sending X ([c1, c2] ! 0) 1) (\<lambda>n. []) ?I"
      by (rule row_post [OF put_row [OF assms(2)]]) auto
    then have seed: "triple ?P (sending X c1 1) (\<lambda>n. []) ?I" by simp
    have "triple ?I (selecting X (map Receiving [c1, c2]) ?k) (\<lambda>n. []) ?I"
      by (rule bounce_row [OF assms(2), where to = "\<lambda>i. if i = 0 then 1 else 0"]) auto
    then have loop: "triple ?I (bench_loop (\<lambda>_. selecting X [Receiving c1, Receiving c2] ?k)) (\<lambda>n. []) ?I"
      by (intro row_loop_none) simp
    have "triple ?I (block (map (\<lambda>c. call_op (chan_free C c)) [c1, c2])) (\<lambda>n. []) (\<lambda>m u. opened m = chs)"
      by (rule row_pre [OF free_held_row [OF assms(2)]]) blast
    then have free: "triple ?I (block [call_op (chan_free C c1), call_op (chan_free C c2)]) (\<lambda>n. []) (\<lambda>m u. opened m = chs)"
      by (simp del: block.simps)
    have "triple ?P (block [sending X c1 1, resuming h,
        bench_loop (\<lambda>_. selecting X [Receiving c1, Receiving c2] ?k), pausing h,
        call_op (chan_free C c1), call_op (chan_free C c2)]) (\<lambda>n. []) (\<lambda>m u. opened m = chs)"
      by (rule row_then [OF seed row_then [OF row_timer(2) [OF assms(1)] row_then [OF loop
          row_then [OF row_timer(1) [OF assms(1)] free]]]])
    with \<open>c1 \<noteq> 0\<close> \<open>c2 \<noteq> 0\<close> show "triple ?P (if c1 = 0 \<or> c2 = 0 then Some else block [sending X c1 1, resuming h,
        bench_loop (\<lambda>_. selecting X [Receiving c1, Receiving c2] ?k), pausing h,
        call_op (chan_free C c1), call_op (chan_free C c2)]) (\<lambda>n. []) (\<lambda>m u. opened m = chs)" by (simp only: simp_thms if_False)
  qed
  then show ?thesis by (rule row_pre) (simp add: no_token_def)
qed

lemma default_row:
  assumes "host_ok h" and "buffer_law C X queued room opened" and "\<And>m. fst (chan_make C 1 m) \<noteq> 0"
  shows "triple (\<lambda>m u. opened m = chs) (default_body h C X) (\<lambda>n. replicate (nat n) (KeptU64 2)) (\<lambda>m u. opened m = chs)"
proof -
  have "triple (\<lambda>m u. holds_chans opened chs [] m \<and> no_token [] (queued m) (room m))
    (default_body h C X) (\<lambda>n. replicate (nat n) (KeptU64 2)) (\<lambda>m u. opened m = chs)"
    unfolding default_body_def two_chans_def
  proof (rule make_row [OF assms(2,3)], unfold append_Nil, rule make_row [OF assms(2,3)], unfold append.simps)
    fix c1 c2 :: nat assume "c1 \<noteq> 0" "c2 \<noteq> 0"
    let ?P = "\<lambda>m u. holds_chans opened chs [c1, c2] m \<and> no_token [c1, c2] (queued m) (room m)"
    let ?cs = "[Receiving c1, Receiving c2, Default]"
    let ?k = "\<lambda>(which, got, ok). keep_u64 (of_nat which)"
    have round: "triple ?P (selecting X ?cs ?k) (\<lambda>n. [KeptU64 2]) ?P"
    proof (rule row_selecting [where R = "\<lambda>(i, got, ok) m u. i = 2 \<and> ?P m u"])
      fix m and u :: "string \<Rightarrow> int" assume h: "?P m u"
      then have q: "queued m c1 = []" "queued m c2 = []" by (auto simp: no_token_def less_Suc_eq)
      then have none: "\<forall>a \<in> set ?cs. runs (queued m) (room m) a = None" by simp
      have ch: "(\<Union>a \<in> set ?cs. chan_of_case a) \<subseteq> opened m" using h by auto
      have dflt: "\<exists>a \<in> set ?cs. a = Default \<or> runs (queued m) (room m) a \<noteq> None" by simp
      obtain i v ok t m' where s: "sel_begin X True ?cs m = (Some (i, v, ok), t, m')" "i < length ?cs" "opened m' = opened m" "room m' = room m"
        "?cs ! i = Default \<and> queued m' = queued m"
        by (rule buffer_select [OF assms(2) ch dflt]) (use none in blast)
      from s(2,5) have "i = 2" by (auto simp: less_Suc_eq numeral_2_eq_2 nth_Cons split: nat.splits)
      with s h show "\<exists>a t m'. sel_begin X True ?cs m = (Some a, t, m') \<and> (case a of (i, got, ok) \<Rightarrow> \<lambda>m u. i = 2 \<and> ?P m u) m' u"
        by auto
    next
      fix a :: sel_answer
      obtain i got ok where a: "a = (i, got, ok)" by (cases a)
      show "triple (case a of (i, got, ok) \<Rightarrow> \<lambda>m u. i = 2 \<and> ?P m u) (?k a) (\<lambda>n. [KeptU64 2]) ?P"
      proof (cases "i = 2")
        case True
        then show ?thesis using row_keeps(2) [of ?P 2] by (simp add: a)
      qed (intro row_false, simp add: a)
    qed
    have free: "triple ?P (block [call_op (chan_free C c1), call_op (chan_free C c2)]) (\<lambda>n. []) (\<lambda>m u. opened m = chs)"
      using row_pre [OF free_held_row [OF assms(2), where chs = chs and cs = "[c1, c2]"], of ?P] by (simp del: block.simps)
    have "triple ?P (block [resuming h, bench_loop (\<lambda>_. selecting X ?cs ?k), pausing h,
        call_op (chan_free C c1), call_op (chan_free C c2)]) (\<lambda>n. replicate (nat n) (KeptU64 2)) (\<lambda>m u. opened m = chs)"
      by (rule row_then [OF row_timer(2) [OF assms(1)] row_last [OF row_loop_inv [OF round]
          row_then [OF row_timer(1) [OF assms(1)] free]]])
    with \<open>c1 \<noteq> 0\<close> \<open>c2 \<noteq> 0\<close> show "triple ?P (if c1 = 0 \<or> c2 = 0 then Some else block [resuming h, bench_loop (\<lambda>_. selecting X ?cs ?k), pausing h,
        call_op (chan_free C c1), call_op (chan_free C c2)]) (\<lambda>n. replicate (nat n) (KeptU64 2)) (\<lambda>m u. opened m = chs)"
      by (simp only: simp_thms if_False)
  qed
  then show ?thesis by (rule row_pre) (simp add: no_token_def)
qed

lemma arms_row:
  assumes "buffer_law C X queued room opened" and "\<And>m. fst (chan_make C 1 m) \<noteq> 0"
    and "\<And>cs. length cs = length wide + j \<Longrightarrow>
      triple (\<lambda>m u. holds_chans opened chs cs m \<and> no_token cs (queued m) (room m)) (k cs) g Q"
  shows "triple (\<lambda>m u. holds_chans opened chs wide m \<and> no_token wide (queued m) (room m)) (make_arms C j wide k) g Q"
  using assms(3)
proof (induction j arbitrary: wide)
  case (Suc j wide)
  show ?case
    unfolding make_arms.simps
  proof (rule make_row [OF assms(1,2)])
    fix c :: nat assume "c \<noteq> 0"
    then show "triple (\<lambda>m u. holds_chans opened chs (wide @ [c]) m \<and> no_token (wide @ [c]) (queued m) (room m))
      (if c = 0 then Some else make_arms C j (wide @ [c]) k) g Q"
      using Suc.IH [of "wide @ [c]"] Suc.prems by (simp only: simp_thms if_False length_append list.size add_Suc_right add_0_right add_Suc)
  qed
qed simp

lemma eight_row:
  assumes "host_ok h" and "buffer_law C X queued room opened" and "\<And>m. fst (chan_make C 1 m) \<noteq> 0"
  shows "triple (\<lambda>m u. opened m = chs) (eight_arms_body h C X) (\<lambda>n. []) (\<lambda>m u. opened m = chs)"
proof -
  have "triple (\<lambda>m u. holds_chans opened chs [] m \<and> no_token [] (queued m) (room m))
    (eight_arms_body h C X) (\<lambda>n. []) (\<lambda>m u. opened m = chs)"
    unfolding eight_arms_body_def
  proof (rule arms_row [OF assms(2,3)])
    fix cs :: "nat list" assume len: "length cs = length ([] :: nat list) + ARMS"
    let ?P = "\<lambda>m u. holds_chans opened chs cs m \<and> no_token cs (queued m) (room m)"
    let ?I = "\<lambda>m u. \<exists>j. holds_chans opened chs cs m \<and> one_token cs j (queued m) (room m)"
    let ?k = "\<lambda>(which, got, ok). sending X (cs ! ((which + 1) mod ARMS)) got"
    have seed: "triple ?P (sending X (cs ! 0) 1) (\<lambda>n. []) ?I"
      by (rule row_post [OF put_row [OF assms(2)]]) (auto simp: len ARMS_def)
    have "triple ?I (selecting X (map Receiving cs) ?k) (\<lambda>n. []) ?I"
      by (rule bounce_row [OF assms(2), where to = "\<lambda>i. (i + 1) mod ARMS"]) (simp_all add: len ARMS_def)
    then have loop: "triple ?I (bench_loop (\<lambda>_. selecting X (map Receiving cs) ?k)) (\<lambda>n. []) ?I" by (rule row_loop_none)
    have free: "triple ?I (block [free_all C cs]) (\<lambda>n. []) (\<lambda>m u. opened m = chs)"
      unfolding free_all_def by (rule row_end, rule row_pre [OF free_held_row [OF assms(2)]]) blast
    show "triple ?P (block [sending X (cs ! 0) 1, resuming h, bench_loop (\<lambda>_. selecting X (map Receiving cs) ?k), pausing h,
        free_all C cs]) (\<lambda>n. []) (\<lambda>m u. opened m = chs)"
      by (rule row_then [OF seed row_then [OF row_timer(2) [OF assms(1)] row_then [OF loop
          row_then [OF row_timer(1) [OF assms(1)] free]]]])
  qed
  then show ?thesis by (rule row_pre) (simp add: no_token_def)
qed

text \<open>
  Functional: the selects of one goroutine never wait. When the channels can be made, the value of the first row
  and of the row with eight arms is in one channel at the top of every round and is found there, whatever
  order the cases are tried in; the row with a default takes it in every round and hands 2 to the sink; and every channel is given back.
\<close>
theorem select_rows_never_wait:
  assumes "host_ok h" and "buffer_law C X queued room opened" and "runtime_keeps R opened"
    and "\<And>m. fst (chan_make C 1 m) \<noteq> 0"
  shows "(\<exists>w'. bench_select_uncontended h R C X w = Some w' \<and> kept w' = kept w \<and> opened (machine (rest w')) = opened (machine (rest w)))
    \<and> (\<exists>w'. bench_select_default h R C X w = Some w' \<and> kept w' = kept w @ replicate (nat (b_n (bch w))) (KeptU64 2)
        \<and> opened (machine (rest w')) = opened (machine (rest w)))
    \<and> (\<exists>w'. bench_select_eight_arms h R C X w = Some w' \<and> kept w' = kept w \<and> opened (machine (rest w')) = opened (machine (rest w)))"
  using rowD [OF one_p_select_row [OF assms(1,3) uncontended_row [OF assms(1,2,4)]], of w]
    rowD [OF one_p_select_row [OF assms(1,3) default_row [OF assms(1,2,4)]], of w]
    rowD [OF one_p_select_row [OF assms(1,3) eight_row [OF assms(1,2,4)]], of w]
  unfolding bench_select_uncontended_def bench_select_default_def bench_select_eight_arms_def by auto

section \<open>The ping pong comes back\<close>

lemma pp_cases_fit:
  assumes "distinct cs" and "length cs = 3" and "set cs \<subseteq> chs"
  shows "fitting (pp_cases (cs ! 0) (cs ! 1) (cs ! 2)) chs"
proof -
  obtain c1 c2 quit where "cs = [c1, c2, quit]" using assms(2) by (auto simp: numeral_3_eq_3 length_Suc_conv)
  with assms show ?thesis by (auto simp: fitting_def one_meeting_def meetings_def pp_cases_def shape_cases_def)
qed

text \<open>
  C26. Liveness: the ping pong of two goroutines in which every operation is a select comes back for every schedule that
  neglects neither of them, whichever of its channels cannot be made and whether or not the second goroutine
  can be launched. Nothing goes to the sink. When the second goroutine has run it is counted out once, after the last
  volley, and the row has given its three channels back; and it does run when nothing fails.
\<close>
theorem select_pingpong_returns:
  fixes w :: "'m process world"
  assumes "host_ok h" and "meet_law C S X unbuf stat" and "starts_main R unbuf stat" and "fair sc"
  shows "\<exists>w'. bench_select_pingpong sc h R S C X w = Some w' \<and> kept w' = kept w
    \<and> (u64_var (rest w') ''select.pp_gone'' = 0
       \<or> u64_var (rest w') ''select.pp_gone'' = 1 \<and> unbuf (machine (rest w')) = unbuf (machine (rest w)))
    \<and> ((\<forall>m. fst (chan_make C 0 m) \<noteq> 0 \<and> fst (go_launch S m)) \<longrightarrow> u64_var (rest w') ''select.pp_gone'' = 1)"
  unfolding bench_select_pingpong_def select_pingpong_body_def
  by (rule volley_bench_returns [OF assms]) (simp add: pp_cases_def, simp add: pp_cases_def, rule pp_cases_fit)

section \<open>Channels that keep the promises\<close>

text \<open>With a buffer: the channels made, what they hold and what they may hold.\<close>

definition index_of :: "('a \<Rightarrow> bool) \<Rightarrow> 'a list \<Rightarrow> nat option" where
  "index_of P xs = find (\<lambda>i. P (xs ! i)) [0..<length xs]"

lemma index_of_Some: "index_of P xs = Some i \<Longrightarrow> i < length xs \<and> P (xs ! i)"
  by (auto simp: index_of_def find_Some_iff)

lemma index_of_None: "index_of P xs = None \<longleftrightarrow> (\<forall>x \<in> set xs. \<not> P x)"
  unfolding index_of_def find_None_iff set_upt by (fastforce simp: in_set_conv_nth)

type_synonym buffers = "nat list \<times> (nat \<Rightarrow> int list) \<times> (nat \<Rightarrow> nat)"

definition ref_buffers :: "buffers chan_lib" where
  "ref_buffers = \<lparr>chan_make = (\<lambda>k (made, q, room). let c = Suc (sum_list made) in (c, 1, (c # made, q(c := []), room(c := k)))),
     chan_free = (\<lambda>c (made, q, room). ((), 1, (filter (\<lambda>d. d \<noteq> c) made, q, room))),
     chan_send = (\<lambda>c v m. None), chan_recv = (\<lambda>c m. None), chan_try_recv = (\<lambda>c m. ((0, False), 1, m)),
     chan_close = (\<lambda>c m. ((), 1, m)), chan_meet = (\<lambda>c v m. m)\<rparr>"

definition buffer_begin :: "sel_case list \<Rightarrow> buffers \<Rightarrow> sel_answer option \<times> nat \<times> buffers" where
  "buffer_begin cs = (\<lambda>(made, q, room). case index_of (\<lambda>a. runs q room a \<noteq> None) cs of
     Some i \<Rightarrow> (Some (i, fst (the (runs q room (cs ! i))), True), 1, (made, snd (the (runs q room (cs ! i))), room))
   | None \<Rightarrow> (case index_of (\<lambda>a. a = Default) cs of
       Some i \<Rightarrow> (Some (i, 0, False), 1, (made, q, room))
     | None \<Rightarrow> (None, 1, (made, q, room))))"

definition ref_select :: "buffers select_lib" where
  "ref_select = \<lparr>sel_begin = (\<lambda>me. buffer_begin), sel_end = (\<lambda>me m. None), go_return = (\<lambda>m. ((), 1, m))\<rparr>"

lemma ref_buffers_law: "buffer_law ref_buffers ref_select (\<lambda>(made, q, room). q) (\<lambda>(made, q, room). room) (\<lambda>(made, q, room). set made)"
proof -
  let ?q = "\<lambda>(made, q, room). q" and ?r = "\<lambda>(made, q, room). room" and ?o = "\<lambda>(made, q, room). set made"
  { fix cs and m :: buffers
    obtain made q room where m: "m = (made, q, room)" by (cases m)
    assume can: "\<exists>a \<in> set cs. a = Default \<or> runs (?q m) (?r m) a \<noteq> None"
    have "let (r, t, m') = sel_begin ref_select True cs m in ?o m' = ?o m \<and> ?r m' = ?r m \<and>
      (case r of None \<Rightarrow> False | Some (i, v, ok) \<Rightarrow> i < length cs
        \<and> (if \<exists>a \<in> set cs. runs (?q m) (?r m) a \<noteq> None
           then runs (?q m) (?r m) (cs ! i) = Some (v, ?q m') else cs ! i = Default \<and> ?q m' = ?q m))"
    proof (cases "index_of (\<lambda>a. runs q room a \<noteq> None) cs")
      case None
      then have no: "\<not> (\<exists>a \<in> set cs. runs q room a \<noteq> None)" by (simp only: index_of_None) blast
      with can have "index_of (\<lambda>a. a = Default) cs \<noteq> None" by (auto simp: index_of_None m)
      then obtain i where "index_of (\<lambda>a. a = Default) cs = Some i" by blast
      with index_of_Some [OF this] no None show ?thesis by (simp add: ref_select_def buffer_begin_def m)
    next
      case (Some i)
      from index_of_Some [OF this] have i: "i < length cs" "runs q room (cs ! i) \<noteq> None" by blast+
      then have "\<exists>a \<in> set cs. runs q room a \<noteq> None" by (meson nth_mem)
      with Some i show ?thesis by (auto simp: ref_select_def buffer_begin_def m)
    qed }
  then show ?thesis
    unfolding buffer_law_def
    by (intro conjI allI impI) (auto simp: ref_buffers_def fresh_sum Let_def)
qed

theorem select_rows_never_wait_witness:
  "(\<exists>w'. bench_select_default (exact_host length (\<lambda>x. 0)) plain_procs ref_buffers ref_select (row_world 3 ([], \<lambda>c. [], \<lambda>c. 0)) = Some w'
     \<and> kept w' = [KeptU64 2, KeptU64 2, KeptU64 2])
   \<and> (\<exists>w'. bench_select_eight_arms (exact_host length (\<lambda>x. 0)) plain_procs ref_buffers ref_select (row_world 3 ([], \<lambda>c. [], \<lambda>c. 0)) = Some w')"
proof -
  have "fst (chan_make ref_buffers 1 m) \<noteq> 0" for m by (cases m) (simp add: ref_buffers_def Let_def)
  from select_rows_never_wait [OF exact_host_ok ref_buffers_law plain_procs_keep this, where w = "row_world 3 ([], \<lambda>c. [], \<lambda>c. 0)"]
  show ?thesis by (fastforce simp: numeral_3_eq_3)
qed

theorem select_pingpong_returns_witness:
  "\<exists>w'. bench_select_pingpong even (exact_host length (\<lambda>x. 0)) ref_start ref_goroutines ref_unbuffered ref_meeting
       (row_world 5 ([], \<lambda>me. GGone)) = Some w' \<and> kept w' = [] \<and> u64_var (rest w') ''select.pp_gone'' = 1"
proof -
  let ?w = "row_world 5 ([], \<lambda>me. GGone)"
  have made: "\<forall>m. fst (chan_make ref_unbuffered 0 m) \<noteq> 0 \<and> fst (go_launch ref_goroutines m)"
    by (auto simp: ref_unbuffered_def ref_goroutines_def Let_def)
  from select_pingpong_returns [OF exact_host_ok [of length "\<lambda>x. 0"] ref_meeting_law ref_starts_main fair_alternation, where w = ?w]
  show ?thesis
  proof (elim exE conjE)
    fix w' assume "bench_select_pingpong even (exact_host length (\<lambda>x. 0)) ref_start ref_goroutines ref_unbuffered ref_meeting ?w = Some w'"
      "kept w' = kept ?w" "(\<forall>m. fst (chan_make ref_unbuffered 0 m) \<noteq> 0 \<and> fst (go_launch ref_goroutines m)) \<longrightarrow> u64_var (rest w') ''select.pp_gone'' = 1"
    with made show ?thesis by (intro exI [of _ w']) (simp only: row_world_sel simp_thms)
  qed
qed

end
