(* ===== verification/Synctest_Bench.thy ===== *)
theory Synctest_Bench
  imports Volley
begin

text \<open>
  \<open>bench/synctest_bench.c\<close>: bubbles, in which goroutines are counted and the clock stands still. The
  rows whose goroutines only count are statements, as in \<open>Sched_Bench\<close>; the row with a parked receiver
  and the ping pong are programs of two threads (theories \<open>Interleave\<close> and \<open>Volley\<close>).
\<close>

section \<open>What the file takes from burrow\<close>

text \<open>
  \<open>bubble_open\<close> is \<open>synctest_run\<close> up to where its function starts, and says whether it does;
  \<open>bubble_close\<close> is its return, when the last goroutine of the bubble is gone. \<open>bubble_wait\<close> is
  \<open>synctest_wait\<close> and \<open>bubble_sleep\<close> is \<open>time_sleep\<close> in a bubble.
\<close>

record 'm bubble_lib =
  bubble_open :: "(bool, 'm) op"
  bubble_close :: "(unit, 'm) blocking_op"
  bubble_wait :: "(unit, 'm) blocking_op"
  bubble_sleep :: "int \<Rightarrow> (unit, 'm) op"
  chan_try_send :: "nat \<Rightarrow> int \<Rightarrow> (bool, 'm) op"

definition TIME_SECOND :: int where "TIME_SECOND = 1000000000"

section \<open>Opening and closing\<close>

text \<open>
  A bubble whose goroutines, beside the function itself, do nothing but count. \<open>synctest_run\<close> is documented to
  return when every goroutine of the bubble has; for these, which never wait, that means that the ones that have not
  run when the function returns run before \<open>synctest_run\<close> does, and the definition says so. The rows whose
  goroutines wait for each other are programs of two threads below, where the bubble's end is a law.
\<close>

definition in_bubble :: "'m bubble_lib \<Rightarrow> 'm cstmt \<Rightarrow> 'm cstmt \<Rightarrow> 'm cstmt" where
  "in_bubble B child body = calling (bubble_open B) (\<lambda>ok. if \<not> ok then Some else block [
     body,
     reading pending (\<lambda>q. block [set_int ''sched.pending'' 0, repeat_for q (\<lambda>_. child)]),
     blocking (bubble_close B) (\<lambda>_. Some)])"

definition run_empty_body :: "'m host \<Rightarrow> 'm bubble_lib \<Rightarrow> 'm cstmt" where
  "run_empty_body h B = timed_section h (bench_loop (\<lambda>_. in_bubble B Some Some))"

definition bench_synctest_run_empty :: "'m host \<Rightarrow> 'm runtime_lib \<Rightarrow> 'm bubble_lib \<Rightarrow> 'm cstmt" where
  "bench_synctest_run_empty h R B = run_with_one_p h R (run_empty_body h B)"

definition member_child :: "'m cstmt" where
  "member_child = counting_child ''member_ran''"

definition member_body :: "'m sched_lib \<Rightarrow> 'm cstmt" where
  "member_body S = launching S (\<lambda>_. Some)"

definition run_member_body :: "'m host \<Rightarrow> 'm sched_lib \<Rightarrow> 'm bubble_lib \<Rightarrow> 'm cstmt" where
  "run_member_body h S B = timed_section h (bench_loop (\<lambda>_. in_bubble B member_child (member_body S)))"

definition bench_synctest_run_one_goroutine :: "'m host \<Rightarrow> 'm runtime_lib \<Rightarrow> 'm sched_lib \<Rightarrow> 'm bubble_lib \<Rightarrow> 'm cstmt" where
  "bench_synctest_run_one_goroutine h R S B = block [
     set_u64 ''member_ran'' 0, set_int ''sched.pending'' 0,
     run_with_one_p h R (run_member_body h S B),
     reading (\<lambda>p. u64_var p ''member_ran'') keep_u64]"

section \<open>The wait\<close>

definition wait_alone_body :: "'m host \<Rightarrow> 'm bubble_lib \<Rightarrow> 'm cstmt" where
  "wait_alone_body h B = timed_section h (bench_loop (\<lambda>_. blocking (bubble_wait B) (\<lambda>_. Some)))"

definition bench_synctest_wait_alone :: "'m host \<Rightarrow> 'm runtime_lib \<Rightarrow> 'm bubble_lib \<Rightarrow> 'm cstmt" where
  "bench_synctest_wait_alone h R B = run_with_one_p h R (in_bubble B Some (wait_alone_body h B))"

text \<open>The parked receiver. \<open>PkWait i\<close> and \<open>PkSend i\<close> are round \<open>i\<close> of the loop.\<close>

datatype parked_main_loc = PkStart | PkWait nat | PkSend nat | PkClose | PkLast | PkOut

datatype parked_child_loc = KRecv | KRecvW | KAdd | KExit | KGone

fun wait_parked_main :: "'m host \<Rightarrow> 'm chan_lib \<Rightarrow> 'm bubble_lib \<Rightarrow> nat \<Rightarrow> nat \<Rightarrow> (parked_main_loc, 'm process world) thread" where
  "wait_parked_main h C B c n PkStart = moves_to (PkWait 0) (resuming h)"
| "wait_parked_main h C B c n (PkWait i) =
     (if i < n then moves_to (PkSend i) (blocking (bubble_wait B) (\<lambda>_. Some)) else moves_to PkClose (pausing h))"
| "wait_parked_main h C B c n (PkSend i) = moves_to (PkWait (i + 1)) (call_op (chan_try_send B c 1))"
| "wait_parked_main h C B c n PkClose = moves_to PkLast (call_op (chan_close C c))"
| "wait_parked_main h C B c n PkLast = moves_to PkOut (blocking (bubble_wait B) (\<lambda>_. Some))"
| "wait_parked_main h C B c n PkOut = (\<lambda>w. None)"

fun parked_child :: "'m select_lib \<Rightarrow> nat \<Rightarrow> (parked_child_loc, 'm process world) thread" where
  "parked_child X c KRecv = begins (sel_begin X False [Receiving c]) (\<lambda>(i, v, ok). if ok then KAdd else KExit) KRecvW"
| "parked_child X c KRecvW = wakes (sel_end X False) (\<lambda>(i, v, ok). if ok then KAdd else KExit)"
| "parked_child X c KAdd = moves_to KRecv (counting_child ''parked_got'')"
| "parked_child X c KExit = moves_to KGone (call_op (go_return X))"
| "parked_child X c KGone = (\<lambda>w. None)"

definition wait_parked_body ::
  "(nat \<Rightarrow> bool) \<Rightarrow> 'm host \<Rightarrow> 'm sched_lib \<Rightarrow> 'm chan_lib \<Rightarrow> 'm select_lib \<Rightarrow> 'm bubble_lib \<Rightarrow> nat \<Rightarrow> 'm cstmt" where
  "wait_parked_body sc h S C X B c = (if c = 0 then Some else
     calling (go_launch S) (\<lambda>ok. if \<not> ok then Some else reading_n (\<lambda>n.
       together sc (wait_parked_main h C B c (nat n)) (parked_child X c) (\<lambda>p. p = PkOut) PkStart KRecv)))"

text \<open>The static pointers are \<open>NULL\<close> when the function did not start.\<close>

definition wait_parked_top ::
  "(nat \<Rightarrow> bool) \<Rightarrow> 'm host \<Rightarrow> 'm sched_lib \<Rightarrow> 'm chan_lib \<Rightarrow> 'm select_lib \<Rightarrow> 'm bubble_lib \<Rightarrow> 'm cstmt" where
  "wait_parked_top sc h S C X B = calling (bubble_open B) (\<lambda>ok. if \<not> ok then free_all C [0] else
     make_all C 1 [] (\<lambda>cs. block [
       wait_parked_body sc h S C X B (cs ! 0),
       blocking (bubble_close B) (\<lambda>_. Some),
       free_all C cs]))"

definition bench_synctest_wait_parked ::
  "(nat \<Rightarrow> bool) \<Rightarrow> 'm host \<Rightarrow> 'm runtime_lib \<Rightarrow> 'm sched_lib \<Rightarrow> 'm chan_lib \<Rightarrow> 'm select_lib \<Rightarrow> 'm bubble_lib \<Rightarrow> 'm cstmt" where
  "bench_synctest_wait_parked sc h R S C X B = block [
     set_u64 ''parked_got'' 0,
     run_with_one_p h R (wait_parked_top sc h S C X B),
     reading (\<lambda>p. u64_var p ''parked_got'') keep_u64]"

section \<open>Inside a bubble\<close>

text \<open>The case lists and tests of this ping pong: bare operations, and the receive of the child is tested.\<close>

definition bubble_cases :: "nat \<Rightarrow> nat \<Rightarrow> volley_shape" where
  "bubble_cases c1 c2 = \<lparr>
     main_sends_on = [Sending c1 1],
     main_receives_on = [Receiving c2],
     main_ends_on = [Sending c1 0],
     child_receives_on = [Receiving c1],
     child_sends_on = (\<lambda>v. [Sending c2 v]),
     child_took = (\<lambda>(i, v, ok). ok),
     child_sent = (\<lambda>r. True),
     stop_flag = ''synctest.pp_stop'', gone_count = ''synctest.pp_gone''\<rparr>"

definition wait_until :: "'m bubble_lib \<Rightarrow> 'm process world \<Rightarrow> (bool \<times> 'm process world) option" where
  "wait_until B w = do { w \<leftarrow> blocking (bubble_wait B) (\<lambda>_. Some) w; Some (True, w) }"

definition pingpong_top ::
  "(nat \<Rightarrow> bool) \<Rightarrow> 'm host \<Rightarrow> 'm sched_lib \<Rightarrow> 'm chan_lib \<Rightarrow> 'm select_lib \<Rightarrow> 'm bubble_lib \<Rightarrow> 'm cstmt" where
  "pingpong_top sc h S C X B = calling (bubble_open B) (\<lambda>ok. if \<not> ok then free_all C [0, 0] else
     make_all C 2 [] (\<lambda>cs. block [
       volley_frame sc h S X (\<lambda>cs. bubble_cases (cs ! 0) (cs ! 1)) (wait_until B) (\<lambda>_. Some) cs,
       blocking (bubble_close B) (\<lambda>_. Some),
       free_all C cs]))"

definition bench_synctest_chan_pingpong ::
  "(nat \<Rightarrow> bool) \<Rightarrow> 'm host \<Rightarrow> 'm runtime_lib \<Rightarrow> 'm sched_lib \<Rightarrow> 'm chan_lib \<Rightarrow> 'm select_lib \<Rightarrow> 'm bubble_lib \<Rightarrow> 'm cstmt" where
  "bench_synctest_chan_pingpong sc h R S C X B = block [
     set_u64 ''synctest.pp_stop'' 0, set_u64 ''synctest.pp_gone'' 0,
     run_with_one_p h R (pingpong_top sc h S C X B),
     reading (\<lambda>p. u64_var p ''synctest.pp_gone'') keep_u64]"

definition bubble_child :: "'m cstmt" where
  "bubble_child = counting_child ''synctest.start_ran''"

definition bubble_start_body :: "'m host \<Rightarrow> 'm sched_lib \<Rightarrow> 'm cstmt" where
  "bubble_start_body h S = timed_section h (bench_loop_break (\<lambda>_. go_or_break S (yielding S bubble_child)))"

definition bench_synctest_go :: "'m host \<Rightarrow> 'm runtime_lib \<Rightarrow> 'm sched_lib \<Rightarrow> 'm bubble_lib \<Rightarrow> 'm cstmt" where
  "bench_synctest_go h R S B = block [
     set_u64 ''synctest.start_ran'' 0, set_int ''sched.pending'' 0,
     run_with_one_p h R (in_bubble B bubble_child (bubble_start_body h S)),
     reading (\<lambda>p. u64_var p ''synctest.start_ran'') keep_u64]"

section \<open>The fake clock\<close>

definition bubble_sleep_body :: "'m host \<Rightarrow> 'm bubble_lib \<Rightarrow> 'm cstmt" where
  "bubble_sleep_body h B = timed_section h (bench_loop (\<lambda>_. call_op (bubble_sleep B TIME_SECOND)))"

definition bench_synctest_sleep :: "'m host \<Rightarrow> 'm runtime_lib \<Rightarrow> 'm bubble_lib \<Rightarrow> 'm cstmt" where
  "bench_synctest_sleep h R B = run_with_one_p h R (in_bubble B Some (bubble_sleep_body h B))"

definition synctest_table :: "(nat \<Rightarrow> bool) \<Rightarrow> 'm host \<Rightarrow> 'm runtime_lib \<Rightarrow> 'm sched_lib \<Rightarrow> 'm chan_lib \<Rightarrow> 'm select_lib
    \<Rightarrow> 'm bubble_lib \<Rightarrow> (string \<times> 'm cstmt) list" where
  "synctest_table sc h R S C X B = [
     (''synctest_run_empty'', bench_synctest_run_empty h R B),
     (''synctest_run_one_goroutine'', bench_synctest_run_one_goroutine h R S B),
     (''synctest_wait_alone'', bench_synctest_wait_alone h R B),
     (''synctest_wait_parked'', bench_synctest_wait_parked sc h R S C X B),
     (''synctest_chan_pingpong'', bench_synctest_chan_pingpong sc h R S C X B),
     (''synctest_go'', bench_synctest_go h R S B),
     (''synctest_sleep'', bench_synctest_sleep h R B)]"

section \<open>The contract\<close>

lemma in_bubble_moves [contract_rules]:
  "does (advances clock) child \<Longrightarrow> does (advances clock) body \<Longrightarrow> does (advances clock) (in_bubble B child body)"
  unfolding in_bubble_def by (auto intro!: contract_rules simp del: block.simps)

lemma wait_until_advances: "wait_until B w = Some (b, w') \<Longrightarrow> advances clock w w'"
proof -
  assume "wait_until B w = Some (b, w')"
  then have "blocking (bubble_wait B) (\<lambda>_. Some) w = Some w'" by (auto simp: wait_until_def bind_eq_Some_conv)
  moreover have "does (advances clock) (blocking (bubble_wait B) (\<lambda>_. Some))" by (intro contract_rules)
  ultimately show ?thesis by (rule doesD [rotated])
qed

lemma parked_threads_move:
  "host_ok h \<Longrightarrow> wait_parked_main h C B c n p w = Some (p', w') \<Longrightarrow> advances clock w w'"
  "parked_child X c q w = Some (q', w') \<Longrightarrow> advances clock w w'"
proof -
  show "advances clock w w'" if "host_ok h" "wait_parked_main h C B c n p w = Some (p', w')"
    using that by (cases p; auto split: if_splits elim!: moves_to_advances [rotated] intro!: contract_rules)
  show "advances clock w w'" if "parked_child X c q w = Some (q', w')"
    using that by (cases q; auto dest: begins_advances wakes_advances elim!: moves_to_advances [rotated] intro!: contract_rules)
qed

lemma synctest_children_move [contract_rules]: "does (advances clock) member_child" "does (advances clock) bubble_child"
  unfolding member_child_def bubble_child_def by (intro contract_rules)+

lemma wait_parked_body_moves [contract_rules]: "host_ok h \<Longrightarrow> does (advances clock) (wait_parked_body sc h S C X B c)"
  unfolding wait_parked_body_def by (auto intro!: contract_rules intro: parked_threads_move)

lemma volley_in_bubble_moves [contract_rules]:
  "host_ok h \<Longrightarrow> does (advances clock) (volley_frame sc h S X Z (wait_until B) (\<lambda>_. Some) cs)"
  by (auto intro!: volley_frame_moves wait_until_advances contract_rules)

lemma bubble_bodies_move [contract_rules]:
  assumes "host_ok h"
  shows "does (advances clock) (run_empty_body h B)" "does (advances clock) (member_body S)"
    "does (advances clock) (run_member_body h S B)" "does (advances clock) (wait_alone_body h B)"
    "does (advances clock) (wait_parked_top sc h S C X B)" "does (advances clock) (pingpong_top sc h S C X B)"
    "does (advances clock) (bubble_sleep_body h B)"
proof -
  show m: "does (advances clock) (member_body S)"
    unfolding member_body_def launching_def by (intro contract_rules)
  show "does (advances clock) (run_empty_body h B)" "does (advances clock) (run_member_body h S B)"
    "does (advances clock) (wait_alone_body h B)" "does (advances clock) (bubble_sleep_body h B)"
    unfolding run_empty_body_def run_member_body_def wait_alone_body_def bubble_sleep_body_def
    by (intro contract_rules assms m)+
  show "does (advances clock) (wait_parked_top sc h S C X B)" "does (advances clock) (pingpong_top sc h S C X B)"
    unfolding wait_parked_top_def pingpong_top_def by (intro contract_rules assms)+
qed

lemma bubble_start_body_moves [contract_rules]: "host_ok h \<Longrightarrow> does (advances clock) (bubble_start_body h S)"
  unfolding bubble_start_body_def
  by (intro timed_section_moves loop_break_moves) (auto elim!: go_or_break_moves [rotated] intro: contract_rules)

lemma synctest_table_moves:
  assumes "host_ok h" and "(nm, f) \<in> set (synctest_table sc h R S C X B)"
  shows "does (advances clock) f"
  using assms
  by (auto simp: synctest_table_def bench_synctest_run_empty_def bench_synctest_run_one_goroutine_def bench_synctest_wait_alone_def
      bench_synctest_wait_parked_def bench_synctest_chan_pingpong_def bench_synctest_go_def bench_synctest_sleep_def
      intro!: contract_rules simp del: block.simps)

section \<open>What a bubble promises\<close>

text \<open>
  Beside \<open>unbuf\<close> and \<open>stat\<close> of \<open>Volley\<close>, \<open>shut\<close> are the channels that were closed. A wait comes back
  when the second goroutine of the bubble is parked or gone, and the bubble closes when it is gone. A
  receive on a closed channel comes back at once without a value, and a close wakes the one that waits.
\<close>

definition bubble_law :: "'m bubble_lib \<Rightarrow> 'm chan_lib \<Rightarrow> 'm select_lib \<Rightarrow> ('m \<Rightarrow> nat set) \<Rightarrow> ('m \<Rightarrow> nat set)
    \<Rightarrow> ('m \<Rightarrow> bool \<Rightarrow> goroutine) \<Rightarrow> bool" where
  "bubble_law B C X unbuf shut stat \<longleftrightarrow>
     (\<forall>m. let (ok, t, m') = bubble_open B m in unbuf m' = unbuf m
        \<and> (ok \<longrightarrow> stat m' = (\<lambda>me. if me then GRunning else GGone)))
   \<and> (\<forall>m. case bubble_wait B m of
        None \<Rightarrow> stat m False = GRunning \<or> (\<exists>a. stat m False = GWoken a)
      | Some (r, t, m') \<Rightarrow> (is_parked (stat m False) \<or> stat m False = GGone)
          \<and> unbuf m' = unbuf m \<and> shut m' = shut m \<and> stat m' = stat m)
   \<and> (\<forall>m. case bubble_close B m of
        None \<Rightarrow> stat m False \<noteq> GGone
      | Some (r, t, m') \<Rightarrow> stat m False = GGone \<and> unbuf m' = unbuf m)
   \<and> (\<forall>c v m. c \<in> unbuf m \<longrightarrow> stat m False = GParked [Receiving c] \<longrightarrow>
        (let (ok, t, m') = chan_try_send B c v m in
           unbuf m' = unbuf m \<and> shut m' = shut m \<and> stat m' = (stat m)(False := GWoken (0, v, True))))
   \<and> (\<forall>c m. c \<in> unbuf m \<longrightarrow> (let (r, t, m') = chan_close C c m in
        unbuf m' = unbuf m - {c} \<and> shut m' = insert c (shut m)
        \<and> (stat m False = GParked [Receiving c] \<longrightarrow> stat m' = (stat m)(False := GWoken (0, 0, False)))
        \<and> (\<not> is_parked (stat m False) \<longrightarrow> stat m' = stat m)))
   \<and> (\<forall>me c m. stat m me = GRunning \<longrightarrow> c \<in> shut m \<longrightarrow> (let (r, t, m') = sel_begin X me [Receiving c] m in
        r = Some (0, 0, False) \<and> unbuf m' = unbuf m \<and> shut m' = shut m \<and> stat m' = stat m))
   \<and> (\<forall>me m. shut (left_by (sel_end X me) m) = shut m) \<and> (\<forall>m. shut (snd (snd (go_return X m))) = shut m)"

lemma bubble_lawD:
  assumes "bubble_law B C X unbuf shut stat"
  shows "unbuf (snd (snd (bubble_open B m))) = unbuf m"
    "fst (bubble_open B m) \<Longrightarrow> stat (snd (snd (bubble_open B m))) = (\<lambda>me. if me then GRunning else GGone)"
    "c \<in> unbuf m \<Longrightarrow> stat m False = GParked [Receiving c] \<Longrightarrow>
       unbuf (snd (snd (chan_try_send B c v m))) = unbuf m \<and> shut (snd (snd (chan_try_send B c v m))) = shut m
       \<and> stat (snd (snd (chan_try_send B c v m))) = (stat m)(False := GWoken (0, v, True))"
    "c \<in> unbuf m \<Longrightarrow> unbuf (snd (snd (chan_close C c m))) = unbuf m - {c} \<and> shut (snd (snd (chan_close C c m))) = insert c (shut m)"
    "c \<in> unbuf m \<Longrightarrow> stat m False = GParked [Receiving c] \<Longrightarrow>
       stat (snd (snd (chan_close C c m))) = (stat m)(False := GWoken (0, 0, False))"
    "c \<in> unbuf m \<Longrightarrow> \<not> is_parked (stat m False) \<Longrightarrow> stat (snd (snd (chan_close C c m))) = stat m"
    "stat m me = GRunning \<Longrightarrow> c \<in> shut m \<Longrightarrow> fst (sel_begin X me [Receiving c] m) = Some (0, 0, False)
       \<and> unbuf (snd (snd (sel_begin X me [Receiving c] m))) = unbuf m
       \<and> shut (snd (snd (sel_begin X me [Receiving c] m))) = shut m \<and> stat (snd (snd (sel_begin X me [Receiving c] m))) = stat m"
    "shut (left_by (sel_end X me) m) = shut m" "shut (snd (snd (go_return X m))) = shut m"
  using assms unfolding bubble_law_def by (simp_all add: split_beta Let_def)

lemma bubble_waitD:
  assumes "bubble_law B C X unbuf shut stat"
  shows "bubble_wait B m = None \<longleftrightarrow> \<not> (is_parked (stat m False) \<or> stat m False = GGone)"
    "unbuf (left_by (bubble_wait B) m) = unbuf m" "shut (left_by (bubble_wait B) m) = shut m" "stat (left_by (bubble_wait B) m) = stat m"
proof -
  have l: "case bubble_wait B m of
      None \<Rightarrow> stat m False = GRunning \<or> (\<exists>a. stat m False = GWoken a)
    | Some (r, t, m') \<Rightarrow> (is_parked (stat m False) \<or> stat m False = GGone) \<and> unbuf m' = unbuf m \<and> shut m' = shut m \<and> stat m' = stat m"
    using assms unfolding bubble_law_def by blast
  then show "bubble_wait B m = None \<longleftrightarrow> \<not> (is_parked (stat m False) \<or> stat m False = GGone)"
    by (cases "bubble_wait B m") auto
  from l show "unbuf (left_by (bubble_wait B) m) = unbuf m" "shut (left_by (bubble_wait B) m) = shut m" "stat (left_by (bubble_wait B) m) = stat m"
    by (cases "bubble_wait B m"; auto simp: left_by_def)+
qed

lemma bubble_closeD:
  assumes "bubble_law B C X unbuf shut stat" and "stat m False = GGone"
  shows "bubble_close B m \<noteq> None" "unbuf (left_by (bubble_close B) m) = unbuf m"
proof -
  have l: "case bubble_close B m of None \<Rightarrow> stat m False \<noteq> GGone | Some (r, t, m') \<Rightarrow> stat m False = GGone \<and> unbuf m' = unbuf m"
    using assms(1) unfolding bubble_law_def by blast
  with assms(2) show "bubble_close B m \<noteq> None" "unbuf (left_by (bubble_close B) m) = unbuf m"
    by (cases "bubble_close B m"; auto simp: left_by_def)+
qed

lemma blocking_passes: "f (machine (rest w)) \<noteq> None \<Longrightarrow> blocking f (\<lambda>_. Some) w = Some (passed f w)"
  by (auto simp: blocking_def passed_def calling_def split_beta)

section \<open>The ping pong in a bubble\<close>

lemma bubble_awaits:
  assumes "bubble_law B C X unbuf shut stat"
  shows "awaits (wait_until B) unbuf stat x (\<lambda>st u. is_parked (st False) \<or> st False = GGone)"
  unfolding awaits_def
proof (intro conjI allI)
  fix w :: "'a process world"
  note l = bubble_waitD [OF assms, where m = "machine (rest w)"]
  show "if is_parked (stat (machine (rest w)) False) \<or> stat (machine (rest w)) False = GGone
        then \<exists>w'. wait_until B w = Some (True, w') \<and> view unbuf stat w' = view unbuf stat w
        else \<forall>b w'. wait_until B w = Some (b, w') \<longrightarrow> \<not> b \<and> view unbuf stat w' = view unbuf stat w"
  proof (cases "bubble_wait B (machine (rest w)) = None")
    case True
    with l(1) show ?thesis by (simp add: wait_until_def blocking_def)
  next
    case False
    then have "blocking (bubble_wait B) (\<lambda>_. Some) w = Some (passed (bubble_wait B) w)"
      by (rule blocking_passes)
    moreover have "view unbuf stat (passed (bubble_wait B) w) = view unbuf stat w" by (simp add: view_def l)
    ultimately show ?thesis using False l(1) by (simp add: wait_until_def)
  qed
qed simp_all

lemma bubble_cases_fit:
  assumes "distinct cs" and "length cs = 2" and "set cs \<subseteq> chs"
  shows "fitting (bubble_cases (cs ! 0) (cs ! 1)) chs"
proof -
  obtain c1 c2 where "cs = [c1, c2]" using assms(2) by (auto simp: numeral_2_eq_2 length_Suc_conv)
  with assms show ?thesis by (auto simp: fitting_def one_meeting_def meetings_def bubble_cases_def shape_cases_def)
qed

text \<open>The bubble closes, and the channels are freed.\<close>

lemma close_and_free:
  assumes "meet_law C S X unbuf stat" and "bubble_law B C X unbuf shut stat"
    and "view unbuf stat w = (k, us, st, vars)" and "st False = GGone"
  shows "\<exists>w'. block [blocking (bubble_close B) (\<lambda>_. Some), free_all C cs] w = Some w' \<and> kept w' = k
    \<and> unbuf (machine (rest w')) = us - set cs \<and> u64_var (rest w') = vars"
proof -
  let ?v = "passed (bubble_close B) w"
  note l = bubble_closeD [OF assms(2), of "machine (rest w)"]
  have st: "stat (machine (rest w)) False = GGone" using assms(3,4) by (simp add: view_def)
  have v: "blocking (bubble_close B) (\<lambda>_. Some) w = Some ?v"
    using l(1) [OF st] by (rule blocking_passes)
  have "view unbuf stat ?v = (k, us, stat (machine (rest ?v)), vars)" using assms(3) l(2) [OF st] by (simp add: view_def)
  from free_all_step [OF assms(1) this, of cs] obtain x where "free_all C cs ?v = Some x"
    "view unbuf stat x = (k, us - set cs, stat (machine (rest ?v)), vars)" by blast
  with v show ?thesis by (simp add: view_def)
qed

lemma pingpong_top_returns:
  assumes "host_ok h" and "meet_law C S X unbuf stat" and "bubble_law B C X unbuf shut stat" and "fair sc"
    and w: "view unbuf stat w = (k, us, st, vars)" "0 \<notin> us" "vars ''synctest.pp_stop'' = 0" "vars ''synctest.pp_gone'' = 0"
  shows "\<exists>w'. pingpong_top sc h S C X B w = Some w' \<and> kept w' = k \<and> unbuf (machine (rest w')) = us
    \<and> u64_var (rest w') ''synctest.pp_gone'' \<in> {0, 1}
    \<and> ((\<forall>m. fst (chan_make C 0 m) \<noteq> 0 \<and> fst (go_launch S m) \<and> fst (bubble_open B m)) \<longrightarrow> u64_var (rest w') ''synctest.pp_gone'' = 1)"
proof -
  let ?o = "call (lib (bubble_open B)) w"
  have o: "view unbuf stat (snd ?o) = (k, us, stat (machine (rest (snd ?o))), vars)"
    using w(1) bubble_lawD(1) [OF assms(3)] by (simp add: view_def)
  let ?Z = "\<lambda>cs. bubble_cases (cs ! 0) (cs ! 1)"
  let ?f = "volley_frame sc h S X ?Z (wait_until B) (\<lambda>_. Some)"
  let ?k = "\<lambda>cs. block [?f cs, blocking (bubble_close B) (\<lambda>_. Some), free_all C cs]"
  have run: "pingpong_top sc h S C X B w = (if \<not> fst ?o then free_all C [0, 0] (snd ?o) else make_all C 2 [] ?k (snd ?o))"
    by (simp add: pingpong_top_def calling_def split_beta del: block.simps)
  show ?thesis
  proof (cases "fst ?o")
    case False
    then have "\<not> (\<forall>m. fst (bubble_open B m))" by auto
    moreover from free_all_step [OF assms(2) o, of "[0, 0]"] obtain x where "free_all C [0, 0] (snd ?o) = Some x"
      "view unbuf stat x = (k, us - {0}, stat (machine (rest (snd ?o))), vars)" by auto
    moreover have "us - {0} = us" using w(2) by simp
    ultimately show ?thesis using False w(4) unfolding run by (auto simp: view_def)
  next
    case True
    let ?st = "\<lambda>me. if me then GRunning else GGone"
    have "stat (machine (rest (snd ?o))) = ?st" using True bubble_lawD(2) [OF assms(3)] by simp
    from make_all_step [OF assms(2) o [unfolded this], of 2 "[]" ?k] obtain cs u where
      u: "make_all C 2 [] ?k (snd ?o) = ?k cs u" "length cs = 2" "view unbuf stat u = (k, us \<union> (set cs - {0}), ?st, vars)"
      and cs: "0 \<notin> set cs \<longrightarrow> distinct cs \<and> set cs \<inter> us = {}" "(\<forall>m. fst (chan_make C 0 m) \<noteq> 0) \<longrightarrow> 0 \<notin> set cs"
      and new: "(set cs - {0}) \<inter> us = {}" by auto
    have free: "us \<union> (set cs - {0}) - set cs = us" using new w(2) by auto
    have fit: "fitting (?Z cs) (us \<union> (set cs - {0}))" if "0 \<notin> set cs"
      by (rule bubble_cases_fit) (use that cs(1) u(2) in auto)
    have flags: "stop_flag (?Z cs) = ''synctest.pp_stop''" "gone_count (?Z cs) = ''synctest.pp_gone''" by (simp_all add: bubble_cases_def)
    have main: "?st True = GRunning" by simp
    from volley_frame_ends [where Z = ?Z and cs = cs and fin = "\<lambda>_. Some" and h = h and sc = sc,
        OF assms(1,2,4) bubble_awaits [OF assms(3)] flags fit u(3) main w(3,4)] obtain v where
      "?f cs u = Some v \<and> \<not> ((\<forall>m. fst (go_launch S m)) \<and> 0 \<notin> set cs) \<and> view unbuf stat v = (k, us \<union> (set cs - {0}), ?st, vars)
      \<or> ?f cs u = Some v \<and> 0 \<notin> set cs \<and> (\<exists>st' vars'. view unbuf stat v = (k, us \<union> (set cs - {0}), st', vars')
        \<and> vars' ''synctest.pp_gone'' = 1 \<and> (is_parked (st' False) \<or> st' False = GGone) \<and> \<not> is_parked (st' False))"
      by blast
    then obtain st' vars' where v: "?f cs u = Some v" "view unbuf stat v = (k, us \<union> (set cs - {0}), st', vars')" "st' False = GGone"
      "vars' ''synctest.pp_gone'' = 1 \<or> vars' ''synctest.pp_gone'' = 0 \<and> \<not> ((\<forall>m. fst (go_launch S m)) \<and> 0 \<notin> set cs)"
    proof (elim disjE conjE exE)
      assume "?f cs u = Some v" "\<not> ((\<forall>m. fst (go_launch S m)) \<and> 0 \<notin> set cs)" "view unbuf stat v = (k, us \<union> (set cs - {0}), ?st, vars)"
      with that [of ?st vars] w(4) show ?thesis by simp
    next
      fix st' vars' assume "?f cs u = Some v" "view unbuf stat v = (k, us \<union> (set cs - {0}), st', vars')"
        "vars' ''synctest.pp_gone'' = 1" "is_parked (st' False)" "\<not> is_parked (st' False)"
      then show ?thesis by blast
    next
      fix st' vars' assume "?f cs u = Some v" "view unbuf stat v = (k, us \<union> (set cs - {0}), st', vars')"
        "vars' ''synctest.pp_gone'' = 1" "st' False = GGone"
      with that [of st' vars'] show ?thesis by simp
    qed
    from close_and_free [OF assms(2,3) v(2,3), of cs] obtain x where
      x: "block [blocking (bubble_close B) (\<lambda>_. Some), free_all C cs] v = Some x" "kept x = k"
      "unbuf (machine (rest x)) = us \<union> (set cs - {0}) - set cs" "u64_var (rest x) = vars'" by blast
    have "pingpong_top sc h S C X B w = Some x" using True u(1) v(1) x(1) unfolding run by simp
    moreover have "(\<forall>m. fst (chan_make C 0 m) \<noteq> 0 \<and> fst (go_launch S m) \<and> fst (bubble_open B m)) \<longrightarrow> vars' ''synctest.pp_gone'' = 1"
      using v(4) cs(2) by blast
    moreover have "vars' ''synctest.pp_gone'' \<in> {0, 1}" using v(4) by auto
    ultimately show ?thesis using x(2-4) free by (intro exI [of _ x]) simp
  qed
qed

section \<open>The parked receiver\<close>

text \<open>
  The invariant: the values that were sent are counted or are with the child; when the main goroutine is
  to send, the child is parked; after the close the child is on its way out.
\<close>

fun rounds_sent :: "nat \<Rightarrow> parked_main_loc \<Rightarrow> nat" where
  "rounds_sent n PkStart = 0" | "rounds_sent n (PkWait i) = i" | "rounds_sent n (PkSend i) = i" | "rounds_sent n p = n"

fun after_close :: "parked_main_loc \<Rightarrow> bool" where
  "after_close PkLast = True" | "after_close PkOut = True" | "after_close p = False"

fun in_hand :: "parked_child_loc \<Rightarrow> goroutine \<Rightarrow> nat" where
  "in_hand KRecvW g = (case g of GWoken (i, v, ok) \<Rightarrow> if ok then 1 else 0 | _ \<Rightarrow> 0)" | "in_hand KAdd g = 1" | "in_hand q g = 0"

fun receiver_here :: "nat \<Rightarrow> bool \<Rightarrow> parked_child_loc \<Rightarrow> goroutine \<Rightarrow> bool" where
  "receiver_here c cl KRecv g = (g = GRunning)"
| "receiver_here c cl KRecvW g = (g = GParked [Receiving c] \<and> \<not> cl \<or> (\<exists>v. g = GWoken (0, v, True)) \<or> g = GWoken (0, 0, False) \<and> cl)"
| "receiver_here c cl KAdd g = (g = GRunning)" | "receiver_here c cl KExit g = (g = GRunning \<and> cl)"
| "receiver_here c cl KGone g = (g = GGone \<and> cl)"

fun sender_here :: "nat \<Rightarrow> parked_main_loc \<Rightarrow> goroutine \<Rightarrow> bool" where
  "sender_here n (PkWait i) g = (i \<le> n)" | "sender_here n (PkSend i) g = (i < n \<and> is_parked g)"
| "sender_here n PkOut g = (g = GGone)" | "sender_here n p g = True"

definition parked_ok :: "('m \<Rightarrow> nat set) \<Rightarrow> ('m \<Rightarrow> nat set) \<Rightarrow> ('m \<Rightarrow> bool \<Rightarrow> goroutine) \<Rightarrow> nat \<Rightarrow> nat \<Rightarrow> nat set \<Rightarrow> sunk list
    \<Rightarrow> parked_main_loc \<times> parked_child_loc \<times> 'm process world \<Rightarrow> bool" where
  "parked_ok unbuf shut stat n c us k = (\<lambda>(p, q, w). let m = machine (rest w); g = stat m False in
     kept w = k \<and> stat m True = GRunning \<and> c \<in> us \<and> unbuf m = (if after_close p then us - {c} else us)
     \<and> (after_close p \<longrightarrow> c \<in> shut m) \<and> receiver_here c (after_close p) q g \<and> sender_here n p g
     \<and> (\<exists>got. u64_var (rest w) ''parked_got'' = take_bit 32 (of_nat got) \<and> got + in_hand q g = rounds_sent n p))"

fun sender_steps :: "nat \<Rightarrow> parked_main_loc \<Rightarrow> nat" where
  "sender_steps n PkStart = 2 * n + 5" | "sender_steps n (PkWait i) = 2 * (n - i) + 4"
| "sender_steps n (PkSend i) = 2 * (n - i) + 3" | "sender_steps n PkClose = 3" | "sender_steps n PkLast = 1"
| "sender_steps n PkOut = 0"

fun receiver_steps :: "parked_child_loc \<Rightarrow> goroutine \<Rightarrow> nat" where
  "receiver_steps KRecv g = 2" | "receiver_steps KRecvW g = (case g of GParked cs \<Rightarrow> 0 | _ \<Rightarrow> 6)" | "receiver_steps KAdd g = 5"
| "receiver_steps KExit g = 1" | "receiver_steps KGone g = 0"

definition parked_rank :: "('m \<Rightarrow> bool \<Rightarrow> goroutine) \<Rightarrow> nat \<Rightarrow> parked_main_loc \<times> parked_child_loc \<times> 'm process world \<Rightarrow> nat" where
  "parked_rank stat n = (\<lambda>(p, q, w). 10 * sender_steps n p + receiver_steps q (stat (machine (rest w)) False))"

lemma receiver_leaving: "receiver_here c True q g \<Longrightarrow> \<not> is_parked g"
  by (cases q) auto

lemma sender_any: "sender_here n p g \<Longrightarrow> \<not> is_parked g \<Longrightarrow> p \<noteq> PkOut \<Longrightarrow> sender_here n p g'"
  by (cases p) simp_all

lemma take_bit_sum: "take_bit 32 (take_bit 32 (u :: u64) + 1) = take_bit 32 (u + 1)"
  by transfer (simp add: take_bit_eq_mod mod_simps)

lemma take_bit_count: "take_bit 32 (take_bit 32 (of_nat k :: u64) + 1) = take_bit 32 (of_nat (Suc k))"
  unfolding take_bit_sum of_nat_Suc by (simp only: add.commute)

lemma parked_main_lowers:
  assumes "host_ok h" and "bubble_law B C X unbuf shut stat"
    and J: "parked_ok unbuf shut stat n c us k (p, q, w)" and "p \<noteq> PkOut" and s: "wait_parked_main h C B c n p w = Some (p', w')"
  shows "parked_ok unbuf shut stat n c us k (p', q, w') \<and> parked_rank stat n (p', q, w') < parked_rank stat n (p, q, w)"
proof -
  note law = bubble_lawD [OF assms(2)] and waits = bubble_waitD [OF assms(2)]
  note defs = parked_ok_def parked_rank_def Let_def
  have waiting: "w' = passed (bubble_wait B) w \<and> p' = x \<and> (is_parked (stat (machine (rest w)) False) \<or> stat (machine (rest w)) False = GGone)"
    if "moves_to x (blocking (bubble_wait B) (\<lambda>_. Some)) w = Some (p', w')" for x
    using that waits(1) by (auto simp: passed_step split: if_splits)
  show ?thesis
  proof (cases p)
    case PkStart
    with s have "p' = PkWait 0" "w' = bench_resume (gettime h) w" by (simp_all add: moves_to_def resuming_def)
    with J PkStart show ?thesis by (simp add: defs timer_simps host_ok_sel [OF assms(1)])
  next
    case (PkWait i)
    show ?thesis
    proof (cases "i < n")
      case True
      with s PkWait waiting [of "PkSend i"] have w': "w' = passed (bubble_wait B) w" "p' = PkSend i"
        "is_parked (stat (machine (rest w)) False) \<or> stat (machine (rest w)) False = GGone" by simp_all
      moreover from J PkWait have "stat (machine (rest w)) False \<noteq> GGone" by (cases q) (auto simp: defs)
      ultimately show ?thesis using J PkWait True by (simp add: defs waits)
    next
      case False
      with s PkWait have "p' = PkClose" "w' = bench_pause (gettime h) w" by (simp_all add: moves_to_def pausing_def)
      with J PkWait False show ?thesis by (auto simp: defs timer_simps host_ok_sel [OF assms(1)])
    qed
  next
    case (PkSend i)
    with s have w': "p' = PkWait (Suc i)" "w' = snd (call (lib (chan_try_send B c 1)) w)" by (simp_all add: called_step)
    from J PkSend have g: "stat (machine (rest w)) False = GParked [Receiving c]" "q = KRecvW" "c \<in> unbuf (machine (rest w))" "i < n"
      by (cases q; auto simp: defs)+
    from law(3) [OF g(3,1), of 1] J PkSend g show ?thesis by (simp add: w' defs)
  next
    case PkClose
    with s have w': "p' = PkLast" "w' = snd (call (lib (chan_close C c)) w)" by (simp_all add: called_step)
    from J PkClose have c: "c \<in> unbuf (machine (rest w))" by (simp add: defs)
    note cl = law(4) [OF c]
    show ?thesis
    proof (cases "stat (machine (rest w)) False = GParked [Receiving c]")
      case True
      with J PkClose have "q = KRecvW" by (cases q) (auto simp: defs)
      with J PkClose True cl law(5) [OF c True] show ?thesis by (simp add: w' defs)
    next
      case False
      with J PkClose have "\<not> is_parked (stat (machine (rest w)) False)" by (cases q) (auto simp: defs)
      with J PkClose False cl law(6) [OF c this] show ?thesis by (cases q) (auto simp: w' defs)
    qed
  next
    case PkLast
    with s waiting [of PkOut] have w': "w' = passed (bubble_wait B) w" "p' = PkOut"
      "is_parked (stat (machine (rest w)) False) \<or> stat (machine (rest w)) False = GGone" by simp_all
    moreover from J PkLast have "receiver_here c True q (stat (machine (rest w)) False)" by (simp add: defs)
    then have "\<not> is_parked (stat (machine (rest w)) False)" by (rule receiver_leaving)
    ultimately show ?thesis using J PkLast by (simp add: defs waits)
  qed (use assms(4) in simp)
qed

lemma parked_child_lowers:
  assumes "meet_law C S X unbuf stat" and "bubble_law B C X unbuf shut stat"
    and J: "parked_ok unbuf shut stat n c us k (p, q, w)" and "p \<noteq> PkOut" and s: "parked_child X c q w = Some (q', w')"
  shows "parked_ok unbuf shut stat n c us k (p, q', w') \<and> parked_rank stat n (p, q', w') < parked_rank stat n (p, q, w)"
proof -
  note law = bubble_lawD [OF assms(2)]
  note defs = parked_ok_def parked_rank_def Let_def
  let ?m = "machine (rest w)"
  have m: "stat ?m True = GRunning" and here: "sender_here n p (stat ?m False)"
    and place: "receiver_here c (after_close p) q (stat ?m False)" using J by (simp_all add: defs)
  have any: "sender_here n p g" if "\<not> is_parked (stat ?m False)" for g using here that assms(4) by (rule sender_any)
  show ?thesis
  proof (cases q)
    case KRecv
    with place have run: "stat ?m False = GRunning" by simp
    then have sender: "sender_here n p g" for g using any by simp
    have w': "w' = snd (call (lib (sel_begin X False [Receiving c])) w)"
      "q' = (case fst (sel_begin X False [Receiving c] ?m) of Some (i, v, ok) \<Rightarrow> if ok then KAdd else KExit | None \<Rightarrow> KRecvW)"
      using s KRecv by (auto simp: begins_def split_beta Let_def)
    show ?thesis
    proof (cases "after_close p")
      case True
      with J have "c \<in> shut ?m" by (simp add: defs)
      from law(7) [OF run this] J KRecv True run sender show ?thesis by (simp add: w' defs)
    next
      case False
      with J have c: "c \<in> unbuf ?m" by (simp add: defs)
      have dflt: "Default \<notin> set [Receiving c]" and ch: "(\<Union>a \<in> set [Receiving c]. chan_of_case a) \<subseteq> unbuf ?m" using c by auto
      have no: "offers (stat ?m (\<not> False)) [Receiving c] = []" using m by simp
      note b = sel_beginD(1) [OF assms(1) run dflt ch] sel_beginD(2,3) [OF assms(1) run dflt ch no]
      from b J KRecv False sender show ?thesis by (simp add: w' defs)
    qed
  next
    case KRecvW
    have "\<exists>a. stat ?m False = GWoken a"
    proof (rule ccontr)
      assume "\<nexists>a. stat ?m False = GWoken a"
      with sel_endD(2) [OF assms(1)] have "sel_end X False ?m = None" by blast
      with s KRecvW show False by (simp add: wakes_def)
    qed
    then obtain a where a: "stat ?m False = GWoken a" by blast
    then have sender: "sender_here n p g" for g using any by simp
    obtain t m' where e: "sel_end X False ?m = Some (a, t, m')" using sel_endD(1) [OF assms(1) a] by blast
    have w': "w' = passed (sel_end X False) w" "q' = (case a of (i, v, ok) \<Rightarrow> if ok then KAdd else KExit)"
      using s KRecvW e by (auto simp: wakes_def)
    have l: "stat (machine (rest w')) = (stat ?m)(False := GRunning)" "unbuf (machine (rest w')) = unbuf ?m" "shut (machine (rest w')) = shut ?m"
      using sel_endD(3,4) [OF assms(1), of False ?m] law(8) e by (simp_all add: w')
    have v: "u64_var (rest w') = u64_var (rest w)" "kept w' = kept w" by (simp_all add: w')
    from place KRecvW a have "a = (0, 0, False) \<and> after_close p \<or> (\<exists>v. a = (0, v, True))" by auto
    then show ?thesis
    proof (elim disjE conjE exE)
      assume "a = (0, 0, False)" "after_close p"
      with J KRecvW a sender show ?thesis by (simp add: w'(2) defs l v)
    next
      fix x assume "a = (0, x, True)"
      with J KRecvW a sender show ?thesis by (simp add: w'(2) defs l v)
    qed
  next
    case KAdd
    with place have run: "stat ?m False = GRunning" by simp
    then have sender: "sender_here n p g" for g using any by simp
    obtain got where got: "u64_var (rest w) ''parked_got'' = take_bit 32 (of_nat got)" "Suc got = rounds_sent n p"
      using J KAdd by (auto simp: defs)
    have w': "q' = KRecv" "machine (rest w') = ?m" "kept w' = kept w"
      "u64_var (rest w') ''parked_got'' = take_bit 32 (of_nat (Suc got))"
      using s KAdd unfolding parked_child.simps
      by (auto simp: moves_to_def counting_child_def reading_def set_u64_def assign_def perform_def got take_bit_count simp del: of_nat_Suc)
    have "\<exists>got. u64_var (rest w') ''parked_got'' = take_bit 32 (of_nat got) \<and> got = rounds_sent n p"
      using w'(4) got(2) by blast
    with J KAdd run sender show ?thesis by (simp add: w'(1-3) defs)
  next
    case KExit
    with s have w': "q' = KGone" "w' = snd (call (lib (go_return X)) w)" by (simp_all add: called_step)
    have l: "stat (machine (rest w')) = (stat ?m)(False := GGone)" "unbuf (machine (rest w')) = unbuf ?m"
      "u64_var (rest w') = u64_var (rest w)" "kept w' = kept w"
      by (simp_all add: w' meet_lawD(11,12) [OF assms(1)])
    from place KExit have run: "stat ?m False = GRunning" by simp
    then have sender: "sender_here n p g" for g using any by simp
    have "shut (machine (rest w')) = shut ?m" using law(9) by (simp add: w')
    with J KExit sender run show ?thesis by (simp add: w'(1) l defs)
  next
    case KGone
    with s show ?thesis by simp
  qed
qed

lemma parked_lively:
  assumes "host_ok h" and "meet_law C S X unbuf stat" and "bubble_law B C X unbuf shut stat"
  shows "lively (wait_parked_main h C B c n) (parked_child X c) (\<lambda>p. p = PkOut)
    (parked_ok unbuf shut stat n c us k) (parked_rank stat n) (\<lambda>(p, q, w). wait_parked_main h C B c n p w \<noteq> None)"
proof (rule lively_if_lowering)
  fix p q and w :: "'a process world"
  assume J: "parked_ok unbuf shut stat n c us k (p, q, w)" and fin: "p \<noteq> PkOut"
  { fix p' w' assume "wait_parked_main h C B c n p w = Some (p', w')"
    then show "parked_ok unbuf shut stat n c us k (p', q, w') \<and> parked_rank stat n (p', q, w') < parked_rank stat n (p, q, w)"
      by (rule parked_main_lowers [OF assms(1,3) J fin]) }
  { fix q' w' assume "parked_child X c q w = Some (q', w')"
    then show "parked_ok unbuf shut stat n c us k (p, q', w') \<and> parked_rank stat n (p, q', w') < parked_rank stat n (p, q, w)"
      by (rule parked_child_lowers [OF assms(2,3) J fin]) }
  show "wait_parked_main h C B c n p w \<noteq> None \<or> parked_child X c q w \<noteq> None"
  proof (rule ccontr)
    assume stuck: "\<not> (wait_parked_main h C B c n p w \<noteq> None \<or> parked_child X c q w \<noteq> None)"
    then have none: "wait_parked_main h C B c n p w = None" "parked_child X c q w = None" by blast+
    let ?g = "stat (machine (rest w)) False"
    from J have place: "receiver_here c (after_close p) q ?g" by (simp add: parked_ok_def Let_def)
    have blocked: "moves_to x (blocking (bubble_wait B) (\<lambda>_. Some)) w = None \<Longrightarrow> \<not> is_parked ?g \<and> ?g \<noteq> GGone" for x :: parked_main_loc
      using bubble_waitD(1) [OF assms(3), of "machine (rest w)"] by (auto simp: passed_step split: if_splits)
    have "\<not> is_parked ?g \<and> ?g \<noteq> GGone"
    proof (cases p)
      case (PkWait i)
      show ?thesis
      proof (cases "i < n")
        case True
        with none(1) have "moves_to (PkSend i) (blocking (bubble_wait B) (\<lambda>_. Some)) w = None" unfolding PkWait by simp
        then show ?thesis by (rule blocked)
      next
        case False
        with PkWait none(1) show ?thesis by (simp add: moves_to_def pausing_def)
      qed
    next
      case PkLast
      with none(1) have "moves_to PkOut (blocking (bubble_wait B) (\<lambda>_. Some)) w = None" by simp
      then show ?thesis by (rule blocked)
    qed (use none fin in \<open>simp_all add: moves_to_def resuming_def calling_def split_beta\<close>)
    moreover have "\<forall>a. ?g \<noteq> GWoken a" if "wakes (sel_end X False) go w = None" for go :: "sel_answer \<Rightarrow> parked_child_loc"
      using sel_endD(1) [OF assms(2), of "machine (rest w)" False] that by (fastforce simp: wakes_def)
    ultimately show False
      using place none(2)
      by (cases q) (auto simp: begins_def moves_to_def counting_child_def reading_def set_u64_def assign_def
        calling_def split_beta Let_def)
  qed
qed

lemma wait_parked_body_counts:
  fixes w :: "'m process world"
  assumes "host_ok h" and "meet_law C S X unbuf stat" and "bubble_law B C X unbuf shut stat" and "fair sc"
    and w: "view unbuf stat w = (k, us, \<lambda>me. if me then GRunning else GGone, vars)" "vars ''parked_got'' = 0" "c \<noteq> 0 \<Longrightarrow> c \<in> us"
  shows "\<exists>w' got. wait_parked_body sc h S C X B c w = Some w' \<and> kept w' = k \<and> unbuf (machine (rest w')) - {c} = us - {c}
    \<and> stat (machine (rest w')) False = GGone \<and> u64_var (rest w') ''parked_got'' = take_bit 32 (of_nat got)
    \<and> got \<in> {0, nat (b_n (bch w))} \<and> (c \<noteq> 0 \<and> (\<forall>m. fst (go_launch S m)) \<longrightarrow> got = nat (b_n (bch w)))"
proof -
  let ?g = "call (lib (go_launch S)) w" and ?n = "nat (b_n (bch w))"
  let ?run = "together sc (wait_parked_main h C B c ?n) (parked_child X c) (\<lambda>p. p = PkOut) PkStart KRecv"
  have run: "wait_parked_body sc h S C X B c w = (if c = 0 then Some w else if \<not> fst ?g then Some (snd ?g) else ?run (snd ?g))"
    by (simp add: wait_parked_body_def calling_def split_beta reading_n_def)
  have v: "kept w = k" "unbuf (machine (rest w)) = us" "stat (machine (rest w)) = (\<lambda>me. if me then GRunning else GGone)" "u64_var (rest w) = vars"
    using w(1) by (simp_all add: view_def)
  show ?thesis
  proof (cases "c \<noteq> 0 \<and> fst ?g")
    case False
    then have "\<not> (c \<noteq> 0 \<and> (\<forall>m. fst (go_launch S m)))" by auto
    moreover have "kept (snd ?g) = k" "unbuf (machine (rest (snd ?g))) = us" "u64_var (rest (snd ?g)) = vars"
      by (simp_all add: v meet_lawD(8) [OF assms(2)])
    moreover have "\<not> fst ?g \<Longrightarrow> stat (machine (rest (snd ?g))) = stat (machine (rest w))"
      using meet_lawD(7) [OF assms(2), of "machine (rest w)"] by simp
    ultimately show ?thesis
      unfolding run using v w(2) False by (intro exI [of _ "if c = 0 then w else snd ?g"] exI [of _ 0]) auto
  next
    case True
    then have "parked_ok unbuf shut stat ?n c us k (PkStart, KRecv, snd ?g)"
      using v w(2,3) by (auto simp: parked_ok_def Let_def meet_lawD(7,8) [OF assms(2)] intro!: exI [of _ 0])
    from together_total [OF assms(4) parked_lively [OF assms(1-3)] this] obtain w' q' where
      w': "?run (snd ?g) = Some w'" "parked_ok unbuf shut stat ?n c us k (PkOut, q', w')" by auto
    note ok = w'(2) [unfolded parked_ok_def Let_def prod.case]
    have st: "stat (machine (rest w')) False = GGone" using ok by simp
    have fin: "kept w' = k" "unbuf (machine (rest w')) = us - {c}" "c \<in> us" "receiver_here c True q' GGone"
      using ok unfolding st by simp_all
    from ok obtain got where got: "u64_var (rest w') ''parked_got'' = take_bit 32 (of_nat got)" "got + in_hand q' GGone = ?n"
      unfolding st by auto
    from fin(4) have "in_hand q' GGone = 0" by (cases q') auto
    with got(2) have n: "got = ?n" by simp
    show ?thesis
      by (intro exI [of _ w'] exI [of _ got]) (use True w'(1) fin st got(1) n run in simp)
  qed
qed

section \<open>Goroutines that count\<close>

text \<open>\<open>a\<close> children have run and \<open>b\<close> have not; \<open>k\<close> is the sink and \<open>n\<close> the count.\<close>

definition tallied :: "string \<Rightarrow> nat \<Rightarrow> nat \<Rightarrow> sunk list \<Rightarrow> int \<Rightarrow> 'm process world \<Rightarrow> bool" where
  "tallied x a b k n w \<longleftrightarrow> u64_var (rest w) x = take_bit 32 (of_nat a) \<and> pending (rest w) = b \<and> kept w = k \<and> b_n (bch w) = n"

lemma child_tallied: "tallied x a b k n w \<Longrightarrow> \<exists>w'. counting_child x w = Some w' \<and> tallied x (Suc a) b k n w'"
  by (simp add: tallied_def counting_child_def reading_def set_u64_def assign_def perform_def take_bit_count pending_def del: of_nat_Suc)

lemma children_tallied:
  assumes "tallied x a b k n w"
  shows "\<exists>w'. repeat_for q (\<lambda>_. counting_child x) w = Some w' \<and> tallied x (a + q) b k n w'"
proof -
  have "\<exists>w'. for_loop q 0 (\<lambda>_. counting_child x) w = Some w' \<and> tallied x (a + q) b k n w'"
    by (rule for_loop_total [where I = "\<lambda>j. tallied x (a + j) b k n"]) (use assms child_tallied in auto)
  then show ?thesis by (simp add: repeat_for_def)
qed

lemma yield_tallied:
  assumes "tallied x a b k n w"
  shows "\<exists>w' a' b'. yielding S (counting_child x) w = Some w' \<and> tallied x a' b' k n w' \<and> a' + b' = a + b"
proof -
  let ?t = "min (fst (sched_yield S (machine (rest w)))) b"
  let ?v = "perform (\<lambda>p. p\<lparr>int_var := (int_var p)(''sched.pending'' := int (b - ?t))\<rparr>) (snd (call (lib (sched_yield S)) w))"
  have v: "tallied x a (b - ?t) k n ?v"
    using assms by (simp add: tallied_def perform_def pending_def)
  have "pending (rest (snd (call (lib (sched_yield S)) w))) = b" using assms by (simp add: tallied_def)
  then have "yielding S (counting_child x) w = repeat_for ?t (\<lambda>_. counting_child x) ?v"
    by (simp add: yielding_def calling_def split_beta reading_def set_int_def assign_def)
  moreover from children_tallied [OF v, of ?t] obtain u where "repeat_for ?t (\<lambda>_. counting_child x) ?v = Some u"
    "tallied x (a + ?t) (b - ?t) k n u" by blast
  ultimately show ?thesis by (intro exI [of _ u] exI [of _ "a + ?t"] exI [of _ "b - ?t"]) simp
qed

lemma launch_tallied:
  assumes "tallied x a b k n w" and "\<And>m. fst (go_launch S m)"
  shows "tallied x a (Suc b) k n (perform (\<lambda>p. p\<lparr>int_var := (int_var p)(''sched.pending'' := int (Suc b))\<rparr>) (snd (call (lib (go_launch S)) w)))"
  using assms(1) by (simp add: tallied_def perform_def pending_def)

lemma go_tallied:
  assumes "tallied x a b k n w" and "\<And>m. fst (go_launch S m)"
  shows "\<exists>w' a' b'. go_or_break S (yielding S (counting_child x)) w = Some (True, w') \<and> tallied x a' b' k n w' \<and> a' + b' = Suc (a + b)"
proof -
  let ?v = "perform (\<lambda>p. p\<lparr>int_var := (int_var p)(''sched.pending'' := int (Suc b))\<rparr>) (snd (call (lib (go_launch S)) w))"
  from yield_tallied [OF launch_tallied [OF assms], of S] obtain w' a' b' where y: "yielding S (counting_child x) ?v = Some w'"
    "tallied x a' b' k n w'" "a' + b' = a + Suc b" by blast
  have "pending (rest (snd (call (lib (go_launch S)) w))) = b" using assms(1) by (simp add: tallied_def pending_def)
  with y assms(2) have "go_or_break S (yielding S (counting_child x)) w = Some (True, w')"
    by (simp add: go_or_break_def split_beta Let_def set_int_def assign_def)
  with y(2,3) show ?thesis by auto
qed

text \<open>The end of a bubble in which the children count.\<close>

lemma bubble_tallied:
  assumes "\<And>m. bubble_close B m \<noteq> None" and "\<And>m. fst (bubble_open B m)" and "tallied x a b k n w"
    and "\<And>v. tallied x a b k n v \<Longrightarrow> \<exists>v' a' b'. body v = Some v' \<and> tallied x a' b' k n v' \<and> a' + b' = z"
  shows "\<exists>w'. in_bubble B (counting_child x) body w = Some w' \<and> tallied x z 0 k n w'"
proof -
  let ?o = "snd (call (lib (bubble_open B)) w)"
  have "tallied x a b k n ?o" using assms(3) by (simp add: tallied_def pending_def)
  from assms(4) [OF this] obtain v a' b' where v: "body ?o = Some v" "tallied x a' b' k n v" "a' + b' = z" by blast
  let ?v = "perform (\<lambda>p. p\<lparr>int_var := (int_var p)(''sched.pending'' := 0)\<rparr>) v"
  have "tallied x a' 0 k n ?v" using v(2) by (simp add: tallied_def perform_def pending_def)
  from children_tallied [OF this, of b'] obtain u where u: "repeat_for b' (\<lambda>_. counting_child x) ?v = Some u" "tallied x z 0 k n u"
    using v(3) by auto
  have b: "pending (rest v) = b'" using v(2) by (simp add: tallied_def)
  have c: "blocking (bubble_close B) (\<lambda>_. Some) u = Some (passed (bubble_close B) u)" by (rule blocking_passes) (rule assms(1))
  have "tallied x z 0 k n (passed (bubble_close B) u)" using u(2) by (simp add: tallied_def pending_def)
  moreover have "in_bubble B (counting_child x) body w = Some (passed (bubble_close B) u)"
    using assms(2) v(1) u(1) c b by (simp add: in_bubble_def calling_def split_beta reading_def set_int_def assign_def)
  ultimately show ?thesis by blast
qed

lemma timers_tallied:
  assumes "host_ok h"
  shows "tallied x a b k n w \<Longrightarrow> \<exists>w'. resuming h w = Some w' \<and> tallied x a b k n w'"
    "tallied x a b k n w \<Longrightarrow> \<exists>w'. pausing h w = Some w' \<and> tallied x a b k n w'"
  using timer_stmt [OF assms, of w] by (auto simp: tallied_def pending_def)

lemma section_tallied:
  assumes "host_ok h" and "tallied x a b k n w"
    and "\<And>v. tallied x a b k n v \<Longrightarrow> \<exists>v' a' b'. body v = Some v' \<and> tallied x a' b' k n v' \<and> P a' b'"
  shows "\<exists>w' a' b'. timed_section h body w = Some w' \<and> tallied x a' b' k n w' \<and> P a' b'"
proof -
  from timers_tallied(1) [OF assms(1,2)] obtain v where v: "resuming h w = Some v" "tallied x a b k n v" by blast
  from assms(3) [OF v(2)] obtain u a' b' where u: "body v = Some u" "tallied x a' b' k n u" "P a' b'" by blast
  from timers_tallied(2) [OF assms(1) u(2)] obtain w' where "pausing h u = Some w'" "tallied x a' b' k n w'" by blast
  with v(1) u show ?thesis by (auto simp: timed_section_def)
qed

lemma one_p_tallied:
  assumes "host_ok h" and "tallied x a b k n w"
    and "\<And>v. tallied x a b k n v \<Longrightarrow> \<exists>v'. body v = Some v' \<and> tallied x z 0 k n v'"
  shows "\<exists>w'. run_with_one_p h R body w = Some w' \<and> tallied x z 0 k n w'"
proof -
  from timers_tallied(2) [OF assms(1,2)] obtain v where v: "pausing h w = Some v" "tallied x a b k n v" by blast
  let ?u = "snd (call (lib (runtime_start R)) (snd (call (lib (gomaxprocs R 1)) v)))"
  have "tallied x a b k n ?u" using v(2) by (simp add: tallied_def pending_def)
  from assms(3) [OF this] obtain u where u: "body ?u = Some u" "tallied x z 0 k n u" by blast
  with v(1) show ?thesis
    by (simp add: run_with_one_p_def runtime_main_def calling_def split_beta tallied_def pending_def)
qed

lemma go_loop_tallied:
  assumes "\<And>m. fst (go_launch S m)" and "tallied x a b k n w"
  shows "\<exists>w' a' b'. for_break j i (\<lambda>_. go_or_break S (yielding S (counting_child x))) w = Some w'
    \<and> tallied x a' b' k n w' \<and> a' + b' = a + b + j"
  using assms(2)
proof (induction j arbitrary: i a b w)
  case (Suc j)
  from go_tallied [OF Suc.prems assms(1)] obtain v a1 b1 where v: "go_or_break S (yielding S (counting_child x)) w = Some (True, v)"
    "tallied x a1 b1 k n v" "a1 + b1 = Suc (a + b)" by blast
  from Suc.IH [OF v(2), of "i + 1"] v(1,3) show ?case by simp
qed auto

lemma start_body_tallied:
  assumes "host_ok h" and "\<And>m. fst (go_launch S m)" and "tallied ''synctest.start_ran'' 0 0 k n w"
  shows "\<exists>w' a' b'. bubble_start_body h S w = Some w' \<and> tallied ''synctest.start_ran'' a' b' k n w' \<and> a' + b' = nat n"
  unfolding bubble_start_body_def bubble_child_def
proof (rule section_tallied [OF assms(1,3)])
  fix v :: "'a process world" assume v: "tallied ''synctest.start_ran'' 0 0 k n v"
  then have "b_n (bch v) = n" by (simp add: tallied_def)
  with go_loop_tallied [OF assms(2) v, where j = "nat n" and i = 0]
  show "\<exists>v' a' b'. bench_loop_break (\<lambda>_. go_or_break S (yielding S (counting_child ''synctest.start_ran''))) v = Some v'
    \<and> tallied ''synctest.start_ran'' a' b' k n v' \<and> a' + b' = nat n" by (simp add: bench_loop_break_def)
qed

lemma member_body_tallied:
  assumes "\<And>m. fst (go_launch S m)" and "tallied x a 0 k n w"
  shows "\<exists>w' a' b'. member_body S w = Some w' \<and> tallied x a' b' k n w' \<and> a' + b' = Suc a"
proof -
  let ?v = "perform (\<lambda>p. p\<lparr>int_var := (int_var p)(''sched.pending'' := int (Suc 0))\<rparr>) (snd (call (lib (go_launch S)) w))"
  have "pending (rest (snd (call (lib (go_launch S)) w))) = 0" using assms(2) by (simp add: tallied_def)
  then have "member_body S w = Some ?v"
    using assms(1) by (simp add: member_body_def launching_def calling_def split_beta reading_def set_int_def assign_def)
  with launch_tallied [OF assms(2,1)] show ?thesis by (intro exI [of _ ?v] exI [of _ a] exI [of _ 1]) simp
qed

lemma run_member_body_tallied:
  assumes "host_ok h" and "\<And>m. fst (go_launch S m)" and "\<And>m. fst (bubble_open B m)" and "\<And>m. bubble_close B m \<noteq> None"
    and "tallied ''member_ran'' 0 0 k n w"
  shows "\<exists>w'. run_member_body h S B w = Some w' \<and> tallied ''member_ran'' (nat n) 0 k n w'"
proof -
  let ?b = "in_bubble B member_child (member_body S)"
  have "\<exists>w' a' b'. timed_section h (bench_loop (\<lambda>_. ?b)) w = Some w' \<and> tallied ''member_ran'' a' b' k n w' \<and> (a' = nat n \<and> b' = 0)"
  proof (rule section_tallied [OF assms(1,5)])
    fix v :: "'a process world" assume v: "tallied ''member_ran'' 0 0 k n v"
    have "\<exists>v'. for_loop (nat n) 0 (\<lambda>_. ?b) v = Some v' \<and> tallied ''member_ran'' (nat n) 0 k n v'"
    proof (rule for_loop_total [where I = "\<lambda>j. tallied ''member_ran'' j 0 k n"])
      show "tallied ''member_ran'' 0 0 k n v" by (rule v)
      fix j and u :: "'a process world" assume u: "tallied ''member_ran'' j 0 k n u"
      show "\<exists>u'. ?b u = Some u' \<and> tallied ''member_ran'' (Suc j) 0 k n u'"
        unfolding member_child_def
        by (rule bubble_tallied [OF assms(4,3) u]) (rule member_body_tallied [OF assms(2)])
    qed
    moreover have "b_n (bch v) = n" using v by (simp add: tallied_def)
    ultimately show "\<exists>v' a' b'. bench_loop (\<lambda>_. ?b) v = Some v' \<and> tallied ''member_ran'' a' b' k n v' \<and> (a' = nat n \<and> b' = 0)"
      by (auto simp: bench_loop_def)
  qed
  then show ?thesis by (auto simp: run_member_body_def)
qed

lemma counter_to_sink:
  assumes "\<exists>u. body (perform (\<lambda>p. p\<lparr>u64_var := (u64_var p)(x := 0), int_var := (int_var p)(''sched.pending'' := 0)\<rparr>) w) = Some u
    \<and> tallied x a 0 (kept w) n u"
  shows "\<exists>w'. block [set_u64 x 0, set_int ''sched.pending'' 0, body, reading (\<lambda>p. u64_var p x) keep_u64] w = Some w'
    \<and> kept w' = kept w @ [KeptU64 (take_bit 32 (of_nat a))]"
  using assms by (auto simp: set_u64_def set_int_def assign_def perform_def reading_def keep_u64_def tallied_def)

text \<open>
  C32. Functional: no goroutine of a bubble is lost, however the scheduler deals the turns. When bubbles open and
  close and every launch succeeds, the row that opens a bubble around one goroutine per iteration and the row
  that launches them all in one bubble and yields after each both hand the number of iterations to the sink,
  modulo \<open>2 ^ 32\<close> as their counter is, although a yield need not run any child.
\<close>
theorem bubble_loses_no_goroutine:
  fixes w :: "'m process world"
  assumes "host_ok h" and "\<And>m. fst (go_launch S m)" and "\<And>m. fst (bubble_open B m)" and "\<And>m. bubble_close B m \<noteq> None"
  shows "(\<exists>w'. bench_synctest_go h R S B w = Some w'
      \<and> kept w' = kept w @ [KeptU64 (take_bit 32 (of_nat (nat (b_n (bch w)))))])
    \<and> (\<exists>w'. bench_synctest_run_one_goroutine h R S B w = Some w'
      \<and> kept w' = kept w @ [KeptU64 (take_bit 32 (of_nat (nat (b_n (bch w)))))])"
proof
  let ?n = "b_n (bch w)"
  let ?w = "\<lambda>x. perform (\<lambda>p. p\<lparr>u64_var := (u64_var p)(x := 0), int_var := (int_var p)(''sched.pending'' := 0)\<rparr>) w"
  have w: "tallied x 0 0 (kept w) ?n (?w x)" for x by (simp add: tallied_def perform_def)
  show "\<exists>w'. bench_synctest_go h R S B w = Some w' \<and> kept w' = kept w @ [KeptU64 (take_bit 32 (of_nat (nat ?n)))]"
    unfolding bench_synctest_go_def
  proof (rule counter_to_sink, rule one_p_tallied [OF assms(1) w])
    fix v :: "'m process world" assume "tallied ''synctest.start_ran'' 0 0 (kept w) ?n v"
    then show "\<exists>v'. in_bubble B bubble_child (bubble_start_body h S) v = Some v'
      \<and> tallied ''synctest.start_ran'' (nat ?n) 0 (kept w) ?n v'"
      unfolding bubble_child_def by (rule bubble_tallied [OF assms(4,3)]) (rule start_body_tallied [OF assms(1,2)])
  qed
  show "\<exists>w'. bench_synctest_run_one_goroutine h R S B w = Some w' \<and> kept w' = kept w @ [KeptU64 (take_bit 32 (of_nat (nat ?n)))]"
    unfolding bench_synctest_run_one_goroutine_def
    by (rule counter_to_sink, rule one_p_tallied [OF assms(1) w], rule run_member_body_tallied [OF assms])
qed

section \<open>The rows with a second goroutine\<close>

lemma wait_parked_top_counts:
  fixes w :: "'m process world"
  assumes "host_ok h" and "meet_law C S X unbuf stat" and "bubble_law B C X unbuf shut stat" and "fair sc"
    and w: "view unbuf stat w = (k, us, st, vars)" "vars ''parked_got'' = 0" "0 \<notin> us"
  shows "\<exists>w' got. wait_parked_top sc h S C X B w = Some w' \<and> kept w' = k \<and> unbuf (machine (rest w')) = us
    \<and> u64_var (rest w') ''parked_got'' = take_bit 32 (of_nat got) \<and> got \<in> {0, nat (b_n (bch w))}
    \<and> ((\<forall>m. fst (chan_make C 0 m) \<noteq> 0 \<and> fst (go_launch S m) \<and> fst (bubble_open B m)) \<longrightarrow> got = nat (b_n (bch w)))"
proof -
  let ?o = "call (lib (bubble_open B)) w"
  let ?c = "fst (chan_make C 0 (machine (rest (snd ?o))))" and ?u = "snd (call (lib (chan_make C 0)) (snd ?o))"
  have run: "wait_parked_top sc h S C X B w = (if \<not> fst ?o then free_all C [0] (snd ?o) else
      block [wait_parked_body sc h S C X B ?c, block [blocking (bubble_close B) (\<lambda>_. Some), free_all C [?c]]] ?u)"
    by (simp add: wait_parked_top_def calling_def split_beta numeral_nat Option.bind_assoc)
  have o: "view unbuf stat (snd ?o) = (k, us, stat (machine (rest (snd ?o))), vars)"
    using w(1) bubble_lawD(1) [OF assms(3)] by (simp add: view_def)
  show ?thesis
  proof (cases "fst ?o")
    case False
    then have "\<not> (\<forall>m. fst (bubble_open B m))" by auto
    moreover from free_all_step [OF assms(2) o, of "[0]"] obtain x where "free_all C [0] (snd ?o) = Some x"
      "view unbuf stat x = (k, us - {0}, stat (machine (rest (snd ?o))), vars)" by auto
    moreover have "us - {0} = us" using w(3) by simp
    ultimately show ?thesis using False w(2) unfolding run by (intro exI [of _ x] exI [of _ 0]) (auto simp: view_def)
  next
    case True
    let ?us = "us \<union> ({?c} - {0})"
    have "stat (machine (rest (snd ?o))) = (\<lambda>me. if me then GRunning else GGone)" using True bubble_lawD(2) [OF assms(3)] by simp
    with o meet_lawD(1-4) [OF assms(2), of "machine (rest (snd ?o))"]
    have u: "view unbuf stat ?u = (k, ?us, \<lambda>me. if me then GRunning else GGone, vars)" and new: "?c \<noteq> 0 \<Longrightarrow> ?c \<notin> us"
      by (cases "?c = 0"; auto simp: view_def)+
    have "?c \<noteq> 0 \<Longrightarrow> ?c \<in> ?us" by simp
    from wait_parked_body_counts [OF assms(1-4) u w(2) this] obtain v got where v: "wait_parked_body sc h S C X B ?c ?u = Some v"
      "kept v = k" "unbuf (machine (rest v)) - {?c} = ?us - {?c}" "stat (machine (rest v)) False = GGone"
      "u64_var (rest v) ''parked_got'' = take_bit 32 (of_nat got)" "got \<in> {0, nat (b_n (bch ?u))}"
      "?c \<noteq> 0 \<and> (\<forall>m. fst (go_launch S m)) \<longrightarrow> got = nat (b_n (bch ?u))" by blast
    have "view unbuf stat v = (k, unbuf (machine (rest v)), stat (machine (rest v)), u64_var (rest v))"
      using v(2) by (simp add: view_def)
    from close_and_free [OF assms(2,3) this v(4), of "[?c]"] obtain x where
      x: "block [blocking (bubble_close B) (\<lambda>_. Some), free_all C [?c]] v = Some x" "kept x = k"
      "unbuf (machine (rest x)) = unbuf (machine (rest v)) - set [?c]" "u64_var (rest x) = u64_var (rest v)" by blast
    have "?us - {?c} = us" using new w(3) by (cases "?c = 0") auto
    with x(3) v(3) have "unbuf (machine (rest x)) = us" by simp
    moreover have "wait_parked_top sc h S C X B w = Some x" using True v(1) x(1) unfolding run by simp
    ultimately show ?thesis using x(2,4) v(5-7) by (intro exI [of _ x] exI [of _ got]) simp
  qed
qed

text \<open>
  C27. Liveness: the row that waits for a parked receiver comes back for every schedule that neglects neither goroutine,
  and hands to the sink the number of iterations, modulo \<open>2 ^ 32\<close>: each \<open>synctest_wait\<close> comes back with the
  receiver parked, so no \<open>chan_try_send\<close> misses it, and the wait after the close lets it leave before the
  bubble closes. When the bubble does not open, the channel cannot be made or the launch fails it hands 0. The
  channel is given back in each case.
\<close>
theorem parked_receiver_takes_all:
  fixes w :: "'m process world"
  assumes "host_ok h" and "meet_law C S X unbuf stat" and "bubble_law B C X unbuf shut stat" and "starts_main R unbuf stat"
    and "fair sc" and "0 \<notin> unbuf (machine (rest w))"
  shows "\<exists>w' got. bench_synctest_wait_parked sc h R S C X B w = Some w'
    \<and> kept w' = kept w @ [KeptU64 (take_bit 32 (of_nat got))] \<and> got \<in> {0, nat (b_n (bch w))}
    \<and> unbuf (machine (rest w')) = unbuf (machine (rest w))
    \<and> ((\<forall>m. fst (chan_make C 0 m) \<noteq> 0 \<and> fst (go_launch S m) \<and> fst (bubble_open B m)) \<longrightarrow> got = nat (b_n (bch w)))"
proof -
  let ?w = "perform (\<lambda>p. p\<lparr>u64_var := (u64_var p)(''parked_got'' := 0)\<rparr>) w" and ?n = "nat (b_n (bch w))"
  let ?Q = "\<lambda>k us vars. \<exists>got. k = kept w \<and> us = unbuf (machine (rest w)) \<and> vars ''parked_got'' = take_bit 32 (of_nat got) \<and> got \<in> {0, ?n}
    \<and> ((\<forall>m. fst (chan_make C 0 m) \<noteq> 0 \<and> fst (go_launch S m) \<and> fst (bubble_open B m)) \<longrightarrow> got = ?n)"
  have top: "\<exists>u'. wait_parked_top sc h S C X B u = Some u' \<and> ?Q (kept u') (unbuf (machine (rest u'))) (u64_var (rest u'))"
    if "view unbuf stat u = (kept ?w, unbuf (machine (rest ?w)), st, u64_var (rest ?w))" "st True = GRunning" "b_n (bch u) = b_n (bch ?w)" for u st
    using wait_parked_top_counts [OF assms(1-3,5) that(1)] assms(6) that(3) by (simp add: perform_def)
  have "\<exists>v. run_with_one_p h R (wait_parked_top sc h S C X B) ?w = Some v \<and> ?Q (kept v) (unbuf (machine (rest v))) (u64_var (rest v))"
    by (rule one_p_frame_count [OF assms(1,4), where Q = ?Q]) (rule top)
  then obtain v where v: "run_with_one_p h R (wait_parked_top sc h S C X B) ?w = Some v" "?Q (kept v) (unbuf (machine (rest v))) (u64_var (rest v))"
    by blast
  from v(2) obtain got where got: "kept v = kept w" "unbuf (machine (rest v)) = unbuf (machine (rest w))"
    "u64_var (rest v) ''parked_got'' = take_bit 32 (of_nat got)" "got \<in> {0, ?n}"
    "(\<forall>m. fst (chan_make C 0 m) \<noteq> 0 \<and> fst (go_launch S m) \<and> fst (bubble_open B m)) \<longrightarrow> got = ?n" by blast
  have "bench_synctest_wait_parked sc h R S C X B w = reading (\<lambda>p. u64_var p ''parked_got'') keep_u64 v"
    using v(1) by (simp add: bench_synctest_wait_parked_def set_u64_def assign_def perform_def)
  also have "\<dots> = Some (bench_keep_u64 (take_bit 32 (of_nat got)) v)" using got(3) by (simp add: reading_def keep_u64_def)
  finally show ?thesis using got by auto
qed

text \<open>
  Liveness: the ping pong in a bubble comes back for every schedule that neglects neither goroutine, whichever channel
  cannot be made and whether or not the bubble opens and the launch succeeds. It hands to the sink whether the
  second goroutine was counted out: 0 or 1, and 1 when nothing fails. The bubble closes, and both channels are
  given back.
\<close>
theorem bubble_pingpong_returns:
  fixes w :: "'m process world"
  assumes "host_ok h" and "meet_law C S X unbuf stat" and "bubble_law B C X unbuf shut stat" and "starts_main R unbuf stat"
    and "fair sc" and "0 \<notin> unbuf (machine (rest w))"
  shows "\<exists>w' gone. bench_synctest_chan_pingpong sc h R S C X B w = Some w' \<and> kept w' = kept w @ [KeptU64 gone] \<and> gone \<in> {0, 1}
    \<and> unbuf (machine (rest w')) = unbuf (machine (rest w))
    \<and> ((\<forall>m. fst (chan_make C 0 m) \<noteq> 0 \<and> fst (go_launch S m) \<and> fst (bubble_open B m)) \<longrightarrow> gone = 1)"
proof -
  let ?x = "''synctest.pp_gone''"
  let ?w = "perform (\<lambda>p. p\<lparr>u64_var := (u64_var p)(''synctest.pp_stop'' := 0, ?x := 0)\<rparr>) w"
  let ?Q = "\<lambda>k us vars. k = kept w \<and> us = unbuf (machine (rest w)) \<and> vars ?x \<in> {0, 1}
    \<and> ((\<forall>m. fst (chan_make C 0 m) \<noteq> 0 \<and> fst (go_launch S m) \<and> fst (bubble_open B m)) \<longrightarrow> vars ?x = 1)"
  have top: "\<exists>u'. pingpong_top sc h S C X B u = Some u' \<and> ?Q (kept u') (unbuf (machine (rest u'))) (u64_var (rest u'))"
    if "view unbuf stat u = (kept ?w, unbuf (machine (rest ?w)), st, u64_var (rest ?w))" "st True = GRunning" for u st
    using pingpong_top_returns [OF assms(1-3,5) that(1)] assms(6) by (simp add: perform_def)
  have "\<exists>v. run_with_one_p h R (pingpong_top sc h S C X B) ?w = Some v \<and> ?Q (kept v) (unbuf (machine (rest v))) (u64_var (rest v))"
    by (rule one_p_frame [OF assms(1,4), where Q = ?Q]) (rule top)
  then obtain v where v: "run_with_one_p h R (pingpong_top sc h S C X B) ?w = Some v" "?Q (kept v) (unbuf (machine (rest v))) (u64_var (rest v))"
    by blast
  have "bench_synctest_chan_pingpong sc h R S C X B w = reading (\<lambda>p. u64_var p ?x) keep_u64 v"
    using v(1) by (simp add: bench_synctest_chan_pingpong_def set_u64_def assign_def perform_def)
  also have "\<dots> = Some (bench_keep_u64 (u64_var (rest v) ?x) v)" by (simp add: reading_def keep_u64_def)
  finally show ?thesis using v(2) by auto
qed

section \<open>Bubbles that keep the promises\<close>

text \<open>The channels made, the ones that were closed, and the states of the two goroutines.\<close>

type_synonym bubble = "nat list \<times> nat list \<times> (bool \<Rightarrow> goroutine)"

definition still_open :: "bubble \<Rightarrow> nat set" where "still_open = (\<lambda>(made, ended, st). set made - set ended)"

definition closed_chans :: "bubble \<Rightarrow> nat set" where "closed_chans = (\<lambda>(made, ended, st). set ended)"

definition goroutine_states :: "bubble \<Rightarrow> bool \<Rightarrow> goroutine" where "goroutine_states = (\<lambda>(made, ended, st). st)"

definition bubble_chans :: "bubble chan_lib" where
  "bubble_chans = \<lparr>chan_make = (\<lambda>k (made, ended, st). let c = Suc (sum_list (made @ ended)) in (c, 1, (c # made, ended, st))),
     chan_free = (\<lambda>c (made, ended, st). ((), 1, (filter (\<lambda>d. d \<noteq> c) made, ended, st))),
     chan_send = (\<lambda>c v m. None), chan_recv = (\<lambda>c m. None), chan_try_recv = (\<lambda>c m. ((0, False), 1, m)),
     chan_close = (\<lambda>c (made, ended, st). ((), 1, (made, c # ended,
       if st False = GParked [Receiving c] then st(False := GWoken (0, 0, False)) else st))),
     chan_meet = (\<lambda>c v m. m)\<rparr>"

definition bubble_sched :: "bubble sched_lib" where
  "bubble_sched = \<lparr>go_launch = (\<lambda>(made, ended, st). (True, 1, (made, ended, st(False := GRunning)))), sched_yield = (\<lambda>m. (1, 1, m))\<rparr>"

definition bubble_meet_begin :: "bool \<Rightarrow> sel_case list \<Rightarrow> bubble \<Rightarrow> sel_answer option \<times> nat \<times> bubble" where
  "bubble_meet_begin me cs = (\<lambda>(made, ended, st). case cs of
     [Receiving c] \<Rightarrow> if c \<in> set ended then (Some (0, 0, False), 1, (made, ended, st)) else
       (case offers (st (\<not> me)) cs of [] \<Rightarrow> (None, 1, (made, ended, st(me := GParked cs)))
        | (i, j, v) # _ \<Rightarrow> (Some (i, v, True), 1, (made, ended, st(\<not> me := GWoken (j, v, True)))))
   | _ \<Rightarrow> (case offers (st (\<not> me)) cs of [] \<Rightarrow> (None, 1, (made, ended, st(me := GParked cs)))
        | (i, j, v) # _ \<Rightarrow> (Some (i, v, True), 1, (made, ended, st(\<not> me := GWoken (j, v, True))))))"

definition bubble_select :: "bubble select_lib" where
  "bubble_select = \<lparr>sel_begin = bubble_meet_begin,
     sel_end = (\<lambda>me (made, ended, st). case st me of GWoken a \<Rightarrow> Some (a, 1, (made, ended, st(me := GRunning))) | _ \<Rightarrow> None),
     go_return = (\<lambda>(made, ended, st). ((), 1, (made, ended, st(False := GGone))))\<rparr>"

definition ref_bubble :: "bubble bubble_lib" where
  "ref_bubble = \<lparr>bubble_open = (\<lambda>(made, ended, st). (True, 1, (made, ended, \<lambda>me. if me then GRunning else GGone))),
     bubble_close = (\<lambda>(made, ended, st). if st False = GGone then Some ((), 1, (made, ended, st)) else None),
     bubble_wait = (\<lambda>(made, ended, st). if is_parked (st False) \<or> st False = GGone then Some ((), 1, (made, ended, st)) else None),
     bubble_sleep = (\<lambda>k m. ((), 1, m)),
     chan_try_send = (\<lambda>c v (made, ended, st). (True, 1, (made, ended,
       if st False = GParked [Receiving c] then st(False := GWoken (0, v, True)) else st)))\<rparr>"

definition bubble_start :: "bubble runtime_lib" where
  "bubble_start = \<lparr>runtime_start = (\<lambda>(made, ended, st). ((), 1, (made, ended, \<lambda>me. if me then GRunning else GGone))),
     runtime_stop = (\<lambda>m. ((), 1, m)), gomaxprocs = (\<lambda>k m. (1, 1, m)), gosched = (\<lambda>m. ((), 1, m))\<rparr>"

lemmas bubble_ref_defs = still_open_def closed_chans_def goroutine_states_def bubble_chans_def bubble_sched_def bubble_select_def
  ref_bubble_def bubble_start_def

lemma bubble_begin_open:
  assumes "(\<Union>a \<in> set cs. chan_of_case a) \<subseteq> still_open (made, ended, st)"
  shows "bubble_meet_begin me cs (made, ended, st) = (case offers (st (\<not> me)) cs of
     [] \<Rightarrow> (None, 1, (made, ended, st(me := GParked cs)))
   | (i, j, v) # _ \<Rightarrow> (Some (i, v, True), 1, (made, ended, st(\<not> me := GWoken (j, v, True)))))"
  using assms by (auto simp: bubble_meet_begin_def still_open_def split: list.splits sel_case.splits)

lemma fresh_chan: "Suc (sum_list xs + sum_list ys) \<notin> set (xs :: nat list)" "Suc (sum_list xs + sum_list ys) \<notin> set (ys :: nat list)"
  using member_le_sum_list [of "Suc (sum_list xs + sum_list ys)" xs] member_le_sum_list [of "Suc (sum_list xs + sum_list ys)" ys] by auto

lemma bubble_chans_meet: "meet_law bubble_chans bubble_sched bubble_select still_open goroutine_states"
proof -
  { fix me cs and m :: bubble
    assume ch: "(\<Union>a \<in> set cs. chan_of_case a) \<subseteq> still_open m"
    obtain made ended st where m: "m = (made, ended, st)" by (cases m)
    note b = bubble_begin_open [OF ch [unfolded m], of me]
    have "let (r, t, m') = sel_begin bubble_select me cs m in still_open m' = still_open m
           \<and> (case r of None \<Rightarrow> offers (goroutine_states m (\<not> me)) cs = [] \<and> goroutine_states m' = (goroutine_states m)(me := GParked cs)
              | Some (i, v, ok) \<Rightarrow> ok \<and> (\<exists>j. (i, j, v) \<in> set (offers (goroutine_states m (\<not> me)) cs)
                  \<and> goroutine_states m' = (goroutine_states m)(\<not> me := GWoken (j, v, True))))"
      by (cases "offers (st (\<not> me)) cs") (auto simp: m b bubble_select_def still_open_def goroutine_states_def) }
  moreover
  { fix me and m :: bubble
    have "case sel_end bubble_select me m of None \<Rightarrow> \<nexists>a. goroutine_states m me = GWoken a
      | Some (a, t, m') \<Rightarrow> goroutine_states m me = GWoken a \<and> goroutine_states m' = (goroutine_states m)(me := GRunning) \<and> still_open m' = still_open m"
      by (cases m; cases "goroutine_states m me") (auto simp: bubble_select_def goroutine_states_def still_open_def) }
  ultimately show ?thesis
    unfolding meet_law_def
    by (intro conjI allI impI) (auto simp: bubble_ref_defs fresh_chan Let_def)
qed

lemma ref_bubble_law: "bubble_law ref_bubble bubble_chans bubble_select still_open closed_chans goroutine_states"
proof -
  { fix m :: bubble
    have "case bubble_wait ref_bubble m of None \<Rightarrow> goroutine_states m False = GRunning \<or> (\<exists>a. goroutine_states m False = GWoken a)
      | Some (r, t, m') \<Rightarrow> (is_parked (goroutine_states m False) \<or> goroutine_states m False = GGone)
          \<and> still_open m' = still_open m \<and> closed_chans m' = closed_chans m \<and> goroutine_states m' = goroutine_states m"
      by (cases m; cases "goroutine_states m False") (auto simp: ref_bubble_def goroutine_states_def) }
  moreover
  { fix m :: bubble
    have "case bubble_close ref_bubble m of None \<Rightarrow> goroutine_states m False \<noteq> GGone
      | Some (r, t, m') \<Rightarrow> goroutine_states m False = GGone \<and> still_open m' = still_open m"
      by (cases m) (auto simp: ref_bubble_def goroutine_states_def) }
  moreover
  { fix me and m :: bubble
    have "closed_chans (left_by (sel_end bubble_select me) m) = closed_chans m"
      by (cases m; cases "goroutine_states m me") (auto simp: bubble_select_def left_by_def goroutine_states_def closed_chans_def) }
  ultimately show ?thesis
    unfolding bubble_law_def
    by (intro conjI allI impI) (auto simp: bubble_ref_defs bubble_meet_begin_def Let_def)
qed

lemma bubble_starts_main: "starts_main bubble_start still_open goroutine_states"
  by (auto simp: starts_main_def runtime_keeps_def bubble_ref_defs)

lemma ref_bubble_works:
  "fst (chan_make bubble_chans 0 m) \<noteq> 0" "fst (go_launch bubble_sched m)" "fst (bubble_open ref_bubble m)"
  by (auto simp: bubble_ref_defs Let_def split: prod.splits)

theorem parked_receiver_takes_all_witness:
  "\<exists>w'. bench_synctest_wait_parked even (exact_host length (\<lambda>x. 0)) bubble_start bubble_sched bubble_chans bubble_select ref_bubble
       (row_world 5 ([], [], \<lambda>me. GGone)) = Some w' \<and> kept w' = [KeptU64 5]"
proof -
  let ?w = "row_world 5 ([], [], \<lambda>me. GGone) :: bubble process world"
  have z: "0 \<notin> still_open (machine (rest ?w))" by (simp add: still_open_def)
  from parked_receiver_takes_all [OF exact_host_ok [of length "\<lambda>x. 0"] bubble_chans_meet ref_bubble_law bubble_starts_main fair_alternation z]
  obtain w' got where w': "bench_synctest_wait_parked even (exact_host length (\<lambda>x. 0)) bubble_start bubble_sched bubble_chans bubble_select ref_bubble ?w = Some w'"
    "kept w' = kept ?w @ [KeptU64 (take_bit 32 (of_nat got))]"
    "(\<forall>m. fst (chan_make bubble_chans 0 m) \<noteq> 0 \<and> fst (go_launch bubble_sched m) \<and> fst (bubble_open ref_bubble m)) \<longrightarrow> got = nat (b_n (bch ?w))"
    by (elim exE conjE)
  have "got = 5" using w'(3) ref_bubble_works by simp
  with w'(1,2) show ?thesis by (intro exI [of _ w']) simp
qed

theorem bubble_pingpong_returns_witness:
  "\<exists>w'. bench_synctest_chan_pingpong even (exact_host length (\<lambda>x. 0)) bubble_start bubble_sched bubble_chans bubble_select ref_bubble
       (row_world 5 ([], [], \<lambda>me. GGone)) = Some w' \<and> kept w' = [KeptU64 1]"
proof -
  let ?w = "row_world 5 ([], [], \<lambda>me. GGone) :: bubble process world"
  have z: "0 \<notin> still_open (machine (rest ?w))" by (simp add: still_open_def)
  from bubble_pingpong_returns [OF exact_host_ok [of length "\<lambda>x. 0"] bubble_chans_meet ref_bubble_law bubble_starts_main fair_alternation z]
  obtain w' gone where w': "bench_synctest_chan_pingpong even (exact_host length (\<lambda>x. 0)) bubble_start bubble_sched bubble_chans bubble_select ref_bubble ?w = Some w'"
    "kept w' = kept ?w @ [KeptU64 gone]"
    "(\<forall>m. fst (chan_make bubble_chans 0 m) \<noteq> 0 \<and> fst (go_launch bubble_sched m) \<and> fst (bubble_open ref_bubble m)) \<longrightarrow> gone = 1"
    by (elim exE conjE)
  have "gone = 1" using w'(3) ref_bubble_works by simp
  with w'(1,2) show ?thesis by (intro exI [of _ w']) simp
qed

text \<open>For the rows that only count, a bubble that opens and closes; no yield runs a child.\<close>

definition idle_sched :: "unit sched_lib" where
  "idle_sched = \<lparr>go_launch = (\<lambda>m. (True, 1, m)), sched_yield = (\<lambda>m. (0, 1, m))\<rparr>"

definition idle_bubble :: "unit bubble_lib" where
  "idle_bubble = \<lparr>bubble_open = (\<lambda>m. (True, 1, m)), bubble_close = (\<lambda>m. Some ((), 1, m)), bubble_wait = (\<lambda>m. Some ((), 1, m)),
     bubble_sleep = (\<lambda>k m. ((), 1, m)), chan_try_send = (\<lambda>c v m. (False, 1, m))\<rparr>"

theorem bubble_loses_no_goroutine_witness:
  "(\<exists>w'. bench_synctest_go (exact_host length (\<lambda>x. 0)) plain_procs idle_sched idle_bubble (row_world 5 ()) = Some w' \<and> kept w' = [KeptU64 5])
   \<and> (\<exists>w'. bench_synctest_run_one_goroutine (exact_host length (\<lambda>x. 0)) plain_procs idle_sched idle_bubble (row_world 5 ()) = Some w'
     \<and> kept w' = [KeptU64 5])"
proof -
  have i: "fst (go_launch idle_sched m)" "fst (bubble_open idle_bubble m)" "bubble_close idle_bubble m \<noteq> None" for m
    by (simp_all add: idle_sched_def idle_bubble_def)
  from bubble_loses_no_goroutine [OF exact_host_ok [of length "\<lambda>x. 0"] i, where w = "row_world 5 ()" and R = plain_procs]
  show ?thesis by simp
qed

end
