(* ===== verification/Chan_Rows.thy ===== *)
theory Chan_Rows
  imports Volley Chan_Steps
begin

text \<open>
  The three rows of \<open>bench/chan_bench.c\<close> with a second goroutine, whole: the channels made and freed, the
  launch, and the two goroutines under an arbitrary schedule (theory \<open>Interleave\<close>). The ping pong without
  a buffer is the one of \<open>Volley\<close>; with a buffer an operation that would block is tried again when the
  other goroutine has moved, as in \<open>Chan_Steps\<close>.
\<close>

section \<open>The ping pong without a buffer\<close>

definition chan_cases :: "nat \<Rightarrow> nat \<Rightarrow> volley_shape" where
  "chan_cases c1 c2 = \<lparr>
     main_sends_on = [Sending c1 1],
     main_receives_on = [Receiving c2],
     main_ends_on = [Sending c1 0],
     child_receives_on = [Receiving c1],
     child_sends_on = (\<lambda>v. [Sending c2 v]),
     child_took = (\<lambda>(i, v, ok). ok),
     child_sent = (\<lambda>r. True),
     stop_flag = ''chan.pp_stop'', gone_count = ''chan.pp_gone''\<rparr>"

definition pingpong_unbuffered_body ::
  "(nat \<Rightarrow> bool) \<Rightarrow> 'm host \<Rightarrow> 'm sched_lib \<Rightarrow> 'm chan_lib \<Rightarrow> 'm select_lib \<Rightarrow> 'm cstmt" where
  "pingpong_unbuffered_body sc h S C X = volley_row sc h S C X 2 (\<lambda>cs. chan_cases (cs ! 0) (cs ! 1)) ''chan.pp_gone''"

definition bench_chan_pingpong_unbuffered ::
  "(nat \<Rightarrow> bool) \<Rightarrow> 'm host \<Rightarrow> 'm runtime_lib \<Rightarrow> 'm sched_lib \<Rightarrow> 'm chan_lib \<Rightarrow> 'm select_lib \<Rightarrow> 'm cstmt" where
  "bench_chan_pingpong_unbuffered sc h R S C X = block [
     set_u64 ''chan.pp_stop'' 0, set_u64 ''chan.pp_gone'' 0,
     run_with_one_p h R (pingpong_unbuffered_body sc h S C X)]"

section \<open>The ping pong with a buffer\<close>

text \<open>The loops of \<open>Volley\<close>, where an operation is one step.\<close>

fun buffered_main :: "'m host \<Rightarrow> 'm sched_lib \<Rightarrow> 'm chan_lib \<Rightarrow> nat \<Rightarrow> nat \<Rightarrow> nat \<Rightarrow> (main_loc, 'm process world) thread" where
  "buffered_main h S C c1 c2 n VmStart = moves_to (VmSend 0) (resuming h)"
| "buffered_main h S C c1 c2 n (VmSend i) =
     (if i < n then moves_to (VmRecv i) (blocking (chan_send C c1 1) (\<lambda>_. Some)) else moves_to VmStop (pausing h))"
| "buffered_main h S C c1 c2 n (VmRecv i) = wakes (chan_recv C c2) (\<lambda>_. VmSend (i + 1))"
| "buffered_main h S C c1 c2 n VmStop = moves_to VmLast (set_u64 ''chan.pp_stop'' 1)"
| "buffered_main h S C c1 c2 n VmLast = moves_to VmAway (blocking (chan_send C c1 0) (\<lambda>_. Some))"
| "buffered_main h S C c1 c2 n VmAway =
     (\<lambda>w. do { (fin, w) \<leftarrow> spin_until S ''chan.pp_gone'' w; Some (if fin then VmOut else VmAway, w) })"
| "buffered_main h S C c1 c2 n p = (\<lambda>w. None)"

fun buffered_child :: "'m chan_lib \<Rightarrow> nat \<Rightarrow> nat \<Rightarrow> (child_loc, 'm process world) thread" where
  "buffered_child C c1 c2 VcRecv = wakes (chan_recv C c1) (\<lambda>(v, ok). if ok then VcTest v else VcAdd)"
| "buffered_child C c1 c2 (VcTest v) = (\<lambda>w. Some (if u64_var (rest w) ''chan.pp_stop'' \<noteq> 0 then VcAdd else VcSend v, w))"
| "buffered_child C c1 c2 (VcSend v) = moves_to VcRecv (blocking (chan_send C c2 v) (\<lambda>_. Some))"
| "buffered_child C c1 c2 VcAdd = moves_to VcGone (counting_child ''chan.pp_gone'')"
| "buffered_child C c1 c2 q = (\<lambda>w. None)"

definition pingpong_buffered_body :: "(nat \<Rightarrow> bool) \<Rightarrow> 'm host \<Rightarrow> 'm sched_lib \<Rightarrow> 'm chan_lib \<Rightarrow> 'm cstmt" where
  "pingpong_buffered_body sc h S C = calling (chan_make C 1) (\<lambda>c1. calling (chan_make C 1) (\<lambda>c2.
     if c1 = 0 \<or> c2 = 0 then Some else calling (go_launch S) (\<lambda>ok. if \<not> ok then Some else block [
       reading_n (\<lambda>n. together sc (buffered_main h S C c1 c2 (nat n)) (buffered_child C c1 c2) (\<lambda>p. p = VmOut) VmStart VcRecv),
       call_op (chan_free C c1), call_op (chan_free C c2)])))"

definition bench_chan_pingpong_buffered ::
  "(nat \<Rightarrow> bool) \<Rightarrow> 'm host \<Rightarrow> 'm runtime_lib \<Rightarrow> 'm sched_lib \<Rightarrow> 'm chan_lib \<Rightarrow> 'm cstmt" where
  "bench_chan_pingpong_buffered sc h R S C = block [
     set_u64 ''chan.pp_stop'' 0, set_u64 ''chan.pp_gone'' 0,
     run_with_one_p h R (pingpong_buffered_body sc h S C)]"

section \<open>The pipeline\<close>

datatype producer_loc = PutNext nat | PutGone

datatype consumer_loc = TakeStart | TakeNext u64 | TakePause u64 | TakeKeep u64 | TakeOut

fun producing :: "'m chan_lib \<Rightarrow> nat \<Rightarrow> nat \<Rightarrow> (producer_loc, 'm process world) thread" where
  "producing C c n (PutNext i) = (if i < n then moves_to (PutNext (i + 1)) (blocking (chan_send C c (int i)) (\<lambda>_. Some))
     else moves_to PutGone (call_op (chan_close C c)))"
| "producing C c n PutGone = (\<lambda>w. None)"

fun consuming :: "'m host \<Rightarrow> 'm chan_lib \<Rightarrow> nat \<Rightarrow> (consumer_loc, 'm process world) thread" where
  "consuming h C c TakeStart = moves_to (TakeNext 0) (resuming h)"
| "consuming h C c (TakeNext acc) = wakes (chan_recv C c) (\<lambda>(got, ok). if ok then TakeNext (acc + of_int got) else TakePause acc)"
| "consuming h C c (TakePause acc) = moves_to (TakeKeep acc) (pausing h)"
| "consuming h C c (TakeKeep acc) = moves_to TakeOut (keep_u64 acc)"
| "consuming h C c TakeOut = (\<lambda>w. None)"

definition prodcons_row_body :: "(nat \<Rightarrow> bool) \<Rightarrow> 'm host \<Rightarrow> 'm sched_lib \<Rightarrow> 'm chan_lib \<Rightarrow> 'm cstmt" where
  "prodcons_row_body sc h S C = calling (chan_make C PRODCONS_CAP) (\<lambda>c.
     if c = 0 then Some else calling (go_launch S) (\<lambda>ok. if \<not> ok then Some else block [
       reading_n (\<lambda>n. together sc (consuming h C c) (producing C c (nat n)) (\<lambda>p. p = TakeOut) TakeStart (PutNext 0)),
       call_op (chan_free C c)]))"

definition bench_chan_prodcons :: "(nat \<Rightarrow> bool) \<Rightarrow> 'm host \<Rightarrow> 'm runtime_lib \<Rightarrow> 'm sched_lib \<Rightarrow> 'm chan_lib \<Rightarrow> 'm cstmt" where
  "bench_chan_prodcons sc h R S C = run_with_one_p h R (prodcons_row_body sc h S C)"

definition chan_pair_table :: "(nat \<Rightarrow> bool) \<Rightarrow> 'm host \<Rightarrow> 'm runtime_lib \<Rightarrow> 'm sched_lib \<Rightarrow> 'm chan_lib \<Rightarrow> 'm select_lib
    \<Rightarrow> (string \<times> 'm cstmt) list" where
  "chan_pair_table sc h R S C X = [
     (''chan_pingpong_unbuffered'', bench_chan_pingpong_unbuffered sc h R S C X),
     (''chan_pingpong_buffered'', bench_chan_pingpong_buffered sc h R S C),
     (''chan_prodcons'', bench_chan_prodcons sc h R S C)]"

section \<open>The contract\<close>

lemma buffered_threads_move:
  "host_ok h \<Longrightarrow> buffered_main h S C c1 c2 n p w = Some (p', w') \<Longrightarrow> advances clock w w'"
  "buffered_child C c1 c2 q w = Some (q', w') \<Longrightarrow> advances clock w w'"
proof -
  show "advances clock w w'" if "host_ok h" "buffered_main h S C c1 c2 n p w = Some (p', w')"
    using that by (cases p; auto split: if_splits simp: bind_eq_Some_conv dest: wakes_advances spin_until_advances
        elim!: moves_to_advances [rotated] intro!: contract_rules)
  show "advances clock w w'" if "buffered_child C c1 c2 q w = Some (q', w')"
    using that by (cases q; auto split: if_splits simp: moving.R_refl dest: wakes_advances
        elim!: moves_to_advances [rotated] intro!: contract_rules)
qed

lemma pipe_threads_move:
  "host_ok h \<Longrightarrow> consuming h C c p w = Some (p', w') \<Longrightarrow> advances clock w w'"
  "producing C c n q w = Some (q', w') \<Longrightarrow> advances clock w w'"
proof -
  show "advances clock w w'" if "host_ok h" "consuming h C c p w = Some (p', w')"
    using that by (cases p; auto dest: wakes_advances elim!: moves_to_advances [rotated] intro!: contract_rules)
  show "advances clock w w'" if "producing C c n q w = Some (q', w')"
    using that by (cases q; auto split: if_splits elim!: moves_to_advances [rotated] intro!: contract_rules)
qed

lemma chan_pair_bodies_move [contract_rules]:
  assumes "host_ok h"
  shows "does (advances clock) (pingpong_unbuffered_body sc h S C X)" "does (advances clock) (pingpong_buffered_body sc h S C)"
    "does (advances clock) (prodcons_row_body sc h S C)"
proof -
  show "does (advances clock) (pingpong_unbuffered_body sc h S C X)"
    unfolding pingpong_unbuffered_body_def by (intro contract_rules assms)
  show "does (advances clock) (pingpong_buffered_body sc h S C)"
    unfolding pingpong_buffered_body_def
    by (auto intro!: contract_rules intro: buffered_threads_move assms simp del: block.simps)
  show "does (advances clock) (prodcons_row_body sc h S C)"
    unfolding prodcons_row_body_def
    by (auto intro!: contract_rules intro: pipe_threads_move assms simp del: block.simps)
qed

lemma chan_pair_table_moves:
  assumes "host_ok h" and "(nm, f) \<in> set (chan_pair_table sc h R S C X)"
  shows "does (advances clock) f"
  using assms by (auto simp: chan_pair_table_def bench_chan_pingpong_unbuffered_def bench_chan_pingpong_buffered_def bench_chan_prodcons_def
      intro!: contract_rules simp del: block.simps)

section \<open>What the rows rely on\<close>

text \<open>
  Beside the contract of \<open>Chan_Bench\<close>: \<open>opened\<close> are the channels made and not freed. A new channel is none
  of them and leaves them as they are, and a launch and a yield leave all of them as they are.
\<close>

definition chans_seen :: "('m \<Rightarrow> nat \<Rightarrow> int list) \<Rightarrow> ('m \<Rightarrow> nat \<Rightarrow> bool) \<Rightarrow> ('m \<Rightarrow> nat \<Rightarrow> nat) \<Rightarrow> ('m \<Rightarrow> nat set) \<Rightarrow> 'm
    \<Rightarrow> (nat \<Rightarrow> int list) \<times> (nat \<Rightarrow> bool) \<times> (nat \<Rightarrow> nat) \<times> nat set" where
  "chans_seen queued shut cap opened m = (queued m, shut m, cap m, opened m)"

definition chans_law :: "'m chan_lib \<Rightarrow> 'm sched_lib \<Rightarrow> ('m \<Rightarrow> nat \<Rightarrow> int list) \<Rightarrow> ('m \<Rightarrow> nat \<Rightarrow> bool) \<Rightarrow> ('m \<Rightarrow> nat \<Rightarrow> nat)
    \<Rightarrow> ('m \<Rightarrow> nat set) \<Rightarrow> bool" where
  "chans_law C S queued shut cap opened \<longleftrightarrow> chan_law C queued shut cap
   \<and> (\<forall>k m. let (c, t, m') = chan_make C k m in
        (if c = 0 then opened m' = opened m else c \<notin> opened m \<and> opened m' = insert c (opened m))
        \<and> (\<forall>d \<in> opened m. queued m' d = queued m d \<and> shut m' d = shut m d \<and> cap m' d = cap m d))
   \<and> (\<forall>c m. opened (snd (snd (chan_free C c m))) = opened m - {c})
   \<and> (\<forall>c v m. opened (left_by (chan_send C c v) m) = opened m) \<and> (\<forall>c m. opened (left_by (chan_recv C c) m) = opened m)
   \<and> (\<forall>c m. opened (snd (snd (chan_close C c m))) = opened m)
   \<and> (\<forall>m. chans_seen queued shut cap opened (snd (snd (go_launch S m))) = chans_seen queued shut cap opened m)
   \<and> (\<forall>m. chans_seen queued shut cap opened (snd (snd (sched_yield S m))) = chans_seen queued shut cap opened m)"

lemma chans_lawD:
  assumes "chans_law C S queued shut cap opened"
  shows "chan_law C queued shut cap"
    "fst (chan_make C k m) = 0 \<Longrightarrow> opened (snd (snd (chan_make C k m))) = opened m"
    "fst (chan_make C k m) \<noteq> 0 \<Longrightarrow> fst (chan_make C k m) \<notin> opened m"
    "fst (chan_make C k m) \<noteq> 0 \<Longrightarrow> opened (snd (snd (chan_make C k m))) = insert (fst (chan_make C k m)) (opened m)"
    "d \<in> opened m \<Longrightarrow> queued (snd (snd (chan_make C k m))) d = queued m d \<and> shut (snd (snd (chan_make C k m))) d = shut m d
       \<and> cap (snd (snd (chan_make C k m))) d = cap m d"
    "opened (snd (snd (chan_free C c m))) = opened m - {c}"
    "opened (left_by (chan_send C c v) m) = opened m" "opened (left_by (chan_recv C c) m) = opened m"
    "opened (snd (snd (chan_close C c m))) = opened m"
  using assms unfolding chans_law_def by (simp_all add: split_beta Let_def)

lemma chans_same:
  assumes "chans_law C S queued shut cap opened"
  shows "queued (snd (snd (go_launch S m))) = queued m" "shut (snd (snd (go_launch S m))) = shut m"
    "cap (snd (snd (go_launch S m))) = cap m" "opened (snd (snd (go_launch S m))) = opened m"
    "queued (snd (snd (sched_yield S m))) = queued m" "shut (snd (snd (sched_yield S m))) = shut m"
    "cap (snd (snd (sched_yield S m))) = cap m" "opened (snd (snd (sched_yield S m))) = opened m"
  using assms unfolding chans_law_def chans_seen_def by simp_all

lemma new_chan:
  assumes "chans_law C S queued shut cap opened" and "fst (chan_make C k m) \<noteq> 0"
  shows "queued (snd (snd (chan_make C k m))) (fst (chan_make C k m)) = []"
    "\<not> shut (snd (snd (chan_make C k m))) (fst (chan_make C k m))" "cap (snd (snd (chan_make C k m))) (fst (chan_make C k m)) = k"
  using chan_law_make [OF chans_lawD(1) [OF assms(1)], of k m "fst (chan_make C k m)"] assms(2) by (simp_all add: prod_eq_iff)

text \<open>The steps of the threads.\<close>

lemma send_done:
  assumes "chan_law C queued shut cap" and "\<not> shut m c" and "length (queued m c) < cap m c"
  shows "chan_send C c v m \<noteq> None" "queued (left_by (chan_send C c v) m) = (queued m)(c := queued m c @ [v])"
    "shut (left_by (chan_send C c v) m) = shut m" "cap (left_by (chan_send C c v) m) = cap m"
proof -
  obtain t m' where "chan_send C c v m = Some ((), t, m')" "same_shape shut cap m m'" "queued m' = (queued m)(c := queued m c @ [v])"
    by (rule chan_law_send [OF assms])
  then show "chan_send C c v m \<noteq> None" "queued (left_by (chan_send C c v) m) = (queued m)(c := queued m c @ [v])"
    "shut (left_by (chan_send C c v) m) = shut m" "cap (left_by (chan_send C c v) m) = cap m"
    by (simp_all add: left_by_def same_shape_def)
qed

lemma recv_done:
  assumes "chan_law C queued shut cap" and "queued (machine (rest w)) c = x # xs"
  shows "wakes (chan_recv C c) go w = Some (go (x, True), passed (chan_recv C c) w)"
    "queued (left_by (chan_recv C c) (machine (rest w))) = (queued (machine (rest w)))(c := xs)"
    "shut (left_by (chan_recv C c) (machine (rest w))) = shut (machine (rest w))"
    "cap (left_by (chan_recv C c) (machine (rest w))) = cap (machine (rest w))"
proof -
  obtain t m' where "chan_recv C c (machine (rest w)) = Some ((x, True), t, m')" "same_shape shut cap (machine (rest w)) m'"
    "queued m' = (queued (machine (rest w)))(c := xs)" by (rule chan_law_recv [OF assms])
  then show "wakes (chan_recv C c) go w = Some (go (x, True), passed (chan_recv C c) w)"
    "queued (left_by (chan_recv C c) (machine (rest w))) = (queued (machine (rest w)))(c := xs)"
    "shut (left_by (chan_recv C c) (machine (rest w))) = shut (machine (rest w))"
    "cap (left_by (chan_recv C c) (machine (rest w))) = cap (machine (rest w))"
    by (simp_all add: left_by_def same_shape_def wakes_def)
qed

lemma recv_waits:
  "chan_law C queued shut cap \<Longrightarrow> queued (machine (rest w)) c = [] \<Longrightarrow> \<not> shut (machine (rest w)) c
     \<Longrightarrow> wakes (chan_recv C c) go w = None"
  using chan_law_empty [of C queued shut cap "machine (rest w)" c] by (simp add: wakes_def)

lemma recv_over:
  assumes "chan_law C queued shut cap" and "queued (machine (rest w)) c = []" and "shut (machine (rest w)) c"
  shows "\<exists>v. wakes (chan_recv C c) go w = Some (go (v, False), passed (chan_recv C c) w)"
    "queued (left_by (chan_recv C c) (machine (rest w))) = queued (machine (rest w))"
    "shut (left_by (chan_recv C c) (machine (rest w))) = shut (machine (rest w))"
    "cap (left_by (chan_recv C c) (machine (rest w))) = cap (machine (rest w))"
proof -
  obtain v t m' where "chan_recv C c (machine (rest w)) = Some ((v, False), t, m')" "same_shape shut cap (machine (rest w)) m'"
    "queued m' = queued (machine (rest w))" by (rule chan_law_shut [OF assms])
  then show "\<exists>v. wakes (chan_recv C c) go w = Some (go (v, False), passed (chan_recv C c) w)"
    "queued (left_by (chan_recv C c) (machine (rest w))) = queued (machine (rest w))"
    "shut (left_by (chan_recv C c) (machine (rest w))) = shut (machine (rest w))"
    "cap (left_by (chan_recv C c) (machine (rest w))) = cap (machine (rest w))"
    by (simp_all add: left_by_def same_shape_def wakes_def exI [of _ v])
qed

section \<open>The pipeline comes back\<close>

fun puts :: "nat \<Rightarrow> producer_loc \<Rightarrow> nat" where
  "puts n (PutNext i) = i" | "puts n PutGone = n"

fun takes_from :: "nat \<Rightarrow> nat \<Rightarrow> bool \<Rightarrow> consumer_loc \<Rightarrow> bool" where
  "takes_from n got over TakeStart = (got = 0)"
| "takes_from n got over (TakeNext s) = (s = of_nat (\<Sum>{0..<got}))"
| "takes_from n got over (TakePause s) = (over \<and> got = n \<and> s = of_nat (\<Sum>{0..<n}))"
| "takes_from n got over (TakeKeep s) = (over \<and> got = n \<and> s = of_nat (\<Sum>{0..<n}))"
| "takes_from n got over TakeOut = (over \<and> got = n)"

definition pipe_ok :: "('m \<Rightarrow> nat \<Rightarrow> int list) \<Rightarrow> ('m \<Rightarrow> nat \<Rightarrow> bool) \<Rightarrow> ('m \<Rightarrow> nat \<Rightarrow> nat) \<Rightarrow> ('m \<Rightarrow> nat set) \<Rightarrow> nat \<Rightarrow> nat
    \<Rightarrow> nat set \<Rightarrow> sunk list \<Rightarrow> consumer_loc \<times> producer_loc \<times> 'm process world \<Rightarrow> bool" where
  "pipe_ok queued shut cap opened c n os k = (\<lambda>(p, q, w). let m = machine (rest w) in
     opened m = os \<and> cap m c = PRODCONS_CAP \<and> puts n q \<le> n \<and> shut m c = (q = PutGone)
     \<and> kept w = (if p = TakeOut then k @ [KeptU64 (of_nat (\<Sum>{0..<n}))] else k)
     \<and> (\<exists>got \<le> puts n q. queued m c = map int [got..<puts n q] \<and> takes_from n got (q = PutGone) p))"

fun consumer_steps :: "consumer_loc \<Rightarrow> nat" where
  "consumer_steps TakeStart = 4" | "consumer_steps (TakeNext s) = 3" | "consumer_steps (TakePause s) = 2"
| "consumer_steps (TakeKeep s) = 1" | "consumer_steps TakeOut = 0"

definition pipe_rank :: "('m \<Rightarrow> nat \<Rightarrow> int list) \<Rightarrow> nat \<Rightarrow> nat \<Rightarrow> consumer_loc \<times> producer_loc \<times> 'm process world \<Rightarrow> nat" where
  "pipe_rank queued c n = (\<lambda>(p, q, w). 3 * (n - puts n q) + (if q = PutGone then 0 else 1)
     + length (queued (machine (rest w)) c) + consumer_steps p)"

lemma consumer_lowers:
  assumes "host_ok h" and "chans_law C S queued shut cap opened" and J: "pipe_ok queued shut cap opened c n os k (p, q, w)"
    and s: "consuming h C c p w = Some (p', w')"
  shows "pipe_ok queued shut cap opened c n os k (p', q, w') \<and> pipe_rank queued c n (p', q, w') < pipe_rank queued c n (p, q, w)"
proof -
  let ?m = "machine (rest w)"
  note defs = pipe_ok_def pipe_rank_def Let_def and law = chans_lawD(1) [OF assms(2)]
  obtain got where got: "got \<le> puts n q" "queued ?m c = map int [got..<puts n q]" "takes_from n got (q = PutGone) p"
    using J by (auto simp: defs)
  show ?thesis
  proof (cases p)
    case TakeStart
    with s have w': "p' = TakeNext 0" "w' = bench_resume (gettime h) w" by (simp_all add: moves_to_def resuming_def)
    have "got = 0" using got(3) TakeStart by simp
    with J TakeStart got show ?thesis by (auto simp: w' defs timer_simps host_ok_sel [OF assms(1)])
  next
    case (TakeNext a)
    let ?go = "\<lambda>(got, ok). if ok then TakeNext (a + of_int got) else TakePause a"
    show ?thesis
    proof (cases "queued ?m c")
      case Nil
      have over: "shut ?m c"
      proof (rule ccontr)
        assume "\<not> shut ?m c"
        from recv_waits [OF law Nil this, where go = ?go] s TakeNext
        show False by simp
      qed
      from recv_over(1) [OF law Nil over, where go = ?go] s TakeNext
      have w': "p' = TakePause a" "w' = passed (chan_recv C c) w" by auto
      have "q = PutGone" "got = n" using J over got(1,2) Nil by (auto simp: defs)
      with J TakeNext got recv_over(2-4) [OF law Nil over] show ?thesis by (simp add: w' defs chans_lawD(8) [OF assms(2)] Nil)
    next
      case (Cons x xs)
      from recv_done(1) [OF law Cons, where go = ?go] s TakeNext have w': "p' = TakeNext (a + of_int x)" "w' = passed (chan_recv C c) w" by simp_all
      have x: "got < puts n q" "x = int got" "xs = map int [Suc got..<puts n q]"
        using upt_first [of got "puts n q" x xs] got(2) Cons by simp_all
      have "a + of_int x = of_nat (\<Sum>{0..<Suc got})" using got(3) TakeNext x(2) by simp
      with J TakeNext recv_done(2-4) [OF law Cons] x show ?thesis
        by (auto simp: w' defs chans_lawD(8) [OF assms(2)] Cons intro!: exI [of _ "Suc got"])
    qed
  next
    case (TakePause a)
    with s have "p' = TakeKeep a" "w' = bench_pause (gettime h) w" by (simp_all add: moves_to_def pausing_def)
    with J TakePause show ?thesis by (auto simp: defs timer_simps host_ok_sel [OF assms(1)])
  next
    case (TakeKeep a)
    with s have "p' = TakeOut" "w' = bench_keep_u64 a w" by (simp_all add: moves_to_def keep_u64_def)
    with J TakeKeep show ?thesis by (auto simp: defs)
  qed (use s in simp)
qed

lemma producer_lowers:
  assumes "chans_law C S queued shut cap opened" and J: "pipe_ok queued shut cap opened c n os k (p, q, w)" and "p \<noteq> TakeOut"
    and s: "producing C c n q w = Some (q', w')"
  shows "pipe_ok queued shut cap opened c n os k (p, q', w') \<and> pipe_rank queued c n (p, q', w') < pipe_rank queued c n (p, q, w)"
proof -
  let ?m = "machine (rest w)"
  note defs = pipe_ok_def pipe_rank_def Let_def and law = chans_lawD(1) [OF assms(1)]
  obtain got where got: "got \<le> puts n q" "queued ?m c = map int [got..<puts n q]" "takes_from n got (q = PutGone) p"
    using J by (auto simp: defs)
  show ?thesis
  proof (cases q)
    case (PutNext i)
    have open_c: "\<not> shut ?m c" using J PutNext by (simp add: defs)
    show ?thesis
    proof (cases "i < n")
      case True
      with s PutNext have w': "q' = PutNext (i + 1)" "w' = passed (chan_send C c (int i)) w" "chan_send C c (int i) ?m \<noteq> None"
        by (simp_all add: passed_step split: if_splits)
      from w'(3) have room: "length (queued ?m c) < cap ?m c"
        using chan_law_full [OF law open_c] by (metis not_less)
      note d = send_done [OF law open_c room, of "int i"]
      have "takes_from n got (q' = PutGone) p" using got(3) PutNext by (cases p) (simp_all add: w')
      with J PutNext True got d show ?thesis
        by (auto simp: w'(1,2) defs chans_lawD(7) [OF assms(1)] assms(3) intro!: exI [of _ got])
    next
      case False
      with s PutNext have w': "q' = PutGone" "w' = snd (call (lib (chan_close C c)) w)" by (simp_all add: called_step)
      have "i = n" using J PutNext False by (simp add: defs)
      moreover have "takes_from n got (q' = PutGone) p" using got(3) PutNext by (cases p) (simp_all add: w')
      ultimately show ?thesis using J PutNext got chan_law_close [OF law, of c ?m]
        by (auto simp: w' defs chans_lawD(9) [OF assms(1)] assms(3) intro!: exI [of _ got])
    qed
  qed (use s in simp)
qed

lemma pipe_lively:
  assumes "host_ok h" and "chans_law C S queued shut cap opened"
  shows "lively (consuming h C c) (producing C c n) (\<lambda>p. p = TakeOut) (pipe_ok queued shut cap opened c n os k)
    (pipe_rank queued c n) (\<lambda>(p, q, w). consuming h C c p w \<noteq> None)"
proof (rule lively_if_lowering)
  fix p q and w :: "'a process world"
  assume J: "pipe_ok queued shut cap opened c n os k (p, q, w)" and fin: "p \<noteq> TakeOut"
  { fix p' w' assume "consuming h C c p w = Some (p', w')"
    then show "pipe_ok queued shut cap opened c n os k (p', q, w') \<and> pipe_rank queued c n (p', q, w') < pipe_rank queued c n (p, q, w)"
      by (rule consumer_lowers [OF assms J]) }
  { fix q' w' assume "producing C c n q w = Some (q', w')"
    then show "pipe_ok queued shut cap opened c n os k (p, q', w') \<and> pipe_rank queued c n (p, q', w') < pipe_rank queued c n (p, q, w)"
      by (rule producer_lowers [OF assms(2) J fin]) }
  note law = chans_lawD(1) [OF assms(2)]
  show "consuming h C c p w \<noteq> None \<or> producing C c n q w \<noteq> None"
  proof (cases p)
    case (TakeNext a)
    show ?thesis
    proof (cases "queued (machine (rest w)) c = [] \<and> \<not> shut (machine (rest w)) c")
      case True
      then obtain i where q: "q = PutNext i" using J by (cases q) (auto simp: pipe_ok_def Let_def)
      have "length (queued (machine (rest w)) c) < cap (machine (rest w)) c"
        using J True by (simp add: pipe_ok_def Let_def PRODCONS_CAP_def)
      with send_done(1) [OF law _ this, of "int i"] True have "producing C c n q w \<noteq> None"
        by (simp add: q passed_step called_step del: not_None_eq)
      then show ?thesis ..
    next
      case False
      then show ?thesis using recv_done(1) [OF law, of w c] recv_over(1) [OF law, of w c] TakeNext
        by (cases "queued (machine (rest w)) c") fastforce+
    qed
  qed (use fin in \<open>simp_all add: moves_to_def resuming_def pausing_def keep_u64_def\<close>)
qed

lemma pipe_row_returns:
  fixes w :: "'m process world"
  assumes "host_ok h" and "chans_law C S queued shut cap opened" and "fair sc"
  shows "\<exists>w' sunk. prodcons_row_body sc h S C w = Some w' \<and> kept w' = kept w @ sunk
    \<and> sunk \<in> {[], [KeptU64 (of_nat (\<Sum>{0..<nat (b_n (bch w))}))]}
    \<and> (sunk \<noteq> [] \<longrightarrow> opened (machine (rest w')) = opened (machine (rest w)))
    \<and> ((\<forall>m. fst (chan_make C PRODCONS_CAP m) \<noteq> 0 \<and> fst (go_launch S m)) \<longrightarrow> sunk \<noteq> [])"
proof -
  let ?n = "nat (b_n (bch w))" and ?o = "opened (machine (rest w))"
  let ?c = "fst (chan_make C PRODCONS_CAP (machine (rest w)))" and ?u = "snd (call (lib (chan_make C PRODCONS_CAP)) w)"
  let ?g = "call (lib (go_launch S)) ?u" and ?run = "together sc (consuming h C ?c) (producing C ?c ?n) (\<lambda>p. p = TakeOut) TakeStart (PutNext 0)"
  have run: "prodcons_row_body sc h S C w = (if ?c = 0 then Some ?u else if \<not> fst ?g then Some (snd ?g) else
      block [?run, call_op (chan_free C ?c)] (snd ?g))"
    by (simp add: prodcons_row_body_def calling_def split_beta reading_n_def)
  show ?thesis
  proof (cases "?c \<noteq> 0 \<and> fst ?g")
    case False
    then have "\<not> (\<forall>m. fst (chan_make C PRODCONS_CAP m) \<noteq> 0 \<and> fst (go_launch S m))" by auto
    with False show ?thesis unfolding run by (intro exI [of _ "if ?c = 0 then ?u else snd ?g"] exI [of _ "[]"]) auto
  next
    case True
    then have c: "?c \<noteq> 0" by blast
    note made = new_chan [OF assms(2) c] chans_lawD(3,4) [OF assms(2) c] and same = chans_same [OF assms(2)]
    have "pipe_ok queued shut cap opened ?c ?n (insert ?c ?o) (kept w) (TakeStart, PutNext 0, snd ?g)"
      by (simp add: pipe_ok_def Let_def same made)
    from together_total [OF assms(3) pipe_lively [OF assms(1,2)] this] obtain v q' where
      v: "?run (snd ?g) = Some v" "pipe_ok queued shut cap opened ?c ?n (insert ?c ?o) (kept w) (TakeOut, q', v)" by auto
    from v(2) have k: "kept v = kept w @ [KeptU64 (of_nat (\<Sum>{0..<?n}))]" "opened (machine (rest v)) = insert ?c ?o"
      by (simp_all add: pipe_ok_def Let_def)
    let ?x = "snd (call (lib (chan_free C ?c)) v)"
    have "prodcons_row_body sc h S C w = Some ?x" using True v(1) unfolding run by (simp add: calling_def split_beta)
    moreover have "opened (machine (rest ?x)) = ?o" using k(2) made(4) by (simp add: chans_lawD(6) [OF assms(2)])
    ultimately show ?thesis using k(1) by (intro exI [of _ ?x] exI [of _ "[KeptU64 (of_nat (\<Sum>{0..<?n}))]"]) simp
  qed
qed

lemma one_p_opened:
  fixes w :: "'m process world"
  assumes "host_ok h" and "runtime_keeps R opened"
    and "\<And>u. kept u = kept w \<Longrightarrow> opened (machine (rest u)) = opened (machine (rest w)) \<Longrightarrow> u64_var (rest u) = u64_var (rest w) \<Longrightarrow>
      b_n (bch u) = b_n (bch w) \<Longrightarrow> \<exists>u'. body u = Some u' \<and> Q (kept u') (opened (machine (rest u'))) (u64_var (rest u'))"
  shows "\<exists>w'. run_with_one_p h R body w = Some w' \<and> Q (kept w') (opened (machine (rest w'))) (u64_var (rest w'))"
proof -
  let ?v = "bench_pause (gettime h) w"
  let ?u = "snd (call (lib (runtime_start R)) (snd (call (lib (gomaxprocs R 1)) ?v)))"
  have v: "b_n (bch ?v) = b_n (bch w)" "kept ?v = kept w" "u64_var (rest ?v) = u64_var (rest w)" "machine (rest ?v) = machine (rest w)"
    by (simp_all add: timer_simps host_ok_sel [OF assms(1)])
  have r: "\<And>m. opened (snd (snd (runtime_start R m))) = opened m" "\<And>m. opened (snd (snd (runtime_stop R m))) = opened m"
    "\<And>k m. opened (snd (snd (gomaxprocs R k m))) = opened m"
    using assms(2) by (simp_all add: runtime_keeps_def)
  have "kept ?u = kept w" "opened (machine (rest ?u)) = opened (machine (rest w))" "u64_var (rest ?u) = u64_var (rest w)"
    "b_n (bch ?u) = b_n (bch w)" by (simp_all add: v r)
  from assms(3) [OF this] obtain x where "body ?u = Some x" "Q (kept x) (opened (machine (rest x))) (u64_var (rest x))" by blast
  then show ?thesis
    by (simp add: run_with_one_p_def runtime_main_def pausing_def calling_def split_beta r)
qed

text \<open>
  C28. Liveness: the pipeline row comes back for every schedule that neglects neither goroutine, and its sink gets the
  sum of all the numbers below the count of iterations, modulo \<open>2 ^ 64\<close>, unless the channel cannot be
  made or the producer cannot be launched, when it gets nothing. When it gets the sum, the channel has been given back.
\<close>
theorem prodcons_row_returns:
  fixes w :: "'m process world"
  assumes "host_ok h" and "chans_law C S queued shut cap opened" and "runtime_keeps R opened" and "fair sc"
  shows "\<exists>w' sunk. bench_chan_prodcons sc h R S C w = Some w' \<and> kept w' = kept w @ sunk
    \<and> sunk \<in> {[], [KeptU64 (of_nat (\<Sum>{0..<nat (b_n (bch w))}))]}
    \<and> (sunk \<noteq> [] \<longrightarrow> opened (machine (rest w')) = opened (machine (rest w)))
    \<and> ((\<forall>m. fst (chan_make C PRODCONS_CAP m) \<noteq> 0 \<and> fst (go_launch S m)) \<longrightarrow> sunk \<noteq> [])"
proof -
  let ?all = "\<forall>m. fst (chan_make C PRODCONS_CAP m) \<noteq> 0 \<and> fst (go_launch S m)"
  let ?Q = "\<lambda>k os (vars :: string \<Rightarrow> u64). \<exists>sunk. k = kept w @ sunk \<and> sunk \<in> {[], [KeptU64 (of_nat (\<Sum>{0..<nat (b_n (bch w))}))]}
    \<and> (sunk \<noteq> [] \<longrightarrow> os = opened (machine (rest w))) \<and> (?all \<longrightarrow> sunk \<noteq> [])"
  have "\<exists>w'. run_with_one_p h R (prodcons_row_body sc h S C) w = Some w' \<and> ?Q (kept w') (opened (machine (rest w'))) (u64_var (rest w'))"
  proof (rule one_p_opened [OF assms(1,3), where Q = ?Q])
    fix u :: "'m process world"
    assume u: "kept u = kept w" "opened (machine (rest u)) = opened (machine (rest w))" "b_n (bch u) = b_n (bch w)"
    from pipe_row_returns [OF assms(1,2,4), of u] show "\<exists>u'. prodcons_row_body sc h S C u = Some u' \<and>
      ?Q (kept u') (opened (machine (rest u'))) (u64_var (rest u'))" unfolding u by blast
  qed
  then show ?thesis unfolding bench_chan_prodcons_def by blast
qed

section \<open>The ping pongs come back\<close>

lemma chan_cases_fit:
  assumes "distinct cs" and "length cs = 2" and "set cs \<subseteq> chs"
  shows "fitting (chan_cases (cs ! 0) (cs ! 1)) chs"
proof -
  obtain c1 c2 where "cs = [c1, c2]" using assms(2) by (auto simp: numeral_2_eq_2 length_Suc_conv)
  with assms show ?thesis by (auto simp: fitting_def one_meeting_def meetings_def chan_cases_def shape_cases_def)
qed

text \<open>
  Liveness: the ping pong over channels without a buffer comes back for every schedule that neglects neither
  goroutine, whichever channel cannot be made and whether or not the second goroutine can be launched. Nothing
  goes to the sink. When the second goroutine has run it is counted out once, and both channels have been given
  back; and it does run when nothing fails.
\<close>
theorem unbuffered_row_returns:
  assumes "host_ok h" and "meet_law C S X unbuf stat" and "starts_main R unbuf stat" and "fair sc"
  shows "\<exists>w'. bench_chan_pingpong_unbuffered sc h R S C X w = Some w' \<and> kept w' = kept w
    \<and> (u64_var (rest w') ''chan.pp_gone'' = 0
       \<or> u64_var (rest w') ''chan.pp_gone'' = 1 \<and> unbuf (machine (rest w')) = unbuf (machine (rest w)))
    \<and> ((\<forall>m. fst (chan_make C 0 m) \<noteq> 0 \<and> fst (go_launch S m)) \<longrightarrow> u64_var (rest w') ''chan.pp_gone'' = 1)"
  unfolding bench_chan_pingpong_unbuffered_def pingpong_unbuffered_body_def
  by (rule volley_bench_returns [OF assms]) (simp add: chan_cases_def, simp add: chan_cases_def, rule chan_cases_fit)

text \<open>
  The invariant of the ping pong with a buffer: \<open>a\<close> and \<open>b\<close> are what the two channels hold. One value is on its
  way while the main goroutine waits for its answer, and none while it is about to send.
\<close>

fun pp_holding :: "nat \<Rightarrow> main_loc \<Rightarrow> child_loc \<Rightarrow> int list \<Rightarrow> int list \<Rightarrow> bool" where
  "pp_holding n (VmSend i) q a b = (i \<le> n \<and> q = VcRecv \<and> a = [] \<and> b = [])"
| "pp_holding n (VmRecv i) q a b = (i < n \<and> (q = VcRecv \<and> a = [1] \<and> b = [] \<or> q \<in> {VcTest 1, VcSend 1} \<and> a = [] \<and> b = []
     \<or> q = VcRecv \<and> a = [] \<and> b = [1]))"
| "pp_holding n VmAway q a b = (b = [] \<and> (q = VcRecv \<and> a = [0] \<or> q \<in> {VcTest 0, VcAdd, VcGone} \<and> a = []))"
| "pp_holding n VmOut q a b = (q = VcGone)"
| "pp_holding n p q a b = (p \<in> {VmStart, VmStop, VmLast} \<and> q = VcRecv \<and> a = [] \<and> b = [])"

definition buffered_ok :: "('m \<Rightarrow> nat \<Rightarrow> int list) \<Rightarrow> ('m \<Rightarrow> nat \<Rightarrow> bool) \<Rightarrow> ('m \<Rightarrow> nat \<Rightarrow> nat) \<Rightarrow> ('m \<Rightarrow> nat set) \<Rightarrow> nat \<Rightarrow> nat \<Rightarrow> nat
    \<Rightarrow> nat set \<Rightarrow> sunk list \<Rightarrow> main_loc \<times> child_loc \<times> 'm process world \<Rightarrow> bool" where
  "buffered_ok queued shut cap opened c1 c2 n os k = (\<lambda>(p, q, w). let m = machine (rest w) in
     kept w = k \<and> opened m = os \<and> \<not> shut m c1 \<and> \<not> shut m c2 \<and> cap m c1 = 1 \<and> cap m c2 = 1
     \<and> pp_holding n p q (queued m c1) (queued m c2)
     \<and> u64_var (rest w) ''chan.pp_stop'' = (if p \<in> {VmLast, VmAway, VmOut} then 1 else 0)
     \<and> u64_var (rest w) ''chan.pp_gone'' = (if q = VcGone then 1 else 0))"

fun main_ahead :: "nat \<Rightarrow> main_loc \<Rightarrow> nat" where
  "main_ahead n VmStart = 2 * n + 5" | "main_ahead n (VmSend i) = 2 * (n - i) + 4" | "main_ahead n (VmRecv i) = 2 * (n - i) + 3"
| "main_ahead n VmStop = 3" | "main_ahead n VmLast = 2" | "main_ahead n VmAway = 1" | "main_ahead n p = 0"

fun child_ahead :: "child_loc \<Rightarrow> int list \<Rightarrow> nat" where
  "child_ahead VcRecv a = 4 * length a" | "child_ahead (VcTest v) a = 3" | "child_ahead (VcSend v) a = 2" | "child_ahead VcAdd a = 1"
| "child_ahead q a = 0"

definition buffered_rank :: "('m \<Rightarrow> nat \<Rightarrow> int list) \<Rightarrow> nat \<Rightarrow> nat \<Rightarrow> main_loc \<times> child_loc \<times> 'm process world \<Rightarrow> nat" where
  "buffered_rank queued c1 n = (\<lambda>(p, q, w). 10 * main_ahead n p + child_ahead q (queued (machine (rest w)) c1))"

text \<open>The main goroutine is busy when it can move and does not spin.\<close>

definition chan_pp_busy :: "('m \<Rightarrow> nat \<Rightarrow> int list) \<Rightarrow> nat \<Rightarrow> main_loc \<times> child_loc \<times> 'm process world \<Rightarrow> bool" where
  "chan_pp_busy queued c2 = (\<lambda>(p, q, w). case p of
     VmRecv i \<Rightarrow> queued (machine (rest w)) c2 \<noteq> [] | VmAway \<Rightarrow> q = VcGone | _ \<Rightarrow> True)"

lemma buffered_main_moves:
  assumes "host_ok h" and "chans_law C S queued shut cap opened" and "c1 \<noteq> c2"
    and J: "buffered_ok queued shut cap opened c1 c2 n os k (p, q, w)" and "p \<noteq> VmOut" and busy: "chan_pp_busy queued c2 (p, q, w)"
  shows "\<exists>p' w'. buffered_main h S C c1 c2 n p w = Some (p', w') \<and> buffered_ok queued shut cap opened c1 c2 n os k (p', q, w')
    \<and> buffered_rank queued c1 n (p', q, w') < buffered_rank queued c1 n (p, q, w)"
proof -
  let ?m = "machine (rest w)"
  note defs = buffered_ok_def buffered_rank_def Let_def and law = chans_lawD(1) [OF assms(2)] and same = chans_lawD(7,8) [OF assms(2)]
  have open_c: "\<not> shut ?m c1" "\<not> shut ?m c2" "cap ?m c1 = 1" "cap ?m c2 = 1" using J by (simp_all add: defs)
  have sent: "moves_to x (blocking (chan_send C c1 v) (\<lambda>_. Some)) w = Some (x, passed (chan_send C c1 v) w)"
    "queued (left_by (chan_send C c1 v) ?m) = (queued ?m)(c1 := [v])" "shut (left_by (chan_send C c1 v) ?m) = shut ?m"
    "cap (left_by (chan_send C c1 v) ?m) = cap ?m" if "queued ?m c1 = []" for x :: main_loc and v
  proof -
    have r: "length (queued ?m c1) < cap ?m c1" using that open_c by simp
    note d = send_done [OF law open_c(1) r, of v]
    show "moves_to x (blocking (chan_send C c1 v) (\<lambda>_. Some)) w = Some (x, passed (chan_send C c1 v) w)"
      using d(1) by (simp add: passed_step)
    show "queued (left_by (chan_send C c1 v) ?m) = (queued ?m)(c1 := [v])" "shut (left_by (chan_send C c1 v) ?m) = shut ?m"
      "cap (left_by (chan_send C c1 v) ?m) = cap ?m" using d(2-4) that by simp_all
  qed
  show ?thesis
  proof (cases p)
    case VmStart
    then show ?thesis using J
      by (intro exI [of _ "VmSend 0"] exI [of _ "bench_resume (gettime h) w"])
        (simp add: moves_to_def resuming_def defs timer_simps host_ok_sel [OF assms(1)])
  next
    case (VmSend i)
    with J have i: "i \<le> n" "q = VcRecv" "queued ?m c1 = []" "queued ?m c2 = []" by (simp_all add: defs)
    show ?thesis
    proof (cases "i < n")
      case True
      with VmSend J i sent(1) [OF i(3), of "VmRecv i" 1] sent(2-4) [OF i(3), of 1] show ?thesis
        by (intro exI [of _ "VmRecv i"] exI [of _ "passed (chan_send C c1 1) w"]) (simp add: defs same assms(3) not_sym [OF assms(3)])
    next
      case False
      with VmSend J i show ?thesis
        by (intro exI [of _ VmStop] exI [of _ "bench_pause (gettime h) w"])
          (simp add: moves_to_def pausing_def defs timer_simps host_ok_sel [OF assms(1)])
    qed
  next
    case (VmRecv i)
    with busy J have r: "queued ?m c2 = 1 # []" "queued ?m c1 = []" "q = VcRecv" "i < n" by (auto simp: chan_pp_busy_def defs)
    from VmRecv J r recv_done(1) [OF law r(1), where go = "\<lambda>_. VmSend (Suc i)"] recv_done(2-4) [OF law r(1)] show ?thesis
      by (intro exI [of _ "VmSend (Suc i)"] exI [of _ "passed (chan_recv C c2) w"]) (simp add: defs same assms(3))
  next
    case VmStop
    then show ?thesis using J by (auto simp: set_step defs perform_def)
  next
    case VmLast
    with J have i: "q = VcRecv" "queued ?m c1 = []" "queued ?m c2 = []" by (simp_all add: defs)
    with VmLast J sent(1) [OF i(2), of VmAway 0] sent(2-4) [OF i(2), of 0] show ?thesis
      by (intro exI [of _ VmAway] exI [of _ "passed (chan_send C c1 0) w"]) (simp add: defs same assms(3) not_sym [OF assms(3)])
  next
    case VmAway
    with busy J have "q = VcGone" "u64_var (rest w) ''chan.pp_gone'' \<noteq> 0" by (auto simp: chan_pp_busy_def defs)
    with VmAway J show ?thesis by (intro exI [of _ VmOut] exI [of _ w]) (simp add: spin_until_def defs)
  qed (use J assms(5) in \<open>simp_all add: defs\<close>)
qed

lemma buffered_main_waits:
  assumes "chans_law C S queued shut cap opened"
    and J: "buffered_ok queued shut cap opened c1 c2 n os k (p, q, w)" and "p \<noteq> VmOut" and idle: "\<not> chan_pp_busy queued c2 (p, q, w)"
    and s: "buffered_main h S C c1 c2 n p w = Some (p', w')"
  shows "buffered_ok queued shut cap opened c1 c2 n os k (p', q, w') \<and> buffered_rank queued c1 n (p', q, w') = buffered_rank queued c1 n (p, q, w)
    \<and> \<not> chan_pp_busy queued c2 (p', q, w') \<and> p' \<noteq> VmOut"
proof (cases p)
  case (VmRecv i)
  have e: "queued (machine (rest w)) c2 = []" "\<not> shut (machine (rest w)) c2"
    using VmRecv idle J by (auto simp: chan_pp_busy_def buffered_ok_def Let_def)
  from recv_waits [OF chans_lawD(1) [OF assms(1)] e, where go = "\<lambda>_. VmSend (Suc i)"] s VmRecv show ?thesis by simp
next
  case VmAway
  with idle J have g: "q \<noteq> VcGone" "u64_var (rest w) ''chan.pp_gone'' = 0" by (auto simp: chan_pp_busy_def buffered_ok_def Let_def)
  with s VmAway have w': "p' = VmAway" "w' = snd (call (lib (sched_yield S)) w)"
    by (auto simp: spin_until_def calling_def split_beta)
  with VmAway J idle g show ?thesis
    by (simp add: chan_pp_busy_def buffered_ok_def buffered_rank_def Let_def chans_same [OF assms(1)])
qed (use idle assms(3) J in \<open>simp_all add: chan_pp_busy_def buffered_ok_def Let_def\<close>)

lemma buffered_child_lowers:
  assumes "chans_law C S queued shut cap opened" and "c1 \<noteq> c2"
    and J: "buffered_ok queued shut cap opened c1 c2 n os k (p, q, w)" and "p \<noteq> VmOut"
    and s: "buffered_child C c1 c2 q w = Some (q', w')"
  shows "buffered_ok queued shut cap opened c1 c2 n os k (p, q', w') \<and> buffered_rank queued c1 n (p, q', w') < buffered_rank queued c1 n (p, q, w)"
proof -
  let ?m = "machine (rest w)"
  note defs = buffered_ok_def buffered_rank_def Let_def and law = chans_lawD(1) [OF assms(1)] and same = chans_lawD(7,8) [OF assms(1)]
  have open_c: "\<not> shut ?m c1" "\<not> shut ?m c2" "cap ?m c1 = 1" "cap ?m c2 = 1" and h: "pp_holding n p q (queued ?m c1) (queued ?m c2)"
    using J by (simp_all add: defs)
  show ?thesis
  proof (cases q)
    case VcRecv
    let ?go = "\<lambda>(v, ok). if ok then VcTest v else VcAdd"
    have ne: "queued ?m c1 \<noteq> []"
    proof
      assume "queued ?m c1 = []"
      from recv_waits [OF law this open_c(1), where go = ?go] s VcRecv show False by simp
    qed
    with h VcRecv assms(4) obtain v where v: "queued ?m c1 = [v]" "queued ?m c2 = []"
      "(\<exists>i. p = VmRecv i \<and> v = 1) \<or> p = VmAway \<and> v = 0" by (cases p) auto
    from recv_done(1) [OF law v(1), where go = ?go] s VcRecv have w': "q' = VcTest v" "w' = passed (chan_recv C c1) w" by auto
    from v(3) J VcRecv v(1,2) recv_done(2-4) [OF law v(1)] show ?thesis
      by (auto simp: w' defs same assms(2) not_sym [OF assms(2)])
  next
    case (VcTest v)
    with s have w': "w' = w" "q' = (if u64_var (rest w) ''chan.pp_stop'' \<noteq> 0 then VcAdd else VcSend v)" by auto
    from h VcTest assms(4) have "(\<exists>i. p = VmRecv i \<and> v = 1) \<or> p = VmAway \<and> v = 0" by (cases p) auto
    with J VcTest show ?thesis by (auto simp: w' defs)
  next
    case (VcSend v)
    from h VcSend assms(4) obtain i where p: "p = VmRecv i" "v = 1" "queued ?m c1 = []" "queued ?m c2 = []" by (cases p) auto
    have r: "length (queued ?m c2) < cap ?m c2" using p(4) open_c by simp
    from s VcSend have w': "q' = VcRecv" "w' = passed (chan_send C c2 v) w" by (simp_all add: passed_step split: if_splits)
    from J VcSend p send_done(2-4) [OF law open_c(2) r, of v] show ?thesis by (simp add: w' defs same assms(2))
  next
    case VcAdd
    from h VcAdd assms(4) have p: "p = VmAway" "queued ?m c1 = []" "queued ?m c2 = []" by (cases p; auto)+
    from J VcAdd have "u64_var (rest w) ''chan.pp_gone'' = 0" by (simp add: defs)
    with s VcAdd have w': "q' = VcGone" "machine (rest w') = ?m" "kept w' = kept w" "u64_var (rest w') ''chan.pp_gone'' = 1"
      "u64_var (rest w') ''chan.pp_stop'' = u64_var (rest w) ''chan.pp_stop''"
      by (auto simp: moves_to_def counting_child_def reading_def set_u64_def assign_def perform_def)
    with J VcAdd p show ?thesis by (simp add: defs)
  qed (use s in simp_all)
qed

lemma buffered_child_can:
  assumes "chans_law C S queued shut cap opened"
    and J: "buffered_ok queued shut cap opened c1 c2 n os k (p, q, w)" and "p \<noteq> VmOut" and idle: "\<not> chan_pp_busy queued c2 (p, q, w)"
  shows "buffered_child C c1 c2 q w \<noteq> None"
proof -
  let ?m = "machine (rest w)"
  note law = chans_lawD(1) [OF assms(1)]
  have h: "pp_holding n p q (queued ?m c1) (queued ?m c2)" and c2: "\<not> shut ?m c2" "cap ?m c2 = 1" using J by (simp_all add: buffered_ok_def Let_def)
  have "queued ?m c2 = [] \<and> (q = VcRecv \<and> (\<exists>v. queued ?m c1 = [v]) \<or> q \<in> {VcTest 1, VcSend 1, VcTest 0, VcAdd})"
    using h idle assms(3) by (cases p) (auto simp: chan_pp_busy_def)
  then show ?thesis
  proof (elim conjE disjE exE)
    fix v assume "q = VcRecv" "queued ?m c1 = [v]"
    with recv_done(1) [OF law this(2), where go = "\<lambda>(v, ok). if ok then VcTest v else VcAdd"] show ?thesis by simp
  next
    assume "queued ?m c2 = []" and q: "q \<in> {VcTest 1, VcSend 1, VcTest 0, VcAdd}"
    then have r: "length (queued ?m c2) < cap ?m c2" using c2 by simp
    have "buffered_child C c1 c2 (VcSend 1) w \<noteq> None"
      using send_done(1) [OF law c2(1) r, of 1] by (simp add: passed_step del: not_None_eq)
    moreover have "buffered_child C c1 c2 VcAdd w \<noteq> None"
      by (simp add: moves_to_def counting_child_def reading_def set_u64_def assign_def)
    ultimately show ?thesis using q by auto
  qed
qed

lemma buffered_lively:
  assumes "host_ok h" and "chans_law C S queued shut cap opened" and "c1 \<noteq> c2"
  shows "lively (buffered_main h S C c1 c2 n) (buffered_child C c1 c2) (\<lambda>p. p = VmOut) (buffered_ok queued shut cap opened c1 c2 n os k)
    (buffered_rank queued c1 n) (chan_pp_busy queued c2)"
  by (rule lively_if_waiting)
    (rule buffered_main_moves [OF assms] buffered_main_waits [OF assms(2)] buffered_child_lowers [OF assms(2,3)]
      buffered_child_can [OF assms(2)]; assumption)+

lemma buffered_body_returns:
  fixes w :: "'m process world"
  assumes "host_ok h" and "chans_law C S queued shut cap opened" and "fair sc" and "0 \<notin> opened (machine (rest w))"
    and w: "u64_var (rest w) ''chan.pp_stop'' = 0" "u64_var (rest w) ''chan.pp_gone'' = 0"
  shows "\<exists>w'. pingpong_buffered_body sc h S C w = Some w' \<and> kept w' = kept w
    \<and> (u64_var (rest w') ''chan.pp_gone'' = 0
       \<or> u64_var (rest w') ''chan.pp_gone'' = 1 \<and> opened (machine (rest w')) = opened (machine (rest w)))
    \<and> ((\<forall>m. fst (chan_make C 1 m) \<noteq> 0 \<and> fst (go_launch S m)) \<longrightarrow> u64_var (rest w') ''chan.pp_gone'' = 1)"
proof -
  let ?n = "nat (b_n (bch w))" and ?o = "opened (machine (rest w))"
  let ?a = "call (lib (chan_make C 1)) w" let ?b = "call (lib (chan_make C 1)) (snd ?a)" let ?g = "call (lib (go_launch S)) (snd ?b)"
  let ?run = "together sc (buffered_main h S C (fst ?a) (fst ?b) ?n) (buffered_child C (fst ?a) (fst ?b)) (\<lambda>p. p = VmOut) VmStart VcRecv"
  have run: "pingpong_buffered_body sc h S C w = (if fst ?a = 0 \<or> fst ?b = 0 then Some (snd ?b) else if \<not> fst ?g then Some (snd ?g) else
      block [?run, call_op (chan_free C (fst ?a)), call_op (chan_free C (fst ?b))] (snd ?g))"
    by (simp add: pingpong_buffered_body_def calling_def split_beta reading_n_def)
  let ?all = "\<forall>m. fst (chan_make C 1 m) \<noteq> 0 \<and> fst (go_launch S m)"
  show ?thesis
  proof (cases "fst ?a \<noteq> 0 \<and> fst ?b \<noteq> 0 \<and> fst ?g")
    case False
    then have "\<not> ?all" by auto
    with False w(2) show ?thesis unfolding run by (intro exI [of _ "if fst ?a = 0 \<or> fst ?b = 0 then snd ?b else snd ?g"]) auto
  next
    case True
    then have a: "fst (chan_make C 1 (machine (rest w))) \<noteq> 0" and b: "fst (chan_make C 1 (machine (rest (snd ?a)))) \<noteq> 0" by simp_all
    note same = chans_same [OF assms(2)] and na = new_chan [OF assms(2) a] chans_lawD(3,4) [OF assms(2) a]
    note nb = new_chan [OF assms(2) b] chans_lawD(3,4) [OF assms(2) b]
    have in_a: "fst ?a \<in> opened (machine (rest (snd ?a)))" using na(5) by simp
    note still = chans_lawD(5) [OF assms(2) in_a, of 1]
    have ne: "fst ?a \<noteq> fst ?b" using in_a nb(4) by auto
    let ?os = "insert (fst ?b) (insert (fst ?a) ?o)"
    have "buffered_ok queued shut cap opened (fst ?a) (fst ?b) ?n ?os (kept w) (VmStart, VcRecv, snd ?g)"
      using still na nb w by (simp add: buffered_ok_def Let_def same)
    from together_total [OF assms(3) buffered_lively [OF assms(1,2) ne] this] obtain v q where
      v: "?run (snd ?g) = Some v" "buffered_ok queued shut cap opened (fst ?a) (fst ?b) ?n ?os (kept w) (VmOut, q, v)" by auto
    from v(2) have k: "kept v = kept w" "opened (machine (rest v)) = ?os" "u64_var (rest v) ''chan.pp_gone'' = 1"
      by (simp_all add: buffered_ok_def Let_def)
    let ?x = "snd (call (lib (chan_free C (fst ?b))) (snd (call (lib (chan_free C (fst ?a))) v)))"
    have x: "pingpong_buffered_body sc h S C w = Some ?x" using True v(1) unfolding run by (simp add: calling_def split_beta)
    have "opened (machine (rest ?x)) = ?os - {fst ?a} - {fst ?b}" using k(2) by (simp add: chans_lawD(6) [OF assms(2)])
    also have "\<dots> = ?o" using na(4,5) nb(4) by auto
    finally show ?thesis using x k by (intro exI [of _ ?x]) simp
  qed
qed

text \<open>
  Liveness: so does the ping pong over channels with a buffer of one: no send in it ever waits, the main goroutine
  spins until the child is gone, and every failure on the way ends the row. Nothing goes to the sink, the child is
  counted out once when it has run, and then both channels have been given back.
\<close>
theorem buffered_row_returns:
  fixes w :: "'m process world"
  assumes "host_ok h" and "chans_law C S queued shut cap opened" and "runtime_keeps R opened" and "fair sc"
    and "0 \<notin> opened (machine (rest w))"
  shows "\<exists>w'. bench_chan_pingpong_buffered sc h R S C w = Some w' \<and> kept w' = kept w
    \<and> (u64_var (rest w') ''chan.pp_gone'' = 0
       \<or> u64_var (rest w') ''chan.pp_gone'' = 1 \<and> opened (machine (rest w')) = opened (machine (rest w)))
    \<and> ((\<forall>m. fst (chan_make C 1 m) \<noteq> 0 \<and> fst (go_launch S m)) \<longrightarrow> u64_var (rest w') ''chan.pp_gone'' = 1)"
proof -
  let ?x = "''chan.pp_gone''" and ?all = "\<forall>m. fst (chan_make C 1 m) \<noteq> 0 \<and> fst (go_launch S m)"
  let ?w = "perform (\<lambda>p. p\<lparr>u64_var := (u64_var p)(''chan.pp_stop'' := 0, ?x := 0)\<rparr>) w"
  let ?Q = "\<lambda>k os vars. k = kept w \<and> (vars ?x = 0 \<or> vars ?x = 1 \<and> os = opened (machine (rest w))) \<and> (?all \<longrightarrow> vars ?x = 1)"
  have "\<exists>w'. run_with_one_p h R (pingpong_buffered_body sc h S C) ?w = Some w'
    \<and> ?Q (kept w') (opened (machine (rest w'))) (u64_var (rest w'))"
  proof (rule one_p_opened [OF assms(1,3), where Q = ?Q])
    fix u :: "'m process world"
    assume u: "kept u = kept ?w" "opened (machine (rest u)) = opened (machine (rest ?w))" "u64_var (rest u) = u64_var (rest ?w)"
    then have "0 \<notin> opened (machine (rest u))" "u64_var (rest u) ''chan.pp_stop'' = 0" "u64_var (rest u) ?x = 0"
      using assms(5) by (simp_all add: perform_def)
    from buffered_body_returns [OF assms(1,2,4) this] u show "\<exists>u'. pingpong_buffered_body sc h S C u = Some u' \<and>
      ?Q (kept u') (opened (machine (rest u'))) (u64_var (rest u'))" by (simp add: perform_def)
  qed
  then show ?thesis by (simp add: bench_chan_pingpong_buffered_def set_u64_def assign_def perform_def)
qed

section \<open>Channels that keep the promises\<close>

text \<open>The channels that were made, and the queues of \<open>Chan_Steps\<close>.\<close>

definition beside :: "nat list \<Rightarrow> 'a \<times> nat \<times> chans \<Rightarrow> 'a \<times> nat \<times> nat list \<times> chans" where
  "beside made = (\<lambda>(r, t, m). (r, t, (made, m)))"

definition many_chans :: "(nat list \<times> chans) chan_lib" where
  "many_chans = \<lparr>
     chan_make = (\<lambda>k (made, m). let c = Suc (sum_list made) in (c, 1, (c # made,
       m\<lparr>queue_of := (queue_of m)(c := []), closed_of := (closed_of m)(c := False), cap_of := (cap_of m)(c := k)\<rparr>))),
     chan_free = (\<lambda>c (made, m). ((), 1, (filter (\<lambda>d. d \<noteq> c) made, m))),
     chan_send = (\<lambda>c v (made, m). map_option (beside made) (chan_send list_chan c v m)),
     chan_recv = (\<lambda>c (made, m). map_option (beside made) (chan_recv list_chan c m)),
     chan_try_recv = (\<lambda>c (made, m). beside made (chan_try_recv list_chan c m)),
     chan_close = (\<lambda>c (made, m). beside made (chan_close list_chan c m)),
     chan_meet = (\<lambda>c v m. m)\<rparr>"

definition many_sched :: "(nat list \<times> chans) sched_lib" where
  "many_sched = \<lparr>go_launch = (\<lambda>m. (True, 1, m)), sched_yield = (\<lambda>m. (1, 1, m))\<rparr>"

lemma many_chans_law:
  "chans_law many_chans many_sched (\<lambda>m. queue_of (snd m)) (\<lambda>m. closed_of (snd m)) (\<lambda>m. cap_of (snd m)) (\<lambda>m. set (fst m))"
  unfolding chans_law_def chan_law_def
  by (intro conjI)
    (auto simp: sends_def receives_def many_chans_def many_sched_def list_chan_def same_shape_def beside_def left_by_def chans_seen_def
      Let_def fresh_sum split: list.splits prod.splits)

lemma many_chans_work: "fst (chan_make many_chans k m) \<noteq> 0 \<and> fst (go_launch many_sched m)"
  by (simp add: many_chans_def many_sched_def Let_def split: prod.splits)

theorem prodcons_row_returns_witness:
  "\<exists>w'. bench_chan_prodcons even (exact_host length (\<lambda>x. 0)) plain_procs many_sched many_chans (row_world 5 ([], empty_chans 0)) = Some w'
     \<and> kept w' = [KeptU64 10]"
proof -
  let ?w = "row_world 5 ([], empty_chans 0) :: (nat list \<times> chans) process world"
  from prodcons_row_returns [OF exact_host_ok [of length "\<lambda>x. 0"] many_chans_law plain_procs_keep fair_alternation, of ?w]
  obtain w' sunk where w': "bench_chan_prodcons even (exact_host length (\<lambda>x. 0)) plain_procs many_sched many_chans ?w = Some w'"
    "kept w' = kept ?w @ sunk" "sunk \<in> {[], [KeptU64 (of_nat (\<Sum>{0..<nat (b_n (bch ?w))}))]}"
    "(\<forall>m. fst (chan_make many_chans PRODCONS_CAP m) \<noteq> 0 \<and> fst (go_launch many_sched m)) \<longrightarrow> sunk \<noteq> []"
    by (elim exE conjE)
  have "sunk \<noteq> []" using w'(4) many_chans_work by simp
  moreover have "\<Sum>{0..<5 :: nat} = 10" by (simp add: eval_nat_numeral)
  ultimately show ?thesis using w'(1-3) by (intro exI [of _ w']) simp
qed

theorem buffered_row_returns_witness:
  "\<exists>w'. bench_chan_pingpong_buffered even (exact_host length (\<lambda>x. 0)) plain_procs many_sched many_chans (row_world 5 ([], empty_chans 0)) = Some w'
     \<and> kept w' = [] \<and> u64_var (rest w') ''chan.pp_gone'' = 1"
proof -
  let ?w = "row_world 5 ([], empty_chans 0) :: (nat list \<times> chans) process world"
  have "0 \<notin> set (fst (machine (rest ?w)))" by simp
  from buffered_row_returns [OF exact_host_ok [of length "\<lambda>x. 0"] many_chans_law plain_procs_keep fair_alternation this]
  obtain w' where w': "bench_chan_pingpong_buffered even (exact_host length (\<lambda>x. 0)) plain_procs many_sched many_chans ?w = Some w'"
    "kept w' = kept ?w"
    "(\<forall>m. fst (chan_make many_chans 1 m) \<noteq> 0 \<and> fst (go_launch many_sched m)) \<longrightarrow> u64_var (rest w') ''chan.pp_gone'' = 1"
    by (elim exE conjE)
  with many_chans_work show ?thesis by (intro exI [of _ w']) (simp only: row_world_sel simp_thms)
qed

theorem unbuffered_row_returns_witness:
  "\<exists>w'. bench_chan_pingpong_unbuffered even (exact_host length (\<lambda>x. 0)) ref_start ref_goroutines ref_unbuffered ref_meeting
       (row_world 5 ([], \<lambda>me. GGone)) = Some w' \<and> kept w' = [] \<and> u64_var (rest w') ''chan.pp_gone'' = 1"
proof -
  let ?w = "row_world 5 ([], \<lambda>me. GGone)"
  have made: "\<forall>m. fst (chan_make ref_unbuffered 0 m) \<noteq> 0 \<and> fst (go_launch ref_goroutines m)"
    by (auto simp: ref_unbuffered_def ref_goroutines_def Let_def)
  from unbuffered_row_returns [OF exact_host_ok [of length "\<lambda>x. 0"] ref_meeting_law ref_starts_main fair_alternation, where w = ?w]
  show ?thesis
  proof (elim exE conjE)
    fix w' assume "bench_chan_pingpong_unbuffered even (exact_host length (\<lambda>x. 0)) ref_start ref_goroutines ref_unbuffered ref_meeting ?w = Some w'"
      "kept w' = kept ?w" "(\<forall>m. fst (chan_make ref_unbuffered 0 m) \<noteq> 0 \<and> fst (go_launch ref_goroutines m)) \<longrightarrow> u64_var (rest w') ''chan.pp_gone'' = 1"
    with made show ?thesis by (intro exI [of _ w']) (simp only: row_world_sel simp_thms)
  qed
qed

end
