(* ===== verification/Program.thy ===== *)
theory Program
  imports Command_Line Catalogue Sort_Bench Func_Bench Error_Bench Defer_Bench Reclaim_Bench Num_Bench
    Hash_Bench Rand_Bench Compress_Bench Map_Rounds Sync_Map_Bench Sync_Pool_Bench Strings_Bench
    Mutex_Bench Chan_Steps Runtime_Bench Big_Bench Regexp_Bench Str_Bench Slice_Bench
    Utf8_Bench Atomic_Bench Clock_Bench Sync_Bench Cond_Bench Wait_Group_Bench Context_Bench Timer_Bench
    Select_Bench
    Synctest_Bench
    Chan_Rows
begin

text \<open>
  The program: \<open>main\<close> of \<open>src/main.c\<close> registers the catalogue and hands the command line
  to \<open>bench_main\<close>. A name that belongs to a modelled file has the body of that file; the
  others are a parameter.
\<close>

section \<open>The whole table\<close>

record 'm burrow =
  arena_of :: "'m arena_lib"
  sort_of :: "'m sort_lib"
  iface_of :: "'m iface_lib"
  error_of :: "'m error_lib"
  scope_of :: "'m scope_fn"
  panic_of :: "'m panic_lib"
  reclaim_of :: "'m reclaim_lib"
  num_of :: "'m num_lib"
  hash_of :: "'m hash_lib"
  rand_of :: "'m rand_lib"
  flate_of :: "'m codec_lib"
  lzw_of :: "'m codec_lib"
  bzip2_of :: "'m codec_lib"
  runtime_of :: "'m runtime_lib"
  map_of_burrow :: "'m map_lib"
  sync_map_of :: "'m sync_map_lib"
  sync_pool_of :: "'m pool_lib"
  strings_of :: "'m strings_lib"
  sched_of :: "'m sched_lib"
  mutex_of :: "'m mutex_lib"
  chan_of :: "'m chan_lib"
  rt_of :: "'m rt_lib"
  big_of :: "'m big_lib"
  regexp_of :: "'m regexp_lib"
  str_of :: "'m str_lib"
  mem_of :: "'m mem_lib"
  slice_of :: "'m slice_lib"
  utf8_of :: "'m utf8_lib"
  atomic_of :: "'m atomic_lib"
  nanotime_of :: "(int, 'm) op"
  note_of :: "'m note_lib"
  thread_of :: "'m thread_lib"
  raw_of :: "'m raw_atomics"
  preempt_of :: "(unit, 'm) op"
  cond_of :: "'m cond_lib"
  wait_group_of :: "'m wait_group_lib"
  context_of :: "'m context_lib"
  timer_of :: "'m timer_lib"
  select_of :: "'m select_lib"
  bubble_of :: "'m bubble_lib"
  turns_of :: "nat \<Rightarrow> bool"
  picks_of :: "nat \<Rightarrow> nat"
  round64 :: "rat \<Rightarrow> rat"
  round32 :: "rat \<Rightarrow> rat"

definition modelled_files :: "'m host \<Rightarrow> 'm burrow \<Rightarrow> (string \<times> 'm cstmt) list list" where
  "modelled_files h B = [
     defer_table (scope_of B),
     error_table h (arena_of B) (error_of B),
     func_table h,
     hash_table (round64 B) (hash_of B),
     iface_table h (arena_of B) (iface_of B),
     map_table h (arena_of B) (map_of_burrow B),
     num_table (round64 B) (num_of B),
     panic_table (panic_of B),
     reclaim_table h (reclaim_of B),
     rand_table h (round32 B) (round64 B) (arena_of B) (rand_of B),
     bzip2_table (bzip2_of B),
     flate_table (flate_of B),
     lzw_table (lzw_of B),
     sort_table h (sort_of B),
     strings_table h (arena_of B) (strings_of B),
     sync_map_table h (runtime_of B) (sync_map_of B),
     sync_pool_table h (runtime_of B) (sync_pool_of B),
     sched_table h (runtime_of B) (sched_of B),
     mutex_table (turns_of B) (picks_of B) h (runtime_of B) (sched_of B) (mutex_of B),
     chan_table h (runtime_of B) (chan_of B),
     runtime_table h (rt_of B),
     big_table h (round64 B) (arena_of B) (big_of B),
     regexp_table h (arena_of B) (regexp_of B),
     str_table h (arena_of B) (str_of B),
     mem_table h (arena_of B) (mem_of B),
     slice_table h (arena_of B) (mem_of B) (slice_of B),
     utf8_table (utf8_of B),
     atomic_table h (atomic_of B),
     clock_table h (nanotime_of B) (note_of B),
     preempt_table h (runtime_of B) (preempt_of B),
     sync_table (turns_of B) h (raw_of B) (note_of B) (thread_of B),
     cond_table (turns_of B) h (runtime_of B) (sched_of B) (cond_of B),
     waitgroup_table h (runtime_of B) (wait_group_of B),
     context_table h (runtime_of B) (context_of B),
     timer_table h (runtime_of B) (arena_of B) (timer_of B),
     select_table (turns_of B) h (runtime_of B) (sched_of B) (chan_of B) (select_of B),
     synctest_table (turns_of B) h (runtime_of B) (sched_of B) (chan_of B) (select_of B) (bubble_of B),
     chan_pair_table (turns_of B) h (runtime_of B) (sched_of B) (chan_of B) (select_of B)]"

definition modelled :: "'m host \<Rightarrow> 'm burrow \<Rightarrow> (string \<times> 'm cstmt) list" where
  "modelled h B = concat (modelled_files h B)"

definition body_of :: "(string \<Rightarrow> 'm cstmt) \<Rightarrow> 'm host \<Rightarrow> 'm burrow \<Rightarrow> string \<Rightarrow> 'm cstmt" where
  "body_of other h B nm = (case map_of (modelled h B) nm of Some f \<Rightarrow> f | None \<Rightarrow> other nm)"

text \<open>\<open>main\<close>: the registrations in order, then the harness.\<close>

definition main_table ::
  "(string \<Rightarrow> 'm cstmt) \<Rightarrow> 'm host \<Rightarrow> 'm burrow \<Rightarrow> 'm process entry list option" where
  "main_table other h B = register_all (map (\<lambda>nm. (nm, body_of other h B nm)) catalogue) []"

definition main ::
  "(string \<Rightarrow> 'm cstmt) \<Rightarrow> 'm host \<Rightarrow> 'm burrow \<Rightarrow> (string \<Rightarrow> rat) \<Rightarrow> string list
     \<Rightarrow> 'm process world \<Rightarrow> (int \<times> out_line list \<times> err_line list \<times> 'm process world) option" where
  "main other h B atof args w = do {
     entries \<leftarrow> main_table other h B;
     bench_main (gettime h) (round64 B) atof entries args w }"

section \<open>The tables of the files\<close>

lemma table_names:
  "map fst (defer_table sc) = register_defer_benchmarks"
  "map fst (error_table h A EL) = register_error_benchmarks"
  "map fst (func_table h) = register_func_benchmarks"
  "map fst (hash_table rnd64 HL) = register_hash_benchmarks"
  "map fst (iface_table h A IL) = register_iface_benchmarks"
  "map fst (map_table h A ML) = register_map_benchmarks"
  "map fst (num_table rnd64 NL) = register_num_benchmarks"
  "map fst (panic_table PL) = register_panic_benchmarks"
  "map fst (reclaim_table h RL) = register_reclaim_benchmarks"
  "map fst (rand_table h rnd32 rnd64 A DL) = register_rand_benchmarks"
  "map fst (bzip2_table BL) = register_bzip2_benchmarks"
  "map fst (flate_table FL) = register_flate_benchmarks"
  "map fst (lzw_table ZL) = register_lzw_benchmarks"
  "map fst (sort_table h SL) = register_sort_benchmarks"
  "map fst (strings_table h A TL) = register_strings_benchmarks"
  "map fst (sync_map_table h R YL) = register_sync_map_benchmarks"
  "map fst (sync_pool_table h R OL) = register_sync_pool_benchmarks"
  "map fst (sched_table h R GL) = filter (\<lambda>nm. nm \<noteq> ''goroutine_handoff'') register_sched_benchmarks"
  "map fst (mutex_table TM PM h R GL XL) = register_mutex_benchmarks"
  "map fst (chan_table h R CL) = take 2 register_chan_benchmarks"
  "map fst (runtime_table h QL) = register_runtime_benchmarks"
  "map fst (big_table h rnd64 A UL) = register_big_benchmarks"
  "map fst (regexp_table h A GX) = register_regexp_benchmarks"
  "map fst (str_table h A VL) = register_str_benchmarks"
  "map fst (mem_table h A KL) = register_mem_benchmarks"
  "map fst (slice_table h A KL JL) = register_slice_benchmarks"
  "map fst (utf8_table UX) = register_utf8_benchmarks"
  "map fst (atomic_table h AX) = register_sync_atomic_benchmarks"
  "map fst (clock_table h TX NX) = register_clock_benchmarks"
  "map fst (preempt_table h R PX) = register_preempt_benchmarks"
  "map fst (sync_table TN h AR NX TH) = register_sync_benchmarks"
  "map fst (cond_table TN h R GL CX) = register_cond_benchmarks"
  "map fst (waitgroup_table h R WX) = register_waitgroup_benchmarks"
  "map fst (context_table h R CY) = register_context_benchmarks"
  "map fst (timer_table h R A TY) = register_timer_benchmarks"
  "map fst (select_table TN h R GL CL SX) = register_select_benchmarks"
  "map fst (synctest_table TS hb RB SB CB XB BB) = register_synctest_benchmarks"
  "map fst (chan_pair_table TP hp RP SP CP XP) = drop 2 register_chan_benchmarks"
  by (simp_all add: defer_table_def error_table_def func_table_def hash_table_def iface_table_def
      num_table_def panic_table_def reclaim_table_def rand_table_def bzip2_table_def flate_table_def
      lzw_table_def sort_table_def map_table_def strings_table_def sync_map_table_def
      sync_pool_table_def sched_table_def mutex_table_def chan_table_def runtime_table_def big_table_def
      regexp_table_def str_table_def mem_table_def slice_table_def utf8_table_def atomic_table_def
      clock_table_def preempt_table_def sync_table_def cond_table_def waitgroup_table_def
      context_table_def timer_table_def select_table_def synctest_table_def chan_pair_table_def register_defs)

lemma main_table_eq:
  "main_table other h B
     = Some (map (\<lambda>nm. \<lparr>e_name = nm, e_fn = body_of other h B nm\<rparr>) catalogue)"
  using register_all_eq [of "[]" "map (\<lambda>nm. (nm, body_of other h B nm)) catalogue"]
  by (simp add: main_table_def BENCH_MAX_def catalogue_length comp_def)

lemma filter_one:
  "distinct (map e_name es) \<Longrightarrow> e \<in> set es \<Longrightarrow> filter (\<lambda>x. e_name x = e_name e) es = [e]"
proof (induction es)
  case (Cons x es)
  show ?case
  proof (cases "x = e")
    case True
    with Cons.prems have "\<forall>y \<in> set es. e_name y \<noteq> e_name e" by (metis distinct.simps(2) image_eqI list.map(2) set_map)
    with True show ?thesis by (simp add: filter_empty_conv)
  next
    case False
    with Cons.prems have "e \<in> set es" by simp
    moreover from this have "e_name x \<noteq> e_name e" using Cons.prems(1) by (metis distinct.simps(2) image_eqI list.map(2) set_map)
    ultimately show ?thesis using Cons by simp
  qed
qed simp

text \<open>
  C12. Functional: the registrations of \<open>main\<close> succeed and make every benchmark addressable. All
  596 benchmarks of the 47 files fit in the table, in the order of the calls; no two have the
  same name; so the filter of a name followed by \<open>$\<close> selects exactly that benchmark.
\<close>
theorem main_registers_all:
  "\<exists>es. main_table other h B = Some es \<and> map e_name es = catalogue \<and> length es = 596
     \<and> (\<forall>e \<in> set es. filter (\<lambda>x. name_matches (e_name x) (e_name e @ ''$'')) es = [e])"
proof -
  let ?es = "map (\<lambda>nm. \<lparr>e_name = nm, e_fn = body_of other h B nm\<rparr>) catalogue"
  have names: "map e_name ?es = catalogue" by (simp add: comp_def)
  then have "distinct (map e_name ?es)" by (simp only: catalogue_distinct)
  then have "filter (\<lambda>x. name_matches (e_name x) (e_name e @ ''$'')) ?es = [e]" if "e \<in> set ?es" for e
    using filter_one [OF _ that] by (simp add: name_matches_dollar)
  with names show ?thesis
    by (intro exI [of _ ?es] conjI) (simp_all add: main_table_eq catalogue_length)
qed

definition silent_map :: "unit map_lib" where
  "silent_map = \<lparr>map_make = (\<lambda>a ty n m. (8, 1, m)), map_set = (\<lambda>p k v m. ((), 1, m)),
     map_get = (\<lambda>p k m. (0, 1, m)), map_get2 = (\<lambda>p k m. (None, 1, m)), map_del = (\<lambda>p k m. ((), 1, m)),
     map_len = (\<lambda>p m. (0, 1, m)), map_clear = (\<lambda>p m. ((), 1, m)), map_iter = (\<lambda>p m. (8, 1, m)),
     map_next = (\<lambda>it m. (None, 1, m))\<rparr>"

definition silent_sync_map :: "unit sync_map_lib" where
  "silent_sync_map = \<lparr>sync_map_init = (\<lambda>p m. ((), 1, m)), sync_store = (\<lambda>p k v m. ((), 1, m)),
     sync_load = (\<lambda>p k m. (None, 1, m)), sync_load_or_store = (\<lambda>p k v m. ((v, False), 1, m)),
     sync_delete = (\<lambda>p k m. ((), 1, m)), sync_range = (\<lambda>p m. ([], 1, m)),
     sync_map_free = (\<lambda>p m. ((), 1, m))\<rparr>"

definition silent_pool :: "unit pool_lib" where
  "silent_pool = \<lparr>pool_init = (\<lambda>m. ((), 1, m)), pool_get = (\<lambda>m. (None, 1, m)),
     pool_put = (\<lambda>v m. ((), 1, m)), pool_free = (\<lambda>m. ([], 1, m)), pool_sweep = (\<lambda>m. ([], 1, m))\<rparr>"

definition silent_chan :: "unit chan_lib" where
  "silent_chan = \<lparr>chan_make = (\<lambda>k m. (0, 1, m)), chan_free = (\<lambda>c m. ((), 1, m)),
     chan_send = (\<lambda>c v m. None), chan_recv = (\<lambda>c m. None), chan_try_recv = (\<lambda>c m. ((0, False), 1, m)),
     chan_close = (\<lambda>c m. ((), 1, m)), chan_meet = (\<lambda>c v m. m)\<rparr>"

definition silent_rt :: "unit rt_lib" where
  "silent_rt = \<lparr>stack_alloc = (\<lambda>p n m. (False, 1, m)), stack_free = (\<lambda>p m. ((), 1, m)),
     stack_bounds = (\<lambda>p m. ((0, 0), 1, m)), stack_set_current = (\<lambda>p m. (0, 1, m)),
     stack_page_size = (\<lambda>m. (4096, 1, m)), mcontext_attach = (\<lambda>p m. (False, 1, m)),
     mcontext_detach = (\<lambda>p m. ((), 1, m)), mcontext_make = (\<lambda>p lo hi f m. (False, 1, m)),
     mcontext_free = (\<lambda>p m. ((), 1, m)), mcontext_switch = (\<lambda>p q m. ((), 1, m)),
     runq_zero = (\<lambda>q m. ((), 1, m)), runq_put = (\<lambda>q g b m. (False, 1, m)), runq_get = (\<lambda>q m. (0, 1, m)),
     runq_steal = (\<lambda>p q b m. (0, 1, m)), runq_put_slow = (\<lambda>q g p m. ((), 1, m)),
     gqueue_zero = (\<lambda>q m. ((), 1, m)), gqueue_push = (\<lambda>q g m. ((), 1, m)), gqueue_pop = (\<lambda>q m. (0, 1, m)),
     gqueue_head = (\<lambda>q m. (0, 1, m)), callers = (\<lambda>p n m. (0, 1, m))\<rparr>"

definition silent_utf8 :: "unit utf8_lib" where
  "silent_utf8 = \<lparr>utf8_decode_rune_in_string = (\<lambda>s m. (0, 1, m)), utf8_decode_rune = (\<lambda>s m. (0, 1, m)),
     utf8_rune_count_in_string = (\<lambda>s m. (0, 1, m)), utf8_valid_string = (\<lambda>s m. (True, 1, m)),
     utf8_encode_rune = (\<lambda>k r m. (1, 1, m)), utf8_rune_len = (\<lambda>r m. (1, 1, m)),
     str_runes = (\<lambda>s m. (8, 1, m)), str_next_rune = (\<lambda>it m. (None, 1, m))\<rparr>"

definition silent_atomic :: "unit atomic_lib" where
  "silent_atomic = \<lparr>add_int64 = (\<lambda>p d m. (d, 1, m)), load_int64 = (\<lambda>p m. (0, 1, m)),
     int64_add = (\<lambda>p d m. (d, 1, m)), int64_load = (\<lambda>p m. (0, 1, m)), int64_store = (\<lambda>p v m. ((), 1, m)),
     int64_cas = (\<lambda>p v v' m. (False, 1, m)), bool_load = (\<lambda>p m. (False, 1, m)),
     bool_store = (\<lambda>p b m. ((), 1, m)), pointer_load = (\<lambda>p m. (0, 1, m)), pointer_store = (\<lambda>p v m. ((), 1, m)),
     value_load = (\<lambda>p m. (0, 1, m)), value_store = (\<lambda>p v m. ((), 1, m))\<rparr>"

definition silent_notes :: "unit note_lib" where
  "silent_notes = \<lparr>note_init = (\<lambda>x m. (False, 1, m)), note_free = (\<lambda>x m. ((), 1, m)),
     note_clear = (\<lambda>x m. ((), 1, m)), note_wake = (\<lambda>x m. ((), 1, m)), note_sleep = (\<lambda>x m. None),
     note_sleep_timeout = (\<lambda>x t m. (False, 1, m))\<rparr>"

definition silent_cond :: "unit cond_lib" where
  "silent_cond = \<lparr>mu_zero = (\<lambda>x m. ((), 1, m)), cond_init = (\<lambda>x y m. ((), 1, m)), mu_lock = (\<lambda>me x m. None),
     mu_unlock = (\<lambda>x m. ((), 1, m)), cond_signal = (\<lambda>x m. ((), 1, m)), cond_broadcast = (\<lambda>x m. ((), 1, m)),
     wait_begin = (\<lambda>me x m. ((), 1, m)), wait_end = (\<lambda>me x m. None)\<rparr>"

definition silent_wait_group :: "unit wait_group_lib" where
  "silent_wait_group = \<lparr>wg_zero = (\<lambda>x m. ((), 1, m)), wg_add = (\<lambda>x k m. ((), 1, m)),
     wg_done = (\<lambda>x m. ((), 1, m)), wg_go = (\<lambda>x m. (False, 1, m)), wg_wait = (\<lambda>x m. None),
     once_enter = (\<lambda>x m. (False, 1, m)), once_leave = (\<lambda>x m. ((), 1, m)),
     once_set = (\<lambda>x r m. ((), 1, m)), once_value = (\<lambda>x m. (0, 1, m))\<rparr>"

definition silent_context :: "unit context_lib" where
  "silent_context = \<lparr>ctx_background = (\<lambda>m. (0, 1, m)), ctx_with_cancel = (\<lambda>a m. (0, 1, m)),
     ctx_with_cancel_cause = (\<lambda>a m. (0, 1, m)), ctx_with_timeout = (\<lambda>a b m. (0, 1, m)),
     ctx_with_value = (\<lambda>a b c m. (0, 1, m)), ctx_without_cancel = (\<lambda>a m. (0, 1, m)),
     ctx_after_func = (\<lambda>a m. (0, 1, m)), ctx_cancel = (\<lambda>a m. ((), 1, m)),
     ctx_cancel_cause = (\<lambda>a b m. ((), 1, m)), ctx_stop = (\<lambda>a m. (False, 1, m)),
     ctx_done = (\<lambda>a m. (0, 1, m)), ctx_err = (\<lambda>a m. (0, 1, m)),
     ctx_cause = (\<lambda>a m. (0, 1, m)), ctx_value = (\<lambda>a b m. ((0, 0), 1, m)),
     ctx_release = (\<lambda>a m. ((), 1, m))\<rparr>"

definition silent_timer :: "unit timer_lib" where
  "silent_timer = \<lparr>time_after_func = (\<lambda>d m. (0, 1, m)), time_timer_stop = (\<lambda>t m. (False, 1, m)),
     time_timer_reset = (\<lambda>t d m. (False, 1, m)), time_timer_free = (\<lambda>t m. ((), 1, m)),
     time_sleep = (\<lambda>d m. ((), 1, m)), gosched_fires = (\<lambda>m. (0, 1, m))\<rparr>"

definition silent_select :: "unit select_lib" where
  "silent_select = \<lparr>sel_begin = (\<lambda>me cs m. (None, 1, m)), sel_end = (\<lambda>me m. None), go_return = (\<lambda>m. ((), 1, m))\<rparr>"

definition silent_bubble :: "unit bubble_lib" where
  "silent_bubble = \<lparr>bubble_open = (\<lambda>m. (False, 1, m)), bubble_close = (\<lambda>m. None), bubble_wait = (\<lambda>m. None),
     bubble_sleep = (\<lambda>k m. ((), 1, m)), chan_try_send = (\<lambda>c v m. (False, 1, m))\<rparr>"

definition silent_burrow :: "unit burrow" where
  "silent_burrow = \<lparr>
     arena_of = \<lparr>arena_init = (\<lambda>a m. ((), 1, m)), arena_reset = (\<lambda>a m. ((), 1, m)),
       arena_free = (\<lambda>a m. ((), 1, m)), mem_stats = (\<lambda>a m. ((0, 0), 1, m))\<rparr>,
     sort_of = toy_sort, iface_of = ref_iface_lib, error_of = ref_error_lib, scope_of = ref_scope,
     panic_of = ref_panic_lib,
     reclaim_of = \<lparr>main_start = (\<lambda>m. ((), 1, m)), main_stop = (\<lambda>m. ([], 1, m)), pin = (\<lambda>m. ((), 1, m)),
       unpin = (\<lambda>m. ((), 1, m)), retire = (\<lambda>x m. ([x], 1, m)), reclaim_drain = (\<lambda>m. ([], 1, m)),
       new_box = (\<lambda>m. (8, 1, m)), free_box = (\<lambda>x m. ((), 1, m))\<rparr>,
     num_of = ref_num_lib, hash_of = ref_hash_lib, rand_of = top_draws,
     flate_of = silent_codec, lzw_of = silent_codec, bzip2_of = silent_codec,
     runtime_of = plain_runtime, map_of_burrow = silent_map, sync_map_of = silent_sync_map,
     sync_pool_of = silent_pool, strings_of = silent_strings,
     sched_of = fair_sched, mutex_of = unit_mutex,
     chan_of = silent_chan, rt_of = silent_rt, big_of = ref_big,
     regexp_of = ref_regexp, str_of = ref_str, mem_of = idle_mem, slice_of = list_slices,
     utf8_of = silent_utf8, atomic_of = silent_atomic, nanotime_of = (\<lambda>m. (0, 1, m)), note_of = silent_notes,
     thread_of = ref_threads, raw_of = ref_raw, preempt_of = (\<lambda>m. ((), 1, m)), cond_of = silent_cond,
     wait_group_of = silent_wait_group, context_of = silent_context, timer_of = silent_timer, select_of = silent_select, bubble_of = silent_bubble, turns_of = even, picks_of = (\<lambda>k. k),
     round64 = (\<lambda>x. of_int \<lfloor>x\<rfloor>), round32 = (\<lambda>x. of_int \<lfloor>x\<rfloor>)\<rparr>"

abbreviation still_host :: "unit host" where
  "still_host \<equiv> exact_host (\<lambda>x. 0) (\<lambda>x. 0)"

theorem main_registers_all_witness:
  "\<exists>es. main_table (\<lambda>nm. Some) still_host silent_burrow = Some es \<and> length es = 596"
  using main_registers_all [of "\<lambda>nm. Some" still_host silent_burrow] by blast

section \<open>The contract of every modelled row\<close>

lemma modelled_moves:
  assumes "host_ok h" and "scope_law (scope_of B)" and "panic_law (panic_of B)"
    and "(nm, f) \<in> set (modelled h B)"
  shows "does (advances clock) f"
  using assms(4) unfolding modelled_def modelled_files_def
  by (auto intro: defer_table_moves [OF assms(2)] error_table_moves func_table_moves hash_table_moves
      iface_table_moves num_table_moves panic_table_moves [OF assms(3)]
      reclaim_table_moves [OF assms(1)] rand_table_moves bzip2_table_moves flate_table_moves
      lzw_table_moves sort_table_moves [OF assms(1)] map_table_moves strings_table_moves
      sync_map_table_moves [OF assms(1)] sync_pool_table_moves [OF assms(1)]
      sched_table_moves [OF assms(1)] mutex_table_moves [OF assms(1)]
      chan_table_moves [OF assms(1)] runtime_table_moves [OF assms(1)] big_table_moves
      regexp_table_moves str_table_moves mem_table_moves [OF assms(1)] slice_table_moves
      utf8_table_moves atomic_table_moves clock_table_moves preempt_table_moves [OF assms(1)]
      sync_table_moves cond_table_moves [OF assms(1)] waitgroup_table_moves [OF assms(1)]
      context_table_moves [OF assms(1)] timer_table_moves [OF assms(1)]
      select_table_moves [OF assms(1)]
      synctest_table_moves [OF assms(1)]
      chan_pair_table_moves [OF assms(1)])

lemma body_of_moves:
  assumes "host_ok h" and "scope_law (scope_of B)" and "panic_law (panic_of B)"
    and "nm \<in> set (map fst (modelled h B))"
  shows "does (advances clock) (body_of other h B nm)"
proof -
  obtain f where f: "map_of (modelled h B) nm = Some f"
    using assms(4) by (metis map_of_eq_None_iff not_None_eq set_map)
  then have "(nm, f) \<in> set (modelled h B)" by (rule map_of_SomeD)
  with f show ?thesis by (simp add: body_of_def modelled_moves [OF assms(1-3)])
qed

text \<open>The rows of the modelled files, by name.\<close>

lemma modelled_names:
  "map fst (modelled h B) = concat [register_defer_benchmarks, register_error_benchmarks,
     register_func_benchmarks, register_hash_benchmarks, register_iface_benchmarks,
     register_map_benchmarks, register_num_benchmarks, register_panic_benchmarks, register_reclaim_benchmarks,
     register_rand_benchmarks, register_bzip2_benchmarks, register_flate_benchmarks,
     register_lzw_benchmarks, register_sort_benchmarks, register_strings_benchmarks,
     register_sync_map_benchmarks, register_sync_pool_benchmarks,
     filter (\<lambda>nm. nm \<noteq> ''goroutine_handoff'') register_sched_benchmarks, register_mutex_benchmarks,
     take 2 register_chan_benchmarks, register_runtime_benchmarks, register_big_benchmarks,
     register_regexp_benchmarks, register_str_benchmarks, register_mem_benchmarks, register_slice_benchmarks,
     register_utf8_benchmarks, register_sync_atomic_benchmarks, register_clock_benchmarks, register_preempt_benchmarks,
     register_sync_benchmarks, register_cond_benchmarks, register_waitgroup_benchmarks,
     register_context_benchmarks, register_timer_benchmarks,
     register_select_benchmarks,
     register_synctest_benchmarks,
     drop 2 register_chan_benchmarks]"
  by (simp add: modelled_def modelled_files_def table_names map_concat)

text \<open>
  C10. Safety: no modelled benchmark can make the harness report a time that did not pass. For each
  of the benchmarks of the modelled files, whatever burrow does and however long it
  takes, and for every count and state of the process, a run that comes back reports a time
  between 0 and the wall time of the run, for the count and under the name it was run with.
\<close>
theorem modelled_rows_within_wall:
  assumes "host_ok h" and "scope_law (scope_of B)" and "panic_law (panic_of B)"
    and "nm \<in> set (map fst (modelled h B))"
    and "run_measured (gettime h) \<lparr>e_name = nm, e_fn = body_of other h B nm\<rparr> n True w
      = Some (b, wall, w')"
  shows "0 \<le> b_ns b \<and> b_ns b \<le> wall \<and> clock (rest w) + wall \<le> clock (rest w')
    \<and> b_n b = n \<and> b_name b = nm"
proof -
  have "benchmark (gettime h) clock (body_of other h B nm)"
    using body_of_moves [OF assms(1-4)] assms(1) by (intro benchmark_if_moves)
  from benchmark.measured [OF this assms(5)] show ?thesis by simp
qed

theorem modelled_rows_within_wall_witness:
  "\<exists>b wall w'. run_measured (gettime still_host)
      \<lparr>e_name = ''iface_call'', e_fn = body_of (\<lambda>nm. Some) still_host silent_burrow ''iface_call''\<rparr> 3 True
      (run_of 0) = Some (b, wall, w') \<and> 0 \<le> b_ns b \<and> b_ns b \<le> wall"
proof -
  have scope: "scope_law (scope_of silent_burrow)" and panic: "panic_law (panic_of silent_burrow)"
    by (simp_all add: silent_burrow_def ref_scope_law ref_panic_law)
  have nm: "''iface_call'' \<in> set (map fst (modelled still_host silent_burrow))"
    unfolding modelled_names by (simp add: register_iface_benchmarks_def)
  have body: "body_of (\<lambda>nm. Some) still_host silent_burrow ''iface_call'' = bench_iface_call"
    by (simp add: body_of_def modelled_def modelled_files_def iface_table_def defer_table_def
        error_table_def func_table_def hash_table_def)
  obtain w1 where "bench_iface_call (bench_resume (gettime still_host)
      (snd (bench_now_ns (gettime still_host) ((run_of 0)\<lparr>bch := zero_bench\<lparr>b_name := ''iface_call'', b_n := 3\<rparr>\<rparr>))))
    = Some w1"
    using direct_call_counts [of "bench_resume (gettime still_host)
      (snd (bench_now_ns (gettime still_host) ((run_of 0)\<lparr>bch := zero_bench\<lparr>b_name := ''iface_call'', b_n := 3\<rparr>\<rparr>)))"]
    by (auto simp: timer_simps int64_max_def bench_iface_call_def bench_direct_call_def
        adder_call_def counter_as_adder_def)
  then obtain b wall w' where r: "run_measured (gettime still_host)
      \<lparr>e_name = ''iface_call'', e_fn = body_of (\<lambda>nm. Some) still_host silent_burrow ''iface_call''\<rparr> 3 True
      (run_of 0) = Some (b, wall, w')"
    by (simp add: run_measured_def body split_beta Let_def)
  from modelled_rows_within_wall [OF exact_host_ok scope panic nm r] r show ?thesis by blast
qed

section \<open>The command line of the program\<close>

text \<open>
  Functional: \<open>-list\<close> prints the 596 names in the order of registration and runs nothing.
\<close>
theorem main_lists:
  "main other h B atof [''-list''] w = Some (0, map NameLine catalogue, [], w)"
  by (simp add: main_def main_table_eq bench_main_def default_opts_def comp_def)

text \<open>
  C11. Functional: a name and \<open>$\<close> run that benchmark alone. When the arguments parse to an
  ordinary run with the filter \<open>nm$\<close> for a registered \<open>nm\<close>, a run that comes back prints
  exactly one row, the row of \<open>nm\<close>, and exits with 0.
\<close>
theorem main_runs_one:
  assumes "main other h B atof args w = Some (code, out, err, w')"
    and "parse_args atof args default_opts = Some p" and "\<not> o_list p"
    and "o_filter p = Some (nm @ ''$'')" and "nm \<in> set catalogue" and "rounding_law (round64 B)"
  shows "map r_name (rows_of out) = [nm] \<and> code = 0 \<and> err = []"
proof -
  let ?es = "map (\<lambda>nm. \<lparr>e_name = nm, e_fn = body_of other h B nm\<rparr>) catalogue"
  have run: "bench_main (gettime h) (round64 B) atof ?es args w = Some (code, out, err, w')"
    using assms(1) by (simp add: main_def main_table_eq)
  have sel: "filter (selected p) ?es = [\<lparr>e_name = nm, e_fn = body_of other h B nm\<rparr>]"
  proof -
    have "filter (selected p) ?es = filter (\<lambda>x. e_name x = nm) ?es"
      by (intro filter_cong) (simp_all add: selected_def assms(4) name_matches_dollar)
    moreover have "distinct (map e_name ?es)" by (simp add: comp_def catalogue_distinct)
    moreover have "\<lparr>e_name = nm, e_fn = body_of other h B nm\<rparr> \<in> set ?es" using assms(5) by simp
    ultimately show ?thesis using filter_one by fastforce
  qed
  from run show ?thesis
  proof (cases rule: bench_main_cases)
    case (ran q target rows)
    with assms(2) have q: "q = p" by simp
    let ?p = "p\<lparr>o_count := clamp_count (o_count p)\<rparr>"
    have s: "selected ?p = (selected p :: 'a process entry \<Rightarrow> bool)" by (auto simp: selected_def fun_eq_iff)
    have "1 \<le> o_count ?p" by (simp add: clamp_count_range)
    from run_entries_rows [OF ran(4) [unfolded q] assms(6) this]
    show ?thesis using ran(5-7) by (auto simp: s sel)
  qed (use assms in auto)
qed

lemma run_entries_none:
  "filter (selected o1) es = [] \<Longrightarrow> run_entries gt rnd64 o1 t es w = Some ([], w)"
  by (induction es) (auto simp: selected_def split: if_splits option.splits)

lemma run_entries_one:
  "filter (selected o1) es = [e] \<Longrightarrow> run_entries gt rnd64 o1 t es w
     = do { (l, w) \<leftarrow> run_entry gt rnd64 o1 t e w; Some ([l], w) }"
proof (induction es)
  case (Cons x es)
  show ?case
  proof (cases "selected o1 x")
    case True
    with Cons.prems have "x = e" "filter (selected o1) es = []" by simp_all
    with True show ?thesis by (simp add: selected_iff run_entries_none)
  next
    case False
    with Cons show ?thesis by (simp add: selected_iff)
  qed
qed simp

theorem main_runs_one_witness:
  "\<exists>code out err w'. main (\<lambda>nm. Some) still_host silent_burrow (\<lambda>s. 0)
       [''-n'', ''5'', ''-run'', ''template_parse_large$''] (run_of 0) = Some (code, out, err, w')
     \<and> map r_name (rows_of out) = [''template_parse_large'']"
proof -
  let ?nm = "''template_parse_large''" and ?args = "[''-n'', ''5'', ''-run'', ''template_parse_large$'']"
  let ?p = "default_opts\<lparr>o_fixed_n := 5, o_filter := Some ''template_parse_large$''\<rparr>"
  let ?q = "default_opts\<lparr>o_fixed_n := 5, o_filter := Some ''template_parse_large$'', o_count := 1\<rparr>"
  let ?h = "still_host"
  let ?e = "\<lparr>e_name = ?nm, e_fn = body_of (\<lambda>nm. Some) ?h silent_burrow ?nm\<rparr>"
  let ?es = "map (\<lambda>nm. \<lparr>e_name = nm, e_fn = body_of (\<lambda>nm. Some) ?h silent_burrow nm\<rparr>) catalogue"
  have args: "parse_args (\<lambda>s. 0) ?args default_opts = Some ?p"
    by (simp add: strtoll10_def digits_value_def is_digit_def is_space_def int64_max_def)
  have cat: "?nm \<in> set catalogue"
    by (simp add: catalogue_def registrations_def register_template_benchmarks_def)
  have "map_of (modelled ?h silent_burrow) ?nm = None"
    unfolding map_of_eq_None_iff set_map [symmetric] modelled_names
    by (simp add: register_defs)
  then have body: "e_fn ?e = Some" by (simp add: body_of_def)
  have d: "distinct (map e_name ?es)" by (simp add: comp_def catalogue_distinct)
  have "filter (selected ?q) ?es = filter (\<lambda>x. e_name x = e_name ?e) ?es"
    by (intro filter_cong) (simp_all add: selected_def name_matches_dollar [of _ ?nm, simplified])
  also have "\<dots> = [?e]" by (rule filter_one [OF d]) (use cat in simp)
  finally have sel: "filter (selected ?q) ?es = [?e]" .
  have "\<exists>l w'. run_entry (gettime ?h) (round64 silent_burrow) ?q 1000000000 ?e (run_of 0) = Some (l, w')"
    using body by (simp add: run_entry_def default_opts_def run_measured_def split_beta Let_def)
  then obtain l w' where "run_entries (gettime ?h) (round64 silent_burrow) ?q 1000000000 ?es (run_of 0)
      = Some ([l], w')"
    by (auto simp: run_entries_one [OF sel])
  then have "\<exists>out. main (\<lambda>nm. Some) ?h silent_burrow (\<lambda>s. 0) ?args (run_of 0) = Some (0, out, [], w')"
    unfolding main_def main_table_eq bench_main_def args option.case Option.bind.simps
    by (simp add: clamp_count_def COUNT_MAX_def Let_def default_opts_def silent_burrow_def one_bench_target)
  then obtain out where run: "main (\<lambda>nm. Some) ?h silent_burrow (\<lambda>s. 0) ?args (run_of 0)
      = Some (0, out, [], w')" by blast
  have r: "rounding_law (round64 silent_burrow)" by (simp add: silent_burrow_def rounding_floor)
  have "\<not> o_list ?p" "o_filter ?p = Some (?nm @ ''$'')" by (simp_all add: default_opts_def)
  from main_runs_one [OF run args this cat r]
  have "map r_name (rows_of out) = [?nm]" by simp
  with run show ?thesis by (intro exI conjI)
qed

end
