(* ===== verification/Spec2Isabelle.thy ===== *)
theory Spec2Isabelle
  imports Program
begin

text \<open>
  burrow-bench is a benchmark harness for burrow, a C library with a runtime in the manner of Go.
  A program of two source files, \<open>src/main.c\<close> and \<open>src/bench.c\<close>, runs the 596 benchmarks
  that the 47 files of \<open>bench/\<close> register, and prints one row for each that the command line
  selects. This development models the harness whole and the benchmark files one by one. Burrow
  itself is not in the repository: each of its operations is a parameter, a function from the state
  of the machine to a result, a duration and a new state, gathered in one record per package.
  What a theorem needs of such an operation is a named hypothesis, a law that states its documented
  behaviour, and a witness shows on a concrete instance that the law can hold.

  \<^bold>\<open>How a C function is modelled.\<close> A statement is a function from the state before to an
  \<open>option\<close> of the state after (theory \<open>Prelude\<close>). \<open>None\<close> is a run that does not come back:
  an abort, an endless loop, or arithmetic that C11 leaves undefined. \<open>int64_t\<close> and burrow's
  \<open>Int\<close> are mathematical integers whose operations check the range (\<open>add64\<close>, \<open>mul64\<close>, ...);
  unsigned types are words; a \<open>double\<close> is an exact rational number with an explicit rounding
  function. The state is the handle \<open>*b\<close>, the log of writes to the two volatile sinks, and the
  process: clock, static variables by name, and the machine that only burrow changes (theories
  \<open>Timer\<close> and \<open>Process\<close>).

  \<^bold>\<open>The harness, \<open>src/bench.c\<close> and \<open>include/bench.h\<close>.\<close>
  \<^item> \<open>Timer\<close>: \<open>struct Bench\<close>, the sinks, both branches of \<open>bench_now_ns\<close>, pause, resume, and
    the macro \<open>BENCH_LOOP\<close>, which reads \<open>b->n\<close> again in every round and is shown equal to a counted
    loop; the split division of the Windows clock is exact.
  \<^item> \<open>Runner\<close>: \<open>run_measured\<close> and \<open>pick_n\<close>. The locale \<open>benchmark\<close> is the contract that a
    benchmark function owes the harness (its handle comes back with the fields only the timer writes
    changed by the timer, and the clock never runs backwards). Under it the reported time lies between 0 and the wall
    time. The search of \<open>pick_n\<close> makes at most thirty rounds, the bound of the C loop. For targets up to
    7.68 seconds no product overflows, and for a benchmark of constant cost thirty rounds are enough
    to reach the target or the cap \<open>N_MAX\<close>, \<open>10 ^ 9\<close>; with \<open>-time 100\<close> a product does overflow.
  \<^item> \<open>Registry\<close>, \<open>Statistics\<close>, \<open>Command\<close>, \<open>Command_Line\<close>: the table and the filter, the median and
    the spread, and \<open>bench_main\<close> with its arguments, rows and exit codes. A printed line is a value with
    the arguments of its \<open>printf\<close>. \<open>Command_Line\<close> says which argument vectors are accepted and what they
    mean, and that decimal values are read back as the numbers they are; \<open>strtol\<close> has the 64 bit \<open>long\<close>
    of LP64 systems.
  \<^item> \<open>Catalogue\<close>, \<open>Program\<close>: every registration call of the 47 files in order, and \<open>main\<close>. A name
    that belongs to a modelled file has the body of that file, the others are the parameter
    \<open>other\<close>. The names are distinct and fit in the table, so every benchmark can be run alone, and
    no modelled body can make the harness report a time that did not pass.

  \<^bold>\<open>The benchmark files\<close>, one theory each unless said otherwise, with the static data, the
  helper functions, a definition \<open>bench_x\<close> for every \<open>BENCH(x)\<close>, and the table that the
  file registers.
  \<^item> \<open>Sort_Bench\<close>: an integer row times the sort alone, and every round sorts the same input.
  \<^item> \<open>Iface_Bench\<close>, \<open>Func_Bench\<close>: calls through tables and closures; the reader that hands out a
    stream in chunks and the copies that move all of it.
  \<^item> \<open>Error_Bench\<close>, \<open>Defer_Bench\<close> (\<open>defer_bench.c\<close> and \<open>panic_bench.c\<close>): walks along error
    chains; deferred calls that run once, also when a panic passes.
  \<^item> \<open>Reclaim_Bench\<close>, \<open>Sync_Pool_Bench\<close>: the free list and the ring of buffers; nothing leaks, and
    nothing is handed out that is not in the ring.
  \<^item> \<open>Num_Bench\<close>, \<open>Rand_Bench\<close>, \<open>Hash_Bench\<close>: integer arithmetic in pairs of rows that agree; the
    totals of random draws, which overflow exactly when the draws add up to too much; keys of a hash.
  \<^item> \<open>Compress_Bench\<close> (\<open>flate_bench.c\<close>, \<open>lzw_bench.c\<close>, \<open>bzip2_bench.c\<close>), \<open>Strings_Bench\<close>: inputs
    that are built by repetition or by a generator, and round trips whose checks cannot fire. The law of a
    codec promises what decodes only of a writer that has been closed, and of a reader only from its start. The
    loop that builds the hard input of \<open>strings_bench.c\<close> has no bound in C and is shown to end.
  \<^item> \<open>Map_Bench\<close>, \<open>Map_Rounds\<close>, \<open>Sync_Map_Bench\<close>: tables of 1024 keys that are filled, read, walked,
    updated and emptied; what each round finds and leaves. \<open>Map_Rounds\<close> puts a recorder between a row and
    its map, and says call by call what the filling and emptying rows ask and what the table then holds.
  \<^item> \<open>Sched_Gate\<close>, \<open>Sched_Bench\<close> (\<open>sched_bench.c\<close>), \<open>Mutex_Bench\<close>: goroutines. The blocking
    handoff through two gates is a step relation over every interleaving of the two goroutines, with
    the gates' locks, parking and readying as single steps; it refines a specification without
    locks in which four events take turns, never readies a goroutine that is not parked, and ends
    after at most \<open>140 n + 314\<close> steps that change the state. The other rows of that file are sequential: a
    yield gives a number of pending goroutines their turns. Waiting loops without a bound are
    \<open>while_loop\<close> of \<open>Runtime_Lib\<close>, whose value is \<open>None\<close> when they do not end; they are shown to end
    from the fairness of the yield alone, or, for a batch that could not be launched, not to. The contended
    rows of \<open>mutex_bench.c\<close> are the main goroutine and a crowd of four workers (theory \<open>Crowd\<close>), each lock and
    unlock a step of its own: a law says when a lock blocks, and under every fair schedule the rows come back
    with every worker reported and nobody left with the lock.
  \<^item> \<open>Chan_Bench\<close>, \<open>Chan_Steps\<close> (\<open>chan_bench.c\<close>): channels with the contract of a bounded queue. A
    channel operation that would block is \<open>None\<close>. The rows of one goroutine never block; the pipeline
    and the ping pong are step relations over every interleaving. The pipeline ends after at most \<open>2 n + 2\<close>
    operations with every number delivered, the ping pong after exactly \<open>5 n + 7\<close> steps, or \<open>3 n + 6\<close> without
    a buffer, with every volley answered. \<open>Chan_Rows\<close> has the
    same rows as statements, with the frames that make the channels and launch the second goroutine:
    under every fair schedule they come back, whichever of those operations fails.
  \<^item> \<open>Runtime_Bench\<close>: contexts, stacks, run queues and traces; what comes out of a queue, that the
    worker context returns once, and what a failed setup reports.
  \<^item> \<open>Big_Bench\<close>: big integers, fractions and floats as the numbers they stand for. The generator of
    the operands sets their high bit, so the rows compute numbers of the size they are named for.
  \<^item> \<open>Regexp_Lib\<close>, \<open>Regexp_Bench\<close>: regular expressions. The first theory gives the patterns of the
    file their meaning, sets of positions where a match may end, with the leftmost and longest
    search that the contract of the library refers to; the second proves that no check of the 61 rows
    can fire, and that a row over a generated text aborts exactly when the pattern occurs in it.
  \<^item> \<open>Str_Bench\<close>, \<open>Slice_Bench\<close>: the rows of a burrow function and of the C function beside it hand
    the same numbers to the sink; what the appending rows build.
  \<^item> \<open>Mem_Bench\<close>: arenas that are reset in time, so that they do not grow with the count; heap rows
    that free every block, except that the row of \<open>realloc\<close> loses one when it fails.

  \<^item> \<open>Utf8_Bench\<close>: what UTF-8 says of the texts of the file, and that the loops over bytes agree with it.
  \<^item> \<open>Atomic_Bench\<close> (\<open>sync_atomic_bench.c\<close>), \<open>Clock_Bench\<close> (\<open>clock_bench.c\<close>, \<open>preempt_bench.c\<close>): atomic
    counters, of which the compare-and-swap row never fails; elapsed times, which come out in order.
  \<^item> \<open>Sync_Bench\<close>, \<open>Cond_Bench\<close>: the ping pong of two threads over two notes and of two goroutines
    over one condition variable. They are programs of two threads (theory \<open>Interleave\<close>): one step is one
    operation on something shared, a schedule, any function from the step number, says who moves, and
    the other one moves when that one is blocked. A run in which both are blocked never comes back. For every
    schedule that neglects neither thread the rows come back; the rank behind that counts how often the turn
    still changes hands, so no fuel is needed.
  \<^item> \<open>Volley\<close>, \<open>Select_Bench\<close>: selects that find a case ready, take the default, or wait. The first theory
    has the ping pong over channels without a buffer that several files share, as a program of two
    threads: an operation is a step that runs or parks and a step that returns when it was woken. Under
    every fair schedule the volleys end, and the frame that makes the channels comes back on every path.
  \<^item> \<open>Wait_Group_Bench\<close> (\<open>waitgroup_bench.c\<close>): groups that are waited for, also when a goroutine could
    not be started, and functions that run once in the life of the program.
  \<^item> \<open>Context_Bench\<close>: trees of contexts. The law promises nothing of the nil context or of released ones.
    When no allocation fails every context that a row makes is released once, and after those made under it,
    and the rows are told what the tree says; the three rows that check for nil give back what they made
    whichever allocation fails. Most of the other rows use the context they asked for without that check.
  \<^item> \<open>Synctest_Bench\<close>: bubbles. The ping pong of \<open>Volley\<close> in a bubble, and a receiver that the main
    goroutine waits for before each send, as programs of two threads: under every fair schedule no send
    misses it and it is gone before the bubble closes. The rows whose goroutines only count lose none.
  \<^item> \<open>Timer_Bench\<close>: timers that are armed and stopped, and a burst of a thousand that is waited for.
    The rows give their timers back, except that the deep row gives its arena back while its timers are armed
    when an allocation fails.

  \<^bold>\<open>Shared theories.\<close> \<open>Prelude\<close> has the loops and the fact collections, \<open>Process\<close> the statements
  with the rules that follow their syntax (\<open>does\<close>, from which every modelled body gets the contract
  of the harness, in the locale \<open>transition\<close>; and rules for what reaches the sink), \<open>Answers\<close> the
  judgement \<open>gives g s\<close>, that a row comes back from every state with exactly the answers \<open>g\<close> in the
  sink, \<open>Row_Logic\<close> triples for the rows whose answers depend on the state they start from, and
  \<open>Arena_Lib\<close>, \<open>Note_Lib\<close>, \<open>Printf\<close> and \<open>Runtime_Lib\<close> what several files take from burrow and from C.

  \<^bold>\<open>Not modelled.\<close> How \<open>printf\<close> renders a double; \<open>atof\<close>, a parameter; infinities and NaNs, which
  cannot arise from times below \<open>2 ^ 63\<close>; memory beyond the static arrays, so a failing
  \<open>malloc\<close> is modelled only where the source tests for it; the sweep that burrow's monitor thread may
  make during a pool benchmark. The frame of the handoff row,
  which launches the second goroutine, is not connected to its step relation. Bodies of
  the remaining files (text formats and encodings) are the parameter \<open>other\<close>; their names and order are in the catalogue. The Go side of the
  repository, the scripts and the results are outside the development.
\<close>

end
